(* ===== verification/Prelude.thy ===== *)
theory Prelude
  imports Complex_Main "HOL-Library.AList" "HOL-Library.Multiset"
begin

text \<open>
  Shared vocabulary of the NiceTerm development.

  \<^item> \<open>js_text\<close>: a JavaScript string as the list of its UTF-16 code units, for the
    code that inspects terminal data unit by unit. Identifiers and labels, which the code
    only compares and tests for emptiness, are HOL strings; the empty string is falsy.
  \<^item> \<open>index_of\<close>, \<open>starts_with\<close>, \<open>ends_with\<close>: \<open>String.prototype.indexOf\<close>,
    \<open>startsWith\<close>, \<open>endsWith\<close>.
  \<^item> \<open>utf8ByteLength\<close>: the length of \<open>TextEncoder.encode\<close> on a list of code units,
    surrogate pairs and lone surrogates (encoded as U+FFFD) included.
  \<^item> \<open>uniq\<close>: \<open>Array.from(new Set(xs))\<close>, which keeps the first occurrence. A JavaScript
    \<open>Map\<close> is an association list in insertion order: \<open>Map.set\<close> is \<open>AList.update\<close>
    and \<open>Map.delete\<close> is \<open>AList.delete\<close>, which have exactly its ordering.
  \<^item> \<open>show_nat\<close> and \<open>make_id\<close>: template strings that print counters.
  \<^item> the locales \<open>invariant_system\<close> (a step relation with an invariant), \<open>simulation\<close> (an
    input-driven machine that implements an abstract one) and \<open>fresh_ids\<close> (a counter-based id
    generator), which the components interpret.
\<close>

named_theorems text_simps "rewriting facts on code-unit lists"
named_theorems inv_intros "facts that re-establish a component invariant"

type_synonym js_text = "nat list"

section \<open>Strings as code units\<close>

definition js :: "string \<Rightarrow> js_text" where
  "js s = map of_char s"

lemma js_inj: "js a = js b \<longleftrightarrow> a = b"
  by (auto simp: js_def inj_map_eq_map inj_on_def)

definition ascii_lower :: "js_text \<Rightarrow> js_text" where
  "ascii_lower t = map (\<lambda>c. if 65 \<le> c \<and> c \<le> 90 then c + 32 else c) t"

definition starts_with :: "'a list \<Rightarrow> 'a list \<Rightarrow> bool" where
  "starts_with s p \<longleftrightarrow> take (length p) s = p"

definition ends_with :: "'a list \<Rightarrow> 'a list \<Rightarrow> bool" where
  "ends_with s p \<longleftrightarrow> length p \<le> length s \<and> drop (length s - length p) s = p"

fun index_of :: "'a list \<Rightarrow> 'a list \<Rightarrow> nat option" where
  "index_of [] p = (if p = [] then Some 0 else None)"
| "index_of (c # cs) p =
     (if starts_with (c # cs) p then Some 0 else map_option Suc (index_of cs p))"

definition has_text :: "'a list \<Rightarrow> 'a list \<Rightarrow> bool" where
  "has_text s p \<longleftrightarrow> index_of s p \<noteq> None"

lemma starts_with_append [simp]: "starts_with (p @ s) p"
  by (simp add: starts_with_def)

lemma starts_withD: "starts_with s p \<Longrightarrow> s = p @ drop (length p) s"
  by (metis append_take_drop_id starts_with_def)

lemma index_of_Some:
  "index_of s p = Some i \<Longrightarrow> s = take i s @ p @ drop (i + length p) s"
proof (induction s arbitrary: i)
  case Nil
  then show ?case by (simp split: if_splits)
next
  case (Cons c cs)
  show ?case
  proof (cases "starts_with (c # cs) p")
    case True
    with Cons.prems show ?thesis using starts_withD by fastforce
  next
    case False
    with Cons.prems obtain j where "index_of cs p = Some j" "i = Suc j" by auto
    with Cons.IH show ?thesis by fastforce
  qed
qed

lemma index_of_le: "index_of s p = Some i \<Longrightarrow> i + length p \<le> length s"
proof (induction s arbitrary: i)
  case Nil
  then show ?case by (simp split: if_splits)
next
  case (Cons c cs)
  show ?case
  proof (cases "starts_with (c # cs) p")
    case True
    then have "length p \<le> length (c # cs)"
      by (metis length_take min.cobounded1 starts_with_def)
    with True Cons.prems show ?thesis by simp
  next
    case False
    with Cons show ?thesis by auto
  qed
qed

lemma index_of_prefix: "index_of (p @ b) p = Some 0"
  using starts_with_append [of p b] by (cases "p @ b") auto

lemma index_of_append: "index_of (a @ p @ b) p \<noteq> None"
  by (induction a) (auto simp: index_of_prefix)

lemma has_text_iff: "has_text s p \<longleftrightarrow> (\<exists>a b. s = a @ p @ b)"
  unfolding has_text_def using index_of_Some index_of_append by (metis not_None_eq)

section \<open>Splitting and joining\<close>

text \<open>\<open>split\<close> at the units in \<open>P\<close>, and \<open>join\<close>.\<close>

fun splitOn :: "(nat \<Rightarrow> bool) \<Rightarrow> js_text \<Rightarrow> js_text list" where
  "splitOn P [] = [[]]"
| "splitOn P (c # cs) =
     (if P c then [] # splitOn P cs
      else (case splitOn P cs of [] \<Rightarrow> [[c]] | w # ws \<Rightarrow> (c # w) # ws))"

fun joinWith :: "js_text \<Rightarrow> js_text list \<Rightarrow> js_text" where
  "joinWith sep [] = []"
| "joinWith sep [w] = w"
| "joinWith sep (w # v # ws) = w @ sep @ joinWith sep (v # ws)"

lemma splitOn_nonempty [simp]: "splitOn P t \<noteq> []"
  by (induction t) (auto split: list.split)

lemma splitOn_none: "\<forall>c \<in> set t. \<not> P c \<Longrightarrow> splitOn P t = [t]"
  by (induction t) auto

lemma splitOn_cons: "\<forall>c \<in> set t. \<not> P c \<Longrightarrow> P d \<Longrightarrow> splitOn P (t @ d # r) = t # splitOn P r"
  by (induction t) auto

lemma splitOn_joinWith:
  "ws \<noteq> [] \<Longrightarrow> \<forall>w \<in> set ws. \<forall>c \<in> set w. \<not> P c \<Longrightarrow> P d \<Longrightarrow> splitOn P (joinWith [d] ws) = ws"
  by (induction "[d]" ws rule: joinWith.induct) (simp_all add: splitOn_none splitOn_cons)


section \<open>UTF-16 and the length of its UTF-8 encoding\<close>

definition is_high :: "nat \<Rightarrow> bool" where
  "is_high c \<longleftrightarrow> 0xD800 \<le> c \<and> c \<le> 0xDBFF"

definition is_low :: "nat \<Rightarrow> bool" where
  "is_low c \<longleftrightarrow> 0xDC00 \<le> c \<and> c \<le> 0xDFFF"

definition unit_bytes :: "nat \<Rightarrow> nat" where
  "unit_bytes c = (if c \<le> 0x7f then 1 else if c \<le> 0x7ff then 2 else 3)"

fun utf8ByteLength :: "js_text \<Rightarrow> nat" where
  "utf8ByteLength [] = 0"
| "utf8ByteLength [c] = unit_bytes c"
| "utf8ByteLength (c # d # ds) =
     (if is_high c \<and> is_low d then 4 + utf8ByteLength ds
      else unit_bytes c + utf8ByteLength (d # ds))"

text \<open>Two texts whose seam would form a surrogate pair.\<close>

definition seam_pair :: "js_text \<Rightarrow> js_text \<Rightarrow> bool" where
  "seam_pair a b \<longleftrightarrow> a \<noteq> [] \<and> b \<noteq> [] \<and> is_high (last a) \<and> is_low (hd b)"

definition text_ok :: "js_text \<Rightarrow> bool" where
  "text_ok t \<longleftrightarrow> t = [] \<or> \<not> is_low (hd t)"

lemma high_not_low: "is_high c \<Longrightarrow> \<not> is_low c"
  by (simp add: is_high_def is_low_def)

lemma high_bytes: "is_high c \<Longrightarrow> unit_bytes c = 3" "is_low c \<Longrightarrow> unit_bytes c = 3"
  by (auto simp: is_high_def is_low_def unit_bytes_def)

lemma utf8_cons:
  "\<not> (is_high c \<and> s \<noteq> [] \<and> is_low (hd s)) \<Longrightarrow>
   utf8ByteLength (c # s) = unit_bytes c + utf8ByteLength s"
  by (cases s) auto

lemma utf8_append: "\<not> seam_pair a b \<Longrightarrow> utf8ByteLength (a @ b) = utf8ByteLength a + utf8ByteLength b"
proof (induction a rule: utf8ByteLength.induct)
  case 1
  then show ?case by simp
next
  case (2 c)
  then show ?case by (auto simp: seam_pair_def utf8_cons)
next
  case (3 c d ds)
  show ?case
  proof (cases "is_high c \<and> is_low d")
    case True
    have "\<not> seam_pair ds b"
      using "3.prems" by (cases ds) (auto simp: seam_pair_def)
    with True "3.IH"(1) show ?thesis by simp
  next
    case False
    have "\<not> seam_pair (d # ds) b"
      using "3.prems" by (auto simp: seam_pair_def)
    with False "3.IH"(2) show ?thesis by auto
  qed
qed

lemma utf8_append_ok: "text_ok b \<Longrightarrow> utf8ByteLength (a @ b) = utf8ByteLength a + utf8ByteLength b"
  by (rule utf8_append) (auto simp: text_ok_def seam_pair_def)

lemma utf8_append_le: "utf8ByteLength (a @ b) \<le> utf8ByteLength a + utf8ByteLength b"
proof (induction a rule: utf8ByteLength.induct)
  case (2 c)
  show ?case
  proof (cases b)
    case (Cons d ds)
    show ?thesis
    proof (cases "is_high c \<and> is_low d")
      case True
      then have "\<not> is_high d" using high_not_low by blast
      then have "utf8ByteLength (d # ds) = unit_bytes d + utf8ByteLength ds"
        by (intro utf8_cons) simp
      with Cons True show ?thesis by (simp add: high_bytes)
    next
      case False
      with Cons show ?thesis by auto
    qed
  qed simp
qed auto

lemma utf8_append_last:
  "a = [] \<or> \<not> is_high (last a) \<Longrightarrow> utf8ByteLength (a @ b) = utf8ByteLength a + utf8ByteLength b"
  by (rule utf8_append) (auto simp: seam_pair_def)

lemma utf8_zero_iff [simp]: "utf8ByteLength t = 0 \<longleftrightarrow> t = []"
  by (induction t rule: utf8ByteLength.induct) (auto simp: unit_bytes_def)

lemma utf8_pos_iff [simp]: "0 < utf8ByteLength t \<longleftrightarrow> t \<noteq> []"
  by (metis neq0_conv utf8_zero_iff)

lemma utf8_ascii: "\<forall>c \<in> set t. c \<le> 0x7f \<Longrightarrow> utf8ByteLength t = length t"
proof (induction t rule: utf8ByteLength.induct)
  case (3 c d ds)
  then have "\<not> is_high c" by (auto simp: is_high_def)
  with 3 show ?case by (simp add: unit_bytes_def)
qed (auto simp: unit_bytes_def)

lemma length_le_utf8: "length t \<le> utf8ByteLength t"
  by (induction t rule: utf8ByteLength.induct) (auto simp: unit_bytes_def)

section \<open>Lists, sets and maps of the JavaScript library\<close>

definition uniq :: "'a list \<Rightarrow> 'a list" where
  "uniq xs = rev (remdups (rev xs))"

lemma set_uniq [simp]: "set (uniq xs) = set xs"
  by (simp add: uniq_def)

lemma distinct_uniq [simp]: "distinct (uniq xs)"
  by (simp add: uniq_def)

lemma uniq_distinct [simp]: "distinct xs \<Longrightarrow> uniq xs = xs"
  by (simp add: uniq_def distinct_remdups_id)

lemma uniq_eq_Nil [simp]: "uniq xs = [] \<longleftrightarrow> xs = []"
  by (simp add: uniq_def)

lemma uniq_Nil [simp]: "uniq [] = []"
  by (simp add: uniq_def)

text \<open>\<open>Array.prototype.findIndex\<close>, with \<open>None\<close> for \<open>-1\<close>.\<close>

fun find_index :: "('a \<Rightarrow> bool) \<Rightarrow> 'a list \<Rightarrow> nat option" where
  "find_index P [] = None"
| "find_index P (x # xs) = (if P x then Some 0 else map_option Suc (find_index P xs))"

lemma find_index_Some:
  "find_index P xs = Some i \<Longrightarrow> i < length xs \<and> P (xs ! i) \<and> (\<forall>j < i. \<not> P (xs ! j))"
proof (induction xs arbitrary: i)
  case (Cons x xs)
  then show ?case by (auto split: if_splits simp: less_Suc_eq_0_disj)
qed simp

lemma find_index_None: "find_index P xs = None \<longleftrightarrow> (\<forall>x \<in> set xs. \<not> P x)"
  by (induction xs) auto

text \<open>\<open>xs.splice(i, 0, x)\<close> and \<open>xs.splice(i, 1)\<close> for an index in range.\<close>

definition splice_in :: "nat \<Rightarrow> 'a \<Rightarrow> 'a list \<Rightarrow> 'a list" where
  "splice_in i x xs = take i xs @ x # drop i xs"

definition splice_out :: "nat \<Rightarrow> 'a list \<Rightarrow> 'a list" where
  "splice_out i xs = take i xs @ drop (Suc i) xs"

lemma mset_splice_in [simp]: "mset (splice_in i x xs) = add_mset x (mset xs)"
proof -
  have "mset xs = mset (take i xs) + mset (drop i xs)"
    by (metis append_take_drop_id mset_append)
  then show ?thesis by (simp add: splice_in_def)
qed

lemma mset_splice_out:
  assumes "i < length xs"
  shows "add_mset (xs ! i) (mset (splice_out i xs)) = mset xs"
proof -
  have "mset xs = mset (take i xs @ xs ! i # drop (Suc i) xs)"
    using assms by (simp add: id_take_nth_drop [symmetric])
  then show ?thesis by (simp add: splice_out_def)
qed

lemma splice_in_nonempty [simp]: "splice_in i x xs \<noteq> []"
  by (simp add: splice_in_def)

lemma set_splice_in [simp]: "set (splice_in i x xs) = insert x (set xs)"
  using mset_splice_in [of i x xs] by (metis set_mset_add_mset_insert set_mset_mset)

lemma distinct_splice_in [simp]: "distinct (splice_in i x xs) \<longleftrightarrow> x \<notin> set xs \<and> distinct xs"
proof -
  have "distinct (splice_in i x xs) \<longleftrightarrow> distinct (x # xs)"
    by (rule mset_eq_imp_distinct_iff) simp
  then show ?thesis by simp
qed

text \<open>\<open>Array.prototype.sort\<close> with a comparison function, which is stable.\<close>

fun insertBy :: "('a \<Rightarrow> 'a \<Rightarrow> int) \<Rightarrow> 'a \<Rightarrow> 'a list \<Rightarrow> 'a list" where
  "insertBy cmp x [] = [x]"
| "insertBy cmp x (y # ys) = (if cmp x y \<le> 0 then x # y # ys else y # insertBy cmp x ys)"

definition sortBy :: "('a \<Rightarrow> 'a \<Rightarrow> int) \<Rightarrow> 'a list \<Rightarrow> 'a list" where
  "sortBy cmp xs = foldr (insertBy cmp) xs []"

lemma insertBy_mset: "mset (insertBy cmp x xs) = add_mset x (mset xs)"
  by (induction xs) auto

lemma sortBy_mset: "mset (sortBy cmp xs) = mset xs"
  by (induction xs) (auto simp: sortBy_def insertBy_mset)

lemma sortBy_set [simp]: "set (sortBy cmp xs) = set xs"
  using sortBy_mset by (metis set_mset_mset)

section \<open>Numbers\<close>

definition clamp :: "'a::linorder \<Rightarrow> 'a \<Rightarrow> 'a \<Rightarrow> 'a" where
  "clamp lo hi x = max lo (min hi x)"

lemma clamp_bounds: "lo \<le> hi \<Longrightarrow> lo \<le> clamp lo hi x \<and> clamp lo hi x \<le> hi"
  by (simp add: clamp_def)

lemma clamp_idem [simp]: "lo \<le> hi \<Longrightarrow> clamp lo hi (clamp lo hi x) = clamp lo hi x"
  by (auto simp: clamp_def max_def min_def)

section \<open>Printing counters\<close>

fun show_nat :: "nat \<Rightarrow> string" where
  "show_nat n =
     (if n < 10 then [char_of (48 + n)] else show_nat (n div 10) @ [char_of (48 + n mod 10)])"

declare show_nat.simps [simp del]

fun read_nat :: "string \<Rightarrow> nat" where
  "read_nat s = foldl (\<lambda>a c. 10 * a + (of_char c - 48)) 0 s"

lemma read_show_nat: "read_nat (show_nat n) = n"
proof (induction n rule: show_nat.induct)
  case (1 n)
  show ?case
  proof (cases "n < 10")
    case True
    then show ?thesis by (simp add: show_nat.simps [of n] of_char_of)
  next
    case False
    with 1 have IH: "foldl (\<lambda>a c. 10 * a + (of_char c - 48)) 0 (show_nat (n div 10)) = n div 10"
      by simp
    from False show ?thesis by (simp add: show_nat.simps [of n] of_char_of IH)
  qed
qed

lemma show_nat_inj: "show_nat m = show_nat n \<longleftrightarrow> m = n"
  by (metis read_show_nat)

lemma show_nat_digits: "c \<in> set (show_nat n) \<Longrightarrow> 48 \<le> (of_char c :: nat) \<and> of_char c \<le> (57 :: nat)"
proof (induction n rule: show_nat.induct)
  case (1 n)
  then show ?case
    by (cases "n < 10") (auto simp: show_nat.simps [of n] of_char_of)
qed

lemma dash_not_digit: "CHR ''-'' \<notin> set (show_nat n)"
  using show_nat_digits [of "CHR ''-''" n] by auto

definition make_id :: "string \<Rightarrow> nat \<Rightarrow> nat \<Rightarrow> string" where
  "make_id prefix now n = prefix @ ''-'' @ show_nat now @ ''-'' @ show_nat n"

lemma last_field_eq:
  assumes "a @ x # d = b @ x # e" and "x \<notin> set d" and "x \<notin> set e"
  shows "d = e"
proof -
  have "takeWhile (\<lambda>y. y \<noteq> x) (rev (a @ x # d)) = rev d"
    using assms(2) by (simp add: takeWhile_append)
  moreover have "takeWhile (\<lambda>y. y \<noteq> x) (rev (b @ x # e)) = rev e"
    using assms(3) by (simp add: takeWhile_append)
  ultimately show ?thesis using assms(1) by (metis rev_rev_ident)
qed

lemma make_id_inj: "make_id p t m = make_id q u n \<Longrightarrow> m = n"
proof -
  assume "make_id p t m = make_id q u n"
  then have "(p @ ''-'' @ show_nat t) @ CHR ''-'' # show_nat m =
             (q @ ''-'' @ show_nat u) @ CHR ''-'' # show_nat n"
    by (simp add: make_id_def)
  then have "show_nat m = show_nat n"
    by (rule last_field_eq) (rule dash_not_digit)+
  then show ?thesis by (simp add: show_nat_inj)
qed

lemma make_id_nonempty [simp]: "make_id p t n \<noteq> []"
  by (simp add: make_id_def)

section \<open>Interfaces\<close>

text \<open>
  An id generator threads a module-level counter. What its clients rely on: ids drawn at
  different counter values differ, and drawing advances the counter.
\<close>

locale fresh_ids =
  fixes draw :: "string \<Rightarrow> nat \<Rightarrow> string \<times> nat"
  assumes draw_counter: "snd (draw p c) = Suc c"
    and draw_inj: "fst (draw p c) = fst (draw q d) \<Longrightarrow> c = d"
    and draw_nonempty: "fst (draw p c) \<noteq> []"
begin

lemma draw_distinct: "c < d \<Longrightarrow> fst (draw p c) \<noteq> fst (draw q d)"
  using draw_inj by fastforce

lemma draws_distinct: "distinct (map (\<lambda>i. fst (draw (p i) i)) [m..<n])"
  unfolding distinct_map by (auto simp: inj_on_def dest: draw_inj)

end

text \<open>
  A state machine given by a step relation, with an invariant every step keeps: the
  invariant holds in every state reachable from an initial one.
\<close>

locale invariant_system =
  fixes start :: "'s \<Rightarrow> bool" and step :: "'s \<Rightarrow> 's \<Rightarrow> bool" and inv :: "'s \<Rightarrow> bool"
  assumes start_inv: "start s \<Longrightarrow> inv s"
    and step_inv: "inv s \<Longrightarrow> step s t \<Longrightarrow> inv t"
begin

lemma steps_inv: "step\<^sup>*\<^sup>* s t \<Longrightarrow> inv s \<Longrightarrow> inv t"
  by (induction rule: rtranclp_induct) (auto intro: step_inv)

lemma reachable_inv: "start s \<Longrightarrow> step\<^sup>*\<^sup>* s t \<Longrightarrow> inv t"
  using steps_inv start_inv by blast

end

text \<open>
  A deterministic machine driven by inputs, with an invariant and an abstraction: every input
  keeps the invariant and is matched by the abstract machine. The laws carry over to every
  sequence of inputs.
\<close>

locale simulation =
  fixes step :: "'i \<Rightarrow> 'c \<Rightarrow> 'c" and spec :: "'i \<Rightarrow> 'a \<Rightarrow> 'a"
    and abstr :: "'c \<Rightarrow> 'a" and inv :: "'c \<Rightarrow> bool" and legal :: "'i \<Rightarrow> bool"
  assumes step_inv: "inv c \<Longrightarrow> legal i \<Longrightarrow> inv (step i c)"
    and step_abs: "inv c \<Longrightarrow> legal i \<Longrightarrow> abstr (step i c) = spec i (abstr c)"
begin

lemma run_inv: "inv c \<Longrightarrow> \<forall>i \<in> set inputs. legal i \<Longrightarrow> inv (fold step inputs c)"
  by (induction inputs arbitrary: c) (auto intro: step_inv)

lemma run_abs:
  "inv c \<Longrightarrow> \<forall>i \<in> set inputs. legal i \<Longrightarrow> abstr (fold step inputs c) = fold spec inputs (abstr c)"
  by (induction inputs arbitrary: c) (simp_all add: step_abs step_inv)

end

end
