(* ===== verification/Output_Queue.thy ===== *)
theory Output_Queue
  imports Prelude
begin

text \<open>
  The chunk queue between the session transport and xterm
  (\<open>components/terminal/xterminalOutputQueue.ts\<close> and \<open>dequeueOutputChunk\<close> of
  \<open>terminalOutputDrain.ts\<close>): an array of slots with a head index that is compacted
  lazily. \<open>queue_list\<close> is the abstraction to a list of chunks; the locale
  \<open>chunk_fifo\<close> states what a client of the queue relies on.
\<close>

record chunk =
  ck_data :: js_text
  ck_bytes :: nat

record output_queue =
  oq_chunks :: "chunk option list"
  oq_headIndex :: nat
  oq_bytes :: nat

record queue_debug_snapshot =
  qs_totalSlots :: nat
  qs_liveSlots :: nat
  qs_consumedSlots :: nat
  qs_headIndex :: nat
  qs_bytes :: nat

abbreviation mk_chunk :: "js_text \<Rightarrow> nat \<Rightarrow> chunk" where
  "mk_chunk d b \<equiv> \<lparr>ck_data = d, ck_bytes = b\<rparr>"

section \<open>Definitions\<close>

definition snapshotMaxBytes :: nat where
  "snapshotMaxBytes = 2 * 1024 * 1024"

definition createOutputQueue :: output_queue where
  "createOutputQueue = \<lparr>oq_chunks = [], oq_headIndex = 0, oq_bytes = 0\<rparr>"

definition utf8BytesForCodePoint :: "nat \<Rightarrow> nat" where
  "utf8BytesForCodePoint cp =
     (if cp \<le> 0x7f then 1 else if cp \<le> 0x7ff then 2 else if cp \<le> 0xffff then 3 else 4)"

text \<open>\<open>data.codePointAt(0) ?? 0\<close>.\<close>

fun codePointAt0 :: "js_text \<Rightarrow> nat" where
  "codePointAt0 [] = 0"
| "codePointAt0 [c] = c"
| "codePointAt0 (c # d # ds) =
     (if is_high c \<and> is_low d then 0x10000 + (c - 0xD800) * 0x400 + (d - 0xDC00) else c)"

definition charLength :: "nat \<Rightarrow> nat" where
  "charLength cp = (if cp > 0xffff then 2 else 1)"

text \<open>
  The scanning loop of \<open>splitOutputChunk\<close>: \<open>rest\<close> is the data from \<open>offset\<close> on;
  the result is \<open>(index, bytes)\<close>.
\<close>

function splitScan :: "nat \<Rightarrow> js_text \<Rightarrow> nat \<Rightarrow> nat \<Rightarrow> nat \<times> nat" where
  "splitScan m [] i b = (i, b)"
| "splitScan m (c # cs) i b =
     (let cp = codePointAt0 (c # cs); n = charLength cp; k = utf8BytesForCodePoint cp
      in if b > 0 \<and> b + k > m then (i, b)
         else if b + k \<ge> m then (i + n, b + k)
         else splitScan m (drop n (c # cs)) (i + n) (b + k))"
  by pat_completeness auto
termination
  by (relation "measure (\<lambda>(m, s, i, b). length s)") (auto simp: charLength_def)

declare splitScan.simps(2) [simp del]

definition splitOutputChunk :: "chunk \<Rightarrow> nat \<Rightarrow> chunk \<times> chunk" where
  "splitOutputChunk c m =
     (if ck_bytes c \<le> m then (c, mk_chunk [] 0)
      else if length (ck_data c) = ck_bytes c then
        (let i = max 1 (min m (length (ck_data c)))
         in (mk_chunk (take i (ck_data c)) i, mk_chunk (drop i (ck_data c)) (ck_bytes c - i)))
      else
        (let (i, b) = splitScan m (ck_data c) 0 0;
             (i, b) = (if i \<le> 0
                       then (let cp = codePointAt0 (ck_data c)
                             in (charLength cp, utf8BytesForCodePoint cp))
                       else (i, b))
         in (mk_chunk (take i (ck_data c)) b, mk_chunk (drop i (ck_data c)) (ck_bytes c - b))))"

definition compactOutputQueue :: "output_queue \<Rightarrow> output_queue" where
  "compactOutputQueue q =
     (if oq_headIndex q \<le> 1024 \<or> 2 * oq_headIndex q \<le> length (oq_chunks q) then q
      else q\<lparr>oq_chunks := drop (oq_headIndex q) (oq_chunks q), oq_headIndex := 0\<rparr>)"

definition pushOutputQueue :: "output_queue \<Rightarrow> chunk \<Rightarrow> output_queue" where
  "pushOutputQueue q c =
     q\<lparr>oq_chunks := oq_chunks q @ [Some c], oq_bytes := oq_bytes q + ck_bytes c\<rparr>"

text \<open>\<open>queue.chunks[queue.headIndex]\<close>, \<open>None\<close> for \<open>undefined\<close>.\<close>

definition head_slot :: "output_queue \<Rightarrow> chunk option" where
  "head_slot q =
     (if oq_headIndex q < length (oq_chunks q) then oq_chunks q ! oq_headIndex q else None)"

definition shiftOutputQueue :: "output_queue \<Rightarrow> chunk option \<times> output_queue" where
  "shiftOutputQueue q =
     (case head_slot q of
        None \<Rightarrow> (None, q)
      | Some c \<Rightarrow>
          (Some c,
           compactOutputQueue
             (q\<lparr>oq_chunks := (oq_chunks q)[oq_headIndex q := None],
                oq_headIndex := oq_headIndex q + 1,
                oq_bytes := oq_bytes q - ck_bytes c\<rparr>)))"

definition peekOutputQueue :: "output_queue \<Rightarrow> chunk option" where
  "peekOutputQueue q = head_slot q"

definition replaceOutputQueueHead :: "output_queue \<Rightarrow> chunk \<Rightarrow> output_queue" where
  "replaceOutputQueueHead q c =
     (if oq_headIndex q < length (oq_chunks q)
      then q\<lparr>oq_chunks := (oq_chunks q)[oq_headIndex q := Some c]\<rparr> else q)"

definition hasOutputQueueItems :: "output_queue \<Rightarrow> bool" where
  "hasOutputQueueItems q \<longleftrightarrow> oq_headIndex q < length (oq_chunks q)"

definition getOutputQueueDebugSnapshot :: "output_queue \<Rightarrow> queue_debug_snapshot" where
  "getOutputQueueDebugSnapshot q =
     \<lparr>qs_totalSlots = length (oq_chunks q),
      qs_liveSlots = length (filter (\<lambda>s. s \<noteq> None) (oq_chunks q)),
      qs_consumedSlots = length (filter (\<lambda>s. s = None) (take (oq_headIndex q) (oq_chunks q))),
      qs_headIndex = oq_headIndex q,
      qs_bytes = oq_bytes q\<rparr>"

text \<open>
  The backward loop of \<open>outputQueueToBoundedString\<close>: the slots come newest first,
  \<open>parts\<close> in push order.
\<close>

fun boundedParts :: "nat \<Rightarrow> chunk option list \<Rightarrow> nat \<Rightarrow> js_text list" where
  "boundedParts m [] b = []"
| "boundedParts m (None # ss) b = boundedParts m ss b"
| "boundedParts m (Some c # ss) b =
     (if b + ck_bytes c \<le> m then ck_data c # boundedParts m ss (b + ck_bytes c)
      else if m - b > 0 then
        (let t = ck_data (snd (splitOutputChunk c (ck_bytes c - (m - b))))
         in if t \<noteq> [] then [t] else [])
      else [])"

definition outputQueueToBoundedString :: "output_queue \<Rightarrow> js_text" where
  "outputQueueToBoundedString q =
     concat (rev (boundedParts snapshotMaxBytes (rev (drop (oq_headIndex q) (oq_chunks q))) 0))"

section \<open>Splitting a chunk\<close>

definition consistent :: "chunk \<Rightarrow> bool" where
  "consistent c \<longleftrightarrow> ck_bytes c = utf8ByteLength (ck_data c)"

lemma charLength_bounds: "1 \<le> charLength cp" "charLength cp \<le> 2"
  by (auto simp: charLength_def)

lemma utf8BytesForCodePoint_bounds: "1 \<le> utf8BytesForCodePoint cp" "utf8BytesForCodePoint cp \<le> 4"
  by (auto simp: utf8BytesForCodePoint_def)

lemma code_unit_bytes: "c \<le> 0xffff \<Longrightarrow> utf8BytesForCodePoint c = unit_bytes c \<and> charLength c = 1"
  by (auto simp: utf8BytesForCodePoint_def unit_bytes_def charLength_def)

definition units_ok :: "js_text \<Rightarrow> bool" where
  "units_ok t \<longleftrightarrow> (\<forall>c \<in> set t. c \<le> 0xffff)"

text \<open>One turn of the scan: the code point at the front and the bytes it accounts for.\<close>

lemma code_point_cases:
  assumes "t \<noteq> []" and "units_ok t"
  obtains
    (pair) c d ds where "t = c # d # ds" "is_high c" "is_low d"
      "charLength (codePointAt0 t) = 2" "utf8BytesForCodePoint (codePointAt0 t) = 4"
  | (unit) c cs where "t = c # cs" "cs = [] \<or> \<not> (is_high c \<and> is_low (hd cs))"
      "charLength (codePointAt0 t) = 1" "utf8BytesForCodePoint (codePointAt0 t) = unit_bytes c"
proof (cases t rule: codePointAt0.cases)
  case 1
  with assms show ?thesis by simp
next
  case (2 c)
  with assms(2) code_unit_bytes [of c] show ?thesis
    by (intro unit [of c "[]"]) (auto simp: units_ok_def)
next
  case (3 c d ds)
  show ?thesis
  proof (cases "is_high c \<and> is_low d")
    case True
    then have "0xffff < codePointAt0 t" using 3 by simp
    with True 3 show ?thesis
      by (intro pair [of c d ds]) (auto simp: charLength_def utf8BytesForCodePoint_def)
  next
    case False
    then have cp: "codePointAt0 t = c" using 3 by auto
    with 3 assms(2) code_unit_bytes [of c] False show ?thesis
      by (intro unit [of c "d # ds"]) (auto simp: units_ok_def)
  qed
qed

lemma utf8_take_code_point:
  assumes "t \<noteq> []" and "units_ok t"
  shows "utf8ByteLength (take (charLength (codePointAt0 t) + j) t) =
         utf8BytesForCodePoint (codePointAt0 t) +
         utf8ByteLength (take j (drop (charLength (codePointAt0 t)) t))"
  using assms
proof (cases rule: code_point_cases)
  case (pair c d ds)
  then show ?thesis by simp
next
  case (unit c cs)
  have "utf8ByteLength (c # take j cs) = unit_bytes c + utf8ByteLength (take j cs)"
    using unit(2) by (intro utf8_cons) (cases cs; cases j; auto)
  with unit show ?thesis by simp
qed

lemma charLength_le: "t \<noteq> [] \<Longrightarrow> units_ok t \<Longrightarrow> charLength (codePointAt0 t) \<le> length t"
  by (erule code_point_cases) auto

lemma code_point_split:
  assumes "t \<noteq> []" and "units_ok t"
  defines "n \<equiv> charLength (codePointAt0 t)" and "k \<equiv> utf8BytesForCodePoint (codePointAt0 t)"
  shows "utf8ByteLength (take n t) = k" and "n \<le> length t" and "1 \<le> n"
  using utf8_take_code_point [OF assms(1,2), of 0] charLength_le [OF assms(1,2)]
    charLength_bounds(1) [of "codePointAt0 t"]
  by (simp_all add: n_def k_def)

lemma units_ok_drop: "units_ok t \<Longrightarrow> units_ok (drop n t)"
  by (auto simp: units_ok_def dest: in_set_dropD)

text \<open>
  The scan stops at an index whose prefix has exactly the counted bytes, after at least
  one code point, and passes the budget only by its very first code point.
\<close>

lemma splitScan_correct:
  assumes "units_ok t" and "splitScan m t i b = (i', b')"
  shows "i \<le> i' \<and> i' - i \<le> length t \<and> b' = b + utf8ByteLength (take (i' - i) t)"
  using assms
proof (induction m t i b rule: splitScan.induct)
  case (1 m i b)
  then show ?case by simp
next
  case (2 m c cs i b)
  define t where "t = c # cs"
  define n where "n = charLength (codePointAt0 t)"
  define k where "k = utf8BytesForCodePoint (codePointAt0 t)"
  have t: "t \<noteq> []" "units_ok t" using 2 by (auto simp: t_def)
  note cp = code_point_split [OF t, folded n_def k_def]
  have unf: "splitScan m t i b =
    (if b > 0 \<and> b + k > m then (i, b) else if b + k \<ge> m then (i + n, b + k)
     else splitScan m (drop n t) (i + n) (b + k))"
    by (simp add: t_def n_def k_def splitScan.simps Let_def)
  consider "b > 0 \<and> b + k > m" | "\<not> (b > 0 \<and> b + k > m)" "b + k \<ge> m"
    | "\<not> (b > 0 \<and> b + k > m)" "\<not> b + k \<ge> m" by blast
  then show ?case
  proof cases
    case 1
    with "2.prems"(2) unf show ?thesis by (simp add: t_def)
  next
    case 2
    with "2.prems"(2) unf have "i' = i + n" "b' = b + k" by (auto simp: t_def)
    with cp show ?thesis by (simp add: t_def)
  next
    case 3
    with "2.prems"(2) unf have rec: "splitScan m (drop n t) (i + n) (b + k) = (i', b')"
      by (simp add: t_def)
    have "i + n \<le> i' \<and> i' - (i + n) \<le> length (drop n t)
          \<and> b' = b + k + utf8ByteLength (take (i' - (i + n)) (drop n t))"
      using "2.IH" [OF refl refl refl] 3 rec units_ok_drop [OF t(2)]
      by (simp add: t_def n_def k_def)
    moreover have "utf8ByteLength (take (n + (i' - (i + n))) t)
                   = k + utf8ByteLength (take (i' - (i + n)) (drop n t))"
      using utf8_take_code_point [OF t] by (simp add: n_def k_def)
    ultimately show ?thesis using cp(2) by (auto simp: t_def)
  qed
qed

lemma splitScan_seam:
  assumes "units_ok t" and "splitScan m t i b = (i', b')"
  shows "utf8ByteLength t = utf8ByteLength (take (i' - i) t) + utf8ByteLength (drop (i' - i) t)"
  using assms
proof (induction m t i b rule: splitScan.induct)
  case (2 m c cs i b)
  define t where "t = c # cs"
  define n where "n = charLength (codePointAt0 t)"
  have t: "t \<noteq> []" "units_ok t" using 2 by (auto simp: t_def)
  have whole: "utf8ByteLength t = utf8ByteLength (take n t) + utf8ByteLength (drop n t)"
    using utf8_take_code_point [OF t, of "length t"] code_point_split(1) [OF t] by (simp add: n_def)
  show ?case
  proof (cases "i' \<le> i + n")
    case True
    moreover have "i' = i \<or> i + n \<le> i'"
      using "2.prems" splitScan_correct [of "drop n t" m "i + n"] units_ok_drop [OF t(2), of n]
      by (auto simp: splitScan.simps(2) [of m c cs i b] Let_def t_def n_def split: if_splits)
    ultimately have "i' - i = 0 \<or> i' - i = n" by auto
    with whole show ?thesis by (auto simp: t_def)
  next
    case False
    let ?k = "utf8BytesForCodePoint (codePointAt0 t)"
    have rec: "splitScan m (drop n t) (i + n) (b + ?k) = (i', b')" "\<not> (b > 0 \<and> b + ?k > m)" "\<not> b + ?k \<ge> m"
      using "2.prems" False
      by (auto simp: splitScan.simps(2) [of m c cs i b] Let_def t_def n_def split: if_splits)
    define j where "j = i' - (i + n)"
    have ji: "i' - i = n + j" using False by (simp add: j_def)
    have "utf8ByteLength (drop n t) = utf8ByteLength (take j (drop n t)) + utf8ByteLength (drop j (drop n t))"
      using "2.IH" [OF refl refl refl] rec units_ok_drop [OF t(2)]
      by (simp add: t_def n_def j_def)
    then show ?thesis
      using whole utf8_take_code_point [OF t, of j] code_point_split(1) [OF t] ji
      by (simp add: t_def n_def add.commute)
  qed
qed simp

lemma splitScan_upper:
  "splitScan m t i b = (i', b') \<Longrightarrow> b \<le> max m 4 \<Longrightarrow> b = 0 \<or> b < m \<Longrightarrow> b' \<le> max m 4"
proof (induction m t i b rule: splitScan.induct)
  case (2 m c cs i b)
  have "utf8BytesForCodePoint (codePointAt0 (c # cs)) \<le> 4"
    by (rule utf8BytesForCodePoint_bounds)
  with 2 show ?case
    by (auto simp: splitScan.simps(2) [of m c cs i b] Let_def split: if_splits)
qed simp

lemma splitScan_lower:
  "units_ok t \<Longrightarrow> splitScan m t i b = (i', b') \<Longrightarrow> m \<le> b + utf8ByteLength t + 3 \<Longrightarrow> m \<le> b' + 3"
proof (induction m t i b rule: splitScan.induct)
  case (2 m c cs i b)
  define t where "t = c # cs"
  have t: "t \<noteq> []" "units_ok t" using 2 by (auto simp: t_def)
  have k4: "utf8BytesForCodePoint (codePointAt0 t) \<le> 4"
    by (rule utf8BytesForCodePoint_bounds)
  have "utf8ByteLength t = utf8BytesForCodePoint (codePointAt0 t)
        + utf8ByteLength (drop (charLength (codePointAt0 t)) t)"
    using utf8_take_code_point [OF t, of "length t"] by simp
  with 2 k4 t units_ok_drop [OF t(2)] show ?case
    by (auto simp: splitScan.simps(2) [of m c cs i b] Let_def t_def split: if_splits)
qed simp

lemma splitScan_progress:
  "t \<noteq> [] \<Longrightarrow> splitScan m t i 0 = (i', b') \<Longrightarrow> i < i'"
proof -
  assume t: "t \<noteq> []" and eq: "splitScan m t i 0 = (i', b')"
  have mono: "i \<le> i'" if "splitScan m t i b = (i', b')" for t i b i' b'
    using that
    by (induction m t i b rule: splitScan.induct)
       (fastforce simp: splitScan.simps Let_def split: if_splits)+
  from t obtain c cs where "t = c # cs" by (cases t) auto
  with eq mono show "i < i'"
    by (fastforce simp: splitScan.simps Let_def charLength_def split: if_splits)
qed

lemma split_data: "ck_data (fst (splitOutputChunk c m)) @ ck_data (snd (splitOutputChunk c m)) = ck_data c"
  by (simp add: splitOutputChunk_def Let_def split: prod.split)

lemma ascii_of_length:
  "utf8ByteLength t = length t \<Longrightarrow> c \<in> set t \<Longrightarrow> c \<le> 0x7f"
proof (induction t rule: utf8ByteLength.induct)
  case (3 c d ds)
  have "\<not> (is_high c \<and> is_low d)"
    using 3(3) length_le_utf8 [of ds] by auto
  then have eq: "unit_bytes c + utf8ByteLength (d # ds) = Suc (length (d # ds))"
    using 3(3) by auto
  then have "utf8ByteLength (d # ds) = length (d # ds)" "unit_bytes c = 1"
    using length_le_utf8 [of "d # ds"] by (auto simp: unit_bytes_def split: if_splits)
  with 3 \<open>\<not> (is_high c \<and> is_low d)\<close> show ?case
    by (auto simp: unit_bytes_def split: if_splits)
qed (auto simp: unit_bytes_def split: if_splits)

text \<open>
  What \<open>splitOutputChunk\<close> guarantees for a chunk whose byte count is right: both halves
  have right byte counts, the head is not empty, overshoots the budget by at most three
  bytes and undershoots it by at most three.
\<close>

lemma split_consistent:
  assumes "consistent c" and "units_ok (ck_data c)" and "m < ck_bytes c"
  defines "h \<equiv> fst (splitOutputChunk c m)" and "t \<equiv> snd (splitOutputChunk c m)"
  shows "consistent h" and "consistent t" and "ck_bytes h + ck_bytes t = ck_bytes c"
    and "1 \<le> ck_bytes h" and "ck_bytes h \<le> max m 4" and "m \<le> ck_bytes h + 3"
proof -
  have len: "ck_bytes c = utf8ByteLength (ck_data c)" using assms(1) by (simp add: consistent_def)
  have "consistent h \<and> consistent t \<and> ck_bytes h + ck_bytes t = ck_bytes c \<and>
        1 \<le> ck_bytes h \<and> ck_bytes h \<le> max m 4 \<and> m \<le> ck_bytes h + 3"
  proof (cases "length (ck_data c) = ck_bytes c")
    case True
    define i where "i = max 1 (min m (length (ck_data c)))"
    have "\<forall>x \<in> set (ck_data c). x \<le> 0x7f"
      using ascii_of_length True len by metis
    then have "utf8ByteLength (take i (ck_data c)) = length (take i (ck_data c))"
      "utf8ByteLength (drop i (ck_data c)) = length (drop i (ck_data c))"
      by - (rule utf8_ascii; auto dest: in_set_takeD in_set_dropD)+
    with True assms(3) show ?thesis
      by (auto simp: h_def t_def splitOutputChunk_def consistent_def Let_def i_def)
  next
    case False
    obtain i b where sc: "splitScan m (ck_data c) 0 0 = (i, b)" by (cases "splitScan m (ck_data c) 0 0")
    have ne: "ck_data c \<noteq> []" using assms(3) len by auto
    have i: "0 < i" using splitScan_progress [OF ne sc] .
    have ib: "i \<le> length (ck_data c)" "b = utf8ByteLength (take i (ck_data c))"
      using splitScan_correct [OF assms(2) sc] by auto
    have hi: "b \<le> max m 4" using splitScan_upper [OF sc] by simp
    have lo: "m \<le> b + 3" using splitScan_lower [OF assms(2) sc] assms(3) len by simp
    have sum: "utf8ByteLength (ck_data c) = b + utf8ByteLength (drop i (ck_data c))"
      using splitScan_seam [OF assms(2) sc] ib(2) by simp
    have "1 \<le> b" using i ib ne by (simp add: Suc_le_eq)
    with False assms(3) sc i hi lo sum ib len show ?thesis
      by (auto simp: h_def t_def splitOutputChunk_def consistent_def Let_def)
  qed
  then show "consistent h" "consistent t" "ck_bytes h + ck_bytes t = ck_bytes c"
    "1 \<le> ck_bytes h" "ck_bytes h \<le> max m 4" "m \<le> ck_bytes h + 3" by auto
qed

section \<open>The queue as a list\<close>

definition queue_list :: "output_queue \<Rightarrow> chunk list" where
  "queue_list q = map the (drop (oq_headIndex q) (oq_chunks q))"

definition chunk_bytes :: "chunk list \<Rightarrow> nat" where
  "chunk_bytes cs = sum_list (map ck_bytes cs)"

definition queue_inv :: "output_queue \<Rightarrow> bool" where
  "queue_inv q \<longleftrightarrow> oq_headIndex q \<le> length (oq_chunks q)
     \<and> (\<forall>i < oq_headIndex q. oq_chunks q ! i = None)
     \<and> (\<forall>s \<in> set (drop (oq_headIndex q) (oq_chunks q)). s \<noteq> None)
     \<and> oq_bytes q = chunk_bytes (queue_list q)"

lemma chunk_bytes_simps [simp]:
  "chunk_bytes [] = 0" "chunk_bytes (c # cs) = ck_bytes c + chunk_bytes cs"
  "chunk_bytes (cs @ ds) = chunk_bytes cs + chunk_bytes ds"
  by (simp_all add: chunk_bytes_def)

lemma queue_list_empty [simp]: "queue_list createOutputQueue = []"
  and queue_inv_empty [simp]: "queue_inv createOutputQueue"
  by (simp_all add: queue_list_def queue_inv_def createOutputQueue_def)

lemma queue_list_push [simp]:
  "queue_inv q \<Longrightarrow> queue_list (pushOutputQueue q c) = queue_list q @ [c]"
  by (simp add: queue_list_def queue_inv_def pushOutputQueue_def)

lemma queue_inv_push [inv_intros]: "queue_inv q \<Longrightarrow> queue_inv (pushOutputQueue q c)"
  by (auto simp: queue_inv_def queue_list_def pushOutputQueue_def nth_append)

lemma pushOutputQueue_bytes [simp]: "oq_bytes (pushOutputQueue q c) = oq_bytes q + ck_bytes c"
  by (simp add: pushOutputQueue_def)

lemma has_items_iff [simp]: "hasOutputQueueItems q \<longleftrightarrow> queue_list q \<noteq> []"
  by (auto simp: hasOutputQueueItems_def queue_list_def)

lemma head_slot_list:
  assumes "queue_inv q"
  shows "head_slot q = (case queue_list q of [] \<Rightarrow> None | c # _ \<Rightarrow> Some c)"
proof (cases "drop (oq_headIndex q) (oq_chunks q)")
  case Nil
  then show ?thesis by (simp add: head_slot_def queue_list_def)
next
  case (Cons x xs)
  then have len: "oq_headIndex q < length (oq_chunks q)" by (metis drop_all list.distinct(1) not_le)
  with Cons have "oq_chunks q ! oq_headIndex q = x" by (metis hd_drop_conv_nth list.sel(1))
  moreover have "x \<noteq> None" using assms Cons by (simp add: queue_inv_def)
  ultimately show ?thesis using Cons len by (auto simp: head_slot_def queue_list_def)
qed

lemma queue_list_compact [simp]: "queue_list (compactOutputQueue q) = queue_list q"
  by (simp add: compactOutputQueue_def queue_list_def)

lemma queue_inv_compact: "queue_inv q \<Longrightarrow> queue_inv (compactOutputQueue q)"
  by (auto simp: compactOutputQueue_def queue_inv_def queue_list_def)

lemma queue_step:
  assumes "queue_inv q" and "queue_list q = c # cs"
  defines "q' \<equiv> q\<lparr>oq_chunks := (oq_chunks q)[oq_headIndex q := None],
                oq_headIndex := oq_headIndex q + 1, oq_bytes := oq_bytes q - ck_bytes c\<rparr>"
  shows "queue_list q' = cs" and "queue_inv q'"
proof -
  have len: "oq_headIndex q < length (oq_chunks q)"
    using assms(2) by (metis drop_all list.distinct(1) list.map_disc_iff not_le queue_list_def)
  then have dr: "drop (oq_headIndex q) (oq_chunks q) =
                 oq_chunks q ! oq_headIndex q # drop (Suc (oq_headIndex q)) (oq_chunks q)"
    by (simp add: Cons_nth_drop_Suc)
  show ql: "queue_list q' = cs"
    using assms(2) dr by (simp add: queue_list_def q'_def)
  show "queue_inv q'"
    using assms(1,2) len ql dr
    by (auto simp: queue_inv_def q'_def less_Suc_eq nth_list_update)
qed

lemma shift_list:
  "queue_inv q \<Longrightarrow> queue_list q = c # cs \<Longrightarrow>
   fst (shiftOutputQueue q) = Some c \<and> queue_list (snd (shiftOutputQueue q)) = cs
   \<and> queue_inv (snd (shiftOutputQueue q))"
  using queue_step [of q c cs]
  by (auto simp: shiftOutputQueue_def head_slot_list intro: queue_inv_compact)

lemma shift_empty:
  "queue_inv q \<Longrightarrow> queue_list q = [] \<Longrightarrow> shiftOutputQueue q = (None, q)"
  by (simp add: shiftOutputQueue_def head_slot_list)

lemma peek_list:
  "queue_inv q \<Longrightarrow> peekOutputQueue q = (case queue_list q of [] \<Rightarrow> None | c # _ \<Rightarrow> Some c)"
  by (simp add: peekOutputQueue_def head_slot_list)

lemma queue_list_replace:
  assumes "queue_inv q" and "queue_list q = c # cs"
  shows "queue_list (replaceOutputQueueHead q d) = d # cs"
proof -
  have len: "oq_headIndex q < length (oq_chunks q)"
    using assms(2) by (metis has_items_iff hasOutputQueueItems_def list.distinct(1))
  then have "drop (oq_headIndex q) (oq_chunks q) =
             oq_chunks q ! oq_headIndex q # drop (Suc (oq_headIndex q)) (oq_chunks q)"
    by (simp add: Cons_nth_drop_Suc)
  moreover have "drop (oq_headIndex q) ((oq_chunks q)[oq_headIndex q := Some d]) =
                 Some d # drop (Suc (oq_headIndex q)) (oq_chunks q)"
    using len by (metis Cons_nth_drop_Suc drop_update_cancel length_list_update lessI nth_list_update_eq)
  ultimately show ?thesis using assms(2) len
    by (simp add: replaceOutputQueueHead_def queue_list_def)
qed

text \<open>
  Replacing the head and subtracting what left it, as \<open>dequeueOutputChunk\<close> does after a
  split, keeps the invariant.
\<close>

lemma queue_inv_replace [inv_intros]:
  assumes "queue_inv q" and "queue_list q = c # cs" and "ck_bytes h + ck_bytes t = ck_bytes c"
  defines "q' \<equiv> (replaceOutputQueueHead q t)\<lparr>oq_bytes := oq_bytes q - ck_bytes h\<rparr>"
  shows "queue_inv q'" and "queue_list q' = t # cs"
proof -
  have len: "oq_headIndex q < length (oq_chunks q)"
    using assms(2) by (metis has_items_iff hasOutputQueueItems_def list.distinct(1))
  have "queue_list q' = queue_list (replaceOutputQueueHead q t)"
    by (simp add: q'_def queue_list_def)
  then show ql: "queue_list q' = t # cs" using queue_list_replace [OF assms(1,2)] by simp
  have "oq_bytes q' = chunk_bytes (queue_list q')"
    using assms(1,2,3) ql by (simp add: q'_def queue_inv_def)
  moreover have "\<forall>s \<in> set (drop (oq_headIndex q) ((oq_chunks q)[oq_headIndex q := Some t])). s \<noteq> None"
    using assms(1) by (auto simp: queue_inv_def drop_update_swap dest!: set_update_subset_insert [THEN subsetD])
  ultimately show "queue_inv q'"
    using assms(1) len by (auto simp: queue_inv_def q'_def replaceOutputQueueHead_def)
qed

section \<open>The interface of a chunk queue\<close>

fun shifts :: "('q \<Rightarrow> 'a option \<times> 'q) \<Rightarrow> nat \<Rightarrow> 'q \<Rightarrow> 'a list \<times> 'q" where
  "shifts shift 0 q = ([], q)"
| "shifts shift (Suc n) q =
     (case shift q of (None, q') \<Rightarrow> ([], q')
      | (Some x, q') \<Rightarrow> (let (xs, q'') = shifts shift n q' in (x # xs, q'')))"

locale chunk_fifo =
  fixes empty :: "'q" and push :: "'q \<Rightarrow> 'a \<Rightarrow> 'q"
    and shift :: "'q \<Rightarrow> 'a option \<times> 'q" and items :: "'q \<Rightarrow> 'a list" and ok :: "'q \<Rightarrow> bool"
  assumes ok_empty: "ok empty" and items_empty: "items empty = []"
    and ok_push: "ok q \<Longrightarrow> ok (push q x)" and items_push: "ok q \<Longrightarrow> items (push q x) = items q @ [x]"
    and shift_cons: "ok q \<Longrightarrow> items q = x # xs \<Longrightarrow>
      fst (shift q) = Some x \<and> items (snd (shift q)) = xs \<and> ok (snd (shift q))"
    and shift_nil: "ok q \<Longrightarrow> items q = [] \<Longrightarrow> shift q = (None, q)"
begin

lemma shifts_take:
  "ok q \<Longrightarrow> fst (shifts shift n q) = take n (items q) \<and> items (snd (shifts shift n q)) = drop n (items q)"
proof (induction n arbitrary: q)
  case (Suc n)
  show ?case
  proof (cases "items q")
    case Nil
    with Suc.prems shift_nil show ?thesis by simp
  next
    case (Cons x xs)
    with Suc.prems shift_cons obtain q' where "shift q = (Some x, q')" "items q' = xs" "ok q'"
      by (metis prod.collapse)
    with Suc.IH [of q'] Cons show ?thesis by (auto split: prod.splits)
  qed
qed simp

lemma ok_pushes: "ok q \<Longrightarrow> ok (foldl push q xs) \<and> items (foldl push q xs) = items q @ xs"
  by (induction xs arbitrary: q) (auto simp: ok_push items_push)

lemma fifo: "fst (shifts shift (length xs) (foldl push empty xs)) = xs"
  using ok_pushes [OF ok_empty, of xs] shifts_take by (simp add: items_empty)

end

interpretation oq: chunk_fifo createOutputQueue pushOutputQueue shiftOutputQueue queue_list queue_inv
  by unfold_locales (auto simp: shift_list shift_empty intro: inv_intros)

section \<open>Dequeuing a write payload\<close>

text \<open>
  The loop of \<open>dequeueOutputChunk\<close>: parts and bytes accumulated so far, the remaining
  budget. A budget that the JavaScript drives below zero is zero here; the loop ends in
  both cases.
\<close>

lemma live_shift:
  assumes "peekOutputQueue q = Some c"
  defines "q' \<equiv> snd (shiftOutputQueue q)"
  shows "length (oq_chunks q') - oq_headIndex q' < length (oq_chunks q) - oq_headIndex q"
  using assms
  by (auto simp: peekOutputQueue_def shiftOutputQueue_def compactOutputQueue_def head_slot_def
      split: if_splits)

lemma splitScan_bytes:
  "splitScan m t i b = (i', b') \<Longrightarrow> b \<le> b' \<and> (t \<noteq> [] \<and> b = 0 \<longrightarrow> 0 < b')"
proof (induction m t i b rule: splitScan.induct)
  case (2 m c cs i b)
  have "1 \<le> utf8BytesForCodePoint (codePointAt0 (c # cs))"
    by (rule utf8BytesForCodePoint_bounds)
  with "2.prems" "2.IH" [OF refl refl refl] show ?case
    by (auto simp: splitScan.simps(2) [of m c cs i b] Let_def split: if_splits)
qed simp

lemma split_head_progress:
  assumes "m < ck_bytes c"
  shows "1 \<le> ck_bytes (fst (splitOutputChunk c m))"
proof -
  obtain i b where sc: "splitScan m (ck_data c) 0 0 = (i, b)"
    by (cases "splitScan m (ck_data c) 0 0")
  have "0 < b \<or> ck_data c = []" using splitScan_bytes [OF sc] by auto
  then show ?thesis
    using assms sc utf8BytesForCodePoint_bounds(1) [of "codePointAt0 (ck_data c)"]
    by (auto simp: splitOutputChunk_def Let_def Suc_le_eq)
qed

function dequeueLoop :: "output_queue \<Rightarrow> nat \<Rightarrow> js_text list \<Rightarrow> nat \<Rightarrow> js_text list \<times> nat \<times> output_queue" where
  "dequeueLoop q remaining parts bytes =
     (if remaining > 0 \<and> hasOutputQueueItems q then
        (case peekOutputQueue q of
           None \<Rightarrow> (parts, bytes, q)
         | Some c \<Rightarrow>
             if ck_bytes c \<le> remaining
             then dequeueLoop (snd (shiftOutputQueue q)) (remaining - ck_bytes c)
                    (parts @ [ck_data c]) (bytes + ck_bytes c)
             else (let (h, t) = splitOutputChunk c remaining
                   in dequeueLoop ((replaceOutputQueueHead q t)\<lparr>oq_bytes := oq_bytes q - ck_bytes h\<rparr>)
                        (remaining - ck_bytes h) (parts @ [ck_data h]) (bytes + ck_bytes h)))
      else (parts, bytes, q))"
  by pat_completeness auto
termination
proof (relation "measure (\<lambda>(q, r, ps, b). r + (length (oq_chunks q) - oq_headIndex q))", goal_cases)
  case 1
  show ?case by simp
next
  case (2 q r ps b c)
  then show ?case using live_shift [of q c] by simp
next
  case (3 q r ps b c ht h t)
  then have "1 \<le> ck_bytes h" using split_head_progress [of r c] by (metis fst_conv not_le)
  with 3 show ?case by (auto simp: replaceOutputQueueHead_def)
qed

declare dequeueLoop.simps [simp del]

definition dequeueOutputChunk :: "output_queue \<Rightarrow> nat \<Rightarrow> chunk option \<times> output_queue" where
  "dequeueOutputChunk q maxBytes =
     (if maxBytes \<le> 0 \<or> \<not> hasOutputQueueItems q then (None, q)
      else (let (parts, bytes, q') = dequeueLoop q maxBytes [] 0
            in (if length parts > 0 then Some (mk_chunk (concat parts) bytes) else None, q')))"

definition queue_data :: "chunk list \<Rightarrow> js_text" where
  "queue_data cs = concat (map ck_data cs)"

definition chunk_ok :: "chunk \<Rightarrow> bool" where
  "chunk_ok c \<longleftrightarrow> consistent c \<and> units_ok (ck_data c)"

definition queue_ok :: "output_queue \<Rightarrow> bool" where
  "queue_ok q \<longleftrightarrow> queue_inv q \<and> list_all chunk_ok (queue_list q)"

lemma queue_data_simps [simp]:
  "queue_data [] = []" "queue_data (c # cs) = ck_data c @ queue_data cs"
  "queue_data (cs @ ds) = queue_data cs @ queue_data ds"
  by (simp_all add: queue_data_def)

lemma queue_ok_bytes: "queue_inv q \<Longrightarrow> oq_bytes q = chunk_bytes (queue_list q)"
  by (simp add: queue_inv_def)

text \<open>What one call of the dequeue loop guarantees, in terms of the abstract list.\<close>

definition dequeue_post :: "output_queue \<Rightarrow> nat \<Rightarrow> js_text list \<Rightarrow> nat \<Rightarrow>
    js_text list \<times> nat \<times> output_queue \<Rightarrow> bool" where
  "dequeue_post q r ps b res \<longleftrightarrow>
     (case res of (ps', b', q') \<Rightarrow>
        queue_ok q' \<and> concat ps' @ queue_data (queue_list q') = concat ps @ queue_data (queue_list q)
        \<and> b' + oq_bytes q' = b + oq_bytes q
        \<and> b' \<le> b + (if r = 0 then 0 else r + 3) \<and> length ps \<le> length ps'
        \<and> (r > 0 \<and> queue_list q \<noteq> [] \<longrightarrow> length ps < length ps'))"

lemma dequeue_post_shift:
  assumes q: "queue_ok q" "queue_list q = c # cs" and r: "ck_bytes c \<le> r" "r > 0"
    and rec: "dequeue_post (snd (shiftOutputQueue q)) (r - ck_bytes c) (ps @ [ck_data c]) (b + ck_bytes c) res"
  shows "dequeue_post q r ps b res"
proof -
  have inv: "queue_inv q" using q by (simp add: queue_ok_def)
  have sh: "queue_list (snd (shiftOutputQueue q)) = cs" "queue_inv (snd (shiftOutputQueue q))"
    using shift_list [OF inv q(2)] by auto
  have "oq_bytes q = ck_bytes c + oq_bytes (snd (shiftOutputQueue q))"
    using inv sh q(2) by (simp add: queue_ok_bytes)
  with rec sh q r show ?thesis
    by (auto simp: dequeue_post_def split: prod.splits if_splits)
qed

lemma dequeue_post_split:
  assumes q: "queue_ok q" "queue_list q = c # cs" and r: "r < ck_bytes c" "r > 0"
    and ht: "splitOutputChunk c r = (h, t)"
    and rec: "dequeue_post ((replaceOutputQueueHead q t)\<lparr>oq_bytes := oq_bytes q - ck_bytes h\<rparr>)
                (r - ck_bytes h) (ps @ [ck_data h]) (b + ck_bytes h) res"
  shows "dequeue_post q r ps b res"
proof -
  have inv: "queue_inv q" and c: "chunk_ok c" using q by (auto simp: queue_ok_def)
  have sc: "ck_bytes h + ck_bytes t = ck_bytes c" "ck_bytes h \<le> max r 4" "ck_data h @ ck_data t = ck_data c"
    using split_consistent [of c r] split_data [of c r] c r ht by (auto simp: chunk_ok_def)
  let ?q = "(replaceOutputQueueHead q t)\<lparr>oq_bytes := oq_bytes q - ck_bytes h\<rparr>"
  have ql: "queue_list ?q = t # cs" using queue_inv_replace(2) [OF inv q(2) sc(1)] .
  have "ck_bytes h \<le> oq_bytes q" using inv q(2) sc(1) by (simp add: queue_ok_bytes)
  with rec ql q r sc(1,2) show ?thesis
    by (auto simp: dequeue_post_def sc(3) [symmetric] split: prod.splits if_splits)
qed

lemma queue_ok_split:
  assumes "queue_ok q" and "queue_list q = c # cs" and "r < ck_bytes c" and "splitOutputChunk c r = (h, t)"
  shows "queue_ok ((replaceOutputQueueHead q t)\<lparr>oq_bytes := oq_bytes q - ck_bytes h\<rparr>)"
proof -
  have inv: "queue_inv q" and c: "chunk_ok c" "list_all chunk_ok cs"
    using assms(1,2) by (auto simp: queue_ok_def)
  have sc: "ck_bytes h + ck_bytes t = ck_bytes c" "consistent t" "ck_data h @ ck_data t = ck_data c"
    using split_consistent [of c r] split_data [of c r] c(1) assms(3,4) by (auto simp: chunk_ok_def)
  have "units_ok (ck_data c)" using c(1) by (simp add: chunk_ok_def)
  then have "units_ok (ck_data t)" unfolding units_ok_def sc(3) [symmetric] by simp
  then show ?thesis
    using queue_inv_replace [OF inv assms(2) sc(1)] sc(2) c(2) by (simp add: queue_ok_def chunk_ok_def)
qed

lemma queue_ok_shift:
  "queue_ok q \<Longrightarrow> queue_list q = c # cs \<Longrightarrow> queue_ok (snd (shiftOutputQueue q))"
  using shift_list [of q c cs] by (auto simp: queue_ok_def)

lemma dequeueLoop_post: "queue_ok q \<Longrightarrow> dequeue_post q r ps b (dequeueLoop q r ps b)"
proof (induction q r ps b rule: dequeueLoop.induct)
  case (1 q r ps b)
  have inv: "queue_inv q" using 1(3) by (simp add: queue_ok_def)
  show ?case
  proof (cases "r > 0 \<and> queue_list q \<noteq> []")
    case False
    with 1(3) show ?thesis
      by (subst dequeueLoop.simps) (auto simp: dequeue_post_def)
  next
    case True
    then obtain c cs where ql: "queue_list q = c # cs" by (cases "queue_list q") auto
    then have pk: "peekOutputQueue q = Some c" using inv by (simp add: peek_list)
    show ?thesis
    proof (cases "ck_bytes c \<le> r")
      case le: True
      have "dequeue_post (snd (shiftOutputQueue q)) (r - ck_bytes c) (ps @ [ck_data c]) (b + ck_bytes c)
              (dequeueLoop (snd (shiftOutputQueue q)) (r - ck_bytes c) (ps @ [ck_data c]) (b + ck_bytes c))"
        using 1(1) [of c] True pk le queue_ok_shift [OF 1(3) ql] by simp
      then show ?thesis
        using dequeue_post_shift [OF 1(3) ql le] True pk le dequeueLoop.simps [of q r ps b] by simp
    next
      case gt: False
      obtain h t where ht: "splitOutputChunk c r = (h, t)" by (cases "splitOutputChunk c r")
      let ?q = "(replaceOutputQueueHead q t)\<lparr>oq_bytes := oq_bytes q - ck_bytes h\<rparr>"
      have "dequeue_post ?q (r - ck_bytes h) (ps @ [ck_data h]) (b + ck_bytes h)
              (dequeueLoop ?q (r - ck_bytes h) (ps @ [ck_data h]) (b + ck_bytes h))"
        using 1(2) [of c "(h, t)" h t] True pk gt ht queue_ok_split [OF 1(3) ql _ ht] by simp
      then show ?thesis
        using dequeue_post_split [OF 1(3) ql _ _ ht] True pk gt ht dequeueLoop.simps [of q r ps b] by simp
    qed
  qed
qed

lemma dequeue_exact:
  assumes "queue_ok q" and "0 < m" and "queue_list q \<noteq> []"
  shows "\<exists>p q'. dequeueOutputChunk q m = (Some p, q') \<and> queue_ok q'
           \<and> ck_data p @ queue_data (queue_list q') = queue_data (queue_list q)
           \<and> ck_bytes p + oq_bytes q' = oq_bytes q \<and> ck_bytes p \<le> m + 3"
proof -
  obtain ps b q' where res: "dequeueLoop q m [] 0 = (ps, b, q')" by (cases "dequeueLoop q m [] 0")
  have "dequeue_post q m [] 0 (ps, b, q')"
    using dequeueLoop_post [OF assms(1), of m "[]" 0] res by simp
  with res assms show ?thesis by (auto simp: dequeueOutputChunk_def dequeue_post_def)
qed

section \<open>The bounded replay text\<close>

lemma boundedParts_suffix:
  "\<exists>pre. queue_data (rev cs) = pre @ concat (rev (boundedParts m (map Some cs) b))"
proof (induction cs arbitrary: b)
  case (Cons c cs)
  show ?case
  proof (cases "b + ck_bytes c \<le> m")
    case True
    from Cons.IH [of "b + ck_bytes c"] obtain pre where
      "queue_data (rev cs) = pre @ concat (rev (boundedParts m (map Some cs) (b + ck_bytes c)))" ..
    with True show ?thesis by auto
  next
    case False
    have "ck_data c = ck_data (fst (splitOutputChunk c k)) @ ck_data (snd (splitOutputChunk c k))" for k
      by (rule split_data [symmetric])
    then show ?thesis using False by (auto simp: Let_def) (metis append_assoc)
  qed
qed simp

lemma boundedParts_bytes:
  "list_all chunk_ok cs \<Longrightarrow> b \<le> m \<Longrightarrow>
   utf8ByteLength (concat (rev (boundedParts m (map Some cs) b))) \<le> m - b + 3"
proof (induction cs arbitrary: b)
  case (Cons c cs)
  have c: "ck_bytes c = utf8ByteLength (ck_data c)"
    using Cons.prems by (simp add: chunk_ok_def consistent_def)
  show ?case
  proof (cases "b + ck_bytes c \<le> m")
    case True
    let ?xs = "concat (rev (boundedParts m (map Some cs) (b + ck_bytes c)))"
    have "utf8ByteLength ?xs \<le> m - (b + ck_bytes c) + 3" using Cons True by simp
    moreover have "utf8ByteLength (?xs @ ck_data c) \<le> utf8ByteLength ?xs + ck_bytes c"
      using c utf8_append_le by simp
    ultimately show ?thesis using True by simp
  next
    case False
    define k where "k = ck_bytes c - (m - b)"
    show ?thesis
    proof (cases "m - b > 0")
      case pos: True
      then have k: "k < ck_bytes c" "ck_bytes c = k + (m - b)" using False by (auto simp: k_def)
      have "consistent c" "units_ok (ck_data c)" using Cons.prems(1) by (auto simp: chunk_ok_def)
      note sp = split_consistent(2,3,6) [OF this k(1)]
      have "ck_bytes (snd (splitOutputChunk c k)) \<le> m - b + 3"
        using sp(2,3) k(2) by linarith
      moreover note sp(1)
      ultimately show ?thesis using False pos by (simp add: Let_def consistent_def k_def)
    qed (use False in simp)
  qed
qed simp

lemma live_slots: "queue_inv q \<Longrightarrow> drop (oq_headIndex q) (oq_chunks q) = map Some (queue_list q)"
  by (auto simp: queue_inv_def queue_list_def comp_def intro!: map_idI [symmetric])

section \<open>Properties\<close>

text \<open>the output queue is first in, first out: pushing any list of chunks onto the empty
  queue and shifting as often returns exactly that list, across the lazy compaction of
  the slot array.\<close>

theorem output_queue_fifo:
  "fst (shifts shiftOutputQueue (length cs) (foldl pushOutputQueue createOutputQueue cs)) = cs"
  by (rule oq.fifo)

text \<open>splitting a chunk whose byte count is right: the two halves concatenate to the
  chunk, their byte counts are right and add up (no surrogate pair is cut), the head is
  not empty, and it misses the requested size by at most three bytes either way.\<close>

theorem split_output_chunk_exact:
  assumes "consistent c" and "units_ok (ck_data c)" and "m < ck_bytes c"
    and "splitOutputChunk c m = (h, t)"
  shows "ck_data h @ ck_data t = ck_data c \<and> consistent h \<and> consistent t
         \<and> ck_bytes h + ck_bytes t = ck_bytes c \<and> 1 \<le> ck_bytes h
         \<and> ck_bytes h \<le> max m 4 \<and> m \<le> ck_bytes h + 3"
  using split_data [of c m] split_consistent [OF assms(1-3)] assms(4) by simp

theorem split_output_chunk_exact_witness:
  "\<exists>h t. splitOutputChunk (mk_chunk [97, 0xD83D, 0xDE00, 98] 6) 3 = (h, t) \<and> ck_data h @ ck_data t = [97, 0xD83D, 0xDE00, 98]"
proof -
  let ?c = "mk_chunk [97, 0xD83D, 0xDE00, 98] 6"
  obtain h t where ht: "splitOutputChunk ?c 3 = (h, t)" by (cases "splitOutputChunk ?c 3")
  have "consistent ?c" by (simp add: consistent_def unit_bytes_def is_high_def is_low_def)
  moreover have "units_ok (ck_data ?c)" by (simp add: units_ok_def)
  ultimately show ?thesis using split_output_chunk_exact [of ?c 3 h t] ht by simp
qed

text \<open>dequeuing a write payload takes a prefix of the queued data: payload and remaining
  queue concatenate to the old queue, byte counts are conserved, the queue stays well
  formed, a payload is returned whenever something is queued, and it exceeds the budget
  by at most three bytes.\<close>

theorem dequeue_output_chunk_exact:
  assumes "queue_ok q" and "0 < m" and "queue_list q \<noteq> []"
  shows "\<exists>p q'. dequeueOutputChunk q m = (Some p, q') \<and> queue_ok q'
           \<and> ck_data p @ queue_data (queue_list q') = queue_data (queue_list q)
           \<and> ck_bytes p + oq_bytes q' = oq_bytes q \<and> ck_bytes p \<le> m + 3"
  using assms by (rule dequeue_exact)

theorem dequeue_output_chunk_exact_witness:
  "\<exists>p q'. dequeueOutputChunk (pushOutputQueue createOutputQueue (mk_chunk [104, 105] 2)) 1 = (Some p, q')
     \<and> ck_bytes p \<le> 4"
proof -
  let ?c = "mk_chunk [104, 105] 2" and ?q = "pushOutputQueue createOutputQueue (mk_chunk [104, 105] 2)"
  have "chunk_ok ?c" by (simp add: chunk_ok_def consistent_def units_ok_def unit_bytes_def is_high_def)
  then have "queue_ok ?q" by (simp add: queue_ok_def queue_inv_push)
  then show ?thesis using dequeue_output_chunk_exact [of ?q 1] by auto
qed

text \<open>the write budget is not a hard maximum: two queued four-byte characters are written
  in one eight-byte payload under a budget of five bytes, because after the first split
  the loop splits again and the first code point of a split is always taken.\<close>

theorem dequeue_can_exceed_budget:
  "dequeueOutputChunk (pushOutputQueue createOutputQueue (mk_chunk [0xD83D, 0xDE00, 0xD83D, 0xDE00] 8)) 5
     = (Some (mk_chunk [0xD83D, 0xDE00, 0xD83D, 0xDE00] 8),
        \<lparr>oq_chunks = [Some (mk_chunk [] 0)], oq_headIndex = 0, oq_bytes = 0\<rparr>)"
  by (simp add: dequeueOutputChunk_def dequeueLoop.simps createOutputQueue_def pushOutputQueue_def
      queue_list_def peekOutputQueue_def head_slot_def splitOutputChunk_def splitScan.simps
      charLength_def utf8BytesForCodePoint_def is_high_def is_low_def replaceOutputQueueHead_def)

text \<open>the replay text kept for a hibernating terminal is a suffix of the queued data (the
  newest output), at most three bytes longer than \<open>snapshotMaxBytes\<close>.\<close>

theorem bounded_string_suffix:
  assumes "queue_ok q"
  shows "(\<exists>pre. queue_data (queue_list q) = pre @ outputQueueToBoundedString q)
         \<and> utf8ByteLength (outputQueueToBoundedString q) \<le> snapshotMaxBytes + 3"
proof -
  have inv: "queue_inv q" and ok: "list_all chunk_ok (queue_list q)"
    using assms by (auto simp: queue_ok_def)
  have eq: "outputQueueToBoundedString q =
            concat (rev (boundedParts snapshotMaxBytes (map Some (rev (queue_list q))) 0))"
    by (simp add: outputQueueToBoundedString_def live_slots [OF inv] rev_map)
  show ?thesis
    using boundedParts_suffix [of "rev (queue_list q)" snapshotMaxBytes 0]
      boundedParts_bytes [of "rev (queue_list q)" 0 snapshotMaxBytes] ok
    by (simp add: eq)
qed

theorem bounded_string_suffix_witness:
  "utf8ByteLength (outputQueueToBoundedString (pushOutputQueue createOutputQueue (mk_chunk [104, 105] 2)))
     \<le> snapshotMaxBytes + 3"
proof -
  have "chunk_ok (mk_chunk [104, 105] 2)"
    by (simp add: chunk_ok_def consistent_def units_ok_def unit_bytes_def is_high_def)
  then have "queue_ok (pushOutputQueue createOutputQueue (mk_chunk [104, 105] 2))"
    by (simp add: queue_ok_def queue_inv_push)
  then show ?thesis using bounded_string_suffix by blast
qed

end
