(* ===== verification/Output_Drain.thy ===== *)
theory Output_Drain
  imports Output_Queue
begin

text \<open>
  The flow-controlled writer of terminal output
  (\<open>components/terminal/terminalOutputDrain.ts\<close>, class \<open>TerminalOutputDrain\<close>). It moves
  chunks from the output queue to \<open>terminal.write\<close>, one payload at a time, and returns
  the bytes as acknowledgements so that the backend may send more.

  The object's fields are the record \<open>drain\<close>. A pending callback is a field: a timer or
  animation frame that was cleared cannot fire, so the handle fields say which callbacks
  can; a queued microtask cannot be cancelled, so \<open>dr_microtasks\<close> counts them. The promise
  chain \<open>writeQueue\<close> is the list of payloads not yet finished (\<open>dr_started\<close> says whether
  \<open>terminal.write\<close> was called for the first) and \<open>dr_conts\<close> the continuations of resolved
  promises. What the callbacks of the options object read is the record \<open>drain_env\<close>,
  given afresh to every event. The observable calls are logged: \<open>dr_acks\<close> the arguments of
  \<open>onAck\<close>, \<open>dr_out\<close> the payloads in the order they left the chain, \<open>dr_results\<close> what
  \<open>waitForIdle\<close> promised. Logging callbacks and \<open>writeExternal\<close> are not modelled.
\<close>

datatype drain_mode = Foreground | Background | Hibernating | Hibernated

datatype fg_timer = DelayTimer | FallbackTimer nat

datatype cont = ContSchedule | ContPoll nat

datatype outcome = Written | Skipped | Failed

record drain_env =
  de_alive :: bool
  de_writeThrows :: bool
  de_chunkBytes :: nat
  de_foregroundDelay :: nat
  de_lowLatency :: bool
  de_now :: nat

record drain =
  dr_queue :: output_queue
  dr_mode :: drain_mode
  dr_writingBytes :: nat
  dr_unacked :: nat
  dr_pendingAck :: nat
  dr_writeInFlight :: bool
  dr_jobs :: "(chunk \<times> cont) list"
  dr_started :: bool
  dr_conts :: "cont list"
  dr_fgFrame :: "nat option"
  dr_fgTimer :: "fg_timer option"
  dr_bgTimer :: bool
  dr_bgTimerCatchUp :: "bool option"
  dr_bgCatchUp :: bool
  dr_ackTimer :: bool
  dr_microtaskPending :: bool
  dr_microtasks :: nat
  dr_turnStartedAt :: "nat option"
  dr_generation :: nat
  dr_pollTimers :: "nat list"
  dr_disposed :: bool
  dr_acks :: "nat list"
  dr_out :: "(chunk \<times> outcome) list"
  dr_results :: "bool list"

section \<open>Configuration\<close>

definition ackBatchBytes :: nat where "ackBatchBytes = 64 * 1024"
definition lowLatencyFlushBacklogBytes :: nat where "lowLatencyFlushBacklogBytes = 64 * 1024"
definition strainedBacklogBytes :: nat where "strainedBacklogBytes = 128 * 1024"
definition maxForegroundDrainTurnMs :: nat where "maxForegroundDrainTurnMs = 10"
definition backgroundWriteChunkBytes :: nat where "backgroundWriteChunkBytes = 16 * 1024"
definition backgroundCatchUpWriteChunkBytes :: nat where "backgroundCatchUpWriteChunkBytes = 64 * 1024"

section \<open>Operations\<close>

definition initDrain :: drain where
  "initDrain = \<lparr>dr_queue = createOutputQueue, dr_mode = Foreground, dr_writingBytes = 0,
     dr_unacked = 0, dr_pendingAck = 0, dr_writeInFlight = False, dr_jobs = [], dr_started = False,
     dr_conts = [], dr_fgFrame = None, dr_fgTimer = None, dr_bgTimer = False,
     dr_bgTimerCatchUp = None, dr_bgCatchUp = False, dr_ackTimer = False,
     dr_microtaskPending = False, dr_microtasks = 0, dr_turnStartedAt = None, dr_generation = 0,
     dr_pollTimers = [], dr_disposed = False, dr_acks = [], dr_out = [], dr_results = []\<rparr>"

definition getPendingBytes :: "drain \<Rightarrow> nat" where
  "getPendingBytes d = oq_bytes (dr_queue d) + dr_writingBytes d + dr_pendingAck d"

definition getQueueBytes :: "drain \<Rightarrow> nat" where
  "getQueueBytes d = oq_bytes (dr_queue d)"

definition hasQueuedOutput :: "drain \<Rightarrow> bool" where
  "hasQueuedOutput d = hasOutputQueueItems (dr_queue d)"

definition isWriteInFlight :: "drain \<Rightarrow> bool" where
  "isWriteInFlight d = dr_writeInFlight d"

definition sendAck :: "nat \<Rightarrow> drain \<Rightarrow> drain" where
  "sendAck bytes d =
     (if bytes \<le> 0 then d
      else (let ackBytes = min bytes (dr_unacked d)
            in if ackBytes \<le> 0 then d
               else d\<lparr>dr_unacked := dr_unacked d - ackBytes, dr_acks := dr_acks d @ [ackBytes]\<rparr>))"

definition clearAckTimer :: "drain \<Rightarrow> drain" where
  "clearAckTimer d = d\<lparr>dr_ackTimer := False\<rparr>"

definition scheduleAckFlush :: "drain \<Rightarrow> drain" where
  "scheduleAckFlush d = (if dr_ackTimer d \<or> dr_disposed d then d else d\<lparr>dr_ackTimer := True\<rparr>)"

definition flushPendingAck :: "bool \<Rightarrow> drain \<Rightarrow> drain" where
  "flushPendingAck force d =
     (let bytes = dr_pendingAck d
      in if bytes \<le> 0 then (if force then clearAckTimer d else d)
         else if \<not> force \<and> bytes < ackBatchBytes then scheduleAckFlush d
         else sendAck bytes ((clearAckTimer d)\<lparr>dr_pendingAck := 0\<rparr>))"

definition clearForegroundSchedulers :: "drain \<Rightarrow> drain" where
  "clearForegroundSchedulers d = d\<lparr>dr_fgFrame := None, dr_fgTimer := None\<rparr>"

definition cancelForeground :: "drain \<Rightarrow> drain" where
  "cancelForeground d =
     (clearForegroundSchedulers (d\<lparr>dr_generation := dr_generation d + 1\<rparr>))
       \<lparr>dr_microtaskPending := False, dr_turnStartedAt := None\<rparr>"

definition cancelBackground :: "drain \<Rightarrow> drain" where
  "cancelBackground d = d\<lparr>dr_bgTimer := False, dr_bgTimerCatchUp := None\<rparr>"

definition beginForegroundScheduleCycle :: "drain \<Rightarrow> nat \<times> drain" where
  "beginForegroundScheduleCycle d =
     (dr_generation d + 1, d\<lparr>dr_generation := dr_generation d + 1\<rparr>)"

definition claimForegroundScheduleCycle :: "nat \<Rightarrow> drain \<Rightarrow> bool \<times> drain" where
  "claimForegroundScheduleCycle g d =
     (if g \<noteq> dr_generation d \<or> dr_disposed d then (False, d)
      else (True, (clearForegroundSchedulers (d\<lparr>dr_generation := dr_generation d + 1\<rparr>))
                    \<lparr>dr_turnStartedAt := None\<rparr>))"

definition hasForegroundTurnBudgetRemaining :: "drain_env \<Rightarrow> drain \<Rightarrow> bool" where
  "hasForegroundTurnBudgetRemaining env d =
     (case dr_turnStartedAt d of None \<Rightarrow> True
      | Some t \<Rightarrow> int (de_now env) - int t < int maxForegroundDrainTurnMs)"

definition beginForegroundTurn :: "drain_env \<Rightarrow> drain \<Rightarrow> drain" where
  "beginForegroundTurn env d =
     (if dr_turnStartedAt d = None then d\<lparr>dr_turnStartedAt := Some (de_now env)\<rparr> else d)"

definition scheduleForeground :: "drain_env \<Rightarrow> drain \<Rightarrow> drain" where
  "scheduleForeground env d =
     (if dr_fgFrame d \<noteq> None \<or> dr_fgTimer d \<noteq> None \<or> dr_microtaskPending d \<or> dr_disposed d then d
      else if de_foregroundDelay env > 0 then d\<lparr>dr_fgTimer := Some DelayTimer\<rparr>
      else if de_lowLatency env \<and> hasForegroundTurnBudgetRemaining env d
        then d\<lparr>dr_microtaskPending := True, dr_microtasks := dr_microtasks d + 1\<rparr>
      else (let (g, d) = beginForegroundScheduleCycle d
            in d\<lparr>dr_fgFrame := Some g, dr_fgTimer := Some (FallbackTimer g)\<rparr>))"

text \<open>The catch-up decision with hysteresis and the write budget it selects.\<close>

definition resolveBackgroundSchedule :: "drain \<Rightarrow> (bool \<times> nat) \<times> drain" where
  "resolveBackgroundSchedule d =
     (let c = (if dr_bgCatchUp d then oq_bytes (dr_queue d) > lowLatencyFlushBacklogBytes
               else oq_bytes (dr_queue d) \<ge> strainedBacklogBytes)
      in ((c, if c then backgroundCatchUpWriteChunkBytes else backgroundWriteChunkBytes),
          d\<lparr>dr_bgCatchUp := c\<rparr>))"

definition scheduleBackground :: "drain \<Rightarrow> drain" where
  "scheduleBackground d =
     (let ((catchUp, _), d) = resolveBackgroundSchedule d
      in if dr_disposed d then d
         else if dr_bgTimer d \<and> \<not> (catchUp \<and> dr_bgTimerCatchUp d = Some False) then d
         else (let d = (if dr_bgTimer d then cancelBackground d else d)
               in d\<lparr>dr_bgTimerCatchUp := Some catchUp, dr_bgTimer := True\<rparr>))"

definition schedule :: "drain_env \<Rightarrow> drain \<Rightarrow> drain" where
  "schedule env d =
     (if dr_disposed d then d
      else if \<not> hasOutputQueueItems (dr_queue d)
        then flushPendingAck True (d\<lparr>dr_turnStartedAt := None\<rparr>)
      else if dr_writeInFlight d \<or> dr_mode d = Hibernating \<or> dr_mode d = Hibernated then d
      else if dr_mode d = Background then scheduleBackground d
      else scheduleForeground env d)"

definition writePayload :: "chunk \<Rightarrow> cont \<Rightarrow> drain \<Rightarrow> drain" where
  "writePayload p k d =
     d\<lparr>dr_writingBytes := dr_writingBytes d + ck_bytes p, dr_writeInFlight := True,
       dr_jobs := dr_jobs d @ [(p, k)]\<rparr>"

definition flushOne :: "drain_env \<Rightarrow> nat \<Rightarrow> drain \<Rightarrow> drain" where
  "flushOne env maxBytes d =
     (if dr_writeInFlight d \<or> dr_disposed d then schedule env d
      else (case dequeueOutputChunk (dr_queue d) maxBytes of
              (None, q) \<Rightarrow> flushPendingAck True (d\<lparr>dr_queue := q\<rparr>)
            | (Some p, q) \<Rightarrow> writePayload p ContSchedule (d\<lparr>dr_queue := q\<rparr>)))"

definition flushForeground :: "drain_env \<Rightarrow> drain \<Rightarrow> drain" where
  "flushForeground env d =
     (if dr_mode d \<noteq> Foreground \<or> dr_disposed d then schedule env d
      else flushOne env (de_chunkBytes env) (beginForegroundTurn env d))"

definition flushBackground :: "drain_env \<Rightarrow> drain \<Rightarrow> drain" where
  "flushBackground env d =
     (if dr_mode d \<noteq> Background \<or> dr_disposed d then schedule env d
      else (let ((_, n), d) = resolveBackgroundSchedule d in flushOne env n d))"

definition setMode :: "drain_env \<Rightarrow> drain_mode \<Rightarrow> drain \<Rightarrow> drain" where
  "setMode env m d =
     (if dr_disposed d then d
      else if dr_mode d = m then schedule env d
      else (let d = d\<lparr>dr_mode := m\<rparr>;
                d = (if m \<noteq> Foreground then cancelForeground d else d);
                d = (if m \<noteq> Background then (cancelBackground d)\<lparr>dr_bgCatchUp := False\<rparr> else d)
            in schedule env d))"

definition enqueue :: "drain_env \<Rightarrow> chunk \<Rightarrow> drain \<Rightarrow> drain" where
  "enqueue env c d =
     (if dr_disposed d \<or> ck_bytes c \<le> 0 \<or> ck_data c = [] then d
      else schedule env (d\<lparr>dr_queue := pushOutputQueue (dr_queue d) c,
                           dr_unacked := dr_unacked d + ck_bytes c\<rparr>))"

definition resolveIdle :: "bool \<Rightarrow> drain \<Rightarrow> drain" where
  "resolveIdle r d = d\<lparr>dr_results := dr_results d @ [r]\<rparr>"

definition poll :: "drain_env \<Rightarrow> nat \<Rightarrow> drain \<Rightarrow> drain" where
  "poll env deadline d =
     (if dr_disposed d then resolveIdle False d
      else if de_now env > deadline then resolveIdle False d
      else (let (payload, q) = (if hasOutputQueueItems (dr_queue d)
                                then dequeueOutputChunk (dr_queue d) (de_chunkBytes env)
                                else (None, dr_queue d));
                d = d\<lparr>dr_queue := q\<rparr>
            in case payload of
                 Some p \<Rightarrow> writePayload p (ContPoll deadline) d
               | None \<Rightarrow>
                   if dr_writeInFlight d \<or> dr_writingBytes d > 0
                   then d\<lparr>dr_pollTimers := dr_pollTimers d @ [deadline]\<rparr>
                   else (let d = flushPendingAck True d
                         in resolveIdle (oq_bytes (dr_queue d) = 0 \<and> dr_writingBytes d = 0) d)))"

definition waitForIdle :: "drain_env \<Rightarrow> nat \<Rightarrow> drain \<Rightarrow> drain" where
  "waitForIdle env timeoutMs d =
     poll env (de_now env + timeoutMs) (cancelBackground (cancelForeground d))"

definition dispose :: "bool \<Rightarrow> drain \<Rightarrow> drain" where
  "dispose ackRemaining d =
     (if dr_disposed d then d
      else (let d = clearAckTimer (cancelBackground (cancelForeground (d\<lparr>dr_disposed := True\<rparr>)));
                d = flushPendingAck True (d\<lparr>dr_microtaskPending := False\<rparr>);
                d = (if ackRemaining then sendAck (dr_unacked d) d else d)
            in d\<lparr>dr_queue := createOutputQueue, dr_writingBytes := 0, dr_pendingAck := 0,
                 dr_unacked := 0, dr_writeInFlight := False\<rparr>))"

section \<open>Callbacks\<close>

text \<open>The promise executor of the first payload of the chain.\<close>

definition finishJob :: "outcome \<Rightarrow> drain \<Rightarrow> drain" where
  "finishJob r d =
     (case dr_jobs d of [] \<Rightarrow> d
      | (p, k) # rest \<Rightarrow>
          d\<lparr>dr_jobs := rest, dr_started := False, dr_conts := dr_conts d @ [k],
            dr_out := dr_out d @ [(p, r)],
            dr_writingBytes := dr_writingBytes d - ck_bytes p, dr_writeInFlight := False\<rparr>)"

definition startJob :: "drain_env \<Rightarrow> drain \<Rightarrow> drain" where
  "startJob env d =
     (case dr_jobs d of [] \<Rightarrow> d
      | (p, k) # rest \<Rightarrow>
          if \<not> de_alive env \<or> dr_disposed d then finishJob Skipped d
          else if de_writeThrows env then finishJob Failed d
          else d\<lparr>dr_started := True\<rparr>)"

definition writeDone :: "drain \<Rightarrow> drain" where
  "writeDone d =
     (case dr_jobs d of [] \<Rightarrow> d
      | (p, k) # rest \<Rightarrow>
          (let d = finishJob Written d
           in flushPendingAck (oq_bytes (dr_queue d) = 0)
                (d\<lparr>dr_pendingAck := dr_pendingAck d + ck_bytes p\<rparr>)))"

definition runCont :: "drain_env \<Rightarrow> cont \<Rightarrow> drain \<Rightarrow> drain" where
  "runCont env k d =
     (case k of ContSchedule \<Rightarrow> schedule env d
      | ContPoll deadline \<Rightarrow> poll env deadline (flushPendingAck True d))"

definition onFrame :: "drain_env \<Rightarrow> nat \<Rightarrow> drain \<Rightarrow> drain" where
  "onFrame env g d =
     (let (ok, d) = claimForegroundScheduleCycle g d in if ok then flushForeground env d else d)"

definition onForegroundTimer :: "drain_env \<Rightarrow> fg_timer \<Rightarrow> drain \<Rightarrow> drain" where
  "onForegroundTimer env t d =
     (case t of
        DelayTimer \<Rightarrow> flushForeground env (d\<lparr>dr_fgTimer := None, dr_turnStartedAt := None\<rparr>)
      | FallbackTimer g \<Rightarrow> onFrame env g d)"

definition onMicrotask :: "drain_env \<Rightarrow> drain \<Rightarrow> drain" where
  "onMicrotask env d =
     flushForeground env (d\<lparr>dr_microtaskPending := False, dr_microtasks := dr_microtasks d - 1\<rparr>)"

definition onBackgroundTimer :: "drain_env \<Rightarrow> drain \<Rightarrow> drain" where
  "onBackgroundTimer env d =
     flushBackground env (d\<lparr>dr_bgTimer := False, dr_bgTimerCatchUp := None\<rparr>)"

definition onAckTimer :: "drain \<Rightarrow> drain" where
  "onAckTimer d = flushPendingAck True (d\<lparr>dr_ackTimer := False\<rparr>)"

text \<open>
  One event: a call of a public method or the firing of a pending callback. The second
  component of the state records the chunks accepted by \<open>enqueue\<close> so far. The write
  budget \<open>getWriteChunkBytes\<close> is positive, as both budgets of
  \<open>XTERM_PERFORMANCE_CONFIG.output\<close> are.
\<close>

inductive drain_step :: "drain \<times> chunk list \<Rightarrow> drain \<times> chunk list \<Rightarrow> bool" where
  st_enqueue: "0 < de_chunkBytes env \<Longrightarrow> drain_step (d, h)
     (enqueue env c d, if dr_disposed d \<or> ck_bytes c = 0 \<or> ck_data c = [] then h else h @ [c])"
| st_setMode: "0 < de_chunkBytes env \<Longrightarrow> drain_step (d, h) (setMode env m d, h)"
| st_waitForIdle: "0 < de_chunkBytes env \<Longrightarrow> drain_step (d, h) (waitForIdle env n d, h)"
| st_dispose: "drain_step (d, h) (dispose b d, h)"
| st_frame: "0 < de_chunkBytes env \<Longrightarrow> dr_fgFrame d = Some g \<Longrightarrow> drain_step (d, h) (onFrame env g d, h)"
| st_fgTimer: "0 < de_chunkBytes env \<Longrightarrow> dr_fgTimer d = Some t \<Longrightarrow> drain_step (d, h) (onForegroundTimer env t d, h)"
| st_microtask: "0 < de_chunkBytes env \<Longrightarrow> 0 < dr_microtasks d \<Longrightarrow> drain_step (d, h) (onMicrotask env d, h)"
| st_bgTimer: "0 < de_chunkBytes env \<Longrightarrow> dr_bgTimer d \<Longrightarrow> drain_step (d, h) (onBackgroundTimer env d, h)"
| st_ackTimer: "dr_ackTimer d \<Longrightarrow> drain_step (d, h) (onAckTimer d, h)"
| st_pollTimer: "0 < de_chunkBytes env \<Longrightarrow> dr_pollTimers d = xs @ t # ys \<Longrightarrow>
     drain_step (d, h) (poll env t (d\<lparr>dr_pollTimers := xs @ ys\<rparr>), h)"
| st_startJob: "0 < de_chunkBytes env \<Longrightarrow> dr_jobs d \<noteq> [] \<Longrightarrow> \<not> dr_started d \<Longrightarrow> drain_step (d, h) (startJob env d, h)"
| st_writeDone: "dr_jobs d \<noteq> [] \<Longrightarrow> dr_started d \<Longrightarrow> drain_step (d, h) (writeDone d, h)"
| st_cont: "0 < de_chunkBytes env \<Longrightarrow> dr_conts d = k # ks \<Longrightarrow> drain_step (d, h) (runCont env k (d\<lparr>dr_conts := ks\<rparr>), h)"

section \<open>Which operation touches which field\<close>

lemmas ack_defs = flushPendingAck_def scheduleAckFlush_def clearAckTimer_def sendAck_def

lemmas sched_defs = schedule_def scheduleForeground_def scheduleBackground_def
  resolveBackgroundSchedule_def beginForegroundScheduleCycle_def cancelBackground_def

lemmas cancel_defs = cancelForeground_def clearForegroundSchedulers_def cancelBackground_def

section \<open>Flow-control credit\<close>

text \<open>
  \<open>credit\<close>: the bytes acknowledged plus the bytes the backend still waits for. Every
  operation but \<open>enqueue\<close> and \<open>dispose\<close> keeps it, and acknowledges positive amounts only.
\<close>

definition credit :: "drain \<Rightarrow> nat" where
  "credit d = sum_list (dr_acks d) + dr_unacked d"

definition credit_keep :: "drain \<Rightarrow> drain \<Rightarrow> bool" where
  "credit_keep d d' \<longleftrightarrow> dr_disposed d' = dr_disposed d \<and> credit d' = credit d
     \<and> dr_unacked d' \<le> dr_unacked d \<and> (0 \<notin> set (dr_acks d) \<longrightarrow> 0 \<notin> set (dr_acks d'))
     \<and> (\<exists>new. dr_acks d' = dr_acks d @ new)"

named_theorems credit_intros "operations that keep the credit"

lemma credit_refl [credit_intros]: "credit_keep d d"
  by (simp add: credit_keep_def)

lemma credit_update [simp]:
  "credit_keep d (dr_queue_update u1 e) = credit_keep d e"
  "credit_keep d (dr_mode_update u2 e) = credit_keep d e"
  "credit_keep d (dr_writingBytes_update u3 e) = credit_keep d e"
  "credit_keep d (dr_pendingAck_update u4 e) = credit_keep d e"
  "credit_keep d (dr_writeInFlight_update u5 e) = credit_keep d e"
  "credit_keep d (dr_jobs_update u6 e) = credit_keep d e"
  "credit_keep d (dr_started_update u7 e) = credit_keep d e"
  "credit_keep d (dr_conts_update u8 e) = credit_keep d e"
  "credit_keep d (dr_fgFrame_update u9 e) = credit_keep d e"
  "credit_keep d (dr_fgTimer_update u10 e) = credit_keep d e"
  "credit_keep d (dr_bgTimer_update u11 e) = credit_keep d e"
  "credit_keep d (dr_bgTimerCatchUp_update u12 e) = credit_keep d e"
  "credit_keep d (dr_bgCatchUp_update u13 e) = credit_keep d e"
  "credit_keep d (dr_ackTimer_update u14 e) = credit_keep d e"
  "credit_keep d (dr_microtaskPending_update u15 e) = credit_keep d e"
  "credit_keep d (dr_microtasks_update u16 e) = credit_keep d e"
  "credit_keep d (dr_turnStartedAt_update u17 e) = credit_keep d e"
  "credit_keep d (dr_generation_update u18 e) = credit_keep d e"
  "credit_keep d (dr_pollTimers_update u19 e) = credit_keep d e"
  "credit_keep d (dr_out_update u20 e) = credit_keep d e"
  "credit_keep d (dr_results_update u21 e) = credit_keep d e"
  by (simp_all add: credit_keep_def credit_def)

lemma credit_sendAck [credit_intros]: "credit_keep d e \<Longrightarrow> credit_keep d (sendAck n e)"
  by (auto simp: credit_keep_def credit_def sendAck_def Let_def)

lemma credit_flush [credit_intros]: "credit_keep d e \<Longrightarrow> credit_keep d (flushPendingAck f e)"
  by (simp add: flushPendingAck_def scheduleAckFlush_def clearAckTimer_def Let_def credit_sendAck)

lemma credit_schedule [credit_intros]: "credit_keep d e \<Longrightarrow> credit_keep d (schedule env e)"
  by (simp add: sched_defs Let_def credit_flush)

lemma credit_cancel [credit_intros]:
  "credit_keep d e \<Longrightarrow> credit_keep d (cancelForeground e)"
  "credit_keep d e \<Longrightarrow> credit_keep d (cancelBackground e)"
  by (simp_all add: cancel_defs)

lemma credit_writePayload [credit_intros]: "credit_keep d e \<Longrightarrow> credit_keep d (writePayload p k e)"
  by (simp add: writePayload_def)

lemma credit_flushOne [credit_intros]: "credit_keep d e \<Longrightarrow> credit_keep d (flushOne env n e)"
  by (auto simp: flushOne_def credit_intros split: prod.split option.split)

lemma credit_flushes [credit_intros]:
  "credit_keep d e \<Longrightarrow> credit_keep d (flushForeground env e)"
  "credit_keep d e \<Longrightarrow> credit_keep d (flushBackground env e)"
  by (simp_all add: flushForeground_def beginForegroundTurn_def flushBackground_def
      resolveBackgroundSchedule_def Let_def credit_intros)

lemma credit_poll [credit_intros]: "credit_keep d e \<Longrightarrow> credit_keep d (poll env t e)"
  by (auto simp: poll_def resolveIdle_def Let_def credit_intros split: prod.split option.split)

lemma credit_setMode [credit_intros]: "credit_keep d e \<Longrightarrow> credit_keep d (setMode env m e)"
  by (simp add: setMode_def Let_def credit_intros)

lemma credit_jobs [credit_intros]:
  "credit_keep d e \<Longrightarrow> credit_keep d (finishJob r e)"
  "credit_keep d e \<Longrightarrow> credit_keep d (startJob env e)"
  "credit_keep d e \<Longrightarrow> credit_keep d (writeDone e)"
  by (auto simp: startJob_def writeDone_def finishJob_def Let_def credit_intros split: list.split)

lemma credit_callbacks [credit_intros]:
  "credit_keep d e \<Longrightarrow> credit_keep d (runCont env k e)"
  "credit_keep d e \<Longrightarrow> credit_keep d (onFrame env g e)"
  "credit_keep d e \<Longrightarrow> credit_keep d (onForegroundTimer env ft e)"
  "credit_keep d e \<Longrightarrow> credit_keep d (onMicrotask env e)"
  "credit_keep d e \<Longrightarrow> credit_keep d (onBackgroundTimer env e)"
  "credit_keep d e \<Longrightarrow> credit_keep d (onAckTimer e)"
  "credit_keep d e \<Longrightarrow> credit_keep d (waitForIdle env n e)"
  by (auto simp: runCont_def onFrame_def onForegroundTimer_def onMicrotask_def onBackgroundTimer_def
      onAckTimer_def waitForIdle_def claimForegroundScheduleCycle_def clearForegroundSchedulers_def
      credit_intros split: cont.split fg_timer.split)

definition credit_inv :: "drain \<times> chunk list \<Rightarrow> bool" where
  "credit_inv s \<longleftrightarrow> (case s of (d, h) \<Rightarrow>
     0 \<notin> set (dr_acks d)
     \<and> (if dr_disposed d then dr_unacked d = 0 \<and> sum_list (dr_acks d) \<le> chunk_bytes h
        else sum_list (dr_acks d) + dr_unacked d = chunk_bytes h))"

lemma credit_keep_inv:
  assumes "credit_inv (d, h)" and "credit_keep d e"
  shows "credit_inv (e, h)"
proof -
  have "dr_disposed e = dr_disposed d" "credit e = credit d" "dr_unacked e \<le> dr_unacked d"
    "0 \<notin> set (dr_acks d) \<longrightarrow> 0 \<notin> set (dr_acks e)"
    using assms(2) by (simp_all add: credit_keep_def)
  with assms(1) show ?thesis by (auto simp: credit_inv_def credit_def split: if_splits)
qed

lemma schedule_keep: "credit_keep e (schedule env e)"
  by (rule credit_schedule [OF credit_refl])

lemma credit_enqueue:
  assumes "credit_inv (d, h)"
  shows "credit_inv (enqueue env c d, if dr_disposed d \<or> ck_bytes c = 0 \<or> ck_data c = [] then h else h @ [c])"
proof (cases "dr_disposed d \<or> ck_bytes c = 0 \<or> ck_data c = []")
  case False
  let ?e = "d\<lparr>dr_queue := pushOutputQueue (dr_queue d) c, dr_unacked := dr_unacked d + ck_bytes c\<rparr>"
  have "credit_inv (?e, h @ [c])" using assms False by (simp add: credit_inv_def)
  then have "credit_inv (schedule env ?e, h @ [c])" using schedule_keep by (rule credit_keep_inv)
  with False show ?thesis by (simp add: enqueue_def)
qed (use assms in \<open>auto simp: enqueue_def\<close>)

lemma credit_dispose:
  assumes "credit_inv (d, h)"
  shows "credit_inv (dispose b d, h)"
proof (cases "dr_disposed d")
  case False
  let ?a = "clearAckTimer (cancelBackground (cancelForeground (d\<lparr>dr_disposed := True\<rparr>)))"
  let ?b = "flushPendingAck True (?a\<lparr>dr_microtaskPending := False\<rparr>)"
  let ?c = "if b then sendAck (dr_unacked ?b) ?b else ?b"
  have "credit_keep (d\<lparr>dr_disposed := True\<rparr>) ?c"
    by (simp add: credit_intros clearAckTimer_def)
  then have "dr_disposed ?c" "credit ?c = credit d" "0 \<notin> set (dr_acks ?c)"
    using assms by (auto simp: credit_keep_def credit_def credit_inv_def)
  moreover have "credit d = chunk_bytes h" using assms False by (simp add: credit_inv_def credit_def)
  moreover have "dispose b d = ?c\<lparr>dr_queue := createOutputQueue, dr_writingBytes := 0, dr_pendingAck := 0,
                 dr_unacked := 0, dr_writeInFlight := False\<rparr>"
    using False by (simp add: dispose_def Let_def)
  ultimately show ?thesis by (simp add: credit_inv_def credit_def)
qed (use assms in \<open>simp add: dispose_def\<close>)

definition drain_start :: "drain \<times> chunk list \<Rightarrow> bool" where
  "drain_start s \<longleftrightarrow> s = (initDrain, [])"

interpretation dcredit: invariant_system drain_start drain_step credit_inv
proof
  show "drain_start s \<Longrightarrow> credit_inv s" for s
    by (simp add: drain_start_def credit_inv_def initDrain_def)
  show "credit_inv s \<Longrightarrow> drain_step s t \<Longrightarrow> credit_inv t" for s t
    by (erule drain_step.cases; hypsubst;
        (erule credit_enqueue | erule credit_dispose | (erule credit_keep_inv, simp add: credit_intros)))
qed

section \<open>Byte-exact accounting and order\<close>

text \<open>
  When every accepted chunk carries its true byte count, the credit is accounted for byte
  by byte, and payloads leave in the order their data arrived.
\<close>

definition lost :: "drain \<Rightarrow> nat" where
  "lost d = chunk_bytes (map fst (filter (\<lambda>pr. snd pr \<noteq> Written) (dr_out d)))"

definition exact :: "chunk list \<Rightarrow> drain \<Rightarrow> bool" where
  "exact h d \<longleftrightarrow> (\<not> dr_disposed d \<longrightarrow>
     queue_ok (dr_queue d) \<and> dr_writingBytes d = chunk_bytes (map fst (dr_jobs d))
     \<and> dr_unacked d = getPendingBytes d + lost d
     \<and> queue_data (map fst (dr_out d)) @ queue_data (map fst (dr_jobs d))
         @ queue_data (queue_list (dr_queue d)) = queue_data h
     \<and> (dr_writeInFlight d \<longrightarrow> dr_jobs d \<noteq> []))"

named_theorems exact_intros "operations that keep the accounting exact"

lemma exact_update [simp]:
  "exact h (dr_mode_update u1 e) = exact h e"
  "exact h (dr_started_update u2 e) = exact h e"
  "exact h (dr_conts_update u3 e) = exact h e"
  "exact h (dr_fgFrame_update u4 e) = exact h e"
  "exact h (dr_fgTimer_update u5 e) = exact h e"
  "exact h (dr_bgTimer_update u6 e) = exact h e"
  "exact h (dr_bgTimerCatchUp_update u7 e) = exact h e"
  "exact h (dr_bgCatchUp_update u8 e) = exact h e"
  "exact h (dr_ackTimer_update u9 e) = exact h e"
  "exact h (dr_microtaskPending_update u10 e) = exact h e"
  "exact h (dr_microtasks_update u11 e) = exact h e"
  "exact h (dr_turnStartedAt_update u12 e) = exact h e"
  "exact h (dr_generation_update u13 e) = exact h e"
  "exact h (dr_pollTimers_update u14 e) = exact h e"
  "exact h (dr_results_update u15 e) = exact h e"
  "exact h (dr_acks_update u16 e) = exact h e"
  by (simp_all add: exact_def lost_def getPendingBytes_def)

lemma exact_flush [exact_intros]: "exact h e \<Longrightarrow> exact h (flushPendingAck f e)"
  by (auto simp: exact_def lost_def getPendingBytes_def flushPendingAck_def scheduleAckFlush_def
      clearAckTimer_def sendAck_def Let_def)

lemma exact_schedule [exact_intros]: "exact h e \<Longrightarrow> exact h (schedule env e)"
  by (simp add: sched_defs Let_def exact_flush)

lemma exact_cancel [exact_intros]:
  "exact h e \<Longrightarrow> exact h (cancelForeground e)" "exact h e \<Longrightarrow> exact h (cancelBackground e)"
  by (simp_all add: cancel_defs)

lemma dequeue_none:
  "queue_ok q \<Longrightarrow> dequeueOutputChunk q m = (None, q') \<Longrightarrow> q' = q \<and> (m = 0 \<or> queue_list q = [])"
  using dequeue_exact [of q m] by (cases "m = 0 \<or> queue_list q = []") (auto simp: dequeueOutputChunk_def)

lemma dequeue_some:
  assumes "queue_ok q" and "dequeueOutputChunk q m = (Some p, q')"
  shows "queue_ok q' \<and> ck_data p @ queue_data (queue_list q') = queue_data (queue_list q)
         \<and> ck_bytes p + oq_bytes q' = oq_bytes q"
proof -
  have "0 < m" "queue_list q \<noteq> []" using assms(2) by (auto simp: dequeueOutputChunk_def split: if_splits)
  with dequeue_exact [OF assms(1), of m] obtain p' q'' where
    "dequeueOutputChunk q m = (Some p', q'')" "queue_ok q''"
    "ck_data p' @ queue_data (queue_list q'') = queue_data (queue_list q)"
    "ck_bytes p' + oq_bytes q'' = oq_bytes q" by blast
  with assms(2) show ?thesis by simp
qed

text \<open>A payload moves from the queue to the chain of writes.\<close>

lemma exact_move [exact_intros]:
  assumes "exact h e" and "dequeueOutputChunk (dr_queue e) m = (Some p, q)" and "\<not> dr_disposed e"
  shows "exact h (writePayload p k (e\<lparr>dr_queue := q\<rparr>))"
proof -
  have ok: "queue_ok (dr_queue e)" using assms by (simp add: exact_def)
  show ?thesis using dequeue_some [OF ok assms(2)] assms(1,3)
    by (auto simp: exact_def writePayload_def lost_def getPendingBytes_def)
qed

lemma exact_none [exact_intros]:
  assumes "exact h e" and "dequeueOutputChunk (dr_queue e) m = (None, q)" and "\<not> dr_disposed e"
  shows "exact h (e\<lparr>dr_queue := q\<rparr>)"
proof -
  have "queue_ok (dr_queue e)" using assms by (simp add: exact_def)
  then have "q = dr_queue e" using dequeue_none assms(2) by blast
  then show ?thesis using assms(1) by (simp add: exact_def)
qed

lemma exact_flushOne [exact_intros]: "exact h e \<Longrightarrow> exact h (flushOne env n e)"
  unfolding flushOne_def
  by (auto intro!: exact_schedule exact_flush intro: exact_none exact_move split: prod.split option.split)

lemma exact_flushes [exact_intros]:
  "exact h e \<Longrightarrow> exact h (flushForeground env e)"
  "exact h e \<Longrightarrow> exact h (flushBackground env e)"
  by (simp_all add: flushForeground_def beginForegroundTurn_def flushBackground_def
      resolveBackgroundSchedule_def Let_def exact_intros)

lemma exact_poll [exact_intros]: "exact h e \<Longrightarrow> exact h (poll env t e)"
  unfolding poll_def resolveIdle_def Let_def
  by (auto intro!: exact_flush intro: exact_none exact_move split: prod.split option.split)

lemma exact_setMode [exact_intros]: "exact h e \<Longrightarrow> exact h (setMode env m e)"
  by (simp add: setMode_def Let_def exact_intros)

lemma exact_finish:
  "exact h e \<Longrightarrow> r \<noteq> Written \<Longrightarrow> exact h (finishJob r e)"
  by (auto simp: finishJob_def exact_def lost_def getPendingBytes_def split: list.split)

lemma exact_written:
  "exact h e \<Longrightarrow> dr_jobs e = (p, k) # rest \<Longrightarrow>
   exact h ((finishJob Written e)\<lparr>dr_pendingAck := dr_pendingAck (finishJob Written e) + ck_bytes p\<rparr>)"
  by (auto simp: finishJob_def exact_def lost_def getPendingBytes_def)

lemma exact_jobs [exact_intros]:
  "exact h e \<Longrightarrow> exact h (startJob env e)" "exact h e \<Longrightarrow> exact h (writeDone e)"
  by (auto simp: startJob_def writeDone_def Let_def exact_intros exact_finish exact_written split: list.split)

lemma exact_callbacks [exact_intros]:
  "exact h e \<Longrightarrow> exact h (runCont env k e)"
  "exact h e \<Longrightarrow> exact h (onFrame env g e)"
  "exact h e \<Longrightarrow> exact h (onForegroundTimer env ft e)"
  "exact h e \<Longrightarrow> exact h (onMicrotask env e)"
  "exact h e \<Longrightarrow> exact h (onBackgroundTimer env e)"
  "exact h e \<Longrightarrow> exact h (onAckTimer e)"
  "exact h e \<Longrightarrow> exact h (waitForIdle env n e)"
  by (auto simp: runCont_def onFrame_def onForegroundTimer_def onMicrotask_def onBackgroundTimer_def
      onAckTimer_def waitForIdle_def claimForegroundScheduleCycle_def clearForegroundSchedulers_def
      exact_intros split: cont.split fg_timer.split)

lemma exact_push:
  "exact h d \<Longrightarrow> chunk_ok c \<Longrightarrow>
   exact (h @ [c]) (d\<lparr>dr_queue := pushOutputQueue (dr_queue d) c, dr_unacked := dr_unacked d + ck_bytes c\<rparr>)"
  by (auto simp: exact_def lost_def getPendingBytes_def queue_ok_def queue_inv_push pushOutputQueue_bytes)

lemma exact_enqueue:
  assumes "exact h d" and "\<not> (dr_disposed d \<or> ck_bytes c = 0 \<or> ck_data c = []) \<Longrightarrow> chunk_ok c"
  shows "exact (if dr_disposed d \<or> ck_bytes c = 0 \<or> ck_data c = [] then h else h @ [c]) (enqueue env c d)"
proof (cases "dr_disposed d \<or> ck_bytes c = 0 \<or> ck_data c = []")
  case False
  with assms show ?thesis by (simp add: enqueue_def exact_schedule exact_push)
qed (use assms in \<open>auto simp: enqueue_def\<close>)

lemma disposed_ack [simp]:
  "dr_disposed (sendAck n d) = dr_disposed d" "dr_disposed (flushPendingAck f d) = dr_disposed d"
  using credit_sendAck [OF credit_refl] credit_flush [OF credit_refl] by (simp_all add: credit_keep_def)

lemma disposed_dispose [simp]: "dr_disposed (dispose b d)"
  by (simp add: dispose_def Let_def clearAckTimer_def cancel_defs)

definition true_counts :: "drain \<times> chunk list \<Rightarrow> drain \<times> chunk list \<Rightarrow> bool" where
  "true_counts s t \<longleftrightarrow> drain_step s t \<and> list_all chunk_ok (snd t)"

definition exact_inv :: "drain \<times> chunk list \<Rightarrow> bool" where
  "exact_inv s \<longleftrightarrow> exact (snd s) (fst s)"

lemma exact_step: "exact_inv s \<Longrightarrow> true_counts s t \<Longrightarrow> exact_inv t"
  unfolding exact_inv_def true_counts_def
  by (elim conjE drain_step.cases; hypsubst; simp only: fst_conv snd_conv;
      ((rule exact_enqueue, assumption, simp) | (simp add: exact_intros) | (simp add: exact_def)))

interpretation dexact: invariant_system drain_start true_counts exact_inv
proof
  show "drain_start s \<Longrightarrow> exact_inv s" for s
    by (simp add: drain_start_def exact_inv_def exact_def initDrain_def lost_def getPendingBytes_def
        queue_ok_def queue_inv_def createOutputQueue_def queue_list_def)
qed (rule exact_step)

section \<open>No lost wake-up\<close>

text \<open>Live scheduler handles carry the current generation, so a callback is never ignored.\<close>

definition handles_ok :: "drain \<Rightarrow> bool" where
  "handles_ok d \<longleftrightarrow> dr_fgFrame d \<in> {None, Some (dr_generation d)}
     \<and> dr_fgTimer d \<in> {None, Some DelayTimer, Some (FallbackTimer (dr_generation d))}
     \<and> (dr_microtaskPending d \<longrightarrow> 0 < dr_microtasks d)"

text \<open>Something will run that flushes or reschedules.\<close>

definition pending_wake :: "drain \<Rightarrow> bool" where
  "pending_wake d \<longleftrightarrow> dr_fgFrame d \<noteq> None \<or> dr_fgTimer d \<noteq> None \<or> 0 < dr_microtasks d \<or> dr_bgTimer d
     \<or> dr_jobs d \<noteq> [] \<or> dr_conts d \<noteq> [] \<or> dr_pollTimers d \<noteq> []"

definition awake :: "drain \<Rightarrow> bool" where
  "awake d \<longleftrightarrow> (\<not> dr_disposed d \<longrightarrow> handles_ok d
     \<and> (queue_list (dr_queue d) \<noteq> [] \<and> dr_mode d \<in> {Foreground, Background} \<and> False \<notin> set (dr_results d)
        \<longrightarrow> pending_wake d))"

lemma handles_ack [simp]:
  "handles_ok (flushPendingAck f d) = handles_ok d"
  by (simp add: handles_ok_def ack_defs Let_def)

lemma wake_ack [simp]: "awake (flushPendingAck f d) = awake d"
  by (simp add: awake_def handles_ok_def pending_wake_def ack_defs Let_def)

lemma wake_job: "handles_ok e \<Longrightarrow> dr_jobs e \<noteq> [] \<or> dr_conts e \<noteq> [] \<or> dr_pollTimers e \<noteq> [] \<Longrightarrow> awake e"
  by (auto simp: awake_def pending_wake_def)

lemma wake_empty: "handles_ok e \<Longrightarrow> queue_list (dr_queue e) = [] \<Longrightarrow> awake e"
  by (simp add: awake_def)

lemma wake_scheduleForeground: "handles_ok e \<Longrightarrow> awake (scheduleForeground env e)"
  by (auto simp: awake_def scheduleForeground_def beginForegroundScheduleCycle_def handles_ok_def
      pending_wake_def Let_def split del: if_split split: if_splits)

lemma wake_scheduleBackground: "handles_ok e \<Longrightarrow> awake (scheduleBackground e)"
  by (simp add: awake_def scheduleBackground_def resolveBackgroundSchedule_def cancelBackground_def
      handles_ok_def pending_wake_def Let_def)

lemma handles_update [simp]:
  "handles_ok (dr_turnStartedAt_update u1 e) = handles_ok e"
  "handles_ok (dr_bgCatchUp_update u2 e) = handles_ok e"
  "handles_ok (dr_bgTimer_update u3 e) = handles_ok e"
  "handles_ok (dr_bgTimerCatchUp_update u4 e) = handles_ok e"
  "handles_ok (dr_conts_update u5 e) = handles_ok e"
  "handles_ok (dr_pollTimers_update u6 e) = handles_ok e"
  "handles_ok (dr_mode_update u7 e) = handles_ok e"
  "handles_ok (dr_queue_update u8 e) = handles_ok e"
  "handles_ok (dr_unacked_update u9 e) = handles_ok e"
  by (simp_all add: handles_ok_def)

lemma wake_schedule:
  assumes "handles_ok e" and "exact h e"
  shows "awake (schedule env e)"
proof -
  have "dr_disposed e \<Longrightarrow> awake e" by (simp add: awake_def)
  moreover have "dr_writeInFlight e \<Longrightarrow> \<not> dr_disposed e \<Longrightarrow> awake e"
    using assms by (intro wake_job) (simp_all add: exact_def)
  moreover have "dr_mode e = Hibernating \<or> dr_mode e = Hibernated \<Longrightarrow> awake e"
    using assms(1) by (auto simp: awake_def)
  moreover have "queue_list (dr_queue e) = [] \<Longrightarrow> awake (e\<lparr>dr_turnStartedAt := None\<rparr>)"
    using assms(1) by (intro wake_empty) simp_all
  ultimately show ?thesis
    using wake_scheduleForeground [OF assms(1)] wake_scheduleBackground [OF assms(1)]
    unfolding schedule_def by auto
qed

lemma wake_flushOne:
  assumes "handles_ok e" and "exact h e" and "0 < n"
  shows "awake (flushOne env n e)"
proof (cases "dr_writeInFlight e \<or> dr_disposed e")
  case False
  then have ok: "queue_ok (dr_queue e)" using assms(2) by (simp add: exact_def)
  show ?thesis
  proof (cases "dequeueOutputChunk (dr_queue e) n")
    case (Pair p q)
    show ?thesis
    proof (cases p)
      case None
      with dequeue_none [OF ok, of n q] Pair assms(3) have "q = dr_queue e" "queue_list q = []" by auto
      with None Pair False assms(1) show ?thesis by (simp add: flushOne_def wake_empty)
    next
      case (Some c)
      with Pair False assms(1) show ?thesis
        by (simp add: flushOne_def writePayload_def awake_def handles_ok_def pending_wake_def)
    qed
  qed
qed (use assms(1,2) in \<open>auto simp: flushOne_def intro: wake_schedule\<close>)

lemma wake_flushes:
  assumes "handles_ok e" and "exact h e" and "0 < de_chunkBytes env"
  shows "awake (flushForeground env e)" and "awake (flushBackground env e)"
proof -
  have e: "handles_ok (beginForegroundTurn env e)" "exact h (beginForegroundTurn env e)"
    using assms(1,2) by (simp_all add: beginForegroundTurn_def)
  from wake_flushOne [OF e assms(3)] wake_schedule [OF assms(1,2)]
  show "awake (flushForeground env e)" by (simp add: flushForeground_def)
  have "handles_ok (snd (resolveBackgroundSchedule e))" "exact h (snd (resolveBackgroundSchedule e))"
    "0 < snd (fst (resolveBackgroundSchedule e))"
    using assms(1,2) by (simp_all add: resolveBackgroundSchedule_def Let_def
        backgroundCatchUpWriteChunkBytes_def backgroundWriteChunkBytes_def)
  from wake_flushOne [OF this, of env] wake_schedule [OF assms(1,2), of env]
  show "awake (flushBackground env e)" unfolding flushBackground_def
    by (cases "resolveBackgroundSchedule e") (auto simp: Let_def split: prod.split)
qed

lemma handles_cancel: "handles_ok (cancelForeground e)"
  by (simp add: handles_ok_def cancel_defs)

lemma handles_cancelBackground [simp]: "handles_ok (cancelBackground e) = handles_ok e"
  by (simp add: cancelBackground_def)

lemma wake_poll:
  assumes "handles_ok e" and "exact h e" and "0 < de_chunkBytes env"
  shows "awake (poll env t e)"
proof (cases "dr_disposed e \<or> de_now env > t")
  case True
  with assms(1) show ?thesis by (auto simp: poll_def resolveIdle_def awake_def handles_ok_def)
next
  case False
  then have ok: "queue_ok (dr_queue e)" using assms(2) by (simp add: exact_def)
  show ?thesis
  proof (cases "queue_list (dr_queue e) = []")
    case True
    with False assms(1) show ?thesis
      by (simp add: poll_def resolveIdle_def Let_def)
        (simp add: awake_def handles_ok_def pending_wake_def ack_defs Let_def)
  next
    case ne: False
    obtain p q where pq: "dequeueOutputChunk (dr_queue e) (de_chunkBytes env) = (Some p, q)"
      using dequeue_exact [OF ok assms(3) ne] by blast
    with False ne assms(1) show ?thesis
      by (simp add: poll_def writePayload_def awake_def pending_wake_def handles_ok_def)
  qed
qed

lemma wake_setMode: "handles_ok e \<Longrightarrow> exact h e \<Longrightarrow> awake (setMode env m e)"
  unfolding setMode_def Let_def
  by (auto intro!: wake_schedule [of _ h] simp: exact_intros handles_cancel) (simp_all add: awake_def)

lemma wake_frame:
  assumes "handles_ok e" and "exact h e" and "0 < de_chunkBytes env" and "\<not> dr_disposed e"
    and "dr_fgFrame e = Some g \<or> dr_fgTimer e = Some (FallbackTimer g)"
  shows "awake (onFrame env g e)"
proof -
  let ?e = "(clearForegroundSchedulers (e\<lparr>dr_generation := dr_generation e + 1\<rparr>))\<lparr>dr_turnStartedAt := None\<rparr>"
  have "handles_ok ?e" "exact h ?e" using assms(1,2)
    by (simp_all add: clearForegroundSchedulers_def) (simp add: handles_ok_def)
  moreover have "g = dr_generation e" using assms(1,5) by (auto simp: handles_ok_def)
  ultimately show ?thesis
    using wake_flushes(1) assms(3,4) by (simp add: onFrame_def claimForegroundScheduleCycle_def)
qed

lemma wake_fgTimer:
  assumes "handles_ok e" and "exact h e" and "0 < de_chunkBytes env" and "\<not> dr_disposed e"
    and "dr_fgTimer e = Some t"
  shows "awake (onForegroundTimer env t e)"
proof (cases t)
  case DelayTimer
  have "handles_ok (e\<lparr>dr_fgTimer := None, dr_turnStartedAt := None\<rparr>)"
    using assms(1) by (simp add: handles_ok_def)
  with DelayTimer assms show ?thesis
    by (auto simp: onForegroundTimer_def intro!: wake_flushes(1) [of _ h])
next
  case (FallbackTimer g)
  with wake_frame [OF assms(1-4), of g] assms(5) show ?thesis by (simp add: onForegroundTimer_def)
qed

lemma wake_microtask:
  assumes "handles_ok e" and "exact h e" and "0 < de_chunkBytes env"
  shows "awake (onMicrotask env e)"
proof -
  have "handles_ok (e\<lparr>dr_microtaskPending := False, dr_microtasks := dr_microtasks e - 1\<rparr>)"
    using assms(1) by (simp add: handles_ok_def)
  with assms(2,3) show ?thesis unfolding onMicrotask_def by (intro wake_flushes(1) [of _ h]) simp_all
qed

lemma wake_jobs:
  assumes "handles_ok e" and "dr_jobs e \<noteq> []"
  shows "awake (startJob env e)" and "awake (writeDone e)"
proof -
  obtain p k rest where j: "dr_jobs e = (p, k) # rest" using assms(2) by (cases "dr_jobs e") auto
  have fin: "awake ((finishJob r e)\<lparr>dr_pendingAck := n\<rparr>)" "awake (finishJob r e)" for r n
    using j assms(1) by (simp_all add: finishJob_def awake_def handles_ok_def pending_wake_def)
  have "awake (e\<lparr>dr_started := True\<rparr>)"
    using j assms(1) by (simp add: awake_def handles_ok_def pending_wake_def)
  with j fin show "awake (startJob env e)" by (simp add: startJob_def)
  from j fin show "awake (writeDone e)" by (simp add: writeDone_def Let_def)
qed

lemma wake_cont:
  "handles_ok e \<Longrightarrow> exact h e \<Longrightarrow> 0 < de_chunkBytes env \<Longrightarrow> awake (runCont env k e)"
  unfolding runCont_def
  by (auto split: cont.split intro!: wake_schedule [of _ h] wake_poll [of _ h] simp: exact_intros)

lemma awake_disposed: "dr_disposed d \<Longrightarrow> credit_keep d e \<Longrightarrow> awake e"
  by (simp add: awake_def credit_keep_def)

definition wake_inv :: "drain \<times> chunk list \<Rightarrow> bool" where
  "wake_inv s \<longleftrightarrow> exact_inv s \<and> awake (fst s)"

lemma wake_enqueue:
  assumes "handles_ok d" and "exact h d" and "awake d"
    and "\<not> (dr_disposed d \<or> ck_bytes c = 0 \<or> ck_data c = []) \<Longrightarrow> chunk_ok c"
  shows "awake (enqueue env c d)"
  using assms exact_push [OF assms(2), of c]
  by (auto simp: enqueue_def intro!: wake_schedule [of _ "h @ [c]"])

lemma wake_step_live:
  assumes "drain_step (d, h) t" and "exact h d" and "awake d" and "handles_ok d" and "\<not> dr_disposed d"
    and "list_all chunk_ok (snd t)"
  shows "awake (fst t)"
  using assms(1)
proof cases
  case st_enqueue
  with assms show ?thesis by (auto intro!: wake_enqueue split: if_splits)
next
  case st_dispose
  then show ?thesis by (simp add: awake_def)
next
  case st_bgTimer
  with assms show ?thesis by (auto simp: onBackgroundTimer_def intro!: wake_flushes(2) [of _ h])
next
  case st_ackTimer
  with assms show ?thesis by (simp add: onAckTimer_def) (simp add: awake_def handles_ok_def pending_wake_def)
next
  case st_waitForIdle
  with assms show ?thesis
    by (auto simp: waitForIdle_def handles_cancel exact_intros intro!: wake_poll [of _ h])
qed (use assms in \<open>auto intro!: wake_setMode [of _ h] wake_frame [of _ h] wake_fgTimer [of _ h]
      wake_microtask [of _ h] wake_poll [of _ h] wake_jobs wake_cont [of _ h]\<close>)

lemma keep_disposed: "credit_keep d e \<Longrightarrow> dr_disposed d \<Longrightarrow> dr_disposed e"
  by (simp add: credit_keep_def)

lemma step_disposed:
  assumes "drain_step (d, h) t" and "dr_disposed d"
  shows "dr_disposed (fst t)"
  using assms(1)
proof cases
  case st_enqueue
  with assms(2) show ?thesis by (simp add: enqueue_def)
qed (use assms(2) in \<open>auto intro!: keep_disposed [of d] simp: credit_intros\<close>)

lemma wake_step: "wake_inv s \<Longrightarrow> true_counts s t \<Longrightarrow> wake_inv t"
proof (cases s)
  case (Pair d h)
  assume inv: "wake_inv s" and st: "true_counts s t"
  have "exact_inv t" using inv st exact_step [of s t] by (simp add: wake_inv_def)
  moreover have "awake (fst t)"
  proof (cases "dr_disposed d")
    case True
    with st Pair step_disposed [of d h t] show ?thesis by (simp add: true_counts_def awake_def)
  next
    case False
    with inv st Pair show ?thesis
      by (intro wake_step_live [of d h t]) (auto simp: wake_inv_def exact_inv_def true_counts_def awake_def)
  qed
  ultimately show ?thesis by (simp add: wake_inv_def)
qed

interpretation dwake: invariant_system drain_start true_counts wake_inv
proof
  show "drain_start s \<Longrightarrow> wake_inv s" for s
    using dexact.start_inv [of s]
    by (simp add: wake_inv_def) (simp add: drain_start_def awake_def handles_ok_def initDrain_def)
qed (rule wake_step)

section \<open>Properties\<close>

text \<open>C2: flow-control credit is conserved. After any sequence of calls and callbacks, every
  acknowledgement is positive; while the drain lives, acknowledged plus unacknowledged
  bytes are exactly the bytes it accepted, whatever byte counts the chunks carry; after
  \<open>dispose\<close> nothing is owed and never more was acknowledged than was accepted.\<close>

theorem drain_credit_conserved:
  assumes "drain_step\<^sup>*\<^sup>* (initDrain, []) (d, h)"
  shows "0 \<notin> set (dr_acks d)
         \<and> (if dr_disposed d then dr_unacked d = 0 \<and> sum_list (dr_acks d) \<le> chunk_bytes h
            else sum_list (dr_acks d) + dr_unacked d = chunk_bytes h)"
  using dcredit.reachable_inv [OF _ assms] by (simp add: drain_start_def credit_inv_def)

text \<open>A concrete run: two bytes arrive, \<open>waitForIdle\<close> with no time left writes the first one
  under a one-byte budget, and its continuation finds the deadline passed.\<close>

definition demo_env :: "nat \<Rightarrow> drain_env" where
  "demo_env t = \<lparr>de_alive = True, de_writeThrows = False, de_chunkBytes = 1, de_foregroundDelay = 0,
                  de_lowLatency = False, de_now = t\<rparr>"

definition demo_chunk :: chunk where "demo_chunk = mk_chunk [104, 105] 2"
definition demo1 :: drain where "demo1 = enqueue (demo_env 0) demo_chunk initDrain"
definition demo2 :: drain where "demo2 = waitForIdle (demo_env 0) 0 demo1"
definition demo3 :: drain where "demo3 = startJob (demo_env 0) demo2"
definition demo4 :: drain where "demo4 = writeDone demo3"
definition demo5 :: drain where
  "demo5 = runCont (demo_env 1) (ContPoll 0) (demo4\<lparr>dr_conts := []\<rparr>)"

lemma demo_dequeue:
  "dequeueOutputChunk \<lparr>oq_chunks = [Some (mk_chunk [104, 105] 2)], oq_headIndex = 0, oq_bytes = 2\<rparr> 1
     = (Some (mk_chunk [104] 1), \<lparr>oq_chunks = [Some (mk_chunk [105] 1)], oq_headIndex = 0, oq_bytes = 1\<rparr>)"
  by (simp add: dequeueOutputChunk_def dequeueLoop.simps queue_list_def peekOutputQueue_def
      head_slot_def splitOutputChunk_def splitScan.simps charLength_def utf8BytesForCodePoint_def
      is_high_def is_low_def replaceOutputQueueHead_def)

lemma demo1_eq: "demo1 = initDrain\<lparr>
    dr_queue := \<lparr>oq_chunks = [Some (mk_chunk [104, 105] 2)], oq_headIndex = 0, oq_bytes = 2\<rparr>,
    dr_unacked := 2, dr_generation := 1, dr_fgFrame := Some 1, dr_fgTimer := Some (FallbackTimer 1)\<rparr>"
  by (simp add: demo1_def demo_chunk_def enqueue_def initDrain_def demo_env_def schedule_def
      scheduleForeground_def beginForegroundScheduleCycle_def pushOutputQueue_def
      createOutputQueue_def queue_list_def)

lemma demo2_eq: "demo2 = initDrain\<lparr>
    dr_queue := \<lparr>oq_chunks = [Some (mk_chunk [105] 1)], oq_headIndex = 0, oq_bytes = 1\<rparr>,
    dr_unacked := 2, dr_generation := 2, dr_writingBytes := 1, dr_writeInFlight := True,
    dr_jobs := [(mk_chunk [104] 1, ContPoll 0)]\<rparr>"
  by (simp add: demo2_def demo1_eq waitForIdle_def cancel_defs poll_def demo_env_def initDrain_def
      demo_dequeue [simplified] writePayload_def queue_list_def)

lemma demo3_eq: "demo3 = demo2\<lparr>dr_started := True\<rparr>"
  by (simp add: demo3_def demo2_eq startJob_def demo_env_def initDrain_def)

lemma demo4_eq: "demo4 = initDrain\<lparr>
    dr_queue := \<lparr>oq_chunks = [Some (mk_chunk [105] 1)], oq_headIndex = 0, oq_bytes = 1\<rparr>,
    dr_unacked := 2, dr_generation := 2, dr_pendingAck := 1, dr_conts := [ContPoll 0],
    dr_ackTimer := True, dr_out := [(mk_chunk [104] 1, Written)]\<rparr>"
  by (simp add: demo4_def demo3_eq demo2_eq writeDone_def finishJob_def initDrain_def ack_defs
      ackBatchBytes_def)

lemma demo5_eq: "demo5 = initDrain\<lparr>
    dr_queue := \<lparr>oq_chunks = [Some (mk_chunk [105] 1)], oq_headIndex = 0, oq_bytes = 1\<rparr>,
    dr_unacked := 1, dr_generation := 2, dr_acks := [1],
    dr_out := [(mk_chunk [104] 1, Written)], dr_results := [False]\<rparr>"
  by (simp add: demo5_def demo4_eq runCont_def poll_def resolveIdle_def initDrain_def ack_defs
      demo_env_def)

lemmas demo_eqs = demo1_eq demo2_eq demo3_eq demo4_eq demo5_eq initDrain_def

lemma demo_enabled:
  "dr_jobs demo2 \<noteq> []" "\<not> dr_started demo2" "dr_jobs demo3 \<noteq> []" "dr_started demo3"
  "dr_conts demo4 = [ContPoll 0]"
  by (simp_all add: demo_eqs)

lemma demo_chunk_ok: "chunk_ok demo_chunk"
  by (simp add: demo_chunk_def chunk_ok_def consistent_def units_ok_def unit_bytes_def is_high_def)

lemma demo_env_ok: "0 < de_chunkBytes (demo_env t)"
  by (simp add: demo_env_def)

lemma demo_step1: "true_counts (initDrain, []) (demo1, [demo_chunk])"
  using st_enqueue [OF demo_env_ok, of initDrain "[]" 0 demo_chunk]
  by (simp add: true_counts_def demo1_def demo_chunk_ok) (simp add: demo_chunk_def initDrain_def)

lemma demo_steps: "true_counts\<^sup>*\<^sup>* (initDrain, []) (demo5, [demo_chunk])"
proof -
  have "true_counts (demo1, [demo_chunk]) (demo2, [demo_chunk])"
    using st_waitForIdle [OF demo_env_ok] by (simp add: true_counts_def demo2_def demo_chunk_ok)
  moreover have "true_counts (demo2, [demo_chunk]) (demo3, [demo_chunk])"
    using st_startJob [OF demo_env_ok demo_enabled(1,2)]
    by (simp add: true_counts_def demo3_def demo_chunk_ok)
  moreover have "true_counts (demo3, [demo_chunk]) (demo4, [demo_chunk])"
    using st_writeDone [OF demo_enabled(3,4)] by (simp add: true_counts_def demo4_def demo_chunk_ok)
  moreover have "true_counts (demo4, [demo_chunk]) (demo5, [demo_chunk])"
    using st_cont [OF demo_env_ok demo_enabled(5)] by (simp add: true_counts_def demo5_def demo_chunk_ok)
  ultimately show ?thesis using demo_step1
    by (meson converse_rtranclp_into_rtranclp rtranclp.rtrancl_refl)
qed

theorem drain_credit_conserved_witness:
  "dr_acks demo5 = [1] \<and> dr_unacked demo5 = 1 \<and> 0 \<notin> set (dr_acks demo5)"
proof -
  have "drain_step\<^sup>*\<^sup>* (initDrain, []) (demo5, [demo_chunk])"
    using demo_steps by (rule rtranclp_mono [THEN predicate2D, rotated]) (auto simp: true_counts_def)
  from drain_credit_conserved [OF this] have "0 \<notin> set (dr_acks demo5)" by simp
  moreover have "dr_acks demo5 = [1]" "dr_unacked demo5 = 1" by (simp_all add: demo_eqs)
  ultimately show ?thesis by simp
qed

text \<open>C7: when accepted chunks carry their true byte count, the drain loses and reorders
  nothing: the payloads that left the write chain, those still in it and the queue
  concatenate to the data accepted; and the unacknowledged bytes are exactly the pending
  bytes reported as pressure plus the bytes of payloads that could not be written, which
  are the only bytes never acknowledged before \<open>dispose\<close>.\<close>

theorem drain_exact_accounting:
  assumes "true_counts\<^sup>*\<^sup>* (initDrain, []) (d, h)" and "\<not> dr_disposed d"
  shows "queue_data (map fst (dr_out d)) @ queue_data (map fst (dr_jobs d))
           @ queue_data (queue_list (dr_queue d)) = queue_data h
         \<and> dr_unacked d = getPendingBytes d + lost d
         \<and> (isWriteInFlight d \<longrightarrow> dr_jobs d \<noteq> [])"
  using dexact.reachable_inv [OF _ assms(1)] assms(2)
  by (simp add: drain_start_def exact_inv_def exact_def isWriteInFlight_def)

theorem drain_exact_accounting_witness:
  "dr_unacked demo5 = getPendingBytes demo5 + lost demo5 \<and> getPendingBytes demo5 = 1"
proof -
  have "\<not> dr_disposed demo5" "getPendingBytes demo5 = 1"
    by (simp_all add: demo_eqs getPendingBytes_def)
  then show ?thesis using drain_exact_accounting [OF demo_steps] by blast
qed

text \<open>C8: no lost wake-up: while output is queued in foreground or background mode and no
  \<open>waitForIdle\<close> has failed, some callback is pending (animation frame, timer, microtask,
  write or continuation), and a pending frame or fallback timer belongs to the current
  schedule generation, so it will not be ignored when it fires.\<close>

theorem drain_no_lost_wakeup:
  assumes "true_counts\<^sup>*\<^sup>* (initDrain, []) (d, h)" and "\<not> dr_disposed d"
    and "hasQueuedOutput d" and "dr_mode d = Foreground \<or> dr_mode d = Background"
    and "False \<notin> set (dr_results d)"
  shows "pending_wake d \<and> handles_ok d"
  using dwake.reachable_inv [OF _ assms(1)] assms(2-)
  by (auto simp: drain_start_def wake_inv_def awake_def hasQueuedOutput_def)

theorem drain_no_lost_wakeup_witness: "hasQueuedOutput demo1 \<and> pending_wake demo1"
proof -
  have "true_counts\<^sup>*\<^sup>* (initDrain, []) (demo1, [demo_chunk])" using demo_step1 by blast
  moreover have "\<not> dr_disposed demo1" "hasQueuedOutput demo1" "dr_mode demo1 = Foreground"
    "False \<notin> set (dr_results demo1)" by (simp_all add: demo_eqs hasQueuedOutput_def queue_list_def)
  ultimately show ?thesis using drain_no_lost_wakeup by blast
qed

text \<open>a \<open>waitForIdle\<close> that times out strands output: it cancels the schedulers first and
  resolves to false without scheduling again, so a reachable state has queued output in
  foreground mode, is not disposed, and nothing at all is pending.\<close>

theorem drain_idle_timeout_strands_output:
  "\<exists>d h. true_counts\<^sup>*\<^sup>* (initDrain, []) (d, h) \<and> \<not> dr_disposed d \<and> hasQueuedOutput d
         \<and> dr_mode d = Foreground \<and> dr_results d = [False] \<and> \<not> pending_wake d \<and> \<not> dr_ackTimer d"
proof -
  have "\<not> dr_disposed demo5" "hasQueuedOutput demo5" "dr_mode demo5 = Foreground"
    "dr_results demo5 = [False]" "\<not> pending_wake demo5" "\<not> dr_ackTimer demo5"
    by (simp_all add: demo_eqs hasQueuedOutput_def queue_list_def pending_wake_def)
  with demo_steps show ?thesis by blast
qed

end
