(* ===== verification/Frame_Gate.thy ===== *)
theory Frame_Gate
  imports Output_Queue
begin

text \<open>
  The gate for synchronized output frames, DEC private mode 2026
  (\<open>components/terminal/dec2026FrameGate.ts\<close>): the classifier of frame contents and the class
  \<open>Dec2026FrameGate\<close>, which under pressure holds the last complete frame and drops it when a
  self-contained replacement follows.

  Terminal text is a list of UTF-16 code units. The calls of the options object are logged
  in \<open>ga_effects\<close>: \<open>Forward\<close> for \<open>forward\<close> and \<open>AckDropped\<close> for \<open>ackDropped\<close>. What
  \<open>getPressureSnapshot\<close> returns is given by a function of the gate, which contains that log,
  so it may depend on everything forwarded so far. The fail-open timer is the flag
  \<open>ga_timer\<close>. Debug logging and the pressure notification are not modelled.
\<close>

section \<open>Data\<close>

datatype gate_mode = ModeOff | ModeShadow | ModeCollapse

datatype successor_proof = SelfContainedReplacement | NoProof

datatype frame_class =
    ReplaceableVisual nat successor_proof
  | Stateful nat string
  | Unknown nat string

record candidate_context =
  cc_outputDrainPendingBytes :: nat
  cc_outputDrainQueueBytes :: nat
  cc_frameGateHeldBytes :: nat
  cc_alternateScreen :: bool
  cc_performanceMode :: string

record gate_snapshot =
  gs_framesSeen :: nat
  gs_completeFrames :: nat
  gs_partialFrames :: nat
  gs_candidateFrames :: nat
  gs_replaceableFrames :: nat
  gs_wouldDropFrames :: nat
  gs_wouldDropBytes :: nat
  gs_droppedFrames :: nat
  gs_droppedBytes :: nat
  gs_statefulFrames :: nat
  gs_malformedFrames :: nat
  gs_failOpenCandidates :: nat
  gs_maxFrameBytes :: nat
  gs_heldBytes :: nat
  gs_lastRejectReason :: "string option"
  gs_lastCandidateContext :: "candidate_context option"

record complete_frame =
  fr_data :: js_text
  fr_content :: js_text
  fr_bytes :: nat
  fr_class :: frame_class

datatype boundary_kind = Begin | End

record boundary =
  bd_index :: nat
  bd_sequence :: js_text
  bd_kind :: boundary_kind

record csi =
  csi_params :: js_text
  csi_intermediates :: js_text
  csi_final :: nat
  csi_raw :: js_text

datatype gate_effect = Forward chunk | AckDropped nat

record gate =
  ga_mode :: gate_mode
  ga_pendingPrefix :: js_text
  ga_currentFrameData :: js_text
  ga_currentFrameContent :: js_text
  ga_heldFrame :: "complete_frame option"
  ga_shadowPendingPrefix :: js_text
  ga_shadowCurrentFrameData :: js_text
  ga_shadowCurrentFrameContent :: js_text
  ga_shadowHeldFrame :: "complete_frame option"
  ga_timer :: bool
  ga_disposed :: bool
  ga_snap :: gate_snapshot
  ga_effects :: "gate_effect list"

section \<open>Boundaries\<close>

definition dec2026BeginEsc :: js_text where "dec2026BeginEsc = 0x1b # js ''[?2026h''"
definition dec2026EndEsc :: js_text where "dec2026EndEsc = 0x1b # js ''[?2026l''"
definition dec2026BeginC1 :: js_text where "dec2026BeginC1 = 0x9b # js ''?2026h''"
definition dec2026EndC1 :: js_text where "dec2026EndC1 = 0x9b # js ''?2026l''"

definition dec2026Sequences :: "js_text list" where
  "dec2026Sequences = [dec2026BeginEsc, dec2026EndEsc, dec2026BeginC1, dec2026EndC1]"

definition maxPendingCsiChars :: nat where "maxPendingCsiChars = 64"
definition maxHeldFrameBytes :: nat where "maxHeldFrameBytes = 512 * 1024"
definition alternateScreenThrottleBacklogBytes :: nat where
  "alternateScreenThrottleBacklogBytes = 32 * 1024"

definition boundaryKind :: "js_text \<Rightarrow> boundary_kind" where
  "boundaryKind s = (if ends_with s (js ''h'') then Begin else End)"

definition nearerBoundary :: "js_text \<Rightarrow> boundary option \<Rightarrow> js_text \<Rightarrow> boundary option" where
  "nearerBoundary text next s =
     (case index_of text s of
        None \<Rightarrow> next
      | Some i \<Rightarrow>
          (let b = \<lparr>bd_index = i, bd_sequence = s, bd_kind = boundaryKind s\<rparr>
           in case next of
                None \<Rightarrow> Some b
              | Some n \<Rightarrow>
                  if i < bd_index n \<or> (i = bd_index n \<and> length s > length (bd_sequence n))
                  then Some b else next))"

text \<open>Every call passes the start index zero.\<close>

definition findNextBoundary :: "js_text \<Rightarrow> boundary option" where
  "findNextBoundary text = foldl (nearerBoundary text) None dec2026Sequences"

fun suffixOfLength :: "js_text \<Rightarrow> nat \<Rightarrow> js_text" where
  "suffixOfLength text 0 = []"
| "suffixOfLength text (Suc n) =
     (let suffix = drop (length text - Suc n) text
      in if list_ex (\<lambda>s. starts_with s suffix) dec2026Sequences then suffix
         else suffixOfLength text n)"

definition pendingBoundarySuffix :: "js_text \<Rightarrow> js_text" where
  "pendingBoundarySuffix text = suffixOfLength text (min maxPendingCsiChars (length text))"

section \<open>The classifier\<close>

text \<open>The scan of one control sequence behind its introducer; also returns the rest.\<close>

fun parseCsiScan :: "js_text \<Rightarrow> js_text \<Rightarrow> js_text \<Rightarrow> js_text \<Rightarrow> (csi \<times> js_text) option" where
  "parseCsiScan intro [] params im = None"
| "parseCsiScan intro (c # cs) params im =
     (if 0x30 \<le> c \<and> c \<le> 0x3f \<and> im = [] then parseCsiScan intro cs (params @ [c]) im
      else if 0x20 \<le> c \<and> c \<le> 0x2f then parseCsiScan intro cs params (im @ [c])
      else if 0x40 \<le> c \<and> c \<le> 0x7e
        then Some (\<lparr>csi_params = params, csi_intermediates = im, csi_final = c,
                    csi_raw = intro @ params @ im @ [c]\<rparr>, cs)
      else None)"

text \<open>\<open>text\<close> starts at the introducer: one unit for the C1 form, two otherwise.\<close>

definition parseCsi :: "js_text \<Rightarrow> (csi \<times> js_text) option" where
  "parseCsi text =
     (let n = (if hd text = 0x9b then 1 else 2)
      in parseCsiScan (take n text) (drop n text) [] [])"

fun splitSemicolon :: "js_text \<Rightarrow> js_text list" where
  "splitSemicolon [] = [[]]"
| "splitSemicolon (c # cs) =
     (if c = 0x3b then [] # splitSemicolon cs
      else (case splitSemicolon cs of [] \<Rightarrow> [[c]] | p # ps \<Rightarrow> (c # p) # ps))"

definition numericParams :: "js_text \<Rightarrow> js_text list" where
  "numericParams params = (if length params = 0 then [] else splitSemicolon params)"

definition hasPrivateMarker :: "js_text \<Rightarrow> bool" where
  "hasPrivateMarker params = list_ex (\<lambda>c. c \<in> set (js ''?><='')) params"

definition isDeviceReport :: "nat \<Rightarrow> bool" where
  "isDeviceReport final = (final \<in> set (js ''cn''))"

definition isEmptyOrDigits :: "js_text \<Rightarrow> bool" where
  "isEmptyOrDigits p = list_all (\<lambda>c. 0x30 \<le> c \<and> c \<le> 0x39) p"

definition isAllowedCursorCsi :: "nat \<Rightarrow> js_text \<Rightarrow> bool" where
  "isAllowedCursorCsi final params =
     (final \<in> set (js ''ABCDEFGHfd`'') \<and> \<not> hasPrivateMarker params
      \<and> list_all isEmptyOrDigits (numericParams params))"

definition isAllowedEraseCsi :: "nat \<Rightarrow> js_text \<Rightarrow> bool" where
  "isAllowedEraseCsi final params =
     (final \<in> set (js ''JK'') \<and> \<not> hasPrivateMarker params
      \<and> list_all isEmptyOrDigits (numericParams params)
      \<and> \<not> ([final] = js ''J'' \<and> js ''3'' \<in> set (numericParams params)))"

definition isSgrReset :: "csi \<Rightarrow> bool" where
  "isSgrReset c = ([csi_final c] = js ''m'' \<and> csi_params c = js ''0'' \<and> ends_with (csi_raw c) (js ''0m''))"

definition isEd2 :: "csi \<Rightarrow> bool" where
  "isEd2 c = ([csi_final c] = js ''J'' \<and> csi_params c = js ''2'')"

definition isHome :: "csi \<Rightarrow> bool" where
  "isHome c = (if [csi_final c] = js ''H'' then csi_params c = [] \<or> csi_params c = js ''1;1''
               else [csi_final c] = js ''f'' \<and> csi_params c = js ''1;1'')"

datatype csi_verdict = Allowed | RejectStateful string | RejectUnknown string

definition classifyCsi :: "csi \<Rightarrow> csi_verdict" where
  "classifyCsi c =
     (let final = csi_final c; params = csi_params c
      in if length (csi_intermediates c) > 0 then RejectUnknown ''csi-intermediate''
         else if isDeviceReport final then RejectStateful ''device-report''
         else if final \<in> set (js ''hl'') then RejectStateful ''mode-change''
         else if [final] = js ''r'' then RejectStateful ''scroll-region''
         else if final \<in> set (js ''@LMP'') then RejectStateful ''insert-delete''
         else if final \<in> set (js ''ST'') then RejectStateful ''scroll-up-down''
         else if [final] = js ''m''
           then (if hasPrivateMarker params then RejectUnknown ''private-sgr'' else Allowed)
         else if isAllowedCursorCsi final params then Allowed
         else if [final] = js ''J'' \<and> js ''3'' \<in> set (numericParams params)
           then RejectStateful ''clear-scrollback''
         else if isAllowedEraseCsi final params then Allowed
         else RejectUnknown (''unknown-csi-'' @ [char_of final]))"

lemma parseCsiScan_length: "parseCsiScan i cs p q = Some (c, rest) \<Longrightarrow> length rest < length cs"
  by (induction i cs p q rule: parseCsiScan.induct) (auto split: if_splits)

lemma parseCsi_length: "text \<noteq> [] \<Longrightarrow> parseCsi text = Some (c, rest) \<Longrightarrow> length rest < length text"
  by (auto simp: parseCsi_def Let_def dest!: parseCsiScan_length)

text \<open>The four flags of the scan.\<close>

record scan_flags =
  sf_resetBeforeEd2 :: bool
  sf_ed2AfterReset :: bool
  sf_homeBeforePrintable :: bool
  sf_printable :: bool

definition noteCsi :: "csi \<Rightarrow> scan_flags \<Rightarrow> scan_flags" where
  "noteCsi c f =
     (if sf_printable f then f
      else (let f = (if isSgrReset c then f\<lparr>sf_resetBeforeEd2 := True\<rparr> else f);
                f = (if sf_resetBeforeEd2 f \<and> isEd2 c then f\<lparr>sf_ed2AfterReset := True\<rparr> else f)
            in if isHome c then f\<lparr>sf_homeBeforePrintable := True\<rparr> else f))"

text \<open>What a two-unit escape other than CSI means for the frame.\<close>

definition classifyEscape :: "nat option \<Rightarrow> nat \<Rightarrow> frame_class" where
  "classifyEscape next b =
     (case next of None \<Rightarrow> Unknown b ''unknown-esc''
      | Some c \<Rightarrow>
          if [c] = js '']'' then Stateful b ''osc''
          else if [c] = js ''P'' then Stateful b ''dcs''
          else if [c] = js ''_'' then Stateful b ''apc''
          else if [c] = js ''^'' then Stateful b ''pm''
          else if [c] = js ''X'' then Stateful b ''sos''
          else if [c] = js ''c'' then Stateful b ''ris''
          else Unknown b ''unknown-esc'')"

function classifyScan :: "js_text \<Rightarrow> nat \<Rightarrow> scan_flags \<Rightarrow> frame_class" where
  "classifyScan [] b f =
     ReplaceableVisual b
       (if sf_resetBeforeEd2 f \<and> sf_ed2AfterReset f \<and> sf_homeBeforePrintable f
        then SelfContainedReplacement else NoProof)"
| "classifyScan (c # cs) b f =
     (let isCsi = (c = 0x9b \<or> (c = 0x1b \<and> cs \<noteq> [] \<and> [hd cs] = js ''[''))
      in if isCsi then
           (case parseCsi (c # cs) of
              None \<Rightarrow> Unknown b (if c = 0x9b then ''malformed-c1-csi'' else ''malformed-csi'')
            | Some (k, rest) \<Rightarrow>
                (case classifyCsi k of
                   RejectStateful r \<Rightarrow> Stateful b r
                 | RejectUnknown r \<Rightarrow> Unknown b r
                 | Allowed \<Rightarrow> classifyScan rest b (noteCsi k f)))
         else if c = 0x1b then classifyEscape (if cs = [] then None else Some (hd cs)) b
         else if c = 0x9d then Stateful b ''c1-osc''
         else if c = 0x90 then Stateful b ''c1-dcs''
         else if c = 0x9f then Stateful b ''c1-apc''
         else if c = 0x9e then Stateful b ''c1-pm''
         else if c = 0x98 then Stateful b ''c1-sos''
         else if c = 0x0d \<or> c = 0x09 \<or> c = 0x08 then classifyScan cs b f
         else if c = 0x0a then Stateful b ''lf''
         else if c = 0x07 then Stateful b ''bel''
         else if c < 0x20 \<or> c = 0x7f \<or> (0x80 \<le> c \<and> c \<le> 0x9f) then Unknown b ''unknown-control''
         else classifyScan (drop (charLength (codePointAt0 (c # cs))) (c # cs)) b (f\<lparr>sf_printable := True\<rparr>))"
  by pat_completeness auto
termination
proof (relation "measure (\<lambda>(t, b, f). length t)", goal_cases)
  case (2 c cs b f x y z k)
  then show ?case using parseCsi_length [of "c # cs"] by auto
next
  case (4 c cs b f x)
  then show ?case using charLength_bounds(1) [of "codePointAt0 (c # cs)"] by simp
qed auto

declare classifyScan.simps(2) [simp del]

definition classifyDec2026Frame :: "js_text \<Rightarrow> nat \<Rightarrow> frame_class" where
  "classifyDec2026Frame content frameBytes =
     classifyScan content frameBytes
       \<lparr>sf_resetBeforeEd2 = False, sf_ed2AfterReset = False, sf_homeBeforePrintable = False,
        sf_printable = False\<rparr>"

section \<open>The gate\<close>

type_synonym pressure = "gate \<Rightarrow> candidate_context"

definition initGate :: "gate_mode \<Rightarrow> gate" where
  "initGate mode = \<lparr>ga_mode = mode, ga_pendingPrefix = [], ga_currentFrameData = [],
     ga_currentFrameContent = [], ga_heldFrame = None, ga_shadowPendingPrefix = [],
     ga_shadowCurrentFrameData = [], ga_shadowCurrentFrameContent = [], ga_shadowHeldFrame = None,
     ga_timer = False, ga_disposed = False,
     ga_snap = \<lparr>gs_framesSeen = 0, gs_completeFrames = 0, gs_partialFrames = 0, gs_candidateFrames = 0,
       gs_replaceableFrames = 0, gs_wouldDropFrames = 0, gs_wouldDropBytes = 0, gs_droppedFrames = 0,
       gs_droppedBytes = 0, gs_statefulFrames = 0, gs_malformedFrames = 0, gs_failOpenCandidates = 0,
       gs_maxFrameBytes = 0, gs_heldBytes = 0, gs_lastRejectReason = None,
       gs_lastCandidateContext = None\<rparr>,
     ga_effects = []\<rparr>"

definition getHeldBytes :: "gate \<Rightarrow> nat" where
  "getHeldBytes g = utf8ByteLength (ga_pendingPrefix g) + utf8ByteLength (ga_currentFrameData g)
     + (case ga_heldFrame g of None \<Rightarrow> 0 | Some f \<Rightarrow> fr_bytes f)"

definition updateHeldBytes :: "gate \<Rightarrow> gate" where
  "updateHeldBytes g = g\<lparr>ga_snap := (ga_snap g)\<lparr>gs_heldBytes := getHeldBytes g\<rparr>\<rparr>"

definition effect :: "gate_effect \<Rightarrow> gate \<Rightarrow> gate" where
  "effect e g = g\<lparr>ga_effects := ga_effects g @ [e]\<rparr>"

definition forwardText :: "js_text \<Rightarrow> gate \<Rightarrow> gate" where
  "forwardText text g = (if text = [] then g else effect (Forward (mk_chunk text (utf8ByteLength text))) g)"

definition flush :: "gate \<Rightarrow> gate" where
  "flush g =
     (if ga_disposed g then g
      else (let g = g\<lparr>ga_timer := False\<rparr>;
                g = (forwardText (ga_pendingPrefix g) g)\<lparr>ga_pendingPrefix := []\<rparr>;
                g = (forwardText (ga_currentFrameData g) g)
                      \<lparr>ga_currentFrameData := [], ga_currentFrameContent := []\<rparr>;
                g = (case ga_heldFrame g of None \<Rightarrow> g
                     | Some f \<Rightarrow> (forwardText (fr_data f) g)\<lparr>ga_heldFrame := None\<rparr>)
            in updateHeldBytes g))"

definition failOpen :: "gate \<Rightarrow> gate" where
  "failOpen g =
     flush (g\<lparr>ga_snap := (ga_snap g)\<lparr>gs_failOpenCandidates := gs_failOpenCandidates (ga_snap g) + 1\<rparr>\<rparr>)"

definition scheduleFailOpenTimer :: "gate \<Rightarrow> gate" where
  "scheduleFailOpenTimer g = g\<lparr>ga_timer := True\<rparr>"

definition onFailOpenTimer :: "gate \<Rightarrow> gate" where
  "onFailOpenTimer g = failOpen (g\<lparr>ga_timer := False\<rparr>)"

definition canCollapseNow :: "pressure \<Rightarrow> gate \<Rightarrow> bool" where
  "canCollapseNow pr g =
     (ga_mode g = ModeCollapse
      \<and> (let p = pr g
         in cc_alternateScreen p
            \<and> cc_outputDrainQueueBytes p + cc_frameGateHeldBytes p > alternateScreenThrottleBacklogBytes))"

definition dropHeldFrame :: "gate \<Rightarrow> gate" where
  "dropHeldFrame g =
     (case ga_heldFrame g of None \<Rightarrow> g
      | Some f \<Rightarrow>
          (let b = fr_bytes f;
               g = effect (AckDropped b) g;
               g = g\<lparr>ga_snap := (ga_snap g)\<lparr>
                     gs_wouldDropFrames := gs_wouldDropFrames (ga_snap g) + 1,
                     gs_wouldDropBytes := gs_wouldDropBytes (ga_snap g) + b,
                     gs_droppedFrames := gs_droppedFrames (ga_snap g) + 1,
                     gs_droppedBytes := gs_droppedBytes (ga_snap g) + b\<rparr>\<rparr>
           in updateHeldBytes (g\<lparr>ga_heldFrame := None\<rparr>)))"

definition recordClassification :: "frame_class \<Rightarrow> nat \<Rightarrow> gate_snapshot \<Rightarrow> gate_snapshot" where
  "recordClassification k contentBytes s =
     (case k of
        ReplaceableVisual _ proof \<Rightarrow>
          (let s = s\<lparr>gs_candidateFrames := gs_candidateFrames s + 1\<rparr>
           in if proof = SelfContainedReplacement
              then s\<lparr>gs_replaceableFrames := gs_replaceableFrames s + 1\<rparr> else s)
      | Stateful _ r \<Rightarrow> s\<lparr>gs_lastRejectReason := Some r, gs_statefulFrames := gs_statefulFrames s + 1\<rparr>
      | Unknown _ r \<Rightarrow> s\<lparr>gs_lastRejectReason := Some r,
                       gs_malformedFrames := gs_malformedFrames s
                         + (if contentBytes > maxPendingCsiChars then 1 else 0)\<rparr>)"

definition simulateShadowFrame :: "pressure \<Rightarrow> complete_frame \<Rightarrow> gate \<Rightarrow> gate" where
  "simulateShadowFrame pr f g =
     (case fr_class f of
        ReplaceableVisual _ proof \<Rightarrow>
          (let g = g\<lparr>ga_snap := (ga_snap g)\<lparr>gs_lastCandidateContext := Some (pr g)\<rparr>\<rparr>;
               g = (case ga_shadowHeldFrame g of
                      Some h \<Rightarrow>
                        if canCollapseNow pr g \<and> proof = SelfContainedReplacement
                        then g\<lparr>ga_snap := (ga_snap g)\<lparr>
                               gs_wouldDropFrames := gs_wouldDropFrames (ga_snap g) + 1,
                               gs_wouldDropBytes := gs_wouldDropBytes (ga_snap g) + fr_bytes h\<rparr>\<rparr>
                        else g
                    | None \<Rightarrow> g)
           in g\<lparr>ga_shadowHeldFrame := if canCollapseNow pr g then Some f else None\<rparr>)
      | _ \<Rightarrow> g\<lparr>ga_shadowHeldFrame := None\<rparr>)"

definition reasonOf :: "frame_class \<Rightarrow> string option" where
  "reasonOf k = (case k of ReplaceableVisual _ _ \<Rightarrow> None | Stateful _ r \<Rightarrow> Some r | Unknown _ r \<Rightarrow> Some r)"

text \<open>What becomes of a complete frame that is not shadowed.\<close>

definition admitFrame :: "pressure \<Rightarrow> complete_frame \<Rightarrow> gate \<Rightarrow> gate" where
  "admitFrame pr f g =
     (case fr_class f of
        ReplaceableVisual _ proof \<Rightarrow>
          (let g = g\<lparr>ga_snap := (ga_snap g)\<lparr>gs_lastCandidateContext := Some (pr g)\<rparr>\<rparr>;
               g = (case ga_heldFrame g of None \<Rightarrow> g
                    | Some h \<Rightarrow>
                        if proof = SelfContainedReplacement then dropHeldFrame g
                        else (forwardText (fr_data h) g)\<lparr>ga_heldFrame := None\<rparr>)
           in updateHeldBytes (scheduleFailOpenTimer (g\<lparr>ga_heldFrame := Some f\<rparr>)))
      | k \<Rightarrow>
          forwardText (fr_data f)
            (flush (g\<lparr>ga_snap := (ga_snap g)\<lparr>gs_lastRejectReason := reasonOf k\<rparr>\<rparr>)))"

definition handleCompleteFrame :: "pressure \<Rightarrow> js_text \<Rightarrow> js_text \<Rightarrow> bool \<Rightarrow> gate \<Rightarrow> gate" where
  "handleCompleteFrame pr frameData frameContent shadow g =
     (let b = utf8ByteLength frameData;
          contentBytes = utf8ByteLength frameContent;
          k = classifyDec2026Frame frameContent b;
          f = \<lparr>fr_data = frameData, fr_content = frameContent, fr_bytes = b, fr_class = k\<rparr>;
          s = ga_snap g;
          s = s\<lparr>gs_completeFrames := gs_completeFrames s + 1, gs_maxFrameBytes := max (gs_maxFrameBytes s) b\<rparr>;
          g = g\<lparr>ga_snap := recordClassification k contentBytes s\<rparr>
      in if shadow then simulateShadowFrame pr f g else admitFrame pr f g)"

definition handleBarrier :: "js_text \<Rightarrow> bool \<Rightarrow> gate \<Rightarrow> gate" where
  "handleBarrier text shadow g =
     (if text = [] then g
      else if shadow then g\<lparr>ga_shadowHeldFrame := None\<rparr>
      else forwardText text (flush g))"

definition appendCurrentFrame :: "js_text \<Rightarrow> bool \<Rightarrow> gate \<Rightarrow> gate" where
  "appendCurrentFrame text shadow g =
     (if text = [] then g
      else (let g = g\<lparr>ga_currentFrameData := ga_currentFrameData g @ text,
                      ga_currentFrameContent := ga_currentFrameContent g @ text\<rparr>
            in if \<not> shadow \<and> utf8ByteLength (ga_currentFrameData g) \<ge> maxHeldFrameBytes
               then failOpen g else g))"

text \<open>One iteration of the loop: the new gate and the rest of the text.\<close>

definition stepInsideFrame :: "pressure \<Rightarrow> js_text \<Rightarrow> bool \<Rightarrow> gate \<Rightarrow> gate \<times> js_text" where
  "stepInsideFrame pr text shadow g =
     (case findNextBoundary text of
        None \<Rightarrow> (appendCurrentFrame text shadow g, [])
      | Some b \<Rightarrow>
          (let g = appendCurrentFrame (take (bd_index b) text) shadow g;
               rest = drop (bd_index b + length (bd_sequence b)) text
           in if bd_kind b = Begin
              then (let g = g\<lparr>ga_snap := (ga_snap g)\<lparr>
                              gs_malformedFrames := gs_malformedFrames (ga_snap g) + 1,
                              gs_failOpenCandidates := gs_failOpenCandidates (ga_snap g) + 1\<rparr>\<rparr>
                    in (if shadow then g\<lparr>ga_shadowHeldFrame := None\<rparr>
                        else forwardText (bd_sequence b) (flush g), rest))
              else (let frameData = ga_currentFrameData g @ bd_sequence b;
                        frameContent = ga_currentFrameContent g;
                        g = g\<lparr>ga_currentFrameData := [], ga_currentFrameContent := []\<rparr>
                    in (handleCompleteFrame pr frameData frameContent shadow g, rest))))"

definition stepOutsideFrame :: "js_text \<Rightarrow> bool \<Rightarrow> gate \<Rightarrow> gate \<times> js_text" where
  "stepOutsideFrame text shadow g =
     (case findNextBoundary text of
        None \<Rightarrow>
          (let suffix = pendingBoundarySuffix text;
               barrier = take (length text - length suffix) text
           in ((handleBarrier barrier shadow g)\<lparr>ga_pendingPrefix := suffix\<rparr>, []))
      | Some b \<Rightarrow>
          (let g = handleBarrier (take (bd_index b) text) shadow g;
               rest = drop (bd_index b + length (bd_sequence b)) text
           in if bd_kind b = End
              then (handleBarrier (bd_sequence b) shadow
                      (g\<lparr>ga_snap := (ga_snap g)\<lparr>
                         gs_failOpenCandidates := gs_failOpenCandidates (ga_snap g) + 1\<rparr>\<rparr>), rest)
              else (let g = g\<lparr>ga_snap := (ga_snap g)\<lparr>gs_framesSeen := gs_framesSeen (ga_snap g) + 1,
                              gs_partialFrames := gs_partialFrames (ga_snap g) + 1\<rparr>,
                              ga_currentFrameData := bd_sequence b, ga_currentFrameContent := []\<rparr>
                    in (if shadow then g else scheduleFailOpenTimer g, rest))))"

lemma nearer_sequence:
  "nearerBoundary text next s = Some b \<Longrightarrow> next = Some b \<or> (bd_sequence b = s \<and> index_of text s = Some (bd_index b)
     \<and> bd_kind b = boundaryKind s)"
  by (auto simp: nearerBoundary_def Let_def split: option.splits if_splits)

lemma find_boundary:
  assumes "findNextBoundary text = Some b"
  shows "bd_sequence b \<in> set dec2026Sequences \<and> index_of text (bd_sequence b) = Some (bd_index b)
         \<and> bd_kind b = boundaryKind (bd_sequence b)"
proof -
  have "foldl (nearerBoundary text) n ss = Some b \<Longrightarrow>
        n = Some b \<or> (bd_sequence b \<in> set ss \<and> index_of text (bd_sequence b) = Some (bd_index b)
          \<and> bd_kind b = boundaryKind (bd_sequence b))" for n ss
  proof (induction ss arbitrary: n)
    case (Cons s ss)
    then show ?case using nearer_sequence [of _ n s b] by fastforce
  qed simp
  with assms show ?thesis by (auto simp: findNextBoundary_def)
qed

lemma sequence_nonempty: "s \<in> set dec2026Sequences \<Longrightarrow> s \<noteq> []"
  by (auto simp: dec2026Sequences_def dec2026BeginEsc_def dec2026EndEsc_def dec2026BeginC1_def dec2026EndC1_def)

lemma step_shorter:
  assumes "text \<noteq> []"
  shows "length (snd (stepInsideFrame pr text sh g)) < length text"
    and "length (snd (stepOutsideFrame text sh g)) < length text"
  using assms find_boundary sequence_nonempty
  by (auto simp: stepInsideFrame_def stepOutsideFrame_def Let_def split: option.split)

function processLoop :: "pressure \<Rightarrow> js_text \<Rightarrow> bool \<Rightarrow> gate \<Rightarrow> gate" where
  "processLoop pr text shadow g =
     (if text = [] then g
      else (let (g', rest) = (if ga_currentFrameData g \<noteq> [] then stepInsideFrame pr text shadow g
                              else stepOutsideFrame text shadow g)
            in processLoop pr rest shadow g'))"
  by pat_completeness auto
termination
proof (relation "measure (\<lambda>(pr, t, sh, g). length t)", goal_cases)
  case (2 pr t sh g x g' rest)
  then show ?case using step_shorter(1) [OF 2(1), of pr sh g] step_shorter(2) [OF 2(1), of sh g]
    by (auto split: if_splits) (metis snd_conv)+
qed simp

declare processLoop.simps [simp del]

definition processCollapseText :: "pressure \<Rightarrow> js_text \<Rightarrow> bool \<Rightarrow> gate \<Rightarrow> gate" where
  "processCollapseText pr data shadow g =
     (let text = ga_pendingPrefix g @ data;
          g = processLoop pr text shadow (g\<lparr>ga_pendingPrefix := []\<rparr>)
      in if \<not> shadow \<and> getHeldBytes g \<ge> maxHeldFrameBytes then failOpen g else g)"

definition scanShadow :: "pressure \<Rightarrow> js_text \<Rightarrow> gate \<Rightarrow> gate" where
  "scanShadow pr data g =
     (let s = processCollapseText pr data True
                (g\<lparr>ga_timer := False, ga_pendingPrefix := ga_shadowPendingPrefix g,
                   ga_currentFrameData := ga_shadowCurrentFrameData g,
                   ga_currentFrameContent := ga_shadowCurrentFrameContent g\<rparr>)
      in updateHeldBytes (s\<lparr>ga_shadowPendingPrefix := ga_pendingPrefix s,
           ga_shadowCurrentFrameData := ga_currentFrameData s,
           ga_shadowCurrentFrameContent := ga_currentFrameContent s,
           ga_pendingPrefix := ga_pendingPrefix g, ga_currentFrameData := ga_currentFrameData g,
           ga_currentFrameContent := ga_currentFrameContent g, ga_heldFrame := ga_heldFrame g,
           ga_timer := ga_timer g\<rparr>))"

definition gateEnqueue :: "pressure \<Rightarrow> chunk \<Rightarrow> gate \<Rightarrow> gate" where
  "gateEnqueue pr c g =
     (if ga_disposed g \<or> ck_bytes c \<le> 0 \<or> ck_data c = [] then g
      else if ck_bytes c \<noteq> utf8ByteLength (ck_data c) then effect (Forward c) (failOpen g)
      else if ga_mode g = ModeOff then effect (Forward c) g
      else if ga_mode g = ModeShadow then effect (Forward c) (scanShadow pr (ck_data c) g)
      else if \<not> canCollapseNow pr g then effect (Forward c) (flush (scanShadow pr (ck_data c) g))
      else updateHeldBytes (processCollapseText pr (ck_data c) False g))"

definition clearGate :: "gate \<Rightarrow> gate" where
  "clearGate g = g\<lparr>ga_pendingPrefix := [], ga_currentFrameData := [], ga_currentFrameContent := [],
     ga_heldFrame := None, ga_shadowPendingPrefix := [], ga_shadowCurrentFrameData := [],
     ga_shadowCurrentFrameContent := [], ga_shadowHeldFrame := None\<rparr>"

definition gateDispose :: "bool \<Rightarrow> gate \<Rightarrow> gate" where
  "gateDispose ackRemaining g =
     (if ga_disposed g then g
      else (let g = g\<lparr>ga_disposed := True, ga_timer := False\<rparr>;
                remainingBytes = getHeldBytes g;
                g = (if ackRemaining \<and> remainingBytes > 0 then effect (AckDropped remainingBytes) g
                     else (let g = forwardText (ga_currentFrameData g) (forwardText (ga_pendingPrefix g) g)
                           in case ga_heldFrame g of None \<Rightarrow> g | Some f \<Rightarrow> forwardText (fr_data f) g))
            in updateHeldBytes (clearGate g)))"

definition gateReset :: "gate \<Rightarrow> gate" where
  "gateReset g = updateHeldBytes (clearGate (g\<lparr>ga_timer := False\<rparr>))"

definition gateSnapshot :: "gate \<Rightarrow> gate_snapshot \<times> gate" where
  "gateSnapshot g = (let g = updateHeldBytes g in (ga_snap g, g))"

section \<open>Byte conservation\<close>

fun effect_bytes :: "gate_effect \<Rightarrow> nat" where
  "effect_bytes (Forward c) = ck_bytes c"
| "effect_bytes (AckDropped n) = n"

definition released :: "gate \<Rightarrow> nat" where
  "released g = sum_list (map effect_bytes (ga_effects g))"

definition gate_total :: "gate \<Rightarrow> nat" where
  "gate_total g = released g + getHeldBytes g"

definition live :: "gate \<Rightarrow> bool" where
  "live g \<longleftrightarrow> \<not> ga_disposed g \<and> text_ok (ga_pendingPrefix g)
     \<and> (\<forall>f. ga_heldFrame g = Some f \<longrightarrow> fr_bytes f = utf8ByteLength (fr_data f))"

text \<open>Both sides of an operation are live and it accounts for \<open>k\<close> further bytes.\<close>

definition accounts :: "nat \<Rightarrow> gate \<Rightarrow> gate \<Rightarrow> bool" where
  "accounts k g g' \<longleftrightarrow> live g' \<and> gate_total g' = gate_total g + k"

lemma released_effect [simp]: "released (effect e g) = released g + effect_bytes e"
  by (simp add: released_def effect_def)

lemma held_effect [simp]: "getHeldBytes (effect e g) = getHeldBytes g"
  by (simp add: getHeldBytes_def effect_def)

lemma released_snap [simp]: "released (ga_snap_update u g) = released g" "released (ga_timer_update v g) = released g"
  by (simp_all add: released_def)

lemma held_snap [simp]: "getHeldBytes (ga_snap_update u g) = getHeldBytes g"
  "getHeldBytes (ga_timer_update v g) = getHeldBytes g"
  by (simp_all add: getHeldBytes_def)

lemma live_snap [simp]: "live (ga_snap_update u g) = live g" "live (ga_timer_update v g) = live g"
  "live (effect e g) = live g"
  by (simp_all add: live_def effect_def)

lemma total_snap [simp]: "gate_total (ga_snap_update u g) = gate_total g" "gate_total (ga_timer_update v g) = gate_total g"
  by (simp_all add: gate_total_def)

lemma update_held_fields [simp]:
  "live (updateHeldBytes g) = live g" "gate_total (updateHeldBytes g) = gate_total g"
  "ga_pendingPrefix (updateHeldBytes g) = ga_pendingPrefix g"
  "ga_currentFrameData (updateHeldBytes g) = ga_currentFrameData g"
  "ga_disposed (updateHeldBytes g) = ga_disposed g" "ga_effects (updateHeldBytes g) = ga_effects g"
  "ga_heldFrame (updateHeldBytes g) = ga_heldFrame g" "ga_mode (updateHeldBytes g) = ga_mode g"
  "getHeldBytes (updateHeldBytes g) = getHeldBytes g" "ga_timer (updateHeldBytes g) = ga_timer g"
  "released (updateHeldBytes g) = released g"
  by (simp_all add: updateHeldBytes_def)

lemma forward_fields [simp]:
  "ga_pendingPrefix (forwardText t g) = ga_pendingPrefix g"
  "ga_currentFrameData (forwardText t g) = ga_currentFrameData g"
  "ga_currentFrameContent (forwardText t g) = ga_currentFrameContent g"
  "ga_heldFrame (forwardText t g) = ga_heldFrame g" "ga_disposed (forwardText t g) = ga_disposed g"
  "ga_mode (forwardText t g) = ga_mode g" "live (forwardText t g) = live g"
  "getHeldBytes (forwardText t g) = getHeldBytes g"
  "released (forwardText t g) = released g + utf8ByteLength t"
  by (simp_all add: forwardText_def) (simp_all add: effect_def)

lemma total_forward [simp]: "gate_total (forwardText t g) = gate_total g + utf8ByteLength t"
  by (simp add: gate_total_def)

text \<open>A flush moves everything held to the output.\<close>

lemma flush_props:
  assumes "live g"
  shows "live (flush g)" and "gate_total (flush g) = gate_total g" and "getHeldBytes (flush g) = 0"
    and "ga_pendingPrefix (flush g) = []" and "ga_currentFrameData (flush g) = []" and "ga_heldFrame (flush g) = None"
proof -
  have d: "\<not> ga_disposed g" using assms by (simp add: live_def)
  show "ga_pendingPrefix (flush g) = []" "ga_currentFrameData (flush g) = []" "ga_heldFrame (flush g) = None"
    using d by (auto simp: flush_def Let_def split: option.split)
  then show "live (flush g)" using d
    by (simp add: live_def text_ok_def) (auto simp: flush_def Let_def split: option.split)
  show h: "getHeldBytes (flush g) = 0" using d
    by (auto simp: flush_def Let_def getHeldBytes_def split: option.split)
  have "released (flush g) = released g + getHeldBytes g" using assms
    by (auto simp: flush_def Let_def live_def updateHeldBytes_def released_def getHeldBytes_def forwardText_def
        effect_def split: option.split)
  with h show "gate_total (flush g) = gate_total g" by (simp add: gate_total_def)
qed

lemma failOpen_props:
  assumes "live g"
  shows "live (failOpen g)" and "gate_total (failOpen g) = gate_total g" and "getHeldBytes (failOpen g) = 0"
    and "ga_pendingPrefix (failOpen g) = []" and "ga_currentFrameData (failOpen g) = []"
proof -
  have "live (g\<lparr>ga_snap := (ga_snap g)\<lparr>gs_failOpenCandidates := gs_failOpenCandidates (ga_snap g) + 1\<rparr>\<rparr>)"
    using assms by simp
  note fp = flush_props [OF this]
  then show "live (failOpen g)" "gate_total (failOpen g) = gate_total g" "getHeldBytes (failOpen g) = 0"
    "ga_pendingPrefix (failOpen g) = []" "ga_currentFrameData (failOpen g) = []"
    by (simp_all add: failOpen_def)
qed

lemma barrier_props:
  assumes "live g" and "ga_pendingPrefix g = []" and "ga_currentFrameData g = []"
  shows "accounts (utf8ByteLength t) g (handleBarrier t False g)"
    and "ga_pendingPrefix (handleBarrier t False g) = []" and "ga_currentFrameData (handleBarrier t False g) = []"
  using assms flush_props [OF assms(1)] by (simp_all add: handleBarrier_def accounts_def)

lemma append_props:
  assumes "live g" and "ga_pendingPrefix g = []" and "\<not> seam_pair (ga_currentFrameData g) t"
  shows "accounts (utf8ByteLength t) g (appendCurrentFrame t False g)"
    and "ga_pendingPrefix (appendCurrentFrame t False g) = []"
proof -
  let ?g = "g\<lparr>ga_currentFrameData := ga_currentFrameData g @ t,
                      ga_currentFrameContent := ga_currentFrameContent g @ t\<rparr>"
  have l: "live ?g" using assms(1) by (simp add: live_def)
  have t: "gate_total ?g = gate_total g + utf8ByteLength t"
    using utf8_append [OF assms(3)] by (simp add: gate_total_def released_def getHeldBytes_def)
  have "accounts (utf8ByteLength t) g (appendCurrentFrame t False g)
        \<and> ga_pendingPrefix (appendCurrentFrame t False g) = []"
    using assms l t failOpen_props [OF l] by (simp add: appendCurrentFrame_def accounts_def Let_def)
  then show "accounts (utf8ByteLength t) g (appendCurrentFrame t False g)"
    "ga_pendingPrefix (appendCurrentFrame t False g) = []" by simp_all
qed

lemma live_hold: "live g \<Longrightarrow> fr_bytes f = utf8ByteLength (fr_data f) \<Longrightarrow> live (g\<lparr>ga_heldFrame := Some f\<rparr>)"
  by (simp add: live_def)

lemma total_hold: "ga_heldFrame g = None \<Longrightarrow> gate_total (g\<lparr>ga_heldFrame := Some f\<rparr>) = gate_total g + fr_bytes f"
  by (simp add: gate_total_def released_def getHeldBytes_def)

lemma total_unhold:
  "ga_heldFrame g = Some f \<Longrightarrow> gate_total (g\<lparr>ga_heldFrame := None\<rparr>) + fr_bytes f = gate_total g"
  by (simp add: gate_total_def released_def getHeldBytes_def)

lemma live_unhold: "live g \<Longrightarrow> live (g\<lparr>ga_heldFrame := None\<rparr>)"
  by (simp add: live_def)

lemma live_held: "live g \<Longrightarrow> ga_heldFrame g = Some f \<Longrightarrow> fr_bytes f = utf8ByteLength (fr_data f)"
  by (simp add: live_def)

lemma drop_props:
  assumes "live g" and "ga_heldFrame g = Some f"
  shows "live (dropHeldFrame g)" and "gate_total (dropHeldFrame g) = gate_total g" and "ga_heldFrame (dropHeldFrame g) = None"
    and "ga_pendingPrefix (dropHeldFrame g) = ga_pendingPrefix g"
    and "ga_currentFrameData (dropHeldFrame g) = ga_currentFrameData g"
  using assms total_unhold [OF assms(2)]
  by (auto simp: dropHeldFrame_def Let_def effect_def live_def updateHeldBytes_def gate_total_def released_def
      getHeldBytes_def)

text \<open>The held frame, if any, is dropped or forwarded before the new one is held.\<close>

lemma admit_props:
  assumes "live g" and "ga_pendingPrefix g = []" and "ga_currentFrameData g = []"
    and f: "fr_bytes f = utf8ByteLength (fr_data f)"
  shows "accounts (utf8ByteLength (fr_data f)) g (admitFrame pr f g)
         \<and> ga_pendingPrefix (admitFrame pr f g) = [] \<and> ga_currentFrameData (admitFrame pr f g) = []"
proof (cases "\<exists>b proof. fr_class f = ReplaceableVisual b proof")
  case True
  then obtain b pf where k: "fr_class f = ReplaceableVisual b pf" by blast
  define g1 where "g1 = g\<lparr>ga_snap := (ga_snap g)\<lparr>gs_lastCandidateContext := Some (pr g)\<rparr>\<rparr>"
  define g2 where "g2 = (case ga_heldFrame g1 of None \<Rightarrow> g1
                    | Some h \<Rightarrow> if pf = SelfContainedReplacement then dropHeldFrame g1
                               else (forwardText (fr_data h) g1)\<lparr>ga_heldFrame := None\<rparr>)"
  have g1: "live g1" "gate_total g1 = gate_total g" "ga_pendingPrefix g1 = []" "ga_currentFrameData g1 = []"
    using assms by (simp_all add: g1_def)
  have g2: "live g2 \<and> gate_total g2 = gate_total g \<and> ga_heldFrame g2 = None \<and> ga_pendingPrefix g2 = []
            \<and> ga_currentFrameData g2 = []"
  proof (cases "ga_heldFrame g1")
    case None
    with g1 show ?thesis by (simp add: g2_def)
  next
    case (Some h)
    let ?f = "forwardText (fr_data h) g1"
    have "live ?f" "ga_heldFrame ?f = Some h" using g1 Some by simp_all
    note u = live_unhold [OF this(1)] total_unhold [OF this(2)]
    show ?thesis using Some g1 drop_props [OF g1(1) Some] u live_held [OF g1(1) Some] by (simp add: g2_def)
  qed
  have res: "admitFrame pr f g = updateHeldBytes (scheduleFailOpenTimer (g2\<lparr>ga_heldFrame := Some f\<rparr>))"
    unfolding g2_def g1_def by (simp add: admitFrame_def k Let_def)
  show ?thesis unfolding res using g2 live_hold [OF _ f, of g2] total_hold [of g2 f] f
    by (simp add: accounts_def scheduleFailOpenTimer_def)
next
  case False
  then have "admitFrame pr f g = forwardText (fr_data f)
      (flush (g\<lparr>ga_snap := (ga_snap g)\<lparr>gs_lastRejectReason := reasonOf (fr_class f)\<rparr>\<rparr>))"
    by (cases "fr_class f") (simp_all add: admitFrame_def)
  moreover have "live (g\<lparr>ga_snap := (ga_snap g)\<lparr>gs_lastRejectReason := reasonOf (fr_class f)\<rparr>\<rparr>)"
    using assms(1) by simp
  ultimately show ?thesis using flush_props by (simp add: accounts_def)
qed

lemma complete_props:
  assumes "live g" and "ga_pendingPrefix g = []" and "ga_currentFrameData g = []"
  shows "accounts (utf8ByteLength d) g (handleCompleteFrame pr d c False g)
         \<and> ga_pendingPrefix (handleCompleteFrame pr d c False g) = []
         \<and> ga_currentFrameData (handleCompleteFrame pr d c False g) = []"
proof -
  let ?s = "ga_snap g"
  let ?g = "g\<lparr>ga_snap := recordClassification (classifyDec2026Frame c (utf8ByteLength d)) (utf8ByteLength c)
      (?s\<lparr>gs_completeFrames := gs_completeFrames ?s + 1, gs_maxFrameBytes := max (gs_maxFrameBytes ?s) (utf8ByteLength d)\<rparr>)\<rparr>"
  let ?f = "\<lparr>fr_data = d, fr_content = c, fr_bytes = utf8ByteLength d,
             fr_class = classifyDec2026Frame c (utf8ByteLength d)\<rparr>"
  have "live ?g" "ga_pendingPrefix ?g = []" "ga_currentFrameData ?g = []" using assms by simp_all
  from admit_props [OF this, of ?f pr] show ?thesis
    by (simp add: handleCompleteFrame_def Let_def accounts_def)
qed

text \<open>Cutting a text at a boundary or a pending suffix never cuts a surrogate pair.\<close>

lemma sequence_ends:
  assumes "s \<in> set dec2026Sequences"
  shows "text_ok s" and "\<not> is_high (last s)"
  using assms
  by (auto simp: dec2026Sequences_def dec2026BeginEsc_def dec2026EndEsc_def dec2026BeginC1_def
      dec2026EndC1_def text_ok_def is_low_def is_high_def js_def)

lemma cut_at_boundary:
  assumes "findNextBoundary t = Some b"
  defines "before \<equiv> take (bd_index b) t" and "rest \<equiv> drop (bd_index b + length (bd_sequence b)) t"
  shows "t = before @ bd_sequence b @ rest"
    and "utf8ByteLength t = utf8ByteLength before + utf8ByteLength (bd_sequence b) + utf8ByteLength rest"
proof -
  have b: "bd_sequence b \<in> set dec2026Sequences" "index_of t (bd_sequence b) = Some (bd_index b)"
    using find_boundary [OF assms(1)] by auto
  show eq: "t = before @ bd_sequence b @ rest"
    using index_of_Some [OF b(2)] by (simp add: before_def rest_def)
  have "text_ok (bd_sequence b @ rest)"
    using sequence_ends(1) [OF b(1)] sequence_nonempty [OF b(1)] by (auto simp: text_ok_def)
  then have "utf8ByteLength t = utf8ByteLength before + utf8ByteLength (bd_sequence b @ rest)"
    using eq utf8_append_ok by metis
  also have "utf8ByteLength (bd_sequence b @ rest) = utf8ByteLength (bd_sequence b) + utf8ByteLength rest"
    using sequence_ends(2) [OF b(1)] by (intro utf8_append_last) simp
  finally show "utf8ByteLength t = utf8ByteLength before + utf8ByteLength (bd_sequence b) + utf8ByteLength rest"
    by simp
qed

lemma suffix_props:
  "n \<le> length t \<Longrightarrow> text_ok (suffixOfLength t n)
     \<and> suffixOfLength t n = drop (length t - length (suffixOfLength t n)) t"
proof (induction n)
  case (Suc n)
  let ?x = "drop (length t - Suc n) t"
  show ?case
  proof (cases "list_ex (\<lambda>s. starts_with s ?x) dec2026Sequences")
    case True
    then obtain s where s: "s \<in> set dec2026Sequences" "starts_with s ?x" by (auto simp: list_ex_iff)
    have "?x \<noteq> []" using Suc.prems by auto
    then have "hd ?x = hd s" using starts_withD [OF s(2)] by (metis hd_append2)
    then have "text_ok ?x" using sequence_ends(1) [OF s(1)] sequence_nonempty [OF s(1)] by (simp add: text_ok_def)
    with True Suc.prems show ?thesis by simp
  next
    case False
    with Suc show ?thesis by simp
  qed
qed (simp add: text_ok_def)

lemma cut_at_suffix:
  "text_ok (pendingBoundarySuffix t)"
  "utf8ByteLength t = utf8ByteLength (take (length t - length (pendingBoundarySuffix t)) t)
                      + utf8ByteLength (pendingBoundarySuffix t)"
proof -
  have s: "text_ok (pendingBoundarySuffix t)"
    "pendingBoundarySuffix t = drop (length t - length (pendingBoundarySuffix t)) t"
    using suffix_props [of "min maxPendingCsiChars (length t)" t] by (auto simp: pendingBoundarySuffix_def)
  then show "text_ok (pendingBoundarySuffix t)" by simp
  have "t = take (length t - length (pendingBoundarySuffix t)) t @ pendingBoundarySuffix t"
    using s(2) by (metis append_take_drop_id)
  then show "utf8ByteLength t = utf8ByteLength (take (length t - length (pendingBoundarySuffix t)) t)
                      + utf8ByteLength (pendingBoundarySuffix t)"
    using utf8_append_ok [OF s(1)] by metis
qed

text \<open>The state between two iterations: nothing pending, and the next text does not complete a
  surrogate pair of the frame collected so far.\<close>

definition between :: "js_text \<Rightarrow> gate \<Rightarrow> bool" where
  "between t g \<longleftrightarrow> live g \<and> ga_pendingPrefix g = [] \<and> \<not> seam_pair (ga_currentFrameData g) t"

lemma seam_nil [simp]: "\<not> seam_pair [] t" "\<not> seam_pair t []"
  by (simp_all add: seam_pair_def)

lemma seam_take: "\<not> seam_pair d t \<Longrightarrow> \<not> seam_pair d (take n t)"
  by (cases t; cases n) (auto simp: seam_pair_def)

definition step_result :: "js_text \<Rightarrow> gate \<Rightarrow> gate \<times> js_text \<Rightarrow> bool" where
  "step_result t g r \<longleftrightarrow> live (fst r) \<and> (snd r \<noteq> [] \<longrightarrow> between (snd r) (fst r))
     \<and> gate_total (fst r) + utf8ByteLength (snd r) = gate_total g + utf8ByteLength t"

lemma inside_step:
  assumes bt: "between t g"
  shows "step_result t g (stepInsideFrame pr t False g)"
proof (cases "findNextBoundary t")
  case None
  with append_props [of g t] bt show ?thesis
    by (simp add: stepInsideFrame_def step_result_def accounts_def between_def)
next
  case (Some b)
  note cut = cut_at_boundary [OF Some]
  have seq: "bd_sequence b \<in> set dec2026Sequences" using find_boundary [OF Some] by simp
  define g1 where "g1 = appendCurrentFrame (take (bd_index b) t) False g"
  have g1: "live g1" "gate_total g1 = gate_total g + utf8ByteLength (take (bd_index b) t)" "ga_pendingPrefix g1 = []"
    using append_props [of g "take (bd_index b) t"] bt seam_take
    by (auto simp: g1_def accounts_def between_def)
  show ?thesis
  proof (cases "bd_kind b = Begin")
    case True
    let ?h = "g1\<lparr>ga_snap := (ga_snap g1)\<lparr>
                gs_malformedFrames := gs_malformedFrames (ga_snap g1) + 1,
                gs_failOpenCandidates := gs_failOpenCandidates (ga_snap g1) + 1\<rparr>\<rparr>"
    have "live ?h" using g1 by simp
    note fp = flush_props [OF this]
    show ?thesis using True Some fp g1 cut(2)
      by (simp add: stepInsideFrame_def Let_def step_result_def between_def flip: g1_def)
  next
    case False
    let ?h = "g1\<lparr>ga_currentFrameData := [], ga_currentFrameContent := []\<rparr>"
    have h: "live ?h" "ga_pendingPrefix ?h = []" "ga_currentFrameData ?h = []"
      using g1 by (simp_all add: live_def)
    have th: "gate_total ?h + utf8ByteLength (ga_currentFrameData g1) = gate_total g1"
      by (simp add: gate_total_def released_def getHeldBytes_def)
    have ta: "utf8ByteLength (ga_currentFrameData g1 @ bd_sequence b)
              = utf8ByteLength (ga_currentFrameData g1) + utf8ByteLength (bd_sequence b)"
      using sequence_ends(1) [OF seq] by (rule utf8_append_ok)
    show ?thesis
      using complete_props [OF h, of "ga_currentFrameData g1 @ bd_sequence b" pr "ga_currentFrameContent g1"]
        False Some th ta g1(2) cut(2)
      by (simp add: stepInsideFrame_def Let_def step_result_def between_def accounts_def flip: g1_def)
  qed
qed

lemma outside_step:
  assumes bt: "between t g" and cur: "ga_currentFrameData g = []"
  shows "step_result t g (stepOutsideFrame t False g)"
proof (cases "findNextBoundary t")
  case None
  let ?b = "take (length t - length (pendingBoundarySuffix t)) t" and ?s = "pendingBoundarySuffix t"
  have g: "live g" "ga_pendingPrefix g = []" using bt by (simp_all add: between_def)
  note bp = barrier_props [OF g cur, of ?b]
  have "live ((handleBarrier ?b False g)\<lparr>ga_pendingPrefix := ?s\<rparr>)"
    using bp(1) cut_at_suffix(1) by (simp add: accounts_def live_def)
  moreover have "gate_total ((handleBarrier ?b False g)\<lparr>ga_pendingPrefix := ?s\<rparr>)
                 = gate_total (handleBarrier ?b False g) + utf8ByteLength ?s"
    using bp(2) by (simp add: gate_total_def released_def getHeldBytes_def)
  ultimately show ?thesis using None bp(1) cut_at_suffix(2) [of t]
    by (simp add: stepOutsideFrame_def Let_def step_result_def accounts_def)
next
  case (Some b)
  note cut = cut_at_boundary [OF Some]
  have seq: "bd_sequence b \<in> set dec2026Sequences" using find_boundary [OF Some] by simp
  define g1 where "g1 = handleBarrier (take (bd_index b) t) False g"
  have g1: "live g1" "gate_total g1 = gate_total g + utf8ByteLength (take (bd_index b) t)" "ga_pendingPrefix g1 = []"
    "ga_currentFrameData g1 = []"
    using barrier_props [of g "take (bd_index b) t"] bt cur by (auto simp: g1_def accounts_def between_def)
  show ?thesis
  proof (cases "bd_kind b = End")
    case True
    let ?h = "g1\<lparr>ga_snap := (ga_snap g1)\<lparr>gs_failOpenCandidates := gs_failOpenCandidates (ga_snap g1) + 1\<rparr>\<rparr>"
    have "live ?h" "ga_pendingPrefix ?h = []" "ga_currentFrameData ?h = []" using g1 by simp_all
    note bp = barrier_props [OF this, of "bd_sequence b"]
    show ?thesis using True Some bp g1 cut(2)
      by (simp add: stepOutsideFrame_def Let_def step_result_def between_def accounts_def flip: g1_def)
  next
    case False
    let ?h = "g1\<lparr>ga_snap := (ga_snap g1)\<lparr>gs_framesSeen := gs_framesSeen (ga_snap g1) + 1,
                    gs_partialFrames := gs_partialFrames (ga_snap g1) + 1\<rparr>,
                 ga_currentFrameData := bd_sequence b, ga_currentFrameContent := []\<rparr>"
    have "live ?h" "gate_total ?h = gate_total g1 + utf8ByteLength (bd_sequence b)" "ga_pendingPrefix ?h = []"
      using g1 by (simp_all add: live_def gate_total_def released_def getHeldBytes_def)
    moreover have "\<not> seam_pair (bd_sequence b) x" for x
      using sequence_ends(2) [OF seq] by (simp add: seam_pair_def)
    ultimately show ?thesis using False Some g1(2) cut(2)
      by (simp add: stepOutsideFrame_def Let_def step_result_def between_def scheduleFailOpenTimer_def
          flip: g1_def)
  qed
qed

lemma loop_nil [simp]: "processLoop pr [] sh g = g"
  by (simp add: processLoop.simps [of pr "[]"])

lemma loop_accounts:
  "live g \<Longrightarrow> (t \<noteq> [] \<Longrightarrow> between t g) \<Longrightarrow> accounts (utf8ByteLength t) g (processLoop pr t False g)"
proof (induction t arbitrary: g rule: measure_induct_rule [of length])
  case (less t)
  show ?case
  proof (cases "t = []")
    case True
    with less.prems show ?thesis by (simp add: accounts_def)
  next
    case False
    define r where "r = (if ga_currentFrameData g \<noteq> [] then stepInsideFrame pr t False g else stepOutsideFrame t False g)"
    have sr: "step_result t g r" using False less.prems inside_step outside_step by (simp add: r_def)
    have "length (snd r) < length t" using step_shorter [OF False] by (simp add: r_def)
    then have "accounts (utf8ByteLength (snd r)) (fst r) (processLoop pr (snd r) False (fst r))"
      using sr less.IH by (simp add: step_result_def)
    moreover have "processLoop pr t False g = processLoop pr (snd r) False (fst r)"
      using False by (simp add: processLoop.simps [of pr t] r_def split: prod.split)
    ultimately show ?thesis using sr by (simp add: accounts_def step_result_def)
  qed
qed

lemma collapse_accounts:
  assumes "live g" and "text_ok d"
  shows "accounts (utf8ByteLength d) g (processCollapseText pr d False g)"
    and "getHeldBytes (processCollapseText pr d False g) < maxHeldFrameBytes"
proof -
  let ?g = "g\<lparr>ga_pendingPrefix := []\<rparr>" and ?t = "ga_pendingPrefix g @ d"
  have ok: "text_ok ?t" using assms by (cases "ga_pendingPrefix g") (auto simp: live_def text_ok_def)
  have l: "live ?g" using assms(1) by (simp add: live_def text_ok_def)
  have tt: "gate_total ?g + utf8ByteLength (ga_pendingPrefix g) = gate_total g"
    by (simp add: gate_total_def released_def getHeldBytes_def)
  have "between ?t ?g" using l ok by (auto simp: between_def seam_pair_def text_ok_def)
  then have p: "accounts (utf8ByteLength ?t) ?g (processLoop pr ?t False ?g)" using loop_accounts l by blast
  moreover have "utf8ByteLength ?t = utf8ByteLength (ga_pendingPrefix g) + utf8ByteLength d"
    using assms(2) by (rule utf8_append_ok)
  ultimately have "accounts (utf8ByteLength d) g (processLoop pr ?t False ?g)"
    using tt by (simp add: accounts_def)
  moreover have "0 < maxHeldFrameBytes" by (simp add: maxHeldFrameBytes_def)
  moreover note fp = failOpen_props [of "processLoop pr ?t False ?g"]
  ultimately show "accounts (utf8ByteLength d) g (processCollapseText pr d False g)"
    "getHeldBytes (processCollapseText pr d False g) < maxHeldFrameBytes"
    by (auto simp: processCollapseText_def Let_def accounts_def)
qed

section \<open>The shadow scan has no effect on the output\<close>

definition shadow_keep :: "gate \<Rightarrow> gate \<Rightarrow> bool" where
  "shadow_keep g g' \<longleftrightarrow> ga_effects g' = ga_effects g \<and> ga_heldFrame g' = ga_heldFrame g
     \<and> ga_disposed g' = ga_disposed g \<and> ga_mode g' = ga_mode g"

lemma shadow_complete: "shadow_keep g (handleCompleteFrame pr d c True g)"
  by (auto simp: shadow_keep_def handleCompleteFrame_def simulateShadowFrame_def Let_def
      split: frame_class.split option.split)

lemma shadow_steps:
  "shadow_keep g (fst (stepOutsideFrame t True g))"
  "shadow_keep g (fst (stepInsideFrame pr t True g))"
proof -
  show "shadow_keep g (fst (stepOutsideFrame t True g))"
    by (auto simp: shadow_keep_def stepOutsideFrame_def handleBarrier_def Let_def split: option.split)
  show "shadow_keep g (fst (stepInsideFrame pr t True g))"
    using shadow_complete
    by (auto simp: shadow_keep_def stepInsideFrame_def appendCurrentFrame_def Let_def split: option.split)
qed

lemma shadow_loop: "shadow_keep g (processLoop pr t True g)"
proof (induction t arbitrary: g rule: measure_induct_rule [of length])
  case (less t)
  show ?case
  proof (cases "t = []")
    case True
    then show ?thesis by (simp add: shadow_keep_def)
  next
    case False
    define r where "r = (if ga_currentFrameData g \<noteq> [] then stepInsideFrame pr t True g else stepOutsideFrame t True g)"
    have "length (snd r) < length t" using step_shorter [OF False] by (simp add: r_def)
    with less.IH have "shadow_keep (fst r) (processLoop pr (snd r) True (fst r))" by blast
    moreover have "shadow_keep g (fst r)" using shadow_steps by (simp add: r_def)
    moreover have "processLoop pr t True g = processLoop pr (snd r) True (fst r)"
      using False by (simp add: processLoop.simps [of pr t] r_def split: prod.split)
    ultimately show ?thesis by (simp add: shadow_keep_def)
  qed
qed

lemma scan_shadow_keep:
  "ga_effects (scanShadow pr d g) = ga_effects g" "ga_disposed (scanShadow pr d g) = ga_disposed g"
  "ga_pendingPrefix (scanShadow pr d g) = ga_pendingPrefix g"
  "ga_currentFrameData (scanShadow pr d g) = ga_currentFrameData g"
  "ga_heldFrame (scanShadow pr d g) = ga_heldFrame g" "ga_mode (scanShadow pr d g) = ga_mode g"
  using shadow_loop by (auto simp: scanShadow_def processCollapseText_def Let_def shadow_keep_def)

lemma scan_shadow_total: "live (scanShadow pr d g) = live g" "gate_total (scanShadow pr d g) = gate_total g"
  "getHeldBytes (scanShadow pr d g) = getHeldBytes g"
  by (simp_all add: live_def gate_total_def released_def getHeldBytes_def scan_shadow_keep)

section \<open>Every run of the gate\<close>

definition accepted :: "gate \<Rightarrow> chunk \<Rightarrow> bool" where
  "accepted g c \<longleftrightarrow> \<not> ga_disposed g \<and> 0 < ck_bytes c \<and> ck_data c \<noteq> []"

text \<open>
  Events of the gate, with the bytes accepted so far. Chunks do not start inside a
  surrogate pair: the backend sends whole characters. \<open>reset\<close>, which forgets held data and
  which the application never calls, is left out.
\<close>

inductive gate_step :: "gate \<times> nat \<Rightarrow> gate \<times> nat \<Rightarrow> bool" where
  gs_enqueue: "text_ok (ck_data c) \<Longrightarrow>
     gate_step (g, n) (gateEnqueue pr c g, if accepted g c then n + ck_bytes c else n)"
| gs_timer: "ga_timer g \<Longrightarrow> gate_step (g, n) (onFailOpenTimer g, n)"
| gs_flush: "gate_step (g, n) (flush g, n)"
| gs_dispose: "gate_step (g, n) (gateDispose b g, n)"
| gs_snapshot: "gate_step (g, n) (snd (gateSnapshot g), n)"

definition gate_inv :: "gate \<times> nat \<Rightarrow> bool" where
  "gate_inv s \<longleftrightarrow> (case s of (g, n) \<Rightarrow>
     if ga_disposed g then released g = n \<and> getHeldBytes g = 0 \<and> \<not> ga_timer g
     else live g \<and> gate_total g = n \<and> getHeldBytes g < maxHeldFrameBytes)"

lemma live_not_disposed: "live g \<Longrightarrow> \<not> ga_disposed g"
  by (simp add: live_def)

lemma gate_inv_live:
  "live g \<Longrightarrow> gate_total g = n \<Longrightarrow> getHeldBytes g < maxHeldFrameBytes \<Longrightarrow> gate_inv (g, n)"
  by (simp add: gate_inv_def live_not_disposed)

lemma total_effect [simp]: "gate_total (effect e g) = gate_total g + effect_bytes e"
  by (simp add: gate_total_def)

lemma max_pos: "0 < maxHeldFrameBytes"
  by (simp add: maxHeldFrameBytes_def)

lemma enqueue_live:
  assumes "gate_inv (g, n)" and ok: "text_ok (ck_data c)" and acc: "accepted g c"
  shows "live (gateEnqueue pr c g) \<and> gate_total (gateEnqueue pr c g) = n + ck_bytes c
    \<and> getHeldBytes (gateEnqueue pr c g) < maxHeldFrameBytes"
proof -
  have l: "live g" "gate_total g = n" "getHeldBytes g < maxHeldFrameBytes"
    using assms by (auto simp: gate_inv_def accepted_def split: if_splits)
  have ls: "live (scanShadow pr (ck_data c) g)" using l(1) by (simp add: scan_shadow_total)
  consider "ck_bytes c \<noteq> utf8ByteLength (ck_data c)" | "ck_bytes c = utf8ByteLength (ck_data c)" "ga_mode g = ModeOff"
    | "ck_bytes c = utf8ByteLength (ck_data c)" "ga_mode g = ModeShadow"
    | "ck_bytes c = utf8ByteLength (ck_data c)" "ga_mode g = ModeCollapse" by (cases "ga_mode g") auto
  then show ?thesis
  proof cases
    case 1
    then show ?thesis using acc l failOpen_props [OF l(1)] max_pos
      by (simp add: gateEnqueue_def accepted_def)
  next
    case 2
    then show ?thesis using acc l by (simp add: gateEnqueue_def accepted_def)
  next
    case 3
    then show ?thesis using acc l by (simp add: gateEnqueue_def accepted_def scan_shadow_total)
  next
    case 4
    then show ?thesis using acc l flush_props [OF ls] collapse_accounts [OF l(1) ok, of pr] max_pos
      by (simp add: gateEnqueue_def accepted_def scan_shadow_total accounts_def)
  qed
qed

lemma enqueue_inv:
  assumes "gate_inv (g, n)" and "text_ok (ck_data c)" and "accepted g c"
  shows "gate_inv (gateEnqueue pr c g, n + ck_bytes c)"
  using enqueue_live [OF assms] gate_inv_live by blast

lemma dispose_inv:
  assumes "gate_inv (g, n)"
  shows "gate_inv (gateDispose b g, n)"
proof (cases "ga_disposed g")
  case False
  then have l: "live g" "released g + getHeldBytes g = n" using assms by (auto simp: gate_inv_def gate_total_def)
  let ?g = "g\<lparr>ga_disposed := True, ga_timer := False\<rparr>"
  have r: "released ?g = released g" "getHeldBytes ?g = getHeldBytes g"
    by (simp_all add: released_def getHeldBytes_def)
  have held: "fr_bytes f = utf8ByteLength (fr_data f)" if "ga_heldFrame g = Some f" for f
    using l(1) that by (rule live_held)
  have cl: "released (clearGate h) = released h" "getHeldBytes (clearGate h) = 0"
    "ga_disposed (clearGate h) = ga_disposed h" "ga_timer (clearGate h) = ga_timer h" for h
    by (simp_all add: clearGate_def released_def getHeldBytes_def)
  show ?thesis
  proof (cases "b \<and> getHeldBytes ?g > 0")
    case True
    then have "gateDispose b g = updateHeldBytes (clearGate (effect (AckDropped (getHeldBytes ?g)) ?g))"
      using False by (simp add: gateDispose_def Let_def)
    then show ?thesis using l(2) r by (simp add: gate_inv_def cl) (simp add: effect_def)
  next
    case nack: False
    define h where "h = forwardText (ga_currentFrameData ?g) (forwardText (ga_pendingPrefix ?g) ?g)"
    define k where "k = (case ga_heldFrame h of None \<Rightarrow> h | Some f \<Rightarrow> forwardText (fr_data f) h)"
    have d: "gateDispose b g = updateHeldBytes (clearGate k)"
      unfolding k_def h_def using False nack by (cases "ga_heldFrame g") (auto simp: gateDispose_def Let_def)
    have "released k = released g + getHeldBytes g"
      using held r by (auto simp: k_def h_def getHeldBytes_def split: option.split)
    moreover have "ga_disposed k" "\<not> ga_timer k"
      by (auto simp: k_def h_def forwardText_def effect_def split: option.split)
    ultimately show ?thesis using l(2) by (simp add: gate_inv_def d cl)
  qed
qed (use assms in \<open>simp add: gateDispose_def\<close>)

lemma timer_inv: "gate_inv (g, n) \<Longrightarrow> ga_timer g \<Longrightarrow> gate_inv (onFailOpenTimer g, n)"
proof -
  assume inv: "gate_inv (g, n)" and t: "ga_timer g"
  then have l: "live (g\<lparr>ga_timer := False\<rparr>)" "gate_total (g\<lparr>ga_timer := False\<rparr>) = n"
    by (auto simp: gate_inv_def split: if_splits)
  show ?thesis unfolding onFailOpenTimer_def
    by (rule gate_inv_live) (use failOpen_props [OF l(1)] l(2) max_pos in simp_all)
qed

lemma flush_inv: "gate_inv (g, n) \<Longrightarrow> gate_inv (flush g, n)"
proof (cases "ga_disposed g")
  case False
  assume "gate_inv (g, n)"
  then have l: "live g" "gate_total g = n" using False by (auto simp: gate_inv_def)
  show ?thesis by (rule gate_inv_live) (use flush_props [OF l(1)] l(2) max_pos in simp_all)
qed (simp add: flush_def)

lemma snapshot_inv: "gate_inv (g, n) \<Longrightarrow> gate_inv (snd (gateSnapshot g), n)"
  by (auto simp: gateSnapshot_def Let_def gate_inv_def updateHeldBytes_def split: if_splits)

lemma gate_step_inv: "gate_inv s \<Longrightarrow> gate_step s t \<Longrightarrow> gate_inv t"
proof (erule gate_step.cases, goal_cases)
  case (1 c g n pr)
  then show ?case
    using enqueue_inv [of g n c pr] by (cases "accepted g c") (auto simp: gateEnqueue_def accepted_def)
qed (simp_all add: timer_inv flush_inv dispose_inv snapshot_inv)

definition gate_start :: "gate \<times> nat \<Rightarrow> bool" where
  "gate_start s \<longleftrightarrow> (\<exists>m. s = (initGate m, 0))"

interpretation dgate: invariant_system gate_start gate_step gate_inv
proof
  show "gate_start s \<Longrightarrow> gate_inv s" for s
    by (auto simp: gate_start_def gate_inv_def initGate_def live_def gate_total_def released_def getHeldBytes_def
        text_ok_def max_pos)
qed (rule gate_step_inv)

section \<open>What the classifier lets through\<close>

text \<open>Code units a droppable frame may contain: printable text, the two forms of the control
  sequence introducer, carriage return, tab and backspace.\<close>

definition visual_unit :: "nat \<Rightarrow> bool" where
  "visual_unit c \<longleftrightarrow> (0x20 \<le> c \<and> c \<noteq> 0x7f \<and> \<not> (0x80 \<le> c \<and> c \<le> 0x9f)) \<or> c \<in> {0x1b, 0x9b, 0x0d, 0x09, 0x08}"

lemma parseCsiScan_split:
  "parseCsiScan i cs p q = Some (c, rest) \<Longrightarrow>
   \<exists>mid. cs = mid @ rest \<and> csi_raw c = i @ csi_params c @ csi_intermediates c @ [csi_final c]
     \<and> p @ q @ mid = csi_params c @ csi_intermediates c @ [csi_final c]
     \<and> (\<forall>x \<in> set mid. 0x20 \<le> x \<and> x \<le> 0x7e)"
proof (induction i cs p q rule: parseCsiScan.induct)
  case (2 i d cs p q)
  consider "0x30 \<le> d \<and> d \<le> 0x3f \<and> q = []" | "\<not> (0x30 \<le> d \<and> d \<le> 0x3f \<and> q = [])" "0x20 \<le> d \<and> d \<le> 0x2f"
    | "\<not> (0x30 \<le> d \<and> d \<le> 0x3f \<and> q = [])" "\<not> (0x20 \<le> d \<and> d \<le> 0x2f)" by blast
  then show ?case
  proof cases
    case 1
    with "2.IH"(1) "2.prems" obtain mid where m: "cs = mid @ rest" "\<forall>x \<in> set mid. 0x20 \<le> x \<and> x \<le> 0x7e"
      "csi_raw c = i @ csi_params c @ csi_intermediates c @ [csi_final c]"
      "(p @ [d]) @ q @ mid = csi_params c @ csi_intermediates c @ [csi_final c]" by auto
    with 1 show ?thesis by (intro exI [of _ "d # mid"]) auto
  next
    case two: 2
    with "2.IH"(2) "2.prems" obtain mid where m: "cs = mid @ rest" "\<forall>x \<in> set mid. 0x20 \<le> x \<and> x \<le> 0x7e"
      "csi_raw c = i @ csi_params c @ csi_intermediates c @ [csi_final c]"
      "p @ (q @ [d]) @ mid = csi_params c @ csi_intermediates c @ [csi_final c]" by auto
    with two show ?thesis by (intro exI [of _ "d # mid"]) auto
  next
    case 3
    with "2.prems" show ?thesis by (auto split: if_splits)
  qed
qed simp

definition csi_start :: "nat \<Rightarrow> js_text \<Rightarrow> bool" where
  "csi_start c cs \<longleftrightarrow> c = 0x9b \<or> (c = 0x1b \<and> cs \<noteq> [] \<and> [hd cs] = js ''['')"

lemma parseCsi_split:
  assumes "csi_start c cs" and "parseCsi (c # cs) = Some (k, rest)"
  shows "c # cs = csi_raw k @ rest" and "\<forall>x \<in> set (csi_raw k). visual_unit x"
    and "\<exists>i. csi_raw k = i @ csi_params k @ csi_intermediates k @ [csi_final k]"
proof -
  let ?n = "if c = 0x9b then 1 else 2 :: nat"
  have p: "parseCsiScan (take ?n (c # cs)) (drop ?n (c # cs)) [] [] = Some (k, rest)"
    using assms(2) by (simp add: parseCsi_def Let_def split: if_splits)
  from parseCsiScan_split [OF p] obtain mid where m: "drop ?n (c # cs) = mid @ rest"
    "csi_raw k = take ?n (c # cs) @ mid" "\<forall>x \<in> set mid. 0x20 \<le> x \<and> x \<le> 0x7e"
    "csi_raw k = take ?n (c # cs) @ csi_params k @ csi_intermediates k @ [csi_final k]" by auto
  from m(1,2) show "c # cs = csi_raw k @ rest" by (metis append.assoc append_take_drop_id)
  from m(4) show "\<exists>i. csi_raw k = i @ csi_params k @ csi_intermediates k @ [csi_final k]" by blast
  have "\<forall>x \<in> set (take ?n (c # cs)). visual_unit x"
    using assms(1) by (cases cs) (auto simp: csi_start_def visual_unit_def js_def)
  with m(2,3) show "\<forall>x \<in> set (csi_raw k). visual_unit x" by (fastforce simp: visual_unit_def)
qed

text \<open>The cases in which the scan goes on.\<close>

lemma classifyScan_continue:
  assumes "classifyScan (c # cs) b f = ReplaceableVisual b' pf"
  obtains k rest where "csi_start c cs" "parseCsi (c # cs) = Some (k, rest)" "classifyCsi k = Allowed"
      "classifyScan rest b (noteCsi k f) = ReplaceableVisual b' pf"
    | "c \<in> {0x0d, 0x09, 0x08}" "classifyScan cs b f = ReplaceableVisual b' pf"
    | n where "0x20 \<le> c \<and> c \<noteq> 0x7f \<and> \<not> (0x80 \<le> c \<and> c \<le> 0x9f)" "n = charLength (codePointAt0 (c # cs))"
      "classifyScan (drop n (c # cs)) b (f\<lparr>sf_printable := True\<rparr>) = ReplaceableVisual b' pf"
  using assms
  by (auto simp: classifyScan.simps(2) [of c cs b f] csi_start_def [symmetric] classifyEscape_def Let_def
      split: if_splits option.splits csi_verdict.splits)

lemma printable_step:
  assumes "0x20 \<le> c \<and> c \<noteq> 0x7f \<and> \<not> (0x80 \<le> c \<and> c \<le> 0x9f)" and "units_ok (c # cs)"
    and n_def: "n = charLength (codePointAt0 (c # cs))"
  shows "\<forall>x \<in> set (take n (c # cs)). visual_unit x" and "1 \<le> n"
proof -
  show "1 \<le> n" using charLength_bounds by (simp add: n_def)
  show "\<forall>x \<in> set (take n (c # cs)). visual_unit x"
  proof (cases "\<exists>d ds. cs = d # ds \<and> is_high c \<and> is_low d")
    case True
    then obtain d ds where d: "cs = d # ds" "is_high c" "is_low d" by blast
    then have "visual_unit d" by (simp add: is_low_def visual_unit_def)
    with d(1) assms(1) show ?thesis
      by (auto simp: charLength_def n_def visual_unit_def take_Cons' split: if_splits)
  next
    case False
    then have "codePointAt0 (c # cs) = c" by (cases cs) auto
    moreover have "c \<le> 0xffff" using assms(2) by (simp add: units_ok_def)
    ultimately show ?thesis using assms(1) by (simp add: n_def charLength_def visual_unit_def)
  qed
qed

lemma units_ok_append: "units_ok (a @ b) \<longleftrightarrow> units_ok a \<and> units_ok b"
  by (auto simp: units_ok_def)

lemma classify_visual:
  "units_ok t \<Longrightarrow> classifyScan t b f = ReplaceableVisual b' pf \<Longrightarrow> \<forall>x \<in> set t. visual_unit x"
proof (induction t arbitrary: f rule: measure_induct_rule [of length])
  case (less t)
  show ?case
  proof (cases t)
    case (Cons c cs)
    from less.prems(2) [unfolded Cons] show ?thesis
    proof (cases rule: classifyScan_continue)
      case (1 k rest)
      note sp = parseCsi_split [OF 1(1,2)]
      have "length rest < length t" using parseCsi_length [OF _ 1(2)] Cons by simp
      moreover have "units_ok rest" using less.prems(1) sp(1) Cons units_ok_append by metis
      ultimately have "\<forall>x \<in> set rest. visual_unit x" using less.IH 1(4) by blast
      with sp(1,2) Cons show ?thesis by (metis Un_iff set_append)
    next
      case 2
      have "units_ok cs" using less.prems(1) Cons by (simp add: units_ok_def)
      then have "\<forall>x \<in> set cs. visual_unit x" using less.IH [of cs] 2(2) Cons by simp
      with 2(1) Cons show ?thesis by (auto simp: visual_unit_def)
    next
      case (3 n)
      have u: "units_ok (c # cs)" using less.prems(1) Cons by simp
      note ps = printable_step [OF 3(1) u 3(2)]
      have "length (drop n (c # cs)) < length t" using ps(2) Cons by simp
      moreover have "units_ok (drop n (c # cs))" using u by (rule units_ok_drop)
      ultimately have "\<forall>x \<in> set (drop n (c # cs)). visual_unit x" using less.IH 3(3) by blast
      with ps(1) Cons show ?thesis by (metis Un_iff append_take_drop_id set_append)
    qed
  qed simp
qed

lemma has_text_right: "has_text s p \<Longrightarrow> has_text (a @ s) p"
  unfolding has_text_iff by (metis append.assoc)

lemma has_text_left: "has_text a p \<Longrightarrow> has_text (a @ s) p"
  unfolding has_text_iff by (metis append.assoc)

lemma has_text_self: "has_text p p"
  unfolding has_text_iff by (metis append.left_neutral append.right_neutral)

lemma allowed_no_intermediates: "classifyCsi k = Allowed \<Longrightarrow> csi_intermediates k = []"
  by (auto simp: classifyCsi_def Let_def split: if_splits)

text \<open>A flag that the scan raises comes with the control sequence that raised it.\<close>

lemma note_reset:
  assumes "sf_resetBeforeEd2 (noteCsi k f)" and "\<not> sf_resetBeforeEd2 f"
  shows "isSgrReset k"
  using assms by (auto simp: noteCsi_def Let_def split: if_splits)

lemma note_ed2:
  assumes "sf_ed2AfterReset (noteCsi k f)" and "\<not> sf_ed2AfterReset f"
  shows "isEd2 k"
  using assms by (auto simp: noteCsi_def Let_def split: if_splits)

lemma csi_raw_text:
  assumes "csi_start c cs" and "parseCsi (c # cs) = Some (k, rest)" and "classifyCsi k = Allowed"
  shows "isSgrReset k \<Longrightarrow> has_text (csi_raw k) (js ''0m'')" and "isEd2 k \<Longrightarrow> has_text (csi_raw k) (js ''2J'')"
proof -
  obtain i where i: "csi_raw k = i @ csi_params k @ [csi_final k]"
    using parseCsi_split(3) [OF assms(1,2)] allowed_no_intermediates [OF assms(3)] by auto
  show "isSgrReset k \<Longrightarrow> has_text (csi_raw k) (js ''0m'')"
    using i has_text_right [OF has_text_self] by (auto simp: isSgrReset_def js_def)
  show "isEd2 k \<Longrightarrow> has_text (csi_raw k) (js ''2J'')"
    using i has_text_right [OF has_text_self] by (auto simp: isEd2_def js_def)
qed

lemma classify_self_contained:
  "classifyScan t b f = ReplaceableVisual b' SelfContainedReplacement \<Longrightarrow>
   (sf_resetBeforeEd2 f \<or> has_text t (js ''0m'')) \<and> (sf_ed2AfterReset f \<or> has_text t (js ''2J''))"
proof (induction t arbitrary: f rule: measure_induct_rule [of length])
  case (less t)
  show ?case
  proof (cases t)
    case Nil
    with less.prems show ?thesis by (simp split: if_splits)
  next
    case (Cons c cs)
    from less.prems [unfolded Cons] show ?thesis
    proof (cases rule: classifyScan_continue)
      case (1 k rest)
      note sp = parseCsi_split [OF 1(1,2)]
      have "length rest < length t" using parseCsi_length [OF _ 1(2)] Cons by simp
      with less.IH 1(4) have IH: "sf_resetBeforeEd2 (noteCsi k f) \<or> has_text rest (js ''0m'')"
        "sf_ed2AfterReset (noteCsi k f) \<or> has_text rest (js ''2J'')" by blast+
      note raw = csi_raw_text [OF 1(1-3)]
      show ?thesis using IH note_reset [of k f] note_ed2 [of k f] raw sp(1) Cons has_text_left has_text_right
        by metis
    next
      case 2
      with less.IH [of cs f] Cons has_text_right [of cs _ "[c]"] show ?thesis by auto
    next
      case (3 n)
      have "1 \<le> n" using 3(2) charLength_bounds by simp
      then have "length (drop n (c # cs)) < length t" using Cons by simp
      from less.IH [OF this 3(3)] have
        "(sf_resetBeforeEd2 f \<or> has_text (drop n (c # cs)) (js ''0m''))
         \<and> (sf_ed2AfterReset f \<or> has_text (drop n (c # cs)) (js ''2J''))" by simp
      then show ?thesis using has_text_right [of "drop n (c # cs)" _ "take n (c # cs)"] Cons
        by (metis append_take_drop_id)
    qed
  qed
qed

section \<open>Transparent modes\<close>

definition idle :: "gate \<Rightarrow> bool" where
  "idle g \<longleftrightarrow> \<not> ga_disposed g \<and> ga_mode g \<noteq> ModeCollapse \<and> ga_pendingPrefix g = []
     \<and> ga_currentFrameData g = [] \<and> ga_heldFrame g = None"

lemma flush_idle: "idle g \<Longrightarrow> ga_effects (flush g) = ga_effects g \<and> idle (flush g)"
  by (simp add: idle_def flush_def Let_def forwardText_def)

lemma enqueue_idle:
  assumes "idle g"
  shows "idle (gateEnqueue pr c g) \<and> ga_effects (gateEnqueue pr c g) =
     ga_effects g @ (if 0 < ck_bytes c \<and> ck_data c \<noteq> [] then [Forward c] else [])"
proof -
  have eff: "idle (effect e h) = idle h" "ga_effects (effect e h) = ga_effects h @ [e]" for e h
    by (simp_all add: idle_def effect_def)
  have "idle (scanShadow pr d g)" for d using assms by (simp add: idle_def scan_shadow_keep)
  moreover have "idle (failOpen g) \<and> ga_effects (failOpen g) = ga_effects g"
    using flush_idle [of "g\<lparr>ga_snap := u\<rparr>" for u] assms by (auto simp: failOpen_def idle_def)
  moreover have "\<not> ga_disposed g" "ga_mode g \<noteq> ModeCollapse" using assms by (simp_all add: idle_def)
  ultimately show ?thesis using assms
    by (cases "ga_mode g") (auto simp: gateEnqueue_def eff scan_shadow_keep)
qed

lemma enqueues_idle:
  "idle g \<Longrightarrow> ga_effects (foldl (\<lambda>g c. gateEnqueue (pr c) c g) g cs) =
     ga_effects g @ map Forward (filter (\<lambda>c. 0 < ck_bytes c \<and> ck_data c \<noteq> []) cs)"
proof (induction cs arbitrary: g)
  case (Cons c cs)
  with enqueue_idle [OF Cons.prems, of "pr c" c] show ?case by auto
qed simp

section \<open>Properties\<close>

text \<open>C3: the frame gate loses no byte: after any sequence of events the bytes forwarded, the
  bytes acknowledged as dropped and the bytes still held add up to the bytes accepted;
  less than 512 KiB is ever held; once disposed, nothing is held and no timer is armed.\<close>

theorem gate_conserves_bytes:
  assumes "gate_step\<^sup>*\<^sup>* (initGate m, 0) (g, n)"
  shows "released g + getHeldBytes g = n \<and> getHeldBytes g < maxHeldFrameBytes
         \<and> (ga_disposed g \<longrightarrow> getHeldBytes g = 0 \<and> \<not> ga_timer g)"
proof -
  have "gate_inv (g, n)" using dgate.reachable_inv [OF _ assms] by (auto simp: gate_start_def)
  then show ?thesis by (auto simp: gate_inv_def gate_total_def max_pos split: if_splits)
qed

definition busy :: pressure where
  "busy g = \<lparr>cc_outputDrainPendingBytes = 0, cc_outputDrainQueueBytes = 100000, cc_frameGateHeldBytes = 0,
     cc_alternateScreen = True, cc_performanceMode = ''normal''\<rparr>"

definition demo_text :: js_text where
  "demo_text = dec2026BeginEsc @ js ''A'' @ dec2026EndEsc @ dec2026BeginEsc @ js ''B''"

definition demo_gate :: gate where
  "demo_gate = gateEnqueue busy (mk_chunk demo_text 26) (initGate ModeCollapse)"

lemmas class_eval = classifyDec2026Frame_def classifyScan.simps(2) parseCsi_def classifyCsi_def noteCsi_def
  isSgrReset_def isEd2_def isHome_def ends_with_def js_def isDeviceReport_def hasPrivateMarker_def
  isAllowedCursorCsi_def isAllowedEraseCsi_def numericParams_def isEmptyOrDigits_def charLength_def Let_def

lemmas gate_eval = gateEnqueue_def initGate_def canCollapseNow_def busy_def processCollapseText_def processLoop.simps
  stepOutsideFrame_def stepInsideFrame_def findNextBoundary_def dec2026Sequences_def nearerBoundary_def
  dec2026BeginEsc_def dec2026EndEsc_def dec2026BeginC1_def dec2026EndC1_def starts_with_def boundaryKind_def
  handleBarrier_def appendCurrentFrame_def maxHeldFrameBytes_def scheduleFailOpenTimer_def
  handleCompleteFrame_def recordClassification_def admitFrame_def updateHeldBytes_def getHeldBytes_def
  alternateScreenThrottleBacklogBytes_def demo_text_def

lemma demo_gate_state:
  "ga_effects demo_gate = []" "ga_currentFrameData demo_gate = dec2026BeginEsc @ js ''B''"
  "ga_timer demo_gate" "ga_pendingPrefix demo_gate = []" "\<not> ga_disposed demo_gate"
  "\<exists>f. ga_heldFrame demo_gate = Some f \<and> fr_data f = dec2026BeginEsc @ js ''A'' @ dec2026EndEsc"
  by (simp_all add: demo_gate_def gate_eval class_eval unit_bytes_def is_high_def)

theorem gate_conserves_bytes_witness: "released demo_gate + getHeldBytes demo_gate = 26"
proof -
  have "text_ok (ck_data (mk_chunk demo_text 26))"
    by (simp add: demo_text_def dec2026BeginEsc_def text_ok_def is_low_def)
  moreover have acc: "accepted (initGate ModeCollapse) (mk_chunk demo_text 26)"
    by (simp add: accepted_def initGate_def demo_text_def dec2026BeginEsc_def)
  ultimately have "gate_step (initGate ModeCollapse, 0) (demo_gate, 26)"
    using gs_enqueue [of "mk_chunk demo_text 26" "initGate ModeCollapse" 0 busy]
    unfolding demo_gate_def by simp
  then have "gate_step\<^sup>*\<^sup>* (initGate ModeCollapse, 0) (demo_gate, 26)" by blast
  from gate_conserves_bytes [OF this] show ?thesis by simp
qed

text \<open>switched off or in shadow mode the gate is transparent: it forwards exactly the
  nonempty chunks it gets, unchanged and in order, and acknowledges nothing.\<close>

theorem gate_transparent:
  assumes "m \<noteq> ModeCollapse"
  shows "ga_effects (foldl (\<lambda>g c. gateEnqueue (pr c) c g) (initGate m) cs)
         = map Forward (filter (\<lambda>c. 0 < ck_bytes c \<and> ck_data c \<noteq> []) cs)"
  using enqueues_idle [of "initGate m"] assms by (simp add: idle_def initGate_def)

theorem gate_transparent_witness:
  "ga_effects (foldl (\<lambda>g c. gateEnqueue busy c g) (initGate ModeShadow) [mk_chunk demo_text 26])
   = [Forward (mk_chunk demo_text 26)]"
  using gate_transparent [of ModeShadow "\<lambda>_. busy" "[mk_chunk demo_text 26]"]
  by (simp add: demo_text_def dec2026BeginEsc_def)

text \<open>a frame the classifier calls droppable contains only printable text, control
  sequence introducers, carriage return, tab and backspace, so no line feed, bell, or
  operating system command is lost with it; and a frame that may replace another one
  resets the attributes and clears the screen.\<close>

theorem droppable_frames_are_visual:
  assumes "units_ok t" and "classifyDec2026Frame t b = ReplaceableVisual b' pf"
  shows "(\<forall>x \<in> set t. visual_unit x)
         \<and> (pf = SelfContainedReplacement \<longrightarrow> has_text t (js ''0m'') \<and> has_text t (js ''2J''))"
  using classify_visual assms classify_self_contained unfolding classifyDec2026Frame_def by fastforce

theorem droppable_frames_are_visual_witness:
  "classifyDec2026Frame (27 # js ''[0m'' @ 27 # js ''[2J'' @ 27 # js ''[Hx'') 12
     = ReplaceableVisual 12 SelfContainedReplacement
   \<and> has_text (27 # js ''[0m'' @ 27 # js ''[2J'' @ 27 # js ''[Hx'') (js ''2J'')"
proof -
  let ?t = "27 # js ''[0m'' @ 27 # js ''[2J'' @ 27 # js ''[Hx''"
  have "units_ok ?t" by (simp add: units_ok_def js_def)
  moreover have "classifyDec2026Frame ?t 12 = ReplaceableVisual 12 SelfContainedReplacement"
    by (simp add: class_eval)
  ultimately show ?thesis using droppable_frames_are_visual [of ?t 12 12 SelfContainedReplacement] by simp
qed

text \<open>the gate can reorder output: with a complete frame held and a second one begun, the
  fail-open timer forwards the second frame's data before the first frame.\<close>

theorem gate_flush_reorders:
  "ga_effects (onFailOpenTimer demo_gate)
     = [Forward (mk_chunk (dec2026BeginEsc @ js ''B'') 9),
        Forward (mk_chunk (dec2026BeginEsc @ js ''A'' @ dec2026EndEsc) 17)]
   \<and> ga_timer demo_gate"
proof -
  have "utf8ByteLength (dec2026BeginEsc @ js ''B'') = 9"
    "utf8ByteLength (dec2026BeginEsc @ js ''A'' @ dec2026EndEsc) = 17"
    by (simp_all add: dec2026BeginEsc_def dec2026EndEsc_def js_def unit_bytes_def is_high_def)
  then show ?thesis using demo_gate_state
    by (auto simp: onFailOpenTimer_def failOpen_def flush_def Let_def forwardText_def effect_def
        dec2026BeginEsc_def)
qed

end
