(* ===== verification/Ack_Coordinator.thy ===== *)
theory Ack_Coordinator
  imports Prelude
begin

text \<open>
  The coordinator of output acknowledgements
  (\<open>components/terminal/outputAckCoordinator.ts\<close>, class \<open>OutputAckCoordinator\<close>). Terminals take
  leases of a session and report written bytes; the coordinator sends them to the backend
  one batch at a time, retries failed batches with exponential back-off, and gives a
  closed lease one last attempt.

  \<open>ack_session\<close> is \<open>SessionAckState\<close>; its lease map is an association list in insertion order.
  The pending promise of \<open>invokeAck\<close> is \<open>se_inFlight\<close>, the pending retry \<open>se_retryTimer\<close> (with its
  delay). \<open>se_acked\<close> and \<open>se_lost\<close> log the bytes whose batch was confirmed and the bytes the code
  gives up. The coordinator holds the registered sessions by id; handles of a session that
  was deleted act on a state without leases, where every operation does nothing. The
  failure callback is not modelled beyond its rate limit.
\<close>

section \<open>Data\<close>

record ack_lease =
  le_generation :: nat
  le_accepting :: bool
  le_disposed :: bool
  le_pendingBytes :: nat
  le_retryAttempt :: nat
  le_finalAttemptAvailable :: bool

record ack_session =
  se_activeLeaseId :: "nat option"
  se_leases :: "(nat \<times> ack_lease) list"
  se_leaseOrder :: "nat list"
  se_inFlight :: "(nat \<times> nat) option"
  se_retryTimer :: "(nat \<times> nat) option"
  se_lastFailureLogAt :: "nat option"
  se_suppressedFailures :: nat
  se_acked :: nat
  se_lost :: nat

record coordinator =
  co_sessions :: "(string \<times> ack_session) list"
  co_nextLeaseId :: nat

record ack_config =
  cf_retryBaseMs :: nat
  cf_retryMaxMs :: nat
  cf_failureLogIntervalMs :: nat

definition defaultConfig :: ack_config where
  "defaultConfig = \<lparr>cf_retryBaseMs = 250, cf_retryMaxMs = 5000, cf_failureLogIntervalMs = 30000\<rparr>"

record ack_snapshot =
  an_leases :: nat
  an_pendingBytes :: nat
  an_inFlight :: nat
  an_retryTimers :: nat

section \<open>Operations\<close>

definition newSession :: ack_session where
  "newSession = \<lparr>se_activeLeaseId = None, se_leases = [], se_leaseOrder = [], se_inFlight = None,
     se_retryTimer = None, se_lastFailureLogAt = None, se_suppressedFailures = 0, se_acked = 0, se_lost = 0\<rparr>"

definition newLease :: "nat \<Rightarrow> ack_lease" where
  "newLease generation = \<lparr>le_generation = generation, le_accepting = True, le_disposed = False,
     le_pendingBytes = 0, le_retryAttempt = 0, le_finalAttemptAvailable = False\<rparr>"

definition setLease :: "nat \<Rightarrow> ack_lease \<Rightarrow> ack_session \<Rightarrow> ack_session" where
  "setLease i l s = s\<lparr>se_leases := AList.update i l (se_leases s)\<rparr>"

definition completedLease :: "ack_session \<Rightarrow> nat \<Rightarrow> bool" where
  "completedLease s i =
     (case map_of (se_leases s) i of None \<Rightarrow> False
      | Some l \<Rightarrow> le_disposed l \<and> le_pendingBytes l = 0
          \<and> map_option fst (se_inFlight s) \<noteq> Some i \<and> map_option fst (se_retryTimer s) \<noteq> Some i)"

definition pruneCompletedLeases :: "ack_session \<Rightarrow> ack_session" where
  "pruneCompletedLeases s =
     s\<lparr>se_leaseOrder := filter (\<lambda>i. map_of (se_leases s) i \<noteq> None \<and> \<not> completedLease s i) (se_leaseOrder s),
       se_leases := filter (\<lambda>(i, _). \<not> (i \<in> set (se_leaseOrder s) \<and> completedLease s i)) (se_leases s)\<rparr>"

text \<open>The loop of \<open>pump\<close>: \<open>True\<close> when a batch was sent and the method returned.\<close>

fun pumpLoop :: "nat list \<Rightarrow> ack_session \<Rightarrow> bool \<times> ack_session" where
  "pumpLoop [] s = (False, s)"
| "pumpLoop (i # is) s =
     (case map_of (se_leases s) i of
        None \<Rightarrow> pumpLoop is s
      | Some l \<Rightarrow>
          if le_pendingBytes l \<le> 0 then pumpLoop is s
          else if le_disposed l \<and> \<not> le_finalAttemptAvailable l
          then pumpLoop is ((setLease i (l\<lparr>le_pendingBytes := 0\<rparr>) s)\<lparr>se_lost := se_lost s + le_pendingBytes l\<rparr>)
          else (True, (setLease i (l\<lparr>le_pendingBytes := 0,
                         le_finalAttemptAvailable := le_finalAttemptAvailable l \<and> \<not> le_disposed l\<rparr>) s)
                       \<lparr>se_inFlight := Some (i, le_pendingBytes l)\<rparr>))"

definition pump :: "ack_session \<Rightarrow> ack_session" where
  "pump s =
     (if se_inFlight s \<noteq> None \<or> se_retryTimer s \<noteq> None then s
      else (let s = pruneCompletedLeases s;
                (sent, s) = pumpLoop (se_leaseOrder s) s
            in if sent then s else pruneCompletedLeases s))"

definition isIdle :: "ack_session \<Rightarrow> bool" where
  "isIdle s = (se_activeLeaseId s = None \<and> length (se_leases s) = 0 \<and> se_inFlight s = None
               \<and> se_retryTimer s = None)"

definition addAck :: "nat \<Rightarrow> nat \<Rightarrow> ack_session \<Rightarrow> ack_session" where
  "addAck i bytes s =
     (if bytes > 2 ^ 53 - 1 \<or> bytes \<le> 0 then s
      else (case map_of (se_leases s) i of None \<Rightarrow> s
            | Some l \<Rightarrow>
                if \<not> le_accepting l \<or> se_activeLeaseId s \<noteq> Some i then s
                else pump (setLease i (l\<lparr>le_pendingBytes := le_pendingBytes l + bytes\<rparr>) s)))"

definition closeLease :: "nat \<Rightarrow> ack_session \<Rightarrow> ack_session" where
  "closeLease i s =
     (case map_of (se_leases s) i of None \<Rightarrow> s
      | Some l \<Rightarrow>
          if le_disposed l then s
          else (let s = setLease i (l\<lparr>le_accepting := False, le_disposed := True,
                                      le_finalAttemptAvailable := True\<rparr>) s;
                    s = (if se_activeLeaseId s = Some i then s\<lparr>se_activeLeaseId := None\<rparr> else s);
                    s = (if map_option fst (se_retryTimer s) = Some i then s\<lparr>se_retryTimer := None\<rparr> else s)
                in pump s))"

definition acquireLease :: "nat \<Rightarrow> nat \<Rightarrow> ack_session \<Rightarrow> ack_session" where
  "acquireLease leaseId generation s =
     (let previous = se_activeLeaseId s;
          s = s\<lparr>se_activeLeaseId := Some leaseId\<rparr>;
          s = setLease leaseId (newLease generation) s;
          s = s\<lparr>se_leaseOrder := se_leaseOrder s @ [leaseId]\<rparr>;
          s = (case previous of None \<Rightarrow> s | Some p \<Rightarrow> closeLease p s)
      in pump s)"

definition completeBatch :: "nat \<Rightarrow> ack_session \<Rightarrow> ack_session" where
  "completeBatch i s =
     (case se_inFlight s of None \<Rightarrow> s
      | Some (j, b) \<Rightarrow>
          if j \<noteq> i then s
          else (let s = s\<lparr>se_inFlight := None, se_acked := se_acked s + b\<rparr>
                in case map_of (se_leases s) i of
                     None \<Rightarrow> pump s
                   | Some l \<Rightarrow> pump (setLease i (l\<lparr>le_retryAttempt := 0\<rparr>) s)))"

definition logFailure :: "ack_config \<Rightarrow> nat \<Rightarrow> ack_session \<Rightarrow> ack_session" where
  "logFailure cf now s =
     (case se_lastFailureLogAt s of
        Some t \<Rightarrow> if int now - int t < int (cf_failureLogIntervalMs cf)
                  then s\<lparr>se_suppressedFailures := se_suppressedFailures s + 1\<rparr>
                  else s\<lparr>se_suppressedFailures := 0, se_lastFailureLogAt := Some now\<rparr>
      | None \<Rightarrow> s\<lparr>se_suppressedFailures := 0, se_lastFailureLogAt := Some now\<rparr>)"

definition retryDelayMs :: "ack_config \<Rightarrow> nat \<Rightarrow> nat" where
  "retryDelayMs cf attempt = min (cf_retryMaxMs cf) (cf_retryBaseMs cf * 2 ^ min (attempt - 1) 30)"

definition failBatch :: "ack_config \<Rightarrow> nat \<Rightarrow> nat \<Rightarrow> nat \<Rightarrow> ack_session \<Rightarrow> ack_session" where
  "failBatch cf now i bytes s =
     (if map_option fst (se_inFlight s) \<noteq> Some i then s
      else (let s = s\<lparr>se_inFlight := None\<rparr>
            in case map_of (se_leases s) i of
                 None \<Rightarrow> pump (s\<lparr>se_lost := se_lost s + bytes\<rparr>)
               | Some l \<Rightarrow>
                   (let l = l\<lparr>le_pendingBytes := le_pendingBytes l + bytes\<rparr>
                    in if le_disposed l
                       then (if le_finalAttemptAvailable l
                             then pump (logFailure cf now (setLease i l s))
                             else pump (logFailure cf now
                                    ((setLease i (l\<lparr>le_pendingBytes := 0\<rparr>) s)
                                      \<lparr>se_lost := se_lost s + le_pendingBytes l\<rparr>)))
                       else (let l = l\<lparr>le_retryAttempt := le_retryAttempt l + 1\<rparr>
                             in (logFailure cf now (setLease i l s))
                                  \<lparr>se_retryTimer := Some (i, retryDelayMs cf (le_retryAttempt l))\<rparr>))))"

definition onRetryTimer :: "nat \<Rightarrow> ack_session \<Rightarrow> ack_session" where
  "onRetryTimer i s =
     (if map_option fst (se_retryTimer s) \<noteq> Some i then s else pump (s\<lparr>se_retryTimer := None\<rparr>))"

section \<open>The coordinator\<close>

definition getOrCreateSession :: "string \<Rightarrow> coordinator \<Rightarrow> ack_session" where
  "getOrCreateSession sid co = (case map_of (co_sessions co) sid of Some s \<Rightarrow> s | None \<Rightarrow> newSession)"

text \<open>Writing a session back: \<open>deleteSessionIfIdle\<close> unregisters it when nothing is left.\<close>

definition putSession :: "string \<Rightarrow> ack_session \<Rightarrow> coordinator \<Rightarrow> coordinator" where
  "putSession sid s co =
     co\<lparr>co_sessions := if isIdle s then AList.delete sid (co_sessions co)
                       else AList.update sid s (co_sessions co)\<rparr>"

definition acquire :: "string \<Rightarrow> nat \<Rightarrow> coordinator \<Rightarrow> nat \<times> coordinator" where
  "acquire sid generation co =
     (let leaseId = co_nextLeaseId co
      in (leaseId, putSession sid (acquireLease leaseId generation (getOrCreateSession sid co))
                     (co\<lparr>co_nextLeaseId := leaseId + 1\<rparr>)))"

definition onSession :: "string \<Rightarrow> (ack_session \<Rightarrow> ack_session) \<Rightarrow> coordinator \<Rightarrow> coordinator" where
  "onSession sid f co =
     (case map_of (co_sessions co) sid of None \<Rightarrow> co | Some s \<Rightarrow> putSession sid (f s) co)"

definition pendingTotal :: "ack_session \<Rightarrow> nat" where
  "pendingTotal s = sum_list (map (\<lambda>(_, l). le_pendingBytes l) (se_leases s))"

definition ackSnapshot :: "string \<Rightarrow> coordinator \<Rightarrow> ack_snapshot" where
  "ackSnapshot sid co =
     (case map_of (co_sessions co) sid of
        None \<Rightarrow> \<lparr>an_leases = 0, an_pendingBytes = 0, an_inFlight = 0, an_retryTimers = 0\<rparr>
      | Some s \<Rightarrow> \<lparr>an_leases = length (se_leases s), an_pendingBytes = pendingTotal s,
                   an_inFlight = (if se_inFlight s = None then 0 else 1),
                   an_retryTimers = (if se_retryTimer s = None then 0 else 1)\<rparr>)"

section \<open>Lease maps\<close>

definition lease :: "ack_session \<Rightarrow> nat \<Rightarrow> ack_lease option" where
  "lease s i = map_of (se_leases s) i"

definition keys_ok :: "ack_session \<Rightarrow> bool" where
  "keys_ok s \<longleftrightarrow> distinct (map fst (se_leases s)) \<and> distinct (se_leaseOrder s)
     \<and> set (se_leaseOrder s) = dom (lease s)"

lemma setLease_fields [simp]:
  "se_activeLeaseId (setLease i l s) = se_activeLeaseId s" "se_leaseOrder (setLease i l s) = se_leaseOrder s"
  "se_inFlight (setLease i l s) = se_inFlight s" "se_retryTimer (setLease i l s) = se_retryTimer s"
  "se_acked (setLease i l s) = se_acked s" "se_lost (setLease i l s) = se_lost s"
  by (simp_all add: setLease_def)

lemma lease_setLease [simp]: "lease (setLease i l s) = (lease s)(i \<mapsto> l)"
  by (rule ext) (simp add: lease_def setLease_def update_conv')

lemma lease_update [simp]:
  "lease (se_activeLeaseId_update u1 s) = lease s" "lease (se_inFlight_update u2 s) = lease s"
  "lease (se_retryTimer_update u3 s) = lease s" "lease (se_leaseOrder_update u4 s) = lease s"
  "lease (se_acked_update u5 s) = lease s" "lease (se_lost_update u6 s) = lease s"
  "lease (se_lastFailureLogAt_update u7 s) = lease s" "lease (se_suppressedFailures_update u8 s) = lease s"
  by (simp_all add: lease_def fun_eq_iff)

lemma pending_update [simp]:
  "pendingTotal (se_activeLeaseId_update u1 s) = pendingTotal s" "pendingTotal (se_inFlight_update u2 s) = pendingTotal s"
  "pendingTotal (se_retryTimer_update u3 s) = pendingTotal s" "pendingTotal (se_leaseOrder_update u4 s) = pendingTotal s"
  "pendingTotal (se_acked_update u5 s) = pendingTotal s" "pendingTotal (se_lost_update u6 s) = pendingTotal s"
  "pendingTotal (se_lastFailureLogAt_update u7 s) = pendingTotal s"
  "pendingTotal (se_suppressedFailures_update u8 s) = pendingTotal s"
  by (simp_all add: pendingTotal_def)

lemma logFailure_fields [simp]:
  "lease (logFailure cf now s) = lease s" "pendingTotal (logFailure cf now s) = pendingTotal s"
  "se_activeLeaseId (logFailure cf now s) = se_activeLeaseId s" "se_leaseOrder (logFailure cf now s) = se_leaseOrder s"
  "se_inFlight (logFailure cf now s) = se_inFlight s" "se_retryTimer (logFailure cf now s) = se_retryTimer s"
  "se_acked (logFailure cf now s) = se_acked s" "se_lost (logFailure cf now s) = se_lost s"
  "se_leases (logFailure cf now s) = se_leases s"
  by (auto simp: logFailure_def split: option.split)

lemma sum_update_old:
  "distinct (map fst xs) \<Longrightarrow> map_of xs i = Some l \<Longrightarrow>
   sum_list (map (\<lambda>(_, l). f l) (AList.update i l' xs)) + f l = sum_list (map (\<lambda>(_, l). f l) xs) + (f l' :: nat)"
  by (induction xs) (auto split: if_splits)

lemma update_new: "i \<notin> set (map fst xs) \<Longrightarrow> AList.update i l xs = xs @ [(i, l)]"
  by (induction xs) auto

lemma pending_setLease:
  assumes "keys_ok s"
  shows "lease s i = Some l \<Longrightarrow>
           pendingTotal (setLease i l' s) + le_pendingBytes l = pendingTotal s + le_pendingBytes l'"
    and "lease s i = None \<Longrightarrow> pendingTotal (setLease i l' s) = pendingTotal s + le_pendingBytes l'"
proof -
  show "lease s i = Some l \<Longrightarrow>
          pendingTotal (setLease i l' s) + le_pendingBytes l = pendingTotal s + le_pendingBytes l'"
    using sum_update_old [of "se_leases s" i l le_pendingBytes l'] assms
    by (simp add: pendingTotal_def setLease_def lease_def keys_ok_def)
  assume "lease s i = None"
  then have "i \<notin> set (map fst (se_leases s))" by (simp add: lease_def map_of_eq_None_iff)
  then show "pendingTotal (setLease i l' s) = pendingTotal s + le_pendingBytes l'"
    by (simp add: pendingTotal_def setLease_def update_new)
qed

lemma keys_setLease:
  "keys_ok s \<Longrightarrow> lease s i \<noteq> None \<Longrightarrow> keys_ok (setLease i l s)"
  by (auto simp: keys_ok_def) (simp add: setLease_def distinct_update)

lemma keys_update [simp]:
  "keys_ok (se_activeLeaseId_update u1 s) = keys_ok s" "keys_ok (se_inFlight_update u2 s) = keys_ok s"
  "keys_ok (se_retryTimer_update u3 s) = keys_ok s" "keys_ok (se_acked_update u5 s) = keys_ok s"
  "keys_ok (se_lost_update u6 s) = keys_ok s" "keys_ok (logFailure cf now s) = keys_ok s"
  by (simp_all add: keys_ok_def)

section \<open>The invariant\<close>

definition inFlightBytes :: "ack_session \<Rightarrow> nat" where
  "inFlightBytes s = (case se_inFlight s of None \<Rightarrow> 0 | Some (_, b) \<Rightarrow> b)"

definition accounted :: "ack_session \<Rightarrow> nat" where
  "accounted s = pendingTotal s + inFlightBytes s + se_acked s + se_lost s"

definition leases_ok :: "ack_session \<Rightarrow> bool" where
  "leases_ok s \<longleftrightarrow> (\<forall>i l. lease s i = Some l \<longrightarrow>
     (le_disposed l \<longrightarrow> \<not> le_accepting l \<and> se_activeLeaseId s \<noteq> Some i)
     \<and> (le_disposed l \<and> \<not> le_finalAttemptAvailable l \<longrightarrow> le_pendingBytes l = 0))"

definition waits_ok :: "ack_session \<Rightarrow> bool" where
  "waits_ok s \<longleftrightarrow>
     (\<forall>i b. se_inFlight s = Some (i, b) \<longrightarrow> lease s i \<noteq> None \<and> 0 < b \<and> se_retryTimer s = None)
     \<and> (\<forall>i d. se_retryTimer s = Some (i, d) \<longrightarrow>
          (\<exists>l. lease s i = Some l \<and> \<not> le_disposed l \<and> 0 < le_pendingBytes l))"

definition settled :: "ack_session \<Rightarrow> bool" where
  "settled s \<longleftrightarrow> (se_inFlight s = None \<and> se_retryTimer s = None \<longrightarrow>
     (\<forall>i l. lease s i = Some l \<longrightarrow> le_pendingBytes l = 0 \<and> \<not> le_disposed l))"

definition weak_inv :: "ack_session \<Rightarrow> bool" where
  "weak_inv s \<longleftrightarrow> keys_ok s \<and> leases_ok s \<and> waits_ok s"

text \<open>Sending the batch of a lease.\<close>

definition sendBatch :: "nat \<Rightarrow> ack_lease \<Rightarrow> ack_session \<Rightarrow> ack_session" where
  "sendBatch i l s = (setLease i (l\<lparr>le_pendingBytes := 0,
       le_finalAttemptAvailable := le_finalAttemptAvailable l \<and> \<not> le_disposed l\<rparr>) s)
     \<lparr>se_inFlight := Some (i, le_pendingBytes l)\<rparr>"

definition hasPending :: "ack_session \<Rightarrow> nat \<Rightarrow> bool" where
  "hasPending s i \<longleftrightarrow> (case lease s i of None \<Rightarrow> False | Some l \<Rightarrow> 0 < le_pendingBytes l)"

lemma pumpLoop_find:
  "leases_ok s \<Longrightarrow> pumpLoop is s =
     (case find (hasPending s) is of None \<Rightarrow> (False, s) | Some i \<Rightarrow> (True, sendBatch i (the (lease s i)) s))"
proof (induction "is")
  case (Cons i ix)
  show ?case
  proof (cases "lease s i")
    case None
    with Cons show ?thesis by (simp add: hasPending_def lease_def)
  next
    case (Some l)
    with Cons.prems have "\<not> (le_disposed l \<and> \<not> le_finalAttemptAvailable l) \<or> le_pendingBytes l = 0"
      unfolding leases_ok_def by fastforce
    with Some Cons show ?thesis by (auto simp: hasPending_def lease_def sendBatch_def)
  qed
qed simp

lemma sendBatch_inv:
  assumes w: "weak_inv s" and l: "lease s i = Some l" "0 < le_pendingBytes l"
    and idle: "se_inFlight s = None" "se_retryTimer s = None"
  shows "weak_inv (sendBatch i l s)" and "accounted (sendBatch i l s) = accounted s" and "settled (sendBatch i l s)"
proof -
  let ?l = "l\<lparr>le_pendingBytes := 0, le_finalAttemptAvailable := le_finalAttemptAvailable l \<and> \<not> le_disposed l\<rparr>"
  have k: "keys_ok s" using w by (simp add: weak_inv_def)
  show "weak_inv (sendBatch i l s)" using w l idle keys_setLease [OF k]
    by (auto simp: weak_inv_def sendBatch_def leases_ok_def waits_ok_def)
  have "pendingTotal (setLease i ?l s) + le_pendingBytes l = pendingTotal s"
    using pending_setLease(1) [OF k l(1), of ?l] by simp
  then show "accounted (sendBatch i l s) = accounted s" using idle
    by (simp add: accounted_def sendBatch_def inFlightBytes_def)
  show "settled (sendBatch i l s)" by (simp add: settled_def sendBatch_def)
qed

lemma dom_filter:
  "distinct (map fst xs) \<Longrightarrow> map_of (filter (\<lambda>(i, _). P i) xs) i = (if P i then map_of xs i else None)"
  by (induction xs) (auto simp: map_of_eq_None_iff)

lemma lease_prune:
  assumes "keys_ok s"
  shows "lease (pruneCompletedLeases s) i = (if completedLease s i then None else lease s i)"
proof -
  have "completedLease s i \<Longrightarrow> i \<in> set (se_leaseOrder s)"
    using assms by (auto simp: completedLease_def keys_ok_def lease_def split: option.splits)
  then show ?thesis using assms
    by (auto simp: lease_def pruneCompletedLeases_def dom_filter keys_ok_def)
qed

lemma prune_fields [simp]:
  "se_inFlight (pruneCompletedLeases s) = se_inFlight s" "se_retryTimer (pruneCompletedLeases s) = se_retryTimer s"
  "se_activeLeaseId (pruneCompletedLeases s) = se_activeLeaseId s"
  "se_acked (pruneCompletedLeases s) = se_acked s" "se_lost (pruneCompletedLeases s) = se_lost s"
  by (simp_all add: pruneCompletedLeases_def)

lemma completed_pending: "completedLease s i \<Longrightarrow> lease s i = Some l \<Longrightarrow> le_disposed l \<and> le_pendingBytes l = 0"
  by (simp add: completedLease_def lease_def)

lemma sum_filter_zero:
  "(\<forall>(i, l) \<in> set xs. P i \<or> f l = 0) \<Longrightarrow>
   sum_list (map (\<lambda>(_, l). f l) (filter (\<lambda>(i, _). P i) xs)) = (sum_list (map (\<lambda>(_, l). f l) xs) :: nat)"
  by (induction xs) auto

lemma pending_prune: "keys_ok s \<Longrightarrow> pendingTotal (pruneCompletedLeases s) = pendingTotal s"
proof -
  assume k: "keys_ok s"
  let ?P = "\<lambda>i. \<not> (i \<in> set (se_leaseOrder s) \<and> completedLease s i)"
  have "le_pendingBytes l = 0" if "(i, l) \<in> set (se_leases s)" "completedLease s i" for i l
    using that k completed_pending [of s i l] by (simp add: lease_def keys_ok_def)
  then have "\<forall>(i, l) \<in> set (se_leases s). ?P i \<or> le_pendingBytes l = 0" by auto
  from sum_filter_zero [OF this] show ?thesis by (simp add: pendingTotal_def pruneCompletedLeases_def)
qed

lemma prune_inv:
  assumes w: "weak_inv s"
  shows "weak_inv (pruneCompletedLeases s)" and "accounted (pruneCompletedLeases s) = accounted s"
proof -
  have k: "keys_ok s" using w by (simp add: weak_inv_def)
  note lp = lease_prune [OF k]
  have ko: "keys_ok (pruneCompletedLeases s)"
  proof -
    have "distinct (map fst (filter (\<lambda>(i, _). \<not> (i \<in> set (se_leaseOrder s) \<and> completedLease s i)) (se_leases s)))"
      using k by (simp add: keys_ok_def distinct_map_filter)
    moreover have "set (filter (\<lambda>i. map_of (se_leases s) i \<noteq> None \<and> \<not> completedLease s i) (se_leaseOrder s))
                   = dom (lease (pruneCompletedLeases s))"
      using k by (auto simp: lp dom_def keys_ok_def lease_def [symmetric])
    ultimately show ?thesis using k by (simp add: keys_ok_def pruneCompletedLeases_def)
  qed
  have "leases_ok (pruneCompletedLeases s)"
    using w by (auto simp: weak_inv_def leases_ok_def lp split: if_splits)
  moreover have "se_inFlight s = Some (i, b) \<Longrightarrow> \<not> completedLease s i"
    "se_retryTimer s = Some (i, b) \<Longrightarrow> \<not> completedLease s i" for i b
    by (simp_all add: completedLease_def split: option.split)
  then have "waits_ok (pruneCompletedLeases s)"
    using w by (auto simp: weak_inv_def waits_ok_def lp)
  ultimately show "weak_inv (pruneCompletedLeases s)" using ko by (simp add: weak_inv_def)
  show "accounted (pruneCompletedLeases s) = accounted s"
    by (simp add: accounted_def pending_prune [OF k] inFlightBytes_def)
qed

lemma prune_no_completed:
  assumes "keys_ok s" and "se_inFlight s = None" and "se_retryTimer s = None"
    and "lease (pruneCompletedLeases s) i = Some l" and "le_pendingBytes l = 0"
  shows "\<not> le_disposed l"
proof -
  have "\<not> completedLease s i" "lease s i = Some l"
    using assms(4) by (auto simp: lease_prune [OF assms(1)] split: if_splits)
  with assms(2,3,5) show ?thesis by (simp add: completedLease_def lease_def)
qed

lemma pump_inv:
  assumes w: "weak_inv s"
  shows "weak_inv (pump s) \<and> accounted (pump s) = accounted s \<and> settled (pump s)"
proof (cases "se_inFlight s \<noteq> None \<or> se_retryTimer s \<noteq> None")
  case True
  then have "pump s = s" by (simp add: pump_def)
  with True w show ?thesis by (auto simp: settled_def)
next
  case False
  then have idle: "se_inFlight s = None" "se_retryTimer s = None" by blast+
  define p where "p = pruneCompletedLeases s"
  have p: "weak_inv p" "accounted p = accounted s" "se_inFlight p = None" "se_retryTimer p = None"
    using prune_inv [OF w] idle by (simp_all add: p_def)
  have kp: "keys_ok p" "leases_ok p" "keys_ok s" using p(1) w by (simp_all add: weak_inv_def)
  show ?thesis
  proof (cases "find (hasPending p) (se_leaseOrder p)")
    case (Some i)
    then have "hasPending p i" by (metis find_Some_iff)
    then obtain l where l: "lease p i = Some l" "0 < le_pendingBytes l"
      by (auto simp: hasPending_def split: option.splits)
    have "pump s = sendBatch i l p"
      using idle Some l by (simp add: pump_def Let_def pumpLoop_find [OF kp(2)] flip: p_def)
    then show ?thesis using sendBatch_inv [OF p(1) l p(3,4)] p(2) by simp
  next
    case None
    then have none: "\<not> hasPending p i" if "lease p i \<noteq> None" for i
      using that kp(1) by (auto simp: find_None_iff keys_ok_def)
    have res: "pump s = pruneCompletedLeases p"
      using idle None by (simp add: pump_def Let_def pumpLoop_find [OF kp(2)] flip: p_def)
    have "le_pendingBytes l = 0 \<and> \<not> le_disposed l" if "lease (pump s) i = Some l" for i l
    proof -
      have "lease p i = Some l" using that by (simp add: res lease_prune [OF kp(1)] split: if_splits)
      then have "le_pendingBytes l = 0" using none [of i] by (simp add: hasPending_def)
      with that show ?thesis using prune_no_completed [OF kp(1) p(3,4)] by (simp add: res)
    qed
    then show ?thesis using prune_inv [OF p(1)] p(2) by (simp add: settled_def res)
  qed
qed

section \<open>Every event\<close>

definition acceptsAck :: "nat \<Rightarrow> nat \<Rightarrow> ack_session \<Rightarrow> bool" where
  "acceptsAck i b s \<longleftrightarrow> 0 < b \<and> b \<le> 2 ^ 53 - 1 \<and> se_activeLeaseId s = Some i
     \<and> (\<exists>l. lease s i = Some l \<and> le_accepting l)"

text \<open>Events of one session, with the bytes accepted from its leases. Lease ids come from a
  counter, so a new one is larger than all before.\<close>

inductive ack_step :: "ack_config \<Rightarrow> ack_session \<times> nat \<Rightarrow> ack_session \<times> nat \<Rightarrow> bool" for cf where
  as_acquire: "\<forall>j \<in> set (se_leaseOrder s). j < i \<Longrightarrow> ack_step cf (s, n) (acquireLease i g s, n)"
| as_ack: "ack_step cf (s, n) (addAck i b s, if acceptsAck i b s then n + b else n)"
| as_close: "ack_step cf (s, n) (closeLease i s, n)"
| as_complete: "se_inFlight s = Some (i, b) \<Longrightarrow> ack_step cf (s, n) (completeBatch i s, n)"
| as_fail: "se_inFlight s = Some (i, b) \<Longrightarrow> ack_step cf (s, n) (failBatch cf now i b s, n)"
| as_retry: "se_retryTimer s = Some (i, d) \<Longrightarrow> ack_step cf (s, n) (onRetryTimer i s, n)"

definition session_inv :: "ack_session \<times> nat \<Rightarrow> bool" where
  "session_inv x \<longleftrightarrow> (case x of (s, n) \<Rightarrow> weak_inv s \<and> settled s \<and> accounted s = n)"

lemma pump_session: "weak_inv s \<Longrightarrow> accounted s = n \<Longrightarrow> session_inv (pump s, n)"
  using pump_inv by (simp add: session_inv_def)

lemma weak_close:
  assumes w: "weak_inv s" and l: "lease s i = Some l" "\<not> le_disposed l"
  defines "s1 \<equiv> setLease i (l\<lparr>le_accepting := False, le_disposed := True, le_finalAttemptAvailable := True\<rparr>) s"
  defines "s2 \<equiv> if se_activeLeaseId s1 = Some i then s1\<lparr>se_activeLeaseId := None\<rparr> else s1"
  defines "s3 \<equiv> if map_option fst (se_retryTimer s2) = Some i then s2\<lparr>se_retryTimer := None\<rparr> else s2"
  shows "weak_inv s3" and "accounted s3 = accounted s"
proof -
  have k: "keys_ok s" using w by (simp add: weak_inv_def)
  have k1: "keys_ok s1" unfolding s1_def using k l(1) by (intro keys_setLease) simp_all
  have p1: "pendingTotal s1 = pendingTotal s"
    using pending_setLease(1) [OF k l(1), of "l\<lparr>le_accepting := False, le_disposed := True, le_finalAttemptAvailable := True\<rparr>"]
    by (simp add: s1_def)
  have "keys_ok s3" using k1 by (simp add: s3_def s2_def)
  moreover have "leases_ok s3" using w l
    by (auto simp: weak_inv_def leases_ok_def s3_def s2_def s1_def)
  moreover have "waits_ok s3" using w l
    by (auto simp: weak_inv_def waits_ok_def s3_def s2_def s1_def)
  ultimately show "weak_inv s3" by (simp add: weak_inv_def)
  show "accounted s3 = accounted s" using p1
    by (simp add: accounted_def s3_def s2_def inFlightBytes_def) (simp add: s1_def)
qed

lemma close_inv:
  assumes "weak_inv s"
  shows "weak_inv (closeLease i s) \<and> accounted (closeLease i s) = accounted s"
proof (cases "\<exists>l. lease s i = Some l \<and> \<not> le_disposed l")
  case True
  then obtain l where l: "lease s i = Some l" "\<not> le_disposed l" by blast
  note wc = weak_close [OF assms l]
  show ?thesis using pump_inv [OF wc(1)] wc(2) l by (simp add: closeLease_def lease_def Let_def)
next
  case False
  with assms show ?thesis by (auto simp: closeLease_def lease_def split: option.split)
qed

lemma close_session: "session_inv (s, n) \<Longrightarrow> session_inv (closeLease i s, n)"
proof (cases "\<exists>l. lease s i = Some l \<and> \<not> le_disposed l")
  case True
  assume inv: "session_inv (s, n)"
  obtain l where l: "lease s i = Some l" "\<not> le_disposed l" using True by blast
  have w: "weak_inv s" "accounted s = n" using inv by (simp_all add: session_inv_def)
  note wc = weak_close [OF w(1) l]
  show ?thesis using pump_session [OF wc(1), of n] wc(2) w(2) l by (simp add: closeLease_def lease_def Let_def)
qed (auto simp: closeLease_def lease_def split: option.split)

lemma acquire_session:
  assumes inv: "session_inv (s, n)" and fresh: "\<forall>j \<in> set (se_leaseOrder s). j < i"
  shows "session_inv (acquireLease i g s, n)"
proof -
  have w: "weak_inv s" "accounted s = n" using inv by (simp_all add: session_inv_def)
  have k: "keys_ok s" using w by (simp add: weak_inv_def)
  have new: "lease s i = None" "i \<notin> set (se_leaseOrder s)" using fresh k by (auto simp: keys_ok_def dom_def)
  define s1 where "s1 = (setLease i (newLease g) (s\<lparr>se_activeLeaseId := Some i\<rparr>))
      \<lparr>se_leaseOrder := se_leaseOrder s @ [i]\<rparr>"
  have "distinct (map fst (se_leases s1))" using k
    by (simp add: s1_def setLease_def keys_ok_def distinct_update)
  then have "keys_ok s1" using k new by (auto simp: keys_ok_def s1_def)
  moreover have "leases_ok s1" using w(1) by (auto simp: weak_inv_def leases_ok_def s1_def newLease_def)
  moreover have "waits_ok s1" using w(1) new by (auto simp: weak_inv_def waits_ok_def s1_def)
  ultimately have w1: "weak_inv s1" by (simp add: weak_inv_def)
  have "accounted s1 = accounted s"
    using pending_setLease(2) [of "s\<lparr>se_activeLeaseId := Some i\<rparr>" i "newLease g"] k new
    by (simp add: accounted_def s1_def inFlightBytes_def newLease_def)
  with w1 w(2) show ?thesis
    using close_inv [OF w1] pump_session
    by (auto simp: acquireLease_def Let_def s1_def split: option.split)
qed

lemma ack_session_inv:
  assumes inv: "session_inv (s, n)"
  shows "session_inv (addAck i b s, if acceptsAck i b s then n + b else n)"
proof (cases "acceptsAck i b s")
  case True
  then obtain l where l: "lease s i = Some l" "le_accepting l" by (auto simp: acceptsAck_def)
  have w: "weak_inv s" "accounted s = n" using inv by (simp_all add: session_inv_def)
  have k: "keys_ok s" using w by (simp add: weak_inv_def)
  let ?l = "l\<lparr>le_pendingBytes := le_pendingBytes l + b\<rparr>"
  have nd: "\<not> le_disposed l" using w(1) l unfolding weak_inv_def leases_ok_def by blast
  have "weak_inv (setLease i ?l s)" using w(1) l nd keys_setLease [OF k]
    by (auto simp: weak_inv_def leases_ok_def waits_ok_def)
  moreover have "accounted (setLease i ?l s) = n + b"
    using pending_setLease(1) [OF k l(1), of ?l] w(2) by (simp add: accounted_def inFlightBytes_def)
  ultimately have "session_inv (pump (setLease i ?l s), n + b)" by (rule pump_session)
  with True l show ?thesis by (auto simp: addAck_def acceptsAck_def lease_def)
next
  case False
  have "addAck i b s = s"
    using False by (auto simp: addAck_def acceptsAck_def lease_def split: option.split)
  with False inv show ?thesis by simp
qed

lemma complete_session:
  assumes inv: "session_inv (s, n)" and fl: "se_inFlight s = Some (i, b)"
  shows "session_inv (completeBatch i s, n)"
proof -
  have w: "weak_inv s" "accounted s = n" using inv by (simp_all add: session_inv_def)
  have k: "keys_ok s" using w by (simp add: weak_inv_def)
  obtain l where l: "lease s i = Some l" using w fl by (auto simp: weak_inv_def waits_ok_def)
  let ?s = "s\<lparr>se_inFlight := None, se_acked := se_acked s + b\<rparr>" and ?l = "l\<lparr>le_retryAttempt := 0\<rparr>"
  have rt: "se_retryTimer s = None" using w fl by (auto simp: weak_inv_def waits_ok_def)
  have "weak_inv (setLease i ?l ?s)" using w(1) l rt keys_setLease [of ?s i ?l] k
    by (auto simp: weak_inv_def leases_ok_def waits_ok_def)
  moreover have "accounted (setLease i ?l ?s) = n"
    using pending_setLease(1) [of ?s i l ?l] l k w(2) fl by (simp add: accounted_def inFlightBytes_def)
  ultimately have "session_inv (pump (setLease i ?l ?s), n)" by (rule pump_session)
  with fl l show ?thesis by (simp add: completeBatch_def lease_def)
qed

lemma retry_session:
  assumes inv: "session_inv (s, n)" and rt: "se_retryTimer s = Some (i, d)"
  shows "session_inv (onRetryTimer i s, n)"
proof -
  have w: "weak_inv s" "accounted s = n" using inv by (simp_all add: session_inv_def)
  have "weak_inv (s\<lparr>se_retryTimer := None\<rparr>)" using w(1)
    by (auto simp: weak_inv_def leases_ok_def waits_ok_def)
  moreover have "accounted (s\<lparr>se_retryTimer := None\<rparr>) = n"
    using w(2) by (simp add: accounted_def inFlightBytes_def)
  ultimately have "session_inv (pump (s\<lparr>se_retryTimer := None\<rparr>), n)" by (rule pump_session)
  with rt show ?thesis by (simp add: onRetryTimer_def)
qed

text \<open>A failed batch goes back to its lease; one of a closed lease without a further attempt
  is given up.\<close>

lemma fail_session:
  assumes inv: "session_inv (s, n)" and fl: "se_inFlight s = Some (i, b)"
  shows "session_inv (failBatch cf now i b s, n)"
proof -
  have w: "weak_inv s" "accounted s = n" using inv by (simp_all add: session_inv_def)
  have k: "keys_ok s" using w by (simp add: weak_inv_def)
  obtain l where l: "lease s i = Some l" and b: "0 < b" and rt: "se_retryTimer s = None"
    using w fl by (auto simp: weak_inv_def waits_ok_def)
  let ?s = "s\<lparr>se_inFlight := None\<rparr>" and ?l = "l\<lparr>le_pendingBytes := le_pendingBytes l + b\<rparr>"
  have ks: "keys_ok ?s" "lease ?s i = Some l" using k l by simp_all
  note pt = pending_setLease(1) [OF ks]
  consider (final) "le_disposed l" "le_finalAttemptAvailable l" | (give_up) "le_disposed l" "\<not> le_finalAttemptAvailable l"
    | (retry) "\<not> le_disposed l" by blast
  then show ?thesis
  proof cases
    case final
    let ?t = "logFailure cf now (setLease i ?l ?s)"
    have "weak_inv ?t" using w(1) l rt final keys_setLease [of ?s i ?l] ks
      by (auto simp: weak_inv_def leases_ok_def waits_ok_def)
    moreover have "accounted ?t = n" using pt [of ?l] w(2) fl by (simp add: accounted_def inFlightBytes_def)
    ultimately have "session_inv (pump ?t, n)" by (rule pump_session)
    with fl l final show ?thesis by (simp add: failBatch_def lease_def Let_def)
  next
    case give_up
    let ?m = "?l\<lparr>le_pendingBytes := 0\<rparr>"
    let ?t = "logFailure cf now ((setLease i ?m ?s)\<lparr>se_lost := se_lost s + le_pendingBytes ?l\<rparr>)"
    have "weak_inv ?t" using w(1) l rt keys_setLease [of ?s i ?m] ks
      by (auto simp: weak_inv_def leases_ok_def waits_ok_def)
    moreover have "accounted ?t = n" using pt [of ?m] w(2) fl by (simp add: accounted_def inFlightBytes_def)
    ultimately have "session_inv (pump ?t, n)" by (rule pump_session)
    with fl l give_up show ?thesis by (simp add: failBatch_def lease_def Let_def)
  next
    case retry
    let ?m = "?l\<lparr>le_retryAttempt := le_retryAttempt l + 1\<rparr>"
    let ?t = "(logFailure cf now (setLease i ?m ?s))\<lparr>se_retryTimer := Some (i, retryDelayMs cf (le_retryAttempt l + 1))\<rparr>"
    have "weak_inv ?t" using w(1) l b retry keys_setLease [of ?s i ?m] ks
      by (auto simp: weak_inv_def leases_ok_def waits_ok_def)
    moreover have "accounted ?t = n" using pt [of ?m] w(2) fl by (simp add: accounted_def inFlightBytes_def)
    moreover have "settled ?t" by (simp add: settled_def)
    ultimately have "session_inv (?t, n)" by (simp add: session_inv_def)
    with fl l retry show ?thesis by (simp add: failBatch_def lease_def Let_def)
  qed
qed

lemma ack_step_inv: "session_inv x \<Longrightarrow> ack_step cf x y \<Longrightarrow> session_inv y"
  by (erule ack_step.cases; hypsubst;
      (erule (1) acquire_session | erule ack_session_inv | erule close_session | erule (1) complete_session
       | erule (1) fail_session | erule (1) retry_session))

definition session_start :: "ack_session \<times> nat \<Rightarrow> bool" where
  "session_start x \<longleftrightarrow> x = (newSession, 0)"

interpretation dack: invariant_system session_start "ack_step cf" session_inv for cf
proof
  show "session_start x \<Longrightarrow> session_inv x" for x
    by (simp add: session_start_def session_inv_def newSession_def weak_inv_def keys_ok_def leases_ok_def
        waits_ok_def settled_def accounted_def pendingTotal_def inFlightBytes_def lease_def dom_def)
qed (rule ack_step_inv)

section \<open>Properties\<close>

text \<open>C5: acknowledgements are neither lost nor duplicated by batching, retrying and switching
  leases: in every run the bytes accepted from the leases of a session are the bytes
  confirmed by the backend, plus the bytes in flight, plus the bytes pending in leases, plus
  the bytes given up.\<close>

theorem acks_conserved:
  assumes "(ack_step cf)\<^sup>*\<^sup>* (newSession, 0) (s, n)"
  shows "se_acked s + inFlightBytes s + pendingTotal s + se_lost s = n"
  using dack.reachable_inv [OF _ assms] by (simp add: session_start_def session_inv_def accounted_def)

definition demo_session :: ack_session where
  "demo_session = addAck 1 7 (acquireLease 1 0 newSession)"

lemma demo_session_run: "(ack_step cf)\<^sup>*\<^sup>* (newSession, 0) (demo_session, 7)"
proof -
  have "ack_step cf (newSession, 0) (acquireLease 1 0 newSession, 0)"
    by (rule as_acquire) (simp add: newSession_def)
  moreover have "acceptsAck 1 7 (acquireLease 1 0 newSession)"
    by (simp add: acceptsAck_def acquireLease_def newSession_def setLease_def newLease_def lease_def pump_def
        pruneCompletedLeases_def completedLease_def Let_def)
  then have "ack_step cf (acquireLease 1 0 newSession, 0) (demo_session, 7)"
    using as_ack [of cf "acquireLease 1 0 newSession" 0 1 7] by (simp add: demo_session_def)
  ultimately show ?thesis by (meson converse_rtranclp_into_rtranclp rtranclp.rtrancl_refl)
qed

theorem acks_conserved_witness:
  "se_acked demo_session + inFlightBytes demo_session + pendingTotal demo_session + se_lost demo_session = 7"
  by (rule acks_conserved [OF demo_session_run [of defaultConfig]])

text \<open>C9: no acknowledgement waits without a cause: when a lease has pending bytes, or a closed
  lease is still registered, then a batch is in flight or a retry timer is set; a retry
  timer never coexists with a batch in flight and belongs to an open lease with pending
  bytes.\<close>

theorem acks_never_stuck:
  assumes "(ack_step cf)\<^sup>*\<^sup>* (newSession, 0) (s, n)" and "lease s i = Some l"
    and "0 < le_pendingBytes l \<or> le_disposed l"
  shows "(se_inFlight s \<noteq> None) \<noteq> (se_retryTimer s \<noteq> None)
         \<and> (\<forall>j d. se_retryTimer s = Some (j, d) \<longrightarrow>
              (\<exists>m. lease s j = Some m \<and> \<not> le_disposed m \<and> 0 < le_pendingBytes m))"
proof -
  have inv: "weak_inv s" "settled s"
    using dack.reachable_inv [OF _ assms(1)] by (auto simp: session_start_def session_inv_def)
  then have "se_inFlight s \<noteq> None \<or> se_retryTimer s \<noteq> None" using assms(2,3) by (auto simp: settled_def)
  moreover have "se_inFlight s \<noteq> None \<Longrightarrow> se_retryTimer s = None"
    using inv(1) by (auto simp: weak_inv_def waits_ok_def)
  ultimately show ?thesis using inv(1) by (auto simp: weak_inv_def waits_ok_def)
qed

definition demo_retry :: ack_session where
  "demo_retry = failBatch defaultConfig 0 1 7 demo_session"

lemma demo_session_state: "se_inFlight demo_session = Some (1, 7)" "se_retryTimer demo_session = None"
  "lease demo_session 1 = Some (newLease 0)"
  by (simp_all add: demo_session_def addAck_def acquireLease_def newSession_def setLease_def newLease_def
      lease_def pump_def pruneCompletedLeases_def completedLease_def Let_def)

theorem acks_never_stuck_witness:
  "\<exists>l. lease demo_retry 1 = Some l \<and> 0 < le_pendingBytes l \<and> se_retryTimer demo_retry \<noteq> None"
proof -
  have "ack_step defaultConfig (demo_session, 7) (demo_retry, 7)"
    unfolding demo_retry_def by (rule as_fail) (rule demo_session_state)
  then have run: "(ack_step defaultConfig)\<^sup>*\<^sup>* (newSession, 0) (demo_retry, 7)"
    by (rule rtranclp.rtrancl_into_rtrancl [OF demo_session_run])
  have st: "se_inFlight demo_retry = None" "lease demo_retry 1 \<noteq> None"
    "le_pendingBytes (the (lease demo_retry 1)) = 7"
    using demo_session_state
    by (simp_all add: demo_retry_def failBatch_def newLease_def Let_def flip: lease_def)
  then obtain l where l: "lease demo_retry 1 = Some l" "0 < le_pendingBytes l" by auto
  from acks_never_stuck [OF run l(1)] l st(1) show ?thesis by blast
qed

text \<open>the retry delay starts at the base, doubles with every failed attempt until it reaches
  the maximum, and never exceeds it.\<close>

theorem retry_delay_backoff:
  "retryDelayMs cf 1 = min (cf_retryMaxMs cf) (cf_retryBaseMs cf)
   \<and> retryDelayMs cf a \<le> cf_retryMaxMs cf
   \<and> (1 \<le> a \<and> a \<le> 30 \<longrightarrow> retryDelayMs cf (a + 1) = min (cf_retryMaxMs cf) (2 * retryDelayMs cf a))"
proof -
  have double: "retryDelayMs cf (Suc k + 1) = min (cf_retryMaxMs cf) (2 * retryDelayMs cf (Suc k))" if "k < 30" for k
  proof -
    have "min (Suc k + 1 - 1) 30 = Suc k" "min (Suc k - 1) 30 = k" using that by auto
    then show ?thesis by (auto simp: retryDelayMs_def min_def mult.left_commute)
  qed
  have "retryDelayMs cf (a + 1) = min (cf_retryMaxMs cf) (2 * retryDelayMs cf a)" if "1 \<le> a" "a \<le> 30"
    using that double [of "a - 1"] by simp
  moreover have "retryDelayMs cf 1 = min (cf_retryMaxMs cf) (cf_retryBaseMs cf)" "retryDelayMs cf a \<le> cf_retryMaxMs cf"
    by (simp_all add: retryDelayMs_def)
  ultimately show ?thesis by blast
qed

theorem retry_delay_backoff_witness: "retryDelayMs defaultConfig 3 = 1000"
  using retry_delay_backoff [of defaultConfig 2] retry_delay_backoff [of defaultConfig 1]
  by (simp add: defaultConfig_def numeral_3_eq_3 numeral_2_eq_2)

end
