(* ===== verification/Alternate_Screen.thy ===== *)
theory Alternate_Screen
  imports Prelude
begin

text \<open>
  Detection of the alternate screen in the output stream
  (\<open>components/terminal/alternateScreenStateTracker.ts\<close>). The tracker looks for the private
  modes 47, 1047 and 1049 being set or reset and keeps an unfinished control sequence of at
  most 32 code units for the next chunk. The two regular expressions of the source are
  written out as \<open>matchSequence\<close> and in \<open>isPotentialPrefix\<close>; the loops over indices are
  recursions over the rest of the text and over the index.
\<close>

record alt_tracker =
  at_alternateScreen :: bool
  at_pendingSequence :: js_text

definition esc :: nat where "esc = 0x1b"

definition privatePrefix :: js_text where "privatePrefix = esc # js ''[?''"

definition ALT_SCREEN_PARAMS :: "js_text list" where
  "ALT_SCREEN_PARAMS = [js ''47'', js ''1047'', js ''1049'']"

definition MAX_PENDING_SEQUENCE_CHARS :: nat where "MAX_PENDING_SEQUENCE_CHARS = 32"

definition isParamUnit :: "nat \<Rightarrow> bool" where
  "isParamUnit c \<longleftrightarrow> (48 \<le> c \<and> c \<le> 57) \<or> c = 59"

definition isSetReset :: "nat \<Rightarrow> bool" where
  "isSetReset c \<longleftrightarrow> c = 104 \<or> c = 108"

fun splitParams :: "js_text \<Rightarrow> js_text list" where
  "splitParams [] = [[]]"
| "splitParams (c # cs) =
     (if c = 59 then [] # splitParams cs
      else (case splitParams cs of [] \<Rightarrow> [[c]] | p # ps \<Rightarrow> (c # p) # ps))"

definition detectAlternateScreen :: "js_text \<Rightarrow> bool option" where
  "detectAlternateScreen sequence =
     (if \<not> starts_with sequence privatePrefix then None
      else (let final = last sequence in
            if \<not> isSetReset final then None
            else if \<not> list_ex (\<lambda>p. p \<in> set ALT_SCREEN_PARAMS) (splitParams (butlast (drop 3 sequence))) then None
            else Some (final = 104)))"

definition isPotentialPrefix :: "js_text \<Rightarrow> bool" where
  "isPotentialPrefix t \<longleftrightarrow>
     (if \<not> starts_with privatePrefix t \<and> \<not> starts_with t privatePrefix then False
      else if length t > MAX_PENDING_SEQUENCE_CHARS then False
      else if \<not> starts_with t privatePrefix then True
      else list_all isParamUnit (drop 3 t))"

fun pendingLoop :: "js_text \<Rightarrow> nat \<Rightarrow> nat \<Rightarrow> js_text" where
  "pendingLoop t start 0 = []"
| "pendingLoop t start (Suc index) =
     (if index < start then []
      else if t ! index \<noteq> esc then pendingLoop t start index
      else if isPotentialPrefix (drop index t) then drop index t
      else pendingLoop t start index)"

definition findPendingSequenceSuffix :: "js_text \<Rightarrow> js_text" where
  "findPendingSequenceSuffix t =
     pendingLoop t (length t - MAX_PENDING_SEQUENCE_CHARS) (length t)"

text \<open>The matched part of the expression \<open>ESC [ ? ([0-9;]*) ([hl])\<close> at the start of a text.\<close>

definition matchSequence :: "js_text \<Rightarrow> js_text option" where
  "matchSequence t =
     (if \<not> starts_with t privatePrefix then None
      else (let ps = takeWhile isParamUnit (drop 3 t) in
            case dropWhile isParamUnit (drop 3 t) of
              [] \<Rightarrow> None
            | f # _ \<Rightarrow> if isSetReset f then Some (privatePrefix @ ps @ [f]) else None))"

function scanModes :: "js_text \<Rightarrow> bool \<Rightarrow> bool" where
  "scanModes [] s = s"
| "scanModes (c # cs) s =
     (if c \<noteq> esc then scanModes cs s
      else (case matchSequence (take MAX_PENDING_SEQUENCE_CHARS (c # cs)) of
              None \<Rightarrow> scanModes cs s
            | Some m \<Rightarrow> scanModes (drop (length m - 1) cs)
                         (case detectAlternateScreen m of None \<Rightarrow> s | Some next \<Rightarrow> next)))"
  by pat_completeness auto
termination by (relation "measure (\<lambda>(t, s). length t)") auto

definition ingest :: "js_text \<Rightarrow> alt_tracker \<Rightarrow> alt_tracker" where
  "ingest data tr =
     (if data = [] then tr
      else (let t = at_pendingSequence tr @ data in
            \<lparr>at_alternateScreen = scanModes t (at_alternateScreen tr),
             at_pendingSequence = findPendingSequenceSuffix t\<rparr>))"

definition setXtermBufferType :: "string option \<Rightarrow> alt_tracker \<Rightarrow> alt_tracker" where
  "setXtermBufferType type tr =
     (if type = Some ''alternate'' then tr\<lparr>at_alternateScreen := True\<rparr>
      else if type = Some ''normal'' then tr\<lparr>at_alternateScreen := False\<rparr>
      else tr)"

definition resetTracker :: alt_tracker where
  "resetTracker = \<lparr>at_alternateScreen = False, at_pendingSequence = []\<rparr>"

definition isAlternateScreenActive :: "alt_tracker \<Rightarrow> bool" where
  "isAlternateScreenActive tr = at_alternateScreen tr"

section \<open>The unfinished suffix\<close>

lemma esc_not_param [simp]: "\<not> isParamUnit esc" "\<not> isSetReset esc"
  by (simp_all add: esc_def isParamUnit_def isSetReset_def)

lemma setReset_not_param: "isSetReset c \<Longrightarrow> \<not> isParamUnit c"
  by (auto simp: isSetReset_def isParamUnit_def)

lemma private_eq: "privatePrefix = [esc, 91, 63]"
  by (simp add: privatePrefix_def js_def)

text \<open>A potential prefix contains the escape only at its start.\<close>

lemma potential_tail:
  assumes "isPotentialPrefix (c # cs)"
  shows "esc \<notin> set cs"
proof (cases "starts_with (c # cs) privatePrefix")
  case True
  then obtain ps where "c # cs = [esc, 91, 63] @ ps" by (metis starts_withD private_eq)
  with assms True show ?thesis
    by (auto simp: isPotentialPrefix_def list_all_iff esc_def private_eq isParamUnit_def starts_with_def split: if_splits)
next
  case False
  with assms have "starts_with privatePrefix (c # cs)" by (auto simp: isPotentialPrefix_def split: if_splits)
  then show ?thesis
    by (auto simp: starts_with_def private_eq esc_def take_Cons split: nat.splits)
qed

lemma pendingLoop_found:
  assumes "start \<le> i" and "i < n" and "n \<le> length t" and "t ! i = esc" and "isPotentialPrefix (drop i t)"
  shows "pendingLoop t start n = drop i t"
  using assms(2,3)
proof (induction n)
  case (Suc n)
  show ?case
  proof (cases "i = n")
    case False
    have "drop i t = esc # drop (Suc i) t" using assms(4) Suc.prems by (simp add: Cons_nth_drop_Suc [symmetric])
    then have "esc \<notin> set (drop (Suc i) t)" using assms(5) potential_tail by metis
    moreover have "t ! n = drop (Suc i) t ! (n - Suc i)" using False Suc.prems by simp
    ultimately have "t ! n \<noteq> esc" using False Suc.prems by (metis (no_types) in_set_conv_nth length_drop diff_less_mono Suc_leI Suc_le_lessD le_neq_implies_less less_Suc_eq_le)
    with Suc False assms(1) show ?thesis by simp
  qed (use assms in simp)
qed simp

lemma pendingLoop_cases:
  "n \<le> length t \<Longrightarrow> pendingLoop t start n = [] \<or>
   (\<exists>i < n. t ! i = esc \<and> isPotentialPrefix (drop i t) \<and> pendingLoop t start n = drop i t)"
  by (induction n) (auto simp: less_Suc_eq)

text \<open>The suffix is characterised by starting with the escape and being a potential prefix.\<close>

lemma pending_intro:
  assumes "isPotentialPrefix (esc # s)"
  shows "findPendingSequenceSuffix (u @ esc # s) = esc # s"
proof -
  have "length (esc # s) \<le> MAX_PENDING_SEQUENCE_CHARS"
    using assms by (auto simp: isPotentialPrefix_def split: if_splits)
  then show ?thesis using assms
    unfolding findPendingSequenceSuffix_def by (subst pendingLoop_found [of _ "length u"]) auto
qed

lemma pending_cases:
  obtains (none) "findPendingSequenceSuffix t = []"
  | (some) u s where "t = u @ esc # s" "isPotentialPrefix (esc # s)" "findPendingSequenceSuffix t = esc # s"
proof (cases "findPendingSequenceSuffix t = []")
  case False
  then obtain i where i: "i < length t" "t ! i = esc" "isPotentialPrefix (drop i t)" "findPendingSequenceSuffix t = drop i t"
    using pendingLoop_cases [of "length t" t] unfolding findPendingSequenceSuffix_def by blast
  then have "drop i t = esc # drop (Suc i) t" by (simp add: Cons_nth_drop_Suc [symmetric])
  with i show thesis using some [of "take i t" "drop (Suc i) t"] by (metis append_take_drop_id)
qed (rule none)

lemma pending_skip:
  assumes "c \<noteq> esc \<or> \<not> isPotentialPrefix (c # cs)"
  shows "findPendingSequenceSuffix (c # cs) = findPendingSequenceSuffix cs"
proof (cases cs rule: pending_cases)
  case none
  then show ?thesis
  proof (cases "c # cs" rule: pending_cases)
    case (some u s)
    with assms obtain u' where "cs = u' @ esc # s" by (cases u) auto
    with some none pending_intro [of s u'] show ?thesis by simp
  qed simp
next
  case (some u s)
  with pending_intro [of s "c # u"] show ?thesis by simp
qed

lemma pending_no_escape: "esc \<notin> set x \<Longrightarrow> findPendingSequenceSuffix (x @ r) = findPendingSequenceSuffix r"
  by (induction x) (auto simp: pending_skip)

lemma pending_Nil [simp]: "findPendingSequenceSuffix [] = []"
  by (simp add: findPendingSequenceSuffix_def)

lemma potential_prefix_closed:
  assumes "isPotentialPrefix (s @ b)" and "s \<noteq> []"
  shows "isPotentialPrefix s"
proof (cases "starts_with s privatePrefix")
  case True
  then obtain r where r: "s = privatePrefix @ r" by (metis starts_withD)
  have "starts_with (esc # 91 # 63 # x) [esc, 91, 63]" for x by (simp add: starts_with_def)
  with assms r show ?thesis by (auto simp: isPotentialPrefix_def private_eq split: if_splits)
next
  case False
  have "starts_with privatePrefix s"
  proof (cases "starts_with (s @ b) privatePrefix")
    case True
    then obtain r where "s @ b = privatePrefix @ r" by (metis starts_withD)
    then consider us where "s = privatePrefix @ us" | us where "privatePrefix = s @ us"
      unfolding append_eq_append_conv2 by metis
    then show ?thesis
    proof cases
      case (1 us)
      then have "starts_with s privatePrefix" by simp
      with False show ?thesis by contradiction
    next
      case (2 us)
      show ?thesis unfolding 2 by (rule starts_with_append)
    qed
  next
    case False
    with assms have "starts_with privatePrefix (s @ b)" by (auto simp: isPotentialPrefix_def split: if_splits)
    then obtain r where pp: "privatePrefix = s @ b @ r" by (metis append.assoc starts_withD)
    show ?thesis unfolding pp by (rule starts_with_append)
  qed
  with False assms show ?thesis by (auto simp: isPotentialPrefix_def split: if_splits)
qed

lemma pending_append:
  "findPendingSequenceSuffix (findPendingSequenceSuffix a @ b) = findPendingSequenceSuffix (a @ b)"
proof (cases "a @ b" rule: pending_cases)
  case none
  obtain v where v: "a = v @ findPendingSequenceSuffix a" by (cases a rule: pending_cases) auto
  show ?thesis
  proof (cases "findPendingSequenceSuffix a @ b" rule: pending_cases)
    case (some u s)
    then have "a @ b = (v @ u) @ esc # s" using v by (metis append.assoc)
    with some none pending_intro [of s "v @ u"] show ?thesis by simp
  qed (simp add: none)
next
  case (some u s)
  from some(1) consider (left) w where "a = u @ w" "w @ b = esc # s" "w \<noteq> []" | (right) w where "b = w @ esc # s"
    by (auto simp: append_eq_append_conv2) (metis append.right_neutral append_Nil)
  then show ?thesis
  proof cases
    case left
    then obtain s1 where w: "w = esc # s1" "s = s1 @ b" by (cases w) auto
    have "isPotentialPrefix (esc # s1)" using some(2) w potential_prefix_closed [of "esc # s1" b] by simp
    then have "findPendingSequenceSuffix a = esc # s1" using left w pending_intro by simp
    with some w pending_intro [of s "[]"] show ?thesis by simp
  next
    case right
    with some pending_intro [of s "findPendingSequenceSuffix a @ w"] show ?thesis by simp
  qed
qed

section \<open>Scanning\<close>

lemma match_intro:
  assumes "list_all isParamUnit ps" and "isSetReset f"
  shows "matchSequence (privatePrefix @ ps @ f # r) = Some (privatePrefix @ ps @ [f])"
proof -
  have "drop 3 (privatePrefix @ ps @ f # r) = ps @ f # r" by (simp add: private_eq)
  with assms setReset_not_param show ?thesis
    by (simp add: matchSequence_def list_all_iff takeWhile_append2 dropWhile_append2)
qed

lemma match_form:
  assumes "matchSequence t = Some m"
  obtains ps f r where "m = privatePrefix @ ps @ [f]" "list_all isParamUnit ps" "isSetReset f" "t = m @ r"
proof -
  have sw: "starts_with t privatePrefix" using assms by (auto simp: matchSequence_def split: if_splits)
  then have t: "t = privatePrefix @ drop 3 t" using starts_withD [OF sw] by (simp add: private_eq numeral_3_eq_3)
  obtain f r where r: "dropWhile isParamUnit (drop 3 t) = f # r" "isSetReset f"
      "m = privatePrefix @ takeWhile isParamUnit (drop 3 t) @ [f]"
    using assms sw by (auto simp: matchSequence_def Let_def split: list.splits if_splits)
  have "t = m @ r" using t r by (metis append.assoc append_Cons append_Nil takeWhile_dropWhile_id)
  moreover have "list_all isParamUnit (takeWhile isParamUnit (drop 3 t))"
    by (auto simp: list_all_iff dest: set_takeWhileD)
  ultimately show thesis using that r by blast
qed

definition boundedMatch :: "js_text \<Rightarrow> js_text option" where
  "boundedMatch t = matchSequence (take MAX_PENDING_SEQUENCE_CHARS t)"

lemma bounded_intro:
  assumes "m = privatePrefix @ ps @ [f]" and "list_all isParamUnit ps" and "isSetReset f"
    and "length m \<le> MAX_PENDING_SEQUENCE_CHARS"
  shows "boundedMatch (m @ r) = Some m"
proof -
  have "take MAX_PENDING_SEQUENCE_CHARS (m @ r)
      = privatePrefix @ ps @ f # take (MAX_PENDING_SEQUENCE_CHARS - length m) r"
    using assms(1,4) by (simp add: take_Cons' Suc_le_eq)
  with match_intro [OF assms(2,3)] assms(1) show ?thesis by (simp add: boundedMatch_def)
qed

lemma bounded_form:
  assumes "boundedMatch t = Some m"
  obtains ps f r where "m = privatePrefix @ ps @ [f]" "list_all isParamUnit ps" "isSetReset f" "t = m @ r"
    "length m \<le> MAX_PENDING_SEQUENCE_CHARS"
proof -
  obtain ps f r where m: "m = privatePrefix @ ps @ [f]" "list_all isParamUnit ps" "isSetReset f"
      "take MAX_PENDING_SEQUENCE_CHARS t = m @ r"
    using assms match_form unfolding boundedMatch_def by blast
  have "length m \<le> length (take MAX_PENDING_SEQUENCE_CHARS t)" using m(4) by simp
  then have "length m \<le> MAX_PENDING_SEQUENCE_CHARS" by simp
  moreover have "t = m @ r @ drop MAX_PENDING_SEQUENCE_CHARS t" using m(4) by (metis append.assoc append_take_drop_id)
  ultimately show thesis using that m by blast
qed

lemma bounded_mono: "boundedMatch a = Some m \<Longrightarrow> boundedMatch (a @ b) = Some m"
  by (erule bounded_form) (metis append.assoc bounded_intro)

lemma match_parts:
  assumes "m = privatePrefix @ ps @ [f]" and "list_all isParamUnit ps" and "isSetReset f"
  obtains x where "m = esc # x" "esc \<notin> set x"
proof -
  have "esc \<notin> set ps" using assms(2) by (auto simp: list_all_iff)
  moreover have "f \<noteq> esc" using assms(3) by auto
  ultimately show thesis using that [of "[91, 63] @ ps @ [f]"] assms(1) by (auto simp: private_eq esc_def)
qed

lemma scan_no_escape: "esc \<notin> set x \<Longrightarrow> scanModes (x @ r) s = scanModes r s"
  by (induction x) auto

lemma scan_match:
  assumes "boundedMatch (esc # cs) = Some m"
  shows "scanModes (esc # cs) s = scanModes (drop (length m) (esc # cs))
           (case detectAlternateScreen m of None \<Rightarrow> s | Some next \<Rightarrow> next)"
proof -
  have "length m \<noteq> 0" using assms by (auto elim!: bounded_form simp: private_eq)
  then have "drop (length m) (esc # cs) = drop (length m - 1) cs" by (cases "length m") auto
  with assms show ?thesis by (simp add: boundedMatch_def)
qed

lemma scan_no_match: "boundedMatch (esc # cs) = None \<Longrightarrow> scanModes (esc # cs) s = scanModes cs s"
  by (simp add: boundedMatch_def)

declare scanModes.simps(2) [simp del]

text \<open>A sequence that starts in the first part and ends in the second leaves its whole first
  part pending.\<close>

lemma straddling_pending:
  assumes "m = privatePrefix @ ps @ [f]" and "list_all isParamUnit ps"
    and "length m \<le> MAX_PENDING_SEQUENCE_CHARS" and "m = a @ w" and "w \<noteq> []" and "a \<noteq> []"
  shows "isPotentialPrefix a"
proof -
  have w: "w = butlast w @ [f]" using assms(1,4,5) by (metis append_assoc append_butlast_last_id last_appendR last_snoc)
  then have "a @ butlast w = privatePrefix @ ps" using assms(1,4) by (metis append.assoc append1_eq_conv)
  moreover have "isPotentialPrefix (privatePrefix @ ps)"
    using assms(1,2,3) by (simp add: isPotentialPrefix_def private_eq starts_with_def)
  ultimately show ?thesis using potential_prefix_closed assms(6) by metis
qed

lemma scan_append:
  "scanModes (a @ b) s = scanModes (findPendingSequenceSuffix a @ b) (scanModes a s)"
proof (induction a s rule: scanModes.induct)
  case (1 s)
  then show ?case by simp
next
  case (2 c cs s)
  show ?case
  proof (cases "c = esc")
    case False
    with 2(1) show ?thesis by (simp add: pending_skip scanModes.simps)
  next
    case c: True
    show ?thesis
    proof (cases "boundedMatch (esc # cs @ b)")
      case None
      then have na: "boundedMatch (esc # cs) = None" using bounded_mono [of "esc # cs" _ b] by (cases "boundedMatch (esc # cs)") auto
      have IH: "scanModes (cs @ b) s = scanModes (findPendingSequenceSuffix cs @ b) (scanModes cs s)"
        using 2(2) c na by (simp add: boundedMatch_def)
      show ?thesis
      proof (cases "isPotentialPrefix (esc # cs)")
        case True
        have ne: "esc \<notin> set cs" using potential_tail [OF True] .
        have "findPendingSequenceSuffix (esc # cs) = esc # cs" using pending_intro [OF True, of "[]"] by simp
        moreover have "scanModes (esc # cs) s = s" using na scan_no_escape [OF ne, of "[]"] by (simp add: scan_no_match)
        ultimately show ?thesis using c by simp
      next
        case False
        with IH None na c show ?thesis by (simp add: pending_skip scan_no_match)
      qed
    next
      case (Some m)
      then obtain ps f r where m: "m = privatePrefix @ ps @ [f]" "list_all isParamUnit ps" "isSetReset f"
          "(esc # cs) @ b = m @ r" "length m \<le> MAX_PENDING_SEQUENCE_CHARS"
        by (elim bounded_form) auto
      obtain x where x: "m = esc # x" "esc \<notin> set x" using match_parts [OF m(1,2,3)] .
      from m(4) consider (inside) w where "esc # cs = m @ w" | (across) w where "m = (esc # cs) @ w" "w \<noteq> []"
        unfolding append_eq_append_conv2 by (metis append.right_neutral)
      then show ?thesis
      proof cases
        case inside
        then have ma: "boundedMatch (esc # cs) = Some m" using bounded_intro [OF m(1,2,3,5), of w] by simp
        have "length m = Suc (length x)" using x by simp
        then have d: "drop (length m - 1) cs = w" using inside x by auto
        have "\<not> isPotentialPrefix (esc # cs)"
        proof -
          have "drop 3 (esc # cs) = ps @ f # w" using inside m(1) by (simp add: private_eq)
          moreover have "starts_with (esc # cs) privatePrefix" using inside m(1) by simp
          ultimately show ?thesis using setReset_not_param [OF m(3)] by (simp add: isPotentialPrefix_def)
        qed
        moreover have "cs = x @ w" using inside x by simp
        ultimately have p: "findPendingSequenceSuffix (esc # cs) = findPendingSequenceSuffix w"
          using x(2) by (simp add: pending_skip pending_no_escape)
        have "scanModes (w @ b) s' = scanModes (findPendingSequenceSuffix w @ b) (scanModes w s')"
          if "s' = (case detectAlternateScreen m of None \<Rightarrow> s | Some next \<Rightarrow> next)" for s'
          using 2(3) [of m] c ma d that by (simp add: boundedMatch_def)
        moreover have "scanModes (esc # cs @ b) s = scanModes (w @ b) (case detectAlternateScreen m of None \<Rightarrow> s | Some next \<Rightarrow> next)"
          using scan_match [OF Some, of s] inside by (metis append.assoc append_Cons append_eq_conv_conj)
        moreover have "scanModes (esc # cs) s = scanModes w (case detectAlternateScreen m of None \<Rightarrow> s | Some next \<Rightarrow> next)"
          using scan_match [OF ma, of s] inside by (metis append_eq_conv_conj)
        ultimately show ?thesis using p c by simp
      next
        case across
        have pot: "isPotentialPrefix (esc # cs)" using straddling_pending [OF m(1,2,5) across] by simp
        have ne: "esc \<notin> set cs" using across x by auto
        have "boundedMatch (esc # cs) = None"
        proof (rule ccontr)
          assume "boundedMatch (esc # cs) \<noteq> None"
          then obtain m' where m': "boundedMatch (esc # cs) = Some m'" by blast
          then have "m' = m" using bounded_mono [OF m', of b] Some by simp
          moreover obtain r' where "esc # cs = m' @ r'" using m' by (elim bounded_form) auto
          ultimately have "m = m @ r' @ w" using across by simp
          with across show False by simp
        qed
        then have "scanModes (esc # cs) s = s" using scan_no_escape [OF ne, of "[]"] by (simp add: scan_no_match)
        with pending_intro [OF pot, of "[]"] c show ?thesis by simp
      qed
    qed
  qed
qed

section \<open>Properties\<close>

text \<open>C20: the tracker does not depend on how the output is cut into chunks: feeding two chunks
  one after the other leaves it in the same state as feeding their concatenation, even when
  a control sequence is split between them. What it keeps for the next chunk is at most 32
  code units, a suffix of the text it has seen.\<close>

theorem ingest_chunking:
  "ingest b (ingest a tr) = ingest (a @ b) tr
   \<and> length (at_pendingSequence (ingest a tr)) \<le> max (length (at_pendingSequence tr)) MAX_PENDING_SEQUENCE_CHARS
   \<and> (\<exists>u. at_pendingSequence tr @ a = u @ at_pendingSequence (ingest a tr))"
proof -
  let ?t = "at_pendingSequence tr @ a"
  have "ingest b (ingest a tr) = ingest (a @ b) tr" if "a \<noteq> []" "b \<noteq> []"
    using that scan_append [of ?t b] pending_append [of ?t b] by (simp add: ingest_def Let_def)
  then have "ingest b (ingest a tr) = ingest (a @ b) tr" by (cases "a = [] \<or> b = []") (auto simp: ingest_def)
  moreover have "length (findPendingSequenceSuffix ?t) \<le> MAX_PENDING_SEQUENCE_CHARS \<and> (\<exists>u. ?t = u @ findPendingSequenceSuffix ?t)"
    by (cases ?t rule: pending_cases) (auto simp: isPotentialPrefix_def split: if_splits)
  ultimately show ?thesis by (auto simp: ingest_def Let_def)
qed

end
