(* ===== verification/Output_Controller.thy ===== *)
theory Output_Controller
  imports Output_Drain Frame_Gate Ack_Coordinator Alternate_Screen
begin

text \<open>
  The output pipeline of one terminal
  (\<open>components/terminal/xterminalOutputController.ts\<close>, the output listener of
  \<open>xterminalSessionEvents.ts\<close>, \<open>terminalOutputScheduling.ts\<close>). A payload of the backend
  enters the frame gate; what the gate forwards is queued in the drain, what it drops is
  acknowledged at once; the drain writes to the terminal and acknowledges what was written;
  both acknowledge through the terminal's lease of the acknowledgement coordinator.

  The wiring is \<open>runDrain\<close>, \<open>runEffect\<close> and \<open>runGate\<close>: the calls an object makes on its
  callbacks are the new entries of its log, and they are executed in order. What the drain
  reads from the controller while it runs (write budget, delay, low latency) is its
  environment, and what the gate reads is its pressure; the functions of this theory that
  compute them are total, and the steps of the pipeline allow every value of them. Times
  are in milliseconds.
\<close>

section \<open>The scheduler of terminal writes\<close>

definition writeChunkBytes :: nat where "writeChunkBytes = 32 * 1024"
definition alternateScreenWriteChunkBytes :: nat where "alternateScreenWriteChunkBytes = 16 * 1024"
definition alternateScreenMaxWriteFps :: nat where "alternateScreenMaxWriteFps = 20"

record scheduler =
  sc_lastAlternateScreenWriteAt :: nat

text \<open>What the scheduler's options read: the queued bytes, the alternate screen, the clock.\<close>

record sched_env =
  sv_queueBytes :: nat
  sv_alternate :: bool
  sv_now :: nat

record sched_snapshot =
  ss_alternateScreen :: bool
  ss_queueBytes :: nat
  ss_severeBacklog :: bool
  ss_writeChunkBytes :: nat
  ss_foregroundDelayMs :: int

definition getWriteChunkBytes :: "sched_env \<Rightarrow> nat" where
  "getWriteChunkBytes v = (if sv_alternate v then alternateScreenWriteChunkBytes else writeChunkBytes)"

definition shouldUseSevereAlternateScreenThrottle :: "sched_env \<Rightarrow> bool" where
  "shouldUseSevereAlternateScreenThrottle v \<longleftrightarrow>
     sv_alternate v \<and> sv_queueBytes v > alternateScreenThrottleBacklogBytes"

definition getForegroundDelayMs :: "sched_env \<Rightarrow> scheduler \<Rightarrow> int" where
  "getForegroundDelayMs v sc =
     (if \<not> shouldUseSevereAlternateScreenThrottle v then 0
      else (let intervalMs = 1000 div int alternateScreenMaxWriteFps;
                elapsedMs = int (sv_now v) - int (sc_lastAlternateScreenWriteAt sc)
            in if sc_lastAlternateScreenWriteAt sc > 0 \<and> elapsedMs < intervalMs
               then max 1 (intervalMs - elapsedMs) else 0))"

definition noteWriteStart :: "sched_env \<Rightarrow> scheduler \<Rightarrow> scheduler" where
  "noteWriteStart v sc = (if sv_alternate v then sc\<lparr>sc_lastAlternateScreenWriteAt := sv_now v\<rparr> else sc)"

definition resetScheduler :: "scheduler \<Rightarrow> scheduler" where
  "resetScheduler sc = sc\<lparr>sc_lastAlternateScreenWriteAt := 0\<rparr>"

definition schedulerSnapshot :: "sched_env \<Rightarrow> scheduler \<Rightarrow> sched_snapshot" where
  "schedulerSnapshot v sc =
     \<lparr>ss_alternateScreen = sv_alternate v, ss_queueBytes = sv_queueBytes v,
      ss_severeBacklog = (sv_alternate v \<and> sv_queueBytes v > alternateScreenThrottleBacklogBytes),
      ss_writeChunkBytes = getWriteChunkBytes v, ss_foregroundDelayMs = getForegroundDelayMs v sc\<rparr>"

section \<open>Performance mode and drain mode\<close>

datatype performance_mode = Normal | Strained | Overloaded

datatype hibernation_phase = PhIdle | PhPreparing | PhDetached | PhHibernated | PhWaking | PhFailed

text \<open>The references of the component that the controller reads and writes.\<close>

record controls =
  co_visible :: bool
  co_hibernated :: bool
  co_phase :: hibernation_phase
  co_performance :: performance_mode
  co_tracker :: alt_tracker
  co_scheduler :: scheduler

definition visibleRecoveryThresholdBytes :: nat where "visibleRecoveryThresholdBytes = 200000"
definition hiddenRecoveryThresholdBytes :: nat where "hiddenRecoveryThresholdBytes = 50000"

definition getRecoveryThresholdBytes :: "controls \<Rightarrow> nat" where
  "getRecoveryThresholdBytes c =
     (if co_visible c then visibleRecoveryThresholdBytes else hiddenRecoveryThresholdBytes)"

definition getPendingOutputBytes :: "drain option \<Rightarrow> gate option \<Rightarrow> nat" where
  "getPendingOutputBytes d g =
     (case d of None \<Rightarrow> 0 | Some d \<Rightarrow> getPendingBytes d) + (case g of None \<Rightarrow> 0 | Some g \<Rightarrow> getHeldBytes g)"

definition schedulerQueueBytes :: "drain option \<Rightarrow> gate option \<Rightarrow> nat" where
  "schedulerQueueBytes d g =
     (case d of None \<Rightarrow> 0 | Some d \<Rightarrow> getQueueBytes d) + (case g of None \<Rightarrow> 0 | Some g \<Rightarrow> getHeldBytes g)"

text \<open>The buffer type of the terminal emulator, which is not part of this program, is an
  argument.\<close>

definition alternateScreenActive :: "string \<Rightarrow> controls \<Rightarrow> bool" where
  "alternateScreenActive bufferType c \<longleftrightarrow> bufferType = ''alternate'' \<or> isAlternateScreenActive (co_tracker c)"

definition getNonOverloadedPressureMode :: "nat \<Rightarrow> performance_mode" where
  "getNonOverloadedPressureMode pending = (if pending \<ge> strainedBacklogBytes then Strained else Normal)"

definition setOutputPressureMode :: "performance_mode \<Rightarrow> controls \<Rightarrow> controls" where
  "setOutputPressureMode m c = (if co_performance c = m then c else c\<lparr>co_performance := m\<rparr>)"

definition enterOverloadedMode :: "controls \<Rightarrow> controls" where
  "enterOverloadedMode c = c\<lparr>co_performance := Overloaded\<rparr>"

definition exitOverloadedMode :: "performance_mode \<Rightarrow> controls \<Rightarrow> controls" where
  "exitOverloadedMode m c = c\<lparr>co_performance := m\<rparr>"

definition refreshOutputPressureMode :: "nat \<Rightarrow> controls \<Rightarrow> controls" where
  "refreshOutputPressureMode pending c =
     (if co_performance c = Overloaded then c
      else setOutputPressureMode (getNonOverloadedPressureMode pending) c)"

definition noteSkippedOutput :: "nat \<Rightarrow> controls \<Rightarrow> controls" where
  "noteSkippedOutput n c = (if n \<le> 0 then c else enterOverloadedMode c)"

definition maybeRecoverPerformanceMode :: "bool \<Rightarrow> nat \<Rightarrow> controls \<Rightarrow> controls" where
  "maybeRecoverPerformanceMode alive pending c =
     (if \<not> alive then c
      else if co_performance c \<noteq> Overloaded then c
      else if pending > getRecoveryThresholdBytes c then c
      else exitOverloadedMode (getNonOverloadedPressureMode pending) c)"

definition onPressureChange :: "bool \<Rightarrow> nat \<Rightarrow> controls \<Rightarrow> controls" where
  "onPressureChange alive pending c =
     refreshOutputPressureMode pending (maybeRecoverPerformanceMode alive pending c)"

definition shouldUseLowLatencyFlush :: "string \<Rightarrow> nat \<Rightarrow> controls \<Rightarrow> bool" where
  "shouldUseLowLatencyFlush bufferType pending c \<longleftrightarrow>
     co_visible c \<and> \<not> alternateScreenActive bufferType c \<and> co_performance c \<noteq> Overloaded
     \<and> pending \<le> lowLatencyFlushBacklogBytes"

definition resolveOutputDrainMode :: "controls \<Rightarrow> drain_mode" where
  "resolveOutputDrainMode c =
     (if co_hibernated c then Hibernated
      else if co_phase c = PhPreparing \<or> co_phase c = PhDetached then Hibernating
      else if co_visible c then Foreground else Background)"

definition updateOutputDrainMode :: "drain_env \<Rightarrow> controls \<Rightarrow> drain \<Rightarrow> drain" where
  "updateOutputDrainMode env c d = setMode env (resolveOutputDrainMode c) d"

section \<open>The pipeline\<close>

record pipeline =
  pl_gate :: gate
  pl_drain :: drain
  pl_acks :: ack_session

text \<open>\<open>outputAckLease.ack\<close> for each byte count in order.\<close>

definition ackAll :: "nat \<Rightarrow> nat list \<Rightarrow> ack_session \<Rightarrow> ack_session" where
  "ackAll leaseId bs s = fold (addAck leaseId) bs s"

definition runDrain :: "nat \<Rightarrow> (drain \<Rightarrow> drain) \<Rightarrow> pipeline \<Rightarrow> pipeline" where
  "runDrain leaseId f p =
     (let d = pl_drain p; d' = f d in
      p\<lparr>pl_drain := d', pl_acks := ackAll leaseId (drop (length (dr_acks d)) (dr_acks d')) (pl_acks p)\<rparr>)"

fun runEffect :: "nat \<Rightarrow> drain_env \<Rightarrow> pipeline \<Rightarrow> gate_effect \<Rightarrow> pipeline" where
  "runEffect leaseId env p (Forward c) = runDrain leaseId (enqueue env c) p"
| "runEffect leaseId env p (AckDropped b) = p\<lparr>pl_acks := addAck leaseId b (pl_acks p)\<rparr>"

definition runGate :: "nat \<Rightarrow> drain_env \<Rightarrow> (gate \<Rightarrow> gate) \<Rightarrow> pipeline \<Rightarrow> pipeline" where
  "runGate leaseId env f p =
     (let g = pl_gate p; g' = f g in
      foldl (runEffect leaseId env) (p\<lparr>pl_gate := g'\<rparr>) (drop (length (ga_effects g)) (ga_effects g')))"

text \<open>The pressure the gate reads while it processes a chunk: the drain has by then received
  the chunks forwarded so far.\<close>

definition forwarded :: "gate_effect list \<Rightarrow> chunk list" where
  "forwarded es = concat (map (\<lambda>e. case e of Forward c \<Rightarrow> [c] | AckDropped _ \<Rightarrow> []) es)"

definition getPressureSnapshot :: "string \<Rightarrow> controls \<Rightarrow> drain_env \<Rightarrow> pipeline \<Rightarrow> pressure" where
  "getPressureSnapshot bufferType c env p = (\<lambda>g.
     let d = fold (enqueue env) (forwarded (drop (length (ga_effects (pl_gate p))) (ga_effects g))) (pl_drain p) in
     \<lparr>cc_outputDrainPendingBytes = getPendingBytes d, cc_outputDrainQueueBytes = getQueueBytes d,
      cc_frameGateHeldBytes = getHeldBytes g, cc_alternateScreen = alternateScreenActive bufferType c,
      cc_performanceMode = (case co_performance c of Normal \<Rightarrow> ''normal'' | Strained \<Rightarrow> ''strained''
                            | Overloaded \<Rightarrow> ''overloaded'')\<rparr>)"

text \<open>The listener of \<open>terminal-output\<close> as far as it concerns the tracker and the pipeline,
  for a payload with its text and byte count. The references it reads are \<open>c\<close>.\<close>

definition onTerminalOutput ::
    "string \<Rightarrow> nat \<Rightarrow> bool \<Rightarrow> drain_env \<Rightarrow> chunk \<Rightarrow> controls \<times> pipeline \<Rightarrow> controls \<times> pipeline" where
  "onTerminalOutput bufferType leaseId alive env payload cp =
     (case cp of (c, p) \<Rightarrow>
        if \<not> alive then (c, p)
        else if ck_data payload = [] \<or> ck_bytes payload \<le> 0 then (c, p)
        else (let c = c\<lparr>co_tracker := ingest (ck_data payload) (co_tracker c)\<rparr>
              in (c, runGate leaseId env (gateEnqueue (getPressureSnapshot bufferType c env p) payload) p)))"

text \<open>\<open>flushFrameGateAndDrain\<close> up to its \<open>await\<close>, and the release of the pipeline when the
  terminal is taken down: gate, drain and lease are disposed in this order.\<close>

definition hibernateDrainTimeoutMs :: nat where "hibernateDrainTimeoutMs = 2500"

definition flushFrameGateAndDrain :: "nat \<Rightarrow> drain_env \<Rightarrow> pipeline \<Rightarrow> pipeline" where
  "flushFrameGateAndDrain leaseId env p =
     runDrain leaseId (waitForIdle env hibernateDrainTimeoutMs) (runGate leaseId env flush p)"

definition cleanupPipeline :: "nat \<Rightarrow> drain_env \<Rightarrow> pipeline \<Rightarrow> pipeline" where
  "cleanupPipeline leaseId env p =
     (let p = runGate leaseId env (gateDispose True) p;
          p = runDrain leaseId (dispose False) p
      in p\<lparr>pl_acks := closeLease leaseId (pl_acks p)\<rparr>)"

definition createPipeline :: "gate_mode \<Rightarrow> nat \<Rightarrow> nat \<Rightarrow> ack_session \<Rightarrow> pipeline" where
  "createPipeline mode leaseId generation s =
     \<lparr>pl_gate = initGate mode, pl_drain = initDrain, pl_acks = acquireLease leaseId generation s\<rparr>"

section \<open>The log of the gate only grows\<close>

definition grows :: "gate \<Rightarrow> gate \<Rightarrow> bool" where
  "grows g g' \<longleftrightarrow> (\<exists>es. ga_effects g' = ga_effects g @ es
     \<and> (\<forall>c. Forward c \<in> set es \<longrightarrow> 0 < ck_bytes c \<and> ck_data c \<noteq> []))"

lemma grows_refl: "ga_effects g' = ga_effects g \<Longrightarrow> grows g g'"
  by (auto simp: grows_def)

lemma grows_trans: "grows g h \<Longrightarrow> grows h k \<Longrightarrow> grows g k"
  by (fastforce simp: grows_def)

lemma grows_cong: "ga_effects g = ga_effects h \<Longrightarrow> ga_effects g' = ga_effects h' \<Longrightarrow> grows g g' = grows h h'"
  by (simp add: grows_def)

lemma grows_forward: "grows g h \<Longrightarrow> grows g (forwardText t h)"
  by (auto simp: grows_def forwardText_def effect_def)

lemma grows_drop: "grows g h \<Longrightarrow> grows g (effect (AckDropped b) h)"
  by (auto simp: grows_def effect_def)

lemma grows_forward_chunk: "grows g h \<Longrightarrow> 0 < ck_bytes c \<Longrightarrow> ck_data c \<noteq> [] \<Longrightarrow> grows g (effect (Forward c) h)"
  by (auto simp: grows_def effect_def)

lemma grows_update [simp]:
  "grows g (ga_snap_update u h) = grows g h" "grows g (ga_timer_update v h) = grows g h"
  "grows g (ga_pendingPrefix_update w h) = grows g h" "grows g (ga_currentFrameData_update w h) = grows g h"
  "grows g (ga_currentFrameContent_update w h) = grows g h" "grows g (ga_heldFrame_update x h) = grows g h"
  "grows g (ga_shadowHeldFrame_update x h) = grows g h" "grows g (ga_shadowPendingPrefix_update w h) = grows g h"
  "grows g (ga_shadowCurrentFrameData_update w h) = grows g h" "grows g (ga_shadowCurrentFrameContent_update w h) = grows g h"
  "grows g (ga_disposed_update v h) = grows g h" "grows g (updateHeldBytes h) = grows g h"
  by (simp_all add: grows_def updateHeldBytes_def)

lemmas grows_rules = grows_forward grows_drop grows_forward_chunk

lemma grows_flush: "grows g h \<Longrightarrow> grows g (flush h)"
  by (auto simp: flush_def Let_def intro!: grows_rules split: option.split)

lemma grows_failOpen: "grows g h \<Longrightarrow> grows g (failOpen h)"
  by (simp add: failOpen_def grows_flush)

lemma grows_dropHeld: "grows g h \<Longrightarrow> grows g (dropHeldFrame h)"
  by (auto simp: dropHeldFrame_def Let_def intro!: grows_rules split: option.split)

lemma grows_admit: "grows g h \<Longrightarrow> grows g (admitFrame pr f h)"
  by (auto simp: admitFrame_def Let_def scheduleFailOpenTimer_def
      intro!: grows_rules grows_dropHeld grows_flush split: frame_class.split option.split)

lemma grows_simulate: "grows g h \<Longrightarrow> grows g (simulateShadowFrame pr f h)"
  by (auto simp: simulateShadowFrame_def Let_def split: frame_class.split option.split)

lemma grows_complete: "grows g h \<Longrightarrow> grows g (handleCompleteFrame pr d c sh h)"
  by (simp add: handleCompleteFrame_def Let_def grows_admit grows_simulate)

lemma grows_barrier: "grows g h \<Longrightarrow> grows g (handleBarrier t sh h)"
  by (simp add: handleBarrier_def grows_flush grows_forward)

lemma grows_append: "grows g h \<Longrightarrow> grows g (appendCurrentFrame t sh h)"
  by (simp add: appendCurrentFrame_def Let_def grows_failOpen)

lemma grows_step:
  assumes "grows g h"
  shows "grows g (fst (stepInsideFrame pr t sh h))" and "grows g (fst (stepOutsideFrame t sh h))"
  using assms
  by (auto simp: stepInsideFrame_def stepOutsideFrame_def Let_def scheduleFailOpenTimer_def split: option.split
      intro!: grows_complete grows_barrier grows_append grows_forward grows_flush)

lemma grows_loop: "grows g h \<Longrightarrow> grows g (processLoop pr t sh h)"
proof (induction pr t sh h rule: processLoop.induct)
  case (1 pr t sh h)
  then show ?case using grows_step(1) [OF 1(2), of pr t sh] grows_step(2) [OF 1(2), of t sh]
    by (subst processLoop.simps) (auto split: prod.split)
qed

lemma grows_process: "grows g h \<Longrightarrow> grows g (processCollapseText pr d sh h)"
  by (simp add: processCollapseText_def Let_def grows_failOpen grows_loop)

lemma grows_scanShadow: "grows g h \<Longrightarrow> grows g (scanShadow pr d h)"
  by (simp add: scanShadow_def Let_def grows_process)

lemma grows_enqueue: "grows g (gateEnqueue pr c g)"
  by (auto simp: gateEnqueue_def grows_refl
      intro!: grows_rules grows_failOpen grows_scanShadow grows_flush grows_process)

lemma grows_dispose: "grows g (gateDispose b g)"
  by (auto simp: gateDispose_def clearGate_def Let_def grows_refl intro!: grows_rules split: option.split)

section \<open>The lease stays open\<close>

definition open_lease :: "nat \<Rightarrow> ack_session \<Rightarrow> bool" where
  "open_lease i s \<longleftrightarrow> se_activeLeaseId s = Some i \<and> (\<exists>l. lease s i = Some l \<and> le_accepting l \<and> \<not> le_disposed l)"

lemma open_prune: "keys_ok s \<Longrightarrow> open_lease i s \<Longrightarrow> open_lease i (pruneCompletedLeases s)"
  using completed_pending by (auto simp: open_lease_def lease_prune)

lemma open_set:
  "open_lease i s \<Longrightarrow> lease s j = Some l \<Longrightarrow> le_accepting m = le_accepting l \<Longrightarrow> le_disposed m = le_disposed l \<Longrightarrow>
   open_lease i (setLease j m s)"
  by (auto simp: open_lease_def)

lemma open_update [simp]:
  "open_lease i (se_inFlight_update u s) = open_lease i s" "open_lease i (se_retryTimer_update v s) = open_lease i s"
  "open_lease i (se_acked_update w s) = open_lease i s" "open_lease i (se_lost_update w s) = open_lease i s"
  "open_lease i (logFailure cf now s) = open_lease i s"
  by (simp_all add: open_lease_def)

lemma open_pump:
  assumes w: "weak_inv s" and o: "open_lease i s"
  shows "open_lease i (pump s)"
proof (cases "se_inFlight s \<noteq> None \<or> se_retryTimer s \<noteq> None")
  case True
  with o show ?thesis by (simp add: pump_def)
next
  case False
  define p where "p = pruneCompletedLeases s"
  have k: "keys_ok s" "keys_ok p" "leases_ok p" using w prune_inv(1) [OF w] by (simp_all add: p_def weak_inv_def)
  have op: "open_lease i p" unfolding p_def by (rule open_prune [OF k(1) o])
  show ?thesis
  proof (cases "find (hasPending p) (se_leaseOrder p)")
    case None
    with False open_prune [OF k(2) op] show ?thesis
      by (simp add: pump_def Let_def pumpLoop_find [OF k(3)] flip: p_def)
  next
    case (Some j)
    then have "hasPending p j" by (metis find_Some_iff)
    then obtain l where l: "lease p j = Some l" by (auto simp: hasPending_def split: option.splits)
    have "open_lease i (sendBatch j l p)" unfolding sendBatch_def using open_set [OF op l] by simp
    with False Some l show ?thesis by (simp add: pump_def Let_def pumpLoop_find [OF k(3)] flip: p_def)
  qed
qed

lemma inv_weak: "session_inv (s, m) \<Longrightarrow> weak_inv s"
  by (simp add: session_inv_def)

text \<open>Acknowledging through an open lease is accounted exactly.\<close>

lemma addAck_open:
  assumes inv: "session_inv (s, m)" and o: "open_lease i s" and b: "b \<le> 2 ^ 53 - 1"
  shows "session_inv (addAck i b s, m + b) \<and> open_lease i (addAck i b s)"
proof (cases "b = 0")
  case True
  with inv o show ?thesis by (simp add: addAck_def)
next
  case False
  obtain l where l: "lease s i = Some l" "le_accepting l" "se_activeLeaseId s = Some i" using o by (auto simp: open_lease_def)
  then have acc: "acceptsAck i b s" using False b by (simp add: acceptsAck_def)
  let ?s = "setLease i (l\<lparr>le_pendingBytes := le_pendingBytes l + b\<rparr>) s"
  have w: "weak_inv s" using inv by (rule inv_weak)
  have "weak_inv ?s" using w l o keys_setLease [of s i]
    by (auto simp: weak_inv_def leases_ok_def waits_ok_def open_lease_def)
  then have "open_lease i (pump ?s)" using open_set [OF o l(1)] by (intro open_pump) simp_all
  then have "open_lease i (addAck i b s)" using l False b by (simp add: addAck_def flip: lease_def)
  with ack_session_inv [OF inv, of i b] acc show ?thesis by simp
qed

lemma ackAll_open:
  assumes "session_inv (s, m)" and "open_lease i s" and "sum_list bs \<le> 2 ^ 53 - 1"
  shows "session_inv (ackAll i bs s, m + sum_list bs) \<and> open_lease i (ackAll i bs s)"
  using assms
proof (induction bs arbitrary: s m)
  case (Cons b bs)
  have "session_inv (addAck i b s, m + b) \<and> open_lease i (addAck i b s)"
    using Cons.prems by (intro addAck_open) simp_all
  with Cons.IH [of "addAck i b s" "m + b"] Cons.prems show ?case by (simp add: ackAll_def add.assoc)
qed (simp add: ackAll_def)

lemma open_complete:
  assumes inv: "session_inv (s, m)" and o: "open_lease i s" and fl: "se_inFlight s = Some (j, b)"
  shows "open_lease i (completeBatch j s)"
proof -
  have w: "weak_inv s" using inv by (rule inv_weak)
  obtain l where l: "lease s j = Some l" and rt: "se_retryTimer s = None" using w fl by (auto simp: weak_inv_def waits_ok_def)
  let ?s = "s\<lparr>se_inFlight := None, se_acked := se_acked s + b\<rparr>"
  let ?t = "setLease j (l\<lparr>le_retryAttempt := 0\<rparr>) ?s"
  have "weak_inv ?t" using w l rt keys_setLease [of ?s j] by (auto simp: weak_inv_def leases_ok_def waits_ok_def)
  moreover have "open_lease i ?t" using o l open_set [of i ?s j l] by simp
  ultimately have "open_lease i (pump ?t)" by (rule open_pump)
  with fl l show ?thesis by (simp add: completeBatch_def lease_def)
qed

lemma open_retry:
  assumes inv: "session_inv (s, m)" and o: "open_lease i s"
  shows "open_lease i (onRetryTimer j s)"
proof -
  have "weak_inv (s\<lparr>se_retryTimer := None\<rparr>)" using inv_weak [OF inv]
    by (auto simp: weak_inv_def leases_ok_def waits_ok_def)
  with o open_pump [of "s\<lparr>se_retryTimer := None\<rparr>" i] show ?thesis by (simp add: onRetryTimer_def)
qed

lemma open_fail:
  assumes inv: "session_inv (s, m)" and o: "open_lease i s" and fl: "se_inFlight s = Some (j, b)"
  shows "open_lease i (failBatch cf now j b s)"
proof -
  have w: "weak_inv s" using inv by (rule inv_weak)
  obtain l where l: "lease s j = Some l" and rt: "se_retryTimer s = None" using w fl by (auto simp: weak_inv_def waits_ok_def)
  let ?s = "s\<lparr>se_inFlight := None\<rparr>" and ?l = "l\<lparr>le_pendingBytes := le_pendingBytes l + b\<rparr>"
  have set: "open_lease i (setLease j m ?s)" if "le_accepting m = le_accepting l" "le_disposed m = le_disposed l" for m
    using that o l open_set [of i ?s j l m] by simp
  have wk: "weak_inv (setLease j m ?s)"
    if "le_accepting m = le_accepting l" "le_disposed m = le_disposed l" "le_finalAttemptAvailable m = le_finalAttemptAvailable l"
      "le_disposed l \<and> \<not> le_finalAttemptAvailable l \<longrightarrow> le_pendingBytes m = 0" for m
    using that w l rt keys_setLease [of ?s j m] by (auto simp: weak_inv_def leases_ok_def waits_ok_def)
  have upd: "weak_inv (t\<lparr>se_lost := x\<rparr>) = weak_inv t" "weak_inv (logFailure cf now t) = weak_inv t" for t x
    by (simp_all add: weak_inv_def leases_ok_def waits_ok_def)
  show ?thesis
  proof (cases "le_disposed l")
    case True
    have "open_lease i (pump (logFailure cf now (setLease j ?l ?s)))" if "le_finalAttemptAvailable l"
      using that by (intro open_pump) (simp_all add: upd wk set)
    moreover have "open_lease i (pump (logFailure cf now ((setLease j (?l\<lparr>le_pendingBytes := 0\<rparr>) ?s)\<lparr>se_lost := x\<rparr>)))" for x
      by (intro open_pump) (simp_all add: upd wk set)
    ultimately show ?thesis using fl l True by (simp add: failBatch_def lease_def Let_def)
  next
    case False
    with fl l set show ?thesis by (simp add: failBatch_def lease_def Let_def)
  qed
qed

lemma open_acquire:
  assumes inv: "session_inv (s, m)" and fresh: "\<forall>j \<in> set (se_leaseOrder s). j < i" and "se_activeLeaseId s \<noteq> Some i"
  shows "open_lease i (acquireLease i g s)"
proof -
  have w: "weak_inv s" using inv by (rule inv_weak)
  have k: "keys_ok s" using w by (simp add: weak_inv_def)
  have new: "lease s i = None" "i \<notin> set (se_leaseOrder s)" using fresh k by (auto simp: keys_ok_def dom_def)
  define t where "t = (setLease i (newLease g) (s\<lparr>se_activeLeaseId := Some i\<rparr>))\<lparr>se_leaseOrder := se_leaseOrder s @ [i]\<rparr>"
  have "distinct (map fst (se_leases t))" using k by (simp add: t_def setLease_def keys_ok_def distinct_update)
  then have "keys_ok t" using k new by (auto simp: keys_ok_def t_def)
  moreover have "leases_ok t" using w by (auto simp: weak_inv_def leases_ok_def t_def newLease_def)
  moreover have "waits_ok t" using w new by (auto simp: weak_inv_def waits_ok_def t_def)
  ultimately have wt: "weak_inv t" by (simp add: weak_inv_def)
  have ot: "open_lease i t" by (simp add: t_def open_lease_def newLease_def)
  have close: "open_lease i (closeLease p t) \<and> weak_inv (closeLease p t)" if "p \<noteq> i" for p
  proof (cases "\<exists>l. lease t p = Some l \<and> \<not> le_disposed l")
    case True
    then obtain l where l: "lease t p = Some l" "\<not> le_disposed l" by blast
    note wc = weak_close [OF wt l]
    have act: "se_activeLeaseId t = Some i" using ot by (simp add: open_lease_def)
    have "open_lease i (setLease p x t)" for x using ot that by (auto simp: open_lease_def)
    then show ?thesis using wc(1) l that act pump_inv [OF wc(1)]
      by (auto simp: closeLease_def lease_def Let_def intro!: open_pump)
  qed (use ot wt in \<open>auto simp: closeLease_def lease_def split: option.split\<close>)
  show ?thesis using close wt ot assms(3)
    by (auto simp: acquireLease_def Let_def t_def [symmetric] intro!: open_pump split: option.split)
qed

section \<open>Conservation along the pipeline\<close>

text \<open>The bytes that the pipeline behind the gate owes or has given to the coordinator.\<close>

definition due :: "pipeline \<Rightarrow> nat" where
  "due p = accounted (pl_acks p) + dr_unacked (pl_drain p)"

definition pipe_ok :: "nat \<Rightarrow> pipeline \<Rightarrow> bool" where
  "pipe_ok i p \<longleftrightarrow> session_inv (pl_acks p, accounted (pl_acks p)) \<and> open_lease i (pl_acks p)
     \<and> \<not> dr_disposed (pl_drain p)"

lemma session_accounted: "session_inv (s, m) \<Longrightarrow> accounted s = m"
  by (simp add: session_inv_def)

lemma runDrain_due:
  assumes ok: "pipe_ok i p" and d': "\<not> dr_disposed (f (pl_drain p))" "credit (f (pl_drain p)) = credit (pl_drain p) + k"
    "dr_acks (f (pl_drain p)) = dr_acks (pl_drain p) @ new" and b: "due p + k \<le> 2 ^ 53 - 1"
  shows "pipe_ok i (runDrain i f p) \<and> due (runDrain i f p) = due p + k"
proof -
  have sum: "sum_list new + dr_unacked (f (pl_drain p)) = dr_unacked (pl_drain p) + k"
    using d'(2,3) by (simp add: credit_def)
  then have "sum_list new \<le> 2 ^ 53 - 1" using b by (simp add: due_def)
  with ok have "session_inv (ackAll i new (pl_acks p), accounted (pl_acks p) + sum_list new)
      \<and> open_lease i (ackAll i new (pl_acks p))"
    by (intro ackAll_open) (simp_all add: pipe_ok_def)
  moreover from this have "accounted (ackAll i new (pl_acks p)) = accounted (pl_acks p) + sum_list new"
    using session_accounted by blast
  ultimately show ?thesis using sum d' by (simp add: runDrain_def Let_def pipe_ok_def due_def)
qed

lemma enqueue_credit:
  assumes "\<not> dr_disposed d" and "0 < ck_bytes c" and "ck_data c \<noteq> []"
  shows "\<not> dr_disposed (enqueue env c d) \<and> credit (enqueue env c d) = credit d + ck_bytes c
     \<and> (\<exists>new. dr_acks (enqueue env c d) = dr_acks d @ new)"
  using assms schedule_keep [of "d\<lparr>dr_queue := pushOutputQueue (dr_queue d) c, dr_unacked := dr_unacked d + ck_bytes c\<rparr>" env]
  by (simp add: enqueue_def credit_keep_def credit_def)

lemma runEffect_due:
  assumes ok: "pipe_ok i p" and e: "\<And>c. e = Forward c \<Longrightarrow> 0 < ck_bytes c \<and> ck_data c \<noteq> []"
    and b: "due p + effect_bytes e \<le> 2 ^ 53 - 1"
  shows "pipe_ok i (runEffect i env p e) \<and> due (runEffect i env p e) = due p + effect_bytes e"
proof (cases e)
  case (Forward c)
  have "\<not> dr_disposed (pl_drain p)" using ok by (simp add: pipe_ok_def)
  with e [OF Forward] enqueue_credit [of "pl_drain p" c env] obtain new where
    "\<not> dr_disposed (enqueue env c (pl_drain p))" "credit (enqueue env c (pl_drain p)) = credit (pl_drain p) + ck_bytes c"
    "dr_acks (enqueue env c (pl_drain p)) = dr_acks (pl_drain p) @ new" by blast
  from runDrain_due [OF ok, of "enqueue env c", OF this] b Forward show ?thesis by simp
next
  case (AckDropped b')
  have "session_inv (addAck i b' (pl_acks p), accounted (pl_acks p) + b') \<and> open_lease i (addAck i b' (pl_acks p))"
    using ok b AckDropped by (intro addAck_open) (simp_all add: pipe_ok_def due_def)
  moreover from this have "accounted (addAck i b' (pl_acks p)) = accounted (pl_acks p) + b'"
    using session_accounted by blast
  ultimately show ?thesis using ok AckDropped by (simp add: pipe_ok_def due_def)
qed

lemma runEffects_due:
  assumes "pipe_ok i p" and "\<forall>c. Forward c \<in> set es \<longrightarrow> 0 < ck_bytes c \<and> ck_data c \<noteq> []"
    and "due p + sum_list (map effect_bytes es) \<le> 2 ^ 53 - 1"
  shows "pipe_ok i (foldl (runEffect i env) p es)
    \<and> due (foldl (runEffect i env) p es) = due p + sum_list (map effect_bytes es)"
  using assms
proof (induction es arbitrary: p)
  case (Cons e es)
  have "pipe_ok i (runEffect i env p e) \<and> due (runEffect i env p e) = due p + effect_bytes e"
    using Cons.prems by (intro runEffect_due) auto
  with Cons.IH [of "runEffect i env p e"] Cons.prems show ?case by (simp add: add.assoc)
qed simp

lemma runEffect_gate [simp]: "pl_gate (runEffect i env p e) = pl_gate p"
  by (cases e) (simp_all add: runDrain_def Let_def)

lemma runEffects_gate [simp]: "pl_gate (foldl (runEffect i env) p es) = pl_gate p"
  by (induction es arbitrary: p) simp_all

lemma runGate_gate [simp]: "pl_gate (runGate i env f p) = f (pl_gate p)"
  by (simp add: runGate_def Let_def)

lemma runGate_due:
  assumes ok: "pipe_ok i p" and g: "grows (pl_gate p) (f (pl_gate p))"
    and b: "due p + released (f (pl_gate p)) - released (pl_gate p) \<le> 2 ^ 53 - 1"
  shows "pipe_ok i (runGate i env f p)
    \<and> due (runGate i env f p) + released (pl_gate p) = due p + released (f (pl_gate p))"
proof -
  obtain es where es: "ga_effects (f (pl_gate p)) = ga_effects (pl_gate p) @ es"
    "\<forall>c. Forward c \<in> set es \<longrightarrow> 0 < ck_bytes c \<and> ck_data c \<noteq> []" using g by (auto simp: grows_def)
  have r: "released (f (pl_gate p)) = released (pl_gate p) + sum_list (map effect_bytes es)"
    by (simp add: released_def es(1))
  have "pipe_ok i (p\<lparr>pl_gate := f (pl_gate p)\<rparr>)" "due (p\<lparr>pl_gate := f (pl_gate p)\<rparr>) = due p"
    using ok by (simp_all add: pipe_ok_def due_def)
  with runEffects_due [of i "p\<lparr>pl_gate := f (pl_gate p)\<rparr>" es env] es b r show ?thesis
    by (simp add: runGate_def Let_def)
qed

text \<open>
  Events of the pipeline while the terminal lives, with the bytes received so far: output
  of the backend, the gate's timer and flush, every event of the drain that accepts no
  chunk (the gate is its only source), and the outcome of an acknowledgement.
\<close>

inductive pipe_step :: "ack_config \<Rightarrow> nat \<Rightarrow> pipeline \<times> nat \<Rightarrow> pipeline \<times> nat \<Rightarrow> bool" for cf i where
  ps_output: "text_ok (ck_data c) \<Longrightarrow> pipe_step cf i (p, n)
     (runGate i env (gateEnqueue pr c) p, if accepted (pl_gate p) c then n + ck_bytes c else n)"
| ps_gateTimer: "ga_timer (pl_gate p) \<Longrightarrow> pipe_step cf i (p, n) (runGate i env onFailOpenTimer p, n)"
| ps_flush: "pipe_step cf i (p, n) (runGate i env flush p, n)"
| ps_drain: "drain_step (pl_drain p, []) (d, []) \<Longrightarrow> \<not> dr_disposed d \<Longrightarrow>
     pipe_step cf i (p, n) (runDrain i (\<lambda>_. d) p, n)"
| ps_complete: "se_inFlight (pl_acks p) = Some (j, b) \<Longrightarrow>
     pipe_step cf i (p, n) (p\<lparr>pl_acks := completeBatch j (pl_acks p)\<rparr>, n)"
| ps_fail: "se_inFlight (pl_acks p) = Some (j, b) \<Longrightarrow>
     pipe_step cf i (p, n) (p\<lparr>pl_acks := failBatch cf now j b (pl_acks p)\<rparr>, n)"
| ps_retry: "se_retryTimer (pl_acks p) = Some (j, t) \<Longrightarrow>
     pipe_step cf i (p, n) (p\<lparr>pl_acks := onRetryTimer j (pl_acks p)\<rparr>, n)"

definition pipe_inv :: "nat \<Rightarrow> nat \<Rightarrow> pipeline \<times> nat \<Rightarrow> bool" where
  "pipe_inv i base x \<longleftrightarrow> (case x of (p, n) \<Rightarrow>
     gate_inv (pl_gate p, n) \<and> \<not> ga_disposed (pl_gate p)
     \<and> (base + n \<le> 2 ^ 53 - 1 \<longrightarrow> pipe_ok i p \<and> due p + getHeldBytes (pl_gate p) = base + n))"

lemma gate_event_inv:
  assumes inv: "pipe_inv i base (p, n)" and g: "gate_inv (f (pl_gate p), n')" "\<not> ga_disposed (f (pl_gate p))"
    and grow: "grows (pl_gate p) (f (pl_gate p))" and n: "n \<le> n'"
  shows "pipe_inv i base (runGate i env f p, n')"
proof -
  have "pipe_ok i (runGate i env f p) \<and> due (runGate i env f p) + getHeldBytes (f (pl_gate p)) = base + n'"
    if b: "base + n' \<le> 2 ^ 53 - 1"
  proof -
    have ok: "pipe_ok i p" and d: "due p + getHeldBytes (pl_gate p) = base + n"
      using inv b n by (auto simp: pipe_inv_def)
    have r: "released (pl_gate p) + getHeldBytes (pl_gate p) = n" "released (f (pl_gate p)) + getHeldBytes (f (pl_gate p)) = n'"
      using inv g by (auto simp: pipe_inv_def gate_inv_def gate_total_def)
    with d b have "due p + released (f (pl_gate p)) - released (pl_gate p) \<le> 2 ^ 53 - 1" by linarith
    from runGate_due [of i p f, OF ok grow this, of env] r d show ?thesis by linarith
  qed
  with g show ?thesis by (simp add: pipe_inv_def)
qed

lemma drain_event:
  assumes "drain_step (d, []) (d', [])" and "\<not> dr_disposed d'"
  shows "credit_keep d d'"
  using assms(1)
proof cases
  case (st_enqueue env c)
  then have "d' = d" using assms(2) by (auto simp: enqueue_def split: if_splits)
  then show ?thesis by (simp add: credit_refl)
next
  case (st_dispose b)
  with assms(2) show ?thesis by (auto simp: dispose_def Let_def ack_defs cancel_defs split: if_splits)
qed (simp_all add: credit_intros)

lemma flush_disposed: "ga_disposed (flush g) = ga_disposed g" "ga_disposed (failOpen g) = ga_disposed g"
  by (simp_all add: flush_def failOpen_def Let_def split: option.split)

lemma enqueue_not_disposed:
  assumes "gate_inv (g, n)" and "\<not> ga_disposed g" and "text_ok (ck_data c)"
  shows "\<not> ga_disposed (gateEnqueue pr c g)"
  using assms enqueue_live [OF assms(1,3), of pr] live_not_disposed
  by (cases "accepted g c") (auto simp: gateEnqueue_def accepted_def)

lemma output_inv:
  assumes inv: "pipe_inv i base (p, n)" and ok: "text_ok (ck_data c)"
  shows "pipe_inv i base (runGate i env (gateEnqueue pr c) p, if accepted (pl_gate p) c then n + ck_bytes c else n)"
proof (rule gate_event_inv [OF inv])
  have g: "gate_inv (pl_gate p, n)" "\<not> ga_disposed (pl_gate p)" using inv by (simp_all add: pipe_inv_def)
  show "gate_inv (gateEnqueue pr c (pl_gate p), if accepted (pl_gate p) c then n + ck_bytes c else n)"
    using enqueue_inv [OF g(1) ok] g by (auto simp: gateEnqueue_def accepted_def)
  show "\<not> ga_disposed (gateEnqueue pr c (pl_gate p))" using enqueue_not_disposed [OF g ok] .
qed (simp_all add: grows_enqueue)

lemma acks_event_inv:
  assumes inv: "pipe_inv i base (p, n)"
    and s: "\<And>m. session_inv (pl_acks p, m) \<Longrightarrow> open_lease i (pl_acks p) \<Longrightarrow> session_inv (s, m) \<and> open_lease i s"
  shows "pipe_inv i base (p\<lparr>pl_acks := s\<rparr>, n)"
proof -
  have "pipe_ok i (p\<lparr>pl_acks := s\<rparr>) \<and> due (p\<lparr>pl_acks := s\<rparr>) = due p" if ok: "pipe_ok i p"
  proof -
    have st: "session_inv (s, accounted (pl_acks p))" "open_lease i s"
      using s [of "accounted (pl_acks p)"] ok by (simp_all add: pipe_ok_def)
    with session_accounted [OF st(1)] ok show ?thesis by (simp add: pipe_ok_def due_def)
  qed
  with inv show ?thesis by (simp add: pipe_inv_def)
qed

lemma drain_event_inv:
  assumes inv: "pipe_inv i base (p, n)" and st: "drain_step (pl_drain p, []) (d, [])" "\<not> dr_disposed d"
  shows "pipe_inv i base (runDrain i (\<lambda>_. d) p, n)"
proof -
  have gate: "pl_gate (runDrain i (\<lambda>_. d) p) = pl_gate p" by (simp add: runDrain_def Let_def)
  obtain new where k: "credit d = credit (pl_drain p)" "dr_acks d = dr_acks (pl_drain p) @ new"
    using drain_event [OF st] by (auto simp: credit_keep_def)
  have "pipe_ok i (runDrain i (\<lambda>_. d) p) \<and> due (runDrain i (\<lambda>_. d) p) = due p"
    if "pipe_ok i p" "due p \<le> 2 ^ 53 - 1"
    using runDrain_due [of i p "\<lambda>_. d" 0 new] that st(2) k by simp
  with inv show ?thesis by (auto simp: pipe_inv_def gate)
qed

lemma pipe_step_inv: "pipe_inv i base x \<Longrightarrow> pipe_step cf i x y \<Longrightarrow> pipe_inv i base y"
proof (erule pipe_step.cases, goal_cases)
  case (1 c p n env pr)
  then show ?case using output_inv by simp
next
  case (2 p n env)
  then have g: "gate_inv (pl_gate p, n)" "\<not> ga_disposed (pl_gate p)" by (simp_all add: pipe_inv_def)
  have "grows (pl_gate p) (onFailOpenTimer (pl_gate p))" by (simp add: onFailOpenTimer_def grows_failOpen grows_refl)
  with 2 g timer_inv [OF g(1)] show ?case
    by (auto simp: onFailOpenTimer_def flush_disposed intro!: gate_event_inv)
next
  case (3 p n env)
  then have g: "gate_inv (pl_gate p, n)" "\<not> ga_disposed (pl_gate p)" by (simp_all add: pipe_inv_def)
  with 3 show ?case by (auto simp: flush_disposed flush_inv grows_flush grows_refl intro!: gate_event_inv)
next
  case (4 p d n)
  then show ?case using drain_event_inv by simp
next
  case (5 p j b n)
  then show ?case using complete_session open_complete by (auto intro!: acks_event_inv)
next
  case (6 p j b n now)
  then show ?case using fail_session open_fail by (auto intro!: acks_event_inv)
next
  case (7 p j t n)
  then show ?case using retry_session open_retry by (auto intro!: acks_event_inv)
qed

definition pipe_start :: "nat \<Rightarrow> nat \<Rightarrow> pipeline \<times> nat \<Rightarrow> bool" where
  "pipe_start i base x \<longleftrightarrow> (\<exists>mode g s. x = (createPipeline mode i g s, 0) \<and> session_inv (s, base)
     \<and> (\<forall>j \<in> set (se_leaseOrder s). j < i) \<and> se_activeLeaseId s \<noteq> Some i)"

lemma pipe_start_inv: "pipe_start i base x \<Longrightarrow> pipe_inv i base x"
proof -
  assume "pipe_start i base x"
  then obtain mode g s where x: "x = (createPipeline mode i g s, 0)" and s: "session_inv (s, base)"
    "\<forall>j \<in> set (se_leaseOrder s). j < i" "se_activeLeaseId s \<noteq> Some i" by (auto simp: pipe_start_def)
  have a: "session_inv (acquireLease i g s, base)" "open_lease i (acquireLease i g s)"
    using acquire_session [OF s(1,2)] open_acquire [OF s] by simp_all
  have "gate_inv (initGate mode, 0)" "\<not> ga_disposed (initGate mode)" "getHeldBytes (initGate mode) = 0"
    using dgate.start_inv by (auto simp: gate_start_def initGate_def getHeldBytes_def)
  with a session_accounted [OF a(1)] show ?thesis
    by (simp add: x pipe_inv_def createPipeline_def pipe_ok_def due_def initDrain_def)
qed

interpretation dpipe: invariant_system "pipe_start i base" "pipe_step cf i" "pipe_inv i base" for i base cf
  by unfold_locales (rule pipe_start_inv, assumption, rule pipe_step_inv)

section \<open>Properties\<close>

text \<open>C1: end-to-end flow control. A terminal opened on a session whose coordinator has
  accounted for \<open>base\<close> bytes receives \<open>n\<close> bytes. Whatever the frame gate, the drain and the
  coordinator do, in any order, every received byte is exactly once in one of six places:
  confirmed to the backend, in a batch in flight, pending in a lease, given up by a closed
  lease, owed by the drain, or held by the gate. The total stays below the largest safe
  integer, up to which the lease accepts acknowledgements.\<close>

theorem pipeline_conserves_credit:
  assumes "(ack_step cf)\<^sup>*\<^sup>* (newSession, 0) (s, base)"
    and "\<forall>j \<in> set (se_leaseOrder s). j < i" and "se_activeLeaseId s \<noteq> Some i"
    and "(pipe_step cf i)\<^sup>*\<^sup>* (createPipeline mode i g s, 0) (p, n)" and "base + n \<le> 2 ^ 53 - 1"
  shows "se_acked (pl_acks p) + inFlightBytes (pl_acks p) + pendingTotal (pl_acks p) + se_lost (pl_acks p)
         + dr_unacked (pl_drain p) + getHeldBytes (pl_gate p) = base + n"
proof -
  have "session_inv (s, base)" using dack.reachable_inv [OF _ assms(1)] by (simp add: session_start_def)
  then have "pipe_start i base (createPipeline mode i g s, 0)" using assms(2,3) by (auto simp: pipe_start_def)
  from dpipe.reachable_inv [OF this assms(4)] assms(5) show ?thesis
    by (simp add: pipe_inv_def due_def accounted_def)
qed

definition demo_output :: chunk where "demo_output = mk_chunk [104, 105] 2"

definition demo_pipeline :: pipeline where
  "demo_pipeline = runGate 1 (demo_env 0) (gateEnqueue busy demo_output) (createPipeline ModeOff 1 0 newSession)"

theorem pipeline_conserves_credit_witness:
  "se_acked (pl_acks demo_pipeline) + inFlightBytes (pl_acks demo_pipeline) + pendingTotal (pl_acks demo_pipeline)
   + se_lost (pl_acks demo_pipeline) + dr_unacked (pl_drain demo_pipeline) + getHeldBytes (pl_gate demo_pipeline) = 0 + 2"
proof (rule pipeline_conserves_credit)
  show "(ack_step defaultConfig)\<^sup>*\<^sup>* (newSession, 0) (newSession, 0)" by simp
  show "\<forall>j \<in> set (se_leaseOrder newSession). j < 1" "se_activeLeaseId newSession \<noteq> Some 1"
    by (simp_all add: newSession_def)
  have "accepted (initGate ModeOff) demo_output" "text_ok (ck_data demo_output)"
    by (simp_all add: accepted_def initGate_def demo_output_def text_ok_def is_low_def)
  then have "pipe_step defaultConfig 1 (createPipeline ModeOff 1 0 newSession, 0) (demo_pipeline, 2)"
    using ps_output [of demo_output defaultConfig 1 "createPipeline ModeOff 1 0 newSession" 0 "demo_env 0" busy]
    by (simp add: demo_pipeline_def createPipeline_def demo_output_def numeral_2_eq_2)
  then show "(pipe_step defaultConfig 1)\<^sup>*\<^sup>* (createPipeline ModeOff 1 0 newSession, 0) (demo_pipeline, 2)" by blast
qed simp

text \<open>throttling of repaint-heavy programs. A write is delayed only on the alternate screen
  with more than 32 KiB queued; with a clock that does not run backwards the delay is at most
  one interval of the maximum write rate (50 ms), and once it has passed the next write is not
  delayed again.\<close>

theorem foreground_delay_throttle:
  assumes "sc_lastAlternateScreenWriteAt sc \<le> sv_now v"
  shows "0 \<le> getForegroundDelayMs v sc \<and> getForegroundDelayMs v sc \<le> 50
    \<and> (0 < getForegroundDelayMs v sc \<longrightarrow> sv_alternate v \<and> 32 * 1024 < sv_queueBytes v)
    \<and> getForegroundDelayMs (v\<lparr>sv_now := sv_now v + nat (getForegroundDelayMs v sc)\<rparr>) sc = 0
    \<and> getForegroundDelayMs v (resetScheduler sc) = 0"
  using assms
  by (auto simp: getForegroundDelayMs_def shouldUseSevereAlternateScreenThrottle_def Let_def resetScheduler_def
      alternateScreenMaxWriteFps_def alternateScreenThrottleBacklogBytes_def)

theorem foreground_delay_throttle_witness:
  "getForegroundDelayMs \<lparr>sv_queueBytes = 40000, sv_alternate = True, sv_now = 1010\<rparr> \<lparr>sc_lastAlternateScreenWriteAt = 1000\<rparr> = 40
   \<and> getForegroundDelayMs \<lparr>sv_queueBytes = 40000, sv_alternate = True, sv_now = 1050\<rparr> \<lparr>sc_lastAlternateScreenWriteAt = 1000\<rparr> = 0"
  using foreground_delay_throttle [of "\<lparr>sc_lastAlternateScreenWriteAt = 1000\<rparr>"
      "\<lparr>sv_queueBytes = 40000, sv_alternate = True, sv_now = 1010\<rparr>"]
  by (simp add: getForegroundDelayMs_def shouldUseSevereAlternateScreenThrottle_def
      alternateScreenMaxWriteFps_def alternateScreenThrottleBacklogBytes_def)

text \<open>the performance mode has hysteresis. A pressure change of a live terminal keeps the
  overloaded mode while more than the recovery threshold is pending (200000 bytes visible,
  50000 hidden) and otherwise sets strained or normal by the 128 KiB mark; repeating it changes
  nothing; skipped output always enters the overloaded mode, in which the low-latency flush is
  never used.\<close>

theorem performance_mode_hysteresis:
  "co_performance (onPressureChange True pending c) =
     (if co_performance c = Overloaded \<and> (if co_visible c then 200000 else 50000) < pending then Overloaded
      else if 128 * 1024 \<le> pending then Strained else Normal)
   \<and> onPressureChange True pending (onPressureChange True pending c) = onPressureChange True pending c
   \<and> (0 < skipped \<longrightarrow> co_performance (noteSkippedOutput skipped c) = Overloaded
        \<and> \<not> shouldUseLowLatencyFlush bt pending (noteSkippedOutput skipped c))"
  by (simp add: onPressureChange_def refreshOutputPressureMode_def maybeRecoverPerformanceMode_def
      setOutputPressureMode_def exitOverloadedMode_def enterOverloadedMode_def getNonOverloadedPressureMode_def
      getRecoveryThresholdBytes_def visibleRecoveryThresholdBytes_def hiddenRecoveryThresholdBytes_def
      strainedBacklogBytes_def noteSkippedOutput_def shouldUseLowLatencyFlush_def)

definition demo_controls :: controls where
  "demo_controls = \<lparr>co_visible = True, co_hibernated = False, co_phase = PhIdle, co_performance = Normal,
     co_tracker = resetTracker, co_scheduler = \<lparr>sc_lastAlternateScreenWriteAt = 0\<rparr>\<rparr>"

theorem performance_mode_hysteresis_witness:
  "co_performance (noteSkippedOutput 5 demo_controls) = Overloaded
   \<and> co_performance (onPressureChange True 150000 demo_controls) = Strained"
  using performance_mode_hysteresis [of 150000 demo_controls 5 "''normal''"] by (simp add: demo_controls_def)

end
