(* ===== verification/Workspace_Tabs.thy ===== *)
theory Workspace_Tabs
  imports Prelude
begin

text \<open>
  Workspace tabs and their pane trees (\<open>lib/workspaceTabs.ts\<close>, types of
  \<open>types/global.d.ts\<close>): creation of panes and tabs, lookup, splitting, removal and update
  of panes, the active pane, tab order, released sessions, and the persisted form of the
  tabs with its restoration.

  The module-level id counter is passed explicitly; \<open>now\<close> gives the clock and \<open>uuid\<close> the
  random identifier read at a counter value. An optional property is an option, and the
  string union types are datatypes except where the code reads persisted text. Where the
  code returns the old object because both children are unchanged, the model rebuilds an
  equal value. Split ratios are rationals.
\<close>

section \<open>Data\<close>

datatype session_type = SSH | Local | Telnet | Serial | RDP | VNC

datatype split_direction = Horizontal | Vertical

datatype pane_kind = KTerminal | KRemoteDesktop | KFile

datatype persisted_kind = PTerminal | PRemoteDesktop | PFile | PRdp

datatype scale_mode = Fit | Actual | Stretch

datatype file_backend = LocalFile | RemoteFile

record display =
  dp_remoteWidth :: "int option"
  dp_remoteHeight :: "int option"
  dp_scaleMode :: "scale_mode option"
  dp_viewOnly :: "bool option"
  dp_clipboardEnabled :: "bool option"

record file_snapshot =
  fs_content :: string
  fs_size :: nat
  fs_mtime :: nat
  fs_mtimeNanos :: "string option"
  fs_contentHash :: string

record file_document =
  fd_backend :: file_backend
  fd_path :: string
  fd_initial :: file_snapshot

record session_pane =
  sp_id :: string
  sp_paneKind :: pane_kind
  sp_sessionId :: string
  sp_name :: string
  sp_type :: session_type
  sp_connectionId :: "string option"
  sp_display :: "display option"
  sp_file :: "file_document option"
  sp_temporaryConfig :: "string option"
  sp_connecting :: "bool option"
  sp_createRequestId :: "string option"
  sp_connectError :: "string option"

datatype pane_node =
    Leaf session_pane
  | Split string split_direction rat pane_node pane_node

record tab =
  tb_id :: string
  tb_persistOrder :: int
  tb_activePaneId :: string
  tb_root :: pane_node
  tb_customName :: "string option"
  tb_tabColor :: "string option"
  tb_locked :: "bool option"

fun node_id :: "pane_node \<Rightarrow> string" where
  "node_id (Leaf p) = sp_id p"
| "node_id (Split i _ _ _ _) = i"

section \<open>Identifiers\<close>

definition createWorkspaceId :: "(nat \<Rightarrow> nat) \<Rightarrow> string \<Rightarrow> nat \<Rightarrow> string \<times> nat" where
  "createWorkspaceId now prefix c = (make_id prefix (now (c + 1)) (c + 1), c + 1)"

interpretation wid: fresh_ids "createWorkspaceId now" for now
  by unfold_locales (auto simp: createWorkspaceId_def dest: make_id_inj)

section \<open>Node classification\<close>

definition isSplitPane :: "pane_node \<Rightarrow> bool" where
  "isSplitPane n = (case n of Split _ _ _ _ _ \<Rightarrow> True | Leaf _ \<Rightarrow> False)"

definition isSessionPane :: "pane_node \<Rightarrow> bool" where
  "isSessionPane n = (case n of Leaf _ \<Rightarrow> True | Split _ _ _ _ _ \<Rightarrow> False)"

definition isTerminalPane :: "pane_node \<Rightarrow> bool" where
  "isTerminalPane n = (case n of Leaf p \<Rightarrow> sp_paneKind p = KTerminal | Split _ _ _ _ _ \<Rightarrow> False)"

definition isRemoteDesktopPane :: "pane_node \<Rightarrow> bool" where
  "isRemoteDesktopPane n =
     (case n of Leaf p \<Rightarrow> sp_paneKind p = KRemoteDesktop | Split _ _ _ _ _ \<Rightarrow> False)"

definition isRdpPane :: "pane_node \<Rightarrow> bool" where
  "isRdpPane n = (isRemoteDesktopPane n \<and> (case n of Leaf p \<Rightarrow> sp_type p = RDP | Split _ _ _ _ _ \<Rightarrow> False))"

definition isFileDocumentPane :: "pane_node \<Rightarrow> bool" where
  "isFileDocumentPane n = (case n of Leaf p \<Rightarrow> sp_paneKind p = KFile | Split _ _ _ _ _ \<Rightarrow> False)"

definition isRemoteDesktopSessionType :: "session_type \<Rightarrow> bool" where
  "isRemoteDesktopSessionType t = (t = RDP \<or> t = VNC)"

definition defaultRemoteDesktopDisplay :: display where
  "defaultRemoteDesktopDisplay = \<lparr>dp_remoteWidth = Some 1920, dp_remoteHeight = Some 1080,
     dp_scaleMode = Some Fit, dp_viewOnly = None, dp_clipboardEnabled = None\<rparr>"

definition clampSplitRatio :: "rat \<Rightarrow> rat" where
  "clampSplitRatio r = max (1 / 5) (min (4 / 5) r)"

section \<open>Creation\<close>

record pane_overrides =
  ov_id :: "string option"
  ov_sessionId :: "string option"
  ov_display :: "display option"
  ov_connecting :: "bool option"
  ov_createRequestId :: "string option"
  ov_connectError :: "string option"
  ov_temporaryConfig :: "string option"

definition id_or_new :: "(nat \<Rightarrow> nat) \<Rightarrow> string \<Rightarrow> string option \<Rightarrow> nat \<Rightarrow> string \<times> nat" where
  "id_or_new now prefix given c = (case given of Some i \<Rightarrow> (i, c) | None \<Rightarrow> createWorkspaceId now prefix c)"

definition createSessionPane ::
    "(nat \<Rightarrow> nat) \<Rightarrow> string \<Rightarrow> session_type \<Rightarrow> string option \<Rightarrow> pane_overrides option \<Rightarrow> nat \<Rightarrow>
     session_pane \<times> nat" where
  "createSessionPane now name type connectionId overrides c =
     (let remoteDesktop = isRemoteDesktopSessionType type;
          paneKind = (if remoteDesktop then KRemoteDesktop else KTerminal);
          (i, c) = id_or_new now ''pane'' (Option.bind overrides ov_id) c;
          (s, c) = id_or_new now ''session'' (Option.bind overrides ov_sessionId) c
      in (\<lparr>sp_id = i, sp_paneKind = paneKind, sp_sessionId = s, sp_name = name, sp_type = type,
           sp_connectionId = connectionId,
           sp_display = (if remoteDesktop
                         then (case Option.bind overrides ov_display of Some d \<Rightarrow> Some d
                               | None \<Rightarrow> Some defaultRemoteDesktopDisplay)
                         else None),
           sp_file = None,
           sp_temporaryConfig = Option.bind overrides ov_temporaryConfig,
           sp_connecting = Option.bind overrides ov_connecting,
           sp_createRequestId = Option.bind overrides ov_createRequestId,
           sp_connectError = Option.bind overrides ov_connectError\<rparr>, c))"

definition createFileDocumentPane ::
    "(nat \<Rightarrow> nat) \<Rightarrow> string \<Rightarrow> string \<Rightarrow> session_type \<Rightarrow> string option \<Rightarrow> file_backend \<Rightarrow> string \<Rightarrow>
     file_snapshot \<Rightarrow> nat \<Rightarrow> session_pane \<times> nat" where
  "createFileDocumentPane now sessionId name type connectionId backend path file c =
     (let (i, c) = createWorkspaceId now ''pane'' c
      in (\<lparr>sp_id = i, sp_paneKind = KFile, sp_sessionId = sessionId, sp_name = name, sp_type = type,
           sp_connectionId = connectionId, sp_display = None,
           sp_file = Some \<lparr>fd_backend = backend, fd_path = path, fd_initial = file\<rparr>,
           sp_temporaryConfig = None, sp_connecting = None, sp_createRequestId = None,
           sp_connectError = None\<rparr>, c))"

definition createWorkspaceTab ::
    "(nat \<Rightarrow> nat) \<Rightarrow> session_pane \<Rightarrow> int \<Rightarrow> (string option \<times> string option) option \<Rightarrow> nat \<Rightarrow> tab \<times> nat" where
  "createWorkspaceTab now pane persistOrder extra c =
     (let (i, c) = createWorkspaceId now ''tab'' c
      in (\<lparr>tb_id = i, tb_persistOrder = persistOrder, tb_activePaneId = sp_id pane, tb_root = Leaf pane,
           tb_customName = Option.bind extra fst, tb_tabColor = Option.bind extra snd,
           tb_locked = None\<rparr>, c))"

section \<open>Pane trees\<close>

fun collectSessionPanes :: "pane_node \<Rightarrow> session_pane list" where
  "collectSessionPanes (Leaf p) = [p]"
| "collectSessionPanes (Split _ _ _ a b) = collectSessionPanes a @ collectSessionPanes b"

fun getFirstSessionPane :: "pane_node \<Rightarrow> session_pane option" where
  "getFirstSessionPane (Leaf p) = Some p"
| "getFirstSessionPane (Split _ _ _ a b) =
     (case getFirstSessionPane a of Some p \<Rightarrow> Some p | None \<Rightarrow> getFirstSessionPane b)"

fun findPaneById :: "pane_node \<Rightarrow> string \<Rightarrow> pane_node option" where
  "findPaneById (Leaf p) paneId = (if sp_id p = paneId then Some (Leaf p) else None)"
| "findPaneById (Split i dir r a b) paneId =
     (if i = paneId then Some (Split i dir r a b)
      else (case findPaneById a paneId of Some n \<Rightarrow> Some n | None \<Rightarrow> findPaneById b paneId))"

definition findSessionPaneById :: "pane_node \<Rightarrow> string \<Rightarrow> session_pane option" where
  "findSessionPaneById node paneId =
     (case findPaneById node paneId of Some (Leaf p) \<Rightarrow> Some p | _ \<Rightarrow> None)"

fun findSessionPaneBySessionId :: "pane_node \<Rightarrow> string \<Rightarrow> session_pane option" where
  "findSessionPaneBySessionId (Leaf p) s = (if sp_sessionId p = s then Some p else None)"
| "findSessionPaneBySessionId (Split _ _ _ a b) s =
     (case findSessionPaneBySessionId a s of Some p \<Rightarrow> Some p | None \<Rightarrow> findSessionPaneBySessionId b s)"

text \<open>The updater may draw identifiers, so it passes the counter on.\<close>

fun updatePaneTree ::
    "pane_node \<Rightarrow> string \<Rightarrow> (pane_node \<Rightarrow> nat \<Rightarrow> pane_node \<times> nat) \<Rightarrow> nat \<Rightarrow> pane_node \<times> nat" where
  "updatePaneTree (Leaf p) paneId updater c =
     (if sp_id p = paneId then updater (Leaf p) c else (Leaf p, c))"
| "updatePaneTree (Split i dir r a b) paneId updater c =
     (if i = paneId then updater (Split i dir r a b) c
      else (let (nextFirst, c) = updatePaneTree a paneId updater c;
                (nextSecond, c) = updatePaneTree b paneId updater c
            in (Split i dir r nextFirst nextSecond, c)))"

definition pure_updater :: "(pane_node \<Rightarrow> pane_node) \<Rightarrow> pane_node \<Rightarrow> nat \<Rightarrow> pane_node \<times> nat" where
  "pure_updater f n c = (f n, c)"

fun replaceSessionReferences :: "pane_node \<Rightarrow> string \<Rightarrow> string \<Rightarrow> pane_node" where
  "replaceSessionReferences (Leaf p) old new =
     (if sp_sessionId p = old then Leaf (p\<lparr>sp_sessionId := new\<rparr>) else Leaf p)"
| "replaceSessionReferences (Split i dir r a b) old new =
     Split i dir r (replaceSessionReferences a old new) (replaceSessionReferences b old new)"

text \<open>A partial update: \<open>None\<close> is an absent key; for an optional property \<open>Some None\<close> is a key
  that is present with the value undefined.\<close>

record pane_updates =
  up_sessionId :: "string option"
  up_name :: "string option"
  up_type :: "session_type option"
  up_connectionId :: "string option option"
  up_connecting :: "bool option option"
  up_connectError :: "string option option"
  up_createRequestId :: "string option option"

definition or_else :: "'a option \<Rightarrow> 'a \<Rightarrow> 'a" where
  "or_else x y = (case x of Some v \<Rightarrow> v | None \<Rightarrow> y)"

definition apply_updates :: "pane_updates \<Rightarrow> session_pane \<Rightarrow> session_pane" where
  "apply_updates u p = p\<lparr>
     sp_sessionId := or_else (up_sessionId u) (sp_sessionId p),
     sp_name := or_else (up_name u) (sp_name p),
     sp_connectionId := or_else (up_connectionId u) (sp_connectionId p),
     sp_connecting := or_else (up_connecting u) (sp_connecting p),
     sp_connectError := or_else (up_connectError u) (sp_connectError p),
     sp_createRequestId := or_else (up_createRequestId u) (sp_createRequestId p)\<rparr>"

definition updateLeaf :: "pane_updates \<Rightarrow> pane_node \<Rightarrow> pane_node" where
  "updateLeaf u current =
     (case current of
        Split _ _ _ _ _ \<Rightarrow> current
      | Leaf p \<Rightarrow>
          if sp_paneKind p = KFile then current
          else (let type = or_else (up_type u) (sp_type p);
                    remoteDesktop = isRemoteDesktopSessionType type;
                    display = (if remoteDesktop
                               then Some (or_else (sp_display p) defaultRemoteDesktopDisplay)
                               else None)
                in Leaf ((apply_updates u p)\<lparr>sp_type := type,
                     sp_paneKind := if remoteDesktop then KRemoteDesktop else KTerminal,
                     sp_display := display\<rparr>)))"

definition updateSessionPane :: "pane_node \<Rightarrow> string \<Rightarrow> pane_updates \<Rightarrow> pane_node" where
  "updateSessionPane rt paneId updates =
     fst (updatePaneTree rt paneId (pure_updater (updateLeaf updates)) 0)"

definition splitLeaf ::
    "(nat \<Rightarrow> nat) \<Rightarrow> split_direction \<Rightarrow> session_pane \<Rightarrow> pane_node \<Rightarrow> nat \<Rightarrow> pane_node \<times> nat" where
  "splitLeaf now dir newPane current c =
     (case current of
        Split _ _ _ _ _ \<Rightarrow> (current, c)
      | Leaf _ \<Rightarrow> (let (i, c) = createWorkspaceId now ''split'' c
                   in (Split i dir (1 / 2) current (Leaf newPane), c)))"

definition splitSessionPane ::
    "(nat \<Rightarrow> nat) \<Rightarrow> pane_node \<Rightarrow> string \<Rightarrow> split_direction \<Rightarrow> session_pane \<Rightarrow> nat \<Rightarrow> pane_node \<times> nat" where
  "splitSessionPane now rt paneId dir newPane c =
     updatePaneTree rt paneId (splitLeaf now dir newPane) c"

definition setRatio :: "rat \<Rightarrow> pane_node \<Rightarrow> pane_node" where
  "setRatio ratio current =
     (case current of Split i dir _ a b \<Rightarrow> Split i dir (clampSplitRatio ratio) a b | Leaf _ \<Rightarrow> current)"

definition updateSplitRatio :: "pane_node \<Rightarrow> string \<Rightarrow> rat \<Rightarrow> pane_node" where
  "updateSplitRatio rt splitId ratio =
     fst (updatePaneTree rt splitId (pure_updater (setRatio ratio)) 0)"

fun removeSessionPane :: "pane_node \<Rightarrow> string \<Rightarrow> pane_node option" where
  "removeSessionPane (Leaf p) paneId = (if sp_id p = paneId then None else Some (Leaf p))"
| "removeSessionPane (Split i dir r a b) paneId =
     (case (removeSessionPane a paneId, removeSessionPane b paneId) of
        (None, None) \<Rightarrow> None
      | (None, Some nextSecond) \<Rightarrow> Some nextSecond
      | (Some nextFirst, None) \<Rightarrow> Some nextFirst
      | (Some nextFirst, Some nextSecond) \<Rightarrow> Some (Split i dir r nextFirst nextSecond))"

section \<open>Tabs\<close>

definition getActivePane :: "tab \<Rightarrow> session_pane option" where
  "getActivePane t =
     (case findSessionPaneById (tb_root t) (tb_activePaneId t) of Some p \<Rightarrow> Some p
      | None \<Rightarrow> getFirstSessionPane (tb_root t))"

definition getTabDisplayName :: "tab \<Rightarrow> string" where
  "getTabDisplayName t =
     (if or_else (tb_customName t) [] \<noteq> [] then the (tb_customName t)
      else (case getActivePane t of
              Some p \<Rightarrow> if sp_name p \<noteq> [] then sp_name p else ''Session''
            | None \<Rightarrow> ''Session''))"

definition getTabActiveSessionId :: "tab \<Rightarrow> string option" where
  "getTabActiveSessionId t = map_option sp_sessionId (getActivePane t)"

definition getTabActiveConnectionId :: "tab \<Rightarrow> string option" where
  "getTabActiveConnectionId t = Option.bind (getActivePane t) sp_connectionId"

definition getTabActiveType :: "tab \<Rightarrow> session_type option" where
  "getTabActiveType t = map_option sp_type (getActivePane t)"

definition ensureActivePane :: "tab \<Rightarrow> tab" where
  "ensureActivePane t =
     (case getActivePane t of None \<Rightarrow> t
      | Some p \<Rightarrow> if sp_id p = tb_activePaneId t then t else t\<lparr>tb_activePaneId := sp_id p\<rparr>)"

definition getNextPersistOrder :: "tab list \<Rightarrow> int" where
  "getNextPersistOrder tabs = foldl (\<lambda>m t. max m (tb_persistOrder t)) (-1) tabs + 1"

definition insertTabAfter :: "tab list \<Rightarrow> string \<Rightarrow> tab \<Rightarrow> tab list" where
  "insertTabAfter tabs afterTabId newTab =
     (case find_index (\<lambda>t. tb_id t = afterTabId) tabs of
        None \<Rightarrow> tabs @ [newTab]
      | Some i \<Rightarrow> splice_in (i + 1) newTab tabs)"

definition moveTab :: "tab list \<Rightarrow> string \<Rightarrow> int \<Rightarrow> tab list" where
  "moveTab tabs fromTabId toIndex =
     (case find_index (\<lambda>t. tb_id t = fromTabId) tabs of
        None \<Rightarrow> tabs
      | Some fromIndex \<Rightarrow>
          (let boundedIndex = nat (max 0 (min (int (length tabs) - 1) toIndex))
           in if fromIndex = boundedIndex then tabs
              else splice_in boundedIndex (tabs ! fromIndex) (splice_out fromIndex tabs)))"

definition findTabBySessionId :: "tab list \<Rightarrow> string \<Rightarrow> tab option" where
  "findTabBySessionId tabs s = find (\<lambda>t. findSessionPaneBySessionId (tb_root t) s \<noteq> None) tabs"

definition findPaneBySessionId :: "tab \<Rightarrow> string \<Rightarrow> session_pane option" where
  "findPaneBySessionId t s = findSessionPaneBySessionId (tb_root t) s"

record file_identity =
  fi_backend :: file_backend
  fi_sessionId :: string
  fi_path :: string

definition isOpenDocument :: "file_identity \<Rightarrow> session_pane \<Rightarrow> bool" where
  "isOpenDocument ident p =
     (sp_paneKind p = KFile \<and> sp_sessionId p = fi_sessionId ident
      \<and> (case sp_file p of None \<Rightarrow> False
         | Some f \<Rightarrow> fd_backend f = fi_backend ident \<and> fd_path f = fi_path ident))"

fun findOpenFileDocument :: "tab list \<Rightarrow> file_identity \<Rightarrow> (string \<times> string) option" where
  "findOpenFileDocument [] ident = None"
| "findOpenFileDocument (t # ts) ident =
     (case find (isOpenDocument ident) (collectSessionPanes (tb_root t)) of
        Some p \<Rightarrow> Some (tb_id t, sp_id p)
      | None \<Rightarrow> findOpenFileDocument ts ident)"

definition countSession :: "(string \<times> nat) list \<Rightarrow> session_pane \<Rightarrow> (string \<times> nat) list" where
  "countSession counts p =
     AList.update (sp_sessionId p) (or_else (map_of counts (sp_sessionId p)) 0 + 1) counts"

definition collectSessionReferenceCounts :: "tab list \<Rightarrow> (string \<times> nat) list" where
  "collectSessionReferenceCounts tabs =
     foldl (\<lambda>counts t. foldl countSession counts (collectSessionPanes (tb_root t))) [] tabs"

definition getReleasedSessionIds :: "tab list \<Rightarrow> tab list \<Rightarrow> string list" where
  "getReleasedSessionIds previousTabs nextTabs =
     (let previous = collectSessionReferenceCounts previousTabs;
          next = collectSessionReferenceCounts nextTabs
      in filter (\<lambda>s. map_of next s = None) (map fst previous))"

section \<open>Persistence\<close>

record restorable_leaf =
  rl_id :: "string option"
  rl_pane_kind :: "persisted_kind option"
  rl_title :: string
  rl_session_type :: string
  rl_connection_id :: "string option"
  rl_display :: "display option"

datatype restorable_node =
    RLeaf restorable_leaf
  | RSplit "string option" split_direction rat restorable_node restorable_node

record restorable_tab =
  rt_active_pane_id :: "string option"
  rt_root :: "restorable_node option"
  rt_title :: string
  rt_session_type :: string
  rt_connection_id :: "string option"
  rt_custom_name :: "string option"
  rt_tab_color :: "string option"
  rt_locked :: "bool option"

text \<open>The text of the string union types in the persisted form.\<close>

fun session_type_text :: "session_type \<Rightarrow> string" where
  "session_type_text SSH = ''SSH''"
| "session_type_text Local = ''Local''"
| "session_type_text Telnet = ''Telnet''"
| "session_type_text Serial = ''Serial''"
| "session_type_text RDP = ''RDP''"
| "session_type_text VNC = ''VNC''"

fun persist_kind :: "pane_kind \<Rightarrow> persisted_kind" where
  "persist_kind KTerminal = PTerminal"
| "persist_kind KRemoteDesktop = PRemoteDesktop"
| "persist_kind KFile = PFile"

fun serializePane :: "pane_node \<Rightarrow> restorable_node option" where
  "serializePane (Leaf p) =
     (if sp_paneKind p = KFile then None
      else Some (RLeaf \<lparr>rl_id = Some (sp_id p), rl_pane_kind = Some (persist_kind (sp_paneKind p)),
             rl_title = sp_name p, rl_session_type = session_type_text (sp_type p),
             rl_connection_id = sp_connectionId p,
             rl_display = if isRemoteDesktopPane (Leaf p) then sp_display p else None\<rparr>))"
| "serializePane (Split i dir r a b) =
     (case (serializePane a, serializePane b) of
        (None, second) \<Rightarrow> second
      | (Some first, None) \<Rightarrow> Some first
      | (Some first, Some second) \<Rightarrow> Some (RSplit (Some i) dir (clampSplitRatio r) first second))"

fun findFirstRestorableLeaf :: "restorable_node \<Rightarrow> restorable_leaf" where
  "findFirstRestorableLeaf (RLeaf l) = l"
| "findFirstRestorableLeaf (RSplit _ _ _ a b) = findFirstRestorableLeaf a"

fun hasRestorablePaneId :: "restorable_node \<Rightarrow> string \<Rightarrow> bool" where
  "hasRestorablePaneId (RLeaf l) paneId = (rl_id l = Some paneId)"
| "hasRestorablePaneId (RSplit _ _ _ a b) paneId =
     (hasRestorablePaneId a paneId \<or> hasRestorablePaneId b paneId)"

definition serializeTab :: "tab \<Rightarrow> restorable_tab list" where
  "serializeTab t =
     (case serializePane (tb_root t) of
        None \<Rightarrow> []
      | Some r \<Rightarrow>
          (let fallback = findFirstRestorableLeaf r;
               activePaneId = (if hasRestorablePaneId r (tb_activePaneId t)
                               then Some (tb_activePaneId t) else rl_id fallback)
           in [\<lparr>rt_active_pane_id = activePaneId, rt_root = Some r,
                rt_title = (if or_else (tb_customName t) [] \<noteq> [] then the (tb_customName t)
                            else rl_title fallback),
                rt_session_type = rl_session_type fallback,
                rt_connection_id = rl_connection_id fallback,
                rt_custom_name = tb_customName t, rt_tab_color = tb_tabColor t,
                rt_locked = tb_locked t\<rparr>]))"

definition serializeTabsForPersistence :: "tab list \<Rightarrow> restorable_tab list" where
  "serializeTabsForPersistence tabs = concat (map serializeTab (sort_key tb_persistOrder tabs))"

definition normalizeSessionType :: "string \<Rightarrow> session_type option" where
  "normalizeSessionType v =
     (if v = ''SSH'' then Some SSH
      else if v = ''Local'' \<or> v = ''local'' then Some Local
      else if v = ''Telnet'' then Some Telnet
      else if v = ''Serial'' then Some Serial
      else if v = ''RDP'' \<or> v = ''rdp'' then Some RDP
      else if v = ''VNC'' \<or> v = ''vnc'' then Some VNC
      else None)"

definition createLegacyPaneNode :: "restorable_tab \<Rightarrow> restorable_node option" where
  "createLegacyPaneNode t =
     (case normalizeSessionType (rt_session_type t) of
        None \<Rightarrow> None
      | Some type \<Rightarrow>
          Some (RLeaf \<lparr>rl_id = None, rl_pane_kind = None,
            rl_title = (if rt_title t \<noteq> [] then rt_title t else ''Session''),
            rl_session_type = session_type_text type, rl_connection_id = rt_connection_id t,
            rl_display = None\<rparr>))"

text \<open>The pane kind a persisted leaf claims, with the legacy name of the remote desktop kind.\<close>

fun restored_kind :: "persisted_kind option \<Rightarrow> bool \<Rightarrow> pane_kind" where
  "restored_kind (Some PRdp) remoteDesktop = KRemoteDesktop"
| "restored_kind (Some PRemoteDesktop) remoteDesktop = KRemoteDesktop"
| "restored_kind (Some PTerminal) remoteDesktop = KTerminal"
| "restored_kind (Some PFile) remoteDesktop = KFile"
| "restored_kind None remoteDesktop = (if remoteDesktop then KRemoteDesktop else KTerminal)"

definition merge_display :: "display \<Rightarrow> display option \<Rightarrow> display" where
  "merge_display base given =
     (case given of None \<Rightarrow> base
      | Some d \<Rightarrow> \<lparr>dp_remoteWidth = (case dp_remoteWidth d of None \<Rightarrow> dp_remoteWidth base | v \<Rightarrow> v),
                   dp_remoteHeight = (case dp_remoteHeight d of None \<Rightarrow> dp_remoteHeight base | v \<Rightarrow> v),
                   dp_scaleMode = (case dp_scaleMode d of None \<Rightarrow> dp_scaleMode base | v \<Rightarrow> v),
                   dp_viewOnly = (case dp_viewOnly d of None \<Rightarrow> dp_viewOnly base | v \<Rightarrow> v),
                   dp_clipboardEnabled =
                     (case dp_clipboardEnabled d of None \<Rightarrow> dp_clipboardEnabled base | v \<Rightarrow> v)\<rparr>)"

text \<open>\<open>node.id || createWorkspaceId(prefix)\<close>: an empty id counts as missing.\<close>

definition truthy_id_or_new :: "(nat \<Rightarrow> nat) \<Rightarrow> string \<Rightarrow> string option \<Rightarrow> nat \<Rightarrow> string \<times> nat" where
  "truthy_id_or_new now prefix given c =
     (if or_else given [] \<noteq> [] then (or_else given [], c) else createWorkspaceId now prefix c)"

fun restorePane :: "(nat \<Rightarrow> nat) \<Rightarrow> (nat \<Rightarrow> string) \<Rightarrow> restorable_node \<Rightarrow> nat \<Rightarrow> pane_node option \<times> nat" where
  "restorePane now uuid (RLeaf l) c =
     (case normalizeSessionType (rl_session_type l) of
        None \<Rightarrow> (None, c)
      | Some type \<Rightarrow>
          if rl_pane_kind l = Some PFile then (None, c)
          else (let remoteDesktop = isRemoteDesktopSessionType type;
                    paneKind = restored_kind (rl_pane_kind l) remoteDesktop
                in if (paneKind = KRemoteDesktop) \<noteq> remoteDesktop then (None, c)
                   else (let (i, c) = truthy_id_or_new now ''pane'' (rl_id l) c;
                             (s, c) = createWorkspaceId now ''pending'' c
                         in (Some (Leaf \<lparr>sp_id = i, sp_paneKind = paneKind, sp_sessionId = s,
                               sp_name = rl_title l, sp_type = type,
                               sp_connectionId = rl_connection_id l,
                               sp_display = (if remoteDesktop
                                 then Some (merge_display defaultRemoteDesktopDisplay (rl_display l))
                                 else None),
                               sp_file = None, sp_temporaryConfig = None, sp_connecting = Some True,
                               sp_createRequestId = Some (uuid c), sp_connectError = None\<rparr>), c))))"
| "restorePane now uuid (RSplit i dir r a b) c =
     (let (first, c) = restorePane now uuid a c;
          (second, c) = restorePane now uuid b c
      in case (first, second) of
           (None, None) \<Rightarrow> (None, c)
         | (None, Some s) \<Rightarrow> (Some s, c)
         | (Some f, None) \<Rightarrow> (Some f, c)
         | (Some f, Some s) \<Rightarrow>
             (let (j, c) = truthy_id_or_new now ''split'' i c
              in (Some (Split j dir (clampSplitRatio r) f s), c)))"

definition restoreTabFromPersistence ::
    "(nat \<Rightarrow> nat) \<Rightarrow> (nat \<Rightarrow> string) \<Rightarrow> restorable_tab \<Rightarrow> int \<Rightarrow> nat \<Rightarrow> tab option \<times> nat" where
  "restoreTabFromPersistence now uuid t persistOrder c =
     (case (case rt_root t of Some r \<Rightarrow> Some r | None \<Rightarrow> createLegacyPaneNode t) of
        None \<Rightarrow> (None, c)
      | Some restorableRoot \<Rightarrow>
          (case restorePane now uuid restorableRoot c of
             (None, c) \<Rightarrow> (None, c)
           | (Some rt, c) \<Rightarrow>
               (let (i, c) = createWorkspaceId now ''tab'' c
                in (Some (ensureActivePane
                     \<lparr>tb_id = i, tb_persistOrder = persistOrder,
                      tb_activePaneId =
                        (if or_else (rt_active_pane_id t) [] \<noteq> [] then or_else (rt_active_pane_id t) []
                         else (case getFirstSessionPane rt of Some p \<Rightarrow> sp_id p | None \<Rightarrow> [])),
                      tb_root = rt, tb_customName = rt_custom_name t, tb_tabColor = rt_tab_color t,
                      tb_locked = rt_locked t\<rparr>), c))))"

section \<open>Identifiers of a tree\<close>

fun node_ids :: "pane_node \<Rightarrow> string list" where
  "node_ids (Leaf p) = [sp_id p]"
| "node_ids (Split i _ _ a b) = i # node_ids a @ node_ids b"

text \<open>An identifier that may exist when the counter stands at \<open>c\<close>.\<close>

definition minted :: "nat \<Rightarrow> string \<Rightarrow> bool" where
  "minted c i \<longleftrightarrow> (\<forall>p t n. i = make_id p t n \<longrightarrow> n \<le> c)"

definition tree_wf :: "nat \<Rightarrow> pane_node \<Rightarrow> bool" where
  "tree_wf c n \<longleftrightarrow> distinct (node_ids n) \<and> list_all (minted c) (node_ids n)"

lemma minted_mono: "minted c i \<Longrightarrow> c \<le> d \<Longrightarrow> minted d i"
  unfolding minted_def by (metis le_trans)

lemma minted_all_mono: "list_all (minted c) xs \<Longrightarrow> c \<le> d \<Longrightarrow> list_all (minted d) xs"
  by (auto simp: list_all_iff intro: minted_mono)

lemma minted_make_id: "minted n (make_id p t n)"
  unfolding minted_def using make_id_inj by force

lemma fresh_not_minted: "c < n \<Longrightarrow> \<not> minted c (make_id p t n)"
  unfolding minted_def by (metis leD)

lemma fresh_not_in: "list_all (minted c) xs \<Longrightarrow> c < n \<Longrightarrow> make_id p t n \<notin> set xs"
  using fresh_not_minted by (auto simp: list_all_iff)

lemma leaf_ids: "p \<in> set (collectSessionPanes n) \<Longrightarrow> sp_id p \<in> set (node_ids n)"
  by (induction n) auto

lemma find_leaf_mem: "findPaneById n i = Some m \<Longrightarrow> i \<in> set (node_ids n)"
  by (induction n) (auto split: if_splits option.splits)

lemma find_pane_leaf:
  "findPaneById n i = Some (Leaf p) \<Longrightarrow> p \<in> set (collectSessionPanes n) \<and> sp_id p = i"
  by (induction n) (auto split: if_splits option.splits)

lemma find_leaf_some:
  "findSessionPaneById n i = Some p \<Longrightarrow> p \<in> set (collectSessionPanes n) \<and> sp_id p = i"
  by (auto simp: findSessionPaneById_def find_pane_leaf split: option.splits pane_node.splits)

lemma find_leaf_none: "i \<notin> set (node_ids n) \<Longrightarrow> findPaneById n i = None"
  using find_leaf_mem by fastforce

lemma find_leaf:
  "distinct (node_ids n) \<Longrightarrow> p \<in> set (collectSessionPanes n) \<Longrightarrow> findPaneById n (sp_id p) = Some (Leaf p)"
proof (induction n)
  case (Split i dir r a b)
  then have "sp_id p \<noteq> i" using leaf_ids [of p "Split i dir r a b"] leaf_ids [of p a] leaf_ids [of p b] by auto
  moreover have "p \<in> set (collectSessionPanes b) \<Longrightarrow> findPaneById a (sp_id p) = None"
    using Split.prems(1) leaf_ids [of p b] by (intro find_leaf_none) auto
  ultimately show ?case using Split by (auto split: option.split)
qed simp

section \<open>Splitting and removing\<close>

lemma update_absent: "i \<notin> set (node_ids n) \<Longrightarrow> updatePaneTree n i f c = (n, c)"
  by (induction n arbitrary: c) auto

lemma remove_absent:
  "i \<notin> sp_id ` set (collectSessionPanes n) \<Longrightarrow> removeSessionPane n i = Some n"
  by (induction n) (auto simp: image_Un)

lemma remove_collect:
  "(case removeSessionPane n i of None \<Rightarrow> [] | Some m \<Rightarrow> collectSessionPanes m)
     = filter (\<lambda>p. sp_id p \<noteq> i) (collectSessionPanes n)"
  by (induction n) (auto split: option.splits)

lemma remove_ids: "removeSessionPane n i = Some m \<Longrightarrow> set (node_ids m) \<subseteq> set (node_ids n)"
  by (induction n arbitrary: m) (auto split: option.splits if_splits)

lemma remove_distinct:
  "removeSessionPane n i = Some m \<Longrightarrow> distinct (node_ids n) \<Longrightarrow> distinct (node_ids m)"
proof (induction n arbitrary: m)
  case (Split k dir r a b)
  show ?case
  proof (cases "removeSessionPane a i = None \<or> removeSessionPane b i = None")
    case True
    with Split show ?thesis by (auto split: option.splits)
  next
    case False
    then obtain a' b' where ab: "removeSessionPane a i = Some a'" "removeSessionPane b i = Some b'" by auto
    with Split have "distinct (node_ids a')" "distinct (node_ids b')" "m = Split k dir r a' b'" by auto
    moreover have "set (node_ids a') \<subseteq> set (node_ids a)" "set (node_ids b') \<subseteq> set (node_ids b)"
      using ab remove_ids by blast+
    ultimately show ?thesis using Split.prems(2) by auto
  qed
qed (auto split: if_splits)

lemma collect_nonempty [simp]: "collectSessionPanes n \<noteq> []"
  by (induction n) auto

lemma remove_none:
  "removeSessionPane n i = None \<longleftrightarrow> (\<forall>p \<in> set (collectSessionPanes n). sp_id p = i)"
proof -
  have "removeSessionPane n i = None \<longleftrightarrow>
        (case removeSessionPane n i of None \<Rightarrow> [] | Some m \<Rightarrow> collectSessionPanes m) = []"
    by (auto split: option.split)
  then show ?thesis by (auto simp: remove_collect filter_empty_conv)
qed

text \<open>The effect of one split, with the drawn id \<open>j\<close>.\<close>

definition split_of :: "pane_node \<Rightarrow> session_pane \<Rightarrow> session_pane \<Rightarrow> string \<Rightarrow> pane_node \<Rightarrow> bool" where
  "split_of n p q j m \<longleftrightarrow>
     (\<exists>xs ys. collectSessionPanes n = xs @ p # ys \<and> collectSessionPanes m = xs @ p # q # ys)
     \<and> mset (node_ids m) = mset (node_ids n) + {#j, sp_id q#}
     \<and> (sp_id q \<notin> set (node_ids n) \<longrightarrow> removeSessionPane m (sp_id q) = Some n)"

lemma split_of_first:
  assumes "split_of a p q j m"
  shows "split_of (Split i dir r a b) p q j (Split i dir r m b)"
proof -
  have "sp_id q \<notin> set (node_ids b) \<Longrightarrow> removeSessionPane b (sp_id q) = Some b"
    using leaf_ids by (intro remove_absent) fastforce
  with assms show ?thesis by (fastforce simp: split_of_def)
qed

lemma split_of_second:
  assumes "split_of b p q j m"
  shows "split_of (Split i dir r a b) p q j (Split i dir r a m)"
proof -
  have "sp_id q \<notin> set (node_ids a) \<Longrightarrow> removeSessionPane a (sp_id q) = Some a"
    using leaf_ids by (intro remove_absent) fastforce
  moreover obtain xs ys where "collectSessionPanes b = xs @ p # ys" "collectSessionPanes m = xs @ p # q # ys"
    using assms by (auto simp: split_of_def)
  then have "\<exists>xs ys. collectSessionPanes (Split i dir r a b) = xs @ p # ys
      \<and> collectSessionPanes (Split i dir r a m) = xs @ p # q # ys"
    by (metis append.assoc collectSessionPanes.simps(2))
  ultimately show ?thesis using assms by (simp add: split_of_def)
qed

lemma split_effect:
  assumes "distinct (node_ids n)" and "p \<in> set (collectSessionPanes n)"
    and j_def: "j = make_id ''split'' (now (c + 1)) (c + 1)"
  shows "\<exists>m. splitSessionPane now n (sp_id p) dir q c = (m, c + 1) \<and> split_of n p q j m"
  using assms(1,2)
proof (induction n)
  case (Leaf p')
  then show ?case
    by (auto simp: splitSessionPane_def splitLeaf_def createWorkspaceId_def split_of_def j_def)
next
  case (Split i d r a b)
  have ids: "p \<in> set (collectSessionPanes a) \<Longrightarrow> sp_id p \<in> set (node_ids a)"
    "p \<in> set (collectSessionPanes b) \<Longrightarrow> sp_id p \<in> set (node_ids b)"
    by (simp_all add: leaf_ids)
  show ?case
  proof (cases "p \<in> set (collectSessionPanes a)")
    case True
    with Split.IH(1) Split.prems obtain m where
      m: "splitSessionPane now a (sp_id p) dir q c = (m, c + 1)" "split_of a p q j m" by auto
    have "updatePaneTree b (sp_id p) (splitLeaf now dir q) (c + 1) = (b, c + 1)"
      using Split.prems(1) ids(1) True by (intro update_absent) auto
    with m True ids(1) Split.prems(1) split_of_first [OF m(2)] show ?thesis
      by (auto simp: splitSessionPane_def)
  next
    case False
    with Split.prems have inb: "p \<in> set (collectSessionPanes b)" by simp
    with Split.IH(2) Split.prems obtain m where
      m: "splitSessionPane now b (sp_id p) dir q c = (m, c + 1)" "split_of b p q j m" by auto
    have "updatePaneTree a (sp_id p) (splitLeaf now dir q) c = (a, c)"
      using Split.prems(1) ids(2) inb by (intro update_absent) auto
    with m inb ids(2) Split.prems(1) split_of_second [OF m(2)] show ?thesis
      by (auto simp: splitSessionPane_def)
  qed
qed

lemma split_wf:
  assumes "tree_wf c n" and "split_of n p q j m" and "sp_id q \<notin> set (node_ids n)" and "minted c (sp_id q)"
    and "j = make_id x t (c + 1)"
  shows "tree_wf (c + 1) m"
proof -
  have ms: "mset (node_ids m) = mset (j # sp_id q # node_ids n)" using assms(2) by (simp add: split_of_def)
  have "j \<notin> set (sp_id q # node_ids n)"
    using assms fresh_not_in [of c "sp_id q # node_ids n" "c + 1"] by (simp add: tree_wf_def)
  then have "distinct (j # sp_id q # node_ids n)" using assms(1,3) by (simp add: tree_wf_def)
  moreover have "list_all (minted (c + 1)) (j # sp_id q # node_ids n)"
    using assms minted_make_id minted_mono [of c _ "c + 1"] minted_all_mono [of c _ "c + 1"]
    by (auto simp: tree_wf_def)
  ultimately show ?thesis using ms mset_eq_imp_distinct_iff [OF ms] mset_eq_setD [OF ms]
    by (simp add: tree_wf_def list_all_iff)
qed

section \<open>Restoring what was serialized\<close>

definition full_display :: "display option \<Rightarrow> bool" where
  "full_display d \<longleftrightarrow> (case d of None \<Rightarrow> False
     | Some x \<Rightarrow> dp_remoteWidth x \<noteq> None \<and> dp_remoteHeight x \<noteq> None \<and> dp_scaleMode x \<noteq> None)"

text \<open>A leaf as the module creates it: a nonempty id, and a kind that agrees with its type.\<close>

definition leaf_ok :: "session_pane \<Rightarrow> bool" where
  "leaf_ok p \<longleftrightarrow> sp_id p \<noteq> [] \<and>
     (sp_paneKind p \<noteq> KFile \<longrightarrow>
        (sp_paneKind p = KRemoteDesktop) = isRemoteDesktopSessionType (sp_type p)
        \<and> (sp_paneKind p = KRemoteDesktop \<longrightarrow> full_display (sp_display p)))"

fun node_ok :: "pane_node \<Rightarrow> bool" where
  "node_ok (Leaf p) = leaf_ok p"
| "node_ok (Split i _ _ a b) = (i \<noteq> [] \<and> node_ok a \<and> node_ok b)"

lemma normalize_text [simp]: "normalizeSessionType (session_type_text t) = Some t"
  by (cases t) (simp_all add: normalizeSessionType_def)

lemma merge_full: "full_display d \<Longrightarrow> Some (merge_display defaultRemoteDesktopDisplay d) = d"
  by (cases "the d") (auto simp: full_display_def merge_display_def defaultRemoteDesktopDisplay_def
      split: option.splits)

lemma clamp_ratio_idem [simp]: "clampSplitRatio (clampSplitRatio r) = clampSplitRatio r"
  by (auto simp: clampSplitRatio_def max_def min_def)

lemma restored_kind_persist [simp]: "k \<noteq> KFile \<Longrightarrow> restored_kind (Some (persist_kind k)) b = k"
  by (cases k) auto

lemma persist_not_file [simp]: "persist_kind k = PFile \<longleftrightarrow> k = KFile"
  by (cases k) auto

lemma truthy_some [simp]: "i \<noteq> [] \<Longrightarrow> truthy_id_or_new now x (Some i) c = (i, c)"
  by (simp add: truthy_id_or_new_def or_else_def)

lemma restore_leaf:
  assumes "leaf_ok p" and "serializePane (Leaf p) = Some r"
  shows "\<exists>p' c'. restorePane now uuid r c = (Some (Leaf p'), c') \<and> serializePane (Leaf p') = Some r
           \<and> sp_id p' = sp_id p"
  using assms
  by (auto simp: leaf_ok_def isRemoteDesktopPane_def merge_full createWorkspaceId_def Let_def
      split: if_splits)

fun rnode_ids :: "restorable_node \<Rightarrow> string list" where
  "rnode_ids (RLeaf l) = [or_else (rl_id l) []]"
| "rnode_ids (RSplit i _ _ a b) = or_else i [] # rnode_ids a @ rnode_ids b"

lemma serialize_ids: "serializePane n = Some r \<Longrightarrow> set (rnode_ids r) \<subseteq> set (node_ids n)"
  by (induction n arbitrary: r) (auto simp: or_else_def split: option.splits if_splits)

lemma serialize_distinct:
  "serializePane n = Some r \<Longrightarrow> distinct (node_ids n) \<Longrightarrow> distinct (rnode_ids r)"
proof (induction n arbitrary: r)
  case (Split k dir q a b)
  show ?case
  proof (cases "serializePane a = None \<or> serializePane b = None")
    case True
    with Split show ?thesis by (auto split: option.splits)
  next
    case False
    then obtain a' b' where ab: "serializePane a = Some a'" "serializePane b = Some b'" by auto
    with Split have "distinct (rnode_ids a')" "distinct (rnode_ids b')"
      "r = RSplit (Some k) dir (clampSplitRatio q) a' b'" by auto
    moreover have "set (rnode_ids a') \<subseteq> set (node_ids a)" "set (rnode_ids b') \<subseteq> set (node_ids b)"
      using ab serialize_ids by blast+
    ultimately show ?thesis using Split.prems(2) by (auto simp: or_else_def)
  qed
qed (auto simp: or_else_def split: if_splits)

lemma restore_serialized:
  "node_ok n \<Longrightarrow> serializePane n = Some r \<Longrightarrow>
   \<exists>m c'. restorePane now uuid r c = (Some m, c') \<and> serializePane m = Some r \<and> node_ids m = rnode_ids r"
proof (induction n arbitrary: r c)
  case (Leaf p)
  then have "leaf_ok p" by simp
  from restore_leaf [OF this Leaf.prems(2), of now uuid c] Leaf.prems(2) show ?case
    by (fastforce simp: or_else_def split: if_splits)
next
  case (Split k dir q a b)
  show ?case
  proof (cases "serializePane a = None \<or> serializePane b = None")
    case True
    with Split show ?thesis by (auto split: option.splits)
  next
    case False
    then obtain a' b' where ab: "serializePane a = Some a'" "serializePane b = Some b'" by auto
    with Split.prems have r: "r = RSplit (Some k) dir (clampSplitRatio q) a' b'" "k \<noteq> []" by auto
    obtain m c1 where m: "restorePane now uuid a' c = (Some m, c1)" "serializePane m = Some a'"
      "node_ids m = rnode_ids a'" using Split.IH(1) [of a' c] Split.prems ab by auto
    obtain m' c2 where m': "restorePane now uuid b' c1 = (Some m', c2)" "serializePane m' = Some b'"
      "node_ids m' = rnode_ids b'" using Split.IH(2) [of b' c1] Split.prems ab by auto
    show ?thesis using r m m' by (simp add: or_else_def)
  qed
qed

lemma has_id_leaf:
  "serializePane n = Some r \<Longrightarrow> hasRestorablePaneId r i \<Longrightarrow> \<exists>p \<in> set (collectSessionPanes n). sp_id p = i"
  by (induction n arbitrary: r) (fastforce split: option.splits if_splits)+

lemma first_has_id:
  "serializePane n = Some r \<Longrightarrow> \<exists>i. rl_id (findFirstRestorableLeaf r) = Some i \<and> hasRestorablePaneId r i"
proof (induction n arbitrary: r)
  case (Split k dir q a b)
  show ?case
  proof (cases "serializePane a")
    case None
    with Split show ?thesis by auto
  next
    case (Some a')
    with Split show ?thesis by (auto split: option.splits)
  qed
qed (auto split: if_splits)

lemma node_ok_ids: "node_ok n \<Longrightarrow> [] \<notin> set (node_ids n)"
  by (induction n) (auto simp: leaf_ok_def)

lemma first_leaf [simp]: "getFirstSessionPane n \<noteq> None"
  by (induction n) (auto split: option.split)

lemma active_pane_found:
  assumes "distinct (node_ids (tb_root t))" and "p \<in> set (collectSessionPanes (tb_root t))"
    and "sp_id p = tb_activePaneId t"
  shows "getActivePane t = Some p" and "ensureActivePane t = t"
proof -
  have "findSessionPaneById (tb_root t) (tb_activePaneId t) = Some p"
    using find_leaf [OF assms(1,2)] assms(3) by (simp add: findSessionPaneById_def)
  then show "getActivePane t = Some p" by (simp add: getActivePane_def)
  with assms(3) show "ensureActivePane t = t" by (simp add: ensureActivePane_def)
qed

lemma restore_serialized_tab:
  assumes ok: "node_ok (tb_root t)" "distinct (node_ids (tb_root t))" and ser: "serializeTab t = [r]"
  shows "\<exists>t' p c'. restoreTabFromPersistence now uuid r order c = (Some t', c') \<and> serializeTab t' = [r]
           \<and> tb_persistOrder t' = order
           \<and> getActivePane t' = Some p \<and> tb_activePaneId t' = sp_id p"
proof -
  obtain q where q: "serializePane (tb_root t) = Some q"
    using ser by (auto simp: serializeTab_def split: option.splits)
  obtain m c1 where m: "restorePane now uuid q c = (Some m, c1)" "serializePane m = Some q"
    "node_ids m = rnode_ids q" using restore_serialized [OF ok(1) q] by blast
  obtain i where i: "rl_id (findFirstRestorableLeaf q) = Some i" "hasRestorablePaneId q i"
    using first_has_id [OF q] by blast
  define a where "a = (if hasRestorablePaneId q (tb_activePaneId t) then tb_activePaneId t else i)"
  have a: "hasRestorablePaneId q a" using i by (simp add: a_def)
  obtain p where p: "p \<in> set (collectSessionPanes m)" "sp_id p = a" using has_id_leaf [OF m(2) a] by blast
  have "a \<in> set (node_ids (tb_root t))"
    using leaf_ids [OF p(1)] p(2) m(3) serialize_ids [OF q] by auto
  then have ne: "a \<noteq> []" using node_ok_ids [OF ok(1)] by auto
  have dm: "distinct (node_ids m)" using serialize_distinct [OF q ok(2)] m(3) by simp
  have r: "r = \<lparr>rt_active_pane_id = Some a, rt_root = Some q,
                rt_title = (if or_else (tb_customName t) [] \<noteq> [] then the (tb_customName t)
                            else rl_title (findFirstRestorableLeaf q)),
                rt_session_type = rl_session_type (findFirstRestorableLeaf q),
                rt_connection_id = rl_connection_id (findFirstRestorableLeaf q),
                rt_custom_name = tb_customName t, rt_tab_color = tb_tabColor t,
                rt_locked = tb_locked t\<rparr>"
    using ser q i by (auto simp: serializeTab_def a_def Let_def)
  let ?t = "\<lparr>tb_id = make_id ''tab'' (now (c1 + 1)) (c1 + 1), tb_persistOrder = order, tb_activePaneId = a,
             tb_root = m, tb_customName = tb_customName t, tb_tabColor = tb_tabColor t,
             tb_locked = tb_locked t\<rparr>"
  have act: "getActivePane ?t = Some p" "ensureActivePane ?t = ?t"
    using active_pane_found [of ?t p] dm p by auto
  have "restoreTabFromPersistence now uuid r order c = (Some ?t, c1 + 1)"
    using m(1) ne act(2) by (simp add: restoreTabFromPersistence_def r createWorkspaceId_def or_else_def)
  moreover have "serializeTab ?t = [r]"
    using m(2) a by (simp add: serializeTab_def r Let_def)
  ultimately show ?thesis using act(1) p(2) by auto
qed

section \<open>Released sessions\<close>

definition tab_sessions :: "tab list \<Rightarrow> string list" where
  "tab_sessions tabs = concat (map (\<lambda>t. map sp_sessionId (collectSessionPanes (tb_root t))) tabs)"

lemma count_keys:
  "distinct (map fst cs) \<Longrightarrow>
   distinct (map fst (foldl countSession cs ps)) \<and>
   set (map fst (foldl countSession cs ps)) = set (map fst cs) \<union> sp_sessionId ` set ps"
proof (induction ps arbitrary: cs)
  case (Cons p ps)
  have "distinct (map fst (countSession cs p))"
    using Cons.prems by (simp add: countSession_def distinct_update)
  moreover have "set (map fst (countSession cs p)) = insert (sp_sessionId p) (set (map fst cs))"
    by (auto simp: countSession_def update_keys)
  ultimately show ?case using Cons.IH [of "countSession cs p"] by auto
qed simp

lemma reference_keys_fold:
  "distinct (map fst cs) \<Longrightarrow>
   (let r = foldl (\<lambda>counts t. foldl countSession counts (collectSessionPanes (tb_root t))) cs tabs
    in distinct (map fst r) \<and> set (map fst r) = set (map fst cs) \<union> set (tab_sessions tabs))"
proof (induction tabs arbitrary: cs)
  case (Cons t ts)
  note k = count_keys [OF Cons.prems, of "collectSessionPanes (tb_root t)"]
  from Cons.IH [OF conjunct1 [OF k]] k show ?case by (auto simp: tab_sessions_def Let_def)
qed (simp add: tab_sessions_def)

lemma reference_keys:
  "distinct (map fst (collectSessionReferenceCounts tabs))"
  "set (map fst (collectSessionReferenceCounts tabs)) = set (tab_sessions tabs)"
  using reference_keys_fold [of "[]" tabs] by (simp_all add: collectSessionReferenceCounts_def Let_def)

lemma released_set: "set (getReleasedSessionIds prev next) = set (tab_sessions prev) - set (tab_sessions next)"
proof -
  have "map_of m s = None \<longleftrightarrow> s \<notin> set (map fst m)" for m :: "(string \<times> nat) list" and s
    by (simp add: map_of_eq_None_iff)
  then show ?thesis using reference_keys [of prev] reference_keys [of "next"]
    by (auto simp: getReleasedSessionIds_def Let_def)
qed

section \<open>Tab order\<close>

lemma move_splice:
  assumes "i < length xs" and "j < length xs"
  shows "splice_in j (xs ! i) (splice_out i xs) ! j = xs ! i"
    and "mset (splice_in j (xs ! i) (splice_out i xs)) = mset xs"
    and "\<not> P (xs ! i) \<Longrightarrow> filter P (splice_in j (xs ! i) (splice_out i xs)) = filter P xs"
proof -
  have len: "j \<le> length (splice_out i xs)" using assms by (simp add: splice_out_def)
  then show "splice_in j (xs ! i) (splice_out i xs) ! j = xs ! i" by (simp add: splice_in_def nth_append)
  show "mset (splice_in j (xs ! i) (splice_out i xs)) = mset xs" using mset_splice_out [OF assms(1)] by simp
  assume no: "\<not> P (xs ! i)"
  have "filter P (splice_in j x ys) = filter P ys" if "\<not> P x" for x ys
  proof -
    have "filter P ys = filter P (take j ys @ drop j ys)" by simp
    then show ?thesis using that by (simp add: splice_in_def del: append_take_drop_id)
  qed
  moreover have "filter P (take i xs @ xs ! i # drop (Suc i) xs) = filter P (splice_out i xs)"
    using no by (simp add: splice_out_def)
  then have "filter P xs = filter P (splice_out i xs)" using assms(1) by (simp add: id_take_nth_drop [symmetric])
  ultimately show "filter P (splice_in j (xs ! i) (splice_out i xs)) = filter P xs" using no by simp
qed

lemma fold_max_upper: "(m :: int) \<le> foldl (\<lambda>m t. max m (f t)) m ts \<and> (\<forall>t \<in> set ts. f t \<le> foldl (\<lambda>m t. max m (f t)) m ts)"
proof (induction ts arbitrary: m)
  case (Cons t ts)
  from Cons.IH [of "max m (f t)"] show ?case by auto
qed simp

section \<open>Properties\<close>

text \<open>C11: opening a new pane beside an existing one. In a tree whose node ids are distinct and
  were drawn before the counter value \<open>c\<close>, creating a session pane and splitting the pane
  with id \<open>paneId\<close> inserts the new pane right after it in reading order, keeps the ids
  distinct although two new ones were drawn, and removing the new pane again gives back
  exactly the old tree.\<close>

theorem split_session_pane_correct:
  assumes wf: "tree_wf c rt" and found: "findSessionPaneById rt paneId = Some p"
    and new: "createSessionPane now name type conn None c = (newPane, c1)"
    and split: "splitSessionPane now rt paneId dir newPane c1 = (rt', c2)"
  shows "tree_wf c2 rt' \<and> removeSessionPane rt' (sp_id newPane) = Some rt
         \<and> (\<exists>xs ys. collectSessionPanes rt = xs @ p # ys
                  \<and> collectSessionPanes rt' = xs @ p # newPane # ys)"
proof -
  have nid: "sp_id newPane = make_id ''pane'' (now (c + 1)) (c + 1)" and c1: "c1 = c + 2"
    using new by (auto simp: createSessionPane_def id_or_new_def createWorkspaceId_def Let_def)
  have p: "p \<in> set (collectSessionPanes rt)" "sp_id p = paneId" using find_leaf_some [OF found] by auto
  have d: "distinct (node_ids rt)" "list_all (minted c) (node_ids rt)" using wf by (auto simp: tree_wf_def)
  have fresh: "sp_id newPane \<notin> set (node_ids rt)" unfolding nid using d(2) by (rule fresh_not_in) simp
  have sp: "c2 = c1 + 1" "split_of rt p newPane (make_id ''split'' (now (c1 + 1)) (c1 + 1)) rt'"
    using split_effect [OF d(1) p(1) refl, where now = now and c = c1 and q = newPane and dir = dir]
      split p(2) by auto
  have "tree_wf c1 rt" "minted c1 (sp_id newPane)"
    using d minted_all_mono [of c _ c1] minted_mono [OF minted_make_id] by (auto simp: c1 nid tree_wf_def)
  then have "tree_wf c2 rt'" using split_wf [OF _ sp(2) fresh] sp(1) by blast
  with sp(2) fresh show ?thesis by (auto simp: split_of_def)
qed

definition demo_pane :: "string \<Rightarrow> session_pane" where
  "demo_pane i = \<lparr>sp_id = i, sp_paneKind = KTerminal, sp_sessionId = ''s'' @ i, sp_name = ''shell'',
     sp_type = SSH, sp_connectionId = None, sp_display = None, sp_file = None,
     sp_temporaryConfig = None, sp_connecting = None, sp_createRequestId = None, sp_connectError = None\<rparr>"

definition demo_tree :: pane_node where
  "demo_tree = Split ''r'' Horizontal (1 / 2) (Leaf (demo_pane ''a'')) (Leaf (demo_pane ''b''))"

definition demo_tab :: "string \<Rightarrow> tab" where
  "demo_tab i = \<lparr>tb_id = i, tb_persistOrder = 0, tb_activePaneId = ''b'', tb_root = demo_tree,
     tb_customName = None, tb_tabColor = None, tb_locked = None\<rparr>"

lemma short_minted: "length i < 2 \<Longrightarrow> minted c i"
  by (auto simp: minted_def make_id_def)

lemma demo_tree_wf: "tree_wf 0 demo_tree"
  by (simp add: tree_wf_def demo_tree_def demo_pane_def short_minted)

theorem split_session_pane_correct_witness:
  "\<exists>newPane c1 rt' c2. createSessionPane (\<lambda>_. 0) ''x'' SSH None None 0 = (newPane, c1)
     \<and> splitSessionPane (\<lambda>_. 0) demo_tree ''a'' Vertical newPane c1 = (rt', c2)
     \<and> tree_wf c2 rt' \<and> removeSessionPane rt' (sp_id newPane) = Some demo_tree"
proof -
  obtain q c1 where q: "createSessionPane (\<lambda>_. 0) ''x'' SSH None None 0 = (q, c1)"
    by (cases "createSessionPane (\<lambda>_. 0) ''x'' SSH None None 0")
  obtain t c2 where t: "splitSessionPane (\<lambda>_. 0) demo_tree ''a'' Vertical q c1 = (t, c2)"
    by (cases "splitSessionPane (\<lambda>_. 0) demo_tree ''a'' Vertical q c1")
  have "findSessionPaneById demo_tree ''a'' = Some (demo_pane ''a'')"
    by (simp add: findSessionPaneById_def demo_tree_def demo_pane_def)
  from split_session_pane_correct [OF demo_tree_wf this q t] q t show ?thesis by blast
qed

text \<open>C12: closing a pane removes exactly the panes with that id, keeps the order of the
  others, collapses the split that held it, and keeps ids distinct; the tree disappears
  only when no other pane is left.\<close>

theorem remove_session_pane_correct:
  assumes "tree_wf c rt"
  shows "case removeSessionPane rt paneId of
           None \<Rightarrow> list_all (\<lambda>p. sp_id p = paneId) (collectSessionPanes rt)
         | Some rt' \<Rightarrow> tree_wf c rt' \<and>
             collectSessionPanes rt' = filter (\<lambda>p. sp_id p \<noteq> paneId) (collectSessionPanes rt)"
  using assms remove_none [of rt paneId] remove_collect [of rt paneId]
    remove_ids [of rt paneId] remove_distinct [of rt paneId]
  by (auto simp: tree_wf_def list_all_iff split: option.split)

theorem remove_session_pane_correct_witness:
  "\<exists>rt'. removeSessionPane demo_tree ''a'' = Some rt' \<and> tree_wf 0 rt'"
proof -
  have "removeSessionPane demo_tree ''a'' = Some (Leaf (demo_pane ''b''))"
    by (simp add: demo_tree_def demo_pane_def)
  with remove_session_pane_correct [OF demo_tree_wf, of "''a''"] show ?thesis by simp
qed

text \<open>C13: persisting a tab and restoring it. For a tab as the module builds it, restoring the
  serialized tab succeeds, the restored tab serializes to the same persisted form (tree
  shape, ids, titles, types, connections, ratios, names, colour, lock), and its active
  pane is a pane of the restored tree, even when the old active pane was a file.\<close>

theorem restore_after_serialize:
  assumes "node_ok (tb_root t)" and "distinct (node_ids (tb_root t))" and "serializeTab t = [r]"
  shows "\<exists>t' p c'. restoreTabFromPersistence now uuid r order c = (Some t', c') \<and> serializeTab t' = [r]
           \<and> tb_persistOrder t' = order \<and> getActivePane t' = Some p \<and> tb_activePaneId t' = sp_id p"
  using assms by (rule restore_serialized_tab)

theorem restore_after_serialize_witness:
  "\<exists>r t' c'. serializeTab (demo_tab ''t'') = [r]
     \<and> restoreTabFromPersistence (\<lambda>_. 0) show_nat r 3 0 = (Some t', c') \<and> serializeTab t' = [r]"
proof -
  have ok: "node_ok (tb_root (demo_tab ''t''))" "distinct (node_ids (tb_root (demo_tab ''t'')))"
    by (simp_all add: demo_tab_def demo_tree_def demo_pane_def leaf_ok_def isRemoteDesktopSessionType_def)
  obtain r where r: "serializeTab (demo_tab ''t'') = [r]"
    by (simp add: serializeTab_def demo_tab_def demo_tree_def demo_pane_def Let_def)
  from restore_after_serialize [OF ok r, of "\<lambda>_. 0" show_nat 3 0] r show ?thesis by blast
qed

text \<open>the sessions released by a change of the tabs are exactly those that some pane used
  before and no pane uses afterwards, each listed once.\<close>

theorem released_sessions_exact:
  "distinct (getReleasedSessionIds prev next)
   \<and> set (getReleasedSessionIds prev next) = set (tab_sessions prev) - set (tab_sessions next)"
  by (simp add: released_set) (simp add: getReleasedSessionIds_def Let_def reference_keys(1))

text \<open>dragging a tab permutes the tabs: the tab ends at the requested index, clamped to the
  list, and the others keep their order.\<close>

theorem move_tab_permutes:
  assumes "find_index (\<lambda>t. tb_id t = i) tabs = Some k"
  shows "mset (moveTab tabs i to) = mset tabs
         \<and> moveTab tabs i to ! nat (max 0 (min (int (length tabs) - 1) to)) = tabs ! k
         \<and> filter (\<lambda>t. tb_id t \<noteq> i) (moveTab tabs i to) = filter (\<lambda>t. tb_id t \<noteq> i) tabs"
proof -
  define j where "j = nat (max 0 (min (int (length tabs) - 1) to))"
  have k: "k < length tabs" "tb_id (tabs ! k) = i" using find_index_Some [OF assms] by auto
  have j: "j < length tabs" using k by (auto simp: j_def)
  show ?thesis using move_splice [OF k(1) j] k(2) assms
    by (simp add: moveTab_def Let_def flip: j_def)
qed

theorem move_tab_permutes_witness:
  "moveTab [demo_tab ''t'', demo_tab ''u''] ''t'' 9 ! 1 = demo_tab ''t''"
proof -
  have "find_index (\<lambda>t. tb_id t = ''t'') [demo_tab ''t'', demo_tab ''u''] = Some 0" by (simp add: demo_tab_def)
  from move_tab_permutes [OF this, of 9] show ?thesis by simp
qed

end
