(* ===== verification/Tab_Windows.thy ===== *)
theory Tab_Windows
  imports Workspace_Tabs
begin

text \<open>
  The layout of terminal windows (\<open>lib/tabWindows.ts\<close>, \<open>lib/smartSplit.ts\<close>): a binary tree
  whose leaves hold lists of tab ids. The operations insert, remove, reorder, split and
  move tabs, persist the layout by tab index, restore it, and reconcile it with the list
  of open tabs; \<open>smartSplit\<close> builds balanced layouts. The id counter of the module is
  passed explicitly. The central invariant \<open>layout_wf\<close> says that every tab is in exactly one
  leaf, leaf ids are unique, and every leaf shows one of its tabs.
\<close>

section \<open>Data\<close>

record window_leaf =
  wl_id :: string
  wl_tabIds :: "string list"
  wl_activeTabId :: "string option"

datatype window_node =
    WLeaf window_leaf
  | WSplit string split_direction rat window_node window_node

datatype split_edge = EdgeLeft | EdgeRight | EdgeTop | EdgeBottom

datatype restorable_window =
    RWLeaf "nat list" "nat option"
  | RWSplit split_direction rat restorable_window restorable_window

section \<open>Operations\<close>

definition createTerminalWindowId :: "(nat \<Rightarrow> nat) \<Rightarrow> string \<Rightarrow> nat \<Rightarrow> string \<times> nat" where
  "createTerminalWindowId now prefix c = (make_id prefix (now (c + 1)) (c + 1), c + 1)"

definition list_head :: "'a list \<Rightarrow> 'a option" where
  "list_head xs = (case xs of [] \<Rightarrow> None | x # _ \<Rightarrow> Some x)"

text \<open>\<open>a && ids.includes(a)\<close> for an optional id: empty ids count as missing.\<close>

definition truthy_in :: "string option \<Rightarrow> string list \<Rightarrow> bool" where
  "truthy_in a ids = (case a of None \<Rightarrow> False | Some x \<Rightarrow> x \<noteq> [] \<and> x \<in> set ids)"

definition normalizeLeaf :: "window_leaf \<Rightarrow> window_leaf" where
  "normalizeLeaf l =
     (let tabIds = uniq (wl_tabIds l);
          activeTabId = (if truthy_in (wl_activeTabId l) tabIds then wl_activeTabId l else list_head tabIds)
      in l\<lparr>wl_tabIds := tabIds, wl_activeTabId := activeTabId\<rparr>)"

definition isTerminalWindowSplit :: "window_node \<Rightarrow> bool" where
  "isTerminalWindowSplit n = (case n of WSplit _ _ _ _ _ \<Rightarrow> True | WLeaf _ \<Rightarrow> False)"

definition createTerminalWindowLeaf ::
    "(nat \<Rightarrow> nat) \<Rightarrow> string list \<Rightarrow> string option \<Rightarrow> nat \<Rightarrow> window_leaf \<times> nat" where
  "createTerminalWindowLeaf now tabIds activeTabId c =
     (let (i, c) = createTerminalWindowId now ''window-leaf'' c
      in (normalizeLeaf \<lparr>wl_id = i, wl_tabIds = tabIds, wl_activeTabId = activeTabId\<rparr>, c))"

definition createTerminalWindowRoot ::
    "(nat \<Rightarrow> nat) \<Rightarrow> string list \<Rightarrow> string option \<Rightarrow> nat \<Rightarrow> window_node option \<times> nat" where
  "createTerminalWindowRoot now tabIds activeTabId c =
     (if length tabIds = 0 then (None, c)
      else (let (l, c) = createTerminalWindowLeaf now tabIds activeTabId c in (Some (WLeaf l), c)))"

fun collectWindowTabIds :: "window_node \<Rightarrow> string list" where
  "collectWindowTabIds (WLeaf l) = wl_tabIds l"
| "collectWindowTabIds (WSplit _ _ _ a b) = collectWindowTabIds a @ collectWindowTabIds b"

fun getFirstTerminalWindowLeaf :: "window_node \<Rightarrow> window_leaf" where
  "getFirstTerminalWindowLeaf (WLeaf l) = normalizeLeaf l"
| "getFirstTerminalWindowLeaf (WSplit _ _ _ a b) = getFirstTerminalWindowLeaf a"

fun findTerminalWindowLeafById :: "window_node \<Rightarrow> string \<Rightarrow> window_leaf option" where
  "findTerminalWindowLeafById (WLeaf l) leafId = (if wl_id l = leafId then Some (normalizeLeaf l) else None)"
| "findTerminalWindowLeafById (WSplit _ _ _ a b) leafId =
     (case findTerminalWindowLeafById a leafId of Some l \<Rightarrow> Some l
      | None \<Rightarrow> findTerminalWindowLeafById b leafId)"

fun findTerminalWindowLeafByTabId :: "window_node \<Rightarrow> string \<Rightarrow> window_leaf option" where
  "findTerminalWindowLeafByTabId (WLeaf l) tabId =
     (if tabId \<in> set (wl_tabIds l) then Some (normalizeLeaf l) else None)"
| "findTerminalWindowLeafByTabId (WSplit _ _ _ a b) tabId =
     (case findTerminalWindowLeafByTabId a tabId of Some l \<Rightarrow> Some l
      | None \<Rightarrow> findTerminalWindowLeafByTabId b tabId)"

fun updateLeafById ::
    "window_node \<Rightarrow> string \<Rightarrow> (window_leaf \<Rightarrow> nat \<Rightarrow> window_node \<times> nat) \<Rightarrow> nat \<Rightarrow> window_node \<times> nat" where
  "updateLeafById (WLeaf l) leafId updater c =
     (if wl_id l = leafId then updater (normalizeLeaf l) c else (WLeaf (normalizeLeaf l), c))"
| "updateLeafById (WSplit i dir r a b) leafId updater c =
     (let (nextFirst, c) = updateLeafById a leafId updater c;
          (nextSecond, c) = updateLeafById b leafId updater c
      in (WSplit i dir r nextFirst nextSecond, c))"

text \<open>An updater that only changes the leaf.\<close>

definition leaf_updater :: "(window_leaf \<Rightarrow> window_leaf) \<Rightarrow> window_leaf \<Rightarrow> nat \<Rightarrow> window_node \<times> nat" where
  "leaf_updater f l c = (WLeaf (f l), c)"

definition collapseWindowChildren ::
    "window_node option \<Rightarrow> window_node option \<Rightarrow> string \<Rightarrow> split_direction \<Rightarrow> rat \<Rightarrow> window_node option" where
  "collapseWindowChildren first second i dir r =
     (case (first, second) of
        (None, None) \<Rightarrow> None
      | (None, Some s) \<Rightarrow> Some s
      | (Some f, None) \<Rightarrow> Some f
      | (Some f, Some s) \<Rightarrow> Some (WSplit i dir r f s))"

definition removeTabFromLeaf :: "window_leaf \<Rightarrow> string \<Rightarrow> window_leaf option" where
  "removeTabFromLeaf l tabId =
     (if tabId \<notin> set (wl_tabIds l) then Some (normalizeLeaf l)
      else (let tabIds = filter (\<lambda>i. i \<noteq> tabId) (wl_tabIds l)
            in if length tabIds = 0 then None
               else Some (normalizeLeaf (l\<lparr>wl_tabIds := tabIds,
                      wl_activeTabId := if wl_activeTabId l = Some tabId then list_head tabIds
                                        else wl_activeTabId l\<rparr>))))"

fun removeTab :: "window_node \<Rightarrow> string \<Rightarrow> window_node option" where
  "removeTab (WLeaf l) tabId = map_option WLeaf (removeTabFromLeaf l tabId)"
| "removeTab (WSplit i dir r a b) tabId =
     collapseWindowChildren (removeTab a tabId) (removeTab b tabId) i dir r"

definition removeTabFromTerminalWindows :: "window_node option \<Rightarrow> string \<Rightarrow> window_node option" where
  "removeTabFromTerminalWindows n tabId = (case n of None \<Rightarrow> None | Some m \<Rightarrow> removeTab m tabId)"

definition setLeafActiveTab :: "window_node \<Rightarrow> string \<Rightarrow> string \<Rightarrow> window_node" where
  "setLeafActiveTab n leafId tabId =
     fst (updateLeafById n leafId (leaf_updater (\<lambda>l.
       if tabId \<in> set (wl_tabIds l) then normalizeLeaf (l\<lparr>wl_activeTabId := Some tabId\<rparr>) else l)) 0)"

definition setLeafActiveTabByTabId :: "window_node \<Rightarrow> string \<Rightarrow> window_node" where
  "setLeafActiveTabByTabId n tabId =
     (case findTerminalWindowLeafByTabId n tabId of None \<Rightarrow> n
      | Some l \<Rightarrow> setLeafActiveTab n (wl_id l) tabId)"

text \<open>\<open>Array.prototype.indexOf\<close> plus one: zero when the element is missing.\<close>

definition index_after :: "'a \<Rightarrow> 'a list \<Rightarrow> nat" where
  "index_after x xs = (case find_index (\<lambda>y. y = x) xs of Some i \<Rightarrow> i + 1 | None \<Rightarrow> 0)"

text \<open>The optional argument \<open>activeTabId\<close>: \<open>None\<close> is undefined, \<open>Some None\<close> is null.\<close>

definition insertTabAfterInLeaf ::
    "window_node \<Rightarrow> string \<Rightarrow> string \<Rightarrow> string option option \<Rightarrow> window_node" where
  "insertTabAfterInLeaf n anchorTabId newTabId activeTabId =
     (case findTerminalWindowLeafByTabId n anchorTabId of None \<Rightarrow> n
      | Some l \<Rightarrow> fst (updateLeafById n (wl_id l) (leaf_updater (\<lambda>cur.
          let nextTabIds = (if newTabId \<in> set (wl_tabIds cur) then wl_tabIds cur
                            else splice_in (index_after anchorTabId (wl_tabIds cur)) newTabId (wl_tabIds cur))
          in normalizeLeaf (cur\<lparr>wl_tabIds := nextTabIds,
               wl_activeTabId := or_else activeTabId (wl_activeTabId cur)\<rparr>))) 0))"

definition insertTabIntoLeaf ::
    "window_node \<Rightarrow> string \<Rightarrow> string \<Rightarrow> string option \<Rightarrow> string option option \<Rightarrow> window_node" where
  "insertTabIntoLeaf n leafId newTabId afterTabId activeTabId =
     fst (updateLeafById n leafId (leaf_updater (\<lambda>cur.
       let ids = wl_tabIds cur;
           anchorTabId = (if truthy_in afterTabId ids then afterTabId
                          else if truthy_in (wl_activeTabId cur) ids then wl_activeTabId cur
                          else if ids = [] then None else Some (last ids));
           insertIndex = (case anchorTabId of
                            Some a \<Rightarrow> if a \<noteq> [] then index_after a ids else length ids
                          | None \<Rightarrow> length ids);
           nextTabIds = (if newTabId \<in> set ids then ids else splice_in insertIndex newTabId ids)
       in normalizeLeaf (cur\<lparr>wl_tabIds := nextTabIds,
            wl_activeTabId := or_else activeTabId (wl_activeTabId cur)\<rparr>))) 0)"

definition bounded_index :: "int \<Rightarrow> int \<Rightarrow> nat" where
  "bounded_index hi i = nat (max 0 (min hi i))"

definition reorderTabsInLeaf :: "window_node \<Rightarrow> string \<Rightarrow> int \<Rightarrow> window_node" where
  "reorderTabsInLeaf n fromTabId toIndex =
     (case findTerminalWindowLeafByTabId n fromTabId of None \<Rightarrow> n
      | Some l \<Rightarrow> fst (updateLeafById n (wl_id l) (leaf_updater (\<lambda>cur.
          case find_index (\<lambda>i. i = fromTabId) (wl_tabIds cur) of
            None \<Rightarrow> cur
          | Some fromIndex \<Rightarrow>
              let boundedIndex = bounded_index (int (length (wl_tabIds cur)) - 1) toIndex
              in if fromIndex = boundedIndex then cur
                 else normalizeLeaf (cur\<lparr>wl_tabIds :=
                        splice_in boundedIndex (wl_tabIds cur ! fromIndex)
                          (splice_out fromIndex (wl_tabIds cur))\<rparr>))) 0))"

fun updateTerminalWindowSplitRatio :: "window_node \<Rightarrow> string \<Rightarrow> rat \<Rightarrow> window_node" where
  "updateTerminalWindowSplitRatio (WLeaf l) splitId ratio = WLeaf l"
| "updateTerminalWindowSplitRatio (WSplit i dir r a b) splitId ratio =
     (if i = splitId then WSplit i dir (max (1 / 5) (min (4 / 5) ratio)) a b
      else WSplit i dir r (updateTerminalWindowSplitRatio a splitId ratio)
             (updateTerminalWindowSplitRatio b splitId ratio))"

definition splitForTab ::
    "(nat \<Rightarrow> nat) \<Rightarrow> string \<Rightarrow> split_direction \<Rightarrow> string option \<Rightarrow> window_leaf \<Rightarrow> nat \<Rightarrow> window_node \<times> nat" where
  "splitForTab now tabId dir newTabId cur c =
     (if or_else newTabId [] \<noteq> [] then
        (let (i, c) = createTerminalWindowId now ''window-split'' c;
             (l, c) = createTerminalWindowLeaf now [or_else newTabId []] newTabId c
         in (WSplit i dir (1 / 2) (WLeaf (normalizeLeaf cur)) (WLeaf l), c))
      else if length (wl_tabIds cur) \<le> 1 then (WLeaf cur, c)
      else
        (let remainingTabIds = filter (\<lambda>i. i \<noteq> tabId) (wl_tabIds cur);
             remainingLeaf = normalizeLeaf (cur\<lparr>wl_tabIds := remainingTabIds,
               wl_activeTabId := if wl_activeTabId cur = Some tabId then list_head remainingTabIds
                                 else wl_activeTabId cur\<rparr>);
             (i, c) = createTerminalWindowId now ''window-split'' c;
             (l, c) = createTerminalWindowLeaf now [tabId] (Some tabId) c
         in (WSplit i dir (1 / 2) (WLeaf remainingLeaf) (WLeaf l), c)))"

definition splitTerminalWindowForTab ::
    "(nat \<Rightarrow> nat) \<Rightarrow> window_node \<Rightarrow> string \<Rightarrow> split_direction \<Rightarrow> string option \<Rightarrow> nat \<Rightarrow> window_node \<times> nat" where
  "splitTerminalWindowForTab now n tabId dir newTabId c =
     (case findTerminalWindowLeafByTabId n tabId of None \<Rightarrow> (n, c)
      | Some l \<Rightarrow> updateLeafById n (wl_id l) (splitForTab now tabId dir newTabId) c)"

definition moveTabBetweenLeaves :: "window_node \<Rightarrow> string \<Rightarrow> string \<Rightarrow> int \<Rightarrow> window_node option" where
  "moveTabBetweenLeaves n tabId targetLeafId insertIndex =
     (case findTerminalWindowLeafByTabId n tabId of
        None \<Rightarrow> Some n
      | Some sourceLeaf \<Rightarrow>
          if wl_id sourceLeaf = targetLeafId then Some (reorderTabsInLeaf n tabId insertIndex)
          else (case removeTabFromTerminalWindows (Some n) tabId of
                  None \<Rightarrow> None
                | Some m \<Rightarrow> Some (fst (updateLeafById m targetLeafId (leaf_updater (\<lambda>l.
                    let bounded = bounded_index (int (length (wl_tabIds l))) insertIndex
                    in normalizeLeaf (l\<lparr>wl_tabIds := splice_in bounded tabId (wl_tabIds l),
                                        wl_activeTabId := Some tabId\<rparr>))) 0))))"

definition splitWithLeaf ::
    "(nat \<Rightarrow> nat) \<Rightarrow> split_edge \<Rightarrow> window_leaf \<Rightarrow> window_leaf \<Rightarrow> nat \<Rightarrow> window_node \<times> nat" where
  "splitWithLeaf now edge tabLeaf l c =
     (let target = normalizeLeaf l;
          tabFirst = (edge = EdgeLeft \<or> edge = EdgeTop);
          dir = (if edge = EdgeLeft \<or> edge = EdgeRight then Vertical else Horizontal);
          (i, c) = createTerminalWindowId now ''window-split'' c
      in (WSplit i dir (1 / 2) (WLeaf (if tabFirst then tabLeaf else target))
            (WLeaf (if tabFirst then target else tabLeaf)), c))"

definition splitLeafWithTab ::
    "(nat \<Rightarrow> nat) \<Rightarrow> window_node \<Rightarrow> string \<Rightarrow> string \<Rightarrow> split_edge \<Rightarrow> nat \<Rightarrow> window_node option \<times> nat" where
  "splitLeafWithTab now n tabId targetLeafId edge c =
     (case (findTerminalWindowLeafByTabId n tabId, findTerminalWindowLeafById n targetLeafId) of
        (Some sourceLeaf, Some targetLeaf) \<Rightarrow>
          if wl_id sourceLeaf = targetLeafId \<and> length (wl_tabIds sourceLeaf) \<le> 1 then (Some n, c)
          else (case removeTabFromTerminalWindows (Some n) tabId of
                  None \<Rightarrow> (None, c)
                | Some m \<Rightarrow>
                    (let (tabLeaf, c) = createTerminalWindowLeaf now [tabId] (Some tabId) c;
                         (m', c) = updateLeafById m targetLeafId (splitWithLeaf now edge tabLeaf) c
                     in (Some m', c)))
      | _ \<Rightarrow> (Some n, c))"

definition flattenTerminalWindows ::
    "(nat \<Rightarrow> nat) \<Rightarrow> window_node \<Rightarrow> string option \<Rightarrow> nat \<Rightarrow> window_node \<times> nat" where
  "flattenTerminalWindows now n activeTabId c =
     (let tabIds = collectWindowTabIds n
      in if length tabIds = 0 then (n, c)
         else (let (l, c) = createTerminalWindowLeaf now tabIds
                              (case activeTabId of Some a \<Rightarrow> Some a | None \<Rightarrow> list_head tabIds) c
               in (WLeaf l, c)))"

section \<open>Persistence\<close>

definition isRestorableTab :: "tab \<Rightarrow> bool" where
  "isRestorableTab t = list_ex (\<lambda>p. sp_paneKind p \<noteq> KFile) (collectSessionPanes (tb_root t))"

text \<open>\<open>new Map(tabs.map((tab, index) => [tab.id, index]))\<close>: a later duplicate wins.\<close>

definition tabIndexById :: "tab list \<Rightarrow> string \<Rightarrow> nat option" where
  "tabIndexById tabs = map_of (rev (zip (map tb_id tabs) [0..<length tabs]))"

fun serializeLayout :: "(string \<Rightarrow> nat option) \<Rightarrow> window_node \<Rightarrow> restorable_window option" where
  "serializeLayout idx (WLeaf l) =
     (let tabIndexes = List.map_filter idx (wl_tabIds l)
      in if length tabIndexes = 0 then None
         else Some (RWLeaf (uniq tabIndexes)
                (case wl_activeTabId l of
                   Some a \<Rightarrow> if a \<noteq> [] \<and> idx a \<noteq> None then idx a else list_head tabIndexes
                 | None \<Rightarrow> list_head tabIndexes)))"
| "serializeLayout idx (WSplit i dir r a b) =
     (case (serializeLayout idx a, serializeLayout idx b) of
        (None, None) \<Rightarrow> None
      | (None, Some s) \<Rightarrow> Some s
      | (Some f, None) \<Rightarrow> Some f
      | (Some f, Some s) \<Rightarrow> Some (RWSplit dir (max (1 / 5) (min (4 / 5) r)) f s))"

definition serializeTerminalWindowLayout :: "window_node option \<Rightarrow> tab list \<Rightarrow> restorable_window option" where
  "serializeTerminalWindowLayout n tabs =
     (case n of None \<Rightarrow> None
      | Some m \<Rightarrow> if length tabs = 0 then None
                  else serializeLayout (tabIndexById (filter isRestorableTab tabs)) m)"

text \<open>\<open>tabIds[index]\<close>: undefined out of range.\<close>

definition nth_opt :: "'a list \<Rightarrow> nat \<Rightarrow> 'a option" where
  "nth_opt xs i = (if i < length xs then Some (xs ! i) else None)"

text \<open>The loop over \<open>tab_indexes\<close>: the ids taken and the set of used ids (as a list).\<close>

fun takeTabs :: "string list \<Rightarrow> nat list \<Rightarrow> string list \<Rightarrow> string list \<times> string list" where
  "takeTabs tabIds [] used = ([], used)"
| "takeTabs tabIds (i # is) used =
     (let t = or_else (nth_opt tabIds i) []
      in if t = [] \<or> t \<in> set used then takeTabs tabIds is used
         else (let (ts, used) = takeTabs tabIds is (t # used) in (t # ts, used)))"

fun restoreLayout ::
    "(nat \<Rightarrow> nat) \<Rightarrow> string list \<Rightarrow> restorable_window \<Rightarrow> string list \<times> nat \<Rightarrow>
     window_node option \<times> string list \<times> nat" where
  "restoreLayout now tabIds (RWLeaf indexes active) (used, c) =
     (let (leafTabIds, used) = takeTabs tabIds indexes used
      in if length leafTabIds = 0 then (None, used, c)
         else (let activeTabId = Option.bind active (nth_opt tabIds);
                   (l, c) = createTerminalWindowLeaf now leafTabIds
                     (if truthy_in activeTabId leafTabIds then activeTabId else list_head leafTabIds) c
               in (Some (WLeaf l), used, c)))"
| "restoreLayout now tabIds (RWSplit dir r a b) st =
     (let (first, st) = restoreLayout now tabIds a st;
          (second, st) = restoreLayout now tabIds b st
      in case (first, second) of
           (None, None) \<Rightarrow> (None, st)
         | (None, Some s) \<Rightarrow> (Some s, st)
         | (Some f, None) \<Rightarrow> (Some f, st)
         | (Some f, Some s) \<Rightarrow>
             (let (i, c) = createTerminalWindowId now ''window-split'' (snd st)
              in (Some (WSplit i dir (max (1 / 5) (min (4 / 5) r)) f s), fst st, c)))"

definition restoreTerminalWindowLayout ::
    "(nat \<Rightarrow> nat) \<Rightarrow> restorable_window option \<Rightarrow> tab list \<Rightarrow> nat \<Rightarrow> window_node option \<times> nat" where
  "restoreTerminalWindowLayout now layout tabs c =
     (case layout of None \<Rightarrow> (None, c)
      | Some r \<Rightarrow>
          if length tabs = 0 then (None, c)
          else (let tabIds = map tb_id tabs;
                    (restored, _, c) = restoreLayout now tabIds r ([], c)
                in case restored of None \<Rightarrow> (None, c)
                   | Some m \<Rightarrow>
                       if list_ex (\<lambda>i. i \<notin> set (collectWindowTabIds m)) tabIds then (None, c)
                       else (Some m, c)))"

section \<open>Reconciliation with the open tabs\<close>

definition insertMissing :: "window_node \<Rightarrow> string \<Rightarrow> string list \<Rightarrow> window_node" where
  "insertMissing n anchor missing =
     fst (foldl (\<lambda>(m, a) t. (insertTabAfterInLeaf m a t (Some (Some t)), t)) (n, anchor) missing)"

definition insertAnchor :: "window_node \<Rightarrow> string list \<Rightarrow> string option \<Rightarrow> string option \<Rightarrow> string list \<Rightarrow> string" where
  "insertAnchor n layoutTabIds anchorTabId activeTabId tabIds =
     (if truthy_in anchorTabId layoutTabIds then the anchorTabId
      else if truthy_in activeTabId layoutTabIds then the activeTabId
      else (let ids = wl_tabIds (getFirstTerminalWindowLeaf n)
            in if ids = [] then hd tabIds else ids ! (length ids - 1)))"

definition reconcileTerminalWindows ::
    "(nat \<Rightarrow> nat) \<Rightarrow> window_node option \<Rightarrow> tab list \<Rightarrow> string option \<Rightarrow> string option \<Rightarrow> nat \<Rightarrow>
     window_node option \<times> nat" where
  "reconcileTerminalWindows now current tabs activeTabId anchorTabId c =
     (let tabIds = map tb_id tabs;
          fallback = createTerminalWindowRoot now tabIds
            (case activeTabId of Some a \<Rightarrow> Some a | None \<Rightarrow> list_head tabIds) c
      in if length tabIds = 0 then (None, c)
         else (case current of
           None \<Rightarrow> fallback
         | Some cur \<Rightarrow>
             (case foldl (\<lambda>n t. if t \<notin> set tabIds then removeTabFromTerminalWindows n t else n)
                     (Some cur) (collectWindowTabIds cur) of
                None \<Rightarrow> fallback
              | Some next \<Rightarrow>
                  (let layoutTabIds = collectWindowTabIds next;
                       missing = filter (\<lambda>t. t \<notin> set layoutTabIds) tabIds;
                       next = (if length missing > 0
                               then insertMissing next
                                      (insertAnchor next layoutTabIds anchorTabId activeTabId tabIds) missing
                               else next);
                       next = (if or_else activeTabId [] \<noteq> []
                               then setLeafActiveTabByTabId next (or_else activeTabId []) else next)
                   in (Some next, c)))))"

section \<open>Balanced layouts\<close>

text \<open>The callers exclude the empty list, on which the code would not stop; here it is a leaf.\<close>

function buildBalancedTree ::
    "(nat \<Rightarrow> nat) \<Rightarrow> string list \<Rightarrow> split_direction \<Rightarrow> bool \<Rightarrow> nat \<Rightarrow> window_node \<times> nat" where
  "buildBalancedTree now tabIds dir alternate c =
     (if length tabIds \<le> 1 then
        (let (l, c) = createTerminalWindowLeaf now (take 1 tabIds) (list_head tabIds) c in (WLeaf l, c))
      else
        (let mid = (length tabIds + 1) div 2;
             nextDir = (if alternate then (if dir = Horizontal then Vertical else Horizontal) else dir);
             (i, c) = createTerminalWindowId now ''window-split'' c;
             (first, c) = buildBalancedTree now (take mid tabIds) nextDir alternate c;
             (second, c) = buildBalancedTree now (drop mid tabIds) nextDir alternate c
         in (WSplit i dir (of_nat mid / of_nat (length tabIds)) first second, c)))"
  by pat_completeness auto
termination
  by (relation "measure (\<lambda>(now, ts, dir, alt, c). length ts)") auto

declare buildBalancedTree.simps [simp del]

datatype smart_split_mode = AutoMode | HorizontalMode | VerticalMode

definition autoTileLayout :: "(nat \<Rightarrow> nat) \<Rightarrow> string list \<Rightarrow> nat \<Rightarrow> window_node option \<times> nat" where
  "autoTileLayout now tabIds c =
     (if length tabIds = 0 then (None, c)
      else (let (n, c) = buildBalancedTree now tabIds Horizontal True c in (Some n, c)))"

definition tileHorizontally :: "(nat \<Rightarrow> nat) \<Rightarrow> string list \<Rightarrow> nat \<Rightarrow> window_node option \<times> nat" where
  "tileHorizontally now tabIds c =
     (if length tabIds = 0 then (None, c)
      else (let (n, c) = buildBalancedTree now tabIds Horizontal False c in (Some n, c)))"

definition tileVertically :: "(nat \<Rightarrow> nat) \<Rightarrow> string list \<Rightarrow> nat \<Rightarrow> window_node option \<times> nat" where
  "tileVertically now tabIds c =
     (if length tabIds = 0 then (None, c)
      else (let (n, c) = buildBalancedTree now tabIds Vertical False c in (Some n, c)))"

definition buildSmartSplitLayout ::
    "(nat \<Rightarrow> nat) \<Rightarrow> string list \<Rightarrow> smart_split_mode \<Rightarrow> nat \<Rightarrow> window_node option \<times> nat" where
  "buildSmartSplitLayout now tabIds mode c =
     (case mode of AutoMode \<Rightarrow> autoTileLayout now tabIds c
      | HorizontalMode \<Rightarrow> tileHorizontally now tabIds c
      | VerticalMode \<Rightarrow> tileVertically now tabIds c)"

section \<open>The layout invariant\<close>

fun leaves :: "window_node \<Rightarrow> window_leaf list" where
  "leaves (WLeaf l) = [l]"
| "leaves (WSplit _ _ _ a b) = leaves a @ leaves b"

definition leaf_wf :: "window_leaf \<Rightarrow> bool" where
  "leaf_wf l \<longleftrightarrow> wl_tabIds l \<noteq> [] \<and> [] \<notin> set (wl_tabIds l) \<and> distinct (wl_tabIds l)
     \<and> (\<exists>a \<in> set (wl_tabIds l). wl_activeTabId l = Some a)"

definition tabs_of :: "window_leaf list \<Rightarrow> string list" where
  "tabs_of ls = concat (map wl_tabIds ls)"

definition leaves_wf :: "window_leaf list \<Rightarrow> bool" where
  "leaves_wf ls \<longleftrightarrow> list_all leaf_wf ls \<and> distinct (tabs_of ls) \<and> distinct (map wl_id ls)"

definition layout_wf :: "window_node \<Rightarrow> bool" where
  "layout_wf n \<longleftrightarrow> leaves_wf (leaves n)"

lemma tabs_of_simps [simp]:
  "tabs_of [] = []" "tabs_of (l # ls) = wl_tabIds l @ tabs_of ls" "tabs_of (ls @ ms) = tabs_of ls @ tabs_of ms"
  by (simp_all add: tabs_of_def)

lemma collect_leaves: "collectWindowTabIds n = tabs_of (leaves n)"
  by (induction n) auto

lemma leaves_nonempty [simp]: "leaves n \<noteq> []"
  by (induction n) auto

lemma leaf_tabs: "l \<in> set ls \<Longrightarrow> set (wl_tabIds l) \<subseteq> set (tabs_of ls)"
  by (auto simp: tabs_of_def)

lemma normalize_active_mem:
  assumes "wl_tabIds l \<noteq> []"
  shows "\<exists>a \<in> set (wl_tabIds l). wl_activeTabId (normalizeLeaf l) = Some a"
proof -
  obtain x xs where u: "uniq (wl_tabIds l) = x # xs"
    using assms uniq_eq_Nil by (cases "uniq (wl_tabIds l)") auto
  then have "set (wl_tabIds l) = set (x # xs)" by (metis set_uniq)
  with u show ?thesis
    by (cases "wl_activeTabId l") (simp_all add: normalizeLeaf_def truthy_in_def list_head_def Let_def)
qed

lemma normalize_wf: "wl_tabIds l \<noteq> [] \<Longrightarrow> [] \<notin> set (wl_tabIds l) \<Longrightarrow> leaf_wf (normalizeLeaf l)"
  using normalize_active_mem [of l] unfolding leaf_wf_def by (auto simp: normalizeLeaf_def Let_def)

lemma normalize_id [simp]: "wl_id (normalizeLeaf l) = wl_id l"
  by (simp add: normalizeLeaf_def Let_def)

lemma normalize_same [simp]: "leaf_wf l \<Longrightarrow> normalizeLeaf l = l"
  by (auto simp: leaf_wf_def normalizeLeaf_def truthy_in_def)

lemma normalize_tabs: "distinct (wl_tabIds l) \<Longrightarrow> wl_tabIds (normalizeLeaf l) = wl_tabIds l"
  by (simp add: normalizeLeaf_def Let_def)

lemma normalize_active:
  "a \<in> set (wl_tabIds l) \<Longrightarrow> a \<noteq> [] \<Longrightarrow> wl_activeTabId l = Some a \<Longrightarrow> wl_activeTabId (normalizeLeaf l) = Some a"
  by (simp add: normalizeLeaf_def Let_def truthy_in_def)

lemma leaf_wfD: "layout_wf n \<Longrightarrow> l \<in> set (leaves n) \<Longrightarrow> leaf_wf l"
  by (simp add: layout_wf_def leaves_wf_def list_all_iff)

text \<open>Replacing one leaf by others with the same tabs keeps the invariant.\<close>

lemma leaves_wf_replace:
  assumes "leaves_wf (ls @ l # rs)" and "list_all leaf_wf ms" and "distinct (tabs_of ms)"
    and "set (tabs_of ms) \<inter> set (tabs_of (ls @ rs)) = {}"
    and "distinct (map wl_id ms)" and "set (map wl_id ms) \<inter> set (map wl_id (ls @ rs)) = {}"
  shows "leaves_wf (ls @ ms @ rs)"
  using assms by (auto simp: leaves_wf_def)

section \<open>Finding and updating leaves\<close>

lemma find_app: "find P (xs @ ys) = (case find P xs of Some x \<Rightarrow> Some x | None \<Rightarrow> find P ys)"
  by (induction xs) auto

lemma find_by_tab:
  "layout_wf n \<Longrightarrow> findTerminalWindowLeafByTabId n t = find (\<lambda>l. t \<in> set (wl_tabIds l)) (leaves n)"
proof -
  have "list_all leaf_wf (leaves n) \<Longrightarrow>
        findTerminalWindowLeafByTabId n t = find (\<lambda>l. t \<in> set (wl_tabIds l)) (leaves n)"
    by (induction n) (auto simp: find_app split: option.split)
  then show "layout_wf n \<Longrightarrow> ?thesis" by (simp add: layout_wf_def leaves_wf_def)
qed

lemma find_Some_mem: "find P xs = Some x \<Longrightarrow> x \<in> set xs \<and> P x"
  by (auto simp: find_Some_iff)

lemma find_by_tab_Some:
  assumes "layout_wf n" and "findTerminalWindowLeafByTabId n t = Some l"
  shows "l \<in> set (leaves n)" and "t \<in> set (wl_tabIds l)"
  using assms find_by_tab [OF assms(1)] find_Some_mem by fastforce+

lemma find_by_tab_None:
  assumes "layout_wf n"
  shows "findTerminalWindowLeafByTabId n t = None \<longleftrightarrow> t \<notin> set (collectWindowTabIds n)"
  by (auto simp: find_by_tab [OF assms] find_None_iff collect_leaves tabs_of_def)

lemma unique_leaf:
  "leaves_wf ls \<Longrightarrow> l \<in> set ls \<Longrightarrow> m \<in> set ls \<Longrightarrow> t \<in> set (wl_tabIds l) \<Longrightarrow> t \<in> set (wl_tabIds m) \<Longrightarrow> l = m"
proof (induction ls)
  case (Cons x ls)
  have "leaves_wf ls" using Cons.prems(1) by (auto simp: leaves_wf_def)
  moreover have "t \<in> set (wl_tabIds x) \<Longrightarrow> k \<in> set ls \<Longrightarrow> t \<notin> set (wl_tabIds k)" for k
    using Cons.prems(1) leaf_tabs [of k ls] by (auto simp: leaves_wf_def)
  ultimately show ?case using Cons by auto
qed simp

lemma update_absent_leaf:
  "list_all leaf_wf (leaves n) \<Longrightarrow> i \<notin> wl_id ` set (leaves n) \<Longrightarrow> updateLeafById n i f c = (n, c)"
  by (induction n arbitrary: c) (auto simp: image_Un)

lemma update_effect:
  assumes "layout_wf n" and "l \<in> set (leaves n)" and "f l c = (m, c')"
  shows "\<exists>n' ls rs. updateLeafById n (wl_id l) f c = (n', c') \<and> leaves n = ls @ l # rs
           \<and> leaves n' = ls @ leaves m @ rs"
  using assms
proof (induction n)
  case (WLeaf k)
  then have "leaf_wf l" by (auto dest: leaf_wfD)
  with WLeaf show ?case by (intro exI [of _ m] exI [of _ "[]"]) auto
next
  case (WSplit i dir r a b)
  have wf: "layout_wf a" "layout_wf b" "wl_id ` set (leaves a) \<inter> wl_id ` set (leaves b) = {}"
    using WSplit.prems(1) by (auto simp: layout_wf_def leaves_wf_def)
  have ok: "list_all leaf_wf (leaves a)" "list_all leaf_wf (leaves b)"
    using wf by (auto simp: layout_wf_def leaves_wf_def)
  show ?case
  proof (cases "l \<in> set (leaves a)")
    case True
    from WSplit.IH(1) [OF wf(1) True WSplit.prems(3)] obtain n' ls rs where
      n': "updateLeafById a (wl_id l) f c = (n', c')" "leaves a = ls @ l # rs" "leaves n' = ls @ leaves m @ rs"
      by blast
    have "updateLeafById b (wl_id l) f c' = (b, c')"
      using ok(2) wf(3) True by (intro update_absent_leaf) auto
    with n' show ?thesis
      by (intro exI [of _ "WSplit i dir r n' b"] exI [of _ ls] exI [of _ "rs @ leaves b"]) simp
  next
    case False
    with WSplit.prems have lb: "l \<in> set (leaves b)" by simp
    from WSplit.IH(2) [OF wf(2) lb WSplit.prems(3)] obtain n' ls rs where
      n': "updateLeafById b (wl_id l) f c = (n', c')" "leaves b = ls @ l # rs" "leaves n' = ls @ leaves m @ rs"
      by blast
    have "updateLeafById a (wl_id l) f c = (a, c)"
      using ok(1) wf(3) lb by (intro update_absent_leaf) auto
    with n' show ?thesis
      by (intro exI [of _ "WSplit i dir r a n'"] exI [of _ "leaves a @ ls"] exI [of _ rs]) simp
  qed
qed

text \<open>An update that keeps the id of the leaf and takes no tab from another leaf.\<close>

lemma leaf_update:
  assumes wf: "layout_wf n" and l: "l \<in> set (leaves n)"
    and f: "leaf_wf (f l)" "wl_id (f l) = wl_id l"
    and dis: "set (wl_tabIds (f l)) \<inter> (set (collectWindowTabIds n) - set (wl_tabIds l)) = {}"
    and n'_def: "n' = fst (updateLeafById n (wl_id l) (leaf_updater f) c)"
  shows "layout_wf n'" and "f l \<in> set (leaves n')"
    and "set (collectWindowTabIds n') = set (collectWindowTabIds n) - set (wl_tabIds l) \<union> set (wl_tabIds (f l))"
proof -
  obtain ls rs where n: "leaves n = ls @ l # rs" and n': "leaves n' = ls @ f l # rs"
    using update_effect [OF wf l, of "leaf_updater f" c "WLeaf (f l)" c]
    by (auto simp: leaf_updater_def n'_def)
  have w: "leaves_wf (ls @ l # rs)" using wf n by (simp add: layout_wf_def)
  then have out: "set (tabs_of (ls @ rs)) = set (collectWindowTabIds n) - set (wl_tabIds l)"
    by (auto simp: collect_leaves n leaves_wf_def)
  have "leaves_wf (ls @ [f l] @ rs)"
    by (rule leaves_wf_replace [OF w]) (use f dis w out in \<open>auto simp: leaf_wf_def leaves_wf_def\<close>)
  then show "layout_wf n'" by (simp add: layout_wf_def n')
  show "f l \<in> set (leaves n')" by (simp add: n')
  show "set (collectWindowTabIds n') = set (collectWindowTabIds n) - set (wl_tabIds l) \<union> set (wl_tabIds (f l))"
    unfolding out [symmetric] by (auto simp: collect_leaves n')
qed

section \<open>Removing a tab\<close>

definition rest_tabs :: "string \<Rightarrow> window_leaf \<Rightarrow> string list" where
  "rest_tabs t l = filter (\<lambda>i. i \<noteq> t) (wl_tabIds l)"

lemma remove_leaf:
  assumes "leaf_wf l"
  shows "case removeTabFromLeaf l t of None \<Rightarrow> rest_tabs t l = []
         | Some m \<Rightarrow> leaf_wf m \<and> wl_id m = wl_id l \<and> wl_tabIds m = rest_tabs t l"
proof (cases "t \<in> set (wl_tabIds l) \<and> rest_tabs t l \<noteq> []")
  case True
  let ?l = "l\<lparr>wl_tabIds := rest_tabs t l,
             wl_activeTabId := if wl_activeTabId l = Some t then list_head (rest_tabs t l) else wl_activeTabId l\<rparr>"
  have "leaf_wf (normalizeLeaf ?l)" using True assms
    by (intro normalize_wf) (auto simp: leaf_wf_def rest_tabs_def)
  moreover have "wl_tabIds (normalizeLeaf ?l) = rest_tabs t l" using assms
    by (subst normalize_tabs) (simp_all add: leaf_wf_def rest_tabs_def)
  ultimately show ?thesis using True by (simp add: removeTabFromLeaf_def Let_def flip: rest_tabs_def)
next
  case False
  have "t \<notin> set (wl_tabIds l) \<Longrightarrow> rest_tabs t l = wl_tabIds l"
    unfolding rest_tabs_def by (rule filter_True) auto
  with False assms show ?thesis by (auto simp: removeTabFromLeaf_def rest_tabs_def Let_def)
qed

definition leaves_opt :: "window_node option \<Rightarrow> window_leaf list" where
  "leaves_opt n = (case n of None \<Rightarrow> [] | Some m \<Rightarrow> leaves m)"

lemma leaves_remove:
  "leaves_opt (removeTab n t) = List.map_filter (\<lambda>l. removeTabFromLeaf l t) (leaves n)"
  by (induction n)
    (auto simp: leaves_opt_def map_filter_def collapseWindowChildren_def split: option.splits)

lemma remove_leaves:
  "leaves_wf ls \<Longrightarrow>
   leaves_wf (List.map_filter (\<lambda>l. removeTabFromLeaf l t) ls)
   \<and> tabs_of (List.map_filter (\<lambda>l. removeTabFromLeaf l t) ls) = filter (\<lambda>i. i \<noteq> t) (tabs_of ls)
   \<and> set (map wl_id (List.map_filter (\<lambda>l. removeTabFromLeaf l t) ls)) \<subseteq> set (map wl_id ls)"
proof (induction ls)
  case Nil
  then show ?case by (simp add: map_filter_def leaves_wf_def)
next
  case (Cons l ls)
  let ?ms = "List.map_filter (\<lambda>l. removeTabFromLeaf l t) ls"
  have l: "leaf_wf l" "leaves_wf ls" "set (wl_tabIds l) \<inter> set (tabs_of ls) = {}" "wl_id l \<notin> set (map wl_id ls)"
    using Cons.prems by (auto simp: leaves_wf_def)
  note IH = Cons.IH [OF l(2)]
  show ?case
  proof (cases "removeTabFromLeaf l t")
    case None
    with remove_leaf [OF l(1), of t] IH show ?thesis by (auto simp: map_filter_simps rest_tabs_def)
  next
    case (Some m)
    with remove_leaf [OF l(1), of t] have m: "leaf_wf m" "wl_id m = wl_id l" "wl_tabIds m = rest_tabs t l" by auto
    have "leaves_wf (m # ?ms)" using IH l m by (auto simp: leaves_wf_def leaf_wf_def rest_tabs_def)
    with Some IH m show ?thesis by (auto simp: map_filter_simps rest_tabs_def)
  qed
qed

lemma remove_layout:
  assumes "layout_wf n"
  shows "case removeTab n t of None \<Rightarrow> set (collectWindowTabIds n) \<subseteq> {t}
         | Some m \<Rightarrow> layout_wf m \<and> collectWindowTabIds m = filter (\<lambda>i. i \<noteq> t) (collectWindowTabIds n)
                    \<and> set (map wl_id (leaves m)) \<subseteq> set (map wl_id (leaves n))"
proof -
  have "leaves_wf (leaves_opt (removeTab n t))"
    "tabs_of (leaves_opt (removeTab n t)) = filter (\<lambda>i. i \<noteq> t) (tabs_of (leaves n))"
    "set (map wl_id (leaves_opt (removeTab n t))) \<subseteq> set (map wl_id (leaves n))"
    using remove_leaves [of "leaves n" t] assms by (simp_all add: leaves_remove layout_wf_def)
  then show ?thesis
    by (cases "removeTab n t")
      (auto simp: leaves_opt_def layout_wf_def collect_leaves filter_empty_conv dest!: sym [of "[]"])
qed

section \<open>Inserting, activating and reordering\<close>

lemma insert_effect:
  assumes wf: "layout_wf n" and anchor: "a \<in> set (collectWindowTabIds n)"
    and t: "t \<notin> set (collectWindowTabIds n)" "t \<noteq> []"
  shows "layout_wf (insertTabAfterInLeaf n a t act)"
    and "set (collectWindowTabIds (insertTabAfterInLeaf n a t act)) = insert t (set (collectWindowTabIds n))"
proof -
  obtain l where l: "findTerminalWindowLeafByTabId n a = Some l"
    using find_by_tab_None [OF wf] anchor by fastforce
  note lm = find_by_tab_Some [OF wf l]
  define f where "f = (\<lambda>cur. let nextTabIds = (if t \<in> set (wl_tabIds cur) then wl_tabIds cur
                            else splice_in (index_after a (wl_tabIds cur)) t (wl_tabIds cur))
          in normalizeLeaf (cur\<lparr>wl_tabIds := nextTabIds, wl_activeTabId := or_else act (wl_activeTabId cur)\<rparr>))"
  have lw: "leaf_wf l" using leaf_wfD wf lm(1) by blast
  have sub: "set (wl_tabIds l) \<subseteq> set (collectWindowTabIds n)" using leaf_tabs lm(1) by (simp add: collect_leaves)
  then have tl: "t \<notin> set (wl_tabIds l)" using t by blast
  have fw: "leaf_wf (f l)" using lw t tl
    by (simp add: f_def Let_def) (intro normalize_wf, auto simp: leaf_wf_def)
  have ft: "set (wl_tabIds (f l)) = insert t (set (wl_tabIds l))" "wl_id (f l) = wl_id l"
    using tl by (simp_all add: f_def Let_def normalizeLeaf_def)
  have eq: "insertTabAfterInLeaf n a t act = fst (updateLeafById n (wl_id l) (leaf_updater f) 0)"
    by (simp add: insertTabAfterInLeaf_def l f_def)
  have dis: "set (wl_tabIds (f l)) \<inter> (set (collectWindowTabIds n) - set (wl_tabIds l)) = {}"
    using ft t by auto
  note u = leaf_update [where f = f, OF wf lm(1) fw ft(2) dis eq]
  from u(1) show "layout_wf (insertTabAfterInLeaf n a t act)" .
  from u(3) ft(1) sub show
    "set (collectWindowTabIds (insertTabAfterInLeaf n a t act)) = insert t (set (collectWindowTabIds n))" by auto
qed

lemma insertMissing_effect:
  "layout_wf n \<Longrightarrow> a \<in> set (collectWindowTabIds n) \<Longrightarrow> distinct ts \<Longrightarrow> [] \<notin> set ts \<Longrightarrow>
   set ts \<inter> set (collectWindowTabIds n) = {} \<Longrightarrow>
   layout_wf (insertMissing n a ts)
   \<and> set (collectWindowTabIds (insertMissing n a ts)) = set ts \<union> set (collectWindowTabIds n)"
proof (induction ts arbitrary: n a)
  case (Cons t ts)
  let ?n = "insertTabAfterInLeaf n a t (Some (Some t))"
  have n: "layout_wf ?n" "set (collectWindowTabIds ?n) = insert t (set (collectWindowTabIds n))"
    using insert_effect [OF Cons.prems(1,2), of t "Some (Some t)"] Cons.prems(4,5) by auto
  have "layout_wf (insertMissing ?n t ts)
     \<and> set (collectWindowTabIds (insertMissing ?n t ts)) = set ts \<union> set (collectWindowTabIds ?n)"
    by (rule Cons.IH) (use n Cons.prems in auto)
  with n(2) show ?case by (simp add: insertMissing_def)
qed (simp add: insertMissing_def)

lemma activate_effect:
  assumes wf: "layout_wf n" and t: "t \<noteq> []"
  shows "layout_wf (setLeafActiveTabByTabId n t)"
    and "set (collectWindowTabIds (setLeafActiveTabByTabId n t)) = set (collectWindowTabIds n)"
    and "t \<in> set (collectWindowTabIds n) \<Longrightarrow>
         \<exists>l \<in> set (leaves (setLeafActiveTabByTabId n t)). wl_activeTabId l = Some t"
proof -
  define f where "f = (\<lambda>l. if t \<in> set (wl_tabIds l) then normalizeLeaf (l\<lparr>wl_activeTabId := Some t\<rparr>) else l)"
  have "layout_wf (setLeafActiveTabByTabId n t)
     \<and> set (collectWindowTabIds (setLeafActiveTabByTabId n t)) = set (collectWindowTabIds n)
     \<and> (t \<in> set (collectWindowTabIds n) \<longrightarrow>
         (\<exists>l \<in> set (leaves (setLeafActiveTabByTabId n t)). wl_activeTabId l = Some t))"
  proof (cases "findTerminalWindowLeafByTabId n t")
    case None
    with wf find_by_tab_None [OF wf, of t] show ?thesis
      unfolding setLeafActiveTabByTabId_def None by simp
  next
    case (Some l)
    note lm = find_by_tab_Some [OF wf Some]
    have lw: "leaf_wf l" using leaf_wfD wf lm(1) by blast
    have fl: "leaf_wf (f l)" "wl_id (f l) = wl_id l" "wl_tabIds (f l) = wl_tabIds l" "wl_activeTabId (f l) = Some t"
      using lw lm(2) t normalize_wf [of "l\<lparr>wl_activeTabId := Some t\<rparr>"]
        normalize_tabs [of "l\<lparr>wl_activeTabId := Some t\<rparr>"] normalize_active [of t "l\<lparr>wl_activeTabId := Some t\<rparr>"]
      by (auto simp: f_def leaf_wf_def)
    have eq: "setLeafActiveTabByTabId n t = fst (updateLeafById n (wl_id l) (leaf_updater f) 0)"
      by (simp add: setLeafActiveTabByTabId_def Some setLeafActiveTab_def f_def)
    have sub: "set (wl_tabIds l) \<subseteq> set (collectWindowTabIds n)" using leaf_tabs lm(1) by (simp add: collect_leaves)
    have "set (wl_tabIds (f l)) \<inter> (set (collectWindowTabIds n) - set (wl_tabIds l)) = {}" using fl by auto
    note u = leaf_update [where f = f, OF wf lm(1) fl(1,2) this eq]
    then show ?thesis using fl sub by auto
  qed
  then show "layout_wf (setLeafActiveTabByTabId n t)"
    "set (collectWindowTabIds (setLeafActiveTabByTabId n t)) = set (collectWindowTabIds n)"
    "t \<in> set (collectWindowTabIds n) \<Longrightarrow>
         \<exists>l \<in> set (leaves (setLeafActiveTabByTabId n t)). wl_activeTabId l = Some t" by auto
qed

lemma remove_stale:
  assumes "layout_wf n"
  shows "case foldl (\<lambda>m t. if t \<notin> T then removeTabFromTerminalWindows m t else m) (Some n) ts of
           None \<Rightarrow> set (collectWindowTabIds n) \<subseteq> set ts - T
         | Some m \<Rightarrow> layout_wf m \<and> set (collectWindowTabIds m) = set (collectWindowTabIds n) - (set ts - T)"
  using assms
proof (induction ts arbitrary: n)
  case (Cons t ts)
  show ?case
  proof (cases "t \<in> T")
    case True
    with Cons.IH [OF Cons.prems] show ?thesis by (auto split: option.splits)
  next
    case False
    show ?thesis
    proof (cases "removeTab n t")
      case None
      have "foldl (\<lambda>m t. if t \<notin> T then removeTabFromTerminalWindows m t else m) None ts = None"
        by (induction ts) (simp_all add: removeTabFromTerminalWindows_def)
      with None False remove_layout [OF Cons.prems, of t] show ?thesis
        by (auto simp: removeTabFromTerminalWindows_def)
    next
      case (Some m)
      with remove_layout [OF Cons.prems, of t] have m: "layout_wf m"
        "set (collectWindowTabIds m) = set (collectWindowTabIds n) - {t}" by auto
      from Cons.IH [OF m(1)] Some False m(2) show ?thesis
        by (auto simp: removeTabFromTerminalWindows_def split: option.splits)
    qed
  qed
qed simp

lemma root_wf:
  assumes "ids \<noteq> []" and "distinct ids" and "[] \<notin> set ids"
  shows "\<exists>n c'. createTerminalWindowRoot now ids a c = (Some n, c') \<and> layout_wf n
           \<and> set (collectWindowTabIds n) = set ids
           \<and> (\<forall>x. a = Some x \<and> x \<in> set ids \<longrightarrow> (\<exists>l \<in> set (leaves n). wl_activeTabId l = Some x))"
proof -
  let ?l = "\<lparr>wl_id = make_id ''window-leaf'' (now (c + 1)) (c + 1), wl_tabIds = ids, wl_activeTabId = a\<rparr>"
  have "leaf_wf (normalizeLeaf ?l)" using assms by (intro normalize_wf) auto
  moreover have "wl_tabIds (normalizeLeaf ?l) = ids" using assms by (simp add: normalize_tabs)
  moreover have "a = Some x \<Longrightarrow> x \<in> set ids \<Longrightarrow> wl_activeTabId (normalizeLeaf ?l) = Some x" for x
    using assms by (intro normalize_active) auto
  ultimately show ?thesis using assms
    by (auto simp: createTerminalWindowRoot_def createTerminalWindowLeaf_def createTerminalWindowId_def
        layout_wf_def leaves_wf_def)
qed

lemma first_leaf_normal: "layout_wf n \<Longrightarrow> getFirstTerminalWindowLeaf n \<in> set (leaves n)"
proof -
  have "list_all leaf_wf (leaves n) \<Longrightarrow> getFirstTerminalWindowLeaf n \<in> set (leaves n)"
    by (induction n) auto
  then show "layout_wf n \<Longrightarrow> ?thesis" by (simp add: layout_wf_def leaves_wf_def)
qed

lemma anchor_in_layout:
  assumes wf: "layout_wf n"
  shows "insertAnchor n (collectWindowTabIds n) a b ids \<in> set (collectWindowTabIds n)"
proof -
  let ?l = "getFirstTerminalWindowLeaf n"
  have "wl_tabIds ?l \<noteq> []" using leaf_wfD [OF wf first_leaf_normal [OF wf]] by (simp add: leaf_wf_def)
  moreover from this have "last (wl_tabIds ?l) \<in> set (collectWindowTabIds n)"
    using leaf_tabs [OF first_leaf_normal [OF wf]] last_in_set by (auto simp: collect_leaves)
  ultimately show ?thesis
    by (auto simp: insertAnchor_def truthy_in_def last_conv_nth Let_def split: option.splits if_splits)
qed

lemma fill_missing:
  assumes wf: "layout_wf m" and "distinct ids" and "[] \<notin> set ids" and "set (collectWindowTabIds m) \<subseteq> set ids"
    and missing: "missing = filter (\<lambda>t. t \<notin> set (collectWindowTabIds m)) ids"
    and m': "m' = (if length missing > 0
                   then insertMissing m (insertAnchor m (collectWindowTabIds m) a b ids) missing else m)"
  shows "layout_wf m' \<and> set (collectWindowTabIds m') = set ids"
proof (cases "missing = []")
  case True
  then have "set ids \<subseteq> set (collectWindowTabIds m)" using missing by (auto simp: filter_empty_conv)
  with True assms show ?thesis by auto
next
  case False
  with insertMissing_effect [OF wf anchor_in_layout [OF wf], of missing a b ids] assms
  show ?thesis by auto
qed

lemma reconcile_wf:
  assumes ids: "tabs \<noteq> []" "distinct (map tb_id tabs)" "[] \<notin> tb_id ` set tabs"
    and cur: "\<And>m. current = Some m \<Longrightarrow> layout_wf m"
  shows "\<exists>n c'. reconcileTerminalWindows now current tabs act anchor c = (Some n, c') \<and> layout_wf n
           \<and> set (collectWindowTabIds n) = tb_id ` set tabs
           \<and> (\<forall>x. act = Some x \<and> x \<in> tb_id ` set tabs \<longrightarrow> (\<exists>l \<in> set (leaves n). wl_activeTabId l = Some x))"
proof -
  let ?ids = "map tb_id tabs"
  let ?a = "case act of Some a \<Rightarrow> Some a | None \<Rightarrow> list_head ?ids"
  let ?fold = "\<lambda>m. foldl (\<lambda>n t. if t \<notin> set ?ids then removeTabFromTerminalWindows n t else n)
                     (Some m) (collectWindowTabIds m)"
  have root: "\<exists>n c'. createTerminalWindowRoot now ?ids ?a c = (Some n, c') \<and> layout_wf n
           \<and> set (collectWindowTabIds n) = tb_id ` set tabs
           \<and> (\<forall>x. act = Some x \<and> x \<in> tb_id ` set tabs \<longrightarrow> (\<exists>l \<in> set (leaves n). wl_activeTabId l = Some x))"
    using root_wf [of ?ids now ?a c] ids by fastforce
  show ?thesis
  proof (cases "current = None \<or> (\<exists>m. current = Some m \<and> ?fold m = None)")
    case True
    with root ids(1) show ?thesis by (auto simp: reconcileTerminalWindows_def Let_def)
  next
    case False
    then obtain m k where m: "current = Some m" "?fold m = Some k" by auto
    have k: "layout_wf k" "set (collectWindowTabIds k) \<subseteq> set ?ids"
      using remove_stale [OF cur [OF m(1)], where T = "set ?ids" and ts = "collectWindowTabIds m"] m(2) by auto
    define missing where "missing = filter (\<lambda>t. t \<notin> set (collectWindowTabIds k)) ?ids"
    define k' where "k' = (if length missing > 0
      then insertMissing k (insertAnchor k (collectWindowTabIds k) anchor act ?ids) missing else k)"
    have k': "layout_wf k'" "set (collectWindowTabIds k') = set ?ids"
      using fill_missing [OF k(1) _ _ k(2) missing_def k'_def] ids by auto
    define r where "r = (if or_else act [] \<noteq> [] then setLeafActiveTabByTabId k' (or_else act []) else k')"
    have "reconcileTerminalWindows now current tabs act anchor c = (Some r, c)"
      using m ids(1) by (simp add: reconcileTerminalWindows_def Let_def missing_def k'_def r_def
          del: length_filter_map)
    moreover have "layout_wf r" "set (collectWindowTabIds r) = tb_id ` set tabs"
      using k' activate_effect(1,2) [OF k'(1)] by (auto simp: r_def)
    moreover have "\<exists>l \<in> set (leaves r). wl_activeTabId l = Some x"
      if "act = Some x" "x \<in> tb_id ` set tabs" for x
    proof -
      have "x \<noteq> []" using that(2) ids(3) by metis
      with activate_effect(3) [OF k'(1), of x] k'(2) that show ?thesis by (simp add: r_def or_else_def)
    qed
    ultimately show ?thesis by blast
  qed
qed

section \<open>Dragging a tab to another leaf\<close>

lemma find_by_id:
  "layout_wf n \<Longrightarrow> findTerminalWindowLeafById n i = find (\<lambda>l. wl_id l = i) (leaves n)"
proof -
  have "list_all leaf_wf (leaves n) \<Longrightarrow>
        findTerminalWindowLeafById n i = find (\<lambda>l. wl_id l = i) (leaves n)"
    by (induction n) (auto simp: find_app split: option.split)
  then show "layout_wf n \<Longrightarrow> ?thesis" by (simp add: layout_wf_def leaves_wf_def)
qed

lemma remove_keeps_leaf:
  assumes wf: "layout_wf n" and k: "k \<in> set (leaves n)" "rest_tabs t k \<noteq> []"
  shows "\<exists>m k'. removeTab n t = Some m \<and> layout_wf m \<and> k' \<in> set (leaves m) \<and> wl_id k' = wl_id k
           \<and> collectWindowTabIds m = filter (\<lambda>i. i \<noteq> t) (collectWindowTabIds n)
           \<and> set (map wl_id (leaves m)) \<subseteq> set (map wl_id (leaves n))"
proof -
  have "case removeTabFromLeaf k t of None \<Rightarrow> rest_tabs t k = []
        | Some m \<Rightarrow> leaf_wf m \<and> wl_id m = wl_id k \<and> wl_tabIds m = rest_tabs t k"
    using remove_leaf leaf_wfD wf k(1) by blast
  then obtain k' where k': "removeTabFromLeaf k t = Some k'" "wl_id k' = wl_id k"
    using k(2) by (auto split: option.splits)
  have "k' \<in> set (leaves_opt (removeTab n t))"
    unfolding leaves_remove map_filter_def using k(1) k'(1) by force
  then obtain m where "removeTab n t = Some m" "k' \<in> set (leaves m)"
    by (cases "removeTab n t") (auto simp: leaves_opt_def)
  with remove_layout [OF wf, of t] k'(2) show ?thesis by auto
qed

text \<open>The leaf that stays behind, or is the target, keeps a tab.\<close>

lemma target_keeps_tab:
  assumes wf: "layout_wf n" and l: "l \<in> set (leaves n)" "t \<in> set (wl_tabIds l)" and k: "k \<in> set (leaves n)"
    and "\<not> (wl_id l = wl_id k \<and> length (wl_tabIds l) \<le> 1)"
  shows "rest_tabs t k \<noteq> []"
proof (cases "k = l")
  case True
  with assms have "2 \<le> length (wl_tabIds l)" "distinct (wl_tabIds l)"
    using leaf_wfD [OF wf l(1)] by (auto simp: leaf_wf_def)
  then obtain x y zs where "wl_tabIds l = x # y # zs" "x \<noteq> y"
    by (cases "wl_tabIds l" rule: remdups_adj.cases) auto
  then show ?thesis using True by (auto simp: rest_tabs_def)
next
  case False
  then have "t \<notin> set (wl_tabIds k)" using unique_leaf [of "leaves n" l k t] wf l k by (auto simp: layout_wf_def)
  then have "rest_tabs t k = wl_tabIds k" unfolding rest_tabs_def by (intro filter_True) auto
  then show ?thesis using leaf_wfD [OF wf k] by (simp add: leaf_wf_def)
qed

definition ids_minted :: "nat \<Rightarrow> window_node \<Rightarrow> bool" where
  "ids_minted c n \<longleftrightarrow> list_all (minted c) (map wl_id (leaves n))"

lemma split_leaf_wf:
  assumes wf: "layout_wf m" and k: "k \<in> set (leaves m)" and t: "t \<noteq> []" "t \<notin> set (collectWindowTabIds m)"
    and new: "leaf_wf j" "wl_tabIds j = [t]" "wl_id j \<notin> set (map wl_id (leaves m))"
    and upd: "updateLeafById m (wl_id k) (splitWithLeaf now edge j) c = (m', c')"
  shows "layout_wf m' \<and> j \<in> set (leaves m') \<and> set (collectWindowTabIds m') = insert t (set (collectWindowTabIds m))"
proof -
  have kw: "leaf_wf k" using leaf_wfD wf k by blast
  obtain s c1 where s: "splitWithLeaf now edge j k c = (s, c1)" by (cases "splitWithLeaf now edge j k c")
  have sl: "leaves s = [j, k] \<or> leaves s = [k, j]"
    using s kw by (auto simp: splitWithLeaf_def createTerminalWindowId_def Let_def split: if_splits)
  obtain ls rs where m: "leaves m = ls @ k # rs" "leaves m' = ls @ leaves s @ rs"
    using update_effect [OF wf k, of "splitWithLeaf now edge j" c s c1] s upd by auto
  have w: "leaves_wf (ls @ k # rs)" using wf m(1) by (simp add: layout_wf_def)
  have "leaves_wf (ls @ leaves s @ rs)"
    by (rule leaves_wf_replace [OF w])
      (use sl w kw new t m(1) in \<open>auto simp: leaves_wf_def leaf_wf_def collect_leaves\<close>)
  with m sl new(2) show ?thesis by (auto simp: layout_wf_def collect_leaves)
qed

lemma drag_split_wf:
  assumes wf: "layout_wf n" "ids_minted c n" and t: "t \<in> set (collectWindowTabIds n)"
    and k: "k \<in> set (leaves n)" and split: "splitLeafWithTab now n t (wl_id k) edge c = (r, c')"
  shows "\<exists>n'. r = Some n' \<and> layout_wf n' \<and> set (collectWindowTabIds n') = set (collectWindowTabIds n)
           \<and> (\<exists>l \<in> set (leaves n'). wl_tabIds l = [t] \<and> wl_activeTabId l = Some t)"
proof -
  obtain l where fl: "findTerminalWindowLeafByTabId n t = Some l"
    using find_by_tab_None [OF wf(1)] t by fastforce
  note l = find_by_tab_Some [OF wf(1) fl]
  have lw: "leaf_wf l" using leaf_wfD wf(1) l(1) by blast
  then have tn: "t \<noteq> []" using l(2) by (auto simp: leaf_wf_def)
  have fk: "findTerminalWindowLeafById n (wl_id k) \<noteq> None"
    using k by (auto simp: find_by_id [OF wf(1)] find_None_iff)
  show ?thesis
  proof (cases "wl_id l = wl_id k \<and> length (wl_tabIds l) \<le> 1")
    case True
    then have "wl_tabIds l = [t]" using l(2) by (cases "wl_tabIds l") auto
    moreover from this lw have "wl_activeTabId l = Some t" by (auto simp: leaf_wf_def)
    ultimately show ?thesis using True fl fk split wf(1) l(1)
      by (auto simp: splitLeafWithTab_def)
  next
    case False
    obtain m k' where m: "removeTab n t = Some m" "layout_wf m" "k' \<in> set (leaves m)" "wl_id k' = wl_id k"
      "collectWindowTabIds m = filter (\<lambda>i. i \<noteq> t) (collectWindowTabIds n)"
      "set (map wl_id (leaves m)) \<subseteq> set (map wl_id (leaves n))"
      using remove_keeps_leaf [OF wf(1) k target_keeps_tab [OF wf(1) l k False]] by blast
    define j where "j = normalizeLeaf \<lparr>wl_id = make_id ''window-leaf'' (now (c + 1)) (c + 1),
                          wl_tabIds = [t], wl_activeTabId = Some t\<rparr>"
    have j: "leaf_wf j" "wl_tabIds j = [t]" "wl_activeTabId j = Some t"
      using tn by (auto simp: j_def leaf_wf_def normalizeLeaf_def truthy_in_def)
    have "make_id ''window-leaf'' (now (c + 1)) (c + 1) \<notin> set (map wl_id (leaves n))"
      using wf(2) by (intro fresh_not_in [of c]) (auto simp: ids_minted_def)
    then have ji: "wl_id j \<notin> set (map wl_id (leaves m))" using m(6) by (auto simp: j_def)
    obtain m' c2 where up: "updateLeafById m (wl_id k') (splitWithLeaf now edge j) (c + 1) = (m', c2)"
      by (cases "updateLeafById m (wl_id k') (splitWithLeaf now edge j) (c + 1)")
    have cr: "createTerminalWindowLeaf now [t] (Some t) c = (j, c + 1)"
      by (simp add: createTerminalWindowLeaf_def createTerminalWindowId_def j_def)
    have "r = Some m'" using split fl fk False m(1) up m(4)
      by (auto simp: splitLeafWithTab_def removeTabFromTerminalWindows_def cr Let_def split: option.splits)
    moreover have "layout_wf m' \<and> j \<in> set (leaves m')
        \<and> set (collectWindowTabIds m') = insert t (set (collectWindowTabIds m))"
      using split_leaf_wf [OF m(2,3) tn _ j(1,2) ji up] m(5) by simp
    ultimately show ?thesis using j m(5) t by auto
  qed
qed

section \<open>Persisting the layout\<close>

text \<open>The same layout up to a renaming of tabs, with ratios clamped; node ids are drawn anew.\<close>

fun renamed_layout :: "(string \<Rightarrow> string) \<Rightarrow> window_node \<Rightarrow> window_node \<Rightarrow> bool" where
  "renamed_layout f (WLeaf l) (WLeaf m) \<longleftrightarrow>
     wl_tabIds m = map f (wl_tabIds l) \<and> wl_activeTabId m = map_option f (wl_activeTabId l)"
| "renamed_layout f (WSplit _ dir r a b) (WSplit _ dir' r' a' b') \<longleftrightarrow>
     dir' = dir \<and> r' = max (1 / 5) (min (4 / 5) r) \<and> renamed_layout f a a' \<and> renamed_layout f b b'"
| "renamed_layout f _ _ \<longleftrightarrow> False"

lemma takeTabs_all:
  "distinct (map f ts) \<Longrightarrow> f ` set ts \<inter> set used = {} \<Longrightarrow>
   (\<And>t. t \<in> set ts \<Longrightarrow> nth_opt ids (g t) = Some (f t) \<and> f t \<noteq> []) \<Longrightarrow>
   \<exists>used'. takeTabs ids (map g ts) used = (map f ts, used') \<and> set used' = f ` set ts \<union> set used"
proof (induction ts arbitrary: used)
  case (Cons t ts)
  have t: "nth_opt ids (g t) = Some (f t)" "f t \<noteq> []" "f t \<notin> set used" using Cons.prems by auto
  have "\<exists>used'. takeTabs ids (map g ts) (f t # used) = (map f ts, used')
          \<and> set used' = f ` set ts \<union> set (f t # used)"
    by (rule Cons.IH) (use Cons.prems in auto)
  with t show ?case by (auto simp: or_else_def)
qed simp

lemma map_filter_all: "(\<And>t. t \<in> set ts \<Longrightarrow> idx t = Some (g t)) \<Longrightarrow> List.map_filter idx ts = map g ts"
  by (induction ts) (auto simp: map_filter_simps)

lemma restore_leaf_layout:
  assumes l: "leaf_wf l" and inj: "inj_on f (set (wl_tabIds l))"
    and idx: "\<And>t. t \<in> set (wl_tabIds l) \<Longrightarrow> idx t = Some (g t) \<and> nth_opt ids (g t) = Some (f t) \<and> f t \<noteq> []"
    and used: "f ` set (wl_tabIds l) \<inter> set used = {}"
  shows "\<exists>r m used' c'. serializeLayout idx (WLeaf l) = Some r
           \<and> restoreLayout now ids r (used, c) = (Some (WLeaf m), used', c')
           \<and> renamed_layout f (WLeaf l) (WLeaf m) \<and> set used' = f ` set (wl_tabIds l) \<union> set used"
proof -
  obtain a where a: "a \<in> set (wl_tabIds l)" "wl_activeTabId l = Some a" using l by (auto simp: leaf_wf_def)
  have d: "distinct (map f (wl_tabIds l))" using l inj by (simp add: leaf_wf_def distinct_map)
  have gd: "distinct (map g (wl_tabIds l))"
    unfolding distinct_map using l inj idx by (auto simp: leaf_wf_def inj_on_def) (metis option.inject)
  have an: "a \<noteq> []" using a l by (auto simp: leaf_wf_def)
  have mf: "List.map_filter idx (wl_tabIds l) = map g (wl_tabIds l)" using idx by (intro map_filter_all) simp
  have ser: "serializeLayout idx (WLeaf l) = Some (RWLeaf (map g (wl_tabIds l)) (Some (g a)))"
    using l a an idx [OF a(1)] gd by (simp add: mf leaf_wf_def)
  obtain used' where take: "takeTabs ids (map g (wl_tabIds l)) used = (map f (wl_tabIds l), used')"
    "set used' = f ` set (wl_tabIds l) \<union> set used"
    using takeTabs_all [OF d used, of ids g] idx by blast
  have fa: "nth_opt ids (g a) = Some (f a)" "f a \<noteq> []" "f a \<in> set (map f (wl_tabIds l))"
    using idx [OF a(1)] a(1) by auto
  have ne: "wl_tabIds l \<noteq> []" using l by (simp add: leaf_wf_def)
  let ?m = "\<lparr>wl_id = make_id ''window-leaf'' (now (c + 1)) (c + 1), wl_tabIds = map f (wl_tabIds l),
              wl_activeTabId = Some (f a)\<rparr>"
  have nm: "normalizeLeaf ?m = ?m" using d fa by (simp add: normalizeLeaf_def truthy_in_def)
  have "restoreLayout now ids (RWLeaf (map g (wl_tabIds l)) (Some (g a))) (used, c)
        = (Some (WLeaf ?m), used', c + 1)"
    using ne fa take(1) nm
    by (simp add: truthy_in_def createTerminalWindowLeaf_def createTerminalWindowId_def)
  with ser take(2) a(2) show ?thesis by fastforce
qed

lemma restore_layout:
  assumes "leaves_wf (leaves n)" and "inj_on f (set (collectWindowTabIds n))"
    and "\<And>t. t \<in> set (collectWindowTabIds n) \<Longrightarrow>
           idx t = Some (g t) \<and> nth_opt ids (g t) = Some (f t) \<and> f t \<noteq> []"
    and "f ` set (collectWindowTabIds n) \<inter> set used = {}"
  shows "\<exists>r m used' c'. serializeLayout idx n = Some r
           \<and> restoreLayout now ids r (used, c) = (Some m, used', c')
           \<and> renamed_layout f n m \<and> set used' = f ` set (collectWindowTabIds n) \<union> set used"
  using assms
proof (induction n arbitrary: used c)
  case (WLeaf l)
  then have "leaf_wf l" by (simp add: leaves_wf_def)
  from restore_leaf_layout [OF this, of f idx g ids used now c] WLeaf.prems show ?case by fastforce
next
  case (WSplit i dir r a b)
  have wf: "leaves_wf (leaves a)" "leaves_wf (leaves b)"
    "set (collectWindowTabIds a) \<inter> set (collectWindowTabIds b) = {}"
    using WSplit.prems(1) by (auto simp: leaves_wf_def collect_leaves)
  have inj: "inj_on f (set (collectWindowTabIds a))" "inj_on f (set (collectWindowTabIds b))"
    using WSplit.prems(2) by (auto simp: inj_on_Un)
  have img: "f ` set (collectWindowTabIds a) \<inter> f ` set (collectWindowTabIds b) = {}"
    using WSplit.prems(2) wf(3) by (auto simp: inj_on_def)
  have used: "f ` set (collectWindowTabIds a) \<inter> set used = {}" using WSplit.prems(4) by auto
  obtain ra ma ua ca where A: "serializeLayout idx a = Some ra"
    "restoreLayout now ids ra (used, c) = (Some ma, ua, ca)" "renamed_layout f a ma"
    "set ua = f ` set (collectWindowTabIds a) \<union> set used"
    using WSplit.IH(1) [OF wf(1) inj(1) _ used, of c] WSplit.prems(3) by auto
  have "f ` set (collectWindowTabIds b) \<inter> set ua = {}" using A(4) img WSplit.prems(4) by auto
  then obtain rb mb ub cb where B: "serializeLayout idx b = Some rb"
    "restoreLayout now ids rb (ua, ca) = (Some mb, ub, cb)" "renamed_layout f b mb"
    "set ub = f ` set (collectWindowTabIds b) \<union> set ua"
    using WSplit.IH(2) [OF wf(2) inj(2), of ua ca] WSplit.prems(3) by auto
  show ?case using A B by (auto simp: createTerminalWindowId_def max_def min_def image_Un)
qed

lemma renamed_collect: "renamed_layout f n m \<Longrightarrow> collectWindowTabIds m = map f (collectWindowTabIds n)"
  by (induction f n m rule: renamed_layout.induct) auto

lemma index_of_tab:
  assumes "distinct (map tb_id tabs)" and "i < length tabs"
  shows "tabIndexById tabs (tb_id (tabs ! i)) = Some i"
proof -
  let ?z = "zip (map tb_id tabs) [0..<length tabs]"
  have "(tb_id (tabs ! i), i) \<in> set (rev ?z)" using assms(2)
    by (auto simp: set_zip intro!: exI [of _ i])
  moreover have "distinct (map fst (rev ?z))" using assms(1) by (simp flip: rev_map)
  ultimately show ?thesis unfolding tabIndexById_def by (intro map_of_is_SomeI)
qed

text \<open>The tab of the second list at the position a tab has in the first.\<close>

definition tab_at_position :: "tab list \<Rightarrow> tab list \<Rightarrow> string \<Rightarrow> string" where
  "tab_at_position tabs tabs2 t = tb_id (tabs2 ! the (tabIndexById tabs t))"

lemma restore_layout_positions:
  assumes wf: "layout_wf n" "set (collectWindowTabIds n) = tb_id ` set tabs"
    and tabs: "list_all isRestorableTab tabs" "distinct (map tb_id tabs)"
    and tabs2: "length tabs2 = length tabs" "distinct (map tb_id tabs2)" "[] \<notin> tb_id ` set tabs2"
  shows "\<exists>r m c'. serializeTerminalWindowLayout (Some n) tabs = Some r
           \<and> restoreTerminalWindowLayout now (Some r) tabs2 c = (Some m, c')
           \<and> renamed_layout (tab_at_position tabs tabs2) n m"
proof -
  let ?f = "tab_at_position tabs tabs2" and ?g = "\<lambda>t. the (tabIndexById tabs t)"
  have pos: "\<exists>i < length tabs. t = tb_id (tabs ! i) \<and> ?g t = i \<and> tabIndexById tabs t = Some i"
    if "t \<in> set (collectWindowTabIds n)" for t
    using that wf(2) index_of_tab [OF tabs(2)] by (auto simp: in_set_conv_nth)
  have ids: "tabIndexById tabs t = Some (?g t) \<and> nth_opt (map tb_id tabs2) (?g t) = Some (?f t) \<and> ?f t \<noteq> []"
    if tin: "t \<in> set (collectWindowTabIds n)" for t
  proof -
    obtain i where i: "i < length tabs2" "?g t = i" "tabIndexById tabs t = Some i"
      using pos [OF tin] tabs2(1) by auto
    then have "tb_id (tabs2 ! i) \<noteq> []" using tabs2(3) nth_mem [OF i(1)] by (metis image_eqI)
    with i show ?thesis by (simp add: nth_opt_def tab_at_position_def)
  qed
  have inj: "inj_on ?f (set (collectWindowTabIds n))"
  proof (rule inj_onI)
    fix t u assume tu: "t \<in> set (collectWindowTabIds n)" "u \<in> set (collectWindowTabIds n)" "?f t = ?f u"
    obtain i j where ij: "i < length tabs" "t = tb_id (tabs ! i)" "?g t = i" "j < length tabs"
      "u = tb_id (tabs ! j)" "?g u = j" using pos [OF tu(1)] pos [OF tu(2)] by auto
    with tu(3) have "map tb_id tabs2 ! i = map tb_id tabs2 ! j" using tabs2(1) by (simp add: tab_at_position_def)
    then have "i = j" using tabs2(1,2) ij(1,4) nth_eq_iff_index_eq [of "map tb_id tabs2" i j] by simp
    then show "t = u" using ij by simp
  qed
  have ne: "tabs \<noteq> []" using wf collect_leaves [of n] leaves_nonempty [of n]
    by (cases "leaves n") (auto simp: layout_wf_def leaves_wf_def leaf_wf_def)
  have fil: "filter isRestorableTab tabs = tabs" using tabs(1) by (auto simp: list_all_iff intro: filter_True)
  obtain r m u c' where r: "serializeLayout (tabIndexById tabs) n = Some r"
    "restoreLayout now (map tb_id tabs2) r ([], c) = (Some m, u, c')" "renamed_layout ?f n m"
    using restore_layout [of n ?f "tabIndexById tabs" ?g "map tb_id tabs2" "[]" now c] wf(1) inj ids
    by (auto simp: layout_wf_def)
  have "\<exists>t \<in> tb_id ` set tabs. x = ?f t" if x: "x \<in> set (map tb_id tabs2)" for x
  proof -
    obtain i where i: "i < length tabs2" "x = tb_id (tabs2 ! i)" using x by (auto simp: in_set_conv_nth)
    then have "x = ?f (tb_id (tabs ! i))" using index_of_tab [OF tabs(2), of i] tabs2(1)
      by (simp add: tab_at_position_def)
    with i(1) tabs2(1) show ?thesis by (metis image_eqI nth_mem)
  qed
  then have all: "\<not> list_ex (\<lambda>i. i \<notin> set (collectWindowTabIds m)) (map tb_id tabs2)"
    unfolding renamed_collect [OF r(3)] using wf(2) by (fastforce simp: list_ex_iff)
  have "serializeTerminalWindowLayout (Some n) tabs = Some r"
    using ne r(1) by (simp add: serializeTerminalWindowLayout_def fil)
  moreover have "restoreTerminalWindowLayout now (Some r) tabs2 c = (Some m, c')"
    using ne r(2) all tabs2(1) by (auto simp: restoreTerminalWindowLayout_def Let_def)
  ultimately show ?thesis using r(3) by blast
qed

section \<open>Balanced layouts\<close>

fun depth :: "window_node \<Rightarrow> nat" where
  "depth (WLeaf _) = 0"
| "depth (WSplit _ _ _ a b) = Suc (max (depth a) (depth b))"

fun split_ratios :: "window_node \<Rightarrow> rat list" where
  "split_ratios (WLeaf _) = []"
| "split_ratios (WSplit _ _ r a b) = r # split_ratios a @ split_ratios b"

definition balanced_ok :: "string list \<Rightarrow> window_node \<Rightarrow> bool" where
  "balanced_ok ts n \<longleftrightarrow> map wl_tabIds (leaves n) = map (\<lambda>t. [t]) ts
     \<and> map wl_activeTabId (leaves n) = map Some ts
     \<and> 2 ^ depth n < 2 * length ts \<and> list_all (\<lambda>r. 1 / 2 \<le> r \<and> r \<le> 2 / 3) (split_ratios n)"

lemma half_power: "2 ^ d < 2 * ((n + 1) div 2) \<Longrightarrow> 2 \<le> n \<Longrightarrow> 2 ^ Suc d < 2 * (n :: nat)"
proof (cases d)
  case (Suc e)
  assume "2 ^ d < 2 * ((n + 1) div 2)" "2 \<le> n"
  then have "2 * 2 ^ e < 2 * ((n + 1) div 2)" using Suc by simp
  then have "(2 :: nat) ^ e < (n + 1) div 2" by simp
  then show ?thesis using Suc by simp
qed simp

lemma ratio_bounds: "2 \<le> n \<Longrightarrow> 1 / 2 \<le> (of_nat ((n + 1) div 2) / of_nat n :: rat)
    \<and> (of_nat ((n + 1) div 2) / of_nat n :: rat) \<le> 2 / 3"
proof -
  assume n: "2 \<le> n"
  have "n \<le> 2 * ((n + 1) div 2)" "3 * ((n + 1) div 2) \<le> 2 * n" using n by auto
  then have "(of_nat n :: rat) \<le> of_nat (2 * ((n + 1) div 2))" "(of_nat (3 * ((n + 1) div 2)) :: rat) \<le> of_nat (2 * n)"
    by (simp_all only: of_nat_le_iff)
  then show ?thesis using n by (simp add: field_simps)
qed

lemma map_halves: "map g (take k ts) @ map g (drop k ts) = map g ts"
  by (metis append_take_drop_id map_append)

lemma balanced_tree_ok:
  "ts \<noteq> [] \<Longrightarrow> balanced_ok ts (fst (buildBalancedTree now ts dir alt c))"
proof (induction now ts dir alt c rule: buildBalancedTree.induct)
  case (1 now ts dir alt c)
  show ?case
  proof (cases "length ts \<le> 1")
    case True
    with "1.prems" obtain t where "ts = [t]" by (cases ts) auto
    then show ?thesis
      by (simp add: buildBalancedTree.simps [of now "[t]"] createTerminalWindowLeaf_def createTerminalWindowId_def
          list_head_def balanced_ok_def normalizeLeaf_def truthy_in_def Let_def)
  next
    case False
    define mid where "mid = (length ts + 1) div 2"
    define nd where "nd = (if alt then (if dir = Horizontal then Vertical else Horizontal) else dir)"
    obtain i c0 where i: "createTerminalWindowId now ''window-split'' c = (i, c0)"
      by (cases "createTerminalWindowId now ''window-split'' c")
    obtain a c1 where a: "buildBalancedTree now (take mid ts) nd alt c0 = (a, c1)"
      by (cases "buildBalancedTree now (take mid ts) nd alt c0")
    obtain b c2 where b: "buildBalancedTree now (drop mid ts) nd alt c1 = (b, c2)"
      by (cases "buildBalancedTree now (drop mid ts) nd alt c1")
    have len: "0 < mid" "mid < length ts" using False by (auto simp: mid_def)
    have A: "balanced_ok (take mid ts) a"
      using "1.IH"(1) [OF False mid_def nd_def refl, of i c0] i a len "1.prems" by simp
    have B: "balanced_ok (drop mid ts) b"
      using "1.IH"(2) [OF False mid_def nd_def refl, of i c0 "(a, c1)" a c1] i a b len by simp
    have res: "fst (buildBalancedTree now ts dir alt c)
                 = WSplit i dir (of_nat mid / of_nat (length ts)) a b"
      using False i a b by (simp add: buildBalancedTree.simps [of now ts] Let_def mid_def nd_def)
    have "2 ^ depth a < 2 * mid" using A len by (simp add: balanced_ok_def)
    then have da: "2 ^ Suc (depth a) < 2 * length ts" using False half_power by (simp add: mid_def)
    have "length ts - mid \<le> mid" by (simp add: mid_def)
    then have "2 ^ depth b < 2 * mid" using B by (simp add: balanced_ok_def)
    then have db: "2 ^ Suc (depth b) < 2 * length ts" using False half_power by (simp add: mid_def)
    have "2 ^ Suc (max (depth a) (depth b)) < 2 * length ts" using da db by (simp add: max_def)
    then show ?thesis using A B res False ratio_bounds [of "length ts"]
      by (simp add: balanced_ok_def mid_def map_halves)
  qed
qed

section \<open>Restarting\<close>

text \<open>Startup restores the persisted tabs in their saved order
  (\<open>context/AppProvider.tsx\<close>, \<open>open_tabs.map(restoreTabFromPersistence).filter(...)\<close>).\<close>

fun restoreOpenTabs :: "(nat \<Rightarrow> nat) \<Rightarrow> (nat \<Rightarrow> string) \<Rightarrow> restorable_tab list \<Rightarrow> int \<Rightarrow> nat \<Rightarrow> tab list \<times> nat" where
  "restoreOpenTabs now uuid [] index c = ([], c)"
| "restoreOpenTabs now uuid (r # rs) index c =
     (let (t, c) = restoreTabFromPersistence now uuid r index c;
          (ts, c) = restoreOpenTabs now uuid rs (index + 1) c
      in (case t of None \<Rightarrow> ts | Some x \<Rightarrow> x # ts, c))"

text \<open>The panes shown in each leaf of a layout, by pane id.\<close>

definition pane_groups :: "tab list \<Rightarrow> window_node \<Rightarrow> string list list" where
  "pane_groups tabs n = map (\<lambda>l. concat (map (\<lambda>i. case find (\<lambda>t. tb_id t = i) tabs of
       Some t \<Rightarrow> map sp_id (collectSessionPanes (tb_root t)) | None \<Rightarrow> []) (wl_tabIds l))) (leaves n)"

section \<open>Properties\<close>

text \<open>C6: reconciling a layout with the open tabs. Whatever well-formed layout (or none) was
  shown before, the result is a well-formed layout whose leaves partition exactly the open
  tabs: closed tabs are gone, new tabs are placed, no tab is twice, no leaf is empty; and
  the active tab, when it is open, is the one its leaf shows.\<close>

theorem reconcile_partitions_tabs:
  assumes "tabs \<noteq> []" and "distinct (map tb_id tabs)" and "[] \<notin> tb_id ` set tabs"
    and "\<And>m. current = Some m \<Longrightarrow> layout_wf m"
  shows "\<exists>n c'. reconcileTerminalWindows now current tabs act anchor c = (Some n, c') \<and> layout_wf n
           \<and> set (collectWindowTabIds n) = tb_id ` set tabs
           \<and> (\<forall>x. act = Some x \<and> x \<in> tb_id ` set tabs \<longrightarrow> (\<exists>l \<in> set (leaves n). wl_activeTabId l = Some x))"
  using assms by (rule reconcile_wf)

definition demo_window :: window_node where
  "demo_window = WSplit ''s'' Vertical (1 / 2)
     (WLeaf \<lparr>wl_id = ''k'', wl_tabIds = [''a'', ''c''], wl_activeTabId = Some ''a''\<rparr>)
     (WLeaf \<lparr>wl_id = ''l'', wl_tabIds = [''b''], wl_activeTabId = Some ''b''\<rparr>)"

lemma demo_window_wf: "layout_wf demo_window" "ids_minted 0 demo_window"
  "collectWindowTabIds demo_window = [''a'', ''c'', ''b'']"
  by (simp_all add: demo_window_def layout_wf_def leaves_wf_def leaf_wf_def ids_minted_def short_minted)

definition one_pane_tab :: "string \<Rightarrow> int \<Rightarrow> tab" where
  "one_pane_tab i order = \<lparr>tb_id = i, tb_persistOrder = order, tb_activePaneId = i,
     tb_root = Leaf (demo_pane i), tb_customName = None, tb_tabColor = None, tb_locked = None\<rparr>"

theorem reconcile_partitions_tabs_witness:
  "\<exists>n c'. reconcileTerminalWindows (\<lambda>_. 0) (Some demo_window) [one_pane_tab ''b'' 0, one_pane_tab ''d'' 1]
     (Some ''d'') None 0 = (Some n, c') \<and> set (collectWindowTabIds n) = {''b'', ''d''}"
  using reconcile_partitions_tabs [of "[one_pane_tab ''b'' 0, one_pane_tab ''d'' 1]" "Some demo_window"
      "\<lambda>_. 0" "Some ''d''" None 0] demo_window_wf
  by (auto simp: one_pane_tab_def)

text \<open>dragging a tab onto an edge of a leaf puts it alone, and active, into a new leaf and
  keeps the layout well formed with the same tabs, also when its old leaf disappears and
  when the target is the leaf it came from.\<close>

theorem split_leaf_with_tab_correct:
  assumes "layout_wf n" and "ids_minted c n" and "t \<in> set (collectWindowTabIds n)"
    and "k \<in> set (leaves n)" and "splitLeafWithTab now n t (wl_id k) edge c = (r, c')"
  shows "\<exists>n'. r = Some n' \<and> layout_wf n' \<and> set (collectWindowTabIds n') = set (collectWindowTabIds n)
           \<and> (\<exists>l \<in> set (leaves n'). wl_tabIds l = [t] \<and> wl_activeTabId l = Some t)"
  using assms by (rule drag_split_wf)

theorem split_leaf_with_tab_correct_witness:
  "\<exists>n' c'. splitLeafWithTab (\<lambda>_. 0) demo_window ''b'' ''k'' EdgeLeft 0 = (Some n', c')
     \<and> layout_wf n' \<and> set (collectWindowTabIds n') = {''a'', ''b'', ''c''}"
proof -
  let ?k = "\<lparr>wl_id = ''k'', wl_tabIds = [''a'', ''c''], wl_activeTabId = Some ''a''\<rparr>"
  obtain r c' where r: "splitLeafWithTab (\<lambda>_. 0) demo_window ''b'' (wl_id ?k) EdgeLeft 0 = (r, c')"
    by (cases "splitLeafWithTab (\<lambda>_. 0) demo_window ''b'' (wl_id ?k) EdgeLeft 0")
  have "?k \<in> set (leaves demo_window)" "''b'' \<in> set (collectWindowTabIds demo_window)"
    by (simp_all add: demo_window_def)
  from split_leaf_with_tab_correct [OF demo_window_wf(1,2) this(2,1) r] r show ?thesis
    by (auto simp: demo_window_wf(3))
qed

text \<open>a persisted layout is restored by position. For tabs that are all restorable, the
  layout read back against any list of as many tabs is the old layout, with each tab
  replaced by the one at its position: same splits, directions, clamped ratios, order in
  the leaves and active tabs.\<close>

theorem restored_layout_by_position:
  assumes "layout_wf n" and "set (collectWindowTabIds n) = tb_id ` set tabs"
    and "list_all isRestorableTab tabs" and "distinct (map tb_id tabs)"
    and "length tabs2 = length tabs" and "distinct (map tb_id tabs2)" and "[] \<notin> tb_id ` set tabs2"
  shows "\<exists>r m c'. serializeTerminalWindowLayout (Some n) tabs = Some r
           \<and> restoreTerminalWindowLayout now (Some r) tabs2 c = (Some m, c')
           \<and> renamed_layout (tab_at_position tabs tabs2) n m"
  using assms by (rule restore_layout_positions)

theorem restored_layout_by_position_witness:
  "\<exists>r m c'. serializeTerminalWindowLayout (Some demo_window)
       [one_pane_tab ''a'' 0, one_pane_tab ''c'' 2, one_pane_tab ''b'' 1] = Some r
     \<and> restoreTerminalWindowLayout (\<lambda>_. 0) (Some r)
         [one_pane_tab ''x'' 0, one_pane_tab ''y'' 2, one_pane_tab ''z'' 1] 0 = (Some m, c')"
  using restored_layout_by_position [of demo_window
      "[one_pane_tab ''a'' 0, one_pane_tab ''c'' 2, one_pane_tab ''b'' 1]"
      "[one_pane_tab ''x'' 0, one_pane_tab ''y'' 2, one_pane_tab ''z'' 1]" "\<lambda>_. 0" 0] demo_window_wf
  by (auto simp: one_pane_tab_def isRestorableTab_def demo_pane_def)

text \<open>the balanced layouts put every tab alone into its own leaf, in order and active, at a
  depth below one plus the logarithm of the number of tabs, with every split ratio between
  one half and two thirds.\<close>

theorem balanced_layout_correct:
  assumes "ts \<noteq> []"
  shows "\<exists>n. fst (buildSmartSplitLayout now ts mode c) = Some n \<and> balanced_ok ts n"
  using balanced_tree_ok [OF assms] assms
  by (cases mode) (auto simp: buildSmartSplitLayout_def autoTileLayout_def tileHorizontally_def
      tileVertically_def split: prod.split, (metis fst_conv)+)

theorem balanced_layout_correct_witness:
  "\<exists>n. fst (buildSmartSplitLayout (\<lambda>_. 0) [''a'', ''b'', ''c''] AutoMode 0) = Some n \<and> 2 ^ depth n < (6 :: nat)"
  using balanced_layout_correct [of "[''a'', ''b'', ''c'']" "\<lambda>_. 0" AutoMode 0]
  by (auto simp: balanced_ok_def)

text \<open>a restart can put tabs into the wrong window. Tabs are saved in the order of
  \<open>persistOrder\<close> but the layout is saved by their order in the tab bar; with a tab inserted
  between two older ones, the leaves shown before and after the restart differ.\<close>

theorem restart_mixes_up_windows:
  "let tabs = [one_pane_tab ''a'' 0, one_pane_tab ''c'' 2, one_pane_tab ''b'' 1];
       restored = fst (restoreOpenTabs (\<lambda>_. 0) show_nat (serializeTabsForPersistence tabs) 0 0);
       layout = fst (restoreTerminalWindowLayout (\<lambda>_. 0)
                  (serializeTerminalWindowLayout (Some demo_window) tabs) restored 0)
   in pane_groups tabs demo_window = [[''a'', ''c''], [''b'']]
      \<and> map_option (pane_groups restored) layout = Some [[''a'', ''b''], [''c'']]"
  by code_simp

end
