(* ===== verification/Sync_Groups.thy ===== *)
theory Sync_Groups
  imports Workspace_Tabs
begin

text \<open>
  Two groupings of workspace tabs. Synchronized input (\<open>lib/syncInputGroups.ts\<close>): groups of
  sessions that receive the same keystrokes, their membership and pauses, and the set of
  peers an input is broadcast to. Host tab groups (\<open>lib/hostTabGroups.ts\<close>): the first-level
  tab strip, in which the tabs of one saved connection share an entry.

  The module-level counter of \<open>createGroupId\<close> is passed explicitly. A function that
  returns its argument unchanged to keep object identity returns an equal value here. The
  arrays that \<open>buildHostTabGroups\<close> mutates in its loop are the components of a record.
\<close>

section \<open>Synchronized input groups\<close>

record sync_group =
  sg_id :: string
  sg_name :: string
  sg_color :: string
  sg_sessionIds :: "string list"
  sg_pausedSessionIds :: "string list"
  sg_enabled :: bool

definition createGroupId :: "(nat \<Rightarrow> nat) \<Rightarrow> nat \<Rightarrow> string \<times> nat" where
  "createGroupId now counter = (make_id ''sync-group'' (now (counter + 1)) (counter + 1), counter + 1)"

definition GROUP_COLORS :: "string list" where
  "GROUP_COLORS = [''#3b82f6'', ''#ef4444'', ''#22c55e'', ''#f59e0b'',
     ''#8b5cf6'', ''#ec4899'', ''#06b6d4'', ''#f97316'']"

definition nextGroupColor :: "sync_group list \<Rightarrow> string" where
  "nextGroupColor existing =
     (case find (\<lambda>c. c \<notin> set (map sg_color existing)) GROUP_COLORS of
        Some c \<Rightarrow> c
      | None \<Rightarrow> GROUP_COLORS ! (length existing mod length GROUP_COLORS))"

definition createSyncGroup :: "(nat \<Rightarrow> nat) \<Rightarrow> string \<Rightarrow> string \<Rightarrow> nat \<Rightarrow> sync_group \<times> nat" where
  "createSyncGroup now name color counter =
     (case createGroupId now counter of (i, counter') \<Rightarrow>
        (\<lparr>sg_id = i, sg_name = name, sg_color = color, sg_sessionIds = [], sg_pausedSessionIds = [],
          sg_enabled = True\<rparr>, counter'))"

definition addSessionToGroup :: "sync_group \<Rightarrow> string \<Rightarrow> sync_group" where
  "addSessionToGroup g sid =
     (if sid \<in> set (sg_sessionIds g) then g else g\<lparr>sg_sessionIds := sg_sessionIds g @ [sid]\<rparr>)"

definition removeSessionFromGroup :: "sync_group \<Rightarrow> string \<Rightarrow> sync_group" where
  "removeSessionFromGroup g sid =
     (if sid \<notin> set (sg_sessionIds g) then g
      else g\<lparr>sg_sessionIds := filter (\<lambda>i. i \<noteq> sid) (sg_sessionIds g),
             sg_pausedSessionIds := filter (\<lambda>i. i \<noteq> sid) (sg_pausedSessionIds g)\<rparr>)"

definition toggleGroupEnabled :: "sync_group \<Rightarrow> sync_group" where
  "toggleGroupEnabled g = g\<lparr>sg_enabled := \<not> sg_enabled g\<rparr>"

definition pauseSessionInGroup :: "sync_group \<Rightarrow> string \<Rightarrow> sync_group" where
  "pauseSessionInGroup g sid =
     (if sid \<notin> set (sg_sessionIds g) \<or> sid \<in> set (sg_pausedSessionIds g) then g
      else g\<lparr>sg_pausedSessionIds := sg_pausedSessionIds g @ [sid]\<rparr>)"

definition resumeSessionInGroup :: "sync_group \<Rightarrow> string \<Rightarrow> sync_group" where
  "resumeSessionInGroup g sid =
     (if sid \<notin> set (sg_pausedSessionIds g) then g
      else g\<lparr>sg_pausedSessionIds := filter (\<lambda>i. i \<noteq> sid) (sg_pausedSessionIds g)\<rparr>)"

definition isSessionPausedInGroup :: "sync_group \<Rightarrow> string \<Rightarrow> bool" where
  "isSessionPausedInGroup g sid \<longleftrightarrow> sid \<in> set (sg_pausedSessionIds g)"

text \<open>\<open>peers.add\<close> on a set kept in insertion order.\<close>

definition add_peer :: "'a \<Rightarrow> 'a list \<Rightarrow> 'a list" where
  "add_peer x xs = (if x \<in> set xs then xs else xs @ [x])"

definition groupPeers :: "string \<Rightarrow> sync_group \<Rightarrow> string list \<Rightarrow> string list" where
  "groupPeers sid g peers =
     (if \<not> sg_enabled g \<or> sid \<notin> set (sg_sessionIds g) then peers
      else if sid \<in> set (sg_pausedSessionIds g) then peers
      else fold (\<lambda>p ps. if p \<noteq> sid \<and> p \<notin> set (sg_pausedSessionIds g) then add_peer p ps else ps)
             (sg_sessionIds g) peers)"

definition getSyncPeers :: "string \<Rightarrow> sync_group list \<Rightarrow> string list" where
  "getSyncPeers sid groups = fold (groupPeers sid) groups []"

definition truthy_text :: "string option \<Rightarrow> bool" where
  "truthy_text x \<longleftrightarrow> (case x of None \<Rightarrow> False | Some s \<Rightarrow> s \<noteq> [])"

definition broadcastTarget :: "string \<Rightarrow> session_pane \<Rightarrow> bool" where
  "broadcastTarget sid p \<longleftrightarrow>
     sp_paneKind p = KTerminal \<and> sp_sessionId p \<noteq> sid
     \<and> sp_connecting p \<noteq> Some True \<and> \<not> truthy_text (sp_connectError p)"

definition getSessionInputPeerIds :: "string \<Rightarrow> sync_group list \<Rightarrow> tab list \<Rightarrow> bool \<Rightarrow> string list" where
  "getSessionInputPeerIds sid groups tabs broadcastToAll =
     (let peers = getSyncPeers sid groups in
      if broadcastToAll then
        fold (\<lambda>t. fold (\<lambda>p ps. if broadcastTarget sid p then add_peer (sp_sessionId p) ps else ps)
                    (collectSessionPanes (tb_root t))) tabs peers
      else peers)"

definition isSessionSynced :: "string \<Rightarrow> sync_group list \<Rightarrow> bool" where
  "isSessionSynced sid groups \<longleftrightarrow>
     list_ex (\<lambda>g. sg_enabled g \<and> sid \<in> set (sg_sessionIds g) \<and> sid \<notin> set (sg_pausedSessionIds g)) groups"

definition getActiveGroupForSession :: "string \<Rightarrow> sync_group list \<Rightarrow> sync_group option" where
  "getActiveGroupForSession sid groups = find (\<lambda>g. sg_enabled g \<and> sid \<in> set (sg_sessionIds g)) groups"

definition getGroupsForSession :: "string \<Rightarrow> sync_group list \<Rightarrow> sync_group list" where
  "getGroupsForSession sid groups = filter (\<lambda>g. sid \<in> set (sg_sessionIds g)) groups"

definition purgeSessionFromGroups :: "string \<Rightarrow> sync_group list \<Rightarrow> sync_group list" where
  "purgeSessionFromGroups sid groups =
     map (\<lambda>g. if sid \<notin> set (sg_sessionIds g) then g else removeSessionFromGroup g sid) groups"

section \<open>Host tab groups\<close>

datatype host_tab_group =
    Single string tab
  | Host string string "tab list"

record host_build =
  hb_groups :: "host_tab_group list"
  hb_hostIndex :: "(string \<times> nat) list"
  hb_pending :: "(tab \<times> string) list"

definition getTabHostConnectionId :: "tab \<Rightarrow> string option" where
  "getTabHostConnectionId t =
     (case getActivePane t of None \<Rightarrow> None
      | Some p \<Rightarrow> if sp_paneKind p \<noteq> KTerminal \<or> \<not> truthy_text (sp_connectionId p) then None
                 else if sp_type p = SSH then sp_connectionId p else None)"

definition getTabGroupingConnectionId :: "tab \<Rightarrow> string option" where
  "getTabGroupingConnectionId t =
     (case getActivePane t of None \<Rightarrow> None
      | Some p \<Rightarrow> if sp_paneKind p = KFile then sp_connectionId p else getTabHostConnectionId t)"

definition isFileTab :: "tab \<Rightarrow> bool" where
  "isFileTab t \<longleftrightarrow> map_option sp_paneKind (getActivePane t) = Some KFile"

definition singleGroup :: "tab \<Rightarrow> host_tab_group" where
  "singleGroup t = Single (''tab:'' @ tb_id t) t"

text \<open>The host group at an index, as \<open>groups[index]\<close> followed by the test of its kind.\<close>

definition hostAt :: "host_tab_group list \<Rightarrow> nat option \<Rightarrow> (string \<times> string \<times> tab list) option" where
  "hostAt groups i =
     (case i of None \<Rightarrow> None
      | Some j \<Rightarrow> if j < length groups
                 then (case groups ! j of Host k c ts \<Rightarrow> Some (k, c, ts) | Single _ _ \<Rightarrow> None) else None)"

definition pushTab :: "host_tab_group list \<Rightarrow> nat \<Rightarrow> tab \<Rightarrow> host_tab_group list" where
  "pushTab groups i t =
     (case hostAt groups (Some i) of
        Some (k, c, ts) \<Rightarrow> groups[i := Host k c (ts @ [t])] | None \<Rightarrow> groups)"

definition placeTab :: "host_build \<Rightarrow> tab \<Rightarrow> host_build" where
  "placeTab b t =
     (let connectionId = getTabGroupingConnectionId t in
      if isFileTab t \<and> truthy_text connectionId then
        (let c = the connectionId; existingIndex = map_of (hb_hostIndex b) c in
         if hostAt (hb_groups b) existingIndex \<noteq> None
         then b\<lparr>hb_groups := pushTab (hb_groups b) (the existingIndex) t\<rparr>
         else b\<lparr>hb_pending := hb_pending b @ [(t, c)]\<rparr>)
      else if \<not> truthy_text connectionId then
        b\<lparr>hb_groups := hb_groups b @ [singleGroup t]\<rparr>
      else
        (let c = the connectionId in
         case map_of (hb_hostIndex b) c of
           None \<Rightarrow> b\<lparr>hb_hostIndex := AList.update c (length (hb_groups b)) (hb_hostIndex b),
                     hb_groups := hb_groups b @ [Host (''host:'' @ c) c [t]]\<rparr>
         | Some i \<Rightarrow> b\<lparr>hb_groups := pushTab (hb_groups b) i t\<rparr>))"

definition placePending :: "(string \<times> nat) list \<Rightarrow> host_tab_group list \<Rightarrow> tab \<times> string \<Rightarrow> host_tab_group list" where
  "placePending idx groups p =
     (let i = map_of idx (snd p) in
      if hostAt groups i \<noteq> None then pushTab groups (the i) (fst p) else groups @ [singleGroup (fst p)])"

definition emptyBuild :: host_build where
  "emptyBuild = \<lparr>hb_groups = [], hb_hostIndex = [], hb_pending = []\<rparr>"

definition buildHostTabGroups :: "tab list \<Rightarrow> host_tab_group list" where
  "buildHostTabGroups tabs =
     (let b = foldl placeTab emptyBuild tabs in
      foldl (placePending (hb_hostIndex b)) (hb_groups b) (hb_pending b))"

fun findHostGroupForTab :: "host_tab_group list \<Rightarrow> string \<Rightarrow> host_tab_group option" where
  "findHostGroupForTab [] tabId = None"
| "findHostGroupForTab (Single k t # gs) tabId = findHostGroupForTab gs tabId"
| "findHostGroupForTab (Host k c ts # gs) tabId =
     (if list_ex (\<lambda>t. tb_id t = tabId) ts then Some (Host k c ts) else findHostGroupForTab gs tabId)"

section \<open>Peers\<close>

definition linked :: "sync_group list \<Rightarrow> string \<Rightarrow> string \<Rightarrow> bool" where
  "linked groups a b \<longleftrightarrow> a \<noteq> b \<and>
     (\<exists>g \<in> set groups. sg_enabled g \<and> {a, b} \<subseteq> set (sg_sessionIds g) - set (sg_pausedSessionIds g))"

lemma linked_sym: "linked groups a b = linked groups b a"
  by (auto simp: linked_def)

lemma set_add_peer [simp]: "set (add_peer x xs) = insert x (set xs)"
  by (auto simp: add_peer_def)

lemma distinct_add_peer [simp]: "distinct (add_peer x xs) = distinct xs"
  by (auto simp: add_peer_def)

lemma fold_peers:
  "set (fold (\<lambda>x ps. if P x then add_peer (f x) ps else ps) xs ps) = set ps \<union> f ` {x \<in> set xs. P x}"
  "distinct (fold (\<lambda>x ps. if P x then add_peer (f x) ps else ps) xs ps) = distinct ps"
  by (induction xs arbitrary: ps) auto

lemma set_groupPeers:
  "set (groupPeers sid g ps) = set ps \<union> {p. linked [g] sid p}"
  using fold_peers(1) [of "\<lambda>p. p \<noteq> sid \<and> p \<notin> set (sg_pausedSessionIds g)" "\<lambda>p. p" "sg_sessionIds g" ps]
  by (auto simp: groupPeers_def linked_def)

lemma distinct_groupPeers [simp]: "distinct (groupPeers sid g ps) = distinct ps"
  using fold_peers(2) [of "\<lambda>p. p \<noteq> sid \<and> p \<notin> set (sg_pausedSessionIds g)" "\<lambda>p. p" "sg_sessionIds g" ps]
  by (auto simp: groupPeers_def)

lemma fold_groupPeers:
  "set (fold (groupPeers sid) gs ps) = set ps \<union> {p. linked gs sid p}"
  "distinct (fold (groupPeers sid) gs ps) = distinct ps"
proof (induction gs arbitrary: ps)
  case (Cons g gs)
  { case 1 show ?case using Cons(1) by (auto simp: set_groupPeers linked_def) }
  { case 2 show ?case using Cons(2) by simp }
qed (auto simp: linked_def)

lemma set_getSyncPeers: "set (getSyncPeers sid gs) = {p. linked gs sid p}"
  by (simp add: getSyncPeers_def fold_groupPeers)

lemma distinct_getSyncPeers: "distinct (getSyncPeers sid gs)"
  by (simp add: getSyncPeers_def fold_groupPeers)

lemma fold_broadcast:
  "set (fold (\<lambda>t. fold (\<lambda>p ps. if broadcastTarget sid p then add_peer (sp_sessionId p) ps else ps)
          (collectSessionPanes (tb_root t))) tabs ps)
   = set ps \<union> sp_sessionId ` {p. broadcastTarget sid p \<and> (\<exists>t \<in> set tabs. p \<in> set (collectSessionPanes (tb_root t)))}"
  "distinct (fold (\<lambda>t. fold (\<lambda>p ps. if broadcastTarget sid p then add_peer (sp_sessionId p) ps else ps)
          (collectSessionPanes (tb_root t))) tabs ps) = distinct ps"
  by (induction tabs arbitrary: ps) (auto simp: fold_peers)

text \<open>Removing a session from the groups commutes with collecting the peers of another one.\<close>

lemma filter_add_peer:
  "filter P (add_peer x ps) = (if P x then add_peer x (filter P ps) else filter P ps)"
  by (auto simp: add_peer_def)

lemma filter_fold_peers:
  "filter R (fold (\<lambda>x ps. if Q x then add_peer x ps else ps) xs ps)
   = fold (\<lambda>x ps. if Q x then add_peer x ps else ps) (filter R xs) (filter R ps)"
  by (induction xs arbitrary: ps) (auto simp: filter_add_peer)

lemma purge_peers:
  assumes "a \<noteq> s"
  shows "fold (groupPeers a) (purgeSessionFromGroups s gs) (filter (\<lambda>i. i \<noteq> s) ps)
         = filter (\<lambda>i. i \<noteq> s) (fold (groupPeers a) gs ps)"
proof (induction gs arbitrary: ps)
  case (Cons g gs)
  let ?g = "if s \<notin> set (sg_sessionIds g) then g else removeSessionFromGroup g s"
  have "groupPeers a ?g (filter (\<lambda>i. i \<noteq> s) ps) = filter (\<lambda>i. i \<noteq> s) (groupPeers a g ps)"
  proof (cases "s \<in> set (sg_sessionIds g)")
    case True
    with assms show ?thesis
      by (auto simp: groupPeers_def removeSessionFromGroup_def filter_fold_peers intro!: List.fold_cong)
  next
    case False
    then have "filter (\<lambda>i. i \<noteq> s) (sg_sessionIds g) = sg_sessionIds g" by (auto intro: filter_True)
    with False show ?thesis by (auto simp: groupPeers_def filter_fold_peers)
  qed
  with Cons show ?case by (simp add: purgeSessionFromGroups_def)
qed (simp add: purgeSessionFromGroups_def)

definition group_wf :: "sync_group \<Rightarrow> bool" where
  "group_wf g \<longleftrightarrow> distinct (sg_sessionIds g) \<and> distinct (sg_pausedSessionIds g)
     \<and> set (sg_pausedSessionIds g) \<subseteq> set (sg_sessionIds g)"

section \<open>The build loop of the host groups\<close>

fun group_tabs :: "host_tab_group \<Rightarrow> tab list" where
  "group_tabs (Single _ t) = [t]"
| "group_tabs (Host _ _ ts) = ts"

fun group_conns :: "host_tab_group \<Rightarrow> string list" where
  "group_conns (Single _ _) = []"
| "group_conns (Host _ c _) = [c]"

definition all_tabs :: "host_tab_group list \<Rightarrow> tab list" where
  "all_tabs gs = concat (map group_tabs gs)"

definition host_conns :: "host_tab_group list \<Rightarrow> string list" where
  "host_conns gs = concat (map group_conns gs)"

lemma all_tabs_simps [simp]: "all_tabs [] = []" "all_tabs (g # gs) = group_tabs g @ all_tabs gs"
  "all_tabs (gs @ hs) = all_tabs gs @ all_tabs hs"
  by (simp_all add: all_tabs_def)

lemma host_conns_simps [simp]: "host_conns [] = []" "host_conns (g # gs) = group_conns g @ host_conns gs"
  "host_conns (gs @ hs) = host_conns gs @ host_conns hs"
  by (simp_all add: host_conns_def)

text \<open>A host entry holds tabs of its connection; a standalone entry either has no connection
  or, when \<open>B\<close> allows it, is a file tab of a connection without host entry.\<close>

fun group_ok :: "(tab \<Rightarrow> bool) \<Rightarrow> host_tab_group \<Rightarrow> bool" where
  "group_ok B (Single k t) \<longleftrightarrow> k = ''tab:'' @ tb_id t \<and> (truthy_text (getTabGroupingConnectionId t) \<longrightarrow> B t)"
| "group_ok B (Host k c ts) \<longleftrightarrow> k = ''host:'' @ c \<and> ts \<noteq> [] \<and> (\<forall>t \<in> set ts. getTabGroupingConnectionId t = Some c)"

definition groups_inv :: "(tab \<Rightarrow> bool) \<Rightarrow> (string \<times> nat) list \<Rightarrow> host_tab_group list \<Rightarrow> bool" where
  "groups_inv B idx gs \<longleftrightarrow> distinct (host_conns gs) \<and> (\<forall>g \<in> set gs. group_ok B g)
     \<and> dom (map_of idx) = set (host_conns gs)
     \<and> (\<forall>c i. map_of idx c = Some i \<longrightarrow> (\<exists>k ts. hostAt gs (Some i) = Some (k, c, ts)))"

lemma hostAt_split:
  "hostAt gs (Some i) = Some (k, c, ts) \<longleftrightarrow> (\<exists>as bs. gs = as @ Host k c ts # bs \<and> i = length as)"
proof
  assume "hostAt gs (Some i) = Some (k, c, ts)"
  then have "i < length gs" "gs ! i = Host k c ts"
    by (auto simp: hostAt_def split: if_splits host_tab_group.splits)
  then have "gs = take i gs @ Host k c ts # drop (Suc i) gs" "i = length (take i gs)"
    using id_take_nth_drop [of i gs] by simp_all
  then show "\<exists>as bs. gs = as @ Host k c ts # bs \<and> i = length as" by blast
qed (auto simp: hostAt_def)

lemma hostAt_append: "hostAt gs (Some i) = Some x \<Longrightarrow> hostAt (gs @ hs) (Some i) = Some x"
  by (auto simp: hostAt_def nth_append split: if_splits)

lemma pushTab_split:
  "hostAt gs (Some i) = Some (k, c, ts) \<Longrightarrow>
   \<exists>as bs. gs = as @ Host k c ts # bs \<and> i = length as \<and> pushTab gs i t = as @ Host k c (ts @ [t]) # bs"
  by (simp add: pushTab_def) (metis hostAt_split list_update_length)

lemma hostAt_pushTab:
  assumes "hostAt gs (Some i) = Some (k, c, ts)" and "hostAt gs (Some j) = Some (k', c', ts')"
  shows "\<exists>k ts. hostAt (pushTab gs i t) (Some j) = Some (k, c', ts)"
  using assms by (cases "i = j") (auto simp: pushTab_def hostAt_def split: if_splits host_tab_group.splits)

lemma pushTab_inv:
  assumes inv: "groups_inv B idx gs" and i: "map_of idx c = Some i" and t: "getTabGroupingConnectionId t = Some c"
  shows "groups_inv B idx (pushTab gs i t)"
    and "mset (all_tabs (pushTab gs i t)) = add_mset t (mset (all_tabs gs))"
    and "host_conns (pushTab gs i t) = host_conns gs"
proof -
  obtain k ts where h: "hostAt gs (Some i) = Some (k, c, ts)" using inv i unfolding groups_inv_def by blast
  obtain as bs where gs: "gs = as @ Host k c ts # bs" and p: "pushTab gs i t = as @ Host k c (ts @ [t]) # bs"
    using pushTab_split [OF h] by blast
  show "mset (all_tabs (pushTab gs i t)) = add_mset t (mset (all_tabs gs))" and c: "host_conns (pushTab gs i t) = host_conns gs"
    by (simp_all only: p) (simp_all add: gs)
  have "\<forall>g \<in> set (pushTab gs i t). group_ok B g" unfolding p using inv t by (auto simp: groups_inv_def gs)
  moreover have "\<exists>k ts. hostAt (pushTab gs i t) (Some j) = Some (k, d, ts)" if "map_of idx d = Some j" for d j
    using inv that hostAt_pushTab [OF h] unfolding groups_inv_def by blast
  ultimately show "groups_inv B idx (pushTab gs i t)" using inv by (simp add: groups_inv_def c)
qed

lemma append_single_inv:
  assumes inv: "groups_inv B idx gs" and t: "truthy_text (getTabGroupingConnectionId t) \<longrightarrow> B t"
  shows "groups_inv B idx (gs @ [singleGroup t])"
proof -
  have "\<exists>k ts. hostAt (gs @ [singleGroup t]) (Some i) = Some (k, c, ts)" if "map_of idx c = Some i" for c i
    using inv that hostAt_append unfolding groups_inv_def by blast
  then show ?thesis using inv t by (simp add: groups_inv_def singleGroup_def)
qed

lemma append_host_inv:
  assumes inv: "groups_inv B idx gs" and new: "map_of idx c = None"
    and t: "getTabGroupingConnectionId t = Some c"
  shows "groups_inv B (AList.update c (length gs) idx) (gs @ [Host (''host:'' @ c) c [t]])"
proof -
  let ?gs = "gs @ [Host (''host:'' @ c) c [t]]"
  have last: "hostAt ?gs (Some (length gs)) = Some (''host:'' @ c, c, [t])" by (simp add: hostAt_def)
  have old: "\<exists>k ts. hostAt ?gs (Some i) = Some (k, d, ts)" if "map_of idx d = Some i" for d i
    using inv that hostAt_append unfolding groups_inv_def by blast
  have "\<exists>k ts. hostAt ?gs (Some i) = Some (k, d, ts)" if "map_of (AList.update c (length gs) idx) d = Some i" for d i
    using that last old by (cases "d = c") (simp_all add: update_conv')
  moreover have "c \<notin> set (host_conns gs)" using inv new by (auto simp: groups_inv_def domIff)
  ultimately show ?thesis using inv t by (auto simp: groups_inv_def update_conv')
qed

text \<open>The state of the first loop after the tabs \<open>xs\<close>.\<close>

definition build_inv :: "tab list \<Rightarrow> host_build \<Rightarrow> bool" where
  "build_inv xs b \<longleftrightarrow> groups_inv (\<lambda>_. False) (hb_hostIndex b) (hb_groups b)
     \<and> mset (all_tabs (hb_groups b)) + mset (map fst (hb_pending b)) = mset xs
     \<and> (\<forall>(t, c) \<in> set (hb_pending b). isFileTab t \<and> c \<noteq> [] \<and> getTabGroupingConnectionId t = Some c)"

lemma placeTab_inv:
  assumes inv: "build_inv xs b"
  shows "build_inv (xs @ [t]) (placeTab b t)"
proof -
  let ?c = "getTabGroupingConnectionId t" and ?gs = "hb_groups b"
  have g: "groups_inv (\<lambda>_. False) (hb_hostIndex b) ?gs" using inv by (simp add: build_inv_def)
  show ?thesis
  proof (cases "truthy_text ?c")
    case False
    with append_single_inv [OF g, of t] inv show ?thesis
      by (simp add: placeTab_def build_inv_def Let_def) (simp add: singleGroup_def)
  next
    case True
    then obtain c where c: "?c = Some c" "c \<noteq> []" by (auto simp: truthy_text_def split: option.splits)
    note push = pushTab_inv [OF g _ c(1)]
    show ?thesis
    proof (cases "map_of (hb_hostIndex b) c")
      case None
      with append_host_inv [OF g None c(1)] inv c True show ?thesis
        by (auto simp: placeTab_def build_inv_def Let_def hostAt_def)
    next
      case (Some i)
      then have "hostAt ?gs (Some i) \<noteq> None" using g unfolding groups_inv_def by fastforce
      then have "placeTab b t = b\<lparr>hb_groups := pushTab ?gs i t\<rparr>"
        using Some c True by (simp add: placeTab_def Let_def)
      with push [OF Some] inv show ?thesis by (simp add: build_inv_def)
    qed
  qed
qed

lemma foldl_placeTab_inv: "build_inv xs b \<Longrightarrow> build_inv (xs @ ts) (foldl placeTab b ts)"
  using placeTab_inv by (induction ts arbitrary: xs b) fastforce+

lemma placePending_inv:
  assumes "groups_inv B idx gs" and "\<forall>(t, c) \<in> set ps. getTabGroupingConnectionId t = Some c \<and> (map_of idx c = None \<longrightarrow> B t)"
  shows "groups_inv B idx (foldl (placePending idx) gs ps)
    \<and> mset (all_tabs (foldl (placePending idx) gs ps)) = mset (all_tabs gs) + mset (map fst ps)"
  using assms
proof (induction ps arbitrary: gs)
  case (Cons p ps)
  obtain t c where p: "p = (t, c)" "getTabGroupingConnectionId t = Some c" "map_of idx c = None \<longrightarrow> B t"
    using Cons.prems(2) by (cases p) auto
  have "groups_inv B idx (placePending idx gs p)
        \<and> mset (all_tabs (placePending idx gs p)) = add_mset t (mset (all_tabs gs))"
  proof (cases "map_of idx c")
    case None
    with p append_single_inv [OF Cons.prems(1), of t] show ?thesis
      by (simp add: placePending_def hostAt_def) (simp add: singleGroup_def)
  next
    case (Some i)
    then have "hostAt gs (Some i) \<noteq> None" using Cons.prems(1) unfolding groups_inv_def by fastforce
    with Some p pushTab_inv [OF Cons.prems(1) Some p(2)] show ?thesis by (simp add: placePending_def)
  qed
  with Cons show ?case using p(1) by simp
qed simp

lemma build_groups_inv:
  "\<exists>idx. groups_inv (\<lambda>t. isFileTab t \<and> the (getTabGroupingConnectionId t) \<notin> dom (map_of idx)) idx (buildHostTabGroups tabs)
    \<and> mset (all_tabs (buildHostTabGroups tabs)) = mset tabs"
proof -
  let ?b = "foldl placeTab emptyBuild tabs"
  let ?B = "\<lambda>t. isFileTab t \<and> the (getTabGroupingConnectionId t) \<notin> dom (map_of (hb_hostIndex ?b))"
  have "build_inv [] emptyBuild" by (simp add: build_inv_def emptyBuild_def groups_inv_def)
  then have b: "build_inv tabs ?b" using foldl_placeTab_inv by fastforce
  have weaken: "group_ok (\<lambda>_. False) g \<Longrightarrow> group_ok ?B g" for g by (cases g) auto
  have "groups_inv ?B (hb_hostIndex ?b) (hb_groups ?b)"
    using b weaken unfolding build_inv_def groups_inv_def by blast
  moreover have "\<forall>(t, c) \<in> set (hb_pending ?b). getTabGroupingConnectionId t = Some c
      \<and> (map_of (hb_hostIndex ?b) c = None \<longrightarrow> ?B t)"
    using b by (auto simp: build_inv_def domIff)
  ultimately have "groups_inv ?B (hb_hostIndex ?b) (buildHostTabGroups tabs)
      \<and> mset (all_tabs (buildHostTabGroups tabs)) = mset tabs"
    using placePending_inv [of ?B "hb_hostIndex ?b" "hb_groups ?b" "hb_pending ?b"] b
    by (simp add: buildHostTabGroups_def Let_def build_inv_def)
  then show ?thesis by blast
qed

section \<open>Properties\<close>

lemma inputPeers_exact:
  "set (getSessionInputPeerIds a groups tabs all) = {b. linked groups a b \<or>
     (all \<and> (\<exists>t \<in> set tabs. \<exists>p \<in> set (collectSessionPanes (tb_root t)). broadcastTarget a p \<and> sp_sessionId p = b))}"
  "distinct (getSessionInputPeerIds a groups tabs all)" "a \<notin> set (getSessionInputPeerIds a groups tabs all)"
proof -
  show peers: "set (getSessionInputPeerIds a groups tabs all) = {b. linked groups a b \<or>
      (all \<and> (\<exists>t \<in> set tabs. \<exists>p \<in> set (collectSessionPanes (tb_root t)). broadcastTarget a p \<and> sp_sessionId p = b))}"
    by (auto simp: set_getSyncPeers getSessionInputPeerIds_def Let_def fold_broadcast)
  show "distinct (getSessionInputPeerIds a groups tabs all)"
    by (simp add: distinct_getSyncPeers getSessionInputPeerIds_def Let_def fold_broadcast)
  show "a \<notin> set (getSessionInputPeerIds a groups tabs all)"
    unfolding peers by (auto simp: broadcastTarget_def linked_def)
qed

text \<open>C14: input synchronization is exact and mutual: the peers of a session are, without
  repetition, the other sessions that share an enabled group in which neither of the two is
  paused, so a session receives the input of another exactly when it sends its own to it; a
  session is synchronized whenever it has peers; with broadcast on, the live terminal panes
  of all tabs are added, and never the session itself.\<close>

theorem sync_peers_exact:
  "distinct (getSyncPeers a groups)
   \<and> (b \<in> set (getSyncPeers a groups) \<longleftrightarrow> linked groups a b)
   \<and> (b \<in> set (getSyncPeers a groups) \<longleftrightarrow> a \<in> set (getSyncPeers b groups))
   \<and> (getSyncPeers a groups \<noteq> [] \<longrightarrow> isSessionSynced a groups)
   \<and> distinct (getSessionInputPeerIds a groups tabs all)
   \<and> (b \<in> set (getSessionInputPeerIds a groups tabs all) \<longleftrightarrow>
        linked groups a b \<or> (all \<and> (\<exists>t \<in> set tabs. \<exists>p \<in> set (collectSessionPanes (tb_root t)).
           broadcastTarget a p \<and> sp_sessionId p = b)))
   \<and> a \<notin> set (getSessionInputPeerIds a groups tabs all)"
proof -
  have "isSessionSynced a groups" if "getSyncPeers a groups \<noteq> []"
    using that set_getSyncPeers [of a groups] unfolding set_empty [symmetric]
    by (auto simp: isSessionSynced_def list_ex_iff linked_def)
  with inputPeers_exact [of a groups tabs all] show ?thesis
    by (simp add: set_getSyncPeers distinct_getSyncPeers linked_sym [of groups b a])
qed

definition demo_group :: sync_group where
  "demo_group = \<lparr>sg_id = ''g'', sg_name = ''g'', sg_color = ''#3b82f6'', sg_sessionIds = [''a'', ''b'', ''c''],
     sg_pausedSessionIds = [''c''], sg_enabled = True\<rparr>"

theorem sync_peers_exact_witness:
  "''b'' \<in> set (getSyncPeers ''a'' [demo_group]) \<and> isSessionSynced ''a'' [demo_group]"
proof -
  have "getSyncPeers ''a'' [demo_group] = [''b'']"
    by (simp add: getSyncPeers_def groupPeers_def demo_group_def add_peer_def)
  with sync_peers_exact [of "''a''" "[demo_group]" "''b''"] show ?thesis by simp
qed

text \<open>every operation on a synchronization group keeps its sessions and its paused sessions
  free of repetitions and the paused ones among the members; pausing and resuming a session
  that was not paused, and adding and removing one that was not a member, restore the
  group.\<close>

theorem sync_group_invariant:
  assumes "group_wf g"
  shows "group_wf (addSessionToGroup g s) \<and> group_wf (removeSessionFromGroup g s)
   \<and> group_wf (pauseSessionInGroup g s) \<and> group_wf (resumeSessionInGroup g s)
   \<and> group_wf (toggleGroupEnabled g) \<and> group_wf (fst (createSyncGroup now name color counter))
   \<and> (\<not> isSessionPausedInGroup g s \<longrightarrow> resumeSessionInGroup (pauseSessionInGroup g s) s = g)
   \<and> (s \<notin> set (sg_sessionIds g) \<longrightarrow> removeSessionFromGroup (addSessionToGroup g s) s = g)
   \<and> toggleGroupEnabled (toggleGroupEnabled g) = g"
proof -
  have same: "filter (\<lambda>i. i \<noteq> s) xs = xs" if "s \<notin> set xs" for xs :: "string list"
    using that by (auto intro: filter_True)
  show ?thesis
    using assms
    by (auto simp: group_wf_def addSessionToGroup_def removeSessionFromGroup_def pauseSessionInGroup_def
        resumeSessionInGroup_def toggleGroupEnabled_def createSyncGroup_def createGroupId_def
        isSessionPausedInGroup_def same)
qed

theorem sync_group_invariant_witness:
  "resumeSessionInGroup (pauseSessionInGroup demo_group ''a'') ''a'' = demo_group"
proof -
  have "group_wf demo_group" by (simp add: group_wf_def demo_group_def)
  from sync_group_invariant [OF this, of "''a''"] show ?thesis
    by (simp add: isSessionPausedInGroup_def demo_group_def)
qed

text \<open>purging a closed session from the groups removes it from the peers of every other
  session and changes nothing else: the others keep their peers in the same order, and the
  purged session is in no group.\<close>

theorem purge_keeps_other_peers:
  assumes "a \<noteq> s"
  shows "getSyncPeers a (purgeSessionFromGroups s groups) = filter (\<lambda>i. i \<noteq> s) (getSyncPeers a groups)
   \<and> getSyncPeers s (purgeSessionFromGroups s groups) = []
   \<and> getGroupsForSession s (purgeSessionFromGroups s groups) = []"
proof -
  have no: "\<forall>g \<in> set (purgeSessionFromGroups s groups). s \<notin> set (sg_sessionIds g)"
    by (auto simp: purgeSessionFromGroups_def removeSessionFromGroup_def)
  then have "set (getSyncPeers s (purgeSessionFromGroups s groups)) = {}"
    by (auto simp: set_getSyncPeers linked_def)
  with no purge_peers [OF assms, of groups "[]"] show ?thesis
    by (auto simp: getSyncPeers_def getGroupsForSession_def)
qed

theorem purge_keeps_other_peers_witness:
  "getSyncPeers ''a'' (purgeSessionFromGroups ''b'' [demo_group]) = []"
  using purge_keeps_other_peers [of "''a''" "''b''" "[demo_group]"]
  by (simp add: getSyncPeers_def groupPeers_def demo_group_def add_peer_def)

text \<open>the host grouping of the tab strip loses, repeats and mixes no tab: its entries hold
  exactly the given tabs, a connection has at most one host entry, the tabs under a host entry
  are those of its connection, and a tab with a connection stands alone only when it is a
  file document whose connection has no host entry.\<close>

theorem host_groups_partition:
  "mset (concat (map group_tabs (buildHostTabGroups tabs))) = mset tabs
   \<and> distinct (host_conns (buildHostTabGroups tabs))
   \<and> (\<forall>k c ts. Host k c ts \<in> set (buildHostTabGroups tabs) \<longrightarrow>
        ts \<noteq> [] \<and> (\<forall>t \<in> set ts. getTabGroupingConnectionId t = Some c))
   \<and> (\<forall>k t c. Single k t \<in> set (buildHostTabGroups tabs) \<and> getTabGroupingConnectionId t = Some c \<and> c \<noteq> [] \<longrightarrow>
        isFileTab t \<and> c \<notin> set (host_conns (buildHostTabGroups tabs)))"
proof -
  let ?gs = "buildHostTabGroups tabs"
  obtain idx where inv: "groups_inv (\<lambda>t. isFileTab t \<and> the (getTabGroupingConnectionId t) \<notin> dom (map_of idx)) idx ?gs"
    and m: "mset (all_tabs ?gs) = mset tabs" using build_groups_inv by blast
  have host: "ts \<noteq> [] \<and> (\<forall>t \<in> set ts. getTabGroupingConnectionId t = Some c)" if "Host k c ts \<in> set ?gs" for k c ts
    using inv that by (fastforce simp: groups_inv_def)
  have single: "isFileTab t \<and> c \<notin> set (host_conns ?gs)"
    if "Single k t \<in> set ?gs" "getTabGroupingConnectionId t = Some c" "c \<noteq> []" for k t c
    using inv that by (fastforce simp: groups_inv_def truthy_text_def)
  have "distinct (host_conns ?gs)" using inv by (simp add: groups_inv_def)
  with m host single show ?thesis unfolding all_tabs_def by blast
qed

definition host_tab :: "string \<Rightarrow> string \<Rightarrow> tab" where
  "host_tab i c = \<lparr>tb_id = i, tb_persistOrder = 0, tb_activePaneId = i,
     tb_root = Leaf ((demo_pane i)\<lparr>sp_type := SSH, sp_connectionId := Some c\<rparr>),
     tb_customName = None, tb_tabColor = None, tb_locked = None\<rparr>"

theorem host_groups_partition_witness:
  "distinct (host_conns (buildHostTabGroups [host_tab ''1'' ''x'', host_tab ''2'' ''y'', host_tab ''3'' ''x'']))"
  using host_groups_partition [of "[host_tab ''1'' ''x'', host_tab ''2'' ''y'', host_tab ''3'' ''x'']"] by blast

text \<open>the group shown for a session ignores pauses: a session that is a member of an
  enabled group has an active group, even one in which it is paused and to which it neither
  sends nor listens.\<close>

theorem paused_session_has_active_group:
  assumes "g \<in> set groups" and "sg_enabled g" and "s \<in> set (sg_sessionIds g)"
    and "\<forall>h \<in> set groups. s \<in> set (sg_sessionIds h) \<longrightarrow> s \<in> set (sg_pausedSessionIds h)"
  shows "getActiveGroupForSession s groups \<noteq> None \<and> \<not> isSessionSynced s groups \<and> getSyncPeers s groups = []"
proof -
  have "set (getSyncPeers s groups) = {}" using assms(4) by (auto simp: set_getSyncPeers linked_def)
  with assms show ?thesis
    by (auto simp: getActiveGroupForSession_def isSessionSynced_def list_ex_iff find_None_iff)
qed

theorem paused_session_has_active_group_witness:
  "getActiveGroupForSession ''c'' [demo_group] \<noteq> None \<and> \<not> isSessionSynced ''c'' [demo_group]"
  using paused_session_has_active_group [of demo_group "[demo_group]" "''c''"] by (simp add: demo_group_def)

end
