(* ===== verification/Terminal_Command.thy ===== *)
theory Terminal_Command
  imports Prelude "HOL-Library.Sublist"
begin

text \<open>
  Recognition of commands in terminal text: removal of shell prompts
  (\<open>lib/terminalCommand.ts\<close>) and detection of interactive programs, for which command
  suggestions are suppressed (\<open>lib/commandSuggestionSuppression.ts\<close>).

  Text is a list of code units. Each regular expression of the source is a function that
  returns the text after its match at the start; the comments say where two adjacent parts of
  an expression overlap and backtracking matters. \<open>isSpace\<close> is the class \<open>\s\<close>, which is also
  what \<open>trim\<close> removes. A loop over the characters of a string is a recursion that carries the
  loop variables.
\<close>

section \<open>White space\<close>

definition isSpace :: "nat \<Rightarrow> bool" where
  "isSpace c \<longleftrightarrow> (9 \<le> c \<and> c \<le> 13) \<or> c = 32 \<or> c = 0xA0 \<or> c = 0x1680 \<or> (0x2000 \<le> c \<and> c \<le> 0x200A)
     \<or> c = 0x2028 \<or> c = 0x2029 \<or> c = 0x202F \<or> c = 0x205F \<or> c = 0x3000 \<or> c = 0xFEFF"

definition isBreak :: "nat \<Rightarrow> bool" where
  "isBreak c \<longleftrightarrow> c = 10 \<or> c = 13"

definition trimStart :: "js_text \<Rightarrow> js_text" where
  "trimStart t = dropWhile isSpace t"

definition trimEnd :: "js_text \<Rightarrow> js_text" where
  "trimEnd t = rev (dropWhile isSpace (rev t))"

definition trim :: "js_text \<Rightarrow> js_text" where
  "trim t = trimEnd (trimStart t)"

section \<open>Prompts\<close>

text \<open>The text after the longest prefix of units in \<open>P\<close>, which must not be empty, and after
  one further unit \<open>c\<close>.\<close>

definition afterRun :: "(nat \<Rightarrow> bool) \<Rightarrow> (nat \<Rightarrow> bool) \<Rightarrow> js_text \<Rightarrow> js_text option" where
  "afterRun P Q t =
     (if takeWhile P t = [] then None
      else (case dropWhile P t of [] \<Rightarrow> None | c # r \<Rightarrow> if Q c then Some r else None))"

definition matchEnvPrefix :: "js_text \<Rightarrow> js_text option" where
  "matchEnvPrefix t =
     (case t of [] \<Rightarrow> None
      | c # r \<Rightarrow> if c \<noteq> 40 then None
               else map_option trimStart (afterRun (\<lambda>c. c \<noteq> 40 \<and> c \<noteq> 41 \<and> \<not> isBreak c) (\<lambda>c. c = 41) r))"

definition isPromptEnd :: "nat \<Rightarrow> bool" where
  "isPromptEnd c \<longleftrightarrow> c = 35 \<or> c = 36"

definition matchBracketPrompt :: "js_text \<Rightarrow> js_text option" where
  "matchBracketPrompt t =
     (case t of [] \<Rightarrow> None
      | c # r \<Rightarrow> if c \<noteq> 91 then None
               else (case afterRun (\<lambda>c. c \<noteq> 93 \<and> \<not> isBreak c) (\<lambda>c. c = 93) r of None \<Rightarrow> None
                     | Some r \<Rightarrow> (case trimStart r of [] \<Rightarrow> None
                                 | c # r \<Rightarrow> if isPromptEnd c then Some (trimStart r) else None)))"

definition matchPosixPrompt :: "js_text \<Rightarrow> js_text option" where
  "matchPosixPrompt t =
     (case afterRun (\<lambda>c. \<not> isSpace c \<and> c \<noteq> 64) (\<lambda>c. c = 64) t of None \<Rightarrow> None
      | Some r \<Rightarrow> (case afterRun (\<lambda>c. c \<noteq> 58 \<and> \<not> isSpace c) (\<lambda>c. c = 58) r of None \<Rightarrow> None
        | Some r \<Rightarrow> (case dropWhile (\<lambda>c. \<not> isPromptEnd c \<and> \<not> isBreak c) r of [] \<Rightarrow> None
          | c # r \<Rightarrow> if isPromptEnd c then Some (trimStart r) else None)))"

text \<open>\<open>PS\s+[^>\r\n]+>\s*\<close>: when nothing but white space stands between \<open>PS\<close> and \<open>>\<close>, the first
  part gives back one white-space unit, if it has two and the last is no line break.\<close>

definition matchPowershellPrompt :: "js_text \<Rightarrow> js_text option" where
  "matchPowershellPrompt t =
     (if \<not> starts_with t (js ''PS'') then None
      else (let w = takeWhile isSpace (drop 2 t); r = dropWhile isSpace (drop 2 t);
                body = takeWhile (\<lambda>c. c \<noteq> 62 \<and> \<not> isBreak c) r
            in if w = [] then None
               else if body = [] \<and> (length w < 2 \<or> isBreak (last w)) then None
               else (case drop (length body) r of [] \<Rightarrow> None
                     | c # r \<Rightarrow> if c = 62 then Some (trimStart r) else None)))"

definition isLetter :: "nat \<Rightarrow> bool" where
  "isLetter c \<longleftrightarrow> (65 \<le> c \<and> c \<le> 90) \<or> (97 \<le> c \<and> c \<le> 122)"

definition matchWindowsPrompt :: "js_text \<Rightarrow> js_text option" where
  "matchWindowsPrompt t =
     (case t of
        a # b # r \<Rightarrow>
          if isLetter a \<and> b = 58
          then (let r = (if r \<noteq> [] \<and> (hd r = 92 \<or> hd r = 47) then dropWhile (\<lambda>c. c \<noteq> 62 \<and> \<not> isBreak c) r else r)
                in case r of [] \<Rightarrow> None | c # r \<Rightarrow> if c = 62 then Some (trimStart r) else None)
          else None
      | _ \<Rightarrow> None)"

lemma afterRun_length: "afterRun P Q t = Some r \<Longrightarrow> length r < length t"
proof -
  assume a: "afterRun P Q t = Some r"
  then obtain c where "dropWhile P t = c # r" by (auto simp: afterRun_def split: if_splits list.splits)
  then have "length (c # r) \<le> length t" by (metis length_dropWhile_le)
  then show ?thesis by simp
qed

lemma trimStart_length: "length (trimStart t) \<le> length t"
  by (simp add: trimStart_def length_dropWhile_le)

lemma env_length: "matchEnvPrefix t = Some r \<Longrightarrow> length r < length t"
  using trimStart_length le_less_trans less_SucI
  by (fastforce simp: matchEnvPrefix_def dest: afterRun_length split: list.splits if_splits)

function stripLeadingEnvPrefixes :: "js_text \<Rightarrow> js_text" where
  "stripLeadingEnvPrefixes t =
     (case matchEnvPrefix t of None \<Rightarrow> t | Some r \<Rightarrow> stripLeadingEnvPrefixes r)"
  by pat_completeness auto
termination by (relation "measure length") (auto dest: env_length)

declare stripLeadingEnvPrefixes.simps [simp del]

fun firstMatch :: "(js_text \<Rightarrow> js_text option) list \<Rightarrow> js_text \<Rightarrow> js_text option" where
  "firstMatch [] t = None"
| "firstMatch (m # ms) t = (case m t of Some r \<Rightarrow> Some r | None \<Rightarrow> firstMatch ms t)"

definition stripKnownPromptPrefix :: "js_text \<Rightarrow> js_text" where
  "stripKnownPromptPrefix t =
     (case firstMatch [matchBracketPrompt, matchPosixPrompt, matchPowershellPrompt, matchWindowsPrompt] t of
        None \<Rightarrow> t | Some r \<Rightarrow> r)"

definition stripTerminalCommandPrompt :: "js_text \<Rightarrow> js_text" where
  "stripTerminalCommandPrompt input =
     (let t = trimStart input in
      if trim t = [] then [] else stripKnownPromptPrefix (stripLeadingEnvPrefixes t))"

definition sanitizeTerminalCommand :: "js_text \<Rightarrow> js_text" where
  "sanitizeTerminalCommand input = trim (stripTerminalCommandPrompt input)"

section \<open>Shell words\<close>

definition isQuote :: "nat \<Rightarrow> bool" where
  "isQuote c \<longleftrightarrow> c = 39 \<or> c = 34"

definition pushSegment :: "js_text \<Rightarrow> js_text list \<Rightarrow> js_text list" where
  "pushSegment current segments = (if trim current \<noteq> [] then segments @ [trim current] else segments)"

fun segmentLoop :: "js_text \<Rightarrow> js_text list \<Rightarrow> js_text \<Rightarrow> nat option \<Rightarrow> bool \<Rightarrow> js_text list" where
  "segmentLoop [] segments current quote escaped = pushSegment current segments"
| "segmentLoop (c # cs) segments current quote escaped =
     (if escaped then segmentLoop cs segments (current @ [c]) quote False
      else if c = 92 \<and> quote \<noteq> Some 39 then segmentLoop cs segments (current @ [c]) quote True
      else if isQuote c \<and> quote = None then segmentLoop cs segments (current @ [c]) (Some c) False
      else if quote = Some c then segmentLoop cs segments (current @ [c]) None False
      else if quote = None \<and> (c = 124 \<or> c = 59 \<or> c = 38)
      then segmentLoop cs (pushSegment current segments) [] quote False
      else segmentLoop cs segments (current @ [c]) quote False)"

definition splitCommandSegments :: "js_text \<Rightarrow> js_text list" where
  "splitCommandSegments input = segmentLoop input [] [] None False"

definition pushToken :: "js_text \<Rightarrow> js_text list \<Rightarrow> js_text list" where
  "pushToken current tokens = (if current \<noteq> [] then tokens @ [current] else tokens)"

fun tokenLoop :: "js_text \<Rightarrow> js_text list \<Rightarrow> js_text \<Rightarrow> nat option \<Rightarrow> bool \<Rightarrow> js_text list" where
  "tokenLoop [] tokens current quote escaped = pushToken current tokens"
| "tokenLoop (c # cs) tokens current quote escaped =
     (if escaped then tokenLoop cs tokens (current @ [c]) quote False
      else if c = 92 \<and> quote \<noteq> Some 39 then tokenLoop cs tokens current quote True
      else if isQuote c \<and> quote = None then tokenLoop cs tokens current (Some c) False
      else if quote = Some c then tokenLoop cs tokens current None False
      else if quote = None \<and> isSpace c then tokenLoop cs (pushToken current tokens) [] quote False
      else tokenLoop cs tokens (current @ [c]) quote False)"

definition tokenizeShellLike :: "js_text \<Rightarrow> js_text list" where
  "tokenizeShellLike input = tokenLoop input [] [] None False"

section \<open>Interactive programs\<close>

definition INTERACTIVE_COMMANDS :: "js_text list" where
  "INTERACTIVE_COMMANDS = map js [''btop'', ''htop'', ''less'', ''man'', ''more'', ''nano'', ''nvim'', ''top'',
     ''vi'', ''vim'', ''watch'']"

definition SUDO_OPTION_REQUIRES_VALUE :: "js_text list" where
  "SUDO_OPTION_REQUIRES_VALUE = map js [''-C'', ''-g'', ''-h'', ''-p'', ''-T'', ''-u'']"

text \<open>\<open>toLowerCase\<close>, which depends on the Unicode tables, is a parameter.\<close>

definition commandName :: "(js_text \<Rightarrow> js_text) \<Rightarrow> js_text \<Rightarrow> js_text" where
  "commandName lower token =
     lower (rev (takeWhile (\<lambda>c. c \<noteq> 47) (rev (map (\<lambda>c. if c = 92 then 47 else c) token))))"

definition isNameStart :: "nat \<Rightarrow> bool" where
  "isNameStart c \<longleftrightarrow> isLetter c \<or> c = 95"

definition isNameChar :: "nat \<Rightarrow> bool" where
  "isNameChar c \<longleftrightarrow> isNameStart c \<or> (48 \<le> c \<and> c \<le> 57)"

definition isEnvAssignment :: "js_text \<Rightarrow> bool" where
  "isEnvAssignment t \<longleftrightarrow> t \<noteq> [] \<and> isNameStart (hd t)
     \<and> (case dropWhile isNameChar (tl t) of [] \<Rightarrow> False | c # _ \<Rightarrow> c = 61)"

text \<open>The tokens from the index on, instead of the index.\<close>

definition skipEnvPrefix :: "js_text list \<Rightarrow> js_text list" where
  "skipEnvPrefix tokens = dropWhile isEnvAssignment tokens"

fun skipSudoOptions :: "js_text list \<Rightarrow> js_text list" where
  "skipSudoOptions [] = []"
| "skipSudoOptions (t # ts) =
     (if t = js ''--'' then ts
      else if \<not> starts_with t (js ''-'') \<or> t = js ''-'' then t # ts
      else if t \<in> set SUDO_OPTION_REQUIRES_VALUE then (case ts of [] \<Rightarrow> [] | _ # us \<Rightarrow> skipSudoOptions us)
      else skipSudoOptions ts)"

lemma skipSudo_length: "length (skipSudoOptions ts) \<le> length ts"
proof (induction ts rule: skipSudoOptions.induct)
  case (2 t ts)
  show ?case
  proof (cases ts)
    case Nil
    then show ?thesis by simp
  next
    case (Cons u us)
    with 2 show ?thesis by (auto simp: le_SucI)
  qed
qed simp

function unwrapLoop :: "(js_text \<Rightarrow> js_text) \<Rightarrow> js_text list \<Rightarrow> js_text list" where
  "unwrapLoop lower [] = []"
| "unwrapLoop lower (t # ts) =
     (let name = commandName lower t in
      if name = js ''sudo'' \<or> name = js ''doas'' then unwrapLoop lower (skipEnvPrefix (skipSudoOptions ts))
      else if name = js ''env'' then unwrapLoop lower (skipEnvPrefix ts)
      else if name \<in> set (map js [''command'', ''builtin'', ''exec'', ''time'']) then unwrapLoop lower ts
      else if name = js ''nice'' \<or> name = js ''nohup''
      then unwrapLoop lower (dropWhile (\<lambda>u. starts_with u (js ''-'')) ts)
      else t # ts)"
  by pat_completeness auto
termination
proof (relation "measure (\<lambda>(l, ts). length ts)", goal_cases)
  case (2 lower t ts)
  have "length (skipEnvPrefix (skipSudoOptions ts)) \<le> length ts"
    unfolding skipEnvPrefix_def using length_dropWhile_le skipSudo_length le_trans by blast
  then show ?case by simp
qed (simp_all add: skipEnvPrefix_def less_Suc_eq_le length_dropWhile_le)

definition unwrapCommand :: "(js_text \<Rightarrow> js_text) \<Rightarrow> js_text list \<Rightarrow> js_text list" where
  "unwrapCommand lower tokens = unwrapLoop lower (skipEnvPrefix tokens)"

definition hasOption :: "js_text list \<Rightarrow> js_text \<Rightarrow> js_text option \<Rightarrow> bool" where
  "hasOption tokens longName shortName \<longleftrightarrow>
     list_ex (\<lambda>t. t = longName \<or> (case shortName of None \<Rightarrow> False | Some s \<Rightarrow> s \<noteq> [] \<and> has_text t s)) tokens"

definition commandSegmentStartsInteractiveProgram :: "(js_text \<Rightarrow> js_text) \<Rightarrow> js_text \<Rightarrow> bool" where
  "commandSegmentStartsInteractiveProgram lower segment =
     (let tokens = unwrapCommand lower (tokenizeShellLike segment);
          name = commandName lower (if tokens = [] then [] else hd tokens)
      in if name = [] then False
         else if name \<in> set INTERACTIVE_COMMANDS then True
         else if name = js ''journalctl'' then \<not> hasOption tokens (js ''--no-pager'') None
         else if name = js ''tail'' then hasOption tokens (js ''--follow'') (Some (js ''f''))
         else False)"

definition commandStartsSuggestionSuppressingProgram :: "(js_text \<Rightarrow> js_text) \<Rightarrow> js_text \<Rightarrow> bool" where
  "commandStartsSuggestionSuppressingProgram lower command =
     (let normalized = sanitizeTerminalCommand command in
      if normalized = [] then False
      else list_ex (commandSegmentStartsInteractiveProgram lower) (splitCommandSegments normalized))"

definition isPagerSearchOrCommandInput :: "js_text \<Rightarrow> bool" where
  "isPagerSearchOrCommandInput v =
     (case trimStart v of [] \<Rightarrow> False | c # _ \<Rightarrow> c = 47 \<or> c = 63 \<or> c = 58)"

definition isPagerSingleKeyInput :: "js_text \<Rightarrow> bool" where
  "isPagerSingleKeyInput data \<longleftrightarrow> data \<in> set (map js ['' '', ''b'', ''g'', ''G'', ''n'', ''N'', ''q''])"

section \<open>Prompt removal\<close>

lemma trimStart_idem [simp]: "trimStart (trimStart t) = trimStart t"
  by (simp add: trimStart_def dropWhile_idem)

lemma trimStart_hd: "t \<noteq> [] \<Longrightarrow> \<not> isSpace (hd t) \<Longrightarrow> trimStart t = t"
  by (cases t) (auto simp: trimStart_def)

lemma trim_trimStart [simp]: "trim (trimStart t) = trim t"
  by (simp add: trim_def)

lemma trim_hd: "t \<noteq> [] \<Longrightarrow> \<not> isSpace (hd t) \<Longrightarrow> trim t \<noteq> []"
  by (cases t) (auto simp: trim_def trimStart_def trimEnd_def)

lemma trim_edges:
  "trim t \<noteq> [] \<Longrightarrow> \<not> isSpace (hd (trim t)) \<and> \<not> isSpace (last (trim t))"
proof -
  assume ne: "trim t \<noteq> []"
  define u where "u = trimStart t"
  have r: "trim t = rev (dropWhile isSpace (rev u))" by (simp add: trim_def trimEnd_def u_def)
  then have d: "dropWhile isSpace (rev u) \<noteq> []" using ne by simp
  have "\<not> isSpace (hd (dropWhile isSpace (rev u)))" using d hd_dropWhile by blast
  then have l: "\<not> isSpace (last (trim t))" using r d by (simp add: last_rev)
  have "u \<noteq> []" using d by auto
  then have hu: "\<not> isSpace (hd u)" unfolding u_def trimStart_def using hd_dropWhile by blast
  have "rev u = takeWhile isSpace (rev u) @ dropWhile isSpace (rev u)" by simp
  then have "u = rev (dropWhile isSpace (rev u)) @ rev (takeWhile isSpace (rev u))"
    by (metis rev_append rev_rev_ident)
  then have "hd u = hd (trim t)" using r ne by (metis hd_append2)
  with hu l show ?thesis by simp
qed

lemma trim_id: "t \<noteq> [] \<Longrightarrow> \<not> isSpace (hd t) \<Longrightarrow> \<not> isSpace (last t) \<Longrightarrow> trim t = t"
proof -
  assume a: "t \<noteq> []" "\<not> isSpace (hd t)" "\<not> isSpace (last t)"
  then have "dropWhile isSpace (rev t) = rev t" by (cases "rev t") (auto simp: hd_rev [symmetric])
  with a show ?thesis by (simp add: trim_def trimEnd_def trimStart_hd)
qed

lemma trim_Nil [simp]: "trim [] = []"
  by (simp add: trim_def trimStart_def trimEnd_def)

lemma trim_idem [simp]: "trim (trim t) = trim t"
proof (cases "trim t = []")
  case True
  then show ?thesis by simp
next
  case False
  then show ?thesis using trim_edges trim_id by blast
qed

lemma afterRun_append:
  "w \<noteq> [] \<Longrightarrow> \<forall>c \<in> set w. P c \<Longrightarrow> \<not> P d \<Longrightarrow> Q d \<Longrightarrow> afterRun P Q (w @ d # r) = Some r"
  by (simp add: afterRun_def takeWhile_append dropWhile_append)

text \<open>What is stripped is always a prefix.\<close>

lemma trimStart_suffix: "suffix (trimStart t) t"
  by (simp add: trimStart_def suffix_dropWhile)

lemma afterRun_suffix: "afterRun P Q t = Some r \<Longrightarrow> suffix r t"
proof -
  assume "afterRun P Q t = Some r"
  then obtain c where c: "dropWhile P t = c # r" by (auto simp: afterRun_def split: if_splits list.splits)
  have "suffix r (c # r)" by (simp add: suffix_ConsI)
  moreover have "suffix (c # r) t" using c suffix_dropWhile by metis
  ultimately show ?thesis by (rule suffix_order.trans)
qed

lemma suffix_trimStart_Cons: "dropWhile P t = c # r \<Longrightarrow> suffix (trimStart r) t"
  by (metis suffix_ConsD suffix_dropWhile suffix_order.trans trimStart_suffix)

lemma match_suffix:
  "matchEnvPrefix t = Some r \<Longrightarrow> suffix r t"
  "matchBracketPrompt t = Some r \<Longrightarrow> suffix r t"
  "matchPosixPrompt t = Some r \<Longrightarrow> suffix r t"
  "matchPowershellPrompt t = Some r \<Longrightarrow> suffix r t"
  "matchWindowsPrompt t = Some r \<Longrightarrow> suffix r t"
proof -
  show "matchEnvPrefix t = Some r \<Longrightarrow> suffix r t"
    by (auto simp: matchEnvPrefix_def split: list.splits if_splits dest!: afterRun_suffix
        intro: suffix_ConsI suffix_order.trans [OF trimStart_suffix])
  show "matchBracketPrompt t = Some r \<Longrightarrow> suffix r t"
  proof -
    assume a: "matchBracketPrompt t = Some r"
    obtain u v d q where q: "t = 91 # u" "afterRun (\<lambda>c. c \<noteq> 93 \<and> \<not> isBreak c) (\<lambda>c. c = 93) u = Some v"
      "dropWhile isSpace v = d # q" "r = trimStart q"
      using a unfolding matchBracketPrompt_def
      by (auto simp: trimStart_def split: list.splits if_splits option.splits)
    have "suffix r v" unfolding q(4) using q(3) by (rule suffix_trimStart_Cons)
    moreover have "suffix v t" unfolding q(1) using afterRun_suffix [OF q(2)] by (rule suffix_ConsI)
    ultimately show "suffix r t" by (rule suffix_order.trans)
  qed
  show "matchPosixPrompt t = Some r \<Longrightarrow> suffix r t"
  proof -
    assume a: "matchPosixPrompt t = Some r"
    obtain u v d q where q: "afterRun (\<lambda>c. \<not> isSpace c \<and> c \<noteq> 64) (\<lambda>c. c = 64) t = Some u"
      "afterRun (\<lambda>c. c \<noteq> 58 \<and> \<not> isSpace c) (\<lambda>c. c = 58) u = Some v"
      "dropWhile (\<lambda>c. \<not> isPromptEnd c \<and> \<not> isBreak c) v = d # q" "r = trimStart q"
      using a unfolding matchPosixPrompt_def by (auto split: list.splits if_splits option.splits)
    have "suffix r v" unfolding q(4) using q(3) by (rule suffix_trimStart_Cons)
    moreover have "suffix v t" using afterRun_suffix [OF q(2)] afterRun_suffix [OF q(1)] by (rule suffix_order.trans)
    ultimately show "suffix r t" by (rule suffix_order.trans)
  qed
  show "matchPowershellPrompt t = Some r \<Longrightarrow> suffix r t"
  proof -
    assume a: "matchPowershellPrompt t = Some r"
    let ?d = "dropWhile isSpace (drop 2 t)"
    obtain k c q where q: "drop k ?d = c # q" "r = trimStart q"
      using a unfolding matchPowershellPrompt_def Let_def by (auto split: list.splits if_splits)
    have "suffix r (drop k ?d)" unfolding q by (rule suffix_ConsI [OF trimStart_suffix])
    moreover have "suffix (drop k ?d) t"
      by (meson suffix_drop suffix_dropWhile suffix_order.trans)
    ultimately show "suffix r t" by (rule suffix_order.trans)
  qed
  show "matchWindowsPrompt t = Some r \<Longrightarrow> suffix r t"
    unfolding matchWindowsPrompt_def Let_def
    by (auto split: list.splits if_splits dest!: suffix_trimStart_Cons
        intro: suffix_ConsI suffix_order.trans [OF trimStart_suffix])
qed

lemma stripEnv_suffix: "suffix (stripLeadingEnvPrefixes t) t"
proof (induction t rule: stripLeadingEnvPrefixes.induct)
  case (1 t)
  show ?case
  proof (cases "matchEnvPrefix t")
    case None
    then show ?thesis by (subst stripLeadingEnvPrefixes.simps) simp
  next
    case (Some r)
    then have "suffix (stripLeadingEnvPrefixes r) t" using 1 match_suffix(1) suffix_order.trans by blast
    with Some show ?thesis by (subst stripLeadingEnvPrefixes.simps) simp
  qed
qed

lemma stripKnown_suffix: "suffix (stripKnownPromptPrefix t) t"
  by (auto simp: stripKnownPromptPrefix_def split: option.splits dest: match_suffix)

lemma strip_suffix: "suffix (stripTerminalCommandPrompt t) t"
proof -
  have "suffix (stripKnownPromptPrefix (stripLeadingEnvPrefixes (trimStart t))) t"
    using stripKnown_suffix stripEnv_suffix trimStart_suffix suffix_order.trans by metis
  then show ?thesis by (simp add: stripTerminalCommandPrompt_def Let_def)
qed

lemma dropWhile_append_length: "length (dropWhile P x) \<le> length (dropWhile P (x @ y))"
  by (induction x) auto

lemma trim_suffix_length: "suffix s t \<Longrightarrow> length (trim s) \<le> length (trim t)"
proof -
  assume "suffix s t"
  then obtain a where t: "t = a @ s" by (auto simp: suffix_def)
  have e: "length (trimEnd x) = length (dropWhile isSpace (rev x))" for x by (simp add: trimEnd_def)
  show ?thesis
  proof (cases "trimStart s = []")
    case True
    then show ?thesis by (simp add: trim_def trimEnd_def)
  next
    case False
    have "suffix (trimStart s) (trimStart (a @ s))"
    proof (cases "\<forall>c \<in> set a. isSpace c")
      case True
      then show ?thesis by (simp add: trimStart_def dropWhile_append)
    next
      case no: False
      then have "trimStart (a @ s) = trimStart a @ s" by (auto simp: trimStart_def dropWhile_append)
      then show ?thesis using trimStart_suffix suffix_def suffix_order.trans by metis
    qed
    then obtain b where b: "trimStart (a @ s) = b @ trimStart s" by (auto simp: suffix_def)
    have "length (dropWhile isSpace (rev (trimStart s))) \<le> length (dropWhile isSpace (rev (trimStart s) @ rev b))"
      by (rule dropWhile_append_length)
    then show ?thesis unfolding trim_def e t b by simp
  qed
qed

lemma sanitize_length: "length (sanitizeTerminalCommand t) \<le> length (trim t)"
  unfolding sanitizeTerminalCommand_def by (rule trim_suffix_length [OF strip_suffix])

text \<open>The prompts the recognizer is meant for: \<open>[...]$\<close>, \<open>user@host:path$\<close>, \<open>PS path>\<close> and
  \<open>C:\path>\<close>, each with what may stand in its parts.\<close>

definition bracket_prompt :: "js_text \<Rightarrow> nat \<Rightarrow> js_text" where
  "bracket_prompt inner e = 91 # inner @ [93, e]"

definition posix_prompt :: "js_text \<Rightarrow> js_text \<Rightarrow> js_text \<Rightarrow> nat \<Rightarrow> js_text" where
  "posix_prompt user host path e = user @ 64 # host @ 58 # path @ [e]"

definition powershell_prompt :: "js_text \<Rightarrow> js_text" where
  "powershell_prompt path = js ''PS '' @ path @ [62]"

definition windows_prompt :: "nat \<Rightarrow> js_text \<Rightarrow> js_text" where
  "windows_prompt drive path = drive # 58 # 92 # path @ [62]"

definition prompt_ok :: "js_text \<Rightarrow> bool" where
  "prompt_ok p \<longleftrightarrow>
     (\<exists>inner e. p = bracket_prompt inner e \<and> inner \<noteq> [] \<and> isPromptEnd e \<and> (\<forall>c \<in> set inner. c \<noteq> 93 \<and> \<not> isBreak c))
   \<or> (\<exists>user host path e. p = posix_prompt user host path e \<and> user \<noteq> [] \<and> host \<noteq> [] \<and> isPromptEnd e
        \<and> hd user \<noteq> 91 \<and> hd user \<noteq> 40
        \<and> (\<forall>c \<in> set user. \<not> isSpace c \<and> c \<noteq> 64) \<and> (\<forall>c \<in> set host. \<not> isSpace c \<and> c \<noteq> 58)
        \<and> (\<forall>c \<in> set path. \<not> isPromptEnd c \<and> \<not> isBreak c))
   \<or> (\<exists>path. p = powershell_prompt path \<and> path \<noteq> [] \<and> \<not> isSpace (hd path) \<and> (\<forall>c \<in> set path. c \<noteq> 62 \<and> \<not> isBreak c))
   \<or> (\<exists>drive path. p = windows_prompt drive path \<and> isLetter drive \<and> (\<forall>c \<in> set path. c \<noteq> 62 \<and> c \<noteq> 64 \<and> \<not> isBreak c))"

definition env_text :: "js_text list \<Rightarrow> js_text" where
  "env_text envs = concat (map (\<lambda>e. 40 # e @ [41, 32]) envs)"

definition env_ok :: "js_text \<Rightarrow> bool" where
  "env_ok e \<longleftrightarrow> e \<noteq> [] \<and> (\<forall>c \<in> set e. c \<noteq> 40 \<and> c \<noteq> 41 \<and> \<not> isBreak c)"

lemma space_codes [simp]: "isSpace 32" "\<not> isSpace 91" "\<not> isSpace 40" "\<not> isSpace 80" "\<not> isSpace 39"
  "\<not> isSpace 59" "\<not> isSpace 64" "\<not> isSpace 58"
  by (simp_all add: isSpace_def)

lemma letter_not_space: "isLetter c \<Longrightarrow> \<not> isSpace c \<and> c \<noteq> 40 \<and> c \<noteq> 91 \<and> c \<noteq> 64"
  by (auto simp: isLetter_def isSpace_def)

lemma prompt_hd: "prompt_ok p \<Longrightarrow> p \<noteq> [] \<and> \<not> isSpace (hd p) \<and> hd p \<noteq> 40"
  by (auto simp: prompt_ok_def bracket_prompt_def posix_prompt_def powershell_prompt_def windows_prompt_def
      js_def hd_append letter_not_space)

lemma strip_env:
  assumes "env_ok e" "r \<noteq> []" "\<not> isSpace (hd r)"
  shows "stripLeadingEnvPrefixes (40 # e @ [41, 32] @ r) = stripLeadingEnvPrefixes r"
proof -
  have "afterRun (\<lambda>c. c \<noteq> 40 \<and> c \<noteq> 41 \<and> \<not> isBreak c) (\<lambda>c. c = 41) (e @ 41 # 32 # r) = Some (32 # r)"
    using assms(1) by (intro afterRun_append) (auto simp: env_ok_def)
  moreover have "trimStart (32 # r) = r" using assms(2,3) trimStart_hd by (simp add: trimStart_def)
  ultimately have "matchEnvPrefix (40 # e @ [41, 32] @ r) = Some r" by (simp add: matchEnvPrefix_def)
  then show ?thesis by (subst stripLeadingEnvPrefixes.simps) simp
qed

lemma strip_envs:
  assumes "\<forall>e \<in> set envs. env_ok e" "r \<noteq> []" "\<not> isSpace (hd r)" "hd r \<noteq> 40"
  shows "stripLeadingEnvPrefixes (env_text envs @ r) = r"
  using assms(1)
proof (induction envs)
  case Nil
  have "matchEnvPrefix r = None" using assms(2,4) by (cases r) (auto simp: matchEnvPrefix_def)
  then show ?case by (subst stripLeadingEnvPrefixes.simps) (simp add: env_text_def)
next
  case (Cons e envs)
  have "env_text envs @ r \<noteq> [] \<and> \<not> isSpace (hd (env_text envs @ r))"
    using assms(2,3) by (cases envs) (auto simp: env_text_def)
  with Cons strip_env [of e "env_text envs @ r"] show ?case by (simp add: env_text_def)
qed

lemma posix_None:
  assumes "\<forall>c \<in> set w. c \<noteq> 64" "isSpace d"
  shows "matchPosixPrompt (w @ d # r) = None"
proof -
  have "(case dropWhile (\<lambda>c. \<not> isSpace c \<and> c \<noteq> 64) (w @ d # r) of [] \<Rightarrow> None | c # r \<Rightarrow> if c = 64 then Some r else None) = None"
    using assms by (induction w) auto
  then show ?thesis by (simp add: matchPosixPrompt_def afterRun_def)
qed

lemma strip_bracket:
  assumes "inner \<noteq> []" "isPromptEnd e" "\<forall>c \<in> set inner. c \<noteq> 93 \<and> \<not> isBreak c"
  shows "stripKnownPromptPrefix (bracket_prompt inner e @ 32 # cmd) = trimStart cmd"
proof -
  have "afterRun (\<lambda>c. c \<noteq> 93 \<and> \<not> isBreak c) (\<lambda>c. c = 93) (inner @ 93 # e # 32 # cmd) = Some (e # 32 # cmd)"
    using assms by (intro afterRun_append) auto
  moreover have "\<not> isSpace e" using assms(2) by (auto simp: isPromptEnd_def isSpace_def)
  ultimately show ?thesis
    using assms(2) by (simp add: stripKnownPromptPrefix_def bracket_prompt_def matchBracketPrompt_def trimStart_def)
qed

lemma strip_posix:
  assumes "user \<noteq> []" "host \<noteq> []" "isPromptEnd e" "hd user \<noteq> 91"
    "\<forall>c \<in> set user. \<not> isSpace c \<and> c \<noteq> 64" "\<forall>c \<in> set host. \<not> isSpace c \<and> c \<noteq> 58"
    "\<forall>c \<in> set path. \<not> isPromptEnd c \<and> \<not> isBreak c"
  shows "stripKnownPromptPrefix (posix_prompt user host path e @ 32 # cmd) = trimStart cmd"
proof -
  have 1: "matchBracketPrompt (posix_prompt user host path e @ 32 # cmd) = None"
    using assms(1,4) by (cases user) (auto simp: matchBracketPrompt_def posix_prompt_def)
  have 2: "afterRun (\<lambda>c. \<not> isSpace c \<and> c \<noteq> 64) (\<lambda>c. c = 64) (user @ 64 # host @ 58 # path @ e # 32 # cmd)
      = Some (host @ 58 # path @ e # 32 # cmd)"
    using assms by (intro afterRun_append) auto
  have 3: "afterRun (\<lambda>c. c \<noteq> 58 \<and> \<not> isSpace c) (\<lambda>c. c = 58) (host @ 58 # path @ e # 32 # cmd)
      = Some (path @ e # 32 # cmd)"
    using assms by (intro afterRun_append) auto
  have 4: "dropWhile (\<lambda>c. \<not> isPromptEnd c \<and> \<not> isBreak c) (path @ e # 32 # cmd) = e # 32 # cmd"
    using assms by (simp add: dropWhile_append)
  from 1 2 3 4 assms(3) show ?thesis
    by (simp add: stripKnownPromptPrefix_def posix_prompt_def matchPosixPrompt_def trimStart_def)
qed

lemma strip_powershell:
  assumes "path \<noteq> []" "\<not> isSpace (hd path)" "\<forall>c \<in> set path. c \<noteq> 62 \<and> \<not> isBreak c"
  shows "stripKnownPromptPrefix (powershell_prompt path @ 32 # cmd) = trimStart cmd"
proof -
  let ?t = "powershell_prompt path @ 32 # cmd"
  have t: "?t = [80, 83] @ 32 # path @ 62 # 32 # cmd" by (simp add: powershell_prompt_def js_def)
  have 1: "matchBracketPrompt ?t = None" unfolding t by (simp add: matchBracketPrompt_def)
  have 2: "matchPosixPrompt ?t = None" unfolding t by (rule posix_None) auto
  have d: "drop 2 ?t = 32 # path @ 62 # 32 # cmd" unfolding t by simp
  have w: "takeWhile isSpace (drop 2 ?t) = [32]" "dropWhile isSpace (drop 2 ?t) = path @ 62 # 32 # cmd"
    unfolding d using assms(1,2) by (cases path; simp)+
  have s: "starts_with ?t (js ''PS'')" unfolding t by (simp add: starts_with_def js_def)
  have b: "takeWhile (\<lambda>c. c \<noteq> 62 \<and> \<not> isBreak c) (path @ 62 # 32 # cmd) = path"
    using assms(3) by (simp add: takeWhile_append)
  have 3: "matchPowershellPrompt ?t = Some (trimStart cmd)"
    unfolding matchPowershellPrompt_def Let_def w b using assms(1) s by (simp add: trimStart_def)
  from 1 2 3 show ?thesis by (simp add: stripKnownPromptPrefix_def)
qed

lemma strip_windows:
  assumes "isLetter drive" "\<forall>c \<in> set path. c \<noteq> 62 \<and> c \<noteq> 64 \<and> \<not> isBreak c"
  shows "stripKnownPromptPrefix (windows_prompt drive path @ 32 # cmd) = trimStart cmd"
proof -
  let ?t = "windows_prompt drive path @ 32 # cmd"
  have t: "?t = (drive # 58 # 92 # path @ [62]) @ 32 # cmd" by (simp add: windows_prompt_def)
  have 1: "matchBracketPrompt ?t = None"
    using letter_not_space [OF assms(1)] by (simp add: matchBracketPrompt_def windows_prompt_def)
  have 2: "matchPosixPrompt ?t = None" unfolding t
    using assms(2) letter_not_space [OF assms(1)] by (intro posix_None) auto
  have 3: "matchPowershellPrompt ?t = None"
    by (simp add: matchPowershellPrompt_def windows_prompt_def starts_with_def js_def)
  have "\<not> isBreak 92" by (simp add: isBreak_def)
  with assms have 4: "matchWindowsPrompt ?t = Some (trimStart cmd)"
    by (simp add: matchWindowsPrompt_def windows_prompt_def dropWhile_append trimStart_def)
  from 1 2 3 4 show ?thesis by (simp add: stripKnownPromptPrefix_def)
qed

lemma strip_prompt: "prompt_ok p \<Longrightarrow> stripKnownPromptPrefix (p @ 32 # cmd) = trimStart cmd"
  unfolding prompt_ok_def
  by (elim disjE exE conjE; hypsubst;
      (rule strip_bracket | rule strip_posix | rule strip_powershell | rule strip_windows); assumption)

lemma strip_line:
  assumes "prompt_ok p" and "\<forall>e \<in> set envs. env_ok e" and "\<forall>c \<in> set sp. isSpace c"
  shows "stripTerminalCommandPrompt (sp @ env_text envs @ p @ 32 # cmd) = trimStart cmd"
proof -
  let ?r = "env_text envs @ p @ 32 # cmd"
  have r: "?r \<noteq> []" "\<not> isSpace (hd ?r)"
    using prompt_hd [OF assms(1)] by (cases envs; auto simp: env_text_def hd_append)+
  have ts: "trimStart (sp @ ?r) = ?r"
    using r assms(3) trimStart_hd [of ?r] by (simp add: trimStart_def dropWhile_append)
  have "stripLeadingEnvPrefixes ?r = p @ 32 # cmd"
    using prompt_hd [OF assms(1)] assms(2) by (intro strip_envs) (auto simp: hd_append)
  then show ?thesis
    using ts trim_hd [OF r] strip_prompt [OF assms(1)] by (simp add: stripTerminalCommandPrompt_def Let_def)
qed

text \<open>a command read from a terminal line loses exactly its prompt. For every prompt of the
  four supported shells, after any white space and any number of environment prefixes such as
  \<open>(venv)\<close>, what remains is the command without its surrounding white space, whatever the command
  is: it may itself contain prompt characters. The result never starts or ends with white
  space.\<close>

theorem prompt_removed:
  assumes "prompt_ok p" and "\<forall>e \<in> set envs. env_ok e" and "\<forall>c \<in> set sp. isSpace c"
  shows "sanitizeTerminalCommand (sp @ env_text envs @ p @ 32 # cmd) = trim cmd
    \<and> stripTerminalCommandPrompt (sp @ env_text envs @ p @ 32 # cmd) = trimStart cmd
    \<and> trim (sanitizeTerminalCommand t) = sanitizeTerminalCommand t"
  using strip_line [OF assms, of cmd] by (simp add: sanitizeTerminalCommand_def)

theorem prompt_removed_witness:
  "sanitizeTerminalCommand ([32] @ env_text [js ''venv''] @ posix_prompt (js ''u'') (js ''h'') (js ''~'') 36 @ 32 # js ''a $ b '')
   = js ''a $ b''"
proof -
  have "prompt_ok (posix_prompt (js ''u'') (js ''h'') (js ''~'') 36)"
    unfolding prompt_ok_def
    by (intro disjI2 disjI1 exI [of _ "js ''u''"] exI [of _ "js ''h''"] exI [of _ "js ''~''"] exI [of _ 36])
       (simp add: js_def isPromptEnd_def isSpace_def isBreak_def)
  then have "sanitizeTerminalCommand ([32] @ env_text [js ''venv''] @ posix_prompt (js ''u'') (js ''h'') (js ''~'') 36 @ 32 # js ''a $ b '')
      = trim (js ''a $ b '')"
    using prompt_removed [of _ "[js ''venv'']" "[32]"] by (simp add: env_ok_def js_def isBreak_def)
  then show ?thesis by (simp add: trim_def trimStart_def trimEnd_def js_def isSpace_def)
qed

section \<open>Shell words\<close>

text \<open>A printer for command lines: words in single quotes with spaces between them, commands
  with semicolons between them.\<close>

definition sh_quote :: "js_text \<Rightarrow> js_text" where
  "sh_quote w = 39 # w @ [39]"

fun sh_sep :: "nat \<Rightarrow> js_text list \<Rightarrow> js_text" where
  "sh_sep d [] = []"
| "sh_sep d [w] = w"
| "sh_sep d (w # v # ws) = w @ d # sh_sep d (v # ws)"

definition sh_words :: "js_text list \<Rightarrow> js_text" where
  "sh_words ws = sh_sep 32 (map sh_quote ws)"

definition sh_line :: "js_text list list \<Rightarrow> js_text" where
  "sh_line wss = sh_sep 59 (map sh_words wss)"

definition word_ok :: "js_text \<Rightarrow> bool" where
  "word_ok w \<longleftrightarrow> w \<noteq> [] \<and> 39 \<notin> set w"

lemma token_inside:
  "39 \<notin> set w \<Longrightarrow> tokenLoop (w @ 39 # r) tokens current (Some 39) False = tokenLoop r tokens (current @ w) None False"
  by (induction w arbitrary: current) (auto simp: isQuote_def)

lemma token_word:
  "39 \<notin> set w \<Longrightarrow> tokenLoop (sh_quote w @ r) tokens [] None False = tokenLoop r tokens w None False"
  using token_inside [of w r tokens "[]"] by (simp add: sh_quote_def isQuote_def)

lemma token_words:
  "\<forall>w \<in> set ws. word_ok w \<Longrightarrow> tokenLoop (sh_sep 32 (map sh_quote ws)) tokens [] None False = tokens @ ws"
proof (induction ws arbitrary: tokens rule: induct_list012)
  case (2 w)
  then show ?case using token_word [of w "[]" tokens] by (simp add: word_ok_def pushToken_def)
next
  case (3 w v ws)
  then show ?case using token_word [of w "32 # sh_sep 32 (map sh_quote (v # ws))" tokens]
    by (simp add: word_ok_def pushToken_def isQuote_def)
qed (simp add: pushToken_def)

lemma segment_inside:
  "39 \<notin> set w \<Longrightarrow> segmentLoop (w @ 39 # r) segs current (Some 39) False = segmentLoop r segs (current @ w @ [39]) None False"
  by (induction w arbitrary: current) (auto simp: isQuote_def)

lemma segment_word:
  "39 \<notin> set w \<Longrightarrow> segmentLoop (sh_quote w @ r) segs current None False = segmentLoop r segs (current @ sh_quote w) None False"
  using segment_inside [of w r segs "current @ [39]"] by (simp add: sh_quote_def isQuote_def)

lemma segment_words:
  "\<forall>w \<in> set ws. word_ok w \<Longrightarrow>
   segmentLoop (sh_sep 32 (map sh_quote ws) @ r) segs current None False
     = segmentLoop r segs (current @ sh_sep 32 (map sh_quote ws)) None False"
proof (induction ws arbitrary: current rule: induct_list012)
  case (3 w v ws)
  then show ?case using segment_word [of w "32 # sh_sep 32 (map sh_quote (v # ws)) @ r" segs current]
    by (simp add: word_ok_def isQuote_def)
qed (simp_all add: segment_word word_ok_def)

lemma sep_edges:
  "ws \<noteq> [] \<Longrightarrow> \<exists>m. sh_sep 32 (map sh_quote ws) = 39 # m @ [39]"
proof (induction ws rule: induct_list012)
  case (3 w v ws)
  then obtain m where "sh_sep 32 (map sh_quote (v # ws)) = 39 # m @ [39]" by auto
  then have "sh_sep 32 (map sh_quote (w # v # ws)) = 39 # (w @ 39 # 32 # 39 # m) @ [39]"
    by (simp add: sh_quote_def [of w])
  then show ?case by blast
qed (simp_all add: sh_quote_def)

lemma trim_words: "ws \<noteq> [] \<Longrightarrow> trim (sh_words ws) = sh_words ws \<and> sh_words ws \<noteq> []"
  using sep_edges [of ws] trim_id by (auto simp: sh_words_def)

lemma segment_line:
  "\<forall>ws \<in> set wss. ws \<noteq> [] \<and> (\<forall>w \<in> set ws. word_ok w) \<Longrightarrow>
   segmentLoop (sh_line wss) segs [] None False = segs @ map sh_words wss"
proof (induction wss arbitrary: segs rule: induct_list012)
  case (2 ws)
  then show ?case using segment_words [of ws "[]" segs "[]"] trim_words [of ws]
    by (simp add: sh_line_def sh_words_def pushSegment_def)
next
  case (3 ws vs wss)
  then show ?case using segment_words [of ws "59 # sh_sep 59 (map sh_words (vs # wss))" segs "[]"] trim_words [of ws]
    by (simp add: sh_line_def sh_words_def pushSegment_def isQuote_def)
qed (simp add: sh_line_def pushSegment_def)

text \<open>splitting a command line and tokenizing its commands inverts quoting. A line printed from
  commands of non-empty words, in single quotes and separated by semicolons, is read back as
  these commands and words, although the words may contain separators, spaces, backslashes
  and double quotes.\<close>

theorem shell_words_roundtrip:
  assumes "\<forall>ws \<in> set wss. ws \<noteq> [] \<and> (\<forall>w \<in> set ws. word_ok w)"
  shows "map tokenizeShellLike (splitCommandSegments (sh_line wss)) = wss"
  using assms segment_line [of wss "[]"]
  by (auto simp: splitCommandSegments_def tokenizeShellLike_def sh_words_def token_words intro: map_idI)

theorem shell_words_roundtrip_witness:
  "map tokenizeShellLike (splitCommandSegments (sh_line [[js ''echo'', js ''a;b | c''], [js ''ls'']]))
   = [[js ''echo'', js ''a;b | c''], [js ''ls'']]"
  by (rule shell_words_roundtrip) (simp add: word_ok_def js_def)

section \<open>The follow mode of tail\<close>

definition plain_word :: "js_text \<Rightarrow> bool" where
  "plain_word w \<longleftrightarrow> w \<noteq> [] \<and> (\<forall>c \<in> set w. \<not> isSpace c \<and> \<not> isQuote c \<and> c \<notin> {92, 124, 59, 38})"

lemma segment_plain:
  "\<forall>c \<in> set w. \<not> isQuote c \<and> c \<notin> {92, 124, 59, 38} \<Longrightarrow>
   segmentLoop w segs current None False = pushSegment (current @ w) segs"
  by (induction w arbitrary: current) auto

lemma token_plain:
  "\<forall>c \<in> set w. \<not> isSpace c \<and> \<not> isQuote c \<and> c \<noteq> 92 \<Longrightarrow>
   tokenLoop (w @ r) tokens current None False = tokenLoop r tokens (current @ w) None False"
  by (induction w arbitrary: current) auto

lemma has_text_single: "has_text s [c] \<longleftrightarrow> c \<in> set s"
  unfolding has_text_iff by (metis append_Cons append_Nil in_set_conv_decomp)

lemma tail_parts:
  assumes "plain_word w"
  shows "sanitizeTerminalCommand (js ''tail '' @ w) = js ''tail '' @ w"
    "splitCommandSegments (js ''tail '' @ w) = [js ''tail '' @ w]"
    "tokenizeShellLike (js ''tail '' @ w) = [js ''tail'', w]"
proof -
  let ?t = "[116, 97, 105, 108] @ 32 # w"
  have t: "js ''tail '' @ w = ?t" by (simp add: js_def)
  have w: "w \<noteq> []" "\<not> isSpace (last w)" using assms by (auto simp: plain_word_def)
  have sp: "\<not> isSpace 116" by (simp add: isSpace_def)
  have tr: "trim ?t = ?t" by (rule trim_id) (use w sp in auto)
  have ts: "trimStart ?t = ?t" by (rule trimStart_hd) (use sp in auto)
  have env: "stripLeadingEnvPrefixes ?t = ?t"
    by (subst stripLeadingEnvPrefixes.simps) (simp add: matchEnvPrefix_def)
  have px: "matchPosixPrompt ?t = None" by (rule posix_None) auto
  have "stripKnownPromptPrefix ?t = ?t"
    unfolding stripKnownPromptPrefix_def using px
    by (simp add: matchBracketPrompt_def matchPowershellPrompt_def matchWindowsPrompt_def starts_with_def js_def)
  then show "sanitizeTerminalCommand (js ''tail '' @ w) = js ''tail '' @ w"
    unfolding t using tr ts env by (simp add: sanitizeTerminalCommand_def stripTerminalCommandPrompt_def Let_def)
  show "splitCommandSegments (js ''tail '' @ w) = [js ''tail '' @ w]"
    unfolding t splitCommandSegments_def using assms tr
    by (subst segment_plain) (auto simp: plain_word_def pushSegment_def isQuote_def)
  have "tokenLoop ([116, 97, 105, 108] @ 32 # w) [] [] None False = tokenLoop (32 # w) [] ([] @ [116, 97, 105, 108]) None False"
    by (rule token_plain) (auto simp: isSpace_def isQuote_def)
  also have "\<dots> = tokenLoop (w @ []) [[116, 97, 105, 108]] [] None False"
    by (simp add: pushToken_def isQuote_def)
  also have "\<dots> = [[116, 97, 105, 108], w]"
    using assms by (subst token_plain) (auto simp: plain_word_def pushToken_def)
  finally show "tokenizeShellLike (js ''tail '' @ w) = [js ''tail'', w]"
    unfolding t by (simp add: tokenizeShellLike_def js_def)
qed

lemma slash_free_name: "\<forall>c \<in> set n. c \<noteq> 47 \<and> c \<noteq> 92 \<Longrightarrow> commandName lower n = lower n"
proof -
  assume a: "\<forall>c \<in> set n. c \<noteq> 47 \<and> c \<noteq> 92"
  then have m: "map (\<lambda>c. if c = 92 then 47 else c) n = n" by (simp add: map_idI)
  have w: "takeWhile (\<lambda>c. c \<noteq> 47) (rev n) = rev n" using a by (simp add: takeWhile_eq_all_conv)
  show ?thesis unfolding commandName_def m w by simp
qed

text \<open>the follow mode of \<open>tail\<close> is recognized by the letter f anywhere in an argument. A call
  \<open>tail w\<close> with one plain argument counts as an interactive program exactly when the argument
  contains an f: \<open>tail -f\<close> and \<open>tail --follow\<close> do, and so does \<open>tail conf.log\<close>, for which
  suggestions are suppressed without need.\<close>

theorem tail_follow_by_letter:
  assumes "plain_word w" and "lower (js ''tail'') = js ''tail''"
  shows "commandStartsSuggestionSuppressingProgram lower (js ''tail '' @ w) \<longleftrightarrow> of_char CHR ''f'' \<in> set w"
proof -
  have n: "commandName lower (js ''tail'') = js ''tail''"
    using assms(2) slash_free_name [of "js ''tail''" lower] by (simp add: js_def)
  have env: "\<not> isEnvAssignment (js ''tail'')"
    by (simp add: isEnvAssignment_def isNameChar_def isNameStart_def isLetter_def js_def)
  have "unwrapCommand lower [js ''tail'', w] = [js ''tail'', w]"
    unfolding unwrapCommand_def skipEnvPrefix_def using env n by (simp add: js_def Let_def)
  then have u: "unwrapCommand lower (tokenizeShellLike (js ''tail '' @ w)) = [js ''tail'', w]"
    using tail_parts(3) [OF assms(1)] by simp
  have "commandSegmentStartsInteractiveProgram lower (js ''tail '' @ w)
      \<longleftrightarrow> hasOption [js ''tail'', w] (js ''--follow'') (Some (js ''f''))"
    unfolding commandSegmentStartsInteractiveProgram_def Let_def u using n
    by (simp add: INTERACTIVE_COMMANDS_def js_def)
  also have "\<dots> \<longleftrightarrow> of_char CHR ''f'' \<in> set w"
    by (auto simp: hasOption_def js_def has_text_single)
  finally show ?thesis
    unfolding commandStartsSuggestionSuppressingProgram_def Let_def
      tail_parts(1) [OF assms(1)] tail_parts(2) [OF assms(1)] by (simp add: js_def)
qed

theorem tail_follow_by_letter_witness:
  "commandStartsSuggestionSuppressingProgram (\<lambda>t. t) (js ''tail '' @ js ''conf.log'')
   \<and> \<not> commandStartsSuggestionSuppressingProgram (\<lambda>t. t) (js ''tail '' @ js ''app.log'')"
  using tail_follow_by_letter [of "js ''conf.log''" "\<lambda>t. t"] tail_follow_by_letter [of "js ''app.log''" "\<lambda>t. t"]
  by (simp add: plain_word_def js_def isSpace_def isQuote_def)

end
