(* ===== verification/Terminal_Input.thy ===== *)
theory Terminal_Input
  imports Terminal_Command
begin

text \<open>
  The tracker of the command line a user is typing (\<open>lib/terminalInputTracker.ts\<close>) and the
  functions that send input to sessions (\<open>lib/sessionInput.ts\<close>).

  The tracker keeps a value and a cursor and interprets the data sent to the terminal as line
  editing. It is shown to implement a line editor given by the text before the cursor, in
  reverse, and the text after it (\<open>editor\<close>), through the locale \<open>simulation\<close>.

  Sending input is a function of the state \<open>sender\<close>: the command history per session and the
  log of what was dispatched and invoked. Which back-end calls succeed is a parameter; a
  rejected call ends the function with an error. A window object exists.
\<close>

section \<open>The tracker\<close>

datatype desync_reason = TabReason | TerminalReason

record input_state =
  ti_value :: js_text
  ti_cursor :: nat
  ti_desynced :: bool
  ti_desyncReason :: "desync_reason option"
  ti_lineRewriteRequired :: bool
  ti_multiline :: bool
  ti_pasteMode :: bool

definition createTerminalInputState :: input_state where
  "createTerminalInputState = \<lparr>ti_value = [], ti_cursor = 0, ti_desynced = False, ti_desyncReason = None,
     ti_lineRewriteRequired = False, ti_multiline = False, ti_pasteMode = False\<rparr>"

definition resetState :: "bool \<Rightarrow> input_state" where
  "resetState multiline = \<lparr>ti_value = [], ti_cursor = 0, ti_desynced = False, ti_desyncReason = None,
     ti_lineRewriteRequired = False, ti_multiline = multiline, ti_pasteMode = False\<rparr>"

definition insertText :: "input_state \<Rightarrow> js_text \<Rightarrow> input_state" where
  "insertText st txt =
     (if txt = [] then st
      else (let v = take (ti_cursor st) (ti_value st) @ txt @ drop (ti_cursor st) (ti_value st) in
            st\<lparr>ti_value := v, ti_cursor := ti_cursor st + length txt, ti_multiline := list_ex isBreak v\<rparr>))"

definition deleteLeft :: "input_state \<Rightarrow> input_state" where
  "deleteLeft st =
     (if ti_cursor st = 0 then st
      else (let v = take (ti_cursor st - 1) (ti_value st) @ drop (ti_cursor st) (ti_value st) in
            st\<lparr>ti_value := v, ti_cursor := ti_cursor st - 1, ti_multiline := 10 \<in> set v\<rparr>))"

definition deleteRight :: "input_state \<Rightarrow> input_state" where
  "deleteRight st =
     (if length (ti_value st) \<le> ti_cursor st then st
      else (let v = take (ti_cursor st) (ti_value st) @ drop (ti_cursor st + 1) (ti_value st) in
            st\<lparr>ti_value := v, ti_multiline := 10 \<in> set v\<rparr>))"

text \<open>The test \<open>/\s/u.test(value[i] ?? "")\<close>, and one of the two loops of
  \<open>deletePreviousWord\<close>: step back while the test before \<open>start\<close> gives \<open>b\<close>.\<close>

definition spaceAt :: "js_text \<Rightarrow> nat \<Rightarrow> bool" where
  "spaceAt v i \<longleftrightarrow> i < length v \<and> isSpace (v ! i)"

fun backWhile :: "bool \<Rightarrow> js_text \<Rightarrow> nat \<Rightarrow> nat" where
  "backWhile b v 0 = 0"
| "backWhile b v (Suc i) = (if spaceAt v i = b then backWhile b v i else Suc i)"

definition deletePreviousWord :: "input_state \<Rightarrow> input_state" where
  "deletePreviousWord st =
     (if ti_cursor st = 0 then st
      else (let v0 = ti_value st;
                start = backWhile False v0 (backWhile True v0 (ti_cursor st));
                v = take start v0 @ drop (ti_cursor st) v0
            in st\<lparr>ti_value := v, ti_cursor := start, ti_multiline := 10 \<in> set v\<rparr>))"

definition trunc :: "rat \<Rightarrow> int" where
  "trunc x = (if x < 0 then - \<lfloor>- x\<rfloor> else \<lfloor>x\<rfloor>)"

definition deleteTerminalInputRange :: "input_state \<Rightarrow> rat \<Rightarrow> rat \<Rightarrow> input_state" where
  "deleteTerminalInputRange st startAt endAt =
     (let n = int (length (ti_value st));
          from = max 0 (min n (trunc startAt));
          upto = max from (min n (trunc endAt))
      in if upto \<le> from then st
         else (let v = take (nat from) (ti_value st) @ drop (nat upto) (ti_value st) in
               st\<lparr>ti_value := v, ti_cursor := nat from, ti_multiline := 10 \<in> set v\<rparr>))"

definition markDesynced :: "input_state \<Rightarrow> desync_reason \<Rightarrow> bool \<Rightarrow> input_state" where
  "markDesynced st reason multiline =
     st\<lparr>ti_desynced := True, ti_desyncReason := Some reason,
        ti_lineRewriteRequired := ti_lineRewriteRequired st \<or> reason = TabReason, ti_multiline := multiline\<rparr>"

definition replaceValue :: "js_text \<Rightarrow> input_state" where
  "replaceValue v = \<lparr>ti_value = v, ti_cursor = length v, ti_desynced = False, ti_desyncReason = None,
     ti_lineRewriteRequired = False, ti_multiline = 10 \<in> set v, ti_pasteMode = False\<rparr>"

text \<open>\<open>text.replace(/p/gu, "")\<close> for a fixed text p.\<close>

function removeAll :: "js_text \<Rightarrow> js_text \<Rightarrow> js_text" where
  "removeAll p [] = []"
| "removeAll p (c # cs) =
     (if p \<noteq> [] \<and> starts_with (c # cs) p then removeAll p (drop (length p) (c # cs))
      else c # removeAll p cs)"
  by pat_completeness auto
termination by (relation "measure (\<lambda>(p, t). length t)") auto

definition pasteStart :: js_text where "pasteStart = 27 # js ''[200~''"

definition pasteEnd :: js_text where "pasteEnd = 27 # js ''[201~''"

text \<open>\<open>text.replace(/\r\n|\r/gu, "\n")\<close>.\<close>

fun crToLf :: "js_text \<Rightarrow> js_text" where
  "crToLf [] = []"
| "crToLf (c # cs) =
     (if c = 13 then 10 # crToLf (if cs \<noteq> [] \<and> hd cs = 10 then tl cs else cs) else c # crToLf cs)"

definition extractPastedInputData :: "input_state \<Rightarrow> js_text \<Rightarrow> js_text \<times> bool" where
  "extractPastedInputData st data =
     (let (t, m) = (if has_text data pasteStart then (removeAll pasteStart data, True) else (data, ti_pasteMode st));
          (t, m) = (if has_text t pasteEnd then (removeAll pasteEnd t, False) else (t, m))
      in (crToLf t, m))"

definition recoverTab :: "input_state \<Rightarrow> input_state" where
  "recoverTab st =
     (if ti_desynced st \<and> ti_desyncReason st = Some TabReason
      then st\<lparr>ti_desynced := False, ti_desyncReason := None, ti_lineRewriteRequired := True\<rparr>
      else st)"

definition applyTerminalPastedInputData :: "input_state \<Rightarrow> js_text \<Rightarrow> input_state" where
  "applyTerminalPastedInputData st data =
     (let (t, m) = extractPastedInputData st data; st = st\<lparr>ti_pasteMode := m\<rparr> in
      if t = [] then st else insertText (recoverTab st) t)"

section \<open>Recovery from the terminal line\<close>

text \<open>\<open>value.replace(/\r?\n/gu, "")\<close>.\<close>

fun normalizeLineContent :: "js_text \<Rightarrow> js_text" where
  "normalizeLineContent [] = []"
| "normalizeLineContent (c # cs) =
     (if c = 10 then normalizeLineContent cs
      else if c = 13 \<and> cs \<noteq> [] \<and> hd cs = 10 then normalizeLineContent (tl cs)
      else c # normalizeLineContent cs)"

text \<open>The set of candidates, in insertion order.\<close>

definition addCandidate :: "js_text \<Rightarrow> js_text list \<Rightarrow> js_text list" where
  "addCandidate v candidates =
     (let normalized = stripTerminalCommandPrompt (normalizeLineContent v) in
      if sanitizeTerminalCommand normalized \<noteq> [] then candidates @ (if normalized \<in> set candidates then [] else [normalized])
      else candidates)"

text \<open>\<open>lastIndexOf\<close>.\<close>

fun last_index_of :: "js_text \<Rightarrow> js_text \<Rightarrow> nat option" where
  "last_index_of [] p = (if p = [] then Some 0 else None)"
| "last_index_of (c # cs) p =
     (case last_index_of cs p of Some i \<Rightarrow> Some (Suc i)
      | None \<Rightarrow> if starts_with (c # cs) p then Some 0 else None)"

definition addSuffixCandidate :: "js_text \<Rightarrow> js_text \<Rightarrow> js_text list \<Rightarrow> js_text list" where
  "addSuffixCandidate source pre candidates =
     (let src = normalizeLineContent source; pfx = normalizeLineContent pre;
          csrc = sanitizeTerminalCommand src; cpre = sanitizeTerminalCommand pfx
      in if csrc = [] \<or> cpre = [] then candidates
         else (case last_index_of csrc cpre of
                 Some i \<Rightarrow> addCandidate (drop i (stripTerminalCommandPrompt src)) candidates
               | None \<Rightarrow> candidates))"

text \<open>The body of the selection loop: the best candidate so far with its score.\<close>

definition scoreCandidate :: "js_text \<Rightarrow> js_text \<Rightarrow> (js_text \<times> nat) option \<Rightarrow> (js_text \<times> nat) option" where
  "scoreCandidate previousCommand candidate best =
     (let command = sanitizeTerminalCommand candidate;
          score = (if previousCommand \<noteq> [] \<and> starts_with command previousCommand then length command else 0)
      in if command = [] then best
         else if previousCommand \<noteq> [] \<and> score = 0 then best
         else (case best of None \<Rightarrow> Some (candidate, score)
               | Some (_, bestScore) \<Rightarrow> if score > bestScore then Some (candidate, score) else best))"

definition chooseTerminalLineCommand :: "js_text \<Rightarrow> js_text \<Rightarrow> js_text option" where
  "chooseTerminalLineCommand previousValue lineContent =
     (let previousCommand = sanitizeTerminalCommand previousValue;
          sanitizedLine = sanitizeTerminalCommand lineContent;
          candidates = addSuffixCandidate sanitizedLine previousCommand
            (addSuffixCandidate sanitizedLine previousValue
              (addSuffixCandidate lineContent previousCommand
                (addSuffixCandidate lineContent previousValue
                  (addCandidate lineContent (addCandidate sanitizedLine [])))))
      in map_option fst (fold (scoreCandidate previousCommand) candidates None))"

definition resyncFromTerminalLine :: "input_state \<Rightarrow> js_text \<Rightarrow> input_state option" where
  "resyncFromTerminalLine current lineContent =
     (case chooseTerminalLineCommand (ti_value current) lineContent of
        None \<Rightarrow> None
      | Some v \<Rightarrow> if v = [] then None
                else Some \<lparr>ti_value = v, ti_cursor = length v, ti_desynced = False, ti_desyncReason = None,
                  ti_lineRewriteRequired = False, ti_multiline = False, ti_pasteMode = False\<rparr>)"

section \<open>Applying input\<close>

definition escKey :: "string \<Rightarrow> js_text" where
  "escKey s = 27 # js s"

definition isControl :: "nat \<Rightarrow> bool" where
  "isControl c \<longleftrightarrow> c \<le> 31 \<or> c = 127"

definition applyTerminalInputData :: "input_state \<Rightarrow> js_text \<Rightarrow> input_state" where
  "applyTerminalInputData st data =
     (if data = [] then st
      else if data = [13] then resetState False
      else if data = [3] then resetState False
      else if data = [1] then st\<lparr>ti_cursor := 0\<rparr>
      else if data = [5] then st\<lparr>ti_cursor := length (ti_value st)\<rparr>
      else if data = [0x15] then
        (let v = drop (ti_cursor st) (ti_value st) in st\<lparr>ti_value := v, ti_cursor := 0, ti_multiline := 10 \<in> set v\<rparr>)
      else if data = [0x17] then deletePreviousWord st
      else if data = [0xb] then
        (let v = take (ti_cursor st) (ti_value st) in st\<lparr>ti_value := v, ti_multiline := 10 \<in> set v\<rparr>)
      else if data = [0xc] then st
      else if data = [127] \<or> data = [8] then deleteLeft st
      else if data = escKey ''[D'' \<or> data = escKey ''OD'' then st\<lparr>ti_cursor := ti_cursor st - 1\<rparr>
      else if data = escKey ''[C'' \<or> data = escKey ''OC'' then st\<lparr>ti_cursor := min (length (ti_value st)) (ti_cursor st + 1)\<rparr>
      else if data = escKey ''[H'' \<or> data = escKey ''OH'' then st\<lparr>ti_cursor := 0\<rparr>
      else if data = escKey ''[F'' \<or> data = escKey ''OF'' then st\<lparr>ti_cursor := length (ti_value st)\<rparr>
      else if data = escKey ''[3~'' then deleteRight st
      else if data = [9] then markDesynced st TabReason False
      else if ti_pasteMode st \<or> has_text data pasteStart \<or> has_text data pasteEnd
      then applyTerminalPastedInputData st data
      else if (has_text data [10] \<or> has_text data [13]) \<and> data \<noteq> [13] then applyTerminalPastedInputData st data
      else if starts_with data [27] then markDesynced st TerminalReason False
      else if list_ex isControl data then markDesynced st TerminalReason False
      else insertText (recoverTab st) data)"

datatype preview = PreviewData js_text | PreviewReplace js_text | PreviewReplaceAndExecute js_text | PreviewReset

definition applyTerminalInputPreview :: "input_state \<Rightarrow> preview \<Rightarrow> input_state" where
  "applyTerminalInputPreview st p =
     (case p of PreviewData d \<Rightarrow> applyTerminalInputData st d
      | PreviewReplace v \<Rightarrow> replaceValue v
      | PreviewReplaceAndExecute v \<Rightarrow> resetState False
      | PreviewReset \<Rightarrow> resetState False)"

definition getTrackedCommand :: "input_state \<Rightarrow> js_text" where
  "getTrackedCommand st = (if ti_desynced st \<or> ti_multiline st then [] else sanitizeTerminalCommand (ti_value st))"

definition canRegisterCommandFromTracker :: "input_state \<Rightarrow> bool" where
  "canRegisterCommandFromTracker st \<longleftrightarrow> \<not> ti_desynced st \<and> \<not> ti_multiline st \<and> \<not> ti_lineRewriteRequired st"

definition getTrackedSubmissionCommand :: "input_state \<Rightarrow> js_text" where
  "getTrackedSubmissionCommand st =
     (if \<not> canRegisterCommandFromTracker st then [] else sanitizeTerminalCommand (ti_value st))"

definition canSuggestFromTracker :: "input_state \<Rightarrow> bool" where
  "canSuggestFromTracker st \<longleftrightarrow> \<not> ti_desynced st \<and> \<not> ti_multiline st
     \<and> ti_cursor st = length (ti_value st) \<and> length (getTrackedCommand st) > 0"

section \<open>The line editor it implements\<close>

datatype sync = Synced | AfterTab | Lost

record editor =
  ed_left :: js_text
  ed_right :: js_text
  ed_sync :: sync
  ed_rewrite :: bool
  ed_paste :: bool

datatype key = KNone | KSubmit | KHome | KEnd | KKillLeft | KKillWord | KKillRight | KBackspace | KLeft | KRight
  | KDelete | KTab | KPaste "js_text \<times> bool" | KUnknown | KText js_text

definition emptyEditor :: editor where
  "emptyEditor = \<lparr>ed_left = [], ed_right = [], ed_sync = Synced, ed_rewrite = False, ed_paste = False\<rparr>"

definition keyTable :: "(js_text \<times> key) list" where
  "keyTable = [([], KNone), ([13], KSubmit), ([3], KSubmit), ([1], KHome), ([5], KEnd), ([0x15], KKillLeft),
     ([0x17], KKillWord), ([0xb], KKillRight), ([0xc], KNone), ([127], KBackspace), ([8], KBackspace),
     (escKey ''[D'', KLeft), (escKey ''OD'', KLeft), (escKey ''[C'', KRight), (escKey ''OC'', KRight),
     (escKey ''[H'', KHome), (escKey ''OH'', KHome), (escKey ''[F'', KEnd), (escKey ''OF'', KEnd),
     (escKey ''[3~'', KDelete), ([9], KTab)]"

definition pastedText :: "bool \<Rightarrow> js_text \<Rightarrow> js_text \<times> bool" where
  "pastedText paste data =
     (let opened = removeAll pasteStart data; paste = (paste \<or> has_text data pasteStart);
          closed = removeAll pasteEnd opened
      in (crToLf closed, paste \<and> \<not> has_text opened pasteEnd))"

definition decodeKey :: "bool \<Rightarrow> js_text \<Rightarrow> key" where
  "decodeKey paste data =
     (case map_of keyTable data of Some k \<Rightarrow> k
      | None \<Rightarrow>
          if paste \<or> has_text data pasteStart \<or> has_text data pasteEnd \<or> list_ex isBreak data
          then KPaste (pastedText paste data)
          else if list_ex isControl data then KUnknown
          else KText data)"

definition typeText :: "js_text \<Rightarrow> editor \<Rightarrow> editor" where
  "typeText t e =
     (if t = [] then e
      else e\<lparr>ed_left := rev t @ ed_left e,
             ed_sync := (if ed_sync e = AfterTab then Synced else ed_sync e),
             ed_rewrite := ed_rewrite e \<or> ed_sync e = AfterTab\<rparr>)"

fun edit :: "key \<Rightarrow> editor \<Rightarrow> editor" where
  "edit KNone e = e"
| "edit KSubmit e = emptyEditor"
| "edit KHome e = e\<lparr>ed_left := [], ed_right := rev (ed_left e) @ ed_right e\<rparr>"
| "edit KEnd e = e\<lparr>ed_left := rev (ed_right e) @ ed_left e, ed_right := []\<rparr>"
| "edit KKillLeft e = e\<lparr>ed_left := []\<rparr>"
| "edit KKillRight e = e\<lparr>ed_right := []\<rparr>"
| "edit KKillWord e = e\<lparr>ed_left := dropWhile (\<lambda>c. \<not> isSpace c) (dropWhile isSpace (ed_left e))\<rparr>"
| "edit KBackspace e = e\<lparr>ed_left := tl (ed_left e)\<rparr>"
| "edit KDelete e = e\<lparr>ed_right := tl (ed_right e)\<rparr>"
| "edit KLeft e = (case ed_left e of [] \<Rightarrow> e | c # cs \<Rightarrow> e\<lparr>ed_left := cs, ed_right := c # ed_right e\<rparr>)"
| "edit KRight e = (case ed_right e of [] \<Rightarrow> e | c # cs \<Rightarrow> e\<lparr>ed_left := c # ed_left e, ed_right := cs\<rparr>)"
| "edit KTab e = e\<lparr>ed_sync := AfterTab, ed_rewrite := True\<rparr>"
| "edit KUnknown e = e\<lparr>ed_sync := Lost\<rparr>"
| "edit (KPaste (t, paste)) e = typeText t (e\<lparr>ed_paste := paste\<rparr>)"
| "edit (KText t) e = typeText t e"

definition editPreview :: "preview \<Rightarrow> editor \<Rightarrow> editor" where
  "editPreview p e =
     (case p of PreviewData d \<Rightarrow> edit (decodeKey (ed_paste e) d) e
      | PreviewReplace v \<Rightarrow> emptyEditor\<lparr>ed_left := rev v\<rparr>
      | _ \<Rightarrow> emptyEditor)"

definition ed_text :: "editor \<Rightarrow> js_text" where
  "ed_text e = rev (ed_left e) @ ed_right e"

definition editor_of :: "input_state \<Rightarrow> editor" where
  "editor_of st = \<lparr>ed_left = rev (take (ti_cursor st) (ti_value st)), ed_right = drop (ti_cursor st) (ti_value st),
     ed_sync = (if \<not> ti_desynced st then Synced else if ti_desyncReason st = Some TabReason then AfterTab else Lost),
     ed_rewrite = ti_lineRewriteRequired st, ed_paste = ti_pasteMode st\<rparr>"

definition input_inv :: "input_state \<Rightarrow> bool" where
  "input_inv st \<longleftrightarrow> ti_cursor st \<le> length (ti_value st) \<and> ti_desynced st = (ti_desyncReason st \<noteq> None)
     \<and> 13 \<notin> set (ti_value st) \<and> (\<not> ti_desynced st \<longrightarrow> ti_multiline st = (10 \<in> set (ti_value st)))"

fun preview_ok :: "preview \<Rightarrow> bool" where
  "preview_ok (PreviewReplace v) \<longleftrightarrow> 13 \<notin> set v"
| "preview_ok _ \<longleftrightarrow> True"

lemmas input_defs = input_inv_def editor_of_def emptyEditor_def

lemma backWhile_rev:
  "n \<le> length v \<Longrightarrow> backWhile b v n \<le> n
     \<and> rev (take (backWhile b v n) v) = dropWhile (\<lambda>c. isSpace c = b) (rev (take n v))"
proof (induction n)
  case (Suc n)
  then show ?case by (auto simp: spaceAt_def take_Suc_conv_app_nth)
qed simp

lemma removeAll_absent: "\<not> has_text t p \<Longrightarrow> removeAll p t = t"
proof (induction p t rule: removeAll.induct)
  case (2 p c cs)
  then have "\<not> starts_with (c # cs) p" "\<not> has_text cs p"
    by (auto simp: has_text_def split: if_splits)
  with 2 show ?case by simp
qed simp

lemma crToLf_no_cr: "13 \<notin> set (crToLf t)"
  by (induction t rule: crToLf.induct) auto

lemma extract_pasted: "extractPastedInputData st data = pastedText (ti_pasteMode st) data"
  by (simp add: extractPastedInputData_def pastedText_def Let_def removeAll_absent)

lemma insert_recover:
  assumes "input_inv st" "13 \<notin> set t" "t \<noteq> []"
  shows "input_inv (insertText (recoverTab st) t) \<and> editor_of (insertText (recoverTab st) t) = typeText t (editor_of st)"
proof -
  have "list_ex isBreak (take (ti_cursor st) (ti_value st) @ t @ drop (ti_cursor st) (ti_value st))
      \<longleftrightarrow> 10 \<in> set (take (ti_cursor st) (ti_value st) @ t @ drop (ti_cursor st) (ti_value st))"
    using assms by (auto simp: list_ex_iff isBreak_def input_inv_def dest: in_set_takeD in_set_dropD)
  with assms show ?thesis
    by (auto simp: input_defs insertText_def recoverTab_def typeText_def Let_def dest: in_set_takeD in_set_dropD)
qed

lemma paste_step:
  assumes "input_inv st"
  shows "input_inv (applyTerminalPastedInputData st data)
    \<and> editor_of (applyTerminalPastedInputData st data) = edit (KPaste (pastedText (ti_pasteMode st) data)) (editor_of st)"
proof -
  obtain t m where tm: "pastedText (ti_pasteMode st) data = (t, m)" by fastforce
  then have cr: "13 \<notin> set t" by (auto simp: pastedText_def Let_def crToLf_no_cr)
  have i: "input_inv (st\<lparr>ti_pasteMode := m\<rparr>)" and e: "editor_of (st\<lparr>ti_pasteMode := m\<rparr>) = (editor_of st)\<lparr>ed_paste := m\<rparr>"
    using assms by (auto simp: input_defs)
  show ?thesis
    using insert_recover [OF i cr] i e
    by (auto simp: applyTerminalPastedInputData_def extract_pasted tm typeText_def Let_def)
qed

lemma delete_left_step:
  assumes "input_inv st"
  shows "input_inv (deleteLeft st) \<and> editor_of (deleteLeft st) = edit KBackspace (editor_of st)"
proof (cases "ti_cursor st")
  case 0
  with assms show ?thesis by (simp add: deleteLeft_def input_defs)
next
  case (Suc n)
  have "rev (take (Suc n) (ti_value st)) = ti_value st ! n # rev (take n (ti_value st))"
    using assms Suc by (simp add: input_inv_def take_Suc_conv_app_nth)
  with assms Suc show ?thesis
    by (auto simp: deleteLeft_def input_defs Let_def dest: in_set_takeD in_set_dropD)
qed

lemma delete_right_step:
  assumes "input_inv st"
  shows "input_inv (deleteRight st) \<and> editor_of (deleteRight st) = edit KDelete (editor_of st)"
  using assms by (auto simp: deleteRight_def input_defs Let_def tl_drop drop_Suc [symmetric] dest: in_set_takeD in_set_dropD)

lemma kill_word_step:
  assumes "input_inv st"
  shows "input_inv (deletePreviousWord st) \<and> editor_of (deletePreviousWord st) = edit KKillWord (editor_of st)"
proof -
  let ?v = "ti_value st" and ?n = "ti_cursor st"
  define a where "a = backWhile True ?v ?n"
  define b where "b = backWhile False ?v a"
  have n: "?n \<le> length ?v" using assms by (simp add: input_inv_def)
  have a: "a \<le> ?n" "rev (take a ?v) = dropWhile isSpace (rev (take ?n ?v))"
    using backWhile_rev [OF n, of True] by (auto simp: a_def)
  have b: "b \<le> a" "rev (take b ?v) = dropWhile (\<lambda>c. \<not> isSpace c) (rev (take a ?v))"
    using backWhile_rev [of a ?v False] a(1) n by (auto simp: b_def)
  have bl: "min (length ?v) b = b" using a(1) b(1) n by simp
  have "input_inv (st\<lparr>ti_value := take b ?v @ drop ?n ?v, ti_cursor := b, ti_multiline := 10 \<in> set (take b ?v @ drop ?n ?v)\<rparr>)"
    using assms bl by (auto simp: input_inv_def dest: in_set_takeD in_set_dropD)
  moreover have "editor_of (st\<lparr>ti_value := take b ?v @ drop ?n ?v, ti_cursor := b, ti_multiline := 10 \<in> set (take b ?v @ drop ?n ?v)\<rparr>)
      = edit KKillWord (editor_of st)"
    using bl a b by (simp add: editor_of_def)
  moreover have "?n = 0 \<Longrightarrow> edit KKillWord (editor_of st) = editor_of st"
    by (simp add: editor_of_def)
  ultimately show ?thesis
    using assms by (auto simp: deletePreviousWord_def Let_def a_def [symmetric] b_def [symmetric])
qed

lemma move_left_step:
  assumes "input_inv st"
  shows "editor_of (st\<lparr>ti_cursor := ti_cursor st - 1\<rparr>) = edit KLeft (editor_of st)"
proof (cases "ti_cursor st")
  case (Suc n)
  have "rev (take (Suc n) (ti_value st)) = ti_value st ! n # rev (take n (ti_value st))"
    "drop n (ti_value st) = ti_value st ! n # drop (Suc n) (ti_value st)"
    using assms Suc by (simp_all add: input_inv_def take_Suc_conv_app_nth Cons_nth_drop_Suc)
  with Suc show ?thesis by (simp add: editor_of_def)
qed (simp add: editor_of_def)

lemma move_right_step:
  assumes "input_inv st"
  shows "editor_of (st\<lparr>ti_cursor := min (length (ti_value st)) (ti_cursor st + 1)\<rparr>) = edit KRight (editor_of st)"
proof (cases "ti_cursor st < length (ti_value st)")
  case True
  then have "drop (ti_cursor st) (ti_value st) = ti_value st ! ti_cursor st # drop (Suc (ti_cursor st)) (ti_value st)"
    by (simp add: Cons_nth_drop_Suc)
  with True show ?thesis by (simp add: editor_of_def take_Suc_conv_app_nth)
next
  case False
  with assms show ?thesis by (simp add: editor_of_def input_inv_def)
qed

lemma keep_inv:
  assumes "input_inv st"
  shows "n \<le> length (ti_value st) \<Longrightarrow> input_inv (st\<lparr>ti_cursor := n\<rparr>)"
    "input_inv (markDesynced st r m)" "input_inv (resetState False)"
  using assms by (auto simp: input_inv_def markDesynced_def resetState_def)

lemma kill_steps:
  assumes "input_inv st"
  shows "input_inv (st\<lparr>ti_value := drop (ti_cursor st) (ti_value st), ti_cursor := 0, ti_multiline := 10 \<in> set (drop (ti_cursor st) (ti_value st))\<rparr>)"
    "input_inv (st\<lparr>ti_value := take (ti_cursor st) (ti_value st), ti_multiline := 10 \<in> set (take (ti_cursor st) (ti_value st))\<rparr>)"
  using assms by (auto simp: input_inv_def dest: in_set_takeD in_set_dropD)

lemma has_char: "has_text d [c] \<longleftrightarrow> c \<in> set d"
  by (rule has_text_single)

text \<open>The inputs that are not single keys.\<close>

lemma text_step:
  assumes "input_inv st" and "map_of keyTable data = None"
  shows "input_inv (applyTerminalInputData st data)
    \<and> editor_of (applyTerminalInputData st data) = edit (decodeKey (ti_pasteMode st) data) (editor_of st)"
proof -
  have k: "data \<noteq> k" if "k \<in> set (map fst keyTable)" for k
    using assms(2) that by (auto simp: map_of_eq_None_iff)
  have brk: "list_ex isBreak data \<longleftrightarrow> has_text data [10] \<or> has_text data [13]"
    by (auto simp: list_ex_iff isBreak_def has_char)
  have ctl: "starts_with data [27] \<Longrightarrow> list_ex isControl data"
    by (cases data) (auto simp: starts_with_def isControl_def)
  have cr: "\<not> list_ex isControl data \<Longrightarrow> 13 \<notin> set data"
    by (auto simp: list_ex_iff isControl_def)
  have a: "applyTerminalInputData st data =
     (if ti_pasteMode st \<or> has_text data pasteStart \<or> has_text data pasteEnd \<or> list_ex isBreak data
      then applyTerminalPastedInputData st data
      else if list_ex isControl data then markDesynced st TerminalReason False
      else insertText (recoverTab st) data)"
    unfolding applyTerminalInputData_def brk using k ctl by (simp add: keyTable_def)
  have ne: "data \<noteq> []" using k by (simp add: keyTable_def)
  have m: "editor_of (markDesynced st TerminalReason False) = edit KUnknown (editor_of st)"
    by (simp add: editor_of_def markDesynced_def)
  show ?thesis
    unfolding a decodeKey_def assms(2)
    using paste_step [OF assms(1), of data] insert_recover [OF assms(1) cr ne] m keep_inv(2) [OF assms(1)] by simp
qed

lemma key_step:
  assumes "input_inv st" and "map_of keyTable data = Some k"
  shows "input_inv (applyTerminalInputData st data) \<and> editor_of (applyTerminalInputData st data) = edit k (editor_of st)"
proof -
  note steps = delete_left_step [OF assms(1)] delete_right_step [OF assms(1)] kill_word_step [OF assms(1)]
    move_left_step [OF assms(1)] move_right_step [OF assms(1)] keep_inv [OF assms(1)] kill_steps [OF assms(1)]
  have cur: "ti_cursor st - 1 \<le> length (ti_value st)" using assms(1) unfolding input_inv_def by linarith
  have others: "editor_of (markDesynced st TabReason False) = edit KTab (editor_of st)"
    "editor_of (resetState False) = edit KSubmit (editor_of st)"
    "editor_of (st\<lparr>ti_cursor := 0\<rparr>) = edit KHome (editor_of st)"
    "editor_of (st\<lparr>ti_cursor := length (ti_value st)\<rparr>) = edit KEnd (editor_of st)"
    by (simp_all add: editor_of_def markDesynced_def resetState_def emptyEditor_def rev_append [symmetric])
  have kills: "editor_of (st\<lparr>ti_value := drop (ti_cursor st) (ti_value st), ti_cursor := 0, ti_multiline := m\<rparr>) = edit KKillLeft (editor_of st)"
    "editor_of (st\<lparr>ti_value := take (ti_cursor st) (ti_value st), ti_multiline := m\<rparr>) = edit KKillRight (editor_of st)" for m
    by (simp_all add: editor_of_def)
  have mem: "(data, k) \<in> set keyTable" using assms(2) by (rule map_of_SomeD)
  have "data = [] \<and> k = KNone \<or> data = [13] \<and> k = KSubmit \<or> data = [3] \<and> k = KSubmit \<or> data = [1] \<and> k = KHome
    \<or> data = [5] \<and> k = KEnd \<or> data = [0x15] \<and> k = KKillLeft \<or> data = [0x17] \<and> k = KKillWord
    \<or> data = [0xb] \<and> k = KKillRight \<or> data = [0xc] \<and> k = KNone \<or> (data = [127] \<or> data = [8]) \<and> k = KBackspace
    \<or> (data = escKey ''[D'' \<or> data = escKey ''OD'') \<and> k = KLeft \<or> (data = escKey ''[C'' \<or> data = escKey ''OC'') \<and> k = KRight
    \<or> (data = escKey ''[H'' \<or> data = escKey ''OH'') \<and> k = KHome \<or> (data = escKey ''[F'' \<or> data = escKey ''OF'') \<and> k = KEnd
    \<or> data = escKey ''[3~'' \<and> k = KDelete \<or> data = [9] \<and> k = KTab"
    using mem by (auto simp: keyTable_def)
  then show ?thesis
    apply (elim disjE conjE)
    apply (simp_all add: applyTerminalInputData_def escKey_def js_def Let_def del: edit.simps)
    using steps others kills cur assms(1) by (simp_all del: edit.simps add: edit.simps(1))
qed

interpretation tracker: simulation "\<lambda>p st. applyTerminalInputPreview st p" editPreview editor_of input_inv preview_ok
proof
  fix st p
  assume inv: "input_inv st" and ok: "preview_ok p"
  have "input_inv (applyTerminalInputPreview st p) \<and> editor_of (applyTerminalInputPreview st p) = editPreview p (editor_of st)"
  proof (cases p)
    case (PreviewData d)
    have "ed_paste (editor_of st) = ti_pasteMode st" by (simp add: editor_of_def)
    moreover have "decodeKey (ti_pasteMode st) d = k" if "map_of keyTable d = Some k" for k
      using that by (simp add: decodeKey_def)
    ultimately show ?thesis
      using PreviewData text_step [OF inv, of d] key_step [OF inv, of d]
      by (cases "map_of keyTable d") (auto simp: applyTerminalInputPreview_def editPreview_def)
  qed (use ok in \<open>auto simp: applyTerminalInputPreview_def editPreview_def replaceValue_def resetState_def input_defs\<close>)
  then show "input_inv (applyTerminalInputPreview st p)"
    and "editor_of (applyTerminalInputPreview st p) = editPreview p (editor_of st)" by auto
qed

lemma create_ok: "input_inv createTerminalInputState" "editor_of createTerminalInputState = emptyEditor"
  by (simp_all add: createTerminalInputState_def input_defs)

lemma editor_of_parts:
  assumes "input_inv st"
  shows "ed_text (editor_of st) = ti_value st" "length (ed_left (editor_of st)) = ti_cursor st"
    "ed_sync (editor_of st) = Synced \<longleftrightarrow> \<not> ti_desynced st" "ed_rewrite (editor_of st) = ti_lineRewriteRequired st"
    "ed_right (editor_of st) = [] \<longleftrightarrow> ti_cursor st = length (ti_value st)"
  using assms by (auto simp: editor_of_def ed_text_def input_inv_def)

definition ed_command :: "editor \<Rightarrow> js_text" where
  "ed_command e = (if ed_sync e = Synced \<and> 10 \<notin> set (ed_text e) then sanitizeTerminalCommand (ed_text e) else [])"

lemma tracked_command: "input_inv st \<Longrightarrow> getTrackedCommand st = ed_command (editor_of st)"
  by (auto simp: getTrackedCommand_def ed_command_def editor_of_parts input_inv_def)

text \<open>C4: the input tracker implements the line editor. After any sequence of input previews, with
  no carriage return in a replacement, the tracked value and cursor are the text and the
  position of a line editor that keeps the text on both sides of the cursor; the tracked
  command is the editor's one-line text when nothing unknown happened since the last known
  state; a command is registered only if moreover no completion was left in the line; and
  suggestions are offered only with the cursor at the end of a non-empty command.\<close>

theorem tracker_refines_editor:
  assumes "\<forall>p \<in> set ps. preview_ok p"
    and "st = fold (\<lambda>p st. applyTerminalInputPreview st p) ps createTerminalInputState"
    and "e = fold editPreview ps emptyEditor"
  shows "ti_value st = rev (ed_left e) @ ed_right e \<and> ti_cursor st = length (ed_left e)
    \<and> getTrackedCommand st = ed_command e
    \<and> getTrackedSubmissionCommand st = (if ed_rewrite e then [] else ed_command e)
    \<and> (canSuggestFromTracker st \<longleftrightarrow> ed_right e = [] \<and> ed_command e \<noteq> [])"
proof -
  have inv: "input_inv st" and e: "editor_of st = e"
    using tracker.run_inv [OF create_ok(1) assms(1)] tracker.run_abs [OF create_ok(1) assms(1)] assms(2,3)
    by (simp_all add: create_ok(2))
  have cmd: "getTrackedCommand st = ed_command e" using tracked_command [OF inv] e by simp
  have sub: "getTrackedSubmissionCommand st = (if ed_rewrite e then [] else getTrackedCommand st)"
    using editor_of_parts(4) [OF inv] e
    by (auto simp: getTrackedSubmissionCommand_def canRegisterCommandFromTracker_def getTrackedCommand_def)
  have "canSuggestFromTracker st \<longleftrightarrow> ed_right e = [] \<and> getTrackedCommand st \<noteq> []"
    using editor_of_parts(5) [OF inv] e by (auto simp: canSuggestFromTracker_def getTrackedCommand_def)
  with cmd sub editor_of_parts(1,2) [OF inv] e show ?thesis by (simp add: ed_text_def)
qed

theorem tracker_refines_editor_witness:
  "let st = fold (\<lambda>p st. applyTerminalInputPreview st p)
       [PreviewData (js ''lx''), PreviewData [127], PreviewData (js ''s''), PreviewData (escKey ''[D'')] createTerminalInputState;
     e = fold editPreview [PreviewData (js ''lx''), PreviewData [127], PreviewData (js ''s''), PreviewData (escKey ''[D'')] emptyEditor
   in getTrackedCommand st = ed_command e \<and> ed_left e = js ''l'' \<and> ti_value st = js ''ls'' \<and> \<not> canSuggestFromTracker st"
proof -
  let ?ps = "[PreviewData (js ''lx''), PreviewData [127], PreviewData (js ''s''), PreviewData (escKey ''[D'')]"
  have e: "fold editPreview ?ps emptyEditor
      = \<lparr>ed_left = js ''l'', ed_right = js ''s'', ed_sync = Synced, ed_rewrite = False, ed_paste = False\<rparr>"
    by (simp add: editPreview_def emptyEditor_def decodeKey_def keyTable_def escKey_def js_def has_text_def starts_with_def
        pasteStart_def pasteEnd_def isBreak_def isControl_def typeText_def)
  have "\<forall>p \<in> set ?ps. preview_ok p" by simp
  from tracker_refines_editor [OF this refl refl] show ?thesis
    unfolding e Let_def by (simp add: js_def)
qed

section \<open>Deleting a selection\<close>

lemma delete_range_cases:
  obtains "deleteTerminalInputRange st x y = st"
  | f u where "f < u" "u \<le> length (ti_value st)"
      "deleteTerminalInputRange st x y = st\<lparr>ti_value := take f (ti_value st) @ drop u (ti_value st), ti_cursor := f,
         ti_multiline := 10 \<in> set (take f (ti_value st) @ drop u (ti_value st))\<rparr>"
proof -
  define n where "n = int (length (ti_value st))"
  define f where "f = max 0 (min n (trunc x))"
  define u where "u = max f (min n (trunc y))"
  have r: "deleteTerminalInputRange st x y = (if u \<le> f then st
      else st\<lparr>ti_value := take (nat f) (ti_value st) @ drop (nat u) (ti_value st), ti_cursor := nat f,
         ti_multiline := 10 \<in> set (take (nat f) (ti_value st) @ drop (nat u) (ti_value st))\<rparr>)"
    by (simp only: deleteTerminalInputRange_def Let_def n_def f_def u_def)
  have "0 \<le> f" "f \<le> n" "u \<le> n" by (auto simp: f_def u_def n_def)
  then show thesis using that(1) that(2) [of "nat f" "nat u"] r n_def by (cases "u \<le> f") auto
qed

text \<open>deleting a range keeps the tracker well formed and removes exactly the units from the
  first to the second bound, both truncated to integers and clamped to the value; the cursor
  ends where the range began. An empty range changes nothing.\<close>

theorem delete_range_exact:
  assumes "input_inv st" and "0 \<le> a" and "a \<le> b" and "b \<le> length (ti_value st)"
  shows "input_inv (deleteTerminalInputRange st x y)
    \<and> length (ti_value (deleteTerminalInputRange st x y)) \<le> length (ti_value st)
    \<and> ti_value (deleteTerminalInputRange st (of_nat a) (of_nat b)) = take a (ti_value st) @ drop b (ti_value st)
    \<and> (a < b \<longrightarrow> ti_cursor (deleteTerminalInputRange st (of_nat a) (of_nat b)) = a)"
proof -
  have tr: "trunc (of_nat n) = int n" for n by (simp add: trunc_def)
  have "input_inv (deleteTerminalInputRange st x y)
      \<and> length (ti_value (deleteTerminalInputRange st x y)) \<le> length (ti_value st)"
    by (rule delete_range_cases [where st = st and x = x and y = y])
       (use assms(1) in \<open>auto simp: input_inv_def dest: in_set_takeD in_set_dropD\<close>)
  moreover have "ti_value (deleteTerminalInputRange st (of_nat a) (of_nat b)) = take a (ti_value st) @ drop b (ti_value st)
      \<and> (a < b \<longrightarrow> ti_cursor (deleteTerminalInputRange st (of_nat a) (of_nat b)) = a)"
    using assms by (auto simp: deleteTerminalInputRange_def Let_def tr)
  ultimately show ?thesis by blast
qed

theorem delete_range_exact_witness:
  "ti_value (deleteTerminalInputRange (replaceValue (js ''abcd'')) (of_nat 1) (of_nat 3)) = js ''ad''"
  using delete_range_exact [of "replaceValue (js ''abcd'')" 1 3]
  by (simp add: replaceValue_def input_inv_def js_def)

section \<open>Recovering a completed line\<close>

lemma normalizeLine_id: "10 \<notin> set t \<Longrightarrow> normalizeLineContent t = t"
proof (induction t rule: normalizeLineContent.induct)
  case (2 c cs)
  then show ?case by (cases cs) auto
qed simp

lemma trim_set: "set (trim t) \<subseteq> set t"
  by (auto simp: trim_def trimStart_def trimEnd_def dest!: set_dropWhileD)

lemma best_first:
  assumes "\<forall>c \<in> set cs. length (sanitizeTerminalCommand c) \<le> n"
  shows "fold (scoreCandidate q) cs (Some (v, n)) = Some (v, n)"
  using assms by (induction cs) (auto simp: scoreCandidate_def Let_def)

text \<open>Candidates with a bounded command, and the operations that add them.\<close>

definition cand_ok :: "js_text \<Rightarrow> nat \<Rightarrow> js_text list \<Rightarrow> bool" where
  "cand_ok v n cs \<longleftrightarrow> cs \<noteq> [] \<and> hd cs = v \<and> (\<forall>c \<in> set cs. length (sanitizeTerminalCommand c) \<le> n)"

lemma cand_add:
  assumes "cand_ok v n cs" and "length (sanitizeTerminalCommand (normalizeLineContent w)) \<le> n"
  shows "cand_ok v n (addCandidate w cs)"
proof -
  have "length (sanitizeTerminalCommand (stripTerminalCommandPrompt (normalizeLineContent w))) \<le> n"
    using sanitize_length [of "stripTerminalCommandPrompt (normalizeLineContent w)"] assms(2)
    by (simp add: sanitizeTerminalCommand_def)
  with assms(1) show ?thesis by (auto simp: cand_ok_def addCandidate_def Let_def)
qed

lemma cand_suffix:
  assumes "cand_ok v n cs" and "10 \<notin> set source" and "length (sanitizeTerminalCommand source) \<le> n"
  shows "cand_ok v n (addSuffixCandidate source pre cs)"
proof -
  have s: "normalizeLineContent source = source" using assms(2) by (rule normalizeLine_id)
  have "cand_ok v n (addCandidate (drop i (stripTerminalCommandPrompt source)) cs)" for i
  proof (rule cand_add [OF assms(1)])
    let ?d = "drop i (stripTerminalCommandPrompt source)"
    have "set ?d \<subseteq> set source" using strip_suffix suffix_drop suffix_order.trans set_mono_suffix by metis
    then have d: "normalizeLineContent ?d = ?d" using assms(2) by (intro normalizeLine_id) auto
    have "length (trim ?d) \<le> length (trim (stripTerminalCommandPrompt source))"
      by (intro trim_suffix_length suffix_drop)
    then show "length (sanitizeTerminalCommand (normalizeLineContent ?d)) \<le> n"
      using d sanitize_length [of ?d] assms(3) by (simp add: sanitizeTerminalCommand_def)
  qed
  with assms(1) show ?thesis by (auto simp: addSuffixCandidate_def Let_def s split: option.splits)
qed

lemma choose_line:
  assumes line: "sanitizeTerminalCommand line = c" "10 \<notin> set line" and c: "stripTerminalCommandPrompt c = c"
    and q: "sanitizeTerminalCommand prev = q" "q \<noteq> []" "starts_with c q"
  shows "chooseTerminalLineCommand prev line = Some c"
proof -
  have cne: "c \<noteq> []" using q(2,3) by (auto simp: starts_with_def)
  have cc: "sanitizeTerminalCommand c = c" using line(1) c by (auto simp: sanitizeTerminalCommand_def)
  have "set c \<subseteq> set line"
    using line(1) trim_set strip_suffix set_mono_suffix by (metis sanitizeTerminalCommand_def subset_trans)
  then have nc: "10 \<notin> set c" using line(2) by auto
  have len: "length (sanitizeTerminalCommand c) \<le> length c" "length (sanitizeTerminalCommand line) \<le> length c"
    using cc line(1) by auto
  have "addCandidate c [] = [c]" using cne c cc by (simp add: addCandidate_def normalizeLine_id [OF nc])
  then have "cand_ok c (length c) (addCandidate c [])" using len by (simp add: cand_ok_def)
  then have "cand_ok c (length c) (addCandidate line (addCandidate c []))"
    by (rule cand_add) (simp add: normalizeLine_id [OF line(2)] line(1))
  then have "cand_ok c (length c) (addSuffixCandidate c q (addSuffixCandidate c prev (addSuffixCandidate line q
      (addSuffixCandidate line prev (addCandidate line (addCandidate c []))))))"
    by (intro cand_suffix nc line(2) len)
  then obtain cs where cs: "addSuffixCandidate c q (addSuffixCandidate c prev (addSuffixCandidate line q
      (addSuffixCandidate line prev (addCandidate line (addCandidate c []))))) = c # cs"
    "\<forall>x \<in> set cs. length (sanitizeTerminalCommand x) \<le> length c"
    unfolding cand_ok_def by (metis list.collapse list.set_intros(2))
  have "scoreCandidate q c None = Some (c, length c)"
    using q cc cne by (simp add: scoreCandidate_def Let_def)
  then show ?thesis
    unfolding chooseTerminalLineCommand_def Let_def line(1) q(1) cs(1) using best_first [OF cs(2)] by simp
qed

text \<open>after a completion by the shell the tracker recovers the whole command. When the terminal
  line is a supported prompt followed by a command that extends the one tracked so far and does
  not itself look like a prompt, the tracker takes over exactly that command, is synchronized
  again with the cursor at its end, and may suggest and register it.\<close>

theorem resync_recovers_command:
  assumes "prompt_ok p" and "\<forall>e \<in> set envs. env_ok e" and "\<forall>c \<in> set sp. isSpace c"
    and "line = sp @ env_text envs @ p @ 32 # cmd" and "10 \<notin> set line"
    and "stripTerminalCommandPrompt (trim cmd) = trim cmd"
    and "sanitizeTerminalCommand (ti_value st) \<noteq> []"
    and "starts_with (trim cmd) (sanitizeTerminalCommand (ti_value st))"
  shows "\<exists>st'. resyncFromTerminalLine st line = Some st' \<and> ti_value st' = trim cmd
    \<and> getTrackedCommand st' = trim cmd \<and> getTrackedSubmissionCommand st' = trim cmd
    \<and> canSuggestFromTracker st' \<and> ti_cursor st' \<le> length (ti_value st')"
proof -
  have s: "sanitizeTerminalCommand line = trim cmd"
    unfolding assms(4) sanitizeTerminalCommand_def strip_line [OF assms(1-3)] by simp
  have "chooseTerminalLineCommand (ti_value st) line = Some (trim cmd)"
    by (rule choose_line [OF s assms(5,6) refl assms(7,8)])
  moreover have "trim cmd \<noteq> []" using assms(7,8) by (auto simp: starts_with_def)
  moreover have "sanitizeTerminalCommand (trim cmd) = trim cmd" using assms(6) by (simp add: sanitizeTerminalCommand_def)
  ultimately show ?thesis
    by (simp add: resyncFromTerminalLine_def getTrackedCommand_def getTrackedSubmissionCommand_def
        canRegisterCommandFromTracker_def canSuggestFromTracker_def)
qed

theorem resync_recovers_command_witness:
  "\<exists>st'. resyncFromTerminalLine (replaceValue (js ''ls'')) (env_text [] @ bracket_prompt (js ''u'') 36 @ 32 # js ''ls src'') = Some st'
     \<and> ti_value st' = js ''ls src''"
proof -
  have p: "prompt_ok (bracket_prompt (js ''u'') 36)"
    unfolding prompt_ok_def
    by (intro disjI1 exI [of _ "js ''u''"] exI [of _ 36]) (simp add: js_def isPromptEnd_def isBreak_def)
  have san: "sanitizeTerminalCommand (js ''ls'') = js ''ls''" "trim (js ''ls src'') = js ''ls src''"
    "stripTerminalCommandPrompt (js ''ls src'') = js ''ls src''"
    by (simp_all add: sanitizeTerminalCommand_def stripTerminalCommandPrompt_def stripLeadingEnvPrefixes.simps
        matchEnvPrefix_def stripKnownPromptPrefix_def matchBracketPrompt_def matchPosixPrompt_def afterRun_def
        matchPowershellPrompt_def matchWindowsPrompt_def starts_with_def js_def isSpace_def isLetter_def
        trim_def trimStart_def trimEnd_def)
  show ?thesis
    using resync_recovers_command [OF p, of "[]" "[]" "env_text [] @ bracket_prompt (js ''u'') 36 @ 32 # js ''ls src''"
        "js ''ls src''" "replaceValue (js ''ls'')"] san
    by (auto simp: replaceValue_def bracket_prompt_def env_text_def js_def starts_with_def)
qed

section \<open>Sending input to sessions\<close>

datatype input_origin = Keyboard | QuickCommand | StartupCommand | PostLogin | AiAgent | CredentialAutofill
  | OtpAutofill | SyncInput

datatype input_sensitivity = NormalInput | SecretInput

datatype sender_event =
    PreviewEvent string preview
  | SubmittedEvent string
  | HistoryEvent string "js_text list"
  | CallRegister string js_text
  | CallWrite string js_text "input_origin option" "input_sensitivity option"

record sender =
  sd_history :: "(string \<times> js_text list) list"
  sd_log :: "sender_event list"

text \<open>An absent preview is \<open>None\<close>, an explicit null is \<open>Some None\<close>.\<close>

record send_options =
  so_preview :: "preview option option"
  so_registerSubmission :: "js_text option"
  so_origin :: "input_origin option"
  so_sensitivity :: "input_sensitivity option"

datatype send_error = RegisterRejected | WriteRejected

definition emit :: "sender_event \<Rightarrow> sender \<Rightarrow> sender" where
  "emit e sd = sd\<lparr>sd_log := sd_log sd @ [e]\<rparr>"

definition inferPreview :: "js_text \<Rightarrow> preview" where
  "inferPreview data = PreviewData data"

text \<open>\<open>command.replace(/\r\n|\r|\n/gu, "\r")\<close>.\<close>

fun normalizeTerminalCommandInput :: "js_text \<Rightarrow> js_text" where
  "normalizeTerminalCommandInput [] = []"
| "normalizeTerminalCommandInput (c # cs) =
     (if c = 13 then 13 # normalizeTerminalCommandInput (if cs \<noteq> [] \<and> hd cs = 10 then tl cs else cs)
      else if c = 10 then 13 # normalizeTerminalCommandInput cs
      else c # normalizeTerminalCommandInput cs)"

definition buildTerminalCommandInput :: "js_text \<Rightarrow> bool \<Rightarrow> js_text" where
  "buildTerminalCommandInput command execute =
     (let input = normalizeTerminalCommandInput command in if execute then input @ [13] else input)"

definition getSessionCommandHistory :: "string \<Rightarrow> sender \<Rightarrow> js_text list" where
  "getSessionCommandHistory sid sd = (case map_of (sd_history sd) sid of None \<Rightarrow> [] | Some cs \<Rightarrow> cs)"

definition emitSessionCommandHistory :: "string \<Rightarrow> sender \<Rightarrow> sender" where
  "emitSessionCommandHistory sid sd = emit (HistoryEvent sid (getSessionCommandHistory sid sd)) sd"

definition registerSessionCommandSubmission :: "string \<Rightarrow> js_text \<Rightarrow> sender \<Rightarrow> sender" where
  "registerSessionCommandSubmission sid command sd =
     (let normalized = trim command in
      if normalized = [] then sd
      else emitSessionCommandHistory sid
             (sd\<lparr>sd_history := AList.update sid (normalized # getSessionCommandHistory sid sd) (sd_history sd)\<rparr>))"

definition clearSessionCommandHistory :: "string \<Rightarrow> sender \<Rightarrow> sender" where
  "clearSessionCommandHistory sid sd =
     (if map_of (sd_history sd) sid = None then sd
      else emitSessionCommandHistory sid (sd\<lparr>sd_history := AList.delete sid (sd_history sd)\<rparr>))"

definition truthy :: "js_text option \<Rightarrow> bool" where
  "truthy t \<longleftrightarrow> t \<noteq> None \<and> t \<noteq> Some []"

definition sendSessionInput ::
    "(sender_event \<Rightarrow> bool) \<Rightarrow> string \<Rightarrow> js_text \<Rightarrow> send_options \<Rightarrow> sender \<Rightarrow> (send_error + unit) \<times> sender" where
  "sendSessionInput works sid data opts sd =
     (let preview = (case so_preview opts of None \<Rightarrow> Some (inferPreview data) | Some p \<Rightarrow> p);
          sd = (case preview of None \<Rightarrow> sd | Some p \<Rightarrow> emit (PreviewEvent sid p) sd);
          sd = (if 13 \<in> set data \<or> truthy (so_registerSubmission opts) then emit (SubmittedEvent sid) sd else sd);
          write = CallWrite sid data (so_origin opts) (so_sensitivity opts);
          finish = (\<lambda>sd. (if works write then Inr () else Inl WriteRejected, emit write sd))
      in case so_registerSubmission opts of
           Some c \<Rightarrow>
             if c = [] then finish sd
             else (let sd = emit (CallRegister sid c) (registerSessionCommandSubmission sid c sd) in
                   if works (CallRegister sid c) then finish sd else (Inl RegisterRejected, sd))
         | None \<Rightarrow> finish sd)"

definition sendSessionInputWithSync ::
    "(sender_event \<Rightarrow> bool) \<Rightarrow> string \<Rightarrow> js_text \<Rightarrow> string list \<Rightarrow> send_options \<Rightarrow> sender \<Rightarrow> (send_error + unit) \<times> sender" where
  "sendSessionInputWithSync works sid data peers opts sd =
     (case sendSessionInput works sid data opts sd of
        (Inl e, sd) \<Rightarrow> (Inl e, sd)
      | (Inr _, sd) \<Rightarrow>
          (Inr (), sd\<lparr>sd_log := sd_log sd @ map (\<lambda>peer. CallWrite peer data (Some SyncInput) (so_sensitivity opts)) peers\<rparr>))"

text \<open>The writes of a log, as pairs of session and data.\<close>

fun writes :: "sender_event list \<Rightarrow> (string \<times> js_text) list" where
  "writes [] = []"
| "writes (CallWrite s d _ _ # es) = (s, d) # writes es"
| "writes (_ # es) = writes es"

lemma writes_append [simp]: "writes (a @ b) = writes a @ writes b"
  by (induction a rule: writes.induct) auto

lemma writes_peers: "writes (map (\<lambda>peer. CallWrite peer d m n) peers) = map (\<lambda>peer. (peer, d)) peers"
  by (induction peers) auto

lemma send_cases:
  "sendSessionInput works sid data opts sd = (r, sd') \<Longrightarrow>
   \<exists>es. sd_log sd' = sd_log sd @ es \<and> writes es = (if r = Inl RegisterRejected then [] else [(sid, data)])
     \<and> (\<forall>s p. PreviewEvent s p \<in> set es \<longrightarrow> s = sid)
     \<and> sd_history sd' = (if truthy (so_registerSubmission opts) then sd_history (registerSessionCommandSubmission sid (the (so_registerSubmission opts)) sd)
         else sd_history sd)
     \<and> (r = Inr () \<longleftrightarrow> works (CallWrite sid data (so_origin opts) (so_sensitivity opts))
          \<and> (truthy (so_registerSubmission opts) \<longrightarrow> works (CallRegister sid (the (so_registerSubmission opts)))))"
  by (cases "so_preview opts"; cases "so_registerSubmission opts"; cases "the (so_preview opts)")
     (auto simp: sendSessionInput_def Let_def emit_def truthy_def registerSessionCommandSubmission_def
        emitSessionCommandHistory_def getSessionCommandHistory_def split: if_splits)

lemma sync_send_cases:
  assumes "sendSessionInputWithSync works sid data peers opts sd = (r, sd')"
  obtains es where "sd_log sd' = sd_log sd @ es" "\<forall>s p. PreviewEvent s p \<in> set es \<longrightarrow> s = sid"
    "writes es = (case r of Inr _ \<Rightarrow> (sid, data) # map (\<lambda>p. (p, data)) peers
        | Inl WriteRejected \<Rightarrow> [(sid, data)] | Inl RegisterRejected \<Rightarrow> [])"
    "r = Inr () \<longleftrightarrow> works (CallWrite sid data (so_origin opts) (so_sensitivity opts))
        \<and> (truthy (so_registerSubmission opts) \<longrightarrow> works (CallRegister sid (the (so_registerSubmission opts))))"
proof -
  obtain q sd1 where q: "sendSessionInput works sid data opts sd = (q, sd1)" by fastforce
  from send_cases [OF q] obtain es where es: "sd_log sd1 = sd_log sd @ es"
    "writes es = (if q = Inl RegisterRejected then [] else [(sid, data)])"
    "\<forall>s p. PreviewEvent s p \<in> set es \<longrightarrow> s = sid"
    "q = Inr () \<longleftrightarrow> works (CallWrite sid data (so_origin opts) (so_sensitivity opts))
        \<and> (truthy (so_registerSubmission opts) \<longrightarrow> works (CallRegister sid (the (so_registerSubmission opts))))" by blast
  show thesis
  proof (cases q)
    case (Inl e)
    with assms q have "r = Inl e" "sd' = sd1" by (auto simp: sendSessionInputWithSync_def)
    with es Inl that [of es] show thesis by (cases e) auto
  next
    case (Inr u)
    with assms q have r: "r = Inr ()" and s: "sd_log sd' = sd_log sd1 @ map (\<lambda>peer. CallWrite peer data (Some SyncInput) (so_sensitivity opts)) peers"
      by (auto simp: sendSessionInputWithSync_def)
    let ?es = "es @ map (\<lambda>peer. CallWrite peer data (Some SyncInput) (so_sensitivity opts)) peers"
    show thesis using that [of ?es] es Inr r s by (auto simp: writes_peers)
  qed
qed

lemma normalize_no_lf: "10 \<notin> set (normalizeTerminalCommandInput c)"
  by (induction c rule: normalizeTerminalCommandInput.induct) auto

lemma normalize_plain: "\<forall>x \<in> set c. \<not> isControl x \<Longrightarrow> normalizeTerminalCommandInput c = c \<and> crToLf (c @ [13]) = c @ [10]"
  by (induction c) (auto simp: isControl_def)

lemma no_escape: "27 \<notin> set d \<Longrightarrow> \<not> has_text d pasteStart \<and> \<not> has_text d pasteEnd \<and> d \<noteq> escKey k"
  by (auto simp: has_text_iff pasteStart_def pasteEnd_def escKey_def)

lemma enter_resets: "applyTerminalInputPreview st (PreviewData [13]) = createTerminalInputState"
  by (simp add: applyTerminalInputPreview_def applyTerminalInputData_def resetState_def createTerminalInputState_def)

text \<open>a command sent together with its Enter stays in the tracker. The input built for executing a
  one-line command ends with a carriage return, and is a single key only for the empty
  command. With the preview inferred from the data, the tracker takes it for pasted text: it
  keeps the command followed by a line break, tracks no command for it, and the next command
  typed is not tracked either until Enter is sent alone.\<close>

theorem executed_text_stays_pending:
  assumes "c \<noteq> []" and "\<forall>x \<in> set c. \<not> isControl x" and "\<forall>x \<in> set d. \<not> isControl x"
  shows "buildTerminalCommandInput c True = c @ [13]
    \<and> (let st = applyTerminalInputPreview createTerminalInputState (inferPreview (buildTerminalCommandInput c True));
           st2 = applyTerminalInputPreview st (inferPreview d)
       in ti_value st = c @ [10] \<and> ti_value st2 = c @ 10 # d \<and> getTrackedCommand st2 = []
          \<and> applyTerminalInputPreview st2 (inferPreview [13]) = createTerminalInputState)"
proof -
  let ?b = "c @ [13]"
  have b: "buildTerminalCommandInput c True = ?b"
    using normalize_plain [OF assms(2)] by (simp add: buildTerminalCommandInput_def)
  have e: "27 \<notin> set ?b" "27 \<notin> set d" using assms by (auto simp: isControl_def)
  have kb: "map_of keyTable ?b = None"
    using assms(1) no_escape [OF e(1)] by (cases c) (auto simp: keyTable_def)
  have kd: "map_of keyTable d = (if d = [] then Some KNone else None)"
    using assms(3) no_escape [OF e(2)] by (auto simp: keyTable_def isControl_def)
  let ?st = "applyTerminalInputPreview createTerminalInputState (PreviewData ?b)"
  have inv: "input_inv ?st" and ed: "editor_of ?st = emptyEditor\<lparr>ed_left := 10 # rev c\<rparr>"
    using tracker.step_inv [OF create_ok(1), of "PreviewData ?b"] tracker.step_abs [OF create_ok(1), of "PreviewData ?b"]
      normalize_plain [OF assms(2)] no_escape [OF e(1)]
    by (simp_all add: create_ok editPreview_def decodeKey_def kb emptyEditor_def isBreak_def pastedText_def
        removeAll_absent typeText_def)
  let ?st2 = "applyTerminalInputPreview ?st (PreviewData d)"
  have nb: "\<not> list_ex isBreak d" "\<not> list_ex isControl d" using assms(3) by (auto simp: list_ex_iff isBreak_def isControl_def)
  have inv2: "input_inv ?st2" and ed2: "editor_of ?st2 = emptyEditor\<lparr>ed_left := rev d @ 10 # rev c\<rparr>"
    using tracker.step_inv [OF inv, of "PreviewData d"] tracker.step_abs [OF inv, of "PreviewData d"] no_escape [OF e(2)] nb
    by (simp_all add: ed editPreview_def decodeKey_def kd emptyEditor_def typeText_def)
  have "ti_value ?st = c @ [10]" using editor_of_parts(1) [OF inv] ed by (simp add: ed_text_def emptyEditor_def)
  moreover have "ti_value ?st2 = c @ 10 # d" using editor_of_parts(1) [OF inv2] ed2 by (simp add: ed_text_def emptyEditor_def)
  moreover have "getTrackedCommand ?st2 = []"
    using tracked_command [OF inv2] ed2 by (simp add: ed_command_def ed_text_def emptyEditor_def)
  ultimately show ?thesis unfolding b inferPreview_def Let_def enter_resets by blast
qed

theorem executed_text_stays_pending_witness:
  "ti_value (applyTerminalInputPreview createTerminalInputState (inferPreview (buildTerminalCommandInput (js ''rz'') True)))
   = js ''rz'' @ [10]"
proof -
  have "js ''rz'' \<noteq> []" "\<forall>x \<in> set (js ''rz''). \<not> isControl x" by (simp_all add: js_def isControl_def)
  from executed_text_stays_pending [OF this, of "[]"] show ?thesis unfolding Let_def by auto
qed

end
