(* ===== verification/Remote_Frame.thy ===== *)
theory Remote_Frame
  imports Prelude "HOL-Library.Word"
begin

text \<open>
  Frames of remote desktop sessions (\<open>lib/remoteDesktopFrame.ts\<close>,
  \<open>components/remote-desktop/renderer.ts\<close>): the binary patch format of the back end with its
  checks, its encoder, and the copy of a patch into a tightly packed RGBA image.

  A buffer is a list of bytes (\<open>8 word\<close>). The numbers read from it are natural numbers;
  \<open>setUint32\<close> and \<open>setBigUint64\<close> write a number modulo \<open>2 ^ 32\<close> and \<open>2 ^ 64\<close>. A thrown
  error is a value of \<open>frame_error\<close>. Products and sums of two 32-bit numbers are exact as
  long as they are safe integers, and a double above that bound stays above it, so the test
  \<open>Number.isSafeInteger\<close> is the comparison with \<open>2 ^ 53 - 1\<close>.
\<close>

type_synonym bytes = "8 word list"

datatype pixel_format = BGRA8888 | RGBA8888

record frame_patch =
  fp_sequence :: nat
  fp_desktopWidth :: nat
  fp_desktopHeight :: nat
  fp_x :: nat
  fp_y :: nat
  fp_width :: nat
  fp_height :: nat
  fp_stride :: nat
  fp_pixelFormat :: pixel_format
  fp_payload :: bytes

datatype frame_error =
    TooShort
  | Overflow string
  | LengthMismatch
  | EmptyDesktop
  | EmptyRectangle
  | StrideTooSmall
  | PayloadTooSmall
  | OutOfBounds
  | UnsupportedFormat nat

section \<open>Little-endian numbers\<close>

fun le_bytes :: "nat \<Rightarrow> nat \<Rightarrow> bytes" where
  "le_bytes 0 n = []"
| "le_bytes (Suc k) n = word_of_nat n # le_bytes k (n div 256)"

fun le_nat :: "bytes \<Rightarrow> nat" where
  "le_nat [] = 0"
| "le_nat (b # bs) = unat b + 256 * le_nat bs"

lemma length_le_bytes [simp]: "length (le_bytes k n) = k"
  by (induction k arbitrary: n) simp_all

lemma unat_byte: "unat (word_of_nat n :: 8 word) = n mod 256"
  by (simp add: unat_of_nat)

lemma byte_bound: "unat (b :: 8 word) < 256"
  using unsigned_less [of b, where ?'a = nat] by simp

lemma le_nat_bytes: "le_nat (le_bytes k n) = n mod 256 ^ k"
proof (induction k arbitrary: n)
  case (Suc k)
  have "n mod 256 + 256 * (n div 256 mod 256 ^ k) = n mod (256 * 256 ^ k)"
    by (simp add: mod_mult2_eq)
  with Suc show ?case by (simp add: unat_byte)
qed simp

lemma le_nat_bound: "le_nat bs < 256 ^ length bs"
proof (induction bs)
  case (Cons b bs)
  have "unat b + 256 * le_nat bs < 256 + 256 * le_nat bs" using byte_bound [of b] by simp
  also have "\<dots> = 256 * Suc (le_nat bs)" by simp
  also have "\<dots> \<le> 256 * 256 ^ length bs" using Cons by (metis Suc_leI mult_le_mono2)
  finally show ?case by simp
qed simp

lemma le_bytes_nat: "le_bytes (length bs) (le_nat bs) = bs"
proof (induction bs)
  case (Cons b bs)
  have "word_of_nat (unat b + 256 * le_nat bs) = b"
  proof (rule word_unat_eq_iff [THEN iffD2])
    show "unat (word_of_nat (unat b + 256 * le_nat bs) :: 8 word) = unat b"
      unfolding unat_byte using byte_bound [of b] by simp
  qed
  moreover have "(unat b + 256 * le_nat bs) div 256 = le_nat bs" using byte_bound [of b] by simp
  ultimately show ?case using Cons by simp
qed simp

section \<open>Decoder and encoder\<close>

definition HEADER_BYTES :: nat where "HEADER_BYTES = 44"
definition FORMAT_BGRA8888 :: nat where "FORMAT_BGRA8888 = 1"
definition FORMAT_RGBA8888 :: nat where "FORMAT_RGBA8888 = 2"
definition BYTES_PER_PIXEL :: nat where "BYTES_PER_PIXEL = 4"

definition isSafeInteger :: "nat \<Rightarrow> bool" where
  "isSafeInteger n \<longleftrightarrow> n \<le> 2 ^ 53 - 1"

definition checkedProduct :: "nat \<Rightarrow> nat \<Rightarrow> string \<Rightarrow> frame_error + nat" where
  "checkedProduct l r lab = (if \<not> isSafeInteger (l * r) then Inl (Overflow lab) else Inr (l * r))"

definition checkedSum :: "nat \<Rightarrow> nat \<Rightarrow> string \<Rightarrow> frame_error + nat" where
  "checkedSum l r lab = (if \<not> isSafeInteger (l + r) then Inl (Overflow lab) else Inr (l + r))"

text \<open>Sequencing of computations that may throw.\<close>

fun andThen :: "'e + 'a \<Rightarrow> ('a \<Rightarrow> 'e + 'b) \<Rightarrow> 'e + 'b" where
  "andThen (Inl e) f = Inl e"
| "andThen (Inr x) f = f x"

definition getUint32 :: "nat \<Rightarrow> bytes \<Rightarrow> nat" where
  "getUint32 off buf = le_nat (take 4 (drop off buf))"

definition getBigUint64 :: "nat \<Rightarrow> bytes \<Rightarrow> nat" where
  "getBigUint64 off buf = le_nat (take 8 (drop off buf))"

definition pixelFormat :: "nat \<Rightarrow> pixel_format option" where
  "pixelFormat f = (if f = FORMAT_BGRA8888 then Some BGRA8888
                    else if f = FORMAT_RGBA8888 then Some RGBA8888 else None)"

definition decodeRemoteDesktopFramePatch :: "bytes \<Rightarrow> frame_error + frame_patch" where
  "decodeRemoteDesktopFramePatch buf =
     (if length buf < HEADER_BYTES then Inl TooShort
      else (let sequence = getBigUint64 0 buf; desktopWidth = getUint32 8 buf; desktopHeight = getUint32 12 buf;
                x = getUint32 16 buf; y = getUint32 20 buf; width = getUint32 24 buf; height = getUint32 28 buf;
                stride = getUint32 32 buf; format = getUint32 36 buf; payloadLength = getUint32 40 buf
            in andThen (checkedSum HEADER_BYTES payloadLength ''payload length'') (\<lambda>expectedLength.
               if length buf \<noteq> expectedLength then Inl LengthMismatch
               else if desktopWidth = 0 \<or> desktopHeight = 0 then Inl EmptyDesktop
               else if width = 0 \<or> height = 0 then Inl EmptyRectangle
               else andThen (checkedProduct width BYTES_PER_PIXEL ''row size'') (\<lambda>rowBytes.
               if stride < rowBytes then Inl StrideTooSmall
               else andThen (checkedProduct stride height ''payload size'') (\<lambda>requiredPayloadLength.
               if payloadLength < requiredPayloadLength then Inl PayloadTooSmall
               else andThen (checkedSum x width ''horizontal bounds'') (\<lambda>right.
               andThen (checkedSum y height ''vertical bounds'') (\<lambda>bottom.
               if right > desktopWidth \<or> bottom > desktopHeight then Inl OutOfBounds
               else (case pixelFormat format of
                       None \<Rightarrow> Inl (UnsupportedFormat format)
                     | Some pf \<Rightarrow> Inr \<lparr>fp_sequence = sequence, fp_desktopWidth = desktopWidth,
                         fp_desktopHeight = desktopHeight, fp_x = x, fp_y = y, fp_width = width, fp_height = height,
                         fp_stride = stride, fp_pixelFormat = pf,
                         fp_payload = take payloadLength (drop HEADER_BYTES buf)\<rparr>))))))))"

definition formatCode :: "pixel_format \<Rightarrow> nat" where
  "formatCode f = (if f = BGRA8888 then FORMAT_BGRA8888 else FORMAT_RGBA8888)"

definition createRemoteDesktopFramePatchBuffer :: "frame_patch \<Rightarrow> bytes" where
  "createRemoteDesktopFramePatchBuffer p =
     le_bytes 8 (fp_sequence p) @ le_bytes 4 (fp_desktopWidth p) @ le_bytes 4 (fp_desktopHeight p)
     @ le_bytes 4 (fp_x p) @ le_bytes 4 (fp_y p) @ le_bytes 4 (fp_width p) @ le_bytes 4 (fp_height p)
     @ le_bytes 4 (fp_stride p) @ le_bytes 4 (formatCode (fp_pixelFormat p))
     @ le_bytes 4 (length (fp_payload p)) @ fp_payload p"

section \<open>Copying a patch into an RGBA image\<close>

text \<open>\<open>target.set(slice, offset)\<close> for a slice that fits.\<close>

definition setAt :: "nat \<Rightarrow> 'a list \<Rightarrow> 'a list \<Rightarrow> 'a list" where
  "setAt off xs t = take off t @ xs @ drop (off + length xs) t"

definition byteAt :: "bytes \<Rightarrow> nat \<Rightarrow> 8 word \<Rightarrow> 8 word" where
  "byteAt bs i dflt = (if i < length bs then bs ! i else dflt)"

definition copyPixel :: "frame_patch \<Rightarrow> nat \<Rightarrow> nat \<Rightarrow> bytes \<Rightarrow> bytes" where
  "copyPixel p src dst t =
     t[dst := byteAt (fp_payload p) (src + 2) 0, dst + 1 := byteAt (fp_payload p) (src + 1) 0,
       dst + 2 := byteAt (fp_payload p) src 0, dst + 3 := byteAt (fp_payload p) (src + 3) 255]"

definition copyRow :: "frame_patch \<Rightarrow> bytes \<Rightarrow> nat \<Rightarrow> bytes" where
  "copyRow p t row =
     (let rowBytes = fp_width p * 4; srcRow = row * fp_stride p; dstRow = row * rowBytes in
      if fp_pixelFormat p = RGBA8888
      then setAt dstRow (take rowBytes (drop srcRow (fp_payload p))) t
      else foldl (\<lambda>t i. copyPixel p (srcRow + 4 * i) (dstRow + 4 * i) t) t [0..<fp_width p])"

definition copyPatchToRgba :: "frame_patch \<Rightarrow> bytes \<Rightarrow> bytes" where
  "copyPatchToRgba p target = foldl (copyRow p) target [0..<fp_height p]"

text \<open>The bytes that the WebGL renderer uploads for a patch.\<close>

definition patchBytes :: "frame_patch \<Rightarrow> bytes" where
  "patchBytes p =
     (let rowBytes = fp_width p * 4; requiredBytes = rowBytes * fp_height p;
          canUploadDirectly = (fp_pixelFormat p = RGBA8888 \<and> fp_stride p = rowBytes)
      in if canUploadDirectly then take requiredBytes (fp_payload p)
         else copyPatchToRgba p (replicate requiredBytes 0))"

text \<open>The patches of a batch that are drawn: those for the size of the last one.\<close>

definition renderPatches :: "frame_patch list \<Rightarrow> frame_patch list" where
  "renderPatches ps =
     (if ps = [] then []
      else filter (\<lambda>p. fp_desktopWidth p = fp_desktopWidth (last ps)
                     \<and> fp_desktopHeight p = fp_desktopHeight (last ps)) ps)"

section \<open>The codec\<close>

definition valid_patch :: "frame_patch \<Rightarrow> bool" where
  "valid_patch p \<longleftrightarrow> fp_sequence p < 2 ^ 64 \<and> fp_desktopWidth p < 2 ^ 32 \<and> fp_desktopHeight p < 2 ^ 32
     \<and> fp_stride p < 2 ^ 32 \<and> length (fp_payload p) < 2 ^ 32
     \<and> 0 < fp_width p \<and> 0 < fp_height p
     \<and> fp_width p * 4 \<le> fp_stride p \<and> fp_stride p * fp_height p \<le> length (fp_payload p)
     \<and> fp_x p + fp_width p \<le> fp_desktopWidth p \<and> fp_y p + fp_height p \<le> fp_desktopHeight p"

lemma uint32_bound: "getUint32 off buf < 2 ^ 32"
proof -
  have "256 ^ length (take 4 (drop off buf)) \<le> (256 :: nat) ^ 4" by (rule power_increasing) simp_all
  with le_nat_bound [of "take 4 (drop off buf)"] show ?thesis by (simp add: getUint32_def)
qed

lemma uint64_bound: "getBigUint64 off buf < 2 ^ 64"
proof -
  have "256 ^ length (take 8 (drop off buf)) \<le> (256 :: nat) ^ 8" by (rule power_increasing) simp_all
  with le_nat_bound [of "take 8 (drop off buf)"] show ?thesis by (simp add: getBigUint64_def)
qed

lemma bytes_uint32: "off + 4 \<le> length buf \<Longrightarrow> le_bytes 4 (getUint32 off buf) = take 4 (drop off buf)"
  using le_bytes_nat [of "take 4 (drop off buf)"] by (simp add: getUint32_def)

lemma bytes_uint64: "off + 8 \<le> length buf \<Longrightarrow> le_bytes 8 (getBigUint64 off buf) = take 8 (drop off buf)"
  using le_bytes_nat [of "take 8 (drop off buf)"] by (simp add: getBigUint64_def)

lemma take_drop_step: "take n (drop k xs) @ drop (k + n) xs = drop k xs"
  by (metis append_take_drop_id drop_drop add.commute)

text \<open>A buffer is its header fields followed by the payload.\<close>

lemma header_fields:
  assumes "HEADER_BYTES \<le> length buf"
  shows "le_bytes 8 (getBigUint64 0 buf) @ le_bytes 4 (getUint32 8 buf) @ le_bytes 4 (getUint32 12 buf)
     @ le_bytes 4 (getUint32 16 buf) @ le_bytes 4 (getUint32 20 buf) @ le_bytes 4 (getUint32 24 buf)
     @ le_bytes 4 (getUint32 28 buf) @ le_bytes 4 (getUint32 32 buf) @ le_bytes 4 (getUint32 36 buf)
     @ le_bytes 4 (getUint32 40 buf) @ drop 44 buf = buf"
proof -
  have step: "take 4 (drop k buf) @ drop (k + 4) buf = drop k buf" for k by (rule take_drop_step)
  show ?thesis using assms
    by (simp add: HEADER_BYTES_def bytes_uint32 bytes_uint64 step [of 40, simplified] step [of 36, simplified]
        step [of 32, simplified] step [of 28, simplified] step [of 24, simplified] step [of 20, simplified]
        step [of 16, simplified] step [of 12, simplified] step [of 8, simplified])
qed

lemma encode_fields:
  assumes "valid_patch p"
  defines "buf \<equiv> createRemoteDesktopFramePatchBuffer p"
  shows "length buf = 44 + length (fp_payload p)" "drop 44 buf = fp_payload p"
    "getBigUint64 0 buf = fp_sequence p" "getUint32 8 buf = fp_desktopWidth p" "getUint32 12 buf = fp_desktopHeight p"
    "getUint32 16 buf = fp_x p" "getUint32 20 buf = fp_y p" "getUint32 24 buf = fp_width p"
    "getUint32 28 buf = fp_height p" "getUint32 32 buf = fp_stride p"
    "getUint32 36 buf = formatCode (fp_pixelFormat p)" "getUint32 40 buf = length (fp_payload p)"
  using assms(1)
  by (simp_all add: buf_def createRemoteDesktopFramePatchBuffer_def getUint32_def getBigUint64_def le_nat_bytes
      valid_patch_def formatCode_def FORMAT_BGRA8888_def FORMAT_RGBA8888_def)

lemma andThen_Inr: "andThen x f = Inr y \<longleftrightarrow> (\<exists>z. x = Inr z \<and> f z = Inr y)"
  by (cases x) simp_all

lemma checked_Inr: "checkedSum l r e = Inr z \<longleftrightarrow> l + r \<le> 2 ^ 53 - 1 \<and> z = l + r"
  "checkedProduct l r e = Inr z \<longleftrightarrow> l * r \<le> 2 ^ 53 - 1 \<and> z = l * r"
  by (auto simp: checkedSum_def checkedProduct_def isSafeInteger_def)

lemma format_code: "pixelFormat f = Some pf \<longleftrightarrow> f = formatCode pf"
  by (cases pf) (auto simp: pixelFormat_def formatCode_def FORMAT_BGRA8888_def FORMAT_RGBA8888_def)

lemma decode_sound:
  assumes "decodeRemoteDesktopFramePatch buf = Inr p"
  shows "valid_patch p" and "buf = createRemoteDesktopFramePatchBuffer p"
proof -
  have h: "HEADER_BYTES \<le> length buf" using assms by (auto simp: decodeRemoteDesktopFramePatch_def split: if_splits)
  let ?n = "getUint32 40 buf"
  have d: "length buf = 44 + ?n" "getUint32 8 buf \<noteq> 0 \<and> getUint32 12 buf \<noteq> 0"
    "getUint32 24 buf \<noteq> 0 \<and> getUint32 28 buf \<noteq> 0"
    "getUint32 24 buf * 4 \<le> getUint32 32 buf" "getUint32 32 buf * getUint32 28 buf \<le> ?n"
    "getUint32 16 buf + getUint32 24 buf \<le> getUint32 8 buf" "getUint32 20 buf + getUint32 28 buf \<le> getUint32 12 buf"
    and p: "\<exists>pf. getUint32 36 buf = formatCode pf \<and> p = \<lparr>fp_sequence = getBigUint64 0 buf, fp_desktopWidth = getUint32 8 buf,
       fp_desktopHeight = getUint32 12 buf, fp_x = getUint32 16 buf, fp_y = getUint32 20 buf, fp_width = getUint32 24 buf,
       fp_height = getUint32 28 buf, fp_stride = getUint32 32 buf, fp_pixelFormat = pf,
       fp_payload = take ?n (drop 44 buf)\<rparr>"
    using assms
    by (auto simp: decodeRemoteDesktopFramePatch_def HEADER_BYTES_def BYTES_PER_PIXEL_def andThen_Inr checked_Inr Let_def
        format_code split: if_splits option.splits)
  obtain pf where pf: "getUint32 36 buf = formatCode pf" "p = \<lparr>fp_sequence = getBigUint64 0 buf, fp_desktopWidth = getUint32 8 buf,
       fp_desktopHeight = getUint32 12 buf, fp_x = getUint32 16 buf, fp_y = getUint32 20 buf, fp_width = getUint32 24 buf,
       fp_height = getUint32 28 buf, fp_stride = getUint32 32 buf, fp_pixelFormat = pf,
       fp_payload = take ?n (drop 44 buf)\<rparr>" using p by blast
  have pay: "take ?n (drop 44 buf) = drop 44 buf" "length (drop 44 buf) = ?n" using d(1) by simp_all
  show "valid_patch p" using d pay uint32_bound uint64_bound by (simp add: valid_patch_def pf(2))
  show "buf = createRemoteDesktopFramePatchBuffer p"
    using header_fields [OF h] pay by (simp add: createRemoteDesktopFramePatchBuffer_def pf(2) flip: pf(1))
qed

lemma decode_complete:
  assumes v: "valid_patch p"
  shows "decodeRemoteDesktopFramePatch (createRemoteDesktopFramePatchBuffer p) = Inr p"
proof -
  note e = encode_fields [OF v]
  have b: "fp_width p * 4 \<le> 2 ^ 53 - 1" "fp_stride p * fp_height p \<le> 2 ^ 53 - 1" "44 + length (fp_payload p) \<le> 2 ^ 53 - 1"
    "fp_x p + fp_width p \<le> 2 ^ 53 - 1" "fp_y p + fp_height p \<le> 2 ^ 53 - 1"
    using v by (auto simp: valid_patch_def)
  have pf: "pixelFormat (formatCode (fp_pixelFormat p)) = Some (fp_pixelFormat p)" by (simp add: format_code)
  show ?thesis
    using v b by (simp add: decodeRemoteDesktopFramePatch_def e HEADER_BYTES_def BYTES_PER_PIXEL_def Let_def
        checkedSum_def checkedProduct_def isSafeInteger_def pf) (simp add: valid_patch_def)
qed

section \<open>The copy\<close>

text \<open>Where byte \<open>j\<close> of the packed image comes from.\<close>

definition channel :: "pixel_format \<Rightarrow> nat \<Rightarrow> nat" where
  "channel f k = (if f = RGBA8888 then k else if k = 0 then 2 else if k = 2 then 0 else k)"

definition sourceIndex :: "frame_patch \<Rightarrow> nat \<Rightarrow> nat" where
  "sourceIndex p j =
     (let rowBytes = fp_width p * 4; c = j mod rowBytes in
      j div rowBytes * fp_stride p + c div 4 * 4 + channel (fp_pixelFormat p) (c mod 4))"

definition rgbaImage :: "frame_patch \<Rightarrow> bytes" where
  "rgbaImage p = map (\<lambda>j. fp_payload p ! sourceIndex p j) [0..<fp_width p * 4 * fp_height p]"

lemma setAt_nth:
  assumes "off + length xs \<le> length t" and "j < length t"
  shows "setAt off xs t ! j = (if off \<le> j \<and> j < off + length xs then xs ! (j - off) else t ! j)"
  using assms by (auto simp: setAt_def nth_append)

lemma length_setAt: "off + length xs \<le> length t \<Longrightarrow> length (setAt off xs t) = length t"
  by (simp add: setAt_def)

lemma length_copyPixel [simp]: "length (copyPixel p src dst t) = length t"
  by (simp add: copyPixel_def)

lemma copyPixel_nth:
  assumes "dst + 4 \<le> length t" and "j < length t" and "src + 4 \<le> length (fp_payload p)"
    and "fp_pixelFormat p = BGRA8888"
  shows "copyPixel p src dst t ! j =
     (if dst \<le> j \<and> j < dst + 4 then fp_payload p ! (src + channel BGRA8888 (j - dst)) else t ! j)"
proof -
  consider "j < dst \<or> dst + 4 \<le> j" | "j = dst" | "j = dst + 1" | "j = dst + 2" | "j = dst + 3" by linarith
  then show ?thesis
    using assms by cases (auto simp: copyPixel_def byteAt_def channel_def)
qed

lemma bgra_row:
  assumes "dstRow + 4 * n \<le> length t" and "srcRow + 4 * n \<le> length (fp_payload p)" and "fp_pixelFormat p = BGRA8888"
  shows "let t' = foldl (\<lambda>t i. copyPixel p (srcRow + 4 * i) (dstRow + 4 * i) t) t [0..<n] in
     length t' = length t \<and> (\<forall>j < length t. t' ! j =
       (if dstRow \<le> j \<and> j < dstRow + 4 * n
        then fp_payload p ! (srcRow + (j - dstRow) div 4 * 4 + channel BGRA8888 ((j - dstRow) mod 4)) else t ! j))"
  using assms(1,2)
proof (induction n)
  case (Suc n)
  let ?t = "foldl (\<lambda>t i. copyPixel p (srcRow + 4 * i) (dstRow + 4 * i) t) t [0..<n]"
  have len: "length ?t = length t" using Suc by (simp add: Let_def)
  have "copyPixel p (srcRow + 4 * n) (dstRow + 4 * n) ?t ! j =
      (if dstRow \<le> j \<and> j < dstRow + 4 * Suc n
       then fp_payload p ! (srcRow + (j - dstRow) div 4 * 4 + channel BGRA8888 ((j - dstRow) mod 4)) else t ! j)"
    if j: "j < length t" for j
  proof (cases "dstRow + 4 * n \<le> j \<and> j < dstRow + 4 * n + 4")
    case True
    then obtain k where k: "j = dstRow + 4 * n + k" "k < 4" by (metis add_less_cancel_left le_iff_add)
    then have "(j - dstRow) div 4 = n" "(j - dstRow) mod 4 = k" by simp_all
    with True k Suc.prems j assms(3) len show ?thesis by (subst copyPixel_nth) (simp_all add: algebra_simps)
  next
    case False
    with Suc j assms(3) len show ?thesis by (subst copyPixel_nth) (auto simp: Let_def)
  qed
  with len show ?case by (simp add: Let_def)
qed auto

lemma div_interval:
  assumes "0 < (r :: nat)"
  shows "j div r = q \<longleftrightarrow> q * r \<le> j \<and> j < q * r + r"
proof
  assume "j div r = q"
  then have "j = q * r + j mod r" by (metis div_mult_mod_eq)
  moreover have "j mod r < r" using assms by simp
  ultimately show "q * r \<le> j \<and> j < q * r + r" by linarith
next
  assume "q * r \<le> j \<and> j < q * r + r"
  then show "j div r = q" by (intro div_nat_eqI) (simp_all add: mult.commute)
qed

lemma copyRow_nth:
  assumes v: "valid_patch p" and row: "row < fp_height p" and len: "length t = fp_width p * 4 * fp_height p"
  shows "length (copyRow p t row) = length t \<and> (\<forall>j < length t. copyRow p t row ! j =
     (if j div (fp_width p * 4) = row then fp_payload p ! sourceIndex p j else t ! j))"
proof -
  let ?rb = "fp_width p * 4"
  have pos: "0 < ?rb" using v by (simp add: valid_patch_def)
  have "row * fp_stride p + ?rb \<le> (row + 1) * fp_stride p" using v by (simp add: valid_patch_def)
  also have "\<dots> \<le> fp_height p * fp_stride p" using row by (intro mult_le_mono1) simp
  also have "\<dots> \<le> length (fp_payload p)" using v by (simp add: valid_patch_def mult.commute)
  finally have src: "row * fp_stride p + ?rb \<le> length (fp_payload p)" .
  have dst: "row * ?rb + ?rb \<le> length t" using row len mult_le_mono1 [of "Suc row" "fp_height p" ?rb]
    by (simp add: mult.commute)
  have iff: "j div ?rb = row \<longleftrightarrow> row * ?rb \<le> j \<and> j < row * ?rb + ?rb" for j
    by (rule div_interval [OF pos])
  have sub: "j mod ?rb = j - row * ?rb" if "j div ?rb = row" for j
    using that by (metis minus_div_mult_eq_mod)
  show ?thesis
  proof (cases "fp_pixelFormat p")
    case RGBA8888
    let ?sl = "take ?rb (drop (row * fp_stride p) (fp_payload p))"
    have sl: "length ?sl = ?rb" using src by simp
    have c: "copyRow p t row = setAt (row * ?rb) ?sl t" using RGBA8888 by (simp add: copyRow_def Let_def)
    have l: "row * ?rb + length ?sl \<le> length t" using dst sl by simp
    have "setAt (row * ?rb) ?sl t ! j = (if j div ?rb = row then fp_payload p ! sourceIndex p j else t ! j)"
      if j: "j < length t" for j
    proof (cases "j div ?rb = row")
      case True
      define k where "k = j mod ?rb"
      have k: "j = row * ?rb + k" "k < ?rb" using True pos div_mult_mod_eq [of j ?rb] by (simp_all add: k_def)
      have "sourceIndex p j = row * fp_stride p + (k div 4 * 4 + k mod 4)"
        using True RGBA8888 by (simp add: sourceIndex_def channel_def Let_def k_def add.assoc)
      then have "sourceIndex p j = row * fp_stride p + k" by simp
      moreover have "?sl ! k = fp_payload p ! (row * fp_stride p + k)" using k(2) src by simp
      moreover have "setAt (row * ?rb) ?sl t ! j = ?sl ! k" unfolding setAt_nth [OF l j] using k sl by simp
      ultimately show ?thesis using True by simp
    qed (use sl iff [of j] in \<open>auto simp: setAt_nth [OF l j]\<close>)
    with length_setAt [OF l] show ?thesis by (simp add: c)
  next
    case BGRA8888
    have n: "row * ?rb + 4 * fp_width p \<le> length t" "row * fp_stride p + 4 * fp_width p \<le> length (fp_payload p)"
      using dst src by simp_all
    have c: "copyRow p t row = foldl (\<lambda>t i. copyPixel p (row * fp_stride p + 4 * i) (row * ?rb + 4 * i) t) t [0..<fp_width p]"
      using BGRA8888 by (simp add: copyRow_def Let_def)
    have si: "sourceIndex p j = row * fp_stride p + (j - row * ?rb) div 4 * 4 + channel BGRA8888 ((j - row * ?rb) mod 4)"
      if "j div ?rb = row" for j
      using sub [OF that] that BGRA8888 by (simp add: sourceIndex_def Let_def)
    have four: "4 * fp_width p = ?rb" by simp
    show ?thesis using bgra_row [OF n BGRA8888, unfolded four] si unfolding iff c Let_def by simp
  qed
qed

lemma copyRows:
  assumes v: "valid_patch p" and len: "length t = fp_width p * 4 * fp_height p" and "n \<le> fp_height p"
  shows "length (foldl (copyRow p) t [0..<n]) = length t \<and> (\<forall>j < length t. foldl (copyRow p) t [0..<n] ! j =
     (if j div (fp_width p * 4) < n then fp_payload p ! sourceIndex p j else t ! j))"
  using assms(3)
proof (induction n)
  case (Suc n)
  then have IH: "length (foldl (copyRow p) t [0..<n]) = length t" "\<forall>j < length t. foldl (copyRow p) t [0..<n] ! j =
     (if j div (fp_width p * 4) < n then fp_payload p ! sourceIndex p j else t ! j)" by auto
  from copyRow_nth [OF v, of n "foldl (copyRow p) t [0..<n]"] Suc.prems IH len show ?case
    by (auto simp: less_Suc_eq)
qed simp

lemma copy_image:
  assumes v: "valid_patch p" and len: "length t = fp_width p * 4 * fp_height p"
  shows "copyPatchToRgba p t = rgbaImage p"
proof (rule nth_equalityI)
  note c = copyRows [OF v len order_refl, folded copyPatchToRgba_def]
  show "length (copyPatchToRgba p t) = length (rgbaImage p)" using c len by (simp add: rgbaImage_def)
  fix j assume "j < length (copyPatchToRgba p t)"
  then have j: "j < length t" using c by simp
  then have "j div (fp_width p * 4) < fp_height p" using len by (simp add: less_mult_imp_div_less mult.commute)
  with c j len show "copyPatchToRgba p t ! j = rgbaImage p ! j" by (simp add: rgbaImage_def)
qed

lemma direct_image:
  assumes v: "valid_patch p" and f: "fp_pixelFormat p = RGBA8888" "fp_stride p = fp_width p * 4"
  shows "take (fp_width p * 4 * fp_height p) (fp_payload p) = rgbaImage p"
proof (rule nth_equalityI)
  have "fp_width p * 4 * fp_height p \<le> length (fp_payload p)" using v f by (simp add: valid_patch_def)
  then show "length (take (fp_width p * 4 * fp_height p) (fp_payload p)) = length (rgbaImage p)"
    by (simp add: rgbaImage_def)
  fix j assume j: "j < length (take (fp_width p * 4 * fp_height p) (fp_payload p))"
  have "sourceIndex p j = j" using div_mult_mod_eq [of j "fp_width p * 4"] div_mult_mod_eq [of "j mod (fp_width p * 4)" 4]
    by (simp add: sourceIndex_def f channel_def Let_def add.assoc)
  with j show "take (fp_width p * 4 * fp_height p) (fp_payload p) ! j = rgbaImage p ! j" by (simp add: rgbaImage_def)
qed

section \<open>Properties\<close>

text \<open>C17: the codec of frame patches is exact. A buffer decodes to a patch if and only if the patch
  is well formed (32-bit fields, a non-empty rectangle inside the desktop, rows that fit the
  stride, a payload that holds all rows) and the buffer is its encoding: decoding inverts
  encoding on every well-formed patch, encoding inverts decoding on every accepted buffer, and
  nothing else is accepted.\<close>

theorem frame_codec_exact:
  "decodeRemoteDesktopFramePatch buf = Inr p \<longleftrightarrow> valid_patch p \<and> buf = createRemoteDesktopFramePatchBuffer p"
  using decode_sound decode_complete by blast

lemma decode_short: "length buf < 44 \<Longrightarrow> decodeRemoteDesktopFramePatch buf = Inl TooShort"
  by (simp add: decodeRemoteDesktopFramePatch_def HEADER_BYTES_def)

lemma decode_mismatch:
  assumes "44 \<le> length buf" and "length buf \<noteq> 44 + getUint32 40 buf"
  shows "decodeRemoteDesktopFramePatch buf = Inl LengthMismatch"
proof -
  have "44 + getUint32 40 buf \<le> 2 ^ 53 - 1" using uint32_bound [of 40 buf] by simp
  with assms show ?thesis
    by (simp add: decodeRemoteDesktopFramePatch_def HEADER_BYTES_def checkedSum_def isSafeInteger_def Let_def)
qed

lemma length_field_stable: "44 \<le> n \<Longrightarrow> n \<le> length buf \<Longrightarrow> getUint32 40 (take n buf) = getUint32 40 buf"
  "44 \<le> length buf \<Longrightarrow> getUint32 40 (buf @ extra) = getUint32 40 buf"
  by (simp_all add: getUint32_def take_drop min_def)

text \<open>C21: a damaged transmission is reported, not drawn. Every proper prefix of an encoded patch and
  every encoded patch followed by further bytes is rejected, a prefix shorter than the header as
  too short and everything else as a length mismatch; and the decoder reports an arithmetic
  overflow only for the product of stride and height, the one product of two header fields.\<close>

theorem frame_damage_rejected:
  assumes "valid_patch p" and "n < length (createRemoteDesktopFramePatchBuffer p)" and "extra \<noteq> []"
  shows "decodeRemoteDesktopFramePatch (take n (createRemoteDesktopFramePatchBuffer p))
           = Inl (if n < 44 then TooShort else LengthMismatch)
    \<and> decodeRemoteDesktopFramePatch (createRemoteDesktopFramePatchBuffer p @ extra) = Inl LengthMismatch
    \<and> (\<forall>buf lab. decodeRemoteDesktopFramePatch buf = Inl (Overflow lab) \<longrightarrow>
         lab = ''payload size'' \<and> 2 ^ 53 - 1 < getUint32 32 buf * getUint32 28 buf)"
proof (intro conjI allI impI)
  let ?buf = "createRemoteDesktopFramePatchBuffer p"
  note e = encode_fields [OF assms(1)]
  show "decodeRemoteDesktopFramePatch (take n ?buf) = Inl (if n < 44 then TooShort else LengthMismatch)"
    using assms(2) e(1,12) length_field_stable(1) [of n ?buf]
    by (cases "n < 44") (auto intro!: decode_short decode_mismatch)
  show "decodeRemoteDesktopFramePatch (?buf @ extra) = Inl LengthMismatch"
    using assms(3) e(1,12) length_field_stable(2) [of ?buf extra] by (intro decode_mismatch) auto
  fix buf lab
  assume o: "decodeRemoteDesktopFramePatch buf = Inl (Overflow lab)"
  have b: "getUint32 k buf < 2 ^ 32" for k by (rule uint32_bound)
  have no: "checkedSum 44 (getUint32 40 buf) l1 = Inr (44 + getUint32 40 buf)"
    "checkedProduct (getUint32 24 buf) 4 l2 = Inr (getUint32 24 buf * 4)"
    "checkedSum (getUint32 16 buf) (getUint32 24 buf) l3 = Inr (getUint32 16 buf + getUint32 24 buf)"
    "checkedSum (getUint32 20 buf) (getUint32 28 buf) l4 = Inr (getUint32 20 buf + getUint32 28 buf)" for l1 l2 l3 l4
    using b [of 40] b [of 24] b [of 16] b [of 20] b [of 28] by (simp_all add: checked_Inr)
  have row: "getUint32 24 buf * 4 \<le> 9007199254740991" using b [of 24] by simp
  show "lab = ''payload size''" "2 ^ 53 - 1 < getUint32 32 buf * getUint32 28 buf"
    using o row by (auto simp: decodeRemoteDesktopFramePatch_def HEADER_BYTES_def BYTES_PER_PIXEL_def no Let_def
        checkedProduct_def isSafeInteger_def split: if_splits option.splits)
qed

definition demo_patch :: frame_patch where
  "demo_patch = \<lparr>fp_sequence = 7, fp_desktopWidth = 4, fp_desktopHeight = 4, fp_x = 1, fp_y = 2, fp_width = 1,
     fp_height = 2, fp_stride = 5, fp_pixelFormat = BGRA8888, fp_payload = [1, 2, 3, 4, 9, 5, 6, 7, 8, 9]\<rparr>"

lemma demo_patch_valid: "valid_patch demo_patch"
  by (simp add: valid_patch_def demo_patch_def)

theorem frame_damage_rejected_witness:
  "decodeRemoteDesktopFramePatch (take 50 (createRemoteDesktopFramePatchBuffer demo_patch)) = Inl LengthMismatch
   \<and> decodeRemoteDesktopFramePatch (createRemoteDesktopFramePatchBuffer demo_patch @ [0]) = Inl LengthMismatch"
proof -
  have "50 < length (createRemoteDesktopFramePatchBuffer demo_patch)"
    using encode_fields(1) [OF demo_patch_valid] by (simp add: demo_patch_def)
  from frame_damage_rejected [OF demo_patch_valid this, of "[0]"] show ?thesis by simp
qed

text \<open>both upload paths of the renderer produce the same image. For every decoded patch the bytes
  uploaded are the packed RGBA rows of the rectangle, whether they are taken directly from the
  payload or copied row by row with the colour channels exchanged, and whatever the target array
  held before.\<close>

theorem patch_upload_exact:
  assumes "decodeRemoteDesktopFramePatch buf = Inr p"
  shows "patchBytes p = rgbaImage p
    \<and> (length t = fp_width p * 4 * fp_height p \<longrightarrow> copyPatchToRgba p t = rgbaImage p)"
  using decode_sound(1) [OF assms] copy_image direct_image by (simp add: patchBytes_def Let_def)

theorem patch_upload_exact_witness: "patchBytes demo_patch = [3, 2, 1, 4, 7, 6, 5, 8]"
proof -
  have "patchBytes demo_patch = rgbaImage demo_patch"
    using patch_upload_exact [OF decode_complete [OF demo_patch_valid]] by blast
  also have "\<dots> = [3, 2, 1, 4, 7, 6, 5, 8]"
    by (simp add: rgbaImage_def demo_patch_def sourceIndex_def channel_def upt_conv_Cons)
  finally show ?thesis .
qed

end
