(* ===== verification/Remote_Input.thy ===== *)
theory Remote_Input
  imports Prelude "HOL-Library.Word"
begin

unbundle bit_operations_syntax

text \<open>
  Input to remote desktops: the scan codes of \<open>lib/rdpInput.ts\<close>, the text input rules of
  \<open>lib/rdpIme.ts\<close>, the key symbols and button masks of \<open>lib/vncInput.ts\<close>, the mapping of
  pointer positions of \<open>lib/remoteDesktopViewport.ts\<close> and the resize decisions of
  \<open>lib/rdpResize.ts\<close>.

  The object literals used as tables are association lists (no keyboard code is the name of a
  property every object inherits). Lengths in CSS pixels are rational
  numbers, so the rounding errors of the doubles the browser computes with are not modelled.
  The characters of a text are its code points, as \<open>Array.from\<close> gives them.
\<close>

section \<open>RDP keys\<close>

record rdp_mapping =
  rm_scanCode :: nat
  rm_extended :: "bool option"

definition keyRow :: "string \<times> nat \<times> bool option \<Rightarrow> string \<times> rdp_mapping" where
  "keyRow r = (case r of (code, scan, ext) \<Rightarrow> (code, \<lparr>rm_scanCode = scan, rm_extended = ext\<rparr>))"

definition scanCodeTable :: "(string \<times> nat \<times> bool option) list" where
  "scanCodeTable =
    [(''Escape'', 1, None), (''Digit1'', 2, None), (''Digit2'', 3, None), (''Digit3'', 4, None),
     (''Digit4'', 5, None), (''Digit5'', 6, None), (''Digit6'', 7, None), (''Digit7'', 8, None),
     (''Digit8'', 9, None), (''Digit9'', 10, None), (''Digit0'', 11, None), (''Minus'', 12, None),
     (''Equal'', 13, None), (''Backspace'', 14, None), (''Tab'', 15, None), (''KeyQ'', 16, None),
     (''KeyW'', 17, None), (''KeyE'', 18, None), (''KeyR'', 19, None), (''KeyT'', 20, None), (''KeyY'', 21, None),
     (''KeyU'', 22, None), (''KeyI'', 23, None), (''KeyO'', 24, None), (''KeyP'', 25, None),
     (''BracketLeft'', 26, None), (''BracketRight'', 27, None), (''Enter'', 28, None), (''ControlLeft'', 29, None),
     (''ControlRight'', 29, Some True), (''KeyA'', 30, None), (''KeyS'', 31, None), (''KeyD'', 32, None),
     (''KeyF'', 33, None), (''KeyG'', 34, None), (''KeyH'', 35, None), (''KeyJ'', 36, None), (''KeyK'', 37, None),
     (''KeyL'', 38, None), (''Semicolon'', 39, None), (''Quote'', 40, None), (''Backquote'', 41, None),
     (''ShiftLeft'', 42, None), (''Backslash'', 43, None), (''KeyZ'', 44, None), (''KeyX'', 45, None),
     (''KeyC'', 46, None), (''KeyV'', 47, None), (''KeyB'', 48, None), (''KeyN'', 49, None), (''KeyM'', 50, None),
     (''Comma'', 51, None), (''Period'', 52, None), (''Slash'', 53, None), (''ShiftRight'', 54, None),
     (''NumpadMultiply'', 55, None), (''AltLeft'', 56, None), (''AltRight'', 56, Some True), (''Space'', 57, None),
     (''CapsLock'', 58, None), (''F1'', 59, None), (''F2'', 60, None), (''F3'', 61, None), (''F4'', 62, None),
     (''F5'', 63, None), (''F6'', 64, None), (''F7'', 65, None), (''F8'', 66, None), (''F9'', 67, None),
     (''F10'', 68, None), (''NumLock'', 69, None), (''ScrollLock'', 70, None), (''Numpad7'', 71, None),
     (''Numpad8'', 72, None), (''Numpad9'', 73, None), (''NumpadSubtract'', 74, None), (''Numpad4'', 75, None),
     (''Numpad5'', 76, None), (''Numpad6'', 77, None), (''NumpadAdd'', 78, None), (''Numpad1'', 79, None),
     (''Numpad2'', 80, None), (''Numpad3'', 81, None), (''Numpad0'', 82, None), (''NumpadDecimal'', 83, None),
     (''F11'', 87, None), (''F12'', 88, None), (''NumpadEnter'', 28, Some True), (''NumpadDivide'', 53, Some True),
     (''Home'', 71, Some True), (''ArrowUp'', 72, Some True), (''PageUp'', 73, Some True),
     (''ArrowLeft'', 75, Some True), (''ArrowRight'', 77, Some True), (''End'', 79, Some True),
     (''ArrowDown'', 80, Some True), (''PageDown'', 81, Some True), (''Insert'', 82, Some True),
     (''Delete'', 83, Some True), (''MetaLeft'', 91, Some True), (''MetaRight'', 92, Some True),
     (''ContextMenu'', 93, Some True)]"

definition KEY_CODE_TO_SCANCODE :: "(string \<times> rdp_mapping) list" where
  "KEY_CODE_TO_SCANCODE = map keyRow scanCodeTable"

record key_event =
  ke_key :: string
  ke_code :: string
  ke_location :: nat
  ke_repeat :: bool
  ke_ctrl :: bool
  ke_alt :: bool
  ke_meta :: bool
  ke_isComposing :: bool

datatype mouse_button = MLeft | MMiddle | MRight | MBack | MForward

datatype rdp_event =
    KeyEvent bool nat bool bool
  | MouseMove nat nat
  | MouseButton mouse_button bool nat nat
  | MouseWheel int int nat nat
  | Unicode string
  | ReleaseAllKeys

definition mapKeyboardCodeToRdp :: "string \<Rightarrow> rdp_mapping option" where
  "mapKeyboardCodeToRdp code = map_of KEY_CODE_TO_SCANCODE code"

definition DOM_KEY_LOCATION_RIGHT :: nat where "DOM_KEY_LOCATION_RIGHT = 2"

definition modifierCodeFromLocation :: "key_event \<Rightarrow> string option" where
  "modifierCodeFromLocation e =
     (let side = (if ke_location e = DOM_KEY_LOCATION_RIGHT then ''Right'' else ''Left'') in
      if ke_key e = ''Shift'' \<or> ke_code e = ''Shift'' then Some (''Shift'' @ side)
      else if ke_key e = ''Control'' \<or> ke_code e = ''Control'' then Some (''Control'' @ side)
      else if ke_key e = ''Alt'' \<or> ke_code e = ''Alt'' then Some (''Alt'' @ side)
      else if ke_key e = ''Meta'' \<or> ke_code e = ''Meta'' then Some (''Meta'' @ side)
      else None)"

definition mapKeyboardEventToRdp :: "key_event \<Rightarrow> rdp_mapping option" where
  "mapKeyboardEventToRdp e =
     (case mapKeyboardCodeToRdp (ke_code e) of Some m \<Rightarrow> Some m
      | None \<Rightarrow> Option.bind (modifierCodeFromLocation e) mapKeyboardCodeToRdp)"

definition buildRdpKeyEvent :: "key_event \<Rightarrow> bool \<Rightarrow> rdp_event option" where
  "buildRdpKeyEvent e down =
     map_option (\<lambda>m. KeyEvent down (rm_scanCode m) (case rm_extended m of None \<Rightarrow> False | Some x \<Rightarrow> x) (ke_repeat e))
       (mapKeyboardEventToRdp e)"

section \<open>RDP text input\<close>

definition PHYSICAL_TEXT_KEYS :: "string list" where
  "PHYSICAL_TEXT_KEYS = [''Backspace'', ''Enter'', ''Tab'', ''Escape'', ''Delete'', ''Insert'', ''Home'', ''End'',
     ''PageUp'', ''PageDown'', ''ArrowLeft'', ''ArrowRight'', ''ArrowUp'', ''ArrowDown'']"

definition MODIFIER_KEYS :: "string list" where
  "MODIFIER_KEYS = [''Shift'', ''Control'', ''Alt'', ''Meta'']"

definition LOCK_KEYS :: "string list" where
  "LOCK_KEYS = [''CapsLock'', ''NumLock'', ''ScrollLock'']"

definition shouldUsePhysicalRdpKey :: "key_event \<Rightarrow> bool" where
  "shouldUsePhysicalRdpKey e \<longleftrightarrow> ke_ctrl e \<or> ke_alt e \<or> ke_meta e
     \<or> ke_key e \<in> set MODIFIER_KEYS \<or> ke_key e \<in> set LOCK_KEYS \<or> ke_key e \<in> set PHYSICAL_TEXT_KEYS"

definition shouldFallbackToPrintableRdpKey :: "key_event \<Rightarrow> bool" where
  "shouldFallbackToPrintableRdpKey e \<longleftrightarrow>
     \<not> (ke_isComposing e \<or> shouldUsePhysicalRdpKey e) \<and> length (ke_key e) = 1"

definition buildRdpUnicodeInput :: "string \<Rightarrow> rdp_event list" where
  "buildRdpUnicodeInput t = (if length t > 0 then [Unicode t] else [])"

definition rdpBeforeInputText :: "string option \<Rightarrow> string \<Rightarrow> bool \<Rightarrow> string option" where
  "rdpBeforeInputText data inputType isComposing =
     (if isComposing then None
      else if inputType \<noteq> ''insertText'' \<and> inputType \<noteq> ''insertCompositionText'' then None
      else (case data of None \<Rightarrow> None | Some d \<Rightarrow> if d = [] then None else Some d))"

definition rdpCompositionCommitText :: "string \<Rightarrow> string option" where
  "rdpCompositionCommitText t = (if length t > 0 then Some t else None)"

definition rdpInputFallbackText :: "string \<Rightarrow> bool \<Rightarrow> string option" where
  "rdpInputFallbackText v composing = (if composing then None else if length v > 0 then Some v else None)"

section \<open>VNC keys and buttons\<close>

datatype vnc_event = VncKey nat bool | VncPointer nat nat nat | VncReleaseAllKeys

definition XK_F1 :: nat where "XK_F1 = 0xffbe"

definition SPECIAL_KEYSYMS :: "(string \<times> nat) list" where
  "SPECIAL_KEYSYMS =
    [(''Backspace'', 65288), (''Tab'', 65289), (''Enter'', 65293), (''Escape'', 65307), (''Home'', 65360),
     (''ArrowLeft'', 65361), (''ArrowUp'', 65362), (''ArrowRight'', 65363), (''ArrowDown'', 65364),
     (''PageUp'', 65365), (''PageDown'', 65366), (''End'', 65367), (''Insert'', 65379), (''ContextMenu'', 65383),
     (''NumLock'', 65407), (''Delete'', 65535), (''CapsLock'', 65509), (''ScrollLock'', 65300)]"

definition CODE_KEYSYMS :: "(string \<times> nat) list" where
  "CODE_KEYSYMS =
    [(''ShiftLeft'', 65505), (''ShiftRight'', 65506), (''ControlLeft'', 65507), (''ControlRight'', 65508),
     (''AltLeft'', 65513), (''AltRight'', 65514), (''MetaLeft'', 65515), (''MetaRight'', 65516)]"

definition unicodeCodePointToVncKeysym :: "nat \<Rightarrow> nat option" where
  "unicodeCodePointToVncKeysym codePoint =
     (if codePoint < 0x20 \<or> codePoint > 0x10ffff then None
      else if codePoint \<le> 0xff then Some codePoint
      else Some (0x01000000 OR codePoint))"

definition functionKeys :: "(string \<times> nat) list" where
  "functionKeys = map (\<lambda>n. (''F'' @ show_nat n, n)) [1..<13]"

text \<open>The event carries the key both as its name and as code points.\<close>

definition mapKeyboardEventToVncKeysym :: "string \<Rightarrow> nat list \<Rightarrow> string \<Rightarrow> nat option" where
  "mapKeyboardEventToVncKeysym key codePoints code =
     (case map_of CODE_KEYSYMS code of Some k \<Rightarrow> Some k
      | None \<Rightarrow> (case map_of SPECIAL_KEYSYMS key of Some k \<Rightarrow> Some k
        | None \<Rightarrow> (case map_of functionKeys key of Some n \<Rightarrow> Some (XK_F1 + n - 1)
          | None \<Rightarrow> if length codePoints \<noteq> 1 then None
                   else unicodeCodePointToVncKeysym (hd codePoints))))"

definition buildVncCompositionKeyEvents :: "nat list \<Rightarrow> vnc_event list" where
  "buildVncCompositionKeyEvents text =
     concat (map (\<lambda>c. case unicodeCodePointToVncKeysym c of None \<Rightarrow> []
                     | Some k \<Rightarrow> [VncKey k True, VncKey k False]) text)"

definition maskBit :: "nat \<Rightarrow> nat \<Rightarrow> nat" where
  "maskBit m button =
     (let m = (if button = 0 then m OR 1 else m);
          m = (if button = 1 then m OR 2 else m)
      in if button = 2 then m OR 4 else m)"

definition pointerButtonMask :: "nat list \<Rightarrow> nat" where
  "pointerButtonMask buttons = foldl maskBit 0 buttons"

section \<open>Pointer positions\<close>

record vrect =
  vr_left :: rat
  vr_top :: rat
  vr_width :: rat
  vr_height :: rat

datatype viewport_scale = ScaleFit | ScaleActual | ScaleStretch

text \<open>\<open>rect\<close> is the bounding rectangle of the canvas and the other sizes its pixels.\<close>

definition getRemoteDesktopContentRect :: "vrect \<Rightarrow> nat \<Rightarrow> nat \<Rightarrow> viewport_scale \<Rightarrow> vrect" where
  "getRemoteDesktopContentRect rect desktopWidth desktopHeight scaleMode =
     (if vr_width rect \<le> 0 \<or> vr_height rect \<le> 0 \<or> desktopWidth \<le> 0 \<or> desktopHeight \<le> 0 then rect
      else if scaleMode = ScaleStretch \<or> scaleMode = ScaleActual then rect
      else (let scale = min (vr_width rect / of_nat desktopWidth) (vr_height rect / of_nat desktopHeight);
                width = of_nat desktopWidth * scale; height = of_nat desktopHeight * scale
            in \<lparr>vr_left = vr_left rect + (vr_width rect - width) / 2,
                vr_top = vr_top rect + (vr_height rect - height) / 2, vr_width = width, vr_height = height\<rparr>))"

definition pixelCoordinate :: "rat \<Rightarrow> rat \<Rightarrow> nat \<Rightarrow> rat \<Rightarrow> int" where
  "pixelCoordinate start extent desktop client =
     (let css = clamp 0 extent (client - start)
      in clamp 0 (max 0 (int desktop - 1)) \<lfloor>css / extent * of_nat desktop\<rfloor>)"

definition mapClientPointToRemoteDesktopPixel :: "vrect \<Rightarrow> nat \<Rightarrow> nat \<Rightarrow> rat \<Rightarrow> rat \<Rightarrow> int \<times> int" where
  "mapClientPointToRemoteDesktopPixel rect desktopWidth desktopHeight clientX clientY =
     (if vr_width rect \<le> 0 \<or> vr_height rect \<le> 0 \<or> desktopWidth \<le> 0 \<or> desktopHeight \<le> 0 then (0, 0)
      else (pixelCoordinate (vr_left rect) (vr_width rect) desktopWidth clientX,
            pixelCoordinate (vr_top rect) (vr_height rect) desktopHeight clientY))"

definition mapClientEventToRemoteDesktopPixel :: "vrect \<Rightarrow> nat \<Rightarrow> nat \<Rightarrow> viewport_scale \<Rightarrow> rat \<Rightarrow> rat \<Rightarrow> int \<times> int" where
  "mapClientEventToRemoteDesktopPixel rect desktopWidth desktopHeight scaleMode clientX clientY =
     mapClientPointToRemoteDesktopPixel (getRemoteDesktopContentRect rect desktopWidth desktopHeight scaleMode)
       desktopWidth desktopHeight clientX clientY"

section \<open>Resizing the remote desktop\<close>

definition RDP_MIN_WIDTH :: int where "RDP_MIN_WIDTH = 640"
definition RDP_MIN_HEIGHT :: int where "RDP_MIN_HEIGHT = 480"
definition RDP_MAX_WIDTH :: int where "RDP_MAX_WIDTH = 7680"
definition RDP_MAX_HEIGHT :: int where "RDP_MAX_HEIGHT = 4320"

record resize_input =
  ri_mode :: "string option"
  ri_visible :: bool
  ri_containerWidth :: rat
  ri_containerHeight :: rat
  ri_remoteWidth :: "int option"
  ri_remoteHeight :: "int option"
  ri_lastWidth :: "int option"
  ri_lastHeight :: "int option"
  ri_allowInitialResize :: "bool option"
  ri_disabled :: bool
  ri_minDelta :: "int option"

record resize_decision =
  rd_shouldResize :: bool
  rd_width :: int
  rd_height :: int

definition normalizeRdpDisplayMode :: "string option \<Rightarrow> string" where
  "normalizeRdpDisplayMode m = (if m = Some ''fit-window'' then ''fit-window'' else ''fixed'')"

text \<open>\<open>Math.round\<close> rounds halves up.\<close>

definition roundHalfUp :: "rat \<Rightarrow> int" where
  "roundHalfUp x = \<lfloor>x + 1 / 2\<rfloor>"

definition or_int :: "int option \<Rightarrow> int \<Rightarrow> int" where
  "or_int x d = (case x of None \<Rightarrow> d | Some v \<Rightarrow> v)"

definition closeTo :: "int option \<Rightarrow> int \<Rightarrow> int \<Rightarrow> bool" where
  "closeTo remote wanted minDelta \<longleftrightarrow> (case remote of None \<Rightarrow> False | Some r \<Rightarrow> \<bar>r - wanted\<bar> < minDelta)"

definition or_opt :: "'a option \<Rightarrow> 'a option \<Rightarrow> 'a option" where
  "or_opt x y = (case x of None \<Rightarrow> y | Some v \<Rightarrow> Some v)"

definition decideFitWindowResize :: "resize_input \<Rightarrow> resize_decision" where
  "decideFitWindowResize i =
     (if ri_disabled i \<or> normalizeRdpDisplayMode (ri_mode i) \<noteq> ''fit-window'' \<or> \<not> ri_visible i
      then \<lparr>rd_shouldResize = False, rd_width = or_int (ri_lastWidth i) 0, rd_height = or_int (ri_lastHeight i) 0\<rparr>
      else (let width = clamp RDP_MIN_WIDTH RDP_MAX_WIDTH (roundHalfUp (ri_containerWidth i));
                height = clamp RDP_MIN_HEIGHT RDP_MAX_HEIGHT (roundHalfUp (ri_containerHeight i));
                minDelta = or_int (ri_minDelta i) 0;
                remoteWidth = or_opt (ri_remoteWidth i) (ri_lastWidth i);
                remoteHeight = or_opt (ri_remoteHeight i) (ri_lastHeight i)
            in if minDelta > 0 \<and> closeTo remoteWidth width minDelta \<and> closeTo remoteHeight height minDelta
               then \<lparr>rd_shouldResize = False, rd_width = width, rd_height = height\<rparr>
               else if \<not> (ri_lastWidth i \<noteq> None \<and> ri_lastHeight i \<noteq> None) \<and> ri_allowInitialResize i = Some False
               then \<lparr>rd_shouldResize = False, rd_width = width, rd_height = height\<rparr>
               else \<lparr>rd_shouldResize = \<not> (ri_lastWidth i = Some width \<and> ri_lastHeight i = Some height),
                     rd_width = width, rd_height = height\<rparr>))"

definition shouldDisableDynamicResizeAfterState :: "string \<Rightarrow> int option \<Rightarrow> int \<Rightarrow> int option \<Rightarrow> bool" where
  "shouldDisableDynamicResizeAfterState state lastResizeAt now failureWindowMs =
     (if state \<noteq> ''reconnecting'' \<and> state \<noteq> ''failed'' then False
      else (case lastResizeAt of None \<Rightarrow> False
            | Some t \<Rightarrow> now - t \<ge> 0 \<and> now - t \<le> or_int failureWindowMs 3000))"

definition keepDesktopSizeIfUnchanged :: "int \<times> int \<Rightarrow> int \<times> int \<Rightarrow> int \<times> int" where
  "keepDesktopSizeIfUnchanged current next = (if current = next then current else next)"

section \<open>Facts about the tables\<close>

lemma scanCodeTable_distinct: "distinct (map fst scanCodeTable)" "distinct (map snd scanCodeTable)"
  by code_simp+

lemma rdp_code_inj:
  assumes "mapKeyboardCodeToRdp a = Some m" and "mapKeyboardCodeToRdp b = Some m"
  shows "a = b"
proof -
  have "(a, rm_scanCode m, rm_extended m) \<in> set scanCodeTable" "(b, rm_scanCode m, rm_extended m) \<in> set scanCodeTable"
    using assms unfolding mapKeyboardCodeToRdp_def KEY_CODE_TO_SCANCODE_def
    by (auto dest!: map_of_SomeD simp: keyRow_def split: prod.splits)
  then have "(a, rm_scanCode m, rm_extended m) = (b, rm_scanCode m, rm_extended m)"
    using scanCodeTable_distinct(2) unfolding distinct_map inj_on_def by (metis snd_conv)
  then show ?thesis by simp
qed

lemma high_bit_or:
  assumes "c < 2 ^ k"
  shows "2 ^ k OR c = 2 ^ k + (c :: nat)"
proof -
  have "\<not> bit ((2 :: nat) ^ k) n \<or> \<not> bit c n" for n
    using assms by (cases "n = k") (simp_all add: bit_iff_odd [of c] bit_exp_iff)
  then show ?thesis by (simp add: disjunctive_add)
qed

lemma vnc_keysym: "unicodeCodePointToVncKeysym c =
  (if c < 0x20 \<or> c > 0x10ffff then None else if c \<le> 0xff then Some c else Some (0x01000000 + c))"
  using high_bit_or [of c 24] by (simp add: unicodeCodePointToVncKeysym_def)

lemma vnc_keysym_inj:
  "unicodeCodePointToVncKeysym c = Some k \<Longrightarrow> unicodeCodePointToVncKeysym d = Some k \<Longrightarrow> c = d"
  by (auto simp: vnc_keysym split: if_splits)

section \<open>Pixel positions\<close>

lemma pixel_bounds: "0 < desktop \<Longrightarrow> 0 \<le> pixelCoordinate s e desktop x \<and> pixelCoordinate s e desktop x < int desktop"
  using clamp_bounds [of "0 :: int" "max 0 (int desktop - 1)"] by (auto simp: pixelCoordinate_def Let_def max_def)

text \<open>Every point inside the cell of pixel \<open>k\<close> is mapped to it.\<close>

lemma pixel_cell:
  assumes e: "0 < e" and k: "k < desktop"
    and x: "s + of_nat k * (e / of_nat desktop) \<le> x" "x < s + (of_nat k + 1) * (e / of_nat desktop)"
  shows "pixelCoordinate s e desktop x = int k"
proof -
  let ?c = "x - s"
  have d: "0 < (of_nat desktop :: rat)" using k by simp
  have lo: "0 \<le> of_nat k * (e / of_nat desktop)" using e d by simp
  have "(of_nat k + 1) * (e / of_nat desktop) \<le> of_nat desktop * (e / of_nat desktop)"
    using k e d by (intro mult_right_mono) (simp_all add: of_nat_le_iff [symmetric, where ?'a = rat] del: of_nat_le_iff)
  then have css: "clamp 0 e ?c = ?c" using x lo d by (auto simp: clamp_def)
  have "of_nat k \<le> ?c / e * of_nat desktop" "?c / e * of_nat desktop < of_nat k + 1"
    using x e d by (simp_all add: field_simps)
  then have "\<lfloor>?c / e * of_nat desktop\<rfloor> = int k" by (simp add: floor_eq_iff)
  then show ?thesis using k unfolding pixelCoordinate_def css Let_def by (simp add: clamp_def)
qed

section \<open>Properties\<close>

text \<open>keys are not confused on the way to a remote desktop. Two keyboard codes with a scan code
  have different scan codes (the extended flag included), pressing and releasing a key send the
  same code, and two characters with a VNC key symbol have different key symbols.\<close>

theorem remote_keys_unambiguous:
  "(mapKeyboardCodeToRdp a = Some m \<and> mapKeyboardCodeToRdp b = Some m \<longrightarrow> a = b)
   \<and> (\<forall>scan ext rep. buildRdpKeyEvent e True = Some (KeyEvent True scan ext rep) \<longleftrightarrow>
        buildRdpKeyEvent e False = Some (KeyEvent False scan ext rep))
   \<and> (unicodeCodePointToVncKeysym c = Some k \<and> unicodeCodePointToVncKeysym d = Some k \<longrightarrow> c = d)"
  using rdp_code_inj vnc_keysym_inj by (auto simp: buildRdpKeyEvent_def)

theorem remote_keys_unambiguous_witness:
  "mapKeyboardCodeToRdp ''Enter'' \<noteq> mapKeyboardCodeToRdp ''NumpadEnter''
   \<and> unicodeCodePointToVncKeysym 0x20ac \<noteq> unicodeCodePointToVncKeysym 0x20ad"
proof -
  have "mapKeyboardCodeToRdp ''Enter'' = Some \<lparr>rm_scanCode = 28, rm_extended = None\<rparr>" by code_simp
  then show ?thesis
    using remote_keys_unambiguous [of "''Enter''" "\<lparr>rm_scanCode = 28, rm_extended = None\<rparr>" "''NumpadEnter''" undefined
        "0x20ac" "0x010020ac" "0x20ad"] by (auto simp: vnc_keysym)
qed

text \<open>pointer positions. Every pointer position is mapped to a pixel of the desktop, every
  position inside the area that shows a pixel is mapped to that pixel, and in fit mode the area
  keeps the aspect ratio of the desktop and lies centred inside the canvas.\<close>

theorem pointer_hits_pixel:
  assumes "0 < w" and "0 < h" and "0 < vr_width r" and "0 < vr_height r"
  shows "(case mapClientEventToRemoteDesktopPixel r w h mode cx cy of (x, y) \<Rightarrow>
            0 \<le> x \<and> x < int w \<and> 0 \<le> y \<and> y < int h)
    \<and> (let q = getRemoteDesktopContentRect r w h mode in
        (i < w \<and> j < h \<and> vr_left q + of_nat i * (vr_width q / of_nat w) \<le> cx \<and> cx < vr_left q + (of_nat i + 1) * (vr_width q / of_nat w)
           \<and> vr_top q + of_nat j * (vr_height q / of_nat h) \<le> cy \<and> cy < vr_top q + (of_nat j + 1) * (vr_height q / of_nat h)
         \<longrightarrow> mapClientEventToRemoteDesktopPixel r w h mode cx cy = (int i, int j))
        \<and> (mode = ScaleFit \<longrightarrow> vr_width q * of_nat h = vr_height q * of_nat w
            \<and> vr_left q - vr_left r = (vr_left r + vr_width r) - (vr_left q + vr_width q)
            \<and> vr_left r \<le> vr_left q \<and> vr_top r \<le> vr_top q))"
proof -
  define q where "q = getRemoteDesktopContentRect r w h mode"
  let ?s = "min (vr_width r / of_nat w) (vr_height r / of_nat h)"
  have s: "0 < ?s" "of_nat w * ?s \<le> vr_width r" "of_nat h * ?s \<le> vr_height r"
    using assms by (auto simp: min_def field_simps)
  have fit: "q = \<lparr>vr_left = vr_left r + (vr_width r - of_nat w * ?s) / 2, vr_top = vr_top r + (vr_height r - of_nat h * ?s) / 2,
      vr_width = of_nat w * ?s, vr_height = of_nat h * ?s\<rparr>" if "mode = ScaleFit"
    using assms that by (simp add: q_def getRemoteDesktopContentRect_def Let_def)
  have other: "q = r" if "mode \<noteq> ScaleFit"
    using assms that by (cases mode) (simp_all add: q_def getRemoteDesktopContentRect_def)
  have pos: "0 < vr_width q" "0 < vr_height q" using fit other s assms by (cases "mode = ScaleFit"; simp)+
  have m: "mapClientEventToRemoteDesktopPixel r w h mode cx cy =
      (pixelCoordinate (vr_left q) (vr_width q) w cx, pixelCoordinate (vr_top q) (vr_height q) h cy)"
    using assms pos by (simp add: mapClientEventToRemoteDesktopPixel_def mapClientPointToRemoteDesktopPixel_def flip: q_def)
  show ?thesis unfolding m q_def [symmetric] Let_def
    using pixel_bounds assms(1,2) pixel_cell [OF pos(1)] pixel_cell [OF pos(2)] fit s
    by (auto simp: field_simps)
qed

theorem pointer_hits_pixel_witness:
  "mapClientEventToRemoteDesktopPixel \<lparr>vr_left = 10, vr_top = 20, vr_width = 200, vr_height = 100\<rparr> 100 100 ScaleFit 61 20 = (1, 0)"
  using pointer_hits_pixel [of 100 100 "\<lparr>vr_left = 10, vr_top = 20, vr_width = 200, vr_height = 100\<rparr>" ScaleFit 61 20 1 0]
  by (simp add: getRemoteDesktopContentRect_def Let_def min_def)

text \<open>fitting the desktop to the window cannot loop. A requested size is within the limits of the
  protocol, a request is made only when it differs from the last one, and once the requested size
  is the last one the same input makes no request.\<close>

theorem resize_settles:
  "rd_shouldResize (decideFitWindowResize i) \<longrightarrow>
     640 \<le> rd_width (decideFitWindowResize i) \<and> rd_width (decideFitWindowResize i) \<le> 7680
     \<and> 480 \<le> rd_height (decideFitWindowResize i) \<and> rd_height (decideFitWindowResize i) \<le> 4320
     \<and> (ri_lastWidth i, ri_lastHeight i) \<noteq> (Some (rd_width (decideFitWindowResize i)), Some (rd_height (decideFitWindowResize i)))
     \<and> \<not> rd_shouldResize (decideFitWindowResize (i\<lparr>ri_lastWidth := Some (rd_width (decideFitWindowResize i)),
          ri_lastHeight := Some (rd_height (decideFitWindowResize i))\<rparr>))"
  by (auto simp: decideFitWindowResize_def Let_def clamp_def RDP_MIN_WIDTH_def RDP_MIN_HEIGHT_def RDP_MAX_WIDTH_def
      RDP_MAX_HEIGHT_def)

definition demo_resize :: resize_input where
  "demo_resize = \<lparr>ri_mode = Some ''fit-window'', ri_visible = True, ri_containerWidth = 1000, ri_containerHeight = 100,
     ri_remoteWidth = None, ri_remoteHeight = None, ri_lastWidth = None, ri_lastHeight = None,
     ri_allowInitialResize = None, ri_disabled = False, ri_minDelta = None\<rparr>"

theorem resize_settles_witness:
  "\<not> rd_shouldResize (decideFitWindowResize (demo_resize\<lparr>ri_lastWidth := Some 1000, ri_lastHeight := Some 480\<rparr>))"
proof -
  have "\<lfloor>1000 + 1 / 2 :: rat\<rfloor> = 1000" "\<lfloor>100 + 1 / 2 :: rat\<rfloor> = 100" by (simp_all add: floor_eq_iff)
  then have "decideFitWindowResize demo_resize = \<lparr>rd_shouldResize = True, rd_width = 1000, rd_height = 480\<rparr>"
    by (simp add: decideFitWindowResize_def demo_resize_def normalizeRdpDisplayMode_def or_int_def roundHalfUp_def clamp_def
        RDP_MIN_WIDTH_def RDP_MIN_HEIGHT_def RDP_MAX_WIDTH_def RDP_MAX_HEIGHT_def)
  with resize_settles [of demo_resize] show ?thesis by simp
qed

end
