(* ===== verification/File_Paths.thy ===== *)
theory File_Paths
  imports Terminal_Command
begin

text \<open>
  Paths of the file explorer (\<open>components/panel/file-explorer/model.ts\<close>): normalization, parent
  directories, joining, containment, breadcrumbs, the history of visited directories, the
  snapshot kept per session, and the order and search of entries.

  Paths are lists of code units: 47 is the slash, 92 the backslash, 58 the colon.
  \<open>toLocaleLowerCase\<close> and \<open>localeCompare\<close>, which depend on the locale, are parameters.
\<close>

section \<open>Normal forms\<close>

datatype explorer_backend = RemoteFs | LocalFs

definition stripTrailing :: "(nat \<Rightarrow> bool) \<Rightarrow> js_text \<Rightarrow> js_text" where
  "stripTrailing P t = rev (dropWhile P (rev t))"

definition isSlash :: "nat \<Rightarrow> bool" where
  "isSlash c \<longleftrightarrow> c = 47 \<or> c = 92"

text \<open>\<open>split(...).filter(Boolean)\<close>.\<close>

definition pathParts :: "(nat \<Rightarrow> bool) \<Rightarrow> js_text \<Rightarrow> js_text list" where
  "pathParts P t = filter (\<lambda>w. w \<noteq> []) (splitOn P t)"

text \<open>\<open>lastIndexOf\<close> of a single unit.\<close>

definition lastIndex :: "nat \<Rightarrow> js_text \<Rightarrow> int" where
  "lastIndex c t = (if c \<in> set t then int (length t - 1 - length (takeWhile (\<lambda>d. d \<noteq> c) (rev t))) else - 1)"

definition buildRemoteUploadPath :: "js_text \<Rightarrow> js_text \<Rightarrow> js_text" where
  "buildRemoteUploadPath remoteDir name = (if remoteDir = [47] then 47 # name else remoteDir @ 47 # name)"

definition normalizeDirectoryPath :: "js_text \<Rightarrow> js_text" where
  "normalizeDirectoryPath path =
     (if path = [] \<or> path = [47] then path
      else (let normalized = stripTrailing (\<lambda>c. c = 47) path in if normalized = [] then [47] else normalized))"

definition isWindowsDriveRoot :: "js_text \<Rightarrow> bool" where
  "isWindowsDriveRoot path = (case path of
     [a, b] \<Rightarrow> isLetter a \<and> b = 58 | [a, b, c] \<Rightarrow> isLetter a \<and> b = 58 \<and> isSlash c | _ \<Rightarrow> False)"

definition normalizeWindowsDriveRoot :: "js_text \<Rightarrow> js_text" where
  "normalizeWindowsDriveRoot path = (if isWindowsDriveRoot path then take 2 path @ [92] else path)"

definition isUncRoot :: "js_text \<Rightarrow> bool" where
  "isUncRoot path =
     (let normalized = map (\<lambda>c. if c = 47 then 92 else c) path in
      if \<not> starts_with normalized [92, 92] then False
      else length (pathParts (\<lambda>c. c = 92) normalized) \<le> 2)"

definition getLocalSeparator :: "js_text \<Rightarrow> nat" where
  "getLocalSeparator path = (if 92 \<in> set path \<or> isWindowsDriveRoot path \<or> starts_with path [92, 92] then 92 else 47)"

definition normalizeExplorerPath :: "explorer_backend \<Rightarrow> js_text \<Rightarrow> js_text" where
  "normalizeExplorerPath backend path =
     (if backend = RemoteFs then normalizeDirectoryPath path
      else (let trimmed = trim path in
            if trimmed = [] then []
            else if trimmed = [47] \<or> trimmed = [92] then trimmed
            else if isWindowsDriveRoot trimmed then normalizeWindowsDriveRoot trimmed
            else if isUncRoot trimmed
            then (if isSlash (last trimmed) then stripTrailing isSlash trimmed @ [92] else trimmed)
            else (let normalized = stripTrailing isSlash trimmed in if normalized = [] then trimmed else normalized)))"

definition getRemoteParentDirectory :: "js_text \<Rightarrow> js_text" where
  "getRemoteParentDirectory path =
     (let normalized = normalizeDirectoryPath path in
      if normalized = [] \<or> normalized = [47] then [47]
      else (let index = lastIndex 47 normalized in if index \<le> 0 then [47] else take (nat index) normalized))"

definition startsDrive :: "js_text \<Rightarrow> bool" where
  "startsDrive path = (case path of a # b # _ \<Rightarrow> isLetter a \<and> b = 58 | _ \<Rightarrow> False)"

definition getExplorerParentDirectory :: "explorer_backend \<Rightarrow> js_text \<Rightarrow> js_text" where
  "getExplorerParentDirectory backend path =
     (if backend = RemoteFs then getRemoteParentDirectory path
      else (let normalized = normalizeExplorerPath backend path in
            if normalized = [] \<or> normalized = [47] \<or> normalized = [92] \<or> isWindowsDriveRoot normalized then normalized
            else if isUncRoot normalized then normalized
            else (let lastSlash = max (lastIndex 47 normalized) (lastIndex 92 normalized) in
                  if lastSlash < 0 then normalized
                  else if lastSlash = 0 then take 1 normalized
                  else if lastSlash = 2 \<and> startsDrive normalized then take 2 normalized @ [92]
                  else take (nat lastSlash) normalized)))"

definition joinExplorerPath :: "explorer_backend \<Rightarrow> js_text \<Rightarrow> js_text \<Rightarrow> js_text" where
  "joinExplorerPath backend basePath name =
     (if backend = RemoteFs then (if basePath = [47] then 47 # name else basePath @ 47 # name)
      else (let normalizedBase = normalizeExplorerPath backend basePath;
                separator = getLocalSeparator normalizedBase
            in if normalizedBase = [] then name
               else if isSlash (last normalizedBase) then normalizedBase @ name
               else normalizedBase @ separator # name))"

definition startsDriveSlash :: "js_text \<Rightarrow> bool" where
  "startsDriveSlash path = (case path of a # b # c # _ \<Rightarrow> isLetter a \<and> b = 58 \<and> isSlash c | _ \<Rightarrow> False)"

definition isLocalWindowsStylePath :: "js_text \<Rightarrow> bool" where
  "isLocalWindowsStylePath path \<longleftrightarrow> startsDriveSlash path \<or> starts_with path [92, 92] \<or> 92 \<in> set path"

section \<open>Moving\<close>

record move_item =
  mi_oldPath :: js_text
  mi_oldRawPathToken :: "js_text option"
  mi_name :: js_text
  mi_isDirectory :: bool

definition buildMoveTargetPath :: "explorer_backend \<Rightarrow> js_text \<Rightarrow> js_text \<Rightarrow> js_text" where
  "buildMoveTargetPath backend targetDirectory entryName =
     joinExplorerPath backend (normalizeExplorerPath backend targetDirectory) entryName"

text \<open>A move operation is the item with its new path.\<close>

definition buildMoveOperations :: "explorer_backend \<Rightarrow> move_item list \<Rightarrow> js_text \<Rightarrow> (move_item \<times> js_text) list" where
  "buildMoveOperations backend items targetDirectory =
     map (\<lambda>item. (item, buildMoveTargetPath backend targetDirectory (mi_name item))) items"

definition isMoveToSameDirectory :: "(js_text \<Rightarrow> js_text) \<Rightarrow> explorer_backend \<Rightarrow> js_text \<Rightarrow> js_text \<Rightarrow> bool" where
  "isMoveToSameDirectory lower backend sourceDirectory targetDirectory =
     (let s = normalizeExplorerPath backend sourceDirectory; t = normalizeExplorerPath backend targetDirectory in
      if s = [] \<or> t = [] then False
      else if backend = RemoteFs then s = t
      else if isLocalWindowsStylePath s \<or> isLocalWindowsStylePath t then lower s = lower t
      else s = t)"

definition buildMoveSuccessRefreshPlan ::
    "explorer_backend \<Rightarrow> js_text \<Rightarrow> js_text \<Rightarrow> (js_text \<times> js_text) option" where
  "buildMoveSuccessRefreshPlan backend sourceDirectory targetDirectory =
     (let s = normalizeExplorerPath backend sourceDirectory in
      if s = [] then None else Some (s, normalizeExplorerPath backend targetDirectory))"

definition pathStartsWithDirectory :: "(js_text \<Rightarrow> js_text) \<Rightarrow> explorer_backend \<Rightarrow> js_text \<Rightarrow> js_text \<Rightarrow> bool" where
  "pathStartsWithDirectory lower backend path directory =
     (let p = normalizeExplorerPath backend path; d = normalizeExplorerPath backend directory in
      if p = [] \<or> d = [] then False
      else if p = d then True
      else (let pre = (if isSlash (last d) then d else d @ [if backend = RemoteFs then 47 else getLocalSeparator d]) in
            if backend = RemoteFs then starts_with p pre
            else if isLocalWindowsStylePath p \<or> isLocalWindowsStylePath d
            then starts_with (lower p) (lower pre)
            else starts_with p pre))"

section \<open>Breadcrumbs\<close>

record breadcrumb =
  bc_id :: js_text
  bc_label :: js_text
  bc_path :: js_text
  bc_isRoot :: bool
  bc_isCurrent :: bool

definition makeSegment :: "explorer_backend \<Rightarrow> js_text \<Rightarrow> js_text \<Rightarrow> js_text \<Rightarrow> bool \<Rightarrow> breadcrumb" where
  "makeSegment backend current label path isRoot =
     (let n = normalizeExplorerPath backend path in
      \<lparr>bc_id = (if n \<noteq> [] then n else if path \<noteq> [] then path else label), bc_label = label,
       bc_path = (if n \<noteq> [] then n else path), bc_isRoot = isRoot, bc_isCurrent = (n = current)\<rparr>)"

text \<open>The loop that accumulates the path over the parts.\<close>

fun crumbLoop :: "explorer_backend \<Rightarrow> js_text \<Rightarrow> js_text \<Rightarrow> js_text list \<Rightarrow> breadcrumb list" where
  "crumbLoop backend current accumulated [] = []"
| "crumbLoop backend current accumulated (part # parts) =
     (let accumulated = joinExplorerPath backend accumulated part in
      makeSegment backend current part accumulated False # crumbLoop backend current accumulated parts)"

definition buildBreadcrumbSegments :: "explorer_backend \<Rightarrow> js_text \<Rightarrow> js_text \<Rightarrow> breadcrumb list" where
  "buildBreadcrumbSegments backend currentPath homeDir =
     (let p = normalizeExplorerPath backend (if currentPath \<noteq> [] then currentPath else homeDir);
          segment = makeSegment backend p; walk = crumbLoop backend p
      in if p = [] then []
         else if backend = RemoteFs
         then segment [47] [47] True # walk [47] (pathParts (\<lambda>c. c = 47) (if p = [47] then [] else drop 1 p))
         else (let n = map (\<lambda>c. if c = 47 then 92 else c) p in
           if starts_with n [92, 92]
           then (case pathParts (\<lambda>c. c = 92) n of
                   a # b # rest \<Rightarrow> (let r = [92, 92] @ a @ 92 # b in segment r r True # walk r rest)
                 | _ \<Rightarrow> [segment p p True])
           else if startsDrive p
           then (let r = take 2 p @ [92]; rest = (case drop 2 p of c # cs \<Rightarrow> if isSlash c then cs else c # cs | [] \<Rightarrow> [])
                 in segment (take 2 p) r True # walk r (pathParts isSlash rest))
           else if isSlash (hd p)
           then (let r = take 1 p in segment r r True # walk r (pathParts isSlash (drop 1 p)))
           else (case pathParts isSlash p of [] \<Rightarrow> []
                 | a # rest \<Rightarrow> segment a a True # walk a rest)))"

section \<open>History and snapshots\<close>

record file_entry =
  fe_name :: js_text
  fe_is_dir :: bool
  fe_is_symlink :: bool
  fe_size :: int
  fe_permissions :: js_text
  fe_owner :: js_text
  fe_group :: js_text
  fe_mtime :: int
  fe_raw_path_token :: "js_text option"

definition MAX_VISITED_HISTORY :: nat where "MAX_VISITED_HISTORY = 30"

definition PARENT_DIRECTORY_ENTRY_NAME :: js_text where "PARENT_DIRECTORY_ENTRY_NAME = js ''..''"

definition isParentDirectoryEntry :: "file_entry \<Rightarrow> bool" where
  "isParentDirectoryEntry e \<longleftrightarrow> fe_name e = PARENT_DIRECTORY_ENTRY_NAME"

text \<open>The directory to load when the terminal changes its directory, if any.\<close>

definition syncExplorerDirectoryToTerminalCwdChange ::
    "explorer_backend \<Rightarrow> js_text \<Rightarrow> js_text \<Rightarrow> js_text option" where
  "syncExplorerDirectoryToTerminalCwdChange backend currentPath cwd =
     (let n = normalizeExplorerPath backend cwd in
      if n = [] \<or> n = normalizeExplorerPath backend currentPath then None else Some n)"

text \<open>What reading the directory gives is an argument: an error, no directory, or a directory.\<close>

definition syncExplorerDirectoryToTerminalCwd ::
    "bool \<Rightarrow> bool \<Rightarrow> string option \<Rightarrow> explorer_backend \<Rightarrow> js_text \<Rightarrow> (unit + js_text option) \<Rightarrow> js_text option" where
  "syncExplorerDirectoryToTerminalCwd enabled canBrowseFiles sessionId backend currentPath reading =
     (if \<not> enabled \<or> \<not> canBrowseFiles \<or> sessionId = None \<or> sessionId = Some [] then None
      else (case reading of Inl _ \<Rightarrow> None
            | Inr c \<Rightarrow> (let cwd = normalizeExplorerPath backend (case c of None \<Rightarrow> [] | Some d \<Rightarrow> d) in
                       if cwd = [] \<or> cwd = normalizeExplorerPath backend currentPath then None else Some cwd)))"

definition pushVisitedHistory :: "explorer_backend \<Rightarrow> js_text list \<Rightarrow> js_text \<Rightarrow> js_text list" where
  "pushVisitedHistory backend visited path =
     (let n = normalizeExplorerPath backend path in
      if n = [] then visited
      else (let xs = n # filter (\<lambda>e. e \<noteq> n) visited in
            if length xs > MAX_VISITED_HISTORY then take MAX_VISITED_HISTORY xs else xs))"

record session_cache =
  sc_files :: "file_entry list"
  sc_currentPath :: js_text
  sc_homeDir :: js_text
  sc_history :: "js_text list"
  sc_historyIndex :: nat
  sc_visitedHistory :: "js_text list"

definition buildSessionCacheSnapshot ::
    "explorer_backend \<Rightarrow> file_entry list \<Rightarrow> js_text \<Rightarrow> js_text \<Rightarrow> js_text list \<Rightarrow> int \<Rightarrow> js_text list \<Rightarrow> session_cache option" where
  "buildSessionCacheSnapshot backend files currentPath homeDir history historyIndex visitedHistory =
     (let cur = normalizeExplorerPath backend currentPath; home = normalizeExplorerPath backend homeDir;
          hist = filter (\<lambda>e. e \<noteq> []) (map (normalizeExplorerPath backend) history)
      in if cur = [] then None
         else (let nextHistory = (if hist \<noteq> [] then hist else [cur]) in
               Some \<lparr>sc_files = files, sc_currentPath = cur, sc_homeDir = (if home \<noteq> [] then home else cur),
                 sc_history = nextHistory,
                 sc_historyIndex = nat (min (max historyIndex 0) (int (length nextHistory) - 1)),
                 sc_visitedHistory = take MAX_VISITED_HISTORY
                   (filter (\<lambda>e. e \<noteq> []) (map (normalizeExplorerPath backend) visitedHistory))\<rparr>))"

section \<open>Order and search\<close>

datatype sort_column = ByName | ByMtime | BySize | ByPermissions | ByOwner | ByGroup

record sort_mode =
  sm_column :: sort_column
  sm_ascending :: bool

definition compareFileEntries ::
    "(js_text \<Rightarrow> js_text \<Rightarrow> int) \<Rightarrow> sort_mode \<Rightarrow> file_entry \<Rightarrow> file_entry \<Rightarrow> int" where
  "compareFileEntries natural mode l r =
     (if fe_is_dir l \<noteq> fe_is_dir r then (if fe_is_dir l then - 1 else 1)
      else (let result = (case sm_column mode of
                  ByMtime \<Rightarrow> fe_mtime l - fe_mtime r
                | BySize \<Rightarrow> fe_size l - fe_size r
                | ByPermissions \<Rightarrow> natural (fe_permissions l) (fe_permissions r)
                | ByOwner \<Rightarrow> natural (fe_owner l) (fe_owner r)
                | ByGroup \<Rightarrow> natural (fe_group l) (fe_group r)
                | ByName \<Rightarrow> natural (fe_name l) (fe_name r))
            in if result \<noteq> 0 then (if sm_ascending mode then result else - result)
               else natural (fe_name l) (fe_name r)))"

definition matchesFileSearch :: "(js_text \<Rightarrow> js_text) \<Rightarrow> file_entry \<Rightarrow> js_text \<Rightarrow> bool" where
  "matchesFileSearch lower e query =
     (let q = lower (trim query) in if q = [] then True else has_text (lower (fe_name e)) q)"

section \<open>Absolute paths with slashes\<close>

text \<open>The absolute path given by the names of its components.\<close>

definition rpath :: "js_text list \<Rightarrow> js_text" where
  "rpath ns = (if ns = [] then [47] else concat (map (\<lambda>n. 47 # n) ns))"

definition remote_name :: "js_text \<Rightarrow> bool" where
  "remote_name n \<longleftrightarrow> n \<noteq> [] \<and> 47 \<notin> set n"

definition posix_name :: "js_text \<Rightarrow> bool" where
  "posix_name n \<longleftrightarrow> n \<noteq> [] \<and> 47 \<notin> set n \<and> 92 \<notin> set n \<and> \<not> isSpace (last n)"

lemma rpath_snoc: "rpath (ns @ [n]) = (if ns = [] then 47 # n else rpath ns @ 47 # n)"
  by (simp add: rpath_def)

lemma rpath_nonempty [simp]: "rpath ns \<noteq> []"
  by (cases ns) (auto simp: rpath_def)

lemma hd_rpath [simp]: "hd (rpath ns) = 47"
  by (cases ns) (auto simp: rpath_def)

lemma last_rpath: "ns \<noteq> [] \<Longrightarrow> last ns \<noteq> [] \<Longrightarrow> last (rpath ns) = last (last ns)"
  by (cases ns rule: rev_cases) (auto simp: rpath_def)

lemma rpath_root: "\<forall>n \<in> set ns. n \<noteq> [] \<Longrightarrow> rpath ns = [47] \<longleftrightarrow> ns = []"
  by (cases ns) (auto simp: rpath_def)

lemma stripTrailing_id: "t \<noteq> [] \<Longrightarrow> \<not> P (last t) \<Longrightarrow> stripTrailing P t = t"
  by (cases "rev t") (auto simp: stripTrailing_def hd_rev [symmetric])

lemma parts_concat:
  assumes "\<forall>n \<in> set ns. n \<noteq> [] \<and> (\<forall>c \<in> set n. \<not> P c)" "P d"
  shows "pathParts P (concat (map (\<lambda>n. d # n) ns)) = ns"
  using assms(1)
proof (induction ns)
  case (Cons n ns)
  have "pathParts P (n @ concat (map (\<lambda>n. d # n) ns)) = n # ns"
  proof (cases ns)
    case Nil
    with Cons.prems show ?thesis by (simp add: pathParts_def splitOn_none)
  next
    case (Cons m ms)
    let ?t = "m @ concat (map (\<lambda>n. d # n) ms)"
    have "pathParts P (d # ?t) = m # ms" using Cons.IH Cons Cons.prems by simp
    then have "pathParts P ?t = m # ms" using assms(2) by (simp add: pathParts_def)
    with Cons Cons.prems assms(2) show ?thesis by (simp add: pathParts_def splitOn_cons)
  qed
  with assms(2) show ?case by (simp add: pathParts_def)
qed (simp add: pathParts_def)

lemma parts_rpath: "\<forall>n \<in> set ns. remote_name n \<Longrightarrow> pathParts (\<lambda>c. c = 47) (if rpath ns = [47] then [] else drop 1 (rpath ns)) = ns"
proof -
  assume a: "\<forall>n \<in> set ns. remote_name n"
  have p: "pathParts (\<lambda>c. c = 47) (concat (map (\<lambda>n. 47 # n) ns)) = ns"
    by (rule parts_concat) (use a in \<open>auto simp: remote_name_def\<close>)
  have r: "rpath ns = [47] \<longleftrightarrow> ns = []" using a by (intro rpath_root) (auto simp: remote_name_def)
  show ?thesis
  proof (cases ns)
    case Nil
    with r show ?thesis by (simp add: pathParts_def)
  next
    case (Cons m ms)
    with r p show ?thesis by (simp add: rpath_def pathParts_def)
  qed
qed

lemma rpath_inj:
  assumes "\<forall>n \<in> set ns. remote_name n" "\<forall>n \<in> set ms. remote_name n"
  shows "rpath ns = rpath ms \<longleftrightarrow> ns = ms"
  using parts_rpath [OF assms(1)] parts_rpath [OF assms(2)] by metis

lemma lastIndex_snoc: "c \<notin> set n \<Longrightarrow> lastIndex c (t @ c # n) = int (length t)"
  by (simp add: lastIndex_def takeWhile_append)

text \<open>A name splits at the first slash, so containment of paths is the prefix order on names.\<close>

lemma name_split:
  assumes "47 \<notin> set n" "47 \<notin> set m" "n @ 47 # s = m @ 47 # t"
  shows "n = m \<and> s = t"
proof -
  have "takeWhile (\<lambda>c. c \<noteq> 47) (n @ 47 # s) = n" "takeWhile (\<lambda>c. c \<noteq> 47) (m @ 47 # t) = m"
    using assms(1,2) by (auto simp: takeWhile_append)
  with assms(3) show ?thesis by auto
qed

lemma concat_prefix:
  assumes "\<forall>n \<in> set ns. remote_name n" "\<forall>n \<in> set ms. remote_name n"
  shows "starts_with (concat (map (\<lambda>n. 47 # n) ms) @ [47]) (concat (map (\<lambda>n. 47 # n) ns) @ [47]) \<longleftrightarrow> prefix ns ms"
  using assms
proof (induction ns arbitrary: ms)
  case Nil
  then show ?case by (cases ms) (auto simp: starts_with_def)
next
  case (Cons n ns)
  show ?case
  proof (cases ms)
    case Nil
    with Cons.prems show ?thesis by (cases n) (auto simp: starts_with_def remote_name_def)
  next
    case ms: (Cons m ms')
    let ?C = "\<lambda>ks. concat (map (\<lambda>n. 47 # n) ks) @ [47]"
    have tl: "\<exists>s. ?C ks = 47 # s" for ks :: "js_text list" by (cases ks) auto
    have sw: "starts_with a b \<longleftrightarrow> (\<exists>r. a = b @ r)" for a b :: js_text
      by (metis starts_withD starts_with_append)
    have "starts_with (?C (m # ms')) (?C (n # ns)) \<longleftrightarrow> (\<exists>r. m @ ?C ms' = n @ ?C ns @ r)"
      by (auto simp: sw)
    also have "\<dots> \<longleftrightarrow> n = m \<and> (\<exists>r. ?C ms' = ?C ns @ r)"
    proof
      assume "\<exists>r. m @ ?C ms' = n @ ?C ns @ r"
      then obtain r where r: "m @ ?C ms' = n @ ?C ns @ r" by blast
      obtain s t where st: "?C ms' = 47 # s" "?C ns = 47 # t" using tl by blast
      have "m = n \<and> s = t @ r"
        using name_split [of m n s "t @ r"] r st Cons.prems ms by (auto simp: remote_name_def)
      with st show "n = m \<and> (\<exists>r. ?C ms' = ?C ns @ r)" by auto
    qed auto
    also have "\<dots> \<longleftrightarrow> n = m \<and> prefix ns ms'" using Cons.IH [of ms'] Cons.prems ms by (simp add: sw)
    finally show ?thesis using ms by auto
  qed
qed

lemma under_names:
  assumes ns: "\<forall>n \<in> set ns. remote_name n" and ms: "\<forall>n \<in> set ms. remote_name n" and "ns \<noteq> []" "ns \<noteq> ms"
  shows "starts_with (rpath ms) (rpath ns @ [47]) \<longleftrightarrow> prefix ns ms"
proof (cases "ms = []")
  case True
  have "length (rpath ns) \<noteq> 0" by simp
  with True assms(3) show ?thesis by (auto simp: starts_with_def rpath_def)
next
  case False
  let ?C = "\<lambda>ks. concat (map (\<lambda>n. 47 # n) ks)"
  have C: "rpath ns = ?C ns" "rpath ms = ?C ms" using False assms(3) by (auto simp: rpath_def)
  have ne: "?C ms \<noteq> ?C ns" using rpath_inj [OF ms ns] C assms(4) by metis
  have "starts_with (?C ms) (?C ns @ [47]) \<longleftrightarrow> starts_with (?C ms @ [47]) (?C ns @ [47])"
  proof
    assume "starts_with (?C ms @ [47]) (?C ns @ [47])"
    then obtain r where r: "?C ms @ [47] = (?C ns @ [47]) @ r" using starts_withD by blast
    with ne have "r \<noteq> []" by auto
    then have "?C ms = (?C ns @ [47]) @ butlast r" using r by (metis butlast_append butlast_snoc)
    then show "starts_with (?C ms) (?C ns @ [47])" by (metis starts_with_append)
  qed (metis append_assoc starts_withD starts_with_append)
  with concat_prefix [OF ns ms] C show ?thesis by simp
qed

text \<open>
  What the explorer relies on: on the absolute paths of a file system with slashes, its
  functions agree with lists of names. The names allowed are the parameter of the interface;
  it holds for remote file systems and for local ones without backslashes.
\<close>

locale slash_paths =
  fixes backend :: explorer_backend and name_ok :: "js_text \<Rightarrow> bool"
  assumes ok_name: "name_ok n \<Longrightarrow> remote_name n"
    and norm_path: "\<forall>n \<in> set ns. name_ok n \<Longrightarrow> normalizeExplorerPath backend (rpath ns) = rpath ns"
    and join_path: "\<forall>n \<in> set ns. name_ok n \<Longrightarrow> name_ok m \<Longrightarrow> joinExplorerPath backend (rpath ns) m = rpath (ns @ [m])"
    and parent_path: "\<forall>n \<in> set ns. name_ok n \<Longrightarrow> getExplorerParentDirectory backend (rpath ns) = rpath (butlast ns)"
    and same_path: "\<forall>n \<in> set ns. name_ok n \<Longrightarrow> \<forall>n \<in> set ms. name_ok n \<Longrightarrow>
      isMoveToSameDirectory lower backend (rpath ns) (rpath ms) \<longleftrightarrow> ns = ms"
    and under_path: "\<forall>n \<in> set ns. name_ok n \<Longrightarrow> \<forall>n \<in> set ms. name_ok n \<Longrightarrow>
      pathStartsWithDirectory lower backend (rpath ms) (rpath ns) \<longleftrightarrow> prefix ns ms"
begin

lemma path_inj: "\<forall>n \<in> set ns. name_ok n \<Longrightarrow> \<forall>n \<in> set ms. name_ok n \<Longrightarrow> rpath ns = rpath ms \<longleftrightarrow> ns = ms"
  using ok_name rpath_inj by blast

lemma join_roundtrip:
  "\<forall>n \<in> set ns. name_ok n \<Longrightarrow> name_ok m \<Longrightarrow> getExplorerParentDirectory backend (joinExplorerPath backend (rpath ns) m) = rpath ns"
  using join_path [of ns m] parent_path [of "ns @ [m]"] by simp

lemma join_all:
  "\<forall>n \<in> set ns. name_ok n \<Longrightarrow> \<forall>n \<in> set ms. name_ok n \<Longrightarrow> foldl (joinExplorerPath backend) (rpath ns) ms = rpath (ns @ ms)"
proof (induction ms arbitrary: ns)
  case (Cons m ms)
  then show ?case using Cons.IH [of "ns @ [m]"] by (simp add: join_path)
qed simp

lemma crumb_walk:
  "\<forall>n \<in> set ns. name_ok n \<Longrightarrow> \<forall>n \<in> set ms. name_ok n \<Longrightarrow> \<forall>n \<in> set ks. name_ok n \<Longrightarrow>
   map (\<lambda>b. (bc_label b, bc_path b, bc_isCurrent b)) (crumbLoop backend (rpath ks) (rpath ns) ms)
   = map (\<lambda>i. (ms ! i, rpath (ns @ take (Suc i) ms), ns @ take (Suc i) ms = ks)) [0..<length ms]"
proof (induction ms arbitrary: ns)
  case (Cons m ms)
  have ok: "\<forall>n \<in> set (ns @ [m]). name_ok n" using Cons.prems by auto
  have shift: "[0..<Suc (length ms)] = 0 # map Suc [0..<length ms]" by (simp add: map_Suc_upt upt_conv_Cons del: upt_Suc)
  have h: "makeSegment backend (rpath ks) m (rpath (ns @ [m])) False
      = \<lparr>bc_id = rpath (ns @ [m]), bc_label = m, bc_path = rpath (ns @ [m]), bc_isRoot = False, bc_isCurrent = (ns @ [m] = ks)\<rparr>"
    using path_inj [OF ok Cons.prems(3)] by (simp add: makeSegment_def norm_path [OF ok] Let_def)
  show ?case
    using Cons.IH [OF ok] Cons.prems h by (simp add: join_path shift Let_def del: upt_Suc)
qed simp

end

definition remote_dir :: "js_text \<Rightarrow> bool" where
  "remote_dir n \<longleftrightarrow> remote_name n \<and> last n \<noteq> 92"

lemma rpath_butlast:
  assumes "ns \<noteq> []"
  obtains pre where "rpath ns = pre @ 47 # last ns" "pre = [] \<longleftrightarrow> butlast ns = []" "pre \<noteq> [] \<Longrightarrow> pre = rpath (butlast ns)"
  using assms that by (cases ns rule: rev_cases) (auto simp: rpath_def)

lemma last_name: "ns \<noteq> [] \<Longrightarrow> \<forall>n \<in> set ns. remote_name n \<Longrightarrow> last (rpath ns) = last (last ns) \<and> last (last ns) \<noteq> 47"
proof -
  assume a: "ns \<noteq> []" "\<forall>n \<in> set ns. remote_name n"
  then have "last ns \<noteq> []" "47 \<notin> set (last ns)" by (auto simp: remote_name_def)
  then show ?thesis using a(1) last_rpath by (metis last_in_set)
qed

lemma remote_norm:
  assumes "\<forall>n \<in> set ns. remote_name n"
  shows "normalizeDirectoryPath (rpath ns) = rpath ns"
proof (cases "ns = []")
  case True
  then show ?thesis by (simp add: rpath_def normalizeDirectoryPath_def)
next
  case False
  then have "last (rpath ns) \<noteq> 47" using last_name [OF False assms] by simp
  then show ?thesis by (simp add: normalizeDirectoryPath_def stripTrailing_id Let_def)
qed

lemma root_path: "rpath [] = [47]" "\<forall>n \<in> set ns. remote_name n \<Longrightarrow> rpath ns = [47] \<longleftrightarrow> ns = []"
  using rpath_root [of ns] by (simp_all add: rpath_def remote_name_def)

interpretation remote: slash_paths RemoteFs remote_dir
proof
  show name: "remote_name n" if "remote_dir n" for n using that by (simp add: remote_dir_def)
  show norm: "normalizeExplorerPath RemoteFs (rpath ns) = rpath ns" if "\<forall>n \<in> set ns. remote_dir n" for ns
    using that name remote_norm by (simp add: normalizeExplorerPath_def)
  show "joinExplorerPath RemoteFs (rpath ns) m = rpath (ns @ [m])" if "\<forall>n \<in> set ns. remote_dir n" for ns m
    using that root_path(2) name by (auto simp: joinExplorerPath_def rpath_snoc)
  show "getExplorerParentDirectory RemoteFs (rpath ns) = rpath (butlast ns)" if a: "\<forall>n \<in> set ns. remote_dir n" for ns
  proof (cases "ns = []")
    case True
    then show ?thesis
      by (simp add: getExplorerParentDirectory_def getRemoteParentDirectory_def root_path normalizeDirectoryPath_def Let_def)
  next
    case False
    then obtain pre where pre: "rpath ns = pre @ 47 # last ns" "pre = [] \<longleftrightarrow> butlast ns = []"
      "pre \<noteq> [] \<Longrightarrow> pre = rpath (butlast ns)" using rpath_butlast by blast
    have l: "47 \<notin> set (last ns)" "last ns \<noteq> []" using a False by (auto simp: remote_dir_def remote_name_def)
    have i: "lastIndex 47 (rpath ns) = int (length pre)" using pre(1) lastIndex_snoc [OF l(1)] by simp
    have n: "normalizeDirectoryPath (rpath ns) = rpath ns" using a name remote_norm by blast
    have r: "rpath ns \<noteq> [47]" using a False name root_path(2) by blast
    show ?thesis
      using n r i pre by (cases "pre = []") (auto simp: getExplorerParentDirectory_def getRemoteParentDirectory_def Let_def root_path)
  qed
  show "isMoveToSameDirectory lower RemoteFs (rpath ns) (rpath ms) \<longleftrightarrow> ns = ms"
    if "\<forall>n \<in> set ns. remote_dir n" "\<forall>n \<in> set ms. remote_dir n" for ns ms lower
    using that name rpath_inj by (simp add: isMoveToSameDirectory_def norm Let_def)
  show "pathStartsWithDirectory lower RemoteFs (rpath ms) (rpath ns) \<longleftrightarrow> prefix ns ms"
    if a: "\<forall>n \<in> set ns. remote_dir n" "\<forall>n \<in> set ms. remote_dir n" for ns ms lower
  proof (cases "ns = [] \<or> ns = ms")
    case True
    have "starts_with (rpath ms) [47]" using hd_rpath [of ms] by (cases "rpath ms") (auto simp: starts_with_def)
    with True show ?thesis
      unfolding pathStartsWithDirectory_def norm [OF a(1)] norm [OF a(2)] by (auto simp: root_path(1) isSlash_def)
  next
    case False
    have "\<not> isSlash (last (rpath ns))" using a(1) False last_name [of ns] name by (auto simp: isSlash_def remote_dir_def)
    moreover have "rpath ms \<noteq> rpath ns" using a name False rpath_inj by blast
    ultimately show ?thesis
      using a False name under_names [of ns ms] by (simp add: pathStartsWithDirectory_def norm Let_def)
  qed
qed

text \<open>Local paths with slashes are neither drives nor network shares.\<close>

lemma posix_plain:
  assumes "\<forall>n \<in> set ns. posix_name n"
  shows "92 \<notin> set (rpath ns)" "\<not> isWindowsDriveRoot (rpath ns)" "\<not> isUncRoot (rpath ns)" "\<not> startsDrive (rpath ns)"
    "\<not> isLocalWindowsStylePath (rpath ns)" "getLocalSeparator (rpath ns) = 47" "trim (rpath ns) = rpath ns"
proof -
  obtain t where t: "rpath ns = 47 # t" using hd_rpath [of ns] rpath_nonempty [of ns] by (cases "rpath ns") auto
  show b: "92 \<notin> set (rpath ns)" using assms by (auto simp: rpath_def posix_name_def)
  have l: "\<not> isLetter 47" by (simp add: isLetter_def)
  show d: "\<not> isWindowsDriveRoot (rpath ns)" "\<not> startsDrive (rpath ns)"
    unfolding t using l by (auto simp: isWindowsDriveRoot_def startsDrive_def split: list.split)
  have nb: "\<not> starts_with (rpath ns) [92, 92]" using t by (simp add: starts_with_def)
  have "t \<noteq> [] \<Longrightarrow> hd t \<noteq> 47 \<and> hd t \<noteq> 92"
    using assms t by (cases ns; cases "hd ns") (auto simp: rpath_def posix_name_def)
  then show "\<not> isUncRoot (rpath ns)" unfolding t
    by (cases t) (auto simp: isUncRoot_def starts_with_def Let_def)
  show "\<not> isLocalWindowsStylePath (rpath ns)"
    using b nb t l by (auto simp: isLocalWindowsStylePath_def startsDriveSlash_def split: list.splits)
  show "getLocalSeparator (rpath ns) = 47" using b d nb by (simp add: getLocalSeparator_def)
  have "\<not> isSpace 47" by (simp add: isSpace_def)
  moreover have "\<not> isSpace (last (rpath ns))" if "ns \<noteq> []"
    using that assms last_rpath [of ns] by (simp add: posix_name_def)
  moreover have "rpath [] = [47]" by (simp add: rpath_def)
  ultimately show "trim (rpath ns) = rpath ns"
    by (intro trim_id) (cases "ns = []"; simp)+
qed

lemma last_slash: "ns \<noteq> [] \<Longrightarrow> \<forall>n \<in> set ns. posix_name n \<Longrightarrow> \<not> isSlash (last (rpath ns))"
proof -
  assume a: "ns \<noteq> []" "\<forall>n \<in> set ns. posix_name n"
  then have "last (rpath ns) \<noteq> 47" using last_name [of ns] by (simp add: posix_name_def remote_name_def)
  moreover have "last (rpath ns) \<noteq> 92" using posix_plain(1) [OF a(2)] by (metis last_in_set rpath_nonempty)
  ultimately show ?thesis by (simp add: isSlash_def)
qed

interpretation posix: slash_paths LocalFs posix_name
proof
  show name: "remote_name n" if "posix_name n" for n using that by (simp add: posix_name_def remote_name_def)
  show norm: "normalizeExplorerPath LocalFs (rpath ns) = rpath ns" if a: "\<forall>n \<in> set ns. posix_name n" for ns
  proof (cases "ns = []")
    case True
    then show ?thesis using posix_plain(7) [OF a] by (simp add: normalizeExplorerPath_def root_path(1))
  next
    case False
    then have "\<not> isSlash (last (rpath ns))"
      using a last_slash by blast
    then show ?thesis using posix_plain [OF a] stripTrailing_id [of "rpath ns" isSlash]
      by (simp add: normalizeExplorerPath_def Let_def)
  qed
  show "joinExplorerPath LocalFs (rpath ns) m = rpath (ns @ [m])" if a: "\<forall>n \<in> set ns. posix_name n" for ns m
  proof (cases "ns = []")
    case True
    then show ?thesis using norm [of "[]"] by (simp add: joinExplorerPath_def root_path(1) isSlash_def rpath_def)
  next
    case False
    then have "\<not> isSlash (last (rpath ns))"
      using a last_slash by blast
    then show ?thesis using False posix_plain(6) [OF a] by (simp add: joinExplorerPath_def norm [OF a] rpath_snoc Let_def)
  qed
  show "getExplorerParentDirectory LocalFs (rpath ns) = rpath (butlast ns)" if a: "\<forall>n \<in> set ns. posix_name n" for ns
  proof (cases "ns = []")
    case True
    then show ?thesis using norm [of "[]"] by (simp add: getExplorerParentDirectory_def root_path(1) Let_def)
  next
    case False
    then obtain pre where pre: "rpath ns = pre @ 47 # last ns" "pre = [] \<longleftrightarrow> butlast ns = []"
      "pre \<noteq> [] \<Longrightarrow> pre = rpath (butlast ns)" using rpath_butlast by blast
    have l: "47 \<notin> set (last ns)" "last ns \<noteq> []" using a False by (auto simp: posix_name_def)
    have i: "max (lastIndex 47 (rpath ns)) (lastIndex 92 (rpath ns)) = int (length pre)"
      using pre(1) lastIndex_snoc [OF l(1)] posix_plain(1) [OF a] by (simp add: lastIndex_def [of 92])
    have r: "rpath ns \<noteq> [47]" "rpath ns \<noteq> [92]" using a False name root_path(2) posix_plain(1) [OF a] by auto
    show ?thesis
      using r posix_plain [OF a] pre unfolding getExplorerParentDirectory_def norm [OF a] Let_def i
      by (cases "pre = []") (auto simp: root_path)
  qed
  show "isMoveToSameDirectory lower LocalFs (rpath ns) (rpath ms) \<longleftrightarrow> ns = ms"
    if a: "\<forall>n \<in> set ns. posix_name n" "\<forall>n \<in> set ms. posix_name n" for ns ms lower
    using a name rpath_inj posix_plain(5) [OF a(1)] posix_plain(5) [OF a(2)]
    by (simp add: isMoveToSameDirectory_def norm Let_def)
  show "pathStartsWithDirectory lower LocalFs (rpath ms) (rpath ns) \<longleftrightarrow> prefix ns ms"
    if a: "\<forall>n \<in> set ns. posix_name n" "\<forall>n \<in> set ms. posix_name n" for ns ms lower
  proof (cases "ns = [] \<or> ns = ms")
    case True
    have "starts_with (rpath ms) [47]" using hd_rpath [of ms] by (cases "rpath ms") (auto simp: starts_with_def)
    with True posix_plain(5) [OF a(1)] posix_plain(5) [OF a(2)] show ?thesis
      unfolding pathStartsWithDirectory_def norm [OF a(1)] norm [OF a(2)] by (auto simp: root_path(1) isSlash_def)
  next
    case False
    have "\<not> isSlash (last (rpath ns))" using a(1) False last_slash by blast
    moreover have "rpath ms \<noteq> rpath ns" using a name False rpath_inj by blast
    ultimately show ?thesis
      using a False name under_names [of ns ms] posix_plain(5,6) [OF a(1)] posix_plain(5) [OF a(2)]
      by (simp add: pathStartsWithDirectory_def norm Let_def)
  qed
qed

text \<open>Both kinds of back end at once.\<close>

definition explorer_name :: "explorer_backend \<Rightarrow> js_text \<Rightarrow> bool" where
  "explorer_name backend n = (case backend of RemoteFs \<Rightarrow> remote_dir n | LocalFs \<Rightarrow> posix_name n)"

lemma explorer_name_simps: "explorer_name RemoteFs = remote_dir" "explorer_name LocalFs = posix_name"
  by (auto simp: explorer_name_def)

interpretation explorer: slash_paths backend "explorer_name backend" for backend
  by (cases backend) (simp_all add: explorer_name_simps remote.slash_paths_axioms posix.slash_paths_axioms)

lemma local_parts:
  assumes "\<forall>n \<in> set ns. posix_name n"
  shows "pathParts isSlash (drop 1 (rpath ns)) = ns"
proof (cases ns)
  case Nil
  then show ?thesis by (simp add: rpath_def pathParts_def)
next
  case (Cons n ms)
  have "pathParts isSlash (concat (map (\<lambda>n. 47 # n) ns)) = ns"
    using assms by (intro parts_concat) (auto simp: posix_name_def isSlash_def)
  with Cons show ?thesis by (simp add: rpath_def pathParts_def isSlash_def)
qed

lemma local_unc:
  assumes "\<forall>n \<in> set ns. posix_name n"
  shows "\<not> starts_with (map (\<lambda>c. if c = 47 then 92 else c) (rpath ns)) [92, 92]"
proof (cases ns)
  case Nil
  then show ?thesis by (simp add: rpath_def starts_with_def)
next
  case (Cons n ms)
  with assms obtain c cs where "n = c # cs" "c \<noteq> 47" "c \<noteq> 92" by (cases n) (auto simp: posix_name_def)
  with Cons show ?thesis by (simp add: rpath_def starts_with_def)
qed

lemma breadcrumb_walk:
  assumes "\<forall>n \<in> set ns. explorer_name backend n"
  shows "buildBreadcrumbSegments backend (rpath ns) home
    = makeSegment backend (rpath ns) [47] [47] True # crumbLoop backend (rpath ns) (rpath []) ns"
proof (cases backend)
  case RemoteFs
  have "pathParts (\<lambda>c. c = 47) (if rpath ns = [47] then [] else drop 1 (rpath ns)) = ns"
    using assms RemoteFs by (intro parts_rpath) (simp add: explorer_name_simps remote_dir_def)
  with RemoteFs explorer.norm_path [OF assms] show ?thesis
    by (cases "rpath ns = [47]") (simp_all add: buildBreadcrumbSegments_def Let_def root_path(1))
next
  case LocalFs
  then have ok: "\<forall>n \<in> set ns. posix_name n" using assms by (simp add: explorer_name_simps)
  have r: "take 1 (rpath ns) = [47]" using hd_rpath [of ns] by (cases "rpath ns") auto
  show ?thesis
    using LocalFs posix.norm_path [OF ok] local_parts [OF ok] local_unc [OF ok] posix_plain(4) [OF ok] r
    by (simp only: buildBreadcrumbSegments_def Let_def) (simp add: root_path(1) isSlash_def)
qed

section \<open>Properties\<close>

text \<open>C22: the explorer's path functions agree with lists of names, on remote file systems and on local
  ones with slashes. Joining a name and taking the parent are inverse; joining names one by one
  gives the path of all of them; containment is the prefix order and being the same directory
  is equality; and the breadcrumbs of a path are its ancestors from the root, labelled by their
  names, with exactly the last one current.\<close>

theorem explorer_paths_are_names:
  assumes "\<forall>n \<in> set ns. explorer_name backend n" and "\<forall>n \<in> set ms. explorer_name backend n" and "explorer_name backend m"
  shows "normalizeExplorerPath backend (rpath ns) = rpath ns
    \<and> getExplorerParentDirectory backend (joinExplorerPath backend (rpath ns) m) = rpath ns
    \<and> foldl (joinExplorerPath backend) (rpath ns) ms = rpath (ns @ ms)
    \<and> (pathStartsWithDirectory lower backend (rpath ms) (rpath ns) \<longleftrightarrow> prefix ns ms)
    \<and> (isMoveToSameDirectory lower backend (rpath ms) (rpath ns) \<longleftrightarrow> ms = ns)
    \<and> map (\<lambda>b. (bc_label b, bc_path b, bc_isCurrent b)) (buildBreadcrumbSegments backend (rpath ns) home)
        = ([47], [47], ns = []) # map (\<lambda>i. (ns ! i, rpath (take (Suc i) ns), Suc i = length ns)) [0..<length ns]"
proof -
  have "makeSegment backend (rpath ns) [47] [47] True
      = \<lparr>bc_id = [47], bc_label = [47], bc_path = [47], bc_isRoot = True, bc_isCurrent = (ns = [])\<rparr>"
    using explorer.norm_path [of "[]" backend] explorer.path_inj [of "[]" backend ns] assms(1)
    by (auto simp: makeSegment_def root_path(1) Let_def)
  moreover have "map (\<lambda>b. (bc_label b, bc_path b, bc_isCurrent b)) (crumbLoop backend (rpath ns) (rpath []) ns)
      = map (\<lambda>i. (ns ! i, rpath (take (Suc i) ns), Suc i = length ns)) [0..<length ns]"
    using explorer.crumb_walk [of "[]" backend ns ns] assms(1) by (auto simp: take_all_iff)
  ultimately show ?thesis
    using explorer.norm_path [OF assms(1)] explorer.join_roundtrip [OF assms(1,3)] explorer.join_all [OF assms(1,2)]
      explorer.under_path [OF assms(1,2)] explorer.same_path [OF assms(2,1)] breadcrumb_walk [OF assms(1)]
    by simp
qed

theorem explorer_paths_are_names_witness:
  "pathStartsWithDirectory (\<lambda>t. t) RemoteFs (rpath [js ''etc'', js ''ssh'']) (rpath [js ''etc''])
   \<and> getExplorerParentDirectory LocalFs (joinExplorerPath LocalFs (rpath [js ''etc'']) (js ''ssh'')) = rpath [js ''etc'']
   \<and> rpath [js ''etc''] = js ''/etc''"
proof -
  have ok: "explorer_name b (js ''etc'')" "explorer_name b (js ''ssh'')" for b
    by (cases b; simp add: explorer_name_def remote_dir_def remote_name_def posix_name_def js_def isSpace_def)+
  have e: "rpath [js ''etc''] = js ''/etc''" by (simp add: rpath_def js_def)
  show ?thesis
    using explorer_paths_are_names [of "[js ''etc'']" RemoteFs "[js ''etc'', js ''ssh'']" "js ''ssh''" "\<lambda>t. t"]
      explorer_paths_are_names [of "[js ''etc'']" LocalFs "[]" "js ''ssh''"] ok e
    by simp
qed

text \<open>the history of visited directories stays small and free of repetitions, with the directory
  just visited first and the others in their order; a snapshot for a session switch always has
  a current path, and a history with its index in range.\<close>

theorem visited_history_bounded:
  assumes "distinct visited" and "length visited \<le> MAX_VISITED_HISTORY" and "normalizeExplorerPath backend path \<noteq> []"
  shows "distinct (pushVisitedHistory backend visited path)
    \<and> length (pushVisitedHistory backend visited path) \<le> MAX_VISITED_HISTORY
    \<and> hd (pushVisitedHistory backend visited path) = normalizeExplorerPath backend path
    \<and> prefix (tl (pushVisitedHistory backend visited path)) (filter (\<lambda>e. e \<noteq> normalizeExplorerPath backend path) visited)
    \<and> (\<exists>c. buildSessionCacheSnapshot backend files path home history i visited = Some c
         \<and> sc_currentPath c \<noteq> [] \<and> sc_homeDir c \<noteq> [] \<and> [] \<notin> set (sc_history c)
         \<and> sc_historyIndex c < length (sc_history c) \<and> length (sc_visitedHistory c) \<le> MAX_VISITED_HISTORY)"
proof -
  let ?n = "normalizeExplorerPath backend path"
  let ?xs = "?n # filter (\<lambda>e. e \<noteq> ?n) visited"
  have p: "pushVisitedHistory backend visited path = take MAX_VISITED_HISTORY ?xs"
    using assms(3) by (auto simp: pushVisitedHistory_def Let_def)
  have "distinct ?xs" using assms(1) by simp
  then have d: "distinct (take MAX_VISITED_HISTORY ?xs)" by (rule distinct_take)
  have t: "take MAX_VISITED_HISTORY ?xs = ?n # take 29 (filter (\<lambda>e. e \<noteq> ?n) visited)"
    by (simp add: MAX_VISITED_HISTORY_def)
  have "hd (take MAX_VISITED_HISTORY ?xs) = ?n \<and> prefix (tl (take MAX_VISITED_HISTORY ?xs)) (filter (\<lambda>e. e \<noteq> ?n) visited)"
    unfolding t by (simp add: take_is_prefix)
  moreover have "\<exists>c. buildSessionCacheSnapshot backend files path home history i visited = Some c
         \<and> sc_currentPath c \<noteq> [] \<and> sc_homeDir c \<noteq> [] \<and> [] \<notin> set (sc_history c)
         \<and> sc_historyIndex c < length (sc_history c) \<and> length (sc_visitedHistory c) \<le> MAX_VISITED_HISTORY"
    using assms(3) by (auto simp: buildSessionCacheSnapshot_def Let_def nat_less_iff min_def)
  ultimately show ?thesis using d unfolding p by simp
qed

theorem visited_history_bounded_witness:
  "hd (pushVisitedHistory RemoteFs [js ''/a'', js ''/b''] (js ''/b/'')) = js ''/b''"
  using visited_history_bounded [of "[js ''/a'', js ''/b'']" RemoteFs "js ''/b/''"]
  by (simp add: js_def MAX_VISITED_HISTORY_def normalizeExplorerPath_def normalizeDirectoryPath_def stripTrailing_def)

end
