(* ===== verification/File_Tree.thy ===== *)
theory File_Tree
  imports File_Paths
begin

text \<open>
  The directory tree of the file explorer (\<open>components/panel/file-explorer/treeModel.ts\<close>): the
  store of directory listings, the flattening of the expanded tree into rows, search, and
  revealing a directory.

  A JavaScript \<open>Map\<close> is an association list in insertion order. The recursive traversals may
  not end when a listing contains its own directory, so they are partial functions whose value
  \<open>None\<close> stands for not returning; that they return is proved. \<open>Array.prototype.sort\<close> is a
  stable insertion sort by the comparison function.
\<close>

type_synonym children_cache = "(js_text \<times> file_entry list) list"

section \<open>The store of listings\<close>

definition backendName :: "explorer_backend \<Rightarrow> js_text" where
  "backendName backend = (case backend of RemoteFs \<Rightarrow> js ''remote'' | LocalFs \<Rightarrow> js ''local'')"

definition treeCachePrefix :: "js_text \<Rightarrow> explorer_backend \<Rightarrow> js_text" where
  "treeCachePrefix sessionId backend = sessionId @ 124 # backendName backend @ [124]"

definition treeCacheKey :: "js_text \<Rightarrow> explorer_backend \<Rightarrow> js_text \<Rightarrow> js_text" where
  "treeCacheKey sessionId backend path = treeCachePrefix sessionId backend @ normalizeExplorerPath backend path"

definition falsy :: "js_text option \<Rightarrow> bool" where
  "falsy t \<longleftrightarrow> t = None \<or> t = Some []"

definition getTreeChildren :: "js_text option \<Rightarrow> explorer_backend \<Rightarrow> js_text \<Rightarrow> children_cache \<Rightarrow> file_entry list option" where
  "getTreeChildren sessionId backend path store =
     (if falsy sessionId then None else map_of store (treeCacheKey (the sessionId) backend path))"

definition setTreeChildren ::
    "js_text option \<Rightarrow> explorer_backend \<Rightarrow> js_text \<Rightarrow> file_entry list \<Rightarrow> children_cache \<Rightarrow> children_cache" where
  "setTreeChildren sessionId backend path entries store =
     (if falsy sessionId then store
      else (let key = treeCacheKey (the sessionId) backend path in
            if entries = [] then AList.update key [] store else AList.update key entries store))"

definition isSameFileEntry :: "file_entry \<Rightarrow> file_entry \<Rightarrow> bool" where
  "isSameFileEntry l r \<longleftrightarrow> l = r \<or> (fe_name l = fe_name r \<and> fe_is_dir l = fe_is_dir r \<and> fe_is_symlink l = fe_is_symlink r
     \<and> fe_size l = fe_size r \<and> fe_mtime l = fe_mtime r \<and> fe_permissions l = fe_permissions r
     \<and> fe_owner l = fe_owner r \<and> fe_group l = fe_group r)"

definition isSameFileEntries :: "file_entry list option \<Rightarrow> file_entry list option \<Rightarrow> bool" where
  "isSameFileEntries l r =
     (case (l, r) of (None, None) \<Rightarrow> True
      | (Some ls, Some rs) \<Rightarrow> list_all2 isSameFileEntry ls rs
      | _ \<Rightarrow> False)"

text \<open>The loop carries whether everything was identical and the map built so far.\<close>

fun reconcileLoop :: "children_cache \<Rightarrow> children_cache \<Rightarrow> bool \<Rightarrow> children_cache \<Rightarrow> bool \<times> children_cache" where
  "reconcileLoop current [] identical acc = (identical, acc)"
| "reconcileLoop current ((dir, entries) # rest) identical acc =
     (case map_of current dir of
        Some cs \<Rightarrow> if isSameFileEntries (Some cs) (Some entries)
                  then reconcileLoop current rest identical (AList.update dir cs acc)
                  else reconcileLoop current rest False (AList.update dir entries acc)
      | None \<Rightarrow> reconcileLoop current rest False (AList.update dir entries acc))"

definition reconcileRestoredChildrenCache :: "children_cache option \<Rightarrow> children_cache \<Rightarrow> children_cache" where
  "reconcileRestoredChildrenCache cached current =
     (case cached of None \<Rightarrow> if current = [] then current else []
      | Some c \<Rightarrow> (case reconcileLoop current c (length c = length current) [] of
                    (identical, acc) \<Rightarrow> if identical then current else acc))"

definition clearTreeChildrenForPath ::
    "(js_text \<Rightarrow> js_text) \<Rightarrow> js_text option \<Rightarrow> explorer_backend \<Rightarrow> js_text \<Rightarrow> children_cache \<Rightarrow> children_cache" where
  "clearTreeChildrenForPath lower sessionId backend path store =
     (if falsy sessionId then store
      else (let n = normalizeExplorerPath backend path; pre = treeCachePrefix (the sessionId) backend in
            if n = [] then store
            else fold (\<lambda>key store.
                   if starts_with key pre \<and> pathStartsWithDirectory lower backend (drop (length pre) key) n
                   then AList.delete key store else store) (map fst store) store))"

definition clearTreeChildrenForSession :: "js_text option \<Rightarrow> children_cache \<Rightarrow> children_cache" where
  "clearTreeChildrenForSession sessionId store =
     (if falsy sessionId then store
      else fold (\<lambda>key store. if starts_with key (the sessionId @ [124]) then AList.delete key store else store)
             (map fst store) store)"

section \<open>Rows of the tree\<close>

record tree_node =
  tn_path :: js_text
  tn_name :: js_text
  tn_depth :: nat
  tn_entry :: file_entry
  tn_isDir :: bool

record tree_params =
  tp_cache :: children_cache
  tp_expanded :: "js_text list"
  tp_natural :: "js_text \<Rightarrow> js_text \<Rightarrow> int"
  tp_lower :: "js_text \<Rightarrow> js_text"
  tp_sortMode :: sort_mode
  tp_showHidden :: bool
  tp_backend :: explorer_backend

definition getSortedChildren :: "tree_params \<Rightarrow> js_text \<Rightarrow> file_entry list option" where
  "getSortedChildren tp dirPath =
     (case map_of (tp_cache tp) dirPath of None \<Rightarrow> None
      | Some entries \<Rightarrow>
          Some (sortBy (compareFileEntries (tp_natural tp) (tp_sortMode tp))
            (if tp_showHidden tp then entries else filter (\<lambda>e. \<not> starts_with (fe_name e) [46]) entries)))"

definition makeNode :: "tree_params \<Rightarrow> js_text \<Rightarrow> nat \<Rightarrow> file_entry \<Rightarrow> tree_node" where
  "makeNode tp dirPath depth entry =
     \<lparr>tn_path = joinExplorerPath (tp_backend tp) dirPath (fe_name entry), tn_name = fe_name entry, tn_depth = depth,
      tn_entry = entry, tn_isDir = fe_is_dir entry\<rparr>"

text \<open>The rows for the entries \<open>es\<close> that remain of the directory \<open>dirPath\<close>; a listing that is
  missing adds no row.\<close>

definition listing :: "tree_params \<Rightarrow> js_text \<Rightarrow> file_entry list" where
  "listing tp dirPath = (case getSortedChildren tp dirPath of None \<Rightarrow> [] | Some es \<Rightarrow> es)"

partial_function (option) appendLoop :: "tree_params \<Rightarrow> js_text \<Rightarrow> nat \<Rightarrow> file_entry list \<Rightarrow> tree_node list option" where
  "appendLoop tp dirPath depth es =
     (if es = [] then Some []
      else Option.bind
            (if fe_is_dir (hd es) \<and> tn_path (makeNode tp dirPath depth (hd es)) \<in> set (tp_expanded tp)
             then appendLoop tp (tn_path (makeNode tp dirPath depth (hd es))) (depth + 1)
                    (listing tp (tn_path (makeNode tp dirPath depth (hd es))))
             else Some [])
            (\<lambda>sub. Option.bind (appendLoop tp dirPath depth (tl es))
              (\<lambda>rows. Some (makeNode tp dirPath depth (hd es) # sub @ rows))))"

definition appendChildNodes :: "tree_params \<Rightarrow> js_text \<Rightarrow> nat \<Rightarrow> tree_node list option" where
  "appendChildNodes tp dirPath depth = appendLoop tp dirPath depth (listing tp dirPath)"

partial_function (option) searchLoop ::
    "tree_params \<Rightarrow> js_text \<Rightarrow> js_text \<Rightarrow> nat \<Rightarrow> file_entry list \<Rightarrow> (tree_node list \<times> bool) option" where
  "searchLoop tp query dirPath depth es =
     (if es = [] then Some ([], False)
      else Option.bind
            (if matchesFileSearch (tp_lower tp) (hd es) query then Some ([makeNode tp dirPath depth (hd es)], True)
             else if \<not> fe_is_dir (hd es) then Some ([], False)
             else Option.bind
                    (searchLoop tp query (tn_path (makeNode tp dirPath depth (hd es))) (depth + 1)
                       (listing tp (tn_path (makeNode tp dirPath depth (hd es)))))
                    (\<lambda>r. Some (if snd r then makeNode tp dirPath depth (hd es) # fst r else fst r, snd r)))
            (\<lambda>here. Option.bind (searchLoop tp query dirPath depth (tl es))
              (\<lambda>r. Some (fst here @ fst r, snd here \<or> snd r))))"

definition appendSearchDescendants :: "tree_params \<Rightarrow> js_text \<Rightarrow> js_text \<Rightarrow> nat \<Rightarrow> (tree_node list \<times> bool) option" where
  "appendSearchDescendants tp query dirPath depth = searchLoop tp query dirPath depth (listing tp dirPath)"

definition flattenFileTree :: "tree_params \<Rightarrow> js_text \<Rightarrow> js_text \<Rightarrow> tree_node list option" where
  "flattenFileTree tp rootPath searchQuery =
     (let n = normalizeExplorerPath (tp_backend tp) rootPath; query = trim searchQuery in
      if n = [] then Some []
      else if query \<noteq> [] then map_option fst (appendSearchDescendants tp query n 0)
      else appendChildNodes tp n 0)"

section \<open>Revealing a directory\<close>











section \<open>Rows: termination and exactness\<close>

definition shown_entry :: "tree_params \<Rightarrow> js_text \<Rightarrow> file_entry \<Rightarrow> bool" where
  "shown_entry tp dir e \<longleftrightarrow> (\<exists>es. map_of (tp_cache tp) dir = Some es \<and> e \<in> set es)
     \<and> (tp_showHidden tp \<or> \<not> starts_with (fe_name e) [46])"

lemma set_listing: "set (listing tp dir) = {e. shown_entry tp dir e}"
  by (cases "map_of (tp_cache tp) dir") (auto simp: listing_def getSortedChildren_def shown_entry_def)

text \<open>The rows below a directory: its visible entries, and the rows below those of its entries
  that are expanded directories.\<close>

inductive shown :: "tree_params \<Rightarrow> js_text \<Rightarrow> nat \<Rightarrow> tree_node \<Rightarrow> bool" for tp where
  here: "shown_entry tp dir e \<Longrightarrow> shown tp dir depth (makeNode tp dir depth e)"
| below: "shown_entry tp dir e \<Longrightarrow> fe_is_dir e \<Longrightarrow> joinExplorerPath (tp_backend tp) dir (fe_name e) \<in> set (tp_expanded tp) \<Longrightarrow>
    shown tp (joinExplorerPath (tp_backend tp) dir (fe_name e)) (depth + 1) n \<Longrightarrow> shown tp dir depth n"

text \<open>The rows of a search: matching entries, and directories on the path to one, which are not
  searched when they match themselves.\<close>

inductive found :: "tree_params \<Rightarrow> js_text \<Rightarrow> js_text \<Rightarrow> nat \<Rightarrow> tree_node \<Rightarrow> bool" for tp query where
  matching: "shown_entry tp dir e \<Longrightarrow> matchesFileSearch (tp_lower tp) e query \<Longrightarrow> found tp query dir depth (makeNode tp dir depth e)"
| inside: "shown_entry tp dir e \<Longrightarrow> \<not> matchesFileSearch (tp_lower tp) e query \<Longrightarrow> fe_is_dir e \<Longrightarrow>
    found tp query (joinExplorerPath (tp_backend tp) dir (fe_name e)) (depth + 1) n \<Longrightarrow> found tp query dir depth n"
| holding: "shown_entry tp dir e \<Longrightarrow> \<not> matchesFileSearch (tp_lower tp) e query \<Longrightarrow> fe_is_dir e \<Longrightarrow>
    found tp query (joinExplorerPath (tp_backend tp) dir (fe_name e)) (depth + 1) n \<Longrightarrow>
    found tp query dir depth (makeNode tp dir depth e)"

inductive_cases shown_elim: "shown tp dir depth n"
inductive_cases found_elim: "found tp query dir depth n"

text \<open>Caches are keyed by normalized paths, and no entry has an empty name.\<close>

definition cache_ok :: "tree_params \<Rightarrow> bool" where
  "cache_ok tp \<longleftrightarrow> (\<forall>(dir, es) \<in> set (tp_cache tp). dir \<noteq> [] \<and> normalizeExplorerPath (tp_backend tp) dir = dir
     \<and> (\<forall>e \<in> set es. fe_name e \<noteq> []))"

definition longest_key :: "tree_params \<Rightarrow> nat" where
  "longest_key tp = Max (insert 0 (length ` fst ` set (tp_cache tp)))"

lemma join_longer:
  assumes "cache_ok tp" "shown_entry tp dir e"
  shows "length dir < length (joinExplorerPath (tp_backend tp) dir (fe_name e))"
proof -
  obtain es where "(dir, es) \<in> set (tp_cache tp)" "e \<in> set es"
    using assms(2) map_of_SomeD by (fastforce simp: shown_entry_def)
  with assms(1) have "dir \<noteq> []" "normalizeExplorerPath (tp_backend tp) dir = dir" "fe_name e \<noteq> []"
    by (auto simp: cache_ok_def)
  then show ?thesis by (cases "tp_backend tp") (auto simp: joinExplorerPath_def Let_def)
qed

lemma key_length: "shown_entry tp dir e \<Longrightarrow> length dir \<le> longest_key tp"
  unfolding longest_key_def by (rule Max_ge) (auto simp: shown_entry_def dest!: map_of_SomeD intro!: imageI rev_image_eqI)

lemma makeNode_path [simp]: "tn_path (makeNode tp dir depth e) = joinExplorerPath (tp_backend tp) dir (fe_name e)"
  by (simp add: makeNode_def)

lemma append_loop_rows:
  assumes "cache_ok tp" and "\<forall>e \<in> set es. shown_entry tp dir e"
  shows "\<exists>rows. appendLoop tp dir depth es = Some rows \<and>
    set rows = {n. \<exists>e \<in> set es. n = makeNode tp dir depth e \<or> (fe_is_dir e
       \<and> joinExplorerPath (tp_backend tp) dir (fe_name e) \<in> set (tp_expanded tp)
       \<and> shown tp (joinExplorerPath (tp_backend tp) dir (fe_name e)) (depth + 1) n)}"
  using assms(2)
proof (induction "longest_key tp - length dir" arbitrary: dir depth es rule: less_induct)
  case less
  show ?case using less.prems
  proof (induction es)
    case Nil
    then show ?case by (subst appendLoop.simps) simp
  next
    case (Cons e es)
    let ?c = "joinExplorerPath (tp_backend tp) dir (fe_name e)"
    have e: "shown_entry tp dir e" using Cons.prems by simp
    obtain rows where rows: "appendLoop tp dir depth es = Some rows"
      "set rows = {n. \<exists>e \<in> set es. n = makeNode tp dir depth e \<or> (fe_is_dir e
         \<and> joinExplorerPath (tp_backend tp) dir (fe_name e) \<in> set (tp_expanded tp)
         \<and> shown tp (joinExplorerPath (tp_backend tp) dir (fe_name e)) (depth + 1) n)}"
      using Cons.IH Cons.prems by auto
    have "\<exists>sub. appendLoop tp ?c (depth + 1) (listing tp ?c) = Some sub \<and> set sub = {n. shown tp ?c (depth + 1) n}"
    proof (cases "listing tp ?c = []")
      case True
      then have "\<not> shown tp ?c (depth + 1) n" for n using set_listing [of tp ?c] by (auto elim: shown_elim)
      moreover have "appendLoop tp ?c (depth + 1) (listing tp ?c) = Some []"
        by (subst appendLoop.simps) (simp add: True)
      ultimately show ?thesis by simp
    next
      case False
      then obtain f where f: "shown_entry tp ?c f" using set_listing [of tp ?c] by (cases "listing tp ?c") auto
      have "length dir < length ?c" "length ?c \<le> longest_key tp"
        using join_longer [OF assms(1) e] key_length [OF f] by auto
      then have "longest_key tp - length ?c < longest_key tp - length dir" by linarith
      from less.hyps [OF this, of "listing tp ?c" "depth + 1"] obtain sub where sub:
        "appendLoop tp ?c (depth + 1) (listing tp ?c) = Some sub"
        "set sub = {n. \<exists>e \<in> set (listing tp ?c). n = makeNode tp ?c (depth + 1) e \<or> (fe_is_dir e
         \<and> joinExplorerPath (tp_backend tp) ?c (fe_name e) \<in> set (tp_expanded tp)
         \<and> shown tp (joinExplorerPath (tp_backend tp) ?c (fe_name e)) (depth + 1 + 1) n)}"
        by (auto simp: set_listing)
      have "set sub = {n. shown tp ?c (depth + 1) n}"
        unfolding sub(2) set_listing by (auto intro: shown.intros elim: shown_elim)
      with sub(1) show ?thesis by blast
    qed
    then obtain sub where sub: "appendLoop tp ?c (depth + 1) (listing tp ?c) = Some sub" "set sub = {n. shown tp ?c (depth + 1) n}"
      by blast
    show ?case by (subst appendLoop.simps) (use sub rows in auto)
  qed
qed

lemma append_rows:
  assumes "cache_ok tp"
  shows "\<exists>rows. appendChildNodes tp dir depth = Some rows \<and> set rows = {n. shown tp dir depth n}"
proof -
  obtain rows where "appendLoop tp dir depth (listing tp dir) = Some rows"
    "set rows = {n. \<exists>e \<in> set (listing tp dir). n = makeNode tp dir depth e \<or> (fe_is_dir e
       \<and> joinExplorerPath (tp_backend tp) dir (fe_name e) \<in> set (tp_expanded tp)
       \<and> shown tp (joinExplorerPath (tp_backend tp) dir (fe_name e)) (depth + 1) n)}"
    using append_loop_rows [OF assms, of "listing tp dir" dir depth] by (auto simp: set_listing)
  moreover have "{n. \<exists>e \<in> set (listing tp dir). n = makeNode tp dir depth e \<or> (fe_is_dir e
       \<and> joinExplorerPath (tp_backend tp) dir (fe_name e) \<in> set (tp_expanded tp)
       \<and> shown tp (joinExplorerPath (tp_backend tp) dir (fe_name e)) (depth + 1) n)} = {n. shown tp dir depth n}"
    unfolding set_listing by (auto intro: shown.intros elim: shown_elim)
  ultimately show ?thesis unfolding appendChildNodes_def by auto
qed

text \<open>The contribution of one entry to a search.\<close>

definition entry_rows :: "tree_params \<Rightarrow> js_text \<Rightarrow> js_text \<Rightarrow> nat \<Rightarrow> file_entry \<Rightarrow> tree_node \<Rightarrow> bool" where
  "entry_rows tp query dir depth e n \<longleftrightarrow>
     (if matchesFileSearch (tp_lower tp) e query then n = makeNode tp dir depth e
      else fe_is_dir e \<and> (\<exists>m. found tp query (joinExplorerPath (tp_backend tp) dir (fe_name e)) (depth + 1) m
        \<and> (n = makeNode tp dir depth e \<or> found tp query (joinExplorerPath (tp_backend tp) dir (fe_name e)) (depth + 1) n)))"

lemma found_entries: "found tp query dir depth n \<longleftrightarrow> (\<exists>e. shown_entry tp dir e \<and> entry_rows tp query dir depth e n)"
proof
  show "found tp query dir depth n \<Longrightarrow> \<exists>e. shown_entry tp dir e \<and> entry_rows tp query dir depth e n"
    by (erule found_elim) (auto simp: entry_rows_def)
  show "\<exists>e. shown_entry tp dir e \<and> entry_rows tp query dir depth e n \<Longrightarrow> found tp query dir depth n"
    by (auto simp: entry_rows_def intro: found.intros [simplified] split: if_splits)
qed

lemma search_loop_rows:
  assumes "cache_ok tp" and "\<forall>e \<in> set es. shown_entry tp dir e"
  shows "\<exists>rows. searchLoop tp query dir depth es = Some (rows, rows \<noteq> []) \<and>
    set rows = {n. \<exists>e \<in> set es. entry_rows tp query dir depth e n}"
  using assms(2)
proof (induction "longest_key tp - length dir" arbitrary: dir depth es rule: less_induct)
  case less
  show ?case using less.prems
  proof (induction es)
    case Nil
    then show ?case by (subst searchLoop.simps) simp
  next
    case (Cons e es)
    let ?c = "joinExplorerPath (tp_backend tp) dir (fe_name e)"
    have e: "shown_entry tp dir e" using Cons.prems by simp
    obtain rows where rows: "searchLoop tp query dir depth es = Some (rows, rows \<noteq> [])"
      "set rows = {n. \<exists>e \<in> set es. entry_rows tp query dir depth e n}"
      using Cons.IH Cons.prems by auto
    have "\<exists>sub. searchLoop tp query ?c (depth + 1) (listing tp ?c) = Some (sub, sub \<noteq> []) \<and> set sub = {n. found tp query ?c (depth + 1) n}"
    proof (cases "listing tp ?c = []")
      case True
      then have "\<not> found tp query ?c (depth + 1) n" for n using set_listing [of tp ?c] by (auto simp: found_entries)
      moreover have "searchLoop tp query ?c (depth + 1) (listing tp ?c) = Some ([], False)"
        by (subst searchLoop.simps) (simp add: True)
      ultimately show ?thesis by simp
    next
      case False
      then obtain f where f: "shown_entry tp ?c f" using set_listing [of tp ?c] by (cases "listing tp ?c") auto
      have "length dir < length ?c" "length ?c \<le> longest_key tp"
        using join_longer [OF assms(1) e] key_length [OF f] by auto
      then have "longest_key tp - length ?c < longest_key tp - length dir" by linarith
      from less.hyps [OF this, of "listing tp ?c" "depth + 1"] show ?thesis
        by (auto simp: set_listing found_entries)
    qed
    then obtain sub where sub: "searchLoop tp query ?c (depth + 1) (listing tp ?c) = Some (sub, sub \<noteq> [])"
      "set sub = {n. found tp query ?c (depth + 1) n}" by blast
    have sub_ne: "sub \<noteq> [] \<longleftrightarrow> (\<exists>m. found tp query ?c (depth + 1) m)" using sub(2) by (cases sub) auto
    let ?here = "if matchesFileSearch (tp_lower tp) e query then [makeNode tp dir depth e]
        else if \<not> fe_is_dir e then [] else if sub \<noteq> [] then makeNode tp dir depth e # sub else sub"
    have "searchLoop tp query dir depth (e # es) = Some (?here @ rows, ?here @ rows \<noteq> [])"
      by (subst searchLoop.simps) (use sub rows in auto)
    moreover have "set ?here = {n. entry_rows tp query dir depth e n}"
      using sub(2) sub_ne by (auto simp: entry_rows_def)
    ultimately show ?case using rows(2) by auto
  qed
qed

lemma search_rows:
  assumes "cache_ok tp"
  shows "\<exists>rows. appendSearchDescendants tp query dir depth = Some (rows, rows \<noteq> []) \<and> set rows = {n. found tp query dir depth n}"
  using search_loop_rows [OF assms, of "listing tp dir" dir query depth]
  by (auto simp: appendSearchDescendants_def set_listing found_entries)

text \<open>C10: flattening the tree always ends and shows exactly the right rows. When the listings are keyed
  by normalized paths and no entry has an empty name, the traversal returns for every set of
  expanded paths, sort order and query; without a query its rows are the visible entries below
  expanded directories, with their depths; with a query they are the matching entries and the
  directories on the way to one.\<close>

theorem flatten_terminates_exact:
  assumes "cache_ok tp"
  shows "\<exists>rows. flattenFileTree tp rootPath query = Some rows \<and>
    set rows = (if normalizeExplorerPath (tp_backend tp) rootPath = [] then {}
      else if trim query \<noteq> [] then {n. found tp (trim query) (normalizeExplorerPath (tp_backend tp) rootPath) 0 n}
      else {n. shown tp (normalizeExplorerPath (tp_backend tp) rootPath) 0 n})"
  using append_rows [OF assms, of "normalizeExplorerPath (tp_backend tp) rootPath" 0]
    search_rows [OF assms, of "trim query" "normalizeExplorerPath (tp_backend tp) rootPath" 0]
  by (auto simp: flattenFileTree_def Let_def)

definition demo_entry :: "string \<Rightarrow> bool \<Rightarrow> file_entry" where
  "demo_entry n d = \<lparr>fe_name = js n, fe_is_dir = d, fe_is_symlink = False, fe_size = 0, fe_permissions = [],
     fe_owner = [], fe_group = [], fe_mtime = 0, fe_raw_path_token = None\<rparr>"

definition demo_tree_params :: tree_params where
  "demo_tree_params = \<lparr>tp_cache = [(js ''/'', [demo_entry ''etc'' True]), (js ''/etc'', [demo_entry ''hosts'' False])],
     tp_expanded = [js ''/etc''], tp_natural = (\<lambda>_ _. 0), tp_lower = (\<lambda>t. t),
     tp_sortMode = \<lparr>sm_column = ByName, sm_ascending = True\<rparr>, tp_showHidden = True, tp_backend = RemoteFs\<rparr>"

lemma demo_cache_ok: "cache_ok demo_tree_params"
  by (simp add: cache_ok_def demo_tree_params_def demo_entry_def normalizeExplorerPath_def normalizeDirectoryPath_def
      stripTrailing_def js_def)

theorem flatten_terminates_exact_witness:
  "\<exists>rows. flattenFileTree demo_tree_params [47] [] = Some rows \<and> makeNode demo_tree_params (js ''/etc'') 1 (demo_entry ''hosts'' False) \<in> set rows"
proof -
  have e: "shown_entry demo_tree_params [47] (demo_entry ''etc'' True)"
    "shown_entry demo_tree_params (js ''/etc'') (demo_entry ''hosts'' False)"
    by (simp_all add: shown_entry_def demo_tree_params_def js_def)
  have j: "joinExplorerPath (tp_backend demo_tree_params) [47] (fe_name (demo_entry ''etc'' True)) = js ''/etc''"
    by (simp add: joinExplorerPath_def demo_tree_params_def demo_entry_def js_def)
  have d: "fe_is_dir (demo_entry ''etc'' True)" "js ''/etc'' \<in> set (tp_expanded demo_tree_params)"
    by (simp_all add: demo_entry_def demo_tree_params_def)
  have "shown demo_tree_params (js ''/etc'') (0 + 1) (makeNode demo_tree_params (js ''/etc'') (0 + 1) (demo_entry ''hosts'' False))"
    by (rule shown.here [OF e(2)])
  then have "shown demo_tree_params [47] 0 (makeNode demo_tree_params (js ''/etc'') (0 + 1) (demo_entry ''hosts'' False))"
    by (rule shown.below [OF e(1) d(1), unfolded j, OF d(2)])
  moreover have "normalizeExplorerPath (tp_backend demo_tree_params) [47] = [47]"
    by (simp add: demo_tree_params_def normalizeExplorerPath_def normalizeDirectoryPath_def)
  moreover obtain rows where "flattenFileTree demo_tree_params [47] [] = Some rows"
    "set rows = (if normalizeExplorerPath (tp_backend demo_tree_params) [47] = [] then {}
      else if trim [] \<noteq> [] then {n. found demo_tree_params (trim []) (normalizeExplorerPath (tp_backend demo_tree_params) [47]) 0 n}
      else {n. shown demo_tree_params (normalizeExplorerPath (tp_backend demo_tree_params) [47]) 0 n})"
    using flatten_terminates_exact [OF demo_cache_ok] by blast
  ultimately show ?thesis by simp
qed

section \<open>Unique rows\<close>

definition names_ok :: "tree_params \<Rightarrow> bool" where
  "names_ok tp \<longleftrightarrow> (\<forall>(dir, es) \<in> set (tp_cache tp). distinct (map fe_name es)
     \<and> (\<forall>e \<in> set es. explorer_name (tp_backend tp) (fe_name e)))"

lemma listing_names:
  assumes "names_ok tp"
  shows "distinct (map fe_name (listing tp dir)) \<and> (\<forall>e \<in> set (listing tp dir). explorer_name (tp_backend tp) (fe_name e))"
proof (cases "map_of (tp_cache tp) dir")
  case None
  then show ?thesis by (simp add: listing_def getSortedChildren_def)
next
  case (Some es)
  let ?f = "if tp_showHidden tp then es else filter (\<lambda>e. \<not> starts_with (fe_name e) [46]) es"
  have ok: "distinct (map fe_name es)" "\<forall>e \<in> set es. explorer_name (tp_backend tp) (fe_name e)"
    using assms map_of_SomeD [OF Some] by (auto simp: names_ok_def)
  then have "distinct (map fe_name ?f)" by (simp add: distinct_map_filter)
  moreover have "mset (map fe_name (listing tp dir)) = mset (map fe_name ?f)"
    by (simp add: listing_def getSortedChildren_def Some sortBy_mset)
  ultimately have "distinct (map fe_name (listing tp dir))" using mset_eq_imp_distinct_iff by blast
  with ok(2) Some show ?thesis by (auto simp: listing_def getSortedChildren_def)
qed

text \<open>What is shown of the rows of a directory, and of every recursive call.\<close>

definition unique_rows :: "tree_params \<Rightarrow> js_text \<Rightarrow> nat \<Rightarrow> file_entry list \<Rightarrow> tree_node list \<Rightarrow> bool" where
  "unique_rows tp dir depth es rows \<longleftrightarrow> (\<forall>ns. names_ok tp \<and> dir = rpath ns \<and> (\<forall>n \<in> set ns. explorer_name (tp_backend tp) n)
     \<and> distinct (map fe_name es) \<and> (\<forall>e \<in> set es. explorer_name (tp_backend tp) (fe_name e)) \<longrightarrow>
     distinct (map tn_path rows) \<and> (\<forall>r \<in> set rows. \<exists>m ms. m \<in> fe_name ` set es \<and> tn_path r = rpath (ns @ m # ms)
       \<and> (\<forall>n \<in> set (m # ms). explorer_name (tp_backend tp) n)))"

lemma unique_rowsD:
  assumes "unique_rows tp (rpath ns) depth es rows" "names_ok tp" "\<forall>n \<in> set ns. explorer_name (tp_backend tp) n"
    "distinct (map fe_name es)" "\<forall>e \<in> set es. explorer_name (tp_backend tp) (fe_name e)"
  shows "distinct (map tn_path rows)"
    "\<forall>r \<in> set rows. \<exists>m ms. m \<in> fe_name ` set es \<and> tn_path r = rpath (ns @ m # ms) \<and> (\<forall>n \<in> set (m # ms). explorer_name (tp_backend tp) n)"
  using assms unfolding unique_rows_def by blast+

lemma unique_step:
  assumes tp: "names_ok tp" and ns: "\<forall>n \<in> set ns. explorer_name (tp_backend tp) n"
    and m: "explorer_name (tp_backend tp) (fe_name e)" and new: "fe_name e \<notin> fe_name ` set rest"
    and S: "distinct (map tn_path sub)" "\<forall>r \<in> set sub. \<exists>k ks. tn_path r = rpath (ns @ fe_name e # k # ks)
        \<and> (\<forall>n \<in> set (fe_name e # k # ks). explorer_name (tp_backend tp) n)"
    and R: "distinct (map tn_path rows)" "\<forall>r \<in> set rows. \<exists>k ks. k \<in> fe_name ` set rest \<and> tn_path r = rpath (ns @ k # ks)
        \<and> (\<forall>n \<in> set (k # ks). explorer_name (tp_backend tp) n)"
  shows "distinct (map tn_path (makeNode tp (rpath ns) depth e # sub @ rows))
    \<and> (\<forall>r \<in> set (makeNode tp (rpath ns) depth e # sub @ rows). \<exists>k ks. k \<in> fe_name ` set (e # rest)
        \<and> tn_path r = rpath (ns @ k # ks) \<and> (\<forall>n \<in> set (k # ks). explorer_name (tp_backend tp) n))"
proof -
  let ?b = "tp_backend tp" and ?m = "fe_name e"
  have c: "joinExplorerPath ?b (rpath ns) ?m = rpath (ns @ [?m])" by (rule explorer.join_path [OF ns m])
  have inj: "rpath (ns @ ks) = rpath (ns @ hs) \<longleftrightarrow> ks = hs"
    if "\<forall>n \<in> set ks. explorer_name ?b n" "\<forall>n \<in> set hs. explorer_name ?b n" for ks hs
    using explorer.path_inj [of "ns @ ks" ?b "ns @ hs"] ns that by auto
  have 1: "rpath (ns @ [?m]) \<noteq> tn_path r" if r: "r \<in> set sub" for r
  proof -
    obtain k ks where "tn_path r = rpath (ns @ ?m # k # ks)" "\<forall>n \<in> set (?m # k # ks). explorer_name ?b n" using S(2) r by blast
    then show ?thesis using inj [of "[?m]" "?m # k # ks"] m by simp
  qed
  have 2: "rpath (ns @ [?m]) \<noteq> tn_path r" if r: "r \<in> set rows" for r
  proof -
    obtain k ks where "k \<in> fe_name ` set rest" "tn_path r = rpath (ns @ k # ks)" "\<forall>n \<in> set (k # ks). explorer_name ?b n"
      using R(2) r by blast
    then show ?thesis using inj [of "[?m]" "k # ks"] m new by auto
  qed
  have 3: "tn_path r \<noteq> tn_path q" if r: "r \<in> set sub" and q: "q \<in> set rows" for r q
  proof -
    obtain h hs where "tn_path r = rpath (ns @ ?m # h # hs)" "\<forall>n \<in> set (?m # h # hs). explorer_name ?b n" using S(2) r by blast
    moreover obtain k ks where "k \<in> fe_name ` set rest" "tn_path q = rpath (ns @ k # ks)" "\<forall>n \<in> set (k # ks). explorer_name ?b n"
      using R(2) q by blast
    ultimately show ?thesis using inj [of "?m # h # hs" "k # ks"] new by auto
  qed
  have "distinct (map tn_path (makeNode tp (rpath ns) depth e # sub @ rows))"
    using 1 2 3 S(1) R(1) c by (auto simp: image_iff)
  moreover have "\<exists>k ks. k \<in> fe_name ` set (e # rest) \<and> tn_path r = rpath (ns @ k # ks) \<and> (\<forall>n \<in> set (k # ks). explorer_name ?b n)"
    if r: "r \<in> set (makeNode tp (rpath ns) depth e # sub @ rows)" for r
  proof -
    consider "r = makeNode tp (rpath ns) depth e" | "r \<in> set sub" | "r \<in> set rows" using r by auto
    then show ?thesis
    proof cases
      case 1
      with c m show ?thesis by (intro exI [of _ ?m] exI [of _ "[]"]) simp
    next
      case 2
      then obtain k ks where "tn_path r = rpath (ns @ ?m # k # ks)" "\<forall>n \<in> set (?m # k # ks). explorer_name ?b n"
        using S(2) by blast
      then show ?thesis by (intro exI [of _ ?m] exI [of _ "k # ks"]) simp
    next
      case 3
      then obtain k ks where "k \<in> fe_name ` set rest" "tn_path r = rpath (ns @ k # ks)" "\<forall>n \<in> set (k # ks). explorer_name ?b n"
        using R(2) by blast
      then show ?thesis by (intro exI [of _ k] exI [of _ ks]) simp
    qed
  qed
  ultimately show ?thesis by blast
qed

lemma append_unique: "appendLoop tp dir depth es = Some rows \<Longrightarrow> unique_rows tp dir depth es rows"
proof (rule appendLoop.raw_induct [where P = unique_rows])
  fix f :: "tree_params \<Rightarrow> js_text \<Rightarrow> nat \<Rightarrow> file_entry list \<Rightarrow> tree_node list option"
    and tp dir depth es rows
  assume IH: "\<And>tp dir depth es rows. f tp dir depth es = Some rows \<Longrightarrow> unique_rows tp dir depth es rows"
    and eq: "(if es = [] then Some []
      else Option.bind
            (if fe_is_dir (hd es) \<and> tn_path (makeNode tp dir depth (hd es)) \<in> set (tp_expanded tp)
             then f tp (tn_path (makeNode tp dir depth (hd es))) (depth + 1) (listing tp (tn_path (makeNode tp dir depth (hd es))))
             else Some [])
            (\<lambda>sub. Option.bind (f tp dir depth (tl es)) (\<lambda>rows. Some (makeNode tp dir depth (hd es) # sub @ rows)))) = Some rows"
  show "unique_rows tp dir depth es rows"
    unfolding unique_rows_def
  proof (intro allI impI, elim conjE)
    fix ns
    assume tp: "names_ok tp" and dir: "dir = rpath ns" and ns: "\<forall>n \<in> set ns. explorer_name (tp_backend tp) n"
      and dis: "distinct (map fe_name es)" and en: "\<forall>e \<in> set es. explorer_name (tp_backend tp) (fe_name e)"
    show "distinct (map tn_path rows) \<and> (\<forall>r \<in> set rows. \<exists>m ms. m \<in> fe_name ` set es \<and> tn_path r = rpath (ns @ m # ms)
       \<and> (\<forall>n \<in> set (m # ms). explorer_name (tp_backend tp) n))"
    proof (cases es)
      case Nil
      with eq show ?thesis by simp
    next
      case (Cons e rest)
      have m: "explorer_name (tp_backend tp) (fe_name e)" using en Cons by simp
      let ?c = "rpath (ns @ [fe_name e])"
      have c: "joinExplorerPath (tp_backend tp) (rpath ns) (fe_name e) = ?c" by (rule explorer.join_path [OF ns m])
      have ok: "\<forall>n \<in> set (ns @ [fe_name e]). explorer_name (tp_backend tp) n" using ns m by auto
      obtain sub rows' where sub: "(if fe_is_dir e \<and> ?c \<in> set (tp_expanded tp)
            then f tp ?c (depth + 1) (listing tp ?c) else Some []) = Some sub"
        and rows': "f tp dir depth rest = Some rows'" and rows: "rows = makeNode tp dir depth e # sub @ rows'"
        using eq Cons c dir by (auto simp: bind_eq_Some_conv cong: if_cong)
      have S: "distinct (map tn_path sub) \<and> (\<forall>r \<in> set sub. \<exists>k ks. tn_path r = rpath (ns @ fe_name e # k # ks)
          \<and> (\<forall>n \<in> set (fe_name e # k # ks). explorer_name (tp_backend tp) n))"
      proof (cases "fe_is_dir e \<and> ?c \<in> set (tp_expanded tp)")
        case True
        then have "f tp ?c (depth + 1) (listing tp ?c) = Some sub" using sub by simp
        from unique_rowsD [OF IH [OF this] tp ok] listing_names [OF tp, of ?c] m show ?thesis by fastforce
      next
        case False
        with sub show ?thesis by auto
      qed
      have "distinct (map fe_name rest)" "\<forall>e \<in> set rest. explorer_name (tp_backend tp) (fe_name e)" using dis en Cons by auto
      note R = unique_rowsD [OF IH [OF rows', unfolded dir] tp ns this]
      have "fe_name e \<notin> fe_name ` set rest" using dis Cons by auto
      from unique_step [OF tp ns m this _ _ R] S show ?thesis unfolding rows dir Cons by blast
    qed
  qed
qed

text \<open>rows of the tree have unique keys: below an absolute path with slashes, when the names of each
  listing are distinct, no two rows of the flattened tree have the same path, and every path
  lies below the root.\<close>

theorem tree_rows_unique:
  assumes "names_ok tp" and "\<forall>n \<in> set ns. explorer_name (tp_backend tp) n" and "trim query = []"
    and "flattenFileTree tp (rpath ns) query = Some rows"
  shows "distinct (map tn_path rows) \<and> (\<forall>r \<in> set rows. pathStartsWithDirectory lower (tp_backend tp) (tn_path r) (rpath ns) \<and> tn_path r \<noteq> rpath ns)"
proof -
  have "appendLoop tp (rpath ns) 0 (listing tp (rpath ns)) = Some rows"
    using assms(3,4) explorer.norm_path [OF assms(2)] by (simp add: flattenFileTree_def appendChildNodes_def Let_def)
  note u = unique_rowsD [OF append_unique [OF this] assms(1,2)] listing_names [OF assms(1), of "rpath ns"]
  have "pathStartsWithDirectory lower (tp_backend tp) (tn_path r) (rpath ns) \<and> tn_path r \<noteq> rpath ns" if r: "r \<in> set rows" for r
  proof -
    obtain m ms where ms: "tn_path r = rpath (ns @ m # ms)" "\<forall>n \<in> set (m # ms). explorer_name (tp_backend tp) n"
      using u r by blast
    then have "\<forall>n \<in> set (ns @ m # ms). explorer_name (tp_backend tp) n" using assms(2) by auto
    then show ?thesis
      using ms explorer.under_path [OF assms(2), of "ns @ m # ms" lower] explorer.path_inj [OF _ assms(2), of "ns @ m # ms"] by simp
  qed
  with u show ?thesis by blast
qed

theorem tree_rows_unique_witness:
  "\<exists>rows. flattenFileTree demo_tree_params (rpath []) [] = Some rows \<and> distinct (map tn_path rows)"
proof -
  obtain rows where r: "flattenFileTree demo_tree_params (rpath []) [] = Some rows"
    using append_rows [OF demo_cache_ok, of "rpath []" 0] explorer.norm_path [of "[]" "tp_backend demo_tree_params"]
    by (auto simp: flattenFileTree_def Let_def)
  have "names_ok demo_tree_params"
    by (simp add: names_ok_def demo_tree_params_def demo_entry_def explorer_name_def remote_dir_def remote_name_def js_def)
  from tree_rows_unique [OF this _ _ r] r show ?thesis by simp
qed

section \<open>Ancestors\<close>




















section \<open>Sessions in the store\<close>

lemma first_field:
  "c \<notin> set s \<Longrightarrow> c \<notin> set t \<Longrightarrow> s @ c # u = t @ c # v \<longleftrightarrow> s = t \<and> u = v"
proof (induction s arbitrary: t)
  case Nil
  then show ?case by (cases t) auto
next
  case (Cons a s)
  then show ?case by (cases t) auto
qed

lemma backendName_bar: "124 \<notin> set (backendName b)" "backendName b = backendName c \<longleftrightarrow> b = c"
  by (cases b; cases c; simp add: backendName_def js_def)+

lemma starts_iff: "starts_with a b \<longleftrightarrow> (\<exists>r. a = b @ r)"
  by (metis starts_withD starts_with_append)

lemma key_fields:
  assumes "124 \<notin> set s" "124 \<notin> set t"
  shows "treeCacheKey t c q = treeCacheKey s b p \<longleftrightarrow> t = s \<and> c = b \<and> normalizeExplorerPath c q = normalizeExplorerPath b p"
    "starts_with (treeCacheKey t c q) (treeCachePrefix s b) \<longleftrightarrow> t = s \<and> c = b"
    "starts_with (treeCacheKey t c q) (s @ [124]) \<longleftrightarrow> t = s"
proof -
  have bk: "backendName c @ 124 # u = backendName b @ 124 # v \<longleftrightarrow> c = b \<and> u = v" for u v
    using first_field [OF backendName_bar(1) backendName_bar(1)] backendName_bar(2) by metis
  note f = first_field [OF assms(2,1)]
  show "treeCacheKey t c q = treeCacheKey s b p \<longleftrightarrow> t = s \<and> c = b \<and> normalizeExplorerPath c q = normalizeExplorerPath b p"
    using f bk by (auto simp: treeCacheKey_def treeCachePrefix_def)
  show "starts_with (treeCacheKey t c q) (treeCachePrefix s b) \<longleftrightarrow> t = s \<and> c = b"
    using f bk by (auto simp: treeCacheKey_def treeCachePrefix_def starts_iff)
  show "starts_with (treeCacheKey t c q) (s @ [124]) \<longleftrightarrow> t = s"
    using f by (auto simp: treeCacheKey_def treeCachePrefix_def starts_iff)
qed

lemma fold_delete:
  "map_of (fold (\<lambda>key store. if P key then AList.delete key store else store) keys store) k
   = (if k \<in> set keys \<and> P k then None else map_of store k)"
  by (induction keys arbitrary: store) (auto simp: delete_conv')

lemma fold_delete_all:
  "map_of (fold (\<lambda>key store. if P key then AList.delete key store else store) (map fst store) store) k
   = (if P k then None else map_of store k)"
  unfolding fold_delete by (auto simp: map_of_eq_None_iff)

text \<open>C19: the store keeps sessions apart. For session ids without a bar, storing a listing makes exactly
  that directory of that session and back end return it; clearing a directory forgets exactly
  the listings of the same session and back end at or below it; clearing a session forgets
  exactly its own listings.\<close>

theorem tree_store_isolated:
  assumes "124 \<notin> set s" "s \<noteq> []" and "124 \<notin> set t" "t \<noteq> []"
  shows "getTreeChildren (Some t) c q (setTreeChildren (Some s) b p es store)
      = (if t = s \<and> c = b \<and> normalizeExplorerPath c q = normalizeExplorerPath b p then Some es else getTreeChildren (Some t) c q store)
    \<and> getTreeChildren (Some t) c q (clearTreeChildrenForPath lower (Some s) b p store)
      = (if t = s \<and> c = b \<and> normalizeExplorerPath b p \<noteq> []
            \<and> pathStartsWithDirectory lower b (normalizeExplorerPath b q) (normalizeExplorerPath b p) then None
         else getTreeChildren (Some t) c q store)
    \<and> getTreeChildren (Some t) c q (clearTreeChildrenForSession (Some s) store)
      = (if t = s then None else getTreeChildren (Some t) c q store)"
proof -
  have f: "\<not> falsy (Some s)" "\<not> falsy (Some t)" using assms by (auto simp: falsy_def)
  have d: "drop (length (treeCachePrefix t c)) (treeCacheKey t c q) = normalizeExplorerPath c q"
    by (simp add: treeCacheKey_def)
  have 1: "getTreeChildren (Some t) c q (setTreeChildren (Some s) b p es store)
      = (if t = s \<and> c = b \<and> normalizeExplorerPath c q = normalizeExplorerPath b p then Some es else getTreeChildren (Some t) c q store)"
    using f key_fields(1) [OF assms(1,3), of c q b p] by (auto simp: getTreeChildren_def setTreeChildren_def Let_def update_conv')
  have 2: "getTreeChildren (Some t) c q (clearTreeChildrenForSession (Some s) store)
      = (if t = s then None else getTreeChildren (Some t) c q store)"
    using f key_fields(3) [OF assms(1,3), of c q] by (auto simp: getTreeChildren_def clearTreeChildrenForSession_def fold_delete_all)
  have 3: "getTreeChildren (Some t) c q (clearTreeChildrenForPath lower (Some s) b p store)
      = (if t = s \<and> c = b \<and> normalizeExplorerPath b p \<noteq> []
            \<and> pathStartsWithDirectory lower b (normalizeExplorerPath b q) (normalizeExplorerPath b p) then None
         else getTreeChildren (Some t) c q store)"
    using f key_fields(2) [OF assms(1,3), of c q b] d
    by (auto simp: getTreeChildren_def clearTreeChildrenForPath_def Let_def fold_delete_all)
  from 1 2 3 show ?thesis by blast
qed

theorem tree_store_isolated_witness:
  "getTreeChildren (Some (js ''a'')) RemoteFs (js ''/x/'') (setTreeChildren (Some (js ''a'')) RemoteFs (js ''/x'') [] []) = Some []
   \<and> getTreeChildren (Some (js ''b'')) RemoteFs (js ''/x'') (setTreeChildren (Some (js ''a'')) RemoteFs (js ''/x'') [] []) = None"
proof -
  have n: "normalizeExplorerPath RemoteFs (js ''/x/'') = normalizeExplorerPath RemoteFs (js ''/x'')"
    by (simp add: normalizeExplorerPath_def normalizeDirectoryPath_def stripTrailing_def js_def)
  have h: "124 \<notin> set (js ''a'')" "js ''a'' \<noteq> []" "124 \<notin> set (js ''b'')" "js ''b'' \<noteq> []" "js ''b'' \<noteq> js ''a''"
    by (simp_all add: js_def)
  from tree_store_isolated [OF h(1,2,1,2)] tree_store_isolated [OF h(1-4)] n h(5) show ?thesis
    by (auto simp: getTreeChildren_def)
qed

section \<open>Restoring a session\<close>

lemma same_refl: "list_all2 isSameFileEntry es es"
  by (simp add: list_all2_same isSameFileEntry_def)

lemma reconcile_step:
  "reconcileLoop current ((dir, entries) # rest) identical acc =
     (let hit = (\<exists>cs. map_of current dir = Some cs \<and> list_all2 isSameFileEntry cs entries) in
      reconcileLoop current rest (identical \<and> hit) (AList.update dir (if hit then the (map_of current dir) else entries) acc))"
  by (cases "map_of current dir") (auto simp: isSameFileEntries_def)

lemma reconcile_acc:
  assumes "distinct (map fst c)"
  shows "map_of (snd (reconcileLoop current c identical acc)) d =
     (case map_of c d of None \<Rightarrow> map_of acc d
      | Some es \<Rightarrow> Some (if \<exists>cs. map_of current d = Some cs \<and> list_all2 isSameFileEntry cs es then the (map_of current d) else es))"
  using assms
proof (induction c arbitrary: identical acc)
  case (Cons x c)
  obtain dir entries where x: "x = (dir, entries)" by fastforce
  let ?hit = "\<exists>cs. map_of current dir = Some cs \<and> list_all2 isSameFileEntry cs entries"
  define v where "v = (if ?hit then the (map_of current dir) else entries)"
  have IH: "map_of (snd (reconcileLoop current ((dir, entries) # c) identical acc)) d =
     (case map_of c d of None \<Rightarrow> map_of (AList.update dir v acc) d
      | Some es \<Rightarrow> Some (if \<exists>cs. map_of current d = Some cs \<and> list_all2 isSameFileEntry cs es then the (map_of current d) else es))"
    unfolding reconcile_step Let_def v_def using Cons.prems by (intro Cons.IH) simp
  show ?case
  proof (cases "d = dir")
    case True
    then have "map_of c d = None" using Cons.prems x by (simp add: map_of_eq_None_iff)
    with True IH show ?thesis unfolding x by (auto simp: update_conv' v_def simp del: reconcileLoop.simps)
  next
    case False
    with IH show ?thesis unfolding x
      by (cases "map_of c d") (simp_all add: update_conv' del: reconcileLoop.simps)
  qed
qed simp

lemma reconcile_identical:
  "fst (reconcileLoop current c identical acc) \<longleftrightarrow>
     identical \<and> (\<forall>(d, es) \<in> set c. \<exists>cs. map_of current d = Some cs \<and> list_all2 isSameFileEntry cs es)"
proof (induction c arbitrary: identical acc)
  case (Cons x c)
  obtain dir entries where x: "x = (dir, entries)" by fastforce
  show ?case unfolding x reconcile_step Let_def by (subst Cons.IH) auto
qed simp

text \<open>restoring a session shows its cached listings. The restored map has exactly the directories
  of the cached one, and each listing equals the cached listing in all attributes the comparison
  looks at, whether or not the current listings were reused; with nothing cached it is empty.\<close>

theorem restored_cache_same_content:
  assumes "distinct (map fst cached)" and "distinct (map fst current)"
  shows "rel_option (list_all2 isSameFileEntry) (map_of (reconcileRestoredChildrenCache (Some cached) current) d) (map_of cached d)
    \<and> reconcileRestoredChildrenCache None current = []"
proof -
  let ?r = "reconcileLoop current cached (length cached = length current) []"
  have res: "reconcileRestoredChildrenCache (Some cached) current = (if fst ?r then current else snd ?r)"
    by (simp add: reconcileRestoredChildrenCache_def split: prod.split)
  have "rel_option (list_all2 isSameFileEntry) (map_of (if fst ?r then current else snd ?r) d) (map_of cached d)"
  proof (cases "fst ?r")
    case True
    then have all: "\<forall>(d, es) \<in> set cached. \<exists>cs. map_of current d = Some cs \<and> list_all2 isSameFileEntry cs es"
      and len: "length cached = length current" by (simp_all add: reconcile_identical)
    have "fst ` set cached \<subseteq> fst ` set current" using all by (force dest: map_of_SomeD)
    moreover have "card (fst ` set cached) = card (fst ` set current)"
      using assms len distinct_card [of "map fst cached"] distinct_card [of "map fst current"] by simp
    ultimately have dom: "fst ` set cached = fst ` set current" by (simp add: card_subset_eq)
    show ?thesis
    proof (cases "map_of cached d")
      case None
      then have "map_of current d = None" using dom by (simp add: map_of_eq_None_iff)
      with True None show ?thesis by simp
    next
      case (Some es)
      with all map_of_SomeD [OF Some] obtain cs where "map_of current d = Some cs" "list_all2 isSameFileEntry cs es" by blast
      with True Some show ?thesis by simp
    qed
  next
    case False
    then show ?thesis
      using reconcile_acc [OF assms(1), of current "length cached = length current" "[]" d]
      by (auto simp: same_refl split: option.splits)
  qed
  with res show ?thesis by (simp add: reconcileRestoredChildrenCache_def)
qed

theorem restored_cache_same_content_witness:
  "rel_option (list_all2 isSameFileEntry)
     (map_of (reconcileRestoredChildrenCache (Some [([47], [demo_entry ''a'' True])]) [([47], [])]) [47]) (Some [demo_entry ''a'' True])"
  using restored_cache_same_content [of "[([47], [demo_entry ''a'' True])]" "[([47], [])]" "[47]"] by simp

end
