(* ===== verification/File_Kinds.thy ===== *)
theory File_Kinds
  imports File_Paths
begin

text \<open>
  Kinds of files by name (\<open>components/panel/file-explorer/model.ts\<close>): extensions, text and binary
  files, preview kinds and editor languages. \<open>toLocaleLowerCase\<close> is the parameter \<open>lower\<close>. The table
  of languages is a plain object, so that looking up a name it does not have gives the
  property inherited from \<open>Object.prototype\<close>, when there is one.
\<close>

section \<open>Tables\<close>

definition BINARY_EXTENSIONS :: "string list" where
  "BINARY_EXTENSIONS = [
     ''jpg'', ''jpeg'', ''png'', ''gif'', ''bmp'', ''webp'', ''ico'', ''tiff'', ''tif'', ''heic'',
     ''heif'', ''avif'', ''jfif'', ''psd'', ''ai'', ''eps'', ''raw'', ''cr2'', ''nef'', ''mp3'', ''wav'',
     ''flac'', ''aac'', ''ogg'', ''wma'', ''m4a'', ''aiff'', ''opus'', ''mp4'', ''avi'', ''mkv'', ''mov'',
     ''wmv'', ''flv'', ''webm'', ''m4v'', ''3gp'', ''mpeg'', ''mpg'', ''zip'', ''rar'', ''7z'', ''tar'',
     ''gz'', ''bz2'', ''xz'', ''lz'', ''lzma'', ''zst'', ''tgz'', ''tbz2'', ''txz'', ''cab'', ''iso'',
     ''dmg'', ''exe'', ''dll'', ''so'', ''dylib'', ''bin'', ''app'', ''msi'', ''deb'', ''rpm'', ''apk'',
     ''ipa'', ''jar'', ''war'', ''ear'', ''pdf'', ''doc'', ''docx'', ''xls'', ''xlsx'', ''ppt'', ''pptx'',
     ''odt'', ''ods'', ''odp'', ''ttf'', ''otf'', ''woff'', ''woff2'', ''eot'', ''db'', ''sqlite'',
     ''sqlite3'', ''mdb'', ''accdb'', ''o'', ''obj'', ''pyc'', ''pyo'', ''class'', ''beam'', ''swf'',
     ''fla'', ''blend'', ''unity3d'', ''unitypackage'']"

definition LANGUAGE_BY_EXTENSION :: "(string \<times> string) list" where
  "LANGUAGE_BY_EXTENSION = [
     (''bat'', ''batch''), (''bash'', ''shell''), (''c'', ''c''), (''cfg'', ''ini''), (''cc'', ''cpp''),
     (''cjs'', ''javascript''), (''cmd'', ''batch''), (''conf'', ''ini''), (''cpp'', ''cpp''),
     (''cs'', ''csharp''), (''css'', ''css''), (''cxx'', ''cpp''), (''dart'', ''dart''),
     (''diff'', ''diff''), (''dockerfile'', ''dockerfile''), (''fs'', ''fsharp''), (''fish'', ''shell''),
     (''gql'', ''graphql''), (''graphql'', ''graphql''), (''go'', ''go''), (''h'', ''c''),
     (''hpp'', ''cpp''), (''htm'', ''html''), (''html'', ''html''), (''ini'', ''ini''),
     (''just'', ''makefile''), (''java'', ''java''), (''js'', ''javascript''), (''json'', ''json''),
     (''json5'', ''json5''), (''jsonc'', ''jsonc''), (''jsx'', ''javascript''), (''kt'', ''kotlin''),
     (''kts'', ''kotlin''), (''less'', ''less''), (''log'', ''plaintext''), (''lua'', ''lua''),
     (''markdown'', ''markdown''), (''md'', ''markdown''), (''mdx'', ''markdown''),
     (''mjs'', ''javascript''), (''patch'', ''diff''), (''pl'', ''perl''), (''php'', ''php''),
     (''properties'', ''properties''), (''proto'', ''protobuf''), (''ps1'', ''powershell''),
     (''psm1'', ''powershell''), (''py'', ''python''), (''pyi'', ''python''), (''pyw'', ''python''),
     (''r'', ''r''), (''R'', ''r''), (''rb'', ''ruby''), (''rs'', ''rust''), (''sass'', ''sass''),
     (''scss'', ''scss''), (''sh'', ''shell''), (''sql'', ''sql''), (''svelte'', ''svelte''),
     (''swift'', ''swift''), (''toml'', ''toml''), (''ts'', ''typescript''), (''tsx'', ''typescript''),
     (''txt'', ''plaintext''), (''vb'', ''vb''), (''vue'', ''vue''), (''xml'', ''xml''),
     (''xhtml'', ''html''), (''xsl'', ''xml''), (''xslt'', ''xml''), (''yaml'', ''yaml''),
     (''yml'', ''yaml''), (''zsh'', ''shell'')]"

definition SHELL_TEXT_BASENAMES :: "string list" where
  "SHELL_TEXT_BASENAMES = [
     ''bash_profile'', ''bash_login'', ''bash_logout'', ''bashrc'', ''profile'', ''zprofile'', ''zshenv'',
     ''zshrc'', ''zlogin'', ''zlogout'', ''kshrc'', ''cshrc'', ''tcshrc'']"

definition CONFIG_TEXT_BASENAMES :: "string list" where
  "CONFIG_TEXT_BASENAMES = [
     ''env'', ''env.local'', ''env.development'', ''env.production'', ''env.test'', ''gitconfig'',
     ''editorconfig'', ''npmrc'', ''yarnrc'', ''curlrc'', ''wgetrc'']"

definition TEXT_EXTENSIONS :: "(js_text \<Rightarrow> js_text) \<Rightarrow> js_text list" where
  "TEXT_EXTENSIONS lower = map (\<lambda>(e, _). lower (js e)) LANGUAGE_BY_EXTENSION @ map js [''asc'', ''csv'', ''env'',
     ''gitignore'', ''gitattributes'', ''gitmodules'', ''pem'', ''pub'', ''service'', ''socket'', ''timer'']"

definition SPECIAL_TEXT_BASENAMES :: "string list" where
  "SPECIAL_TEXT_BASENAMES = SHELL_TEXT_BASENAMES @ CONFIG_TEXT_BASENAMES @ [''cmakelists.txt'', ''dockerfile'',
     ''makefile'', ''gnumakefile'', ''justfile'']"

definition IMAGE_PREVIEW_EXTENSIONS :: "string list" where
  "IMAGE_PREVIEW_EXTENSIONS = [''png'', ''jpg'', ''jpeg'', ''gif'', ''webp'', ''bmp'']"

definition MARKDOWN_PREVIEW_EXTENSIONS :: "string list" where
  "MARKDOWN_PREVIEW_EXTENSIONS = [''md'', ''markdown'', ''mdx'']"

definition CSV_PREVIEW_EXTENSIONS :: "string list" where
  "CSV_PREVIEW_EXTENSIONS = [''csv'', ''tsv'']"

definition JSON_PREVIEW_EXTENSIONS :: "string list" where
  "JSON_PREVIEW_EXTENSIONS = [''json'', ''jsonc'', ''json5'']"

section \<open>Names\<close>

definition lastPart :: "js_text \<Rightarrow> js_text" where
  "lastPart path = last (splitOn isSlash path)"

definition getLocalPathName :: "js_text \<Rightarrow> js_text \<Rightarrow> js_text" where
  "getLocalPathName path fallback = (if lastPart path \<noteq> [] then lastPart path else fallback)"

definition getFileExtension :: "(js_text \<Rightarrow> js_text) \<Rightarrow> js_text \<Rightarrow> js_text" where
  "getFileExtension lower name =
     (let normalized = lower (trim name);
          lastSlash = max (lastIndex 47 normalized) (lastIndex 92 normalized);
          baseName = drop (nat (lastSlash + 1)) normalized;
          index = lastIndex 46 baseName
      in if index > 0 then drop (nat (index + 1)) baseName else [])"

definition getNormalizedBaseName :: "(js_text \<Rightarrow> js_text) \<Rightarrow> js_text \<Rightarrow> js_text" where
  "getNormalizedBaseName lower name = (let b = lower (lastPart name) in if b \<noteq> [] then b else lower name)"

definition dropDots :: "js_text \<Rightarrow> js_text" where
  "dropDots t = dropWhile (\<lambda>c. c = 46) t"

definition inTable :: "js_text \<Rightarrow> string list \<Rightarrow> bool" where
  "inTable t xs \<longleftrightarrow> t \<in> set (map js xs)"

definition isKnownBinaryFile :: "(js_text \<Rightarrow> js_text) \<Rightarrow> js_text \<Rightarrow> bool" where
  "isKnownBinaryFile lower name = (let ext = getFileExtension lower name in ext \<noteq> [] \<and> inTable ext BINARY_EXTENSIONS)"

definition isKnownTextFile :: "(js_text \<Rightarrow> js_text) \<Rightarrow> js_text \<Rightarrow> bool" where
  "isKnownTextFile lower name =
     (let baseName = getNormalizedBaseName lower name; normalized = dropDots baseName; ext = getFileExtension lower name in
      (ext \<noteq> [] \<and> ext \<in> set (TEXT_EXTENSIONS lower)) \<or> inTable normalized SPECIAL_TEXT_BASENAMES
      \<or> ends_with baseName (js ''.dockerfile'') \<or> ends_with baseName (js ''.nginx.conf'')
      \<or> baseName = js ''docker-compose.yml'' \<or> baseName = js ''docker-compose.yaml'')"

datatype text_kind = TextKind | BinaryKind | UnknownKind

definition getRemoteFileTextKind :: "(js_text \<Rightarrow> js_text) \<Rightarrow> js_text \<Rightarrow> text_kind" where
  "getRemoteFileTextKind lower name =
     (if isKnownTextFile lower name then TextKind else if isKnownBinaryFile lower name then BinaryKind else UnknownKind)"

datatype preview_kind = ImagePreview | MarkdownPreview | CsvPreview | JsonPreview | TextPreview | PdfPreview | Unsupported

definition getFilePreviewKind :: "(js_text \<Rightarrow> js_text) \<Rightarrow> js_text \<Rightarrow> preview_kind" where
  "getFilePreviewKind lower name =
     (let ext = getFileExtension lower name in
      if inTable ext IMAGE_PREVIEW_EXTENSIONS then ImagePreview
      else if inTable ext MARKDOWN_PREVIEW_EXTENSIONS then MarkdownPreview
      else if inTable ext CSV_PREVIEW_EXTENSIONS then CsvPreview
      else if inTable ext JSON_PREVIEW_EXTENSIONS then JsonPreview
      else if ext = js ''pdf'' then PdfPreview
      else if isKnownTextFile lower name then TextPreview
      else Unsupported)"

definition imageMimeFromFilename :: "(js_text \<Rightarrow> js_text) \<Rightarrow> js_text \<Rightarrow> string" where
  "imageMimeFromFilename lower name =
     (let ext = getFileExtension lower name in
      if ext = js ''png'' then ''image/png''
      else if ext = js ''jpg'' \<or> ext = js ''jpeg'' then ''image/jpeg''
      else if ext = js ''gif'' then ''image/gif''
      else if ext = js ''webp'' then ''image/webp''
      else if ext = js ''bmp'' then ''image/bmp''
      else ''application/octet-stream'')"

section \<open>Languages\<close>

datatype language = Language string | InheritedProperty string

definition OBJECT_PROPERTIES :: "string list" where
  "OBJECT_PROPERTIES = [''constructor'', ''__defineGetter__'', ''__defineSetter__'', ''hasOwnProperty'', ''__lookupGetter__'',
     ''__lookupSetter__'', ''isPrototypeOf'', ''propertyIsEnumerable'', ''toString'', ''valueOf'', ''__proto__'', ''toLocaleString'']"

definition lookupLanguage :: "js_text \<Rightarrow> language option" where
  "lookupLanguage ext =
     (case find (\<lambda>(e, _). js e = ext) LANGUAGE_BY_EXTENSION of
        Some (_, l) \<Rightarrow> Some (Language l)
      | None \<Rightarrow> map_option InheritedProperty (find (\<lambda>p. js p = ext) OBJECT_PROPERTIES))"

definition languageFromFilename :: "(js_text \<Rightarrow> js_text) \<Rightarrow> js_text \<Rightarrow> language" where
  "languageFromFilename lower name =
     (let baseName = getNormalizedBaseName lower name; normalized = dropDots baseName in
      if inTable normalized SHELL_TEXT_BASENAMES then Language ''shell''
      else if inTable normalized CONFIG_TEXT_BASENAMES then Language ''ini''
      else if baseName = js ''cmakelists.txt'' then Language ''cmake''
      else if baseName = js ''dockerfile'' \<or> ends_with baseName (js ''.dockerfile'') then Language ''dockerfile''
      else if baseName = js ''makefile'' \<or> baseName = js ''gnumakefile'' \<or> baseName = js ''justfile'' then Language ''makefile''
      else if baseName = js ''nginx.conf'' \<or> ends_with baseName (js ''.nginx.conf'') then Language ''nginx''
      else if baseName = js ''docker-compose.yml'' \<or> baseName = js ''docker-compose.yaml'' then Language ''yaml''
      else (case lookupLanguage (getFileExtension lower name) of Some l \<Rightarrow> l | None \<Rightarrow> Language ''plaintext''))"

section \<open>Properties\<close>

text \<open>What is used of \<open>toLocaleLowerCase\<close>: it maps the one upper-case extension of the language
  table to lower case and leaves lower-case extensions unchanged.\<close>

definition lowers :: "(js_text \<Rightarrow> js_text) \<Rightarrow> bool" where
  "lowers lower \<longleftrightarrow> lower (js ''R'') = js ''r'' \<and> (\<forall>t. (\<forall>c \<in> set t. \<not> (65 \<le> c \<and> c \<le> 90) \<and> c < 128) \<longrightarrow> lower t = t)"

lemma text_extensions:
  assumes "lowers lower"
  shows "TEXT_EXTENSIONS lower = map js (map (\<lambda>(e, _). if e = ''R'' then ''r'' else e) LANGUAGE_BY_EXTENSION @ [''asc'', ''csv'', ''env'',
     ''gitignore'', ''gitattributes'', ''gitmodules'', ''pem'', ''pub'', ''service'', ''socket'', ''timer''])"
proof -
  have "lower (js e) = js (if e = ''R'' then ''r'' else e)" if "e \<in> set (map fst LANGUAGE_BY_EXTENSION)" for e
  proof (cases "e = ''R''")
    case True
    then show ?thesis using assms by (simp add: lowers_def)
  next
    case False
    have "\<forall>e \<in> set (map fst LANGUAGE_BY_EXTENSION). e = ''R'' \<or> (\<forall>c \<in> set (js e). \<not> (65 \<le> c \<and> c \<le> 90) \<and> c < 128)"
      unfolding LANGUAGE_BY_EXTENSION_def by (simp add: js_def)
    with False that have "\<forall>c \<in> set (js e). \<not> (65 \<le> c \<and> c \<le> 90) \<and> c < 128" by blast
    with assms False show ?thesis by (simp add: lowers_def)
  qed
  then have "map (\<lambda>(e, _). lower (js e)) LANGUAGE_BY_EXTENSION
      = map (\<lambda>(e, _). js (if e = ''R'' then ''r'' else e)) LANGUAGE_BY_EXTENSION"
    by (intro map_cong) (force split: prod.split)+
  then show ?thesis by (simp add: TEXT_EXTENSIONS_def o_def case_prod_beta)
qed

lemma tables_disjoint:
  assumes "lowers lower"
  shows "set (TEXT_EXTENSIONS lower) \<inter> set (map js BINARY_EXTENSIONS) = {}"
proof -
  have "set (map (\<lambda>(e, _). if e = ''R'' then ''r'' else e) LANGUAGE_BY_EXTENSION @ [''asc'', ''csv'', ''env'',
     ''gitignore'', ''gitattributes'', ''gitmodules'', ''pem'', ''pub'', ''service'', ''socket'', ''timer'']) \<inter> set BINARY_EXTENSIONS = {}"
    unfolding LANGUAGE_BY_EXTENSION_def BINARY_EXTENSIONS_def by simp
  then show ?thesis unfolding text_extensions [OF assms] by (auto simp: js_inj)
qed

definition suffixField :: "js_text \<Rightarrow> js_text" where
  "suffixField t = rev (takeWhile (\<lambda>c. c \<noteq> 46) (rev t))"

lemma suffixField_dot: "46 \<notin> set e \<Longrightarrow> suffixField (b @ 46 # e) = e"
  by (simp add: suffixField_def takeWhile_append)

lemma suffixField_self: "46 \<notin> set e \<Longrightarrow> suffixField e = e"
proof -
  assume "46 \<notin> set e"
  then have t: "takeWhile (\<lambda>c. c \<noteq> 46) (rev e) = rev e" by (auto simp: takeWhile_eq_all_conv)
  show ?thesis unfolding suffixField_def t by simp
qed

text \<open>A plain lower-case name with an extension.\<close>

definition file_name :: "js_text \<Rightarrow> js_text \<Rightarrow> js_text" where
  "file_name b e = b @ 46 # e"

definition plain_name :: "js_text \<Rightarrow> js_text \<Rightarrow> bool" where
  "plain_name b e \<longleftrightarrow> b \<noteq> [] \<and> e \<noteq> [] \<and> 46 \<notin> set e
     \<and> (\<forall>c \<in> set (b @ e). \<not> isSlash c \<and> \<not> isSpace c \<and> \<not> (65 \<le> c \<and> c \<le> 90) \<and> c < 128)"

lemma plain_name_parts:
  assumes "plain_name b e" "lowers lower"
  shows "lower (file_name b e) = file_name b e" "trim (file_name b e) = file_name b e"
    "getNormalizedBaseName lower (file_name b e) = file_name b e" "getFileExtension lower (file_name b e) = e"
    "suffixField (dropDots (file_name b e)) = e"
proof -
  let ?n = "file_name b e"
  have ch: "\<forall>c \<in> set ?n. \<not> isSlash c \<and> \<not> isSpace c \<and> \<not> (65 \<le> c \<and> c \<le> 90) \<and> c < 128"
    using assms(1) by (auto simp: plain_name_def file_name_def isSlash_def isSpace_def)
  have ne: "?n \<noteq> []" "b \<noteq> []" "e \<noteq> []" "46 \<notin> set e" using assms(1) by (auto simp: file_name_def plain_name_def)
  show l: "lower ?n = ?n" using assms(2) ch by (auto simp: lowers_def)
  show t: "trim ?n = ?n" using ch ne(1) by (intro trim_id) auto
  have "splitOn isSlash ?n = [?n]" using ch by (intro splitOn_none) auto
  then show "getNormalizedBaseName lower ?n = ?n" using l ne(1) by (simp add: getNormalizedBaseName_def lastPart_def)
  have s: "47 \<notin> set ?n" "92 \<notin> set ?n" using ch by (auto simp: isSlash_def)
  then have "max (lastIndex 47 ?n) (lastIndex 92 ?n) = - 1" by (simp add: lastIndex_def)
  moreover have "lastIndex 46 ?n = int (length b)" using lastIndex_snoc [OF ne(4)] by (simp add: file_name_def)
  ultimately show "getFileExtension lower ?n = e"
    using ne(2) unfolding getFileExtension_def t l Let_def by (simp add: file_name_def nat_add_distrib)
  show "suffixField (dropDots ?n) = e"
  proof (cases "\<forall>c \<in> set b. c = 46")
    case True
    then have "dropDots ?n = e" using ne(3,4) by (cases e) (auto simp: dropDots_def file_name_def dropWhile_append)
    then show ?thesis using suffixField_self [OF ne(4)] by simp
  next
    case False
    then have "dropDots ?n = dropDots b @ 46 # e" by (auto simp: dropDots_def file_name_def dropWhile_append)
    then show ?thesis using suffixField_dot [OF ne(4)] by simp
  qed
qed

lemma suffixField_js: "suffixField (js s) = js (rev (takeWhile (\<lambda>c. c \<noteq> CHR ''.'') (rev s)))"
proof -
  have "(46 :: nat) = of_char CHR ''.''" by simp
  then have d: "of_char c = (46 :: nat) \<longleftrightarrow> c = CHR ''.''" for c by (simp only: of_char_eq_iff)
  have "takeWhile (\<lambda>c. c \<noteq> (46 :: nat)) (map of_char t) = map of_char (takeWhile (\<lambda>c. c \<noteq> CHR ''.'') t)" for t
    by (simp add: takeWhile_map o_def d)
  then show ?thesis by (simp add: suffixField_def js_def rev_map)
qed

lemma special_suffixes: "\<forall>s \<in> set SPECIAL_TEXT_BASENAMES. suffixField (js s) \<notin> set (map js BINARY_EXTENSIONS)"
proof -
  have "\<forall>s \<in> set SPECIAL_TEXT_BASENAMES. rev (takeWhile (\<lambda>c. c \<noteq> CHR ''.'') (rev s)) \<notin> set BINARY_EXTENSIONS"
    unfolding SPECIAL_TEXT_BASENAMES_def SHELL_TEXT_BASENAMES_def CONFIG_TEXT_BASENAMES_def BINARY_EXTENSIONS_def by simp
  then show ?thesis by (auto simp: suffixField_js js_inj)
qed

text \<open>the extension decides how a file is opened, without conflict. For a plain lower-case name with
  an extension, a binary extension makes it a binary file and never a text file, whatever the
  rest of the name; a text extension makes it a text file; images are previewed as images and
  are binary, and JSON and Markdown previews are text.\<close>

theorem file_kind_by_extension:
  assumes "plain_name b e" and "lowers lower"
  shows "getFileExtension lower (file_name b e) = e
    \<and> (inTable e BINARY_EXTENSIONS \<longrightarrow> getRemoteFileTextKind lower (file_name b e) = BinaryKind)
    \<and> (e \<in> set (TEXT_EXTENSIONS lower) \<longrightarrow> getRemoteFileTextKind lower (file_name b e) = TextKind)
    \<and> (inTable e IMAGE_PREVIEW_EXTENSIONS \<longrightarrow>
         getFilePreviewKind lower (file_name b e) = ImagePreview \<and> getRemoteFileTextKind lower (file_name b e) = BinaryKind)
    \<and> (getFilePreviewKind lower (file_name b e) = JsonPreview \<or> getFilePreviewKind lower (file_name b e) = MarkdownPreview \<longrightarrow>
         getRemoteFileTextKind lower (file_name b e) = TextKind)"
proof -
  let ?n = "file_name b e"
  note p = plain_name_parts [OF assms]
  have e: "e \<noteq> []" "46 \<notin> set e" using assms(1) by (auto simp: plain_name_def)
  have bin: "\<not> isKnownTextFile lower ?n" if b: "inTable e BINARY_EXTENSIONS"
  proof -
    have f: "suffixField ?n = e" using e by (simp add: file_name_def suffixField_dot)
    have "e \<notin> set (TEXT_EXTENSIONS lower)" using tables_disjoint [OF assms(2)] b by (auto simp: inTable_def)
    moreover have "\<not> inTable (dropDots ?n) SPECIAL_TEXT_BASENAMES"
      using special_suffixes p(5) b by (auto simp: inTable_def)
    moreover have "\<not> ends_with ?n (w @ 46 # x)" if "46 \<notin> set x" "\<not> inTable x BINARY_EXTENSIONS" for w x
    proof
      assume "ends_with ?n (w @ 46 # x)"
      then obtain a where "?n = a @ w @ 46 # x" by (metis append_take_drop_id ends_with_def)
      then have "suffixField ?n = x" using suffixField_dot [OF that(1), of "a @ w"] by simp
      with f b that(2) show False by simp
    qed
    from this [of "js ''dockerfile''" "[]"] this [of "js ''conf''" "js ''.nginx''"] this [of "js ''yml''" "js ''docker-compose''"] this [of "js ''yaml''" "js ''docker-compose''"]
    have "\<not> ends_with ?n (js ''.dockerfile'')" "\<not> ends_with ?n (js ''.nginx.conf'')"
      "\<not> ends_with ?n (js ''docker-compose.yml'')" "\<not> ends_with ?n (js ''docker-compose.yaml'')"
      by (simp_all add: js_def inTable_def BINARY_EXTENSIONS_def)
    ultimately show ?thesis unfolding isKnownTextFile_def Let_def p(3,4) by (auto simp: ends_with_def)
  qed
  have tx: "isKnownTextFile lower ?n" if "e \<in> set (TEXT_EXTENSIONS lower)"
    using that e unfolding isKnownTextFile_def Let_def p(3,4) by simp
  have img: "inTable e BINARY_EXTENSIONS" if "inTable e IMAGE_PREVIEW_EXTENSIONS"
    using that by (auto simp: inTable_def IMAGE_PREVIEW_EXTENSIONS_def BINARY_EXTENSIONS_def)
  have docs: "e \<in> set (TEXT_EXTENSIONS lower)" if "inTable e MARKDOWN_PREVIEW_EXTENSIONS \<or> inTable e JSON_PREVIEW_EXTENSIONS"
    using that unfolding text_extensions [OF assms(2)]
    by (auto simp: inTable_def MARKDOWN_PREVIEW_EXTENSIONS_def JSON_PREVIEW_EXTENSIONS_def LANGUAGE_BY_EXTENSION_def)
  have kind: "getFilePreviewKind lower ?n = JsonPreview \<or> getFilePreviewKind lower ?n = MarkdownPreview \<Longrightarrow>
      inTable e MARKDOWN_PREVIEW_EXTENSIONS \<or> inTable e JSON_PREVIEW_EXTENSIONS"
    unfolding getFilePreviewKind_def Let_def p(4) by (auto split: if_splits)
  have bk: "inTable e BINARY_EXTENSIONS \<Longrightarrow> getRemoteFileTextKind lower ?n = BinaryKind"
    using bin e unfolding getRemoteFileTextKind_def isKnownBinaryFile_def Let_def p(4) by simp
  have tk: "e \<in> set (TEXT_EXTENSIONS lower) \<Longrightarrow> getRemoteFileTextKind lower ?n = TextKind"
    using tx unfolding getRemoteFileTextKind_def by simp
  have pv: "inTable e IMAGE_PREVIEW_EXTENSIONS \<Longrightarrow> getFilePreviewKind lower ?n = ImagePreview"
    unfolding getFilePreviewKind_def Let_def p(4) by simp
  show ?thesis using p(4) bk tk pv img docs kind by blast
qed

lemma ascii_lowers: "lowers ascii_lower"
  by (auto simp: lowers_def ascii_lower_def js_def map_idI)

theorem file_kind_by_extension_witness:
  "getRemoteFileTextKind ascii_lower (file_name (js ''makefile'') (js ''zip'')) = BinaryKind
   \<and> getRemoteFileTextKind ascii_lower (file_name (js ''a'') (js ''json'')) = TextKind"
proof -
  have "plain_name (js ''makefile'') (js ''zip'')" "plain_name (js ''a'') (js ''json'')"
    by (simp_all add: plain_name_def js_def isSlash_def isSpace_def)
  moreover have "inTable (js ''zip'') BINARY_EXTENSIONS" by (simp add: inTable_def BINARY_EXTENSIONS_def)
  moreover have "js ''json'' \<in> set (TEXT_EXTENSIONS ascii_lower)"
    unfolding text_extensions [OF ascii_lowers] by (simp add: LANGUAGE_BY_EXTENSION_def)
  ultimately show ?thesis
    using file_kind_by_extension [OF _ ascii_lowers] by blast
qed

text \<open>The language of a file whose extension names a property of every object is not a
  string.\<close>

theorem language_of_inherited_name:
  "languageFromFilename ascii_lower (js ''a.constructor'') = InheritedProperty ''constructor''
   \<and> languageFromFilename ascii_lower (js ''a.unknown'') = Language ''plaintext''"
proof -
  have n: "plain_name (js ''a'') (js ''constructor'')" "plain_name (js ''a'') (js ''unknown'')"
    by (simp_all add: plain_name_def js_def isSlash_def isSpace_def)
  have f: "js ''a.constructor'' = file_name (js ''a'') (js ''constructor'')" "js ''a.unknown'' = file_name (js ''a'') (js ''unknown'')"
    by (simp_all add: file_name_def js_def)
  have bn: "getNormalizedBaseName ascii_lower (js ''a.constructor'') = js ''a.constructor''"
    "getNormalizedBaseName ascii_lower (js ''a.unknown'') = js ''a.unknown''"
    "getFileExtension ascii_lower (js ''a.constructor'') = js ''constructor''" "getFileExtension ascii_lower (js ''a.unknown'') = js ''unknown''"
    unfolding f using plain_name_parts(3,4) [OF n(1) ascii_lowers] plain_name_parts(3,4) [OF n(2) ascii_lowers] by auto
  have d: "dropDots (js ''a.constructor'') = js ''a.constructor''" "dropDots (js ''a.unknown'') = js ''a.unknown''"
    by (simp_all add: dropDots_def js_def)
  have special: "\<not> inTable (js n) xs" if "n = ''a.constructor'' \<or> n = ''a.unknown''" "xs = SHELL_TEXT_BASENAMES \<or> xs = CONFIG_TEXT_BASENAMES" for n xs
    using that by (auto simp: inTable_def js_inj SHELL_TEXT_BASENAMES_def CONFIG_TEXT_BASENAMES_def)
  have ends: "\<not> ends_with (js n) (js ''.dockerfile'')" "\<not> ends_with (js n) (js ''.nginx.conf'')"
    if "n = ''a.constructor'' \<or> n = ''a.unknown''" for n
    using that by (auto simp: ends_with_def js_def)
  have l: "lookupLanguage (js ''constructor'') = Some (InheritedProperty ''constructor'')" "lookupLanguage (js ''unknown'') = None"
    by (simp_all add: lookupLanguage_def LANGUAGE_BY_EXTENSION_def OBJECT_PROPERTIES_def js_inj)
  show ?thesis
    unfolding languageFromFilename_def Let_def bn d by (simp add: l special ends js_inj)
qed

end
