(* ===== verification/Forest.thy ===== *)
theory Forest
  imports Prelude "HOL-Library.Sublist"
begin

text \<open>
  Walks over parent pointers and child lists, as the libraries for asset groups and for
  categories of quick commands do them. Both keep a \<open>Map\<close> from ids to records with an optional
  parent id that may be missing, unknown or part of a cycle; the empty id is falsy.

  \<^item> \<open>walk\<close>: the loop that follows parents with a set of ids seen. It returns the ids visited
    and whether it ended by meeting one of them again.
  \<^item> \<open>bfs\<close>: the loop that collects descendants from a queue.
  \<^item> \<open>usable_forest\<close>: parent pointers without cycles, and what holds of the trees built from
    them.
\<close>

section \<open>Walking up\<close>

type_synonym 'k parents = "('k list \<times> 'k list option) list"

function walk :: "'k parents \<Rightarrow> 'k list option \<Rightarrow> 'k list list \<Rightarrow> 'k list list \<times> bool" where
  "walk up cur seen =
     (case cur of None \<Rightarrow> ([], False)
      | Some k \<Rightarrow>
          if k = [] then ([], False)
          else if k \<in> set seen then ([], True)
          else (case map_of up k of None \<Rightarrow> ([], False)
                | Some p \<Rightarrow> (case walk up p (k # seen) of (ks, cyclic) \<Rightarrow> (k # ks, cyclic))))"
  by pat_completeness auto
termination
proof (relation "measure (\<lambda>(up, cur, seen). card (fst ` set up - set seen))", goal_cases)
  case (2 up cur seen k p)
  then have "k \<in> fst ` set up - set seen" by (force dest: map_of_SomeD)
  then have "fst ` set up - set (k # seen) \<subset> fst ` set up - set seen" by auto
  then show ?case by (simp add: psubset_card_mono)
qed simp

declare walk.simps [simp del]

lemma walk_None [simp]: "walk up None seen = ([], False)"
  by (subst walk.simps) simp

lemma walk_Some:
  "walk up (Some k) seen =
     (if k = [] then ([], False) else if k \<in> set seen then ([], True)
      else (case map_of up k of None \<Rightarrow> ([], False)
            | Some p \<Rightarrow> (k # fst (walk up p (k # seen)), snd (walk up p (k # seen)))))"
  by (subst walk.simps) (simp split: option.split prod.split)

text \<open>The visited ids are distinct known ids not seen before, each followed by its parent.\<close>

lemma walk_visited:
  "distinct (fst (walk up cur seen)) \<and> set (fst (walk up cur seen)) \<subseteq> fst ` set up - set seen - {[]}"
proof (induction up cur seen rule: walk.induct)
  case (1 up cur seen)
  show ?case
  proof (cases "\<exists>k p. cur = Some k \<and> k \<noteq> [] \<and> k \<notin> set seen \<and> map_of up k = Some p")
    case True
    then obtain k p where k: "cur = Some k" "k \<noteq> []" "k \<notin> set seen" "map_of up k = Some p" by blast
    then have "k \<in> fst ` set up" by (force dest: map_of_SomeD)
    with k 1 [OF k] show ?thesis by (auto simp: walk_Some)
  next
    case False
    then show ?thesis by (cases cur) (auto simp: walk_Some split: option.split)
  qed
qed

lemma walk_length: "length (fst (walk up cur seen)) \<le> length up"
proof -
  have "length (fst (walk up cur seen)) = card (set (fst (walk up cur seen)))"
    using walk_visited [of up cur seen] distinct_card by fastforce
  also have "\<dots> \<le> card (fst ` set up)" using walk_visited [of up cur seen] by (intro card_mono) auto
  also have "\<dots> \<le> length up" by (metis card_length length_map list.set_map)
  finally show ?thesis .
qed

text \<open>A walk that ends without meeting a cycle does not depend on the ids seen.\<close>

lemma walk_acyclic:
  "\<not> snd (walk up cur seen) \<Longrightarrow> set seen' \<subseteq> set seen \<Longrightarrow> walk up cur seen' = walk up cur seen"
proof (induction up cur seen arbitrary: seen' rule: walk.induct)
  case (1 up cur seen)
  show ?case
  proof (cases "\<exists>k p. cur = Some k \<and> k \<noteq> [] \<and> k \<notin> set seen \<and> map_of up k = Some p")
    case True
    then obtain k p where k: "cur = Some k" "k \<noteq> []" "k \<notin> set seen" "map_of up k = Some p" by blast
    have "walk up p (k # seen') = walk up p (k # seen)"
      using 1(1) [OF k, of "k # seen'"] 1(2,3) k by (auto simp: walk_Some)
    with k 1(3) show ?thesis by (auto simp: walk_Some)
  next
    case False
    with 1(2,3) show ?thesis by (cases cur) (auto simp: walk_Some split: option.split if_splits)
  qed
qed

section \<open>Walking down\<close>

text \<open>A \<open>Map\<close> from an id to the list of its children, and appending to one of its lists.\<close>

definition children :: "('k \<times> 'k list) list \<Rightarrow> 'k \<Rightarrow> 'k list" where
  "children m p = (case map_of m p of None \<Rightarrow> [] | Some cs \<Rightarrow> cs)"

definition pushChild :: "'k \<Rightarrow> 'k \<Rightarrow> ('k \<times> 'k list) list \<Rightarrow> ('k \<times> 'k list) list" where
  "pushChild p c m = AList.update p (children m p @ [c]) m"

function bfs :: "('k list \<times> 'k list list) list \<Rightarrow> 'k list list \<Rightarrow> 'k list list \<Rightarrow> 'k list list" where
  "bfs m [] found = found"
| "bfs m (k # queue) found =
     (if k = [] \<or> k \<in> set found then bfs m queue found else bfs m (queue @ children m k) (found @ [k]))"
  by pat_completeness auto
termination
proof (relation "measures [\<lambda>(m, q, r). card (fst ` set m - set r), \<lambda>(m, q, r). length q]", goal_cases)
  case (3 m k queue found)
  show ?case
  proof (cases "k \<in> fst ` set m")
    case True
    with 3 have "fst ` set m - set (found @ [k]) \<subset> fst ` set m - set found" by auto
    then show ?thesis by (simp add: psubset_card_mono)
  next
    case False
    then have "map_of m k = None" by (simp add: map_of_eq_None_iff)
    then have "children m k = []" by (simp add: children_def)
    moreover have "fst ` set m - set (found @ [k]) = fst ` set m - set found" using False by auto
    ultimately show ?thesis by simp
  qed
qed simp_all

lemma children_push: "children (pushChild p c m) q = (if q = p then children m p @ [c] else children m q)"
  by (simp add: children_def pushChild_def update_conv')

lemma children_fold:
  "children (foldl (\<lambda>m x. case f x of None \<Rightarrow> m | Some p \<Rightarrow> pushChild p (g x) m) m xs) q
   = children m q @ map g (filter (\<lambda>x. f x = Some q) xs)"
  by (induction xs arbitrary: m) (auto simp: children_push split: option.splits)

text \<open>The result is what can be reached from the queue.\<close>

lemma bfs_sound:
  assumes "\<forall>x \<in> set queue \<union> set found. P x" and "\<And>x y. P x \<Longrightarrow> y \<in> set (children m x) \<Longrightarrow> P y"
  shows "\<forall>x \<in> set (bfs m queue found). P x"
  using assms
proof (induction m queue found rule: bfs.induct)
  case (2 m k queue found)
  show ?case
  proof (cases "k = [] \<or> k \<in> set found")
    case True
    with 2 show ?thesis by simp
  next
    case False
    have "\<forall>x \<in> set (queue @ children m k) \<union> set (found @ [k]). P x" using 2(3,4) by auto
    with False 2(2) [OF False _ 2(4)] show ?thesis by simp
  qed
qed simp

lemma bfs_found: "set found \<subseteq> set (bfs m queue found)"
  by (induction m queue found rule: bfs.induct) auto

lemma bfs_closed:
  assumes "\<forall>x \<in> set found. \<forall>y \<in> set (children m x). y \<noteq> [] \<longrightarrow> y \<in> set found \<union> set queue"
  shows "(\<forall>x \<in> set (bfs m queue found). \<forall>y \<in> set (children m x). y \<noteq> [] \<longrightarrow> y \<in> set (bfs m queue found))
    \<and> (\<forall>x \<in> set queue. x \<noteq> [] \<longrightarrow> x \<in> set (bfs m queue found))"
  using assms
proof (induction m queue found rule: bfs.induct)
  case (2 m k queue found)
  show ?case
  proof (cases "k = [] \<or> k \<in> set found")
    case True
    with 2(1) 2(3) bfs_found [of found m queue] show ?thesis by auto
  next
    case False
    have "\<forall>x \<in> set (found @ [k]). \<forall>y \<in> set (children m x). y \<noteq> [] \<longrightarrow> y \<in> set (found @ [k]) \<union> set (queue @ children m k)"
      using 2(3) by auto
    from 2(2) [OF False this] False bfs_found [of "found @ [k]" m "queue @ children m k"] show ?thesis by auto
  qed
qed auto

lemma bfs_distinct: "distinct found \<Longrightarrow> distinct (bfs m queue found)"
  by (induction m queue found rule: bfs.induct) auto

definition child_step :: "('k list \<times> 'k list list) list \<Rightarrow> 'k list \<Rightarrow> 'k list \<Rightarrow> bool" where
  "child_step m x y \<longleftrightarrow> y \<in> set (children m x)"

lemma bfs_reaches:
  assumes "\<forall>x. [] \<notin> set (children m x)" "k \<noteq> []"
  shows "set (bfs m [k] []) = {x. (child_step m)\<^sup>*\<^sup>* k x}"
proof
  show "set (bfs m [k] []) \<subseteq> {x. (child_step m)\<^sup>*\<^sup>* k x}"
  proof -
    have "(child_step m)\<^sup>*\<^sup>* k y" if "(child_step m)\<^sup>*\<^sup>* k x" "y \<in> set (children m x)" for x y
      using that by (meson child_step_def rtranclp.rtrancl_into_rtrancl)
    from bfs_sound [of "[k]" "[]" "(child_step m)\<^sup>*\<^sup>* k" m, OF _ this] show ?thesis by auto
  qed
  have c: "(\<forall>x \<in> set (bfs m [k] []). \<forall>y \<in> set (children m x). y \<noteq> [] \<longrightarrow> y \<in> set (bfs m [k] []))"
    "k \<in> set (bfs m [k] [])" using bfs_closed [of "[]" m "[k]"] assms(2) by auto
  show "{x. (child_step m)\<^sup>*\<^sup>* k x} \<subseteq> set (bfs m [k] [])"
  proof
    fix x assume "x \<in> {x. (child_step m)\<^sup>*\<^sup>* k x}"
    then have "(child_step m)\<^sup>*\<^sup>* k x" by simp
    then show "x \<in> set (bfs m [k] [])"
    proof (induction rule: rtranclp_induct)
      case (step y z)
      then have z: "z \<in> set (children m y)" by (simp add: child_step_def)
      then have "z \<noteq> []" using assms(1) by metis
      with z step.IH c(1) show ?case by blast
    qed (rule c(2))
  qed
qed

section \<open>Trees from parent pointers\<close>

datatype 'a tree_of = TreeOf 'a "'a tree_of list"

text \<open>The tree below \<open>x\<close> down to \<open>n\<close> levels, and its nodes in preorder.\<close>

fun grow :: "nat \<Rightarrow> ('a \<Rightarrow> 'a list) \<Rightarrow> 'a \<Rightarrow> 'a tree_of" where
  "grow 0 below x = TreeOf x []"
| "grow (Suc n) below x = TreeOf x (map (grow n below) (below x))"

primrec flat :: "'a tree_of \<Rightarrow> 'a list" where
  "flat (TreeOf x ts) = x # concat (map flat ts)"

primrec anc :: "('a \<Rightarrow> 'a option) \<Rightarrow> nat \<Rightarrow> 'a \<Rightarrow> 'a option" where
  "anc parent 0 y = Some y"
| "anc parent (Suc k) y = Option.bind (anc parent k y) parent"

lemma anc_add: "anc parent (i + j) y = Option.bind (anc parent i y) (anc parent j)"
proof (induction j)
  case (Suc j)
  then show ?case by (cases "anc parent i y") auto
qed simp

lemma anc_Suc: "anc parent (Suc k) y = Option.bind (parent y) (anc parent k)"
  using anc_add [of parent 1 k y] by simp

lemma distinct_concat_map:
  "distinct cs \<Longrightarrow> (\<And>c. c \<in> set cs \<Longrightarrow> distinct (F c)) \<Longrightarrow>
   (\<And>c d. c \<in> set cs \<Longrightarrow> d \<in> set cs \<Longrightarrow> c \<noteq> d \<Longrightarrow> set (F c) \<inter> set (F d) = {}) \<Longrightarrow> distinct (concat (map F cs))"
proof (induction cs)
  case (Cons c cs)
  have "set (F c) \<inter> set (concat (map F cs)) = {}" using Cons.prems(1,3) by fastforce
  with Cons show ?case by auto
qed simp

text \<open>Parent pointers without cycles: there is a rank that parents lower.\<close>

locale usable_forest =
  fixes parent :: "'a \<Rightarrow> 'a option" and ids :: "'a list" and rank :: "'a \<Rightarrow> nat"
  assumes distinct_ids: "distinct ids"
    and parent_in: "x \<in> set ids \<Longrightarrow> parent x = Some p \<Longrightarrow> p \<in> set ids"
    and parent_rank: "x \<in> set ids \<Longrightarrow> parent x = Some p \<Longrightarrow> rank p < rank x"
begin

lemma anc_in: "y \<in> set ids \<Longrightarrow> anc parent k y = Some x \<Longrightarrow> x \<in> set ids \<and> rank x + k \<le> rank y"
proof (induction k arbitrary: x)
  case (Suc k)
  then obtain z where z: "anc parent k y = Some z" "parent z = Some x" by (auto simp: bind_eq_Some_conv)
  with Suc show ?case using parent_in [of z x] parent_rank [of z x] by fastforce
qed simp

lemma has_root: "y \<in> set ids \<Longrightarrow> \<exists>k r. k \<le> rank y \<and> anc parent k y = Some r \<and> parent r = None"
proof (induction "rank y" arbitrary: y rule: less_induct)
  case less
  show ?case
  proof (cases "parent y")
    case None
    then show ?thesis by (intro exI [of _ 0] exI [of _ y]) simp
  next
    case (Some p)
    with less parent_in [of y p] parent_rank [of y p] obtain k r where "k \<le> rank p" "anc parent k p = Some r" "parent r = None"
      by blast
    with Some parent_rank [OF less.prems Some] show ?thesis
      by (intro exI [of _ "Suc k"] exI [of _ r]) (simp add: anc_Suc del: anc.simps)
  qed
qed

text \<open>One of two ancestors of the same node is an ancestor of the other.\<close>

lemma anc_linear:
  assumes "anc parent i y = Some a" "anc parent j y = Some b" "i < j"
  shows "\<exists>p. parent a = Some p \<and> anc parent (j - i - 1) p = Some b"
proof -
  have "anc parent (i + Suc (j - i - 1)) y = Some b" using assms by simp
  then have "anc parent (Suc (j - i - 1)) a = Some b" unfolding anc_add using assms(1) by simp
  then show ?thesis unfolding anc_Suc by (auto simp: bind_eq_Some_conv)
qed

lemma siblings_disjoint:
  assumes y: "y \<in> set ids" "anc parent i y = Some a" "anc parent j y = Some b"
    and same: "parent a = parent b" and ne: "a \<noteq> b"
  shows False
proof -
  have no: "\<not> k < l" if k: "anc parent k y = Some c" and l: "anc parent l y = Some d" and cd: "parent c = parent d" for k l c d
  proof
    assume "k < l"
    from anc_linear [OF k l this] obtain p where p: "parent c = Some p" "anc parent (l - k - 1) p = Some d" by blast
    have c: "c \<in> set ids" using anc_in [OF y(1) k] by simp
    have "rank d \<le> rank p" using anc_in [OF parent_in [OF c p(1)] p(2)] by simp
    moreover have "rank p < rank d" using anc_in [OF y(1) l] parent_rank [of d p] p(1) cd by simp
    ultimately show False by simp
  qed
  have "i = j" using no [OF y(2,3) same] no [OF y(3,2) same [symmetric]] by simp
  with y ne show False by simp
qed

lemma grow_set:
  "x \<in> set ids \<Longrightarrow> set (flat (grow n (\<lambda>x. filter (\<lambda>y. parent y = Some x) ids) x)) = {y \<in> set ids. \<exists>k \<le> n. anc parent k y = Some x}"
proof (induction n arbitrary: x)
  case (Suc n)
  let ?ch = "\<lambda>x. filter (\<lambda>y. parent y = Some x) ids"
  have IH: "set (flat (grow n ?ch c)) = {y \<in> set ids. \<exists>k \<le> n. anc parent k y = Some c}" if "c \<in> set (?ch x)" for c
    using that Suc.IH by simp
  have "set (flat (grow (Suc n) ?ch x)) = insert x (\<Union>c \<in> set (?ch x). {y \<in> set ids. \<exists>k \<le> n. anc parent k y = Some c})"
    using IH by auto
  also have "\<dots> = {y \<in> set ids. \<exists>k \<le> Suc n. anc parent k y = Some x}"
  proof (intro set_eqI iffI)
    fix y assume "y \<in> insert x (\<Union>c \<in> set (?ch x). {y \<in> set ids. \<exists>k \<le> n. anc parent k y = Some c})"
    then consider "y = x" | c k where "c \<in> set (?ch x)" "y \<in> set ids" "k \<le> n" "anc parent k y = Some c" by auto
    then show "y \<in> {y \<in> set ids. \<exists>k \<le> Suc n. anc parent k y = Some x}"
    proof cases
      case 1
      with Suc.prems show ?thesis by (auto intro: exI [of _ 0])
    next
      case 2
      then show ?thesis by (auto intro!: exI [of _ "Suc k"])
    qed
  next
    fix y assume "y \<in> {y \<in> set ids. \<exists>k \<le> Suc n. anc parent k y = Some x}"
    then obtain k where y: "y \<in> set ids" "k \<le> Suc n" "anc parent k y = Some x" by blast
    show "y \<in> insert x (\<Union>c \<in> set (?ch x). {y \<in> set ids. \<exists>k \<le> n. anc parent k y = Some c})"
    proof (cases k)
      case (Suc l)
      with y obtain c where "anc parent l y = Some c" "parent c = Some x" by (auto simp: bind_eq_Some_conv)
      with y Suc anc_in [OF y(1)] show ?thesis by auto
    qed (use y in simp)
  qed
  finally show ?case .
qed auto

lemma grow_distinct: "x \<in> set ids \<Longrightarrow> distinct (flat (grow n (\<lambda>x. filter (\<lambda>y. parent y = Some x) ids) x))"
proof (induction n arbitrary: x)
  case (Suc n)
  let ?ch = "\<lambda>x. filter (\<lambda>y. parent y = Some x) ids"
  let ?F = "\<lambda>c. flat (grow n ?ch c)"
  have mem: "y \<in> set ids \<and> (\<exists>k. anc parent k y = Some c)" if "c \<in> set (?ch x)" "y \<in> set (?F c)" for c y
    using that grow_set [of c n] by auto
  have root: "x \<notin> set (?F c)" if c: "c \<in> set (?ch x)" for c
  proof
    assume "x \<in> set (?F c)"
    with mem [OF c] obtain k where "anc parent k x = Some c" by blast
    then have "rank c \<le> rank x" using anc_in [OF Suc.prems] by fastforce
    with c parent_rank [of c x] show False by simp
  qed
  have disj: "set (?F c) \<inter> set (?F d) = {}" if c: "c \<in> set (?ch x)" and d: "d \<in> set (?ch x)" and cd: "c \<noteq> d" for c d
  proof (rule ccontr)
    assume "set (?F c) \<inter> set (?F d) \<noteq> {}"
    then obtain y where y: "y \<in> set (?F c)" "y \<in> set (?F d)" by blast
    obtain i j where "anc parent i y = Some c" "anc parent j y = Some d" using mem [OF c y(1)] mem [OF d y(2)] by blast
    moreover have "parent c = parent d" using c d by simp
    ultimately show False using siblings_disjoint mem [OF c y(1)] cd by blast
  qed
  have "distinct (concat (map ?F (?ch x)))"
    using distinct_ids Suc.IH disj by (intro distinct_concat_map) auto
  with root show ?case by (auto simp: o_def)
qed simp

end

text \<open>The forest over the ids without a parent holds every id exactly once, when it is grown deep
  enough.\<close>

context usable_forest begin

lemma forest_once:
  assumes "\<forall>y \<in> set ids. rank y \<le> n"
  shows "distinct (concat (map (\<lambda>r. flat (grow n (\<lambda>x. filter (\<lambda>y. parent y = Some x) ids) r)) (filter (\<lambda>y. parent y = None) ids)))
    \<and> set (concat (map (\<lambda>r. flat (grow n (\<lambda>x. filter (\<lambda>y. parent y = Some x) ids) r)) (filter (\<lambda>y. parent y = None) ids))) = set ids"
proof
  let ?F = "\<lambda>r. flat (grow n (\<lambda>x. filter (\<lambda>y. parent y = Some x) ids) r)"
  let ?roots = "filter (\<lambda>y. parent y = None) ids"
  have F: "set (?F r) = {y \<in> set ids. \<exists>k \<le> n. anc parent k y = Some r}" if "r \<in> set ?roots" for r
    using that grow_set by simp
  have "set (?F r) \<inter> set (?F s) = {}" if r: "r \<in> set ?roots" and s: "s \<in> set ?roots" and rs: "r \<noteq> s" for r s
  proof (rule ccontr)
    assume "set (?F r) \<inter> set (?F s) \<noteq> {}"
    then obtain y i j where "y \<in> set ids" "anc parent i y = Some r" "anc parent j y = Some s"
      unfolding F [OF r] F [OF s] by blast
    moreover have "parent r = parent s" using r s by simp
    ultimately show False using siblings_disjoint rs by blast
  qed
  then show "distinct (concat (map ?F ?roots))"
    using distinct_ids grow_distinct by (intro distinct_concat_map) auto
  show "set (concat (map ?F ?roots)) = set ids"
  proof (intro set_eqI iffI)
    fix y assume "y \<in> set (concat (map ?F ?roots))"
    then obtain r where "r \<in> set ?roots" "y \<in> set (?F r)" by auto
    with F show "y \<in> set ids" by blast
  next
    fix y assume y: "y \<in> set ids"
    then obtain k r where r: "k \<le> rank y" "anc parent k y = Some r" "parent r = None" using has_root by blast
    then have "r \<in> set ?roots" using anc_in [OF y] by simp
    moreover have "k \<le> n" using r(1) y assms by fastforce
    ultimately have "y \<in> set (?F r)" using F y r(2) by blast
    with \<open>r \<in> set ?roots\<close> show "y \<in> set (concat (map ?F ?roots))" by auto
  qed
qed

end

text \<open>Every node of the grown tree has all its children, when it is grown deep enough.\<close>

primrec tree_root :: "'a tree_of \<Rightarrow> 'a" where
  "tree_root (TreeOf x ts) = x"

primrec linked_tree :: "('a \<Rightarrow> 'a list) \<Rightarrow> 'a tree_of \<Rightarrow> bool" where
  "linked_tree below (TreeOf x ts) \<longleftrightarrow> map tree_root ts = below x \<and> list_all (linked_tree below) ts"

lemma tree_root_grow [simp]: "tree_root (grow n below x) = x"
  by (cases n) simp_all

context usable_forest begin

lemma grow_linked:
  "x \<in> set ids \<Longrightarrow> \<forall>y \<in> set ids. rank y < n + rank x \<Longrightarrow>
   linked_tree (\<lambda>x. filter (\<lambda>y. parent y = Some x) ids) (grow n (\<lambda>x. filter (\<lambda>y. parent y = Some x) ids) x)"
proof (induction n arbitrary: x)
  case (Suc n)
  have "linked_tree (\<lambda>x. filter (\<lambda>y. parent y = Some x) ids) (grow n (\<lambda>x. filter (\<lambda>y. parent y = Some x) ids) c)"
    if c: "c \<in> set ids" "parent c = Some x" for c
  proof (rule Suc.IH [OF c(1)], intro ballI)
    fix y assume "y \<in> set ids"
    with Suc.prems(2) parent_rank [OF c] show "rank y < n + rank c" by fastforce
  qed
  then show ?case by (auto simp: o_def list_all_iff)
qed auto

end

lemma alist_update_new: "k \<notin> fst ` set m \<Longrightarrow> AList.update k v m = m @ [(k, v)]"
  by (induction m) auto

section \<open>Walks that end\<close>

text \<open>Following the parents from here ends: at no parent, the empty id or an unknown id.\<close>

inductive ends :: "'k parents \<Rightarrow> 'k list option \<Rightarrow> bool" for up where
  stop: "ends up cur" if "cur = None \<or> cur = Some [] \<or> map_of up (the cur) = None"
| parent: "ends up (Some k)" if "k \<noteq> []" "map_of up k = Some p" "ends up p"

inductive_simps ends_None [simp]: "ends up None"
inductive_simps ends_Some: "ends up (Some k)"

text \<open>Ids outside a walk that ends can be added to those seen.\<close>

lemma walk_more_seen:
  "\<not> snd (walk up cur seen) \<Longrightarrow> set seen' \<subseteq> set seen \<union> E \<Longrightarrow> E \<inter> set (fst (walk up cur seen)) = {} \<Longrightarrow>
   \<forall>e \<in> E. map_of up e \<noteq> None \<Longrightarrow> walk up cur seen' = walk up cur seen"
proof (induction up cur seen arbitrary: seen' rule: walk.induct)
  case (1 up cur seen)
  show ?case
  proof (cases "\<exists>k p. cur = Some k \<and> k \<noteq> [] \<and> k \<notin> set seen \<and> map_of up k = Some p")
    case True
    then obtain k p where k: "cur = Some k" "k \<noteq> []" "k \<notin> set seen" "map_of up k = Some p" by blast
    have "walk up p (k # seen') = walk up p (k # seen)"
      using 1(1) [OF k, of "k # seen'"] 1(2-5) k by (auto simp: walk_Some)
    moreover have "k \<notin> set seen'" using 1(3,4) k by (auto simp: walk_Some)
    ultimately show ?thesis using k by (simp add: walk_Some)
  next
    case False
    have "a \<notin> set seen'" if "cur = Some a" "map_of up a = None" "a \<notin> set seen" for a
      using 1(3,5) that by fastforce
    with False 1(2-4) show ?thesis by (cases cur) (auto simp: walk_Some subset_iff split: option.split if_splits)
  qed
qed

text \<open>From every id of a walk that ends, the walk ends after at most as many steps.\<close>

lemma walk_member:
  "\<not> snd (walk up cur seen) \<Longrightarrow> k \<in> set (fst (walk up cur seen)) \<Longrightarrow>
   \<not> snd (walk up (Some k) []) \<and> length (fst (walk up (Some k) [])) \<le> length (fst (walk up cur seen))"
proof (induction up cur seen rule: walk.induct)
  case (1 up cur seen)
  then obtain j p where j: "cur = Some j" "j \<noteq> []" "j \<notin> set seen" "map_of up j = Some p"
    by (cases cur) (auto simp: walk_Some split: option.splits if_splits)
  show ?case
  proof (cases "k = j")
    case True
    with j 1(2) walk_acyclic [OF 1(2), of "[]"] show ?thesis by simp
  next
    case False
    with j 1 show ?thesis by (fastforce simp: walk_Some)
  qed
qed

lemma walk_parent_ends:
  assumes "\<not> snd (walk up p [])" "map_of up k = Some p" "k \<noteq> []"
  shows "walk up p [k] = walk up p []" "\<not> snd (walk up (Some k) [])" "fst (walk up (Some k) []) = k # fst (walk up p [])"
proof -
  have "k \<notin> set (fst (walk up p []))"
  proof
    assume k: "k \<in> set (fst (walk up p []))"
    have m: "\<not> snd (walk up (Some k) [])" "length (fst (walk up (Some k) [])) \<le> length (fst (walk up p []))"
      using walk_member [OF assms(1) k] by simp_all
    then have "\<not> snd (walk up p [k])" using assms(2,3) by (simp add: walk_Some)
    from walk_acyclic [OF this, of "[]"] m assms(2,3) show False by (simp add: walk_Some)
  qed
  then show e: "walk up p [k] = walk up p []"
    using assms by (intro walk_more_seen [of _ _ _ _ "{k}"]) auto
  show "\<not> snd (walk up (Some k) [])" "fst (walk up (Some k) []) = k # fst (walk up p [])"
    using assms by (simp_all add: walk_Some e)
qed

lemma walk_ends: "\<not> snd (walk up cur []) \<longleftrightarrow> ends up cur"
proof
  have "\<not> snd (walk up cur seen) \<Longrightarrow> ends up cur" for seen
  proof (induction up cur seen rule: walk.induct)
    case (1 up cur seen)
    show ?case
    proof (cases "\<exists>k p. cur = Some k \<and> k \<noteq> [] \<and> k \<notin> set seen \<and> map_of up k = Some p")
      case True
      then obtain k p where k: "cur = Some k" "k \<noteq> []" "k \<notin> set seen" "map_of up k = Some p" by blast
      with 1 show ?thesis by (auto simp: walk_Some intro: ends.parent)
    next
      case False
      with 1(2) show ?thesis by (cases cur) (auto simp: walk_Some intro: ends.stop split: option.splits if_splits)
    qed
  qed
  then show "\<not> snd (walk up cur []) \<Longrightarrow> ends up cur" .
  show "ends up cur \<Longrightarrow> \<not> snd (walk up cur [])"
  proof (induction rule: ends.induct)
    case (stop cur)
    then show ?case by (cases cur) (auto simp: walk_Some)
  next
    case (parent k p)
    then show ?case by (intro walk_parent_ends)
  qed
qed

text \<open>The walk visits exactly the known ids above.\<close>

definition above_step :: "'k parents \<Rightarrow> 'k list \<Rightarrow> 'k list \<Rightarrow> bool" where
  "above_step up x y \<longleftrightarrow> map_of up x = Some (Some y) \<and> y \<noteq> [] \<and> map_of up y \<noteq> None"

lemma walk_above:
  assumes k: "k \<noteq> []" "map_of up k \<noteq> None"
  shows "set (fst (walk up (Some k) [])) = {x. (above_step up)\<^sup>*\<^sup>* k x}"
proof -
  have sound: "(\<forall>c. cur = Some c \<longrightarrow> c \<noteq> [] \<longrightarrow> map_of up c \<noteq> None \<longrightarrow> (above_step up)\<^sup>*\<^sup>* k c) \<Longrightarrow>
      \<forall>x \<in> set (fst (walk up cur seen)). (above_step up)\<^sup>*\<^sup>* k x" for cur seen
  proof (induction up cur seen rule: walk.induct)
    case (1 up cur seen)
    show ?case
    proof (cases "\<exists>k p. cur = Some k \<and> k \<noteq> [] \<and> k \<notin> set seen \<and> map_of up k = Some p")
      case True
      then obtain j p where j: "cur = Some j" "j \<noteq> []" "j \<notin> set seen" "map_of up j = Some p" by blast
      have kj: "(above_step up)\<^sup>*\<^sup>* k j" using 1(2) j by simp
      have "(above_step up)\<^sup>*\<^sup>* k c" if c: "p = Some c" "c \<noteq> []" "map_of up c \<noteq> None" for c
      proof (rule rtranclp.rtrancl_into_rtrancl [OF kj])
        show "above_step up j c" using c j by (simp add: above_step_def)
      qed
      with kj show ?thesis using 1(1) [OF j] j by (auto simp: walk_Some)
    next
      case False
      then show ?thesis by (cases cur) (auto simp: walk_Some split: option.split)
    qed
  qed
  have closed: "\<forall>x \<in> set (fst (walk up cur seen)). \<forall>y. above_step up x y \<longrightarrow> y \<in> set seen \<union> set (fst (walk up cur seen))" for cur seen
  proof (induction up cur seen rule: walk.induct)
    case (1 up cur seen)
    show ?case
    proof (cases "\<exists>k p. cur = Some k \<and> k \<noteq> [] \<and> k \<notin> set seen \<and> map_of up k = Some p")
      case True
      then obtain j p where j: "cur = Some j" "j \<noteq> []" "j \<notin> set seen" "map_of up j = Some p" by blast
      have "y \<in> set seen \<union> set (fst (walk up cur seen))" if "above_step up j y" for y
        using that j by (cases "y = j \<or> y \<in> set seen") (auto simp: above_step_def walk_Some)
      with 1(1) [OF j] j show ?thesis by (auto simp: walk_Some)
    next
      case False
      then show ?thesis by (cases cur) (auto simp: walk_Some split: option.split)
    qed
  qed
  show ?thesis
  proof (intro set_eqI iffI)
    fix x assume "x \<in> {x. (above_step up)\<^sup>*\<^sup>* k x}"
    then have "(above_step up)\<^sup>*\<^sup>* k x" by simp
    then show "x \<in> set (fst (walk up (Some k) []))"
    proof (induction rule: rtranclp_induct)
      case base
      with k show ?case by (auto simp: walk_Some)
    next
      case (step y z)
      with closed [of "Some k" "[]"] show ?case by auto
    qed
  qed (use sound [of "Some k" "[]"] in auto)
qed

end
