(* ===== verification/Quick_Commands.thy ===== *)
theory Quick_Commands
  imports Forest Terminal_Command
begin

text \<open>
  Categories of quick commands (\<open>lib/quickCommandCategories.ts\<close>): the normalized list, the tree
  with its counts, descendants, ancestors and paths, deletion, and moving among siblings and to
  a target.

  Parent ids may be missing, unknown, or form cycles; \<open>getUsableParentId\<close> ignores such parents.
  A \<open>Map\<close> is an association list in insertion order. The nodes of the tree, which the code links
  by pushing child nodes, are read off the child lists to a depth of the number of categories.
  \<open>localeCompare\<close> and \<open>toLowerCase\<close> are parameters.
\<close>

section \<open>Categories\<close>

record qc_category =
  qc_id :: js_text
  qc_name :: js_text
  qc_parent_id :: "js_text option"
  qc_sort_order :: "int option"

record quick_command =
  cm_id :: js_text
  cm_category_id :: "js_text option"

definition normalizeParentId :: "js_text option \<Rightarrow> js_text option" where
  "normalizeParentId v = (case v of None \<Rightarrow> None | Some t \<Rightarrow> if trim t = [] then None else Some (trim t))"

type_synonym category_map = "(js_text \<times> qc_category) list"

text \<open>\<open>new Map(categories.map((category) => [category.id, category]))\<close>.\<close>

definition categoryById :: "qc_category list \<Rightarrow> category_map" where
  "categoryById cats = foldl (\<lambda>m c. AList.update (qc_id c) c m) [] cats"

definition parentsOf :: "category_map \<Rightarrow> nat parents" where
  "parentsOf byId = map (\<lambda>(k, c). (k, qc_parent_id c)) byId"

definition order_value :: "qc_category \<Rightarrow> int" where
  "order_value c = (case qc_sort_order c of None \<Rightarrow> 0 | Some n \<Rightarrow> n)"

definition compareQuickCommandCategories ::
    "(js_text \<Rightarrow> js_text \<Rightarrow> int) \<Rightarrow> (js_text \<Rightarrow> js_text \<Rightarrow> int) \<Rightarrow> qc_category \<Rightarrow> qc_category \<Rightarrow> int" where
  "compareQuickCommandCategories nameCompare idCompare l r =
     (let a = order_value l - order_value r; b = nameCompare (qc_name l) (qc_name r) in
      if a \<noteq> 0 then a else if b \<noteq> 0 then b else idCompare (qc_id l) (qc_id r))"

definition addCategory :: "category_map \<Rightarrow> qc_category \<Rightarrow> category_map" where
  "addCategory byId c =
     (if qc_id c = [] \<or> map_of byId (qc_id c) \<noteq> None then byId
      else byId @ [(qc_id c, c\<lparr>qc_parent_id := normalizeParentId (qc_parent_id c)\<rparr>)])"

definition addCommandCategory :: "category_map \<Rightarrow> quick_command \<Rightarrow> category_map" where
  "addCommandCategory byId cmd =
     (case normalizeParentId (cm_category_id cmd) of None \<Rightarrow> byId
      | Some k \<Rightarrow> if map_of byId k \<noteq> None then byId
                  else byId @ [(k, \<lparr>qc_id = k, qc_name = k, qc_parent_id = None, qc_sort_order = None\<rparr>)])"

type_synonym locale_order = "(js_text \<Rightarrow> js_text \<Rightarrow> int) \<times> (js_text \<Rightarrow> js_text \<Rightarrow> int)"

definition buildQuickCommandCategoryList ::
    "locale_order \<Rightarrow> qc_category list \<Rightarrow> quick_command list \<Rightarrow> qc_category list" where
  "buildQuickCommandCategoryList ord categories commands =
     sortBy (compareQuickCommandCategories (fst ord) (snd ord))
       (map snd (foldl addCommandCategory (foldl addCategory [] categories) commands))"

definition getUsableParentId :: "category_map \<Rightarrow> qc_category \<Rightarrow> js_text option" where
  "getUsableParentId byId c =
     (case normalizeParentId (qc_parent_id c) of None \<Rightarrow> None
      | Some p \<Rightarrow>
          if p = qc_id c \<or> map_of byId p = None then None
          else if snd (walk (parentsOf byId) (Some p) [qc_id c]) then None
          else Some p)"

definition getQuickCommandCategoryDirectCounts :: "quick_command list \<Rightarrow> (js_text \<times> nat) list" where
  "getQuickCommandCategoryDirectCounts commands =
     foldl (\<lambda>counts cmd. case normalizeParentId (cm_category_id cmd) of None \<Rightarrow> counts
              | Some k \<Rightarrow> AList.update k ((case map_of counts k of None \<Rightarrow> 0 | Some n \<Rightarrow> n) + 1) counts) [] commands"

definition getQuickCommandUncategorizedCount :: "quick_command list \<Rightarrow> nat" where
  "getQuickCommandUncategorizedCount commands =
     length (filter (\<lambda>cmd. cm_category_id cmd = None \<or> cm_category_id cmd = Some []) commands)"

section \<open>The tree\<close>

datatype qc_node = QNode qc_category "qc_node list" nat nat

primrec qn_total :: "qc_node \<Rightarrow> nat" where
  "qn_total (QNode c ts n t) = t"

primrec qn_category :: "qc_node \<Rightarrow> qc_category" where
  "qn_category (QNode c ts n t) = c"

definition childIds :: "category_map \<Rightarrow> qc_category list \<Rightarrow> (js_text \<times> js_text list) list" where
  "childIds byId cats =
     foldl (\<lambda>m c. case getUsableParentId byId c of None \<Rightarrow> m | Some p \<Rightarrow> pushChild p (qc_id c) m) [] cats"

primrec linkNode :: "category_map \<Rightarrow> (js_text \<times> nat) list \<Rightarrow> js_text tree_of \<Rightarrow> qc_node" where
  "linkNode byId counts (TreeOf k ts) =
     QNode (the (map_of byId k)) (map (linkNode byId counts) ts) (case map_of counts k of None \<Rightarrow> 0 | Some n \<Rightarrow> n) 0"

primrec fillTotalCount :: "qc_node \<Rightarrow> qc_node" where
  "fillTotalCount (QNode c ts n t) =
     (let ts' = map fillTotalCount ts in QNode c ts' n (n + sum_list (map qn_total ts')))"

definition buildQuickCommandCategoryTree ::
    "locale_order \<Rightarrow> qc_category list \<Rightarrow> quick_command list \<Rightarrow> qc_node list" where
  "buildQuickCommandCategoryTree ord categories commands =
     (let cats = buildQuickCommandCategoryList ord categories commands; byId = categoryById cats;
          counts = getQuickCommandCategoryDirectCounts commands; below = childIds byId cats;
          roots = filter (\<lambda>c. getUsableParentId byId c = None) cats
      in map (\<lambda>c. fillTotalCount (linkNode byId counts (grow (length cats) (children below) (qc_id c)))) roots)"

fun visitVisible :: "js_text list \<Rightarrow> nat \<Rightarrow> qc_node \<Rightarrow> (qc_node \<times> nat) list" where
  "visitVisible expanded depth (QNode c ts n t) =
     (QNode c ts n t, depth) # (if qc_id c \<in> set expanded then concat (map (visitVisible expanded (depth + 1)) ts) else [])"

definition flattenVisibleQuickCommandCategoryTree :: "qc_node list \<Rightarrow> js_text list \<Rightarrow> (qc_node \<times> nat) list" where
  "flattenVisibleQuickCommandCategoryTree nodes expanded = concat (map (visitVisible expanded 0) nodes)"

section \<open>Descendants and ancestors\<close>

definition collectQuickCommandCategoryDescendantIds :: "qc_category list \<Rightarrow> js_text option \<Rightarrow> js_text list" where
  "collectQuickCommandCategoryDescendantIds cats k =
     (case k of None \<Rightarrow> []
      | Some k \<Rightarrow>
          if k = [] \<or> map_of (categoryById cats) k = None then []
          else bfs (childIds (categoryById cats) cats) [k] [])"

definition collectQuickCommandCategoryAncestorIds :: "qc_category list \<Rightarrow> js_text option \<Rightarrow> js_text list" where
  "collectQuickCommandCategoryAncestorIds cats k =
     (if k = None \<or> k = Some [] then []
      else fst (walk (parentsOf (categoryById cats))
             (case map_of (categoryById cats) (the k) of None \<Rightarrow> None | Some c \<Rightarrow> qc_parent_id c) []))"

definition buildQuickCommandCategoryPath :: "qc_category list \<Rightarrow> js_text option \<Rightarrow> js_text" where
  "buildQuickCommandCategoryPath cats k =
     (if k = None \<or> k = Some [] then []
      else joinWith (js '' / '')
             (rev (map (\<lambda>i. qc_name (the (map_of (categoryById cats) i))) (fst (walk (parentsOf (categoryById cats)) k [])))))"

definition hasQuickCommandCategorySiblingName ::
    "(js_text \<Rightarrow> js_text) \<Rightarrow> qc_category list \<Rightarrow> js_text option \<Rightarrow> js_text \<Rightarrow> js_text option \<Rightarrow> bool" where
  "hasQuickCommandCategorySiblingName lower cats parentId name excludeId =
     list_ex (\<lambda>c. Some (qc_id c) \<noteq> excludeId \<and> qc_parent_id c = parentId \<and> lower (trim (qc_name c)) = lower (trim name)) cats"

definition deleteQuickCommandCategoryTree ::
    "qc_category list \<Rightarrow> quick_command list \<Rightarrow> js_text \<Rightarrow> js_text list \<times> qc_category list \<times> quick_command list" where
  "deleteQuickCommandCategoryTree cats commands k =
     (let deleteIds = collectQuickCommandCategoryDescendantIds cats (Some k) in
      (deleteIds, filter (\<lambda>c. qc_id c \<notin> set deleteIds) cats,
       filter (\<lambda>cmd. cm_category_id cmd = None \<or> cm_category_id cmd = Some [] \<or> the (cm_category_id cmd) \<notin> set deleteIds) commands))"

definition getNextQuickCommandCategorySortOrder :: "locale_order \<Rightarrow> qc_category list \<Rightarrow> js_text option \<Rightarrow> int" where
  "getNextQuickCommandCategorySortOrder ord categories parentId =
     (let cats = buildQuickCommandCategoryList ord categories []; byId = categoryById cats; p = normalizeParentId parentId;
          usable = (if p \<noteq> None \<and> map_of byId (the p) \<noteq> None then p else None)
      in foldl (\<lambda>m c. max m (order_value c)) (- 1) (filter (\<lambda>c. getUsableParentId byId c = usable) cats) + 1)"

section \<open>Moving\<close>

definition getQuickCommandCategorySiblingOrder ::
    "locale_order \<Rightarrow> qc_category list \<Rightarrow> js_text \<Rightarrow> qc_category list \<times> nat option" where
  "getQuickCommandCategorySiblingOrder ord categories k =
     (let cats = buildQuickCommandCategoryList ord categories []; byId = categoryById cats in
      case map_of byId k of None \<Rightarrow> ([], None)
      | Some target \<Rightarrow>
          (let siblings = filter (\<lambda>c. getUsableParentId byId c = getUsableParentId byId target) cats in
           (siblings, find_index (\<lambda>c. qc_id c = k) siblings)))"

definition getQuickCommandCategoryMoveState :: "locale_order \<Rightarrow> qc_category list \<Rightarrow> js_text \<Rightarrow> bool \<times> bool" where
  "getQuickCommandCategoryMoveState ord categories k =
     (case getQuickCommandCategorySiblingOrder ord categories k of
        (siblings, None) \<Rightarrow> (False, False)
      | (siblings, Some i) \<Rightarrow> (i > 0, i < length siblings - 1))"

text \<open>The position of each id in a list, as the \<open>sort_order\<close> it gets.\<close>

definition positions :: "js_text list \<Rightarrow> (js_text \<times> int) list" where
  "positions ids = zip ids (map int [0..<length ids])"

definition moveQuickCommandCategory :: "locale_order \<Rightarrow> qc_category list \<Rightarrow> js_text \<Rightarrow> bool \<Rightarrow> qc_category list" where
  "moveQuickCommandCategory ord categories k up =
     (case getQuickCommandCategorySiblingOrder ord categories k of
        (siblings, None) \<Rightarrow> categories
      | (siblings, Some index) \<Rightarrow>
          if (up \<and> index = 0) \<or> (\<not> up \<and> index + 1 \<ge> length siblings) then categories
          else (let swapIndex = (if up then index - 1 else index + 1);
                    reordered = siblings[index := siblings ! swapIndex, swapIndex := siblings ! index];
                    orders = positions (map qc_id reordered)
                in map (\<lambda>c. case map_of orders (qc_id c) of None \<Rightarrow> c | Some n \<Rightarrow> c\<lparr>qc_sort_order := Some n\<rparr>) categories))"

datatype drop_position = DropBefore | DropAfter | DropInside

definition categoriesEqualForOrdering :: "qc_category list \<Rightarrow> qc_category list \<Rightarrow> bool" where
  "categoriesEqualForOrdering l r \<longleftrightarrow>
     list_all2 (\<lambda>c d. qc_id c = qc_id d \<and> normalizeParentId (qc_parent_id c) = normalizeParentId (qc_parent_id d)
       \<and> order_value c = order_value d) l r"

definition moveQuickCommandCategoryToTarget ::
    "locale_order \<Rightarrow> qc_category list \<Rightarrow> js_text \<Rightarrow> js_text option \<Rightarrow> drop_position \<Rightarrow> qc_category list" where
  "moveQuickCommandCategoryToTarget ord categories sourceId targetId position =
     (let cats = buildQuickCommandCategoryList ord categories []; byId = categoryById cats;
          hasTarget = (targetId \<noteq> None \<and> targetId \<noteq> Some []);
          targetCategory = (if hasTarget then map_of byId (the targetId) else None)
      in case map_of byId sourceId of None \<Rightarrow> categories
         | Some source \<Rightarrow>
           if hasTarget \<and> targetCategory = None then categories
           else if targetId = Some sourceId then categories
           else if hasTarget \<and> the targetId \<in> set (collectQuickCommandCategoryDescendantIds cats (Some sourceId)) then categories
           else (let targetParentId = (if position = DropInside then map_option qc_id targetCategory
                       else (case targetCategory of None \<Rightarrow> None | Some t \<Rightarrow> getUsableParentId byId t)) in
             if targetParentId = Some sourceId then categories
             else (let targetSiblings = filter (\<lambda>c. qc_id c \<noteq> sourceId \<and> getUsableParentId byId c = targetParentId) cats;
                       insertIndex = (if position \<noteq> DropInside \<and> targetCategory \<noteq> None
                         then map_option (\<lambda>i. if position = DropBefore then i else i + 1)
                                (find_index (\<lambda>c. qc_id c = qc_id (the targetCategory)) targetSiblings)
                         else Some (length targetSiblings))
                   in case insertIndex of None \<Rightarrow> categories
                      | Some i \<Rightarrow>
                        (let orders = positions (map qc_id (splice_in i source targetSiblings));
                             next = map (\<lambda>c. case map_of orders (qc_id c) of None \<Rightarrow> c
                                      | Some n \<Rightarrow> c\<lparr>qc_parent_id := targetParentId, qc_sort_order := Some n\<rparr>) categories
                         in if categoriesEqualForOrdering categories next then categories else next))))"

section \<open>The normalized list\<close>

definition normal_parent :: "js_text option \<Rightarrow> bool" where
  "normal_parent p \<longleftrightarrow> normalizeParentId p = p"

definition tidy :: "qc_category list \<Rightarrow> bool" where
  "tidy cats \<longleftrightarrow> distinct (map qc_id cats) \<and> [] \<notin> qc_id ` set cats \<and> (\<forall>c \<in> set cats. normal_parent (qc_parent_id c))"

lemma normalize_idem [simp]: "normalizeParentId (normalizeParentId p) = normalizeParentId p"
  by (auto simp: normalizeParentId_def split: option.splits)

lemma normalize_nonempty: "normalizeParentId p = Some k \<Longrightarrow> k \<noteq> []"
  by (auto simp: normalizeParentId_def split: option.splits if_splits)

lemma normal_None [simp]: "normal_parent None"
  by (simp add: normal_parent_def normalizeParentId_def)

definition built :: "category_map \<Rightarrow> bool" where
  "built m \<longleftrightarrow> map fst m = map (qc_id \<circ> snd) m \<and> tidy (map snd m)"

lemma built_snoc:
  assumes b: "built m" and k: "qc_id c \<noteq> []" "map_of m (qc_id c) = None" "normal_parent (qc_parent_id c)"
  shows "built (m @ [(qc_id c, c)])"
proof -
  have "qc_id c \<notin> fst ` set m" using k(2) by (simp add: map_of_eq_None_iff)
  then have "qc_id c \<notin> set (map (qc_id \<circ> snd) m)" using b unfolding built_def by (metis set_map)
  then show ?thesis using b k by (auto simp: built_def tidy_def)
qed

lemma addCategory_built: "built m \<Longrightarrow> built (addCategory m c)"
  using built_snoc [of m "c\<lparr>qc_parent_id := normalizeParentId (qc_parent_id c)\<rparr>"]
  by (simp add: addCategory_def normal_parent_def)

lemma addCommandCategory_built: "built m \<Longrightarrow> built (addCommandCategory m cmd)"
  using built_snoc [of m "\<lparr>qc_id = k, qc_name = k, qc_parent_id = None, qc_sort_order = None\<rparr>" for k]
  by (simp add: addCommandCategory_def normalize_nonempty split: option.split)

lemma fold_built:
  "built m \<Longrightarrow> built (foldl addCategory m cs)" "built m \<Longrightarrow> built (foldl addCommandCategory m cmds)"
  by (induction cs arbitrary: m) (simp_all add: addCategory_built, induction cmds arbitrary: m, simp_all add: addCommandCategory_built)

lemma tidy_mset: "mset xs = mset ys \<Longrightarrow> tidy xs \<longleftrightarrow> tidy ys"
  unfolding tidy_def by (metis mset_eq_imp_distinct_iff mset_eq_setD mset_map)

lemma list_tidy: "tidy (buildQuickCommandCategoryList ord categories commands)"
proof -
  have "built []" by (simp add: built_def tidy_def)
  then have "built (foldl addCommandCategory (foldl addCategory [] categories) commands)" by (intro fold_built)
  then show ?thesis
    unfolding buildQuickCommandCategoryList_def built_def using tidy_mset [OF sortBy_mset] by blast
qed

lemma categoryById_distinct: "distinct (map qc_id cats) \<Longrightarrow> categoryById cats = map (\<lambda>c. (qc_id c, c)) cats"
proof (induction cats rule: rev_induct)
  case (snoc c cats)
  have "AList.update k v m = m @ [(k, v)]" if "k \<notin> fst ` set m" for k v and m :: category_map
    using that by (induction m) auto
  with snoc show ?case by (auto simp: categoryById_def image_iff)
qed (simp add: categoryById_def)

lemma tidy_lookup: "tidy cats \<Longrightarrow> c \<in> set cats \<Longrightarrow> map_of (categoryById cats) (qc_id c) = Some c"
  by (auto simp: tidy_def categoryById_distinct o_def intro!: map_of_is_SomeI)

lemma tidy_lookup_None: "tidy cats \<Longrightarrow> map_of (categoryById cats) k = None \<longleftrightarrow> k \<notin> qc_id ` set cats"
  by (auto simp: tidy_def categoryById_distinct map_of_eq_None_iff image_iff)

lemma tidy_lookup_Some: "tidy cats \<Longrightarrow> map_of (categoryById cats) k = Some c \<Longrightarrow> c \<in> set cats \<and> qc_id c = k"
  using map_of_SomeD [of "categoryById cats" k c] by (auto simp: tidy_def categoryById_distinct)

section \<open>Usable parents have no cycles\<close>

definition usable :: "qc_category list \<Rightarrow> js_text \<Rightarrow> js_text option" where
  "usable cats k = Option.bind (map_of (categoryById cats) k) (getUsableParentId (categoryById cats))"

definition depth_of :: "qc_category list \<Rightarrow> js_text \<Rightarrow> nat" where
  "depth_of cats k = length (fst (walk (parentsOf (categoryById cats)) (Some k) [])) - 1"

lemma parentsOf_lookup: "map_of (parentsOf m) k = map_option qc_parent_id (map_of m k)"
  by (simp add: parentsOf_def map_of_map)

lemma usable_id: "tidy cats \<Longrightarrow> c \<in> set cats \<Longrightarrow> usable cats (qc_id c) = getUsableParentId (categoryById cats) c"
  by (simp add: usable_def tidy_lookup)

lemma usable_known: "tidy cats \<Longrightarrow> usable cats k = Some p \<Longrightarrow> p \<in> qc_id ` set cats"
  using tidy_lookup_None [of cats p]
  by (auto simp: usable_def getUsableParentId_def bind_eq_Some_conv split: option.splits if_splits)

lemma usable_walk:
  assumes t: "tidy cats" and u: "usable cats k = Some p"
  shows "fst (walk (parentsOf (categoryById cats)) (Some k) []) = k # fst (walk (parentsOf (categoryById cats)) (Some p) [])"
    and "fst (walk (parentsOf (categoryById cats)) (Some p) []) \<noteq> []"
proof -
  let ?up = "parentsOf (categoryById cats)"
  from u obtain c where c: "map_of (categoryById cats) k = Some c" "getUsableParentId (categoryById cats) c = Some p"
    by (auto simp: usable_def bind_eq_Some_conv)
  from tidy_lookup_Some [OF t c(1)] have m: "c \<in> set cats" and k: "qc_id c = k" by auto
  from m t have "normal_parent (qc_parent_id c)" and k0: "k \<noteq> []" using k by (auto simp: tidy_def image_iff)
  with c(2) k have p: "qc_parent_id c = Some p" and acyc: "\<not> snd (walk ?up (Some p) [k])"
    by (auto simp: getUsableParentId_def normal_parent_def split: option.splits if_splits)
  have "walk ?up (Some p) [k] = walk ?up (Some p) []" using walk_acyclic [OF acyc, of "[]"] by simp
  with c(1) p k0 show "fst (walk ?up (Some k) []) = k # fst (walk ?up (Some p) [])"
    by (simp add: walk_Some [of ?up k] parentsOf_lookup)
  obtain d where "map_of (categoryById cats) p = Some d" "p \<noteq> []"
    using usable_known [OF t u] tidy_lookup_None [OF t, of p] t by (fastforce simp: tidy_def)
  then show "fst (walk ?up (Some p) []) \<noteq> []" by (simp add: walk_Some parentsOf_lookup)
qed

lemma tidy_forest: "tidy cats \<Longrightarrow> usable_forest (usable cats) (map qc_id cats) (depth_of cats)"
proof (unfold_locales, goal_cases)
  case (2 x p)
  then show ?case using usable_known [of cats x p] by simp
next
  case (3 x p)
  from usable_walk [OF this(1,3)] show ?case by (cases "fst (walk (parentsOf (categoryById cats)) (Some p) [])") (simp_all add: depth_of_def)
qed (simp add: tidy_def)

interpretation qc: usable_forest "usable (buildQuickCommandCategoryList ord categories commands)"
  "map qc_id (buildQuickCommandCategoryList ord categories commands)"
  "depth_of (buildQuickCommandCategoryList ord categories commands)" for ord categories commands
  by (rule tidy_forest [OF list_tidy])

section \<open>The tree holds every category once\<close>

primrec qn_children :: "qc_node \<Rightarrow> qc_node list" where
  "qn_children (QNode c ts n t) = ts"

primrec qn_count :: "qc_node \<Rightarrow> nat" where
  "qn_count (QNode c ts n t) = n"

primrec nodes_of :: "qc_node \<Rightarrow> qc_node list" where
  "nodes_of (QNode c ts n t) = QNode c ts n t # concat (map nodes_of ts)"

definition node_id :: "qc_node \<Rightarrow> js_text" where
  "node_id x = qc_id (qn_category x)"

lemma node_id_QNode [simp]: "node_id (QNode c ts n t) = qc_id c"
  by (simp add: node_id_def)

lemma childIds_children:
  "children (childIds byId cats) p = map qc_id (filter (\<lambda>c. getUsableParentId byId c = Some p) cats)"
  by (simp add: childIds_def children_fold) (simp add: children_def)

lemma tidy_children:
  assumes "tidy cats"
  shows "children (childIds (categoryById cats) cats) p = filter (\<lambda>k. usable cats k = Some p) (map qc_id cats)"
proof -
  have "filter (\<lambda>c. getUsableParentId (categoryById cats) c = Some p) cats = filter (\<lambda>c. usable cats (qc_id c) = Some p) cats"
    using assms by (intro filter_cong) (simp_all add: usable_id)
  then show ?thesis by (simp add: childIds_children filter_map o_def)
qed

lemma node_id_fill [simp]: "node_id (fillTotalCount t) = node_id t"
  by (cases t) (simp add: Let_def)

lemma node_id_root: "node_id (linkNode byId counts t) = qc_id (the (map_of byId (tree_root t)))"
  by (cases t) simp

lemma qn_count_link [simp]: "qn_count (fillTotalCount t) = qn_count t"
  by (cases t) (simp add: Let_def)

lemma nodes_link:
  "tidy cats \<Longrightarrow> set (flat t) \<subseteq> qc_id ` set cats \<Longrightarrow>
   map node_id (nodes_of (fillTotalCount (linkNode (categoryById cats) counts t))) = flat t"
proof (induction t)
  case (TreeOf k ts)
  have "map node_id (nodes_of (fillTotalCount (linkNode (categoryById cats) counts t))) = flat t" if "t \<in> set ts" for t
    using TreeOf that by fastforce
  then have "map (\<lambda>t. map node_id (nodes_of (fillTotalCount (linkNode (categoryById cats) counts t)))) ts = map flat ts" by simp
  moreover obtain c where "map_of (categoryById cats) k = Some c" "qc_id c = k"
    using TreeOf.prems tidy_lookup by fastforce
  ultimately show ?case by (simp add: Let_def o_def map_concat cong: map_cong)
qed

lemma nodes_linked:
  "tidy cats \<Longrightarrow> set (flat t) \<subseteq> qc_id ` set cats \<Longrightarrow> linked_tree below t \<Longrightarrow>
   \<forall>x \<in> set (nodes_of (fillTotalCount (linkNode (categoryById cats) counts t))). map node_id (qn_children x) = below (node_id x)"
proof (induction t)
  case (TreeOf k ts)
  let ?F = "\<lambda>t. fillTotalCount (linkNode (categoryById cats) counts t)"
  have IH: "\<forall>x \<in> set (nodes_of (?F t)). map node_id (qn_children x) = below (node_id x)" if "t \<in> set ts" for t
    using TreeOf that by (fastforce simp: list_all_iff)
  have id: "qc_id (the (map_of (categoryById cats) j)) = j" if "j \<in> qc_id ` set cats" for j
    using that tidy_lookup [OF TreeOf.prems(1)] by fastforce
  have "node_id (?F t) = tree_root t" if t: "t \<in> set ts" for t
  proof -
    have "tree_root t \<in> set (flat t)" by (cases t) simp
    then have "tree_root t \<in> qc_id ` set cats" using TreeOf.prems(2) t by fastforce
    then show ?thesis by (simp add: node_id_root id)
  qed
  then have "map (\<lambda>t. node_id (?F t)) ts = below k" using TreeOf.prems(3) by (simp cong: map_cong)
  moreover have "qc_id (the (map_of (categoryById cats) k)) = k" using TreeOf.prems(2) by (intro id) simp
  ultimately show ?case using IH by (auto simp: Let_def o_def)
qed

lemma sum_concat: "sum_list (concat xss) = sum_list (map sum_list xss)" for xss :: "nat list list"
  by (induction xss) simp_all

lemma totals_filled:
  "qn_total (fillTotalCount t) = sum_list (map qn_count (nodes_of (fillTotalCount t)))
   \<and> (\<forall>x \<in> set (nodes_of (fillTotalCount t)). qn_total x = sum_list (map qn_count (nodes_of x)))"
proof (induction t)
  case (QNode c ts n t)
  have "sum_list (map qn_total (map fillTotalCount ts)) = sum_list (map (\<lambda>t. sum_list (map qn_count (nodes_of (fillTotalCount t)))) ts)"
    using QNode by (simp add: o_def cong: map_cong)
  then show ?case using QNode by (auto simp: Let_def o_def map_concat sum_concat)
qed

lemma counts_link:
  "map qn_count (nodes_of (fillTotalCount (linkNode byId counts t)))
   = map (\<lambda>k. case map_of counts k of None \<Rightarrow> 0 | Some n \<Rightarrow> n) (flat t)"
  by (induction t) (simp add: Let_def o_def map_concat cong: map_cong)

lemma directCounts_snoc:
  "getQuickCommandCategoryDirectCounts (cmds @ [cmd]) =
     (case normalizeParentId (cm_category_id cmd) of None \<Rightarrow> getQuickCommandCategoryDirectCounts cmds
      | Some k \<Rightarrow> AList.update k ((case map_of (getQuickCommandCategoryDirectCounts cmds) k of None \<Rightarrow> 0 | Some n \<Rightarrow> n) + 1)
                   (getQuickCommandCategoryDirectCounts cmds))"
  by (simp add: getQuickCommandCategoryDirectCounts_def split: option.split)

lemma directCounts:
  "(case map_of (getQuickCommandCategoryDirectCounts commands) k of None \<Rightarrow> 0 | Some n \<Rightarrow> n)
   = length (filter (\<lambda>cmd. normalizeParentId (cm_category_id cmd) = Some k) commands)"
proof (induction commands rule: rev_induct)
  case (snoc cmd cmds)
  then show ?case by (cases "normalizeParentId (cm_category_id cmd)") (auto simp: directCounts_snoc update_conv')
qed (simp add: getQuickCommandCategoryDirectCounts_def)

lemma count_partition:
  "distinct ids \<Longrightarrow> sum_list (map (\<lambda>k. length (filter (\<lambda>c. f c = Some k) cs)) ids) = length (filter (\<lambda>c. \<exists>k \<in> set ids. f c = Some k) cs)"
proof (induction ids)
  case (Cons k ids)
  have "length (filter (\<lambda>c. f c = Some k) cs) + length (filter (\<lambda>c. \<exists>k \<in> set ids. f c = Some k) cs)
      = length (filter (\<lambda>c. \<exists>j \<in> set (k # ids). f c = Some j) cs)"
    using Cons.prems by (induction cs) auto
  with Cons show ?case by simp
qed simp

lemma addCommandCategory_keys:
  "fst ` set (foldl addCommandCategory m cmds) = fst ` set m \<union> {k. \<exists>cmd \<in> set cmds. normalizeParentId (cm_category_id cmd) = Some k}"
proof (induction cmds arbitrary: m)
  case (Cons cmd cmds)
  have "fst ` set (addCommandCategory m cmd) = fst ` set m \<union> {k. normalizeParentId (cm_category_id cmd) = Some k}"
    by (auto simp: addCommandCategory_def split: option.split) (force dest: map_of_SomeD)
  with Cons show ?case by auto
qed simp

lemma built_ids: "built m \<Longrightarrow> qc_id ` snd ` set m = fst ` set m"
  unfolding built_def by (metis image_comp list.set_map)

lemma list_covers:
  assumes "cmd \<in> set commands" "normalizeParentId (cm_category_id cmd) = Some k"
  shows "k \<in> qc_id ` set (buildQuickCommandCategoryList ord categories commands)"
proof -
  have "built []" by (simp add: built_def tidy_def)
  then have "built (foldl addCommandCategory (foldl addCategory [] categories) commands)" by (intro fold_built)
  from built_ids [OF this] assms show ?thesis
    by (auto simp: buildQuickCommandCategoryList_def addCommandCategory_keys)
qed

definition tree_nodes :: "qc_node list \<Rightarrow> qc_node list" where
  "tree_nodes ts = concat (map nodes_of ts)"

lemma tree_eq:
  "buildQuickCommandCategoryTree ord categories commands =
     (let cats = buildQuickCommandCategoryList ord categories commands in
      map (\<lambda>k. fillTotalCount (linkNode (categoryById cats) (getQuickCommandCategoryDirectCounts commands)
                 (grow (length cats) (\<lambda>x. filter (\<lambda>y. usable cats y = Some x) (map qc_id cats)) k)))
        (filter (\<lambda>y. usable cats y = None) (map qc_id cats)))"
proof -
  let ?cats = "buildQuickCommandCategoryList ord categories commands"
  have "filter (\<lambda>y. usable ?cats y = None) (map qc_id ?cats) = map qc_id (filter (\<lambda>c. getUsableParentId (categoryById ?cats) c = None) ?cats)"
    by (simp add: filter_map o_def usable_id [OF list_tidy] cong: filter_cong)
  moreover have "children (childIds (categoryById ?cats) ?cats) = (\<lambda>x. filter (\<lambda>y. usable ?cats y = Some x) (map qc_id ?cats))"
    using tidy_children [OF list_tidy] by (rule ext)
  ultimately show ?thesis by (simp add: buildQuickCommandCategoryTree_def Let_def o_def)
qed

lemma depth_bound: "depth_of cats k \<le> length cats" "cats \<noteq> [] \<Longrightarrow> depth_of cats k < length cats" if "tidy cats"
  using that walk_length [of "parentsOf (categoryById cats)" "Some k" "[]"]
  by (cases cats; auto simp: depth_of_def parentsOf_def categoryById_distinct tidy_def)+

lemma category_tree_complete:
  fixes ord categories commands
  defines "cats \<equiv> buildQuickCommandCategoryList ord categories commands"
  defines "nodes \<equiv> tree_nodes (buildQuickCommandCategoryTree ord categories commands)"
  shows "distinct (map node_id nodes)" and "node_id ` set nodes = qc_id ` set cats"
    and "\<forall>x \<in> set nodes. map node_id (qn_children x) = filter (\<lambda>k. usable cats k = Some (node_id x)) (map qc_id cats)"
    and "map qn_count nodes = map (\<lambda>k. length (filter (\<lambda>cmd. normalizeParentId (cm_category_id cmd) = Some k) commands)) (map node_id nodes)"
proof -
  let ?below = "\<lambda>x. filter (\<lambda>y. usable cats y = Some x) (map qc_id cats)"
  let ?roots = "filter (\<lambda>y. usable cats y = None) (map qc_id cats)"
  let ?T = "\<lambda>k. grow (length cats) ?below k"
  let ?counts = "getQuickCommandCategoryDirectCounts commands"
  have t: "tidy cats" by (simp add: cats_def list_tidy)
  have nodes: "nodes = concat (map (\<lambda>k. nodes_of (fillTotalCount (linkNode (categoryById cats) ?counts (?T k)))) ?roots)"
    unfolding nodes_def tree_nodes_def tree_eq Let_def cats_def by (simp add: o_def)
  have sub: "set (flat (?T k)) \<subseteq> qc_id ` set cats" if "k \<in> set ?roots" for k
    using qc.grow_set [of k ord categories commands] that by (auto simp: cats_def)
  have ids: "map node_id nodes = concat (map (\<lambda>k. flat (?T k)) ?roots)"
  proof -
    have "map (\<lambda>k. map node_id (nodes_of (fillTotalCount (linkNode (categoryById cats) ?counts (?T k))))) ?roots = map (\<lambda>k. flat (?T k)) ?roots"
      using nodes_link [OF t sub] by (rule map_cong [OF refl])
    then show ?thesis unfolding nodes map_concat by (simp only: map_map o_def)
  qed
  have once: "distinct (concat (map (\<lambda>r. flat (?T r)) ?roots)) \<and> set (concat (map (\<lambda>r. flat (?T r)) ?roots)) = set (map qc_id cats)"
    unfolding cats_def by (rule qc.forest_once) (use depth_bound(1) [OF t] in \<open>simp add: cats_def\<close>)
  from once ids show "distinct (map node_id nodes)" and "node_id ` set nodes = qc_id ` set cats"
    by (simp, metis list.set_map)
  have "linked_tree ?below (?T k)" if k: "k \<in> set ?roots" for k
  proof -
    from k have "cats \<noteq> []" by auto
    with k depth_bound(2) [OF t] show ?thesis unfolding cats_def by (intro qc.grow_linked) (auto simp: cats_def trans_less_add1)
  qed
  then show "\<forall>x \<in> set nodes. map node_id (qn_children x) = ?below (node_id x)"
    unfolding nodes using nodes_linked [OF t sub] by fastforce
  show "map qn_count nodes = map (\<lambda>k. length (filter (\<lambda>cmd. normalizeParentId (cm_category_id cmd) = Some k) commands)) (map node_id nodes)"
  proof -
    have "map qn_count nodes = map (\<lambda>k. case map_of ?counts k of None \<Rightarrow> 0 | Some n \<Rightarrow> n) (map node_id nodes)"
      unfolding ids unfolding nodes by (simp only: map_concat map_map o_def counts_link)
    then show ?thesis by (simp add: directCounts)
  qed
qed

lemma tree_total:
  "sum_list (map qn_total (buildQuickCommandCategoryTree ord categories commands))
   = sum_list (map qn_count (tree_nodes (buildQuickCommandCategoryTree ord categories commands)))"
  by (simp add: tree_eq tree_nodes_def Let_def o_def map_concat sum_concat totals_filled cong: map_cong)

lemma tree_totals:
  "list_all (\<lambda>x. qn_total x = sum_list (map qn_count (nodes_of x))) (tree_nodes (buildQuickCommandCategoryTree ord categories commands))"
  using totals_filled by (fastforce simp: tree_eq tree_nodes_def Let_def list_all_iff)

text \<open>C23: the category tree is a forest of all categories, whatever the stored parent ids are
  (unknown, blank, or forming cycles): its nodes in preorder have pairwise distinct ids, which are
  exactly the ids of the normalized list, and every node's children are exactly the categories
  whose usable parent it is, in the order of the list.
\<close>

theorem category_tree_once:
  "distinct (map node_id (tree_nodes (buildQuickCommandCategoryTree ord categories commands)))
   \<and> node_id ` set (tree_nodes (buildQuickCommandCategoryTree ord categories commands))
       = qc_id ` set (buildQuickCommandCategoryList ord categories commands)
   \<and> list_all (\<lambda>x. map node_id (qn_children x)
         = map qc_id (filter (\<lambda>c. getUsableParentId (categoryById (buildQuickCommandCategoryList ord categories commands)) c = Some (node_id x))
             (buildQuickCommandCategoryList ord categories commands)))
       (tree_nodes (buildQuickCommandCategoryTree ord categories commands))"
  using category_tree_complete [of ord categories commands]
    tidy_children [OF list_tidy, of ord categories commands, unfolded childIds_children]
  by (simp add: list_all_iff)

text \<open>counting loses no command and counts none twice: the totals of the roots add up to the
  number of commands with a non-blank category, and every node's total is the sum of the
  commands filed directly under the nodes of its subtree.
\<close>

theorem category_totals:
  "sum_list (map qn_total (buildQuickCommandCategoryTree ord categories commands))
     = length (filter (\<lambda>cmd. normalizeParentId (cm_category_id cmd) \<noteq> None) commands)
   \<and> list_all (\<lambda>x. qn_total x = sum_list (map (\<lambda>y. length (filter (\<lambda>cmd. normalizeParentId (cm_category_id cmd) = Some (node_id y)) commands)) (nodes_of x)))
       (tree_nodes (buildQuickCommandCategoryTree ord categories commands))"
proof
  let ?nodes = "tree_nodes (buildQuickCommandCategoryTree ord categories commands)"
  let ?cat = "\<lambda>cmd. normalizeParentId (cm_category_id cmd)"
  note c = category_tree_complete [of ord categories commands]
  have "sum_list (map qn_count ?nodes) = length (filter (\<lambda>cmd. \<exists>k \<in> set (map node_id ?nodes). ?cat cmd = Some k) commands)"
    using count_partition [OF c(1), of ?cat commands] by (simp only: c(4))
  also have "filter (\<lambda>cmd. \<exists>k \<in> set (map node_id ?nodes). ?cat cmd = Some k) commands = filter (\<lambda>cmd. ?cat cmd \<noteq> None) commands"
  proof (rule filter_cong [OF refl])
    fix cmd assume "cmd \<in> set commands"
    then show "(\<exists>k \<in> set (map node_id ?nodes). ?cat cmd = Some k) = (?cat cmd \<noteq> None)"
      using list_covers [of cmd commands _ ord categories] unfolding set_map c(2) by (cases "?cat cmd") auto
  qed
  finally show "sum_list (map qn_total (buildQuickCommandCategoryTree ord categories commands)) = length (filter (\<lambda>cmd. ?cat cmd \<noteq> None) commands)"
    by (simp add: tree_total)
  have count: "qn_count y = length (filter (\<lambda>cmd. ?cat cmd = Some (node_id y)) commands)" if "y \<in> set ?nodes" for y
    using c(4) that by (simp add: map_eq_conv)
  have sub: "set (nodes_of x) \<subseteq> set ?nodes" if "x \<in> set ?nodes" for x
  proof -
    have trans: "y \<in> set (nodes_of x) \<Longrightarrow> x \<in> set (nodes_of r) \<Longrightarrow> y \<in> set (nodes_of r)" for y r
      by (induction r) auto
    with that show ?thesis by (fastforce simp: tree_nodes_def)
  qed
  have "map qn_count (nodes_of x) = map (\<lambda>y. length (filter (\<lambda>cmd. ?cat cmd = Some (node_id y)) commands)) (nodes_of x)"
    if "x \<in> set ?nodes" for x
    using sub [OF that] count by auto
  with tree_totals [of ord categories commands]
  show "list_all (\<lambda>x. qn_total x = sum_list (map (\<lambda>y. length (filter (\<lambda>cmd. ?cat cmd = Some (node_id y)) commands)) (nodes_of x))) ?nodes"
    by (auto simp: list_all_iff)
qed

section \<open>Deleting a category\<close>

definition child_of :: "qc_category list \<Rightarrow> js_text \<Rightarrow> js_text \<Rightarrow> bool" where
  "child_of cats p k \<longleftrightarrow> (\<exists>c \<in> set cats. qc_id c = k \<and> getUsableParentId (categoryById cats) c = Some p)"

lemma descendants_reach:
  assumes "[] \<notin> qc_id ` set cats" "map_of (categoryById cats) k \<noteq> None" "k \<noteq> []"
  shows "set (collectQuickCommandCategoryDescendantIds cats (Some k)) = {x. (child_of cats)\<^sup>*\<^sup>* k x}"
proof -
  let ?m = "childIds (categoryById cats) cats"
  have "child_step ?m = child_of cats" by (intro ext) (auto simp: child_step_def child_of_def childIds_children)
  moreover have "\<forall>x. [] \<notin> set (children ?m x)" using assms(1) by (auto simp: childIds_children)
  ultimately show ?thesis using assms(2,3) bfs_reaches [of ?m k]
    by (auto simp: collectQuickCommandCategoryDescendantIds_def)
qed

text \<open>deleting a category removes it with everything below it and nothing else: the deleted ids
  are those reachable from it through usable parents, each listed once; no surviving category has
  a deleted category as its usable parent, so none is orphaned; and a command survives exactly
  when its category id is not a deleted one.
\<close>

theorem delete_category_subtree:
  assumes "[] \<notin> qc_id ` set cats" "k \<in> fst ` set (categoryById cats)"
  shows "case deleteQuickCommandCategoryTree cats commands k of (ids, cats', commands') \<Rightarrow>
    distinct ids \<and> set ids = {x. (child_of cats)\<^sup>*\<^sup>* k x}
    \<and> set cats' = {c \<in> set cats. \<not> (child_of cats)\<^sup>*\<^sup>* k (qc_id c)}
    \<and> list_all (\<lambda>c. case getUsableParentId (categoryById cats) c of None \<Rightarrow> True | Some p \<Rightarrow> p \<notin> set ids) cats'
    \<and> set commands' = {cmd \<in> set commands. \<forall>i. cm_category_id cmd = Some i \<longrightarrow> i \<notin> set ids}"
proof -
  let ?ids = "collectQuickCommandCategoryDescendantIds cats (Some k)"
  have known: "map_of (categoryById cats) k \<noteq> None" using assms(2) by (simp add: map_of_eq_None_iff)
  have keys: "fst ` set (categoryById cats) = qc_id ` set cats"
    by (induction cats rule: rev_induct) (auto simp: categoryById_def dom_update)
  then have k: "k \<noteq> []" using assms by metis
  note ids = descendants_reach [OF assms(1) known k]
  have "x \<noteq> []" if "(child_of cats)\<^sup>*\<^sup>* k x" for x
    using that k assms(1) by (induction rule: rtranclp_induct) (force simp: child_of_def)+
  then have ne: "[] \<notin> set ?ids" by (auto simp: ids)
  have orphan: "p \<notin> set ?ids" if c: "c \<in> set cats" "getUsableParentId (categoryById cats) c = Some p" "qc_id c \<notin> set ?ids" for c p
  proof
    assume "p \<in> set ?ids"
    then have "(child_of cats)\<^sup>*\<^sup>* k p" by (simp add: ids)
    moreover have "child_of cats p (qc_id c)" using c by (auto simp: child_of_def)
    ultimately have "(child_of cats)\<^sup>*\<^sup>* k (qc_id c)" by simp
    with c(3) show False by (simp add: ids)
  qed
  have "distinct ?ids" using known k by (simp add: collectQuickCommandCategoryDescendantIds_def bfs_distinct)
  moreover have "(cm_category_id cmd = None \<or> cm_category_id cmd = Some [] \<or> the (cm_category_id cmd) \<notin> set ?ids)
      = (\<forall>i. cm_category_id cmd = Some i \<longrightarrow> i \<notin> set ?ids)" for cmd
    using ne by (cases "cm_category_id cmd") auto
  moreover have "(child_of cats)\<^sup>*\<^sup>* k x \<longleftrightarrow> x \<in> set ?ids" for x using ids by simp
  ultimately show ?thesis using orphan
    by (auto simp: deleteQuickCommandCategoryTree_def Let_def list_all_iff split: option.split)
qed

definition example_categories :: "qc_category list" where
  "example_categories =
     [\<lparr>qc_id = [97], qc_name = [65], qc_parent_id = None, qc_sort_order = None\<rparr>,
      \<lparr>qc_id = [98], qc_name = [66], qc_parent_id = Some [97], qc_sort_order = None\<rparr>,
      \<lparr>qc_id = [99], qc_name = [67], qc_parent_id = Some [99], qc_sort_order = None\<rparr>]"

lemmas category_eval = example_categories_def categoryById_def getUsableParentId_def normalizeParentId_def
  trim_def trimStart_def trimEnd_def isSpace_def walk_Some parentsOf_def childIds_def children_def pushChild_def

theorem delete_category_subtree_witness:
  "deleteQuickCommandCategoryTree example_categories [\<lparr>cm_id = [49], cm_category_id = Some [98]\<rparr>] [97]
     = ([[97], [98]], drop 2 example_categories, [])
   \<and> (child_of example_categories)\<^sup>*\<^sup>* [97] [98]"
proof -
  have e: "deleteQuickCommandCategoryTree example_categories [\<lparr>cm_id = [49], cm_category_id = Some [98]\<rparr>] [97]
     = ([[97], [98]], drop 2 example_categories, [])"
    by (simp add: deleteQuickCommandCategoryTree_def collectQuickCommandCategoryDescendantIds_def category_eval)
  have "[] \<notin> qc_id ` set example_categories" "[97] \<in> fst ` set (categoryById example_categories)"
    by (simp_all add: category_eval)
  from delete_category_subtree [OF this, of "[\<lparr>cm_id = [49], cm_category_id = Some [98]\<rparr>]"]
  have "set [[97], [98]] = {x. (child_of example_categories)\<^sup>*\<^sup>* [97] x}" unfolding e by simp
  then have "(child_of example_categories)\<^sup>*\<^sup>* [97] [98]" by (metis list.set_intros mem_Collect_eq)
  with e show ?thesis by simp
qed

section \<open>Moving a category among its siblings\<close>

text \<open>What \<open>localeCompare\<close> promises: a consistent comparison.\<close>

definition consistent :: "('a \<Rightarrow> 'a \<Rightarrow> int) \<Rightarrow> bool" where
  "consistent cmp \<longleftrightarrow> (\<forall>x y. cmp x y \<le> 0 \<longleftrightarrow> 0 \<le> cmp y x) \<and> (\<forall>x y z. cmp x y \<le> 0 \<longrightarrow> cmp y z \<le> 0 \<longrightarrow> cmp x z \<le> 0)"

lemma consistent_swap: "consistent cmp \<Longrightarrow> cmp x y \<le> 0 \<longleftrightarrow> 0 \<le> cmp y x"
  by (auto simp: consistent_def)

lemma consistent_total: "consistent cmp \<Longrightarrow> cmp x y \<le> 0 \<or> cmp y x \<le> 0"
  using consistent_swap [of cmp x y] by linarith

lemma consistent_trans: "consistent cmp \<Longrightarrow> cmp x y \<le> 0 \<Longrightarrow> cmp y z \<le> 0 \<Longrightarrow> cmp x z \<le> 0"
  unfolding consistent_def by blast

lemma consistent_zero: "consistent cmp \<Longrightarrow> cmp x y \<le> 0 \<Longrightarrow> cmp y x \<le> 0 \<Longrightarrow> cmp x y = 0"
  using consistent_swap [of cmp y x] by linarith

lemma consistent_sym: "consistent cmp \<Longrightarrow> cmp x y = 0 \<longleftrightarrow> cmp y x = 0"
  using consistent_swap [of cmp y x] consistent_swap [of cmp x y] by linarith

text \<open>Sorting by a consistent comparison sorts.\<close>

lemma insertBy_sorted:
  "consistent cmp \<Longrightarrow> sorted_wrt (\<lambda>x y. cmp x y \<le> 0) xs \<Longrightarrow> sorted_wrt (\<lambda>x y. cmp x y \<le> 0) (insertBy cmp x xs)"
proof (induction xs)
  case (Cons y ys)
  have set: "set (insertBy cmp x zs) = insert x (set zs)" for zs
    by (metis insertBy_mset set_mset_add_mset_insert set_mset_mset)
  show ?case
  proof (cases "cmp x y \<le> 0")
    case True
    with Cons.prems show ?thesis by (auto intro: consistent_trans)
  next
    case False
    with consistent_total [OF Cons.prems(1)] have "cmp y x \<le> 0" by blast
    with False Cons show ?thesis by (simp add: set)
  qed
qed simp

lemma sortBy_sorted: "consistent cmp \<Longrightarrow> sorted_wrt (\<lambda>x y. cmp x y \<le> 0) (sortBy cmp xs)"
  by (induction xs) (simp_all add: sortBy_def insertBy_sorted)

text \<open>Categories are compared by their sort order first.\<close>

lemma compare_order:
  "compareQuickCommandCategories f g l r \<le> 0 \<Longrightarrow> order_value l \<le> order_value r"
  by (auto simp: compareQuickCommandCategories_def Let_def split: if_splits)

lemma compare_consistent: "consistent f \<Longrightarrow> consistent g \<Longrightarrow> consistent (compareQuickCommandCategories f g)"
proof -
  assume f: "consistent f" and g: "consistent g"
  let ?c = "compareQuickCommandCategories f g"
  have swap: "?c l r \<le> 0 \<longleftrightarrow> 0 \<le> ?c r l" for l r
    using consistent_swap [OF f, of "qc_name l" "qc_name r"] consistent_swap [OF g, of "qc_id l" "qc_id r"]
      consistent_sym [OF f, of "qc_name l" "qc_name r"]
    by (simp add: compareQuickCommandCategories_def Let_def)
  have "?c l r \<le> 0" if lm: "?c l m \<le> 0" and mr: "?c m r \<le> 0" for l m r
  proof -
    note o = compare_order [OF lm] compare_order [OF mr]
    show ?thesis
    proof (cases "order_value l = order_value r")
      case True
      with o have eq: "order_value l = order_value m" "order_value m = order_value r" by simp_all
      have fl: "f (qc_name l) (qc_name m) \<le> 0" "f (qc_name m) (qc_name r) \<le> 0"
        using lm mr eq by (auto simp: compareQuickCommandCategories_def Let_def split: if_splits)
      note flr = consistent_trans [OF f fl]
      show ?thesis
      proof (cases "f (qc_name l) (qc_name r) = 0")
        case False
        with flr True show ?thesis by (simp add: compareQuickCommandCategories_def)
      next
        case z: True
        have rl: "f (qc_name r) (qc_name l) \<le> 0" using z consistent_sym [OF f] by (metis order_refl)
        have "f (qc_name l) (qc_name m) = 0" "f (qc_name m) (qc_name r) = 0"
          using consistent_zero [OF f fl(1) consistent_trans [OF f fl(2) rl]]
            consistent_zero [OF f fl(2) consistent_trans [OF f rl fl(1)]] by simp_all
        then have "g (qc_id l) (qc_id m) \<le> 0" "g (qc_id m) (qc_id r) \<le> 0"
          using lm mr eq by (auto simp: compareQuickCommandCategories_def Let_def split: if_splits)
        from consistent_trans [OF g this] z True show ?thesis by (simp add: compareQuickCommandCategories_def)
      qed
    next
      case False
      with o show ?thesis by (simp add: compareQuickCommandCategories_def Let_def)
    qed
  qed
  with swap show ?thesis unfolding consistent_def by blast
qed

text \<open>Changing sort orders keeps the ids, the parents and so the usable parents.\<close>

definition setOrder :: "(js_text \<times> int) list \<Rightarrow> qc_category \<Rightarrow> qc_category" where
  "setOrder orders c = (case map_of orders (qc_id c) of None \<Rightarrow> c | Some n \<Rightarrow> c\<lparr>qc_sort_order := Some n\<rparr>)"

lemma setOrder_simps [simp]:
  "qc_id (setOrder orders c) = qc_id c" "qc_parent_id (setOrder orders c) = qc_parent_id c"
  "setOrder orders (c\<lparr>qc_parent_id := p\<rparr>) = (setOrder orders c)\<lparr>qc_parent_id := p\<rparr>"
  by (simp_all add: setOrder_def split: option.split)

lemma addCategory_setOrder:
  "foldl addCategory (map (apsnd (setOrder orders)) m) (map (setOrder orders) cs) = map (apsnd (setOrder orders)) (foldl addCategory m cs)"
proof (induction cs arbitrary: m)
  case (Cons c cs)
  have "addCategory (map (apsnd (setOrder orders)) m) (setOrder orders c) = map (apsnd (setOrder orders)) (addCategory m c)"
    by (simp add: addCategory_def map_of_map apsnd_def map_prod_def)
  with Cons show ?case by simp
qed simp

lemma list_setOrder:
  "mset (buildQuickCommandCategoryList ord (map (setOrder orders) categories) [])
   = mset (map (setOrder orders) (buildQuickCommandCategoryList ord categories []))"
proof -
  have "map snd (map (apsnd (setOrder orders)) m) = map (setOrder orders) (map snd m)" for m :: category_map by simp
  then show ?thesis using addCategory_setOrder [of orders "[]" categories]
    by (simp add: buildQuickCommandCategoryList_def sortBy_mset image_mset.compositionality del: mset_map flip: mset_map)
      (simp add: sortBy_mset o_def image_mset.compositionality)
qed

lemma walk_cong: "(\<And>k. map_of up k = map_of up' k) \<Longrightarrow> walk up cur seen = walk up' cur seen"
proof (induction up cur seen rule: walk.induct)
  case (1 up cur seen)
  show ?case
  proof (cases "\<exists>k p. cur = Some k \<and> k \<noteq> [] \<and> k \<notin> set seen \<and> map_of up k = Some p")
    case True
    then obtain k p where k: "cur = Some k" "k \<noteq> []" "k \<notin> set seen" "map_of up k = Some p" by blast
    from 1(1) [OF this 1(2)] k 1(2) [of k] show ?thesis by (simp add: walk_Some)
  next
    case False
    with 1(2) show ?thesis by (cases cur) (auto simp: walk_Some split: option.split)
  qed
qed

lemma usable_setOrder:
  assumes t: "tidy cats" "tidy cats'" and s: "set cats' = setOrder orders ` set cats"
  shows "getUsableParentId (categoryById cats') (setOrder orders c) = getUsableParentId (categoryById cats) c"
proof -
  have look: "map_of (categoryById cats') k = map_option (setOrder orders) (map_of (categoryById cats) k)" for k
  proof (cases "map_of (categoryById cats) k")
    case None
    then have "k \<notin> qc_id ` set cats'" using s tidy_lookup_None [OF t(1)] by (auto simp: image_image)
    with None show ?thesis using tidy_lookup_None [OF t(2)] by simp
  next
    case (Some d)
    from tidy_lookup_Some [OF t(1) this] s have "setOrder orders d \<in> set cats'" "qc_id (setOrder orders d) = k" by auto
    with Some tidy_lookup [OF t(2)] show ?thesis by fastforce
  qed
  have "walk (parentsOf (categoryById cats')) cur seen = walk (parentsOf (categoryById cats)) cur seen" for cur seen
    by (rule walk_cong) (simp add: parentsOf_lookup look option.map_comp o_def)
  then show ?thesis by (auto simp: getUsableParentId_def look split: option.split)
qed

lemma positions_at: "distinct ids \<Longrightarrow> i < length ids \<Longrightarrow> map_of (positions ids) (ids ! i) = Some (int i)"
  by (simp add: positions_def map_of_zip_nth)

lemma positions_setOrder:
  assumes "distinct (map qc_id R)"
  shows "map order_value (map (setOrder (positions (map qc_id R))) R) = map int [0..<length R]"
proof (rule nth_equalityI)
  fix i assume "i < length (map order_value (map (setOrder (positions (map qc_id R))) R))"
  with positions_at [OF assms, of i] show "map order_value (map (setOrder (positions (map qc_id R))) R) ! i = map int [0..<length R] ! i"
    by (simp add: setOrder_def order_value_def)
qed simp

lemma siblings_reordered:
  assumes cmp: "consistent (fst ord)" "consistent (snd ord)" and R: "mset R = mset (filter (\<lambda>c. getUsableParentId (categoryById cats) c = p) cats)"
    and cats: "cats = buildQuickCommandCategoryList ord categories []"
    and cats': "cats' = buildQuickCommandCategoryList ord (map (setOrder (positions (map qc_id R))) categories) []"
  shows "filter (\<lambda>c. getUsableParentId (categoryById cats') c = p) cats' = map (setOrder (positions (map qc_id R))) R"
proof -
  let ?f = "setOrder (positions (map qc_id R))"
  let ?S = "filter (\<lambda>c. getUsableParentId (categoryById cats') c = p) cats'"
  have t: "tidy cats" "tidy cats'" using cats cats' list_tidy by simp_all
  have m: "mset cats' = mset (map ?f cats)" unfolding cats cats' by (rule list_setOrder)
  then have "set cats' = ?f ` set cats" by (metis list.set_map mset_eq_setD)
  note usable = usable_setOrder [OF t this]
  have "mset ?S = mset (filter (\<lambda>c. getUsableParentId (categoryById cats') c = p) (map ?f cats))" using m by (metis mset_filter)
  also have "\<dots> = mset (map ?f R)" using R by (simp add: filter_map o_def usable)
  finally have S: "mset ?S = mset (map ?f R)" .
  have dist: "distinct (map qc_id R)"
  proof -
    have "distinct (map qc_id (filter (\<lambda>c. getUsableParentId (categoryById cats) c = p) cats))"
      using t(1) by (simp add: tidy_def distinct_map_filter)
    then show ?thesis using R by (metis mset_eq_imp_distinct_iff mset_map)
  qed
  have "sorted_wrt (\<lambda>x y. compareQuickCommandCategories (fst ord) (snd ord) x y \<le> 0) cats'"
    unfolding cats' buildQuickCommandCategoryList_def using cmp by (intro sortBy_sorted compare_consistent)
  then have "sorted_wrt (\<lambda>x y. order_value x \<le> order_value y) ?S"
    by (intro sorted_wrt_filter) (erule sorted_wrt_mono_rel [rotated], erule compare_order)
  then have "sorted (map order_value ?S)" by (simp add: sorted_map)
  moreover have "sorted (map order_value (map ?f R))" unfolding positions_setOrder [OF dist] by (simp add: sorted_map)
  moreover have "mset (map order_value ?S) = mset (map order_value (map ?f R))" using S by (metis mset_map)
  ultimately have eq: "map order_value ?S = map order_value (map ?f R)" by (metis properties_for_sort)
  have "distinct (map order_value (map ?f R))" unfolding positions_setOrder [OF dist] by (simp add: distinct_map)
  then have "inj_on order_value (set (map ?f R))" using distinct_map [of order_value "map ?f R"] by blast
  moreover have "set ?S = set (map ?f R)" using S by (metis mset_eq_setD)
  ultimately have "inj_on order_value (set ?S \<union> set (map ?f R))" by (simp only: Un_absorb)
  with eq show ?thesis by (rule map_inj_on)
qed

lemma find_index_unique:
  "distinct (map g xs) \<Longrightarrow> j < length xs \<Longrightarrow> g (xs ! j) = k \<Longrightarrow> find_index (\<lambda>x. g x = k) xs = Some j"
proof (induction xs arbitrary: j)
  case (Cons x xs)
  then show ?case by (cases j) (auto simp: image_iff)
qed simp

text \<open>moving a category one place up or down does exactly that: the siblings afterwards, read from
  the normalized list again, are the ids of the siblings before with the category and its neighbour
  swapped, and the category is found at the neighbour's place. \<open>localeCompare\<close> is assumed to be a
  consistent comparison.
\<close>

theorem move_swaps_siblings:
  assumes cmp: "consistent (fst ord)" "consistent (snd ord)"
    and before: "getQuickCommandCategorySiblingOrder ord categories k = (siblings, Some i)"
    and j: "j = (if up then i - 1 else i + 1)" "if up then i > 0 else i + 1 < length siblings"
  shows "map_prod (map qc_id) id (getQuickCommandCategorySiblingOrder ord (moveQuickCommandCategory ord categories k up) k)
    = ((map qc_id siblings)[i := qc_id (siblings ! j), j := k], Some j)"
proof -
  let ?cats = "buildQuickCommandCategoryList ord categories []"
  let ?R = "siblings[i := siblings ! j, j := siblings ! i]"
  let ?f = "setOrder (positions (map qc_id ?R))"
  let ?cats' = "buildQuickCommandCategoryList ord (map ?f categories) []"
  from before obtain target where target: "map_of (categoryById ?cats) k = Some target"
    and S: "siblings = filter (\<lambda>c. getUsableParentId (categoryById ?cats) c = getUsableParentId (categoryById ?cats) target) ?cats"
    and i: "find_index (\<lambda>c. qc_id c = k) siblings = Some i"
    by (auto simp: getQuickCommandCategorySiblingOrder_def Let_def split: option.splits)
  note fi = find_index_Some [OF i]
  from j fi have jl: "j < length siblings" "i \<noteq> j" by (auto split: if_splits)
  have R: "mset ?R = mset siblings" using fi jl by (intro mset_swap) simp_all
  have dist: "distinct (map qc_id siblings)" unfolding S using list_tidy by (simp add: tidy_def distinct_map_filter)
  note t = list_tidy [of ord categories "[]"] list_tidy [of ord "map ?f categories" "[]"]
  have set: "set ?cats' = ?f ` set ?cats" using list_setOrder [of ord "positions (map qc_id ?R)" categories]
    by (metis list.set_map mset_eq_setD)
  have moved: "moveQuickCommandCategory ord categories k up = map ?f categories"
    using before j fi by (auto simp: moveQuickCommandCategory_def setOrder_def Let_def)
  have target': "map_of (categoryById ?cats') k = Some (?f target)"
    using tidy_lookup_Some [OF t(1) target] set tidy_lookup [OF t(2), of "?f target"] by simp
  have sib: "filter (\<lambda>c. getUsableParentId (categoryById ?cats') c = getUsableParentId (categoryById ?cats) target) ?cats' = map ?f ?R"
    by (rule siblings_reordered [OF cmp _ refl refl]) (use R S in simp)
  have "find_index (\<lambda>c. qc_id c = k) (map ?f ?R) = Some j"
  proof -
    have k: "qc_id (?R ! j) = k" using fi jl by simp
    have "distinct (map qc_id ?R)" using dist R by (metis mset_eq_imp_distinct_iff mset_map)
    then show ?thesis using jl k by (intro find_index_unique) (simp_all add: o_def del: list_update.simps)
  qed
  moreover have "getUsableParentId (categoryById ?cats') (?f target) = getUsableParentId (categoryById ?cats) target"
    by (rule usable_setOrder [OF t set])
  ultimately have "getQuickCommandCategorySiblingOrder ord (map ?f categories) k = (map ?f ?R, Some j)"
    unfolding getQuickCommandCategorySiblingOrder_def Let_def by (simp only: target' option.case sib)
  with fi show ?thesis by (simp add: moved o_def map_update)
qed

definition code_order :: "js_text \<Rightarrow> js_text \<Rightarrow> int" where
  "code_order s t = int (sum_list s) - int (sum_list t)"

lemma code_order_consistent: "consistent code_order"
  by (auto simp: consistent_def code_order_def)

theorem move_swaps_siblings_witness:
  "map_prod (map qc_id) id (getQuickCommandCategorySiblingOrder (code_order, code_order)
      (moveQuickCommandCategory (code_order, code_order) example_categories [99] True) [99]) = ([[99], [97]], Some 0)"
proof -
  have s: "getQuickCommandCategorySiblingOrder (code_order, code_order) example_categories [99]
      = ([example_categories ! 0, example_categories ! 2], Some 1)"
    by (simp add: getQuickCommandCategorySiblingOrder_def buildQuickCommandCategoryList_def addCategory_def
        sortBy_def compareQuickCommandCategories_def code_order_def order_value_def category_eval)
  have ids: "qc_id (example_categories ! 0) = [97]" "qc_id (example_categories ! 2) = [99]" by (simp_all add: example_categories_def)
  from move_swaps_siblings [OF _ _ s, where up = True and j = 0] code_order_consistent ids show ?thesis by simp
qed

end
