(* ===== verification/Asset_Groups.thy ===== *)
theory Asset_Groups
  imports Forest Quick_Commands
begin

text \<open>
  Groups of saved connections (\<open>lib/assetGroups.ts\<close>): the index of groups, the path from the
  root to a group, the groups below one, and the connections listed for it; and the label of a
  group's path as the network panel builds it (\<open>components/network/shared.tsx\<close>), whose loop does
  not watch for cycles and so is a partial function.
\<close>

section \<open>Groups\<close>

record asset_group =
  ag_id :: js_text
  ag_name :: js_text
  ag_parent :: "js_text option"
  ag_sort :: int

record saved_connection =
  sc_id :: js_text
  sc_name :: js_text
  sc_group :: "js_text option"

type_synonym group_index = "(js_text \<times> asset_group) list"

definition buildGroupIndex :: "asset_group list \<Rightarrow> group_index" where
  "buildGroupIndex groups =
     foldl (\<lambda>m g. if ag_id g = [] \<or> map_of m (ag_id g) \<noteq> None then m else m @ [(ag_id g, g)]) [] groups"

definition groupParents :: "group_index \<Rightarrow> nat parents" where
  "groupParents index = map (\<lambda>(k, g). (k, ag_parent g)) index"

definition ASSET_ROOT_SEGMENT :: "js_text option \<times> js_text" where
  "ASSET_ROOT_SEGMENT = (None, js ''assets.root'')"

definition buildGroupPath :: "asset_group list \<Rightarrow> js_text option \<Rightarrow> (js_text option \<times> js_text) list" where
  "buildGroupPath groups selected =
     (if selected = None \<or> selected = Some [] then [ASSET_ROOT_SEGMENT]
      else (let index = buildGroupIndex groups in
        ASSET_ROOT_SEGMENT # rev (map (\<lambda>k. (Some (ag_id (the (map_of index k))), ag_name (the (map_of index k))))
                                (fst (walk (groupParents index) selected [])))))"

definition groupChildren :: "group_index \<Rightarrow> (js_text \<times> js_text list) list" where
  "groupChildren index =
     foldl (\<lambda>m g. case ag_parent g of None \<Rightarrow> m
              | Some p \<Rightarrow> if p = [] \<or> map_of index p = None then m else pushChild p (ag_id g) m) [] (map snd index)"

definition collectDescendantGroupIds :: "asset_group list \<Rightarrow> js_text option \<Rightarrow> js_text list" where
  "collectDescendantGroupIds groups selected =
     (case selected of None \<Rightarrow> []
      | Some k \<Rightarrow>
          if k = [] \<or> map_of (buildGroupIndex groups) k = None then []
          else bfs (groupChildren (buildGroupIndex groups)) [k] [])"

definition getConnectionsForAssetGroup ::
    "saved_connection list \<Rightarrow> asset_group list \<Rightarrow> js_text option \<Rightarrow> saved_connection list" where
  "getConnectionsForAssetGroup connections groups selected =
     (if selected = None \<or> selected = Some [] then connections
      else (let ids = collectDescendantGroupIds groups selected in
        if ids = [] then []
        else filter (\<lambda>c. case sc_group c of None \<Rightarrow> False | Some g \<Rightarrow> g \<noteq> [] \<and> g \<in> set ids) connections))"

definition getGroupPathLabel :: "asset_group list \<Rightarrow> js_text option \<Rightarrow> js_text \<Rightarrow> js_text" where
  "getGroupPathLabel groups selected rootLabel =
     joinWith (js '' / '') (map (\<lambda>(k, name). if k = None then rootLabel else name) (buildGroupPath groups selected))"

definition isUngroupedConnection :: "saved_connection \<Rightarrow> asset_group list \<Rightarrow> bool" where
  "isUngroupedConnection c groups =
     (case sc_group c of None \<Rightarrow> True | Some g \<Rightarrow> g = [] \<or> map_of (buildGroupIndex groups) g = None)"

section \<open>The label in the network panel\<close>

text \<open>\<open>new Map(groups.map((group) => [group.id, group]))\<close>: of groups with the same id the last one counts.\<close>

definition groupsById :: "asset_group list \<Rightarrow> group_index" where
  "groupsById groups = foldl (\<lambda>m g. AList.update (ag_id g) g m) [] groups"

partial_function (option) networkPathLoop :: "group_index \<Rightarrow> js_text \<Rightarrow> js_text list \<Rightarrow> js_text list option" where
  "networkPathLoop byId current parts =
     (if current = [] then Some parts
      else case map_of byId current of None \<Rightarrow> Some parts
        | Some g \<Rightarrow> networkPathLoop byId (case ag_parent g of None \<Rightarrow> [] | Some p \<Rightarrow> p) (ag_name g # parts))"

definition networkGroupPath :: "js_text option \<Rightarrow> group_index \<Rightarrow> js_text option" where
  "networkGroupPath groupId byId =
     (if groupId = None \<or> groupId = Some [] then Some []
      else map_option (joinWith (js '' / '')) (networkPathLoop byId (the groupId) []))"

section \<open>The index\<close>

definition indexed :: "group_index \<Rightarrow> bool" where
  "indexed m \<longleftrightarrow> distinct (map fst m) \<and> (\<forall>(k, g) \<in> set m. k = ag_id g \<and> k \<noteq> [])"

lemma index_snoc:
  "buildGroupIndex (gs @ [g]) =
     (if ag_id g = [] \<or> map_of (buildGroupIndex gs) (ag_id g) \<noteq> None then buildGroupIndex gs
      else buildGroupIndex gs @ [(ag_id g, g)])"
  by (simp add: buildGroupIndex_def)

lemma index_ok: "indexed (buildGroupIndex groups)"
proof (induction groups rule: rev_induct)
  case (snoc g gs)
  then show ?case by (auto simp: index_snoc indexed_def map_of_eq_None_iff)
qed (simp add: buildGroupIndex_def indexed_def)

lemma index_lookup: "map_of (buildGroupIndex groups) k = Some g \<Longrightarrow> ag_id g = k \<and> k \<noteq> []"
  using index_ok [of groups] by (auto simp: indexed_def dest!: map_of_SomeD)

lemma index_mem: "(k, g) \<in> set (buildGroupIndex groups) \<longleftrightarrow> map_of (buildGroupIndex groups) k = Some g"
  using index_ok [of groups] by (simp add: indexed_def map_of_eq_Some_iff)

lemma groupParents_lookup: "map_of (groupParents m) k = map_option ag_parent (map_of m k)"
  by (simp add: groupParents_def map_of_map)

lemma group_child_iff:
  "y \<in> set (children (groupChildren (buildGroupIndex groups)) x) \<longleftrightarrow> above_step (groupParents (buildGroupIndex groups)) y x"
proof -
  let ?m = "buildGroupIndex groups"
  let ?f = "\<lambda>g. case ag_parent g of None \<Rightarrow> None | Some p \<Rightarrow> if p = [] \<or> map_of ?m p = None then None else Some p"
  have "groupChildren ?m = foldl (\<lambda>m g. case ?f g of None \<Rightarrow> m | Some p \<Rightarrow> pushChild p (ag_id g) m) [] (map snd ?m)"
    unfolding groupChildren_def by (intro foldl_cong refl) (auto split: option.split)
  then have "children (groupChildren ?m) x = children [] x @ map ag_id (filter (\<lambda>g. ?f g = Some x) (map snd ?m))"
    by (simp only: children_fold)
  then have "y \<in> set (children (groupChildren ?m) x) \<longleftrightarrow> (\<exists>(k, g) \<in> set ?m. y = ag_id g \<and> ?f g = Some x)"
    by (force simp: children_def)
  also have "\<dots> \<longleftrightarrow> (\<exists>g. map_of ?m y = Some g \<and> ?f g = Some x)"
  proof
    assume "\<exists>(k, g) \<in> set ?m. y = ag_id g \<and> ?f g = Some x"
    then obtain k g where g: "(k, g) \<in> set ?m" "y = ag_id g" "?f g = Some x" by blast
    then have "map_of ?m y = Some g" using index_lookup [of groups k g] by (simp add: index_mem)
    with g show "\<exists>g. map_of ?m y = Some g \<and> ?f g = Some x" by blast
  next
    assume "\<exists>g. map_of ?m y = Some g \<and> ?f g = Some x"
    then obtain g where "map_of ?m y = Some g" "?f g = Some x" by blast
    then show "\<exists>(k, g) \<in> set ?m. y = ag_id g \<and> ?f g = Some x"
      using index_lookup [of groups y g] index_mem [of y g groups] by (intro bexI [of _ "(y, g)"]) auto
  qed
  also have "\<dots> \<longleftrightarrow> above_step (groupParents ?m) y x"
    by (auto simp: above_step_def groupParents_lookup split: option.splits if_splits)
  finally show ?thesis .
qed

section \<open>Listings and paths agree\<close>

lemma path_ids:
  assumes "k \<noteq> []"
  shows "fst ` set (buildGroupPath groups (Some k)) = insert None (Some ` set (fst (walk (groupParents (buildGroupIndex groups)) (Some k) [])))"
proof -
  let ?m = "buildGroupIndex groups"
  have "ag_id (the (map_of ?m j)) = j" if j: "j \<in> set (fst (walk (groupParents ?m) (Some k) []))" for j
  proof -
    have "j \<in> fst ` set (groupParents ?m)" using walk_visited [of "groupParents ?m" "Some k" "[]"] j by blast
    then obtain g where "map_of ?m j = Some g"
      by (metis (no_types, lifting) groupParents_lookup map_of_eq_None_iff not_None_eq option.map_disc_iff)
    with index_lookup show ?thesis by auto
  qed
  then have "(\<lambda>j. Some (ag_id (the (map_of ?m j)))) ` set (fst (walk (groupParents ?m) (Some k) [])) = Some ` set (fst (walk (groupParents ?m) (Some k) []))"
    by (intro image_cong) simp_all
  then show ?thesis using assms by (simp add: buildGroupPath_def ASSET_ROOT_SEGMENT_def Let_def image_image)
qed

text \<open>the connections listed for a group are exactly those whose own breadcrumb leads through that
  group, also when parent pointers form a cycle or lead to unknown groups; and each of the groups
  a listing draws from is visited once.
\<close>

theorem asset_listing_matches_path:
  assumes "k \<noteq> []"
  shows "set (getConnectionsForAssetGroup connections groups (Some k))
      = {c \<in> set connections. \<exists>g. sc_group c = Some g \<and> Some k \<in> fst ` set (buildGroupPath groups (Some g))}
    \<and> distinct (collectDescendantGroupIds groups (Some k))"
proof
  let ?m = "buildGroupIndex groups"
  let ?up = "groupParents ?m"
  let ?ids = "collectDescendantGroupIds groups (Some k)"
  show "distinct ?ids" by (simp add: collectDescendantGroupIds_def bfs_distinct)
  have step: "child_step (groupChildren ?m) = (above_step ?up)\<inverse>\<inverse>"
    by (intro ext) (simp add: child_step_def group_child_iff)
  have ids: "set ?ids = (if map_of ?m k = None then {} else {g. (above_step ?up)\<^sup>*\<^sup>* g k})"
  proof (cases "map_of ?m k")
    case (Some g)
    have "map_of ?m [] = None" using index_lookup [of groups "[]"] by (cases "map_of ?m []") auto
    then have "\<forall>x. [] \<notin> set (children (groupChildren ?m) x)"
      by (auto simp: group_child_iff above_step_def groupParents_lookup)
    from bfs_reaches [OF this assms] Some assms show ?thesis
      by (simp add: collectDescendantGroupIds_def step rtranclp_conversep)
  qed (simp add: collectDescendantGroupIds_def)
  have known: "map_of ?m g \<noteq> None" if "(above_step ?up)\<^sup>*\<^sup>* g k" "map_of ?m k \<noteq> None" for g
    using that by (cases rule: converse_rtranclpE) (auto simp: above_step_def groupParents_lookup)
  have up: "Some k \<in> fst ` set (buildGroupPath groups (Some g)) \<longleftrightarrow> g \<in> set ?ids \<and> g \<noteq> []" for g
  proof (cases "g = [] \<or> map_of ?m g = None")
    case True
    have "Some k \<notin> fst ` set (buildGroupPath groups (Some g))"
    proof (cases "g = []")
      case True
      then show ?thesis by (simp add: buildGroupPath_def ASSET_ROOT_SEGMENT_def)
    next
      case False
      with True show ?thesis by (simp add: path_ids walk_Some groupParents_lookup)
    qed
    moreover have "\<not> (g \<in> set ?ids \<and> g \<noteq> [])" using True known [of g] ids by (cases "map_of ?m k = None") auto
    ultimately show ?thesis by simp
  next
    case False
    then have g: "g \<noteq> []" "map_of ?up g \<noteq> None" by (auto simp: groupParents_lookup)
    have "map_of ?m k \<noteq> None" if "(above_step ?up)\<^sup>*\<^sup>* g k"
      using that False by (cases rule: rtranclp.cases) (auto simp: above_step_def groupParents_lookup)
    with False show ?thesis by (auto simp: path_ids walk_above [OF g] ids)
  qed
  show "set (getConnectionsForAssetGroup connections groups (Some k))
      = {c \<in> set connections. \<exists>g. sc_group c = Some g \<and> Some k \<in> fst ` set (buildGroupPath groups (Some g))}"
    unfolding up using assms by (auto simp: getConnectionsForAssetGroup_def Let_def split: option.splits)
qed

theorem asset_listing_matches_path_witness:
  "map sc_id (getConnectionsForAssetGroup [\<lparr>sc_id = [49], sc_name = [65], sc_group = Some [98]\<rparr>, \<lparr>sc_id = [50], sc_name = [66], sc_group = Some [99]\<rparr>]
     [\<lparr>ag_id = [97], ag_name = [65], ag_parent = Some [98], ag_sort = 0\<rparr>, \<lparr>ag_id = [98], ag_name = [66], ag_parent = Some [97], ag_sort = 0\<rparr>] (Some [97])) = [[49]]
   \<and> Some [97] \<in> fst ` set (buildGroupPath [\<lparr>ag_id = [97], ag_name = [65], ag_parent = Some [98], ag_sort = 0\<rparr>, \<lparr>ag_id = [98], ag_name = [66], ag_parent = Some [97], ag_sort = 0\<rparr>] (Some [98]))"
proof -
  let ?gs = "[\<lparr>ag_id = [97::nat], ag_name = [65], ag_parent = Some [98], ag_sort = 0\<rparr>, \<lparr>ag_id = [98], ag_name = [66], ag_parent = Some [97], ag_sort = 0\<rparr>]"
  let ?cs = "[\<lparr>sc_id = [49::nat], sc_name = [65], sc_group = Some [98]\<rparr>, \<lparr>sc_id = [50], sc_name = [66], sc_group = Some [99]\<rparr>]"
  have e: "getConnectionsForAssetGroup ?cs ?gs (Some [97]) = [hd ?cs]"
    by (simp add: getConnectionsForAssetGroup_def collectDescendantGroupIds_def buildGroupIndex_def groupChildren_def children_def pushChild_def)
  have "hd ?cs \<in> set (getConnectionsForAssetGroup ?cs ?gs (Some [97]))" by (simp add: e)
  then have "\<exists>g. sc_group (hd ?cs) = Some g \<and> Some [97] \<in> fst ` set (buildGroupPath ?gs (Some g))"
    using asset_listing_matches_path [of "[97]" ?cs ?gs] by blast
  with e show ?thesis by simp
qed

section \<open>The network panel's loop\<close>

lemma networkPathLoop_walk:
  "ends (groupParents byId) cur \<Longrightarrow>
   networkPathLoop byId (case cur of None \<Rightarrow> [] | Some k \<Rightarrow> k) parts =
     Some (rev (map (\<lambda>k. ag_name (the (map_of byId k))) (fst (walk (groupParents byId) cur []))) @ parts)"
proof (induction arbitrary: parts rule: ends.induct)
  case (stop cur)
  then show ?case by (cases cur; subst networkPathLoop.simps) (auto simp: walk_Some groupParents_lookup split: option.split)
next
  case (parent k p)
  then obtain g where g: "map_of byId k = Some g" "ag_parent g = p" by (auto simp: groupParents_lookup)
  have "fst (walk (groupParents byId) (Some k) []) = k # fst (walk (groupParents byId) p [])"
    using parent walk_ends by (intro walk_parent_ends) auto
  with parent g show ?case by (subst networkPathLoop.simps) simp
qed

lemma networkPathLoop_ends: "networkPathLoop byId current parts = Some r \<Longrightarrow> ends (groupParents byId) (Some current)"
proof (rule networkPathLoop.raw_induct [where P = "\<lambda>byId current parts r. ends (groupParents byId) (Some current)"])
  fix loop :: "group_index \<Rightarrow> js_text \<Rightarrow> js_text list \<Rightarrow> js_text list option" and byId current parts r
  assume IH: "\<And>byId current parts r. loop byId current parts = Some r \<Longrightarrow> ends (groupParents byId) (Some current)"
    and eq: "(if current = [] then Some parts
      else case map_of byId current of None \<Rightarrow> Some parts
        | Some g \<Rightarrow> loop byId (case ag_parent g of None \<Rightarrow> [] | Some p \<Rightarrow> p) (ag_name g # parts)) = Some r"
  show "ends (groupParents byId) (Some current)"
  proof (cases "current = [] \<or> map_of byId current = None")
    case True
    then show ?thesis by (intro ends.stop) (auto simp: groupParents_lookup)
  next
    case False
    then obtain g where g: "map_of byId current = Some g" "current \<noteq> []" by auto
    with eq have "ends (groupParents byId) (Some (case ag_parent g of None \<Rightarrow> [] | Some p \<Rightarrow> p))" by (auto intro: IH)
    then have "ends (groupParents byId) (ag_parent g)" by (cases "ag_parent g") auto
    with g show ?thesis by (intro ends.parent [of _ _ "ag_parent g"]) (auto simp: groupParents_lookup)
  qed
qed

lemma groupsById_last: "map_of (groupsById groups) = map_of (rev (map (\<lambda>g. (ag_id g, g)) groups))"
proof -
  have "map_of (foldl (\<lambda>m g. AList.update (ag_id g) g m) m0 groups) = map_of m0 ++ map_of (rev (map (\<lambda>g. (ag_id g, g)) groups))" for m0
    by (induction groups arbitrary: m0) (simp_all add: update_conv' map_add_assoc [symmetric])
  from this [of "[]"] show ?thesis by (simp add: groupsById_def)
qed

lemma index_first: "k \<noteq> [] \<Longrightarrow> map_of (buildGroupIndex groups) k = map_of (map (\<lambda>g. (ag_id g, g)) groups) k"
proof (induction groups rule: rev_induct)
  case (snoc g gs)
  then show ?case by (auto simp: index_snoc map_add_def split: option.split)
qed (simp add: buildGroupIndex_def)

lemma index_agrees: "distinct (map ag_id groups) \<Longrightarrow> k \<noteq> [] \<Longrightarrow> map_of (groupsById groups) k = map_of (buildGroupIndex groups) k"
proof -
  assume "distinct (map ag_id groups)" "k \<noteq> []"
  then show ?thesis
    using map_of_inject_set [of "rev (map (\<lambda>g. (ag_id g, g)) groups)" "map (\<lambda>g. (ag_id g, g)) groups"]
    by (simp add: groupsById_last index_first o_def rev_map [symmetric])
qed

lemma walk_agrees: "(\<And>k. k \<noteq> [] \<Longrightarrow> map_of up k = map_of up' k) \<Longrightarrow> walk up cur seen = walk up' cur seen"
proof (induction up cur seen rule: walk.induct)
  case (1 up cur seen)
  show ?case
  proof (cases "\<exists>k p. cur = Some k \<and> k \<noteq> [] \<and> k \<notin> set seen \<and> map_of up k = Some p")
    case True
    then obtain k p where k: "cur = Some k" "k \<noteq> []" "k \<notin> set seen" "map_of up k = Some p" by blast
    with "1.IH" [OF k] "1.prems" have "walk up p (k # seen) = walk up' p (k # seen)" by blast
    with k "1.prems" [OF k(2)] show ?thesis by (simp add: walk_Some)
  next
    case False
    with "1.prems" show ?thesis by (cases cur) (auto simp: walk_Some split: option.split)
  qed
qed

lemma network_path:
  "networkGroupPath (Some k) m =
     (if snd (walk (groupParents m) (Some k) []) then None
      else Some (joinWith (js '' / '') (rev (map (\<lambda>j. ag_name (the (map_of m j))) (fst (walk (groupParents m) (Some k) []))))))"
proof (cases "k = []")
  case True
  then show ?thesis by (simp add: networkGroupPath_def walk_Some)
next
  case False
  show ?thesis
  proof (cases "snd (walk (groupParents m) (Some k) [])")
    case True
    then have "\<not> ends (groupParents m) (Some k)" by (simp flip: walk_ends)
    then have "networkPathLoop m k [] = None" using networkPathLoop_ends by (meson not_None_eq)
    with True False show ?thesis by (simp add: networkGroupPath_def)
  next
    case ok: False
    then have "ends (groupParents m) (Some k)" by (simp flip: walk_ends)
    from networkPathLoop_walk [OF this, of "[]"] ok False show ?thesis by (simp add: networkGroupPath_def)
  qed
qed

text \<open>C24: the network panel's label of a group's path is computed by a loop without a check for
  cycles, on a map in which of several groups with one id the last counts. It returns exactly when
  following the parents of the group does not run into a cycle, and then it gives the names met, the
  topmost first; on a cycle it never returns. When no two groups have the same id, the label is the
  breadcrumb of the asset view without the root, which handles cycles.\<close>

theorem network_path_returns_iff:
  assumes "m = groupsById groups"
  shows "map_of m = map_of (rev (map (\<lambda>g. (ag_id g, g)) groups))
    \<and> networkGroupPath (Some k) m =
        (if snd (walk (groupParents m) (Some k) []) then None
         else Some (joinWith (js '' / '') (rev (map (\<lambda>j. ag_name (the (map_of m j))) (fst (walk (groupParents m) (Some k) []))))))
    \<and> (distinct (map ag_id groups) \<longrightarrow>
         networkGroupPath (Some k) m =
           (if snd (walk (groupParents (buildGroupIndex groups)) (Some k) []) then None
            else Some (joinWith (js '' / '') (map snd (tl (buildGroupPath groups (Some k)))))))"
proof (intro conjI impI)
  show "map_of m = map_of (rev (map (\<lambda>g. (ag_id g, g)) groups))" by (simp add: assms groupsById_last)
  show eq: "networkGroupPath (Some k) m =
        (if snd (walk (groupParents m) (Some k) []) then None
         else Some (joinWith (js '' / '') (rev (map (\<lambda>j. ag_name (the (map_of m j))) (fst (walk (groupParents m) (Some k) []))))))"
    by (rule network_path)
  assume d: "distinct (map ag_id groups)"
  let ?i = "buildGroupIndex groups"
  have w: "walk (groupParents m) (Some k) [] = walk (groupParents ?i) (Some k) []"
    by (rule walk_agrees) (simp add: groupParents_lookup assms index_agrees [OF d])
  have "map_of m j = map_of ?i j" if "j \<in> set (fst (walk (groupParents ?i) (Some k) []))" for j
    using that walk_visited [of "groupParents ?i" "Some k" "[]"] index_agrees [OF d, of j] by (auto simp: assms)
  then show "networkGroupPath (Some k) m =
           (if snd (walk (groupParents ?i) (Some k) []) then None
            else Some (joinWith (js '' / '') (map snd (tl (buildGroupPath groups (Some k))))))"
    unfolding eq w by (auto simp: buildGroupPath_def Let_def rev_map o_def walk_Some intro!: arg_cong [where f = "joinWith (js '' / '')"])
qed

definition cyclic_groups :: "asset_group list" where
  "cyclic_groups = [\<lparr>ag_id = js ''a'', ag_name = js ''A'', ag_parent = Some (js ''b''), ag_sort = 0\<rparr>,
     \<lparr>ag_id = js ''b'', ag_name = js ''B'', ag_parent = Some (js ''a''), ag_sort = 0\<rparr>,
     \<lparr>ag_id = js ''c'', ag_name = js ''C'', ag_parent = None, ag_sort = 0\<rparr>]"

theorem network_path_returns_iff_witness:
  "networkGroupPath (Some (js ''c'')) (groupsById cyclic_groups) = Some (js ''C'')
   \<and> networkGroupPath (Some (js ''a'')) (groupsById cyclic_groups) = None"
proof -
  note exact = network_path_returns_iff [of _ cyclic_groups, OF refl, THEN conjunct2, THEN conjunct1]
  have m: "groupsById cyclic_groups = [(js ''a'', cyclic_groups ! 0), (js ''b'', cyclic_groups ! 1), (js ''c'', cyclic_groups ! 2)]"
    by (simp add: groupsById_def cyclic_groups_def js_def)
  have n: "cyclic_groups ! 0 = \<lparr>ag_id = [97], ag_name = [65], ag_parent = Some [98], ag_sort = 0\<rparr>"
    "cyclic_groups ! 1 = \<lparr>ag_id = [98], ag_name = [66], ag_parent = Some [97], ag_sort = 0\<rparr>"
    "cyclic_groups ! 2 = \<lparr>ag_id = [99], ag_name = [67], ag_parent = None, ag_sort = 0\<rparr>"
    by (simp_all add: cyclic_groups_def js_def)
  show ?thesis unfolding exact unfolding m n by (simp add: walk_Some groupParents_def js_def)
qed

end
