(* ===== verification/Notes_Tree.thy ===== *)
theory Notes_Tree
  imports Forest Terminal_Command
begin

text \<open>
  The tree of notes (\<open>components/panel/notes/noteTreeUtils.ts\<close>), the handling of change events
  (\<open>hooks/useNotesTree.ts\<close>), and the guard on moving a node (\<open>moveToParent\<close> of
  \<open>components/panel/notes/NotesPanel.tsx\<close>).

  The nodes are a \<open>Map\<close> keyed by id, in which a note replaces a folder with the same id. Child
  nodes, which the code links by pushing them to their parent's array, are read off child lists to
  a depth of the number of nodes; nodes under a cycle of parents hang below no root.
  \<open>localeCompare\<close> and \<open>toLowerCase\<close> are parameters.
\<close>

section \<open>Data\<close>

datatype note_kind = KFolder | KNote

record note_folder =
  nf_id :: js_text
  nf_parent :: "js_text option"
  nf_name :: js_text
  nf_sort :: int
  nf_created :: int
  nf_updated :: int

record note_summary =
  ns_id :: js_text
  ns_parent :: "js_text option"
  ns_title :: js_text
  ns_sort :: int
  ns_revision :: int
  ns_created :: int
  ns_updated :: int

record note_data =
  nt_id :: js_text
  nt_kind :: note_kind
  nt_parent :: "js_text option"
  nt_name :: js_text
  nt_sort :: int
  nt_revision :: "int option"
  nt_updated :: int

datatype note_node = NNode note_data "note_node list"

primrec nn_data :: "note_node \<Rightarrow> note_data" where
  "nn_data (NNode d ts) = d"

primrec nn_children :: "note_node \<Rightarrow> note_node list" where
  "nn_children (NNode d ts) = ts"

type_synonym note_map = "(js_text \<times> note_data) list"

section \<open>Building the tree\<close>

definition folderData :: "note_folder \<Rightarrow> note_data" where
  "folderData f = \<lparr>nt_id = nf_id f, nt_kind = KFolder, nt_parent = nf_parent f, nt_name = nf_name f,
     nt_sort = nf_sort f, nt_revision = None, nt_updated = nf_updated f\<rparr>"

definition noteData :: "note_summary \<Rightarrow> note_data" where
  "noteData n = \<lparr>nt_id = ns_id n, nt_kind = KNote, nt_parent = ns_parent n, nt_name = ns_title n,
     nt_sort = ns_sort n, nt_revision = Some (ns_revision n), nt_updated = ns_updated n\<rparr>"

definition noteMap :: "note_folder list \<Rightarrow> note_summary list \<Rightarrow> note_map" where
  "noteMap folders notes = foldl (\<lambda>m d. AList.update (nt_id d) d m) [] (map folderData folders @ map noteData notes)"

definition compareNoteNodes :: "(js_text \<Rightarrow> js_text \<Rightarrow> int) \<times> (js_text \<Rightarrow> js_text \<Rightarrow> int) \<Rightarrow> note_node \<Rightarrow> note_node \<Rightarrow> int" where
  "compareNoteNodes ord left right =
     (let l = nn_data left; r = nn_data right in
      if nt_sort l \<noteq> nt_sort r then nt_sort l - nt_sort r
      else if nt_kind l \<noteq> nt_kind r then (if nt_kind l = KFolder then - 1 else 1)
      else if fst ord (nt_name l) (nt_name r) \<noteq> 0 then fst ord (nt_name l) (nt_name r)
      else snd ord (nt_id l) (nt_id r))"

text \<open>\<open>node.parentId && nodes.has(node.parentId)\<close>.\<close>

definition knownParent :: "note_map \<Rightarrow> note_data \<Rightarrow> js_text option" where
  "knownParent m d = (case nt_parent d of None \<Rightarrow> None | Some p \<Rightarrow> if p \<noteq> [] \<and> map_of m p \<noteq> None then Some p else None)"

definition noteChildren :: "note_map \<Rightarrow> (js_text \<times> js_text list) list" where
  "noteChildren m = foldl (\<lambda>c d. case knownParent m d of None \<Rightarrow> c | Some p \<Rightarrow> pushChild p (nt_id d) c) [] (map snd m)"

primrec linkNote :: "note_map \<Rightarrow> js_text tree_of \<Rightarrow> note_node" where
  "linkNote m (TreeOf k ts) = NNode (the (map_of m k)) (map (linkNote m) ts)"

primrec sortNodes :: "(js_text \<Rightarrow> js_text \<Rightarrow> int) \<times> (js_text \<Rightarrow> js_text \<Rightarrow> int) \<Rightarrow> note_node \<Rightarrow> note_node" where
  "sortNodes ord (NNode d ts) = NNode d (sortBy (compareNoteNodes ord) (map (sortNodes ord) ts))"

definition buildNoteTree ::
    "(js_text \<Rightarrow> js_text \<Rightarrow> int) \<times> (js_text \<Rightarrow> js_text \<Rightarrow> int) \<Rightarrow> note_folder list \<Rightarrow> note_summary list \<Rightarrow> note_node list" where
  "buildNoteTree ord folders notes =
     (let m = noteMap folders notes; below = children (noteChildren m);
          roots = filter (\<lambda>d. knownParent m d = None) (map snd m)
      in sortBy (compareNoteNodes ord)
           (map (\<lambda>d. sortNodes ord (linkNote m (grow (length m) below (nt_id d)))) roots))"

section \<open>Reading the tree\<close>

primrec visitFilter :: "(js_text \<Rightarrow> js_text) \<Rightarrow> js_text \<Rightarrow> note_node \<Rightarrow> note_node option" where
  "visitFilter lower normalized (NNode d ts) =
     (let cs = List.map_filter id (map (visitFilter lower normalized) ts)
      in if has_text (lower (nt_name d)) normalized \<or> cs \<noteq> [] then Some (NNode d cs) else None)"

definition filterNoteTree :: "(js_text \<Rightarrow> js_text) \<Rightarrow> note_node list \<Rightarrow> js_text \<Rightarrow> note_node list" where
  "filterNoteTree lower nodes keyword =
     (if keyword = [] then nodes else List.map_filter (visitFilter lower (lower keyword)) nodes)"

fun visitExpanded :: "js_text list \<Rightarrow> nat \<Rightarrow> note_node \<Rightarrow> (note_node \<times> nat) list" where
  "visitExpanded expanded depth (NNode d ts) =
     (NNode d ts, depth) #
     (if nt_kind d = KFolder \<and> nt_id d \<in> set expanded then concat (map (visitExpanded expanded (depth + 1)) ts) else [])"

definition flattenVisibleNoteTree :: "note_node list \<Rightarrow> js_text list \<Rightarrow> (note_node \<times> nat) list" where
  "flattenVisibleNoteTree nodes expanded = concat (map (visitExpanded expanded 0) nodes)"

fun visitFolders :: "nat \<Rightarrow> note_node \<Rightarrow> (note_node \<times> nat) list" where
  "visitFolders depth (NNode d ts) =
     (if nt_kind d \<noteq> KFolder then [] else (NNode d ts, depth) # concat (map (visitFolders (depth + 1)) ts))"

definition flattenNoteFolders :: "note_node list \<Rightarrow> (note_node \<times> nat) list" where
  "flattenNoteFolders nodes = concat (map (visitFolders 0) nodes)"

fun findNoteNode :: "note_node list \<Rightarrow> js_text option \<Rightarrow> note_node option" where
  "findNoteNode [] i = None"
| "findNoteNode (NNode d ts # nodes) i =
     (case i of None \<Rightarrow> None
      | Some k \<Rightarrow>
          if k = [] then None
          else if nt_id d = k then Some (NNode d ts)
          else (case findNoteNode ts i of Some t \<Rightarrow> Some t | None \<Rightarrow> findNoteNode nodes i))"

definition isDescendantFolder :: "note_node list \<Rightarrow> js_text \<Rightarrow> js_text \<Rightarrow> bool" where
  "isDescendantFolder nodes sourceId targetId =
     (case findNoteNode nodes (Some sourceId) of None \<Rightarrow> False
      | Some source \<Rightarrow> nt_kind (nn_data source) = KFolder \<and> findNoteNode (nn_children source) (Some targetId) \<noteq> None)"

definition moveAllowed :: "note_node list \<Rightarrow> note_data \<Rightarrow> js_text option \<Rightarrow> bool" where
  "moveAllowed nodes node parentId \<longleftrightarrow>
     \<not> (nt_kind node = KFolder \<and> parentId \<noteq> None \<and> parentId \<noteq> Some []
        \<and> (parentId = Some (nt_id node) \<or> isDescendantFolder nodes (nt_id node) (the parentId)))"

section \<open>Names\<close>

text \<open>\<open>Array.from(name).length\<close> counts a surrogate pair once.\<close>

fun codePoints :: "js_text \<Rightarrow> nat" where
  "codePoints [] = 0"
| "codePoints [c] = 1"
| "codePoints (c # d # t) = (if is_high c \<and> is_low d then 1 + codePoints t else 1 + codePoints (d # t))"

datatype name_error = NameEmpty | NameTooLong | NameSlash | NameControl | NameDuplicate

definition validateNoteInputName :: "(js_text \<Rightarrow> js_text) \<Rightarrow> js_text \<Rightarrow> js_text list \<Rightarrow> name_error option" where
  "validateNoteInputName lower value siblings =
     (let name = trim value in
      if name = [] then Some NameEmpty
      else if codePoints name > 120 then Some NameTooLong
      else if 92 \<in> set name \<or> 47 \<in> set name then Some NameSlash
      else if list_ex (\<lambda>c. c \<le> 0x1f \<or> c = 0x7f) name then Some NameControl
      else if list_ex (\<lambda>item. lower item = lower name) siblings then Some NameDuplicate
      else None)"

definition collectSiblingNames ::
    "note_folder list \<Rightarrow> note_summary list \<Rightarrow> js_text option \<Rightarrow> (js_text \<times> note_kind) option \<Rightarrow> js_text list" where
  "collectSiblingNames folders notes parentId exclude =
     map nf_name (filter (\<lambda>f. nf_parent f = parentId \<and> exclude \<noteq> Some (nf_id f, KFolder)) folders)
     @ map ns_title (filter (\<lambda>n. ns_parent n = parentId \<and> exclude \<noteq> Some (ns_id n, KNote)) notes)"

section \<open>Events\<close>

text \<open>Records of an event are fresh objects, so every incoming folder counts as changed.\<close>

definition upsertFolders :: "note_folder list \<Rightarrow> note_folder list \<Rightarrow> note_folder list" where
  "upsertFolders current incoming =
     (if incoming = [] then current
      else map snd (foldl (\<lambda>m f. AList.update (nf_id f) f m) [] (current @ incoming)))"

definition noteChanged :: "note_summary option \<Rightarrow> note_summary \<Rightarrow> bool" where
  "noteChanged prev n =
     (case prev of None \<Rightarrow> True
      | Some p \<Rightarrow> ns_parent p \<noteq> ns_parent n \<or> ns_title p \<noteq> ns_title n \<or> ns_sort p \<noteq> ns_sort n
          \<or> ns_revision p \<noteq> ns_revision n \<or> ns_updated p \<noteq> ns_updated n)"

definition upsertNotes :: "note_summary list \<Rightarrow> note_summary list \<Rightarrow> note_summary list" where
  "upsertNotes current incoming =
     (if incoming = [] then current
      else (let byId = foldl (\<lambda>m n. AList.update (ns_id n) n m) [] current;
                (m, changed) = foldl (\<lambda>(m, changed) n.
                    if noteChanged (map_of m (ns_id n)) n then (AList.update (ns_id n) n m, True) else (m, changed))
                  (byId, False) incoming
            in if changed then map snd m else current))"

datatype notes_event_kind = NotesCreated | NotesUpdated | NotesRenamed | NotesMoved | NotesDeleted | NotesReplaced

record notes_event =
  ne_kind :: notes_event_kind
  ne_ids :: "js_text list"
  ne_folders :: "note_folder list"
  ne_notes :: "note_summary list"
  ne_treeChanged :: "bool option"

text \<open>The folders and notes after an event, and whether the whole tree is to be loaded again.\<close>

definition onNotesChanged ::
    "notes_event \<Rightarrow> note_folder list \<times> note_summary list \<Rightarrow> (note_folder list \<times> note_summary list) \<times> bool" where
  "onNotesChanged e st =
     (case st of (folders, notes) \<Rightarrow>
        if ne_kind e = NotesReplaced then (st, True)
        else if ne_kind e = NotesDeleted then
          ((filter (\<lambda>f. nf_id f \<notin> set (ne_ids e)) folders, filter (\<lambda>n. ns_id n \<notin> set (ne_ids e)) notes), False)
        else if ne_kind e = NotesUpdated \<and> ne_treeChanged e = Some False then (st, False)
        else ((upsertFolders folders (ne_folders e), upsertNotes notes (ne_notes e)), ne_folders e = [] \<and> ne_notes e = []))"

section \<open>The map of nodes\<close>

definition keyed :: "note_map \<Rightarrow> bool" where
  "keyed m \<longleftrightarrow> distinct (map fst m) \<and> (\<forall>(k, d) \<in> set m. k = nt_id d)"

lemma in_set_updateD: "x \<in> set (AList.update k v m) \<Longrightarrow> x = (k, v) \<or> x \<in> set m"
  by (induction m) (auto split: if_splits)

lemma noteMap_keyed: "keyed (noteMap folders notes)"
proof -
  have "keyed m \<Longrightarrow> keyed (foldl (\<lambda>m d. AList.update (nt_id d) d m) m ds)" for m ds
  proof (induction ds arbitrary: m)
    case (Cons d ds)
    have "keyed (AList.update (nt_id d) d m)"
      using Cons.prems by (auto simp: keyed_def distinct_update dest: in_set_updateD)
    with Cons.IH show ?case by simp
  qed simp
  moreover have "keyed []" by (simp add: keyed_def)
  ultimately show ?thesis unfolding noteMap_def by blast
qed

lemma keyed_mem: "keyed m \<Longrightarrow> (k, d) \<in> set m \<longleftrightarrow> map_of m k = Some d"
  by (simp add: keyed_def map_of_eq_Some_iff)

lemma keyed_id: "keyed m \<Longrightarrow> map_of m k = Some d \<Longrightarrow> nt_id d = k"
  by (auto simp: keyed_def dest!: map_of_SomeD)

lemma keyed_keys: "keyed m \<Longrightarrow> map (nt_id \<circ> snd) m = map fst m"
  by (auto simp: keyed_def)

definition noteParents :: "note_map \<Rightarrow> nat parents" where
  "noteParents m = map (\<lambda>(k, d). (k, nt_parent d)) m"

lemma noteParents_lookup: "map_of (noteParents m) k = map_option nt_parent (map_of m k)"
  by (simp add: noteParents_def map_of_map)

definition noteParent :: "note_map \<Rightarrow> js_text \<Rightarrow> js_text option" where
  "noteParent m k = Option.bind (map_of m k) (knownParent m)"

lemma noteParent_above: "noteParent m k = Some p \<longleftrightarrow> above_step (noteParents m) k p"
  by (auto simp: noteParent_def knownParent_def above_step_def noteParents_lookup bind_eq_Some_conv split: option.splits if_splits)

text \<open>The ids whose parents lead to a root.\<close>

definition rooted :: "note_map \<Rightarrow> js_text list" where
  "rooted m = filter (\<lambda>k. k \<noteq> [] \<and> \<not> snd (walk (noteParents m) (Some k) [])) (map fst m)"

definition noteDepth :: "note_map \<Rightarrow> js_text \<Rightarrow> nat" where
  "noteDepth m k = length (fst (walk (noteParents m) (Some k) [])) - 1"

lemma rooted_parent:
  assumes p: "noteParent m k = Some p" and k: "k \<noteq> []"
  shows "k \<in> set (rooted m) \<longleftrightarrow> k \<in> fst ` set m \<and> p \<in> set (rooted m)"
    and "k \<in> set (rooted m) \<Longrightarrow> noteDepth m p < noteDepth m k"
proof -
  have a: "map_of (noteParents m) k = Some (Some p)" "p \<noteq> []" "map_of (noteParents m) p \<noteq> None"
    using p by (simp_all add: noteParent_above above_step_def)
  then have pm: "p \<in> fst ` set m" by (simp add: noteParents_lookup map_of_eq_None_iff)
  have goes: "ends (noteParents m) (Some p)" if "ends (noteParents m) (Some k)"
    using that a k by (auto simp: ends_Some noteParents_lookup)
  have comes: "ends (noteParents m) (Some k)" if "ends (noteParents m) (Some p)"
    using that a k by (intro ends.parent)
  from goes comes pm a(2) k show "k \<in> set (rooted m) \<longleftrightarrow> k \<in> fst ` set m \<and> p \<in> set (rooted m)"
    by (auto simp: rooted_def walk_ends)
  assume "k \<in> set (rooted m)"
  then have "\<not> snd (walk (noteParents m) (Some p) [])" using goes by (simp add: rooted_def walk_ends)
  from walk_parent_ends [OF this a(1) k] a
  show "noteDepth m p < noteDepth m k" by (auto simp: noteDepth_def walk_Some)
qed

interpretation nforest: usable_forest "noteParent (noteMap folders ns)" "rooted (noteMap folders ns)"
  "noteDepth (noteMap folders ns)" for folders ns
proof (unfold_locales, goal_cases)
  case 1
  show ?case using noteMap_keyed [of folders ns] by (simp add: rooted_def keyed_def)
next
  case (2 x p)
  then have "x \<noteq> []" by (auto simp: rooted_def)
  with 2 rooted_parent(1) show ?case by blast
next
  case (3 x p)
  then have "x \<noteq> []" by (auto simp: rooted_def)
  with 3 rooted_parent(2) show ?case by blast
qed

section \<open>The tree shows every node above a root once\<close>

primrec notes_of :: "note_node \<Rightarrow> note_node list" where
  "notes_of (NNode d ts) = NNode d ts # concat (map notes_of ts)"

definition tree_notes :: "note_node list \<Rightarrow> note_node list" where
  "tree_notes ts = concat (map notes_of ts)"

definition note_id :: "note_node \<Rightarrow> js_text" where
  "note_id t = nt_id (nn_data t)"

lemma note_id_NNode [simp]: "note_id (NNode d ts) = nt_id d"
  by (simp add: note_id_def)

lemma sortNodes_data [simp]: "nn_data (sortNodes ord t) = nn_data t"
  by (cases t) simp

lemma sortNodes_id [simp]: "note_id (sortNodes ord t) = note_id t"
  by (simp add: note_id_def)

lemma concat_sortBy: "mset (concat (map f (sortBy cmp xs))) = mset (concat (map f xs))"
proof -
  have "mset (concat (map f xs)) = sum_mset (image_mset (mset \<circ> f) (mset xs))" for xs
    by (induction xs) simp_all
  then show ?thesis by (simp add: sortBy_mset)
qed

lemma sortNodes_notes: "mset (map nn_data (notes_of (sortNodes ord t))) = mset (map nn_data (notes_of t))"
proof (induction t)
  case (NNode d ts)
  have "mset (map nn_data (concat (map notes_of (sortBy (compareNoteNodes ord) (map (sortNodes ord) ts)))))
      = mset (concat (map (\<lambda>t. map nn_data (notes_of t)) (map (sortNodes ord) ts)))"
    unfolding map_concat by (simp add: concat_sortBy [unfolded o_def] o_def)
  also have "\<dots> = mset (concat (map (\<lambda>t. map nn_data (notes_of t)) ts))"
    using NNode by (induction ts) simp_all
  finally show ?case by (simp add: map_concat o_def)
qed

definition linked_note :: "note_map \<Rightarrow> note_node \<Rightarrow> bool" where
  "linked_note m t \<longleftrightarrow> note_id ` set (nn_children t) = {k \<in> fst ` set m. noteParent m k = Some (note_id t)}"

lemma sortNodes_children: "note_id ` set (nn_children (sortNodes ord t)) = note_id ` set (nn_children t)"
  by (cases t) (simp add: image_image)

lemma sortNodes_linked:
  "\<forall>x \<in> set (notes_of t). linked_note m x \<Longrightarrow> \<forall>x \<in> set (notes_of (sortNodes ord t)). linked_note m x"
proof (induction t)
  case (NNode d ts)
  have "linked_note m (sortNodes ord (NNode d ts))"
    using NNode.prems sortNodes_children [of ord "NNode d ts"] by (simp add: linked_note_def del: sortNodes.simps)
  with NNode show ?case by fastforce
qed

lemma noteChildren_eq:
  assumes "keyed m"
  shows "children (noteChildren m) k = filter (\<lambda>j. noteParent m j = Some k) (map fst m)"
proof -
  have f: "knownParent m (snd e) = Some k \<longleftrightarrow> noteParent m (fst e) = Some k" if "e \<in> set m" for e
    using that keyed_mem [OF assms, of "fst e" "snd e"] by (simp add: noteParent_def)
  have "children (noteChildren m) k = map nt_id (filter (\<lambda>d. knownParent m d = Some k) (map snd m))"
    by (simp add: noteChildren_def children_fold) (simp add: children_def)
  also have "\<dots> = map (nt_id \<circ> snd) (filter (\<lambda>e. knownParent m (snd e) = Some k) m)" by (simp add: filter_map o_def)
  also have "\<dots> = map fst (filter (\<lambda>e. noteParent m (fst e) = Some k) m)"
    using assms f by (auto simp: keyed_def intro!: map_cong filter_cong)
  finally show ?thesis by (simp add: filter_map o_def)
qed

lemma rooted_below:
  assumes "[] \<notin> fst ` set m" "x \<in> set (rooted m)"
  shows "filter (\<lambda>j. noteParent m j = Some x) (map fst m) = filter (\<lambda>j. noteParent m j = Some x) (rooted m)"
  unfolding rooted_def filter_filter
proof (rule filter_cong [OF refl])
  fix j assume j: "j \<in> set (map fst m)"
  then have "j \<noteq> []" using assms(1) by force
  with j assms(2) rooted_parent(1) [of m j x]
  have "noteParent m j = Some x \<Longrightarrow> j \<in> set (rooted m)" by auto
  then show "(noteParent m j = Some x) = ((j \<noteq> [] \<and> \<not> snd (walk (noteParents m) (Some j) [])) \<and> noteParent m j = Some x)"
    by (auto simp: rooted_def)
qed

lemma grow_cong:
  "x \<in> A \<Longrightarrow> (\<And>y. y \<in> A \<Longrightarrow> below y = below' y \<and> set (below y) \<subseteq> A) \<Longrightarrow> grow n below x = grow n below' x"
proof (induction n arbitrary: x)
  case (Suc n)
  have "grow n below y = grow n below' y" if "y \<in> set (below x)" for y
  proof (rule Suc.IH)
    show "y \<in> A" using that Suc.prems(2) [OF Suc.prems(1)] by blast
  qed (rule Suc.prems(2))
  with Suc.prems(2) [OF Suc.prems(1)] show ?case by simp
qed simp

lemma linked_cong:
  "linked_tree below t \<Longrightarrow> \<forall>x \<in> set (flat t). below x = below' x \<Longrightarrow> linked_tree below' t"
  by (induction t) (auto simp: list_all_iff)

lemma link_ids:
  "keyed m \<Longrightarrow> set (flat t) \<subseteq> fst ` set m \<Longrightarrow>
   map nn_data (notes_of (linkNote m t)) = map (\<lambda>k. the (map_of m k)) (flat t)"
proof (induction t)
  case (TreeOf k ts)
  have "map nn_data (notes_of (linkNote m t)) = map (\<lambda>k. the (map_of m k)) (flat t)" if "t \<in> set ts" for t
    using TreeOf that by fastforce
  then show ?case by (simp add: map_concat o_def cong: map_cong)
qed

lemma keyed_the: "keyed m \<Longrightarrow> k \<in> fst ` set m \<Longrightarrow> nt_id (the (map_of m k)) = k"
  using keyed_id by (force simp: keyed_mem)

lemma link_linked:
  "keyed m \<Longrightarrow> set (flat t) \<subseteq> fst ` set m \<Longrightarrow> linked_tree (\<lambda>k. filter (\<lambda>j. noteParent m j = Some k) (map fst m)) t \<Longrightarrow>
   \<forall>x \<in> set (notes_of (linkNote m t)). linked_note m x"
proof (induction t)
  case (TreeOf k ts)
  have IH: "\<forall>x \<in> set (notes_of (linkNote m t)). linked_note m x" if "t \<in> set ts" for t
    using TreeOf that by (fastforce simp: list_all_iff)
  have "note_id (linkNote m t) = tree_root t" if t: "t \<in> set ts" for t
  proof -
    have "tree_root t \<in> set (flat t)" by (cases t) simp
    then have "tree_root t \<in> fst ` set m" using TreeOf.prems(2) t by fastforce
    with TreeOf.prems(1) show ?thesis by (cases t) (simp add: keyed_the)
  qed
  then have "note_id ` set (map (linkNote m) ts) = set (map tree_root ts)" by (force simp: image_image)
  also have "\<dots> = {j \<in> fst ` set m. noteParent m j = Some k}" using TreeOf.prems(3) by simp
  finally have "linked_note m (linkNote m (TreeOf k ts))"
    using TreeOf.prems(1,2) by (simp add: linked_note_def keyed_the)
  with IH show ?case by auto
qed

definition note_roots :: "note_map \<Rightarrow> js_text list" where
  "note_roots m = map nt_id (filter (\<lambda>d. knownParent m d = None) (map snd m))"

lemma note_roots_eq:
  assumes "keyed m" "[] \<notin> fst ` set m"
  shows "note_roots m = filter (\<lambda>k. noteParent m k = None) (rooted m)"
proof -
  have f: "knownParent m (snd e) = None \<longleftrightarrow> noteParent m (fst e) = None" if "e \<in> set m" for e
    using that keyed_mem [OF assms(1), of "fst e" "snd e"] by (simp add: noteParent_def)
  have root: "fst e \<noteq> [] \<and> \<not> snd (walk (noteParents m) (Some (fst e)) [])" if "e \<in> set m" "noteParent m (fst e) = None" for e
  proof -
    have e: "map_of m (fst e) = Some (snd e)" using that(1) keyed_mem [OF assms(1), of "fst e" "snd e"] by simp
    have "ends (noteParents m) (nt_parent (snd e))"
      using that(2) e by (intro ends.stop) (auto simp: noteParent_def knownParent_def noteParents_lookup split: option.splits if_splits)
    moreover have ne: "fst e \<noteq> []" using assms(2) that(1) by (metis image_eqI)
    ultimately have "ends (noteParents m) (Some (fst e))" using e by (intro ends.parent) (auto simp: noteParents_lookup)
    with ne show ?thesis by (simp add: walk_ends)
  qed
  have "note_roots m = map (nt_id \<circ> snd) (filter (\<lambda>e. knownParent m (snd e) = None) m)"
    by (simp add: note_roots_def filter_map o_def)
  also have "\<dots> = map fst (filter (\<lambda>e. noteParent m (fst e) = None) m)"
    using assms f by (auto simp: keyed_def intro!: map_cong filter_cong)
  also have "filter (\<lambda>e. noteParent m (fst e) = None) m
      = filter (\<lambda>e. (fst e \<noteq> [] \<and> \<not> snd (walk (noteParents m) (Some (fst e)) [])) \<and> noteParent m (fst e) = None) m"
    using root by (intro filter_cong) auto
  finally show ?thesis by (simp add: rooted_def filter_map o_def conj_commute)
qed

lemma noteDepth_bound: "noteDepth m k \<le> length m" "m \<noteq> [] \<Longrightarrow> noteDepth m k < length m"
  using walk_length [of "noteParents m" "Some k" "[]"] by (cases m; auto simp: noteDepth_def noteParents_def)+

definition build_nodes where
  "build_nodes m = map (\<lambda>k. linkNote m (grow (length m) (children (noteChildren m)) k)) (note_roots m)"

lemma build_eq: "buildNoteTree ord folders ns = sortBy (compareNoteNodes ord) (map (sortNodes ord) (build_nodes (noteMap folders ns)))"
  by (simp add: buildNoteTree_def build_nodes_def note_roots_def Let_def o_def)

lemma build_nodes_facts:
  fixes folders ns
  defines "m \<equiv> noteMap folders ns"
  assumes ne: "[] \<notin> fst ` set m"
  shows "map nt_id (map nn_data (tree_notes (build_nodes m))) = concat (map (\<lambda>k. flat (grow (length m) (\<lambda>k. filter (\<lambda>j. noteParent m j = Some k) (rooted m)) k)) (filter (\<lambda>k. noteParent m k = None) (rooted m)))"
    and "\<forall>d \<in> set (map nn_data (tree_notes (build_nodes m))). map_of m (nt_id d) = Some d"
    and "\<forall>x \<in> set (tree_notes (build_nodes m)). linked_note m x"
proof -
  let ?below = "\<lambda>k. filter (\<lambda>j. noteParent m j = Some k) (rooted m)"
  let ?roots = "filter (\<lambda>k. noteParent m k = None) (rooted m)"
  have k: "keyed m" by (simp add: m_def noteMap_keyed)
  have kids: "children (noteChildren m) = (\<lambda>k. filter (\<lambda>j. noteParent m j = Some k) (map fst m))"
    using noteChildren_eq [OF k] by (rule ext)
  have T: "grow (length m) (children (noteChildren m)) r = grow (length m) ?below r" if "r \<in> set ?roots" for r
    unfolding kids using that rooted_below [OF ne]
    by (intro grow_cong [of _ "set (rooted m)"]) auto
  have sub: "set (flat (grow (length m) ?below r)) \<subseteq> fst ` set m" if "r \<in> set ?roots" for r
    using nforest.grow_set [of r folders ns "length m"] that by (auto simp: m_def rooted_def)
  have roots: "note_roots m = ?roots" by (rule note_roots_eq [OF k ne])
  have data: "map nn_data (notes_of (linkNote m (grow (length m) (children (noteChildren m)) r)))
      = map (\<lambda>k. the (map_of m k)) (flat (grow (length m) ?below r))" if "r \<in> set ?roots" for r
    using link_ids [OF k sub [OF that]] T [OF that] by simp
  have all: "map nn_data (tree_notes (build_nodes m)) = map (\<lambda>k. the (map_of m k)) (concat (map (\<lambda>r. flat (grow (length m) ?below r)) ?roots))"
    unfolding tree_notes_def build_nodes_def roots map_concat map_map o_def
    using data by (intro arg_cong [of _ _ concat] map_cong) auto
  have ids: "\<forall>j \<in> set (concat (map (\<lambda>r. flat (grow (length m) ?below r)) ?roots)). j \<in> fst ` set m" using sub by fastforce
  with all k show "map nt_id (map nn_data (tree_notes (build_nodes m))) = concat (map (\<lambda>k. flat (grow (length m) ?below k)) ?roots)"
    by (simp add: keyed_the map_idI del: set_concat)
  show "\<forall>d \<in> set (map nn_data (tree_notes (build_nodes m))). map_of m (nt_id d) = Some d"
    unfolding all using ids k by (fastforce simp: keyed_the keyed_mem simp del: set_concat)
  have "\<forall>x \<in> set (notes_of (linkNote m (grow (length m) (children (noteChildren m)) r))). linked_note m x" if r: "r \<in> set ?roots" for r
  proof (rule link_linked [OF k])
    show "set (flat (grow (length m) (children (noteChildren m)) r)) \<subseteq> fst ` set m" using T [OF r] sub [OF r] by simp
    have "m \<noteq> []" using r by (auto simp: rooted_def)
    then have "\<forall>y \<in> set (rooted m). noteDepth m y < length m + noteDepth m r" using noteDepth_bound by (simp add: trans_less_add1)
    then have l: "linked_tree ?below (grow (length m) ?below r)" using r unfolding m_def by (intro nforest.grow_linked) auto
    have "set (flat (grow (length m) ?below r)) \<subseteq> set (rooted m)" using nforest.grow_set [of r folders ns "length m"] r by (auto simp: m_def)
    then have "\<forall>x \<in> set (flat (grow (length m) ?below r)). ?below x = filter (\<lambda>j. noteParent m j = Some x) (map fst m)"
      using rooted_below [OF ne] by fastforce
    from linked_cong [OF l this] show "linked_tree (\<lambda>k. filter (\<lambda>j. noteParent m j = Some k) (map fst m)) (grow (length m) (children (noteChildren m)) r)"
      by (simp add: T [OF r])
  qed
  then show "\<forall>x \<in> set (tree_notes (build_nodes m)). linked_note m x"
    unfolding tree_notes_def build_nodes_def roots by auto
qed

lemma tree_notes_build:
  "mset (map nn_data (tree_notes (buildNoteTree ord folders ns))) = mset (map nn_data (tree_notes (build_nodes (noteMap folders ns))))"
proof -
  have "mset (map nn_data (concat (map notes_of (sortBy (compareNoteNodes ord) ts)))) = mset (map nn_data (concat (map notes_of ts)))" for ts
    unfolding map_concat map_map by (rule concat_sortBy)
  moreover have "mset (map nn_data (concat (map notes_of (map (sortNodes ord) ts)))) = mset (map nn_data (concat (map notes_of ts)))" for ts
    using sortNodes_notes [of ord] by (induction ts) simp_all
  ultimately show ?thesis unfolding build_eq tree_notes_def by simp
qed

lemma tree_linked:
  assumes "[] \<notin> fst ` set (noteMap folders ns)"
  shows "\<forall>x \<in> set (tree_notes (buildNoteTree ord folders ns)). linked_note (noteMap folders ns) x"
proof
  fix x assume "x \<in> set (tree_notes (buildNoteTree ord folders ns))"
  then obtain t where t: "t \<in> set (build_nodes (noteMap folders ns))" "x \<in> set (notes_of (sortNodes ord t))"
    by (auto simp: build_eq tree_notes_def)
  then have "\<forall>y \<in> set (notes_of t). linked_note (noteMap folders ns) y"
    using build_nodes_facts(3) [OF assms] by (auto simp: tree_notes_def)
  from sortNodes_linked [OF this] t(2) show "linked_note (noteMap folders ns) x" by blast
qed

lemma tree_data:
  assumes "[] \<notin> fst ` set (noteMap folders ns)" "x \<in> set (tree_notes (buildNoteTree ord folders ns))"
  shows "map_of (noteMap folders ns) (note_id x) = Some (nn_data x)"
  using build_nodes_facts(2) [OF assms(1)] assms(2) tree_notes_build [of ord folders ns]
  by (metis (no_types, lifting) imageI list.set_map mset_eq_setD note_id_def)

definition tree_ids :: "note_node list \<Rightarrow> js_text list" where
  "tree_ids ts = map note_id (tree_notes ts)"

lemma tree_ids_rooted:
  assumes "[] \<notin> fst ` set (noteMap folders ns)"
  shows "distinct (tree_ids (buildNoteTree ord folders ns)) \<and> set (tree_ids (buildNoteTree ord folders ns)) = set (rooted (noteMap folders ns))"
proof -
  let ?m = "noteMap folders ns"
  let ?c = "concat (map (\<lambda>r. flat (grow (length ?m) (\<lambda>k. filter (\<lambda>j. noteParent ?m j = Some k) (rooted ?m)) r)) (filter (\<lambda>k. noteParent ?m k = None) (rooted ?m)))"
  have "tree_ids (buildNoteTree ord folders ns) = map nt_id (map nn_data (tree_notes (buildNoteTree ord folders ns)))"
    by (simp add: tree_ids_def note_id_def)
  then have "mset (tree_ids (buildNoteTree ord folders ns)) = mset (map nt_id (map nn_data (tree_notes (build_nodes ?m))))"
    using tree_notes_build by (metis mset_map)
  then have "mset (tree_ids (buildNoteTree ord folders ns)) = mset ?c" unfolding build_nodes_facts(1) [OF assms] .
  moreover have "distinct ?c \<and> set ?c = set (rooted ?m)"
    using noteDepth_bound(1) by (intro nforest.forest_once) simp
  ultimately show ?thesis by (metis mset_eq_imp_distinct_iff mset_eq_setD)
qed

text \<open>the tree of notes shows every folder and note whose chain of parents ends at a root, each
  exactly once and with exactly its own children; what hangs on a cycle of parents is not shown.
\<close>

theorem note_tree_exact:
  assumes "[] \<notin> fst ` set (noteMap folders ns)"
  shows "distinct (tree_ids (buildNoteTree ord folders ns))
    \<and> set (tree_ids (buildNoteTree ord folders ns)) = {k \<in> fst ` set (noteMap folders ns). \<not> snd (walk (noteParents (noteMap folders ns)) (Some k) [])}
    \<and> list_all (\<lambda>x. note_id ` set (nn_children x) = {k \<in> fst ` set (noteMap folders ns). noteParent (noteMap folders ns) k = Some (note_id x)})
        (tree_notes (buildNoteTree ord folders ns))"
proof (intro conjI)
  have "set (rooted (noteMap folders ns)) = {k \<in> fst ` set (noteMap folders ns). \<not> snd (walk (noteParents (noteMap folders ns)) (Some k) [])}"
    using assms by (force simp: rooted_def)
  with tree_ids_rooted [OF assms, of ord]
  show "distinct (tree_ids (buildNoteTree ord folders ns))"
    "set (tree_ids (buildNoteTree ord folders ns)) = {k \<in> fst ` set (noteMap folders ns). \<not> snd (walk (noteParents (noteMap folders ns)) (Some k) [])}"
    by simp_all
  show "list_all (\<lambda>x. note_id ` set (nn_children x) = {k \<in> fst ` set (noteMap folders ns). noteParent (noteMap folders ns) k = Some (note_id x)})
        (tree_notes (buildNoteTree ord folders ns))"
    using tree_linked [OF assms, of ord] by (simp add: list_all_iff linked_note_def)
qed

definition example_folder :: "nat \<Rightarrow> js_text option \<Rightarrow> note_folder" where
  "example_folder k p = \<lparr>nf_id = [k], nf_parent = p, nf_name = [k], nf_sort = int k, nf_created = 0, nf_updated = 0\<rparr>"

lemmas note_eval = noteMap_def folderData_def noteData_def example_folder_def noteParents_def walk_Some

theorem note_tree_exact_witness:
  "let folders = [example_folder 97 None, example_folder 98 (Some [97]), example_folder 99 (Some [99])] in
   set (tree_ids (buildNoteTree (\<lambda>_ _. 0, \<lambda>_ _. 0) folders [])) = {[97], [98]}"
proof -
  let ?folders = "[example_folder 97 None, example_folder 98 (Some [97]), example_folder 99 (Some [99])]"
  have "[] \<notin> fst ` set (noteMap ?folders [])" by (simp add: note_eval)
  from note_tree_exact [OF this, of "(\<lambda>_ _. 0, \<lambda>_ _. 0)"]
  have "set (tree_ids (buildNoteTree (\<lambda>_ _. 0, \<lambda>_ _. 0) ?folders []))
      = {k \<in> fst ` set (noteMap ?folders []). \<not> snd (walk (noteParents (noteMap ?folders [])) (Some k) [])}" by blast
  also have "\<dots> = {[97], [98]}" by (auto simp: note_eval)
  finally show ?thesis by simp
qed

section \<open>The guard on moves\<close>

lemma notes_of_self: "t \<in> set (notes_of t)"
  by (cases t) simp

lemma notes_of_trans: "y \<in> set (notes_of x) \<Longrightarrow> x \<in> set (notes_of t) \<Longrightarrow> y \<in> set (notes_of t)"
  by (induction t) auto

lemma tree_notes_Cons [simp]: "tree_notes (t # ts) = notes_of t @ tree_notes ts" "tree_notes [] = []"
  by (simp_all add: tree_notes_def)

lemma find_node:
  "(findNoteNode nodes (Some k) = None \<longleftrightarrow> k = [] \<or> k \<notin> note_id ` set (tree_notes nodes))
   \<and> (findNoteNode nodes (Some k) = Some t \<longrightarrow> t \<in> set (tree_notes nodes) \<and> note_id t = k)"
proof (induction nodes "Some k" rule: findNoteNode.induct)
  case (2 d ts nodes)
  have sub: "set (tree_notes ts) \<subseteq> set (notes_of (NNode d ts))" by (auto simp: tree_notes_def)
  show ?case
  proof (cases "k = [] \<or> nt_id d = k")
    case True
    then show ?thesis by auto
  next
    case False
    with 2 sub show ?thesis by (auto simp: tree_notes_def [of ts] split: option.splits)
  qed
qed auto

lemma subtree_above:
  assumes linked_tree: "\<forall>x \<in> set (notes_of t). linked_note m x" and up: "(above_step (noteParents m))\<^sup>*\<^sup>* k (note_id t)"
  shows "k \<in> note_id ` set (notes_of t)"
  using up
proof (induction rule: converse_rtranclp_induct)
  case base
  then show ?case using notes_of_self by blast
next
  case (step y z)
  then obtain x where x: "x \<in> set (notes_of t)" "z = note_id x" by blast
  have "y \<in> fst ` set m" using step(1) by (auto simp: above_step_def noteParents_lookup dest!: map_of_SomeD intro: rev_image_eqI)
  moreover have "noteParent m y = Some (note_id x)" using step(1) x(2) by (simp add: noteParent_above)
  ultimately have "y \<in> note_id ` set (nn_children x)" using linked_tree x(1) by (simp add: linked_note_def)
  then obtain c where c: "c \<in> set (nn_children x)" "y = note_id c" by blast
  have "c \<in> set (notes_of x)" using c(1) notes_of_self [of c] by (cases x) auto
  with x(1) c(2) notes_of_trans show ?case by blast
qed

lemma not_above_descendant:
  assumes ne: "[] \<notin> fst ` set (noteMap folders ns)"
    and f: "f \<in> set (tree_ids (buildNoteTree ord folders ns))" "map_of (noteMap folders ns) f = Some d" "nt_kind d = KFolder"
    and guard: "\<not> isDescendantFolder (buildNoteTree ord folders ns) f p" "p \<noteq> f" "p \<noteq> []"
  shows "\<not> (above_step (noteParents (noteMap folders ns)))\<^sup>*\<^sup>* p f"
proof
  let ?tree = "buildNoteTree ord folders ns"
  assume up: "(above_step (noteParents (noteMap folders ns)))\<^sup>*\<^sup>* p f"
  have "f \<noteq> []" using f(2) ne by (auto dest!: map_of_SomeD intro: rev_image_eqI)
  then have "findNoteNode ?tree (Some f) \<noteq> None" using f(1) find_node [of ?tree f] by (auto simp: tree_ids_def)
  then obtain t where t: "findNoteNode ?tree (Some f) = Some t" by blast
  then have mem: "t \<in> set (tree_notes ?tree)" "note_id t = f" using find_node [of ?tree f t] by auto
  then have "nn_data t = d" using tree_data [OF ne mem(1)] f(2) by simp
  have "set (notes_of t) \<subseteq> set (tree_notes ?tree)"
    using mem(1) notes_of_trans by (fastforce simp: tree_notes_def)
  then have "\<forall>x \<in> set (notes_of t). linked_note (noteMap folders ns) x" using tree_linked [OF ne] by blast
  from subtree_above [OF this] up mem(2) have "p \<in> note_id ` set (notes_of t)" by simp
  then have "p \<in> note_id ` set (tree_notes (nn_children t))" using guard(2) mem(2) by (cases t) (auto simp: tree_notes_def)
  then have "findNoteNode (nn_children t) (Some p) \<noteq> None" using find_node [of "nn_children t" p] guard(3) by simp
  with guard(1) t \<open>nn_data t = d\<close> f(3) show False by (simp add: isDescendantFolder_def)
qed

lemma ends_redirect:
  assumes same: "\<And>k. k \<noteq> f \<Longrightarrow> map_of up' k = map_of up k"
  shows "ends up cur \<Longrightarrow> (\<And>k. cur = Some k \<Longrightarrow> k \<noteq> [] \<Longrightarrow> map_of up k \<noteq> None \<Longrightarrow> \<not> (above_step up)\<^sup>*\<^sup>* k f) \<Longrightarrow>
    (map_of up f \<noteq> None) \<Longrightarrow> ends up' cur"
proof (induction rule: ends.induct)
  case (stop cur)
  show ?case
  proof (cases "\<exists>k. cur = Some k \<and> map_of up k = None")
    case True
    then obtain k where k: "cur = Some k" "map_of up k = None" by blast
    then have "k \<noteq> f" using stop.prems(2) by auto
    with same k show ?thesis by (intro ends.stop) simp
  next
    case False
    with stop.hyps show ?thesis by (intro ends.stop) auto
  qed
next
  case (parent k p)
  have kf: "\<not> (above_step up)\<^sup>*\<^sup>* k f" using parent by simp
  then have "k \<noteq> f" by blast
  have "ends up' p"
  proof (rule parent.IH [OF _ parent.prems(2)])
    fix j assume j: "p = Some j" "j \<noteq> []" "map_of up j \<noteq> None"
    then have "above_step up k j" using parent.hyps by (simp add: above_step_def)
    with kf show "\<not> (above_step up)\<^sup>*\<^sup>* j f" by (meson converse_rtranclp_into_rtranclp)
  qed
  with parent.hyps same \<open>k \<noteq> f\<close> show ?case by (intro ends.parent [of _ _ p]) simp_all
qed

lemma ends_change:
  assumes same: "\<And>k. k \<noteq> f \<Longrightarrow> map_of up' k = map_of up k" and f: "map_of up f \<noteq> None" "ends up' (Some f)"
  shows "ends up cur \<Longrightarrow> ends up' cur"
proof (induction rule: ends.induct)
  case (stop cur)
  show ?case
  proof (cases "cur = Some f")
    case False
    with stop same show ?thesis by (intro ends.stop) (cases cur, auto)
  qed (use f in simp)
next
  case (parent k p)
  then show ?case using same f(2) by (cases "k = f") (auto intro: ends.parent)
qed

lemma fold_update_lookup:
  "map_of (foldl (\<lambda>m x. AList.update (key x) x m) m xs) k =
     (case find (\<lambda>x. key x = k) (rev xs) of None \<Rightarrow> map_of m k | Some x \<Rightarrow> Some x)"
  by (induction xs arbitrary: m rule: rev_induct) (simp_all add: update_conv')

lemma find_append: "find P (xs @ ys) = (case find P xs of None \<Rightarrow> find P ys | Some x \<Rightarrow> Some x)"
  by (induction xs) auto

lemma noteMap_lookup:
  "map_of (noteMap folders ns) k =
     (case find (\<lambda>n. ns_id n = k) (rev ns) of Some n \<Rightarrow> Some (noteData n)
      | None \<Rightarrow> map_option folderData (find (\<lambda>f. nf_id f = k) (rev folders)))"
proof -
  have "find (\<lambda>d. nt_id d = k) (map noteData xs) = map_option noteData (find (\<lambda>n. ns_id n = k) xs)" for xs
    by (induction xs) (auto simp: noteData_def)
  moreover have "find (\<lambda>d. nt_id d = k) (map folderData xs) = map_option folderData (find (\<lambda>n. nf_id n = k) xs)" for xs
    by (induction xs) (auto simp: folderData_def)
  ultimately show ?thesis unfolding noteMap_def fold_update_lookup
    by (simp add: find_append rev_map split: option.split)
qed

lemma upsert_existing:
  assumes "distinct (map nf_id folders)" "nf_id f' \<in> nf_id ` set folders"
  shows "upsertFolders folders [f'] = map (\<lambda>g. if nf_id g = nf_id f' then f' else g) folders"
proof -
  have "distinct (map nf_id fs) \<Longrightarrow> foldl (\<lambda>m f. AList.update (nf_id f) f m) [] fs = map (\<lambda>f. (nf_id f, f)) fs" for fs :: "note_folder list"
  proof (induction fs rule: rev_induct)
    case (snoc f fs)
    then show ?case by (auto simp: image_iff alist_update_new)
  qed simp
  moreover have "distinct (map nf_id fs) \<Longrightarrow> nf_id f' \<in> nf_id ` set fs \<Longrightarrow>
      map snd (AList.update (nf_id f') f' (map (\<lambda>f. (nf_id f, f)) fs)) = map (\<lambda>g. if nf_id g = nf_id f' then f' else g) fs" for fs :: "note_folder list"
  proof (induction fs)
    case (Cons g fs)
    show ?case
    proof (cases "nf_id g = nf_id f'")
      case True
      with Cons.prems(1) have "nf_id f' \<notin> nf_id ` set fs" by simp
      then have "map (\<lambda>g. if nf_id g = nf_id f' then f' else g) fs = fs" by (induction fs) auto
      with True show ?thesis by (simp add: o_def)
    next
      case False
      with Cons show ?thesis by simp
    qed
  qed simp
  ultimately show ?thesis using assms by (simp add: upsertFolders_def)
qed

lemma moved_lookup:
  assumes "f \<in> set folders" "distinct (map nf_id folders)" "nf_id f \<notin> ns_id ` set ns" and f'_def: "f' = f\<lparr>nf_parent := p\<rparr>"
  shows "map_of (noteMap (upsertFolders folders [f']) ns) k =
    (if k = nf_id f then Some (folderData f') else map_of (noteMap folders ns) k)"
proof -
  let ?g = "\<lambda>g. if nf_id g = nf_id f' then f' else g"
  have id: "nf_id f' = nf_id f" by (simp add: f'_def)
  have up: "upsertFolders folders [f'] = map ?g folders" using assms(1,2) id by (intro upsert_existing) auto
  have "find (\<lambda>f. nf_id f = k) (map ?g xs) = map_option ?g (find (\<lambda>f. nf_id f = k) xs)" for xs
    by (induction xs) auto
  then have folders': "find (\<lambda>f. nf_id f = k) (rev (map ?g folders)) = map_option ?g (find (\<lambda>f. nf_id f = k) (rev folders))"
    by (simp only: rev_map)
  have "find (\<lambda>n. ns_id n = nf_id f) (rev ns) = None" using assms(3) by (force simp: find_None_iff)
  moreover obtain h where "find (\<lambda>g. nf_id g = nf_id f) (rev folders) = Some h" "nf_id h = nf_id f"
  proof -
    have "find (\<lambda>g. nf_id g = nf_id f) (rev folders) \<noteq> None" using assms(1) by (auto simp: find_None_iff)
    then show ?thesis using that by (auto simp: find_Some_iff)
  qed
  moreover have "map_option ?g (find (\<lambda>f. nf_id f = k) (rev folders)) = find (\<lambda>f. nf_id f = k) (rev folders)" if "k \<noteq> nf_id f"
    using that id by (cases "find (\<lambda>f. nf_id f = k) (rev folders)") (auto dest!: find_Some_iff [THEN iffD1])
  ultimately show ?thesis
    unfolding noteMap_lookup up folders' using id by (cases "k = nf_id f") (auto split: option.split)
qed

definition moved_event :: "note_folder \<Rightarrow> notes_event" where
  "moved_event f = \<lparr>ne_kind = NotesMoved, ne_ids = [nf_id f], ne_folders = [f], ne_notes = [], ne_treeChanged = None\<rparr>"

text \<open>moving folders cannot make notes disappear: if the tree shows every folder and note and the
  guard of the panel allows moving a folder to a new parent, then after the event that reports the
  move the tree shows every folder and note again.
\<close>

theorem note_move_keeps_all:
  assumes ne: "[] \<notin> fst ` set (noteMap folders ns)" and f: "f \<in> set folders"
    and ids: "distinct (map nf_id folders)" "nf_id f \<notin> ns_id ` set ns"
    and all: "set (tree_ids (buildNoteTree ord folders ns)) = fst ` set (noteMap folders ns)"
    and guard: "moveAllowed (buildNoteTree ord folders ns) (folderData f) p"
  shows "case onNotesChanged (moved_event (f\<lparr>nf_parent := p\<rparr>)) (folders, ns) of ((folders', ns'), refresh) \<Rightarrow>
    \<not> refresh \<and> fst ` set (noteMap folders' ns') = fst ` set (noteMap folders ns)
    \<and> set (tree_ids (buildNoteTree ord folders' ns')) = fst ` set (noteMap folders' ns')"
proof -
  let ?f' = "f\<lparr>nf_parent := p\<rparr>"
  let ?folders' = "upsertFolders folders [?f']"
  let ?m = "noteMap folders ns" and ?m' = "noteMap ?folders' ns"
  let ?k = "nf_id f"
  have event: "onNotesChanged (moved_event ?f') (folders, ns) = ((?folders', ns), False)"
    by (simp add: onNotesChanged_def moved_event_def upsertNotes_def)
  have look: "map_of ?m' k = (if k = ?k then Some (folderData ?f') else map_of ?m k)" for k
    by (rule moved_lookup [OF f ids refl])
  have "find (\<lambda>g. nf_id g = ?k) (rev folders) \<noteq> None" using f unfolding find_None_iff by auto
  then have mk: "map_of ?m ?k \<noteq> None" by (auto simp: noteMap_lookup split: option.split)
  have dom: "fst ` set m = {k. map_of m k \<noteq> None}" for m :: note_map by (force simp: map_of_eq_None_iff)
  have keys: "fst ` set ?m' = fst ` set ?m" unfolding dom look using mk by auto
  have rooted: "ends (noteParents ?m) (Some k)" if "k \<in> fst ` set ?m" for k
    using that tree_ids_rooted [OF ne, of ord] all by (auto simp: rooted_def walk_ends)
  have same: "map_of (noteParents ?m') k = map_of (noteParents ?m) k" if "k \<noteq> ?k" for k
    using that by (simp add: noteParents_lookup look)
  have kk: "?k \<in> fst ` set ?m" using mk by (simp add: dom)
  then have k0: "?k \<noteq> []" using ne by metis
  have "ends (noteParents ?m') p"
  proof (cases "\<exists>q. p = Some q \<and> q \<noteq> [] \<and> map_of ?m q \<noteq> None")
    case True
    then obtain q where q: "p = Some q" "q \<noteq> []" "map_of ?m q \<noteq> None" by blast
    obtain d where d: "map_of ?m ?k = Some d" using mk by blast
    have kind: "nt_kind d = KFolder"
    proof -
      have "find (\<lambda>n. ns_id n = ?k) (rev ns) = None" using ids(2) by (force simp: find_None_iff)
      with d show ?thesis by (auto simp: noteMap_lookup folderData_def)
    qed
    have nd: "\<not> isDescendantFolder (buildNoteTree ord folders ns) ?k q" "q \<noteq> ?k"
      using guard q by (simp_all add: moveAllowed_def folderData_def)
    have "?k \<in> set (tree_ids (buildNoteTree ord folders ns))" using all kk by simp
    note free = not_above_descendant [OF ne this d kind nd q(2)]
    show ?thesis
    proof (rule ends_redirect [OF same])
      show "ends (noteParents ?m) p" unfolding q(1) using q(3) by (intro rooted) (simp add: dom)
      show "\<not> (above_step (noteParents ?m))\<^sup>*\<^sup>* j ?k" if "p = Some j" for j using free that q(1) by simp
      show "map_of (noteParents ?m) ?k \<noteq> None" using mk by (simp add: noteParents_lookup)
    qed
  next
    case False
    then show ?thesis using k0 look mk by (intro ends.stop) (cases p, auto simp: noteParents_lookup)
  qed
  then have "ends (noteParents ?m') (Some ?k)"
    using k0 by (intro ends.parent [of _ _ p]) (simp_all add: noteParents_lookup look folderData_def)
  moreover have "map_of (noteParents ?m) ?k \<noteq> None" using mk by (simp add: noteParents_lookup)
  ultimately have "ends (noteParents ?m') (Some k)" if "k \<in> fst ` set ?m" for k
    using ends_change [OF same] rooted [OF that] by blast
  moreover have "k \<noteq> []" if "k \<in> fst ` set ?m'" for k using that ne unfolding keys by blast
  ultimately have "filter (\<lambda>k. k \<noteq> [] \<and> ends (noteParents ?m') (Some k)) (map fst ?m') = map fst ?m'"
    unfolding filter_id_conv set_map keys by blast
  then have "set (rooted ?m') = fst ` set ?m'" unfolding rooted_def walk_ends by (metis list.set_map)
  then show ?thesis using event keys tree_ids_rooted [of ?folders' ns ord] ne by simp
qed

theorem note_move_keeps_all_witness:
  "let folders = [example_folder 97 None, example_folder 98 (Some [97]), example_folder 99 (Some [97])];
       moved = fst (fst (onNotesChanged (moved_event ((example_folder 98 (Some [97]))\<lparr>nf_parent := Some [99]\<rparr>)) (folders, [])))
   in set (tree_ids (buildNoteTree (\<lambda>_ _. 0, \<lambda>_ _. 0) moved [])) = {[97], [98], [99]}
      \<and> \<not> moveAllowed (buildNoteTree (\<lambda>_ _. 0, \<lambda>_ _. 0) folders []) (folderData (hd folders)) (Some [99])"
proof -
  let ?o = "(\<lambda>_ _. 0, \<lambda>_ _. 0) :: (js_text \<Rightarrow> js_text \<Rightarrow> int) \<times> (js_text \<Rightarrow> js_text \<Rightarrow> int)"
  let ?f = "example_folder 98 (Some [97])"
  let ?folders = "[example_folder 97 None, ?f, example_folder 99 (Some [97])]"
  have ne: "[] \<notin> fst ` set (noteMap ?folders [])" by (simp add: note_eval)
  have tree: "buildNoteTree ?o ?folders [] =
      [NNode (folderData (example_folder 97 None)) [NNode (folderData ?f) [], NNode (folderData (example_folder 99 (Some [97]))) []]]"
    by (simp add: buildNoteTree_def note_eval knownParent_def noteChildren_def children_def pushChild_def sortBy_def compareNoteNodes_def numeral_3_eq_3)
  have all: "set (tree_ids (buildNoteTree ?o ?folders [])) = fst ` set (noteMap ?folders [])"
    by (simp add: tree tree_ids_def) (auto simp: note_eval)
  have guard: "moveAllowed (buildNoteTree ?o ?folders []) (folderData ?f) (Some [99])"
    "\<not> moveAllowed (buildNoteTree ?o ?folders []) (folderData (hd ?folders)) (Some [99])"
    unfolding tree by (simp_all add: moveAllowed_def isDescendantFolder_def folderData_def example_folder_def)
  have e: "onNotesChanged (moved_event (?f\<lparr>nf_parent := Some [99]\<rparr>)) (?folders, [])
      = (([example_folder 97 None, example_folder 98 (Some [99]), example_folder 99 (Some [97])], []), False)"
    by (simp add: onNotesChanged_def moved_event_def upsertFolders_def upsertNotes_def example_folder_def)
  have "?f \<in> set ?folders" "distinct (map nf_id ?folders)" "nf_id ?f \<notin> ns_id ` set []" by (simp_all add: example_folder_def)
  from note_move_keeps_all [OF ne this all guard(1)] e guard(2)
  show ?thesis by (simp add: Let_def) (auto simp: note_eval)
qed

end
