(* ===== verification/Transfer_Retention.thy ===== *)
theory Transfer_Retention
  imports Prelude
begin

text \<open>
  Which finished transfers are kept (\<open>lib/transferRetention.ts\<close>): none older than a day, and of the
  others the newest two hundred.
\<close>

datatype transfer_status = Queued | Transferring | Paused | Completed | Errored | Cancelled

record retainable =
  rt_id :: js_text
  rt_status :: transfer_status
  rt_timestamp :: int

definition MAX_RETAINED_FINISHED_TRANSFERS :: nat where
  "MAX_RETAINED_FINISHED_TRANSFERS = 200"

definition FINISHED_TRANSFER_RETENTION_MS :: int where
  "FINISHED_TRANSFER_RETENTION_MS = 24 * 60 * 60 * 1000"

definition isFinishedTransferStatus :: "transfer_status \<Rightarrow> bool" where
  "isFinishedTransferStatus s \<longleftrightarrow> s \<in> {Completed, Errored, Cancelled}"

definition getPrunedTransferIds :: "retainable list \<Rightarrow> int \<Rightarrow> js_text list" where
  "getPrunedTransferIds transfers now =
     (let finished = filter (\<lambda>t. isFinishedTransferStatus (rt_status t)) transfers;
          cutoff = now - FINISHED_TRANSFER_RETENTION_MS;
          retained = filter (\<lambda>t. \<not> rt_timestamp t < cutoff) finished
      in uniq (map rt_id (filter (\<lambda>t. rt_timestamp t < cutoff) finished)
           @ map rt_id (drop MAX_RETAINED_FINISHED_TRANSFERS (sortBy (\<lambda>a b. rt_timestamp b - rt_timestamp a) retained))))"

section \<open>What is pruned\<close>

lemma insertBy_sorted_down:
  "sorted_wrt (\<lambda>a b. k b \<le> (k a :: int)) xs \<Longrightarrow> sorted_wrt (\<lambda>a b. k b \<le> k a) (insertBy (\<lambda>a b. k b - k a) x xs)"
proof (induction xs)
  case (Cons y ys)
  have "set (insertBy (\<lambda>a b. k b - k a) x ys) = insert x (set ys)"
    by (metis insertBy_mset set_mset_add_mset_insert set_mset_mset)
  with Cons show ?case by force
qed simp

lemma sortBy_sorted_down: "sorted_wrt (\<lambda>a b. k b \<le> (k a :: int)) (sortBy (\<lambda>a b. k b - k a) xs)"
  by (induction xs) (simp_all add: sortBy_def insertBy_sorted_down)

lemma sortBy_distinct [simp]: "distinct (sortBy cmp xs) \<longleftrightarrow> distinct xs"
  using sortBy_mset by (metis mset_eq_imp_distinct_iff)

lemma sortBy_length [simp]: "length (sortBy cmp xs) = length xs"
  using sortBy_mset by (metis size_mset)

lemma sortBy_map_distinct: "distinct (map f (sortBy cmp xs)) \<longleftrightarrow> distinct (map f xs)"
  using sortBy_mset by (metis mset_eq_imp_distinct_iff mset_map)

lemma pruned_finished: "k \<in> set (getPrunedTransferIds ts now) \<Longrightarrow> \<exists>t \<in> set ts. rt_id t = k \<and> isFinishedTransferStatus (rt_status t)"
  by (auto simp: getPrunedTransferIds_def Let_def dest!: in_set_dropD)

text \<open>The kept finished transfers, as the front of the sorted list.\<close>

lemma kept_finished:
  assumes "distinct (map rt_id ts)"
  shows "mset (filter (\<lambda>t. isFinishedTransferStatus (rt_status t) \<and> rt_id t \<notin> set (getPrunedTransferIds ts now)) ts)
    = mset (take MAX_RETAINED_FINISHED_TRANSFERS (sortBy (\<lambda>a b. rt_timestamp b - rt_timestamp a)
        (filter (\<lambda>t. isFinishedTransferStatus (rt_status t) \<and> now - FINISHED_TRANSFER_RETENTION_MS \<le> rt_timestamp t) ts)))"
    (is "mset ?kept = mset (take ?n ?sorted)")
proof -
  let ?fresh = "\<lambda>t. isFinishedTransferStatus (rt_status t) \<and> now - FINISHED_TRANSFER_RETENTION_MS \<le> rt_timestamp t"
  have sub: "set ?sorted \<subseteq> set ts" by auto
  have inj: "inj_on rt_id (set ts)" using assms by (simp add: distinct_map)
  have d: "distinct (map rt_id ?sorted)" using assms by (simp add: sortBy_map_distinct distinct_map_filter)
  have split: "distinct (take ?n ?sorted)" "set (take ?n ?sorted) \<inter> set (drop ?n ?sorted) = {}"
    using d set_take_disj_set_drop_if_distinct [of ?sorted ?n ?n] by (simp_all add: distinct_map)
  have pruned: "set (getPrunedTransferIds ts now) =
      rt_id ` {t \<in> set ts. isFinishedTransferStatus (rt_status t) \<and> rt_timestamp t < now - FINISHED_TRANSFER_RETENTION_MS}
      \<union> rt_id ` set (drop ?n ?sorted)"
    by (auto simp: getPrunedTransferIds_def Let_def conj_commute not_less filter_filter)
  have into: "t \<in> set (take ?n ?sorted)" if t: "t \<in> set ts" "isFinishedTransferStatus (rt_status t)" "rt_id t \<notin> set (getPrunedTransferIds ts now)" for t
  proof -
    have "?fresh t" using t by (force simp: pruned)
    then have "t \<in> set (take ?n ?sorted) \<union> set (drop ?n ?sorted)" using t(1) by (simp flip: set_append)
    then show ?thesis using t(3) by (auto simp: pruned)
  qed
  have back_in: "t \<in> set ts \<and> isFinishedTransferStatus (rt_status t) \<and> rt_id t \<notin> set (getPrunedTransferIds ts now)"
    if t: "t \<in> set (take ?n ?sorted)" for t
  proof -
    have f: "t \<in> set ts" "?fresh t" using in_set_takeD [OF t] by auto
    have "rt_id t \<noteq> rt_id u" if "u \<in> set (drop ?n ?sorted)" for u
    proof
      assume "rt_id t = rt_id u"
      then have "t = u" using inj f(1) sub in_set_dropD [OF that] by (auto dest: inj_onD)
      with split(2) t that show False by blast
    qed
    moreover have "rt_id t \<noteq> rt_id u" if "u \<in> set ts" "rt_timestamp u < now - FINISHED_TRANSFER_RETENTION_MS" for u
    proof
      assume "rt_id t = rt_id u"
      then have "t = u" using inj f(1) that(1) by (simp add: inj_on_eq_iff)
      with f(2) that(2) show False by simp
    qed
    ultimately have "rt_id t \<notin> set (getPrunedTransferIds ts now)" unfolding pruned by blast
    with f show ?thesis by simp
  qed
  have "set ?kept = set (take ?n ?sorted)"
  proof (intro set_eqI iffI)
    show "t \<in> set (take ?n ?sorted)" if "t \<in> set ?kept" for t
      using into [of t] that unfolding set_filter by blast
    show "t \<in> set ?kept" if "t \<in> set (take ?n ?sorted)" for t
      using back_in [OF that] unfolding set_filter by blast
  qed
  moreover have "distinct ?kept" using assms by (simp add: distinct_map)
  moreover note split(1)
  ultimately show ?thesis using set_eq_iff_mset_eq_distinct by blast
qed

text \<open>pruning keeps every unfinished transfer; of the finished ones it keeps at most two hundred,
  none older than a day, and one that is dropped although it is young enough is no newer than any
  kept one.\<close>

theorem retention_bounds:
  assumes "distinct (map rt_id ts)"
  shows "let pruned = getPrunedTransferIds ts now; kept = filter (\<lambda>t. rt_id t \<notin> set pruned) ts in
    filter (\<lambda>t. \<not> isFinishedTransferStatus (rt_status t)) kept = filter (\<lambda>t. \<not> isFinishedTransferStatus (rt_status t)) ts
    \<and> length (filter (\<lambda>t. isFinishedTransferStatus (rt_status t)) kept) \<le> 200
    \<and> (\<forall>t \<in> set kept. isFinishedTransferStatus (rt_status t) \<longrightarrow> now - rt_timestamp t \<le> FINISHED_TRANSFER_RETENTION_MS)
    \<and> (\<forall>t \<in> set ts. rt_id t \<in> set pruned \<longrightarrow> now - rt_timestamp t \<le> FINISHED_TRANSFER_RETENTION_MS \<longrightarrow>
        (\<forall>u \<in> set kept. isFinishedTransferStatus (rt_status u) \<longrightarrow> rt_timestamp t \<le> rt_timestamp u))"
proof -
  let ?p = "getPrunedTransferIds ts now"
  let ?kept = "filter (\<lambda>t. rt_id t \<notin> set ?p) ts"
  let ?fin = "\<lambda>t. isFinishedTransferStatus (rt_status t)"
  let ?sorted = "sortBy (\<lambda>a b. rt_timestamp b - rt_timestamp a) (filter (\<lambda>t. ?fin t \<and> now - FINISHED_TRANSFER_RETENTION_MS \<le> rt_timestamp t) ts)"
  let ?n = MAX_RETAINED_FINISHED_TRANSFERS
  have inj: "inj_on rt_id (set ts)" using assms by (simp add: distinct_map)
  note kept = kept_finished [OF assms, of now]
  have unfinished: "rt_id t \<notin> set ?p" if "t \<in> set ts" "\<not> ?fin t" for t
    using pruned_finished [of "rt_id t" ts now] that inj by (metis inj_onD)
  have fin_set: "set (filter ?fin ?kept) = set (take ?n ?sorted)"
  proof -
    have "filter ?fin ?kept = filter (\<lambda>t. ?fin t \<and> rt_id t \<notin> set ?p) ts" by (simp add: conj_commute)
    then show ?thesis using mset_eq_setD [OF kept] by (rule ssubst)
  qed
  have "filter (\<lambda>t. \<not> ?fin t) ?kept = filter (\<lambda>t. \<not> ?fin t) ts"
    unfolding filter_filter by (rule filter_cong [OF refl]) (use unfinished in blast)
  moreover have "length (filter ?fin ?kept) \<le> 200"
  proof -
    have "filter ?fin ?kept = filter (\<lambda>t. ?fin t \<and> rt_id t \<notin> set ?p) ts" by (simp add: conj_commute)
    then show ?thesis using mset_eq_length [OF kept] by (simp add: MAX_RETAINED_FINISHED_TRANSFERS_def)
  qed
  moreover have "\<forall>t \<in> set ?kept. ?fin t \<longrightarrow> now - rt_timestamp t \<le> FINISHED_TRANSFER_RETENTION_MS"
  proof (intro ballI impI)
    fix t assume "t \<in> set ?kept" "?fin t"
    then have "t \<in> set (take ?n ?sorted)" using fin_set by auto
    from in_set_takeD [OF this] show "now - rt_timestamp t \<le> FINISHED_TRANSFER_RETENTION_MS" by simp
  qed
  moreover have "\<forall>t \<in> set ts. rt_id t \<in> set ?p \<longrightarrow> now - rt_timestamp t \<le> FINISHED_TRANSFER_RETENTION_MS \<longrightarrow>
        (\<forall>u \<in> set ?kept. ?fin u \<longrightarrow> rt_timestamp t \<le> rt_timestamp u)"
  proof (intro ballI impI)
    fix t u assume t: "t \<in> set ts" "rt_id t \<in> set ?p" "now - rt_timestamp t \<le> FINISHED_TRANSFER_RETENTION_MS"
      and u: "u \<in> set ?kept" "?fin u"
    then have ut: "u \<in> set (take ?n ?sorted)" using fin_set by auto
    have ft: "?fin t" using unfinished t(1,2) by blast
    have "t \<notin> set (take ?n ?sorted)" using fin_set t(2) by auto
    moreover have "t \<in> set (take ?n ?sorted) \<union> set (drop ?n ?sorted)" using t ft by (simp flip: set_append)
    ultimately have td: "t \<in> set (drop ?n ?sorted)" by blast
    have "sorted_wrt (\<lambda>a b. rt_timestamp b \<le> rt_timestamp a) (take ?n ?sorted @ drop ?n ?sorted)"
      using sortBy_sorted_down [of rt_timestamp] by simp
    with ut td show "rt_timestamp t \<le> rt_timestamp u" unfolding sorted_wrt_append by blast
  qed
  ultimately show ?thesis by (simp add: Let_def)
qed

theorem retention_bounds_witness:
  "getPrunedTransferIds [\<lparr>rt_id = [97], rt_status = Completed, rt_timestamp = 0\<rparr>, \<lparr>rt_id = [98], rt_status = Queued, rt_timestamp = 0\<rparr>] 86400001 = [[97]]
   \<and> [t \<leftarrow> [\<lparr>rt_id = [97], rt_status = Completed, rt_timestamp = 0\<rparr>, \<lparr>rt_id = [98], rt_status = Queued, rt_timestamp = 0\<rparr>]. \<not> isFinishedTransferStatus (rt_status t)]
     = [\<lparr>rt_id = [98], rt_status = Queued, rt_timestamp = 0\<rparr>]"
  using retention_bounds [of "[\<lparr>rt_id = [97], rt_status = Completed, rt_timestamp = 0\<rparr>, \<lparr>rt_id = [98], rt_status = Queued, rt_timestamp = 0\<rparr>]" 86400001]
  by (simp add: getPrunedTransferIds_def FINISHED_TRANSFER_RETENTION_MS_def isFinishedTransferStatus_def sortBy_def uniq_def)

end
