(* ===== verification/Transfer_Queue.thy ===== *)
theory Transfer_Queue
  imports Transfer_Retention
begin

text \<open>
  The queue of file transfers (\<open>context/TransferContext.tsx\<close>): the list of transfers, the requests
  not yet started, the transfers parked by a resume, the samples the speed is computed from, and
  the pass that starts transfers up to the concurrency of their direction.

  An operation that calls the back end leaves a continuation in \<open>ts_waiting\<close>, which \<open>settle\<close> runs
  with the outcome of the call. A \<open>Map\<close> is an association list in insertion order, a \<open>Set\<close> a list.
  State updates of React are applied at once. Times are milliseconds; an \<open>Error\<close> is its text.
  Toasts are not modelled.
\<close>

section \<open>State\<close>

datatype transfer_direction = Upload | Download | CopyTransfer

datatype transfer_kind = TransferFile | TransferDirectory

datatype transfer_source = Sftp | Zmodem

datatype queue_state = QPending | QRunning

record endpoint =
  ep_session :: js_text
  ep_remote :: bool
  ep_path :: js_text

record transfer_request =
  rq_session :: js_text
  rq_name :: js_text
  rq_local :: js_text
  rq_remote :: js_text
  rq_kind :: transfer_kind
  rq_direction :: transfer_direction
  rq_source :: "endpoint option"
  rq_target :: "endpoint option"
  rq_override :: "js_text option"

record transfer_item =
  ti_id :: js_text
  ti_session :: js_text
  ti_name :: js_text
  ti_remote :: js_text
  ti_local :: js_text
  ti_direction :: transfer_direction
  ti_kind :: transfer_kind
  ti_source :: "endpoint option"
  ti_target :: "endpoint option"
  ti_parent :: "js_text option"
  ti_status :: transfer_status
  ti_size :: int
  ti_bytes :: int
  ti_speed :: "int option"
  ti_total :: int
  ti_itemsTotal :: "int option"
  ti_itemsCompleted :: "int option"
  ti_error :: "js_text option"
  ti_timestamp :: int
  ti_queueState :: "queue_state option"
  ti_origin :: "transfer_source option"

record speed_sample =
  sp_bytes :: int
  sp_time :: int

text \<open>What an asynchronous operation does when its call to the back end returns.\<close>

datatype wait = StartWait js_text | ResumeWait js_text | CancelWait js_text | CancelParkedWait js_text

record transfer_state =
  ts_map :: "(js_text \<times> transfer_item) list"
  ts_queued :: "(js_text \<times> transfer_request) list"
  ts_parked :: "js_text list"
  ts_samples :: "(js_text \<times> speed_sample list) list"
  ts_waiting :: "wait list"

datatype backend_call =
    CopyFileEntry endpoint endpoint js_text bool js_text "js_text option"
  | UploadLocalDirectory js_text js_text js_text js_text "js_text option"
  | UploadLocalFile js_text js_text js_text js_text "js_text option"
  | DownloadRemoteDirectory js_text js_text js_text js_text
  | DownloadRemoteFile js_text js_text js_text js_text
  | ResumeTransfer js_text
  | PauseTransfer js_text
  | CancelTransfer js_text

definition transfer_start :: transfer_state where
  "transfer_start = \<lparr>ts_map = [], ts_queued = [], ts_parked = [], ts_samples = [], ts_waiting = []\<rparr>"

section \<open>Concurrency and speed\<close>

text \<open>The setting is a number; \<open>None\<close> stands for a value that is not finite.\<close>

definition clampTransferConcurrency :: "rat option \<Rightarrow> int" where
  "clampTransferConcurrency value = min 10 (max 1 (case value of None \<Rightarrow> 1 | Some x \<Rightarrow> \<lfloor>x\<rfloor>))"

definition getBackgroundTransferConcurrency :: "rat option \<Rightarrow> int" where
  "getBackgroundTransferConcurrency value =
     (let configured = clampTransferConcurrency value in if configured > 1 then configured - 1 else 1)"

definition maxRunningByDirection :: "rat option \<Rightarrow> rat option \<Rightarrow> transfer_direction \<Rightarrow> int" where
  "maxRunningByDirection downloads uploads d =
     (case d of Download \<Rightarrow> getBackgroundTransferConcurrency downloads
      | Upload \<Rightarrow> getBackgroundTransferConcurrency uploads
      | CopyTransfer \<Rightarrow> max 1 (min (getBackgroundTransferConcurrency downloads) (getBackgroundTransferConcurrency uploads)))"

definition TRANSFER_SPEED_WINDOW_MS :: int where
  "TRANSFER_SPEED_WINDOW_MS = 3000"

text \<open>\<open>Math.round\<close> of a quotient rounds halves up.\<close>

definition roundQuotient :: "int \<Rightarrow> int \<Rightarrow> int" where
  "roundQuotient a b = (2 * a + b) div (2 * b)"

definition calculateTransferSpeed :: "speed_sample list option \<Rightarrow> int \<Rightarrow> int \<Rightarrow> speed_sample list \<times> int option" where
  "calculateTransferSpeed samples bytes timestamp =
     (let previous = (case samples of None \<Rightarrow> [] | Some ss \<Rightarrow> ss); current = \<lparr>sp_bytes = bytes, sp_time = timestamp\<rparr> in
      if previous \<noteq> [] \<and> bytes < sp_bytes (last previous) then ([current], Some 0)
      else if previous \<noteq> [] \<and> bytes = sp_bytes (last previous) then
        (previous, if timestamp - sp_time (last previous) > TRANSFER_SPEED_WINDOW_MS then Some 0 else None)
      else (let windowSamples = filter (\<lambda>s. sp_time s \<ge> timestamp - TRANSFER_SPEED_WINDOW_MS) (previous @ [current]);
                elapsed = (if windowSamples = [] then 0 else timestamp - sp_time (hd windowSamples));
                delta = (if windowSamples = [] then 0 else bytes - sp_bytes (hd windowSamples))
            in (windowSamples, Some (if elapsed > 0 \<and> delta \<ge> 0 then roundQuotient (delta * 1000) elapsed else 0))))"

section \<open>Pruning\<close>

definition cleanupTransferArtifacts :: "js_text \<Rightarrow> transfer_state \<Rightarrow> transfer_state" where
  "cleanupTransferArtifacts i st =
     st\<lparr>ts_samples := AList.delete i (ts_samples st), ts_queued := AList.delete i (ts_queued st),
        ts_parked := filter (\<lambda>j. j \<noteq> i) (ts_parked st)\<rparr>"

definition retainables :: "transfer_state \<Rightarrow> retainable list" where
  "retainables st = map (\<lambda>(k, t). \<lparr>rt_id = ti_id t, rt_status = ti_status t, rt_timestamp = ti_timestamp t\<rparr>) (ts_map st)"

definition pruneRetainedTransfers :: "int \<Rightarrow> transfer_state \<Rightarrow> transfer_state" where
  "pruneRetainedTransfers now st =
     (let pruned = getPrunedTransferIds (retainables st) now; st' = fold cleanupTransferArtifacts pruned st
      in st'\<lparr>ts_map := filter (\<lambda>(k, t). k \<notin> set pruned) (ts_map st')\<rparr>)"

definition getItem :: "transfer_state \<Rightarrow> js_text \<Rightarrow> transfer_item option" where
  "getItem st i = map_of (ts_map st) i"

definition setItem :: "js_text \<Rightarrow> transfer_item \<Rightarrow> transfer_state \<Rightarrow> transfer_state" where
  "setItem i t st = st\<lparr>ts_map := AList.update i t (ts_map st)\<rparr>"

definition dropSamples :: "js_text \<Rightarrow> transfer_state \<Rightarrow> transfer_state" where
  "dropSamples i st = st\<lparr>ts_samples := AList.delete i (ts_samples st)\<rparr>"

definition setSamples :: "js_text \<Rightarrow> speed_sample list \<Rightarrow> transfer_state \<Rightarrow> transfer_state" where
  "setSamples i ss st = st\<lparr>ts_samples := AList.update i ss (ts_samples st)\<rparr>"

section \<open>Events of the back end\<close>

datatype event_status = EvStarted | EvProgress | EvPaused | EvResumed | EvCancelled | EvCompleted | EvError

record transfer_event =
  te_id :: js_text
  te_session :: js_text
  te_name :: js_text
  te_remote :: js_text
  te_local :: js_text
  te_direction :: transfer_direction
  te_kind :: "transfer_kind option"
  te_parent :: "js_text option"
  te_status :: event_status
  te_size :: int
  te_bytes :: int
  te_total :: int
  te_itemsTotal :: "int option"
  te_itemsCompleted :: "int option"
  te_error :: "js_text option"

definition first_some :: "'a option \<Rightarrow> 'a option \<Rightarrow> 'a option" where
  "first_some a b = (case a of None \<Rightarrow> b | Some x \<Rightarrow> Some x)"

definition startedItem :: "int \<Rightarrow> transfer_event \<Rightarrow> bool \<Rightarrow> transfer_item option \<Rightarrow> transfer_item" where
  "startedItem now e queued old =
     \<lparr>ti_id = te_id e, ti_session = te_session e, ti_name = te_name e, ti_remote = te_remote e, ti_local = te_local e,
      ti_direction = te_direction e, ti_kind = (case te_kind e of None \<Rightarrow> TransferFile | Some k \<Rightarrow> k),
      ti_source = Option.bind old ti_source, ti_target = Option.bind old ti_target, ti_parent = te_parent e,
      ti_status = Transferring, ti_size = 0, ti_bytes = 0, ti_speed = Some 0, ti_total = te_total e,
      ti_itemsTotal = te_itemsTotal e, ti_itemsCompleted = te_itemsCompleted e, ti_error = Option.bind old ti_error,
      ti_timestamp = (case old of None \<Rightarrow> now | Some t \<Rightarrow> ti_timestamp t),
      ti_queueState = first_some (Option.bind old ti_queueState) (if queued then Some QRunning else None),
      ti_origin = first_some (Option.bind old ti_origin) (Some Sftp)\<rparr>"

text \<open>Byte counts and item counts every later event reports.\<close>

definition reportedItem :: "transfer_event \<Rightarrow> transfer_item \<Rightarrow> transfer_item" where
  "reportedItem e t =
     t\<lparr>ti_bytes := te_bytes e, ti_total := te_total e, ti_itemsTotal := first_some (te_itemsTotal e) (ti_itemsTotal t),
       ti_itemsCompleted := first_some (te_itemsCompleted e) (ti_itemsCompleted t)\<rparr>"

definition updatedItem :: "int \<Rightarrow> transfer_event \<Rightarrow> transfer_item \<Rightarrow> transfer_state \<Rightarrow> transfer_state" where
  "updatedItem now e old st =
     (let i = te_id e; t = reportedItem e old in
      case te_status e of
        EvProgress \<Rightarrow>
          (case calculateTransferSpeed (map_of (ts_samples st) i) (te_bytes e) now of (samples, speed) \<Rightarrow>
             setItem i (t\<lparr>ti_status := Transferring, ti_speed := Some (case first_some speed (ti_speed old) of None \<Rightarrow> 0 | Some v \<Rightarrow> v)\<rparr>)
               (setSamples i samples st))
      | EvPaused \<Rightarrow> setItem i (t\<lparr>ti_status := Paused, ti_speed := None\<rparr>) (dropSamples i st)
      | EvResumed \<Rightarrow>
          setItem i (t\<lparr>ti_status := Transferring, ti_speed := Some 0\<rparr>)
            (setSamples i [\<lparr>sp_bytes = te_bytes e, sp_time = now\<rparr>] st)
      | EvCancelled \<Rightarrow>
          setItem i (t\<lparr>ti_status := Cancelled, ti_speed := None, ti_queueState := None, ti_error := None, ti_timestamp := now\<rparr>)
            (dropSamples i st)
      | EvCompleted \<Rightarrow>
          setItem i (t\<lparr>ti_status := Completed, ti_size := te_size e, ti_speed := None, ti_queueState := None,
              ti_error := te_error e, ti_timestamp := now\<rparr>) (dropSamples i st)
      | EvError \<Rightarrow>
          setItem i (t\<lparr>ti_status := Errored, ti_size := te_size e, ti_speed := None, ti_queueState := None,
              ti_error := te_error e, ti_timestamp := now\<rparr>) (dropSamples i st)
      | EvStarted \<Rightarrow> st)"

definition onTransferEvent :: "int \<Rightarrow> transfer_event \<Rightarrow> transfer_state \<Rightarrow> transfer_state" where
  "onTransferEvent now e st =
     (let i = te_id e in
      if te_status e = EvStarted then
        (if te_parent e \<noteq> None \<and> te_parent e \<noteq> Some [] then pruneRetainedTransfers now st
         else pruneRetainedTransfers now
                (setItem i (startedItem now e (map_of (ts_queued st) i \<noteq> None) (getItem st i))
                  (setSamples i [\<lparr>sp_bytes = te_bytes e, sp_time = now\<rparr>] st)))
      else (let st1 = pruneRetainedTransfers now (case getItem st i of None \<Rightarrow> st | Some old \<Rightarrow> updatedItem now e old st)
            in if te_status e \<in> {EvCancelled, EvCompleted, EvError}
               then st1\<lparr>ts_parked := filter (\<lambda>j. j \<noteq> i) (ts_parked st1), ts_queued := AList.delete i (ts_queued st1)\<rparr>
               else st1))"

section \<open>Starting transfers\<close>

definition running :: "transfer_state \<Rightarrow> transfer_direction \<Rightarrow> int" where
  "running st d = int (length (filter (\<lambda>(k, t). ti_queueState t = Some QRunning \<and> ti_status t = Transferring \<and> ti_direction t = d) (ts_map st)))"

definition queuedCandidates :: "transfer_state \<Rightarrow> transfer_item list" where
  "queuedCandidates st =
     filter (\<lambda>t. (map_of (ts_queued st) (ti_id t) \<noteq> None \<or> ti_id t \<in> set (ts_parked st)) \<and> ti_status t = Queued) (map snd (ts_map st))"

text \<open>The call that starts a request; \<open>None\<close> is the error about a missing endpoint.\<close>

definition startCall :: "js_text \<Rightarrow> transfer_request \<Rightarrow> backend_call option" where
  "startCall i rq =
     (case rq_direction rq of
        CopyTransfer \<Rightarrow>
          (case (rq_source rq, rq_target rq) of
             (Some s, Some t) \<Rightarrow> Some (CopyFileEntry s t (rq_name rq) (rq_kind rq = TransferDirectory) i (rq_override rq))
           | _ \<Rightarrow> None)
      | Upload \<Rightarrow>
          (if rq_kind rq = TransferDirectory then Some (UploadLocalDirectory (rq_session rq) (rq_local rq) (rq_remote rq) i (rq_override rq))
           else Some (UploadLocalFile (rq_session rq) (rq_local rq) (rq_remote rq) i (rq_override rq)))
      | Download \<Rightarrow>
          (if rq_kind rq = TransferDirectory then Some (DownloadRemoteDirectory (rq_session rq) (rq_remote rq) (rq_local rq) i)
           else Some (DownloadRemoteFile (rq_session rq) (rq_remote rq) (rq_local rq) i)))"

definition markRunning :: "js_text \<Rightarrow> transfer_state \<Rightarrow> transfer_state" where
  "markRunning i st =
     (case getItem st i of None \<Rightarrow> st
      | Some t \<Rightarrow> if ti_status t \<noteq> Queued then st
                  else setItem i (t\<lparr>ti_status := Transferring, ti_queueState := Some QRunning, ti_error := None\<rparr>) st)"

definition addWait :: "wait \<Rightarrow> transfer_state \<Rightarrow> transfer_state" where
  "addWait w st = st\<lparr>ts_waiting := ts_waiting st @ [w]\<rparr>"

type_synonym pass_state = "(transfer_direction \<Rightarrow> int) \<times> transfer_state \<times> (js_text \<times> backend_call option) list"

definition startCandidate :: "(transfer_direction \<Rightarrow> int) \<Rightarrow> transfer_item \<Rightarrow> pass_state \<Rightarrow> pass_state" where
  "startCandidate limit c p =
     (case p of (busy, st, calls) \<Rightarrow>
        let d = ti_direction c; i = ti_id c in
        if busy d \<ge> limit d then p
        else if i \<in> set (ts_parked st) then
          (busy(d := busy d + 1),
           addWait (ResumeWait i) (markRunning i (st\<lparr>ts_parked := filter (\<lambda>j. j \<noteq> i) (ts_parked st)\<rparr>)),
           calls @ [(i, Some (ResumeTransfer i))])
        else (case map_of (ts_queued st) i of None \<Rightarrow> p
              | Some rq \<Rightarrow>
                  (busy(d := busy d + 1),
                   addWait (StartWait i) (markRunning i (st\<lparr>ts_queued := AList.delete i (ts_queued st)\<rparr>)),
                   calls @ [(i, startCall i rq)])))"

definition runQueue :: "(transfer_direction \<Rightarrow> int) \<Rightarrow> transfer_state \<Rightarrow> transfer_state \<times> (js_text \<times> backend_call option) list" where
  "runQueue limit st = snd (fold (startCandidate limit) (queuedCandidates st) (running st, st, []))"

section \<open>Commands of the user\<close>

definition clearCompleted :: "int \<Rightarrow> transfer_state \<Rightarrow> transfer_state" where
  "clearCompleted now st =
     (let done = map fst (filter (\<lambda>(k, t). ti_status t = Completed) (ts_map st)); st' = fold cleanupTransferArtifacts done st
      in pruneRetainedTransfers now (st'\<lparr>ts_map := filter (\<lambda>(k, t). ti_status t \<noteq> Completed) (ts_map st')\<rparr>))"

definition clearAll :: "transfer_state \<Rightarrow> transfer_state" where
  "clearAll st = st\<lparr>ts_map := [], ts_queued := [], ts_parked := [], ts_samples := []\<rparr>"

definition removeTransfer :: "js_text \<Rightarrow> transfer_state \<Rightarrow> transfer_state \<times> backend_call list" where
  "removeTransfer i st =
     (let st' = cleanupTransferArtifacts i st
      in (st'\<lparr>ts_map := AList.delete i (ts_map st')\<rparr>, if i \<in> set (ts_parked st) then [CancelTransfer i] else []))"

definition statusOf :: "transfer_state \<Rightarrow> js_text \<Rightarrow> transfer_status option" where
  "statusOf st i = map_option ti_status (getItem st i)"

definition setStatus :: "js_text \<Rightarrow> (transfer_item \<Rightarrow> transfer_item) \<Rightarrow> transfer_state \<Rightarrow> transfer_state" where
  "setStatus i f st = (case getItem st i of None \<Rightarrow> st | Some t \<Rightarrow> setItem i (f t) st)"

definition pauseTransfer :: "js_text \<Rightarrow> transfer_state \<Rightarrow> transfer_state \<times> backend_call list" where
  "pauseTransfer i st =
     (if map_of (ts_queued st) i \<noteq> None \<and> statusOf st i = Some Queued then
        (setStatus i (\<lambda>t. t\<lparr>ti_status := Paused, ti_speed := None\<rparr>) (dropSamples i st), [])
      else if i \<in> set (ts_parked st) \<and> statusOf st i = Some Queued then
        (setStatus i (\<lambda>t. t\<lparr>ti_status := Paused, ti_speed := None, ti_queueState := Some QRunning\<rparr>) (dropSamples i st), [])
      else (st, [PauseTransfer i]))"

definition resumeTransfer :: "js_text \<Rightarrow> transfer_state \<Rightarrow> transfer_state \<times> backend_call list" where
  "resumeTransfer i st =
     (if map_of (ts_queued st) i \<noteq> None \<and> statusOf st i = Some Paused then
        (setStatus i (\<lambda>t. t\<lparr>ti_status := Queued, ti_speed := None\<rparr>) (dropSamples i st), [])
      else if Option.bind (getItem st i) ti_queueState = Some QRunning \<and> statusOf st i = Some Paused then
        (setStatus i (\<lambda>t. t\<lparr>ti_status := Queued, ti_speed := None, ti_queueState := Some QPending\<rparr>)
           (dropSamples i (st\<lparr>ts_parked := List.insert i (ts_parked st)\<rparr>)), [])
      else (st, [ResumeTransfer i]))"

definition markCancelled :: "int \<Rightarrow> js_text \<Rightarrow> transfer_state \<Rightarrow> transfer_state" where
  "markCancelled now i st =
     (case getItem st i of None \<Rightarrow> st
      | Some t \<Rightarrow> if ti_status t \<in> {Completed, Errored} then st
                  else pruneRetainedTransfers now (setItem i (t\<lparr>ti_status := Cancelled, ti_speed := None,
                         ti_queueState := None, ti_error := None, ti_timestamp := now\<rparr>) st))"

definition cancelTransfer :: "int \<Rightarrow> js_text \<Rightarrow> transfer_state \<Rightarrow> transfer_state \<times> backend_call list" where
  "cancelTransfer now i st =
     (if map_of (ts_queued st) i \<noteq> None then (markCancelled now i (cleanupTransferArtifacts i st), [])
      else if i \<in> set (ts_parked st) then (addWait (CancelParkedWait i) (cleanupTransferArtifacts i st), [CancelTransfer i])
      else if getItem st i = None then (st, [])
      else (addWait (CancelWait i) st, [CancelTransfer i]))"

text \<open>The endpoint fields are set only for copies; an empty session or path makes the request incomplete.\<close>

definition retryEndpoint :: "transfer_item \<Rightarrow> endpoint option \<Rightarrow> endpoint option" where
  "retryEndpoint t e =
     (if ti_direction t \<noteq> CopyTransfer then None
      else (case e of None \<Rightarrow> None | Some x \<Rightarrow> if ep_session x = [] \<or> ep_path x = [] then None else Some x))"

definition retryRequest :: "transfer_item \<Rightarrow> transfer_request" where
  "retryRequest t =
     \<lparr>rq_session = ti_session t, rq_name = ti_name t, rq_local = ti_local t, rq_remote = ti_remote t, rq_kind = ti_kind t,
      rq_direction = ti_direction t, rq_source = retryEndpoint t (ti_source t), rq_target = retryEndpoint t (ti_target t),
      rq_override = None\<rparr>"

definition retryTransfer :: "int \<Rightarrow> transfer_item \<Rightarrow> transfer_state \<Rightarrow> transfer_state" where
  "retryTransfer now t st =
     (let i = ti_id t in
      setItem i (t\<lparr>ti_status := Queued, ti_bytes := 0, ti_speed := None, ti_total := 0, ti_itemsCompleted := None,
          ti_itemsTotal := None, ti_queueState := Some QPending, ti_error := None, ti_timestamp := now\<rparr>)
        (st\<lparr>ts_parked := filter (\<lambda>j. j \<noteq> i) (ts_parked st), ts_samples := AList.delete i (ts_samples st),
            ts_queued := AList.update i (retryRequest t) (ts_queued st)\<rparr>))"

section \<open>Adding transfers\<close>

definition queuedItem :: "int \<Rightarrow> js_text \<Rightarrow> transfer_request \<Rightarrow> transfer_item" where
  "queuedItem time i rq =
     \<lparr>ti_id = i, ti_session = rq_session rq, ti_name = rq_name rq, ti_remote = rq_remote rq, ti_local = rq_local rq,
      ti_direction = rq_direction rq, ti_kind = rq_kind rq, ti_source = rq_source rq, ti_target = rq_target rq, ti_parent = None,
      ti_status = Queued, ti_size = 0, ti_bytes = 0, ti_speed = None, ti_total = 0, ti_itemsTotal = None,
      ti_itemsCompleted = None, ti_error = None, ti_timestamp = time, ti_queueState = Some QPending, ti_origin = Some Sftp\<rparr>"

definition usableRequests :: "transfer_request list \<Rightarrow> transfer_request list" where
  "usableRequests rqs = filter (\<lambda>rq. rq_session rq \<noteq> [] \<and> rq_local rq \<noteq> [] \<and> rq_remote rq \<noteq> [] \<and> rq_name rq \<noteq> []) rqs"

text \<open>\<open>newIds\<close> are the results of \<open>createTransferId\<close>.\<close>

definition enqueueTransfers :: "int \<Rightarrow> js_text list \<Rightarrow> transfer_request list \<Rightarrow> transfer_state \<Rightarrow> transfer_state" where
  "enqueueTransfers now newIds rqs st =
     fold (\<lambda>(index, i, rq) st.
         setItem i (queuedItem (now + int index) i rq) (st\<lparr>ts_queued := AList.update i rq (ts_queued st)\<rparr>))
       (zip [0..<length (usableRequests rqs)] (zip newIds (usableRequests rqs))) st"

definition copyRequest :: "js_text \<Rightarrow> transfer_kind \<Rightarrow> endpoint \<Rightarrow> endpoint \<Rightarrow> js_text option \<Rightarrow> transfer_request" where
  "copyRequest name kind source target override =
     \<lparr>rq_session = ep_session target, rq_name = name,
      rq_local = (if \<not> ep_remote target then ep_path target else ep_path source),
      rq_remote = (if ep_remote target then ep_path target else ep_path source),
      rq_kind = kind, rq_direction = CopyTransfer, rq_source = Some source, rq_target = Some target, rq_override = override\<rparr>"

section \<open>Transfers of other programs\<close>

record external_progress =
  xp_id :: js_text
  xp_session :: js_text
  xp_name :: js_text
  xp_direction :: transfer_direction
  xp_bytes :: int
  xp_total :: int
  xp_local :: "js_text option"
  xp_remote :: "js_text option"

definition externalItem :: "int \<Rightarrow> external_progress \<Rightarrow> int \<Rightarrow> transfer_item option \<Rightarrow> transfer_item" where
  "externalItem now p speed old =
     \<lparr>ti_id = xp_id p, ti_session = xp_session p, ti_name = xp_name p,
      ti_remote = (case first_some (xp_remote p) (map_option ti_remote old) of None \<Rightarrow> [] | Some r \<Rightarrow> r),
      ti_local = (case first_some (xp_local p) (map_option ti_local old) of None \<Rightarrow> [] | Some r \<Rightarrow> r),
      ti_direction = xp_direction p, ti_kind = TransferFile, ti_source = Option.bind old ti_source,
      ti_target = Option.bind old ti_target, ti_parent = Option.bind old ti_parent, ti_status = Transferring,
      ti_size = (case old of None \<Rightarrow> 0 | Some t \<Rightarrow> ti_size t), ti_bytes = xp_bytes p, ti_speed = Some speed, ti_total = xp_total p,
      ti_itemsTotal = Option.bind old ti_itemsTotal, ti_itemsCompleted = Option.bind old ti_itemsCompleted, ti_error = None,
      ti_timestamp = (case old of None \<Rightarrow> now | Some t \<Rightarrow> ti_timestamp t), ti_queueState = None, ti_origin = Some Zmodem\<rparr>"

definition upsertExternalTransferProgress :: "int \<Rightarrow> external_progress \<Rightarrow> transfer_state \<Rightarrow> transfer_state" where
  "upsertExternalTransferProgress now p st =
     (let i = xp_id p; old = getItem st i;
          current = (case Option.bind old ti_speed of None \<Rightarrow> 0 | Some v \<Rightarrow> v);
          (samples, speed) = (case old of None \<Rightarrow> ([\<lparr>sp_bytes = xp_bytes p, sp_time = now\<rparr>], current)
            | Some t \<Rightarrow> (case calculateTransferSpeed (map_of (ts_samples st) i) (xp_bytes p) now of
                (ss, v) \<Rightarrow> (ss, (case v of None \<Rightarrow> current | Some x \<Rightarrow> x))))
      in pruneRetainedTransfers now (setItem i (externalItem now p speed old) (setSamples i samples st)))"

definition completeExternalTransfer :: "int \<Rightarrow> js_text \<Rightarrow> transfer_state \<Rightarrow> transfer_state" where
  "completeExternalTransfer now i st =
     pruneRetainedTransfers now (setStatus i (\<lambda>t. t\<lparr>ti_status := Completed,
        ti_size := (if ti_total t > 0 then ti_total t else ti_size t),
        ti_bytes := (if ti_total t > 0 then max (ti_bytes t) (ti_total t) else ti_bytes t),
        ti_speed := None, ti_queueState := None, ti_error := None, ti_timestamp := now\<rparr>) (dropSamples i st))"

definition failExternalTransfer :: "int \<Rightarrow> js_text \<Rightarrow> js_text \<Rightarrow> transfer_state \<Rightarrow> transfer_state" where
  "failExternalTransfer now i reason st =
     pruneRetainedTransfers now (setStatus i (\<lambda>t. t\<lparr>ti_status := Errored, ti_speed := None, ti_queueState := None,
        ti_error := Some reason, ti_timestamp := now\<rparr>) (dropSamples i st))"

section \<open>Returning calls\<close>

definition markFailed :: "transfer_status set \<Rightarrow> int \<Rightarrow> js_text \<Rightarrow> js_text \<Rightarrow> transfer_state \<Rightarrow> transfer_state" where
  "markFailed final now i reason st =
     (case getItem st i of None \<Rightarrow> st
      | Some t \<Rightarrow> if ti_status t \<in> final then st
                  else pruneRetainedTransfers now (setItem i (t\<lparr>ti_status := Errored, ti_queueState := None,
                         ti_error := Some reason, ti_timestamp := now\<rparr>) st))"

text \<open>\<open>failure\<close> is the text of the error, if the call failed.\<close>

definition settle :: "int \<Rightarrow> wait \<Rightarrow> js_text option \<Rightarrow> transfer_state \<Rightarrow> transfer_state" where
  "settle now w failure st0 =
     (let st = st0\<lparr>ts_waiting := remove1 w (ts_waiting st0)\<rparr> in
      case w of
        StartWait i \<Rightarrow> (case failure of None \<Rightarrow> st | Some r \<Rightarrow> markFailed {Completed, Cancelled, Errored} now i r st)
      | ResumeWait i \<Rightarrow> (case failure of None \<Rightarrow> st | Some r \<Rightarrow> markFailed {Completed, Cancelled} now i r st)
      | CancelWait i \<Rightarrow> (case failure of None \<Rightarrow> markCancelled now i (cleanupTransferArtifacts i st) | Some r \<Rightarrow> st)
      | CancelParkedWait i \<Rightarrow> markCancelled now i st)"

section \<open>The invariant\<close>

text \<open>A queued transfer has a request, is parked, or is being cancelled.\<close>

definition claimed :: "transfer_state \<Rightarrow> js_text \<Rightarrow> bool" where
  "claimed st i \<longleftrightarrow> map_of (ts_queued st) i \<noteq> None \<or> i \<in> set (ts_parked st) \<or> CancelParkedWait i \<in> set (ts_waiting st)"

definition tidy_items :: "(js_text \<times> transfer_item) list \<Rightarrow> bool" where
  "tidy_items m \<longleftrightarrow> distinct (map fst m) \<and> (\<forall>(k, t) \<in> set m. k = ti_id t)"

text \<open>Outside \<open>X\<close>, queued transfers are claimed.\<close>

definition queue_base :: "js_text set \<Rightarrow> transfer_state \<Rightarrow> bool" where
  "queue_base X st \<longleftrightarrow> tidy_items (ts_map st)
     \<and> (\<forall>i t. i \<notin> X \<longrightarrow> getItem st i = Some t \<longrightarrow> ti_status t = Queued \<longrightarrow> claimed st i)
     \<and> (\<forall>i. map_of (ts_queued st) i \<noteq> None \<or> i \<in> set (ts_parked st) \<longrightarrow> getItem st i \<noteq> None)
     \<and> (\<forall>i \<in> set (ts_parked st). map_of (ts_queued st) i = None)"

definition finished_count :: "transfer_state \<Rightarrow> nat" where
  "finished_count st = length (filter (\<lambda>(k, t). isFinishedTransferStatus (ti_status t)) (ts_map st))"

definition transfer_inv :: "transfer_state \<Rightarrow> bool" where
  "transfer_inv st \<longleftrightarrow> queue_base {} st \<and> finished_count st \<le> 200"

lemma delete_lookup [simp]: "map_of (AList.delete i m) j = (if j = i then None else map_of m j)"
  by (simp add: delete_conv')

lemma update_lookup [simp]: "map_of (AList.update i v m) j = (if j = i then Some v else map_of m j)"
  by (simp add: update_conv')

lemma set_update_sub: "x \<in> set (AList.update k v m) \<Longrightarrow> x = (k, v) \<or> x \<in> set m"
  by (induction m) (auto split: if_splits)

lemma tidy_update: "tidy_items m \<Longrightarrow> ti_id t = i \<Longrightarrow> tidy_items (AList.update i t m)"
  by (auto simp: tidy_items_def distinct_update dest!: set_update_sub)

lemma tidy_filter: "tidy_items m \<Longrightarrow> tidy_items (filter P m)"
  by (auto simp: tidy_items_def distinct_map_filter)

lemma tidy_delete: "tidy_items m \<Longrightarrow> tidy_items (AList.delete i m)"
  unfolding AList.delete_eq by (rule tidy_filter)

lemma tidy_id: "tidy_items m \<Longrightarrow> map_of m i = Some t \<Longrightarrow> ti_id t = i"
  by (auto simp: tidy_items_def dest!: map_of_SomeD)

lemma queue_base_mono: "queue_base X st \<Longrightarrow> X \<subseteq> Y \<Longrightarrow> queue_base Y st"
  unfolding queue_base_def by blast

lemma filter_lookup: "distinct (map fst m) \<Longrightarrow> map_of (filter (\<lambda>(k, t). P k) m) i = (if P i then map_of m i else None)"
  by (induction m) (auto simp: map_of_eq_None_iff)

text \<open>How the building blocks act.\<close>

lemma cleanup_fields [simp]:
  "ts_map (cleanupTransferArtifacts i st) = ts_map st" "ts_waiting (cleanupTransferArtifacts i st) = ts_waiting st"
  "map_of (ts_queued (cleanupTransferArtifacts i st)) j = (if j = i then None else map_of (ts_queued st) j)"
  "j \<in> set (ts_parked (cleanupTransferArtifacts i st)) \<longleftrightarrow> j \<in> set (ts_parked st) \<and> j \<noteq> i"
  "getItem (cleanupTransferArtifacts i st) j = getItem st j"
  by (auto simp: cleanupTransferArtifacts_def getItem_def)

lemma setItem_fields [simp]:
  "ts_waiting (setItem i t st) = ts_waiting st" "ts_queued (setItem i t st) = ts_queued st" "ts_parked (setItem i t st) = ts_parked st"
  "getItem (setItem i t st) j = (if j = i then Some t else getItem st j)" "ts_map (setItem i t st) = AList.update i t (ts_map st)"
  "ts_samples (setItem i t st) = ts_samples st"
  by (simp_all add: setItem_def getItem_def)

lemma samples_fields [simp]:
  "ts_map (setSamples i ss st) = ts_map st" "ts_waiting (setSamples i ss st) = ts_waiting st" "ts_queued (setSamples i ss st) = ts_queued st"
  "ts_parked (setSamples i ss st) = ts_parked st" "getItem (setSamples i ss st) j = getItem st j"
  "ts_map (dropSamples i st) = ts_map st" "ts_waiting (dropSamples i st) = ts_waiting st" "ts_queued (dropSamples i st) = ts_queued st"
  "ts_parked (dropSamples i st) = ts_parked st" "getItem (dropSamples i st) j = getItem st j"
  by (simp_all add: setSamples_def dropSamples_def getItem_def)

lemma cleanup_base: "queue_base X st \<Longrightarrow> queue_base (insert i X) (cleanupTransferArtifacts i st)"
  by (simp add: queue_base_def claimed_def)

lemma cleanups_base: "queue_base X st \<Longrightarrow> queue_base (X \<union> set ids) (fold cleanupTransferArtifacts ids st)"
proof (induction ids arbitrary: X st)
  case (Cons i ids)
  from Cons.IH [OF cleanup_base [OF Cons.prems], of i] show ?case by simp
qed simp

lemma cleanups_fields [simp]:
  "ts_map (fold cleanupTransferArtifacts ids st) = ts_map st" "ts_waiting (fold cleanupTransferArtifacts ids st) = ts_waiting st"
  "map_of (ts_queued (fold cleanupTransferArtifacts ids st)) j = (if j \<in> set ids then None else map_of (ts_queued st) j)"
  "j \<in> set (ts_parked (fold cleanupTransferArtifacts ids st)) \<longleftrightarrow> j \<in> set (ts_parked st) \<and> j \<notin> set ids"
  by (induction ids arbitrary: st) auto

lemma samples_base [simp]: "queue_base X (setSamples i ss st) = queue_base X st" "queue_base X (dropSamples i st) = queue_base X st"
  by (simp_all add: queue_base_def claimed_def)

lemma setItem_base:
  "queue_base X st \<Longrightarrow> ti_id t = i \<Longrightarrow> ti_status t = Queued \<longrightarrow> claimed st i \<Longrightarrow> queue_base (X - {i}) (setItem i t st)"
  by (auto simp: queue_base_def claimed_def tidy_update)

lemma setItem_base_empty:
  "queue_base {} st \<Longrightarrow> ti_id t = i \<Longrightarrow> ti_status t = Queued \<longrightarrow> claimed st i \<Longrightarrow> queue_base {} (setItem i t st)"
  using setItem_base [of "{}" st t i] by simp

lemma restrict_base:
  assumes "queue_base X st" "\<And>i. map_of (ts_queued st) i \<noteq> None \<or> i \<in> set (ts_parked st) \<Longrightarrow> P i"
  shows "queue_base {i \<in> X. P i} (st\<lparr>ts_map := filter (\<lambda>(k, t). P k) (ts_map st)\<rparr>)"
proof -
  have "map_of (filter (\<lambda>(k, t). P k) (ts_map st)) i = (if P i then map_of (ts_map st) i else None)" for i
    using assms(1) by (intro filter_lookup) (simp add: queue_base_def tidy_items_def)
  with assms show ?thesis unfolding queue_base_def by (auto simp: tidy_filter getItem_def claimed_def)
qed

lemma prune_base: "queue_base X st \<Longrightarrow> queue_base X (pruneRetainedTransfers now st)"
proof -
  assume b: "queue_base X st"
  let ?p = "getPrunedTransferIds (retainables st) now"
  let ?st = "fold cleanupTransferArtifacts ?p st"
  have "queue_base {i \<in> X \<union> set ?p. i \<notin> set ?p} (?st\<lparr>ts_map := filter (\<lambda>(k, t). k \<notin> set ?p) (ts_map ?st)\<rparr>)"
    by (rule restrict_base [OF cleanups_base [OF b]]) auto
  then show ?thesis unfolding pruneRetainedTransfers_def Let_def by (rule queue_base_mono) auto
qed

lemma prune_finished:
  assumes "tidy_items (ts_map st)"
  shows "finished_count (pruneRetainedTransfers now st) \<le> 200"
proof -
  let ?p = "getPrunedTransferIds (retainables st) now"
  let ?r = "\<lambda>(k, t). \<lparr>rt_id = ti_id t, rt_status = ti_status t, rt_timestamp = ti_timestamp t\<rparr>"
  have ids: "map rt_id (retainables st) = map fst (ts_map st)"
    using assms by (auto simp: retainables_def tidy_items_def)
  then have "distinct (map rt_id (retainables st))" using assms by (simp add: tidy_items_def)
  from retention_bounds [OF this, of now]
  have "length (filter (\<lambda>t. isFinishedTransferStatus (rt_status t)) (filter (\<lambda>t. rt_id t \<notin> set ?p) (retainables st))) \<le> 200"
    by (simp only: Let_def)
  also have "filter (\<lambda>t. isFinishedTransferStatus (rt_status t)) (filter (\<lambda>t. rt_id t \<notin> set ?p) (retainables st))
      = map ?r (filter (\<lambda>(k, t). isFinishedTransferStatus (ti_status t)) (filter (\<lambda>(k, t). k \<notin> set ?p) (ts_map st)))"
    using assms by (auto simp: retainables_def filter_map o_def tidy_items_def split_def intro!: filter_cong arg_cong [of _ _ "map _"])
  finally show ?thesis by (simp add: finished_count_def pruneRetainedTransfers_def Let_def)
qed

lemma pruneTransfers_inv: "queue_base {} st \<Longrightarrow> transfer_inv (pruneRetainedTransfers now st)"
  unfolding transfer_inv_def using prune_base [of "{}" st now] prune_finished [of st now] by (simp add: queue_base_def)

lemma count_update:
  "length (filter P (AList.update k v m)) \<le> length (filter P m) + (if P (k, v) then 1 else 0)"
  by (induction m) auto

lemma setItem_finished: "\<not> isFinishedTransferStatus (ti_status t) \<Longrightarrow> finished_count (setItem i t st) \<le> finished_count st"
  using count_update [of "\<lambda>(k, t). isFinishedTransferStatus (ti_status t)" i t "ts_map st"] by (simp add: finished_count_def)

lemma setItem_inv:
  "transfer_inv st \<Longrightarrow> ti_id t = i \<Longrightarrow> ti_status t = Queued \<longrightarrow> claimed st i \<Longrightarrow> \<not> isFinishedTransferStatus (ti_status t) \<Longrightarrow>
   transfer_inv (setItem i t st)"
  unfolding transfer_inv_def using setItem_base_empty setItem_finished le_trans by blast

lemma getItem_id: "queue_base X st \<Longrightarrow> getItem st i = Some t \<Longrightarrow> ti_id t = i"
  by (auto simp: queue_base_def getItem_def tidy_id)

lemmas finished_simps [simp] = isFinishedTransferStatus_def

lemma inv_base: "transfer_inv st \<Longrightarrow> queue_base {} st"
  by (simp add: transfer_inv_def)

lemma settled_inv:
  "transfer_inv st \<Longrightarrow> transfer_inv (st\<lparr>ts_parked := filter (\<lambda>j. j \<noteq> i) (ts_parked st), ts_queued := AList.delete i (ts_queued st)\<rparr>)"
  if "\<And>t. getItem st i = Some t \<Longrightarrow> ti_status t \<noteq> Queued"
  using that by (fastforce simp: transfer_inv_def queue_base_def finished_count_def claimed_def getItem_def)

lemma prune_getItem: "getItem (pruneRetainedTransfers now st) i = Some t \<Longrightarrow> tidy_items (ts_map st) \<Longrightarrow> getItem st i = Some t"
  by (auto simp: pruneRetainedTransfers_def Let_def getItem_def tidy_items_def filter_lookup split: if_splits)

lemma updated_base: "queue_base {} st \<Longrightarrow> getItem st (te_id e) = Some old \<Longrightarrow> te_status e \<noteq> EvStarted \<Longrightarrow> queue_base {} (updatedItem now e old st)"
  by (cases "te_status e")
    (auto simp: updatedItem_def reportedItem_def getItem_id Let_def intro!: setItem_base_empty split: prod.split)

lemma updated_status:
  "te_status e \<in> {EvCancelled, EvCompleted, EvError} \<Longrightarrow> getItem (updatedItem now e old st) (te_id e) = Some t \<Longrightarrow> ti_status t \<noteq> Queued"
  by (auto simp: updatedItem_def Let_def)

lemma event_inv: "transfer_inv st \<Longrightarrow> transfer_inv (onTransferEvent now e st)"
proof -
  assume inv: "transfer_inv st"
  note b = inv_base [OF inv]
  show ?thesis
  proof (cases "te_status e = EvStarted")
    case True
    then show ?thesis using b
      by (auto simp: onTransferEvent_def Let_def startedItem_def intro!: pruneTransfers_inv setItem_base_empty)
  next
    case False
    let ?st = "case getItem st (te_id e) of None \<Rightarrow> st | Some old \<Rightarrow> updatedItem now e old st"
    have b': "queue_base {} ?st" using b updated_base [OF b _ False] by (auto split: option.split)
    then have i: "transfer_inv (pruneRetainedTransfers now ?st)" by (rule pruneTransfers_inv)
    show ?thesis
    proof (cases "te_status e \<in> {EvCancelled, EvCompleted, EvError}")
      case True
      have "ti_status t \<noteq> Queued" if "getItem (pruneRetainedTransfers now ?st) (te_id e) = Some t" for t
      proof -
        have g: "getItem ?st (te_id e) = Some t"
        proof (rule prune_getItem [OF that])
          show "tidy_items (ts_map ?st)" using b' unfolding queue_base_def by blast
        qed
        show ?thesis
        proof (cases "getItem st (te_id e)")
          case None
          with g show ?thesis by simp
        next
          case (Some old)
          with g updated_status [OF True, of now old st t] show ?thesis by simp
        qed
      qed
      from settled_inv [OF this i] show ?thesis
        by (simp only: onTransferEvent_def Let_def False True if_True if_False)
    next
      case F: False
      from i show ?thesis by (simp only: onTransferEvent_def Let_def False F if_False)
    qed
  qed
qed

lemma queue_base_drop:
  assumes "queue_base (insert i X) st" "\<And>t. getItem st i = Some t \<Longrightarrow> ti_status t \<noteq> Queued"
  shows "queue_base X st"
  using assms unfolding queue_base_def by (metis insert_iff)

lemma markRunning_inv:
  assumes "queue_base {i} st" "finished_count st \<le> 200"
  shows "transfer_inv (markRunning i st)"
proof (cases "getItem st i")
  case None
  with assms queue_base_drop [of i "{}" st] show ?thesis by (simp add: markRunning_def transfer_inv_def)
next
  case (Some t)
  note id = getItem_id [OF assms(1) Some]
  show ?thesis
  proof (cases "ti_status t = Queued")
    case True
    let ?t = "t\<lparr>ti_status := Transferring, ti_queueState := Some QRunning, ti_error := None\<rparr>"
    have "queue_base {} (setItem i ?t st)" using setItem_base [OF assms(1), of ?t i] id by simp
    moreover have "finished_count (setItem i ?t st) \<le> 200" using setItem_finished [of ?t i st] assms(2) by simp
    ultimately show ?thesis using Some True by (simp add: markRunning_def transfer_inv_def)
  next
    case False
    with Some assms queue_base_drop [of i "{}" st] show ?thesis by (simp add: markRunning_def transfer_inv_def)
  qed
qed

lemma addWait_inv: "transfer_inv st \<Longrightarrow> transfer_inv (addWait w st)"
  by (auto simp: transfer_inv_def queue_base_def addWait_def claimed_def getItem_def finished_count_def)

lemma candidate_inv: "transfer_inv (fst (snd p)) \<Longrightarrow> transfer_inv (fst (snd (startCandidate limit c p)))"
proof -
  assume inv: "transfer_inv (fst (snd p))"
  obtain busy st calls where p: "p = (busy, st, calls)" by (cases p)
  with inv have st: "transfer_inv st" by simp
  then have "queue_base {ti_id c} (st\<lparr>ts_parked := filter (\<lambda>j. j \<noteq> ti_id c) (ts_parked st)\<rparr>)"
    "queue_base {ti_id c} (st\<lparr>ts_queued := AList.delete (ti_id c) (ts_queued st)\<rparr>)"
    by (auto simp: transfer_inv_def queue_base_def claimed_def getItem_def)
  moreover have "finished_count (st\<lparr>ts_parked := q\<rparr>) \<le> 200" "finished_count (st\<lparr>ts_queued := r\<rparr>) \<le> 200" for q r
    using st by (simp_all add: transfer_inv_def finished_count_def)
  ultimately show ?thesis using st
    by (auto simp: p startCandidate_def Let_def intro!: addWait_inv markRunning_inv split: option.split)
qed

lemma runQueue_inv: "transfer_inv st \<Longrightarrow> transfer_inv (fst (runQueue limit st))"
proof -
  have "transfer_inv (fst (snd p)) \<Longrightarrow> transfer_inv (fst (snd (fold (startCandidate limit) cs p)))" for cs p
    by (induction cs arbitrary: p) (simp_all add: candidate_inv)
  from this [of "(running st, st, [])"] show "transfer_inv st \<Longrightarrow> ?thesis" by (simp add: runQueue_def)
qed

lemma remove_base: "queue_base X st \<Longrightarrow> map_of (ts_queued st) i = None \<Longrightarrow> i \<notin> set (ts_parked st) \<Longrightarrow>
  queue_base (X - {i}) (st\<lparr>ts_map := AList.delete i (ts_map st)\<rparr>)"
  by (auto simp: queue_base_def claimed_def getItem_def tidy_delete)

lemma delete_finished: "finished_count (st\<lparr>ts_map := AList.delete i (ts_map st)\<rparr>) \<le> finished_count st"
proof -
  have "length (filter P (AList.delete i m)) \<le> length (filter P m)" for P and m :: "(js_text \<times> transfer_item) list"
    by (induction m) auto
  then show ?thesis by (simp add: finished_count_def)
qed

lemma getItem_fields [simp]:
  "getItem (st\<lparr>ts_waiting := ws\<rparr>) = getItem st" "getItem (st\<lparr>ts_parked := ps\<rparr>) = getItem st"
  "getItem (st\<lparr>ts_queued := qs\<rparr>) = getItem st" "getItem (st\<lparr>ts_samples := ss\<rparr>) = getItem st"
  by (simp_all add: getItem_def fun_eq_iff)

lemma setStatus_inv:
  "transfer_inv st \<Longrightarrow> (\<And>t. getItem st i = Some t \<Longrightarrow> ti_id (f t) = ti_id t \<and> \<not> isFinishedTransferStatus (ti_status (f t)) \<and> (ti_status (f t) = Queued \<longrightarrow> claimed st i)) \<Longrightarrow>
   transfer_inv (setStatus i f st)"
  by (auto simp: setStatus_def getItem_id [OF inv_base] intro!: setItem_inv split: option.split)

lemma setStatus_base:
  "queue_base {} st \<Longrightarrow> (\<And>t. getItem st i = Some t \<Longrightarrow> ti_id (f t) = ti_id t \<and> ti_status (f t) \<noteq> Queued) \<Longrightarrow> queue_base {} (setStatus i f st)"
  by (auto simp: setStatus_def getItem_id intro!: setItem_base_empty split: option.split)

lemma finished_samples [simp]: "finished_count (dropSamples i st) = finished_count st" "finished_count (setSamples i ss st) = finished_count st"
  by (simp_all add: finished_count_def)

lemma samples_inv [simp]: "transfer_inv (dropSamples i st) = transfer_inv st" "transfer_inv (setSamples i ss st) = transfer_inv st"
  by (simp_all add: transfer_inv_def)

lemma samples_claimed [simp]: "claimed (dropSamples i st) = claimed st"
  by (intro ext) (simp add: claimed_def)

lemma markCancelled_base:
  assumes "queue_base {i} st" "finished_count st \<le> 200" "\<And>t. getItem st i = Some t \<Longrightarrow> ti_status t \<in> {Completed, Errored} \<Longrightarrow> queue_base {} st"
  shows "transfer_inv (markCancelled now i st)"
proof (cases "getItem st i")
  case None
  with assms queue_base_drop [of i "{}" st] show ?thesis by (simp add: markCancelled_def transfer_inv_def)
next
  case (Some t)
  note id = getItem_id [OF assms(1) Some]
  let ?t = "t\<lparr>ti_status := Cancelled, ti_speed := None, ti_queueState := None, ti_error := None, ti_timestamp := now\<rparr>"
  show ?thesis
  proof (cases "ti_status t \<in> {Completed, Errored}")
    case True
    with Some assms show ?thesis by (auto simp: markCancelled_def transfer_inv_def)
  next
    case False
    have "queue_base {} (setItem i ?t st)" using setItem_base [OF assms(1), of ?t i] id by simp
    then show ?thesis using Some False by (simp add: markCancelled_def pruneTransfers_inv)
  qed
qed

lemma cleanup_finished [simp]: "finished_count (cleanupTransferArtifacts i st) = finished_count st"
  by (simp add: finished_count_def)

lemma cancel_cleaned_inv: "transfer_inv st \<Longrightarrow> transfer_inv (markCancelled now i (cleanupTransferArtifacts i st))"
proof (rule markCancelled_base)
  assume inv: "transfer_inv st"
  show "queue_base {i} (cleanupTransferArtifacts i st)" using cleanup_base [OF inv_base [OF inv], of i] by simp
  then show "queue_base {} (cleanupTransferArtifacts i st)"
    if "getItem (cleanupTransferArtifacts i st) i = Some t" "ti_status t \<in> {Completed, Errored}" for t
    using that by (intro queue_base_drop [of i "{}"]) auto
qed (simp add: transfer_inv_def)

lemma cancelParked_inv: "transfer_inv st \<Longrightarrow> transfer_inv (addWait (CancelParkedWait i) (cleanupTransferArtifacts i st))"
  by (auto simp: transfer_inv_def queue_base_def claimed_def addWait_def getItem_def finished_count_def)

lemma cancelTransfer_inv: "transfer_inv st \<Longrightarrow> transfer_inv (fst (cancelTransfer now i st))"
  by (simp add: cancelTransfer_def cancel_cleaned_inv cancelParked_inv addWait_inv)

lemma markFailed_inv: "transfer_inv st \<Longrightarrow> transfer_inv (markFailed final now i r st)"
  using inv_base [of st] getItem_id [of "{}" st i]
  by (auto simp: markFailed_def intro!: pruneTransfers_inv setItem_base_empty split: option.split)

lemma settle_inv:
  assumes inv: "transfer_inv st"
  shows "transfer_inv (settle now w failure st)"
proof -
  let ?st = "st\<lparr>ts_waiting := remove1 w (ts_waiting st)\<rparr>"
  have fields: "finished_count ?st = finished_count st" by (simp add: finished_count_def)
  have waits: "v \<in> set (remove1 w ws) \<longleftrightarrow> v \<in> set ws" if "v \<noteq> w" for v and ws :: "wait list"
    using that by simp
  show ?thesis
  proof (cases "\<exists>i. w = CancelParkedWait i")
    case True
    then obtain i where w: "w = CancelParkedWait i" by blast
    have "queue_base {i} ?st" using inv w waits
      by (auto simp: transfer_inv_def queue_base_def claimed_def)
    then have "transfer_inv (markCancelled now i ?st)"
    proof (rule markCancelled_base)
      show "queue_base {} ?st" if "getItem ?st i = Some t" "ti_status t \<in> {Completed, Errored}" for t
        using that \<open>queue_base {i} ?st\<close> by (intro queue_base_drop [of i "{}"]) auto
    qed (use inv fields in \<open>simp add: transfer_inv_def\<close>)
    then show ?thesis by (simp add: settle_def w)
  next
    case False
    then have "CancelParkedWait j \<noteq> w" for j by blast
    then have "CancelParkedWait j \<in> set (ts_waiting ?st) \<longleftrightarrow> CancelParkedWait j \<in> set (ts_waiting st)" for j
      using waits [of "CancelParkedWait j" "ts_waiting st"] by simp
    then have "transfer_inv ?st" using inv by (simp add: transfer_inv_def queue_base_def claimed_def fields)
    with False show ?thesis
      by (cases w) (auto simp: settle_def Let_def intro!: markFailed_inv cancel_cleaned_inv split: option.split)
  qed
qed

lemma putQueued_inv:
  assumes "transfer_inv st" "i \<notin> set (ts_parked st)" "ti_id t = i" "ti_status t = Queued"
  shows "transfer_inv (setItem i t (st\<lparr>ts_queued := AList.update i rq (ts_queued st)\<rparr>))"
proof -
  have "finished_count (setItem i t (st\<lparr>ts_queued := AList.update i rq (ts_queued st)\<rparr>)) \<le> finished_count st"
    using setItem_finished [of t i "st\<lparr>ts_queued := AList.update i rq (ts_queued st)\<rparr>"] assms(4) by (simp add: finished_count_def)
  moreover have "queue_base {} (setItem i t (st\<lparr>ts_queued := AList.update i rq (ts_queued st)\<rparr>))"
    using assms by (auto simp: transfer_inv_def queue_base_def claimed_def tidy_update getItem_def)
  ultimately show ?thesis using assms(1) by (simp add: transfer_inv_def)
qed

lemma retry_inv: "transfer_inv st \<Longrightarrow> transfer_inv (retryTransfer now t st)"
proof -
  assume inv: "transfer_inv st"
  let ?i = "ti_id t"
  let ?st = "st\<lparr>ts_parked := filter (\<lambda>j. j \<noteq> ?i) (ts_parked st), ts_samples := AList.delete ?i (ts_samples st),
            ts_queued := AList.update ?i (retryRequest t) (ts_queued st)\<rparr>"
  let ?t = "t\<lparr>ti_status := Queued, ti_bytes := 0, ti_speed := None, ti_total := 0, ti_itemsCompleted := None,
          ti_itemsTotal := None, ti_queueState := Some QPending, ti_error := None, ti_timestamp := now\<rparr>"
  have "finished_count (setItem ?i ?t ?st) \<le> finished_count st"
    using setItem_finished [of ?t ?i ?st] by (simp add: finished_count_def)
  moreover have "queue_base {} (setItem ?i ?t ?st)"
    using inv by (auto simp: transfer_inv_def queue_base_def claimed_def tidy_update getItem_def)
  ultimately show ?thesis using inv by (simp add: transfer_inv_def retryTransfer_def Let_def)
qed

lemma enqueueTransfers_inv:
  assumes "transfer_inv st" "set newIds \<inter> fst ` set (ts_map st) = {}"
  shows "transfer_inv (enqueueTransfers now newIds rqs st)"
proof -
  let ?f = "\<lambda>(index, i, rq) st. setItem i (queuedItem (now + int index) i rq) (st\<lparr>ts_queued := AList.update i rq (ts_queued st)\<rparr>)"
  have "transfer_inv st \<Longrightarrow> \<forall>(n, i, rq) \<in> set xs. i \<notin> set (ts_parked st) \<Longrightarrow> transfer_inv (fold ?f xs st)" for xs
  proof (induction xs arbitrary: st)
    case (Cons x xs)
    obtain n i rq where x: "x = (n, i, rq)" by (cases x)
    have "transfer_inv (?f x st)" using Cons.prems by (auto simp: x queuedItem_def intro!: putQueued_inv)
    moreover have "ts_parked (?f x st) = ts_parked st" by (simp add: x)
    ultimately show ?case using Cons by simp
  qed simp
  moreover have "\<forall>(n, i, rq) \<in> set (zip [0..<length (usableRequests rqs)] (zip newIds (usableRequests rqs))). i \<notin> set (ts_parked st)"
  proof -
    have parked: "i \<in> set (ts_parked st) \<Longrightarrow> i \<in> fst ` set (ts_map st)" for i
    proof -
      assume "i \<in> set (ts_parked st)"
      then have "map_of (ts_map st) i \<noteq> None" using assms(1) by (auto simp: transfer_inv_def queue_base_def getItem_def)
      then show ?thesis by (simp add: map_of_eq_None_iff)
    qed
    show ?thesis
    proof (intro ballI, clarify)
      fix n i rq assume z: "(n, i, rq) \<in> set (zip [0..<length (usableRequests rqs)] (zip newIds (usableRequests rqs)))" "i \<in> set (ts_parked st)"
      have "i \<in> set newIds" using set_zip_leftD [OF set_zip_rightD [OF z(1)]] .
      with parked [OF z(2)] assms(2) show False by blast
    qed
  qed
  ultimately show ?thesis using assms(1) unfolding enqueueTransfers_def by blast
qed

lemma pause_inv: "transfer_inv st \<Longrightarrow> transfer_inv (fst (pauseTransfer i st))"
  by (auto simp: pauseTransfer_def intro!: setStatus_inv)

lemma resume_inv: "transfer_inv st \<Longrightarrow> transfer_inv (fst (resumeTransfer i st))"
proof -
  assume inv: "transfer_inv st"
  have "transfer_inv (st\<lparr>ts_parked := List.insert i (ts_parked st)\<rparr>)"
    if "map_of (ts_queued st) i = None" "getItem st i \<noteq> None"
    using inv that by (auto simp: transfer_inv_def queue_base_def claimed_def getItem_def finished_count_def)
  then show ?thesis using inv
    by (auto simp: resumeTransfer_def statusOf_def claimed_def intro!: setStatus_inv)
qed

lemma remove_inv: "transfer_inv st \<Longrightarrow> transfer_inv (fst (removeTransfer i st))"
proof -
  assume inv: "transfer_inv st"
  have "queue_base {i} (cleanupTransferArtifacts i st)" using cleanup_base [OF inv_base [OF inv], of i] by simp
  from remove_base [OF this, of i] have "queue_base {} (fst (removeTransfer i st))" by (simp add: removeTransfer_def Let_def)
  moreover have "finished_count (fst (removeTransfer i st)) \<le> finished_count st"
    using delete_finished [where st = "cleanupTransferArtifacts i st" and i = i] by (simp add: removeTransfer_def Let_def)
  ultimately show ?thesis using inv by (simp add: transfer_inv_def)
qed

lemma clearCompleted_inv: "transfer_inv st \<Longrightarrow> transfer_inv (clearCompleted now st)"
proof -
  assume inv: "transfer_inv st"
  let ?done = "map fst (filter (\<lambda>(k, t). ti_status t = Completed) (ts_map st))"
  let ?st = "fold cleanupTransferArtifacts ?done st"
  have d: "distinct (map fst (ts_map st))" using inv by (simp add: transfer_inv_def queue_base_def tidy_items_def)
  have "filter (\<lambda>(k, t). ti_status t \<noteq> Completed) (ts_map st) = filter (\<lambda>(k, t). k \<notin> set ?done) (ts_map st)"
  proof (intro filter_cong refl)
    fix e assume "e \<in> set (ts_map st)"
    then have e: "t = snd e" if "(fst e, t) \<in> set (ts_map st)" for t
      using d that by (metis eq_key_imp_eq_value prod.collapse)
    have "fst e \<in> set ?done \<longleftrightarrow> ti_status (snd e) = Completed"
      using \<open>e \<in> set (ts_map st)\<close> e by (force simp: image_iff)
    then show "(case e of (k, t) \<Rightarrow> ti_status t \<noteq> Completed) = (case e of (k, t) \<Rightarrow> k \<notin> set ?done)" by (simp add: split_def)
  qed
  moreover have "queue_base {i \<in> {} \<union> set ?done. i \<notin> set ?done} (?st\<lparr>ts_map := filter (\<lambda>(k, t). k \<notin> set ?done) (ts_map ?st)\<rparr>)"
    by (rule restrict_base [OF cleanups_base [OF inv_base [OF inv]]]) (metis cleanups_fields(3,4))
  ultimately show ?thesis by (simp add: clearCompleted_def Let_def pruneTransfers_inv)
qed

section \<open>Reachable states\<close>

text \<open>Ids of new transfers are fresh, as \<open>randomUUID\<close> promises. A call returns only once.\<close>

inductive transfer_step :: "(transfer_direction \<Rightarrow> int) \<Rightarrow> transfer_state \<Rightarrow> transfer_state \<Rightarrow> bool" for limit where
  event: "transfer_step limit st (onTransferEvent now e st)"
| start_queued: "transfer_step limit st (fst (runQueue limit st))"
| clear_completed: "transfer_step limit st (clearCompleted now st)"
| clear_all: "transfer_step limit st (clearAll st)"
| remove: "transfer_step limit st (fst (removeTransfer i st))"
| pause: "transfer_step limit st (fst (pauseTransfer i st))"
| resume: "transfer_step limit st (fst (resumeTransfer i st))"
| cancel: "transfer_step limit st (fst (cancelTransfer now i st))"
| retry: "transfer_step limit st (retryTransfer now t st)"
| enqueue: "set newIds \<inter> fst ` set (ts_map st) = {} \<Longrightarrow> transfer_step limit st (enqueueTransfers now newIds rqs st)"
| external_progress: "transfer_step limit st (upsertExternalTransferProgress now p st)"
| external_complete: "transfer_step limit st (completeExternalTransfer now i st)"
| external_fail: "transfer_step limit st (failExternalTransfer now i reason st)"
| returned: "w \<in> set (ts_waiting st) \<Longrightarrow> transfer_step limit st (settle now w failure st)"

lemma external_inv:
  "transfer_inv st \<Longrightarrow> transfer_inv (upsertExternalTransferProgress now p st)"
  "transfer_inv st \<Longrightarrow> transfer_inv (completeExternalTransfer now i st)"
  "transfer_inv st \<Longrightarrow> transfer_inv (failExternalTransfer now i reason st)"
  by (auto simp: upsertExternalTransferProgress_def completeExternalTransfer_def failExternalTransfer_def Let_def externalItem_def
      intro!: pruneTransfers_inv setItem_base_empty setStatus_base dest: inv_base split: prod.split option.split)

lemma clearAll_inv: "transfer_inv (clearAll st)"
  by (simp add: transfer_inv_def queue_base_def clearAll_def tidy_items_def getItem_def finished_count_def)

interpretation dtransfers: invariant_system "\<lambda>st. st = transfer_start" "transfer_step limit" transfer_inv for limit
proof (unfold_locales, goal_cases)
  case (1 st)
  then show ?case by (simp add: transfer_start_def transfer_inv_def queue_base_def tidy_items_def getItem_def finished_count_def)
next
  case (2 st st')
  from this(2,1) show ?case
    by cases (auto intro: event_inv runQueue_inv clearCompleted_inv clearAll_inv remove_inv pause_inv resume_inv
        cancelTransfer_inv retry_inv enqueueTransfers_inv external_inv settle_inv)
qed

text \<open>C26: in every reachable state the transfers have distinct ids, no queued transfer is lost (each has a
  request waiting, is parked, or is being cancelled), requests and parked ids belong to listed
  transfers and never to the same one, and at most two hundred finished transfers are listed.\<close>

theorem transfers_consistent:
  assumes "(transfer_step limit)\<^sup>*\<^sup>* transfer_start st"
  shows "distinct (map (ti_id \<circ> snd) (ts_map st))
    \<and> (\<forall>(k, t) \<in> set (ts_map st). ti_status t = Queued \<longrightarrow>
          k \<in> fst ` set (ts_queued st) \<or> k \<in> set (ts_parked st) \<or> CancelParkedWait k \<in> set (ts_waiting st))
    \<and> fst ` set (ts_queued st) \<union> set (ts_parked st) \<subseteq> fst ` set (ts_map st)
    \<and> fst ` set (ts_queued st) \<inter> set (ts_parked st) = {}
    \<and> length (filter (\<lambda>(k, t). isFinishedTransferStatus (ti_status t)) (ts_map st)) \<le> 200"
proof -
  have inv: "transfer_inv st" using dtransfers.reachable_inv [OF refl assms] .
  then have t: "distinct (map fst (ts_map st))" "\<forall>(k, t) \<in> set (ts_map st). k = ti_id t"
    by (auto simp: transfer_inv_def queue_base_def tidy_items_def)
  have dom: "k \<in> fst ` set m \<longleftrightarrow> map_of m k \<noteq> None" for k :: js_text and m :: "(js_text \<times> 'b) list"
    by (simp add: map_of_eq_None_iff)
  have ids: "map (ti_id \<circ> snd) (ts_map st) = map fst (ts_map st)" using t(2) by auto
  have get: "getItem st k = Some u" if "(k, u) \<in> set (ts_map st)" for k u
    using that t(1) by (simp add: getItem_def)
  show ?thesis
  proof (intro conjI)
    show "distinct (map (ti_id \<circ> snd) (ts_map st))" unfolding ids by (rule t(1))
    show "\<forall>(k, u) \<in> set (ts_map st). ti_status u = Queued \<longrightarrow>
        k \<in> fst ` set (ts_queued st) \<or> k \<in> set (ts_parked st) \<or> CancelParkedWait k \<in> set (ts_waiting st)"
      using inv get unfolding transfer_inv_def queue_base_def claimed_def dom by fastforce
    show "fst ` set (ts_queued st) \<union> set (ts_parked st) \<subseteq> fst ` set (ts_map st)"
      using inv unfolding transfer_inv_def queue_base_def getItem_def subset_iff Un_iff dom by blast
    show "fst ` set (ts_queued st) \<inter> set (ts_parked st) = {}"
      using inv unfolding transfer_inv_def queue_base_def by (auto simp: dom disjoint_iff simp del: not_None_eq)
    show "length (filter (\<lambda>(k, u). isFinishedTransferStatus (ti_status u)) (ts_map st)) \<le> 200"
      using inv by (simp only: transfer_inv_def finished_count_def)
  qed
qed

end
