(* ===== verification/Transfer_Pass.thy ===== *)
theory Transfer_Pass
  imports Transfer_Queue
begin

text \<open>
  What one pass over the transfer queue starts (\<open>context/TransferContext.tsx\<close>, the queue effect): the
  candidates that find a free slot, that no slot stays idle, and what a retry forgets.
\<close>

section \<open>What a pass starts\<close>

text \<open>The candidates that find a free slot, in order.\<close>

fun picks :: "(transfer_direction \<Rightarrow> int) \<Rightarrow> (transfer_direction \<Rightarrow> int) \<Rightarrow> transfer_item list \<Rightarrow> transfer_item list" where
  "picks limit busy [] = []"
| "picks limit busy (c # cs) =
     (let d = ti_direction c in
      if busy d \<ge> limit d then picks limit busy cs else c # picks limit (busy(d := busy d + 1)) cs)"

lemma picks_take:
  "filter (\<lambda>c. ti_direction c = d) (picks limit busy cs) = take (nat (limit d - busy d)) (filter (\<lambda>c. ti_direction c = d) cs)"
proof (induction cs arbitrary: busy)
  case (Cons c cs)
  show ?case
  proof (cases "busy (ti_direction c) \<ge> limit (ti_direction c)")
    case True
    then have p: "picks limit busy (c # cs) = picks limit busy cs" by (simp add: Let_def)
    show ?thesis unfolding p Cons.IH using True by (cases "ti_direction c = d") auto
  next
    case False
    let ?busy = "busy(ti_direction c := busy (ti_direction c) + 1)"
    from False have p: "picks limit busy (c # cs) = c # picks limit ?busy cs" by (simp add: Let_def)
    have IH: "filter (\<lambda>x. ti_direction x = d) (c # picks limit ?busy cs)
        = (if ti_direction c = d then [c] else []) @ take (nat (limit d - ?busy d)) (filter (\<lambda>x. ti_direction x = d) cs)"
      by (simp only: filter.simps Cons.IH) simp
    show ?thesis
    proof (cases "ti_direction c = d")
      case True
      then have "nat (limit d - busy d) = Suc (nat (limit d - ?busy d))" using False by auto
      then show ?thesis unfolding p IH using True by simp
    next
      case other: False
      then show ?thesis unfolding p IH by simp
    qed
  qed
qed simp

lemma picks_sub: "set (picks limit busy cs) \<subseteq> set cs"
  by (induction cs arbitrary: busy) (simp_all add: Let_def subset_insertI2)

definition startable :: "transfer_state \<Rightarrow> js_text \<Rightarrow> bool" where
  "startable st i \<longleftrightarrow> map_of (ts_queued st) i \<noteq> None \<or> i \<in> set (ts_parked st)"

definition marked :: "transfer_item \<Rightarrow> transfer_item" where
  "marked t = t\<lparr>ti_status := Transferring, ti_queueState := Some QRunning, ti_error := None\<rparr>"

lemma length_filter_update:
  "distinct (map fst m) \<Longrightarrow> map_of m i = Some t \<Longrightarrow> \<not> P (i, t) \<Longrightarrow>
   length (filter P (AList.update i v m)) = length (filter P m) + (if P (i, v) then 1 else 0)"
proof (induction m)
  case (Cons e m)
  show ?case
  proof (cases "fst e = i")
    case True
    with Cons.prems show ?thesis by (cases e) auto
  next
    case False
    with Cons show ?thesis by (cases e) auto
  qed
qed simp

lemma running_marked:
  assumes "tidy_items (ts_map st)" "getItem st i = Some t" "ti_status t = Queued"
  shows "running (setItem i (marked t) st) d = running st d + (if ti_direction t = d then 1 else 0)"
  using length_filter_update [of "ts_map st" i t "\<lambda>(k, t). ti_queueState t = Some QRunning \<and> ti_status t = Transferring \<and> ti_direction t = d" "marked t"] assms
  by (simp add: running_def getItem_def tidy_items_def marked_def)

lemma startCandidate_eq:
  assumes "getItem st (ti_id c) = Some c" "ti_status c = Queued" "startable st (ti_id c)" "tidy_items (ts_map st)"
  shows "\<exists>st' call. startCandidate limit c (busy, st, calls) =
      (if busy (ti_direction c) \<ge> limit (ti_direction c) then (busy, st, calls)
       else (busy(ti_direction c := busy (ti_direction c) + 1), st', calls @ [(ti_id c, call)]))
    \<and> ts_map st' = ts_map (setItem (ti_id c) (marked c) st)
    \<and> (\<forall>i. i \<noteq> ti_id c \<longrightarrow> startable st' i = startable st i) \<and> (\<forall>i. startable st' i \<longrightarrow> startable st i)
    \<and> (\<forall>i. CancelParkedWait i \<in> set (ts_waiting st') \<longleftrightarrow> CancelParkedWait i \<in> set (ts_waiting st))"
proof (cases "ti_id c \<in> set (ts_parked st)")
  case True
  let ?st = "addWait (ResumeWait (ti_id c)) (markRunning (ti_id c) (st\<lparr>ts_parked := filter (\<lambda>j. j \<noteq> ti_id c) (ts_parked st)\<rparr>))"
  show ?thesis using assms True
    by (intro exI [of _ ?st] exI [of _ "Some (ResumeTransfer (ti_id c))"])
      (auto simp: startCandidate_def Let_def addWait_def markRunning_def startable_def marked_def)
next
  case False
  then obtain rq where rq: "map_of (ts_queued st) (ti_id c) = Some rq" using assms(3) by (auto simp: startable_def)
  let ?st = "addWait (StartWait (ti_id c)) (markRunning (ti_id c) (st\<lparr>ts_queued := AList.delete (ti_id c) (ts_queued st)\<rparr>))"
  show ?thesis using assms False rq
    by (intro exI [of _ ?st] exI [of _ "startCall (ti_id c) rq"])
      (auto simp: startCandidate_def Let_def addWait_def markRunning_def startable_def marked_def split: if_splits)
qed

lemma pass_effect:
  assumes "\<forall>c \<in> set cs. getItem st (ti_id c) = Some c \<and> ti_status c = Queued \<and> startable st (ti_id c)"
    and "distinct (map ti_id cs)" "tidy_items (ts_map st)"
  shows "case fold (startCandidate limit) cs (busy, st, calls) of (busy', st', calls') \<Rightarrow>
      map fst calls' = map fst calls @ map ti_id (picks limit busy cs)
      \<and> (\<forall>i. getItem st' i = (if i \<in> ti_id ` set (picks limit busy cs) then map_option marked (getItem st i) else getItem st i))
      \<and> (\<forall>i. startable st' i \<longrightarrow> startable st i)
      \<and> (\<forall>i. CancelParkedWait i \<in> set (ts_waiting st') \<longleftrightarrow> CancelParkedWait i \<in> set (ts_waiting st))
      \<and> (\<forall>d. running st' d = running st d + int (length (filter (\<lambda>c. ti_direction c = d) (picks limit busy cs))))"
  using assms
proof (induction cs arbitrary: busy st calls)
  case (Cons c cs)
  have c: "getItem st (ti_id c) = Some c" "ti_status c = Queued" "startable st (ti_id c)" using Cons.prems(1) by simp_all
  note start = startCandidate_eq [OF c Cons.prems(3), of limit busy calls]
  show ?case
  proof (cases "busy (ti_direction c) \<ge> limit (ti_direction c)")
    case True
    with start have "startCandidate limit c (busy, st, calls) = (busy, st, calls)" by simp
    with True Cons show ?thesis by (simp add: Let_def)
  next
    case False
    let ?busy = "busy(ti_direction c := busy (ti_direction c) + 1)"
    from start False obtain st1 call where st1: "startCandidate limit c (busy, st, calls) = (?busy, st1, calls @ [(ti_id c, call)])"
      "ts_map st1 = ts_map (setItem (ti_id c) (marked c) st)" "\<forall>i. i \<noteq> ti_id c \<longrightarrow> startable st1 i = startable st i"
      "\<forall>i. startable st1 i \<longrightarrow> startable st i" "\<forall>i. CancelParkedWait i \<in> set (ts_waiting st1) \<longleftrightarrow> CancelParkedWait i \<in> set (ts_waiting st)"
      by auto
    have get: "getItem st1 i = (if i = ti_id c then Some (marked c) else getItem st i)" for i
      using st1(2) by (simp add: getItem_def)
    have run: "running st1 d = running st d + (if ti_direction c = d then 1 else 0)" for d
      using running_marked [OF Cons.prems(3) c(1,2), of d] st1(2) by (simp add: running_def)
    have fresh: "ti_id c \<notin> ti_id ` set cs" using Cons.prems(2) by simp
    have "\<forall>x \<in> set cs. getItem st1 (ti_id x) = Some x \<and> ti_status x = Queued \<and> startable st1 (ti_id x)"
      using Cons.prems(1) fresh st1(3) get by (metis imageI list.set_intros(2))
    moreover have "tidy_items (ts_map st1)" using st1(2) Cons.prems(3) by (simp add: tidy_update marked_def)
    ultimately have IH: "case fold (startCandidate limit) cs (?busy, st1, calls @ [(ti_id c, call)]) of (busy', st', calls') \<Rightarrow>
      map fst calls' = map fst (calls @ [(ti_id c, call)]) @ map ti_id (picks limit ?busy cs)
      \<and> (\<forall>i. getItem st' i = (if i \<in> ti_id ` set (picks limit ?busy cs) then map_option marked (getItem st1 i) else getItem st1 i))
      \<and> (\<forall>i. startable st' i \<longrightarrow> startable st1 i)
      \<and> (\<forall>i. CancelParkedWait i \<in> set (ts_waiting st') \<longleftrightarrow> CancelParkedWait i \<in> set (ts_waiting st1))
      \<and> (\<forall>d. running st' d = running st1 d + int (length (filter (\<lambda>c. ti_direction c = d) (picks limit ?busy cs))))"
      using Cons.prems(2) by (intro Cons.IH) simp_all
    have np: "ti_id c \<notin> ti_id ` set (picks limit ?busy cs)" using fresh picks_sub [of limit ?busy cs] by blast
    show ?thesis using IH False st1(1,4,5) np c(1)
      by (auto simp: Let_def get run split: prod.splits if_splits)
  qed
qed simp

lemma candidates_ok:
  assumes "transfer_inv st"
  shows "\<forall>c \<in> set (queuedCandidates st). getItem st (ti_id c) = Some c \<and> ti_status c = Queued \<and> startable st (ti_id c)"
    and "distinct (map ti_id (queuedCandidates st))" and "tidy_items (ts_map st)"
proof -
  show t: "tidy_items (ts_map st)" using assms by (simp add: transfer_inv_def queue_base_def)
  show "\<forall>c \<in> set (queuedCandidates st). getItem st (ti_id c) = Some c \<and> ti_status c = Queued \<and> startable st (ti_id c)"
  proof
    fix c assume c: "c \<in> set (queuedCandidates st)"
    then obtain k where k: "(k, c) \<in> set (ts_map st)" by (auto simp: queuedCandidates_def)
    with t have "getItem st (ti_id c) = Some c" by (auto simp: tidy_items_def getItem_def)
    with c show "getItem st (ti_id c) = Some c \<and> ti_status c = Queued \<and> startable st (ti_id c)"
      by (auto simp: queuedCandidates_def startable_def)
  qed
  have ids: "map ti_id (map snd (ts_map st)) = map fst (ts_map st)"
    using t unfolding map_map by (intro map_cong [OF refl]) (auto simp: tidy_items_def)
  have "distinct (map ti_id (map snd (ts_map st)))" unfolding ids using t by (simp add: tidy_items_def)
  then show "distinct (map ti_id (queuedCandidates st))"
    unfolding queuedCandidates_def by (rule distinct_map_filter)
qed

text \<open>C25: a pass over the queue starts, in each direction, exactly the first queued transfers that the
  free slots of that direction have room for, in the order of the list and each once; so the
  number of running transfers grows by that many and stays within the limit unless it was
  above it before.\<close>

theorem queue_pass_exact:
  assumes "transfer_inv st"
  shows "case runQueue limit st of (st', calls) \<Rightarrow>
    map fst calls = map ti_id (picks limit (running st) (queuedCandidates st)) \<and> distinct (map fst calls)
    \<and> (\<forall>d. filter (\<lambda>c. ti_direction c = d) (picks limit (running st) (queuedCandidates st))
          = take (nat (limit d - running st d)) (filter (\<lambda>c. ti_direction c = d) (queuedCandidates st)))
    \<and> (\<forall>d. running st d \<le> running st' d \<and> running st' d \<le> max (limit d) (running st d))"
proof -
  obtain busy st' calls where f: "fold (startCandidate limit) (queuedCandidates st) (running st, st, []) = (busy, st', calls)"
    by (metis prod_cases3)
  note e = pass_effect [OF candidates_ok [OF assms], where limit = limit and busy = "running st" and calls = "[]", unfolded f prod.case]
  have "distinct (map ti_id (picks limit b cs))" if "distinct (map ti_id cs)" for b cs
    using that picks_sub by (induction cs arbitrary: b) (auto simp: Let_def, blast)
  then have "distinct (map fst calls)" using e candidates_ok(2) [OF assms] by simp
  moreover have "running st d \<le> running st' d \<and> running st' d \<le> max (limit d) (running st d)" for d
    using e by (simp add: picks_take)
  ultimately show ?thesis using e by (simp add: runQueue_def f picks_take)
qed

text \<open>no slot stays idle while a transfer waits for it. In every reachable state, after a pass over the
  queue each transfer that is still queued and not being cancelled has as many running transfers
  of its direction in front of it as the limit allows.\<close>

theorem no_idle_slot:
  assumes "(transfer_step limit)\<^sup>*\<^sup>* transfer_start st"
    and "getItem (fst (runQueue limit st)) i = Some t" "ti_status t = Queued"
    and "CancelParkedWait i \<notin> set (ts_waiting (fst (runQueue limit st)))"
  shows "limit (ti_direction t) \<le> running (fst (runQueue limit st)) (ti_direction t)"
proof (rule ccontr)
  have inv: "transfer_inv st" using dtransfers.reachable_inv [OF refl assms(1)] .
  obtain busy st' calls where f: "fold (startCandidate limit) (queuedCandidates st) (running st, st, []) = (busy, st', calls)"
    by (metis prod_cases3)
  note e = pass_effect [OF candidates_ok [OF inv], where limit = limit and busy = "running st" and calls = "[]", unfolded f prod.case]
  let ?cs = "queuedCandidates st" and ?d = "ti_direction t"
  let ?picked = "picks limit (running st) ?cs"
  have st': "fst (runQueue limit st) = st'" by (simp add: runQueue_def f)
  have inv': "transfer_inv st'" using runQueue_inv [OF inv, of limit] by (simp add: st')
  have i: "i \<notin> ti_id ` set ?picked"
  proof
    assume "i \<in> ti_id ` set ?picked"
    then have "getItem st' i = map_option marked (getItem st i)" using e by simp
    with assms(2,3) show False by (auto simp: st' marked_def)
  qed
  then have item: "getItem st i = Some t" using e assms(2) by (simp add: st')
  have "startable st' i" using inv' assms(2-4) unfolding st' transfer_inv_def queue_base_def claimed_def startable_def by blast
  then have "startable st i" using e by blast
  with item assms(3) have "t \<in> set ?cs"
    using getItem_id [OF inv_base [OF inv] item] by (force simp: queuedCandidates_def startable_def getItem_def dest!: map_of_SomeD)
  moreover have "ti_id t = i" using getItem_id [OF inv_base [OF inv] item] .
  ultimately have t: "t \<in> set (filter (\<lambda>c. ti_direction c = ?d) ?cs)" "t \<notin> set (filter (\<lambda>c. ti_direction c = ?d) ?picked)" using i by auto
  assume "\<not> limit ?d \<le> running (fst (runQueue limit st)) ?d"
  then have less: "running st' ?d < limit ?d" by (simp add: st')
  have "running st' ?d = running st ?d + int (length (filter (\<lambda>c. ti_direction c = ?d) ?picked))" using e by simp
  with less have "length (take (nat (limit ?d - running st ?d)) (filter (\<lambda>c. ti_direction c = ?d) ?cs)) < nat (limit ?d - running st ?d)"
    unfolding picks_take by simp
  then have "take (nat (limit ?d - running st ?d)) (filter (\<lambda>c. ti_direction c = ?d) ?cs) = filter (\<lambda>c. ti_direction c = ?d) ?cs"
    by simp
  with t show False unfolding picks_take by simp
qed

definition example_request :: transfer_request where
  "example_request = \<lparr>rq_session = [115], rq_name = [102], rq_local = [108], rq_remote = [114], rq_kind = TransferFile,
     rq_direction = Upload, rq_source = None, rq_target = None, rq_override = Some (js ''overwrite'')\<rparr>"

definition example_queue :: transfer_state where
  "example_queue = enqueueTransfers 0 [[97], [98]] [example_request, example_request] transfer_start"

lemma example_reached: "(transfer_step limit)\<^sup>*\<^sup>* transfer_start example_queue"
proof -
  have "transfer_step limit transfer_start example_queue"
    unfolding example_queue_def by (rule transfer_step.enqueue) (simp add: transfer_start_def)
  then show ?thesis by (rule r_into_rtranclp)
qed

lemmas transfer_eval = example_queue_def enqueueTransfers_def usableRequests_def example_request_def transfer_start_def
  setItem_def queuedItem_def runQueue_def queuedCandidates_def running_def startCandidate_def addWait_def markRunning_def getItem_def

theorem queue_pass_exact_witness:
  "map fst (snd (runQueue (\<lambda>_. 1) example_queue)) = [[97]] \<and> running (fst (runQueue (\<lambda>_. 1) example_queue)) Upload \<le> 1"
proof -
  have inv: "transfer_inv example_queue" using dtransfers.reachable_inv [OF refl example_reached] .
  have r: "map fst (snd (runQueue (\<lambda>_. 1) example_queue)) = [[97]]" by (simp add: transfer_eval Let_def upt_rec)
  have "running example_queue Upload = 0" by (simp add: transfer_eval upt_rec)
  with queue_pass_exact [OF inv, of "\<lambda>_. 1"] have "running (fst (runQueue (\<lambda>_. 1) example_queue)) Upload \<le> max 1 0"
    unfolding case_prod_unfold by (metis (no_types))
  with r show ?thesis by simp
qed

theorem no_idle_slot_witness:
  "map_option ti_status (getItem (fst (runQueue (\<lambda>_. 1) example_queue)) [98]) = Some Queued
   \<and> 1 \<le> running (fst (runQueue (\<lambda>_. 1) example_queue)) Upload"
proof -
  have q: "\<exists>t. getItem (fst (runQueue (\<lambda>_. 1) example_queue)) [98] = Some t \<and> ti_status t = Queued \<and> ti_direction t = Upload"
    by (simp add: transfer_eval Let_def upt_rec)
  have w: "CancelParkedWait [98] \<notin> set (ts_waiting (fst (runQueue (\<lambda>_. 1) example_queue)))"
    by (simp add: transfer_eval Let_def upt_rec)
  from q obtain t where t: "getItem (fst (runQueue (\<lambda>_. 1) example_queue)) [98] = Some t" "ti_status t = Queued" "ti_direction t = Upload" by blast
  from no_idle_slot [OF example_reached t(1,2) w] t show ?thesis by simp
qed

theorem transfers_consistent_witness:
  "(transfer_step (\<lambda>_. 1))\<^sup>*\<^sup>* transfer_start example_queue \<and> fst ` set (ts_queued example_queue) \<subseteq> fst ` set (ts_map example_queue)"
  using transfers_consistent [OF example_reached [of "\<lambda>_. 1"]] example_reached by blast

text \<open>Retrying a transfer forgets how its duplicate was to be resolved: a transfer enqueued with an
  answer such as to overwrite, once it has been started and failed, is queued again by a retry with
  no answer, so the back end falls back to the default strategy.\<close>

theorem retry_forgets_override:
  "rq_override (retryRequest (queuedItem now i rq)) = None
   \<and> rq_override example_request = Some (js ''overwrite'')
   \<and> map_of (ts_queued (retryTransfer 5 (the (getItem example_queue [97])) example_queue)) [97] = Some (example_request\<lparr>rq_override := None\<rparr>)"
  by (simp add: retryRequest_def retryTransfer_def Let_def transfer_eval upt_rec retryEndpoint_def)

end
