(* ===== verification/Fit_Scheduler.thy ===== *)
theory Fit_Scheduler
  imports Prelude
begin

text \<open>
  When a terminal is fitted to its container (\<open>components/terminal/terminalFitScheduler.ts\<close>): the
  scheduler that merges requests until the next animation frame and the filter of repeated resizes.

  The callbacks a request carries are a list of numbers, in the order \<open>onComplete\<close> calls them. The
  animation frames and timers the browser still holds are part of the state; what a fit sees of
  the terminal and its container is an argument of the step. A fit returns the calls it makes, in
  order. A callback may schedule again; that touches only what a running fit has already read, so
  such a request counts as the input that follows. Log messages and the pixel ratio are left out.
  Dimension keys are only compared, so the dimensions stand for them.
\<close>

section \<open>Requests and results\<close>

record fit_dims =
  fd_cols :: int
  fd_rows :: int

datatype fit_reason = FitInitial | FitObserver | FitReady | FitPadding | FitActive | FitGlobalRefresh | FitAppearance
  | FitWindowResized | FitWindowMoved | FitWindowFocus | FitScaleFactor | FitVisible | FitOscillationSettle

record fit_request =
  fr_reason :: fit_reason
  fr_force :: bool
  fr_refresh :: bool
  fr_clear :: bool
  fr_focus :: bool
  fr_width :: "rat option"
  fr_height :: "rat option"
  fr_complete :: "nat list"

datatype fit_skip = MissingTerminal | Disconnected | HiddenView | ZeroSize | SameGeometry | Oscillation

text \<open>A fit is applied when nothing made it skip.\<close>

record fit_result =
  rs_reason :: fit_reason
  rs_before :: fit_dims
  rs_after :: fit_dims
  rs_proposed :: "fit_dims option"
  rs_width :: "rat option"
  rs_height :: "rat option"
  rs_skipped :: "fit_skip option"

text \<open>What a fit reads: \<open>fv_container\<close> tells of an existing container whether it is connected.\<close>

record fit_view =
  fv_terminal :: "fit_dims option"
  fv_addon :: bool
  fv_container :: "bool option"
  fv_visible :: bool
  fv_rect :: "rat \<times> rat"
  fv_proposed :: "fit_dims option"
  fv_fitted :: fit_dims

datatype fit_call = CompleteCall nat fit_result | FitCall | ClearAtlas | RefreshRows int int | FocusCall | AfterFit fit_result

record fit_state =
  fs_pendingFrame :: "nat option"
  fs_pendingRequest :: "fit_request option"
  fs_deferred :: "fit_request option"
  fs_width :: "rat option"
  fs_height :: "rat option"
  fs_recent :: "fit_dims list"
  fs_suppressedUntil :: int
  fs_settleTimer :: "nat option"
  fs_disposed :: bool
  fs_frames :: "nat list"
  fs_timers :: "(nat \<times> fit_request) list"
  fs_next :: nat

definition fit_start :: fit_state where
  "fit_start = \<lparr>fs_pendingFrame = None, fs_pendingRequest = None, fs_deferred = None, fs_width = None, fs_height = None,
     fs_recent = [], fs_suppressedUntil = 0, fs_settleTimer = None, fs_disposed = False, fs_frames = [], fs_timers = [], fs_next = 0\<rparr>"

definition OBSERVED_SIZE_EPSILON_PX :: rat where
  "OBSERVED_SIZE_EPSILON_PX = 1 / 10"

definition OSCILLATION_SUPPRESS_MS :: int where
  "OSCILLATION_SUPPRESS_MS = 160"

section \<open>Scheduling\<close>

definition keep_or :: "'a option \<Rightarrow> 'a option \<Rightarrow> 'a option" where
  "keep_or a b = (case a of None \<Rightarrow> b | Some x \<Rightarrow> Some x)"

definition mergeRequests :: "fit_request option \<Rightarrow> fit_request \<Rightarrow> fit_request" where
  "mergeRequests cur nxt =
     (case cur of None \<Rightarrow> nxt
      | Some c \<Rightarrow>
          \<lparr>fr_reason = fr_reason nxt, fr_force = (fr_force c \<or> fr_force nxt), fr_refresh = (fr_refresh c \<or> fr_refresh nxt),
           fr_clear = (fr_clear c \<or> fr_clear nxt), fr_focus = (fr_focus c \<or> fr_focus nxt),
           fr_width = keep_or (fr_width nxt) (fr_width c), fr_height = keep_or (fr_height nxt) (fr_height c),
           fr_complete = fr_complete c @ fr_complete nxt\<rparr>)"

definition cancelPending :: "fit_state \<Rightarrow> fit_state" where
  "cancelPending st =
     (case fs_pendingFrame st of None \<Rightarrow> st
      | Some h \<Rightarrow> st\<lparr>fs_frames := filter (\<lambda>x. x \<noteq> h) (fs_frames st), fs_pendingFrame := None\<rparr>)"

definition scheduleFit :: "fit_request \<Rightarrow> fit_state \<Rightarrow> fit_state" where
  "scheduleFit r st0 =
     (if fs_disposed st0 then st0
      else (let st = cancelPending st0 in
        st\<lparr>fs_pendingRequest := Some (mergeRequests (fs_pendingRequest st) r), fs_pendingFrame := Some (fs_next st),
           fs_frames := fs_frames st @ [fs_next st], fs_next := fs_next st + 1\<rparr>))"

definition observerRequest :: "rat \<Rightarrow> rat \<Rightarrow> fit_request" where
  "observerRequest w h = \<lparr>fr_reason = FitObserver, fr_force = False, fr_refresh = False, fr_clear = False, fr_focus = False,
     fr_width = Some w, fr_height = Some h, fr_complete = []\<rparr>"

definition sizeChanged :: "rat option \<Rightarrow> rat \<Rightarrow> bool" where
  "sizeChanged previous x = (case previous of None \<Rightarrow> True | Some p \<Rightarrow> \<bar>x - p\<bar> \<ge> OBSERVED_SIZE_EPSILON_PX)"

definition observeResize :: "bool \<Rightarrow> rat \<Rightarrow> rat \<Rightarrow> fit_state \<Rightarrow> fit_state" where
  "observeResize visible w h st =
     (if w \<le> 0 \<or> h \<le> 0 then st
      else if \<not> visible then st
      else if \<not> sizeChanged (fs_width st) w \<and> \<not> sizeChanged (fs_height st) h then st
      else scheduleFit (observerRequest w h) (st\<lparr>fs_width := Some w, fs_height := Some h\<rparr>))"

definition visibleRequest :: "fit_request option \<Rightarrow> fit_request" where
  "visibleRequest deferred =
     (case deferred of
        Some d \<Rightarrow> d\<lparr>fr_reason := FitVisible, fr_force := True\<rparr>
      | None \<Rightarrow> \<lparr>fr_reason = FitVisible, fr_force = True, fr_refresh = True, fr_clear = False, fr_focus = False,
                 fr_width = None, fr_height = None, fr_complete = []\<rparr>)"

definition notifyVisible :: "bool \<Rightarrow> fit_state \<Rightarrow> fit_state" where
  "notifyVisible visible st =
     (if \<not> visible then st else scheduleFit (visibleRequest (fs_deferred st)) (st\<lparr>fs_deferred := None\<rparr>))"

definition dropSettleTimer :: "fit_state \<Rightarrow> fit_state" where
  "dropSettleTimer st =
     (case fs_settleTimer st of None \<Rightarrow> st
      | Some h \<Rightarrow> st\<lparr>fs_timers := filter (\<lambda>(k, r). k \<noteq> h) (fs_timers st), fs_settleTimer := None\<rparr>)"

definition disposeFit :: "fit_state \<Rightarrow> fit_state" where
  "disposeFit st =
     (dropSettleTimer (cancelPending (st\<lparr>fs_disposed := True\<rparr>)))\<lparr>fs_pendingRequest := None, fs_deferred := None\<rparr>"

section \<open>Running a fit\<close>

definition recordFitResult :: "fit_dims \<Rightarrow> fit_state \<Rightarrow> fit_state" where
  "recordFitResult d st =
     (let keys = fs_recent st @ [d] in st\<lparr>fs_recent := (if length keys > 6 then drop (length keys - 6) keys else keys)\<rparr>)"

definition shouldSuppressOscillation :: "int \<Rightarrow> fit_dims \<Rightarrow> fit_state \<Rightarrow> bool \<times> fit_state" where
  "shouldSuppressOscillation now proposed st =
     (if now < fs_suppressedUntil st then (True, st)
      else (case rev (fs_recent st) of
          third # second # first # _ \<Rightarrow>
            if first = third \<and> first \<noteq> second \<and> proposed = second
            then (True, st\<lparr>fs_suppressedUntil := now + OSCILLATION_SUPPRESS_MS\<rparr>) else (False, st)
        | _ \<Rightarrow> (False, st)))"

definition scheduleOscillationSettle :: "fit_request \<Rightarrow> fit_state \<Rightarrow> fit_state" where
  "scheduleOscillationSettle r st0 =
     (let st = dropSettleTimer st0 in
      st\<lparr>fs_settleTimer := Some (fs_next st), fs_timers := fs_timers st @ [(fs_next st, r)], fs_next := fs_next st + 1\<rparr>)"

definition completeCalls :: "fit_request \<Rightarrow> fit_result \<Rightarrow> fit_call list" where
  "completeCalls r res = map (\<lambda>k. CompleteCall k res) (fr_complete r)"

definition runFit :: "int \<Rightarrow> fit_view \<Rightarrow> fit_request \<Rightarrow> fit_state \<Rightarrow> fit_state \<times> fit_call list" where
  "runFit now v r st =
     (if fs_disposed st then (st, [])
      else
        let before = (case fv_terminal v of None \<Rightarrow> \<lparr>fd_cols = 0, fd_rows = 0\<rparr> | Some d \<Rightarrow> d);
            skip = (\<lambda>why proposed w h. \<lparr>rs_reason = fr_reason r, rs_before = before, rs_after = before, rs_proposed = proposed,
                      rs_width = w, rs_height = h, rs_skipped = Some why\<rparr>);
            rect = fv_rect v;
            w = (case fr_width r of None \<Rightarrow> Some (fst rect) | Some x \<Rightarrow> Some x);
            h = (case fr_height r of None \<Rightarrow> Some (snd rect) | Some x \<Rightarrow> Some x)
        in
        if fv_terminal v = None \<or> \<not> fv_addon v \<or> fv_container v = None then (st, completeCalls r (skip MissingTerminal None None None))
        else if fv_container v = Some False then (st, completeCalls r (skip Disconnected None None None))
        else if \<not> fv_visible v then
          (if fr_force r then st\<lparr>fs_deferred := Some r\<rparr> else st, completeCalls r (skip HiddenView None None None))
        else if fst rect \<le> 0 \<or> snd rect \<le> 0 then
          (st, completeCalls r (skip ZeroSize None (Some (fst rect)) (Some (snd rect))))
        else if \<not> fr_force r \<and> fv_proposed v = Some before then (st, completeCalls r (skip SameGeometry (fv_proposed v) w h))
        else
          (case (if fr_force r then (False, st) else case fv_proposed v of None \<Rightarrow> (False, st) | Some p \<Rightarrow> shouldSuppressOscillation now p st) of
             (True, st') \<Rightarrow> (scheduleOscillationSettle r st', completeCalls r (skip Oscillation (fv_proposed v) w h))
           | (False, st') \<Rightarrow>
               let after = fv_fitted v;
                   res = \<lparr>rs_reason = fr_reason r, rs_before = before, rs_after = after, rs_proposed = fv_proposed v,
                     rs_width = w, rs_height = h, rs_skipped = None\<rparr>
               in (recordFitResult after st',
                   [FitCall] @ (if fr_clear r then [ClearAtlas] else []) @ (if fr_refresh r then [RefreshRows 0 (max 0 (fd_rows after - 1))] else [])
                   @ (if fr_focus r then [FocusCall] else []) @ completeCalls r res @ [AfterFit res])))"

text \<open>The browser runs the callback of a frame or a timer it still holds.\<close>

definition fireFrame :: "int \<Rightarrow> fit_view \<Rightarrow> nat \<Rightarrow> fit_state \<Rightarrow> fit_state \<times> fit_call list" where
  "fireFrame now v h st0 =
     (if h \<notin> set (fs_frames st0) then (st0, [])
      else (let pending = fs_pendingRequest st0;
                st = st0\<lparr>fs_frames := filter (\<lambda>x. x \<noteq> h) (fs_frames st0), fs_pendingFrame := None, fs_pendingRequest := None\<rparr>
            in case pending of None \<Rightarrow> (st, []) | Some r \<Rightarrow> runFit now v r st))"

definition fireTimer :: "nat \<Rightarrow> fit_state \<Rightarrow> fit_state" where
  "fireTimer h st0 =
     (case map_of (fs_timers st0) h of None \<Rightarrow> st0
      | Some r \<Rightarrow> scheduleFit (r\<lparr>fr_reason := FitOscillationSettle, fr_force := True\<rparr>)
                    (st0\<lparr>fs_timers := filter (\<lambda>(k, r). k \<noteq> h) (fs_timers st0), fs_settleTimer := None\<rparr>))"

section \<open>Every request is answered\<close>

datatype fit_input = ScheduleInput fit_request | ObserveInput bool rat rat | VisibleInput bool | FrameInput int fit_view nat
  | TimerInput nat | DisposeInput

text \<open>A run remembers the callbacks handed in while the scheduler was alive, and the calls made.\<close>

fun fit_step :: "fit_input \<Rightarrow> fit_state \<times> nat list \<times> fit_call list \<Rightarrow> fit_state \<times> nat list \<times> fit_call list" where
  "fit_step (ScheduleInput r) (st, asked, calls) =
     (scheduleFit r st, if fs_disposed st then asked else asked @ fr_complete r, calls)"
| "fit_step (ObserveInput visible w h) (st, asked, calls) = (observeResize visible w h st, asked, calls)"
| "fit_step (VisibleInput visible) (st, asked, calls) = (notifyVisible visible st, asked, calls)"
| "fit_step (FrameInput now v h) (st, asked, calls) = (case fireFrame now v h st of (st', cs) \<Rightarrow> (st', asked, calls @ cs))"
| "fit_step (TimerInput h) (st, asked, calls) = (fireTimer h st, asked, calls)"
| "fit_step DisposeInput (st, asked, calls) = (disposeFit st, asked, calls)"

definition fit_run :: "fit_input list \<Rightarrow> fit_state \<times> nat list \<times> fit_call list" where
  "fit_run inputs = fold fit_step inputs (fit_start, [], [])"

fun answered_by :: "fit_call \<Rightarrow> nat list" where
  "answered_by (CompleteCall k res) = [k]"
| "answered_by _ = []"

definition answered :: "fit_call list \<Rightarrow> nat set" where
  "answered calls = set (concat (map answered_by calls))"

lemma answered_simps [simp]:
  "answered [] = {}" "answered (c # cs) = set (answered_by c) \<union> answered cs" "answered (cs @ ds) = answered cs \<union> answered ds"
  "answered (completeCalls r res) = set (fr_complete r)"
  by (auto simp: answered_def completeCalls_def)

definition waiting_for :: "fit_request option \<Rightarrow> nat set" where
  "waiting_for r = (case r of None \<Rightarrow> {} | Some x \<Rightarrow> set (fr_complete x))"

lemma waiting_simps [simp]: "waiting_for None = {}" "waiting_for (Some r) = set (fr_complete r)"
  by (simp_all add: waiting_for_def)

definition fit_inv :: "fit_state \<times> nat list \<times> fit_call list \<Rightarrow> bool" where
  "fit_inv c = (case c of (st, asked, calls) \<Rightarrow>
     fs_frames st = (case fs_pendingFrame st of None \<Rightarrow> [] | Some h \<Rightarrow> [h])
     \<and> (fs_pendingFrame st = None \<longleftrightarrow> fs_pendingRequest st = None)
     \<and> map fst (fs_timers st) = (case fs_settleTimer st of None \<Rightarrow> [] | Some h \<Rightarrow> [h])
     \<and> (fs_disposed st \<longrightarrow> fs_pendingFrame st = None \<and> fs_settleTimer st = None \<and> fs_deferred st = None)
     \<and> (\<not> fs_disposed st \<longrightarrow> set asked \<subseteq> answered calls \<union> waiting_for (fs_pendingRequest st))
     \<and> answered calls \<union> waiting_for (fs_pendingRequest st) \<union> waiting_for (fs_deferred st)
         \<union> (\<Union>(k, r) \<in> set (fs_timers st). set (fr_complete r)) \<subseteq> set asked
     \<and> length (fs_recent st) \<le> 6)"

text \<open>Scheduling keeps the invariant, whatever else the state says.\<close>

lemma cancelPending_fields [simp]:
  "fs_pendingFrame (cancelPending st) = None" "fs_pendingRequest (cancelPending st) = fs_pendingRequest st"
  "fs_deferred (cancelPending st) = fs_deferred st" "fs_recent (cancelPending st) = fs_recent st"
  "fs_settleTimer (cancelPending st) = fs_settleTimer st" "fs_timers (cancelPending st) = fs_timers st"
  "fs_disposed (cancelPending st) = fs_disposed st"
  by (simp_all add: cancelPending_def split: option.split)

lemma cancelPending_frames:
  "fs_frames st = (case fs_pendingFrame st of None \<Rightarrow> [] | Some h \<Rightarrow> [h]) \<Longrightarrow> fs_frames (cancelPending st) = []"
  by (simp add: cancelPending_def split: option.splits)

lemma dropSettleTimer_fields [simp]:
  "fs_settleTimer (dropSettleTimer st) = None" "fs_pendingRequest (dropSettleTimer st) = fs_pendingRequest st"
  "fs_deferred (dropSettleTimer st) = fs_deferred st" "fs_recent (dropSettleTimer st) = fs_recent st"
  "fs_pendingFrame (dropSettleTimer st) = fs_pendingFrame st" "fs_frames (dropSettleTimer st) = fs_frames st"
  "fs_disposed (dropSettleTimer st) = fs_disposed st"
  by (simp_all add: dropSettleTimer_def split: option.split)

lemma dropSettleTimer_timers:
  "map fst (fs_timers st) = (case fs_settleTimer st of None \<Rightarrow> [] | Some h \<Rightarrow> [h]) \<Longrightarrow> fs_timers (dropSettleTimer st) = []"
  by (auto simp: dropSettleTimer_def filter_empty_conv split: option.splits)

lemma merge_complete [simp]: "set (fr_complete (mergeRequests p r)) = waiting_for p \<union> set (fr_complete r)"
  by (simp add: mergeRequests_def split: option.split)

lemma schedule_inv:
  assumes "fit_inv (st, asked, calls)" "\<not> fs_disposed st \<Longrightarrow> set (fr_complete r) \<subseteq> set asked'" "set asked \<subseteq> set asked'"
    and "set asked' \<subseteq> set asked \<union> set (fr_complete r)" "fs_disposed st \<Longrightarrow> asked' = asked"
  shows "fit_inv (scheduleFit r st, asked', calls)"
proof (cases "fs_disposed st")
  case True
  with assms show ?thesis by (simp add: scheduleFit_def)
next
  case False
  with assms show ?thesis
    by (auto simp: fit_inv_def scheduleFit_def Let_def cancelPending_frames)
qed

lemma deferred_none_inv: "fit_inv (st, asked, calls) \<Longrightarrow> fit_inv (st\<lparr>fs_deferred := None\<rparr>, asked, calls)"
  by (auto simp: fit_inv_def)

lemma runFit_cases:
  assumes "\<not> fs_disposed st" "runFit now v r st = (st', cs)"
  shows "answered cs = set (fr_complete r)"
    and "\<exists>st2 t d. st2 = st\<lparr>fs_suppressedUntil := t\<rparr>
      \<and> (st' = st2 \<or> st' = st2\<lparr>fs_deferred := Some r\<rparr> \<or> st' = scheduleOscillationSettle r st2 \<or> st' = recordFitResult d st2)"
proof -
  let ?sup = "if fr_force r then (False, st) else case fv_proposed v of None \<Rightarrow> (False, st) | Some p \<Rightarrow> shouldSuppressOscillation now p st"
  obtain b st2 where s: "?sup = (b, st2)" by (cases ?sup)
  have same: "st = st\<lparr>fs_suppressedUntil := fs_suppressedUntil st\<rparr>" by simp
  have "st2 = st \<or> st2 = st\<lparr>fs_suppressedUntil := now + OSCILLATION_SUPPRESS_MS\<rparr>"
    using s by (auto simp: shouldSuppressOscillation_def split: if_splits option.splits list.splits)
  then have st2: "\<exists>t. st2 = st\<lparr>fs_suppressedUntil := t\<rparr>" using same by metis
  note run = assms(2) [unfolded runFit_def Let_def s prod.case]
  show "answered cs = set (fr_complete r)"
    using run assms(1) by (cases b) (simp_all split: if_splits, auto)
  have "st' = st \<or> st' = st\<lparr>fs_deferred := Some r\<rparr> \<or> st' = scheduleOscillationSettle r st2 \<or> st' = recordFitResult (fv_fitted v) st2"
    using run assms(1) by (cases b) (simp_all split: if_splits)
  then show "\<exists>st2 t d. st2 = st\<lparr>fs_suppressedUntil := t\<rparr>
      \<and> (st' = st2 \<or> st' = st2\<lparr>fs_deferred := Some r\<rparr> \<or> st' = scheduleOscillationSettle r st2 \<or> st' = recordFitResult d st2)"
    using st2 same by metis
qed

lemma run_inv_fit:
  assumes "fit_inv (st\<lparr>fs_pendingRequest := Some r, fs_pendingFrame := Some h, fs_frames := [h]\<rparr>, asked, calls)"
    and "fs_pendingRequest st = None" "fs_pendingFrame st = None" "fs_frames st = []" "runFit now v r st = (st', cs)"
  shows "fit_inv (st', asked, calls @ cs)"
proof -
  have alive: "\<not> fs_disposed st" using assms(1) by (auto simp: fit_inv_def)
  note answered = runFit_cases(1) [OF alive assms(5)]
  obtain st2 t d where st2: "st2 = st\<lparr>fs_suppressedUntil := t\<rparr>"
    and st': "st' = st2 \<or> st' = st2\<lparr>fs_deferred := Some r\<rparr> \<or> st' = scheduleOscillationSettle r st2 \<or> st' = recordFitResult d st2"
    using runFit_cases(2) [OF alive assms(5)] by blast
  have base: "fit_inv (st2, asked, calls @ cs)" using assms(1-4) answered st2 by (auto simp: fit_inv_def)
  have r: "set (fr_complete r) \<subseteq> set asked" "\<not> fs_disposed st2" using assms(1) st2 by (auto simp: fit_inv_def)
  from st' show ?thesis
  proof (elim disjE)
    assume "st' = scheduleOscillationSettle r st2"
    with base r show ?thesis by (auto simp: fit_inv_def scheduleOscillationSettle_def Let_def dropSettleTimer_timers)
  next
    assume "st' = recordFitResult d st2"
    with base show ?thesis by (simp add: fit_inv_def recordFitResult_def Let_def)
  qed (use base r in \<open>auto simp: fit_inv_def\<close>)
qed

lemma frame_inv:
  assumes "fit_inv (st, asked, calls)" "fireFrame now v h st = (st', cs)"
  shows "fit_inv (st', asked, calls @ cs)"
proof (cases "h \<in> set (fs_frames st)")
  case False
  with assms show ?thesis by (simp add: fireFrame_def)
next
  case True
  with assms(1) have p: "fs_pendingFrame st = Some h" "fs_frames st = [h]"
    by (auto simp: fit_inv_def split: option.splits)
  then obtain r where r: "fs_pendingRequest st = Some r" using assms(1) by (auto simp: fit_inv_def)
  let ?st = "st\<lparr>fs_frames := [], fs_pendingFrame := None, fs_pendingRequest := None\<rparr>"
  from assms(2) p r have run: "runFit now v r ?st = (st', cs)" by (simp add: fireFrame_def Let_def)
  have "st = ?st\<lparr>fs_pendingRequest := Some r, fs_pendingFrame := Some h, fs_frames := [h]\<rparr>" using p r by simp
  with assms(1) have "fit_inv (?st\<lparr>fs_pendingRequest := Some r, fs_pendingFrame := Some h, fs_frames := [h]\<rparr>, asked, calls)"
    by metis
  then show ?thesis by (rule run_inv_fit [OF _ _ _ _ run]) simp_all
qed

lemma fit_timer_inv:
  assumes "fit_inv (st, asked, calls)"
  shows "fit_inv (fireTimer h st, asked, calls)"
proof (cases "map_of (fs_timers st) h")
  case None
  with assms show ?thesis by (simp add: fireTimer_def)
next
  case (Some r)
  then have t: "(h, r) \<in> set (fs_timers st)" by (rule map_of_SomeD)
  then have "set (fr_complete r) \<subseteq> set asked" using assms by (auto simp: fit_inv_def)
  moreover have "fit_inv (st\<lparr>fs_timers := filter (\<lambda>(k, r). k \<noteq> h) (fs_timers st), fs_settleTimer := None\<rparr>, asked, calls)"
  proof -
    have "map fst (fs_timers st) = [h]" using assms t by (force simp: fit_inv_def split: option.splits)
    then have "filter (\<lambda>(k, r). k \<noteq> h) (fs_timers st) = []" by (auto simp: filter_empty_conv)
    with assms show ?thesis by (auto simp: fit_inv_def)
  qed
  ultimately show ?thesis unfolding fireTimer_def Some option.case by (intro schedule_inv) auto
qed

lemma fit_step_inv: "fit_inv c \<Longrightarrow> fit_inv (fit_step i c)"
proof (cases c)
  fix st asked calls assume inv: "fit_inv c" and c: "c = (st, asked, calls)"
  show ?thesis
  proof (cases i)
    case (ScheduleInput r)
    with inv c show ?thesis by (auto intro!: schedule_inv)
  next
    case (ObserveInput visible w h)
    have "fit_inv (st\<lparr>fs_width := Some w, fs_height := Some h\<rparr>, asked, calls)" using inv c by (simp add: fit_inv_def)
    then have "fit_inv (scheduleFit (observerRequest w h) (st\<lparr>fs_width := Some w, fs_height := Some h\<rparr>), asked, calls)"
      by (rule schedule_inv) (simp_all add: observerRequest_def)
    with inv c ObserveInput show ?thesis by (simp add: observeResize_def)
  next
    case (VisibleInput visible)
    have "set (fr_complete (visibleRequest (fs_deferred st))) \<subseteq> set asked"
      using inv c by (auto simp: fit_inv_def visibleRequest_def split: option.splits)
    then have "fit_inv (scheduleFit (visibleRequest (fs_deferred st)) (st\<lparr>fs_deferred := None\<rparr>), asked, calls)"
      using inv c by (intro schedule_inv deferred_none_inv) auto
    with inv c VisibleInput show ?thesis by (simp add: notifyVisible_def)
  next
    case (FrameInput now v h)
    obtain st' cs where f: "fireFrame now v h st = (st', cs)" by (cases "fireFrame now v h st")
    with inv c FrameInput frame_inv show ?thesis by simp
  next
    case (TimerInput h)
    with inv c fit_timer_inv show ?thesis by simp
  next
    case DisposeInput
    have "fs_timers (dropSettleTimer (cancelPending (st\<lparr>fs_disposed := True\<rparr>))) = []"
      using inv c by (intro dropSettleTimer_timers) (auto simp: fit_inv_def)
    moreover have "fs_frames (cancelPending (st\<lparr>fs_disposed := True\<rparr>)) = []"
      using inv c by (intro cancelPending_frames) (auto simp: fit_inv_def)
    ultimately show ?thesis using inv c DisposeInput by (auto simp: disposeFit_def fit_inv_def)
  qed
qed

text \<open>A disposed scheduler ignores every input.\<close>

definition silent_spec :: "fit_input \<Rightarrow> bool \<times> fit_call list \<Rightarrow> bool \<times> fit_call list" where
  "silent_spec i a = a"

lemma disposed_step:
  assumes "fit_inv (st, asked, calls)" "fs_disposed st"
  shows "\<exists>st'. fit_step i (st, asked, calls) = (st', asked, calls) \<and> fs_disposed st'"
proof -
  have f: "fs_frames st = []" "fs_timers st = []" using assms by (auto simp: fit_inv_def)
  show ?thesis
    using assms(2) f
    by (cases i) (simp_all add: scheduleFit_def observeResize_def notifyVisible_def fireFrame_def fireTimer_def disposeFit_def)
qed

interpretation fitq: simulation fit_step silent_spec "\<lambda>(st, asked, calls). (fs_disposed st, calls)"
  "\<lambda>c. fit_inv c \<and> fs_disposed (fst c)" "\<lambda>_. True"
proof
  fix c i assume "fit_inv c \<and> fs_disposed (fst c)"
  then show "fit_inv (fit_step i c) \<and> fs_disposed (fst (fit_step i c))"
    and "(\<lambda>(st, asked, calls). (fs_disposed st, calls)) (fit_step i c) = silent_spec i ((\<lambda>(st, asked, calls). (fs_disposed st, calls)) c)"
    using fit_step_inv [of c i] disposed_step [of "fst c" "fst (snd c)" "snd (snd c)" i] by (auto simp: silent_spec_def split: prod.splits)
qed

lemma fit_run_inv: "fit_inv (fit_run inputs)"
proof -
  have start: "fit_inv (fit_start, [], [])" by (simp add: fit_inv_def fit_start_def)
  have "fit_inv c \<Longrightarrow> fit_inv (fold fit_step inputs c)" for c
    by (induction inputs arbitrary: c) (simp_all only: fold.simps id_apply comp_apply fit_step_inv)
  with start show ?thesis by (simp add: fit_run_def)
qed

text \<open>C27: every callback handed to the scheduler is answered. After any sequence of requests, frames,
  timers and changes of visibility, a callback of a scheduler that is alive has been called or waits
  for the one animation frame that is requested; nothing else is ever called; and once the
  scheduler is disposed no call is made at all.\<close>

theorem fit_requests_answered:
  "(case fit_run inputs of (st, asked, calls) \<Rightarrow>
      (\<not> fs_disposed st \<longrightarrow> (\<forall>k \<in> set asked. k \<in> answered calls \<or> k \<in> waiting_for (fs_pendingRequest st) \<and> length (fs_frames st) = 1))
      \<and> answered calls \<subseteq> set asked \<and> length (fs_frames st) \<le> 1 \<and> length (fs_timers st) \<le> 1)
   \<and> snd (snd (fit_run (inputs @ DisposeInput # later))) = snd (snd (fit_run inputs))"
proof (intro conjI)
  obtain st asked calls where r: "fit_run inputs = (st, asked, calls)" by (cases "fit_run inputs")
  have inv: "fit_inv (st, asked, calls)" using fit_run_inv [of inputs] by (simp add: r)
  have "length (fs_timers st) = length (map fst (fs_timers st))" by simp
  also have "\<dots> \<le> 1" using inv by (auto simp: fit_inv_def split: option.splits)
  finally show "case fit_run inputs of (st, asked, calls) \<Rightarrow>
      (\<not> fs_disposed st \<longrightarrow> (\<forall>k \<in> set asked. k \<in> answered calls \<or> k \<in> waiting_for (fs_pendingRequest st) \<and> length (fs_frames st) = 1))
      \<and> answered calls \<subseteq> set asked \<and> length (fs_frames st) \<le> 1 \<and> length (fs_timers st) \<le> 1"
    using inv unfolding r by (auto simp: fit_inv_def split: option.splits)
  let ?c = "fit_step DisposeInput (st, asked, calls)"
  have "fit_inv ?c \<and> fs_disposed (fst ?c)" using fit_step_inv [OF inv, of DisposeInput] by (simp add: disposeFit_def)
  then have "(\<lambda>(st, asked, calls). (fs_disposed st, calls)) (fold fit_step later ?c)
      = fold silent_spec later ((\<lambda>(st, asked, calls). (fs_disposed st, calls)) ?c)"
    by (rule fitq.run_abs) simp
  moreover have "fold silent_spec later a = a" for a by (induction later) (simp_all add: silent_spec_def)
  ultimately show "snd (snd (fit_run (inputs @ DisposeInput # later))) = snd (snd (fit_run inputs))"
    using r by (auto simp: fit_run_def split: prod.splits)
qed

theorem fit_requests_answered_witness:
  "\<exists>st calls. fit_run [ScheduleInput \<lparr>fr_reason = FitPadding, fr_force = True, fr_refresh = True, fr_clear = False, fr_focus = False,
       fr_width = None, fr_height = None, fr_complete = [7]\<rparr>] = (st, [7], calls)
     \<and> (7 \<in> answered calls \<or> 7 \<in> waiting_for (fs_pendingRequest st) \<and> length (fs_frames st) = 1)"
proof -
  let ?r = "\<lparr>fr_reason = FitPadding, fr_force = True, fr_refresh = True, fr_clear = False, fr_focus = False,
      fr_width = None, fr_height = None, fr_complete = [7]\<rparr>"
  have run: "fit_run [ScheduleInput ?r] = (scheduleFit ?r fit_start, [7], [])" and alive: "\<not> fs_disposed (scheduleFit ?r fit_start)"
    by (simp_all add: fit_run_def fit_start_def scheduleFit_def Let_def)
  from fit_requests_answered [of "[ScheduleInput ?r]" "[]"] run alive show ?thesis by simp
qed

text \<open>A forced fit of a hidden terminal waits until it is visible, but a second one replaces it and
  loses its flags: the texture atlas is not cleared.\<close>

definition hidden_view :: fit_view where
  "hidden_view = \<lparr>fv_terminal = Some \<lparr>fd_cols = 80, fd_rows = 24\<rparr>, fv_addon = True, fv_container = Some True, fv_visible = False,
     fv_rect = (800, 600), fv_proposed = None, fv_fitted = \<lparr>fd_cols = 100, fd_rows = 30\<rparr>\<rparr>"

definition forced_fit :: "fit_reason \<Rightarrow> bool \<Rightarrow> fit_request" where
  "forced_fit reason clear = \<lparr>fr_reason = reason, fr_force = True, fr_refresh = True, fr_clear = clear, fr_focus = False,
     fr_width = None, fr_height = None, fr_complete = []\<rparr>"

lemma deferred_flags_lost:
  "ClearAtlas \<notin> set (snd (snd (fit_run [ScheduleInput (forced_fit FitScaleFactor True), FrameInput 0 hidden_view 0,
      ScheduleInput (forced_fit FitPadding False), FrameInput 0 hidden_view 1, VisibleInput True,
      FrameInput 0 (hidden_view\<lparr>fv_visible := True\<rparr>) 2])))"
  by (simp add: fit_run_def fit_start_def forced_fit_def hidden_view_def scheduleFit_def cancelPending_def mergeRequests_def
      fireFrame_def runFit_def Let_def completeCalls_def notifyVisible_def visibleRequest_def recordFitResult_def)

section \<open>Repeated sizes\<close>

record resize_deduper =
  rd_identity :: "(js_text \<times> nat) option"
  rd_last :: "fit_dims option"

definition resetDeduper :: "js_text \<Rightarrow> nat \<Rightarrow> resize_deduper" where
  "resetDeduper session generation = \<lparr>rd_identity = Some (session, generation), rd_last = None\<rparr>"

definition shouldSend :: "js_text \<Rightarrow> nat \<Rightarrow> fit_dims \<Rightarrow> resize_deduper \<Rightarrow> bool \<times> resize_deduper" where
  "shouldSend session generation sz d0 =
     (let d = (if rd_identity d0 \<noteq> Some (session, generation) then resetDeduper session generation else d0) in
      if fd_cols sz \<le> 0 \<or> fd_rows sz \<le> 0 then (False, d)
      else if rd_last d = Some sz then (False, d)
      else (True, d\<lparr>rd_last := Some sz\<rparr>))"

fun sentSizes :: "js_text \<Rightarrow> nat \<Rightarrow> fit_dims list \<Rightarrow> resize_deduper \<Rightarrow> fit_dims list" where
  "sentSizes session generation [] d = []"
| "sentSizes session generation (sz # sizes) d =
     (case shouldSend session generation sz d of (send, d') \<Rightarrow>
        (if send then [sz] else []) @ sentSizes session generation sizes d')"

lemma sent_same_identity:
  "rd_identity d = Some (s, g) \<Longrightarrow> sentSizes s g sizes d =
     (let valid = filter (\<lambda>x. fd_cols x > 0 \<and> fd_rows x > 0) sizes in
      case rd_last d of None \<Rightarrow> remdups_adj valid | Some x \<Rightarrow> tl (remdups_adj (x # valid)))"
proof (induction sizes arbitrary: d)
  case Nil
  then show ?case by (simp split: option.split)
next
  case (Cons x xs)
  show ?case
  proof (cases "fd_cols x \<le> 0 \<or> fd_rows x \<le> 0")
    case True
    with Cons show ?thesis by (auto simp: shouldSend_def Let_def)
  next
    case False
    let ?d = "d\<lparr>rd_last := Some x\<rparr>" and ?valid = "filter (\<lambda>x. fd_cols x > 0 \<and> fd_rows x > 0) xs"
    have IH: "sentSizes s g xs ?d = tl (remdups_adj (x # ?valid))" using Cons.IH [of ?d] Cons.prems by simp
    have hd: "remdups_adj (x # zs) = x # tl (remdups_adj (x # zs))" for zs
      by (induction zs) auto
    show ?thesis
    proof (cases "rd_last d = Some x")
      case True
      have "sentSizes s g (x # xs) d = sentSizes s g xs d" using False True Cons.prems by (simp add: shouldSend_def Let_def)
      also have "\<dots> = tl (remdups_adj (x # ?valid))" using Cons.IH [OF Cons.prems] True by simp
      finally show ?thesis using False True by simp
    next
      case other: False
      have "sentSizes s g (x # xs) d = x # tl (remdups_adj (x # ?valid))" using False other Cons.prems IH by (simp add: shouldSend_def Let_def)
      then have "sentSizes s g (x # xs) d = remdups_adj (x # ?valid)" using hd by metis
      then show ?thesis using False other by (cases "rd_last d") auto
    qed
  qed
qed

text \<open>a terminal tells the back end exactly the changes of its size: of the sizes reported for one session
  and generation those with a positive number of columns and rows are sent, without immediate
  repetitions.\<close>

theorem resizes_sent_exact:
  assumes "rd_identity d \<noteq> Some (s, g)"
  shows "sentSizes s g sizes d = remdups_adj (filter (\<lambda>x. fd_cols x > 0 \<and> fd_rows x > 0) sizes)"
proof (cases sizes)
  case (Cons x xs)
  have "sentSizes s g (x # xs) d = sentSizes s g (x # xs) (resetDeduper s g)"
    using assms by (simp add: shouldSend_def Let_def resetDeduper_def)
  then show ?thesis unfolding Cons using sent_same_identity [of "resetDeduper s g" s g "x # xs"]
    by (simp add: resetDeduper_def)
qed simp

theorem resizes_sent_exact_witness:
  "let sz = (\<lambda>c. \<lparr>fd_cols = c, fd_rows = 24\<rparr>) in
   sentSizes [115] 1 [sz 80, sz 80, sz 0, sz 80, sz 90, sz 80] (resetDeduper [115] 0) = [sz 80, sz 90, sz 80]"
proof -
  have "rd_identity (resetDeduper [115] 0) \<noteq> Some ([115], 1)" by (simp add: resetDeduper_def)
  note sent = resizes_sent_exact [OF this]
  show ?thesis unfolding Let_def sent by simp
qed

end
