(* ===== verification/Shortcuts.thy ===== *)
theory Shortcuts
  imports Terminal_Command
begin

text \<open>
  Keyboard shortcuts (\<open>lib/shortcutRegistry.ts\<close>, \<open>components/settings/KeyboardShortcutsTab.tsx\<close>,
  \<open>hooks/useShortcutMap.ts\<close>): the registry, capturing a key event as a shortcut, matching a key event
  against a shortcut, the numbered shortcuts of tabs, their display and the search for conflicts.

  \<open>toLowerCase\<close> and \<open>toUpperCase\<close> are parameters. The tables are read with the keys of key events and
  of shortcuts; a name that every object has, such as \<open>constructor\<close>, is not a key.
\<close>

section \<open>The registry\<close>

datatype shortcut_category = TerminalShortcut | TabShortcut | ViewShortcut | SpecialShortcut | FileExplorerShortcut
  | SavedConnectionsShortcut

datatype shortcut_definition = shortcut (sd_id: string) (sd_category: shortcut_category) (sd_labelKey: string)
  (sd_keys: string) (sd_contextual: bool)

definition SHORTCUT_REGISTRY :: "shortcut_definition list" where
  "SHORTCUT_REGISTRY =
    [shortcut ''terminal.copy'' TerminalShortcut ''terminalCtx.copy'' ''ctrl+shift+c, meta+shift+c'' False,
     shortcut ''terminal.paste'' TerminalShortcut ''terminalCtx.paste'' ''ctrl+shift+v, meta+shift+v, shift+insert'' False,
     shortcut ''terminal.pasteSelected'' TerminalShortcut ''terminalCtx.pasteSelectedText'' ''ctrl+shift+x, meta+shift+x'' False,
     shortcut ''terminal.find'' TerminalShortcut ''terminalCtx.find'' ''ctrl+shift+f, meta+shift+f'' False,
     shortcut ''terminal.clear'' TerminalShortcut ''terminalCtx.clearScreen'' ''ctrl+l, meta+l'' False,
     shortcut ''terminal.recording.toggle'' TerminalShortcut ''settings.shortcutLabels.toggleRecording'' ''ctrl+alt+r, meta+alt+r'' False,
     shortcut ''terminal.selectAll'' TerminalShortcut ''terminalCtx.selectAll'' ''ctrl+shift+a, meta+shift+a'' False,
     shortcut ''terminal.showCommandSuggestions'' TerminalShortcut ''settings.shortcutLabels.showCommandSuggestions'' ''alt+r'' False,
     shortcut ''terminal.manageSyncGroups'' TerminalShortcut ''settings.shortcutLabels.manageSyncGroups'' ''ctrl+shift+g, meta+shift+g'' False,
     shortcut ''tab.newSession'' TabShortcut ''settings.shortcutLabels.newSession'' ''ctrl+shift+n, meta+shift+n'' False,
     shortcut ''tab.temporarySshLink'' TabShortcut ''settings.shortcutLabels.temporarySshLink'' ''ctrl+alt+n, meta+alt+n'' False,
     shortcut ''tab.quickSwitch'' TabShortcut ''settings.shortcutLabels.quickSwitch'' ''ctrl+shift+s, meta+shift+s'' False,
     shortcut ''tab.newLocalTerminal'' TabShortcut ''settings.shortcutLabels.newLocalTerminal'' ''ctrl+`, meta+`'' False,
     shortcut ''tab.close'' TabShortcut ''settings.shortcutLabels.closeTab'' ''ctrl+shift+w, meta+w, meta+shift+w'' False,
     shortcut ''tab.next'' TabShortcut ''settings.shortcutLabels.nextTab'' ''ctrl+tab'' False,
     shortcut ''tab.prev'' TabShortcut ''settings.shortcutLabels.prevTab'' ''ctrl+shift+tab'' False,
     shortcut ''tab.switchTo'' TabShortcut ''settings.shortcutLabels.switchTab'' ''ctrl+1-9, meta+1-9'' False,
     shortcut ''tab.duplicateSession'' TabShortcut ''settings.shortcutLabels.duplicateSession'' ''ctrl+shift+d, meta+shift+d'' False,
     shortcut ''tab.multiplexSsh'' TabShortcut ''settings.shortcutLabels.multiplexSsh'' ''ctrl+shift+m, meta+shift+m'' False,
     shortcut ''tab.duplicateSessionWithCommand'' TabShortcut ''settings.shortcutLabels.duplicateSessionWithCommand'' ''ctrl+alt+d, meta+alt+d'' False,
     shortcut ''tab.multiplexSshWithCommand'' TabShortcut ''settings.shortcutLabels.multiplexSshWithCommand'' ''ctrl+alt+m, meta+alt+m'' False,
     shortcut ''view.toggleLeftSidebar'' ViewShortcut ''settings.shortcutLabels.toggleLeftSidebar'' ''ctrl+shift+e, meta+shift+e'' False,
     shortcut ''view.toggleRightSidebar'' ViewShortcut ''settings.shortcutLabels.toggleRightSidebar'' ''ctrl+shift+b, meta+shift+b'' False,
     shortcut ''view.zoomIn'' ViewShortcut ''settings.shortcutLabels.zoomIn'' ''ctrl+=, meta+=, ctrl+shift+=, meta+shift+='' False,
     shortcut ''view.zoomOut'' ViewShortcut ''settings.shortcutLabels.zoomOut'' ''ctrl+-, meta+-'' False,
     shortcut ''view.resetZoom'' ViewShortcut ''settings.shortcutLabels.resetZoom'' ''ctrl+0, meta+0'' False,
     shortcut ''view.openSettings'' ViewShortcut ''settings.shortcutLabels.openSettings'' ''ctrl+comma, meta+comma'' False,
     shortcut ''view.openChat'' ViewShortcut ''settings.shortcutLabels.openChat'' ''ctrl+alt+i, meta+alt+i'' False,
     shortcut ''view.showAllCommands'' ViewShortcut ''settings.shortcutLabels.showAllCommands'' ''ctrl+shift+p, meta+shift+p'' False,
     shortcut ''fileExplorer.rename'' FileExplorerShortcut ''settings.shortcutLabels.renameFile'' ''F2'' True,
     shortcut ''savedConnections.copySelected'' SavedConnectionsShortcut ''settings.shortcutLabels.copySelectedSavedConnections'' ''ctrl+alt+c, meta+alt+c'' True,
     shortcut ''special.lockScreen'' SpecialShortcut ''settings.shortcutLabels.lockScreen'' ''ctrl+shift+l, meta+shift+l'' False]"

definition CODE_TO_KEY :: "(string \<times> string) list" where
  "CODE_TO_KEY =
    [(''KeyA'', ''a''), (''KeyB'', ''b''), (''KeyC'', ''c''), (''KeyD'', ''d''), (''KeyE'', ''e''),
     (''KeyF'', ''f''), (''KeyG'', ''g''), (''KeyH'', ''h''), (''KeyI'', ''i''), (''KeyJ'', ''j''),
     (''KeyK'', ''k''), (''KeyL'', ''l''), (''KeyM'', ''m''), (''KeyN'', ''n''), (''KeyO'', ''o''),
     (''KeyP'', ''p''), (''KeyQ'', ''q''), (''KeyR'', ''r''), (''KeyS'', ''s''), (''KeyT'', ''t''),
     (''KeyU'', ''u''), (''KeyV'', ''v''), (''KeyW'', ''w''), (''KeyX'', ''x''), (''KeyY'', ''y''),
     (''KeyZ'', ''z''), (''Digit0'', ''0''), (''Digit1'', ''1''), (''Digit2'', ''2''), (''Digit3'', ''3''),
     (''Digit4'', ''4''), (''Digit5'', ''5''), (''Digit6'', ''6''), (''Digit7'', ''7''), (''Digit8'', ''8''),
     (''Digit9'', ''9''), (''Equal'', ''=''), (''Minus'', ''-''), (''Backquote'', ''backquote''),
     (''Comma'', ''comma''), (''Tab'', ''tab''), (''Escape'', ''escape''), (''Space'', ''space''),
     (''Enter'', ''enter''), (''Backspace'', ''backspace''), (''Delete'', ''delete''), (''Insert'', ''insert''),
     (''BracketLeft'', ''[''), (''BracketRight'', '']''), (''Semicolon'', '';''), (''Quote'', [CHR 0x27]),
     (''Backslash'', [CHR 0x5C]), (''Slash'', ''/''), (''Period'', ''.''), (''ArrowUp'', ''arrowup''),
     (''ArrowDown'', ''arrowdown''), (''ArrowLeft'', ''arrowleft''), (''ArrowRight'', ''arrowright'')]"

definition KEY_TO_CODE :: "(string \<times> string) list" where
  "KEY_TO_CODE =
    [(''a'', ''KeyA''), (''b'', ''KeyB''), (''c'', ''KeyC''), (''d'', ''KeyD''), (''e'', ''KeyE''),
     (''f'', ''KeyF''), (''g'', ''KeyG''), (''h'', ''KeyH''), (''i'', ''KeyI''), (''j'', ''KeyJ''),
     (''k'', ''KeyK''), (''l'', ''KeyL''), (''m'', ''KeyM''), (''n'', ''KeyN''), (''o'', ''KeyO''),
     (''p'', ''KeyP''), (''q'', ''KeyQ''), (''r'', ''KeyR''), (''s'', ''KeyS''), (''t'', ''KeyT''),
     (''u'', ''KeyU''), (''v'', ''KeyV''), (''w'', ''KeyW''), (''x'', ''KeyX''), (''y'', ''KeyY''),
     (''z'', ''KeyZ''), (''0'', ''Digit0''), (''1'', ''Digit1''), (''2'', ''Digit2''), (''3'', ''Digit3''),
     (''4'', ''Digit4''), (''5'', ''Digit5''), (''6'', ''Digit6''), (''7'', ''Digit7''), (''8'', ''Digit8''),
     (''9'', ''Digit9''), (''='', ''Equal''), (''-'', ''Minus''), (''backquote'', ''Backquote''),
     (''`'', ''Backquote''), (''comma'', ''Comma''), ('','', ''Comma''), (''tab'', ''Tab''),
     (''escape'', ''Escape''), (''space'', ''Space''), (''enter'', ''Enter''), (''backspace'', ''Backspace''),
     (''delete'', ''Delete''), (''insert'', ''Insert''), (''['', ''BracketLeft''), ('']'', ''BracketRight''),
     ('';'', ''Semicolon''), ([CHR 0x27], ''Quote''), ([CHR 0x5C], ''Backslash''), (''/'', ''Slash''),
     (''.'', ''Period''), (''arrowup'', ''ArrowUp''), (''arrowdown'', ''ArrowDown''),
     (''arrowleft'', ''ArrowLeft''), (''arrowright'', ''ArrowRight'')]"

definition tableGet :: "(string \<times> string) list \<Rightarrow> js_text \<Rightarrow> js_text option" where
  "tableGet t k = map_of (map (\<lambda>(a, b). (js a, js b)) t) k"

definition getDefaultKeys :: "js_text \<Rightarrow> js_text" where
  "getDefaultKeys i = (case find_index (\<lambda>d. js (sd_id d) = i) SHORTCUT_REGISTRY of
     None \<Rightarrow> [] | Some n \<Rightarrow> js (sd_keys (SHORTCUT_REGISTRY ! n)))"

definition resolveKeys :: "js_text \<Rightarrow> (js_text \<times> js_text) list \<Rightarrow> js_text" where
  "resolveKeys i overrides = (case map_of overrides i of Some k \<Rightarrow> k | None \<Rightarrow> getDefaultKeys i)"

section \<open>Capturing a key event\<close>

record shortcut_event =
  ke_ctrl :: bool
  ke_meta :: bool
  ke_shift :: bool
  ke_alt :: bool
  ke_code :: js_text

definition isDigitUnit :: "nat \<Rightarrow> bool" where
  "isDigitUnit c \<longleftrightarrow> 48 \<le> c \<and> c \<le> 57"

text \<open>\<open>/^F\d+$/\<close> and \<open>/^f\d+$/\<close>, for the letter \<open>f\<close>.\<close>

definition functionKey :: "nat \<Rightarrow> js_text \<Rightarrow> bool" where
  "functionKey f t \<longleftrightarrow> (case t of [] \<Rightarrow> False | c # r \<Rightarrow> c = f \<and> r \<noteq> [] \<and> list_all isDigitUnit r)"

definition codeToKeyName :: "js_text \<Rightarrow> js_text" where
  "codeToKeyName code = (case tableGet CODE_TO_KEY code of Some k \<Rightarrow> k
     | None \<Rightarrow> if functionKey 70 code then code else [])"

definition modifierParts :: "shortcut_event \<Rightarrow> js_text list" where
  "modifierParts e = (if ke_ctrl e then [js ''ctrl''] else []) @ (if ke_meta e then [js ''meta''] else [])
     @ (if ke_shift e then [js ''shift''] else []) @ (if ke_alt e then [js ''alt''] else [])"

definition keyEventToHotkeyString :: "shortcut_event \<Rightarrow> js_text" where
  "keyEventToHotkeyString e =
     (let keyName = codeToKeyName (ke_code e) in
      if keyName = [] then [] else joinWith [43] (modifierParts e @ [keyName]))"

definition isModifierOnlyKeyEvent :: "shortcut_event \<Rightarrow> bool" where
  "isModifierOnlyKeyEvent e \<longleftrightarrow>
     ke_code e \<in> set [js m @ js side. m \<leftarrow> [''Control'', ''Meta'', ''Alt'', ''Shift''], side \<leftarrow> [''Left'', ''Right'', '''']]"

definition keyEventToIndexedHotkeyString :: "shortcut_event \<Rightarrow> js_text" where
  "keyEventToIndexedHotkeyString e =
     (let combo = keyEventToHotkeyString e in
      if combo \<noteq> [] then combo
      else if \<not> isModifierOnlyKeyEvent e then []
      else joinWith [43] (modifierParts e))"

section \<open>Matching\<close>

record parsed_combo =
  pc_ctrl :: bool
  pc_meta :: bool
  pc_shift :: bool
  pc_alt :: bool
  pc_key :: js_text

definition parsePart :: "js_text \<Rightarrow> parsed_combo \<Rightarrow> parsed_combo" where
  "parsePart p c =
     (if p = js ''ctrl'' then c\<lparr>pc_ctrl := True\<rparr>
      else if p = js ''meta'' then c\<lparr>pc_meta := True\<rparr>
      else if p = js ''shift'' then c\<lparr>pc_shift := True\<rparr>
      else if p = js ''alt'' then c\<lparr>pc_alt := True\<rparr>
      else c\<lparr>pc_key := p\<rparr>)"

text \<open>The key name of a function key is upper-cased: its digits stay.\<close>

definition keyNameToCode :: "js_text \<Rightarrow> js_text" where
  "keyNameToCode key = (case tableGet KEY_TO_CODE key of Some c \<Rightarrow> c
     | None \<Rightarrow> if functionKey 102 key then 70 # tl key else key)"

definition comboParts :: "(js_text \<Rightarrow> js_text) \<Rightarrow> js_text \<Rightarrow> js_text list" where
  "comboParts lower combo = map (\<lambda>p. lower (trim p)) (splitOn (\<lambda>c. c = 43) (trim combo))"

definition parseSingleCombo :: "(js_text \<Rightarrow> js_text) \<Rightarrow> js_text \<Rightarrow> shortcut_event" where
  "parseSingleCombo lower combo =
     (let c = fold parsePart (comboParts lower combo) \<lparr>pc_ctrl = False, pc_meta = False, pc_shift = False, pc_alt = False, pc_key = []\<rparr>
      in \<lparr>ke_ctrl = pc_ctrl c, ke_meta = pc_meta c, ke_shift = pc_shift c, ke_alt = pc_alt c, ke_code = keyNameToCode (pc_key c)\<rparr>)"

definition parseHotkeyString :: "(js_text \<Rightarrow> js_text) \<Rightarrow> js_text \<Rightarrow> shortcut_event list" where
  "parseHotkeyString lower keys =
     (if keys = [] then [] else map (parseSingleCombo lower) (splitOn (\<lambda>c. c = 44) keys))"

definition matchesKeyEvent :: "(js_text \<Rightarrow> js_text) \<Rightarrow> js_text \<Rightarrow> shortcut_event \<Rightarrow> bool" where
  "matchesKeyEvent lower keys e = list_ex (\<lambda>c. c = e) (parseHotkeyString lower keys)"

section \<open>Numbered tabs\<close>

definition isModifierOnlyCombo :: "(js_text \<Rightarrow> js_text) \<Rightarrow> js_text \<Rightarrow> bool" where
  "isModifierOnlyCombo lower combo =
     list_all (\<lambda>k. k \<in> set [js ''ctrl'', js ''meta'', js ''shift'', js ''alt''])
       (map (\<lambda>p. lower (trim p)) (splitOn (\<lambda>c. c = 43) combo))"

text \<open>The final \<open>1-9\<close> or digit from 1 to 9 is replaced.\<close>

definition replaceIndex :: "js_text \<Rightarrow> js_text \<Rightarrow> js_text option" where
  "replaceIndex t digit =
     (if ends_with t (js ''1-9'') then Some (take (length t - 3) t @ digit)
      else if t \<noteq> [] \<and> 49 \<le> last t \<and> last t \<le> 57 then Some (butlast t @ digit)
      else None)"

definition resolveIndexedCombo :: "(js_text \<Rightarrow> js_text) \<Rightarrow> nat \<Rightarrow> js_text \<Rightarrow> js_text" where
  "resolveIndexedCombo lower tabNumber combo =
     (let digit = js (show_nat tabNumber); trimmed = trim combo in
      case replaceIndex trimmed digit of
        Some t \<Rightarrow> t
      | None \<Rightarrow> if isModifierOnlyCombo lower trimmed then trimmed @ 43 # digit
                else if tabNumber = 1 then trimmed else [])"

definition resolveIndexedKeys :: "(js_text \<Rightarrow> js_text) \<Rightarrow> js_text \<Rightarrow> nat \<Rightarrow> js_text" where
  "resolveIndexedKeys lower keys tabNumber =
     joinWith [44, 32] (filter (\<lambda>t. t \<noteq> []) (map (resolveIndexedCombo lower tabNumber) (splitOn (\<lambda>c. c = 44) keys)))"

definition trimmedCombos :: "js_text \<Rightarrow> js_text list" where
  "trimmedCombos keys = filter (\<lambda>t. t \<noteq> []) (map trim (splitOn (\<lambda>c. c = 44) keys))"

definition isValidIndexedShortcutTemplate :: "(js_text \<Rightarrow> js_text) \<Rightarrow> js_text \<Rightarrow> bool" where
  "isValidIndexedShortcutTemplate lower keys \<longleftrightarrow>
     trimmedCombos keys \<noteq> [] \<and>
     list_all (\<lambda>combo.
         let parts = filter (\<lambda>p. p \<noteq> []) (map (\<lambda>p. lower (trim p)) (splitOn (\<lambda>c. c = 43) combo))
         in length parts > 1 \<and> last parts = js ''1'') (trimmedCombos keys)"

section \<open>Display\<close>

definition pickDisplayCombo :: "(js_text \<Rightarrow> js_text) \<Rightarrow> bool \<Rightarrow> js_text \<Rightarrow> js_text" where
  "pickDisplayCombo lower isMac keys =
     (case trimmedCombos keys of [] \<Rightarrow> [] | [c] \<Rightarrow> c
      | c # cs \<Rightarrow>
          (let preferredModifier = js (if isMac then ''meta'' else ''ctrl'') in
           case filter (\<lambda>combo. preferredModifier \<in> set (map (\<lambda>p. lower (trim p)) (splitOn (\<lambda>c. c = 43) combo))) (c # cs) of
             [] \<Rightarrow> c | p # _ \<Rightarrow> p))"

definition formatSingleKey :: "(js_text \<Rightarrow> js_text) \<Rightarrow> (js_text \<Rightarrow> js_text) \<Rightarrow> bool \<Rightarrow> js_text \<Rightarrow> js_text" where
  "formatSingleKey lower upper isMac key =
     (case map_of (map (\<lambda>(a, b). (js a, b)) [(''ctrl'', js ''Ctrl''), (''meta'', if isMac then [0x2318] else js ''Meta''), (''shift'', js ''Shift''), (''alt'', js ''Alt''),
         (''comma'', js '',''), (''tab'', js ''Tab''), (''escape'', js ''Esc''), (''backquote'', js ''`''), (''space'', js ''Space''),
         (''delete'', js ''Delete''), (''insert'', js ''Insert''), (''backspace'', js ''Backspace''), (''enter'', js ''Enter''),
         (''arrowup'', [0x2191]), (''arrowdown'', [0x2193]), (''arrowleft'', [0x2190]), (''arrowright'', [0x2192])])
        (lower key) of
       Some d \<Rightarrow> d | None \<Rightarrow> upper key)"

definition formatKeysForDisplay :: "(js_text \<Rightarrow> js_text) \<Rightarrow> (js_text \<Rightarrow> js_text) \<Rightarrow> bool \<Rightarrow> js_text \<Rightarrow> js_text" where
  "formatKeysForDisplay lower upper isMac keys =
     joinWith [43] (map (\<lambda>k. formatSingleKey lower upper isMac (trim k)) (splitOn (\<lambda>c. c = 43) (pickDisplayCombo lower isMac keys)))"

definition formatIndexedKeysForDisplay :: "(js_text \<Rightarrow> js_text) \<Rightarrow> (js_text \<Rightarrow> js_text) \<Rightarrow> bool \<Rightarrow> js_text \<Rightarrow> js_text" where
  "formatIndexedKeysForDisplay lower upper isMac keys =
     (let t = pickDisplayCombo lower isMac keys in
      formatKeysForDisplay lower upper isMac (if ends_with t (js ''+1'') then take (length t - 2) t @ js ''+1-9'' else t))"

section \<open>Conflicts\<close>

definition normalizedCombos :: "(js_text \<Rightarrow> js_text) \<Rightarrow> js_text \<Rightarrow> js_text list" where
  "normalizedCombos lower keys = filter (\<lambda>t. t \<noteq> []) (map (\<lambda>t. lower (trim t)) (splitOn (\<lambda>c. c = 44) keys))"

definition findConflict :: "(js_text \<Rightarrow> js_text) \<Rightarrow> (js_text \<times> js_text) list \<Rightarrow> js_text \<Rightarrow> js_text \<Rightarrow> shortcut_definition option" where
  "findConflict lower overrides hotkeyString excludeId =
     (if hotkeyString = [] then None
      else (case filter (\<lambda>d. js (sd_id d) \<noteq> excludeId \<and>
                  list_ex (\<lambda>n. n \<in> set (normalizedCombos lower (resolveKeys (js (sd_id d)) overrides))) (normalizedCombos lower hotkeyString))
                SHORTCUT_REGISTRY of
              [] \<Rightarrow> None | d # _ \<Rightarrow> Some d))"

section \<open>Captured shortcuts match exactly their event\<close>

text \<open>What is used of \<open>toLowerCase\<close>: on ASCII text it maps the capital letters.\<close>

definition lowers_ascii :: "(js_text \<Rightarrow> js_text) \<Rightarrow> bool" where
  "lowers_ascii lower \<longleftrightarrow> (\<forall>t. (\<forall>c \<in> set t. c < 128) \<longrightarrow> lower t = ascii_lower t)"

lemma ascii_lowers_ascii [simp]: "lowers_ascii ascii_lower"
  by (simp add: lowers_ascii_def)

definition clean_unit :: "nat \<Rightarrow> bool" where
  "clean_unit c \<longleftrightarrow> 33 \<le> c \<and> c < 128 \<and> c \<noteq> 43 \<and> c \<noteq> 44"

lemma clean_unit_facts: "clean_unit c \<Longrightarrow> \<not> isSpace c \<and> c < 128 \<and> c \<noteq> 43 \<and> c \<noteq> 44"
  by (auto simp: clean_unit_def isSpace_def)

lemma trim_clean: "\<forall>c \<in> set t. \<not> isSpace c \<Longrightarrow> trim t = t"
proof -
  assume t: "\<forall>c \<in> set t. \<not> isSpace c"
  have "u = [] \<or> \<not> isSpace (hd u)" if "set u = set t" for u using that t by (cases u) auto
  note this [of t] this [of "rev t"]
  then have "dropWhile isSpace t = t" "dropWhile isSpace (rev t) = rev t" unfolding dropWhile_eq_self_iff by simp_all
  then show ?thesis by (simp add: trim_def trimStart_def trimEnd_def)
qed

definition modifier_names :: "string list" where
  "modifier_names = [''ctrl'', ''meta'', ''shift'', ''alt'']"

lemma code_table: "list_all (\<lambda>(code, k). k \<noteq> [] \<and> k \<notin> set modifier_names \<and> map_of KEY_TO_CODE k = Some code) CODE_TO_KEY"
  by code_simp

lemma code_table_units: "list_all (\<lambda>(code, k). list_all clean_unit (js k) \<and> ascii_lower (js k) = js k) CODE_TO_KEY"
  by (simp add: CODE_TO_KEY_def js_def clean_unit_def ascii_lower_def)

lemma no_function_key_names: "list_all (\<lambda>(k, code). k \<noteq> [] \<and> (hd k = CHR ''f'' \<longrightarrow> tl k = [])) KEY_TO_CODE"
  by (simp add: KEY_TO_CODE_def)

lemma tableGet_js [simp]: "tableGet t (js k) = map_option js (map_of t k)"
  by (induction t) (auto simp: tableGet_def js_inj)

lemma tableGet_Some: "tableGet t k = Some v \<Longrightarrow> \<exists>a b. (a, b) \<in> set t \<and> k = js a \<and> v = js b"
  unfolding tableGet_def by (drule map_of_SomeD) auto

definition mod_texts :: "js_text set" where
  "mod_texts = set [js ''ctrl'', js ''meta'', js ''shift'', js ''alt'']"

lemma key_name_facts:
  assumes "codeToKeyName code \<noteq> []"
  shows "\<forall>c \<in> set (codeToKeyName code). clean_unit c" and "ascii_lower (codeToKeyName code) \<notin> mod_texts"
    and "keyNameToCode (ascii_lower (codeToKeyName code)) = code"
proof -
  have "(\<forall>c \<in> set (codeToKeyName code). clean_unit c) \<and> ascii_lower (codeToKeyName code) \<notin> mod_texts
    \<and> keyNameToCode (ascii_lower (codeToKeyName code)) = code"
  proof (cases "tableGet CODE_TO_KEY code")
    case (Some k)
    then obtain a b where ab: "(a, b) \<in> set CODE_TO_KEY" "code = js a" "k = js b" using tableGet_Some by blast
    with code_table code_table_units have "list_all clean_unit (js b)" "ascii_lower (js b) = js b" "b \<notin> set modifier_names" "map_of KEY_TO_CODE b = Some a"
      by (auto simp: list_all_iff)
    with ab Some show ?thesis
      by (auto simp: codeToKeyName_def keyNameToCode_def list_all_iff mod_texts_def modifier_names_def js_inj)
  next
    case None
    with assms have "functionKey 70 code" by (simp add: codeToKeyName_def split: if_splits)
    then obtain r where r: "code = 70 # r" "r \<noteq> []" "\<forall>c \<in> set r. isDigitUnit c"
      by (auto simp: functionKey_def list_all_iff split: list.splits)
    with None have n: "codeToKeyName code = 70 # r" by (simp add: codeToKeyName_def functionKey_def list_all_iff)
    have low: "ascii_lower (70 # r) = 102 # r" using r(3) by (auto simp: ascii_lower_def isDigitUnit_def intro!: map_idI)
    have "tableGet KEY_TO_CODE (102 # r) = None"
    proof (rule ccontr)
      assume "tableGet KEY_TO_CODE (102 # r) \<noteq> None"
      then obtain a b where ab: "(a, b) \<in> set KEY_TO_CODE" "102 # r = js a" using tableGet_Some by fastforce
      then obtain x xs where a: "a = x # xs" "of_char x = (102 :: nat)" "js xs = r" by (cases a) (auto simp: js_def)
      have "of_char x = (of_char (CHR ''f'') :: nat)" using a(2) by simp
      then have "x = CHR ''f''" by (simp only: of_char_eq_iff)
      with no_function_key_names ab(1) a(1) have "xs = []" by (auto simp: list_all_iff)
      with a(3) r(2) show False by (simp add: js_def)
    qed
    moreover have "functionKey 102 (102 # r)" using r(2,3) by (simp add: functionKey_def list_all_iff)
    ultimately have "keyNameToCode (102 # r) = code" by (simp add: keyNameToCode_def r(1))
    moreover have "102 # r \<notin> mod_texts" by (auto simp: mod_texts_def js_def)
    moreover have "\<forall>c \<in> set (70 # r). clean_unit c" using r(3) by (auto simp: clean_unit_def isDigitUnit_def)
    ultimately show ?thesis unfolding n low by blast
  qed
  then show "\<forall>c \<in> set (codeToKeyName code). clean_unit c" "ascii_lower (codeToKeyName code) \<notin> mod_texts"
    "keyNameToCode (ascii_lower (codeToKeyName code)) = code" by blast+
qed

lemma modifier_parts_clean: "\<forall>p \<in> set (modifierParts e). \<forall>c \<in> set p. clean_unit c"
  by (auto simp: modifierParts_def js_def clean_unit_def)

lemma modifier_parts_lower: "p \<in> set (modifierParts e) \<Longrightarrow> ascii_lower p = p"
  by (auto simp: modifierParts_def js_def ascii_lower_def split: if_splits)

lemma join_units: "c \<in> set (joinWith [d] ws) \<Longrightarrow> c = d \<or> (\<exists>w \<in> set ws. c \<in> set w)"
  by (induction "[d]" ws rule: joinWith.induct) auto

lemma fold_modifiers:
  assumes "key \<notin> mod_texts"
  shows "fold parsePart (modifierParts e @ [key]) \<lparr>pc_ctrl = False, pc_meta = False, pc_shift = False, pc_alt = False, pc_key = []\<rparr>
    = \<lparr>pc_ctrl = ke_ctrl e, pc_meta = ke_meta e, pc_shift = ke_shift e, pc_alt = ke_alt e, pc_key = key\<rparr>"
  using assms by (simp add: modifierParts_def parsePart_def js_inj mod_texts_def)

text \<open>A captured shortcut is read back as the event.\<close>

lemma hotkey_combo:
  assumes "lowers_ascii lower" "ws \<noteq> []" "\<forall>w \<in> set ws. \<forall>c \<in> set w. clean_unit c"
  shows "comboParts lower (joinWith [43] ws) = map ascii_lower ws"
    and "splitOn (\<lambda>c. c = 44) (joinWith [43] ws) = [joinWith [43] ws]"
    and "trim (joinWith [43] ws) = joinWith [43] ws"
proof -
  have u: "\<not> isSpace c \<and> c \<noteq> 44" if "c \<in> set (joinWith [43] ws)" for c
    using join_units [OF that] assms(3) clean_unit_facts by (auto simp: isSpace_def)
  then show t: "trim (joinWith [43] ws) = joinWith [43] ws" by (intro trim_clean) blast
  show "splitOn (\<lambda>c. c = 44) (joinWith [43] ws) = [joinWith [43] ws]" using u by (intro splitOn_none) blast
  have s: "splitOn (\<lambda>c. c = 43) (joinWith [43] ws) = ws"
    using assms(2,3) clean_unit_facts by (intro splitOn_joinWith) blast+
  have "lower (trim w) = ascii_lower w" if "w \<in> set ws" for w
  proof -
    have "trim w = w" using that assms(3) clean_unit_facts by (intro trim_clean) blast
    moreover have "\<forall>c \<in> set w. c < 128" using that assms(3) clean_unit_facts by blast
    ultimately show ?thesis using assms(1) by (simp add: lowers_ascii_def)
  qed
  then show "comboParts lower (joinWith [43] ws) = map ascii_lower ws" by (simp add: comboParts_def t s)
qed

lemma captured_parses:
  assumes "lowers_ascii lower" "keyEventToHotkeyString e \<noteq> []"
  shows "parseHotkeyString lower (keyEventToHotkeyString e) = [e]"
proof -
  let ?k = "codeToKeyName (ke_code e)"
  have k: "?k \<noteq> []" using assms(2) by (simp add: keyEventToHotkeyString_def Let_def split: if_splits)
  note facts = key_name_facts [OF k]
  have e: "keyEventToHotkeyString e = joinWith [43] (modifierParts e @ [?k])"
    using k by (simp add: keyEventToHotkeyString_def Let_def)
  have clean: "\<forall>w \<in> set (modifierParts e @ [?k]). \<forall>c \<in> set w. clean_unit c"
    using modifier_parts_clean facts(1) by auto
  note c = hotkey_combo [OF assms(1) _ clean]
  have "map ascii_lower (modifierParts e @ [?k]) = modifierParts e @ [ascii_lower ?k]"
    using modifier_parts_lower by (simp add: map_idI)
  then have "parseSingleCombo lower (keyEventToHotkeyString e) = e"
    unfolding parseSingleCombo_def e using c(1) fold_modifiers [OF facts(2), of e] facts(3) by (simp add: Let_def)
  then show ?thesis using assms(2) c(2) by (simp add: parseHotkeyString_def e)
qed

text \<open>C28: a shortcut recorded from a key event and stored as an override is matched by exactly the events with
  the same key and the same modifiers.\<close>

theorem captured_shortcut_exact:
  assumes "lowers_ascii lower" "keyEventToHotkeyString e \<noteq> []"
  shows "matchesKeyEvent lower (resolveKeys i ((i, keyEventToHotkeyString e) # overrides)) e' \<longleftrightarrow> e' = e"
  using captured_parses [OF assms] by (auto simp: matchesKeyEvent_def resolveKeys_def)

definition ctrl_key :: "string \<Rightarrow> shortcut_event" where
  "ctrl_key code = \<lparr>ke_ctrl = True, ke_meta = False, ke_shift = False, ke_alt = False, ke_code = js code\<rparr>"

lemma ctrl_captured: "keyEventToHotkeyString (ctrl_key ''Backquote'') = js ''ctrl+backquote''" "keyEventToHotkeyString (ctrl_key ''Digit1'') = js ''ctrl+1''"
  unfolding keyEventToHotkeyString_def codeToKeyName_def ctrl_key_def shortcut_event.simps tableGet_js Let_def
  by (simp_all add: CODE_TO_KEY_def modifierParts_def js_def)

theorem captured_shortcut_exact_witness:
  "matchesKeyEvent ascii_lower (resolveKeys (js ''tab.close'') [(js ''tab.close'', keyEventToHotkeyString (ctrl_key ''Digit1''))]) (ctrl_key ''Digit1'')
   \<and> \<not> matchesKeyEvent ascii_lower (resolveKeys (js ''tab.close'') [(js ''tab.close'', keyEventToHotkeyString (ctrl_key ''Digit1''))]) (ctrl_key ''Backquote'')"
proof -
  have ne: "keyEventToHotkeyString (ctrl_key ''Digit1'') \<noteq> []" by (simp add: ctrl_captured js_def)
  note m = captured_shortcut_exact [OF ascii_lowers_ascii ne]
  show ?thesis unfolding m by (simp add: ctrl_key_def js_inj)
qed

section \<open>Numbered tabs\<close>

lemma show_digit_text: "n \<le> 9 \<Longrightarrow> show_nat n = [char_of (48 + n)]"
  by (subst show_nat.simps) simp

lemma show_digit: "1 \<le> n \<Longrightarrow> n \<le> 9 \<Longrightarrow> js (show_nat n) = [48 + n]"
  by (simp add: js_def show_digit_text)

lemma show_digits: "show_nat (Suc 0) = ''1''" "show_nat 2 = ''2''" "show_nat 3 = ''3''" "show_nat 4 = ''4''" "show_nat 5 = ''5''"
  "show_nat 6 = ''6''" "show_nat 7 = ''7''" "show_nat 8 = ''8''" "show_nat 9 = ''9''"
  by code_simp+

lemma joinWith_snoc: "ws \<noteq> [] \<Longrightarrow> joinWith s (ws @ [w]) = joinWith s ws @ s @ w"
  by (induction s ws rule: joinWith.induct) simp_all

lemma digit_code:
  assumes "1 \<le> n" "n \<le> 9"
  shows "codeToKeyName (js ''Digit'' @ js (show_nat n)) = js (show_nat n)"
proof -
  from assms have "n \<in> {1,2,3,4,5,6,7,8,9}" by auto
  moreover have "js ''Digit'' @ js (show_nat n) = js (''Digit'' @ show_nat n)" by (simp add: js_def)
  ultimately show ?thesis unfolding codeToKeyName_def by (elim insertE) (simp_all add: CODE_TO_KEY_def show_digits)
qed

text \<open>A captured template stands for the captured shortcut of each digit.\<close>

lemma resolved_template:
  assumes "lowers_ascii lower" "isValidIndexedShortcutTemplate lower (keyEventToHotkeyString e)" "1 \<le> n" "n \<le> 9"
  shows "resolveIndexedKeys lower (keyEventToHotkeyString e) n = keyEventToHotkeyString (e\<lparr>ke_code := js ''Digit'' @ js (show_nat n)\<rparr>)"
proof -
  let ?k = "codeToKeyName (ke_code e)" and ?keys = "keyEventToHotkeyString e"
  have ne: "?keys \<noteq> []" using assms(2) by (auto simp: isValidIndexedShortcutTemplate_def trimmedCombos_def trim_def trimStart_def trimEnd_def)
  then have k: "?k \<noteq> []" and e: "?keys = joinWith [43] (modifierParts e @ [?k])"
    by (simp_all add: keyEventToHotkeyString_def Let_def split: if_splits)
  have clean: "\<forall>w \<in> set (modifierParts e @ [?k]). \<forall>c \<in> set w. clean_unit c"
    using modifier_parts_clean key_name_facts(1) [OF k] by auto
  note c = hotkey_combo [OF assms(1) _ clean, folded e, simplified]
  have combos: "trimmedCombos ?keys = [?keys]" using c(2,3) ne by (simp add: trimmedCombos_def)
  have "map (\<lambda>p. lower (trim p)) (splitOn (\<lambda>c. c = 43) ?keys) = map ascii_lower (modifierParts e @ [?k])"
    using c(1,3) by (simp add: comboParts_def)
  with assms(2) have parts: "length (filter (\<lambda>p. p \<noteq> []) (map ascii_lower (modifierParts e @ [?k]))) > 1"
    "last (filter (\<lambda>p. p \<noteq> []) (map ascii_lower (modifierParts e @ [?k]))) = js ''1''"
    unfolding isValidIndexedShortcutTemplate_def combos Let_def by (simp_all only: list.pred_inject)
  have "ascii_lower ?k \<noteq> []" using k by (simp add: ascii_lower_def)
  with parts have low: "ascii_lower ?k = js ''1''" and ms: "modifierParts e \<noteq> []" by auto
  from low have one: "?k = [49]" by (auto simp: ascii_lower_def js_def split: if_splits)
  have keys: "?keys = joinWith [43] (modifierParts e) @ [43, 49]" unfolding e one using ms by (simp add: joinWith_snoc)
  have "replaceIndex ?keys (js (show_nat n)) = Some (joinWith [43] (modifierParts e) @ 43 # js (show_nat n))"
    unfolding keys replaceIndex_def by (simp add: ends_with_def js_def butlast_append)
  then have r: "resolveIndexedCombo lower n ?keys = joinWith [43] (modifierParts e) @ 43 # js (show_nat n)"
    unfolding resolveIndexedCombo_def Let_def c(3) by simp
  have same: "modifierParts (e\<lparr>ke_code := d\<rparr>) = modifierParts e" for d by (simp add: modifierParts_def)
  have nonempty: "js (show_nat n) \<noteq> []" by (simp add: show_digit [OF assms(3,4)])
  have "keyEventToHotkeyString (e\<lparr>ke_code := js ''Digit'' @ js (show_nat n)\<rparr>) = joinWith [43] (modifierParts e @ [js (show_nat n)])"
    unfolding keyEventToHotkeyString_def same by (simp add: digit_code [OF assms(3,4)] nonempty)
  then show ?thesis unfolding resolveIndexedKeys_def c(2) using r ms by (simp add: joinWith_snoc)
qed

text \<open>numbered tabs. When the recorded template of the tab shortcut passes the check of the settings, the
  shortcut of the n-th tab is matched by exactly the recorded modifiers with the digit n; the
  default is matched by the digit n with either the control or the meta key.\<close>

theorem tab_shortcuts_exact:
  assumes "lowers_ascii lower" "1 \<le> n" "n \<le> 9"
  shows "(isValidIndexedShortcutTemplate lower (keyEventToHotkeyString e) \<longrightarrow>
      matchesKeyEvent lower (resolveIndexedKeys lower (keyEventToHotkeyString e) n) e'
        = (e' = e\<lparr>ke_code := js ''Digit'' @ js (show_nat n)\<rparr>))
    \<and> matchesKeyEvent lower (resolveIndexedKeys lower (getDefaultKeys (js ''tab.switchTo'')) n) e'
        = (e' \<in> {\<lparr>ke_ctrl = True, ke_meta = False, ke_shift = False, ke_alt = False, ke_code = js ''Digit'' @ js (show_nat n)\<rparr>,
                 \<lparr>ke_ctrl = False, ke_meta = True, ke_shift = False, ke_alt = False, ke_code = js ''Digit'' @ js (show_nat n)\<rparr>})"
proof (intro conjI impI)
  let ?code = "js ''Digit'' @ js (show_nat n)"
  let ?e = "\<lambda>ctrl meta. \<lparr>ke_ctrl = ctrl, ke_meta = meta, ke_shift = False, ke_alt = False, ke_code = ?code\<rparr>"
  have key: "codeToKeyName ?code \<noteq> []" "codeToKeyName ?code = [48 + n]"
    unfolding digit_code [OF assms(2,3)] by (simp_all add: show_digit [OF assms(2,3)])
  {
    assume v: "isValidIndexedShortcutTemplate lower (keyEventToHotkeyString e)"
    let ?e' = "e\<lparr>ke_code := ?code\<rparr>"
    have "keyEventToHotkeyString ?e' \<noteq> []"
      using key joinWith_snoc [of "modifierParts ?e'" "[43]" "codeToKeyName ?code"]
      by (cases "modifierParts ?e' = []") (simp_all add: keyEventToHotkeyString_def)
    then show "matchesKeyEvent lower (resolveIndexedKeys lower (keyEventToHotkeyString e) n) e' = (e' = ?e')"
      unfolding resolved_template [OF assms(1) v assms(2,3)] matchesKeyEvent_def using captured_parses [OF assms(1)] by auto
  }
  have default: "getDefaultKeys (js ''tab.switchTo'') = js ''ctrl+1-9, meta+1-9''"
    unfolding getDefaultKeys_def by (simp add: SHORTCUT_REGISTRY_def js_inj)
  have "resolveIndexedKeys lower (js ''ctrl+1-9, meta+1-9'') n = js ''ctrl+'' @ [48 + n] @ js '', meta+'' @ [48 + n]"
    by (simp add: resolveIndexedKeys_def resolveIndexedCombo_def replaceIndex_def show_digit [OF assms(2,3), unfolded js_def] Let_def js_def
        trim_def trimStart_def trimEnd_def isSpace_def ends_with_def)
  also have "\<dots> = js ''ctrl+'' @ [48 + n] @ 44 # 32 # js ''meta+'' @ [48 + n]" by (simp add: js_def)
  finally have res: "resolveIndexedKeys lower (getDefaultKeys (js ''tab.switchTo'')) n = (js ''ctrl+'' @ [48 + n]) @ 44 # (32 # js ''meta+'' @ [48 + n])"
    unfolding default by simp
  have n: "48 + n \<noteq> 44" "48 + n \<noteq> 43" using assms by simp_all
  have split: "splitOn (\<lambda>c. c = 44) ((js ''ctrl+'' @ [48 + n]) @ 44 # (32 # js ''meta+'' @ [48 + n])) = [js ''ctrl+'' @ [48 + n], 32 # js ''meta+'' @ [48 + n]]"
    using n by (simp add: js_def)
  have cap: "keyEventToHotkeyString (?e True False) = js ''ctrl+'' @ [48 + n]" "keyEventToHotkeyString (?e False True) = js ''meta+'' @ [48 + n]"
    using key by (simp_all add: keyEventToHotkeyString_def modifierParts_def js_def)
  have ne: "keyEventToHotkeyString (?e True False) \<noteq> []" "keyEventToHotkeyString (?e False True) \<noteq> []" unfolding cap by (simp_all add: js_def)
  have single: "parseHotkeyString lower k = [parseSingleCombo lower k]" if "splitOn (\<lambda>c. c = 44) k = [k]" "k \<noteq> []" for k
    using that by (simp add: parseHotkeyString_def)
  have p: "parseSingleCombo lower (js ''ctrl+'' @ [48 + n]) = ?e True False" "parseSingleCombo lower (js ''meta+'' @ [48 + n]) = ?e False True"
    using captured_parses [OF assms(1) ne(1)] captured_parses [OF assms(1) ne(2)] unfolding cap
    using single [of "js ''ctrl+'' @ [48 + n]"] single [of "js ''meta+'' @ [48 + n]"] n by (simp_all add: js_def)
  have "trim (32 # t) = trim t" for t by (simp add: trim_def trimStart_def isSpace_def)
  then have "parseSingleCombo lower (32 # js ''meta+'' @ [48 + n]) = ?e False True"
    using p(2) by (simp add: parseSingleCombo_def comboParts_def)
  then have "parseHotkeyString lower (resolveIndexedKeys lower (getDefaultKeys (js ''tab.switchTo'')) n) = [?e True False, ?e False True]"
    unfolding res parseHotkeyString_def split using p(1) by (simp add: js_def)
  then show "matchesKeyEvent lower (resolveIndexedKeys lower (getDefaultKeys (js ''tab.switchTo'')) n) e' = (e' \<in> {?e True False, ?e False True})"
    unfolding matchesKeyEvent_def by auto
qed

theorem tab_shortcuts_exact_witness:
  "matchesKeyEvent ascii_lower (resolveIndexedKeys ascii_lower (getDefaultKeys (js ''tab.switchTo'')) 3) (ctrl_key ''Digit3'')
   \<and> \<not> matchesKeyEvent ascii_lower (resolveIndexedKeys ascii_lower (getDefaultKeys (js ''tab.switchTo'')) 3) (ctrl_key ''Digit1'')"
proof -
  have n: "1 \<le> (3 :: nat)" "(3 :: nat) \<le> 9" by simp_all
  note m = conjunct2 [OF tab_shortcuts_exact [OF ascii_lowers_ascii n]]
  show ?thesis unfolding m by (simp add: ctrl_key_def js_def show_digits)
qed

section \<open>The defaults\<close>

lemma distinct_concat_owner:
  "distinct (concat (map f xs)) \<Longrightarrow> x \<in> set xs \<Longrightarrow> y \<in> set xs \<Longrightarrow> z \<in> set (f x) \<Longrightarrow> z \<in> set (f y) \<Longrightarrow> x = y"
  by (induction xs) auto

lemma ascii_parts:
  assumes "lowers_ascii lower" "\<forall>c \<in> set keys. c < 128"
  shows "parseHotkeyString lower keys = parseHotkeyString ascii_lower keys"
proof -
  have split: "set w \<subseteq> set t" if "w \<in> set (splitOn P t)" for w t :: js_text and P
    using that by (induction t arbitrary: w) (fastforce split: if_splits list.splits)+
  have trim: "set (trim t) \<subseteq> set t" for t
    unfolding trim_def trimStart_def trimEnd_def set_rev using set_dropWhileD by (metis (no_types, lifting) set_rev subsetI)
  have "comboParts lower w = comboParts ascii_lower w" if "w \<in> set (splitOn (\<lambda>c. c = 44) keys)" for w
    unfolding comboParts_def
  proof (rule map_cong [OF refl])
    fix p assume "p \<in> set (splitOn (\<lambda>c. c = 43) (trim w))"
    then have "set (trim p) \<subseteq> set keys" using split [of p] split [OF that] trim [of w] trim [of p] by blast
    then show "lower (trim p) = ascii_lower (trim p)" using assms by (simp add: lowers_ascii_def subset_iff)
  qed
  then have "parseSingleCombo lower w = parseSingleCombo ascii_lower w" if "w \<in> set (splitOn (\<lambda>c. c = 44) keys)" for w
    using that by (simp add: parseSingleCombo_def)
  then show ?thesis by (simp add: parseHotkeyString_def)
qed

lemma registry_ascii: "\<forall>d \<in> set SHORTCUT_REGISTRY. \<forall>c \<in> set (js (sd_keys d)). c < 128"
  unfolding SHORTCUT_REGISTRY_def by (simp add: js_def)

text \<open>The combos of the defaults, read once.\<close>

definition default_combos :: "(bool \<times> bool \<times> bool \<times> bool \<times> string) list list" where
  "default_combos =
    [[(True, False, True, False, ''KeyC''), (False, True, True, False, ''KeyC'')],
     [(True, False, True, False, ''KeyV''), (False, True, True, False, ''KeyV''), (False, False, True, False, ''Insert'')],
     [(True, False, True, False, ''KeyX''), (False, True, True, False, ''KeyX'')],
     [(True, False, True, False, ''KeyF''), (False, True, True, False, ''KeyF'')],
     [(True, False, False, False, ''KeyL''), (False, True, False, False, ''KeyL'')],
     [(True, False, False, True, ''KeyR''), (False, True, False, True, ''KeyR'')],
     [(True, False, True, False, ''KeyA''), (False, True, True, False, ''KeyA'')],
     [(False, False, False, True, ''KeyR'')],
     [(True, False, True, False, ''KeyG''), (False, True, True, False, ''KeyG'')],
     [(True, False, True, False, ''KeyN''), (False, True, True, False, ''KeyN'')],
     [(True, False, False, True, ''KeyN''), (False, True, False, True, ''KeyN'')],
     [(True, False, True, False, ''KeyS''), (False, True, True, False, ''KeyS'')],
     [(True, False, False, False, ''Backquote''), (False, True, False, False, ''Backquote'')],
     [(True, False, True, False, ''KeyW''), (False, True, False, False, ''KeyW''), (False, True, True, False, ''KeyW'')],
     [(True, False, False, False, ''Tab'')],
     [(True, False, True, False, ''Tab'')],
     [(True, False, False, False, ''1-9''), (False, True, False, False, ''1-9'')],
     [(True, False, True, False, ''KeyD''), (False, True, True, False, ''KeyD'')],
     [(True, False, True, False, ''KeyM''), (False, True, True, False, ''KeyM'')],
     [(True, False, False, True, ''KeyD''), (False, True, False, True, ''KeyD'')],
     [(True, False, False, True, ''KeyM''), (False, True, False, True, ''KeyM'')],
     [(True, False, True, False, ''KeyE''), (False, True, True, False, ''KeyE'')],
     [(True, False, True, False, ''KeyB''), (False, True, True, False, ''KeyB'')],
     [(True, False, False, False, ''Equal''), (False, True, False, False, ''Equal''), (True, False, True, False, ''Equal''), (False, True, True, False, ''Equal'')],
     [(True, False, False, False, ''Minus''), (False, True, False, False, ''Minus'')],
     [(True, False, False, False, ''Digit0''), (False, True, False, False, ''Digit0'')],
     [(True, False, False, False, ''Comma''), (False, True, False, False, ''Comma'')],
     [(True, False, False, True, ''KeyI''), (False, True, False, True, ''KeyI'')],
     [(True, False, True, False, ''KeyP''), (False, True, True, False, ''KeyP'')],
     [(False, False, False, False, ''F2'')],
     [(True, False, False, True, ''KeyC''), (False, True, False, True, ''KeyC'')],
     [(True, False, True, False, ''KeyL''), (False, True, True, False, ''KeyL'')]]"

fun combo_event :: "bool \<times> bool \<times> bool \<times> bool \<times> string \<Rightarrow> shortcut_event" where
  "combo_event (c, m, s, a, code) = \<lparr>ke_ctrl = c, ke_meta = m, ke_shift = s, ke_alt = a, ke_code = js code\<rparr>"

lemma combo_event_inj: "combo_event x = combo_event y \<longleftrightarrow> x = y"
  by (cases x, cases y) (auto simp: js_inj)

lemma tableGet_nil: "tableGet [] k = None" and tableGet_cons: "tableGet ((a, b) # t) k = (if k = js a then Some (js b) else tableGet t k)"
  by (auto simp: tableGet_def)

lemmas parse_eval = js_def parseHotkeyString_def parseSingleCombo_def comboParts_def trim_def trimStart_def trimEnd_def isSpace_def ascii_lower_def
  parsePart_def keyNameToCode_def functionKey_def isDigitUnit_def tableGet_nil tableGet_cons KEY_TO_CODE_def

lemma defaults_parsed: "map (\<lambda>d. parseHotkeyString ascii_lower (js (sd_keys d))) SHORTCUT_REGISTRY = map (map combo_event) default_combos"
  by (simp add: parse_eval SHORTCUT_REGISTRY_def default_combos_def)

lemma combos_distinct: "distinct (concat default_combos)"
  by code_simp

lemma registry_distinct: "distinct (concat (map (\<lambda>d. parseHotkeyString ascii_lower (js (sd_keys d))) SHORTCUT_REGISTRY))"
  unfolding defaults_parsed map_concat [symmetric] distinct_map using combos_distinct by (auto simp: inj_on_def combo_event_inj)

text \<open>no key event triggers two commands: the default shortcuts of different entries of the registry are
  never matched by the same event.\<close>

theorem default_shortcuts_unambiguous:
  assumes "lowers_ascii lower" "d \<in> set SHORTCUT_REGISTRY" "d' \<in> set SHORTCUT_REGISTRY"
    and "matchesKeyEvent lower (js (sd_keys d)) e" "matchesKeyEvent lower (js (sd_keys d')) e"
  shows "d = d'"
proof -
  have "e \<in> set (parseHotkeyString ascii_lower (js (sd_keys x)))"
    if "x \<in> set SHORTCUT_REGISTRY" "matchesKeyEvent lower (js (sd_keys x)) e" for x
    using that registry_ascii ascii_parts [OF assms(1), of "js (sd_keys x)"] by (auto simp: matchesKeyEvent_def list_ex_iff)
  with assms show ?thesis using distinct_concat_owner [OF registry_distinct] by blast
qed

theorem default_shortcuts_unambiguous_witness:
  "matchesKeyEvent ascii_lower (js (sd_keys (SHORTCUT_REGISTRY ! 12))) (ctrl_key ''Backquote'')
   \<and> (\<forall>d \<in> set SHORTCUT_REGISTRY. matchesKeyEvent ascii_lower (js (sd_keys d)) (ctrl_key ''Backquote'') \<longrightarrow> sd_id d = ''tab.newLocalTerminal'')"
proof -
  have entry: "SHORTCUT_REGISTRY ! 12 = shortcut ''tab.newLocalTerminal'' TabShortcut ''settings.shortcutLabels.newLocalTerminal'' ''ctrl+`, meta+`'' False"
    by (simp add: SHORTCUT_REGISTRY_def)
  have member: "SHORTCUT_REGISTRY ! 12 \<in> set SHORTCUT_REGISTRY" unfolding entry by (simp add: SHORTCUT_REGISTRY_def)
  have m: "matchesKeyEvent ascii_lower (js (sd_keys (SHORTCUT_REGISTRY ! 12))) (ctrl_key ''Backquote'')"
    unfolding entry by (simp add: matchesKeyEvent_def ctrl_key_def parse_eval)
  moreover have "d = SHORTCUT_REGISTRY ! 12" if "d \<in> set SHORTCUT_REGISTRY" "matchesKeyEvent ascii_lower (js (sd_keys d)) (ctrl_key ''Backquote'')" for d
    by (rule default_shortcuts_unambiguous [OF ascii_lowers_ascii that(1) member that(2) m])
  moreover have "sd_id (SHORTCUT_REGISTRY ! 12) = ''tab.newLocalTerminal''" by (simp add: entry)
  ultimately show ?thesis by metis
qed

text \<open>The search for conflicts compares texts: control and backquote is recorded under another name than the
  default uses, so recording it for another command reports no conflict although both commands
  then match the event.\<close>

lemma backquote_conflict_missed:
  "js ''ctrl+backquote'' \<notin> set (normalizedCombos ascii_lower (js ''ctrl+`, meta+`''))
   \<and> normalizedCombos ascii_lower (keyEventToHotkeyString (ctrl_key ''Backquote'')) = [js ''ctrl+backquote'']
   \<and> matchesKeyEvent ascii_lower (js ''ctrl+`, meta+`'') (ctrl_key ''Backquote'')
   \<and> matchesKeyEvent ascii_lower (keyEventToHotkeyString (ctrl_key ''Backquote'')) (ctrl_key ''Backquote'')"
  unfolding ctrl_captured by (simp add: matchesKeyEvent_def ctrl_key_def normalizedCombos_def parse_eval)

end
