(* ===== verification/Activity_Bar.thy ===== *)
theory Activity_Bar
  imports Prelude
begin

text \<open>
  The activity bar and the side panels (\<open>lib/appWorkspace.ts\<close>, \<open>hooks/useActivityBarController.tsx\<close> and
  the panel handlers of \<open>App.tsx\<close>): the four zones of items, hidden items, the repair of a stored
  layout, moving and reordering items, and which panels are open on each side, docked (one or
  several) or floating.

  Of the user interface settings the record holds the fields these functions read. An update of
  the settings is applied at once, so a function returning the changed fields is a function from
  settings to settings. Absent lists count as empty, as the code treats them.
\<close>

section \<open>State\<close>

datatype side = SideLeft | SideRight

datatype bar_zone = LeftTop | LeftBottom | RightTop | RightBottom

record bar_layout =
  bl_left_top :: "string list"
  bl_left_bottom :: "string list"
  bl_right_top :: "string list"
  bl_right_bottom :: "string list"
  bl_show_labels :: bool
  bl_hidden :: "string list"

record ui_config =
  ui_activeLeft :: "string option"
  ui_activeRight :: "string option"
  ui_leftOpen :: "string list"
  ui_rightOpen :: "string list"
  ui_notes :: "bool option"
  ui_remoteStats :: "bool option"
  ui_gpu :: "bool option"
  ui_npu :: "bool option"
  ui_process :: "bool option"
  ui_docker :: "bool option"
  ui_layout :: bar_layout

record floating_panels =
  fp_left :: "string option"
  fp_right :: "string option"

definition DEFAULT_ACTIVITY_BAR_LAYOUT :: bar_layout where
  "DEFAULT_ACTIVITY_BAR_LAYOUT =
     \<lparr>bl_left_top = [''fileExplorer'', ''notes'', ''network'', ''securityAuth''],
      bl_left_bottom = [''syncBackupHistory'', ''settings''],
      bl_right_top = [''savedConnections'', ''aiAssistant'', ''activeSessions'', ''commandHistory'', ''resourceMonitor'',
        ''gpuMonitor'', ''ascendNpuMonitor'', ''processManager'', ''dockerManager''],
      bl_right_bottom = [''quickCmdBar'', ''serialSend'', ''recording'', ''lock''],
      bl_show_labels = False, bl_hidden = []\<rparr>"

definition ACTIVITY_BAR_ITEM_IDS :: "string list" where
  "ACTIVITY_BAR_ITEM_IDS = bl_left_top DEFAULT_ACTIVITY_BAR_LAYOUT @ bl_left_bottom DEFAULT_ACTIVITY_BAR_LAYOUT
     @ bl_right_top DEFAULT_ACTIVITY_BAR_LAYOUT @ bl_right_bottom DEFAULT_ACTIVITY_BAR_LAYOUT"

definition ACTIVITY_BAR_PANEL_ITEM_IDS :: "string list" where
  "ACTIVITY_BAR_PANEL_ITEM_IDS = [''fileExplorer'', ''notes'', ''network'', ''securityAuth'', ''syncBackupHistory'', ''savedConnections'',
     ''aiAssistant'', ''activeSessions'', ''commandHistory'', ''resourceMonitor'', ''gpuMonitor'', ''ascendNpuMonitor'',
     ''processManager'', ''dockerManager'', ''recording'']"

definition NON_PANEL_IDS :: "string list" where
  "NON_PANEL_IDS = [''settings'', ''lock'', ''quickCmdBar'', ''serialSend'']"

definition EXCLUSIVE_PANEL_IDS :: "string list" where
  "EXCLUSIVE_PANEL_IDS = [''aiAssistant'']"

definition canUseFloatingPanel :: "string \<Rightarrow> bool" where
  "canUseFloatingPanel i \<longleftrightarrow> i \<in> set ACTIVITY_BAR_PANEL_ITEM_IDS \<and> i \<notin> set NON_PANEL_IDS"

section \<open>Items\<close>

definition default_to :: "bool \<Rightarrow> bool option \<Rightarrow> bool" where
  "default_to d b = (case b of None \<Rightarrow> d | Some x \<Rightarrow> x)"

definition isActivityItemAvailable :: "string \<Rightarrow> ui_config \<Rightarrow> bool" where
  "isActivityItemAvailable i ui =
     (if i = ''notes'' then default_to True (ui_notes ui)
      else if i = ''resourceMonitor'' then default_to True (ui_remoteStats ui)
      else if i = ''gpuMonitor'' then default_to False (ui_gpu ui)
      else if i = ''ascendNpuMonitor'' then default_to False (ui_npu ui)
      else if i = ''processManager'' then default_to False (ui_process ui)
      else if i = ''dockerManager'' then default_to False (ui_docker ui)
      else True)"

definition isActivityItemHidden :: "string \<Rightarrow> ui_config \<Rightarrow> bool" where
  "isActivityItemHidden i ui \<longleftrightarrow> i \<in> set (bl_hidden (ui_layout ui))"

definition isActivityBarItemVisible :: "string \<Rightarrow> ui_config \<Rightarrow> bool" where
  "isActivityBarItemVisible i ui \<longleftrightarrow> isActivityItemAvailable i ui \<and> \<not> isActivityItemHidden i ui"

definition getVisibleActivityIds :: "string list \<Rightarrow> ui_config \<Rightarrow> string list" where
  "getVisibleActivityIds ids ui = filter (\<lambda>i. isActivityBarItemVisible i ui) ids"

definition sideIds :: "bar_layout \<Rightarrow> side \<Rightarrow> string list" where
  "sideIds l s = (case s of SideLeft \<Rightarrow> bl_left_top l @ bl_left_bottom l | SideRight \<Rightarrow> bl_right_top l @ bl_right_bottom l)"

definition getItemSide :: "string \<Rightarrow> bar_layout \<Rightarrow> side option" where
  "getItemSide i l = (if i \<in> set (bl_left_top l) \<or> i \<in> set (bl_left_bottom l) then Some SideLeft
     else if i \<in> set (bl_right_top l) \<or> i \<in> set (bl_right_bottom l) then Some SideRight else None)"

definition getHiddenActivityItemsForSide :: "ui_config \<Rightarrow> side \<Rightarrow> string list \<Rightarrow> string list" where
  "getHiddenActivityItemsForSide ui s itemIds =
     filter (\<lambda>i. i \<in> set itemIds \<and> i \<in> set (bl_hidden (ui_layout ui)) \<and> isActivityItemAvailable i ui) (sideIds (ui_layout ui) s)"

definition hideActivityBarItem :: "bar_layout \<Rightarrow> string \<Rightarrow> bar_layout" where
  "hideActivityBarItem l i = (if i \<in> set (bl_hidden l) then l else l\<lparr>bl_hidden := bl_hidden l @ [i]\<rparr>)"

definition showActivityBarItem :: "bar_layout \<Rightarrow> string \<Rightarrow> bar_layout" where
  "showActivityBarItem l i = (if i \<notin> set (bl_hidden l) then l else l\<lparr>bl_hidden := filter (\<lambda>j. j \<noteq> i) (bl_hidden l)\<rparr>)"

definition toggleActivityBarItemVisibility :: "bar_layout \<Rightarrow> string \<Rightarrow> bar_layout" where
  "toggleActivityBarItemVisibility l i = (if i \<in> set (bl_hidden l) then showActivityBarItem l i else hideActivityBarItem l i)"

text \<open>The new order takes the places of the items it names; ids left over go to the end.\<close>

fun reorderIds :: "string list \<Rightarrow> ui_config \<Rightarrow> string list \<Rightarrow> string list \<Rightarrow> string list \<times> string list" where
  "reorderIds ordered ui [] nxt = ([], nxt)"
| "reorderIds ordered ui (i # ids) nxt =
     (if i \<notin> set ordered \<or> \<not> isActivityBarItemVisible i ui then (case reorderIds ordered ui ids nxt of (r, left) \<Rightarrow> (i # r, left))
      else (case nxt of [] \<Rightarrow> (case reorderIds ordered ui ids [] of (r, left) \<Rightarrow> (i # r, left))
            | n # ns \<Rightarrow> (case reorderIds ordered ui ids ns of (r, left) \<Rightarrow> (n # r, left))))"

definition mergeVisibleReorder :: "string list \<Rightarrow> string list \<Rightarrow> ui_config \<Rightarrow> string list" where
  "mergeVisibleReorder currentIds orderedVisibleIds ui =
     (case reorderIds orderedVisibleIds ui currentIds orderedVisibleIds of
        (reordered, left) \<Rightarrow> reordered @ filter (\<lambda>i. i \<notin> set reordered) left)"

section \<open>Repairing the layout\<close>

definition zone :: "bar_zone \<Rightarrow> bar_layout \<Rightarrow> string list" where
  "zone z l = (case z of LeftTop \<Rightarrow> bl_left_top l | LeftBottom \<Rightarrow> bl_left_bottom l | RightTop \<Rightarrow> bl_right_top l | RightBottom \<Rightarrow> bl_right_bottom l)"

definition setZone :: "bar_zone \<Rightarrow> string list \<Rightarrow> bar_layout \<Rightarrow> bar_layout" where
  "setZone z ids l = (case z of LeftTop \<Rightarrow> l\<lparr>bl_left_top := ids\<rparr> | LeftBottom \<Rightarrow> l\<lparr>bl_left_bottom := ids\<rparr>
     | RightTop \<Rightarrow> l\<lparr>bl_right_top := ids\<rparr> | RightBottom \<Rightarrow> l\<lparr>bl_right_bottom := ids\<rparr>)"

definition ACTIVITY_LAYOUT_ZONES :: "bar_zone list" where
  "ACTIVITY_LAYOUT_ZONES = [LeftTop, LeftBottom, RightTop, RightBottom]"

definition insertAfter :: "string list \<Rightarrow> string \<Rightarrow> string \<Rightarrow> string list" where
  "insertAfter ids anchor item =
     (if item \<in> set ids then ids
      else (case find_index (\<lambda>j. j = anchor) ids of None \<Rightarrow> item # ids | Some n \<Rightarrow> splice_in (n + 1) item ids))"

definition insertBeforeOrPush :: "string list \<Rightarrow> string \<Rightarrow> string \<Rightarrow> string list" where
  "insertBeforeOrPush ids anchor item =
     (if item \<in> set ids then ids
      else (case find_index (\<lambda>j. j = anchor) ids of None \<Rightarrow> ids @ [item] | Some n \<Rightarrow> splice_in n item ids))"

definition insertSerialSend :: "string list \<Rightarrow> string list" where
  "insertSerialSend ids =
     (case find_index (\<lambda>j. j = ''quickCmdBar'') ids of Some n \<Rightarrow> splice_in (n + 1) ''serialSend'' ids
      | None \<Rightarrow> (case find_index (\<lambda>j. j = ''recording'') ids of Some n \<Rightarrow> splice_in n ''serialSend'' ids
      | None \<Rightarrow> (case find_index (\<lambda>j. j = ''lock'') ids of Some n \<Rightarrow> splice_in n ''serialSend'' ids
      | None \<Rightarrow> ids @ [''serialSend''])))"

definition keepItem :: "bar_zone \<Rightarrow> string \<Rightarrow> bar_layout \<times> string list \<Rightarrow> bar_layout \<times> string list" where
  "keepItem z i s = (case s of (l, seen) \<Rightarrow>
     if i = ''fileTransfer'' then s else if i \<in> set seen then s
     else (setZone z (zone z l @ [i]) l, seen @ [i]))"

definition ensureItem :: "bar_zone \<Rightarrow> string \<Rightarrow> (string list \<Rightarrow> string list) \<Rightarrow> bar_layout \<times> string list \<Rightarrow> bar_layout \<times> string list" where
  "ensureItem z i ins s = (case s of (l, seen) \<Rightarrow>
     if i \<in> set seen then s else (setZone z (ins (zone z l)) l, seen @ [i]))"

definition keepZones :: "bar_layout \<Rightarrow> bar_layout \<times> string list" where
  "keepZones l = fold (\<lambda>z. fold (keepItem z) (zone z l)) ACTIVITY_LAYOUT_ZONES
     (l\<lparr>bl_left_top := [], bl_left_bottom := [], bl_right_top := [], bl_right_bottom := [], bl_hidden := []\<rparr>, [])"

definition ensureItems :: "bar_layout \<times> string list \<Rightarrow> bar_layout \<times> string list" where
  "ensureItems s = fold (\<lambda>(z, i, ins). ensureItem z i ins)
     [(LeftBottom, ''syncBackupHistory'', \<lambda>ids. insertBeforeOrPush ids ''settings'' ''syncBackupHistory''),
      (LeftTop, ''notes'', \<lambda>ids. insertAfter ids ''fileExplorer'' ''notes''),
      (RightTop, ''aiAssistant'', \<lambda>ids. insertAfter ids ''savedConnections'' ''aiAssistant''),
      (RightBottom, ''serialSend'', insertSerialSend),
      (RightBottom, ''recording'', \<lambda>ids. insertBeforeOrPush ids ''lock'' ''recording''),
      (RightTop, ''gpuMonitor'', \<lambda>ids. insertAfter ids ''resourceMonitor'' ''gpuMonitor''),
      (RightTop, ''ascendNpuMonitor'', \<lambda>ids. insertAfter ids ''gpuMonitor'' ''ascendNpuMonitor''),
      (RightTop, ''processManager'', \<lambda>ids. insertAfter ids ''ascendNpuMonitor'' ''processManager''),
      (RightTop, ''dockerManager'', \<lambda>ids. insertAfter ids ''processManager'' ''dockerManager'')] s"

definition normalizedLayout :: "bar_layout \<Rightarrow> bar_layout" where
  "normalizedLayout l =
     (case ensureItems (keepZones l) of (l', seen) \<Rightarrow>
        fold (\<lambda>i l'. if i \<in> set (bl_hidden l') then l' else if i \<notin> set seen then l' else l'\<lparr>bl_hidden := bl_hidden l' @ [i]\<rparr>)
          (bl_hidden l) l')"

definition panelIds :: "bar_layout \<Rightarrow> side \<Rightarrow> ui_config \<Rightarrow> string list" where
  "panelIds l s ui = filter (\<lambda>i. isActivityItemAvailable i ui) (sideIds l s)"

definition normalizedActive :: "string list \<Rightarrow> bool \<Rightarrow> string option \<Rightarrow> string option" where
  "normalizedActive ids isLeft active =
     (case active of None \<Rightarrow> None
      | Some p \<Rightarrow> if p \<noteq> [] \<and> p \<in> set ids then Some p
                  else if isLeft \<and> p = ''fileTransfer'' \<and> ''fileExplorer'' \<in> set ids then Some ''fileExplorer'' else None)"

definition normalizedUi :: "ui_config \<Rightarrow> ui_config" where
  "normalizedUi ui =
     (let l = normalizedLayout (ui_layout ui); leftIds = panelIds l SideLeft ui; rightIds = panelIds l SideRight ui in
      ui\<lparr>ui_layout := l, ui_leftOpen := filter (\<lambda>i. i \<in> set leftIds) (uniq (ui_leftOpen ui)),
         ui_rightOpen := filter (\<lambda>i. i \<in> set rightIds) (uniq (ui_rightOpen ui)),
         ui_activeLeft := normalizedActive leftIds True (ui_activeLeft ui),
         ui_activeRight := normalizedActive rightIds False (ui_activeRight ui)\<rparr>)"

text \<open>\<open>None\<close> when nothing has to change; the effect of the controller applies the result until then.\<close>

definition normalizeActivityBarState :: "ui_config \<Rightarrow> ui_config option" where
  "normalizeActivityBarState ui = (if normalizedUi ui = ui then None else Some (normalizedUi ui))"

section \<open>Panels\<close>

definition activePanel :: "ui_config \<Rightarrow> side \<Rightarrow> string option" where
  "activePanel ui s = (case s of SideLeft \<Rightarrow> ui_activeLeft ui | SideRight \<Rightarrow> ui_activeRight ui)"

definition openPanels :: "ui_config \<Rightarrow> side \<Rightarrow> string list" where
  "openPanels ui s = (case s of SideLeft \<Rightarrow> ui_leftOpen ui | SideRight \<Rightarrow> ui_rightOpen ui)"

definition setActive :: "side \<Rightarrow> string option \<Rightarrow> ui_config \<Rightarrow> ui_config" where
  "setActive s p ui = (case s of SideLeft \<Rightarrow> ui\<lparr>ui_activeLeft := p\<rparr> | SideRight \<Rightarrow> ui\<lparr>ui_activeRight := p\<rparr>)"

definition setOpen :: "side \<Rightarrow> string list \<Rightarrow> ui_config \<Rightarrow> ui_config" where
  "setOpen s ps ui = (case s of SideLeft \<Rightarrow> ui\<lparr>ui_leftOpen := ps\<rparr> | SideRight \<Rightarrow> ui\<lparr>ui_rightOpen := ps\<rparr>)"

definition getSideOpenPanels :: "ui_config \<Rightarrow> side \<Rightarrow> bool \<Rightarrow> string list" where
  "getSideOpenPanels ui s multiOpen =
     (if \<not> multiOpen then (case activePanel ui s of None \<Rightarrow> [] | Some p \<Rightarrow> if p \<noteq> [] \<and> isActivityItemAvailable p ui then [p] else [])
      else filter (\<lambda>i. i \<in> set (openPanels ui s) \<and> isActivityItemAvailable i ui \<and> i \<notin> set NON_PANEL_IDS \<and> i \<notin> set EXCLUSIVE_PANEL_IDS)
             (sideIds (ui_layout ui) s))"

definition getSideOverlayPanel :: "ui_config \<Rightarrow> side \<Rightarrow> bool \<Rightarrow> string option" where
  "getSideOverlayPanel ui s multiOpen =
     (if \<not> multiOpen then None
      else (case activePanel ui s of None \<Rightarrow> None
            | Some p \<Rightarrow> if p \<noteq> [] \<and> isActivityItemAvailable p ui \<and> p \<in> set EXCLUSIVE_PANEL_IDS then Some p else None))"

definition buildMultiPanelToggleUpdate :: "ui_config \<Rightarrow> string \<Rightarrow> side \<Rightarrow> ui_config" where
  "buildMultiPanelToggleUpdate prev p s =
     (let openList = openPanels prev s; active = activePanel prev s in
      if p \<in> set EXCLUSIVE_PANEL_IDS then setActive s (if active = Some p then None else Some p) prev
      else if p \<in> set openList \<and> active = Some p then setActive s None prev
      else if p \<in> set openList then setActive s (Some p) prev
      else setActive s (Some p) (setOpen s (openList @ [p]) prev))"

definition otherSide :: "side \<Rightarrow> side" where
  "otherSide s = (case s of SideLeft \<Rightarrow> SideRight | SideRight \<Rightarrow> SideLeft)"

definition buildPanelOpenUpdate :: "ui_config \<Rightarrow> string \<Rightarrow> bool \<Rightarrow> side \<Rightarrow> ui_config" where
  "buildPanelOpenUpdate prev p multiOpen fallbackSide =
     (let s = (case getItemSide p (ui_layout prev) of None \<Rightarrow> fallbackSide | Some s \<Rightarrow> s) in
      if \<not> multiOpen then
        (let ui = setActive s (Some p) prev in if activePanel prev (otherSide s) = Some p then setActive (otherSide s) None ui else ui)
      else if p \<in> set EXCLUSIVE_PANEL_IDS then setActive s (Some p) prev
      else (let openList = openPanels prev s in
            setActive s (Some p) (setOpen s (if p \<in> set openList then openList else openList @ [p]) prev)))"

text \<open>Selecting a docked panel in the bar, and showing or hiding a whole side.\<close>

definition selectPanel :: "bool \<Rightarrow> string \<Rightarrow> side \<Rightarrow> ui_config \<Rightarrow> ui_config" where
  "selectPanel multiOpen p s ui =
     (if multiOpen then buildMultiPanelToggleUpdate ui p s
      else setActive s (if activePanel ui s = Some p then None else Some p) ui)"

definition toggleSidebar :: "bool \<Rightarrow> side \<Rightarrow> ui_config \<Rightarrow> ui_config" where
  "toggleSidebar multiOpen s ui =
     (let active = (case activePanel ui s of None \<Rightarrow> False | Some p \<Rightarrow> p \<noteq> []);
          first = find (\<lambda>i. i \<notin> set NON_PANEL_IDS) (getVisibleActivityIds (sideIds (ui_layout ui) s) ui)
      in if multiOpen then
           (if openPanels ui s \<noteq> [] \<or> active then setActive s None (setOpen s [] ui)
            else (case first of None \<Rightarrow> ui
                  | Some p \<Rightarrow> if p = [] then ui
                              else if p \<in> set EXCLUSIVE_PANEL_IDS then setActive s (Some p) ui else setActive s (Some p) (setOpen s [p] ui)))
         else if active then setActive s None ui else setActive s first ui)"

text \<open>Enabling several panels starts from the active ones.\<close>

definition seedSide :: "side \<Rightarrow> ui_config \<Rightarrow> ui_config \<Rightarrow> ui_config" where
  "seedSide s prev ui =
     (case activePanel prev s of None \<Rightarrow> ui
      | Some p \<Rightarrow> if openPanels prev s = [] \<and> p \<noteq> [] \<and> isActivityItemAvailable p prev \<and> p \<notin> set EXCLUSIVE_PANEL_IDS
                  then setOpen s [p] ui else ui)"

definition seedPanels :: "ui_config \<Rightarrow> ui_config" where
  "seedPanels prev = seedSide SideRight prev (seedSide SideLeft prev prev)"

definition closeAllPanels :: "ui_config \<Rightarrow> ui_config" where
  "closeAllPanels ui = ui\<lparr>ui_activeLeft := None, ui_activeRight := None, ui_leftOpen := [], ui_rightOpen := []\<rparr>"

section \<open>Editing the bar\<close>

definition handleReorder :: "bar_zone \<Rightarrow> string list \<Rightarrow> ui_config \<Rightarrow> ui_config" where
  "handleReorder z orderedIds prev =
     prev\<lparr>ui_layout := setZone z (mergeVisibleReorder (zone z (ui_layout prev)) orderedIds prev) (ui_layout prev)\<rparr>"

definition removeEverywhere :: "string \<Rightarrow> bar_layout \<Rightarrow> bar_layout" where
  "removeEverywhere i l = fold (\<lambda>z l. setZone z (filter (\<lambda>j. j \<noteq> i) (zone z l)) l) ACTIVITY_LAYOUT_ZONES l"

definition zoneSide :: "bar_zone \<Rightarrow> side" where
  "zoneSide z = (case z of LeftTop \<Rightarrow> SideLeft | LeftBottom \<Rightarrow> SideLeft | RightTop \<Rightarrow> SideRight | RightBottom \<Rightarrow> SideRight)"

definition handleMoveItem :: "string \<Rightarrow> bar_zone \<Rightarrow> ui_config \<Rightarrow> ui_config" where
  "handleMoveItem i target prev =
     (let l = removeEverywhere i (ui_layout prev);
          ui = prev\<lparr>ui_layout := setZone target (zone target l @ [i]) l\<rparr>;
          from = otherSide (zoneSide target);
          ui = (if activePanel prev from = Some i then setActive from None ui else ui)
      in if i \<in> set (openPanels prev from) then setOpen from (filter (\<lambda>j. j \<noteq> i) (openPanels prev from)) ui else ui)"

definition handleHideItem :: "string \<Rightarrow> ui_config \<Rightarrow> ui_config" where
  "handleHideItem i prev = prev\<lparr>ui_layout := hideActivityBarItem (ui_layout prev) i\<rparr>"

definition handleShowItem :: "string \<Rightarrow> ui_config \<Rightarrow> ui_config" where
  "handleShowItem i prev = prev\<lparr>ui_layout := showActivityBarItem (ui_layout prev) i\<rparr>"

definition handleToggleItemVisibility :: "string \<Rightarrow> ui_config \<Rightarrow> ui_config" where
  "handleToggleItemVisibility i prev = prev\<lparr>ui_layout := toggleActivityBarItemVisibility (ui_layout prev) i\<rparr>"

definition handleToggleLabel :: "ui_config \<Rightarrow> ui_config" where
  "handleToggleLabel prev = prev\<lparr>ui_layout := (ui_layout prev)\<lparr>bl_show_labels := \<not> bl_show_labels (ui_layout prev)\<rparr>\<rparr>"

definition handleResetActivityBarLayout :: "ui_config \<Rightarrow> ui_config" where
  "handleResetActivityBarLayout prev =
     (let nxt = prev\<lparr>ui_layout := DEFAULT_ACTIVITY_BAR_LAYOUT\<rparr>
      in case normalizeActivityBarState nxt of None \<Rightarrow> nxt | Some ui \<Rightarrow> ui)"

section \<open>Floating panels\<close>

definition floatingAt :: "floating_panels \<Rightarrow> side \<Rightarrow> string option" where
  "floatingAt f s = (case s of SideLeft \<Rightarrow> fp_left f | SideRight \<Rightarrow> fp_right f)"

definition setFloating :: "side \<Rightarrow> string option \<Rightarrow> floating_panels \<Rightarrow> floating_panels" where
  "setFloating s p f = (case s of SideLeft \<Rightarrow> f\<lparr>fp_left := p\<rparr> | SideRight \<Rightarrow> f\<lparr>fp_right := p\<rparr>)"

definition reduceFloatingPanelSelect :: "floating_panels \<Rightarrow> string \<Rightarrow> side \<Rightarrow> floating_panels" where
  "reduceFloatingPanelSelect f p s = setFloating s (if floatingAt f s = Some p then None else Some p) f"

definition moveFloatingPanelSide :: "floating_panels \<Rightarrow> string \<Rightarrow> side \<Rightarrow> floating_panels" where
  "moveFloatingPanelSide f p target =
     (if floatingAt f target \<noteq> Some p \<and> floatingAt f (otherSide target) \<noteq> Some p then f
      else setFloating target (Some p)
             (if floatingAt f (otherSide target) = Some p then setFloating (otherSide target) None f else f))"

definition clearUnavailableFloatingPanels :: "floating_panels \<Rightarrow> ui_config \<Rightarrow> floating_panels" where
  "clearUnavailableFloatingPanels f ui =
     (let keep = (\<lambda>p. case p of None \<Rightarrow> None | Some i \<Rightarrow> if i \<noteq> [] \<and> isActivityItemAvailable i ui then Some i else None)
      in \<lparr>fp_left = keep (fp_left f), fp_right = keep (fp_right f)\<rparr>)"

section \<open>Well-formed settings\<close>

definition placed :: "bar_layout \<Rightarrow> string list" where
  "placed l = bl_left_top l @ bl_left_bottom l @ bl_right_top l @ bl_right_bottom l"

definition REQUIRED_ITEMS :: "string list" where
  "REQUIRED_ITEMS = [''syncBackupHistory'', ''notes'', ''aiAssistant'', ''serialSend'', ''recording'', ''gpuMonitor'', ''ascendNpuMonitor'',
     ''processManager'', ''dockerManager'']"

text \<open>Every item is in one place, the items added by newer versions are present, and only placed items
  are hidden.\<close>

definition wf_layout :: "bar_layout \<Rightarrow> bool" where
  "wf_layout l \<longleftrightarrow> distinct (placed l) \<and> ''fileTransfer'' \<notin> set (placed l) \<and> set REQUIRED_ITEMS \<subseteq> set (placed l)
     \<and> distinct (bl_hidden l) \<and> set (bl_hidden l) \<subseteq> set (placed l)"

text \<open>Open and active panels are available items of their side.\<close>

definition wf_side :: "ui_config \<Rightarrow> side \<Rightarrow> bool" where
  "wf_side ui s \<longleftrightarrow> distinct (openPanels ui s) \<and> set (openPanels ui s) \<subseteq> set (panelIds (ui_layout ui) s ui)
     \<and> (case activePanel ui s of None \<Rightarrow> True | Some p \<Rightarrow> p \<noteq> [] \<and> p \<in> set (panelIds (ui_layout ui) s ui))"

definition wf_ui :: "ui_config \<Rightarrow> bool" where
  "wf_ui ui \<longleftrightarrow> wf_layout (ui_layout ui) \<and> wf_side ui SideLeft \<and> wf_side ui SideRight"

subsection \<open>Zones\<close>

lemma zone_setZone [simp]: "zone z (setZone z ids l) = ids"
  by (cases z) (simp_all add: zone_def setZone_def)

lemma hidden_setZone [simp]: "bl_hidden (setZone z ids l) = bl_hidden l"
  by (cases z) (simp_all add: setZone_def)

lemma placed_setZone: "mset (placed (setZone z ids l)) + mset (zone z l) = mset (placed l) + mset ids"
  by (cases z) (simp_all add: placed_def setZone_def zone_def)

lemma placed_add:
  assumes "mset ids = add_mset i (mset (zone z l))"
  shows "mset (placed (setZone z ids l)) = add_mset i (mset (placed l))"
  using placed_setZone [of z ids l] assms by simp

lemma placed_perm:
  assumes "mset ids = mset (zone z l)"
  shows "mset (placed (setZone z ids l)) = mset (placed l)"
  using placed_setZone [of z ids l] assms by simp

lemma mset_insertAfter: "i \<notin> set ids \<Longrightarrow> mset (insertAfter ids a i) = add_mset i (mset ids)"
  by (simp add: insertAfter_def split: option.split)

lemma mset_insertBeforeOrPush: "i \<notin> set ids \<Longrightarrow> mset (insertBeforeOrPush ids a i) = add_mset i (mset ids)"
  by (simp add: insertBeforeOrPush_def split: option.split)

lemma mset_insertSerialSend: "mset (insertSerialSend ids) = add_mset ''serialSend'' (mset ids)"
  by (simp add: insertSerialSend_def split: option.split)

lemma zone_placed: "set (zone z l) \<subseteq> set (placed l)"
  by (cases z) (auto simp: zone_def placed_def)

subsection \<open>The repair\<close>

text \<open>While items are placed, \<open>seen\<close> holds exactly the placed ones.\<close>

definition placing :: "bar_layout \<times> string list \<Rightarrow> bool" where
  "placing s = (case s of (l, seen) \<Rightarrow>
     distinct (placed l) \<and> set seen = set (placed l) \<and> ''fileTransfer'' \<notin> set seen \<and> bl_hidden l = [])"

lemma placing_add:
  assumes "placing (l, seen)" "i \<notin> set seen" "i \<noteq> ''fileTransfer''" "mset ids = add_mset i (mset (zone z l))"
  shows "placing (setZone z ids l, seen @ [i])"
proof -
  have m: "mset (placed (setZone z ids l)) = mset (i # placed l)" using placed_add [OF assms(4)] by simp
  show ?thesis using assms(1-3) mset_eq_imp_distinct_iff [OF m] mset_eq_setD [OF m] by (auto simp: placing_def)
qed

lemma placing_keep: "placing s \<Longrightarrow> placing (keepItem z i s)"
  by (cases s) (auto simp: keepItem_def intro: placing_add)

lemma placing_ensure:
  assumes "placing s" "i \<noteq> ''fileTransfer''" "\<forall>ids. i \<notin> set ids \<longrightarrow> mset (ins ids) = add_mset i (mset ids)"
  shows "placing (ensureItem z i ins s) \<and> insert i (set (snd s)) \<subseteq> set (snd (ensureItem z i ins s))"
proof (cases s)
  case (Pair l seen)
  have "i \<notin> set (zone z l)" if "i \<notin> set seen" using that assms(1) zone_placed [of z l] by (auto simp: placing_def Pair)
  then have "placing (setZone z (ins (zone z l)) l, seen @ [i])" if "i \<notin> set seen"
    using that assms(1,2) assms(3) [rule_format, of "zone z l"] Pair by (intro placing_add) simp_all
  with assms(1) Pair show ?thesis by (auto simp: ensureItem_def)
qed

lemma placing_fold:
  assumes "placing s" "\<forall>(z, i, ins) \<in> set es. i \<noteq> ''fileTransfer'' \<and> (\<forall>ids. i \<notin> set ids \<longrightarrow> mset (ins ids) = add_mset i (mset ids))"
  shows "placing (fold (\<lambda>(z, i, ins). ensureItem z i ins) es s)
    \<and> set (snd s) \<union> (\<lambda>(z, i, ins). i) ` set es \<subseteq> set (snd (fold (\<lambda>(z, i, ins). ensureItem z i ins) es s))"
  using assms
proof (induction es arbitrary: s)
  case (Cons e es)
  obtain z i ins where e: "e = (z, i, ins)" by (cases e)
  have head: "i \<noteq> ''fileTransfer'' \<and> (\<forall>ids. i \<notin> set ids \<longrightarrow> mset (ins ids) = add_mset i (mset ids))"
    using bspec [OF Cons.prems(2), of e] unfolding e prod.case by (meson list.set_intros(1))
  have s: "placing (ensureItem z i ins s) \<and> insert i (set (snd s)) \<subseteq> set (snd (ensureItem z i ins s))"
    by (rule placing_ensure [OF Cons.prems(1) conjunct1 [OF head] conjunct2 [OF head]])
  have "\<forall>(z, i, ins) \<in> set es. i \<noteq> ''fileTransfer'' \<and> (\<forall>ids. i \<notin> set ids \<longrightarrow> mset (ins ids) = add_mset i (mset ids))"
    using Cons.prems(2) by simp
  from Cons.IH [OF conjunct1 [OF s] this] s show ?case
    unfolding e fold_simps prod.case list.set image_insert by blast
qed simp

lemma fold_keeps: "(\<And>x s. P s \<Longrightarrow> P (f x s)) \<Longrightarrow> P s \<Longrightarrow> P (fold f xs s)"
  by (induction xs arbitrary: s) (simp_all only: fold_simps)

lemma placing_keepZones: "placing (keepZones l)"
proof -
  have "placing (l\<lparr>bl_left_top := [], bl_left_bottom := [], bl_right_top := [], bl_right_bottom := [], bl_hidden := []\<rparr>, [])"
    by (simp add: placing_def placed_def)
  moreover have "placing (fold (keepItem z) ids s)" if "placing s" for z ids s
    by (rule fold_keeps [where P = placing, OF placing_keep that])
  ultimately show ?thesis unfolding keepZones_def
    by (intro fold_keeps [where P = placing] placing_keep)
qed

lemma placing_ensureItems:
  assumes "placing s"
  shows "placing (ensureItems s) \<and> set REQUIRED_ITEMS \<subseteq> set (snd (ensureItems s))"
proof -
  have "\<forall>(z :: bar_zone, i, ins) \<in> set [(LeftBottom, ''syncBackupHistory'', \<lambda>ids. insertBeforeOrPush ids ''settings'' ''syncBackupHistory''),
      (LeftTop, ''notes'', \<lambda>ids. insertAfter ids ''fileExplorer'' ''notes''),
      (RightTop, ''aiAssistant'', \<lambda>ids. insertAfter ids ''savedConnections'' ''aiAssistant''),
      (RightBottom, ''serialSend'', insertSerialSend),
      (RightBottom, ''recording'', \<lambda>ids. insertBeforeOrPush ids ''lock'' ''recording''),
      (RightTop, ''gpuMonitor'', \<lambda>ids. insertAfter ids ''resourceMonitor'' ''gpuMonitor''),
      (RightTop, ''ascendNpuMonitor'', \<lambda>ids. insertAfter ids ''gpuMonitor'' ''ascendNpuMonitor''),
      (RightTop, ''processManager'', \<lambda>ids. insertAfter ids ''ascendNpuMonitor'' ''processManager''),
      (RightTop, ''dockerManager'', \<lambda>ids. insertAfter ids ''processManager'' ''dockerManager'')].
      i \<noteq> ''fileTransfer'' \<and> (\<forall>ids. i \<notin> set ids \<longrightarrow> mset (ins ids) = add_mset i (mset ids))"
    by (simp add: mset_insertAfter mset_insertBeforeOrPush mset_insertSerialSend)
  from placing_fold [OF assms this] show ?thesis unfolding ensureItems_def REQUIRED_ITEMS_def by simp
qed

abbreviation hideStep :: "string list \<Rightarrow> string \<Rightarrow> bar_layout \<Rightarrow> bar_layout" where
  "hideStep seen \<equiv> (\<lambda>i l'. if i \<in> set (bl_hidden l') then l' else if i \<notin> set seen then l' else l'\<lparr>bl_hidden := bl_hidden l' @ [i]\<rparr>)"

lemma hide_fold:
  assumes "distinct (bl_hidden l)" "set (bl_hidden l) \<subseteq> set seen"
  shows "distinct (bl_hidden (fold (hideStep seen) hs l)) \<and> set (bl_hidden (fold (hideStep seen) hs l)) \<subseteq> set seen
    \<and> placed (fold (hideStep seen) hs l) = placed l"
  using assms
proof (induction hs arbitrary: l)
  case (Cons h hs)
  have "placed (hideStep seen h l) = placed l" by (simp add: placed_def)
  moreover have "distinct (bl_hidden (hideStep seen h l))" "set (bl_hidden (hideStep seen h l)) \<subseteq> set seen" using Cons.prems by auto
  ultimately show ?case using Cons.IH [of "hideStep seen h l"] by simp
qed simp

lemma normalized_wf: "wf_layout (normalizedLayout l)"
proof -
  obtain l' seen where e: "ensureItems (keepZones l) = (l', seen)" by (cases "ensureItems (keepZones l)")
  have p: "placing (l', seen)" "set REQUIRED_ITEMS \<subseteq> set seen" using placing_ensureItems [OF placing_keepZones, of l] by (simp_all add: e)
  then have "distinct (bl_hidden l')" "set (bl_hidden l') \<subseteq> set seen" by (simp_all add: placing_def)
  note h = hide_fold [OF this, of "bl_hidden l"]
  have "set seen = set (placed l')" "distinct (placed l')" "''fileTransfer'' \<notin> set (placed l')" using p(1) by (auto simp: placing_def)
  with h p(2) show ?thesis by (simp add: normalizedLayout_def e wf_layout_def)
qed

lemma keep_distinct:
  "distinct (seen @ ids) \<Longrightarrow> ''fileTransfer'' \<notin> set ids \<Longrightarrow>
   fold (keepItem z) ids (l, seen) = (setZone z (zone z l @ ids) l, seen @ ids)"
proof (induction ids arbitrary: l seen)
  case Nil
  then show ?case by (cases z) (simp_all add: setZone_def zone_def)
next
  case (Cons i ids)
  have twice: "setZone z a (setZone z b l) = setZone z a l" for a b by (cases z) (simp_all add: setZone_def)
  have "i \<noteq> ''fileTransfer''" "i \<notin> set seen" "distinct ((seen @ [i]) @ ids)" "''fileTransfer'' \<notin> set ids" using Cons.prems by auto
  with Cons.IH [of "seen @ [i]" "setZone z (zone z l @ [i]) l"] show ?case by (simp add: keepItem_def twice)
qed

lemma keepZones_wf:
  assumes "wf_layout l"
  shows "keepZones l = (l\<lparr>bl_hidden := []\<rparr>, placed l)"
proof -
  have "distinct (bl_left_top l)" "distinct (bl_left_top l @ bl_left_bottom l)" "distinct (bl_left_top l @ bl_left_bottom l @ bl_right_top l)"
    "distinct (bl_left_top l @ bl_left_bottom l @ bl_right_top l @ bl_right_bottom l)"
    "''fileTransfer'' \<notin> set (bl_left_top l)" "''fileTransfer'' \<notin> set (bl_left_bottom l)"
    "''fileTransfer'' \<notin> set (bl_right_top l)" "''fileTransfer'' \<notin> set (bl_right_bottom l)"
    using assms by (auto simp: wf_layout_def placed_def)
  then show ?thesis
    by (simp add: keepZones_def ACTIVITY_LAYOUT_ZONES_def keep_distinct zone_def setZone_def placed_def del: distinct_append)
qed

lemma ensureItems_wf: "set REQUIRED_ITEMS \<subseteq> set seen \<Longrightarrow> ensureItems (l, seen) = (l, seen)"
  by (simp add: ensureItems_def REQUIRED_ITEMS_def ensureItem_def)

lemma hide_fold_id:
  "distinct (bl_hidden l @ hs) \<Longrightarrow> set hs \<subseteq> set seen \<Longrightarrow> fold (hideStep seen) hs l = l\<lparr>bl_hidden := bl_hidden l @ hs\<rparr>"
  by (induction hs arbitrary: l) simp_all

lemma normalized_id: "wf_layout l \<Longrightarrow> normalizedLayout l = l"
  using hide_fold_id [of "l\<lparr>bl_hidden := []\<rparr>" "bl_hidden l" "placed l"]
  by (simp add: normalizedLayout_def keepZones_wf ensureItems_wf wf_layout_def)

lemma normalized_layout_iff: "normalizedLayout l = l \<longleftrightarrow> wf_layout l"
  using normalized_wf [of l] normalized_id by metis

lemma available_layout [simp]: "isActivityItemAvailable i (ui\<lparr>ui_layout := l\<rparr>) = isActivityItemAvailable i ui"
  "isActivityItemAvailable i (ui\<lparr>ui_leftOpen := os\<rparr>) = isActivityItemAvailable i ui"
  "isActivityItemAvailable i (ui\<lparr>ui_rightOpen := os\<rparr>) = isActivityItemAvailable i ui"
  "isActivityItemAvailable i (ui\<lparr>ui_activeLeft := a\<rparr>) = isActivityItemAvailable i ui"
  "isActivityItemAvailable i (ui\<lparr>ui_activeRight := a\<rparr>) = isActivityItemAvailable i ui"
  by (simp_all add: isActivityItemAvailable_def)

lemma panelIds_fields [simp]: "panelIds l s (ui\<lparr>ui_layout := l'\<rparr>) = panelIds l s ui"
  "panelIds l s (ui\<lparr>ui_leftOpen := os\<rparr>) = panelIds l s ui" "panelIds l s (ui\<lparr>ui_rightOpen := os\<rparr>) = panelIds l s ui"
  "panelIds l s (ui\<lparr>ui_activeLeft := a\<rparr>) = panelIds l s ui" "panelIds l s (ui\<lparr>ui_activeRight := a\<rparr>) = panelIds l s ui"
  by (simp_all add: panelIds_def)

lemma active_wf: "normalizedActive ids b a = Some p \<Longrightarrow> p \<noteq> [] \<and> p \<in> set ids"
  by (auto simp: normalizedActive_def split: option.splits if_splits)

lemma active_id: "(case a of None \<Rightarrow> True | Some p \<Rightarrow> p \<noteq> [] \<and> p \<in> set ids) \<Longrightarrow> normalizedActive ids b a = a"
  by (auto simp: normalizedActive_def split: option.splits)

lemma normalizedUi_wf: "wf_ui (normalizedUi ui)"
  unfolding wf_ui_def wf_side_def
  by (auto simp: normalizedUi_def Let_def normalized_wf openPanels_def activePanel_def split: option.split dest: active_wf)

lemma wf_normalizedUi: "wf_ui ui \<Longrightarrow> normalizedUi ui = ui"
proof -
  assume wf: "wf_ui ui"
  then have l: "normalizedLayout (ui_layout ui) = ui_layout ui" by (simp add: wf_ui_def normalized_id)
  have s: "wf_side ui SideLeft" "wf_side ui SideRight" using wf by (simp_all add: wf_ui_def)
  have o: "filter (\<lambda>i. i \<in> set (panelIds (ui_layout ui) s ui)) (uniq (openPanels ui s)) = openPanels ui s" if "wf_side ui s" for s
    using that by (auto simp: wf_side_def filter_id_conv)
  have a: "normalizedActive (panelIds (ui_layout ui) s ui) b (activePanel ui s) = activePanel ui s" if "wf_side ui s" for s b
    using that by (intro active_id) (simp add: wf_side_def)
  show ?thesis
    using o [OF s(1)] o [OF s(2)] a [OF s(1), of True] a [OF s(2), of False]
    by (simp add: normalizedUi_def l openPanels_def activePanel_def)
qed

text \<open>C30: the repair of stored activity bar settings settles at once. It reports a change exactly when the
  settings are not well formed, and what it returns is well formed, so the effect that applies it
  until nothing changes runs it at most once.\<close>

theorem repair_settles:
  "(normalizeActivityBarState ui = None \<longleftrightarrow> wf_ui ui)
   \<and> (\<forall>ui'. normalizeActivityBarState ui = Some ui' \<longrightarrow> wf_ui ui' \<and> normalizeActivityBarState ui' = None)"
proof -
  have iff: "normalizedUi v = v \<longleftrightarrow> wf_ui v" for v using normalizedUi_wf [of v] wf_normalizedUi by metis
  show ?thesis using iff normalizedUi_wf by (auto simp: normalizeActivityBarState_def)
qed

section \<open>Reordering\<close>

lemma mset_split: "mset xs = mset (filter P xs) + mset (filter (\<lambda>x. \<not> P x) xs)"
  by (induction xs) simp_all

lemma reorder_result:
  assumes "length nxt = length (filter (\<lambda>i. i \<in> set ordered \<and> isActivityBarItemVisible i ui) ids)"
    and "\<forall>i \<in> set nxt. i \<in> set ordered \<and> isActivityBarItemVisible i ui"
  shows "\<exists>r. reorderIds ordered ui ids nxt = (r, [])
    \<and> mset r = mset (filter (\<lambda>i. \<not> (i \<in> set ordered \<and> isActivityBarItemVisible i ui)) ids) + mset nxt
    \<and> filter (\<lambda>i. i \<in> set ordered \<and> isActivityBarItemVisible i ui) r = nxt \<and> length r = length ids
    \<and> (\<forall>k < length ids. \<not> (ids ! k \<in> set ordered \<and> isActivityBarItemVisible (ids ! k) ui) \<longrightarrow> r ! k = ids ! k)"
  using assms
proof (induction ids arbitrary: nxt)
  case (Cons i ids)
  let ?slot = "\<lambda>i. i \<in> set ordered \<and> isActivityBarItemVisible i ui"
  show ?case
  proof (cases "?slot i")
    case True
    with Cons.prems(1) obtain n ns where nxt: "nxt = n # ns" by (cases nxt) auto
    with Cons.prems True have "length ns = length (filter ?slot ids)" "\<forall>i \<in> set ns. ?slot i" by simp_all
    from Cons.IH [OF this] obtain r where r: "reorderIds ordered ui ids ns = (r, [])"
      "mset r = mset (filter (\<lambda>i. \<not> ?slot i) ids) + mset ns" "filter ?slot r = ns" "length r = length ids"
      "\<forall>k < length ids. \<not> ?slot (ids ! k) \<longrightarrow> r ! k = ids ! k" by auto
    have "(n # r) ! k = (i # ids) ! k" if "k < length (i # ids)" "\<not> ?slot ((i # ids) ! k)" for k
      using that r(5) True by (cases k) auto
    moreover have "?slot n" using Cons.prems(2) nxt by simp
    ultimately show ?thesis using r True nxt by (intro exI [of _ "n # r"]) simp
  next
    case False
    with Cons.prems have "length nxt = length (filter ?slot ids)" "\<forall>i \<in> set nxt. ?slot i" by auto
    from Cons.IH [OF this] obtain r where r: "reorderIds ordered ui ids nxt = (r, [])"
      "mset r = mset (filter (\<lambda>i. \<not> ?slot i) ids) + mset nxt" "filter ?slot r = nxt" "length r = length ids"
      "\<forall>k < length ids. \<not> ?slot (ids ! k) \<longrightarrow> r ! k = ids ! k" by auto
    have "(i # r) ! k = (i # ids) ! k" if "k < length (i # ids)" "\<not> ?slot ((i # ids) ! k)" for k
      using that r(5) by (cases k) auto
    with r False show ?thesis by (intro exI [of _ "i # r"]) auto
  qed
qed simp

lemma reorder_facts:
  assumes "distinct ids" "distinct ordered" "set ordered \<subseteq> set (getVisibleActivityIds ids ui)"
  shows "mset (mergeVisibleReorder ids ordered ui) = mset ids"
    and "filter (\<lambda>i. i \<in> set ordered) (mergeVisibleReorder ids ordered ui) = ordered"
    and "k < length ids \<Longrightarrow> ids ! k \<notin> set ordered \<Longrightarrow> mergeVisibleReorder ids ordered ui ! k = ids ! k"
proof -
  let ?slot = "\<lambda>i. i \<in> set ordered \<and> isActivityBarItemVisible i ui"
  have slot: "?slot i \<longleftrightarrow> i \<in> set ordered" for i using assms(3) by (auto simp: getVisibleActivityIds_def)
  have "set (filter ?slot ids) = set ordered" using assms(3) by (auto simp: getVisibleActivityIds_def)
  moreover have "distinct (filter ?slot ids)" using assms(1) by simp
  ultimately have m: "mset (filter ?slot ids) = mset ordered" using assms(2) by (metis set_eq_iff_mset_eq_distinct)
  then have "length ordered = length (filter ?slot ids)" by (metis size_mset)
  from reorder_result [OF this] slot obtain r where r: "reorderIds ordered ui ids ordered = (r, [])"
    "mset r = mset (filter (\<lambda>i. \<not> ?slot i) ids) + mset ordered" "filter ?slot r = ordered"
    "\<forall>k < length ids. \<not> ?slot (ids ! k) \<longrightarrow> r ! k = ids ! k" by auto
  have e: "mergeVisibleReorder ids ordered ui = r" by (simp add: mergeVisibleReorder_def r(1))
  note mset_split [of ids ?slot]
  then show "mset (mergeVisibleReorder ids ordered ui) = mset ids" unfolding e r(2) m by (simp add: add.commute)
  show "filter (\<lambda>i. i \<in> set ordered) (mergeVisibleReorder ids ordered ui) = ordered"
    using r(3) unfolding e slot .
  show "k < length ids \<Longrightarrow> ids ! k \<notin> set ordered \<Longrightarrow> mergeVisibleReorder ids ordered ui ! k = ids ! k"
    using r(4) unfolding e slot by blast
qed

section \<open>The user's actions keep the settings well formed\<close>

lemma set_panelIds: "set (panelIds l s ui) = {i \<in> set (sideIds l s). isActivityItemAvailable i ui}"
  by (auto simp: panelIds_def)

lemma placed_sides: "set (placed l) = set (sideIds l SideLeft) \<union> set (sideIds l SideRight)"
  by (auto simp: placed_def sideIds_def)

lemma wf_disjoint: "wf_layout l \<Longrightarrow> set (sideIds l SideLeft) \<inter> set (sideIds l SideRight) = {}"
  by (auto simp: wf_layout_def placed_def sideIds_def)

lemma wf_layout_perm: "wf_layout l \<Longrightarrow> mset (placed l') = mset (placed l) \<Longrightarrow> bl_hidden l' = bl_hidden l \<Longrightarrow> wf_layout l'"
  unfolding wf_layout_def by (metis mset_eq_imp_distinct_iff mset_eq_setD)

lemma side_fields [simp]:
  "activePanel (setActive s p ui) s' = (if s' = s then p else activePanel ui s')" "activePanel (setOpen s ps ui) s' = activePanel ui s'"
  "openPanels (setActive s p ui) s' = openPanels ui s'" "openPanels (setOpen s ps ui) s' = (if s' = s then ps else openPanels ui s')"
  "ui_layout (setActive s p ui) = ui_layout ui" "ui_layout (setOpen s ps ui) = ui_layout ui"
  "isActivityItemAvailable i (setActive s p ui) = isActivityItemAvailable i ui"
  "isActivityItemAvailable i (setOpen s ps ui) = isActivityItemAvailable i ui"
  "isActivityItemHidden i (setActive s p ui) = isActivityItemHidden i ui"
  by (cases s; cases s'; simp add: activePanel_def openPanels_def setActive_def setOpen_def isActivityItemHidden_def)+

lemma otherSide_simps [simp]: "otherSide s \<noteq> s" "s \<noteq> otherSide s" "otherSide (otherSide s) = s" "s' \<noteq> s \<longleftrightarrow> s' = otherSide s"
  by (cases s; cases s'; simp add: otherSide_def)+

definition bar_inv :: "ui_config \<Rightarrow> bool" where
  "bar_inv ui \<longleftrightarrow> wf_layout (ui_layout ui) \<and> [] \<notin> set (placed (ui_layout ui))
     \<and> (\<forall>s. distinct (openPanels ui s) \<and> (\<forall>p. p \<in> set (openPanels ui s) \<or> activePanel ui s = Some p \<longrightarrow>
           p \<in> set (sideIds (ui_layout ui) s) \<and> isActivityItemAvailable p ui))"

lemma bar_inv_wf: "bar_inv ui \<longleftrightarrow> wf_ui ui \<and> [] \<notin> set (placed (ui_layout ui))"
proof -
  have all: "(\<forall>s. P s) \<longleftrightarrow> P SideLeft \<and> P SideRight" for P by (metis side.exhaust)
  have p: "[] \<notin> set (placed (ui_layout ui)) \<Longrightarrow> p \<in> set (sideIds (ui_layout ui) s) \<Longrightarrow> p \<noteq> []" for p s
    by (cases s) (auto simp: placed_sides)
  show ?thesis unfolding bar_inv_def wf_ui_def wf_side_def all set_panelIds
    using p by (auto split: option.splits)
qed

lemma setActive_inv:
  assumes "bar_inv ui" "\<And>i. p = Some i \<Longrightarrow> i \<in> set (sideIds (ui_layout ui) s) \<and> isActivityItemAvailable i ui"
  shows "bar_inv (setActive s p ui)"
  using assms by (auto simp: bar_inv_def)

lemma setOpen_inv:
  assumes "bar_inv ui" "distinct ps" "\<And>i. i \<in> set ps \<Longrightarrow> i \<in> set (sideIds (ui_layout ui) s) \<and> isActivityItemAvailable i ui"
  shows "bar_inv (setOpen s ps ui)"
  using assms by (auto simp: bar_inv_def)

lemma open_add_inv:
  assumes "bar_inv ui" "p \<in> set (sideIds (ui_layout ui) s)" "isActivityItemAvailable p ui" "p \<notin> set (openPanels ui s)"
  shows "bar_inv (setOpen s (openPanels ui s @ [p]) ui)"
  using assms by (intro setOpen_inv) (auto simp: bar_inv_def)

lemma layout_inv:
  assumes "bar_inv ui" "wf_layout l" "\<And>s. set (sideIds l s) = set (sideIds (ui_layout ui) s)"
  shows "bar_inv (ui\<lparr>ui_layout := l\<rparr>)"
proof -
  have "activePanel (ui\<lparr>ui_layout := l\<rparr>) s = activePanel ui s" "openPanels (ui\<lparr>ui_layout := l\<rparr>) s = openPanels ui s" for s
    by (cases s; simp add: activePanel_def openPanels_def)+
  with assms show ?thesis by (simp add: bar_inv_def placed_sides)
qed

lemma reorder_inv:
  assumes "bar_inv ui" "distinct ordered" "set ordered \<subseteq> set (getVisibleActivityIds (zone z (ui_layout ui)) ui)"
  shows "bar_inv (handleReorder z ordered ui)"
proof -
  let ?l = "ui_layout ui" and ?ids = "mergeVisibleReorder (zone z (ui_layout ui)) ordered ui"
  have wf: "wf_layout ?l" using assms(1) by (simp add: bar_inv_def)
  then have "distinct (zone z ?l)" by (cases z) (auto simp: wf_layout_def placed_def zone_def)
  note m = reorder_facts(1) [OF this assms(2,3)]
  have set: "set ?ids = set (zone z ?l)" using m by (rule mset_eq_setD)
  have "set (sideIds (setZone z ?ids ?l) s) = set (sideIds ?l s)" for s
    using set by (cases z; cases s) (simp_all add: sideIds_def setZone_def zone_def)
  moreover have "wf_layout (setZone z ?ids ?l)" using wf placed_perm [OF m] by (rule wf_layout_perm) simp
  ultimately show ?thesis using assms(1) unfolding handleReorder_def by (intro layout_inv)
qed

lemma removed_zone: "zone z (removeEverywhere i l) = filter (\<lambda>j. j \<noteq> i) (zone z l)" and removed_hidden: "bl_hidden (removeEverywhere i l) = bl_hidden l"
  by (cases z; simp add: removeEverywhere_def ACTIVITY_LAYOUT_ZONES_def setZone_def zone_def)+

lemma filter_one: "distinct xs \<Longrightarrow> i \<in> set xs \<Longrightarrow> filter (\<lambda>j. j = i) xs = [i]"
  by (induction xs) (auto intro: filter_False)

lemma moved_layout:
  assumes "wf_layout l" "i \<in> set (placed l)"
  shows "wf_layout (setZone z (zone z (removeEverywhere i l) @ [i]) (removeEverywhere i l))"
    and "set (sideIds (setZone z (zone z (removeEverywhere i l) @ [i]) (removeEverywhere i l)) s)
      = (set (sideIds l s) - {i}) \<union> (if zoneSide z = s then {i} else {})"
proof -
  let ?r = "removeEverywhere i l"
  have z: "zone z ?r = filter (\<lambda>j. j \<noteq> i) (zone z l)" for z by (rule removed_zone)
  then have f: "bl_left_top ?r = filter (\<lambda>j. j \<noteq> i) (bl_left_top l)" "bl_left_bottom ?r = filter (\<lambda>j. j \<noteq> i) (bl_left_bottom l)"
    "bl_right_top ?r = filter (\<lambda>j. j \<noteq> i) (bl_right_top l)" "bl_right_bottom ?r = filter (\<lambda>j. j \<noteq> i) (bl_right_bottom l)"
    using z [of LeftTop] z [of LeftBottom] z [of RightTop] z [of RightBottom] by (simp_all add: zone_def)
  have m: "mset (zone z ?r @ [i]) = add_mset i (mset (zone z ?r))" by simp
  note p = placed_add [OF m]
  have pr: "placed ?r = filter (\<lambda>j. j \<noteq> i) (placed l)" by (simp add: placed_def f)
  have "mset (placed (setZone z (zone z ?r @ [i]) ?r)) = mset (placed l)"
  proof -
    have "mset (filter (\<lambda>j. j = i) (placed l)) = {#i#}" using assms by (simp add: filter_one wf_layout_def)
    moreover have "mset (placed l) = mset (filter (\<lambda>j. j = i) (placed l)) + mset (filter (\<lambda>j. j \<noteq> i) (placed l))" by (rule mset_split)
    ultimately show ?thesis unfolding p pr by (simp only: union_mset_add_mset_left add_0)
  qed
  then show "wf_layout (setZone z (zone z ?r @ [i]) ?r)" by (rule wf_layout_perm [OF assms(1)]) (simp add: removed_hidden)
  show "set (sideIds (setZone z (zone z ?r @ [i]) ?r) s) = (set (sideIds l s) - {i}) \<union> (if zoneSide z = s then {i} else {})"
    by (cases z; cases s) (auto simp: sideIds_def setZone_def zone_def zoneSide_def f)
qed

lemma move_inv:
  assumes "bar_inv ui" "i \<in> set (placed (ui_layout ui))"
  shows "bar_inv (handleMoveItem i z ui)"
proof -
  let ?r = "removeEverywhere i (ui_layout ui)"
  let ?l = "setZone z (zone z ?r @ [i]) ?r" and ?from = "otherSide (zoneSide z)"
  have wf: "wf_layout (ui_layout ui)" using assms(1) by (simp add: bar_inv_def)
  note l = moved_layout [OF wf assms(2), of z]
  have same: "activePanel (ui\<lparr>ui_layout := ?l\<rparr>) s = activePanel ui s" "openPanels (ui\<lparr>ui_layout := ?l\<rparr>) s = openPanels ui s" for s
    by (cases s; simp add: activePanel_def openPanels_def)+
  let ?ui = "handleMoveItem i z ui"
  have act: "activePanel ?ui s = (if s = ?from \<and> activePanel ui s = Some i then None else activePanel ui s)" for s
    by (auto simp: handleMoveItem_def Let_def same)
  have opn: "openPanels ?ui s = (if s = ?from then filter (\<lambda>j. j \<noteq> i) (openPanels ui s) else openPanels ui s)" for s
    by (auto simp: handleMoveItem_def Let_def same intro!: filter_True [symmetric])
  have lay: "ui_layout ?ui = ?l" by (simp add: handleMoveItem_def Let_def)
  have av: "isActivityItemAvailable p ?ui = isActivityItemAvailable p ui" for p by (simp add: handleMoveItem_def Let_def)
  have "set (placed ?l) = set (placed (ui_layout ui))"
    unfolding placed_sides l(2) using assms(2) by (cases "zoneSide z") (auto simp: placed_sides)
  then show ?thesis using assms(1) l(1) unfolding bar_inv_def lay act opn av l(2) by (auto split: if_splits)
qed

lemma hidden_inv:
  assumes "bar_inv ui" "distinct hs" "set hs \<subseteq> set (placed (ui_layout ui))"
  shows "bar_inv (ui\<lparr>ui_layout := (ui_layout ui)\<lparr>bl_hidden := hs\<rparr>\<rparr>)"
  using assms by (intro layout_inv) (auto simp: bar_inv_def wf_layout_def placed_def sideIds_def split: side.split)

lemma toggle_inv:
  assumes "bar_inv ui" "i \<in> set (placed (ui_layout ui))"
  shows "bar_inv (handleHideItem i ui)" "bar_inv (handleShowItem i ui)" "bar_inv (handleToggleItemVisibility i ui)"
proof -
  have hs: "distinct (bl_hidden (ui_layout ui))" "set (bl_hidden (ui_layout ui)) \<subseteq> set (placed (ui_layout ui))"
    using assms(1) by (auto simp: bar_inv_def wf_layout_def)
  have same: "ui\<lparr>ui_layout := ui_layout ui\<rparr> = ui" by simp
  show hide: "bar_inv (handleHideItem i ui)"
    using assms hs hidden_inv [OF assms(1), of "bl_hidden (ui_layout ui) @ [i]"] same by (simp add: handleHideItem_def hideActivityBarItem_def)
  have "set (filter (\<lambda>j. j \<noteq> i) (bl_hidden (ui_layout ui))) \<subseteq> set (placed (ui_layout ui))" using hs(2) by auto
  then show show_item: "bar_inv (handleShowItem i ui)"
    using assms(1) hs(1) hidden_inv [OF assms(1), of "filter (\<lambda>j. j \<noteq> i) (bl_hidden (ui_layout ui))"] same
    by (simp add: handleShowItem_def showActivityBarItem_def)
  show "bar_inv (handleToggleItemVisibility i ui)"
    using hide show_item
    by (simp add: handleToggleItemVisibility_def toggleActivityBarItemVisibility_def handleHideItem_def handleShowItem_def)
qed

lemma select_inv:
  assumes "bar_inv ui" "i \<in> set (sideIds (ui_layout ui) s)" "isActivityItemAvailable i ui"
  shows "bar_inv (selectPanel multi i s ui)"
proof -
  have none: "bar_inv (setActive s None ui)" using assms(1) by (intro setActive_inv) simp_all
  have act: "bar_inv (setActive s (Some i) ui)" using assms by (intro setActive_inv) simp_all
  have new: "bar_inv (setActive s (Some i) (setOpen s (openPanels ui s @ [i]) ui))" if "i \<notin> set (openPanels ui s)"
    using assms that by (intro setActive_inv open_add_inv) simp_all
  show ?thesis using none act new by (simp add: selectPanel_def buildMultiPanelToggleUpdate_def Let_def)
qed

lemma open_inv:
  assumes "bar_inv ui" "i \<in> set (placed (ui_layout ui))" "isActivityItemAvailable i ui"
  shows "bar_inv (buildPanelOpenUpdate ui i multi fallback)"
proof -
  have "\<exists>s. getItemSide i (ui_layout ui) = Some s \<and> i \<in> set (sideIds (ui_layout ui) s)"
  proof (cases "i \<in> set (sideIds (ui_layout ui) SideLeft)")
    case True
    then show ?thesis by (intro exI [of _ SideLeft]) (auto simp: getItemSide_def sideIds_def)
  next
    case False
    with assms(2) show ?thesis by (intro exI [of _ SideRight]) (auto simp: getItemSide_def sideIds_def placed_def)
  qed
  then obtain s where s: "getItemSide i (ui_layout ui) = Some s" "i \<in> set (sideIds (ui_layout ui) s)" by blast
  have act: "bar_inv (setActive s (Some i) ui)" using assms s by (intro setActive_inv) simp_all
  moreover have "bar_inv (setActive (otherSide s) None (setActive s (Some i) ui))" by (rule setActive_inv [OF act]) simp
  moreover have "bar_inv (setActive s (Some i) (setOpen s (openPanels ui s @ [i]) ui))" if "i \<notin> set (openPanels ui s)"
    using assms s that by (intro setActive_inv open_add_inv) simp_all
  moreover have "setOpen s (openPanels ui s) ui = ui" by (cases s) (simp_all add: setOpen_def openPanels_def)
  ultimately show ?thesis using s(1) by (simp add: buildPanelOpenUpdate_def Let_def)
qed

lemma find_first: "find P xs = Some p \<Longrightarrow> p \<in> set xs \<and> P p"
  by (induction xs) (auto split: if_splits)

lemma sidebar_inv:
  assumes "bar_inv ui"
  shows "bar_inv (toggleSidebar multi s ui)"
proof -
  have first: "p \<in> set (sideIds (ui_layout ui) s) \<and> isActivityItemAvailable p ui"
    if "find (\<lambda>i. i \<notin> set NON_PANEL_IDS) (getVisibleActivityIds (sideIds (ui_layout ui) s) ui) = Some p" for p
    using find_first [OF that] by (auto simp: getVisibleActivityIds_def isActivityBarItemVisible_def)
  have none: "bar_inv (setActive s None v)" if "bar_inv v" for v using that by (intro setActive_inv) simp_all
  have close: "bar_inv (setOpen s [] ui)" using assms by (intro setOpen_inv) simp_all
  have one: "bar_inv (setOpen s [p] ui)" if "p \<in> set (sideIds (ui_layout ui) s) \<and> isActivityItemAvailable p ui" for p
    using assms that by (intro setOpen_inv) auto
  have act: "bar_inv (setActive s (Some p) v)"
    if "bar_inv v" "p \<in> set (sideIds (ui_layout ui) s) \<and> isActivityItemAvailable p ui" "ui_layout v = ui_layout ui"
      "isActivityItemAvailable p v = isActivityItemAvailable p ui" for p v
    using that by (intro setActive_inv) auto
  show ?thesis unfolding toggleSidebar_def Let_def
    using assms by (auto split: option.split intro!: none close act one first)
qed

lemma seed_inv:
  assumes "bar_inv ui"
  shows "bar_inv (seedPanels ui)"
proof -
  have seed: "bar_inv (seedSide s ui v)" if "bar_inv v" "ui_layout v = ui_layout ui" "\<And>p. isActivityItemAvailable p v = isActivityItemAvailable p ui" for s v
    using that assms by (auto simp: seedSide_def bar_inv_def split: option.split)
  have "ui_layout (seedSide s ui ui) = ui_layout ui" "isActivityItemAvailable p (seedSide s ui ui) = isActivityItemAvailable p ui" for s p
    by (simp_all add: seedSide_def split: option.split)
  then show ?thesis unfolding seedPanels_def using assms by (intro seed) simp_all
qed

text \<open>The flags of the settings that make items available.\<close>

definition setFlags :: "bool option \<Rightarrow> bool option \<Rightarrow> bool option \<Rightarrow> bool option \<Rightarrow> bool option \<Rightarrow> bool option \<Rightarrow> ui_config \<Rightarrow> ui_config" where
  "setFlags n r g a p d ui = ui\<lparr>ui_notes := n, ui_remoteStats := r, ui_gpu := g, ui_npu := a, ui_process := p, ui_docker := d\<rparr>"

definition repaired :: "ui_config \<Rightarrow> ui_config" where
  "repaired ui = (case normalizeActivityBarState ui of None \<Rightarrow> ui | Some ui' \<Rightarrow> ui')"

lemma repaired_eq: "repaired ui = normalizedUi ui"
  by (simp add: repaired_def normalizeActivityBarState_def)

lemma repaired_layout: "wf_layout (ui_layout ui) \<Longrightarrow> ui_layout (repaired ui) = ui_layout ui"
  by (simp add: repaired_eq normalizedUi_def Let_def normalized_id)

lemma repaired_inv:
  assumes "wf_layout (ui_layout ui)" "[] \<notin> set (placed (ui_layout ui))"
  shows "bar_inv (repaired ui)"
  using assms repaired_layout [OF assms(1)] normalizedUi_wf [of ui] by (simp add: bar_inv_wf repaired_eq)

lemma default_wf: "wf_layout DEFAULT_ACTIVITY_BAR_LAYOUT \<and> [] \<notin> set (placed DEFAULT_ACTIVITY_BAR_LAYOUT)"
  by (simp add: DEFAULT_ACTIVITY_BAR_LAYOUT_def wf_layout_def placed_def REQUIRED_ITEMS_def)

text \<open>What the user does on the bar and with the panels of placed items.\<close>

inductive bar_action :: "ui_config \<Rightarrow> ui_config \<Rightarrow> bool" where
  reorder: "distinct ordered \<Longrightarrow> set ordered \<subseteq> set (getVisibleActivityIds (zone z (ui_layout ui)) ui) \<Longrightarrow> bar_action ui (handleReorder z ordered ui)"
| move: "i \<in> set (placed (ui_layout ui)) \<Longrightarrow> bar_action ui (handleMoveItem i z ui)"
| hide: "i \<in> set (placed (ui_layout ui)) \<Longrightarrow> bar_action ui (handleHideItem i ui)"
| show_item: "i \<in> set (placed (ui_layout ui)) \<Longrightarrow> bar_action ui (handleShowItem i ui)"
| toggle: "i \<in> set (placed (ui_layout ui)) \<Longrightarrow> bar_action ui (handleToggleItemVisibility i ui)"
| label: "bar_action ui (handleToggleLabel ui)"
| reset_bar: "bar_action ui (handleResetActivityBarLayout ui)"
| select: "i \<in> set (sideIds (ui_layout ui) s) \<Longrightarrow> isActivityItemAvailable i ui \<Longrightarrow> bar_action ui (selectPanel multi i s ui)"
| sidebar: "bar_action ui (toggleSidebar multi s ui)"
| seed: "bar_action ui (seedPanels ui)"
| close_all: "bar_action ui (closeAllPanels ui)"

text \<open>
  Besides, the application opens a panel by its id, wherever the item is (the tray, a sync conflict,
  the assistant), the settings change which items are available, and the effect of the controller
  applies the repair when there is something to repair. The three happen in any order, so that
  actions also meet settings that are not yet repaired.
\<close>

inductive bar_step :: "ui_config \<Rightarrow> ui_config \<Rightarrow> bool" where
  action: "bar_action ui ui' \<Longrightarrow> bar_step ui ui'"
| open_panel: "bar_step ui (buildPanelOpenUpdate ui i multi fallback)"
| settings: "bar_step ui (setFlags n r g a p d ui)"
| repair: "normalizeActivityBarState ui = Some ui' \<Longrightarrow> bar_step ui ui'"

lemma bar_action_inv:
  assumes "bar_inv ui" "bar_action ui ui'"
  shows "bar_inv ui'"
  using assms(2,1)
proof cases
  case label
  have "wf_layout ((ui_layout ui)\<lparr>bl_show_labels := b\<rparr>)" "sideIds ((ui_layout ui)\<lparr>bl_show_labels := b\<rparr>) s = sideIds (ui_layout ui) s" for b s
    using assms(1) by (auto simp: bar_inv_def wf_layout_def placed_def sideIds_def split: side.split)
  with label assms(1) show ?thesis by (simp add: handleToggleLabel_def layout_inv)
next
  case reset_bar
  have "bar_inv (repaired (ui\<lparr>ui_layout := DEFAULT_ACTIVITY_BAR_LAYOUT\<rparr>))" using default_wf by (intro repaired_inv) simp_all
  with reset_bar show ?thesis by (simp add: handleResetActivityBarLayout_def repaired_def Let_def)
next
  case close_all
  with assms(1) show ?thesis by (auto simp: closeAllPanels_def bar_inv_def activePanel_def openPanels_def split: side.splits)
qed (simp_all add: reorder_inv move_inv toggle_inv select_inv sidebar_inv seed_inv)

text \<open>What holds of the settings at all times, repaired or not: the layout is well formed and no panel is
  listed twice.\<close>

definition bar_weak :: "ui_config \<Rightarrow> bool" where
  "bar_weak ui \<longleftrightarrow> wf_layout (ui_layout ui) \<and> [] \<notin> set (placed (ui_layout ui)) \<and> (\<forall>s. distinct (openPanels ui s))"

lemma bar_inv_weak: "bar_inv ui \<Longrightarrow> bar_weak ui"
  by (simp add: bar_inv_def bar_weak_def)

text \<open>Closing the panels gives settings of the first kind with the same layout, on which the actions on
  the layout do the same.\<close>

lemma weak_closed: "bar_weak ui \<Longrightarrow> bar_inv (closeAllPanels ui)"
  by (auto simp: closeAllPanels_def bar_inv_def bar_weak_def activePanel_def openPanels_def split: side.splits)

lemma closed_same [simp]:
  "ui_layout (closeAllPanels ui) = ui_layout ui" "isActivityItemAvailable i (closeAllPanels ui) = isActivityItemAvailable i ui"
  "isActivityItemHidden i (closeAllPanels ui) = isActivityItemHidden i ui"
  by (simp_all add: closeAllPanels_def isActivityItemHidden_def isActivityItemAvailable_def)

lemma weak_layout:
  assumes "bar_weak ui" "bar_inv v" "ui_layout v = ui_layout ui'" "\<And>s. distinct (openPanels ui' s)"
  shows "bar_weak ui'"
  using assms by (simp add: bar_inv_def bar_weak_def)

lemma weak_panels: "bar_weak ui \<Longrightarrow> ui_layout ui' = ui_layout ui \<Longrightarrow> (\<And>s. distinct (openPanels ui' s)) \<Longrightarrow> bar_weak ui'"
  by (simp add: bar_weak_def)

lemma open_layout [simp]: "openPanels (ui\<lparr>ui_layout := l\<rparr>) s = openPanels ui s" "activePanel (ui\<lparr>ui_layout := l\<rparr>) s = activePanel ui s"
  by (cases s; simp add: openPanels_def activePanel_def)+

lemma reorder_closed: "ui_layout (handleReorder z ordered (closeAllPanels ui)) = ui_layout (handleReorder z ordered ui)"
proof -
  have "reorderIds ordered (closeAllPanels ui) ids nxt = reorderIds ordered ui ids nxt" for ids nxt
    by (induction ids arbitrary: nxt) (simp_all add: isActivityBarItemVisible_def split: list.split)
  then show ?thesis by (simp add: handleReorder_def mergeVisibleReorder_def)
qed

lemma bar_action_weak:
  assumes "bar_weak ui" "bar_action ui ui'"
  shows "bar_weak ui'"
proof -
  have d: "distinct (openPanels ui s)" for s using assms(1) by (simp add: bar_weak_def)
  note c = weak_closed [OF assms(1)]
  have vis: "getVisibleActivityIds ids (closeAllPanels ui) = getVisibleActivityIds ids ui" for ids
    by (simp add: getVisibleActivityIds_def isActivityBarItemVisible_def)
  from assms(2) show ?thesis
  proof cases
    case (reorder ordered z)
    with c have "bar_inv (handleReorder z ordered (closeAllPanels ui))" by (intro reorder_inv) (simp_all add: vis)
    from weak_layout [OF assms(1) this reorder_closed] reorder d show ?thesis by (simp add: handleReorder_def)
  next
    case (move i z)
    with c have m: "bar_inv (handleMoveItem i z (closeAllPanels ui))" by (intro move_inv) simp_all
    have "distinct (openPanels ui' s)" for s unfolding move by (simp add: handleMoveItem_def Let_def d)
    with m move show ?thesis by (intro weak_layout [OF assms(1) m]) (simp_all add: handleMoveItem_def Let_def)
  next
    case (hide i)
    with c have m: "bar_inv (handleHideItem i (closeAllPanels ui))" by (intro toggle_inv) simp_all
    from hide d show ?thesis by (intro weak_layout [OF assms(1) m]) (simp_all add: handleHideItem_def)
  next
    case (show_item i)
    with c have m: "bar_inv (handleShowItem i (closeAllPanels ui))" by (intro toggle_inv) simp_all
    from show_item d show ?thesis by (intro weak_layout [OF assms(1) m]) (simp_all add: handleShowItem_def)
  next
    case (toggle i)
    with c have m: "bar_inv (handleToggleItemVisibility i (closeAllPanels ui))" by (intro toggle_inv) simp_all
    from toggle d show ?thesis by (intro weak_layout [OF assms(1) m]) (simp_all add: handleToggleItemVisibility_def)
  next
    case label
    have m: "bar_inv (handleToggleLabel (closeAllPanels ui))" by (rule bar_action_inv [OF c bar_action.label])
    from label d show ?thesis by (intro weak_layout [OF assms(1) m]) (simp_all add: handleToggleLabel_def)
  next
    case reset_bar
    have "bar_inv (repaired (ui\<lparr>ui_layout := DEFAULT_ACTIVITY_BAR_LAYOUT\<rparr>))" using default_wf by (intro repaired_inv) simp_all
    with reset_bar show ?thesis by (intro bar_inv_weak) (simp add: handleResetActivityBarLayout_def repaired_def Let_def)
  next
    case (select i s multi)
    then show ?thesis using d
      by (intro weak_panels [OF assms(1)]) (simp_all add: selectPanel_def buildMultiPanelToggleUpdate_def Let_def)
  next
    case (sidebar multi s)
    then show ?thesis using d
      by (intro weak_panels [OF assms(1)]) (simp_all add: toggleSidebar_def Let_def split: option.split)
  next
    case seed
    then show ?thesis using d
      by (intro weak_panels [OF assms(1)]) (simp_all add: seedPanels_def seedSide_def split: option.split)
  next
    case close_all
    with c show ?thesis by (simp add: bar_inv_weak)
  qed
qed

lemma open_weak: "bar_weak ui \<Longrightarrow> bar_weak (buildPanelOpenUpdate ui i multi fallback)"
  by (rule weak_panels) (simp_all add: buildPanelOpenUpdate_def Let_def bar_weak_def)

lemma flags_same [simp]:
  "ui_layout (setFlags n r g a p d ui) = ui_layout ui" "openPanels (setFlags n r g a p d ui) s = openPanels ui s"
  "activePanel (setFlags n r g a p d ui) s = activePanel ui s"
  by (cases s; simp add: setFlags_def openPanels_def activePanel_def)+

lemma bar_step_weak: "bar_weak ui \<Longrightarrow> bar_step ui ui' \<Longrightarrow> bar_weak ui'"
proof (erule bar_step.cases)
  fix v v' assume "bar_weak ui" "ui = v" "ui' = v'" "normalizeActivityBarState v = Some v'"
  then show ?thesis using repaired_inv [of v] by (intro bar_inv_weak) (simp add: bar_weak_def repaired_def)
qed (auto simp: bar_action_weak open_weak intro: weak_panels, simp add: bar_weak_def)

definition bar_start :: "ui_config \<Rightarrow> bool" where
  "bar_start ui \<longleftrightarrow> normalizeActivityBarState ui = None \<and> [] \<notin> set (placed (ui_layout ui))"

lemma bar_settled: "[] \<notin> set (placed (ui_layout ui)) \<Longrightarrow> normalizeActivityBarState ui = None \<longleftrightarrow> bar_inv ui"
  using wf_normalizedUi normalizedUi_wf [of ui] by (auto simp: bar_inv_wf normalizeActivityBarState_def split: if_splits)

interpretation bar: invariant_system bar_start bar_step bar_weak
  by unfold_locales (auto simp: bar_start_def bar_settled bar_inv_weak intro: bar_step_weak)

text \<open>The actions of the user alone never call for a repair.\<close>

interpretation bar_actions: invariant_system bar_start bar_action bar_inv
  by unfold_locales (auto simp: bar_start_def bar_settled intro: bar_action_inv)

lemma open_settled:
  assumes "bar_inv ui"
  shows "bar_inv (buildPanelOpenUpdate ui i multi fallback) \<longleftrightarrow> i \<in> set (placed (ui_layout ui)) \<and> isActivityItemAvailable i ui"
proof
  assume inv: "bar_inv (buildPanelOpenUpdate ui i multi fallback)"
  let ?s = "case getItemSide i (ui_layout ui) of None \<Rightarrow> fallback | Some s \<Rightarrow> s"
  have "activePanel (buildPanelOpenUpdate ui i multi fallback) ?s = Some i"
    "ui_layout (buildPanelOpenUpdate ui i multi fallback) = ui_layout ui"
    "isActivityItemAvailable i (buildPanelOpenUpdate ui i multi fallback) = isActivityItemAvailable i ui"
    by (simp_all add: buildPanelOpenUpdate_def Let_def)
  with inv have "i \<in> set (sideIds (ui_layout ui) ?s)" "isActivityItemAvailable i ui" unfolding bar_inv_def by metis+
  then show "i \<in> set (placed (ui_layout ui)) \<and> isActivityItemAvailable i ui"
    unfolding placed_sides by (metis (full_types) UnCI side.exhaust)
qed (simp add: assms open_inv)

lemma repaired_panels:
  assumes "wf_layout (ui_layout ui)"
  shows "openPanels (repaired ui) s = filter (\<lambda>i. i \<in> set (panelIds (ui_layout ui) s ui)) (uniq (openPanels ui s))"
    and "activePanel (repaired ui) s = normalizedActive (panelIds (ui_layout ui) s ui) (s = SideLeft) (activePanel ui s)"
  by (cases s; simp add: repaired_eq normalizedUi_def Let_def normalized_id assms openPanels_def activePanel_def)+

text \<open>C29: whatever the user, the application and the settings do, in any order, the repair of the effect
  leaves the bar's layout alone and only closes panels: those that are not available items of their
  side, keeping all others and their order. When nothing is to be repaired, every active or open
  panel is an available item of its side, and none is open on both sides; the user's actions on the
  bar keep it so; opening a panel by its id keeps it so exactly when its item is in the bar and
  available; and a change of the settings keeps it so exactly when all panels shown stay available.\<close>

theorem bar_stays_wellformed:
  assumes "bar_start ui0" "bar_step\<^sup>*\<^sup>* ui0 ui"
  shows "normalizeActivityBarState (repaired ui) = None \<and> ui_layout (repaired ui) = ui_layout ui
    \<and> (\<forall>s. openPanels (repaired ui) s = filter (\<lambda>p. p \<in> set (sideIds (ui_layout ui) s) \<and> isActivityItemAvailable p ui) (openPanels ui s))
    \<and> (\<forall>s p. activePanel (repaired ui) s = Some p \<longleftrightarrow>
         p \<in> set (sideIds (ui_layout ui) s) \<and> isActivityItemAvailable p ui
         \<and> (activePanel ui s = Some p \<or> s = SideLeft \<and> activePanel ui s = Some ''fileTransfer'' \<and> p = ''fileExplorer''))
    \<and> (normalizeActivityBarState ui = None \<longrightarrow>
        (\<forall>s p. p \<in> set (openPanels ui s) \<or> activePanel ui s = Some p \<longrightarrow>
          p \<in> set (sideIds (ui_layout ui) s) \<and> isActivityItemAvailable p ui
          \<and> p \<notin> set (openPanels ui (otherSide s)) \<and> activePanel ui (otherSide s) \<noteq> Some p)
      \<and> (\<forall>ui'. bar_action ui ui' \<longrightarrow> normalizeActivityBarState ui' = None)
      \<and> (\<forall>i multi fallback. normalizeActivityBarState (buildPanelOpenUpdate ui i multi fallback) = None
           \<longleftrightarrow> i \<in> set (placed (ui_layout ui)) \<and> isActivityItemAvailable i ui)
      \<and> (\<forall>n r g a p d. normalizeActivityBarState (setFlags n r g a p d ui) = None
           \<longleftrightarrow> (\<forall>s q. q \<in> set (openPanels ui s) \<or> activePanel ui s = Some q \<longrightarrow> isActivityItemAvailable q (setFlags n r g a p d ui))))"
proof -
  have weak: "bar_weak ui" by (rule bar.reachable_inv [OF assms])
  then have wf: "wf_layout (ui_layout ui)" and ne: "[] \<notin> set (placed (ui_layout ui))" and d: "\<And>s. distinct (openPanels ui s)"
    by (simp_all add: bar_weak_def)
  have side: "p \<in> set (sideIds (ui_layout ui) s) \<Longrightarrow> p \<noteq> [] \<and> p \<noteq> ''fileTransfer''" for p s
    using ne wf by (cases s) (auto simp: placed_sides wf_layout_def)
  have rep: "normalizeActivityBarState (repaired ui) = None" "ui_layout (repaired ui) = ui_layout ui"
    using repaired_inv [OF wf ne] repaired_layout [OF wf] ne by (simp_all add: bar_settled)
  have opn: "openPanels (repaired ui) s = filter (\<lambda>p. p \<in> set (sideIds (ui_layout ui) s) \<and> isActivityItemAvailable p ui) (openPanels ui s)" for s
    using d by (simp add: repaired_panels [OF wf] set_panelIds)
  have act: "activePanel (repaired ui) s = Some p \<longleftrightarrow>
         p \<in> set (sideIds (ui_layout ui) s) \<and> isActivityItemAvailable p ui
         \<and> (activePanel ui s = Some p \<or> s = SideLeft \<and> activePanel ui s = Some ''fileTransfer'' \<and> p = ''fileExplorer'')" for s p
    using side by (auto simp: repaired_panels [OF wf] normalizedActive_def set_panelIds split: option.splits if_splits)
  have disj: "set (sideIds (ui_layout ui) s) \<inter> set (sideIds (ui_layout ui) (otherSide s)) = {}" for s
    using wf_disjoint [OF wf] by (cases s) (auto simp: otherSide_def)
  have settled: "(\<forall>s p. p \<in> set (openPanels ui s) \<or> activePanel ui s = Some p \<longrightarrow>
          p \<in> set (sideIds (ui_layout ui) s) \<and> isActivityItemAvailable p ui
          \<and> p \<notin> set (openPanels ui (otherSide s)) \<and> activePanel ui (otherSide s) \<noteq> Some p)
      \<and> (\<forall>ui'. bar_action ui ui' \<longrightarrow> normalizeActivityBarState ui' = None)
      \<and> (\<forall>i multi fallback. normalizeActivityBarState (buildPanelOpenUpdate ui i multi fallback) = None
           \<longleftrightarrow> i \<in> set (placed (ui_layout ui)) \<and> isActivityItemAvailable i ui)
      \<and> (\<forall>n r g a p d. normalizeActivityBarState (setFlags n r g a p d ui) = None
           \<longleftrightarrow> (\<forall>s q. q \<in> set (openPanels ui s) \<or> activePanel ui s = Some q \<longrightarrow> isActivityItemAvailable q (setFlags n r g a p d ui)))"
    if "normalizeActivityBarState ui = None"
  proof (intro conjI)
    have inv: "bar_inv ui" using that ne by (simp add: bar_settled)
    then show "\<forall>s p. p \<in> set (openPanels ui s) \<or> activePanel ui s = Some p \<longrightarrow>
          p \<in> set (sideIds (ui_layout ui) s) \<and> isActivityItemAvailable p ui
          \<and> p \<notin> set (openPanels ui (otherSide s)) \<and> activePanel ui (otherSide s) \<noteq> Some p"
      using disj unfolding bar_inv_def by blast
    show "\<forall>ui'. bar_action ui ui' \<longrightarrow> normalizeActivityBarState ui' = None"
      using bar_action_inv [OF inv] wf_normalizedUi by (simp add: bar_inv_wf normalizeActivityBarState_def)
    show "\<forall>i multi fallback. normalizeActivityBarState (buildPanelOpenUpdate ui i multi fallback) = None
           \<longleftrightarrow> i \<in> set (placed (ui_layout ui)) \<and> isActivityItemAvailable i ui"
      using open_settled [OF inv] ne by (simp add: bar_settled buildPanelOpenUpdate_def Let_def)
    show "\<forall>n r g a p d. normalizeActivityBarState (setFlags n r g a p d ui) = None
           \<longleftrightarrow> (\<forall>s q. q \<in> set (openPanels ui s) \<or> activePanel ui s = Some q \<longrightarrow> isActivityItemAvailable q (setFlags n r g a p d ui))"
      using inv ne by (auto simp: bar_settled bar_inv_def)
  qed
  from rep opn act settled show ?thesis by (intro conjI) auto
qed

text \<open>
  Opening the panel of an item that is not in the bar has no lasting effect but to close the panel
  that was active on the fallback side: the effect takes it out again. \<open>activeSessions\<close>, which the tray
  opens, is not among the items the repair adds to a stored layout.
\<close>

lemma unplaced_open_undone:
  assumes "bar_inv ui" "i \<notin> set (placed (ui_layout ui))" "i \<noteq> ''fileTransfer''"
  shows "activePanel (repaired (buildPanelOpenUpdate ui i multi fallback)) fallback = None
    \<and> (\<forall>s. openPanels (repaired (buildPanelOpenUpdate ui i multi fallback)) s = openPanels ui s)"
proof -
  let ?v = "buildPanelOpenUpdate ui i multi fallback"
  have side: "getItemSide i (ui_layout ui) = None" using assms(2) by (auto simp: getItemSide_def placed_def)
  have n: "i \<notin> set (sideIds (ui_layout ui) s)" for s using assms(2) by (cases s) (auto simp: placed_sides)
  have v: "ui_layout ?v = ui_layout ui" "activePanel ?v fallback = Some i" "isActivityItemAvailable p ?v = isActivityItemAvailable p ui"
    "openPanels ?v s = openPanels ui s \<or> openPanels ?v s = openPanels ui s @ [i]" for p s
    using side by (simp_all add: buildPanelOpenUpdate_def Let_def)
  have wf: "wf_layout (ui_layout ?v)" using assms(1) v(1) by (simp add: bar_inv_def)
  have keep: "filter (\<lambda>p. p \<in> set (sideIds (ui_layout ui) s) \<and> isActivityItemAvailable p ui) (openPanels ui s) = openPanels ui s"
    and d: "distinct (openPanels ui s)" "i \<notin> set (openPanels ui s)" for s
    using assms(1) n by (auto simp: bar_inv_def)
  have "openPanels (repaired ?v) s = openPanels ui s" for s
    using v(4) [of s] keep [of s] d [of s] n [of s] by (auto simp: repaired_panels [OF wf] set_panelIds v(1,3))
  moreover have "activePanel (repaired ?v) fallback = None"
    using n assms(3) by (simp add: repaired_panels [OF wf] set_panelIds v normalizedActive_def)
  ultimately show ?thesis by simp
qed

text \<open>dragging items in a zone of the bar: with any order of visible items of the zone, no item is lost or
  doubled, the named items stand in the new order, and every other item, hidden or not, keeps its
  place.\<close>

theorem reorder_exact:
  assumes "distinct ids" "distinct ordered" "set ordered \<subseteq> set (getVisibleActivityIds ids ui)"
  shows "mset (mergeVisibleReorder ids ordered ui) = mset ids
    \<and> filter (\<lambda>i. i \<in> set ordered) (mergeVisibleReorder ids ordered ui) = ordered
    \<and> (\<forall>k < length ids. ids ! k \<notin> set ordered \<longrightarrow> mergeVisibleReorder ids ordered ui ! k = ids ! k)"
  using reorder_facts [OF assms] by blast

definition example_ui :: ui_config where
  "example_ui = \<lparr>ui_activeLeft = None, ui_activeRight = None, ui_leftOpen = [], ui_rightOpen = [], ui_notes = None, ui_remoteStats = None,
     ui_gpu = None, ui_npu = None, ui_process = None, ui_docker = None, ui_layout = DEFAULT_ACTIVITY_BAR_LAYOUT\<rparr>"

theorem reorder_exact_witness:
  "mergeVisibleReorder [''a'', ''gpuMonitor'', ''b'', ''c''] [''c'', ''a'', ''b''] example_ui = [''c'', ''gpuMonitor'', ''a'', ''b'']
   \<and> filter (\<lambda>i. i \<in> {''a'', ''b'', ''c''}) [''c'', ''gpuMonitor'', ''a'', ''b''] = [''c'', ''a'', ''b'']"
proof -
  have e: "mergeVisibleReorder [''a'', ''gpuMonitor'', ''b'', ''c''] [''c'', ''a'', ''b''] example_ui = [''c'', ''gpuMonitor'', ''a'', ''b'']"
    by (simp add: mergeVisibleReorder_def isActivityBarItemVisible_def isActivityItemAvailable_def isActivityItemHidden_def example_ui_def
        DEFAULT_ACTIVITY_BAR_LAYOUT_def default_to_def)
  have "set [''c'', ''a'', ''b''] \<subseteq> set (getVisibleActivityIds [''a'', ''gpuMonitor'', ''b'', ''c''] example_ui)"
    by (simp add: getVisibleActivityIds_def isActivityBarItemVisible_def isActivityItemAvailable_def isActivityItemHidden_def example_ui_def
        DEFAULT_ACTIVITY_BAR_LAYOUT_def default_to_def)
  from reorder_exact [OF _ _ this] show ?thesis by (simp add: e)
qed

theorem bar_stays_wellformed_witness:
  "normalizeActivityBarState (selectPanel True ''notes'' SideLeft example_ui) = None
   \<and> normalizeActivityBarState (buildPanelOpenUpdate example_ui ''gpuMonitor'' False SideLeft) \<noteq> None
   \<and> normalizeActivityBarState (repaired (buildPanelOpenUpdate example_ui ''gpuMonitor'' False SideLeft)) = None"
proof -
  have wf: "wf_ui example_ui"
    using default_wf by (simp add: wf_ui_def wf_side_def example_ui_def openPanels_def activePanel_def)
  then have start: "bar_start example_ui"
    using wf_normalizedUi default_wf by (simp add: bar_start_def normalizeActivityBarState_def example_ui_def)
  have item: "''notes'' \<in> set (sideIds (ui_layout example_ui) SideLeft)" "isActivityItemAvailable ''notes'' example_ui"
    and gpu: "\<not> isActivityItemAvailable ''gpuMonitor'' example_ui"
    by (simp_all add: example_ui_def DEFAULT_ACTIVITY_BAR_LAYOUT_def sideIds_def isActivityItemAvailable_def default_to_def)
  from item have act: "bar_action example_ui (selectPanel True ''notes'' SideLeft example_ui)" by (rule bar_action.select)
  have step: "bar_step\<^sup>*\<^sup>* example_ui (buildPanelOpenUpdate example_ui ''gpuMonitor'' False SideLeft)"
    by (rule r_into_rtranclp, rule bar_step.open_panel)
  have none: "normalizeActivityBarState example_ui = None" using start by (simp add: bar_start_def)
  note here = bar_stays_wellformed [OF start rtranclp.rtrancl_refl, THEN conjunct2, THEN conjunct2, THEN conjunct2, THEN conjunct2, rule_format, OF none]
  from here act bar_stays_wellformed [OF start step] gpu show ?thesis by auto
qed

theorem repair_settles_witness:
  "\<exists>ui'. normalizeActivityBarState (example_ui\<lparr>ui_leftOpen := [''notes'', ''notes'']\<rparr>) = Some ui' \<and> wf_ui ui'
     \<and> normalizeActivityBarState ui' = None"
proof -
  have "\<not> wf_ui (example_ui\<lparr>ui_leftOpen := [''notes'', ''notes'']\<rparr>)"
    by (simp add: wf_ui_def wf_side_def openPanels_def)
  with repair_settles [of "example_ui\<lparr>ui_leftOpen := [''notes'', ''notes'']\<rparr>"] show ?thesis by (metis not_None_eq)
qed

text \<open>Opening a floating panel that is already open closes it: the open action uses the toggle of the bar.\<close>

lemma floating_open_closes:
  "floatingAt (reduceFloatingPanelSelect (reduceFloatingPanelSelect \<lparr>fp_left = None, fp_right = None\<rparr> ''activeSessions'' SideRight) ''activeSessions'' SideRight) SideRight = None"
  by (simp add: reduceFloatingPanelSelect_def floatingAt_def setFloating_def)

end
