(* ===== verification/Child_Windows.thy ===== *)
theory Child_Windows
  imports Prelude
begin

text \<open>
  How a main window follows the child windows it opens: the queue of commands that wait until the
  page of a child window listens (\<open>lib/childWindowCommandQueue.ts\<close>) and the handshake around it
  (\<open>lib/windowManager.ts\<close>): lifecycle events, the waiter of an open, the handlers of destroyed
  windows and the closing of windows that failed to load.

  Labels and tokens are strings, as in the code; a JavaScript \<open>Map\<close> is a map. A promise of a
  waiter is what it resolves to, and its timeout is armed exactly while \<open>wt_timer\<close> holds. An
  asynchronous function is cut at its awaits: \<open>closeFailedChildWindow\<close> is the part before and
  \<open>finishFailedClose\<close> the part after. Commands sent to windows are logged in \<open>cw_emitted\<close>.
  The webviews, their focus and their geometry belong to the window system and are not modelled.
\<close>

section \<open>The command queue\<close>

datatype child_command = SettingsOpenTab | RemoteFileEditorOpen | FilePreviewOpen

record 'p command_envelope =
  ce_event :: child_command
  ce_payload :: 'p

datatype child_status = ChildLoading | ChildReady | ChildFailed

record 'p command_state =
  cs_token :: string
  cs_expected :: child_command
  cs_status :: child_status
  cs_pending :: "'p command_envelope list"

type_synonym 'p command_queue = "string \<Rightarrow> 'p command_state option"

definition register :: "string \<Rightarrow> string \<Rightarrow> child_command \<Rightarrow> 'p command_queue \<Rightarrow> 'p command_queue" where
  "register label token expectedEvent states =
     (if (case states label of Some c \<Rightarrow> cs_token c = token \<and> cs_expected c = expectedEvent | None \<Rightarrow> False) then states
      else states(label \<mapsto> \<lparr>cs_token = token, cs_expected = expectedEvent, cs_status = ChildLoading, cs_pending = []\<rparr>))"

definition dispatch :: "string \<Rightarrow> child_command \<Rightarrow> 'p \<Rightarrow> 'p command_queue \<Rightarrow> 'p command_queue \<times> 'p command_envelope list" where
  "dispatch label event payload states =
     (let command = \<lparr>ce_event = event, ce_payload = payload\<rparr>
      in case states label of
           None \<Rightarrow> (states, [command])
         | Some st \<Rightarrow>
             if cs_expected st \<noteq> event \<or> cs_status st = ChildReady then (states, [command])
             else if cs_status st = ChildFailed then (states, [])
             else (states(label \<mapsto> st\<lparr>cs_pending := cs_pending st @ [command]\<rparr>), []))"

definition markReady :: "string \<Rightarrow> string \<Rightarrow> child_command \<Rightarrow> 'p command_queue \<Rightarrow> 'p command_queue \<times> 'p command_envelope list" where
  "markReady label token event states =
     (case states label of
        None \<Rightarrow> (states, [])
      | Some st \<Rightarrow>
          if cs_token st \<noteq> token \<or> cs_expected st \<noteq> event then (states, [])
          else (states(label \<mapsto> st\<lparr>cs_status := ChildReady, cs_pending := []\<rparr>), cs_pending st))"

definition markLoading :: "string \<Rightarrow> string \<Rightarrow> 'p command_queue \<Rightarrow> 'p command_queue \<times> bool" where
  "markLoading label token states =
     (case states label of
        None \<Rightarrow> (states, False)
      | Some st \<Rightarrow>
          if cs_token st \<noteq> token then (states, False)
          else if cs_status st = ChildFailed then (states, False)
          else (states(label \<mapsto> st\<lparr>cs_status := ChildLoading\<rparr>), True))"

definition markChildFailed :: "string \<Rightarrow> string \<Rightarrow> 'p command_queue \<Rightarrow> 'p command_queue \<times> bool" where
  "markChildFailed label token states =
     (case states label of
        None \<Rightarrow> (states, False)
      | Some st \<Rightarrow>
          if cs_token st \<noteq> token then (states, False)
          else (states(label \<mapsto> st\<lparr>cs_status := ChildFailed, cs_pending := []\<rparr>), True))"

definition isFailed :: "string \<Rightarrow> string option \<Rightarrow> 'p command_queue \<Rightarrow> bool" where
  "isFailed label token states =
     (case states label of
        None \<Rightarrow> False
      | Some st \<Rightarrow> cs_status st = ChildFailed \<and> (token = None \<or> Some (cs_token st) = token))"

definition clearCommands :: "string \<Rightarrow> 'p command_queue \<Rightarrow> 'p command_queue" where
  "clearCommands label states = states(label := None)"

lemmas queue_defs = register_def dispatch_def markReady_def markLoading_def markChildFailed_def clearCommands_def Let_def

text \<open>A call of the queue, with the commands it returned for its label added to a log.\<close>

datatype 'p queue_call = CallRegister string string child_command | CallDispatch string child_command 'p
  | CallReady string string child_command | CallLoading string string | CallFailed string string | CallClear string

type_synonym 'p logged_queue = "'p command_queue \<times> (string \<times> 'p command_envelope) list"

fun queueCall :: "'p queue_call \<Rightarrow> 'p logged_queue \<Rightarrow> 'p logged_queue" where
  "queueCall (CallRegister l t e) (q, out) = (register l t e q, out)"
| "queueCall (CallDispatch l e p) (q, out) = (let (q', cs) = dispatch l e p q in (q', out @ map (Pair l) cs))"
| "queueCall (CallReady l t e) (q, out) = (let (q', cs) = markReady l t e q in (q', out @ map (Pair l) cs))"
| "queueCall (CallLoading l t) (q, out) = (fst (markLoading l t q), out)"
| "queueCall (CallFailed l t) (q, out) = (fst (markChildFailed l t q), out)"
| "queueCall (CallClear l) (q, out) = (clearCommands l q, out)"

fun call_label :: "'p queue_call \<Rightarrow> string" where
  "call_label (CallRegister l t e) = l"
| "call_label (CallDispatch l e p) = l"
| "call_label (CallReady l t e) = l"
| "call_label (CallLoading l t) = l"
| "call_label (CallFailed l t) = l"
| "call_label (CallClear l) = l"

fun dispatched :: "string \<Rightarrow> 'p queue_call \<Rightarrow> 'p command_envelope list" where
  "dispatched l (CallDispatch k e p) = (if k = l then [\<lparr>ce_event = e, ce_payload = p\<rparr>] else [])"
| "dispatched l _ = []"

text \<open>What a label was sent, in order.\<close>

definition delivered :: "string \<Rightarrow> (string \<times> 'p command_envelope) list \<Rightarrow> 'p command_envelope list" where
  "delivered l out = map snd (filter (\<lambda>x. fst x = l) out)"

lemma delivered_append [simp]: "delivered l (a @ b) = delivered l a @ delivered l b"
  by (simp add: delivered_def)

lemma delivered_own [simp]: "delivered l (map (Pair l) cs) = cs"
  by (induction cs) (simp_all add: delivered_def)

lemma delivered_other [simp]: "k \<noteq> l \<Longrightarrow> delivered l (map (Pair k) cs) = []"
  by (induction cs) (simp_all add: delivered_def)

lemma delivered_list [simp]: "delivered l [] = []" "delivered l (x # xs) = (if fst x = l then [snd x] else []) @ delivered l xs"
  by (simp_all add: delivered_def)

text \<open>The calls of one label do not touch what another label has.\<close>

lemma call_other:
  assumes "call_label c \<noteq> l"
  shows "fst (queueCall c s) l = fst s l \<and> delivered l (snd (queueCall c s)) = delivered l (snd s)"
  using assms by (cases s; cases c) (auto simp: queue_defs split: option.splits prod.splits)

text \<open>
  A generation of a label: the token and the command it was registered with, until it fails or is
  cleared. A call keeps the generation when it is none of these and registers nothing else.
\<close>

fun keeps_generation :: "string \<Rightarrow> string \<Rightarrow> child_command \<Rightarrow> 'p queue_call \<Rightarrow> bool" where
  "keeps_generation l t e (CallRegister k t' e') \<longleftrightarrow> k = l \<longrightarrow> t' = t \<and> e' = e"
| "keeps_generation l t e (CallFailed k t') \<longleftrightarrow> k = l \<longrightarrow> t' \<noteq> t"
| "keeps_generation l t e (CallClear k) \<longleftrightarrow> k \<noteq> l"
| "keeps_generation l t e _ \<longleftrightarrow> True"

definition expected_of :: "child_command \<Rightarrow> 'p command_envelope list \<Rightarrow> 'p command_envelope list" where
  "expected_of e cs = filter (\<lambda>c. ce_event c = e) cs"

definition other_than :: "child_command \<Rightarrow> 'p command_envelope list \<Rightarrow> 'p command_envelope list" where
  "other_than e cs = filter (\<lambda>c. ce_event c \<noteq> e) cs"

lemma expected_append [simp]:
  "expected_of e (a @ b) = expected_of e a @ expected_of e b" "other_than e (a @ b) = other_than e a @ other_than e b"
  "expected_of e [] = []" "other_than e [] = []"
  by (simp_all add: expected_of_def other_than_def)

lemma expected_single [simp]:
  "expected_of e [c] = (if ce_event c = e then [c] else [])" "other_than e [c] = (if ce_event c = e then [] else [c])"
  by (simp_all add: expected_of_def other_than_def)

lemma expected_idem [simp]: "expected_of e (expected_of e cs) = expected_of e cs"
  by (simp add: expected_of_def)

lemma other_pending: "expected_of e cs = cs \<Longrightarrow> other_than e cs = []"
  by (metis (no_types, lifting) expected_of_def filter_False filter_id_conv other_than_def)

definition generation_inv :: "string \<Rightarrow> string \<Rightarrow> child_command \<Rightarrow> 'p command_envelope list \<Rightarrow> 'p logged_queue \<Rightarrow> bool" where
  "generation_inv l t e sent s \<longleftrightarrow>
     (\<exists>st. fst s l = Some st \<and> cs_token st = t \<and> cs_expected st = e \<and> cs_status st \<noteq> ChildFailed
        \<and> (cs_status st = ChildReady \<longrightarrow> cs_pending st = []) \<and> expected_of e (cs_pending st) = cs_pending st
        \<and> expected_of e (delivered l (snd s)) @ cs_pending st = expected_of e sent
        \<and> other_than e (delivered l (snd s)) = other_than e sent)"

lemma generation_call:
  assumes inv: "generation_inv l t e sent s" and c: "keeps_generation l t e c"
  shows "generation_inv l t e (sent @ dispatched l c) (queueCall c s)"
proof (cases "call_label c = l")
  case False
  then have "dispatched l c = []" by (cases c) auto
  with inv call_other[OF False, of s] show ?thesis by (simp add: generation_inv_def)
next
  case True
  obtain q out st where s: "s = (q, out)" and q: "q l = Some st" and st: "cs_token st = t" "cs_expected st = e"
    "cs_status st \<noteq> ChildFailed" "cs_status st = ChildReady \<longrightarrow> cs_pending st = []" "expected_of e (cs_pending st) = cs_pending st"
    and log: "expected_of e (delivered l out) @ cs_pending st = expected_of e sent" "other_than e (delivered l out) = other_than e sent"
    using inv by (cases s) (auto simp: generation_inv_def)
  show ?thesis
  proof (cases c)
    case (CallDispatch k e' p)
    with True q st log show ?thesis
      by (cases "e' = e"; cases "cs_status st = ChildReady") (auto simp: s generation_inv_def dispatch_def)
  next
    case (CallReady k t' e')
    with True q st log show ?thesis
      by (cases "t' = t \<and> e' = e") (auto simp: s generation_inv_def markReady_def other_pending)
  next
    case (CallLoading k t')
    with True q st log show ?thesis by (cases "t' = t") (auto simp: s generation_inv_def markLoading_def)
  qed (use True c q st log in \<open>auto simp: s generation_inv_def register_def markChildFailed_def\<close>)
qed

lemma generation_run:
  assumes "generation_inv l t e sent s" "\<forall>c \<in> set calls. keeps_generation l t e c"
  shows "generation_inv l t e (sent @ concat (map (dispatched l) calls)) (fold queueCall calls s)"
  using assms
proof (induction calls arbitrary: sent s)
  case (Cons c cs)
  then have "generation_inv l t e (sent @ dispatched l c) (queueCall c s)" by (auto intro: generation_call)
  from Cons.IH[OF this] Cons.prems(2) show ?case by simp
qed simp

lemma generation_start:
  assumes "\<forall>c. q l = Some c \<longrightarrow> \<not> (cs_token c = t \<and> cs_expected c = e)"
  shows "generation_inv l t e [] (register l t e q, [])"
  using assms by (auto simp: generation_inv_def register_def split: option.splits)

text \<open>C31: from the moment a child window is registered with a token and the command it will listen
  for, and as long as that generation is neither failed, cleared nor replaced, the commands sent to
  the window followed by those still queued are exactly the commands dispatched, each once and in
  order; other events pass at once, and a window that reported ready leaves nothing queued. Calls for
  other windows, with stale tokens or with other commands change nothing of this.\<close>

theorem child_commands_once:
  assumes "\<forall>c. q l = Some c \<longrightarrow> \<not> (cs_token c = t \<and> cs_expected c = e)"
    and "\<forall>c \<in> set calls. keeps_generation l t e c"
    and "fold queueCall calls (register l t e q, []) = (q', out)"
    and "sent = concat (map (dispatched l) calls)"
  shows "\<exists>st. q' l = Some st \<and> cs_token st = t
      \<and> expected_of e (delivered l out) @ cs_pending st = expected_of e sent
      \<and> other_than e (delivered l out) = other_than e sent
      \<and> (cs_status st = ChildReady \<longrightarrow> cs_pending st = [])
      \<and> (\<exists>q''. markReady l t e q' = (q'', cs_pending st) \<and> isFailed l (Some t) q'' = False)"
proof -
  have "generation_inv l t e sent (q', out)"
    using generation_run[OF generation_start, of q l t e calls] assms by simp
  then obtain st where "q' l = Some st" "generation_inv l t e sent (q', out)"
    by (auto simp: generation_inv_def)
  then show ?thesis by (auto simp: generation_inv_def markReady_def isFailed_def)
qed

lemma child_commands_once_witness:
  "\<exists>st. fst (fold queueCall [CallDispatch ''settings'' SettingsOpenTab (1 :: nat), CallDispatch ''editor'' RemoteFileEditorOpen 2,
        CallReady ''settings'' ''t1'' SettingsOpenTab, CallReady ''settings'' ''t2'' SettingsOpenTab, CallLoading ''settings'' ''t2'',
        CallDispatch ''settings'' SettingsOpenTab 3] (register ''settings'' ''t2'' SettingsOpenTab Map.empty, [])) ''settings'' = Some st
     \<and> cs_pending st = [\<lparr>ce_event = SettingsOpenTab, ce_payload = 3\<rparr>]"
  using child_commands_once[where q = Map.empty and l = "''settings''" and t = "''t2''" and e = SettingsOpenTab
      and calls = "[CallDispatch ''settings'' SettingsOpenTab (1 :: nat), CallDispatch ''editor'' RemoteFileEditorOpen 2,
        CallReady ''settings'' ''t1'' SettingsOpenTab, CallReady ''settings'' ''t2'' SettingsOpenTab, CallLoading ''settings'' ''t2'',
        CallDispatch ''settings'' SettingsOpenTab 3]", OF _ _ surjective_pairing refl]
  by (auto simp: queue_defs expected_of_def delivered_def)

section \<open>The handshake\<close>

text \<open>
  A waiter holds its label (a variable of its closure), its token, whether it is settled and how,
  and whether its timeout is armed. \<open>cw_shell\<close> gives the number of the registered waiter of a label.
  A listener of a destroyed window remembers what its closure captured.
\<close>

record child_waiter =
  wt_label :: string
  wt_token :: string
  wt_settled :: bool
  wt_failed :: bool
  wt_timer :: bool

record destroyed_listener =
  dl_label :: string
  dl_token :: "string option"
  dl_registration :: string

record 'p child_windows =
  cw_commands :: "'p command_queue"
  cw_tokens :: "string \<Rightarrow> string option"
  cw_shell :: "string \<Rightarrow> nat option"
  cw_waiters :: "child_waiter list"
  cw_closures :: "string \<Rightarrow> string option"
  cw_closing :: "(string \<times> string) list"
  cw_registered :: "string \<Rightarrow> string option"
  cw_listeners :: "destroyed_listener list"
  cw_emitted :: "'p command_envelope list"
  cw_closed :: "string list"

definition child_start :: "'p child_windows" where
  "child_start = \<lparr>cw_commands = Map.empty, cw_tokens = Map.empty, cw_shell = Map.empty, cw_waiters = [],
     cw_closures = Map.empty, cw_closing = [], cw_registered = Map.empty, cw_listeners = [], cw_emitted = [], cw_closed = []\<rparr>"

definition settleWaiter :: "bool \<Rightarrow> nat \<Rightarrow> 'p child_windows \<Rightarrow> 'p child_windows" where
  "settleWaiter didFail i cw =
     (let w = cw_waiters cw ! i in
      if wt_settled w then cw
      else let cw1 = cw\<lparr>cw_waiters := (cw_waiters cw)[i := w\<lparr>wt_settled := True, wt_failed := didFail, wt_timer := False\<rparr>]\<rparr>
           in if (case cw_shell cw (wt_label w) of Some j \<Rightarrow> wt_token (cw_waiters cw ! j) = wt_token w | None \<Rightarrow> False)
              then cw1\<lparr>cw_shell := (cw_shell cw)(wt_label w := None)\<rparr> else cw1)"

text \<open>\<open>waiter?.cancel()\<close>, \<open>waiter?.fail()\<close> on the registered waiter of a label.\<close>

definition settleShell :: "bool \<Rightarrow> string \<Rightarrow> 'p child_windows \<Rightarrow> 'p child_windows" where
  "settleShell didFail label cw = (case cw_shell cw label of None \<Rightarrow> cw | Some i \<Rightarrow> settleWaiter didFail i cw)"

definition createChildWindowLifecycleWaiter :: "string \<Rightarrow> string \<Rightarrow> child_command option \<Rightarrow> 'p child_windows \<Rightarrow> 'p child_windows" where
  "createChildWindowLifecycleWaiter label token expectedCommand cw =
     (let cw1 = settleShell False label cw;
          cw2 = cw1\<lparr>cw_tokens := (cw_tokens cw1)(label \<mapsto> token),
                   cw_commands := (case expectedCommand of None \<Rightarrow> cw_commands cw1 | Some e \<Rightarrow> register label token e (cw_commands cw1))\<rparr>;
          w = \<lparr>wt_label = label, wt_token = token, wt_settled = False, wt_failed = False, wt_timer = True\<rparr>
      in cw2\<lparr>cw_waiters := cw_waiters cw2 @ [w], cw_shell := (cw_shell cw2)(label \<mapsto> length (cw_waiters cw2))\<rparr>)"

definition truthyToken :: "string option \<Rightarrow> bool" where
  "truthyToken t \<longleftrightarrow> t \<noteq> None \<and> t \<noteq> Some []"

definition clearChildWindowLifecycle :: "string \<Rightarrow> string option \<Rightarrow> bool \<Rightarrow> 'p child_windows \<Rightarrow> 'p child_windows" where
  "clearChildWindowLifecycle label token failWaiter cw =
     (if truthyToken token \<and> cw_tokens cw label \<noteq> token then cw
      else settleShell failWaiter label
             (cw\<lparr>cw_tokens := (cw_tokens cw)(label := None), cw_commands := clearCommands label (cw_commands cw)\<rparr>))"

definition emitChildWindowCommands :: "'p command_envelope list \<Rightarrow> 'p child_windows \<Rightarrow> 'p child_windows" where
  "emitChildWindowCommands commands cw = cw\<lparr>cw_emitted := cw_emitted cw @ commands\<rparr>"

definition dispatchChildWindowCommand :: "string \<Rightarrow> child_command \<Rightarrow> 'p \<Rightarrow> 'p child_windows \<Rightarrow> 'p child_windows" where
  "dispatchChildWindowCommand label event payload cw =
     (let (q, commands) = dispatch label event payload (cw_commands cw)
      in emitChildWindowCommands commands (cw\<lparr>cw_commands := q\<rparr>))"

definition closeFailedChildWindow :: "string \<Rightarrow> string \<Rightarrow> 'p child_windows \<Rightarrow> 'p child_windows" where
  "closeFailedChildWindow label token cw =
     cw\<lparr>cw_closures := (cw_closures cw)(label \<mapsto> token), cw_closing := cw_closing cw @ [(label, token)]\<rparr>"

definition finishFailedClose :: "nat \<Rightarrow> 'p child_windows \<Rightarrow> 'p child_windows" where
  "finishFailedClose i cw =
     (let (label, token) = cw_closing cw ! i;
          cw1 = cw\<lparr>cw_closing := splice_out i (cw_closing cw)\<rparr>;
          cw2 = (if cw_closures cw1 label = Some token then cw1\<lparr>cw_closures := (cw_closures cw1)(label := None)\<rparr> else cw1)
      in clearChildWindowLifecycle label (Some token) True cw2)"

datatype child_phase = LoadStarted | ShellReady | CommandReady child_command | LoadFailed

record lifecycle_payload =
  lp_label :: string
  lp_token :: "string option"
  lp_phase :: child_phase

text \<open>Settle the waiter of the label if it is the one of this token.\<close>

definition settleOwn :: "bool \<Rightarrow> string \<Rightarrow> string \<Rightarrow> 'p child_windows \<Rightarrow> 'p child_windows" where
  "settleOwn didFail label token cw =
     (case cw_shell cw label of
        None \<Rightarrow> cw
      | Some i \<Rightarrow> if wt_token (cw_waiters cw ! i) = token then settleWaiter didFail i cw else cw)"

definition handleChildWindowLifecycle :: "lifecycle_payload \<Rightarrow> 'p child_windows \<Rightarrow> 'p child_windows" where
  "handleChildWindowLifecycle payload cw =
     (let label = lp_label payload; q = cw_commands cw in
      case lp_token payload of
        None \<Rightarrow> cw
      | Some token \<Rightarrow>
          if token = [] \<or> cw_tokens cw label \<noteq> Some token then cw
          else case lp_phase payload of
                 LoadStarted \<Rightarrow> cw\<lparr>cw_commands := fst (markLoading label token q)\<rparr>
               | ShellReady \<Rightarrow> settleOwn False label token cw
               | CommandReady command \<Rightarrow>
                   (let (q', commands) = markReady label token command q
                    in emitChildWindowCommands commands (cw\<lparr>cw_commands := q'\<rparr>))
               | LoadFailed \<Rightarrow>
                   closeFailedChildWindow label token
                     (settleOwn True label token (cw\<lparr>cw_commands := fst (markChildFailed label token q)\<rparr>)))"

text \<open>\<open>attachChildWindowDestroyedHandler\<close> before its await, with the token it would generate.\<close>

definition attachChildWindowDestroyedHandler :: "string \<Rightarrow> string \<Rightarrow> 'p child_windows \<Rightarrow> 'p child_windows" where
  "attachChildWindowDestroyedHandler label newToken cw =
     (let lifecycleToken = cw_tokens cw label;
          registrationId = (case lifecycleToken of Some t \<Rightarrow> t | None \<Rightarrow> (case cw_registered cw label of Some r \<Rightarrow> r | None \<Rightarrow> newToken))
      in if cw_registered cw label = Some registrationId then cw
         else cw\<lparr>cw_registered := (cw_registered cw)(label \<mapsto> registrationId),
                 cw_listeners := cw_listeners cw @ [\<lparr>dl_label = label, dl_token = lifecycleToken, dl_registration = registrationId\<rparr>]\<rparr>)"

definition attachFailed :: "nat \<Rightarrow> 'p child_windows \<Rightarrow> 'p child_windows" where
  "attachFailed i cw =
     (let l = cw_listeners cw ! i; cw1 = cw\<lparr>cw_listeners := splice_out i (cw_listeners cw)\<rparr> in
      if cw_registered cw1 (dl_label l) = Some (dl_registration l)
      then cw1\<lparr>cw_registered := (cw_registered cw1)(dl_label l := None)\<rparr> else cw1)"

definition windowDestroyed :: "destroyed_listener \<Rightarrow> 'p child_windows \<Rightarrow> 'p child_windows" where
  "windowDestroyed l cw =
     (let label = dl_label l; currentToken = cw_tokens cw label in
      if cw_registered cw label \<noteq> Some (dl_registration l) then cw
      else if truthyToken currentToken \<and> currentToken \<noteq> dl_token l then cw
      else let cw1 = clearChildWindowLifecycle label (dl_token l) True (cw\<lparr>cw_registered := (cw_registered cw)(label := None)\<rparr>)
           in cw1\<lparr>cw_closed := cw_closed cw1 @ [label]\<rparr>)"

text \<open>\<open>once\<close>: the listener is gone after the event.\<close>

definition destroyedOnce :: "nat \<Rightarrow> 'p child_windows \<Rightarrow> 'p child_windows" where
  "destroyedOnce i cw = windowDestroyed (cw_listeners cw ! i) (cw\<lparr>cw_listeners := splice_out i (cw_listeners cw)\<rparr>)"

text \<open>The \<open>catch\<close> of \<open>openChildWindowInternal\<close>, for the waiter it created.\<close>

definition openFailed :: "nat \<Rightarrow> 'p child_windows \<Rightarrow> 'p child_windows" where
  "openFailed i cw =
     (let w = cw_waiters cw ! i in
      clearChildWindowLifecycle (wt_label w) (Some (wt_token w)) False (settleWaiter False i cw))"

definition waiterTimeout :: "nat \<Rightarrow> 'p child_windows \<Rightarrow> 'p child_windows" where
  "waiterTimeout i cw = settleWaiter True i cw"

definition existingFailed :: "string \<Rightarrow> 'p child_windows \<Rightarrow> bool" where
  "existingFailed label cw =
     (case cw_tokens cw label of
        None \<Rightarrow> False
      | Some existingToken \<Rightarrow> isFailed label (Some existingToken) (cw_commands cw) \<or> cw_closures cw label = Some existingToken)"

section \<open>Runs\<close>

text \<open>Everything that can happen to the handshake; the numbers pick a waiter, a listener or a running close.\<close>

datatype 'p child_event =
    OpenWindow string string "child_command option"
  | LifecycleEvent lifecycle_payload
  | DispatchCommand string child_command 'p
  | WaiterTimeout nat
  | OpenThrows nat
  | AttachHandler string string
  | AttachThrows nat
  | WindowDestroyed nat
  | CloseFailedWindow string string
  | CloseFinished nat

fun childStep :: "'p child_event \<Rightarrow> 'p child_windows \<Rightarrow> 'p child_windows" where
  "childStep (OpenWindow l t e) cw = createChildWindowLifecycleWaiter l t e cw"
| "childStep (LifecycleEvent p) cw = handleChildWindowLifecycle p cw"
| "childStep (DispatchCommand l e p) cw = dispatchChildWindowCommand l e p cw"
| "childStep (WaiterTimeout i) cw = waiterTimeout i cw"
| "childStep (OpenThrows i) cw = openFailed i cw"
| "childStep (AttachHandler l t) cw = attachChildWindowDestroyedHandler l t cw"
| "childStep (AttachThrows i) cw = attachFailed i cw"
| "childStep (WindowDestroyed i) cw = destroyedOnce i cw"
| "childStep (CloseFailedWindow l t) cw = closeFailedChildWindow l t cw"
| "childStep (CloseFinished i) cw = finishFailedClose i cw"

text \<open>A generated token is never empty.\<close>

fun can_happen :: "'p child_event \<Rightarrow> 'p child_windows \<Rightarrow> bool" where
  "can_happen (OpenWindow l t e) cw \<longleftrightarrow> t \<noteq> []"
| "can_happen (CloseFailedWindow l t) cw \<longleftrightarrow> t \<noteq> []"
| "can_happen (WaiterTimeout i) cw \<longleftrightarrow> i < length (cw_waiters cw) \<and> wt_timer (cw_waiters cw ! i)"
| "can_happen (OpenThrows i) cw \<longleftrightarrow> i < length (cw_waiters cw)"
| "can_happen (AttachThrows i) cw \<longleftrightarrow> i < length (cw_listeners cw)"
| "can_happen (WindowDestroyed i) cw \<longleftrightarrow> i < length (cw_listeners cw)"
| "can_happen (CloseFinished i) cw \<longleftrightarrow> i < length (cw_closing cw)"
| "can_happen _ cw \<longleftrightarrow> True"

inductive cwin_step :: "'p child_windows \<Rightarrow> 'p child_windows \<Rightarrow> bool" where
  cwin_stepI: "can_happen ev cw \<Longrightarrow> cwin_step cw (childStep ev cw)"

inductive_cases cwin_stepE: "cwin_step cw cw'"

section \<open>Waiters\<close>

text \<open>
  Outside \<open>L\<close>, an open waiter belongs to the current token of its label. A waiter is open exactly
  when it is registered and exactly when its timeout is armed.
\<close>

definition wait_inv :: "string set \<Rightarrow> 'p child_windows \<Rightarrow> bool" where
  "wait_inv L cw \<longleftrightarrow>
     (\<forall>i < length (cw_waiters cw). let w = cw_waiters cw ! i in
        (wt_timer w \<longleftrightarrow> \<not> wt_settled w)
      \<and> (\<not> wt_settled w \<longrightarrow> cw_shell cw (wt_label w) = Some i \<and> (wt_label w \<notin> L \<longrightarrow> cw_tokens cw (wt_label w) = Some (wt_token w))))
   \<and> (\<forall>l i. cw_shell cw l = Some i \<longrightarrow> i < length (cw_waiters cw) \<and> wt_label (cw_waiters cw ! i) = l \<and> \<not> wt_settled (cw_waiters cw ! i))"

lemma wait_waiter:
  assumes "wait_inv L cw" "i < length (cw_waiters cw)"
  shows "wt_timer (cw_waiters cw ! i) \<longleftrightarrow> \<not> wt_settled (cw_waiters cw ! i)"
    and "\<not> wt_settled (cw_waiters cw ! i) \<Longrightarrow> cw_shell cw (wt_label (cw_waiters cw ! i)) = Some i"
    and "\<not> wt_settled (cw_waiters cw ! i) \<Longrightarrow> wt_label (cw_waiters cw ! i) \<notin> L
      \<Longrightarrow> cw_tokens cw (wt_label (cw_waiters cw ! i)) = Some (wt_token (cw_waiters cw ! i))"
  using assms by (auto simp: wait_inv_def Let_def)

lemma wait_shell:
  assumes "wait_inv L cw" "cw_shell cw l = Some i"
  shows "i < length (cw_waiters cw)" "wt_label (cw_waiters cw ! i) = l" "\<not> wt_settled (cw_waiters cw ! i)"
  using assms by (auto simp: wait_inv_def)

lemma wait_cong:
  assumes "cw_waiters cw' = cw_waiters cw" "cw_shell cw' = cw_shell cw"
    "\<And>l. l \<notin> L \<Longrightarrow> cw_tokens cw' l = cw_tokens cw l"
  shows "wait_inv L cw \<Longrightarrow> wait_inv L cw'"
  using assms by (simp add: wait_inv_def Let_def)

lemma wait_mono: "wait_inv K cw \<Longrightarrow> K \<subseteq> L \<Longrightarrow> wait_inv L cw"
  by (auto simp: wait_inv_def Let_def)

text \<open>Settling an open waiter closes it and unregisters it; nothing else changes.\<close>

definition closeWaiter :: "bool \<Rightarrow> nat \<Rightarrow> 'p child_windows \<Rightarrow> 'p child_windows" where
  "closeWaiter b i cw = cw\<lparr>cw_waiters := (cw_waiters cw)[i := (cw_waiters cw ! i)\<lparr>wt_settled := True, wt_failed := b, wt_timer := False\<rparr>],
      cw_shell := (cw_shell cw)(wt_label (cw_waiters cw ! i) := None)\<rparr>"

lemma settle_open:
  assumes inv: "wait_inv L cw" and i: "i < length (cw_waiters cw)" "\<not> wt_settled (cw_waiters cw ! i)"
  shows "settleWaiter b i cw = closeWaiter b i cw"
  using wait_waiter(2)[OF inv i] i by (simp add: settleWaiter_def closeWaiter_def Let_def)

lemma closeWaiter_inv:
  assumes inv: "wait_inv L cw" and i: "i < length (cw_waiters cw)" "\<not> wt_settled (cw_waiters cw ! i)"
  shows "wait_inv (L - {wt_label (cw_waiters cw ! i)}) (closeWaiter b i cw)"
proof -
  have unique: "wt_label (cw_waiters cw ! j) \<noteq> wt_label (cw_waiters cw ! i)"
    if "j < length (cw_waiters cw)" "j \<noteq> i" "\<not> wt_settled (cw_waiters cw ! j)" for j
    using wait_waiter(2)[OF inv i] wait_waiter(2)[OF inv that(1,3)] that(2) by auto
  have other: "l \<noteq> wt_label (cw_waiters cw ! i) \<Longrightarrow> cw_shell cw l = Some j \<Longrightarrow> j \<noteq> i" for l j
    using wait_shell(2)[OF inv] by auto
  show ?thesis
    unfolding wait_inv_def Let_def closeWaiter_def
    by (intro conjI allI impI)
      (auto simp: i nth_list_update wait_waiter[OF inv] unique dest: wait_shell[OF inv] other split: if_splits)
qed

lemma settle_closed: "wt_settled (cw_waiters cw ! i) \<Longrightarrow> settleWaiter b i cw = cw"
  by (simp add: settleWaiter_def Let_def)

lemma settleWaiter_inv:
  assumes inv: "wait_inv L cw" and i: "i < length (cw_waiters cw)"
  shows "wait_inv L (settleWaiter b i cw)"
proof (cases "wt_settled (cw_waiters cw ! i)")
  case False
  show ?thesis unfolding settle_open[OF inv i False]
    by (rule wait_mono[OF closeWaiter_inv[OF inv i False]]) auto
qed (simp add: settle_closed inv)

lemma settle_fields [simp]:
  "cw_tokens (settleWaiter b i cw) = cw_tokens cw" "cw_commands (settleWaiter b i cw) = cw_commands cw"
  "length (cw_waiters (settleWaiter b i cw)) = length (cw_waiters cw)" "cw_listeners (settleWaiter b i cw) = cw_listeners cw"
  "cw_closing (settleWaiter b i cw) = cw_closing cw"
  by (auto simp: settleWaiter_def Let_def split: option.split)

lemma settleShell_fields [simp]:
  "cw_tokens (settleShell b l cw) = cw_tokens cw" "cw_commands (settleShell b l cw) = cw_commands cw"
  "length (cw_waiters (settleShell b l cw)) = length (cw_waiters cw)"
  by (auto simp: settleShell_def split: option.split)

lemma settleShell_inv:
  assumes "wait_inv L cw"
  shows "wait_inv (L - {l}) (settleShell b l cw)" "cw_shell (settleShell b l cw) l = None"
proof -
  have "wait_inv (L - {l}) (settleShell b l cw) \<and> cw_shell (settleShell b l cw) l = None"
  proof (cases "cw_shell cw l")
    case None
    then have "\<forall>i < length (cw_waiters cw). \<not> wt_settled (cw_waiters cw ! i) \<longrightarrow> wt_label (cw_waiters cw ! i) \<noteq> l"
      using wait_waiter(2)[OF assms] by force
    with assms None show ?thesis by (auto simp: settleShell_def wait_inv_def Let_def)
  next
    case (Some i)
    note w = wait_shell[OF assms Some]
    have e: "settleShell b l cw = closeWaiter b i cw"
      using settle_open[OF assms w(1,3)] by (simp add: settleShell_def Some)
    show ?thesis using closeWaiter_inv[OF assms w(1,3), of b] w(2) by (simp add: e closeWaiter_def)
  qed
  then show "wait_inv (L - {l}) (settleShell b l cw)" "cw_shell (settleShell b l cw) l = None" by auto
qed

lemma clear_inv:
  assumes "wait_inv {} cw"
  shows "wait_inv {} (clearChildWindowLifecycle l t b cw)"
proof -
  have "wait_inv {l} (cw\<lparr>cw_tokens := (cw_tokens cw)(l := None), cw_commands := clearCommands l (cw_commands cw)\<rparr>)"
    by (rule wait_cong[OF _ _ _ wait_mono[OF assms]]) auto
  from settleShell_inv(1)[OF this, where l = l and b = b] assms show ?thesis by (simp add: clearChildWindowLifecycle_def)
qed

lemma create_inv:
  assumes "wait_inv {} cw"
  shows "wait_inv {} (createChildWindowLifecycleWaiter l t e cw)"
proof -
  note s = settleShell_inv[OF assms, where l = l and b = False]
  have "i < length (cw_waiters cw) \<Longrightarrow> \<not> wt_settled (cw_waiters (settleShell False l cw) ! i)
      \<Longrightarrow> wt_label (cw_waiters (settleShell False l cw) ! i) \<noteq> l" for i
    using wait_waiter(2)[OF s(1), of i] s(2) by auto
  with s show ?thesis
    by (auto simp: createChildWindowLifecycleWaiter_def Let_def wait_inv_def nth_append less_Suc_eq)
qed

lemma settleOwn_inv: "wait_inv L cw \<Longrightarrow> wait_inv L (settleOwn b l t cw)"
  by (auto simp: settleOwn_def intro: settleWaiter_inv dest: wait_shell split: option.split)

lemma wait_update [simp]:
  "wait_inv L (cw\<lparr>cw_commands := q\<rparr>) \<longleftrightarrow> wait_inv L cw" "wait_inv L (cw\<lparr>cw_closures := c\<rparr>) \<longleftrightarrow> wait_inv L cw"
  "wait_inv L (cw\<lparr>cw_closing := cl\<rparr>) \<longleftrightarrow> wait_inv L cw" "wait_inv L (cw\<lparr>cw_registered := r\<rparr>) \<longleftrightarrow> wait_inv L cw"
  "wait_inv L (cw\<lparr>cw_listeners := ls\<rparr>) \<longleftrightarrow> wait_inv L cw" "wait_inv L (cw\<lparr>cw_emitted := em\<rparr>) \<longleftrightarrow> wait_inv L cw"
  "wait_inv L (cw\<lparr>cw_closed := cd\<rparr>) \<longleftrightarrow> wait_inv L cw"
  by (simp_all add: wait_inv_def Let_def)

lemma cwin_step_inv:
  assumes "wait_inv {} cw" "can_happen ev cw"
  shows "wait_inv {} (childStep ev cw)"
  using assms
  by (cases ev)
    (auto simp: create_inv clear_inv settleWaiter_inv settleOwn_inv handleChildWindowLifecycle_def dispatchChildWindowCommand_def
      emitChildWindowCommands_def waiterTimeout_def openFailed_def attachChildWindowDestroyedHandler_def attachFailed_def
      destroyedOnce_def windowDestroyed_def closeFailedChildWindow_def finishFailedClose_def Let_def split: option.split child_phase.split prod.split)

text \<open>No token in use is empty.\<close>

definition named_tokens :: "'p child_windows \<Rightarrow> bool" where
  "named_tokens cw \<longleftrightarrow> (\<forall>w \<in> set (cw_waiters cw). wt_token w \<noteq> []) \<and> (\<forall>c \<in> set (cw_closing cw). snd c \<noteq> [])"

lemma settle_named: "i < length (cw_waiters cw) \<Longrightarrow> named_tokens cw \<Longrightarrow> named_tokens (settleWaiter b i cw)"
  by (auto simp: named_tokens_def settleWaiter_def Let_def set_conv_nth nth_list_update split: option.split)

lemma settleShell_named: "wait_inv L cw \<Longrightarrow> named_tokens cw \<Longrightarrow> named_tokens (settleShell b l cw)"
  by (auto simp: settleShell_def intro: settle_named dest: wait_shell split: option.split)

lemma settleOwn_named: "wait_inv L cw \<Longrightarrow> named_tokens cw \<Longrightarrow> named_tokens (settleOwn b l t cw)"
  by (auto simp: settleOwn_def intro: settle_named dest: wait_shell split: option.split)

lemma named_update [simp]:
  "named_tokens (cw\<lparr>cw_commands := q\<rparr>) \<longleftrightarrow> named_tokens cw" "named_tokens (cw\<lparr>cw_closures := c\<rparr>) \<longleftrightarrow> named_tokens cw"
  "named_tokens (cw\<lparr>cw_tokens := tk\<rparr>) \<longleftrightarrow> named_tokens cw" "named_tokens (cw\<lparr>cw_registered := r\<rparr>) \<longleftrightarrow> named_tokens cw"
  "named_tokens (cw\<lparr>cw_listeners := ls\<rparr>) \<longleftrightarrow> named_tokens cw" "named_tokens (cw\<lparr>cw_emitted := em\<rparr>) \<longleftrightarrow> named_tokens cw"
  "named_tokens (cw\<lparr>cw_closed := cd\<rparr>) \<longleftrightarrow> named_tokens cw" "named_tokens (cw\<lparr>cw_shell := sh\<rparr>) \<longleftrightarrow> named_tokens cw"
  by (simp_all add: named_tokens_def)

lemma clear_named:
  assumes "wait_inv {} cw" "named_tokens cw"
  shows "named_tokens (clearChildWindowLifecycle l t b cw)"
proof -
  have "wait_inv {l} (cw\<lparr>cw_tokens := (cw_tokens cw)(l := None), cw_commands := clearCommands l (cw_commands cw)\<rparr>)"
    by (rule wait_cong[OF _ _ _ wait_mono[OF assms(1)]]) auto
  from settleShell_named[OF this, of b l] assms(2) show ?thesis by (simp add: clearChildWindowLifecycle_def)
qed

lemma splice_out_subset: "set (splice_out i xs) \<subseteq> set xs"
  by (auto simp: splice_out_def dest: in_set_takeD in_set_dropD)

lemma closing_named:
  "named_tokens cw \<Longrightarrow> named_tokens (cw\<lparr>cw_closing := splice_out i (cw_closing cw)\<rparr>)"
  "named_tokens cw \<Longrightarrow> t \<noteq> [] \<Longrightarrow> named_tokens (closeFailedChildWindow l t cw)"
  using splice_out_subset[of i "cw_closing cw"] by (auto simp: named_tokens_def closeFailedChildWindow_def)

lemma create_named:
  assumes "wait_inv {} cw" "named_tokens cw" "t \<noteq> []"
  shows "named_tokens (createChildWindowLifecycleWaiter l t e cw)"
  using settleShell_named[OF assms(1,2), of False l] assms(3)
  by (auto simp: createChildWindowLifecycleWaiter_def Let_def named_tokens_def)

lemma cwin_step_named:
  assumes "wait_inv {} cw" "can_happen ev cw" "named_tokens cw"
  shows "named_tokens (childStep ev cw)"
  using assms
  by (cases ev)
    (auto simp: create_named clear_named settle_named settleWaiter_inv settleOwn_named closing_named handleChildWindowLifecycle_def
      dispatchChildWindowCommand_def emitChildWindowCommands_def waiterTimeout_def openFailed_def attachChildWindowDestroyedHandler_def
      attachFailed_def destroyedOnce_def windowDestroyed_def finishFailedClose_def Let_def
      split: option.split child_phase.split prod.split)

definition child_inv :: "'p child_windows \<Rightarrow> bool" where
  "child_inv cw \<longleftrightarrow> wait_inv {} cw \<and> named_tokens cw"

interpretation dchild: invariant_system "\<lambda>cw. cw = child_start" cwin_step child_inv
proof unfold_locales
  show "child_inv cw" if "cw = child_start" for cw :: "'a child_windows"
    using that by (simp add: child_inv_def wait_inv_def named_tokens_def child_start_def)
  show "child_inv cw'" if "child_inv cw" "cwin_step cw cw'" for cw cw' :: "'a child_windows"
    using that(2,1) by cases (simp add: child_inv_def cwin_step_inv cwin_step_named)
qed

text \<open>A settled waiter never changes again.\<close>

lemma settle_stays:
  "wt_settled (cw_waiters cw ! i) \<Longrightarrow> i < length (cw_waiters cw) \<Longrightarrow> cw_waiters (settleWaiter b j cw) ! i = cw_waiters cw ! i"
  by (cases "j = i") (auto simp: settleWaiter_def Let_def split: option.split)

lemma settled_waiter_stays:
  assumes "wt_settled (cw_waiters cw ! i)" "i < length (cw_waiters cw)"
  shows "cw_waiters (settleWaiter b j cw) ! i = cw_waiters cw ! i"
    and "cw_waiters (settleShell b l cw) ! i = cw_waiters cw ! i"
    and "cw_waiters (settleOwn b l t cw) ! i = cw_waiters cw ! i"
    and "cw_waiters (clearChildWindowLifecycle l t' b cw) ! i = cw_waiters cw ! i"
  using assms
  by (auto simp: settleShell_def settleOwn_def clearChildWindowLifecycle_def settle_stays split: option.split)

lemma settled_step:
  assumes "wt_settled (cw_waiters cw ! i)" "i < length (cw_waiters cw)"
  shows "cw_waiters (childStep ev cw) ! i = cw_waiters cw ! i"
  using assms
  by (cases ev)
    (auto simp: settled_waiter_stays createChildWindowLifecycleWaiter_def nth_append handleChildWindowLifecycle_def
      dispatchChildWindowCommand_def emitChildWindowCommands_def waiterTimeout_def openFailed_def attachChildWindowDestroyedHandler_def
      attachFailed_def destroyedOnce_def windowDestroyed_def closeFailedChildWindow_def finishFailedClose_def Let_def
      split: option.split child_phase.split prod.split)

lemma settle_outcome:
  assumes "wait_inv L cw" "i < length (cw_waiters cw)" "\<not> wt_settled (cw_waiters cw ! i)"
  shows "wt_settled (cw_waiters (settleWaiter b i cw) ! i)" "wt_failed (cw_waiters (settleWaiter b i cw) ! i) = b"
  using assms by (simp_all add: settle_open[OF assms] closeWaiter_def)

text \<open>C32: opening a child window is always answered: in every reachable state a waiter that is still
  open is the one registered for its label, belongs to the current token and has its timeout armed;
  the timeout and a load failure answer it with a failure, the page's report with success, and an
  answer is final. So no two opens of a label wait at once and none waits for ever.\<close>

theorem child_opens_answered:
  assumes "cwin_step\<^sup>*\<^sup>* child_start cw" and "i < length (cw_waiters cw)"
    and "w = cw_waiters cw ! i" and "report = (\<lambda>ph. \<lparr>lp_label = wt_label w, lp_token = Some (wt_token w), lp_phase = ph\<rparr>)"
  shows "(\<not> wt_settled w \<longrightarrow>
            can_happen (WaiterTimeout i) cw \<and> cw_shell cw (wt_label w) = Some i \<and> cw_tokens cw (wt_label w) = Some (wt_token w)
          \<and> wt_settled (cw_waiters (childStep (WaiterTimeout i) cw) ! i) \<and> wt_failed (cw_waiters (childStep (WaiterTimeout i) cw) ! i)
          \<and> (wt_token w \<noteq> [] \<longrightarrow>
               wt_settled (cw_waiters (childStep (LifecycleEvent (report ShellReady)) cw) ! i)
             \<and> \<not> wt_failed (cw_waiters (childStep (LifecycleEvent (report ShellReady)) cw) ! i)
             \<and> wt_settled (cw_waiters (childStep (LifecycleEvent (report LoadFailed)) cw) ! i)
             \<and> wt_failed (cw_waiters (childStep (LifecycleEvent (report LoadFailed)) cw) ! i)))
       \<and> (wt_settled w \<longrightarrow> (\<forall>ev. cw_waiters (childStep ev cw) ! i = w))
       \<and> (\<forall>j < length (cw_waiters cw). \<not> wt_settled (cw_waiters cw ! j) \<and> wt_label (cw_waiters cw ! j) = wt_label w
            \<and> \<not> wt_settled w \<longrightarrow> j = i)"
proof -
  have inv: "wait_inv {} cw" using dchild.reachable_inv[OF refl assms(1)] by (simp add: child_inv_def)
  have opened: "cw_shell cw (wt_label w) = Some i" "cw_tokens cw (wt_label w) = Some (wt_token w)" "wt_timer w" if "\<not> wt_settled w"
    using wait_waiter[OF inv assms(2)] that by (simp_all add: assms(3))
  have lf: "wait_inv {} (cw\<lparr>cw_commands := q\<rparr>)" for q using inv by simp
  note outcome = settle_outcome[OF inv assms(2)] settle_outcome[OF lf, of i]
  have report: "handleChildWindowLifecycle (report ShellReady) cw = settleWaiter False i cw"
    "handleChildWindowLifecycle (report LoadFailed) cw
      = closeFailedChildWindow (wt_label w) (wt_token w) (settleWaiter True i (cw\<lparr>cw_commands := fst (markChildFailed (wt_label w) (wt_token w) (cw_commands cw))\<rparr>))"
    if "\<not> wt_settled w" "wt_token w \<noteq> []"
    using opened(1,2)[OF that(1)] that(2)
    by (simp_all add: assms(3,4) handleChildWindowLifecycle_def settleOwn_def Let_def)
  have only: "\<forall>j < length (cw_waiters cw). \<not> wt_settled (cw_waiters cw ! j) \<and> wt_label (cw_waiters cw ! j) = wt_label w
      \<and> \<not> wt_settled w \<longrightarrow> j = i"
    using wait_waiter(2)[OF inv] opened(1) by force
  have final: "wt_settled w \<longrightarrow> (\<forall>ev. cw_waiters (childStep ev cw) ! i = w)"
    using settled_step[of cw i] assms(2,3) by simp
  show ?thesis
    using opened outcome assms(2,3)
    by (intro conjI only final) (auto simp: report waiterTimeout_def closeFailedChildWindow_def)
qed

definition demo_windows :: "nat child_windows" where
  "demo_windows = childStep (OpenWindow ''settings'' ''t1'' (Some SettingsOpenTab)) child_start"

lemma demo_reachable: "cwin_step\<^sup>*\<^sup>* child_start demo_windows"
  using cwin_stepI[of "OpenWindow ''settings'' ''t1'' (Some SettingsOpenTab)" child_start] by (auto simp: demo_windows_def)

lemma demo_waiter:
  "cw_waiters demo_windows = [\<lparr>wt_label = ''settings'', wt_token = ''t1'', wt_settled = False, wt_failed = False, wt_timer = True\<rparr>]"
  by (simp add: demo_windows_def createChildWindowLifecycleWaiter_def settleShell_def child_start_def)

lemma child_opens_answered_witness:
  "\<not> wt_settled (cw_waiters demo_windows ! 0) \<and> wt_failed (cw_waiters (childStep (WaiterTimeout 0) demo_windows) ! 0)"
  using child_opens_answered[OF demo_reachable, of 0, OF _ refl refl] by (simp add: demo_waiter)

section \<open>Generations\<close>

text \<open>
  The events that belong to the generation \<open>t\<close> of a label: reports and listeners that carry its
  token, its own timeout, failure and close, and a new open of the label.
\<close>

fun own_event :: "string \<Rightarrow> string \<Rightarrow> 'p child_windows \<Rightarrow> 'p child_event \<Rightarrow> bool" where
  "own_event l t cw (OpenWindow k t' e) \<longleftrightarrow> k = l"
| "own_event l t cw (LifecycleEvent p) \<longleftrightarrow> lp_label p = l \<and> lp_token p = Some t"
| "own_event l t cw (WaiterTimeout i) \<longleftrightarrow> wt_label (cw_waiters cw ! i) = l \<and> wt_token (cw_waiters cw ! i) = t"
| "own_event l t cw (OpenThrows i) \<longleftrightarrow> wt_label (cw_waiters cw ! i) = l \<and> wt_token (cw_waiters cw ! i) = t"
| "own_event l t cw (WindowDestroyed i) \<longleftrightarrow> dl_label (cw_listeners cw ! i) = l \<and> dl_token (cw_listeners cw ! i) = Some t"
| "own_event l t cw (CloseFinished i) \<longleftrightarrow> cw_closing cw ! i = (l, t)"
| "own_event l t cw _ \<longleftrightarrow> False"

inductive foreign_step :: "string \<Rightarrow> string \<Rightarrow> 'p child_windows \<Rightarrow> 'p child_windows \<Rightarrow> bool" for l t where
  "can_happen ev cw \<Longrightarrow> \<not> own_event l t cw ev \<Longrightarrow> foreign_step l t cw (childStep ev cw)"

text \<open>The generation is alive: its token is current, its waiter open, its commands queued.\<close>

definition alive :: "string \<Rightarrow> string \<Rightarrow> child_command option \<Rightarrow> 'p child_windows \<Rightarrow> bool" where
  "alive l t e cw \<longleftrightarrow>
     wait_inv {} cw \<and> cw_tokens cw l = Some t
   \<and> (\<exists>i. cw_shell cw l = Some i \<and> wt_token (cw_waiters cw ! i) = t)
   \<and> (\<forall>c. e = Some c \<longrightarrow> (\<exists>st. cw_commands cw l = Some st \<and> cs_token st = t \<and> cs_expected st = c \<and> cs_status st = ChildLoading))"

lemma settle_elsewhere:
  assumes "wait_inv L cw" "i < length (cw_waiters cw)" "wt_label (cw_waiters cw ! i) \<noteq> l"
  shows "cw_shell (settleWaiter b i cw) l = cw_shell cw l"
    and "cw_shell cw l = Some j \<Longrightarrow> cw_waiters (settleWaiter b i cw) ! j = cw_waiters cw ! j"
  using assms wait_shell[OF assms(1), of l]
  by (cases "wt_settled (cw_waiters cw ! i)"; auto simp: settle_closed settle_open[OF assms(1,2)] closeWaiter_def nth_list_update)+

definition waits_for_child :: "string \<Rightarrow> string \<Rightarrow> 'p child_windows \<Rightarrow> bool" where
  "waits_for_child l t cw \<longleftrightarrow> (\<exists>i. cw_shell cw l = Some i \<and> wt_token (cw_waiters cw ! i) = t)"

lemma waiting_update [simp]:
  "waits_for_child l t (cw\<lparr>cw_commands := q\<rparr>) = waits_for_child l t cw" "waits_for_child l t (cw\<lparr>cw_closures := c\<rparr>) = waits_for_child l t cw"
  "waits_for_child l t (cw\<lparr>cw_closing := cl\<rparr>) = waits_for_child l t cw" "waits_for_child l t (cw\<lparr>cw_registered := r\<rparr>) = waits_for_child l t cw"
  "waits_for_child l t (cw\<lparr>cw_listeners := ls\<rparr>) = waits_for_child l t cw" "waits_for_child l t (cw\<lparr>cw_emitted := em\<rparr>) = waits_for_child l t cw"
  "waits_for_child l t (cw\<lparr>cw_closed := cd\<rparr>) = waits_for_child l t cw" "waits_for_child l t (cw\<lparr>cw_tokens := tk\<rparr>) = waits_for_child l t cw"
  by (simp_all add: waits_for_child_def)

lemma waiting_elsewhere:
  assumes "wait_inv L cw" "waits_for_child l t cw"
  shows "i < length (cw_waiters cw) \<Longrightarrow> wt_label (cw_waiters cw ! i) \<noteq> l \<Longrightarrow> waits_for_child l t (settleWaiter b i cw)"
    and "k \<noteq> l \<Longrightarrow> waits_for_child l t (settleShell b k cw)"
    and "k \<noteq> l \<Longrightarrow> waits_for_child l t (settleOwn b k t' cw)"
proof -
  show "waits_for_child l t (settleWaiter b i cw)" if "i < length (cw_waiters cw)" "wt_label (cw_waiters cw ! i) \<noteq> l" for i
    using settle_elsewhere[OF assms(1) that, where b = b] assms(2) by (auto simp: waits_for_child_def)
  then show "k \<noteq> l \<Longrightarrow> waits_for_child l t (settleShell b k cw)" "k \<noteq> l \<Longrightarrow> waits_for_child l t (settleOwn b k t' cw)"
    using assms(2) by (auto simp: settleShell_def settleOwn_def dest: wait_shell[OF assms(1)] split: option.split)
qed

text \<open>A clear that names another window or another generation keeps what waits for this one.\<close>

definition queued_for :: "string \<Rightarrow> string \<Rightarrow> child_command \<Rightarrow> 'p command_queue \<Rightarrow> bool" where
  "queued_for l t c q \<longleftrightarrow> (\<exists>st. q l = Some st \<and> cs_token st = t \<and> cs_expected st = c \<and> cs_status st = ChildLoading)"

lemma alive_iff:
  "alive l t e cw \<longleftrightarrow> wait_inv {} cw \<and> cw_tokens cw l = Some t \<and> waits_for_child l t cw \<and> (\<forall>c. e = Some c \<longrightarrow> queued_for l t c (cw_commands cw))"
  by (simp add: alive_def waits_for_child_def queued_for_def)

lemma queued_elsewhere:
  assumes "queued_for l t c q"
  shows "k \<noteq> l \<Longrightarrow> queued_for l t c (register k t' c' q)" "k \<noteq> l \<Longrightarrow> queued_for l t c (clearCommands k q)"
    "k \<noteq> l \<Longrightarrow> queued_for l t c (fst (markReady k t' c' q))" "k \<noteq> l \<Longrightarrow> queued_for l t c (fst (markLoading k t' q))"
    "k \<noteq> l \<Longrightarrow> queued_for l t c (fst (markChildFailed k t' q))" "queued_for l t c (fst (dispatch k c' p q))"
  using assms by (auto simp: queued_for_def queue_defs split: option.split)

lemma alive_clear:
  assumes "alive l t e cw" "k = l \<longrightarrow> t' \<noteq> Some t \<and> truthyToken t'"
  shows "alive l t e (clearChildWindowLifecycle k t' b cw)"
proof (cases "truthyToken t' \<and> cw_tokens cw k \<noteq> t'")
  case False
  with assms have k: "k \<noteq> l" by (auto simp: alive_iff)
  let ?cw = "cw\<lparr>cw_tokens := (cw_tokens cw)(k := None), cw_commands := clearCommands k (cw_commands cw)\<rparr>"
  have "wait_inv {k} ?cw" by (rule wait_cong[OF _ _ _ wait_mono[of "{}"]]) (use assms in \<open>auto simp: alive_iff\<close>)
  moreover have "waits_for_child l t ?cw" using assms by (simp add: alive_iff)
  ultimately show ?thesis
    using assms k clear_inv[where cw = cw and l = k and t = t' and b = b]
    by (auto simp: alive_iff clearChildWindowLifecycle_def queued_elsewhere intro: waiting_elsewhere(2))
qed (use assms in \<open>simp add: clearChildWindowLifecycle_def\<close>)

lemma alive_create:
  assumes "alive l t e cw" "k \<noteq> l"
  shows "alive l t e (createChildWindowLifecycleWaiter k t' e' cw)"
proof -
  have inv: "wait_inv {} cw" and w: "waits_for_child l t cw" using assms by (simp_all add: alive_iff)
  let ?s = "settleShell False k cw"
  obtain i where i: "cw_shell ?s l = Some i" "wt_token (cw_waiters ?s ! i) = t"
    using waiting_elsewhere(2)[OF inv w assms(2)] by (auto simp: waits_for_child_def)
  have "i < length (cw_waiters ?s)" using wait_shell(1)[OF settleShell_inv(1)[OF inv] i(1)] .
  with i assms(2) have "waits_for_child l t (createChildWindowLifecycleWaiter k t' e' cw)"
    by (auto simp: createChildWindowLifecycleWaiter_def Let_def waits_for_child_def nth_append)
  moreover have "cw_tokens (createChildWindowLifecycleWaiter k t' e' cw) l = cw_tokens cw l"
    using assms(2) by (simp add: createChildWindowLifecycleWaiter_def Let_def)
  moreover have "queued_for l t c (cw_commands (createChildWindowLifecycleWaiter k t' e' cw))" if "queued_for l t c (cw_commands cw)" for c
    using queued_elsewhere(1)[OF that assms(2)] that
    by (simp add: createChildWindowLifecycleWaiter_def Let_def split: option.split)
  ultimately show ?thesis using assms create_inv[OF inv] by (simp add: alive_iff)
qed

lemma settleOwn_fields [simp]:
  "cw_tokens (settleOwn b l t cw) = cw_tokens cw" "cw_commands (settleOwn b l t cw) = cw_commands cw"
  by (simp_all add: settleOwn_def split: option.split)

lemma alive_update [simp]:
  "alive l t e (cw\<lparr>cw_closures := c\<rparr>) = alive l t e cw" "alive l t e (cw\<lparr>cw_closing := cl\<rparr>) = alive l t e cw"
  "alive l t e (cw\<lparr>cw_registered := r\<rparr>) = alive l t e cw" "alive l t e (cw\<lparr>cw_listeners := ls\<rparr>) = alive l t e cw"
  "alive l t e (cw\<lparr>cw_emitted := em\<rparr>) = alive l t e cw" "alive l t e (cw\<lparr>cw_closed := cd\<rparr>) = alive l t e cw"
  by (simp_all add: alive_iff)

lemma alive_commands:
  "alive l t e cw \<Longrightarrow> (\<And>c. queued_for l t c (cw_commands cw) \<Longrightarrow> queued_for l t c q) \<Longrightarrow> alive l t e (cw\<lparr>cw_commands := q\<rparr>)"
  by (auto simp: alive_iff)

lemma alive_settle:
  assumes "alive l t e cw" "i < length (cw_waiters cw)" "\<not> (wt_label (cw_waiters cw ! i) = l \<and> wt_token (cw_waiters cw ! i) = t)"
  shows "alive l t e (settleWaiter b i cw)"
proof (cases "wt_settled (cw_waiters cw ! i)")
  case False
  have inv: "wait_inv {} cw" using assms(1) by (simp add: alive_iff)
  have "wt_label (cw_waiters cw ! i) \<noteq> l"
    using wait_waiter(3)[OF inv assms(2) False] assms(1,3) by (auto simp: alive_iff)
  then show ?thesis
    using assms waiting_elsewhere(1)[OF inv] by (simp add: alive_iff settleWaiter_inv)
qed (use assms in \<open>simp add: settle_closed\<close>)

lemma alive_lifecycle:
  assumes "alive l t e cw" "\<not> (lp_label p = l \<and> lp_token p = Some t)"
  shows "alive l t e (handleChildWindowLifecycle p cw)"
proof (cases "lp_token p = None \<or> lp_token p = Some [] \<or> cw_tokens cw (lp_label p) \<noteq> lp_token p")
  case True
  then show ?thesis using assms(1) by (auto simp: handleChildWindowLifecycle_def Let_def split: option.split)
next
  case False
  with assms have k: "lp_label p \<noteq> l" by (auto simp: alive_iff)
  have own: "alive l t e c \<Longrightarrow> alive l t e (settleOwn b (lp_label p) t' c)" for b t' c
    using k by (auto simp: alive_iff settleOwn_inv waiting_elsewhere(3))
  show ?thesis
  proof (cases "lp_phase p")
    case (CommandReady c)
    then show ?thesis using assms(1) k
      by (auto simp: handleChildWindowLifecycle_def emitChildWindowCommands_def Let_def alive_iff
          dest: queued_elsewhere(3) split: option.split prod.split)
        (metis fst_conv queued_elsewhere(3))
  qed (use assms(1) k in \<open>auto simp: handleChildWindowLifecycle_def closeFailedChildWindow_def Let_def
      intro!: own alive_commands intro: queued_elsewhere split: option.split\<close>)
qed

lemma alive_step:
  assumes "alive l t e cw" "named_tokens cw" "t \<noteq> []" "can_happen ev cw" "\<not> own_event l t cw ev"
  shows "alive l t e (childStep ev cw)"
proof (cases ev)
  case (DispatchCommand k c p)
  show ?thesis
    unfolding DispatchCommand childStep.simps dispatchChildWindowCommand_def emitChildWindowCommands_def case_prod_unfold Let_def alive_update
    by (rule alive_commands[OF assms(1)]) (rule queued_elsewhere(6))
next
  case (WaiterTimeout i)
  then show ?thesis using assms by (simp add: waiterTimeout_def alive_settle)
next
  case (OpenThrows i)
  then have "wt_token (cw_waiters cw ! i) \<noteq> []" using assms by (simp add: named_tokens_def)
  with OpenThrows assms show ?thesis
    by (auto simp: openFailed_def Let_def truthyToken_def intro!: alive_clear alive_settle)
next
  case (WindowDestroyed i)
  let ?d = "cw_listeners cw ! i"
  have tok: "cw_tokens cw l = Some t" using assms(1) by (simp add: alive_iff)
  show ?thesis
  proof (cases "dl_label ?d = l")
    case True
    with tok assms(3,5) show ?thesis
      using assms(1) by (auto simp: WindowDestroyed destroyedOnce_def windowDestroyed_def Let_def truthyToken_def)
  next
    case False
    with assms(1) show ?thesis
      by (auto simp: WindowDestroyed destroyedOnce_def windowDestroyed_def Let_def intro!: alive_clear)
  qed
next
  case (CloseFinished i)
  obtain k t' where c: "cw_closing cw ! i = (k, t')" by force
  with CloseFinished assms have "t' \<noteq> []" "k = l \<longrightarrow> t' \<noteq> t"
    by (auto simp: named_tokens_def dest!: nth_mem)
  with assms(1) c show ?thesis
    by (auto simp: CloseFinished finishFailedClose_def Let_def truthyToken_def intro!: alive_clear)
qed (use assms in \<open>auto simp: alive_create alive_lifecycle attachChildWindowDestroyedHandler_def attachFailed_def
      closeFailedChildWindow_def Let_def\<close>)

lemma alive_created:
  assumes "wait_inv {} cw"
    and "\<forall>c. e = Some c \<longrightarrow> (\<forall>st. cw_commands cw l = Some st \<longrightarrow> \<not> (cs_token st = t \<and> cs_expected st = c))"
  shows "alive l t e (createChildWindowLifecycleWaiter l t e cw)"
proof -
  have "waits_for_child l t (createChildWindowLifecycleWaiter l t e cw)"
    by (simp add: createChildWindowLifecycleWaiter_def Let_def waits_for_child_def nth_append)
  moreover have "queued_for l t c (cw_commands (createChildWindowLifecycleWaiter l t e cw))" if "e = Some c" for c
    using assms(2) that
    by (auto simp: createChildWindowLifecycleWaiter_def Let_def queued_for_def register_def split: option.splits)
  ultimately show ?thesis
    using create_inv[OF assms(1)] by (simp add: alive_iff createChildWindowLifecycleWaiter_def Let_def)
qed

lemma foreign_is_step: "foreign_step l t cw cw' \<Longrightarrow> cwin_step cw cw'"
  by (cases rule: foreign_step.cases) (auto intro: cwin_stepI)

lemma generation_survives:
  assumes "cwin_step\<^sup>*\<^sup>* child_start cw0" and "t \<noteq> []"
    and "\<forall>c. e = Some c \<longrightarrow> (\<forall>st. cw_commands cw0 l = Some st \<longrightarrow> \<not> (cs_token st = t \<and> cs_expected st = c))"
    and "(foreign_step l t)\<^sup>*\<^sup>* (childStep (OpenWindow l t e) cw0) cw"
  shows "cw_tokens cw l = Some t"
    and "\<exists>i. cw_shell cw l = Some i \<and> \<not> wt_settled (cw_waiters cw ! i) \<and> wt_token (cw_waiters cw ! i) = t
       \<and> (let cw' = childStep (LifecycleEvent \<lparr>lp_label = l, lp_token = Some t, lp_phase = ShellReady\<rparr>) cw
          in wt_settled (cw_waiters cw' ! i) \<and> \<not> wt_failed (cw_waiters cw' ! i))"
    and "e = Some c \<Longrightarrow> \<exists>st. cw_commands cw l = Some st \<and> cs_token st = t \<and> cs_expected st = c \<and> cs_status st = ChildLoading"
proof -
  have inv0: "child_inv cw0" using dchild.reachable_inv[OF refl assms(1)] .
  have "alive l t e cw \<and> child_inv cw"
    using assms(4)
  proof (induction rule: rtranclp_induct)
    case base
    show ?case
      using inv0 alive_created[of cw0 e l t] assms(2,3) cwin_step_inv[of cw0 "OpenWindow l t e"] cwin_step_named[of cw0 "OpenWindow l t e"]
      by (simp add: child_inv_def)
  next
    case (step x y)
    from step.hyps(2) show ?case
    proof cases
      case (1 ev)
      with step.IH assms(2) have "alive l t e y" by (auto simp: child_inv_def intro: alive_step)
      moreover have "child_inv y"
        using step.IH foreign_is_step[OF step.hyps(2)] dchild.step_inv by blast
      ultimately show ?thesis by simp
    qed
  qed
  then have a: "alive l t e cw" and inv: "wait_inv {} cw" by (simp_all add: child_inv_def)
  show "cw_tokens cw l = Some t" using a by (simp add: alive_def)
  show "\<exists>i. cw_shell cw l = Some i \<and> \<not> wt_settled (cw_waiters cw ! i) \<and> wt_token (cw_waiters cw ! i) = t
       \<and> (let cw' = childStep (LifecycleEvent \<lparr>lp_label = l, lp_token = Some t, lp_phase = ShellReady\<rparr>) cw
          in wt_settled (cw_waiters cw' ! i) \<and> \<not> wt_failed (cw_waiters cw' ! i))"
  proof -
    obtain i where i: "cw_shell cw l = Some i" "wt_token (cw_waiters cw ! i) = t" using a by (auto simp: alive_def)
    note w = wait_shell[OF inv i(1)]
    have "childStep (LifecycleEvent \<lparr>lp_label = l, lp_token = Some t, lp_phase = ShellReady\<rparr>) cw = settleWaiter False i cw"
      using a i assms(2) by (simp add: alive_def handleChildWindowLifecycle_def settleOwn_def)
    with i w settle_outcome[OF inv w(1,3), of False] show ?thesis by (simp add: Let_def)
  qed
  show "e = Some c \<Longrightarrow> \<exists>st. cw_commands cw l = Some st \<and> cs_token st = t \<and> cs_expected st = c \<and> cs_status st = ChildLoading"
    using a by (simp add: alive_def)
qed

text \<open>C33: nothing late can hurt a newer window of the same label: from the moment a window is opened
  with a fresh token, no run of events that leaves out those of this generation, with reports,
  destroyed events, timeouts, failed opens and closes of earlier windows of the label included,
  takes its token away, answers its open or loses its command queue; and its report still
  answers it with success.\<close>

theorem child_generations_isolated:
  assumes "cwin_step\<^sup>*\<^sup>* child_start cw0" and "t \<noteq> []"
    and "\<forall>c. e = Some c \<longrightarrow> (\<forall>st. cw_commands cw0 l = Some st \<longrightarrow> \<not> (cs_token st = t \<and> cs_expected st = c))"
    and "(foreign_step l t)\<^sup>*\<^sup>* (childStep (OpenWindow l t e) cw0) cw"
  shows "cw_tokens cw l = Some t
     \<and> (\<exists>i. cw_shell cw l = Some i \<and> \<not> wt_settled (cw_waiters cw ! i) \<and> wt_token (cw_waiters cw ! i) = t
          \<and> (let cw' = childStep (LifecycleEvent \<lparr>lp_label = l, lp_token = Some t, lp_phase = ShellReady\<rparr>) cw
             in wt_settled (cw_waiters cw' ! i) \<and> \<not> wt_failed (cw_waiters cw' ! i)))
     \<and> (\<forall>c. e = Some c \<longrightarrow>
          (\<exists>st. cw_commands cw l = Some st \<and> cs_token st = t \<and> cs_expected st = c \<and> cs_status st = ChildLoading))"
  using generation_survives[OF assms] by blast

lemma child_generations_isolated_witness:
  "cw_tokens (childStep (LifecycleEvent \<lparr>lp_label = ''settings'', lp_token = Some ''t1'', lp_phase = LoadFailed\<rparr>)
     (childStep (OpenWindow ''settings'' ''t2'' (Some SettingsOpenTab)) demo_windows)) ''settings'' = Some ''t2''"
proof -
  let ?cw = "childStep (OpenWindow ''settings'' ''t2'' (Some SettingsOpenTab)) demo_windows"
  let ?ev = "LifecycleEvent \<lparr>lp_label = ''settings'', lp_token = Some ''t1'', lp_phase = LoadFailed\<rparr>"
  have "foreign_step ''settings'' ''t2'' ?cw (childStep ?ev ?cw)"
    by (rule foreign_step.intros) simp_all
  then have run: "(foreign_step ''settings'' ''t2'')\<^sup>*\<^sup>* ?cw (childStep ?ev ?cw)" by blast
  have fresh: "\<forall>c. Some SettingsOpenTab = Some c \<longrightarrow>
      (\<forall>st. cw_commands demo_windows ''settings'' = Some st \<longrightarrow> \<not> (cs_token st = ''t2'' \<and> cs_expected st = c))"
    by (simp add: demo_windows_def createChildWindowLifecycleWaiter_def settleShell_def child_start_def register_def)
  show ?thesis using child_generations_isolated[OF demo_reachable _ fresh run] by simp
qed

end
