(* ===== verification/Virtual_List.thy ===== *)
theory Virtual_List
  imports Prelude
begin

text \<open>
  Which rows of a long list are rendered (\<open>hooks/useVirtualList.ts\<close>): the offsets of the rows, the
  binary searches for the first and the last visible one and the padding around them. Heights and
  scroll positions are rationals; the container element contributes its height and scroll position,
  which are arguments. The scroll position may be negative, as it is while a list bounces.
\<close>

section \<open>Offsets and searches\<close>

definition itemOffsets :: "('a \<Rightarrow> nat \<Rightarrow> rat) \<Rightarrow> 'a list \<Rightarrow> rat list" where
  "itemOffsets h items = fold (\<lambda>index offsets. offsets @ [offsets ! index + h (items ! index) index]) [0..<length items] [0]"

text \<open>\<open>getItemHeight ? getItemHeight(item, index) : itemHeight\<close>\<close>

definition rowHeight :: "('a \<Rightarrow> nat \<Rightarrow> rat) option \<Rightarrow> rat \<Rightarrow> 'a \<Rightarrow> nat \<Rightarrow> rat" where
  "rowHeight getItemHeight itemHeight item index =
     (case getItemHeight of Some f \<Rightarrow> f item index | None \<Rightarrow> itemHeight)"

text \<open>Both searches have the same loop and differ in the comparison that moves to the right.\<close>

function boundLoop :: "(rat \<Rightarrow> bool) \<Rightarrow> rat list \<Rightarrow> nat \<Rightarrow> nat \<Rightarrow> nat" where
  "boundLoop goRight values left right =
     (if left < right
      then let middle = (left + right) div 2 in
           if goRight (values ! middle) then boundLoop goRight values (middle + 1) right
           else boundLoop goRight values left middle
      else left)"
  by pat_completeness auto
termination by (relation "measure (\<lambda>(_, _, l, r). r - l)") auto

declare boundLoop.simps [simp del]

definition lowerBound :: "rat list \<Rightarrow> rat \<Rightarrow> nat" where
  "lowerBound values target = boundLoop (\<lambda>v. v < target) values 0 (length values)"

definition upperBound :: "rat list \<Rightarrow> rat \<Rightarrow> nat" where
  "upperBound values target = boundLoop (\<lambda>v. v \<le> target) values 0 (length values)"

section \<open>The rendered rows\<close>

record 'a virtual_rows =
  vr_visibleItems :: "('a \<times> nat) list"
  vr_paddingTop :: rat
  vr_paddingBottom :: rat

definition virtualRows ::
  "('a \<Rightarrow> nat \<Rightarrow> rat) option \<Rightarrow> rat \<Rightarrow> nat \<Rightarrow> rat \<Rightarrow> rat \<Rightarrow> 'a list \<Rightarrow> 'a virtual_rows" where
  "virtualRows getItemHeight itemHeight overscan scrollTop viewportHeight items =
     (if items = [] then \<lparr>vr_visibleItems = [], vr_paddingTop = 0, vr_paddingBottom = 0\<rparr>
      else let offsets = itemOffsets (rowHeight getItemHeight itemHeight) items;
               totalHeight = offsets ! (length offsets - 1);
               height = (if viewportHeight > 0 then viewportHeight else itemHeight * 10);
               viewportBottom = scrollTop + height;
               startIndex = upperBound offsets scrollTop - 1;
               startIndex = startIndex - overscan;
               endIndex = lowerBound offsets viewportBottom;
               endIndex = min (length items) (endIndex + overscan);
               slice = drop startIndex (take endIndex items)
           in \<lparr>vr_visibleItems = map (\<lambda>offset. (slice ! offset, startIndex + offset)) [0..<length slice],
               vr_paddingTop = (if startIndex < length offsets then offsets ! startIndex else 0),
               vr_paddingBottom = max 0 (totalHeight - (if endIndex < length offsets then offsets ! endIndex else totalHeight))\<rparr>)"

text \<open>The effect that pulls the scroll position back after the list became shorter.\<close>

definition clampScroll :: "rat \<Rightarrow> rat \<Rightarrow> rat \<Rightarrow> rat" where
  "clampScroll totalHeight clientHeight scrollTop =
     (let maxScrollTop = max 0 (totalHeight - clientHeight) in if scrollTop > maxScrollTop then maxScrollTop else scrollTop)"

section \<open>Correctness\<close>

text \<open>The searches split a list at the first value that does not go to the right.\<close>

lemma boundLoop_split:
  assumes "left \<le> right" "right \<le> length vs"
    and "\<And>i j. i \<le> j \<Longrightarrow> j < length vs \<Longrightarrow> goRight (vs ! j) \<Longrightarrow> goRight (vs ! i)"
    and "\<And>i. i < left \<Longrightarrow> goRight (vs ! i)" "\<And>i. right \<le> i \<Longrightarrow> i < length vs \<Longrightarrow> \<not> goRight (vs ! i)"
  shows "boundLoop goRight vs left right \<le> length vs
    \<and> (\<forall>i < length vs. goRight (vs ! i) \<longleftrightarrow> i < boundLoop goRight vs left right)"
  using assms
proof (induction goRight vs left right rule: boundLoop.induct)
  case (1 goRight vs left right)
  let ?m = "(left + right) div 2"
  show ?case
  proof (cases "left < right")
    case True
    then have m: "left \<le> ?m" "?m < right" by auto
    show ?thesis
    proof (cases "goRight (vs ! ?m)")
      case right: True
      have e: "boundLoop goRight vs left right = boundLoop goRight vs (?m + 1) right"
        by (subst boundLoop.simps) (simp add: True right Let_def)
      have "goRight (vs ! i)" if "i < ?m + 1" for i
        by (rule "1.prems"(3)[OF _ _ right]) (use that m "1.prems"(2) in auto)
      then show ?thesis unfolding e
        by (intro "1.IH"(1)[OF True refl right]) (use m "1.prems" in auto)
    next
      case left: False
      have e: "boundLoop goRight vs left right = boundLoop goRight vs left ?m"
        by (subst boundLoop.simps) (simp add: True left Let_def)
      have "\<not> goRight (vs ! i)" if "?m \<le> i" "i < length vs" for i
        using "1.prems"(3)[OF that] left by blast
      then show ?thesis unfolding e
        by (intro "1.IH"(2)[OF True refl left]) (use m "1.prems" in auto)
    qed
  next
    case False
    have "boundLoop goRight vs left right = left" by (subst boundLoop.simps) (simp add: False)
    moreover have "left = right" using False "1.prems"(1) by simp
    moreover have "i < right" if "i < length vs" "goRight (vs ! i)" for i using "1.prems"(5)[of i] that by fastforce
    ultimately show ?thesis using "1.prems"(2,4) by auto
  qed
qed

lemma bounds_split:
  assumes "sorted vs"
  shows "lowerBound vs t \<le> length vs \<and> (\<forall>i < length vs. vs ! i < t \<longleftrightarrow> i < lowerBound vs t)"
    and "upperBound vs t \<le> length vs \<and> (\<forall>i < length vs. vs ! i \<le> t \<longleftrightarrow> i < upperBound vs t)"
proof -
  note m = sorted_nth_mono[OF assms]
  show "lowerBound vs t \<le> length vs \<and> (\<forall>i < length vs. vs ! i < t \<longleftrightarrow> i < lowerBound vs t)"
    unfolding lowerBound_def by (rule boundLoop_split) (auto dest: m intro: order.strict_trans1)
  show "upperBound vs t \<le> length vs \<and> (\<forall>i < length vs. vs ! i \<le> t \<longleftrightarrow> i < upperBound vs t)"
    unfolding upperBound_def by (rule boundLoop_split) (auto dest: m intro: order_trans)
qed

text \<open>The offset of a row is the height of everything above it.\<close>

lemma itemOffsets_sum: "itemOffsets h items = map (\<lambda>k. \<Sum>i<k. h (items ! i) i) [0..<length items + 1]"
proof -
  have "fold (\<lambda>index offsets. offsets @ [offsets ! index + h (items ! index) index]) [0..<n] [0]
      = map (\<lambda>k. \<Sum>i<k. h (items ! i) i) [0..<n + 1]" for n
    by (induction n) (simp_all add: nth_append)
  then show ?thesis by (simp add: itemOffsets_def)
qed

lemma length_itemOffsets [simp]: "length (itemOffsets h items) = length items + 1"
  by (simp add: itemOffsets_sum)

lemma nth_itemOffsets: "k \<le> length items \<Longrightarrow> itemOffsets h items ! k = (\<Sum>i<k. h (items ! i) i)"
  by (simp add: itemOffsets_sum del: upt_Suc)

lemma sorted_itemOffsets:
  assumes "\<forall>i < length items. 0 \<le> h (items ! i) i"
  shows "sorted (itemOffsets h items)"
  using assms by (auto simp: sorted_iff_nth_mono nth_itemOffsets less_Suc_eq_le intro!: sum_mono2)

text \<open>The first and the last visible row, before the overscan.\<close>

lemma searches_found:
  assumes s: "sorted vs" "length vs = n + 1" and tb: "tp < bt"
  defines "a \<equiv> upperBound vs tp - 1" and "b \<equiv> lowerBound vs bt"
  shows "a \<le> b" "a \<le> n" "i < n \<Longrightarrow> tp < vs ! Suc i \<Longrightarrow> a \<le> i" "i < n \<Longrightarrow> vs ! i < bt \<Longrightarrow> i < b"
    "a < i \<Longrightarrow> i \<le> n \<Longrightarrow> tp < vs ! i" "i < b \<Longrightarrow> i \<le> n \<Longrightarrow> vs ! i < bt"
proof -
  have u: "upperBound vs tp \<le> n + 1" "\<And>i. i < n + 1 \<Longrightarrow> vs ! i \<le> tp \<longleftrightarrow> i < upperBound vs tp"
    using bounds_split(2)[OF s(1), of tp] s(2) by auto
  have l: "b \<le> n + 1" "\<And>i. i < n + 1 \<Longrightarrow> vs ! i < bt \<longleftrightarrow> i < b"
    using bounds_split(1)[OF s(1), of bt] s(2) by (auto simp: b_def)
  show "a \<le> n" using u(1) by (simp add: a_def)
  show "a \<le> b"
  proof (rule ccontr)
    assume "\<not> a \<le> b"
    then have "b < n + 1" "b < upperBound vs tp" using u(1) by (auto simp: a_def)
    then show False using u(2)[of b] l(2)[of b] tb by auto
  qed
  show "i < n \<Longrightarrow> tp < vs ! Suc i \<Longrightarrow> a \<le> i" using u(2)[of "Suc i"] by (auto simp: a_def)
  show "i < n \<Longrightarrow> vs ! i < bt \<Longrightarrow> i < b" using l(2)[of i] by auto
  show "a < i \<Longrightarrow> i \<le> n \<Longrightarrow> tp < vs ! i" using u(2)[of i] by (auto simp: a_def)
  show "i < b \<Longrightarrow> i \<le> n \<Longrightarrow> vs ! i < bt" using l(2)[of i] by auto
qed

text \<open>The position and the extent of a row.\<close>

definition rowTop :: "('a \<Rightarrow> nat \<Rightarrow> rat) \<Rightarrow> 'a list \<Rightarrow> nat \<Rightarrow> rat" where
  "rowTop h items k = (\<Sum>i<k. h (items ! i) i)"

lemma rowTop_diff: "a \<le> b \<Longrightarrow> rowTop h items b - rowTop h items a = (\<Sum>i = a..<b. h (items ! i) i)"
  by (simp add: rowTop_def sum_diff_nat_ivl lessThan_atLeast0)

definition viewHeight :: "rat \<Rightarrow> rat \<Rightarrow> rat" where
  "viewHeight itemHeight viewportHeight = (if viewportHeight > 0 then viewportHeight else itemHeight * 10)"

lemma slice_indices:
  assumes "a \<le> b" "b \<le> length items"
  shows "map (\<lambda>offset. (drop a (take b items) ! offset, a + offset)) [0..<length (drop a (take b items))]
    = map (\<lambda>i. (items ! i, i)) [a..<b]"
  using assms by (intro nth_equalityI) simp_all

text \<open>The rendered rows are a window of the list: the indices from \<open>a\<close> to before \<open>b\<close>.\<close>

lemma virtualRows_window:
  assumes h: "\<forall>i < length items. 0 \<le> rowHeight gh ih (items ! i) i" and v: "0 < viewHeight ih vh" and ne: "items \<noteq> []"
    and hh: "H = rowHeight gh ih"
  obtains a b where "a \<le> b" "b \<le> length items"
    "virtualRows gh ih over scroll vh items
       = \<lparr>vr_visibleItems = map (\<lambda>i. (items ! i, i)) [a..<b], vr_paddingTop = rowTop H items a,
          vr_paddingBottom = rowTop H items (length items) - rowTop H items b\<rparr>"
    "\<And>i. i < length items \<Longrightarrow> scroll < rowTop H items (Suc i) \<Longrightarrow> rowTop H items i < scroll + viewHeight ih vh \<Longrightarrow> a \<le> i \<and> i < b"
    "\<And>i. a + over < i \<Longrightarrow> i \<le> length items \<Longrightarrow> scroll < rowTop H items i"
    "\<And>i. i + over < b \<Longrightarrow> rowTop H items i < scroll + viewHeight ih vh"
    "\<And>i. i < length items \<Longrightarrow> i + over < length items \<longrightarrow> scroll < rowTop H items (Suc (i + over)) \<Longrightarrow> a \<le> i"
    "\<And>i. i < length items \<Longrightarrow> over \<le> i \<longrightarrow> rowTop H items (i - over) < scroll + viewHeight ih vh \<Longrightarrow> i < b"
proof -
  let ?n = "length items" and ?vs = "itemOffsets H items" and ?bt = "scroll + viewHeight ih vh"
  have s: "sorted ?vs" using sorted_itemOffsets h hh by blast
  have vs: "k \<le> ?n \<Longrightarrow> ?vs ! k = rowTop H items k" for k by (simp add: nth_itemOffsets rowTop_def)
  note f = searches_found[OF s length_itemOffsets, of scroll ?bt]
  define a where "a = upperBound ?vs scroll - 1 - over"
  define b where "b = min ?n (lowerBound ?vs ?bt + over)"
  have a_eq: "upperBound ?vs scroll - Suc 0 - over = a" by (simp add: a_def)
  have ab: "a \<le> b" "b \<le> ?n" using f(1,2) v by (auto simp: a_def b_def)
  have "rowTop H items b \<le> rowTop H items ?n"
    using sorted_nth_mono[OF s, of b ?n] ab by (simp add: vs)
  then have "virtualRows gh ih over scroll vh items
       = \<lparr>vr_visibleItems = map (\<lambda>i. (items ! i, i)) [a..<b], vr_paddingTop = rowTop H items a,
          vr_paddingBottom = rowTop H items ?n - rowTop H items b\<rparr>"
    using ne ab a_eq
    by (simp add: virtualRows_def Let_def hh[symmetric] viewHeight_def[symmetric] b_def[symmetric] vs slice_indices[OF ab]
        del: nth_drop length_drop length_take diff_diff_left)
  moreover have "a \<le> i \<and> i < b" if "i < ?n" "scroll < rowTop H items (Suc i)" "rowTop H items i < ?bt" for i
    using f(3,4)[of i] that v by (auto simp: a_def b_def vs)
  moreover have "scroll < rowTop H items i" if "a + over < i" "i \<le> ?n" for i
    using f(5)[of i] that v by (simp add: a_def vs)
  moreover have "rowTop H items i < ?bt" if "i + over < b" for i
    using f(6)[of i] that v by (simp add: b_def vs)
  moreover have "a \<le> i" if "i < ?n" "i + over < ?n \<longrightarrow> scroll < rowTop H items (Suc (i + over))" for i
  proof (cases "i + over < ?n")
    case True
    with f(3)[of "i + over"] that v vs[of "Suc (i + over)"] show ?thesis by (auto simp: a_def)
  next
    case False
    with f(2) v show ?thesis by (auto simp: a_def)
  qed
  moreover have "i < b" if "i < ?n" "over \<le> i \<longrightarrow> rowTop H items (i - over) < ?bt" for i
  proof (cases "over \<le> i")
    case True
    with f(4)[of "i - over"] that v vs[of "i - over"] have "i - over < lowerBound ?vs ?bt" by auto
    with that(1) True show ?thesis by (simp add: b_def)
  next
    case False
    with that(1) show ?thesis by (auto simp: b_def)
  qed
  ultimately show thesis using that ab by blast
qed

text \<open>C34: for rows of any nonnegative heights, every row that meets the visible range is rendered with its
  index, and a row is rendered exactly when it is a row of the list, the row that follows it by the
  overscan ends below the upper edge of the visible range, and the row that precedes it by the
  overscan begins above the lower edge, so at most the overscan is added on each side. The rendered
  rows are consecutive, each stands where it would stand in the full list, and the paddings and the
  rendered rows add up to the height of the whole list.\<close>

theorem virtual_list_exact:
  assumes "\<forall>i < length items. 0 \<le> rowHeight gh ih (items ! i) i" and "0 < viewHeight ih vh"
    and "h = rowHeight gh ih" and "r = virtualRows gh ih over scroll vh items"
  shows "(\<forall>i < length items. rowTop h items i < scroll + viewHeight ih vh \<and> scroll < rowTop h items (Suc i)
            \<longrightarrow> (items ! i, i) \<in> set (vr_visibleItems r))
       \<and> (\<forall>x i. (x, i) \<in> set (vr_visibleItems r) \<longleftrightarrow> i < length items \<and> x = items ! i
            \<and> (i + over < length items \<longrightarrow> scroll < rowTop h items (Suc (i + over)))
            \<and> (over \<le> i \<longrightarrow> rowTop h items (i - over) < scroll + viewHeight ih vh))
       \<and> (\<exists>a b. vr_visibleItems r = map (\<lambda>i. (items ! i, i)) [a..<b] \<and> b \<le> length items)
       \<and> (\<forall>k < length (vr_visibleItems r).
            vr_paddingTop r + (\<Sum>(x, i) \<leftarrow> take k (vr_visibleItems r). h x i) = rowTop h items (snd (vr_visibleItems r ! k)))
       \<and> vr_paddingTop r + (\<Sum>(x, i) \<leftarrow> vr_visibleItems r. h x i) + vr_paddingBottom r = rowTop h items (length items)"
proof (cases "items = []")
  case True
  then have "r = \<lparr>vr_visibleItems = [], vr_paddingTop = 0, vr_paddingBottom = 0\<rparr>" by (simp add: assms(4) virtualRows_def)
  with True show ?thesis by (auto simp: rowTop_def intro: exI[of _ 0])
next
  case False
  obtain a b where ab: "a \<le> b" "b \<le> length items"
    and v: "virtualRows gh ih over scroll vh items
       = \<lparr>vr_visibleItems = map (\<lambda>i. (items ! i, i)) [a..<b], vr_paddingTop = rowTop h items a,
          vr_paddingBottom = rowTop h items (length items) - rowTop h items b\<rparr>"
    and seen: "\<And>i. i < length items \<Longrightarrow> scroll < rowTop h items (Suc i) \<Longrightarrow> rowTop h items i < scroll + viewHeight ih vh \<Longrightarrow> a \<le> i \<and> i < b"
    and lo: "\<And>i. a + over < i \<Longrightarrow> i \<le> length items \<Longrightarrow> scroll < rowTop h items i"
    and hi: "\<And>i. i + over < b \<Longrightarrow> rowTop h items i < scroll + viewHeight ih vh"
    and lo': "\<And>i. i < length items \<Longrightarrow> i + over < length items \<longrightarrow> scroll < rowTop h items (Suc (i + over)) \<Longrightarrow> a \<le> i"
    and hi': "\<And>i. i < length items \<Longrightarrow> over \<le> i \<longrightarrow> rowTop h items (i - over) < scroll + viewHeight ih vh \<Longrightarrow> i < b"
    by (rule virtualRows_window[OF assms(1,2) False assms(3), where over = over and scroll = scroll]) (rule that; assumption)
  have window: "a \<le> i \<and> i < b \<longleftrightarrow> i < length items \<and> (i + over < length items \<longrightarrow> scroll < rowTop h items (Suc (i + over)))
      \<and> (over \<le> i \<longrightarrow> rowTop h items (i - over) < scroll + viewHeight ih vh)" for i
    using lo[of "Suc (i + over)"] hi[of "i - over"] lo'[of i] hi'[of i] ab by auto
  note r = v[folded assms(4)]
  have sums: "rowTop h items a + (\<Sum>(x, i) \<leftarrow> map (\<lambda>i. (items ! i, i)) [a..<c]. h x i) = rowTop h items c" if "a \<le> c" for c
    using rowTop_diff[OF that, of h items] by (simp add: o_def interv_sum_list_conv_sum_set_nat)
  have "rowTop h items a + (\<Sum>(x, i) \<leftarrow> take k (map (\<lambda>i. (items ! i, i)) [a..<b]). h x i) = rowTop h items (a + k)" if "k < b - a" for k
    using that sums[of "a + k"] by (simp add: take_map)
  moreover have "\<forall>i < length items. rowTop h items i < scroll + viewHeight ih vh \<and> scroll < rowTop h items (Suc i)
      \<longrightarrow> (items ! i, i) \<in> set (map (\<lambda>i. (items ! i, i)) [a..<b])"
    using seen by simp
  moreover have "(x, i) \<in> set (map (\<lambda>i. (items ! i, i)) [a..<b]) \<longleftrightarrow> i < length items \<and> x = items ! i
      \<and> (i + over < length items \<longrightarrow> scroll < rowTop h items (Suc (i + over)))
      \<and> (over \<le> i \<longrightarrow> rowTop h items (i - over) < scroll + viewHeight ih vh)" for x i
    using window[of i] by auto
  moreover have "\<exists>c d. map (\<lambda>i. (items ! i, i)) [a..<b] = map (\<lambda>i. (items ! i, i)) [c..<d] \<and> d \<le> length items"
    using ab(2) by blast
  ultimately show ?thesis using sums[OF ab(1)] by (simp add: r)
qed

lemma virtual_list_exact_witness:
  "(4 :: nat, 4) \<in> set (vr_visibleItems (virtualRows None 20 1 75 40 [0, 1, 2, 3, 4, 5, 6, 7, 8, 9]))
   \<and> (1 :: nat, 1) \<notin> set (vr_visibleItems (virtualRows None 20 1 75 40 [0, 1, 2, 3, 4, 5, 6, 7, 8, 9]))"
proof -
  let ?items = "[0, 1, 2, 3, 4, 5, 6, 7, 8, 9 :: nat]" and ?h = "rowHeight None 20"
  note exact = virtual_list_exact[of ?items None 20 40 ?h _ 1 75, OF _ _ refl refl]
  have "4 < length ?items \<and> ?items ! 4 = 4 \<and> rowTop ?h ?items 4 < 75 + viewHeight 20 40 \<and> 75 < rowTop ?h ?items (Suc 4)"
    and "1 + 1 < length ?items \<and> \<not> 75 < rowTop ?h ?items (Suc (1 + 1))"
    by (simp_all add: rowTop_def rowHeight_def viewHeight_def eval_nat_numeral)
  with exact[THEN conjunct1, rule_format, of 4] exact[THEN conjunct2, THEN conjunct1, rule_format, of 1 1]
  show ?thesis by (simp add: rowHeight_def viewHeight_def)
qed

text \<open>however long the list and wherever it is scrolled to, no more rows are rendered than fit the
  visible height at the least row height, plus the overscan on both sides and two.\<close>

theorem virtual_list_bounded:
  assumes "\<forall>i < length items. m \<le> rowHeight gh ih (items ! i) i" and "0 < m" and "0 < viewHeight ih vh"
  shows "of_nat (length (vr_visibleItems (virtualRows gh ih over scroll vh items))) * m \<le> viewHeight ih vh + of_nat (2 * over + 2) * m"
proof (cases "items = []")
  case True
  then show ?thesis using assms(2,3) by (simp add: virtualRows_def)
next
  case False
  let ?h = "rowHeight gh ih" and ?H = "viewHeight ih vh"
  have nn: "\<forall>i < length items. 0 \<le> ?h (items ! i) i" using assms(1,2) by (meson order.strict_implies_order order_trans)
  obtain a b where ab: "a \<le> b" "b \<le> length items"
    and v: "virtualRows gh ih over scroll vh items
       = \<lparr>vr_visibleItems = map (\<lambda>i. (items ! i, i)) [a..<b], vr_paddingTop = rowTop ?h items a,
          vr_paddingBottom = rowTop ?h items (length items) - rowTop ?h items b\<rparr>"
    and "\<And>i. i < length items \<Longrightarrow> scroll < rowTop ?h items (Suc i) \<Longrightarrow> rowTop ?h items i < scroll + ?H \<Longrightarrow> a \<le> i \<and> i < b"
    and lo: "\<And>i. a + over < i \<Longrightarrow> i \<le> length items \<Longrightarrow> scroll < rowTop ?h items i"
    and hi: "\<And>i. i + over < b \<Longrightarrow> rowTop ?h items i < scroll + ?H"
    by (rule virtualRows_window[OF nn assms(3) False refl, where over = over and scroll = scroll]) (rule that; assumption)
  have r: "vr_visibleItems (virtualRows gh ih over scroll vh items) = map (\<lambda>i. (items ! i, i)) [a..<b]" by (simp add: v)
  show ?thesis
  proof (cases "b - a \<le> 2 * over + 2")
    case True
    then have "of_nat (b - a) * m \<le> of_nat (2 * over + 2) * m"
      using assms(2) by (intro mult_right_mono) (auto simp del: of_nat_add of_nat_mult)
    with r assms(3) show ?thesis by simp
  next
    case False
    define i j where "i = a + over + 1" and "j = b - over - 1"
    have ij: "i \<le> j" "j \<le> length items" "b - a = (j - i) + (2 * over + 2)" using False ab by (auto simp: i_def j_def)
    have "of_nat (j - i) * m = (\<Sum>k = i..<j. m)" by simp
    also have "\<dots> \<le> (\<Sum>k = i..<j. ?h (items ! k) k)" using assms(1) ij by (intro sum_mono) auto
    also have "\<dots> = rowTop ?h items j - rowTop ?h items i" by (simp add: rowTop_diff[OF ij(1)])
    also have "\<dots> \<le> ?H" using lo[of i] hi[of j] ij False ab by (auto simp: i_def j_def)
    finally have "of_nat (j - i) * m \<le> ?H" .
    then show ?thesis by (simp add: r ij(3) distrib_right)
  qed
qed

lemma virtual_list_bounded_witness:
  "length (vr_visibleItems (virtualRows None 20 1 75 40 [0 :: nat, 1, 2, 3, 4, 5, 6, 7, 8, 9])) \<le> 6"
proof -
  have "of_nat (length (vr_visibleItems (virtualRows None 20 1 75 40 [0 :: nat, 1, 2, 3, 4, 5, 6, 7, 8, 9]))) * (20 :: rat) \<le> 120"
    using virtual_list_bounded[of "[0 :: nat, 1, 2, 3, 4, 5, 6, 7, 8, 9]" 20 None 20 40 1 75]
    by (simp add: rowHeight_def viewHeight_def)
  then show ?thesis by (simp add: le_divide_eq[symmetric])
qed

end
