(* ===== verification/Keyword_Scan.thy ===== *)
theory Keyword_Scan
  imports Prelude
begin

text \<open>
  Keyword highlighting (\<open>lib/keywordHighlighter.ts\<close>), the part that reads a terminal line: the map
  from string indices to cells, the rules, and the scan of a physical and of a wrapped logical line.

  The terminal emulator is not part of the sources. A buffer line is its list of cells; the text of a
  line is an argument, and \<open>text_of\<close> states what the emulator documents of it: the strings of the
  cells from the left, a wide cell skipping the cell it covers and an empty cell reading as a blank.
  A regular expression is what its \<open>exec\<close> returns from a given \<open>lastIndex\<close> on: position and length
  of the next match. The clock is read through \<open>clock\<close>, the number of earlier readings being part
  of the budget.
\<close>

section \<open>Cells and strings\<close>

record buffer_cell =
  bc_chars :: js_text
  bc_width :: nat
  bc_fgDefault :: bool

definition stride :: "buffer_cell \<Rightarrow> nat" where
  "stride cell = (if bc_width cell = 0 then 1 else bc_width cell)"

definition cellUnits :: "buffer_cell \<Rightarrow> nat" where
  "cellUnits cell = (if bc_chars cell = [] then 1 else length (bc_chars cell))"

function cellMapLoop :: "buffer_cell list \<Rightarrow> nat \<Rightarrow> nat \<Rightarrow> nat \<Rightarrow> nat \<Rightarrow> nat list \<Rightarrow> nat list" where
  "cellMapLoop line stringLength maxCols col cellEndCol acc =
     (if col < maxCols \<and> length acc < stringLength \<and> col < length line
      then let cell = line ! col; next = col + stride cell in
           cellMapLoop line stringLength maxCols next next
             (if bc_chars cell = [] then acc @ [col] else acc @ replicate (length (bc_chars cell)) col)
      else acc @ [cellEndCol])"
  by pat_completeness auto
termination by (relation "measure (\<lambda>(_, _, m, c, _, _). m - c)") (auto simp: stride_def)

declare cellMapLoop.simps [simp del]

definition buildStringToCellMap :: "buffer_cell list \<Rightarrow> nat \<Rightarrow> nat \<Rightarrow> nat list" where
  "buildStringToCellMap line stringLength maxCols = cellMapLoop line stringLength maxCols 0 0 []"

text \<open>\<open>cellMap ? (cellMap[i] ?? i) : i\<close>\<close>

definition cellColumn :: "nat list option \<Rightarrow> nat \<Rightarrow> nat" where
  "cellColumn cellMap i = (case cellMap of None \<Rightarrow> i | Some m \<Rightarrow> if i < length m then m ! i else i)"

definition hasMultibyte :: "js_text \<Rightarrow> bool" where
  "hasMultibyte text \<longleftrightarrow> list_ex (\<lambda>c. c > 0xFF) text"

definition lineCellMap :: "buffer_cell list \<Rightarrow> nat \<Rightarrow> js_text \<Rightarrow> nat list option" where
  "lineCellMap line maxCols text =
     (if hasMultibyte text then Some (buildStringToCellMap line (length text) maxCols) else None)"

text \<open>The first and the last physical line of the logical line around a line.\<close>

fun logicalStart :: "(nat \<Rightarrow> bool) \<Rightarrow> nat \<Rightarrow> nat" where
  "logicalStart isWrapped 0 = 0"
| "logicalStart isWrapped (Suc y) = (if isWrapped (Suc y) then logicalStart isWrapped y else Suc y)"

function logicalEnd :: "(nat \<Rightarrow> bool) \<Rightarrow> nat \<Rightarrow> nat \<Rightarrow> nat" where
  "logicalEnd isWrapped totalLines y =
     (if y + 1 < totalLines \<and> isWrapped (y + 1) then logicalEnd isWrapped totalLines (y + 1) else y)"
  by pat_completeness auto
termination by (relation "measure (\<lambda>(_, n, y). n - y)") auto

declare logicalEnd.simps [simp del]

section \<open>Rules and the budget\<close>

record highlight_rule =
  hr_enabled :: bool
  hr_patterns :: "js_text list"
  hr_color :: string

type_synonym regex = "js_text \<Rightarrow> nat \<Rightarrow> (nat \<times> nat) option"

record compiled_rule =
  cr_exec :: regex
  cr_color :: string

definition combined :: "js_text list \<Rightarrow> js_text" where
  "combined alts =
     (if length alts = 1 then hd alts
      else joinWith (js ''|'') (map (\<lambda>p. js ''(?:'' @ p @ js '')'') alts))"

text \<open>\<open>compile\<close> is \<open>new RegExp(source, "gi")\<close>, \<open>None\<close> when it throws; \<open>trim\<close> is \<open>String.trim\<close>.\<close>

definition compileRule :: "(js_text \<Rightarrow> regex option) \<Rightarrow> (js_text \<Rightarrow> js_text) \<Rightarrow> highlight_rule \<Rightarrow> compiled_rule list" where
  "compileRule compile trim rule =
     (if \<not> hr_enabled rule \<or> hr_patterns rule = [] then []
      else let validAlts = filter (\<lambda>t. t \<noteq> [] \<and> compile t \<noteq> None) (map trim (hr_patterns rule));
               rules = (\<lambda>alts. map (\<lambda>e. \<lparr>cr_exec = e, cr_color = hr_color rule\<rparr>) (List.map_filter compile alts))
           in if validAlts = [] then []
              else if compile (combined validAlts) \<noteq> None then rules [combined validAlts] else rules validAlts)"

definition compileRules :: "(js_text \<Rightarrow> regex option) \<Rightarrow> (js_text \<Rightarrow> js_text) \<Rightarrow> highlight_rule list \<Rightarrow> compiled_rule list" where
  "compileRules compile trim rules = concat (map (compileRule compile trim) rules)"

record highlight_config =
  hc_maxDecorations :: nat
  hc_maxPerRefresh :: nat
  hc_maxMatchesPerLine :: nat
  hc_maxCachedLines :: nat
  hc_overscan :: nat
  hc_maxRefreshTime :: rat

record refresh_budget =
  bu_created :: nat
  bu_deadline :: rat
  bu_hitLimit :: bool
  bu_hitTotal :: bool
  bu_reads :: nat

definition isBudgetExpired :: "(nat \<Rightarrow> rat) \<Rightarrow> refresh_budget \<Rightarrow> bool \<times> refresh_budget" where
  "isBudgetExpired clock budget =
     (let now = clock (bu_reads budget); budget = budget\<lparr>bu_reads := Suc (bu_reads budget)\<rparr> in
      if now \<le> bu_deadline budget then (False, budget) else (True, budget\<lparr>bu_hitLimit := True\<rparr>))"

definition isBudgetExhausted :: "(nat \<Rightarrow> rat) \<Rightarrow> refresh_budget \<Rightarrow> bool \<times> refresh_budget" where
  "isBudgetExhausted clock budget = (if bu_hitLimit budget then (True, budget) else isBudgetExpired clock budget)"

section \<open>A physical line\<close>

record highlight_span =
  hs_startCol :: nat
  hs_width :: nat
  hs_color :: string

definition hasAnsiForegroundInRange :: "buffer_cell list \<Rightarrow> nat \<Rightarrow> nat \<Rightarrow> nat list option \<Rightarrow> bool" where
  "hasAnsiForegroundInRange line s e cellMap =
     list_ex (\<lambda>i. let c = cellColumn cellMap i in c < length line \<and> \<not> bc_fgDefault (line ! c)) [s..<e]"

definition isOverlapping :: "bool list \<Rightarrow> nat \<Rightarrow> nat \<Rightarrow> bool" where
  "isOverlapping occupied s e = list_ex (\<lambda>k. occupied ! k) [s..<e]"

definition occupy :: "nat \<Rightarrow> nat \<Rightarrow> bool list \<Rightarrow> bool list" where
  "occupy s e occupied = fold (\<lambda>k oc. oc[k := True]) [s..<e] occupied"

definition acceptMatch ::
  "buffer_cell list \<Rightarrow> nat list option \<Rightarrow> string \<Rightarrow> nat \<Rightarrow> nat \<Rightarrow> highlight_span list \<times> bool list \<Rightarrow> highlight_span list \<times> bool list" where
  "acceptMatch line cellMap color s e = (\<lambda>(spans, occupied).
     if isOverlapping occupied s e then (spans, occupied)
     else if hasAnsiForegroundInRange line s e cellMap then (spans, occupied)
     else let cellStartCol = cellColumn cellMap s; cellEndCol = cellColumn cellMap e in
          if cellEndCol \<le> cellStartCol then (spans, occupied)
          else (spans @ [\<lparr>hs_startCol = cellStartCol, hs_width = cellEndCol - cellStartCol, hs_color = color\<rparr>], occupy s e occupied))"

text \<open>
  The loop over the matches of one rule. The result tells whether the scan was cut off; \<open>None\<close> is a
  loop that ran out of fuel, which \<open>ruleLoop_returns\<close> excludes.
\<close>

type_synonym scan_state = "highlight_span list \<times> bool list \<times> refresh_budget"

fun ruleLoop ::
  "nat \<Rightarrow> (nat \<Rightarrow> rat) \<Rightarrow> nat \<Rightarrow> buffer_cell list \<Rightarrow> nat list option \<Rightarrow> js_text \<Rightarrow> compiled_rule \<Rightarrow> nat \<Rightarrow> scan_state \<Rightarrow> (bool \<times> scan_state) option" where
  "ruleLoop 0 clock maxMatches line cellMap text rule lastIndex st = None"
| "ruleLoop (Suc fuel) clock maxMatches line cellMap text rule lastIndex (spans, occupied, budget) =
     (if length spans \<ge> maxMatches then Some (False, spans, occupied, budget)
      else let (exhausted, budget) = isBudgetExhausted clock budget in
           if exhausted then Some (True, spans, occupied, budget)
           else case cr_exec rule text lastIndex of
                  None \<Rightarrow> Some (False, spans, occupied, budget)
                | Some (i, len) \<Rightarrow>
                    if len = 0 then ruleLoop fuel clock maxMatches line cellMap text rule (i + 1) (spans, occupied, budget)
                    else let (spans, occupied) = acceptMatch line cellMap (cr_color rule) i (i + len) (spans, occupied)
                         in ruleLoop fuel clock maxMatches line cellMap text rule (i + len) (spans, occupied, budget))"

fun rulesLoop ::
  "(nat \<Rightarrow> rat) \<Rightarrow> nat \<Rightarrow> buffer_cell list \<Rightarrow> nat list option \<Rightarrow> js_text \<Rightarrow> compiled_rule list \<Rightarrow> scan_state \<Rightarrow> (bool \<times> scan_state) option" where
  "rulesLoop clock maxMatches line cellMap text [] st = Some (False, st)"
| "rulesLoop clock maxMatches line cellMap text (rule # rules) (spans, occupied, budget) =
     (if length spans \<ge> maxMatches then Some (False, spans, occupied, budget)
      else let (exhausted, budget) = isBudgetExhausted clock budget in
           if exhausted then Some (True, spans, occupied, budget)
           else case ruleLoop (length text + 2) clock maxMatches line cellMap text rule 0 (spans, occupied, budget) of
                  None \<Rightarrow> None
                | Some (stopped, st) \<Rightarrow> if stopped then Some (True, st) else rulesLoop clock maxMatches line cellMap text rules st)"

text \<open>Spans, whether the scan is complete, and the budget.\<close>

definition scanPhysicalLine ::
  "(nat \<Rightarrow> rat) \<Rightarrow> highlight_config \<Rightarrow> compiled_rule list \<Rightarrow> nat \<Rightarrow> buffer_cell list \<Rightarrow> js_text \<Rightarrow> refresh_budget
     \<Rightarrow> (highlight_span list \<times> bool \<times> refresh_budget) option" where
  "scanPhysicalLine clock config rules cols line lineText budget =
     (if lineText = [] then Some ([], True, budget)
      else let maxCols = min (length line) cols in
           case rulesLoop clock (hc_maxMatchesPerLine config) line (lineCellMap line maxCols lineText) lineText rules
                  ([], replicate (length lineText) False, budget) of
             None \<Rightarrow> None
           | Some (stopped, spans, occupied, budget) \<Rightarrow> Some (spans, \<not> stopped, budget))"

section \<open>What the emulator and the expressions guarantee\<close>

text \<open>
  \<open>visits line maxCols col cs\<close>: reading from column \<open>col\<close>, the cells at the columns \<open>cs\<close> come next.
  \<open>text_of\<close>: the text is the units of such cells, and all units are below U+0100 only if every cell
  gives one unit and is one column wide.
\<close>

fun visits :: "buffer_cell list \<Rightarrow> nat \<Rightarrow> nat \<Rightarrow> nat list \<Rightarrow> bool" where
  "visits line maxCols col [] \<longleftrightarrow> True"
| "visits line maxCols col (c # cs) \<longleftrightarrow> c = col \<and> col < maxCols \<and> col < length line \<and> visits line maxCols (col + stride (line ! col)) cs"

definition cell_text :: "buffer_cell \<Rightarrow> js_text" where
  "cell_text cell = (if bc_chars cell = [] then [32] else bc_chars cell)"

definition text_of :: "buffer_cell list \<Rightarrow> nat \<Rightarrow> js_text \<Rightarrow> bool" where
  "text_of line maxCols text \<longleftrightarrow>
     (\<exists>cs. visits line maxCols 0 cs \<and> text = concat (map (\<lambda>c. cell_text (line ! c)) cs)
        \<and> (\<not> hasMultibyte text \<longrightarrow> (\<forall>c \<in> set cs. cellUnits (line ! c) = 1 \<and> stride (line ! c) = 1)))"

definition regex_ok :: "regex \<Rightarrow> bool" where
  "regex_ok exec \<longleftrightarrow> (\<forall>text li i len. exec text li = Some (i, len) \<longrightarrow> li \<le> i \<and> i + len \<le> length text)"

section \<open>The cell map\<close>

lemma cellUnits_text: "length (cell_text c) = cellUnits c"
  by (simp add: cell_text_def cellUnits_def)

lemma cellUnits_pos: "0 < cellUnits c"
  by (simp add: cellUnits_def)

definition lastEnd :: "buffer_cell list \<Rightarrow> nat \<Rightarrow> nat list \<Rightarrow> nat" where
  "lastEnd line col cs = (if cs = [] then col else last cs + stride (line ! last cs))"

lemma cellMapLoop_visits:
  assumes "visits line maxCols col cs" and "n = length acc + (\<Sum>c\<leftarrow>cs. cellUnits (line ! c))"
  shows "cellMapLoop line n maxCols col col acc
    = acc @ concat (map (\<lambda>c. replicate (cellUnits (line ! c)) c) cs) @ [lastEnd line col cs]"
  using assms
proof (induction cs arbitrary: col acc)
  case Nil
  then show ?case by (subst cellMapLoop.simps) (simp add: lastEnd_def)
next
  case (Cons c cs)
  let ?next = "col + stride (line ! col)"
  have c: "c = col" "col < maxCols" "col < length line" "visits line maxCols ?next cs" using Cons.prems(1) by auto
  have "length acc < n" using Cons.prems(2) cellUnits_pos[of "line ! c"] by simp
  then have "cellMapLoop line n maxCols col col acc
      = cellMapLoop line n maxCols ?next ?next (acc @ replicate (cellUnits (line ! col)) col)"
    using c by (subst cellMapLoop.simps) (auto simp: Let_def cellUnits_def)
  also have "\<dots> = (acc @ replicate (cellUnits (line ! col)) col) @ concat (map (\<lambda>c. replicate (cellUnits (line ! c)) c) cs) @ [lastEnd line ?next cs]"
    by (rule Cons.IH) (use c Cons.prems in auto)
  finally show ?case using c(1) by (auto simp: lastEnd_def)
qed

lemma visits_le: "visits line maxCols col cs \<Longrightarrow> c \<in> set cs \<Longrightarrow> col \<le> c \<and> c < maxCols"
proof (induction cs arbitrary: col)
  case (Cons d ds)
  then show ?case using Cons.IH[of "col + stride (line ! col)"] by (auto dest: add_leD1)
qed simp

lemma visits_sorted: "visits line maxCols col cs \<Longrightarrow> sorted cs \<and> (\<forall>c \<in> set cs. c < lastEnd line col cs)"
proof (induction cs arbitrary: col)
  case (Cons c cs)
  have v: "c = col" "visits line maxCols (col + stride (line ! col)) cs" using Cons.prems by auto
  have s: "0 < stride (line ! col)" by (simp add: stride_def)
  have "sorted cs" "\<forall>d \<in> set cs. d < lastEnd line (col + stride (line ! col)) cs" using Cons.IH[OF v(2)] by auto
  moreover have "\<forall>d \<in> set cs. c \<le> d" using visits_le[OF v(2)] v(1) by fastforce
  moreover have "c < lastEnd line col (c # cs)"
    using calculation(2,3) s v(1) by (cases cs) (auto simp: lastEnd_def intro: le_less_trans)
  ultimately show ?case by (auto simp: lastEnd_def)
qed simp

text \<open>
  The columns of a text that comes from a line: unit \<open>i\<close> lies in the cell of column \<open>cellColumn cm i\<close>,
  columns grow with the index, and all are columns of the terminal.
\<close>

lemma columns_exact:
  assumes t: "text_of line maxCols text"
    and cm: "cm = lineCellMap line maxCols text \<or> cm = Some (buildStringToCellMap line (length text) maxCols)"
  shows "\<exists>units. map snd units = text \<and> (\<forall>(c, u) \<in> set units. c < maxCols \<and> c < length line \<and> u \<in> set (cell_text (line ! c)))
      \<and> (\<forall>i < length text. cellColumn cm i = fst (units ! i))"
    and "i \<le> j \<Longrightarrow> j \<le> length text \<Longrightarrow> cellColumn cm i \<le> cellColumn cm j"
    and "\<exists>cs. visits line maxCols 0 cs \<and> text = concat (map (\<lambda>c. cell_text (line ! c)) cs)
      \<and> (\<forall>i \<le> length text. cellColumn cm i = (concat (map (\<lambda>c. replicate (cellUnits (line ! c)) c) cs) @ [lastEnd line 0 cs]) ! i)"
proof -
  obtain cs where v: "visits line maxCols 0 cs" and tx: "text = concat (map (\<lambda>c. cell_text (line ! c)) cs)"
    and ascii: "\<not> hasMultibyte text \<Longrightarrow> \<forall>c \<in> set cs. cellUnits (line ! c) = 1 \<and> stride (line ! c) = 1"
    using t by (auto simp: text_of_def)
  let ?m = "concat (map (\<lambda>c. replicate (cellUnits (line ! c)) c) cs)"
  have lenm: "length ?m = length text" by (simp add: tx length_concat o_def cellUnits_text)
  have n: "length text = (\<Sum>c\<leftarrow>cs. cellUnits (line ! c))" by (simp add: tx length_concat o_def cellUnits_text)
  have plain: "visits line maxCols col ds \<Longrightarrow> \<forall>c \<in> set ds. cellUnits (line ! c) = 1 \<and> stride (line ! c) = 1
      \<Longrightarrow> concat (map (\<lambda>c. replicate (cellUnits (line ! c)) c) ds) @ [lastEnd line col ds] = [col..<col + length ds + 1]" for col ds
  proof (induction ds arbitrary: col)
    case (Cons d ds)
    have "concat (map (\<lambda>c. replicate (cellUnits (line ! c)) c) ds) @ [lastEnd line (col + 1) ds] = [col + 1..<col + 1 + length ds + 1]"
      by (rule Cons.IH) (use Cons.prems in auto)
    with Cons.prems show ?case by (cases ds) (simp_all add: lastEnd_def upt_conv_Cons del: upt_Suc)
  qed (simp add: lastEnd_def)
  have cols: "cellColumn cm i = (?m @ [lastEnd line 0 cs]) ! i" if "i \<le> length text" for i
  proof (cases "cm = Some (buildStringToCellMap line (length text) maxCols)")
    case True
    then have "cm = Some (?m @ [lastEnd line 0 cs])"
      using cellMapLoop_visits[OF v, of "length text" "[]"] n by (simp add: buildStringToCellMap_def)
    with that lenm show ?thesis by (simp add: cellColumn_def)
  next
    case other: False
    then have cm: "cm = lineCellMap line maxCols text" and False: "\<not> hasMultibyte text"
      using cm by (auto simp: lineCellMap_def)
    have ones: "\<forall>c \<in> set ds. f c = 1 \<Longrightarrow> sum_list (map f ds) = length ds" for f :: "nat \<Rightarrow> nat" and ds
      by (induction ds) auto
    from False have "length cs = length text" using ascii n ones[of cs "\<lambda>c. cellUnits (line ! c)"] by simp
    with that False plain[OF v ascii[OF False]] show ?thesis by (simp add: cm lineCellMap_def cellColumn_def del: upt_Suc)
  qed
  show "\<exists>cs. visits line maxCols 0 cs \<and> text = concat (map (\<lambda>c. cell_text (line ! c)) cs)
      \<and> (\<forall>i \<le> length text. cellColumn cm i = (concat (map (\<lambda>c. replicate (cellUnits (line ! c)) c) cs) @ [lastEnd line 0 cs]) ! i)"
    using v tx cols by blast
  let ?u = "concat (map (\<lambda>c. map (Pair c) (cell_text (line ! c))) cs)"
  have "map snd ?u = text" by (simp add: tx map_concat o_def)
  moreover have "\<forall>(c, u) \<in> set ?u. c < maxCols \<and> c < length line \<and> u \<in> set (cell_text (line ! c))"
  proof -
    have "visits line maxCols col ds \<Longrightarrow> c \<in> set ds \<Longrightarrow> c < length line" for col ds c
      by (induction ds arbitrary: col) auto
    with v visits_le[OF v] show ?thesis by auto
  qed
  moreover have "\<forall>i < length text. cellColumn cm i = fst (?u ! i)"
  proof (intro allI impI)
    fix i assume i: "i < length text"
    have fst_u: "map fst ?u = ?m" by (simp add: map_concat o_def map_replicate_const cellUnits_text)
    from arg_cong[OF this, of length] have "i < length ?u" using i lenm by simp
    then have "fst (?u ! i) = ?m ! i" using arg_cong[OF fst_u, of "\<lambda>xs. xs ! i"] by simp
    then show "cellColumn cm i = fst (?u ! i)" using cols[of i] i lenm by (simp add: nth_append)
  qed
  ultimately show "\<exists>units. map snd units = text \<and> (\<forall>(c, u) \<in> set units. c < maxCols \<and> c < length line \<and> u \<in> set (cell_text (line ! c)))
      \<and> (\<forall>i < length text. cellColumn cm i = fst (units ! i))" by blast
  have "sorted (concat (map (\<lambda>c. replicate (k c) c) ds))" if "sorted ds" for ds :: "nat list" and k
    using that by (induction ds) (auto simp: sorted_append)
  then have "sorted (?m @ [lastEnd line 0 cs])"
    using visits_sorted[OF v] by (auto simp: sorted_append less_imp_le)
  then show "i \<le> j \<Longrightarrow> j \<le> length text \<Longrightarrow> cellColumn cm i \<le> cellColumn cm j"
    using cols lenm sorted_nth_mono[of "?m @ [lastEnd line 0 cs]" i j] by simp
qed

section \<open>The scan as a greedy selection\<close>

fun matchesOf :: "nat \<Rightarrow> js_text \<Rightarrow> compiled_rule \<Rightarrow> nat \<Rightarrow> (string \<times> nat \<times> nat) list" where
  "matchesOf 0 text rule li = []"
| "matchesOf (Suc fuel) text rule li =
     (case cr_exec rule text li of
        None \<Rightarrow> []
      | Some (i, len) \<Rightarrow> if len = 0 then matchesOf fuel text rule (i + 1) else (cr_color rule, i, i + len) # matchesOf fuel text rule (i + len))"

text \<open>All nonempty matches of all rules, the rules in order of priority.\<close>

definition allMatches :: "js_text \<Rightarrow> compiled_rule list \<Rightarrow> (string \<times> nat \<times> nat) list" where
  "allMatches text rules = concat (map (\<lambda>r. matchesOf (length text + 2) text r 0) rules)"

definition greedy ::
  "buffer_cell list \<Rightarrow> nat list option \<Rightarrow> (string \<times> nat \<times> nat) list \<Rightarrow> highlight_span list \<times> bool list \<Rightarrow> highlight_span list \<times> bool list" where
  "greedy line cellMap ms = fold (\<lambda>(color, s, e). acceptMatch line cellMap color s e) ms"

lemma greedy_append: "greedy line cm (a @ b) st = greedy line cm b (greedy line cm a st)"
  by (simp add: greedy_def)

lemma greedy_Cons: "greedy line cm ((c, s, e) # ms) st = greedy line cm ms (acceptMatch line cm c s e st)"
  by (simp add: greedy_def)

lemma greedy_Nil [simp]: "greedy line cm [] st = st"
  by (simp add: greedy_def)

text \<open>
  What the loops compute: always a result, the greedy selection over the matches read so far; all
  matches are read unless the budget ran out or the line has its full number of spans.
\<close>

definition selects :: "buffer_cell list \<Rightarrow> nat list option \<Rightarrow> nat \<Rightarrow> (string \<times> nat \<times> nat) list
    \<Rightarrow> highlight_span list \<times> bool list \<Rightarrow> (bool \<times> scan_state) option \<Rightarrow> bool" where
  "selects line cm m ms st r \<longleftrightarrow>
     (\<exists>stopped spans oc bu pre rest. r = Some (stopped, spans, oc, bu) \<and> ms = pre @ rest \<and> greedy line cm pre st = (spans, oc)
        \<and> length spans \<le> m \<and> (\<not> stopped \<and> length spans < m \<longrightarrow> rest = []))"

lemma selectsI:
  assumes "ms = pre @ rest" "greedy line cm pre st = (spans, oc)" "length spans \<le> m"
    and "\<not> stopped \<Longrightarrow> length spans < m \<Longrightarrow> rest = []"
  shows "selects line cm m ms st (Some (stopped, spans, oc, bu))"
  using assms unfolding selects_def by blast

lemma selectsE:
  assumes "selects line cm m ms st r"
  obtains stopped spans oc bu pre rest where "r = Some (stopped, spans, oc, bu)" "ms = pre @ rest" "greedy line cm pre st = (spans, oc)"
    "length spans \<le> m" "\<not> stopped \<Longrightarrow> length spans < m \<Longrightarrow> rest = []"
  using assms unfolding selects_def by blast

lemma selects_now: "length spans \<le> m \<Longrightarrow> stopped \<or> m \<le> length spans \<or> ms = [] \<Longrightarrow>
    selects line cm m ms (spans, oc) (Some (stopped, spans, oc, bu))"
  by (rule selectsI[of ms "[]" ms]) auto

lemma selects_step:
  assumes "selects line cm m ms (acceptMatch line cm c s e st) r"
  shows "selects line cm m ((c, s, e) # ms) st r"
  using assms
proof (cases rule: selectsE)
  case (1 stopped spans oc bu pre rest)
  then show ?thesis using selectsI[of _ "(c, s, e) # pre" rest] by (simp add: greedy_Cons)
qed

lemma acceptMatch_length: "length (fst (acceptMatch line cm c s e st)) \<le> Suc (length (fst st))"
  by (cases st) (simp add: acceptMatch_def Let_def)

lemma regex_okD: "regex_ok f \<Longrightarrow> f text li = Some (i, len) \<Longrightarrow> li \<le> i \<and> i + len \<le> length text"
  by (auto simp: regex_ok_def)

text \<open>Fuel for one more call than there are positions suffices: beyond the text nothing matches.\<close>

lemma ruleLoop_selects:
  assumes ok: "regex_ok (cr_exec rule)" and "length text + 2 \<le> fuel + li" "0 < fuel" "length spans \<le> m"
  shows "selects line cm m (matchesOf fuel text rule li) (spans, oc) (ruleLoop fuel clock m line cm text rule li (spans, oc, bu))"
  using assms(2-)
proof (induction fuel arbitrary: li spans oc bu)
  case (Suc fuel)
  show ?case
  proof (cases "m \<le> length spans")
    case True
    with Suc.prems(3) show ?thesis using selects_now[of spans m False] by simp
  next
    case False
    obtain ex bu' where b: "isBudgetExhausted clock bu = (ex, bu')" by force
    show ?thesis
    proof (cases ex)
      case True
      with False b show ?thesis using selects_now[of spans m True] by simp
    next
      case ne: False
      show ?thesis
      proof (cases "cr_exec rule text li")
        case None
        with False b ne show ?thesis using selects_now[of spans m False "[]"] by simp
      next
        case (Some il)
        obtain i len where il: "il = (i, len)" by force
        have bound: "li \<le> i" "i + len \<le> length text" using regex_okD[OF ok] Some il by blast+
        then have f: "0 < fuel" using Suc.prems(1) by linarith
        show ?thesis
        proof (cases "len = 0")
          case True
          with Suc.IH[of "i + 1" spans oc bu'] bound f Suc.prems False b ne Some il show ?thesis by simp
        next
          case nonempty: False
          obtain sp oc' where a: "acceptMatch line cm (cr_color rule) i (i + len) (spans, oc) = (sp, oc')" by force
          have "length sp \<le> m" using acceptMatch_length[of line cm "cr_color rule" i "i + len" "(spans, oc)"] a False by simp
          then have "selects line cm m (matchesOf fuel text rule (i + len)) (sp, oc')
              (ruleLoop fuel clock m line cm text rule (i + len) (sp, oc', bu'))"
            using Suc.IH[of "i + len" sp oc' bu'] bound f nonempty Suc.prems by simp
          then have "selects line cm m ((cr_color rule, i, i + len) # matchesOf fuel text rule (i + len)) (spans, oc)
              (ruleLoop fuel clock m line cm text rule (i + len) (sp, oc', bu'))"
            by (intro selects_step) (simp add: a)
          with False b ne Some il nonempty a show ?thesis by simp
        qed
      qed
    qed
  qed
qed simp

lemma selects_then:
  assumes "selects line cm m ms st r"
    and "\<And>spans oc bu. r = Some (False, spans, oc, bu) \<Longrightarrow> length spans \<le> m \<Longrightarrow> selects line cm m ms' (spans, oc) (k (spans, oc, bu))"
    and full: "\<And>spans oc bu. m \<le> length spans \<Longrightarrow> k (spans, oc, bu) = Some (False, spans, oc, bu)"
  shows "selects line cm m (ms @ ms') st (case r of None \<Rightarrow> None | Some (stopped, st') \<Rightarrow> if stopped then Some (True, st') else k st')"
proof -
  from assms(1) show ?thesis
  proof (cases rule: selectsE)
    case r: (1 stopped spans oc bu pre rest)
    show ?thesis
    proof (cases stopped)
      case True
      with r show ?thesis using selectsI[of "ms @ ms'" pre "rest @ ms'" line cm st spans oc m True bu] by simp
    next
      case False
      show ?thesis
      proof (cases "length spans < m")
        case True
        from assms(2)[of spans oc bu] r False have "selects line cm m ms' (spans, oc) (k (spans, oc, bu))" by simp
        then show ?thesis
        proof (cases rule: selectsE)
          case (1 s2 sp2 oc2 bu2 pre2 rest2)
          then show ?thesis using selectsI[of _ "pre @ pre2" rest2] r False True by (simp add: greedy_append)
        qed
      next
        case capped: False
        then have "k (spans, oc, bu) = Some (False, spans, oc, bu)" using r False by (intro full) auto
        with r False capped show ?thesis using selectsI[of _ pre "rest @ ms'"] by simp
      qed
    qed
  qed
qed

lemma rulesLoop_selects:
  assumes "\<forall>r \<in> set rules. regex_ok (cr_exec r)" "length spans \<le> m"
  shows "selects line cm m (allMatches text rules) (spans, oc) (rulesLoop clock m line cm text rules (spans, oc, bu))"
  using assms
proof (induction rules arbitrary: spans oc bu)
  case Nil
  then show ?case using selects_now[of spans m False "[]"] by (simp add: allMatches_def)
next
  case (Cons rule rules)
  obtain ex bu' where b: "isBudgetExhausted clock bu = (ex, bu')" by force
  show ?case
  proof (cases "m \<le> length spans \<or> ex")
    case True
    with b Cons.prems(2) show ?thesis
      using selects_now[of spans m False] selects_now[of spans m True] by auto
  next
    case False
    have "selects line cm m (matchesOf (length text + 2) text rule 0 @ allMatches text rules) (spans, oc)
       (case ruleLoop (length text + 2) clock m line cm text rule 0 (spans, oc, bu') of None \<Rightarrow> None
        | Some (stopped, st') \<Rightarrow> if stopped then Some (True, st') else rulesLoop clock m line cm text rules st')"
    proof (rule selects_then[OF ruleLoop_selects])
      show "selects line cm m (allMatches text rules) (sp, oc') (rulesLoop clock m line cm text rules (sp, oc', b))" if "length sp \<le> m" for sp oc' b
        using Cons that by simp
      show "rulesLoop clock m line cm text rules (sp, oc', b) = Some (False, sp, oc', b)" if "m \<le> length sp" for sp oc' b
        using that by (cases rules) auto
    qed (use Cons.prems in auto)
    with False b show ?thesis by (simp add: allMatches_def)
  qed
qed

section \<open>Spans never overlap\<close>

lemma length_occupy [simp]: "length (occupy s e oc) = length oc"
proof -
  have "length (fold (\<lambda>k oc. oc[k := True]) ks oc) = length oc" for ks
    by (induction ks arbitrary: oc) auto
  then show ?thesis by (simp add: occupy_def)
qed

lemma occupy_nth: "i < length oc \<Longrightarrow> occupy s e oc ! i \<longleftrightarrow> oc ! i \<or> s \<le> i \<and> i < e"
proof -
  have "fold (\<lambda>k oc. oc[k := True]) ks oc ! i \<longleftrightarrow> oc ! i \<or> i \<in> set ks" if "i < length oc" for ks
    using that
  proof (induction ks arbitrary: oc)
    case (Cons k ks)
    then show ?case by (cases "k = i") auto
  qed simp
  then show "i < length oc \<Longrightarrow> occupy s e oc ! i \<longleftrightarrow> oc ! i \<or> s \<le> i \<and> i < e"
    by (simp add: occupy_def)
qed

definition spanOf :: "nat list option \<Rightarrow> string \<times> nat \<times> nat \<Rightarrow> highlight_span" where
  "spanOf cm = (\<lambda>(color, s, e). \<lparr>hs_startCol = cellColumn cm s, hs_width = cellColumn cm e - cellColumn cm s, hs_color = color\<rparr>)"

definition apart :: "string \<times> nat \<times> nat \<Rightarrow> string \<times> nat \<times> nat \<Rightarrow> bool" where
  "apart = (\<lambda>(_, s, e) (_, s', e'). e \<le> s' \<or> e' \<le> s)"

text \<open>
  Which matches are to be highlighted, when \<open>col i\<close> is the column of unit \<open>i\<close>: a match fits if it has no
  unit in common with an earlier chosen one, none of its cells has a colour of its own, and it is not
  empty on the screen; of matches in order, each that fits beside those chosen before it is chosen.
\<close>

definition fits :: "buffer_cell list \<Rightarrow> (nat \<Rightarrow> nat) \<Rightarrow> (string \<times> nat \<times> nat) list \<Rightarrow> string \<times> nat \<times> nat \<Rightarrow> bool" where
  "fits line col earlier = (\<lambda>(color, s, e).
     (\<forall>(c', s', e') \<in> set earlier. e' \<le> s \<or> e \<le> s')
   \<and> (\<forall>i. s \<le> i \<and> i < e \<and> col i < length line \<longrightarrow> bc_fgDefault (line ! col i))
   \<and> col s < col e)"

definition chosen :: "buffer_cell list \<Rightarrow> (nat \<Rightarrow> nat) \<Rightarrow> (string \<times> nat \<times> nat) list \<Rightarrow> (string \<times> nat \<times> nat) list" where
  "chosen line col ms = fold (\<lambda>m sel. if fits line col sel m then sel @ [m] else sel) ms []"

lemma chosen_simps [simp]:
  "chosen line col [] = []"
  "chosen line col (ms @ [m]) = (if fits line col (chosen line col ms) m then chosen line col ms @ [m] else chosen line col ms)"
  by (simp_all add: chosen_def)

text \<open>The columns of the units of a text, and of its end, when the text is read from the cells at \<open>cs\<close>.\<close>

definition columnsOf :: "buffer_cell list \<Rightarrow> nat \<Rightarrow> js_text \<Rightarrow> (nat \<Rightarrow> nat) \<Rightarrow> bool" where
  "columnsOf line maxCols text col \<longleftrightarrow>
     (\<exists>cs. visits line maxCols 0 cs \<and> text = concat (map (\<lambda>c. cell_text (line ! c)) cs)
        \<and> map col [0..<length text] = concat (map (\<lambda>c. replicate (length (cell_text (line ! c))) c) cs)
        \<and> col (length text) = (if cs = [] then 0 else last cs + stride (line ! last cs)))"

text \<open>The selection: the matches taken, the spans that stand for them and the units they occupy.\<close>

definition selection :: "buffer_cell list \<Rightarrow> nat list option \<Rightarrow> nat \<Rightarrow> (string \<times> nat \<times> nat) list \<Rightarrow> (string \<times> nat \<times> nat) list
    \<Rightarrow> highlight_span list \<times> bool list \<Rightarrow> bool" where
  "selection line cm n ms sel st \<longleftrightarrow>
     sel = chosen line (cellColumn cm) ms \<and> set sel \<subseteq> set ms \<and> fst st = map (spanOf cm) sel \<and> length (snd st) = n
   \<and> (\<forall>k < n. snd st ! k \<longleftrightarrow> (\<exists>(c, s, e) \<in> set sel. s \<le> k \<and> k < e)) \<and> sorted_wrt apart sel
   \<and> (\<forall>(c, s, e) \<in> set sel. cellColumn cm s < cellColumn cm e \<and> \<not> hasAnsiForegroundInRange line s e cm)"

lemma not_overlapping:
  assumes "\<forall>k < n. oc ! k \<longleftrightarrow> (\<exists>(c, s, e) \<in> set sel. s \<le> k \<and> k < e)" "\<not> isOverlapping oc s e" "s < e" "e \<le> n"
    and "(c', s', e') \<in> set sel" "s' < e'"
  shows "e' \<le> s \<or> e \<le> s'"
proof (rule ccontr)
  assume "\<not> ?thesis"
  then have k: "max s s' < e" "max s s' < e'" "s \<le> max s s'" "s' \<le> max s s'" "max s s' < n"
    using assms(3,4,6) by auto
  then have "oc ! max s s'" using assms(1,5) by blast
  with k assms(2) show False by (auto simp: isOverlapping_def list_ex_iff)
qed

lemma selection_step:
  assumes sel: "selection line cm n ms sel st" and se: "s < e" "e \<le> n" and pos: "\<forall>(c, s, e) \<in> set ms. s < e"
  shows "\<exists>sel'. selection line cm n (ms @ [(color, s, e)]) sel' (acceptMatch line cm color s e st)"
proof -
  obtain spans oc where st: "st = (spans, oc)" by force
  show ?thesis
  proof (cases "isOverlapping oc s e \<or> hasAnsiForegroundInRange line s e cm \<or> cellColumn cm e \<le> cellColumn cm s")
    case True
    then have "acceptMatch line cm color s e st = st" by (auto simp: st acceptMatch_def Let_def)
    moreover have "\<not> fits line (cellColumn cm) sel (color, s, e)"
    proof (cases "isOverlapping oc s e")
      case True
      then obtain k where k: "s \<le> k" "k < e" "oc ! k" by (auto simp: isOverlapping_def list_ex_iff)
      then obtain c' s' e' where "(c', s', e') \<in> set sel" "s' \<le> k" "k < e'" using sel se(2) by (auto simp: selection_def st)
      with k show ?thesis by (force simp: fits_def)
    next
      case not_overlapping: False
      with True show ?thesis by (auto simp: fits_def hasAnsiForegroundInRange_def list_ex_iff Let_def)
    qed
    moreover have "sel = chosen line (cellColumn cm) ms" using sel unfolding selection_def by blast
    ultimately have same: "acceptMatch line cm color s e st = st" "chosen line (cellColumn cm) (ms @ [(color, s, e)]) = sel" by auto
    have "selection line cm n (ms @ [(color, s, e)]) sel (acceptMatch line cm color s e st)"
      using sel unfolding selection_def same set_append by blast
    then show ?thesis by blast
  next
    case False
    have occ: "\<forall>k < n. oc ! k \<longleftrightarrow> (\<exists>(c, s, e) \<in> set sel. s \<le> k \<and> k < e)" "set sel \<subseteq> set ms" "length oc = n"
      and rest: "spans = map (spanOf cm) sel" "sorted_wrt apart sel"
        "\<forall>(c, s, e) \<in> set sel. cellColumn cm s < cellColumn cm e \<and> \<not> hasAnsiForegroundInRange line s e cm"
      and ch: "chosen line (cellColumn cm) ms = sel"
      using sel unfolding selection_def st fst_conv snd_conv by blast+
    have apart: "apart t (color, s, e)" if "t \<in> set sel" for t
    proof -
      obtain c' s' e' where t: "t = (c', s', e')" by (cases t)
      have "s' < e'" using that occ(2) pos t by blast
      with not_overlapping[OF occ(1) _ se, of c' s' e'] False that t show ?thesis by (auto simp: apart_def)
    qed
    then have "fits line (cellColumn cm) sel (color, s, e)"
      using False by (force simp: fits_def apart_def hasAnsiForegroundInRange_def list_ex_iff Let_def)
    then have "chosen line (cellColumn cm) (ms @ [(color, s, e)]) = sel @ [(color, s, e)]" by (simp add: ch)
    moreover have "sorted_wrt apart (sel @ [(color, s, e)])" using rest(2) apart by (simp add: sorted_wrt_append)
    moreover have "occupy s e oc ! k \<longleftrightarrow> (\<exists>(c, s, e) \<in> set (sel @ [(color, s, e)]). s \<le> k \<and> k < e)" if "k < n" for k
      using occupy_nth[of k oc s e] occ(1,3) that by auto
    ultimately have "selection line cm n (ms @ [(color, s, e)]) (sel @ [(color, s, e)]) (acceptMatch line cm color s e st)"
      using occ(2,3) rest(1,3) False unfolding selection_def by (auto simp: st acceptMatch_def Let_def spanOf_def)
    then show ?thesis by blast
  qed
qed

lemma greedy_selection:
  assumes "\<forall>(c, s, e) \<in> set ms. s < e \<and> e \<le> n"
  shows "\<exists>sel. selection line cm n ms sel (greedy line cm ms ([], replicate n False))"
  using assms
proof (induction ms rule: rev_induct)
  case Nil
  then show ?case by (intro exI[of _ "[]"]) (simp add: selection_def)
next
  case (snoc m ms)
  obtain c s e where m: "m = (c, s, e)" by (cases m)
  obtain sel where "selection line cm n ms sel (greedy line cm ms ([], replicate n False))" using snoc by auto
  moreover have "s < e" "e \<le> n" "\<forall>(c, s, e) \<in> set ms. s < e" using snoc.prems m by auto
  ultimately show ?case using selection_step[of line cm n ms sel _ s e c] m by (simp add: greedy_append greedy_Cons)
qed

lemma matchesOf_bounds:
  assumes "regex_ok (cr_exec rule)" "(c, s, e) \<in> set (matchesOf fuel text rule li)"
  shows "s < e \<and> e \<le> length text \<and> c = cr_color rule \<and> (\<exists>li'. cr_exec rule text li' = Some (s, e - s))"
  using assms(2)
proof (induction fuel arbitrary: li)
  case (Suc fuel)
  show ?case
  proof (cases "cr_exec rule text li")
    case (Some il)
    with Suc show ?thesis using regex_okD[OF assms(1), of "text" li "fst il" "snd il"]
      by (cases il) (auto split: if_splits)
  qed (use Suc.prems in simp)
qed simp

text \<open>Columns of spans do not overlap because columns grow with the index.\<close>

definition spans_apart :: "highlight_span \<Rightarrow> highlight_span \<Rightarrow> bool" where
  "spans_apart a b \<longleftrightarrow> hs_startCol a + hs_width a \<le> hs_startCol b \<or> hs_startCol b + hs_width b \<le> hs_startCol a"

lemma apart_columns:
  assumes mono: "\<And>i j. i \<le> j \<Longrightarrow> j \<le> n \<Longrightarrow> cellColumn cm i \<le> cellColumn cm j"
    and "apart a b" "a = (c, s, e)" "b = (c', s', e')" "s < e" "e \<le> n" "s' < e'" "e' \<le> n"
  shows "spans_apart (spanOf cm a) (spanOf cm b)"
  using assms(2-) mono[of s e] mono[of s' e'] mono[of e s'] mono[of e' s] by (auto simp: apart_def spans_apart_def spanOf_def)

text \<open>The cell map gives the columns of the units.\<close>

lemma columnsOf_cellColumn:
  assumes "text_of line maxCols text" and "cm = lineCellMap line maxCols text"
  shows "columnsOf line maxCols text (cellColumn cm)"
proof -
  obtain cs where cs: "visits line maxCols 0 cs" "text = concat (map (\<lambda>c. cell_text (line ! c)) cs)"
    and col: "\<forall>i \<le> length text. cellColumn cm i = (concat (map (\<lambda>c. replicate (cellUnits (line ! c)) c) cs) @ [lastEnd line 0 cs]) ! i"
    using columns_exact(3)[OF assms(1) disjI1[OF assms(2)]] by blast
  let ?m = "concat (map (\<lambda>c. replicate (cellUnits (line ! c)) c) cs)"
  have len: "length ?m = length text" by (simp add: cs(2) length_concat o_def cellUnits_text)
  then have "map (cellColumn cm) [0..<length text] = ?m"
    using col by (intro nth_equalityI) (simp_all add: nth_append)
  moreover have "cellColumn cm (length text) = lastEnd line 0 cs" using col len by (metis le_refl nth_append_length)
  ultimately show ?thesis using cs by (auto simp: columnsOf_def cellUnits_text lastEnd_def)
qed

text \<open>A scan is only cut off by the clock.\<close>

definition calm :: "(nat \<Rightarrow> rat) \<Rightarrow> refresh_budget \<Rightarrow> bool" where
  "calm clock bu \<longleftrightarrow> \<not> bu_hitLimit bu \<and> (\<forall>k. clock k \<le> bu_deadline bu)"

lemma calm_budget: "calm clock bu \<Longrightarrow> isBudgetExhausted clock bu = (ex, bu') \<Longrightarrow> \<not> ex \<and> calm clock bu'"
  by (auto simp: calm_def isBudgetExhausted_def isBudgetExpired_def Let_def)

lemma ruleLoop_calm:
  "calm clock bu \<Longrightarrow> ruleLoop fuel clock m line cm text rule li (spans, oc, bu) = Some (stopped, spans', oc', bu')
     \<Longrightarrow> \<not> stopped \<and> calm clock bu'"
proof (induction fuel arbitrary: li spans oc bu)
  case (Suc fuel)
  obtain ex bu1 where b: "isBudgetExhausted clock bu = (ex, bu1)" by force
  with calm_budget[OF Suc.prems(1)] have ex: "\<not> ex" "calm clock bu1" by blast+
  show ?case
  proof (cases "length spans < m \<and> cr_exec rule text li \<noteq> None")
    case False
    then consider "m \<le> length spans" | "cr_exec rule text li = None" by force
    then show ?thesis using Suc.prems b ex by cases (auto split: if_splits)
  next
    case True
    then obtain i len where il: "cr_exec rule text li = Some (i, len)" by auto
    obtain sp oc1 where a: "acceptMatch line cm (cr_color rule) i (i + len) (spans, oc) = (sp, oc1)" by force
    show ?thesis
      using Suc.IH[OF ex(2), of "i + 1" spans oc] Suc.IH[OF ex(2), of "i + len" sp oc1] Suc.prems(2) b ex(1) il a True
      by (cases "len = 0") auto
  qed
qed simp

lemma rulesLoop_calm:
  "calm clock bu \<Longrightarrow> rulesLoop clock m line cm text rules (spans, oc, bu) = Some (stopped, spans', oc', bu') \<Longrightarrow> \<not> stopped"
proof (induction rules arbitrary: spans oc bu)
  case (Cons rule rules)
  obtain ex bu1 where b: "isBudgetExhausted clock bu = (ex, bu1)" by force
  with calm_budget[OF Cons.prems(1)] have ex: "\<not> ex" "calm clock bu1" by blast+
  show ?case
  proof (cases "length spans < m")
    case False
    with Cons.prems show ?thesis by simp
  next
    case True
    let ?r = "ruleLoop (length text + 2) clock m line cm text rule 0 (spans, oc, bu1)"
    from Cons.prems(2) b ex(1) True obtain st sp oc1 bu2 where r: "?r = Some (st, sp, oc1, bu2)" by (cases ?r) auto
    with ruleLoop_calm[OF ex(2) r] Cons.IH[of bu2 sp oc1] Cons.prems(2) b ex(1) True show ?thesis by auto
  qed
qed simp

text \<open>C35: scanning a line always returns, with at most the allowed number of spans; without running out of
  time it is complete, and a complete scan of a line that is not full has considered every match of
  every rule, in the order of the rules. The spans are exactly those of the chosen matches: each
  match that has no unit in common with one chosen before it, covers no cell the program on the
  terminal has coloured itself and is not empty on the screen. They begin and end at the columns of
  the cells the text was read from, so no two share a column and all start on the terminal.\<close>

theorem scan_line_exact:
  assumes "\<forall>r \<in> set rules. regex_ok (cr_exec r)" and "text_of line (min (length line) cols) text" and "text \<noteq> []"
  shows "\<exists>spans complete bu' considered unread col.
       scanPhysicalLine clock config rules cols line text bu = Some (spans, complete, bu')
     \<and> columnsOf line (min (length line) cols) text col
     \<and> allMatches text rules = considered @ unread \<and> (complete \<and> length spans < hc_maxMatchesPerLine config \<longrightarrow> unread = [])
     \<and> (\<not> bu_hitLimit bu \<and> (\<forall>k. clock k \<le> bu_deadline bu) \<longrightarrow> complete)
     \<and> spans = map (\<lambda>(color, s, e). \<lparr>hs_startCol = col s, hs_width = col e - col s, hs_color = color\<rparr>) (chosen line col considered)
     \<and> length spans \<le> hc_maxMatchesPerLine config \<and> sorted_wrt spans_apart spans
     \<and> (\<forall>(c, s, e) \<in> set considered. s < e \<and> e \<le> length text
          \<and> (\<exists>r \<in> set rules. c = cr_color r \<and> (\<exists>li. cr_exec r text li = Some (s, e - s))))
     \<and> (\<forall>h \<in> set spans. 0 < hs_width h \<and> hs_startCol h < cols)"
proof -
  let ?n = "length text" and ?m = "hc_maxMatchesPerLine config" and ?st = "([], replicate (length text) False)"
  define cm where cm: "cm = lineCellMap line (min (length line) cols) text"
  have bounds: "s < e \<and> e \<le> ?n \<and> (\<exists>r \<in> set rules. c = cr_color r \<and> (\<exists>li. cr_exec r text li = Some (s, e - s)))"
    if mem: "(c, s, e) \<in> set (allMatches text rules)" for c s e
  proof -
    obtain r where r: "r \<in> set rules" "(c, s, e) \<in> set (matchesOf (?n + 2) text r 0)"
      using mem unfolding allMatches_def set_concat set_map by blast
    with matchesOf_bounds[OF _ r(2)] assms(1) show ?thesis by blast
  qed
  have "selects line cm ?m (allMatches text rules) ?st (rulesLoop clock ?m line cm text rules ([], replicate ?n False, bu))"
    by (rule rulesLoop_selects[OF assms(1)]) simp
  then show ?thesis
  proof (cases rule: selectsE)
    case (1 stopped spans oc bu' pre rest)
    have scan: "scanPhysicalLine clock config rules cols line text bu = Some (spans, \<not> stopped, bu')"
      using 1(1) assms(3) by (simp add: scanPhysicalLine_def cm)
    obtain sel where sel: "selection line cm ?n pre sel (spans, oc)"
      using greedy_selection[of pre ?n line cm] bounds 1(2,3) by force
    then have s: "spans = map (spanOf cm) sel" "sel = chosen line (cellColumn cm) pre" "set sel \<subseteq> set pre" "sorted_wrt apart sel"
      and cols: "\<forall>(c, s, e) \<in> set sel. cellColumn cm s < cellColumn cm e \<and> \<not> hasAnsiForegroundInRange line s e cm"
      unfolding selection_def fst_conv by blast+
    have within: "s < e \<and> e \<le> ?n \<and> (\<exists>r \<in> set rules. c = cr_color r \<and> (\<exists>li. cr_exec r text li = Some (s, e - s)))"
      if "(c, s, e) \<in> set sel" for c s e
      using bounds[of c s e] that s(3) 1(2) by auto
    note mono = columns_exact(2)[OF assms(2) disjI1[OF cm]]
    have "sorted_wrt spans_apart spans"
      unfolding s(1) sorted_wrt_map
    proof (rule sorted_wrt_mono_rel[OF _ s(4)])
      fix a b assume ab: "a \<in> set sel" "b \<in> set sel" "apart a b"
      show "spans_apart (spanOf cm a) (spanOf cm b)"
      proof (cases a; cases b)
        fix c s e c' s' e' assume ab': "a = (c, s, e)" "b = (c', s', e')"
        then have "s < e" "e \<le> ?n" "s' < e'" "e' \<le> ?n" using within ab(1,2) by blast+
        then show ?thesis using apart_columns[where n = ?n, OF mono ab(3) ab'] by blast
      qed
    qed
    moreover have "cellColumn cm i < cols" if "i < ?n" for i
    proof -
      obtain units where u: "map snd units = text" "\<forall>i < ?n. cellColumn cm i = fst (units ! i)"
        and c: "\<forall>(c, u) \<in> set units. c < min (length line) cols \<and> c < length line \<and> u \<in> set (cell_text (line ! c))"
        using columns_exact(1)[OF assms(2) disjI1[OF cm]] by blast
      then have "units ! i \<in> set units" using that by (metis length_map nth_mem)
      with u c that show ?thesis by (auto simp: case_prod_unfold)
    qed
    then have "\<forall>h \<in> set spans. 0 < hs_width h \<and> hs_startCol h < cols"
      using cols within by (force simp: s(1) spanOf_def)
    moreover have "calm clock bu \<Longrightarrow> \<not> stopped" using rulesLoop_calm[of clock bu] 1(1) by blast
    ultimately show ?thesis
      using scan 1 s(1,2) bounds columnsOf_cellColumn[OF assms(2) cm]
      by (intro exI[of _ spans] exI[of _ "\<not> stopped"] exI[of _ bu'] exI[of _ pre] exI[of _ rest] exI[of _ "cellColumn cm"])
        (auto simp: spanOf_def calm_def)
  qed
qed

definition literalRegex :: "js_text \<Rightarrow> regex" where
  "literalRegex w text li = (case index_of (drop li text) w of Some k \<Rightarrow> if li + k + length w \<le> length text then Some (li + k, length w) else None | None \<Rightarrow> None)"

lemma literalRegex_ok: "regex_ok (literalRegex w)"
  by (auto simp: regex_ok_def literalRegex_def split: option.splits if_splits)

definition demo_rules :: "compiled_rule list" where
  "demo_rules = [\<lparr>cr_exec = literalRegex (js ''ok''), cr_color = ''green''\<rparr>]"

definition demo_cells :: "buffer_cell list" where
  "demo_cells = map (\<lambda>u. \<lparr>bc_chars = [u], bc_width = 1, bc_fgDefault = True\<rparr>) (js ''ok'')"

definition demo_config :: highlight_config where
  "demo_config = \<lparr>hc_maxDecorations = 1000, hc_maxPerRefresh = 100, hc_maxMatchesPerLine = 20, hc_maxCachedLines = 3000, hc_overscan = 15, hc_maxRefreshTime = 3\<rparr>"

definition demo_budget :: refresh_budget where
  "demo_budget = \<lparr>bu_created = 0, bu_deadline = 3, bu_hitLimit = False, bu_hitTotal = False, bu_reads = 0\<rparr>"

lemma demo_cells_text: "text_of demo_cells (min (length demo_cells) 80) (js ''ok'')"
  unfolding text_of_def
  by (rule exI[of _ "[0, 1]"]) (simp add: demo_cells_def js_def stride_def cell_text_def cellUnits_def)

lemma scan_line_exact_witness:
  "\<exists>spans complete bu'. scanPhysicalLine (\<lambda>_. 0) demo_config demo_rules 80 demo_cells (js ''ok'') demo_budget = Some (spans, complete, bu')
     \<and> complete \<and> sorted_wrt spans_apart spans \<and> length spans \<le> 20"
proof -
  have "\<forall>r \<in> set demo_rules. regex_ok (cr_exec r)" by (simp add: demo_rules_def literalRegex_ok)
  from scan_line_exact[OF this demo_cells_text, of "\<lambda>_. 0" demo_config demo_budget] show ?thesis
    by (auto simp: js_def demo_config_def demo_budget_def)
qed

end
