(* ===== verification/Keyword_Wrapped.thy ===== *)
theory Keyword_Wrapped
  imports Keyword_Scan
begin

text \<open>
  Keyword highlighting across wrapped lines (\<open>lib/keywordHighlighter.ts\<close>): the scan of a logical
  line, which the terminal shows as several physical lines. A JavaScript \<open>Map\<close> of spans by line is
  an association list, the map of accepted matches a function that is 0 where the map has no entry.
\<close>

section \<open>A wrapped logical line\<close>

record line_segment =
  sg_line :: "buffer_cell list"
  sg_lineY :: nat
  sg_text :: js_text
  sg_startIndex :: nat
  sg_endIndex :: nat
  sg_cellMap :: "nat list option"

text \<open>\<open>translate line trimRight maxCols\<close> is \<open>translateToString\<close>. \<open>None\<close>: the budget ran out.\<close>

fun collectSegments ::
  "(nat \<Rightarrow> rat) \<Rightarrow> (buffer_cell list \<Rightarrow> bool \<Rightarrow> nat \<Rightarrow> js_text) \<Rightarrow> (nat \<Rightarrow> buffer_cell list option) \<Rightarrow> nat \<Rightarrow> nat \<Rightarrow> nat list \<Rightarrow> nat
     \<Rightarrow> refresh_budget \<Rightarrow> line_segment list option \<times> refresh_budget" where
  "collectSegments clock translate getLine cols endY [] logicalLength budget = (Some [], budget)"
| "collectSegments clock translate getLine cols endY (y # ys) logicalLength budget =
     (let (exhausted, budget) = isBudgetExhausted clock budget in
      if exhausted then (None, budget)
      else case getLine y of
             None \<Rightarrow> collectSegments clock translate getLine cols endY ys logicalLength budget
           | Some line \<Rightarrow>
               let maxCols = min (length line) cols; t = translate line (y = endY) maxCols;
                   sg = \<lparr>sg_line = line, sg_lineY = y, sg_text = t, sg_startIndex = logicalLength,
                         sg_endIndex = logicalLength + length t, sg_cellMap = lineCellMap line maxCols t\<rparr>;
                   (rest, budget) = collectSegments clock translate getLine cols endY ys (logicalLength + length t) budget
               in (map_option ((#) sg) rest, budget))"

definition hasWrappedAnsiForegroundInRange :: "line_segment list \<Rightarrow> nat \<Rightarrow> nat \<Rightarrow> bool" where
  "hasWrappedAnsiForegroundInRange segments s e =
     list_ex (\<lambda>sg. \<not> (sg_endIndex sg \<le> s \<or> sg_startIndex sg \<ge> e)
        \<and> hasAnsiForegroundInRange (sg_line sg) (max s (sg_startIndex sg) - sg_startIndex sg)
            (min e (sg_endIndex sg) - sg_startIndex sg) (sg_cellMap sg)) segments"

text \<open>The span a match leaves on one physical line, if it has any width there.\<close>

definition segmentSpan :: "string \<Rightarrow> nat \<Rightarrow> nat \<Rightarrow> line_segment \<Rightarrow> highlight_span option" where
  "segmentSpan color s e sg =
     (let localStart = max s (sg_startIndex sg) - sg_startIndex sg; localEnd = min e (sg_endIndex sg) - sg_startIndex sg;
          cellStartCol = cellColumn (sg_cellMap sg) localStart; cellEndCol = cellColumn (sg_cellMap sg) localEnd
      in if localEnd \<le> localStart \<or> cellEndCol \<le> cellStartCol then None
         else Some \<lparr>hs_startCol = cellStartCol, hs_width = cellEndCol - cellStartCol, hs_color = color\<rparr>)"

type_synonym wrapped_state = "(nat \<times> highlight_span list) list \<times> bool list \<times> (nat \<Rightarrow> nat)"

definition acceptWrapped :: "nat \<Rightarrow> line_segment list \<Rightarrow> string \<Rightarrow> nat \<Rightarrow> nat \<Rightarrow> wrapped_state \<Rightarrow> wrapped_state" where
  "acceptWrapped maxMatches segments color s e = (\<lambda>(spansByLine, occupied, counts).
     if isOverlapping occupied s e then (spansByLine, occupied, counts)
     else if hasWrappedAnsiForegroundInRange segments s e then (spansByLine, occupied, counts)
     else let matched = filter (\<lambda>sg. sg_endIndex sg > s \<and> sg_startIndex sg < e) segments in
          if matched = [] then (spansByLine, occupied, counts)
          else if list_ex (\<lambda>sg. counts (sg_lineY sg) \<ge> maxMatches) matched then (spansByLine, occupied, counts)
          else let accepted = filter (\<lambda>sg. segmentSpan color s e sg \<noteq> None) matched;
                   spans = fold (\<lambda>sg m. AList.map_entry (sg_lineY sg) (\<lambda>hs. hs @ [the (segmentSpan color s e sg)]) m) accepted spansByLine
               in if accepted = [] then (spansByLine, occupied, counts)
                  else (spans, occupy s e occupied, fold (\<lambda>sg c. c(sg_lineY sg := c (sg_lineY sg) + 1)) accepted counts))"

fun wrappedRuleLoop ::
  "nat \<Rightarrow> (nat \<Rightarrow> rat) \<Rightarrow> nat \<Rightarrow> line_segment list \<Rightarrow> js_text \<Rightarrow> compiled_rule \<Rightarrow> nat \<Rightarrow> wrapped_state \<Rightarrow> refresh_budget
     \<Rightarrow> (bool \<times> wrapped_state \<times> refresh_budget) option" where
  "wrappedRuleLoop 0 clock maxMatches segments text rule lastIndex st budget = None"
| "wrappedRuleLoop (Suc fuel) clock maxMatches segments text rule lastIndex st budget =
     (let (exhausted, budget) = isBudgetExhausted clock budget in
      if exhausted then Some (True, st, budget)
      else case cr_exec rule text lastIndex of
             None \<Rightarrow> Some (False, st, budget)
           | Some (i, len) \<Rightarrow>
               if len = 0 then wrappedRuleLoop fuel clock maxMatches segments text rule (i + 1) st budget
               else wrappedRuleLoop fuel clock maxMatches segments text rule (i + len)
                      (acceptWrapped maxMatches segments (cr_color rule) i (i + len) st) budget)"

fun wrappedRulesLoop ::
  "(nat \<Rightarrow> rat) \<Rightarrow> nat \<Rightarrow> line_segment list \<Rightarrow> js_text \<Rightarrow> compiled_rule list \<Rightarrow> wrapped_state \<Rightarrow> refresh_budget
     \<Rightarrow> (bool \<times> wrapped_state \<times> refresh_budget) option" where
  "wrappedRulesLoop clock maxMatches segments text [] st budget = Some (False, st, budget)"
| "wrappedRulesLoop clock maxMatches segments text (rule # rules) st budget =
     (let (exhausted, budget) = isBudgetExhausted clock budget in
      if exhausted then Some (True, st, budget)
      else case wrappedRuleLoop (length text + 2) clock maxMatches segments text rule 0 st budget of
             None \<Rightarrow> None
           | Some (stopped, st, budget) \<Rightarrow>
               if stopped then Some (True, st, budget) else wrappedRulesLoop clock maxMatches segments text rules st budget)"

record wrapped_result =
  wr_spansByLine :: "(nat \<times> highlight_span list) list"
  wr_lineYs :: "nat list"
  wr_complete :: bool
  wr_cacheable :: bool

definition MAX_LOGICAL_LINE_SCAN_CHARS :: nat where
  "MAX_LOGICAL_LINE_SCAN_CHARS = 16 * 1024"

definition scanWrappedLogicalLine ::
  "(nat \<Rightarrow> rat) \<Rightarrow> (buffer_cell list \<Rightarrow> bool \<Rightarrow> nat \<Rightarrow> js_text) \<Rightarrow> highlight_config \<Rightarrow> compiled_rule list \<Rightarrow> nat \<Rightarrow> (nat \<Rightarrow> buffer_cell list option)
     \<Rightarrow> nat \<Rightarrow> nat \<Rightarrow> refresh_budget \<Rightarrow> (wrapped_result \<times> refresh_budget) option" where
  "scanWrappedLogicalLine clock translate config rules cols getLine startY endY budget =
     (let (collected, budget) = collectSegments clock translate getLine cols endY [startY..<endY + 1] 0 budget in
      case collected of
        None \<Rightarrow> Some (\<lparr>wr_spansByLine = [], wr_lineYs = [], wr_complete = False, wr_cacheable = False\<rparr>, budget)
      | Some segments \<Rightarrow>
          let lineYs = map sg_lineY segments; emptyByLine = map (\<lambda>y. (y, [])) lineYs; logicalText = concat (map sg_text segments) in
          if logicalText = [] then Some (\<lparr>wr_spansByLine = emptyByLine, wr_lineYs = lineYs, wr_complete = True, wr_cacheable = True\<rparr>, budget)
          else if length logicalText > MAX_LOGICAL_LINE_SCAN_CHARS
            then Some (\<lparr>wr_spansByLine = emptyByLine, wr_lineYs = lineYs, wr_complete = True, wr_cacheable = False\<rparr>, budget)
          else case wrappedRulesLoop clock (hc_maxMatchesPerLine config) segments logicalText rules
                      (emptyByLine, replicate (length logicalText) False, \<lambda>_. 0) budget of
                 None \<Rightarrow> None
               | Some (stopped, (spansByLine, occupied, counts), budget) \<Rightarrow>
                   Some (\<lparr>wr_spansByLine = spansByLine, wr_lineYs = lineYs, wr_complete = \<not> stopped, wr_cacheable = \<not> stopped\<rparr>, budget))"

text \<open>The segments of a logical line: distinct physical lines, each text read from its line.\<close>

definition segment_ok :: "nat \<Rightarrow> nat \<Rightarrow> line_segment \<Rightarrow> bool" where
  "segment_ok cols n sg \<longleftrightarrow>
     sg_endIndex sg = sg_startIndex sg + length (sg_text sg) \<and> sg_endIndex sg \<le> n
   \<and> text_of (sg_line sg) (min (length (sg_line sg)) cols) (sg_text sg)
   \<and> sg_cellMap sg = lineCellMap (sg_line sg) (min (length (sg_line sg)) cols) (sg_text sg)"

lemma collectSegments_ok:
  assumes "\<And>y line. getLine y = Some line \<Longrightarrow> text_of line (min (length line) cols) (translate line (y = endY) (min (length line) cols))"
    and "collectSegments clock translate getLine cols endY ys len bu = (Some segments, bu')" "distinct ys"
  shows "distinct (map sg_lineY segments) \<and> set (map sg_lineY segments) \<subseteq> set ys
    \<and> (\<forall>sg \<in> set segments. segment_ok cols (len + length (concat (map sg_text segments))) sg)"
  using assms(2,3)
proof (induction ys arbitrary: len bu segments bu')
  case (Cons y ys)
  obtain ex b1 where b: "isBudgetExhausted clock bu = (ex, b1)" by force
  with Cons.prems(1) have ne: "\<not> ex" by auto
  show ?case
  proof (cases "getLine y")
    case None
    with Cons b ne show ?thesis by fastforce
  next
    case (Some line)
    let ?t = "translate line (y = endY) (min (length line) cols)"
    obtain rest b2 where r: "collectSegments clock translate getLine cols endY ys (len + length ?t) b1 = (Some rest, b2)"
      and segs: "segments = \<lparr>sg_line = line, sg_lineY = y, sg_text = ?t, sg_startIndex = len, sg_endIndex = len + length ?t,
            sg_cellMap = lineCellMap line (min (length line) cols) ?t\<rparr> # rest"
      using Cons.prems(1) b ne Some by (auto simp: Let_def split: prod.splits)
    from Cons.IH[OF r] Cons.prems(2) assms(1)[OF Some] show ?thesis
      by (auto simp: segs segment_ok_def add.assoc)
  qed
qed simp

text \<open>What holds of one physical line during the scan.\<close>

definition line_selected :: "nat \<Rightarrow> wrapped_state \<Rightarrow> line_segment \<Rightarrow> (string \<times> nat \<times> nat) list \<Rightarrow> bool" where
  "line_selected maxMatches = (\<lambda>(spansByLine, occupied, counts) sg sel.
     map_of spansByLine (sg_lineY sg) = Some (map (spanOf (sg_cellMap sg)) sel) \<and> sorted_wrt apart sel
   \<and> length sel = counts (sg_lineY sg) \<and> length sel \<le> maxMatches
   \<and> (\<forall>(c, s, e) \<in> set sel. s < e \<and> e \<le> length (sg_text sg) \<and> cellColumn (sg_cellMap sg) s < cellColumn (sg_cellMap sg) e
        \<and> (\<forall>k. s \<le> k \<and> k < e \<longrightarrow> occupied ! (sg_startIndex sg + k))))"

definition wrapped_inv :: "nat \<Rightarrow> line_segment list \<Rightarrow> nat \<Rightarrow> wrapped_state \<Rightarrow> bool" where
  "wrapped_inv maxMatches segments n st \<longleftrightarrow>
     length (fst (snd st)) = n \<and> map fst (fst st) = map sg_lineY segments
   \<and> (\<forall>sg \<in> set segments. \<exists>sel. line_selected maxMatches st sg sel)"

lemma map_entry_keys: "map fst (AList.map_entry k f m) = map fst m"
  by (induction m) auto

lemma push_spans:
  assumes "distinct (map sg_lineY sgs)"
  shows "map_of (fold (\<lambda>sg m. AList.map_entry (sg_lineY sg) (\<lambda>hs. hs @ [f sg]) m) sgs m) y
    = (case find (\<lambda>sg. sg_lineY sg = y) sgs of None \<Rightarrow> map_of m y | Some sg \<Rightarrow> map_option (\<lambda>hs. hs @ [f sg]) (map_of m y))"
    and "map fst (fold (\<lambda>sg m. AList.map_entry (sg_lineY sg) (\<lambda>hs. hs @ [f sg]) m) sgs m) = map fst m"
  using assms
proof (induction sgs arbitrary: m)
  case (Cons sg sgs)
  { case 1
    have none: "find (\<lambda>s. sg_lineY s = y) sgs = None" if "sg_lineY sg = y" using 1 that by (auto simp: find_None_iff image_iff)
    from Cons.IH(1)[of "AList.map_entry (sg_lineY sg) (\<lambda>hs. hs @ [f sg]) m"] 1 none show ?case
      by (auto simp: AList.map_of_map_entry split: option.split) }
  { case 2 then show ?case using Cons.IH(2) by (simp add: map_entry_keys) }
qed auto

lemma count_spans:
  assumes "distinct (map sg_lineY sgs)"
  shows "fold (\<lambda>sg c. c(sg_lineY sg := c (sg_lineY sg) + 1)) sgs c y
    = (if \<exists>sg \<in> set sgs. sg_lineY sg = y then c y + 1 else c y :: nat)"
  using assms by (induction sgs arbitrary: c) (auto simp: image_iff)

lemma distinct_find: "distinct (map g xs) \<Longrightarrow> x \<in> set xs \<Longrightarrow> find (\<lambda>z. g z = g x) xs = Some x"
  by (induction xs) auto

lemma segmentSpan_some:
  assumes "segment_ok cols n sg" "segmentSpan color s e sg = Some h"
  defines "ls \<equiv> max s (sg_startIndex sg) - sg_startIndex sg" and "le \<equiv> min e (sg_endIndex sg) - sg_startIndex sg"
  shows "h = spanOf (sg_cellMap sg) (color, ls, le)" "ls < le" "le \<le> length (sg_text sg)"
    "cellColumn (sg_cellMap sg) ls < cellColumn (sg_cellMap sg) le"
    "ls \<le> k \<Longrightarrow> k < le \<Longrightarrow> s \<le> sg_startIndex sg + k \<and> sg_startIndex sg + k < e \<and> sg_startIndex sg + k < n"
proof -
  have c: "\<not> (le \<le> ls \<or> cellColumn (sg_cellMap sg) le \<le> cellColumn (sg_cellMap sg) ls)"
    and h: "h = \<lparr>hs_startCol = cellColumn (sg_cellMap sg) ls, hs_width = cellColumn (sg_cellMap sg) le - cellColumn (sg_cellMap sg) ls, hs_color = color\<rparr>"
    using assms(2) unfolding segmentSpan_def Let_def ls_def[symmetric] le_def[symmetric] by (auto split: if_splits)
  have e: "sg_endIndex sg = sg_startIndex sg + length (sg_text sg)" "sg_endIndex sg \<le> n" using assms(1) by (simp_all add: segment_ok_def)
  show "h = spanOf (sg_cellMap sg) (color, ls, le)" by (simp add: h spanOf_def)
  show "ls < le" "cellColumn (sg_cellMap sg) ls < cellColumn (sg_cellMap sg) le" using c by simp_all
  show "le \<le> length (sg_text sg)" using e by (simp add: le_def)
  show "ls \<le> k \<Longrightarrow> k < le \<Longrightarrow> s \<le> sg_startIndex sg + k \<and> sg_startIndex sg + k < e \<and> sg_startIndex sg + k < n"
    using e unfolding ls_def le_def by linarith
qed

lemma line_selected_skip:
  assumes "line_selected m (spans, oc, counts) sg sel" "map_of spans' (sg_lineY sg) = map_of spans (sg_lineY sg)"
    and "counts' (sg_lineY sg) = counts (sg_lineY sg)" and "\<And>k. k < n \<Longrightarrow> oc ! k \<Longrightarrow> oc' ! k" and "segment_ok cols n sg"
  shows "line_selected m (spans', oc', counts') sg sel"
proof -
  have "oc' ! (sg_startIndex sg + k)" if "(c, s, e) \<in> set sel" "s \<le> k" "k < e" for c s e k
    using assms(1,5) that by (intro assms(4)) (auto simp: line_selected_def segment_ok_def)
  with assms(1-3) show ?thesis by (auto simp: line_selected_def)
qed

lemma line_selected_take:
  assumes sel: "line_selected m (spans, oc, counts) sg sel" and ok: "segment_ok cols n sg" and oc: "length oc = n" "s < e" "e \<le> n"
    and h: "segmentSpan color s e sg = Some h" and free: "\<not> isOverlapping oc s e" "counts (sg_lineY sg) < m"
    and spans': "map_of spans' (sg_lineY sg) = map_option (\<lambda>hs. hs @ [h]) (map_of spans (sg_lineY sg))"
    and counts': "counts' (sg_lineY sg) = counts (sg_lineY sg) + 1"
  shows "\<exists>sel'. line_selected m (spans', occupy s e oc, counts') sg sel'"
proof -
  define ls where "ls = max s (sg_startIndex sg) - sg_startIndex sg"
  define le where "le = min e (sg_endIndex sg) - sg_startIndex sg"
  note new = segmentSpan_some[OF ok h, folded ls_def le_def]
  have old: "s' < e'" "e' \<le> length (sg_text sg)" "cellColumn (sg_cellMap sg) s' < cellColumn (sg_cellMap sg) e'"
    "\<And>k. s' \<le> k \<Longrightarrow> k < e' \<Longrightarrow> oc ! (sg_startIndex sg + k)" if "(c', s', e') \<in> set sel" for c' s' e'
    using sel that by (auto simp: line_selected_def)
  have "apart (c', s', e') (color, ls, le)" if t: "(c', s', e') \<in> set sel" for c' s' e'
  proof (rule ccontr)
    assume "\<not> ?thesis"
    then have k: "ls \<le> max ls s'" "max ls s' < le" "s' \<le> max ls s'" "max ls s' < e'"
      using new(2) old(1)[OF t] by (auto simp: apart_def)
    from old(4)[OF t k(3,4)] new(5)[OF k(1,2)] free(1) show False by (auto simp: isOverlapping_def list_ex_iff)
  qed
  then have "sorted_wrt apart (sel @ [(color, ls, le)])"
    using sel by (auto simp: line_selected_def sorted_wrt_append)
  moreover have "occupy s e oc ! (sg_startIndex sg + k)" if "ls \<le> k" "k < le" for k
    using new(5)[OF that] occupy_nth[of "sg_startIndex sg + k" oc s e] oc by simp
  moreover have "occupy s e oc ! (sg_startIndex sg + k)" if "(c', s', e') \<in> set sel" "s' \<le> k" "k < e'" for c' s' e' k
    using old(2,4)[OF that(1)] that(2,3) occupy_nth[of "sg_startIndex sg + k" oc s e] ok oc(1) by (auto simp: segment_ok_def)
  ultimately have "line_selected m (spans', occupy s e oc, counts') sg (sel @ [(color, ls, le)])"
    using sel new old spans' counts' free(2) by (auto simp: line_selected_def)
  then show ?thesis by blast
qed

lemma wrapped_step:
  assumes inv: "wrapped_inv m segments n st" and d: "distinct (map sg_lineY segments)" and ok: "\<forall>sg \<in> set segments. segment_ok cols n sg"
    and se: "s < e" "e \<le> n"
  shows "wrapped_inv m segments n (acceptWrapped m segments color s e st)"
proof -
  obtain spans oc counts where st: "st = (spans, oc, counts)" by (cases st)
  let ?matched = "filter (\<lambda>sg. sg_endIndex sg > s \<and> sg_startIndex sg < e) segments"
  define accepted where "accepted = filter (\<lambda>sg. segmentSpan color s e sg \<noteq> None) ?matched"
  let ?spans = "fold (\<lambda>sg mp. AList.map_entry (sg_lineY sg) (\<lambda>hs. hs @ [the (segmentSpan color s e sg)]) mp) accepted spans"
  let ?counts = "fold (\<lambda>sg c. c(sg_lineY sg := c (sg_lineY sg) + 1)) accepted counts"
  show ?thesis
  proof (cases "isOverlapping oc s e \<or> hasWrappedAnsiForegroundInRange segments s e \<or> ?matched = []
      \<or> list_ex (\<lambda>sg. counts (sg_lineY sg) \<ge> m) ?matched \<or> accepted = []")
    case True
    then have "acceptWrapped m segments color s e st = st" by (auto simp: st acceptWrapped_def Let_def accepted_def)
    with inv show ?thesis by simp
  next
    case False
    then have acc: "acceptWrapped m segments color s e st = (?spans, occupy s e oc, ?counts)"
      by (auto simp: st acceptWrapped_def Let_def accepted_def)
    have oc: "length oc = n" using inv by (simp add: wrapped_inv_def st)
    have da: "distinct (map sg_lineY accepted)" using d by (simp add: accepted_def distinct_map inj_on_def)
    have inj: "inj_on sg_lineY (set segments)" using d by (simp add: distinct_map)
    have sub: "set accepted \<subseteq> set segments" by (auto simp: accepted_def)
    have "\<exists>sel'. line_selected m (?spans, occupy s e oc, ?counts) sg sel'" if sg: "sg \<in> set segments" for sg
    proof -
      obtain sel where sel: "line_selected m (spans, oc, counts) sg sel" using inv sg by (auto simp: wrapped_inv_def st)
      show ?thesis
      proof (cases "sg \<in> set accepted")
        case True
        then obtain h where h: "segmentSpan color s e sg = Some h" by (auto simp: accepted_def)
        have "sg \<in> set ?matched" using True by (simp add: accepted_def)
        then have "counts (sg_lineY sg) < m" using False by (auto simp: list_ex_iff not_le)
        moreover have "map_of ?spans (sg_lineY sg) = map_option (\<lambda>hs. hs @ [h]) (map_of spans (sg_lineY sg))"
          unfolding push_spans(1)[OF da] distinct_find[OF da True] by (simp add: h)
        moreover have "?counts (sg_lineY sg) = counts (sg_lineY sg) + 1" using count_spans[OF da] True by auto
        ultimately show ?thesis
          using line_selected_take[OF sel _ oc se h] ok sg False by blast
      next
        case other: False
        have "\<forall>x \<in> set accepted. sg_lineY x \<noteq> sg_lineY sg"
          using other sg inj sub by (metis inj_onD subsetD)
        then have nf: "find (\<lambda>x. sg_lineY x = sg_lineY sg) accepted = None" and ne: "\<not> (\<exists>x \<in> set accepted. sg_lineY x = sg_lineY sg)"
          by (auto simp: find_None_iff)
        have "map_of ?spans (sg_lineY sg) = map_of spans (sg_lineY sg)" "?counts (sg_lineY sg) = counts (sg_lineY sg)"
          unfolding push_spans(1)[OF da] count_spans[OF da] nf using ne by simp_all
        moreover have "k < n \<Longrightarrow> oc ! k \<Longrightarrow> occupy s e oc ! k" for k
          using occupy_nth[of k oc s e] oc by simp
        ultimately show ?thesis
          by (intro exI[of _ sel]) (rule line_selected_skip[OF sel _ _ _ ok[rule_format, OF sg]])
      qed
    qed
    moreover have "map fst ?spans = map sg_lineY segments"
      unfolding push_spans(2)[OF da] using inv by (simp add: wrapped_inv_def st)
    ultimately show ?thesis using oc by (simp add: acc wrapped_inv_def)
  qed
qed

text \<open>The loop returned, and what it returned satisfies \<open>P\<close>.\<close>

definition loop_keeps :: "(wrapped_state \<Rightarrow> bool) \<Rightarrow> (bool \<times> wrapped_state \<times> refresh_budget) option \<Rightarrow> bool" where
  "loop_keeps P r \<longleftrightarrow> (case r of None \<Rightarrow> False | Some (stopped, st, bu) \<Rightarrow> P st)"

lemma loop_keeps_Some [simp]: "loop_keeps P (Some (stopped, st, bu)) \<longleftrightarrow> P st"
  by (simp add: loop_keeps_def)

lemma loop_keepsE:
  assumes "loop_keeps P r"
  obtains stopped st bu where "r = Some (stopped, st, bu)" "P st"
  using assms by (auto simp: loop_keeps_def split: option.splits)

lemma wrappedRuleLoop_keeps:
  assumes ok: "regex_ok (cr_exec rule)"
    and keep: "\<And>c s e st. s < e \<Longrightarrow> e \<le> length t \<Longrightarrow> P st \<Longrightarrow> P (acceptWrapped m segments c s e st)"
    and "length t + 2 \<le> fuel + li" "0 < fuel" "P st"
  shows "loop_keeps P (wrappedRuleLoop fuel clock m segments t rule li st bu)"
  using assms(3-)
proof (induction fuel arbitrary: li st bu)
  case (Suc fuel)
  obtain ex bu1 where b: "isBudgetExhausted clock bu = (ex, bu1)" by force
  show ?case
  proof (cases "ex \<or> cr_exec rule t li = None")
    case True
    with b Suc.prems(3) show ?thesis by (auto simp: Let_def)
  next
    case False
    then obtain i len where il: "cr_exec rule t li = Some (i, len)" by auto
    have bound: "li \<le> i" "i + len \<le> length t" using regex_okD[OF ok il] by blast+
    then have f: "0 < fuel" using Suc.prems(1) by linarith
    show ?thesis
    proof (cases "len = 0")
      case True
      with Suc.IH[of "i + 1" st bu1] bound f Suc.prems False b il show ?thesis by simp
    next
      case nonempty: False
      have "P (acceptWrapped m segments (cr_color rule) i (i + len) st)" using keep bound nonempty Suc.prems(3) by simp
      with Suc.IH[of "i + len" _ bu1] bound f nonempty Suc.prems(1) False b il show ?thesis by simp
    qed
  qed
qed simp

lemma wrappedRulesLoop_keeps:
  assumes "\<forall>r \<in> set rules. regex_ok (cr_exec r)"
    and keep: "\<And>c s e st. s < e \<Longrightarrow> e \<le> length t \<Longrightarrow> P st \<Longrightarrow> P (acceptWrapped m segments c s e st)" and "P st"
  shows "loop_keeps P (wrappedRulesLoop clock m segments t rules st bu)"
  using assms(1,3)
proof (induction rules arbitrary: st bu)
  case (Cons rule rules)
  obtain ex bu1 where b: "isBudgetExhausted clock bu = (ex, bu1)" by force
  show ?case
  proof (cases ex)
    case True
    with b Cons.prems show ?thesis by simp
  next
    case False
    have "loop_keeps P (wrappedRuleLoop (length t + 2) clock m segments t rule 0 st bu1)"
      by (rule wrappedRuleLoop_keeps[where P = P]) (use Cons.prems keep in auto)
    then obtain stopped st' bu' where r: "wrappedRuleLoop (length t + 2) clock m segments t rule 0 st bu1 = Some (stopped, st', bu')" "P st'"
      by (rule loop_keepsE)
    with Cons b False show ?thesis by (cases stopped) (simp_all del: wrappedRuleLoop.simps add_2_eq_Suc')
  qed
qed simp

lemma wrapped_start:
  assumes "distinct (map sg_lineY segments)"
  shows "wrapped_inv m segments n (map (\<lambda>y. (y, [])) (map sg_lineY segments), replicate n False, \<lambda>_. 0)"
proof -
  have e: "map_of (map (\<lambda>y. (y, [] :: highlight_span list)) ys) y = Some []" if "y \<in> set ys" for ys y
    using that by (induction ys) auto
  have "line_selected m (map (\<lambda>y. (y, [])) (map sg_lineY segments), replicate n False, \<lambda>_. 0) sg []" if "sg \<in> set segments" for sg
    using that e[of "sg_lineY sg" "map sg_lineY segments"] by (simp add: line_selected_def)
  then show ?thesis by (auto simp: wrapped_inv_def o_def)
qed

text \<open>What the result says of each physical line.\<close>

definition line_result_ok :: "nat \<Rightarrow> nat \<Rightarrow> highlight_span list \<Rightarrow> bool" where
  "line_result_ok m cols hs \<longleftrightarrow> length hs \<le> m \<and> sorted_wrt spans_apart hs \<and> (\<forall>h \<in> set hs. 0 < hs_width h \<and> hs_startCol h < cols)"

lemma column_on_terminal:
  assumes "text_of line (min (length line) cols) t" "cm = lineCellMap line (min (length line) cols) t" "i < length t"
  shows "cellColumn cm i < cols"
proof -
  obtain units where u: "map snd units = t" "\<forall>i < length t. cellColumn cm i = fst (units ! i)"
    and c: "\<forall>(c, u) \<in> set units. c < min (length line) cols \<and> c < length line \<and> u \<in> set (cell_text (line ! c))"
    using columns_exact(1)[OF assms(1) disjI1[OF assms(2)]] by blast
  then have "units ! i \<in> set units" using assms(3) by (metis length_map nth_mem)
  with u c assms(3) show ?thesis by (auto simp: case_prod_unfold)
qed

lemma line_selected_result:
  assumes "line_selected m (spans, oc, counts) sg sel" "segment_ok cols n sg"
  shows "line_result_ok m cols (map (spanOf (sg_cellMap sg)) sel)"
proof -
  let ?cm = "sg_cellMap sg" and ?n = "length (sg_text sg)"
  have t: "text_of (sg_line sg) (min (length (sg_line sg)) cols) (sg_text sg)"
    "?cm = lineCellMap (sg_line sg) (min (length (sg_line sg)) cols) (sg_text sg)"
    using assms(2) by (simp_all add: segment_ok_def)
  have sel: "sorted_wrt apart sel" "length sel \<le> m"
    "\<forall>(c, s, e) \<in> set sel. s < e \<and> e \<le> ?n \<and> cellColumn ?cm s < cellColumn ?cm e"
    using assms(1) by (auto simp: line_selected_def)
  have "sorted_wrt spans_apart (map (spanOf ?cm) sel)"
    unfolding sorted_wrt_map
  proof (rule sorted_wrt_mono_rel[OF _ sel(1)])
    fix a b assume ab: "a \<in> set sel" "b \<in> set sel" "apart a b"
    show "spans_apart (spanOf ?cm a) (spanOf ?cm b)"
    proof (cases a; cases b)
      fix c s e c' s' e' assume ab': "a = (c, s, e)" "b = (c', s', e')"
      then have "s < e" "e \<le> ?n" "s' < e'" "e' \<le> ?n" using sel(3) ab(1,2) by blast+
      then show ?thesis using apart_columns[where n = ?n, OF columns_exact(2)[OF t(1) disjI1[OF t(2)]] ab(3) ab'] by blast
    qed
  qed
  moreover have "0 < hs_width (spanOf ?cm x) \<and> hs_startCol (spanOf ?cm x) < cols" if "x \<in> set sel" for x
    using sel(3) that column_on_terminal[OF t] by (cases x) (force simp: spanOf_def)
  ultimately show ?thesis using sel(2) by (auto simp: line_result_ok_def)
qed

text \<open>scanning a wrapped line always returns; whatever the matches, the budget and the number of
  physical lines, each physical line gets at most the allowed number of spans, no two share a
  column, and each is at least a column wide and starts on the terminal. Only a scan that was not
  cut off is kept for later.\<close>

theorem wrapped_lines_disjoint:
  assumes "\<forall>r \<in> set rules. regex_ok (cr_exec r)"
    and "\<And>y line. getLine y = Some line \<Longrightarrow> text_of line (min (length line) cols) (translate line (y = endY) (min (length line) cols))"
  shows "\<exists>r bu'. scanWrappedLogicalLine clock translate config rules cols getLine startY endY bu = Some (r, bu')
     \<and> (\<forall>(y, hs) \<in> set (wr_spansByLine r). line_result_ok (hc_maxMatchesPerLine config) cols hs)
     \<and> (wr_complete r \<longrightarrow> map fst (wr_spansByLine r) = wr_lineYs r \<and> distinct (wr_lineYs r) \<and> set (wr_lineYs r) \<subseteq> {startY..endY})
     \<and> (wr_cacheable r \<longrightarrow> wr_complete r)"
proof -
  let ?m = "hc_maxMatchesPerLine config"
  obtain collected bu1 where c: "collectSegments clock translate getLine cols endY [startY..<endY + 1] 0 bu = (collected, bu1)" by force
  show ?thesis
  proof (cases collected)
    case None
    with c show ?thesis by (simp add: scanWrappedLogicalLine_def)
  next
    case (Some segments)
    let ?t = "concat (map sg_text segments)" and ?empty = "map (\<lambda>y. (y, [])) (map sg_lineY segments) :: (nat \<times> highlight_span list) list"
    have segs: "distinct (map sg_lineY segments)" "set (map sg_lineY segments) \<subseteq> {startY..endY}"
      "\<forall>sg \<in> set segments. segment_ok cols (length ?t) sg"
    proof -
      have "set [startY..<endY + 1] = {startY..endY}" by auto
      with collectSegments_ok[OF assms(2) c[unfolded Some]]
      show "distinct (map sg_lineY segments)" "set (map sg_lineY segments) \<subseteq> {startY..endY}"
        "\<forall>sg \<in> set segments. segment_ok cols (length ?t) sg"
        by (simp_all del: upt_Suc set_upt)
    qed
    have empty: "\<forall>(y, hs) \<in> set ?empty. line_result_ok ?m cols hs" "map fst ?empty = map sg_lineY segments"
      by (auto simp: line_result_ok_def)
    show ?thesis
    proof (cases "?t = [] \<or> length ?t > MAX_LOGICAL_LINE_SCAN_CHARS")
      case True
      then show ?thesis using c Some segs(1,2) empty by (auto simp: scanWrappedLogicalLine_def Let_def)
    next
      case False
      have "loop_keeps (wrapped_inv ?m segments (length ?t))
          (wrappedRulesLoop clock ?m segments ?t rules (?empty, replicate (length ?t) False, \<lambda>_. 0) bu1)"
        by (rule wrappedRulesLoop_keeps[OF assms(1)]) (auto intro: wrapped_step[OF _ segs(1,3)] wrapped_start[OF segs(1), simplified])
      then obtain stopped st bu' where r: "wrappedRulesLoop clock ?m segments ?t rules (?empty, replicate (length ?t) False, \<lambda>_. 0) bu1
          = Some (stopped, st, bu')" "wrapped_inv ?m segments (length ?t) st"
        by (rule loop_keepsE)
      obtain spans oc counts where st: "st = (spans, oc, counts)" by (cases st)
      note loop = r(1)[unfolded st] and inv = r(2)[unfolded st]
      have keys: "map fst spans = map sg_lineY segments" using inv by (simp add: wrapped_inv_def)
      have "line_result_ok ?m cols hs" if mem: "(y, hs) \<in> set spans" for y hs
      proof -
        have "y \<in> set (map sg_lineY segments)" using mem keys by (metis fst_conv image_eqI list.set_map)
        then obtain sg where sg: "sg \<in> set segments" "sg_lineY sg = y" by auto
        have "map_of spans y = Some hs" using mem keys segs(1) by (simp add: map_of_is_SomeI)
        with sg inv line_selected_result segs(3) show ?thesis
          unfolding wrapped_inv_def by (fastforce simp: line_selected_def)
      qed
      with False c Some loop keys segs(1,2) show ?thesis by (auto simp: scanWrappedLogicalLine_def Let_def)
    qed
  qed
qed

lemma wrapped_lines_disjoint_witness:
  "\<exists>r bu'. scanWrappedLogicalLine (\<lambda>_. 0) (\<lambda>_ _ _. js ''ok'') demo_config demo_rules 80 (\<lambda>y. if y < 2 then Some demo_cells else None) 0 1 demo_budget
      = Some (r, bu') \<and> (\<forall>(y, hs) \<in> set (wr_spansByLine r). line_result_ok 20 80 hs)"
proof -
  have "\<forall>r \<in> set demo_rules. regex_ok (cr_exec r)" by (simp add: demo_rules_def literalRegex_ok)
  from wrapped_lines_disjoint[OF this, of "\<lambda>y. if y < 2 then Some demo_cells else None" 80 "\<lambda>_ _ _. js ''ok''" 1 "\<lambda>_. 0" demo_config 0 demo_budget] demo_cells_text
  show ?thesis by (fastforce simp: demo_config_def split: if_splits)
qed

end
