(* ===== verification/Keyword_Refresh.thy ===== *)
theory Keyword_Refresh
  imports Keyword_Wrapped
begin

text \<open>
  Keyword highlighting (\<open>lib/keywordHighlighter.ts\<close>), the stateful part: the cache of matches, the
  decorations, the refresh of the viewport and the timers that lead to it.

  What the terminal shows at an event is the argument \<open>view\<close>. A timer or a frame is pending while its
  field is true. A decoration is its key; the emulator may refuse one (\<open>place\<close>). The decorations and
  the cache of matches are lists in the insertion order of the \<open>Map\<close>s. \<open>None\<close> is a scan out of fuel,
  which cannot happen (\<open>refreshViewport_returns\<close>). Statistics and log messages are left out.
\<close>

section \<open>The cache of matches\<close>

type_synonym match_cache = "(nat \<times> highlight_span list) list"

definition getCachedMatches :: "nat \<Rightarrow> match_cache \<Rightarrow> highlight_span list option \<times> match_cache" where
  "getCachedMatches lineY cache =
     (case map_of cache lineY of
        None \<Rightarrow> (None, cache)
      | Some spans \<Rightarrow> (Some spans, AList.delete lineY cache @ [(lineY, spans)]))"

definition evictOldest :: "nat \<Rightarrow> match_cache \<Rightarrow> match_cache" where
  "evictOldest maxLines cache = drop (length cache - maxLines) cache"

definition setCachedMatches :: "nat \<Rightarrow> nat \<Rightarrow> highlight_span list \<Rightarrow> match_cache \<Rightarrow> match_cache" where
  "setCachedMatches maxLines lineY spans cache = evictOldest maxLines (AList.delete lineY cache @ [(lineY, spans)])"

section \<open>State\<close>

type_synonym deco_key = "nat \<times> nat \<times> nat \<times> string"

record highlighter =
  kh_rules :: "compiled_rule list"
  kh_enabled :: bool
  kh_suspended :: bool
  kh_acrossLines :: bool
  kh_decorations :: "deco_key list"
  kh_matches :: match_cache
  kh_writeTimer :: bool
  kh_scrollTimer :: bool
  kh_resumeTimer :: bool
  kh_resumeFrame :: bool
  kh_continuationFrame :: bool
  kh_lastViewportY :: int
  kh_sentinel :: bool
  kh_bufferTrimmed :: bool

record terminal_view =
  tv_alternate :: bool
  tv_viewportY :: nat
  tv_rows :: nat
  tv_cols :: nat
  tv_baseY :: nat
  tv_length :: nat
  tv_getLine :: "nat \<Rightarrow> buffer_cell list option"
  tv_isWrapped :: "nat \<Rightarrow> bool"
  tv_translate :: "buffer_cell list \<Rightarrow> bool \<Rightarrow> nat \<Rightarrow> js_text"
  tv_place :: "deco_key \<Rightarrow> bool"
  tv_sentinel :: bool
  tv_clock :: "nat \<Rightarrow> rat"

definition newHighlighter :: highlighter where
  "newHighlighter = \<lparr>kh_rules = [], kh_enabled = False, kh_suspended = False, kh_acrossLines = False, kh_decorations = [],
     kh_matches = [], kh_writeTimer = False, kh_scrollTimer = False, kh_resumeTimer = False, kh_resumeFrame = False,
     kh_continuationFrame = False, kh_lastViewportY = - 1, kh_sentinel = False, kh_bufferTrimmed = False\<rparr>"

definition clearAllTimers :: "highlighter \<Rightarrow> highlighter" where
  "clearAllTimers kh = kh\<lparr>kh_writeTimer := False, kh_scrollTimer := False, kh_resumeTimer := False, kh_resumeFrame := False,
     kh_continuationFrame := False\<rparr>"

definition invalidateAll :: "highlighter \<Rightarrow> highlighter" where
  "invalidateAll kh = (clearAllTimers kh)\<lparr>kh_decorations := [], kh_matches := [], kh_sentinel := False, kh_bufferTrimmed := False\<rparr>"

definition active :: "highlighter \<Rightarrow> bool" where
  "active kh \<longleftrightarrow> kh_enabled kh \<and> \<not> kh_suspended kh \<and> kh_rules kh \<noteq> []"

definition canRefresh :: "terminal_view \<Rightarrow> highlighter \<Rightarrow> bool \<times> highlighter" where
  "canRefresh v kh =
     (if \<not> active kh then (False, kh)
      else if tv_alternate v then (False, invalidateAll kh)
      else (True, kh))"

section \<open>Triggers\<close>

definition triggerWriteRefresh :: "terminal_view \<Rightarrow> highlighter \<Rightarrow> highlighter" where
  "triggerWriteRefresh v kh =
     (let (can, kh) = canRefresh v kh in
      if \<not> can then kh
      else if kh_scrollTimer kh \<or> kh_resumeTimer kh \<or> kh_resumeFrame kh then kh
      else kh\<lparr>kh_writeTimer := True\<rparr>)"

definition cancelContinuationRefresh :: "highlighter \<Rightarrow> highlighter" where
  "cancelContinuationRefresh kh = kh\<lparr>kh_continuationFrame := False\<rparr>"

definition cancelResumeRefresh :: "highlighter \<Rightarrow> highlighter" where
  "cancelResumeRefresh kh = kh\<lparr>kh_resumeTimer := False, kh_resumeFrame := False\<rparr>"

definition triggerScrollRefresh :: "terminal_view \<Rightarrow> highlighter \<Rightarrow> highlighter" where
  "triggerScrollRefresh v kh =
     (let (can, kh) = canRefresh v kh in
      if \<not> can then kh
      else (cancelResumeRefresh (cancelContinuationRefresh (kh\<lparr>kh_writeTimer := False\<rparr>)))\<lparr>kh_scrollTimer := True\<rparr>)"

definition triggerResumeRefresh :: "terminal_view \<Rightarrow> highlighter \<Rightarrow> highlighter" where
  "triggerResumeRefresh v kh =
     (let (can, kh) = canRefresh v kh in
      if \<not> can then kh
      else if kh_resumeTimer kh \<or> kh_resumeFrame kh then kh
      else kh\<lparr>kh_resumeTimer := True\<rparr>)"

definition triggerContinuationRefresh :: "terminal_view \<Rightarrow> highlighter \<Rightarrow> highlighter" where
  "triggerContinuationRefresh v kh =
     (let (can, kh) = canRefresh v kh in
      if \<not> can then kh
      else if kh_continuationFrame kh \<or> kh_scrollTimer kh then kh
      else kh\<lparr>kh_continuationFrame := True\<rparr>)"

section \<open>Refreshing the viewport\<close>

definition canCreateDecoration :: "(nat \<Rightarrow> rat) \<Rightarrow> highlight_config \<Rightarrow> nat \<Rightarrow> refresh_budget \<Rightarrow> bool \<times> refresh_budget" where
  "canCreateDecoration clock config held budget =
     (if held \<ge> hc_maxDecorations config then (False, budget\<lparr>bu_hitLimit := True, bu_hitTotal := True\<rparr>)
      else if bu_created budget \<ge> hc_maxPerRefresh config then (False, budget\<lparr>bu_hitLimit := True\<rparr>)
      else let (exhausted, budget) = isBudgetExhausted clock budget in (\<not> exhausted, budget))"

text \<open>The key if the span is decorated afterwards, the decorations and the budget.\<close>

definition ensureDecoration ::
  "terminal_view \<Rightarrow> highlight_config \<Rightarrow> nat \<Rightarrow> highlight_span \<Rightarrow> deco_key list \<Rightarrow> refresh_budget \<Rightarrow> deco_key option \<times> deco_key list \<times> refresh_budget" where
  "ensureDecoration v config lineY hs decorations budget =
     (if hs_width hs = 0 then (None, decorations, budget)
      else let key = (lineY, hs_startCol hs, hs_width hs, hs_color hs) in
           if key \<in> set decorations then (Some key, decorations, budget)
           else let (can, budget) = canCreateDecoration (tv_clock v) config (length decorations) budget in
                if \<not> can then (None, decorations, budget)
                else if \<not> tv_place v key then (None, decorations, budget)
                else (Some key, decorations @ [key], budget\<lparr>bu_created := Suc (bu_created budget)\<rparr>))"

record refresh_state =
  rf_decorations :: "deco_key list"
  rf_matches :: match_cache
  rf_budget :: refresh_budget
  rf_required :: "deco_key list"
  rf_processed :: "nat list"
  rf_logicalStarts :: "nat list"

fun materializeSpans :: "terminal_view \<Rightarrow> highlight_config \<Rightarrow> nat \<Rightarrow> highlight_span list \<Rightarrow> refresh_state \<Rightarrow> refresh_state" where
  "materializeSpans v config lineY [] rf = rf"
| "materializeSpans v config lineY (hs # spans) rf =
     (let (key, decorations, budget) = ensureDecoration v config lineY hs (rf_decorations rf) (rf_budget rf);
          rf = rf\<lparr>rf_decorations := decorations, rf_budget := budget,
                  rf_required := (case key of None \<Rightarrow> rf_required rf | Some k \<Rightarrow> rf_required rf @ [k])\<rparr>
      in if bu_hitLimit budget then rf else materializeSpans v config lineY spans rf)"

definition refreshPhysicalLine ::
  "terminal_view \<Rightarrow> highlight_config \<Rightarrow> compiled_rule list \<Rightarrow> nat \<Rightarrow> buffer_cell list \<Rightarrow> refresh_state \<Rightarrow> refresh_state option" where
  "refreshPhysicalLine v config rules lineY line rf =
     (let lineText = tv_translate v line True (min (length line) (tv_cols v));
          (cached, cache) = (if lineY < tv_baseY v then getCachedMatches lineY (rf_matches rf) else (None, rf_matches rf));
          rf = rf\<lparr>rf_matches := cache\<rparr>
      in case cached of
           Some spans \<Rightarrow> Some (materializeSpans v config lineY spans rf)
         | None \<Rightarrow>
             (case scanPhysicalLine (tv_clock v) config rules (tv_cols v) line lineText (rf_budget rf) of
                None \<Rightarrow> None
              | Some (spans, isComplete, budget) \<Rightarrow>
                  Some (materializeSpans v config lineY spans
                    (rf\<lparr>rf_budget := budget,
                        rf_matches := (if lineY < tv_baseY v \<and> isComplete
                                       then setCachedMatches (hc_maxCachedLines config) lineY spans cache else cache)\<rparr>))))"

text \<open>All rows of a logical line are read from the cache, in order.\<close>

fun readCachedRows :: "nat list \<Rightarrow> match_cache \<Rightarrow> (nat \<times> highlight_span list) list \<times> match_cache" where
  "readCachedRows [] cache = ([], cache)"
| "readCachedRows (y # ys) cache =
     (let (cached, cache) = getCachedMatches y cache; (rows, cache) = readCachedRows ys cache
      in ((case cached of None \<Rightarrow> [] | Some spans \<Rightarrow> [(y, spans)]) @ rows, cache))"

fun materializeRows :: "terminal_view \<Rightarrow> highlight_config \<Rightarrow> (nat \<times> highlight_span list) list \<Rightarrow> nat list \<Rightarrow> refresh_state \<Rightarrow> refresh_state" where
  "materializeRows v config byLine [] rf = rf"
| "materializeRows v config byLine (y # ys) rf =
     (let rf = materializeSpans v config y (case map_of byLine y of None \<Rightarrow> [] | Some hs \<Rightarrow> hs) rf
      in if bu_hitLimit (rf_budget rf) then rf else materializeRows v config byLine ys rf)"

definition storeRows :: "nat \<Rightarrow> (nat \<times> highlight_span list) list \<Rightarrow> nat list \<Rightarrow> match_cache \<Rightarrow> match_cache" where
  "storeRows maxLines byLine ys cache =
     fold (\<lambda>y. setCachedMatches maxLines y (case map_of byLine y of None \<Rightarrow> [] | Some hs \<Rightarrow> hs)) ys (fold AList.delete ys cache)"

definition refreshLogicalLine ::
  "terminal_view \<Rightarrow> highlight_config \<Rightarrow> compiled_rule list \<Rightarrow> nat \<Rightarrow> nat \<Rightarrow> nat \<Rightarrow> refresh_state \<Rightarrow> refresh_state option" where
  "refreshLogicalLine v config rules scanStart scanEnd lineY rf =
     (let startY = logicalStart (tv_isWrapped v) lineY; endY = logicalEnd (tv_isWrapped v) (tv_length v) lineY;
          canMemoize = endY < tv_baseY v; visible = [max startY scanStart..<min endY scanEnd + 1]
      in if startY \<in> set (rf_logicalStarts rf) then Some rf
         else let rf = rf\<lparr>rf_logicalStarts := rf_logicalStarts rf @ [startY], rf_processed := rf_processed rf @ visible\<rparr>;
                  ys = [startY..<endY + 1];
                  allRowsCached = (canMemoize \<and> list_all (\<lambda>y. map_of (rf_matches rf) y \<noteq> None) ys)
              in if allRowsCached
                 then let (byLine, cache) = readCachedRows ys (rf_matches rf)
                      in Some (materializeRows v config byLine visible (rf\<lparr>rf_matches := cache\<rparr>))
                 else case scanWrappedLogicalLine (tv_clock v) (tv_translate v) config rules (tv_cols v) (tv_getLine v) startY endY (rf_budget rf) of
                        None \<Rightarrow> None
                      | Some (r, budget) \<Rightarrow>
                          Some (materializeRows v config (wr_spansByLine r) visible
                            (rf\<lparr>rf_budget := budget,
                                rf_matches := (if canMemoize \<and> wr_complete r \<and> wr_cacheable r \<and> length (wr_lineYs r) \<le> hc_maxCachedLines config
                                               then storeRows (hc_maxCachedLines config) (wr_spansByLine r) (wr_lineYs r) (rf_matches rf)
                                               else rf_matches rf)\<rparr>)))"

fun refreshLines ::
  "terminal_view \<Rightarrow> highlight_config \<Rightarrow> compiled_rule list \<Rightarrow> bool \<Rightarrow> nat \<Rightarrow> nat \<Rightarrow> nat list \<Rightarrow> refresh_state \<Rightarrow> refresh_state option" where
  "refreshLines v config rules across scanStart scanEnd [] rf = Some rf"
| "refreshLines v config rules across scanStart scanEnd (lineY # ys) rf =
     (let (exhausted, budget) = isBudgetExhausted (tv_clock v) (rf_budget rf); rf = rf\<lparr>rf_budget := budget\<rparr> in
      if exhausted then Some rf
      else case tv_getLine v lineY of
             None \<Rightarrow> refreshLines v config rules across scanStart scanEnd ys rf
           | Some line \<Rightarrow>
               let rf = rf\<lparr>rf_processed := rf_processed rf @ [lineY]\<rparr> in
               case (if across then refreshLogicalLine v config rules scanStart scanEnd lineY rf
                     else refreshPhysicalLine v config rules lineY line rf) of
                 None \<Rightarrow> None
               | Some rf \<Rightarrow> refreshLines v config rules across scanStart scanEnd ys rf)"

definition isStale :: "nat \<Rightarrow> nat \<Rightarrow> refresh_state \<Rightarrow> deco_key \<Rightarrow> bool" where
  "isStale scanStart scanEnd rf key \<longleftrightarrow>
     key \<notin> set (rf_required rf)
   \<and> (fst key < scanStart \<or> scanEnd < fst key \<or> \<not> bu_hitLimit (rf_budget rf) \<or> fst key \<in> set (rf_processed rf))"

text \<open>The lines from \<open>scanStart\<close> to \<open>scanEnd\<close>, none when the buffer is empty.\<close>

definition scanZone :: "terminal_view \<Rightarrow> highlight_config \<Rightarrow> nat list" where
  "scanZone v config = [tv_viewportY v - hc_overscan config..<min (tv_length v) (tv_viewportY v + tv_rows v + hc_overscan config)]"

definition scanStart :: "terminal_view \<Rightarrow> highlight_config \<Rightarrow> nat" where
  "scanStart v config = tv_viewportY v - hc_overscan config"

definition scanEnd :: "terminal_view \<Rightarrow> highlight_config \<Rightarrow> nat" where
  "scanEnd v config = min (tv_length v - 1) (tv_viewportY v + tv_rows v - 1 + hc_overscan config)"

text \<open>The loop over the lines of the zone, from a fresh budget.\<close>

definition refreshScan :: "terminal_view \<Rightarrow> highlight_config \<Rightarrow> highlighter \<Rightarrow> refresh_state option" where
  "refreshScan v config kh =
     refreshLines v config (kh_rules kh) (kh_acrossLines kh) (scanStart v config) (scanEnd v config) (scanZone v config)
       \<lparr>rf_decorations = kh_decorations kh, rf_matches = kh_matches kh,
        rf_budget = \<lparr>bu_created = 0, bu_deadline = tv_clock v 0 + hc_maxRefreshTime config, bu_hitLimit = False, bu_hitTotal = False, bu_reads = 1\<rparr>,
        rf_required = [], rf_processed = [], rf_logicalStarts = []\<rparr>"

definition prepareRefresh :: "terminal_view \<Rightarrow> highlighter \<Rightarrow> highlighter" where
  "prepareRefresh v kh =
     (let kh = (if kh_bufferTrimmed kh then invalidateAll kh else kh)
      in if \<not> kh_sentinel kh then kh\<lparr>kh_sentinel := tv_sentinel v\<rparr> else kh)"

definition refreshViewport :: "terminal_view \<Rightarrow> highlight_config \<Rightarrow> highlighter \<Rightarrow> highlighter option" where
  "refreshViewport v config kh =
     (if \<not> active kh then Some kh
      else if tv_alternate v then Some (invalidateAll kh)
      else let kh = prepareRefresh v kh in
           case refreshScan v config kh of
             None \<Rightarrow> None
           | Some rf \<Rightarrow>
               let kh = kh\<lparr>kh_decorations := filter (\<lambda>k. \<not> isStale (scanStart v config) (scanEnd v config) rf k) (rf_decorations rf),
                           kh_matches := rf_matches rf\<rparr>
               in Some (if bu_hitLimit (rf_budget rf) \<and> \<not> bu_hitTotal (rf_budget rf) then triggerContinuationRefresh v kh else kh))"

section \<open>Events\<close>

definition setRules :: "(js_text \<Rightarrow> regex option) \<Rightarrow> (js_text \<Rightarrow> js_text) \<Rightarrow> highlight_rule list \<Rightarrow> bool \<Rightarrow> bool \<Rightarrow> terminal_view \<Rightarrow> highlighter \<Rightarrow> highlighter" where
  "setRules compile trim rules enabled across v kh =
     (let kh = invalidateAll (kh\<lparr>kh_enabled := enabled, kh_acrossLines := across, kh_rules := compileRules compile trim rules\<rparr>)
      in if kh_enabled kh \<and> kh_rules kh \<noteq> [] then triggerWriteRefresh v kh else kh)"

definition setSuspended :: "bool \<Rightarrow> terminal_view \<Rightarrow> highlighter \<Rightarrow> highlighter" where
  "setSuspended suspended v kh =
     (if kh_suspended kh = suspended then kh
      else let kh = kh\<lparr>kh_suspended := suspended\<rparr> in
           if suspended then clearAllTimers kh
           else if kh_enabled kh \<and> kh_rules kh \<noteq> [] then triggerResumeRefresh v (kh\<lparr>kh_lastViewportY := - 1\<rparr>)
           else kh)"

definition releaseCaches :: "highlighter \<Rightarrow> highlighter" where
  "releaseCaches kh = (invalidateAll kh)\<lparr>kh_lastViewportY := - 1\<rparr>"

definition onResize :: "terminal_view \<Rightarrow> highlighter \<Rightarrow> highlighter" where
  "onResize v kh = triggerWriteRefresh v ((invalidateAll kh)\<lparr>kh_lastViewportY := - 1\<rparr>)"

definition onRender :: "terminal_view \<Rightarrow> highlighter \<Rightarrow> highlighter" where
  "onRender v kh =
     (if int (tv_viewportY v) \<noteq> kh_lastViewportY kh then triggerScrollRefresh v (kh\<lparr>kh_lastViewportY := int (tv_viewportY v)\<rparr>) else kh)"

definition onSentinelDisposed :: "highlighter \<Rightarrow> highlighter" where
  "onSentinelDisposed kh = kh\<lparr>kh_bufferTrimmed := True, kh_sentinel := False\<rparr>"

definition resumeTimerFires :: "terminal_view \<Rightarrow> highlighter \<Rightarrow> highlighter" where
  "resumeTimerFires v kh =
     (let (can, kh) = canRefresh v (kh\<lparr>kh_resumeTimer := False\<rparr>) in
      if \<not> can \<or> kh_scrollTimer kh then kh else kh\<lparr>kh_resumeFrame := True\<rparr>)"

datatype highlight_event =
    Wrote | Resized | Rendered | RulesSet "js_text \<Rightarrow> regex option" "js_text \<Rightarrow> js_text" "highlight_rule list" bool bool
  | SuspendedSet bool | CachesReleased | SentinelDisposed
  | WriteTimerFires | ScrollTimerFires | ResumeTimerFires | ResumeFrameFires | ContinuationFrameFires

fun highlightStep :: "highlight_config \<Rightarrow> terminal_view \<Rightarrow> highlight_event \<Rightarrow> highlighter \<Rightarrow> highlighter option" where
  "highlightStep config v Wrote kh = Some (triggerWriteRefresh v kh)"
| "highlightStep config v Resized kh = Some (onResize v kh)"
| "highlightStep config v Rendered kh = Some (onRender v kh)"
| "highlightStep config v (RulesSet compile trim rules enabled across) kh = Some (setRules compile trim rules enabled across v kh)"
| "highlightStep config v (SuspendedSet b) kh = Some (setSuspended b v kh)"
| "highlightStep config v CachesReleased kh = Some (releaseCaches kh)"
| "highlightStep config v SentinelDisposed kh = Some (onSentinelDisposed kh)"
| "highlightStep config v WriteTimerFires kh = refreshViewport v config (kh\<lparr>kh_writeTimer := False\<rparr>)"
| "highlightStep config v ScrollTimerFires kh = refreshViewport v config (kh\<lparr>kh_scrollTimer := False\<rparr>)"
| "highlightStep config v ResumeTimerFires kh = Some (resumeTimerFires v kh)"
| "highlightStep config v ResumeFrameFires kh = refreshViewport v config (kh\<lparr>kh_resumeFrame := False\<rparr>)"
| "highlightStep config v ContinuationFrameFires kh = refreshViewport v config (kh\<lparr>kh_continuationFrame := False\<rparr>)"

text \<open>A timer fires when it is pending; the caches are released while the terminal is suspended
  (\<open>hooks/useKeywordHighlighter.ts\<close>).\<close>

fun fires :: "highlight_event \<Rightarrow> highlighter \<Rightarrow> bool" where
  "fires WriteTimerFires kh \<longleftrightarrow> kh_writeTimer kh"
| "fires ScrollTimerFires kh \<longleftrightarrow> kh_scrollTimer kh"
| "fires ResumeTimerFires kh \<longleftrightarrow> kh_resumeTimer kh"
| "fires ResumeFrameFires kh \<longleftrightarrow> kh_resumeFrame kh"
| "fires ContinuationFrameFires kh \<longleftrightarrow> kh_continuationFrame kh"
| "fires CachesReleased kh \<longleftrightarrow> kh_suspended kh"
| "fires _ kh \<longleftrightarrow> True"

text \<open>\<open>dispose\<close>: the listeners are gone afterwards, so nothing follows it.\<close>

definition disposeHighlighter :: "highlighter \<Rightarrow> highlighter" where
  "disposeHighlighter kh = invalidateAll kh"

section \<open>Bounds\<close>

definition match_cache_ok :: "nat \<Rightarrow> match_cache \<Rightarrow> bool" where
  "match_cache_ok m cache \<longleftrightarrow> distinct (map fst cache) \<and> length cache \<le> m"

lemma deleted_key: "y \<notin> fst ` set (AList.delete y cache)"
  by (auto simp: AList.delete_eq)

lemma delete_length: "distinct (map fst cache) \<Longrightarrow> map_of cache y = Some v \<Longrightarrow> Suc (length (AList.delete y cache)) = length cache"
  by (induction cache) (auto split: if_splits)

lemma getCachedMatches_ok:
  assumes "match_cache_ok m cache" "getCachedMatches y cache = (r, cache')"
  shows "match_cache_ok m cache'" "map_of cache' = map_of cache" "r = map_of cache y"
proof -
  show "r = map_of cache y" using assms(2) by (auto simp: getCachedMatches_def split: option.splits)
  show "match_cache_ok m cache'"
  proof (cases "map_of cache y")
    case (Some v)
    with assms delete_length[of cache y v] deleted_key[of y cache] show ?thesis
      by (auto simp: getCachedMatches_def match_cache_ok_def AList.distinct_delete)
  qed (use assms in \<open>simp add: getCachedMatches_def\<close>)
  show "map_of cache' = map_of cache"
    using assms(2)
    by (auto simp: getCachedMatches_def AList.map_of_delete map_add_def fun_eq_iff AList.delete_conv' split: option.splits)
qed

lemma delete_ok: "match_cache_ok m cache \<Longrightarrow> match_cache_ok m (AList.delete y cache)"
  using le_trans[OF AList.length_delete_le] by (auto simp: match_cache_ok_def AList.distinct_delete)

lemma setCachedMatches_ok:
  assumes "match_cache_ok m cache"
  shows "match_cache_ok m (setCachedMatches m y spans cache)"
proof -
  have d: "distinct (map fst (AList.delete y cache @ [(y, spans)]))"
    using assms deleted_key[of y cache] by (auto simp: match_cache_ok_def AList.distinct_delete)
  then have "distinct (map fst (evictOldest m (AList.delete y cache @ [(y, spans)])))"
    unfolding evictOldest_def drop_map[symmetric] by (rule distinct_drop)
  then show ?thesis by (simp add: match_cache_ok_def setCachedMatches_def) (simp add: evictOldest_def)
qed

lemma readCachedRows_ok:
  assumes "match_cache_ok m cache" "readCachedRows ys cache = (rows, cache')"
  shows "match_cache_ok m cache' \<and> map_of cache' = map_of cache"
  using assms
proof (induction ys arbitrary: cache rows)
  case (Cons y ys)
  obtain r c1 where g: "getCachedMatches y cache = (r, c1)" by force
  obtain rs c2 where rs: "readCachedRows ys c1 = (rs, c2)" by force
  have c2: "cache' = c2" using Cons.prems(2) g rs by auto
  from Cons.IH[OF getCachedMatches_ok(1)[OF Cons.prems(1) g] rs[folded c2]] getCachedMatches_ok(2)[OF Cons.prems(1) g] show ?case by simp
qed auto

lemma storeRows_ok: "match_cache_ok m cache \<Longrightarrow> match_cache_ok m (storeRows m byLine ys cache)"
proof -
  have d: "match_cache_ok m cache \<Longrightarrow> match_cache_ok m (fold AList.delete ks cache)" for ks and cache :: match_cache
    by (induction ks arbitrary: cache) (auto intro: delete_ok)
  have "match_cache_ok m cache \<Longrightarrow> match_cache_ok m (fold (\<lambda>y. setCachedMatches m y (f y)) ks cache)" for ks f and cache :: match_cache
    by (induction ks arbitrary: cache) (auto intro: setCachedMatches_ok)
  with d show "match_cache_ok m cache \<Longrightarrow> match_cache_ok m (storeRows m byLine ys cache)" by (simp add: storeRows_def)
qed

text \<open>The bounds of a running refresh; \<open>held\<close> is the number of decorations it started with.\<close>

definition refresh_ok :: "highlight_config \<Rightarrow> nat \<Rightarrow> refresh_state \<Rightarrow> bool" where
  "refresh_ok config held rf \<longleftrightarrow>
     match_cache_ok (hc_maxCachedLines config) (rf_matches rf)
   \<and> distinct (rf_decorations rf) \<and> length (rf_decorations rf) \<le> hc_maxDecorations config
   \<and> length (rf_decorations rf) = held + bu_created (rf_budget rf) \<and> bu_created (rf_budget rf) \<le> hc_maxPerRefresh config"

lemma budget_created [simp]:
  "isBudgetExhausted clock bu = (ex, bu') \<Longrightarrow> bu_created bu' = bu_created bu"
  by (auto simp: isBudgetExhausted_def isBudgetExpired_def Let_def split: if_splits)

lemma ensureDecoration_ok:
  assumes "refresh_ok config held rf" "ensureDecoration v config y hs (rf_decorations rf) (rf_budget rf) = (key, ds, bu)"
  shows "refresh_ok config held (rf\<lparr>rf_decorations := ds, rf_budget := bu, rf_required := req\<rparr>)"
  using assms
  by (auto simp: refresh_ok_def ensureDecoration_def canCreateDecoration_def Let_def dest: budget_created
      split: if_splits prod.splits)

lemma materializeSpans_ok: "refresh_ok config held rf \<Longrightarrow> refresh_ok config held (materializeSpans v config y spans rf)"
proof (induction spans arbitrary: rf)
  case (Cons hs spans)
  obtain key ds bu where e: "ensureDecoration v config y hs (rf_decorations rf) (rf_budget rf) = (key, ds, bu)" by (cases "ensureDecoration v config y hs (rf_decorations rf) (rf_budget rf)")
  from Cons.IH ensureDecoration_ok[OF Cons.prems e] e show ?case by (simp add: Let_def)
qed simp

lemma materializeRows_ok: "refresh_ok config held rf \<Longrightarrow> refresh_ok config held (materializeRows v config byLine ys rf)"
  by (induction ys arbitrary: rf) (simp_all add: Let_def materializeSpans_ok)

lemma refresh_ok_update:
  assumes "refresh_ok config held rf" "match_cache_ok (hc_maxCachedLines config) cache" "bu_created bu = bu_created (rf_budget rf)"
  shows "refresh_ok config held (rf\<lparr>rf_matches := cache\<rparr>)" "refresh_ok config held (rf\<lparr>rf_budget := bu\<rparr>)"
    "refresh_ok config held (rf\<lparr>rf_budget := bu, rf_matches := cache\<rparr>)"
    "refresh_ok config held (rf\<lparr>rf_matches := cache, rf_budget := bu\<rparr>)"
  using assms by (auto simp: refresh_ok_def)

text \<open>The scans create no decorations.\<close>

lemma ruleLoop_created:
  "ruleLoop fuel clock m line cm t rule li (spans, oc, bu) = Some (stopped, spans', oc', bu') \<Longrightarrow> bu_created bu' = bu_created bu"
proof (induction fuel arbitrary: li spans oc bu)
  case (Suc fuel)
  then show ?case
    by (auto simp: Let_def dest!: budget_created split: if_splits prod.splits option.splits)
qed simp

lemma rulesLoop_created:
  "rulesLoop clock m line cm t rules (spans, oc, bu) = Some (stopped, spans', oc', bu') \<Longrightarrow> bu_created bu' = bu_created bu"
proof (induction rules arbitrary: spans oc bu)
  case (Cons r rules)
  then show ?case
    by (auto simp: Let_def simp del: ruleLoop.simps dest!: budget_created ruleLoop_created split: if_splits prod.splits option.splits)
qed simp

lemma scanPhysicalLine_created:
  "scanPhysicalLine clock config rules cols line t bu = Some (spans, c, bu') \<Longrightarrow> bu_created bu' = bu_created bu"
  by (auto simp: scanPhysicalLine_def Let_def dest: rulesLoop_created split: if_splits option.splits prod.splits)

lemma collectSegments_created:
  "collectSegments clock translate getLine cols endY ys len bu = (sgs, bu') \<Longrightarrow> bu_created bu' = bu_created bu"
proof (induction ys arbitrary: len bu sgs)
  case (Cons y ys)
  then show ?case by (auto simp: Let_def dest!: budget_created split: if_splits prod.splits option.splits)
qed simp

lemma wrappedRuleLoop_created:
  "wrappedRuleLoop fuel clock m sgs t rule li st bu = Some (stopped, st', bu') \<Longrightarrow> bu_created bu' = bu_created bu"
proof (induction fuel arbitrary: li st bu)
  case (Suc fuel)
  then show ?case by (auto simp: Let_def dest!: budget_created split: if_splits prod.splits option.splits)
qed simp

lemma wrappedRulesLoop_created:
  "wrappedRulesLoop clock m sgs t rules st bu = Some (stopped, st', bu') \<Longrightarrow> bu_created bu' = bu_created bu"
proof (induction rules arbitrary: st bu)
  case (Cons r rules)
  then show ?case
    by (auto simp: Let_def simp del: wrappedRuleLoop.simps dest!: budget_created wrappedRuleLoop_created split: if_splits prod.splits option.splits)
qed simp

lemma scanWrapped_created:
  "scanWrappedLogicalLine clock translate config rules cols getLine s e bu = Some (r, bu') \<Longrightarrow> bu_created bu' = bu_created bu"
  by (auto simp: scanWrappedLogicalLine_def Let_def dest!: collectSegments_created wrappedRulesLoop_created
      split: if_splits option.splits prod.splits)

lemma refreshPhysicalLine_ok:
  assumes "refresh_ok config held rf" "refreshPhysicalLine v config rules y line rf = Some rf'"
  shows "refresh_ok config held rf'"
proof -
  define m where "m = hc_maxCachedLines config"
  obtain cached cache where c: "(if y < tv_baseY v then getCachedMatches y (rf_matches rf) else (None, rf_matches rf)) = (cached, cache)" by force
  have ok: "match_cache_ok m cache"
    using c assms(1) getCachedMatches_ok(1)[of m "rf_matches rf" y cached cache] by (auto simp: refresh_ok_def m_def split: if_splits)
  show ?thesis
  proof (cases cached)
    case (Some spans)
    with assms(2) c have "rf' = materializeSpans v config y spans (rf\<lparr>rf_matches := cache\<rparr>)" by (simp add: refreshPhysicalLine_def Let_def)
    then show ?thesis using materializeSpans_ok refresh_ok_update(1)[OF assms(1) ok[unfolded m_def] refl] by simp
  next
    case None
    then obtain spans fin bu where sc: "scanPhysicalLine (tv_clock v) config rules (tv_cols v) line
          (tv_translate v line True (min (length line) (tv_cols v))) (rf_budget rf) = Some (spans, fin, bu)"
      and rf': "rf' = materializeSpans v config y spans (rf\<lparr>rf_matches := cache, rf_budget := bu,
          rf_matches := (if y < tv_baseY v \<and> fin then setCachedMatches m y spans cache else cache)\<rparr>)"
      using assms(2) c by (auto simp: refreshPhysicalLine_def Let_def m_def split: option.splits prod.splits)
    have "match_cache_ok m (if y < tv_baseY v \<and> fin then setCachedMatches m y spans cache else cache)"
      using ok by (auto intro: setCachedMatches_ok)
    from refresh_ok_update(3)[OF assms(1) this[unfolded m_def] scanPhysicalLine_created[OF sc]]
    show ?thesis by (auto simp: rf' m_def intro: materializeSpans_ok)
  qed
qed

lemma refreshLogicalLine_cases:
  assumes "refreshLogicalLine v config rules a b y rf = Some rf'"
  obtains (seen) "rf' = rf"
  | (cached) ls ps ys vis byLine cache where "readCachedRows ys (rf_matches rf) = (byLine, cache)"
      "rf' = materializeRows v config byLine vis (rf\<lparr>rf_logicalStarts := ls, rf_processed := ps, rf_matches := cache\<rparr>)"
      "set vis \<subseteq> {a..b}"
  | (scanned) ls ps vis s e r bu keep where
      "scanWrappedLogicalLine (tv_clock v) (tv_translate v) config rules (tv_cols v) (tv_getLine v) s e (rf_budget rf) = Some (r, bu)"
      "rf' = materializeRows v config (wr_spansByLine r) vis (rf\<lparr>rf_logicalStarts := ls, rf_processed := ps, rf_budget := bu,
          rf_matches := (if keep then storeRows (hc_maxCachedLines config) (wr_spansByLine r) (wr_lineYs r) (rf_matches rf) else rf_matches rf)\<rparr>)"
      "set vis \<subseteq> {a..b}"
proof -
  let ?s = "logicalStart (tv_isWrapped v) y" and ?e = "logicalEnd (tv_isWrapped v) (tv_length v) y"
  let ?vis = "[max ?s a..<min ?e b + 1]"
  have vis: "set ?vis \<subseteq> {a..b}" by auto
  show thesis
  proof (cases "?s \<in> set (rf_logicalStarts rf)")
    case True
    then show thesis using assms seen by (simp add: refreshLogicalLine_def Let_def)
  next
    case ns: False
    show thesis
    proof (cases "?e < tv_baseY v \<and> list_all (\<lambda>y. map_of (rf_matches rf) y \<noteq> None) [?s..<?e + 1]")
      case True
      obtain byLine cache where r: "readCachedRows [?s..<?e + 1] (rf_matches rf) = (byLine, cache)" by force
      show thesis
        by (rule cached[OF r _ vis, where ls = "rf_logicalStarts rf @ [?s]" and ps = "rf_processed rf @ ?vis"]) (use assms ns True r in \<open>simp add: refreshLogicalLine_def Let_def del: upt_Suc\<close>)
    next
      case False
      obtain r bu where sc: "scanWrappedLogicalLine (tv_clock v) (tv_translate v) config rules (tv_cols v) (tv_getLine v) ?s ?e (rf_budget rf) = Some (r, bu)"
        using assms ns False by (auto simp: refreshLogicalLine_def Let_def simp del: upt_Suc split: option.splits)
      show thesis
        by (rule scanned[OF sc _ vis, where ls = "rf_logicalStarts rf @ [?s]" and ps = "rf_processed rf @ ?vis" and keep = "?e < tv_baseY v \<and> wr_complete r \<and> wr_cacheable r \<and> length (wr_lineYs r) \<le> hc_maxCachedLines config"])
          (use assms ns False sc in \<open>auto simp: refreshLogicalLine_def Let_def simp del: upt_Suc\<close>)
    qed
  qed
qed

lemma refreshLogicalLine_ok:
  assumes ok: "refresh_ok config held rf" and r: "refreshLogicalLine v config rules a b y rf = Some rf'"
  shows "refresh_ok config held rf'"
  using r
proof (cases rule: refreshLogicalLine_cases)
  case (cached ls ps ys vis byLine cache)
  have "match_cache_ok (hc_maxCachedLines config) cache" using readCachedRows_ok[OF _ cached(1)] ok by (auto simp: refresh_ok_def)
  then show ?thesis unfolding cached(2) using ok by (intro materializeRows_ok) (simp add: refresh_ok_def)
next
  case (scanned ls ps vis s e r bu keep)
  have "match_cache_ok (hc_maxCachedLines config) (storeRows (hc_maxCachedLines config) (wr_spansByLine r) (wr_lineYs r) (rf_matches rf))"
    using ok by (intro storeRows_ok) (simp add: refresh_ok_def)
  then show ?thesis unfolding scanned(2) using ok scanWrapped_created[OF scanned(1)]
    by (intro materializeRows_ok) (simp add: refresh_ok_def)
qed (use ok in simp)

lemma refreshLines_keeps:
  assumes budget: "\<And>rf ex bu. P rf \<Longrightarrow> isBudgetExhausted (tv_clock v) (rf_budget rf) = (ex, bu) \<Longrightarrow> P (rf\<lparr>rf_budget := bu\<rparr>)"
    and processed: "\<And>rf ps. P rf \<Longrightarrow> P (rf\<lparr>rf_processed := ps\<rparr>)"
    and physical: "\<And>rf rf' y line. P rf \<Longrightarrow> y \<in> set ys \<Longrightarrow> refreshPhysicalLine v config rules y line rf = Some rf' \<Longrightarrow> P rf'"
    and logical: "\<And>rf rf' y. P rf \<Longrightarrow> refreshLogicalLine v config rules a b y rf = Some rf' \<Longrightarrow> P rf'"
    and "P rf" "refreshLines v config rules across a b ys rf = Some rf'"
  shows "P rf'"
  using physical assms(5,6)
proof (induction ys arbitrary: rf)
  case (Cons y ys)
  obtain ex bu where b: "isBudgetExhausted (tv_clock v) (rf_budget rf) = (ex, bu)" by force
  have p: "P (rf\<lparr>rf_budget := bu\<rparr>)" by (rule budget[OF Cons.prems(2) b])
  have IH: "P r \<Longrightarrow> refreshLines v config rules across a b ys r = Some rf' \<Longrightarrow> P rf'" for r
    by (rule Cons.IH) (use Cons.prems(1) in auto)
  show ?case
  proof (cases ex)
    case True
    with Cons.prems(3) b p show ?thesis by simp
  next
    case ne: False
    show ?thesis
    proof (cases "tv_getLine v y")
      case None
      with Cons.prems(3) b ne IH[OF p] show ?thesis by simp
    next
      case (Some line)
      let ?rf = "rf\<lparr>rf_budget := bu, rf_processed := rf_processed rf @ [y]\<rparr>"
      have q: "P ?rf" using processed[OF p] by simp
      obtain r where r: "(if across then refreshLogicalLine v config rules a b y ?rf else refreshPhysicalLine v config rules y line ?rf) = Some r"
        and rest: "refreshLines v config rules across a b ys r = Some rf'"
        using Cons.prems(3) b ne Some by (auto simp: Let_def split: option.splits)
      have "P r" using r q logical[OF q] Cons.prems(1)[OF q, of y line r] by (auto split: if_splits)
      from IH[OF this rest] show ?thesis .
    qed
  qed
qed simp

lemma refreshLines_ok:
  assumes "refresh_ok config held rf" "refreshLines v config rules across a b ys rf = Some rf'"
  shows "refresh_ok config held rf'"
proof (rule refreshLines_keeps[where P = "refresh_ok config held", OF _ _ _ _ assms])
  show "refresh_ok config held (rf\<lparr>rf_budget := bu\<rparr>)"
    if "refresh_ok config held rf" "isBudgetExhausted (tv_clock v) (rf_budget rf) = (ex, bu)" for rf ex bu
    using that budget_created[OF that(2)] by (simp add: refresh_ok_def)
  show "refresh_ok config held (rf\<lparr>rf_processed := ps\<rparr>)" if "refresh_ok config held rf" for rf ps
    using that by (simp add: refresh_ok_def)
qed (auto intro: refreshPhysicalLine_ok refreshLogicalLine_ok)

text \<open>A refresh always ends when the expressions are well behaved.\<close>

lemma scanPhysicalLine_returns:
  assumes "\<forall>r \<in> set rules. regex_ok (cr_exec r)"
  shows "scanPhysicalLine clock config rules cols line t bu \<noteq> None"
proof (cases "t = []")
  case False
  have "selects line (lineCellMap line (min (length line) cols) t) (hc_maxMatchesPerLine config) (allMatches t rules) ([], replicate (length t) False)
      (rulesLoop clock (hc_maxMatchesPerLine config) line (lineCellMap line (min (length line) cols) t) t rules ([], replicate (length t) False, bu))"
    by (rule rulesLoop_selects[OF assms]) simp
  then show ?thesis
    by (rule selectsE) (auto simp: scanPhysicalLine_def False)
qed (simp add: scanPhysicalLine_def)

lemma scanWrapped_returns:
  assumes "\<forall>r \<in> set rules. regex_ok (cr_exec r)"
  shows "scanWrappedLogicalLine clock translate config rules cols getLine s e bu \<noteq> None"
proof -
  have "loop_keeps (\<lambda>_. True) (wrappedRulesLoop clock m sgs t rules st b)" for m sgs t st b
    by (rule wrappedRulesLoop_keeps[OF assms]) auto
  then have ne: "wrappedRulesLoop clock m sgs t rules st b \<noteq> None" for m sgs t st b
    using loop_keepsE by (metis option.distinct(1))
  obtain c b where c: "collectSegments clock translate getLine cols e [s..<e + 1] 0 bu = (c, b)" by force
  show ?thesis
  proof (cases c)
    case (Some sgs)
    with c ne[of "hc_maxMatchesPerLine config" sgs "concat (map sg_text sgs)"
        "(map (\<lambda>y. (y, [])) (map sg_lineY sgs), replicate (length (concat (map sg_text sgs))) False, \<lambda>_. 0)" b]
    show ?thesis by (auto simp: scanWrappedLogicalLine_def Let_def simp del: upt_Suc)
  qed (use c in \<open>simp add: scanWrappedLogicalLine_def del: upt_Suc\<close>)
qed

lemma refreshLines_returns:
  assumes "\<forall>r \<in> set rules. regex_ok (cr_exec r)"
  shows "refreshLines v config rules across a b ys rf \<noteq> None"
proof (induction ys arbitrary: rf)
  case (Cons y ys)
  have phys: "refreshPhysicalLine v config rules y line r \<noteq> None" for line r
    using scanPhysicalLine_returns[OF assms, of "tv_clock v" config "tv_cols v" line "tv_translate v line True (min (length line) (tv_cols v))" "rf_budget r"]
    by (auto simp: refreshPhysicalLine_def Let_def split: option.splits prod.splits if_splits)
  have log: "refreshLogicalLine v config rules a b y r \<noteq> None" for r
    using scanWrapped_returns[OF assms, of "tv_clock v" "tv_translate v" config "tv_cols v" "tv_getLine v"
        "logicalStart (tv_isWrapped v) y" "logicalEnd (tv_isWrapped v) (tv_length v) y" "rf_budget r"]
    by (auto simp: refreshLogicalLine_def Let_def simp del: upt_Suc split: option.splits prod.splits if_splits)
  obtain ex bu where b: "isBudgetExhausted (tv_clock v) (rf_budget rf) = (ex, bu)" by force
  show ?case
  proof (cases "ex \<or> tv_getLine v y = None")
    case True
    with b Cons.IH show ?thesis by (auto simp: Let_def)
  next
    case False
    then obtain line where line: "tv_getLine v y = Some line" by auto
    let ?rf = "rf\<lparr>rf_budget := bu, rf_processed := rf_processed rf @ [y]\<rparr>"
    have "(if across then refreshLogicalLine v config rules a b y ?rf else refreshPhysicalLine v config rules y line ?rf) \<noteq> None"
      using phys log by simp
    then obtain r where "(if across then refreshLogicalLine v config rules a b y ?rf else refreshPhysicalLine v config rules y line ?rf) = Some r"
      by blast
    with b False line Cons.IH[of r] show ?thesis by (cases across) (simp_all add: Let_def)
  qed
qed simp

lemma refreshViewport_returns:
  assumes "\<forall>r \<in> set (kh_rules kh). regex_ok (cr_exec r)"
  shows "refreshViewport v config kh \<noteq> None"
proof -
  have rules: "kh_rules (prepareRefresh v kh) = kh_rules kh"
    by (simp add: prepareRefresh_def invalidateAll_def clearAllTimers_def Let_def)
  have "refreshScan v config (prepareRefresh v kh) \<noteq> None"
    using refreshLines_returns assms by (simp add: refreshScan_def rules)
  then show ?thesis by (auto simp: refreshViewport_def Let_def)
qed

section \<open>Only lines of the zone are decorated\<close>

definition required_in :: "nat set \<Rightarrow> refresh_state \<Rightarrow> bool" where
  "required_in Z rf \<longleftrightarrow> fst ` set (rf_required rf) \<subseteq> Z"

lemma materializeSpans_in: "required_in Z rf \<Longrightarrow> y \<in> Z \<Longrightarrow> required_in Z (materializeSpans v config y spans rf)"
proof (induction spans arbitrary: rf)
  case (Cons hs spans)
  obtain key ds bu where e: "ensureDecoration v config y hs (rf_decorations rf) (rf_budget rf) = (key, ds, bu)" by (cases "ensureDecoration v config y hs (rf_decorations rf) (rf_budget rf)")
  then have "\<forall>k. key = Some k \<longrightarrow> fst k = y"
    by (auto simp: ensureDecoration_def Let_def split: if_splits prod.splits)
  then have "required_in Z (rf\<lparr>rf_decorations := ds, rf_budget := bu,
      rf_required := (case key of None \<Rightarrow> rf_required rf | Some k \<Rightarrow> rf_required rf @ [k])\<rparr>)"
    using Cons.prems by (auto simp: required_in_def split: option.split)
  with Cons e show ?case by (simp add: Let_def)
qed simp

lemma materializeRows_in: "required_in Z rf \<Longrightarrow> set ys \<subseteq> Z \<Longrightarrow> required_in Z (materializeRows v config byLine ys rf)"
  by (induction ys arbitrary: rf) (simp_all add: Let_def materializeSpans_in)

lemma required_update [simp]:
  "required_in Z (rf\<lparr>rf_matches := m\<rparr>) = required_in Z rf" "required_in Z (rf\<lparr>rf_budget := b\<rparr>) = required_in Z rf"
  "required_in Z (rf\<lparr>rf_processed := p\<rparr>) = required_in Z rf" "required_in Z (rf\<lparr>rf_logicalStarts := l\<rparr>) = required_in Z rf"
  by (simp_all add: required_in_def)

lemma refreshLines_in:
  assumes "required_in {a..b} rf" "set ys \<subseteq> {a..b}" "refreshLines v config rules across a b ys rf = Some rf'"
  shows "required_in {a..b} rf'"
proof (rule refreshLines_keeps[where P = "required_in {a..b}", OF _ _ _ _ assms(1,3)])
  show "required_in {a..b} r'" if "required_in {a..b} r" "y \<in> set ys" "refreshPhysicalLine v config rules y line r = Some r'" for r r' y line
  proof -
    have "y \<in> {a..b}" using that(2) assms(2) by blast
    with that(1,3) show ?thesis
      by (auto simp: refreshPhysicalLine_def Let_def simp del: atLeastAtMost_iff split: option.splits prod.splits intro!: materializeSpans_in)
  qed
  show "required_in {a..b} r'" if "required_in {a..b} r" "refreshLogicalLine v config rules a b y r = Some r'" for r r' y
    using that(2) by (cases rule: refreshLogicalLine_cases) (use that(1) in \<open>auto intro!: materializeRows_in\<close>)
qed simp_all

text \<open>What a refresh leaves of the decorations.\<close>

lemma refreshScan_zone:
  assumes "refreshScan v config kh = Some rf" "k \<in> set (rf_decorations rf)" "\<not> isStale (scanStart v config) (scanEnd v config) rf k"
  shows "scanStart v config \<le> fst k \<and> fst k \<le> scanEnd v config"
proof -
  have "set (scanZone v config) \<subseteq> {scanStart v config..scanEnd v config}"
    by (auto simp: scanZone_def scanStart_def scanEnd_def)
  from refreshLines_in[OF _ this assms(1)[unfolded refreshScan_def]] have "required_in {scanStart v config..scanEnd v config} rf"
    by (simp add: required_in_def)
  with assms(2,3) show ?thesis by (auto simp: isStale_def required_in_def)
qed

section \<open>Runs\<close>

text \<open>
  The expressions that rules compile to are well behaved. \<open>due\<close> says that highlighting work was asked
  for and not yet finished, while the terminal can be highlighted at all.
\<close>

fun event_ok :: "highlight_event \<Rightarrow> bool" where
  "event_ok (RulesSet compile trim rules enabled across) \<longleftrightarrow> (\<forall>src e. compile src = Some e \<longrightarrow> regex_ok e)"
| "event_ok _ \<longleftrightarrow> True"

text \<open>The refresh an event runs is cut off, and not because the terminal has all its decorations.\<close>

definition refreshCut :: "terminal_view \<Rightarrow> highlight_config \<Rightarrow> highlighter \<Rightarrow> bool" where
  "refreshCut v config kh =
     (case refreshScan v config (prepareRefresh v kh) of None \<Rightarrow> False | Some rf \<Rightarrow> bu_hitLimit (rf_budget rf) \<and> \<not> bu_hitTotal (rf_budget rf))"

fun dueAfter :: "highlight_config \<Rightarrow> terminal_view \<Rightarrow> highlight_event \<Rightarrow> highlighter \<Rightarrow> bool \<Rightarrow> bool" where
  "dueAfter config v Wrote kh due \<longleftrightarrow> True"
| "dueAfter config v Resized kh due \<longleftrightarrow> True"
| "dueAfter config v Rendered kh due \<longleftrightarrow> due \<or> int (tv_viewportY v) \<noteq> kh_lastViewportY kh"
| "dueAfter config v (RulesSet _ _ _ _ _) kh due \<longleftrightarrow> True"
| "dueAfter config v (SuspendedSet b) kh due \<longleftrightarrow> due \<or> kh_suspended kh \<and> \<not> b"
| "dueAfter config v CachesReleased kh due \<longleftrightarrow> False"
| "dueAfter config v SentinelDisposed kh due \<longleftrightarrow> due"
| "dueAfter config v ResumeTimerFires kh due \<longleftrightarrow> due"
| "dueAfter config v WriteTimerFires kh due \<longleftrightarrow> refreshCut v config (kh\<lparr>kh_writeTimer := False\<rparr>)"
| "dueAfter config v ScrollTimerFires kh due \<longleftrightarrow> refreshCut v config (kh\<lparr>kh_scrollTimer := False\<rparr>)"
| "dueAfter config v ResumeFrameFires kh due \<longleftrightarrow> refreshCut v config (kh\<lparr>kh_resumeFrame := False\<rparr>)"
| "dueAfter config v ContinuationFrameFires kh due \<longleftrightarrow> refreshCut v config (kh\<lparr>kh_continuationFrame := False\<rparr>)"

inductive highlight_run :: "highlight_config \<Rightarrow> highlighter \<times> bool \<Rightarrow> highlighter \<times> bool \<Rightarrow> bool" for config where
  "fires ev kh \<Longrightarrow> event_ok ev \<Longrightarrow> highlightStep config v ev kh = Some kh'
     \<Longrightarrow> highlight_run config (kh, due) (kh', active kh' \<and> \<not> tv_alternate v \<and> dueAfter config v ev kh due)"

definition pending :: "highlighter \<Rightarrow> bool" where
  "pending kh \<longleftrightarrow> kh_writeTimer kh \<or> kh_scrollTimer kh \<or> kh_resumeTimer kh \<or> kh_resumeFrame kh \<or> kh_continuationFrame kh"

definition bounded :: "highlight_config \<Rightarrow> highlighter \<Rightarrow> bool" where
  "bounded config kh \<longleftrightarrow>
     match_cache_ok (hc_maxCachedLines config) (kh_matches kh) \<and> distinct (kh_decorations kh)
   \<and> length (kh_decorations kh) \<le> hc_maxDecorations config \<and> (\<forall>r \<in> set (kh_rules kh). regex_ok (cr_exec r))"

definition highlight_inv :: "highlight_config \<Rightarrow> highlighter \<times> bool \<Rightarrow> bool" where
  "highlight_inv config s \<longleftrightarrow> bounded config (fst s) \<and> (snd s \<longrightarrow> active (fst s) \<and> pending (fst s))"

lemma bounded_cong:
  "kh_matches kh' = kh_matches kh \<Longrightarrow> kh_decorations kh' = kh_decorations kh \<Longrightarrow> kh_rules kh' = kh_rules kh \<Longrightarrow> bounded config kh' = bounded config kh"
  by (simp add: bounded_def)

lemma bounded_update [simp]:
  "bounded config (kh\<lparr>kh_writeTimer := b\<rparr>) = bounded config kh" "bounded config (kh\<lparr>kh_scrollTimer := b\<rparr>) = bounded config kh"
  "bounded config (kh\<lparr>kh_resumeTimer := b\<rparr>) = bounded config kh" "bounded config (kh\<lparr>kh_resumeFrame := b\<rparr>) = bounded config kh"
  "bounded config (kh\<lparr>kh_continuationFrame := b\<rparr>) = bounded config kh" "bounded config (kh\<lparr>kh_lastViewportY := y\<rparr>) = bounded config kh"
  "bounded config (kh\<lparr>kh_sentinel := b\<rparr>) = bounded config kh" "bounded config (kh\<lparr>kh_bufferTrimmed := b\<rparr>) = bounded config kh"
  "bounded config (kh\<lparr>kh_suspended := b\<rparr>) = bounded config kh" "bounded config (clearAllTimers kh) = bounded config kh"
  by (simp_all add: bounded_def clearAllTimers_def)

lemma bounded_invalidate: "(\<forall>r \<in> set (kh_rules kh). regex_ok (cr_exec r)) \<Longrightarrow> bounded config (invalidateAll kh)"
  by (simp add: bounded_def match_cache_ok_def invalidateAll_def clearAllTimers_def)

lemma bounded_rules: "bounded config kh \<Longrightarrow> \<forall>r \<in> set (kh_rules kh). regex_ok (cr_exec r)"
  by (simp add: bounded_def)

lemma bounded_invalidated: "bounded config kh \<Longrightarrow> bounded config (invalidateAll kh)"
  by (simp add: bounded_invalidate bounded_rules)

lemmas triggers = triggerWriteRefresh_def triggerScrollRefresh_def triggerResumeRefresh_def triggerContinuationRefresh_def
  canRefresh_def cancelContinuationRefresh_def cancelResumeRefresh_def Let_def

lemma bounded_triggers:
  assumes "bounded config kh"
  shows "bounded config (triggerWriteRefresh v kh)" "bounded config (triggerScrollRefresh v kh)"
    "bounded config (triggerResumeRefresh v kh)" "bounded config (triggerContinuationRefresh v kh)"
  using assms by (auto simp: triggers intro: bounded_invalidated)

lemma prepareRefresh_bounded: "bounded config kh \<Longrightarrow> bounded config (prepareRefresh v kh)"
  by (auto simp: prepareRefresh_def Let_def intro: bounded_invalidated)

lemma prepareRefresh_active [simp]: "active (prepareRefresh v kh) = active kh"
  by (simp add: prepareRefresh_def active_def invalidateAll_def clearAllTimers_def Let_def)

lemma refreshScan_ok:
  assumes "bounded config kh" "refreshScan v config kh = Some rf"
  shows "refresh_ok config (length (kh_decorations kh)) rf"
  by (rule refreshLines_ok[OF _ assms(2)[unfolded refreshScan_def]]) (use assms(1) in \<open>simp add: refresh_ok_def bounded_def\<close>)

lemma refreshViewport_bounded:
  assumes "bounded config kh" "refreshViewport v config kh = Some kh'"
  shows "bounded config kh'"
proof (cases "active kh \<and> \<not> tv_alternate v")
  case True
  then obtain rf where rf: "refreshScan v config (prepareRefresh v kh) = Some rf"
    and kh': "kh' = (let k = (prepareRefresh v kh)\<lparr>kh_decorations := filter (\<lambda>k. \<not> isStale (scanStart v config) (scanEnd v config) rf k) (rf_decorations rf),
                           kh_matches := rf_matches rf\<rparr>
               in if bu_hitLimit (rf_budget rf) \<and> \<not> bu_hitTotal (rf_budget rf) then triggerContinuationRefresh v k else k)"
    using assms(2) by (auto simp: refreshViewport_def Let_def split: option.splits)
  have "refresh_ok config (length (kh_decorations (prepareRefresh v kh))) rf"
    by (rule refreshScan_ok[OF prepareRefresh_bounded[OF assms(1)] rf])
  then have "bounded config ((prepareRefresh v kh)\<lparr>kh_decorations := filter (\<lambda>k. \<not> isStale (scanStart v config) (scanEnd v config) rf k) (rf_decorations rf),
      kh_matches := rf_matches rf\<rparr>)"
    using prepareRefresh_bounded[OF assms(1), of v] le_trans[OF length_filter_le] by (auto simp: bounded_def refresh_ok_def)
  then show ?thesis unfolding kh' Let_def by (simp add: bounded_triggers)
next
  case False
  then show ?thesis
    using assms by (auto simp: refreshViewport_def intro: bounded_invalidated split: if_splits)
qed

lemma compileRules_ok:
  assumes "\<forall>src e. compile src = Some e \<longrightarrow> regex_ok e"
  shows "\<forall>r \<in> set (compileRules compile trim rules). regex_ok (cr_exec r)"
  using assms by (auto simp: compileRules_def compileRule_def Let_def List.map_filter_def split: if_splits)

lemma step_bounded:
  assumes "bounded config kh" "event_ok ev" "highlightStep config v ev kh = Some kh'"
  shows "bounded config kh'"
proof (cases ev)
  case (RulesSet compile trim rules enabled across)
  then have "bounded config (invalidateAll (kh\<lparr>kh_enabled := enabled, kh_acrossLines := across, kh_rules := compileRules compile trim rules\<rparr>))"
    using assms(2) by (intro bounded_invalidate) (simp add: compileRules_ok)
  with assms(3) RulesSet show ?thesis by (auto simp: setRules_def Let_def bounded_triggers)
qed (use assms in \<open>auto simp: onResize_def onRender_def setSuspended_def releaseCaches_def onSentinelDisposed_def resumeTimerFires_def
      canRefresh_def Let_def bounded_triggers bounded_invalidated dest!: refreshViewport_bounded[rotated] split: if_splits\<close>)

text \<open>Every trigger leaves something pending when the terminal can be highlighted.\<close>

lemma trigger_pending:
  assumes "active kh" "\<not> tv_alternate v"
  shows "pending (triggerWriteRefresh v kh)" "pending (triggerScrollRefresh v kh)" "pending (triggerResumeRefresh v kh)"
    "pending (triggerContinuationRefresh v kh)"
  using assms by (auto simp: triggers pending_def)

lemma trigger_active [simp]:
  "active (triggerWriteRefresh v kh) = active kh" "active (triggerScrollRefresh v kh) = active kh"
  "active (triggerResumeRefresh v kh) = active kh" "active (triggerContinuationRefresh v kh) = active kh" "active (invalidateAll kh) = active kh"
  by (auto simp: triggers active_def invalidateAll_def clearAllTimers_def)

lemma active_update [simp]:
  "active (kh\<lparr>kh_lastViewportY := y\<rparr>) = active kh" "active (kh\<lparr>kh_writeTimer := b\<rparr>) = active kh" "active (kh\<lparr>kh_scrollTimer := b\<rparr>) = active kh"
  "active (kh\<lparr>kh_resumeTimer := b\<rparr>) = active kh" "active (kh\<lparr>kh_resumeFrame := b\<rparr>) = active kh" "active (kh\<lparr>kh_continuationFrame := b\<rparr>) = active kh"
  "active (kh\<lparr>kh_decorations := ds\<rparr>) = active kh" "active (kh\<lparr>kh_matches := ms\<rparr>) = active kh" "active (kh\<lparr>kh_sentinel := b\<rparr>) = active kh"
  "active (kh\<lparr>kh_bufferTrimmed := b\<rparr>) = active kh"
  by (simp_all add: active_def)

lemma refreshViewport_active: "refreshViewport v config kh = Some kh' \<Longrightarrow> active kh' = active kh"
  by (auto simp: refreshViewport_def Let_def split: if_splits option.splits)

lemma refreshViewport_pending:
  assumes "refreshViewport v config kh = Some kh'" "active kh'" "\<not> tv_alternate v" "refreshCut v config kh"
  shows "pending kh'"
  using assms refreshViewport_active[OF assms(1)] by (auto simp: refreshViewport_def refreshCut_def Let_def intro!: trigger_pending split: option.splits)

lemma due_pending:
  assumes "due \<longrightarrow> pending kh" "highlightStep config v ev kh = Some kh'" "active kh'" "\<not> tv_alternate v" "dueAfter config v ev kh due"
    and "fires ev kh" "due \<longrightarrow> active kh"
  shows "pending kh'"
proof (cases ev)
  case Wrote
  with assms show ?thesis by (auto intro: trigger_pending)
next
  case Resized
  with assms show ?thesis by (auto simp: onResize_def intro!: trigger_pending)
next
  case Rendered
  with assms show ?thesis by (auto simp: onRender_def intro!: trigger_pending split: if_splits)
next
  case (RulesSet compile trim rules enabled across)
  define k where "k = invalidateAll (kh\<lparr>kh_enabled := enabled, kh_acrossLines := across, kh_rules := compileRules compile trim rules\<rparr>)"
  have kh': "kh' = (if kh_enabled k \<and> kh_rules k \<noteq> [] then triggerWriteRefresh v k else k)"
    using assms(2) unfolding RulesSet highlightStep.simps setRules_def Let_def k_def[symmetric] by simp
  then have "active k" using assms(3) by (simp split: if_splits)
  then show ?thesis using kh' assms(4) by (simp add: active_def trigger_pending)
next
  case (SuspendedSet b)
  with assms show ?thesis
    by (auto simp: setSuspended_def Let_def intro!: trigger_pending split: if_splits)
      (auto simp: active_def clearAllTimers_def pending_def)
next
  case ResumeTimerFires
  with assms show ?thesis by (auto simp: resumeTimerFires_def canRefresh_def Let_def pending_def split: if_splits)
next
  case SentinelDisposed
  with assms show ?thesis by (auto simp: onSentinelDisposed_def pending_def)
qed (use assms in \<open>auto intro: refreshViewport_pending\<close>)

interpretation dhighlight: invariant_system "\<lambda>s. s = (newHighlighter, False)" "highlight_run config" "highlight_inv config" for config
proof unfold_locales
  show "highlight_inv config s" if "s = (newHighlighter, False)" for s
    using that by (simp add: highlight_inv_def bounded_def match_cache_ok_def newHighlighter_def)
  show "highlight_inv config t" if inv: "highlight_inv config s" and st: "highlight_run config s t" for s t
    using st
  proof cases
    case (1 ev kh v kh' due)
    have "bounded config kh'" using step_bounded[OF _ 1(4,5)] inv 1(1) by (simp add: highlight_inv_def)
    moreover have "active kh' \<and> \<not> tv_alternate v \<and> dueAfter config v ev kh due \<longrightarrow> pending kh'"
      using due_pending[OF _ 1(5) _ _ _ 1(3)] inv 1(1) by (auto simp: highlight_inv_def)
    ultimately show ?thesis by (simp add: 1(2) highlight_inv_def)
  qed
qed

text \<open>C36: highlighting work that was asked for is never forgotten: whatever is written, scrolled, resized,
  suspended, resumed or cut off for lack of time, as long as the work is due and the terminal can be
  highlighted, a timer or a frame that will do it is pending.\<close>

theorem highlight_work_pending:
  assumes "(highlight_run config)\<^sup>*\<^sup>* (newHighlighter, False) (kh, due)" and "due"
  shows "active kh \<and> (kh_writeTimer kh \<or> kh_scrollTimer kh \<or> kh_resumeTimer kh \<or> kh_resumeFrame kh \<or> kh_continuationFrame kh)"
  using dhighlight.reachable_inv[OF refl assms(1)] assms(2) by (simp add: highlight_inv_def pending_def)

text \<open>C37: in every reachable state no event fails to finish; the decorations are distinct and never more
  than allowed, the cache holds no more lines than allowed and no line twice; and after a refresh
  that the terminal admits only lines of the scanned zone are decorated.\<close>

theorem highlight_bounded:
  assumes "(highlight_run config)\<^sup>*\<^sup>* (newHighlighter, False) (kh, due)" and "event_ok ev"
  shows "\<exists>kh'. highlightStep config v ev kh = Some kh'
      \<and> length (kh_decorations kh') \<le> hc_maxDecorations config \<and> distinct (kh_decorations kh')
      \<and> length (kh_matches kh') \<le> hc_maxCachedLines config \<and> distinct (map fst (kh_matches kh'))
      \<and> (ev \<in> {WriteTimerFires, ScrollTimerFires, ResumeFrameFires, ContinuationFrameFires} \<and> active kh \<longrightarrow>
           (\<forall>k \<in> set (kh_decorations kh'). tv_viewportY v - hc_overscan config \<le> fst k
              \<and> fst k \<le> tv_viewportY v + tv_rows v - 1 + hc_overscan config))"
proof -
  have b: "bounded config kh" using dhighlight.reachable_inv[OF refl assms(1)] by (simp add: highlight_inv_def)
  have runs: "refreshViewport v config k \<noteq> None" if "kh_rules k = kh_rules kh" for k
    using refreshViewport_returns[of k] b that by (simp add: bounded_def)
  then have "highlightStep config v ev kh \<noteq> None" by (cases ev) auto
  then obtain kh' where s: "highlightStep config v ev kh = Some kh'" by blast
  have zone: "scanStart v config \<le> fst d \<and> fst d \<le> scanEnd v config"
    if r: "refreshViewport v config k = Some k'" and d: "active k" "d \<in> set (kh_decorations k')" for k k' d
  proof (cases "tv_alternate v")
    case True
    then show ?thesis using r d by (auto simp: refreshViewport_def invalidateAll_def)
  next
    case False
    obtain rf where rf: "refreshScan v config (prepareRefresh v k) = Some rf"
      and "d \<in> set (filter (\<lambda>x. \<not> isStale (scanStart v config) (scanEnd v config) rf x) (rf_decorations rf))"
      using r d False
      by (auto simp: refreshViewport_def triggers invalidateAll_def clearAllTimers_def split: if_splits option.splits)
    then show ?thesis using refreshScan_zone[OF rf] by auto
  qed
  have "\<forall>d \<in> set (kh_decorations kh'). scanStart v config \<le> fst d \<and> fst d \<le> scanEnd v config"
    if "ev \<in> {WriteTimerFires, ScrollTimerFires, ResumeFrameFires, ContinuationFrameFires}" "active kh"
    using that s zone by (auto simp: active_def)
  with s step_bounded[OF b assms(2) s] show ?thesis
    by (auto simp: bounded_def match_cache_ok_def scanStart_def scanEnd_def)
qed

definition demo_view :: terminal_view where
  "demo_view = \<lparr>tv_alternate = False, tv_viewportY = 0, tv_rows = 24, tv_cols = 80, tv_baseY = 0, tv_length = 1,
     tv_getLine = (\<lambda>y. if y = 0 then Some demo_cells else None), tv_isWrapped = (\<lambda>_. False), tv_translate = (\<lambda>_ _ _. js ''ok''),
     tv_place = (\<lambda>_. True), tv_sentinel = True, tv_clock = (\<lambda>_. 0)\<rparr>"

definition demo_event :: highlight_event where
  "demo_event = RulesSet (\<lambda>src. Some (literalRegex src)) id [\<lparr>hr_enabled = True, hr_patterns = [js ''ok''], hr_color = ''green''\<rparr>] True False"

lemma demo_highlight_run:
  "\<exists>kh. (highlight_run demo_config)\<^sup>*\<^sup>* (newHighlighter, False) (kh, True)"
proof -
  have ok: "event_ok demo_event" "fires demo_event newHighlighter" by (auto simp: demo_event_def literalRegex_ok)
  obtain kh where s: "highlightStep demo_config demo_view demo_event newHighlighter = Some kh" by (simp add: demo_event_def)
  have "active kh"
    using s by (auto simp: demo_event_def setRules_def Let_def compileRules_def compileRule_def combined_def List.map_filter_def js_def
        active_def newHighlighter_def invalidateAll_def clearAllTimers_def triggers demo_view_def)
  then have "active kh \<and> \<not> tv_alternate demo_view \<and> dueAfter demo_config demo_view demo_event newHighlighter False"
    by (simp add: demo_view_def demo_event_def)
  with highlight_run.intros[OF ok(2,1) s, of False] show ?thesis by auto
qed

lemma highlight_work_pending_witness:
  "\<exists>kh. (highlight_run demo_config)\<^sup>*\<^sup>* (newHighlighter, False) (kh, True) \<and> active kh"
  using demo_highlight_run highlight_work_pending by blast

lemma highlight_bounded_witness:
  "\<exists>kh. highlightStep demo_config demo_view Wrote newHighlighter = Some kh \<and> length (kh_decorations kh) \<le> 1000"
  using highlight_bounded[of demo_config newHighlighter False Wrote demo_view] by (auto simp: demo_config_def)

end
