(* ===== verification/Duplicate_Prompt.thy ===== *)
theory Duplicate_Prompt
  imports File_Paths "HOL-Library.Sublist"
begin

text \<open>
  Uploads onto existing remote files: the prompt that asks what to do
  (\<open>lib/transferDuplicatePrompt.ts\<close>), its dialog
  (\<open>components/dialog/file-explorer/TransferDuplicateDialog.tsx\<close>) and the filter of the requests of a
  task (\<open>lib/transferDuplicateResolution.ts\<close>).

  A promise is a number, in the order of creation; resolving it is an entry of \<open>pt_answers\<close>. The
  requests a promise was created for are kept beside it, to say which question an answer answers.
  What the back end reports of remote paths is a parameter, \<open>None\<close> where the call is rejected. The
  answers of the user to a task are a function of the number of the question.
\<close>

section \<open>The prompt\<close>

datatype duplicate_choice = SkipChoice | OverwriteChoice | OverwriteAllChoice

record duplicate_request =
  dr_requestId :: string
  dr_sessionId :: string
  dr_remotePath :: js_text
  dr_fileName :: js_text
  dr_isDirectory :: bool
  dr_respondViaBackend :: bool
  dr_allowApplyToTask :: bool
  dr_unverified :: bool

record prompt_state =
  pt_active :: "duplicate_request option"
  pt_resolver :: "nat option"
  pt_asked :: "duplicate_request list"
  pt_answers :: "(nat \<times> duplicate_choice) list"
  pt_submitting :: "duplicate_request option"
  pt_backend :: "(string \<times> duplicate_choice) list"

definition prompt_start :: prompt_state where
  "prompt_start = \<lparr>pt_active = None, pt_resolver = None, pt_asked = [], pt_answers = [], pt_submitting = None, pt_backend = []\<rparr>"

definition answerPromise :: "nat option \<Rightarrow> duplicate_choice \<Rightarrow> prompt_state \<Rightarrow> prompt_state" where
  "answerPromise resolver choice pt =
     (case resolver of None \<Rightarrow> pt | Some p \<Rightarrow> pt\<lparr>pt_answers := pt_answers pt @ [(p, choice)]\<rparr>)"

definition showTransferDuplicatePrompt :: "duplicate_request \<Rightarrow> prompt_state \<Rightarrow> prompt_state" where
  "showTransferDuplicatePrompt request pt =
     (let pt = answerPromise (pt_resolver pt) SkipChoice pt
      in pt\<lparr>pt_resolver := Some (length (pt_asked pt)), pt_asked := pt_asked pt @ [request], pt_active := Some request\<rparr>)"

definition resolveTransferDuplicatePrompt :: "duplicate_choice \<Rightarrow> prompt_state \<Rightarrow> prompt_state" where
  "resolveTransferDuplicatePrompt choice pt =
     answerPromise (pt_resolver pt) choice (pt\<lparr>pt_resolver := None, pt_active := None\<rparr>)"

definition setBackendTransferDuplicatePrompt :: "duplicate_request option \<Rightarrow> prompt_state \<Rightarrow> prompt_state" where
  "setBackendTransferDuplicatePrompt request pt =
     (case request of
        Some r \<Rightarrow> pt\<lparr>pt_active := Some (r\<lparr>dr_respondViaBackend := True, dr_allowApplyToTask := False\<rparr>)\<rparr>
      | None \<Rightarrow> (case pt_active pt of
                  Some r \<Rightarrow> if dr_respondViaBackend r then pt\<lparr>pt_active := None\<rparr> else pt
                | None \<Rightarrow> pt))"

text \<open>\<open>handleChoice\<close> of the dialog, up to the call of the back end and after it.\<close>

definition handleChoice :: "duplicate_choice \<Rightarrow> prompt_state \<Rightarrow> prompt_state" where
  "handleChoice choice pt =
     (if pt_submitting pt \<noteq> None then pt
      else case pt_active pt of
             None \<Rightarrow> pt
           | Some request \<Rightarrow>
               if dr_respondViaBackend request
               then pt\<lparr>pt_submitting := Some request,
                       pt_backend := pt_backend pt @ [(dr_requestId request, if choice = OverwriteAllChoice then OverwriteChoice else choice)]\<rparr>
               else resolveTransferDuplicatePrompt choice pt)"

definition backendResponded :: "bool \<Rightarrow> prompt_state \<Rightarrow> prompt_state" where
  "backendResponded failed pt =
     (case pt_submitting pt of
        None \<Rightarrow> pt
      | Some request \<Rightarrow>
          setBackendTransferDuplicatePrompt None
            (pt\<lparr>pt_submitting := None, pt_backend := pt_backend pt @ (if failed then [(dr_requestId request, SkipChoice)] else [])\<rparr>))"

datatype prompt_event = AskLocal duplicate_request | AskBackend duplicate_request | UserChoice duplicate_choice | BackendResponse bool

text \<open>\<open>respondViaBackend ?? false\<close>: the callers of the local prompt do not set it.\<close>

fun promptStep :: "prompt_event \<Rightarrow> prompt_state \<Rightarrow> prompt_state" where
  "promptStep (AskLocal r) pt = showTransferDuplicatePrompt (r\<lparr>dr_respondViaBackend := False\<rparr>) pt"
| "promptStep (AskBackend r) pt = setBackendTransferDuplicatePrompt (Some r) pt"
| "promptStep (UserChoice c) pt = handleChoice c pt"
| "promptStep (BackendResponse failed) pt = backendResponded failed pt"

definition prompt_inv :: "prompt_state \<Rightarrow> bool" where
  "prompt_inv pt \<longleftrightarrow>
     (case pt_resolver pt of
        None \<Rightarrow> map fst (pt_answers pt) = [0..<length (pt_asked pt)]
      | Some p \<Rightarrow> length (pt_asked pt) = Suc p \<and> map fst (pt_answers pt) = [0..<p])
   \<and> (\<forall>r. pt_active pt = Some r \<and> \<not> dr_respondViaBackend r \<longrightarrow> (\<exists>p. pt_resolver pt = Some p \<and> pt_asked pt ! p = r))
   \<and> (\<forall>r. pt_submitting pt = Some r \<longrightarrow> dr_respondViaBackend r)"

lemma prompt_step_inv: "prompt_inv pt \<Longrightarrow> prompt_inv (promptStep ev pt)"
  by (cases ev)
    (auto simp: prompt_inv_def showTransferDuplicatePrompt_def answerPromise_def resolveTransferDuplicatePrompt_def
      setBackendTransferDuplicatePrompt_def handleChoice_def backendResponded_def Let_def nth_append
      split: option.splits if_splits)

inductive prompt_step :: "prompt_state \<Rightarrow> prompt_state \<Rightarrow> bool" where
  "prompt_step pt (promptStep ev pt)"

interpretation dprompt: invariant_system "\<lambda>pt. pt = prompt_start" prompt_step prompt_inv
proof unfold_locales
  show "prompt_inv pt" if "pt = prompt_start" for pt
    using that by (simp add: prompt_inv_def prompt_start_def)
  show "prompt_inv pt'" if "prompt_inv pt" "prompt_step pt pt'" for pt pt'
    using that(2,1) by cases (simp add: prompt_step_inv)
qed

text \<open>A run from the start; the questions the back end asked in it, and the calls that failed.\<close>

abbreviation prompt_run :: "prompt_event list \<Rightarrow> prompt_state" where
  "prompt_run evs \<equiv> fold promptStep evs prompt_start"

definition backend_asked :: "prompt_event list \<Rightarrow> string list" where
  "backend_asked evs = List.map_filter (\<lambda>ev. case ev of AskBackend r \<Rightarrow> Some (dr_requestId r) | _ \<Rightarrow> None) evs"

definition calls_failed :: "prompt_event list \<Rightarrow> nat" where
  "calls_failed evs = length (filter (\<lambda>ev. ev = BackendResponse True) evs)"

lemma run_counts [simp]:
  "backend_asked [] = []" "backend_asked (evs @ [AskBackend r]) = backend_asked evs @ [dr_requestId r]"
  "backend_asked (evs @ [AskLocal q]) = backend_asked evs" "backend_asked (evs @ [UserChoice c]) = backend_asked evs"
  "backend_asked (evs @ [BackendResponse f]) = backend_asked evs"
  "calls_failed [] = 0" "calls_failed (evs @ [BackendResponse f]) = calls_failed evs + (if f then 1 else 0)"
  "calls_failed (evs @ [AskBackend r]) = calls_failed evs" "calls_failed (evs @ [AskLocal q]) = calls_failed evs"
  "calls_failed (evs @ [UserChoice c]) = calls_failed evs"
  by (simp_all add: backend_asked_def calls_failed_def List.map_filter_def)

lemma run_reachable: "prompt_step\<^sup>*\<^sup>* prompt_start (prompt_run evs)"
proof (induction evs rule: rev_induct)
  case (snoc ev evs)
  then show ?case using prompt_step.intros [of "prompt_run evs" ev] by simp
qed simp

text \<open>
  The answers given to the back end: for each question its id, the choice, and whether the call
  failed, in which case skipping is sent once more.
\<close>

definition answer_calls :: "(string \<times> duplicate_choice \<times> bool) list \<Rightarrow> (string \<times> duplicate_choice) list" where
  "answer_calls given = concat (map (\<lambda>(q, c, failed). (q, c) # (if failed then [(q, SkipChoice)] else [])) given)"

definition failures :: "(string \<times> duplicate_choice \<times> bool) list \<Rightarrow> nat" where
  "failures given = length (filter (\<lambda>(q, c, failed). failed) given)"

lemma answer_simps [simp]:
  "answer_calls [] = []" "answer_calls (given @ [(q, c, f)]) = answer_calls given @ (q, c) # (if f then [(q, SkipChoice)] else [])"
  "failures [] = 0" "failures (given @ [(q, c, f)]) = failures given + (if f then 1 else 0)"
  by (simp_all add: answer_calls_def failures_def)

definition backend_inv :: "string list \<Rightarrow> nat \<Rightarrow> prompt_state \<Rightarrow> (string \<times> duplicate_choice \<times> bool) list \<Rightarrow> bool" where
  "backend_inv asked failed pt given \<longleftrightarrow>
     pt_backend pt = answer_calls given \<and> subseq (map fst given) asked \<and> failures given \<le> failed
   \<and> (case pt_submitting pt of
        Some r \<Rightarrow> \<exists>given' c. given = given' @ [(dr_requestId r, c, False)]
      | None \<Rightarrow> \<forall>r. pt_active pt = Some r \<and> dr_respondViaBackend r \<longrightarrow> subseq (map fst given @ [dr_requestId r]) asked)"

lemma subseq_snoc: "subseq xs ys \<Longrightarrow> subseq xs (ys @ [y])"
  using list_emb_append_mono [of "(=)" xs ys "[]" "[y]"] by simp

lemma backend_answers: "\<exists>given. backend_inv (backend_asked evs) (calls_failed evs) (prompt_run evs) given"
proof (induction evs rule: rev_induct)
  case Nil
  then show ?case by (intro exI [of _ "[]"]) (simp add: backend_inv_def prompt_start_def)
next
  case (snoc ev evs)
  let ?pt = "prompt_run evs" and ?asked = "backend_asked evs" and ?failed = "calls_failed evs"
  obtain given where inv: "backend_inv ?asked ?failed ?pt given" using snoc by blast
  show ?case
  proof (cases ev)
    case (AskLocal q)
    with inv have "backend_inv ?asked ?failed (promptStep ev ?pt) given"
      by (auto simp: backend_inv_def showTransferDuplicatePrompt_def answerPromise_def Let_def split: option.splits)
    with AskLocal show ?thesis by (intro exI [of _ given]) simp
  next
    case (AskBackend q)
    with inv have "backend_inv (?asked @ [dr_requestId q]) ?failed (promptStep ev ?pt) given"
      by (auto simp: backend_inv_def setBackendTransferDuplicatePrompt_def split: option.splits intro: subseq_snoc)
    with AskBackend show ?thesis by (intro exI [of _ given]) simp
  next
    case (UserChoice c)
    show ?thesis
    proof (cases "pt_submitting ?pt = None \<and> (\<exists>r. pt_active ?pt = Some r \<and> dr_respondViaBackend r)")
      case True
      then obtain r where r: "pt_submitting ?pt = None" "pt_active ?pt = Some r" "dr_respondViaBackend r" by blast
      with inv have "backend_inv ?asked ?failed (handleChoice c ?pt)
          (given @ [(dr_requestId r, if c = OverwriteAllChoice then OverwriteChoice else c, False)])"
        by (auto simp: backend_inv_def handleChoice_def)
      with UserChoice show ?thesis by auto
    next
      case False
      with inv have "backend_inv ?asked ?failed (handleChoice c ?pt) given"
        by (auto simp: backend_inv_def handleChoice_def resolveTransferDuplicatePrompt_def answerPromise_def split: option.splits)
      with UserChoice show ?thesis by auto
    qed
  next
    case (BackendResponse f)
    show ?thesis
    proof (cases "pt_submitting ?pt")
      case None
      with inv have "backend_inv ?asked (?failed + n) (backendResponded f ?pt) given" for n
        by (auto simp: backend_inv_def backendResponded_def)
      from this [of "if f then 1 else 0"] BackendResponse show ?thesis by auto
    next
      case (Some r)
      with inv obtain given' c where g: "given = given' @ [(dr_requestId r, c, False)]" by (auto simp: backend_inv_def)
      with inv Some have "backend_inv ?asked (?failed + (if f then 1 else 0)) (backendResponded f ?pt) (given' @ [(dr_requestId r, c, f)])"
        by (auto simp: backend_inv_def backendResponded_def setBackendTransferDuplicatePrompt_def split: option.splits)
      with BackendResponse show ?thesis by auto
    qed
  qed
qed

text \<open>C38: no question is answered twice. In every run the local questions are answered one by one in the
  order they were asked, each exactly once, and only the newest may still be open. The calls to the
  back end answer some of the questions it asked, in order, each with one call; only after a call
  that failed is that question skipped with one further call. What the user chooses answers exactly
  the question shown, a local one through its promise and one of the back end through a call, and
  while a call is on its way the user's choices do nothing.\<close>

theorem prompts_answered_once:
  assumes "pt = prompt_run evs"
  shows "map fst (pt_answers pt) = [0..<length (pt_answers pt)]
     \<and> length (pt_asked pt) = length (pt_answers pt) + (if pt_resolver pt = None then 0 else 1)
     \<and> (\<exists>given. pt_backend pt = answer_calls given \<and> subseq (map fst given) (backend_asked evs) \<and> failures given \<le> calls_failed evs)
     \<and> (\<forall>r c. pt_active pt = Some r \<and> \<not> dr_respondViaBackend r \<and> pt_submitting pt = None \<longrightarrow>
          pt_asked pt ! length (pt_answers pt) = r
        \<and> pt_answers (promptStep (UserChoice c) pt) = pt_answers pt @ [(length (pt_answers pt), c)])
     \<and> (\<forall>r c. pt_active pt = Some r \<and> dr_respondViaBackend r \<longrightarrow> pt_answers (promptStep (UserChoice c) pt) = pt_answers pt
        \<and> (pt_submitting pt = None \<longrightarrow> pt_backend (promptStep (UserChoice c) pt) =
             pt_backend pt @ [(dr_requestId r, if c = OverwriteAllChoice then OverwriteChoice else c)]))
     \<and> (\<forall>c. pt_submitting pt \<noteq> None \<longrightarrow> promptStep (UserChoice c) pt = pt)"
proof -
  have inv: "prompt_inv pt" using dprompt.reachable_inv[OF refl run_reachable] assms by simp
  have n: "map fst (pt_answers pt) = [0..<k] \<Longrightarrow> length (pt_answers pt) = k" for k
    by (metis length_map length_upt minus_nat.diff_0)
  have "\<exists>given. pt_backend pt = answer_calls given \<and> subseq (map fst given) (backend_asked evs) \<and> failures given \<le> calls_failed evs"
    using backend_answers [of evs] assms by (auto simp: backend_inv_def)
  then show ?thesis
    using inv n by (auto simp: prompt_inv_def handleChoice_def resolveTransferDuplicatePrompt_def answerPromise_def split: option.splits)
qed

text \<open>
  But a question of the back end replaces a local one on the screen: when it has been answered
  nothing is shown, and the promise of the local question stays open.
\<close>

definition demo_request :: "string \<Rightarrow> duplicate_request" where
  "demo_request i = \<lparr>dr_requestId = i, dr_sessionId = ''s'', dr_remotePath = [47, 97], dr_fileName = [97], dr_isDirectory = False,
     dr_respondViaBackend = False, dr_allowApplyToTask = False, dr_unverified = False\<rparr>"

lemma backend_question_hides_local:
  "let pt = fold promptStep [AskLocal (demo_request ''1''), AskBackend (demo_request ''2''), UserChoice OverwriteChoice, BackendResponse False] prompt_start
   in pt_active pt = None \<and> pt_resolver pt = Some 0 \<and> pt_answers pt = []
    \<and> (\<forall>choices. fold promptStep (map UserChoice choices) pt = pt)"
proof -
  have "fold promptStep (map UserChoice choices) pt = pt" if "pt_active pt = None" for choices pt
    using that by (induction choices) (simp_all add: handleChoice_def)
  then show ?thesis
    by (simp add: prompt_start_def demo_request_def showTransferDuplicatePrompt_def answerPromise_def
        setBackendTransferDuplicatePrompt_def handleChoice_def backendResponded_def Let_def)
qed

text \<open>A second question of the back end that arrives while the first is being answered is lost.\<close>

lemma second_backend_question_lost:
  "let pt = prompt_run [AskBackend (demo_request ''1''), UserChoice SkipChoice, AskBackend (demo_request ''2''), BackendResponse False]
   in pt_active pt = None \<and> pt_backend pt = [(''1'', SkipChoice)]"
  by (simp add: prompt_start_def demo_request_def setBackendTransferDuplicatePrompt_def handleChoice_def backendResponded_def Let_def)

lemma prompts_answered_once_witness:
  "\<exists>given. pt_backend (prompt_run [AskBackend (demo_request ''1''), UserChoice SkipChoice, UserChoice OverwriteChoice]) = answer_calls given
     \<and> subseq (map fst given) [''1''] \<and> failures given \<le> 0"
  using prompts_answered_once [of _ "[AskBackend (demo_request ''1''), UserChoice SkipChoice, UserChoice OverwriteChoice]", OF refl]
  by (simp add: backend_asked_def calls_failed_def List.map_filter_def demo_request_def)

section \<open>The requests of a task\<close>

record upload_request =
  ur_sessionId :: string
  ur_fileName :: js_text
  ur_localPath :: js_text
  ur_remotePath :: js_text
  ur_directory :: bool
  ur_override :: "string option"

text \<open>
  \<open>probe\<close> is \<open>get_file_properties\<close>, with the kind of what is there; \<open>listing\<close> is \<open>list_remote_dir\<close>.
  The result is whether the path exists and whether it is a directory.
\<close>

definition remotePathExists ::
  "(string \<Rightarrow> js_text \<Rightarrow> bool option) \<Rightarrow> (string \<Rightarrow> js_text \<Rightarrow> (js_text \<times> bool) list option) \<Rightarrow> string \<Rightarrow> js_text \<Rightarrow> bool \<times> bool" where
  "remotePathExists probe listing sessionId path =
     (case probe sessionId path of
        Some isDir \<Rightarrow> (True, isDir)
      | None \<Rightarrow>
          (let parentDir = getRemoteParentDirectory path;
               parts = pathParts (\<lambda>c. c = 47) path;
               fileName = (if parts = [] then [] else last parts)
           in if fileName = [] then (False, False)
              else case listing sessionId parentDir of
                     None \<Rightarrow> (False, False)
                   | Some entries \<Rightarrow> (case map_of entries fileName of Some isDir \<Rightarrow> (True, isDir) | None \<Rightarrow> (False, False))))"

datatype duplicate_decision = Proceed | Chosen duplicate_choice

text \<open>The decision and the number of questions asked so far; \<open>answer n\<close> is the user's answer to the \<open>n\<close>-th.\<close>

definition resolveDuplicateChoice :: "(nat \<Rightarrow> duplicate_choice) \<Rightarrow> string \<Rightarrow> nat \<Rightarrow> duplicate_decision \<times> nat" where
  "resolveDuplicateChoice answer strategy asked =
     (if strategy = ''skip'' then (Chosen SkipChoice, asked)
      else if strategy = ''overwrite'' \<or> strategy = ''rename'' then (Proceed, asked)
      else if strategy = ''ask'' then (Chosen (answer asked), Suc asked)
      else (Proceed, asked))"

datatype upload_decision = Include | SkipUpload | IncludeAndOverwriteRemaining

definition resolveRemoteUploadConflict ::
  "(string \<Rightarrow> js_text \<Rightarrow> bool \<times> bool) \<Rightarrow> (nat \<Rightarrow> duplicate_choice) \<Rightarrow> string \<Rightarrow> upload_request \<Rightarrow> nat \<Rightarrow> upload_decision \<times> nat" where
  "resolveRemoteUploadConflict exists answer strategy r asked =
     (if \<not> fst (exists (ur_sessionId r) (ur_remotePath r)) then (Include, asked)
      else let (choice, asked) = resolveDuplicateChoice answer strategy asked in
           (case choice of
              Chosen SkipChoice \<Rightarrow> SkipUpload
            | Chosen OverwriteAllChoice \<Rightarrow> IncludeAndOverwriteRemaining
            | _ \<Rightarrow> Include, asked))"

definition overwriting :: "upload_request \<Rightarrow> upload_request" where
  "overwriting r = r\<lparr>ur_override := Some ''overwrite''\<rparr>"

fun filterLoop ::
  "(string \<Rightarrow> js_text \<Rightarrow> bool \<times> bool) \<Rightarrow> (nat \<Rightarrow> duplicate_choice) \<Rightarrow> string \<Rightarrow> bool \<Rightarrow> nat \<Rightarrow> upload_request list \<Rightarrow> upload_request list \<times> nat" where
  "filterLoop exists answer strategy overwriteRemaining asked [] = ([], asked)"
| "filterLoop exists answer strategy overwriteRemaining asked (r # rs) =
     (if overwriteRemaining
      then let (rest, asked) = filterLoop exists answer strategy True asked rs in (overwriting r # rest, asked)
      else let (decision, asked) = resolveRemoteUploadConflict exists answer strategy r asked in
           if decision = SkipUpload then filterLoop exists answer strategy False asked rs
           else let (rest, asked) = filterLoop exists answer strategy (decision = IncludeAndOverwriteRemaining) asked rs
                in ((if strategy = ''ask'' then overwriting r else r) # rest, asked))"

definition filterEnqueueUploadRequests ::
  "(string \<Rightarrow> js_text \<Rightarrow> bool \<times> bool) \<Rightarrow> (nat \<Rightarrow> duplicate_choice) \<Rightarrow> upload_request list \<Rightarrow> string \<Rightarrow> upload_request list \<times> nat" where
  "filterEnqueueUploadRequests exists answer requests strategy =
     (if strategy \<noteq> ''ask'' \<and> strategy \<noteq> ''skip'' then (requests, 0)
      else filterLoop exists answer strategy False 0 requests)"

definition conflict :: "(string \<Rightarrow> js_text \<Rightarrow> bool \<times> bool) \<Rightarrow> upload_request \<Rightarrow> bool" where
  "conflict exists r \<longleftrightarrow> fst (exists (ur_sessionId r) (ur_remotePath r))"

text \<open>The number of conflicts before a request, and how many questions a task asks.\<close>

definition conflictsBefore :: "(string \<Rightarrow> js_text \<Rightarrow> bool \<times> bool) \<Rightarrow> upload_request list \<Rightarrow> nat \<Rightarrow> nat" where
  "conflictsBefore exists rs i = length (filter (conflict exists) (take i rs))"

fun questions :: "(nat \<Rightarrow> duplicate_choice) \<Rightarrow> nat \<Rightarrow> nat \<Rightarrow> nat" where
  "questions answer asked 0 = asked"
| "questions answer asked (Suc n) = (if answer asked = OverwriteAllChoice then Suc asked else questions answer (Suc asked) n)"

lemma filterLoop_rest: "filterLoop exists answer s True asked rs = (map overwriting rs, asked)"
  by (induction rs) simp_all

lemma filterLoop_skip: "filterLoop exists answer ''skip'' False asked rs = (filter (\<lambda>r. \<not> conflict exists r) rs, asked)"
  by (induction rs) (auto simp: resolveRemoteUploadConflict_def resolveDuplicateChoice_def conflict_def)

lemma questions_ge: "asked \<le> questions answer asked n"
  by (induction n arbitrary: asked) (auto intro: le_trans[OF le_SucI])

lemma nths_Cons_Collect: "nths (r # rs) {i. P i} = (if P 0 then [r] else []) @ nths rs {i. P (Suc i)}"
  by (simp add: nths_Cons)

lemma filterLoop_ask:
  "filterLoop exists answer ''ask'' False asked rs =
     (map overwriting (nths rs {i. \<not> (conflict exists (rs ! i) \<and> asked + conflictsBefore exists rs i < questions answer asked (length (filter (conflict exists) rs))
        \<and> answer (asked + conflictsBefore exists rs i) = SkipChoice)}),
      questions answer asked (length (filter (conflict exists) rs)))"
proof (induction rs arbitrary: asked)
  case (Cons r rs)
  show ?case
  proof (cases "conflict exists r")
    case False
    then show ?thesis
      using Cons.IH[of asked]
      by (simp add: resolveRemoteUploadConflict_def conflict_def[symmetric] nths_Cons_Collect conflictsBefore_def)
  next
    case True
    let ?n = "length (filter (conflict exists) rs)"
    show ?thesis
    proof (cases "answer asked")
      case OverwriteAllChoice
      then have "nths (r # rs) {i. \<not> (conflict exists ((r # rs) ! i) \<and> asked + conflictsBefore exists (r # rs) i < Suc asked
          \<and> answer (asked + conflictsBefore exists (r # rs) i) = SkipChoice)} = r # rs"
        by (intro nths_all[symmetric, THEN sym]) (auto simp: less_Suc_eq nth_Cons' conflictsBefore_def True)
      with OverwriteAllChoice True show ?thesis
        by (simp add: resolveRemoteUploadConflict_def conflict_def[symmetric] resolveDuplicateChoice_def filterLoop_rest)
    next
      case SkipChoice
      with True Cons.IH[of "Suc asked"] questions_ge[of "Suc asked" answer ?n] show ?thesis
        by (simp add: resolveRemoteUploadConflict_def conflict_def[symmetric] resolveDuplicateChoice_def nths_Cons_Collect conflictsBefore_def)
    next
      case OverwriteChoice
      with True Cons.IH[of "Suc asked"] show ?thesis
        by (simp add: resolveRemoteUploadConflict_def conflict_def[symmetric] resolveDuplicateChoice_def nths_Cons_Collect conflictsBefore_def)
    qed
  qed
qed (simp add: conflictsBefore_def)

text \<open>C39: an upload task keeps its requests in order and drops exactly those it may drop: with the
  strategy skip those whose remote path exists, without a question; with ask those whose conflict
  the user chose to skip, one question per conflict until the user overwrites all, and every kept
  request then overwrites; with any other strategy nothing is dropped, changed or asked.\<close>

theorem upload_filter_exact:
  "filterEnqueueUploadRequests exists answer rs ''skip'' = (filter (\<lambda>r. \<not> conflict exists r) rs, 0)
   \<and> filterEnqueueUploadRequests exists answer rs ''ask'' =
       (map overwriting (nths rs {i. \<not> (conflict exists (rs ! i)
            \<and> conflictsBefore exists rs i < questions answer 0 (length (filter (conflict exists) rs))
            \<and> answer (conflictsBefore exists rs i) = SkipChoice)}),
        questions answer 0 (length (filter (conflict exists) rs)))
   \<and> (strategy \<notin> {''ask'', ''skip''} \<longrightarrow> filterEnqueueUploadRequests exists answer rs strategy = (rs, 0))"
  using filterLoop_ask[of exists answer 0 rs] filterLoop_skip[of exists answer 0 rs]
  by (simp add: filterEnqueueUploadRequests_def)

definition demo_upload :: "nat \<Rightarrow> upload_request" where
  "demo_upload n = \<lparr>ur_sessionId = ''s'', ur_fileName = [n], ur_localPath = [47, n], ur_remotePath = [47, n], ur_directory = False, ur_override = None\<rparr>"

lemma upload_filter_exact_witness:
  "filterEnqueueUploadRequests (\<lambda>_ p. (p = [47, 97], False)) (\<lambda>_. SkipChoice) [demo_upload 97, demo_upload 98] ''rename''
     = ([demo_upload 97, demo_upload 98], 0)"
  using upload_filter_exact[of "\<lambda>_ p. (p = [47, 97], False)" "\<lambda>_. SkipChoice" "[demo_upload 97, demo_upload 98]" "''rename''"] by simp

end
