(* ===== verification/Input_Selection.thy ===== *)
theory Input_Selection
  imports Terminal_Input Keyword_Scan
begin

text \<open>
  Where the command being typed stands on the screen (\<open>components/terminal/terminalInputSelection.ts\<close>):
  the logical line around the cursor, the span of the tracked input in it, and the translation of
  selections and clicks into indices of the input.

  A buffer is what the code reads of the emulator's active buffer; lines are lists of cells, and
  \<open>bf_translate line maxCols\<close> is \<open>translateToString(false, 0, maxCols)\<close>. A cell offset is the line
  times the number of columns plus the column. \<open>null\<close> is \<open>None\<close>.
\<close>

section \<open>The logical line\<close>

record buffer_view =
  bf_alternate :: bool
  bf_cols :: nat
  bf_rows :: nat
  bf_length :: nat
  bf_baseY :: nat
  bf_cursorX :: nat
  bf_cursorY :: nat
  bf_viewportY :: nat
  bf_getLine :: "nat \<Rightarrow> buffer_cell list option"
  bf_isWrapped :: "nat \<Rightarrow> bool"
  bf_translate :: "buffer_cell list \<Rightarrow> nat \<Rightarrow> js_text"

record line_snapshot =
  sn_startY :: nat
  sn_endY :: nat
  sn_text :: js_text
  sn_offsets :: "nat list"

text \<open>The rows of a snapshot: text, offsets of its units, and the offset after the last row read.\<close>

fun snapshotRows :: "buffer_view \<Rightarrow> nat \<Rightarrow> nat list \<Rightarrow> nat \<Rightarrow> (js_text \<times> nat list \<times> nat) option" where
  "snapshotRows b startY [] lastCellOffset = Some ([], [], lastCellOffset)"
| "snapshotRows b startY (y # ys) lastCellOffset =
     (case bf_getLine b y of
        None \<Rightarrow> None
      | Some line \<Rightarrow>
          let rowOffset = (y - startY) * bf_cols b;
              maxCols = min (length line) (bf_cols b);
              t = bf_translate b line maxCols;
              lineMap = Some (buildStringToCellMap line (length t) maxCols)
          in case snapshotRows b startY ys (rowOffset + cellColumn lineMap (length t)) of
               None \<Rightarrow> None
             | Some (rest, offsets, final) \<Rightarrow>
                 Some (t @ rest, map (\<lambda>i. rowOffset + cellColumn lineMap i) [0..<length t] @ offsets, final))"

definition readLogicalLineSnapshotAt :: "buffer_view \<Rightarrow> nat \<Rightarrow> line_snapshot option" where
  "readLogicalLineSnapshotAt b anchorY =
     (let startY = logicalStart (bf_isWrapped b) anchorY; endY = logicalEnd (bf_isWrapped b) (bf_length b) anchorY in
      case snapshotRows b startY [startY..<endY + 1] 0 of
        None \<Rightarrow> None
      | Some (t, offsets, final) \<Rightarrow> Some \<lparr>sn_startY = startY, sn_endY = endY, sn_text = t, sn_offsets = offsets @ [final]\<rparr>)"

definition readLogicalLineSnapshot :: "buffer_view \<Rightarrow> line_snapshot option" where
  "readLogicalLineSnapshot b = readLogicalLineSnapshotAt b (bf_baseY b + bf_cursorY b)"

section \<open>Spans of the input\<close>

record input_span =
  is_startCellOffset :: nat
  is_endCellOffset :: nat
  is_startY :: nat
  is_endY :: nat
  is_indexToCellOffset :: "nat list"

definition offsetAt :: "nat list \<Rightarrow> nat \<Rightarrow> nat option" where
  "offsetAt offsets i = (if i < length offsets then Some (offsets ! i) else None)"

text \<open>All positions of the value in the text, overlapping ones included: \<open>indexOf\<close> from one after the last.\<close>

function matchPositions :: "js_text \<Rightarrow> js_text \<Rightarrow> nat \<Rightarrow> nat list" where
  "matchPositions t v from =
     (case (if from \<le> length t then index_of (drop from t) v else None) of
        None \<Rightarrow> []
      | Some k \<Rightarrow> (from + k) # matchPositions t v (from + k + 1))"
  by pat_completeness auto
termination
  by (relation "measure (\<lambda>(t, _, from). length t + 1 - from)") (auto split: if_splits)

declare matchPositions.simps [simp del]

definition findTrackedInputCellSpans :: "line_snapshot \<Rightarrow> input_state \<Rightarrow> (nat \<times> nat \<times> nat) list" where
  "findTrackedInputCellSpans snapshot st =
     (if ti_value st = [] then []
      else List.map_filter
             (\<lambda>m. case (offsetAt (sn_offsets snapshot) m, offsetAt (sn_offsets snapshot) (m + length (ti_value st))) of
                    (Some s, Some e) \<Rightarrow> Some (m, s, e)
                  | _ \<Rightarrow> None)
             (matchPositions (sn_text snapshot) (ti_value st) 0))"

definition toGlobalCellOffset :: "line_snapshot \<Rightarrow> nat \<Rightarrow> nat \<Rightarrow> nat" where
  "toGlobalCellOffset snapshot cellOffset cols = sn_startY snapshot * cols + cellOffset"

definition inputCellSpanToInputSpan :: "line_snapshot \<Rightarrow> nat \<times> nat \<times> nat \<Rightarrow> nat \<Rightarrow> nat \<Rightarrow> input_span option" where
  "inputCellSpanToInputSpan snapshot = (\<lambda>(startStringIndex, s, e) valueLength cols.
     let cells = map (\<lambda>i. offsetAt (sn_offsets snapshot) (startStringIndex + i)) [0..<valueLength + 1] in
     if None \<in> set cells then None
     else Some \<lparr>is_startCellOffset = toGlobalCellOffset snapshot s cols, is_endCellOffset = toGlobalCellOffset snapshot e cols,
                is_startY = sn_startY snapshot, is_endY = sn_endY snapshot,
                is_indexToCellOffset = map (\<lambda>c. toGlobalCellOffset snapshot (the c) cols) cells\<rparr>)"

definition findSingleLineInputSpans :: "line_snapshot \<Rightarrow> input_state \<Rightarrow> nat \<Rightarrow> input_span list" where
  "findSingleLineInputSpans snapshot st cols =
     List.map_filter (\<lambda>sp. inputCellSpanToInputSpan snapshot sp (length (ti_value st)) cols) (findTrackedInputCellSpans snapshot st)"

text \<open>\<open>lastIndexOf\<close> of a segment, from the largest candidate down.\<close>

fun lastIndexFrom :: "js_text \<Rightarrow> js_text \<Rightarrow> nat \<Rightarrow> nat option" where
  "lastIndexFrom t w 0 = (if starts_with t w then Some 0 else None)"
| "lastIndexFrom t w (Suc n) = (if starts_with (drop (Suc n) t) w then Some (Suc n) else lastIndexFrom t w n)"

definition findSegmentStartIndex :: "js_text \<Rightarrow> js_text \<Rightarrow> nat option" where
  "findSegmentStartIndex lineText segment =
     (if segment = [] then Some (length lineText) else lastIndexFrom lineText segment (length lineText))"

fun cellOffsetToInputIndex :: "nat list \<Rightarrow> nat \<Rightarrow> nat \<Rightarrow> nat option" where
  "cellOffsetToInputIndex [] cellOffset i = None"
| "cellOffsetToInputIndex (c # cs) cellOffset i = (if cellOffset \<le> c then Some i else cellOffsetToInputIndex cs cellOffset (Suc i))"

text \<open>The first index at or after an offset, the last index when there is none.\<close>

definition inputIndexOf :: "nat list \<Rightarrow> nat \<Rightarrow> int" where
  "inputIndexOf cells cellOffset =
     (case cellOffsetToInputIndex cells cellOffset 0 of Some i \<Rightarrow> int i | None \<Rightarrow> int (length cells) - 1)"

definition getMultilineSegmentOffsets :: "js_text \<Rightarrow> nat list" where
  "getMultilineSegmentOffsets v = 0 # map (\<lambda>i. i + 1) (filter (\<lambda>i. v ! i = 10) [0..<length v])"

fun segmentIndexLoop :: "nat list \<Rightarrow> nat \<Rightarrow> nat \<Rightarrow> nat \<Rightarrow> nat" where
  "segmentIndexLoop [] cursor i found = found"
| "segmentIndexLoop (off # offs) cursor i found = (if off \<le> cursor then segmentIndexLoop offs cursor (Suc i) i else found)"

definition getSegmentIndexAtCursor :: "nat list \<Rightarrow> nat \<Rightarrow> nat" where
  "getSegmentIndexAtCursor offsets cursor = segmentIndexLoop offsets cursor 0 0"

definition MAX_GEOMETRY_INPUT_CHARS :: nat where "MAX_GEOMETRY_INPUT_CHARS = 64 * 1024"
definition MAX_GEOMETRY_INPUT_LINES :: nat where "MAX_GEOMETRY_INPUT_LINES = 512"

definition lines_of :: "js_text \<Rightarrow> js_text list" where
  "lines_of v = splitOn (\<lambda>c. c = 10) v"

definition canResolveEnhancedGeometry :: "input_state \<Rightarrow> bool" where
  "canResolveEnhancedGeometry st \<longleftrightarrow>
     ti_value st \<noteq> [] \<and> length (ti_value st) \<le> MAX_GEOMETRY_INPUT_CHARS
   \<and> \<not> (ti_multiline st \<and> length (lines_of (ti_value st)) > MAX_GEOMETRY_INPUT_LINES)"

definition getPreviousLogicalLineSnapshot :: "buffer_view \<Rightarrow> line_snapshot \<Rightarrow> line_snapshot option" where
  "getPreviousLogicalLineSnapshot b current =
     (if sn_startY current = 0 then None else readLogicalLineSnapshotAt b (sn_startY current - 1))"

definition getNextLogicalLineSnapshot :: "buffer_view \<Rightarrow> line_snapshot \<Rightarrow> line_snapshot option" where
  "getNextLogicalLineSnapshot b current =
     (if sn_endY current + 1 \<ge> bf_length b then None else readLogicalLineSnapshotAt b (sn_endY current + 1))"

text \<open>The snapshots before and after the one of the cursor, nearest first; a missing one ends the search.\<close>

fun snapshotsBack :: "buffer_view \<Rightarrow> nat \<Rightarrow> line_snapshot \<Rightarrow> line_snapshot list option" where
  "snapshotsBack b 0 sn = Some []"
| "snapshotsBack b (Suc n) sn =
     (case getPreviousLogicalLineSnapshot b sn of
        None \<Rightarrow> None
      | Some p \<Rightarrow> map_option ((#) p) (snapshotsBack b n p))"

fun snapshotsOn :: "buffer_view \<Rightarrow> nat \<Rightarrow> line_snapshot \<Rightarrow> line_snapshot list option" where
  "snapshotsOn b 0 sn = Some []"
| "snapshotsOn b (Suc n) sn =
     (case getNextLogicalLineSnapshot b sn of
        None \<Rightarrow> None
      | Some p \<Rightarrow> map_option ((#) p) (snapshotsOn b n p))"

definition segmentCells :: "nat \<Rightarrow> js_text \<times> line_snapshot \<Rightarrow> nat list option" where
  "segmentCells cols = (\<lambda>(segment, snapshot).
     case findSegmentStartIndex (sn_text snapshot) segment of
       None \<Rightarrow> None
     | Some m \<Rightarrow>
         let cells = map (\<lambda>i. offsetAt (sn_offsets snapshot) (m + i)) [0..<length segment + 1] in
         if None \<in> set cells then None else Some (map (\<lambda>c. toGlobalCellOffset snapshot (the c) cols) cells))"

fun collectCells :: "nat \<Rightarrow> (js_text \<times> line_snapshot) list \<Rightarrow> nat list option" where
  "collectCells cols [] = Some []"
| "collectCells cols (x # xs) =
     (case segmentCells cols x of None \<Rightarrow> None | Some cells \<Rightarrow> map_option ((@) cells) (collectCells cols xs))"

text \<open>
  The offsets of segment \<open>k\<close> are written to consecutive indices from its offset in the value on, and
  the next segment starts after its newline, so the array is the concatenation.
\<close>

definition buildMultilineInputSpan :: "buffer_view \<Rightarrow> input_state \<Rightarrow> input_span option" where
  "buildMultilineInputSpan b st =
     (let segments = lines_of (ti_value st) in
      if length segments \<le> 1 then None
      else case readLogicalLineSnapshot b of
             None \<Rightarrow> None
           | Some cursorSnapshot \<Rightarrow>
               let k = getSegmentIndexAtCursor (getMultilineSegmentOffsets (ti_value st)) (ti_cursor st) in
               case (snapshotsBack b k cursorSnapshot, snapshotsOn b (length segments - 1 - k) cursorSnapshot) of
                 (Some before, Some after) \<Rightarrow>
                   (let snapshots = rev before @ [cursorSnapshot] @ after in
                    case collectCells (bf_cols b) (zip segments snapshots) of
                      None \<Rightarrow> None
                    | Some cells \<Rightarrow>
                        if length cells \<noteq> length (ti_value st) + 1 then None
                        else Some \<lparr>is_startCellOffset = cells ! 0, is_endCellOffset = cells ! length (ti_value st),
                                   is_startY = sn_startY (hd snapshots), is_endY = sn_endY (last snapshots), is_indexToCellOffset = cells\<rparr>)
               | _ \<Rightarrow> None)"

definition resolveTrackedInputSpan :: "buffer_view \<Rightarrow> input_state \<Rightarrow> input_span option" where
  "resolveTrackedInputSpan b st =
     (if \<not> canResolveEnhancedGeometry st then None
      else let cursorCellOffset = (bf_baseY b + bf_cursorY b) * bf_cols b + bf_cursorX b;
               atCursor = (\<lambda>sp. offsetAt (is_indexToCellOffset sp) (ti_cursor st) = Some cursorCellOffset) in
           if \<not> ti_multiline st
           then case readLogicalLineSnapshot b of
                  None \<Rightarrow> None
                | Some snapshot \<Rightarrow> find atCursor (findSingleLineInputSpans snapshot st (bf_cols b))
           else case buildMultilineInputSpan b st of
                  None \<Rightarrow> None
                | Some sp \<Rightarrow> if atCursor sp then Some sp else None)"

text \<open>
  The last span of a terminal is remembered under what the code joins into one key: the value, the
  cursor, the number of columns and the position of the screen's cursor. The text of the screen is
  not part of it.
\<close>

type_synonym span_key = "js_text \<times> nat \<times> nat \<times> nat \<times> nat \<times> nat"
type_synonym span_cache = "(span_key \<times> input_span option) option"

definition buildInputSpanCacheKey :: "buffer_view \<Rightarrow> input_state \<Rightarrow> span_key" where
  "buildInputSpanCacheKey b st = (ti_value st, ti_cursor st, bf_cols b, bf_baseY b, bf_cursorX b, bf_cursorY b)"

definition getCachedInputSpan :: "buffer_view \<Rightarrow> input_state \<Rightarrow> span_cache \<Rightarrow> input_span option \<times> span_cache" where
  "getCachedInputSpan b st cache =
     (let key = buildInputSpanCacheKey b st; fresh = resolveTrackedInputSpan b st in
      case cache of
        Some (k, sp) \<Rightarrow> if k = key then (sp, cache) else (fresh, Some (key, fresh))
      | None \<Rightarrow> (fresh, Some (key, fresh)))"

section \<open>Selections and clicks\<close>

record selection_position =
  sp_startX :: nat
  sp_startY :: nat
  sp_endX :: nat
  sp_endY :: nat

definition selectedRange :: "nat \<Rightarrow> input_state \<Rightarrow> selection_position \<Rightarrow> input_span \<Rightarrow> (nat \<times> nat) option" where
  "selectedRange cols st s sp =
     (let selectionStart = sp_startY s * cols + sp_startX s; selectionEnd = sp_endY s * cols + sp_endX s in
      if sp_startY s < is_startY sp \<or> sp_endY s > is_endY sp \<or> selectionStart < is_startCellOffset sp
         \<or> selectionEnd > is_endCellOffset sp \<or> selectionEnd \<le> selectionStart
      then None
      else let i = inputIndexOf (is_indexToCellOffset sp) selectionStart; j = inputIndexOf (is_indexToCellOffset sp) selectionEnd in
           if i < 0 \<or> j > int (length (ti_value st)) \<or> j \<le> i then None else Some (nat i, nat j))"

definition getSelectedInputRange ::
    "buffer_view \<Rightarrow> input_state \<Rightarrow> selection_position option \<Rightarrow> span_cache \<Rightarrow> (nat \<times> nat) option \<times> span_cache" where
  "getSelectedInputRange b st sel cache =
     (if bf_alternate b then (None, cache)
      else if ti_desynced st \<or> ti_lineRewriteRequired st then (None, cache)
      else case sel of
             None \<Rightarrow> (None, cache)
           | Some s \<Rightarrow>
               (case getCachedInputSpan b st cache of
                  (None, cache) \<Rightarrow> (None, cache)
                | (Some sp, cache) \<Rightarrow> (selectedRange (bf_cols b) st s sp, cache)))"

definition getMouseBufferPosition :: "buffer_view \<Rightarrow> rat \<times> rat \<Rightarrow> rat \<times> rat \<Rightarrow> rat \<times> rat \<Rightarrow> (nat \<times> nat) option" where
  "getMouseBufferPosition b cellSize origin client =
     (if fst cellSize \<le> 0 \<or> snd cellSize \<le> 0 then None
      else let viewportX = \<lfloor>(fst client - fst origin) / fst cellSize\<rfloor>; viewportY = \<lfloor>(snd client - snd origin) / snd cellSize\<rfloor> in
           if viewportX < 0 \<or> viewportY < 0 \<or> viewportY \<ge> int (bf_rows b) then None
           else Some (min (bf_cols b) (nat viewportX), bf_viewportY b + nat viewportY))"

definition clickedIndex :: "nat \<Rightarrow> input_state \<Rightarrow> nat \<times> nat \<Rightarrow> input_span \<Rightarrow> nat option" where
  "clickedIndex cols st = (\<lambda>(x, y) sp.
     let clicked = y * cols + x in
     if y < is_startY sp \<or> y > is_endY sp then None
     else if clicked < is_startCellOffset sp then None
     else if clicked > is_endCellOffset sp then (if y = is_endY sp then Some (length (ti_value st)) else None)
     else let i = inputIndexOf (is_indexToCellOffset sp) clicked in
          if i < 0 \<or> i > int (length (ti_value st)) then None else Some (nat i))"

definition getInputIndexAtBufferPosition ::
    "buffer_view \<Rightarrow> input_state \<Rightarrow> nat \<times> nat \<Rightarrow> span_cache \<Rightarrow> nat option \<times> span_cache" where
  "getInputIndexAtBufferPosition b st position cache =
     (if bf_alternate b then (None, cache)
      else if ti_desynced st \<or> ti_lineRewriteRequired st then (None, cache)
      else case getCachedInputSpan b st cache of
             (None, cache) \<Rightarrow> (None, cache)
           | (Some sp, cache) \<Rightarrow> (clickedIndex (bf_cols b) st position sp, cache))"

section \<open>Lemmas\<close>

lemma cellOffsetToInputIndex_Some:
  "cellOffsetToInputIndex cs c n = Some i \<Longrightarrow>
     n \<le> i \<and> i < n + length cs \<and> c \<le> cs ! (i - n) \<and> (\<forall>k < i - n. cs ! k < c)"
proof (induction cs arbitrary: n)
  case (Cons x xs)
  show ?case
  proof (cases "c \<le> x")
    case False
    with Cons.prems have "cellOffsetToInputIndex xs c (Suc n) = Some i" by simp
    from Cons.IH [OF this] have *: "Suc n \<le> i" "i < Suc n + length xs" "c \<le> xs ! (i - Suc n)" "\<forall>k < i - Suc n. xs ! k < c"
      by auto
    then have "i - n = Suc (i - Suc n)" by simp
    with * False show ?thesis by (auto simp: nth_Cons' less_Suc_eq_0_disj)
  qed (use Cons.prems in auto)
qed simp

lemma cellOffsetToInputIndex_None: "cellOffsetToInputIndex cs c n = None \<Longrightarrow> x \<in> set cs \<Longrightarrow> x < c"
  by (induction cs arbitrary: n) (auto split: if_splits)

text \<open>An offset the array reaches has its least index.\<close>

lemma inputIndexOf_least:
  assumes "k < length cs" "c \<le> cs ! k"
  obtains i where "inputIndexOf cs c = int i" "i \<le> k" "c \<le> cs ! i" "\<forall>l < i. cs ! l < c"
proof -
  have "cellOffsetToInputIndex cs c 0 \<noteq> None"
    using assms cellOffsetToInputIndex_None [of cs c 0 "cs ! k"] by (auto simp: linorder_not_less [symmetric])
  then obtain i where i: "cellOffsetToInputIndex cs c 0 = Some i" by auto
  from cellOffsetToInputIndex_Some [OF i] have *: "i < length cs" "c \<le> cs ! i" "\<forall>l < i. cs ! l < c" by auto
  moreover have "i \<le> k" using * assms by (meson leD leI)
  ultimately show thesis using that i by (simp add: inputIndexOf_def)
qed

text \<open>A text stands at a position of a longer one.\<close>

definition occurs :: "js_text \<Rightarrow> js_text \<Rightarrow> nat \<Rightarrow> bool" where
  "occurs t w m \<longleftrightarrow> m + length w \<le> length t \<and> take (length w) (drop m t) = w"

lemma occurs_starts: "occurs t w m \<longleftrightarrow> m \<le> length t \<and> starts_with (drop m t) w"
proof -
  have "length w \<le> length t - m" if "take (length w) (drop m t) = w"
    using arg_cong [OF that, of length] by simp
  then show ?thesis by (auto simp: occurs_def starts_with_def)
qed

lemma index_of_least:
  "index_of s p = None \<Longrightarrow> \<not> occurs s p m"
  "index_of s p = Some k \<Longrightarrow> occurs s p k \<and> (\<forall>m < k. \<not> occurs s p m)"
proof (induction s arbitrary: k m)
  case (Cons c cs)
  {
    case 1
    then show ?case using Cons.IH(1) by (cases m) (auto simp: occurs_starts split: if_splits)
  next
    case 2
    then consider "starts_with (c # cs) p" "k = 0" | k' where "index_of cs p = Some k'" "k = Suc k'" "\<not> starts_with (c # cs) p"
      by (auto split: if_splits)
    then show ?case
    proof cases
      case 2
      with Cons.IH(2) [OF 2(1)] show ?thesis by (auto simp: occurs_starts less_Suc_eq_0_disj)
    qed (simp add: occurs_starts)
  }
qed (auto simp: occurs_def split: if_splits)

lemma occurs_drop: "from \<le> length t \<Longrightarrow> occurs (drop from t) v k \<longleftrightarrow> occurs t v (from + k)"
  by (auto simp: occurs_def add.commute add.left_commute)

lemma matchPositions_exact: "v \<noteq> [] \<Longrightarrow> matchPositions t v from = filter (occurs t v) [from..<length t + 1]"
proof (induction t v "from" rule: matchPositions.induct)
  case (1 t v "from")
  show ?case
  proof (cases "from \<le> length t")
    case le: True
    show ?thesis
    proof (cases "index_of (drop from t) v")
      case None
      then have "\<not> occurs t v m" if "from \<le> m" for m
        using index_of_least(1) [OF None, of "m - from"] occurs_drop [OF le, of v "m - from"] that by simp
      then have "filter (occurs t v) [from..<length t + 1] = []" by (auto simp: filter_empty_conv simp del: upt_Suc)
      with None le show ?thesis by (subst matchPositions.simps) (simp del: upt_Suc)
    next
      case (Some k)
      from index_of_least(2) [OF Some] have here: "occurs t v (from + k)" and least: "\<forall>m < k. \<not> occurs t v (from + m)"
        by (simp_all add: occurs_drop [OF le])
      have "\<not> occurs t v m" if "from \<le> m" "m < from + k" for m
        using least that by (metis le_add_diff_inverse less_diff_conv2 add.commute)
      then have none: "filter (occurs t v) [from..<from + k] = []" by (auto simp: filter_empty_conv)
      have "from + k \<le> length t" using here by (simp add: occurs_def)
      then obtain d where d: "length t = from + k + d" using le_Suc_ex by blast
      have "[from..<length t + 1] = [from..<from + k] @ (from + k) # [from + k + 1..<length t + 1]"
        using upt_add_eq_append [of "from" "from + k" "Suc d"] by (simp add: d upt_conv_Cons del: upt_Suc)
      then have "filter (occurs t v) [from..<length t + 1] = (from + k) # filter (occurs t v) [from + k + 1..<length t + 1]"
        using none here by simp
      moreover have "matchPositions t v (from + k + 1) = filter (occurs t v) [from + k + 1..<length t + 1]"
        using "1.IH" [of k] Some le "1.prems" by simp
      ultimately show ?thesis using Some le by (subst matchPositions.simps) simp
    qed
  qed (subst matchPositions.simps, simp)
qed

text \<open>What is relied on: \<open>translateToString\<close> gives the units of the cells it visits.\<close>

definition translates_cells :: "buffer_view \<Rightarrow> bool" where
  "translates_cells b \<longleftrightarrow>
     (\<forall>y line. bf_getLine b y = Some line \<longrightarrow>
        text_of line (min (length line) (bf_cols b)) (bf_translate b line (min (length line) (bf_cols b))))"

text \<open>The offsets of a snapshot: one for each unit, growing, and none after the final one.\<close>

lemma snapshotRows_offsets:
  assumes "translates_cells b" "startY \<le> y"
    and "snapshotRows b startY [y..<y + n] l = Some (t, offs, f)"
  shows "length offs = length t \<and> sorted offs
       \<and> (\<forall>c \<in> set offs. (y - startY) * bf_cols b \<le> c \<and> c \<le> f) \<and> (0 < n \<longrightarrow> (y - startY) * bf_cols b \<le> f) \<and> (n = 0 \<longrightarrow> f = l)"
  using assms(2,3)
proof (induction n arbitrary: y l t offs f)
  case (Suc n)
  have "[y..<y + Suc n] = y # [Suc y..<Suc y + n]" by (simp add: upt_conv_Cons del: upt_Suc)
  with Suc.prems(2) obtain line where line: "bf_getLine b y = Some line"
    by (auto simp del: upt_Suc split: option.splits)
  define r where "r = (y - startY) * bf_cols b"
  define mc where "mc = min (length line) (bf_cols b)"
  define u where "u = bf_translate b line mc"
  define col where "col = cellColumn (Some (buildStringToCellMap line (length u) mc))"
  obtain t' offs' where rest: "snapshotRows b startY [Suc y..<Suc y + n] (r + col (length u)) = Some (t', offs', f)"
    and t: "t = u @ t'" and offs: "offs = map (\<lambda>i. r + col i) [0..<length u] @ offs'"
    using Suc.prems(2) line \<open>[y..<y + Suc n] = _\<close>
    by (auto simp: Let_def r_def mc_def u_def col_def simp del: upt_Suc split: option.splits)
  have tx: "text_of line mc u" using assms(1) line by (simp add: translates_cells_def mc_def u_def)
  have mono: "i \<le> j \<Longrightarrow> j \<le> length u \<Longrightarrow> col i \<le> col j" for i j
    using columns_exact(2) [OF tx] by (simp add: col_def)
  have less: "col i < bf_cols b" if "i < length u" for i
  proof -
    obtain units where un: "map snd units = u" "\<forall>(c, x) \<in> set units. c < mc" "\<forall>i < length u. col i = fst (units ! i)"
      using columns_exact(1) [OF tx, of "Some (buildStringToCellMap line (length u) mc)"] unfolding col_def by fast
    then have "units ! i \<in> set units" using that by (metis length_map nth_mem)
    with un that show ?thesis by (auto simp: mc_def)
  qed
  from Suc.IH [OF _ rest] Suc.prems(1)
  have ih: "length offs' = length t'" "sorted offs'" "\<forall>c \<in> set offs'. r + bf_cols b \<le> c \<and> c \<le> f"
    "0 < n \<longrightarrow> r + bf_cols b \<le> f" "n = 0 \<longrightarrow> f = r + col (length u)"
    by (auto simp: Suc_diff_le r_def)
  have row: "sorted (map (\<lambda>i. r + col i) [0..<length u])"
    using mono by (auto simp: sorted_iff_nth_mono)
  have f: "r + col i \<le> f" if "i < length u" for i
    using ih(4,5) less [OF that] mono [of i "length u"] that by (cases "n = 0") auto
  have sep: "r + col i \<le> c" "r \<le> c" if "i < length u" "c \<in> set offs'" for i c
    using less [OF that(1)] ih(3) that(2) by fastforce+
  have low: "r \<le> c" if "c \<in> set offs'" for c using ih(3) that by fastforce
  have last: "r \<le> f" using ih(4,5) by (cases "n = 0") auto
  show ?case
    unfolding r_def [symmetric] using ih(1-3) row f sep low last t offs by (auto simp: sorted_append)
qed simp

text \<open>A unit of the text stands in the cell of its offset.\<close>

definition unit_in_cell :: "buffer_view \<Rightarrow> nat \<Rightarrow> nat \<Rightarrow> bool" where
  "unit_in_cell b c u \<longleftrightarrow>
     (case bf_getLine b (c div bf_cols b) of None \<Rightarrow> False
      | Some line \<Rightarrow> c mod bf_cols b < length line \<and> u \<in> set (cell_text (line ! (c mod bf_cols b))))"

text \<open>Also relied on: a wide character does not reach beyond its row, it wraps.\<close>

definition cells_fit :: "buffer_view \<Rightarrow> bool" where
  "cells_fit b \<longleftrightarrow>
     (\<forall>y line. bf_getLine b y = Some line \<longrightarrow>
        (\<forall>c < min (length line) (bf_cols b). c + stride (line ! c) \<le> min (length line) (bf_cols b)))"

lemma snapshotRows_units:
  assumes "translates_cells b" "cells_fit b" "startY \<le> y"
    and "snapshotRows b startY [y..<y + n] l = Some (t, offs, f)"
  shows "(\<forall>i < length t. unit_in_cell b (startY * bf_cols b + offs ! i) (t ! i)) \<and> (0 < n \<longrightarrow> f \<le> (y + n - startY) * bf_cols b)"
  using assms(3,4)
proof (induction n arbitrary: y l t offs f)
  case (Suc n)
  have "[y..<y + Suc n] = y # [Suc y..<Suc y + n]" by (simp add: upt_conv_Cons del: upt_Suc)
  with Suc.prems(2) obtain line where line: "bf_getLine b y = Some line"
    by (auto simp del: upt_Suc split: option.splits)
  define r where "r = (y - startY) * bf_cols b"
  define mc where "mc = min (length line) (bf_cols b)"
  define u where "u = bf_translate b line mc"
  define col where "col = cellColumn (Some (buildStringToCellMap line (length u) mc))"
  obtain t' offs' where rest: "snapshotRows b startY [Suc y..<Suc y + n] (r + col (length u)) = Some (t', offs', f)"
    and t: "t = u @ t'" and offs: "offs = map (\<lambda>i. r + col i) [0..<length u] @ offs'"
    using Suc.prems(2) line \<open>[y..<y + Suc n] = _\<close>
    by (auto simp: Let_def r_def mc_def u_def col_def simp del: upt_Suc split: option.splits)
  have tx: "text_of line mc u" using assms(1) line by (simp add: translates_cells_def mc_def u_def)
  obtain units where un: "map snd units = u" "\<forall>(c, x) \<in> set units. c < mc \<and> c < length line \<and> x \<in> set (cell_text (line ! c))"
      "\<forall>i < length u. col i = fst (units ! i)"
    using columns_exact(1) [OF tx, of "Some (buildStringToCellMap line (length u) mc)"] unfolding col_def by fast
  have here: "unit_in_cell b (startY * bf_cols b + (r + col i)) (u ! i)" if i: "i < length u" for i
  proof -
    have "length units = length u" using un(1) by (metis length_map)
    then have "units ! i \<in> set units" "snd (units ! i) = u ! i" using i un(1) nth_map [of i units snd] by simp_all
    then have c: "col i < bf_cols b" "col i < length line" "u ! i \<in> set (cell_text (line ! col i))"
      using un(2,3) i by (auto simp: mc_def)
    have g: "startY * bf_cols b + (r + col i) = y * bf_cols b + col i"
      using le_Suc_ex [OF Suc.prems(1)] by (auto simp: r_def add_mult_distrib)
    have "(y * bf_cols b + col i) div bf_cols b = y" "(y * bf_cols b + col i) mod bf_cols b = col i"
      using c(1) by (simp_all add: div_mult_self3)
    with c line show ?thesis by (simp add: unit_in_cell_def g)
  qed
  obtain cs where v: "visits line mc 0 cs" and txc: "u = concat (map (\<lambda>c. cell_text (line ! c)) cs)"
    and cols: "\<forall>i \<le> length u. col i = (concat (map (\<lambda>c. replicate (cellUnits (line ! c)) c) cs) @ [lastEnd line 0 cs]) ! i"
    using columns_exact(3) [OF tx, of "Some (buildStringToCellMap line (length u) mc)"] unfolding col_def by fast
  have "length (concat (map (\<lambda>c. replicate (cellUnits (line ! c)) c) cs)) = length u"
    by (simp add: txc length_concat o_def cellUnits_text)
  then have "col (length u) = lastEnd line 0 cs" using cols by (metis le_refl nth_append_length)
  moreover have "lastEnd line 0 cs \<le> mc"
  proof (cases "cs = []")
    case False
    then have "last cs < mc" using visits_le [OF v, of "last cs"] by simp
    with assms(2) line False show ?thesis by (simp add: cells_fit_def lastEnd_def mc_def)
  qed (simp add: lastEnd_def)
  ultimately have last: "col (length u) \<le> bf_cols b" by (simp add: mc_def)
  have y: "startY \<le> Suc y" "Suc y - startY = Suc (y - startY)" using Suc.prems(1) by auto
  from Suc.IH [OF y(1) rest] have ih: "\<forall>i < length t'. unit_in_cell b (startY * bf_cols b + offs' ! i) (t' ! i)"
    "0 < n \<longrightarrow> f \<le> (Suc y + n - startY) * bf_cols b" by auto
  have f: "f \<le> (y + Suc n - startY) * bf_cols b"
  proof (cases n)
    case 0
    with rest have "f = r + col (length u)" by simp
    with last 0 y(2) show ?thesis by (simp add: r_def)
  qed (use ih(2) in simp)
  have "unit_in_cell b (startY * bf_cols b + offs ! i) (t ! i)" if "i < length t" for i
    using here [of i] ih(1) [rule_format, of "i - length u"] that by (auto simp: t offs nth_append)
  with f show ?case by simp
qed simp

lemma logicalStart_le: "logicalStart w y \<le> y"
  by (induction y) auto

lemma logicalEnd_ge: "y \<le> logicalEnd w n y"
proof (induction w n y rule: logicalEnd.induct)
  case (1 w n y)
  then show ?case by (subst logicalEnd.simps) auto
qed

lemma logicalStart_stop: "logicalStart w y = 0 \<or> \<not> w (logicalStart w y)"
  by (induction y) auto

lemma logicalEnd_stop: "\<not> (logicalEnd w n y + 1 < n \<and> w (logicalEnd w n y + 1))"
proof (induction w n y rule: logicalEnd.induct)
  case (1 w n y)
  then show ?case by (subst (1 2) logicalEnd.simps) auto
qed

lemma snapshot_facts:
  assumes "translates_cells b" "readLogicalLineSnapshotAt b y = Some sn"
  shows "length (sn_offsets sn) = Suc (length (sn_text sn))" "sorted (sn_offsets sn)"
    and "sn_startY sn = logicalStart (bf_isWrapped b) y" "sn_endY sn = logicalEnd (bf_isWrapped b) (bf_length b) y"
    and "sn_startY sn \<le> sn_endY sn"
    and "cells_fit b \<Longrightarrow> i < length (sn_text sn) \<Longrightarrow> unit_in_cell b (sn_startY sn * bf_cols b + sn_offsets sn ! i) (sn_text sn ! i)"
    and "cells_fit b \<Longrightarrow> i \<le> length (sn_text sn) \<Longrightarrow> sn_startY sn * bf_cols b + sn_offsets sn ! i \<le> (sn_endY sn + 1) * bf_cols b"
proof -
  define s where "s = logicalStart (bf_isWrapped b) y"
  define n where "n = logicalEnd (bf_isWrapped b) (bf_length b) y + 1 - s"
  have "s \<le> y" "y \<le> logicalEnd (bf_isWrapped b) (bf_length b) y" by (simp_all add: s_def logicalStart_le logicalEnd_ge)
  then have n: "logicalEnd (bf_isWrapped b) (bf_length b) y + 1 = s + n" "0 < n" by (simp_all add: n_def)
  from assms(2) obtain t offs f where r: "snapshotRows b s [s..<s + n] 0 = Some (t, offs, f)"
    and sn: "sn_text sn = t" "sn_offsets sn = offs @ [f]" "sn_startY sn = s"
      "sn_endY sn = logicalEnd (bf_isWrapped b) (bf_length b) y"
    unfolding readLogicalLineSnapshotAt_def Let_def s_def [symmetric] n by (auto split: option.splits)
  note o = snapshotRows_offsets [OF assms(1) _ r]
  from o sn show len: "length (sn_offsets sn) = Suc (length (sn_text sn))" and srt: "sorted (sn_offsets sn)"
    by (auto simp: sorted_append)
  from sn show "sn_startY sn = logicalStart (bf_isWrapped b) y" "sn_endY sn = logicalEnd (bf_isWrapped b) (bf_length b) y"
    by (simp_all add: s_def)
  from sn n show "sn_startY sn \<le> sn_endY sn" by simp
  assume fit: "cells_fit b"
  note u = snapshotRows_units [OF assms(1) fit _ r]
  show "unit_in_cell b (sn_startY sn * bf_cols b + sn_offsets sn ! i) (sn_text sn ! i)" if "i < length (sn_text sn)"
    using u o that sn by (simp add: nth_append)
  assume i: "i \<le> length (sn_text sn)"
  have "sn_offsets sn ! i \<le> sn_offsets sn ! length (sn_text sn)" using srt len i by (intro sorted_nth_mono) simp_all
  also have "\<dots> = f" using o sn by (simp add: nth_append)
  also have "f \<le> n * bf_cols b" using u n by simp
  finally have "sn_startY sn * bf_cols b + sn_offsets sn ! i \<le> (s + n) * bf_cols b" by (simp add: sn add_mult_distrib)
  then show "sn_startY sn * bf_cols b + sn_offsets sn ! i \<le> (sn_endY sn + 1) * bf_cols b" using n sn by simp
qed

text \<open>Logical lines follow each other without a gap.\<close>

lemma line_before:
  assumes "translates_cells b" "readLogicalLineSnapshotAt b y = Some sn" "0 < sn_startY sn"
    and "readLogicalLineSnapshotAt b (sn_startY sn - 1) = Some p"
  shows "sn_startY sn = sn_endY p + 1"
proof -
  let ?s = "sn_startY sn"
  have "\<not> bf_isWrapped b ?s" using assms(3) logicalStart_stop [of "bf_isWrapped b" y] snapshot_facts(3) [OF assms(1,2)] by auto
  then have "logicalEnd (bf_isWrapped b) (bf_length b) (?s - 1) = ?s - 1"
    using assms(3) by (subst logicalEnd.simps) simp
  with snapshot_facts(4) [OF assms(1,4)] assms(3) show ?thesis by simp
qed

lemma line_after:
  assumes "translates_cells b" "readLogicalLineSnapshotAt b y = Some sn" "sn_endY sn + 1 < bf_length b"
    and "readLogicalLineSnapshotAt b (sn_endY sn + 1) = Some p"
  shows "sn_startY p = sn_endY sn + 1"
proof -
  let ?e = "sn_endY sn"
  have "\<not> bf_isWrapped b (?e + 1)"
    using assms(3) logicalEnd_stop [of "bf_isWrapped b" "bf_length b" y] snapshot_facts(4) [OF assms(1,2)] by simp
  then have "logicalStart (bf_isWrapped b) (?e + 1) = ?e + 1" by simp
  with snapshot_facts(3) [OF assms(1,4)] show ?thesis by simp
qed

section \<open>Exactness\<close>

text \<open>The cell of index \<open>k\<close> of a text that starts at unit \<open>m\<close> of a logical line.\<close>

definition inputCell :: "buffer_view \<Rightarrow> line_snapshot \<Rightarrow> nat \<Rightarrow> nat \<Rightarrow> nat" where
  "inputCell b sn m k = sn_startY sn * bf_cols b + sn_offsets sn ! (m + k)"

text \<open>The parts of the input, each with the logical line it is in and its position there; a part has one
  more cell than units, for its end.\<close>

type_synonym input_part = "js_text \<times> line_snapshot \<times> nat"

definition partCells :: "buffer_view \<Rightarrow> input_part \<Rightarrow> nat list" where
  "partCells b = (\<lambda>(w, sn, m). map (inputCell b sn m) [0..<length w + 1])"

definition cursorCell :: "buffer_view \<Rightarrow> nat" where
  "cursorCell b = (bf_baseY b + bf_cursorY b) * bf_cols b + bf_cursorX b"

text \<open>A single line: its first occurrence in the logical line of the cursor for which the cursor stands where
  it does in the input.\<close>

definition one_line :: "buffer_view \<Rightarrow> input_state \<Rightarrow> input_part list \<Rightarrow> bool" where
  "one_line b st parts \<longleftrightarrow>
     (\<exists>sn m. parts = [(ti_value st, sn, m)] \<and> readLogicalLineSnapshotAt b (bf_baseY b + bf_cursorY b) = Some sn
        \<and> occurs (sn_text sn) (ti_value st) m
        \<and> (\<forall>m' < m. \<not> (occurs (sn_text sn) (ti_value st) m' \<and> inputCell b sn m' (ti_cursor st) = cursorCell b)))"

text \<open>The logical lines of the screen for the lines of the input, of which line \<open>k\<close> has the cursor.\<close>

definition line_chain :: "buffer_view \<Rightarrow> nat \<Rightarrow> line_snapshot list \<Rightarrow> bool" where
  "line_chain b k sns \<longleftrightarrow>
     readLogicalLineSnapshotAt b (bf_baseY b + bf_cursorY b) = Some (sns ! k)
   \<and> (\<forall>i < k. 0 < sn_startY (sns ! Suc i) \<and> readLogicalLineSnapshotAt b (sn_startY (sns ! Suc i) - 1) = Some (sns ! i))
   \<and> (\<forall>i. k \<le> i \<and> Suc i < length sns \<longrightarrow>
        sn_endY (sns ! i) + 1 < bf_length b \<and> readLogicalLineSnapshotAt b (sn_endY (sns ! i) + 1) = Some (sns ! Suc i))"

text \<open>
  Several lines: one logical line of the screen for each line of the input, the one with the cursor in the
  logical line of the screen's cursor, the others in those before and after it. A line stands where
  it occurs last in its logical line; an empty one at the end.
\<close>

definition stands_last :: "input_part \<Rightarrow> bool" where
  "stands_last part \<longleftrightarrow>
     (case part of (w, sn, m) \<Rightarrow> occurs (sn_text sn) w m \<and> (\<forall>m'. occurs (sn_text sn) w m' \<longrightarrow> m' \<le> m))"

definition several_lines :: "buffer_view \<Rightarrow> input_state \<Rightarrow> input_part list \<Rightarrow> bool" where
  "several_lines b st parts \<longleftrightarrow>
     map fst parts = splitOn (\<lambda>c. c = 10) (ti_value st) \<and> 2 \<le> length parts
   \<and> line_chain b (length (filter (\<lambda>c. c = 10) (take (ti_cursor st) (ti_value st)))) (map (\<lambda>part. fst (snd part)) parts)
   \<and> (\<forall>part \<in> set parts. stands_last part)"

text \<open>The input stands on the screen, from row \<open>y0\<close> to row \<open>y1\<close>, its index \<open>k\<close> at \<open>cells ! k\<close>.\<close>

definition input_on_screen :: "buffer_view \<Rightarrow> input_state \<Rightarrow> nat list \<Rightarrow> nat \<Rightarrow> nat \<Rightarrow> bool" where
  "input_on_screen b st cells y0 y1 \<longleftrightarrow>
     ti_value st \<noteq> [] \<and> length (ti_value st) \<le> 65536
   \<and> (\<exists>parts. (if ti_multiline st
               then several_lines b st parts \<and> length (filter (\<lambda>c. c = 10) (ti_value st)) < 512
               else one_line b st parts)
        \<and> cells = concat (map (partCells b) parts)
        \<and> y0 = sn_startY (fst (snd (hd parts))) \<and> y1 = sn_endY (fst (snd (last parts))))
   \<and> ti_cursor st < length cells \<and> cells ! ti_cursor st = cursorCell b"

subsection \<open>One line\<close>

definition partSpan :: "buffer_view \<Rightarrow> input_part \<Rightarrow> input_span" where
  "partSpan b part = (case part of (w, sn, m) \<Rightarrow>
     \<lparr>is_startCellOffset = inputCell b sn m 0, is_endCellOffset = inputCell b sn m (length w),
      is_startY = sn_startY sn, is_endY = sn_endY sn, is_indexToCellOffset = partCells b part\<rparr>)"

lemma offsets_part:
  assumes "length (sn_offsets sn) = Suc (length (sn_text sn))" "m + length w \<le> length (sn_text sn)"
  shows "map (\<lambda>i. offsetAt (sn_offsets sn) (m + i)) [0..<length w + 1] = map (\<lambda>i. Some (sn_offsets sn ! (m + i))) [0..<length w + 1]"
  using assms by (auto simp: offsetAt_def simp del: upt_Suc)

lemma findSingleLineInputSpans_exact:
  assumes "length (sn_offsets sn) = Suc (length (sn_text sn))" "ti_value st \<noteq> []"
  shows "findSingleLineInputSpans sn st (bf_cols b)
    = map (\<lambda>m. partSpan b (ti_value st, sn, m)) (filter (occurs (sn_text sn) (ti_value st)) [0..<length (sn_text sn) + 1])"
proof -
  let ?v = "ti_value st" and ?t = "sn_text sn"
  let ?cell = "\<lambda>m. case (offsetAt (sn_offsets sn) m, offsetAt (sn_offsets sn) (m + length ?v)) of (Some s, Some e) \<Rightarrow> Some (m, s, e) | _ \<Rightarrow> None"
  have filters: "List.map_filter g (List.map_filter f ms) = map h ms"
    if "\<forall>m \<in> set ms. \<exists>x. f m = Some x \<and> g x = Some (h m)" for f :: "nat \<Rightarrow> (nat \<times> nat \<times> nat) option" and g and h :: "nat \<Rightarrow> input_span" and ms
    using that by (induction ms) (auto simp: List.map_filter_simps)
  have one: "\<exists>x. ?cell m = Some x \<and> inputCellSpanToInputSpan sn x (length ?v) (bf_cols b) = Some (partSpan b (?v, sn, m))"
    if "occurs ?t ?v m" for m
  proof -
    have m: "m + length ?v \<le> length ?t" using that by (simp add: occurs_def)
    then have "offsetAt (sn_offsets sn) m = Some (sn_offsets sn ! m)" "offsetAt (sn_offsets sn) (m + length ?v) = Some (sn_offsets sn ! (m + length ?v))"
      using assms(1) by (simp_all add: offsetAt_def)
    moreover have "inputCellSpanToInputSpan sn (m, sn_offsets sn ! m, sn_offsets sn ! (m + length ?v)) (length ?v) (bf_cols b) = Some (partSpan b (?v, sn, m))"
      unfolding inputCellSpanToInputSpan_def prod.case Let_def offsets_part [OF assms(1) m]
      by (auto simp: partSpan_def partCells_def inputCell_def toGlobalCellOffset_def simp del: upt_Suc)
    ultimately show ?thesis by simp
  qed
  show ?thesis
    unfolding findSingleLineInputSpans_def findTrackedInputCellSpans_def matchPositions_exact [OF assms(2)] if_not_P [OF assms(2)]
    by (rule filters) (use one in auto)
qed

lemma find_map_filter:
  "find P (map f (filter Q [0..<N])) = Some x \<longleftrightarrow>
     (\<exists>m < N. Q m \<and> P (f m) \<and> x = f m \<and> (\<forall>m' < m. \<not> (Q m' \<and> P (f m'))))"
proof (induction N)
  case (Suc N)
  have "find P (xs @ ys) = (case find P xs of None \<Rightarrow> find P ys | Some y \<Rightarrow> Some y)" for xs ys
    by (induction xs) auto
  moreover have "find P (map f (filter Q [0..<N])) = None \<longleftrightarrow> (\<forall>m < N. \<not> (Q m \<and> P (f m)))"
    by (auto simp: find_None_iff)
  ultimately show ?case using Suc
    by (auto simp: less_Suc_eq split: option.split)
qed simp

lemma offsetAt_Some: "offsetAt cells i = Some c \<longleftrightarrow> i < length cells \<and> cells ! i = c"
  by (simp add: offsetAt_def)

lemma resolve_one:
  assumes "translates_cells b" "canResolveEnhancedGeometry st" "\<not> ti_multiline st"
  shows "resolveTrackedInputSpan b st = Some sp \<longleftrightarrow>
    (\<exists>sn m. one_line b st [(ti_value st, sn, m)] \<and> sp = partSpan b (ti_value st, sn, m)
       \<and> ti_cursor st \<le> length (ti_value st) \<and> inputCell b sn m (ti_cursor st) = cursorCell b)"
proof (cases "readLogicalLineSnapshotAt b (bf_baseY b + bf_cursorY b)")
  case None
  then show ?thesis using assms(3) by (simp add: resolveTrackedInputSpan_def readLogicalLineSnapshot_def one_line_def Let_def)
next
  case (Some sn)
  let ?v = "ti_value st"
  have v: "?v \<noteq> []" using assms(2) by (simp add: canResolveEnhancedGeometry_def)
  note len = snapshot_facts(1) [OF assms(1) Some]
  have cur: "offsetAt (is_indexToCellOffset (partSpan b (?v, sn, m))) (ti_cursor st) = Some (cursorCell b)
      \<longleftrightarrow> ti_cursor st \<le> length ?v \<and> inputCell b sn m (ti_cursor st) = cursorCell b" for m
    by (auto simp: offsetAt_Some partSpan_def partCells_def simp del: upt_Suc)
  have "resolveTrackedInputSpan b st = Some sp \<longleftrightarrow>
      find (\<lambda>sp. offsetAt (is_indexToCellOffset sp) (ti_cursor st) = Some (cursorCell b))
        (map (\<lambda>m. partSpan b (?v, sn, m)) (filter (occurs (sn_text sn) ?v) [0..<length (sn_text sn) + 1])) = Some sp"
    using assms(2,3) Some
    by (simp add: resolveTrackedInputSpan_def readLogicalLineSnapshot_def Let_def findSingleLineInputSpans_exact [OF len v] cursorCell_def
        del: upt_Suc)
  also have "\<dots> \<longleftrightarrow> (\<exists>m < length (sn_text sn) + 1. occurs (sn_text sn) ?v m
      \<and> (ti_cursor st \<le> length ?v \<and> inputCell b sn m (ti_cursor st) = cursorCell b) \<and> sp = partSpan b (?v, sn, m)
      \<and> (\<forall>m' < m. \<not> (occurs (sn_text sn) ?v m' \<and> ti_cursor st \<le> length ?v \<and> inputCell b sn m' (ti_cursor st) = cursorCell b)))"
    unfolding find_map_filter cur ..
  also have "\<dots> \<longleftrightarrow> (\<exists>sn m. one_line b st [(?v, sn, m)] \<and> sp = partSpan b (?v, sn, m)
       \<and> ti_cursor st \<le> length ?v \<and> inputCell b sn m (ti_cursor st) = cursorCell b)"
  proof -
    have "m < length (sn_text sn) + 1" if "occurs (sn_text sn) ?v m" for m using that by (simp add: occurs_def)
    with Some show ?thesis unfolding one_line_def by auto
  qed
  finally show ?thesis .
qed

subsection \<open>Several lines\<close>

lemma lines_count: "length (splitOn P v) = Suc (length (filter P v))"
  by (induction v) (auto split: list.split)

lemma lines_total: "(\<Sum>w\<leftarrow>splitOn P v. length w + 1) = length v + 1"
  by (induction v) (auto split: list.splits)

lemma lines_joined: "concat (map (\<lambda>w. w @ [10]) (splitOn (\<lambda>c. c = 10) v)) = v @ [10]"
  by (induction v) (auto split: list.splits)

lemma segmentIndexLoop_takeWhile:
  "segmentIndexLoop offs cursor i found
    = (if takeWhile (\<lambda>x. x \<le> cursor) offs = [] then found else i + length (takeWhile (\<lambda>x. x \<le> cursor) offs) - 1)"
  by (induction offs arbitrary: i found) auto

lemma takeWhile_sorted: "sorted xs \<Longrightarrow> takeWhile (\<lambda>x. x \<le> c) xs = filter (\<lambda>x. x \<le> (c :: nat)) xs"
proof (induction xs)
  case (Cons x xs)
  have "filter (\<lambda>x. x \<le> c) xs = []" if "\<not> x \<le> c" using Cons.prems that by (auto simp: filter_empty_conv)
  with Cons show ?case by simp
qed simp

lemma positions_count: "length (filter (\<lambda>i. P (v ! i) \<and> i < c) [0..<length v]) = length (filter P (take c v))"
proof (induction v rule: rev_induct)
  case (snoc x xs)
  have "filter (\<lambda>i. P ((xs @ [x]) ! i) \<and> i < c) [0..<length xs] = filter (\<lambda>i. P (xs ! i) \<and> i < c) [0..<length xs]"
    by (rule filter_cong) (simp_all add: nth_append)
  with snoc show ?case by (cases "length xs < c") simp_all
qed simp

lemma cursor_line: "getSegmentIndexAtCursor (getMultilineSegmentOffsets v) c = length (filter (\<lambda>x. x = 10) (take c v))"
proof -
  let ?ps = "map (\<lambda>i. i + 1) (filter (\<lambda>i. v ! i = 10) [0..<length v])"
  have "sorted (filter (\<lambda>i. v ! i = 10) [0..<length v])" by (simp add: sorted_wrt_filter)
  then have "sorted ?ps" by (auto simp: sorted_wrt_map elim: sorted_wrt_mono_rel [rotated])
  then have "takeWhile (\<lambda>x. x \<le> c) ?ps = filter (\<lambda>x. x \<le> c) ?ps" by (rule takeWhile_sorted)
  then have "getSegmentIndexAtCursor (getMultilineSegmentOffsets v) c = length (filter (\<lambda>x. x \<le> c) ?ps)"
    by (simp add: getSegmentIndexAtCursor_def getMultilineSegmentOffsets_def segmentIndexLoop_takeWhile)
  also have "\<dots> = length (filter (\<lambda>i. v ! i = 10 \<and> i < c) [0..<length v])"
    by (simp add: filter_map o_def Suc_le_eq conj_commute)
  finally show ?thesis using positions_count [of "\<lambda>x. x = 10" v c] by simp
qed

lemma lastIndexFrom_exact:
  "lastIndexFrom t w n = Some m \<longleftrightarrow> m \<le> n \<and> starts_with (drop m t) w \<and> (\<forall>m'. starts_with (drop m' t) w \<and> m' \<le> n \<longrightarrow> m' \<le> m)"
proof (induction n)
  case (Suc n)
  then show ?case by (auto simp: le_Suc_eq)
qed auto

lemma findSegmentStartIndex_exact:
  "findSegmentStartIndex t w = Some m \<longleftrightarrow> occurs t w m \<and> (\<forall>m'. occurs t w m' \<longrightarrow> m' \<le> m)"
proof (cases "w = []")
  case True
  then show ?thesis by (auto simp: findSegmentStartIndex_def occurs_def)
next
  case False
  then show ?thesis by (auto simp: findSegmentStartIndex_def lastIndexFrom_exact occurs_starts)
qed

lemma snapshotsBack_exact:
  "snapshotsBack b n sn = Some xs \<longleftrightarrow> length xs = n \<and> (\<forall>i < n. getPreviousLogicalLineSnapshot b ((sn # xs) ! i) = Some (xs ! i))"
proof (induction n arbitrary: sn xs)
  case (Suc n)
  have "snapshotsBack b (Suc n) sn = Some xs \<longleftrightarrow>
      (\<exists>p ps. xs = p # ps \<and> getPreviousLogicalLineSnapshot b sn = Some p \<and> snapshotsBack b n p = Some ps)"
    by (auto split: option.split)
  also have "\<dots> \<longleftrightarrow> length xs = Suc n \<and> (\<forall>i < Suc n. getPreviousLogicalLineSnapshot b ((sn # xs) ! i) = Some (xs ! i))"
    unfolding Suc.IH by (cases xs) (auto simp: less_Suc_eq_0_disj All_less_Suc2)
  finally show ?case .
qed auto

lemma snapshotsOn_exact:
  "snapshotsOn b n sn = Some xs \<longleftrightarrow> length xs = n \<and> (\<forall>i < n. getNextLogicalLineSnapshot b ((sn # xs) ! i) = Some (xs ! i))"
proof (induction n arbitrary: sn xs)
  case (Suc n)
  have "snapshotsOn b (Suc n) sn = Some xs \<longleftrightarrow>
      (\<exists>p ps. xs = p # ps \<and> getNextLogicalLineSnapshot b sn = Some p \<and> snapshotsOn b n p = Some ps)"
    by (auto split: option.split)
  also have "\<dots> \<longleftrightarrow> length xs = Suc n \<and> (\<forall>i < Suc n. getNextLogicalLineSnapshot b ((sn # xs) ! i) = Some (xs ! i))"
    unfolding Suc.IH by (cases xs) (auto simp: less_Suc_eq_0_disj All_less_Suc2)
  finally show ?case .
qed auto

lemma previous_iff:
  "getPreviousLogicalLineSnapshot b sn = Some p \<longleftrightarrow> 0 < sn_startY sn \<and> readLogicalLineSnapshotAt b (sn_startY sn - 1) = Some p"
  by (simp add: getPreviousLogicalLineSnapshot_def)

lemma next_iff:
  "getNextLogicalLineSnapshot b sn = Some p \<longleftrightarrow> sn_endY sn + 1 < bf_length b \<and> readLogicalLineSnapshotAt b (sn_endY sn + 1) = Some p"
  by (simp add: getNextLogicalLineSnapshot_def)

lemma chain_exact:
  assumes "k < L"
  shows "(\<exists>c bef aft. readLogicalLineSnapshot b = Some c \<and> snapshotsBack b k c = Some bef \<and> snapshotsOn b (L - 1 - k) c = Some aft
      \<and> sns = rev bef @ [c] @ aft) \<longleftrightarrow> length sns = L \<and> line_chain b k sns"
proof
  assume "\<exists>c bef aft. readLogicalLineSnapshot b = Some c \<and> snapshotsBack b k c = Some bef \<and> snapshotsOn b (L - 1 - k) c = Some aft
      \<and> sns = rev bef @ [c] @ aft"
  then obtain c bef aft where c: "readLogicalLineSnapshot b = Some c" and sns: "sns = rev (c # bef) @ aft"
    and bef: "length bef = k" "\<forall>i < k. getPreviousLogicalLineSnapshot b ((c # bef) ! i) = Some (bef ! i)"
    and aft: "length aft = L - 1 - k" "\<forall>i < L - 1 - k. getNextLogicalLineSnapshot b ((c # aft) ! i) = Some (aft ! i)"
    by (auto simp: snapshotsBack_exact snapshotsOn_exact)
  have low: "sns ! i = (c # bef) ! (k - i)" if "i \<le> k" for i
    using that bef(1) nth_append_left [of i "rev (c # bef)" aft] rev_nth [of i "c # bef"] unfolding sns by simp
  have high: "sns ! (k + i) = (c # aft) ! i" for i
    using bef(1) low [of k] by (cases i) (simp_all add: sns nth_append)
  have "getPreviousLogicalLineSnapshot b (sns ! Suc i) = Some (sns ! i)" if "i < k" for i
    using bef(2) [rule_format, of "k - Suc i"] that low [of i] low [of "Suc i"] by (simp add: Suc_diff_Suc)
  moreover have "getNextLogicalLineSnapshot b (sns ! i) = Some (sns ! Suc i)" if "k \<le> i" "Suc i < L" for i
    using aft(2) [rule_format, of "i - k"] that high [of "i - k"] high [of "Suc (i - k)"] by simp
  moreover have "length sns = L" using bef(1) aft(1) assms by (simp add: sns)
  ultimately show "length sns = L \<and> line_chain b k sns"
    using c high [of 0] by (simp add: line_chain_def previous_iff next_iff readLogicalLineSnapshot_def)
next
  assume r: "length sns = L \<and> line_chain b k sns"
  let ?c = "sns ! k" and ?bef = "rev (take k sns)" and ?aft = "drop (Suc k) sns"
  have bef: "(?c # ?bef) ! i = sns ! (k - i)" if "i \<le> k" for i
    using that r assms by (cases i) (simp_all add: rev_nth min_def Suc_diff_Suc)
  have aft: "(?c # ?aft) ! i = sns ! (k + i)" if "k + i < L" for i using that r by (cases i) simp_all
  have "getPreviousLogicalLineSnapshot b ((?c # ?bef) ! i) = Some (?bef ! i)" if "i < k" for i
    using that r bef [of i] bef [of "Suc i"] by (auto simp: line_chain_def previous_iff Suc_diff_Suc dest: spec [of _ "k - Suc i"])
  then have "snapshotsBack b k ?c = Some ?bef" using r assms by (simp add: snapshotsBack_exact)
  moreover have "getNextLogicalLineSnapshot b ((?c # ?aft) ! i) = Some (?aft ! i)" if "i < L - 1 - k" for i
    using that r aft [of i] aft [of "Suc i"] by (auto simp: line_chain_def next_iff)
  then have "snapshotsOn b (L - 1 - k) ?c = Some ?aft" using r assms by (simp add: snapshotsOn_exact)
  moreover have "readLogicalLineSnapshot b = Some ?c" using r by (simp add: line_chain_def readLogicalLineSnapshot_def)
  moreover have "sns = rev ?bef @ [?c] @ ?aft" using r assms by (simp add: id_take_nth_drop [symmetric])
  ultimately show "\<exists>c bef aft. readLogicalLineSnapshot b = Some c \<and> snapshotsBack b k c = Some bef \<and> snapshotsOn b (L - 1 - k) c = Some aft
      \<and> sns = rev bef @ [c] @ aft" by blast
qed

lemma chain_reads:
  assumes "translates_cells b" "line_chain b k sns" "k < length sns"
  shows "i < length sns \<Longrightarrow> \<exists>y. readLogicalLineSnapshotAt b y = Some (sns ! i)"
    and "Suc i < length sns \<Longrightarrow> sn_startY (sns ! Suc i) = sn_endY (sns ! i) + 1"
proof -
  have reads: "\<exists>y. readLogicalLineSnapshotAt b y = Some (sns ! i)" if "i < length sns" for i
  proof (cases "i \<le> k")
    case True
    then consider "i = k" | "i < k" by linarith
    then show ?thesis using assms(2) by cases (auto simp: line_chain_def)
  next
    case False
    then obtain j where "i = Suc j" "k \<le> j" by (cases i) auto
    with that assms(2) show ?thesis by (auto simp: line_chain_def)
  qed
  then show "i < length sns \<Longrightarrow> \<exists>y. readLogicalLineSnapshotAt b y = Some (sns ! i)" .
  assume i: "Suc i < length sns"
  then obtain y y' where y: "readLogicalLineSnapshotAt b y = Some (sns ! i)" and y': "readLogicalLineSnapshotAt b y' = Some (sns ! Suc i)"
    using reads [of i] reads [of "Suc i"] by auto
  show "sn_startY (sns ! Suc i) = sn_endY (sns ! i) + 1"
  proof (cases "i < k")
    case True
    then show ?thesis using line_before [OF assms(1) y'] assms(2) by (auto simp: line_chain_def)
  next
    case False
    then show ?thesis using line_after [OF assms(1) y] assms(2) i by (auto simp: line_chain_def)
  qed
qed

lemma segmentCells_exact:
  assumes "length (sn_offsets sn) = Suc (length (sn_text sn))"
  shows "segmentCells (bf_cols b) (w, sn) = Some cells \<longleftrightarrow>
    (\<exists>m. cells = partCells b (w, sn, m) \<and> stands_last (w, sn, m))"
proof (cases "findSegmentStartIndex (sn_text sn) w")
  case None
  then have "\<nexists>m. stands_last (w, sn, m)" by (simp add: stands_last_def flip: findSegmentStartIndex_exact)
  with None show ?thesis by (auto simp: segmentCells_def)
next
  case (Some m)
  note m = findSegmentStartIndex_exact [THEN iffD1, OF Some]
  then have len: "m + length w \<le> length (sn_text sn)" by (simp add: occurs_def)
  have "segmentCells (bf_cols b) (w, sn) = Some (partCells b (w, sn, m))"
    unfolding segmentCells_def prod.case Some option.case Let_def offsets_part [OF assms len]
    by (auto simp: partCells_def inputCell_def toGlobalCellOffset_def simp del: upt_Suc)
  moreover have "m' = m" if "stands_last (w, sn, m')" for m' using m that by (simp add: stands_last_def le_antisym)
  moreover have "stands_last (w, sn, m)" using m by (simp add: stands_last_def)
  ultimately show ?thesis by (metis option.inject)
qed

lemma collectCells_exact:
  assumes "length ws = length sns" "\<forall>sn \<in> set sns. length (sn_offsets sn) = Suc (length (sn_text sn))"
  shows "collectCells (bf_cols b) (zip ws sns) = Some cells \<longleftrightarrow>
    (\<exists>parts. map fst parts = ws \<and> map (\<lambda>p. fst (snd p)) parts = sns \<and> cells = concat (map (partCells b) parts)
       \<and> (\<forall>part \<in> set parts. stands_last part))"
  using assms
proof (induction ws sns arbitrary: cells rule: list_induct2)
  case (Cons w ws sn sns)
  have "collectCells (bf_cols b) (zip (w # ws) (sn # sns)) = Some cells \<longleftrightarrow>
      (\<exists>cs ds. segmentCells (bf_cols b) (w, sn) = Some cs \<and> collectCells (bf_cols b) (zip ws sns) = Some ds \<and> cells = cs @ ds)"
    by (auto split: option.split)
  also have "\<dots> \<longleftrightarrow> (\<exists>m parts. map fst parts = ws \<and> map (\<lambda>p. fst (snd p)) parts = sns
      \<and> cells = partCells b (w, sn, m) @ concat (map (partCells b) parts) \<and> stands_last (w, sn, m) \<and> (\<forall>p \<in> set parts. stands_last p))"
  proof -
    have "length (sn_offsets sn) = Suc (length (sn_text sn))" "\<forall>sn \<in> set sns. length (sn_offsets sn) = Suc (length (sn_text sn))"
      using Cons.prems by simp_all
    then show ?thesis unfolding segmentCells_exact [OF \<open>length (sn_offsets sn) = _\<close>] Cons.IH [OF \<open>\<forall>sn \<in> set sns. _\<close>] 
      by blast
  qed
  also have "\<dots> \<longleftrightarrow> (\<exists>parts. map fst parts = w # ws \<and> map (\<lambda>p. fst (snd p)) parts = sn # sns
      \<and> cells = concat (map (partCells b) parts) \<and> (\<forall>p \<in> set parts. stands_last p))" (is "?l \<longleftrightarrow> ?r")
  proof
    assume ?l
    then obtain m parts where "map fst parts = ws" "map (\<lambda>p. fst (snd p)) parts = sns"
      "cells = partCells b (w, sn, m) @ concat (map (partCells b) parts)" "stands_last (w, sn, m)" "\<forall>p \<in> set parts. stands_last p" by blast
    then show ?r by (intro exI [of _ "(w, sn, m) # parts"]) simp
  next
    assume ?r
    then obtain ps where ps: "map fst ps = w # ws" "map (\<lambda>p. fst (snd p)) ps = sn # sns" "cells = concat (map (partCells b) ps)"
      "\<forall>p \<in> set ps. stands_last p" by (elim exE conjE) (rule that)
    then obtain v sn' m parts where e: "ps = (v, sn', m) # parts" by (cases ps) auto
    show ?l by (rule exI [of _ m], rule exI [of _ parts]) (use ps e in simp)
  qed
  finally show ?case .
qed auto

lemma cells_length: "length (concat (map (partCells b) parts)) = (\<Sum>part\<leftarrow>parts. length (fst part) + 1)"
  by (simp add: length_concat o_def partCells_def split_def del: upt_Suc)

definition partsSpan :: "buffer_view \<Rightarrow> input_part list \<Rightarrow> input_span" where
  "partsSpan b parts = (let cells = concat (map (partCells b) parts) in
     \<lparr>is_startCellOffset = cells ! 0, is_endCellOffset = last cells, is_startY = sn_startY (fst (snd (hd parts))),
      is_endY = sn_endY (fst (snd (last parts))), is_indexToCellOffset = cells\<rparr>)"

lemma several_cells:
  assumes "map fst parts = splitOn (\<lambda>c. c = 10) v"
  shows "length (concat (map (partCells b) parts)) = length v + 1"
proof -
  have "(\<Sum>part\<leftarrow>parts. length (fst part) + 1) = (\<Sum>w\<leftarrow>map fst parts. length w + 1)" by (simp add: o_def)
  then show ?thesis unfolding cells_length assms lines_total by simp
qed

lemma several_reads:
  assumes "translates_cells b" "several_lines b st parts"
  shows "\<forall>part \<in> set parts. \<exists>y. readLogicalLineSnapshotAt b y = Some (fst (snd part))"
    and "successively (\<lambda>p q. sn_startY (fst (snd q)) = sn_endY (fst (snd p)) + 1) parts"
proof -
  let ?k = "length (filter (\<lambda>c. c = 10) (take (ti_cursor st) (ti_value st)))"
  have "?k \<le> length (filter (\<lambda>c. c = 10) (take (ti_cursor st) (ti_value st) @ drop (ti_cursor st) (ti_value st)))"
    unfolding filter_append length_append by (rule le_add1)
  also have "\<dots> < length (map fst parts)"
    using assms(2) lines_count [of "\<lambda>c. c = 10" "ti_value st"] unfolding several_lines_def append_take_drop_id by (metis lessI)
  finally have k: "?k < length (map (\<lambda>part. fst (snd part)) parts)" by simp
  have chain: "line_chain b ?k (map (\<lambda>part. fst (snd part)) parts)" using assms(2) by (simp add: several_lines_def)
  show "\<forall>part \<in> set parts. \<exists>y. readLogicalLineSnapshotAt b y = Some (fst (snd part))"
    using chain_reads(1) [OF assms(1) chain k] unfolding all_set_conv_all_nth length_map by (metis nth_map)
  show "successively (\<lambda>p q. sn_startY (fst (snd q)) = sn_endY (fst (snd p)) + 1) parts"
    using chain_reads(2) [OF assms(1) chain k] by (auto simp: successively_conv_nth)
qed

lemma buildMultilineInputSpan_exact:
  assumes "translates_cells b"
  shows "buildMultilineInputSpan b st = Some sp \<longleftrightarrow> (\<exists>parts. several_lines b st parts \<and> sp = partsSpan b parts)"
proof -
  let ?v = "ti_value st"
  let ?ws = "splitOn (\<lambda>c. c = 10) ?v" and ?k = "length (filter (\<lambda>c. c = 10) (take (ti_cursor st) (ti_value st)))"
  let ?L = "length ?ws"
  let ?sp = "\<lambda>sns cells. \<lparr>is_startCellOffset = cells ! 0, is_endCellOffset = cells ! length ?v,
      is_startY = sn_startY (hd sns), is_endY = sn_endY (last sns), is_indexToCellOffset = cells\<rparr>"
  have "?k \<le> length (filter (\<lambda>c. c = 10) (take (ti_cursor st) ?v @ drop (ti_cursor st) ?v))"
    unfolding filter_append length_append by simp
  then have k: "?k < ?L" by (simp add: lines_count)
  have "buildMultilineInputSpan b st = Some sp \<longleftrightarrow> 2 \<le> ?L \<and> (\<exists>c bef aft sns cells. readLogicalLineSnapshot b = Some c
      \<and> snapshotsBack b ?k c = Some bef \<and> snapshotsOn b (?L - 1 - ?k) c = Some aft \<and> sns = rev bef @ [c] @ aft
      \<and> collectCells (bf_cols b) (zip ?ws sns) = Some cells \<and> length cells = length ?v + 1 \<and> sp = ?sp sns cells)"
    by (auto simp: buildMultilineInputSpan_def lines_of_def cursor_line Let_def split: option.split)
  also have "\<dots> \<longleftrightarrow> 2 \<le> ?L \<and> (\<exists>sns cells. (length sns = ?L \<and> line_chain b ?k sns)
      \<and> collectCells (bf_cols b) (zip ?ws sns) = Some cells \<and> length cells = length ?v + 1 \<and> sp = ?sp sns cells)"
    unfolding chain_exact [OF k, symmetric] by metis
  also have "\<dots> \<longleftrightarrow> (\<exists>parts. several_lines b st parts \<and> sp = partsSpan b parts)" (is "?l \<longleftrightarrow> ?r")
  proof
    assume ?l
    then obtain sns cells where L: "2 \<le> ?L" "length sns = ?L" "line_chain b ?k sns" and c: "collectCells (bf_cols b) (zip ?ws sns) = Some cells"
      and sp: "sp = ?sp sns cells" by blast
    have "k < length sns" if "k = ?k" for k using that k L by simp
    then have len: "\<forall>sn \<in> set sns. length (sn_offsets sn) = Suc (length (sn_text sn))"
      using chain_reads(1) [OF assms L(3)] snapshot_facts(1) [OF assms] by (metis in_set_conv_nth)
    from c obtain parts where p: "map fst parts = ?ws" "map (\<lambda>p. fst (snd p)) parts = sns" "cells = concat (map (partCells b) parts)"
      "\<forall>part \<in> set parts. stands_last part"
      unfolding collectCells_exact [OF L(2) [symmetric] len] by (elim exE conjE) (rule that)
    have ne: "parts \<noteq> []" using L(1) p(1) by auto
    have "length parts = ?L" using p(1) by (metis length_map)
    moreover have "cells ! length ?v = last cells" using several_cells [OF p(1), of b] p(3) by (metis diff_add_inverse2 last_conv_nth list.size(3) add_is_0 zero_neq_one)
    ultimately have "several_lines b st parts" "sp = partsSpan b parts"
      using L p sp ne by (auto simp: several_lines_def partsSpan_def Let_def hd_map last_map)
    then show ?r by blast
  next
    assume ?r
    then obtain parts where p: "several_lines b st parts" and sp: "sp = partsSpan b parts" by blast
    let ?sns = "map (\<lambda>p. fst (snd p)) parts" and ?cells = "concat (map (partCells b) parts)"
    have f: "map fst parts = ?ws" "2 \<le> length parts" "line_chain b ?k ?sns" "\<forall>part \<in> set parts. stands_last part"
      using p by (simp_all add: several_lines_def)
    have len: "\<forall>sn \<in> set ?sns. length (sn_offsets sn) = Suc (length (sn_text sn))"
      using several_reads(1) [OF assms p] snapshot_facts(1) [OF assms] by auto
    have L: "?L = length parts" using f(1) by (metis length_map)
    have "collectCells (bf_cols b) (zip ?ws ?sns) = Some ?cells"
      using f(1,4) L by (subst collectCells_exact [OF _ len]) auto
    moreover have n: "length ?cells = length ?v + 1" by (rule several_cells [OF f(1)])
    moreover have "?cells ! length ?v = last ?cells" using n by (metis diff_add_inverse2 last_conv_nth list.size(3) add_is_0 zero_neq_one)
    moreover have "parts \<noteq> []" using f(2) by auto
    then have "hd ?sns = fst (snd (hd parts))" "last ?sns = fst (snd (last parts))" by (simp_all add: hd_map last_map)
    ultimately have "sp = ?sp ?sns ?cells" using sp by (simp add: partsSpan_def Let_def)
    with f L n \<open>collectCells _ _ = _\<close> show ?l by (intro conjI exI [of _ ?sns] exI [of _ ?cells]) simp_all
  qed
  finally show ?thesis .
qed

subsection \<open>The input on the screen\<close>

lemma resolve_exact:
  assumes "translates_cells b"
  shows "resolveTrackedInputSpan b st = Some sp \<longleftrightarrow>
    (\<exists>cells y0 y1. input_on_screen b st cells y0 y1
       \<and> sp = \<lparr>is_startCellOffset = cells ! 0, is_endCellOffset = last cells, is_startY = y0, is_endY = y1, is_indexToCellOffset = cells\<rparr>)"
proof -
  let ?v = "ti_value st"
  have can: "canResolveEnhancedGeometry st \<longleftrightarrow> ?v \<noteq> [] \<and> length ?v \<le> 65536
      \<and> (ti_multiline st \<longrightarrow> length (filter (\<lambda>c. c = 10) ?v) < 512)"
    by (auto simp: canResolveEnhancedGeometry_def MAX_GEOMETRY_INPUT_CHARS_def MAX_GEOMETRY_INPUT_LINES_def lines_of_def lines_count)
  have on: "(\<exists>cells y0 y1. input_on_screen b st cells y0 y1 \<and> sp = \<lparr>is_startCellOffset = cells ! 0, is_endCellOffset = last cells,
         is_startY = y0, is_endY = y1, is_indexToCellOffset = cells\<rparr>)
      \<longleftrightarrow> canResolveEnhancedGeometry st \<and> (\<exists>parts. (if ti_multiline st then several_lines b st parts else one_line b st parts)
         \<and> sp = partsSpan b parts \<and> offsetAt (is_indexToCellOffset sp) (ti_cursor st) = Some (cursorCell b))"
    unfolding input_on_screen_def can partsSpan_def Let_def offsetAt_Some by auto
  show ?thesis
  proof (cases "canResolveEnhancedGeometry st")
    case c: True
    show ?thesis
    proof (cases "ti_multiline st")
      case True
      with c have "resolveTrackedInputSpan b st = Some sp \<longleftrightarrow>
          buildMultilineInputSpan b st = Some sp \<and> offsetAt (is_indexToCellOffset sp) (ti_cursor st) = Some (cursorCell b)"
        by (auto simp: resolveTrackedInputSpan_def Let_def cursorCell_def split: option.split)
      then show ?thesis unfolding on buildMultilineInputSpan_exact [OF assms] using True c by auto
    next
      case False
      have one: "partSpan b (?v, sn, m) = partsSpan b [(?v, sn, m)]" for sn m
        by (simp add: partSpan_def partsSpan_def partCells_def Let_def nth_append)
      have at: "offsetAt (is_indexToCellOffset (partsSpan b [(?v, sn, m)])) (ti_cursor st) = Some (cursorCell b)
          \<longleftrightarrow> ti_cursor st \<le> length ?v \<and> inputCell b sn m (ti_cursor st) = cursorCell b" for sn m
        by (auto simp: offsetAt_Some partsSpan_def partCells_def Let_def simp del: upt_Suc)
      have parts: "one_line b st parts \<Longrightarrow> \<exists>sn m. parts = [(?v, sn, m)]" for parts by (auto simp: one_line_def)
      show ?thesis unfolding on resolve_one [OF assms c False] one using False c parts at by (metis (no_types, lifting))
    qed
  next
    case False
    then show ?thesis unfolding on by (simp add: resolveTrackedInputSpan_def)
  qed
qed

lemma parts_facts:
  assumes "translates_cells b" "cells_fit b"
    and "\<forall>part \<in> set parts. \<exists>y. readLogicalLineSnapshotAt b y = Some (fst (snd part))"
    and "successively (\<lambda>p q. sn_startY (fst (snd q)) = sn_endY (fst (snd p)) + 1) parts"
    and "\<forall>(w, sn, m) \<in> set parts. occurs (sn_text sn) w m"
  shows "list_all2 (\<lambda>u c. u = 10 \<or> unit_in_cell b c u) (concat (map (\<lambda>w. w @ [10]) (map fst parts))) (concat (map (partCells b) parts))
    \<and> sorted (concat (map (partCells b) parts))
    \<and> (parts \<noteq> [] \<longrightarrow> (\<forall>c \<in> set (concat (map (partCells b) parts)). sn_startY (fst (snd (hd parts))) * bf_cols b \<le> c))"
  using assms(3-5)
proof (induction parts)
  case (Cons part parts)
  obtain w sn m where part: "part = (w, sn, m)" by (cases part)
  from Cons.prems(1) obtain y where y: "readLogicalLineSnapshotAt b y = Some sn" by (auto simp: part)
  note len = snapshot_facts(1) [OF assms(1) y] and srt = snapshot_facts(2) [OF assms(1) y]
  have at: "m + length w \<le> length (sn_text sn)" "take (length w) (drop m (sn_text sn)) = w"
    using Cons.prems(3) by (auto simp: part occurs_def)
  have unit: "unit_in_cell b (inputCell b sn m k) (w ! k)" if "k < length w" for k
  proof -
    have "w ! k = sn_text sn ! (m + k)" using at that nth_take [of k "length w" "drop m (sn_text sn)"] by simp
    with snapshot_facts(6) [OF assms(1) y assms(2), of "m + k"] at(1) that show ?thesis by (simp add: inputCell_def)
  qed
  have below: "inputCell b sn m k \<le> (sn_endY sn + 1) * bf_cols b" if "k \<le> length w" for k
    using snapshot_facts(7) [OF assms(1) y assms(2), of "m + k"] at(1) that by (simp add: inputCell_def)
  have mono: "inputCell b sn m i \<le> inputCell b sn m j" if "i \<le> j" "j \<le> length w" for i j
    using that at(1) len srt by (simp add: inputCell_def sorted_nth_mono)
  have cell: "length (partCells b part) = length w + 1" "\<And>k. k \<le> length w \<Longrightarrow> partCells b part ! k = inputCell b sn m k"
    by (simp_all add: part partCells_def del: upt_Suc)
  have head: "list_all2 (\<lambda>u c. u = 10 \<or> unit_in_cell b c u) (w @ [10]) (partCells b part)"
    using unit cell by (auto simp: list_all2_conv_all_nth nth_append)
  moreover have "sorted (partCells b part)"
    using mono cell by (auto simp: sorted_iff_nth_mono)
  moreover have "\<forall>c \<in> set (partCells b part). sn_startY sn * bf_cols b \<le> c \<and> c \<le> (sn_endY sn + 1) * bf_cols b"
    using below by (auto simp: part partCells_def inputCell_def simp del: upt_Suc)
  ultimately have head: "list_all2 (\<lambda>u c. u = 10 \<or> unit_in_cell b c u) (w @ [10]) (partCells b part)" "sorted (partCells b part)"
    "\<forall>c \<in> set (partCells b part). sn_startY sn * bf_cols b \<le> c \<and> c \<le> (sn_endY sn + 1) * bf_cols b"
    by blast+
  have tail: "list_all2 (\<lambda>u c. u = 10 \<or> unit_in_cell b c u) (concat (map (\<lambda>w. w @ [10]) (map fst parts))) (concat (map (partCells b) parts))"
    "sorted (concat (map (partCells b) parts))"
    "parts \<noteq> [] \<Longrightarrow> \<forall>c \<in> set (concat (map (partCells b) parts)). sn_startY (fst (snd (hd parts))) * bf_cols b \<le> c"
    using Cons.IH Cons.prems by (auto simp: successively_Cons)
  have next_row: "parts \<noteq> [] \<Longrightarrow> sn_startY (fst (snd (hd parts))) = sn_endY sn + 1"
    using Cons.prems(2) by (auto simp: successively_Cons part)
  have later: "(sn_endY sn + 1) * bf_cols b \<le> c" if "c \<in> set (concat (map (partCells b) parts))" for c
  proof -
    have "parts \<noteq> []" using that by auto
    with tail(3) next_row that show ?thesis by metis
  qed
  have all: "concat (map (partCells b) (part # parts)) = partCells b part @ concat (map (partCells b) parts)" by simp
  have "sn_startY sn * bf_cols b \<le> (sn_endY sn + 1) * bf_cols b"
    using snapshot_facts(5) [OF assms(1) y] by (intro mult_le_mono1) simp
  then have "\<forall>c \<in> set (concat (map (partCells b) (part # parts))). sn_startY sn * bf_cols b \<le> c"
    using head(3) later unfolding all set_append by (metis Un_iff order_trans)
  moreover have "sorted (concat (map (partCells b) (part # parts)))"
    unfolding all sorted_append using head(2,3) tail(2) later by (meson order_trans)
  moreover have "list_all2 (\<lambda>u c. u = 10 \<or> unit_in_cell b c u) (concat (map (\<lambda>w. w @ [10]) (map fst (part # parts)))) (concat (map (partCells b) (part # parts)))"
    unfolding all using list_all2_appendI [OF head(1) tail(1)] by (simp add: part)
  ultimately show ?case by (simp add: part)
qed simp

lemma on_screen_facts:
  assumes "translates_cells b" "cells_fit b" "input_on_screen b st cells y0 y1"
  shows "length cells = length (ti_value st) + 1" "sorted cells"
    and "k < length (ti_value st) \<Longrightarrow> ti_value st ! k = 10 \<or> unit_in_cell b (cells ! k) (ti_value st ! k)"
proof -
  from assms(3) obtain parts where p: "if ti_multiline st then several_lines b st parts else one_line b st parts"
    and c: "cells = concat (map (partCells b) parts)" unfolding input_on_screen_def by metis
  have "(\<forall>part \<in> set parts. \<exists>y. readLogicalLineSnapshotAt b y = Some (fst (snd part)))
      \<and> successively (\<lambda>p q. sn_startY (fst (snd q)) = sn_endY (fst (snd p)) + 1) parts
      \<and> (\<forall>(w, sn, m) \<in> set parts. occurs (sn_text sn) w m) \<and> concat (map (\<lambda>w. w @ [10]) (map fst parts)) = ti_value st @ [10]"
  proof (cases "ti_multiline st")
    case True
    with p have s: "several_lines b st parts" by simp
    then have "map fst parts = splitOn (\<lambda>c. c = 10) (ti_value st)" "\<forall>part \<in> set parts. stands_last part"
      by (simp_all add: several_lines_def)
    with several_reads [OF assms(1) s] show ?thesis by (auto simp: lines_joined stands_last_def)
  qed (use p in \<open>auto simp: one_line_def\<close>)
  with parts_facts [OF assms(1,2), of parts]
  have l: "list_all2 (\<lambda>u c. u = 10 \<or> unit_in_cell b c u) (ti_value st @ [10]) cells" and "sorted cells" by (simp_all add: c)
  then show "sorted cells" by simp
  from list_all2_lengthD [OF l] show len: "length cells = length (ti_value st) + 1" by simp
  show "ti_value st ! k = 10 \<or> unit_in_cell b (cells ! k) (ti_value st ! k)" if "k < length (ti_value st)"
    using list_all2_nthD [OF l, of k] that by (simp add: nth_append)
qed

text \<open>The least index at or after an offset splits growing cells into those before it and the rest.\<close>

lemma inputIndexOf_splits:
  assumes "\<And>i j. i \<le> j \<Longrightarrow> j \<le> n \<Longrightarrow> f i \<le> f j" "c \<le> f n"
  obtains i where "inputIndexOf (map f [0..<n + 1]) c = int i" "i \<le> n" "\<And>k. k \<le> n \<Longrightarrow> c \<le> f k \<longleftrightarrow> i \<le> k"
proof -
  have nth: "k \<le> n \<Longrightarrow> map f [0..<n + 1] ! k = f k" for k by (simp del: upt_Suc)
  obtain i where i: "inputIndexOf (map f [0..<n + 1]) c = int i" "i \<le> n" "c \<le> map f [0..<n + 1] ! i" "\<forall>l < i. map f [0..<n + 1] ! l < c"
    using inputIndexOf_least [of n "map f [0..<n + 1]" c] assms(2) nth [of n] by (auto simp del: upt_Suc)
  have "c \<le> f k \<longleftrightarrow> i \<le> k" if "k \<le> n" for k
    using i nth that assms(1) [of i k] by (metis le_trans linorder_not_less order_less_imp_le)
  with i that show thesis by blast
qed

subsection \<open>The remembered span\<close>

text \<open>
  The key of the remembered span does not have the text of the screen. So the answer is about the screen
  \<open>b0\<close> and the input \<open>st0\<close> the span was computed for: those of the call, unless the cache has an entry
  for the same key.
\<close>

definition remembered :: "buffer_view \<Rightarrow> input_state \<Rightarrow> span_cache \<Rightarrow> buffer_view \<Rightarrow> input_state \<Rightarrow> bool" where
  "remembered b st cache b0 st0 \<longleftrightarrow>
     buildInputSpanCacheKey b0 st0 = buildInputSpanCacheKey b st
   \<and> (if \<exists>sp. cache = Some (buildInputSpanCacheKey b st, sp)
      then cache = Some (buildInputSpanCacheKey b st, resolveTrackedInputSpan b0 st0) else b0 = b \<and> st0 = st)"

lemma remembered_span:
  assumes "remembered b st cache b0 st0"
  shows "fst (getCachedInputSpan b st cache) = resolveTrackedInputSpan b0 st0"
    and "remembered b st (snd (getCachedInputSpan b st cache)) b0 st0"
    and "bf_cols b0 = bf_cols b" "ti_value st0 = ti_value st"
  using assms
  by (auto simp: remembered_def getCachedInputSpan_def buildInputSpanCacheKey_def Let_def split: if_splits option.splits)


subsection \<open>Selections\<close>











definition demo_rows :: buffer_view where
  "demo_rows = \<lparr>bf_alternate = False, bf_cols = 4, bf_rows = 2, bf_length = 2, bf_baseY = 0, bf_cursorX = 3, bf_cursorY = 1,
     bf_viewportY = 0,
     bf_getLine = (\<lambda>y. if y = 0 then Some (map (\<lambda>u. \<lparr>bc_chars = [u], bc_width = 1, bc_fgDefault = True\<rparr>) (js ''$ a ''))
       else if y = 1 then Some (map (\<lambda>u. \<lparr>bc_chars = [u], bc_width = 1, bc_fgDefault = True\<rparr>) (js ''> b '')) else None),
     bf_isWrapped = (\<lambda>y. False), bf_translate = (\<lambda>line n. concat (map cell_text (take n line)))\<rparr>"

definition demo_lines :: input_state where
  "demo_lines = createTerminalInputState\<lparr>ti_value := js ''a'' @ [10] @ js ''b'', ti_cursor := 3, ti_multiline := True\<rparr>"

definition demo_lines_span :: input_span where
  "demo_lines_span = \<lparr>is_startCellOffset = 2, is_endCellOffset = 7, is_startY = 0, is_endY = 1, is_indexToCellOffset = [2, 3, 6, 7]\<rparr>"

lemma demo_lines_found: "buildMultilineInputSpan demo_rows demo_lines = Some demo_lines_span"
  by code_simp

lemma demo_lines_resolved: "resolveTrackedInputSpan demo_rows demo_lines = Some demo_lines_span"
proof -
  have "canResolveEnhancedGeometry demo_lines" "ti_multiline demo_lines" "ti_cursor demo_lines = 3"
    by (simp_all add: canResolveEnhancedGeometry_def demo_lines_def createTerminalInputState_def js_def lines_of_def
        MAX_GEOMETRY_INPUT_CHARS_def MAX_GEOMETRY_INPUT_LINES_def)
  moreover have "bf_cols demo_rows = 4" "(bf_baseY demo_rows + bf_cursorY demo_rows) * 4 + bf_cursorX demo_rows = 7"
    by (simp_all add: demo_rows_def)
  ultimately show ?thesis
    by (simp add: resolveTrackedInputSpan_def Let_def demo_lines_found, simp add: demo_lines_span_def offsetAt_def)
qed

text \<open>A selection over both rows of an input of two lines, and one of a single character.\<close>

lemma demo_rows_selected:
  "fst (getSelectedInputRange demo_rows demo_lines (Some \<lparr>sp_startX = 2, sp_startY = 0, sp_endX = 3, sp_endY = 1\<rparr>) None) = Some (0, 3)"
  "fst (getSelectedInputRange demo_rows demo_lines (Some \<lparr>sp_startX = 2, sp_startY = 0, sp_endX = 3, sp_endY = 0\<rparr>) None) = Some (0, 1)"
proof -
  have d: "\<not> bf_alternate demo_rows" "\<not> ti_desynced demo_lines" "\<not> ti_lineRewriteRequired demo_lines" "bf_cols demo_rows = 4"
    by (simp_all add: demo_rows_def demo_lines_def createTerminalInputState_def)
  have "selectedRange 4 demo_lines \<lparr>sp_startX = 2, sp_startY = 0, sp_endX = 3, sp_endY = 1\<rparr> demo_lines_span = Some (0, 3)"
    "selectedRange 4 demo_lines \<lparr>sp_startX = 2, sp_startY = 0, sp_endX = 3, sp_endY = 0\<rparr> demo_lines_span = Some (0, 1)"
    by code_simp+
  with d show "fst (getSelectedInputRange demo_rows demo_lines (Some \<lparr>sp_startX = 2, sp_startY = 0, sp_endX = 3, sp_endY = 1\<rparr>) None) = Some (0, 3)"
    "fst (getSelectedInputRange demo_rows demo_lines (Some \<lparr>sp_startX = 2, sp_startY = 0, sp_endX = 3, sp_endY = 0\<rparr>) None) = Some (0, 1)"
    by (simp_all add: getSelectedInputRange_def getCachedInputSpan_def demo_lines_resolved Let_def)
qed


text \<open>A click gives the index of the first character whose cell is not before it, the end of the input after the last.\<close>

lemma click_index_exact:
  assumes "translates_cells b0" "cells_fit b0" "remembered b st cache b0 st0"
    and "fst (getInputIndexAtBufferPosition b st (x, y) cache) = Some i"
  shows "\<exists>cells y0 y1. input_on_screen b0 st0 cells y0 y1 \<and> y0 \<le> y \<and> y \<le> y1 \<and> i \<le> length (ti_value st)
    \<and> (\<forall>k < length (ti_value st). i \<le> k \<longleftrightarrow> y * bf_cols b + x \<le> cells ! k)"
proof -
  let ?n = "length (ti_value st)" and ?c = "y * bf_cols b + x"
  note mem = remembered_span [OF assms(3)]
  from assms(4) obtain sp where sp: "resolveTrackedInputSpan b0 st0 = Some sp" and r: "clickedIndex (bf_cols b) st (x, y) sp = Some i"
    unfolding mem(1) [symmetric]
    by (auto simp: getInputIndexAtBufferPosition_def split: if_splits option.splits prod.splits)
  from sp obtain cells y0 y1 where on: "input_on_screen b0 st0 cells y0 y1"
    and e: "sp = \<lparr>is_startCellOffset = cells ! 0, is_endCellOffset = last cells, is_startY = y0, is_endY = y1, is_indexToCellOffset = cells\<rparr>"
    unfolding resolve_exact [OF assms(1)] by blast
  from on_screen_facts [OF assms(1,2) on] mem(4) have len: "length cells = ?n + 1" and srt: "sorted cells" by simp_all
  have last: "last cells = cells ! ?n" using len by (metis diff_add_inverse2 last_conv_nth list.size(3) add_is_0 zero_neq_one)
  have map: "map ((!) cells) [0..<?n + 1] = cells" using len map_nth [of cells] by simp
  have mono: "i \<le> j \<Longrightarrow> j \<le> ?n \<Longrightarrow> cells ! i \<le> cells ! j" for i j using srt len by (simp add: sorted_nth_mono)
  have y: "y0 \<le> y" "y \<le> y1" using r by (auto simp: e clickedIndex_def Let_def split: if_splits)
  show ?thesis
  proof (cases "?c > last cells")
    case True
    then have "i = ?n" using r by (auto simp: e clickedIndex_def Let_def split: if_splits)
    moreover have "cells ! k < ?c" if "k < ?n" for k using True mono [of k ?n] that by (simp add: last)
    ultimately show ?thesis using on y by (metis leD le_refl)
  next
    case False
    then obtain i' where i': "inputIndexOf cells ?c = int i'" "i' \<le> ?n" "\<And>k. k \<le> ?n \<Longrightarrow> ?c \<le> cells ! k \<longleftrightarrow> i' \<le> k"
      using inputIndexOf_splits [where f = "(!) cells" and n = ?n and c = ?c, OF mono] unfolding map last by auto
    have "i = i'" using r i'(1) False by (auto simp: e clickedIndex_def Let_def split: if_splits)
    with on y i' show ?thesis by (metis less_imp_le_nat)
  qed
qed

end
