(* ===== verification/Spec2Isabelle.thy ===== *)
theory Spec2Isabelle
  imports Output_Controller Tab_Windows Sync_Groups Terminal_Input Remote_Frame Remote_Input File_Tree File_Kinds
    Quick_Commands Asset_Groups Notes_Tree Transfer_Pass Fit_Scheduler Shortcuts Activity_Bar Child_Windows Virtual_List
    Keyword_Refresh Duplicate_Prompt Input_Selection
begin

text \<open>
  \<^bold>\<open>Verification of the NiceTerm front end.\<close>

  NiceTerm is a terminal application: a Rust back end owns the sessions and a TypeScript front
  end shows them. This development models the parts of the front end that carry its own logic,
  each in a theory of its own, and proves what makes them correct. File names below are
  relative to \<open>src/src\<close>.

  \<^bold>\<open>How the parts work together.\<close> The back end sends terminal output in chunks with a byte
  count and stops when too many bytes are unacknowledged. A chunk passes the frame gate, which may
  drop superseded screen updates; it is queued, split and written by the drain; written and
  dropped bytes are acknowledged through the terminal's lease of the coordinator, which batches
  and retries the calls to the back end. Terminals live in panes, panes in the split trees of
  tabs, and tabs in the leaves of the window layout; sessions of different tabs can be grouped
  to receive the same input.

  \<^bold>\<open>Theories.\<close>
  \<^item> \<open>Prelude\<close>: JavaScript strings as lists of UTF-16 code units, the byte length of their UTF-8
    encoding, list and map operations of the JavaScript library, printed counters, and the
    interfaces \<open>invariant_system\<close> and \<open>fresh_ids\<close>.
  \<^item> \<open>Output_Queue\<close> (\<open>components/terminal/xterminalOutputQueue.ts\<close>): the chunk queue with its
    moving head, splitting at a byte budget without cutting a surrogate pair, and the replay
    snapshot. Shown: first in first out, exact splitting, the payload is a prefix, the replay text
    is a bounded suffix; and that the budget is not a hard maximum.
  \<^item> \<open>Output_Drain\<close> (\<open>components/terminal/terminalOutputDrain.ts\<close>): the writer as a state machine
    over its timers, frames, microtasks and promise continuations. Shown: credit conservation,
    exact accounting of text and bytes, no lost wake-up; and that a timed-out \<open>waitForIdle\<close>
    strands output.
  \<^item> \<open>Frame_Gate\<close> (\<open>components/terminal/dec2026FrameGate.ts\<close>): boundaries of synchronized
    updates, the classifier of frames, and the gate in its three modes. Shown: no byte is lost,
    transparency when off or in shadow mode, what a droppable frame can contain; and that a
    flush can reorder output.
  \<^item> \<open>Ack_Coordinator\<close> (\<open>components/terminal/outputAckCoordinator.ts\<close>): leases, batches and
    retries. Shown: acknowledgements are conserved and never stuck, and the back-off of the
    retry delay.
  \<^item> \<open>Alternate_Screen\<close> (\<open>components/terminal/alternateScreenStateTracker.ts\<close>): detection of the
    alternate screen. Shown: independence of how the stream is cut into chunks.
  \<^item> \<open>Output_Controller\<close> (\<open>components/terminal/xterminalOutputController.ts\<close>,
    \<open>terminalOutputScheduling.ts\<close>, the output listener of \<open>xterminalSessionEvents.ts\<close>): the
    wiring of gate, drain and lease, the write throttle and the performance mode. Shown:
    end-to-end conservation of every received byte, bounds of the throttle, hysteresis of the
    mode.
  \<^item> \<open>Workspace_Tabs\<close> (\<open>lib/workspaceTabs.ts\<close>, types of \<open>types/global.d.ts\<close>): tabs and their
    split trees of panes, creation, lookup, split, removal, persistence and restoration. Shown:
    splitting and removing keep the tree well formed and the other panes, restoring what was
    persisted, the released sessions, tab order.
  \<^item> \<open>Tab_Windows\<close> (\<open>lib/tabWindows.ts\<close>, \<open>lib/smartSplit.ts\<close>): the window layout over the
    tabs, moving, splitting, reconciling, balanced layouts, persistence. Shown: reconciliation
    gives every tab exactly one place, dragging to an edge, balanced layouts, restoring by
    position; and that a restart can mix up windows.
  \<^item> \<open>Sync_Groups\<close> (\<open>lib/syncInputGroups.ts\<close>, \<open>lib/hostTabGroups.ts\<close>): synchronized input and
    the host grouping of the tab strip. Shown: peers are exact and mutual, groups stay well
    formed, purging, the strip is a partition.
  \<^item> \<open>Remote_Frame\<close>, \<open>Remote_Input\<close> (\<open>lib/remoteDesktopFrame.ts\<close>, \<open>components/remote-desktop/renderer.ts\<close>,
    \<open>lib/rdpInput.ts\<close>, \<open>lib/vncInput.ts\<close>, \<open>lib/rdpResize.ts\<close> and others): frames of remote desktops and
    the input sent back. Shown: decoding inverts encoding, damaged frames are rejected with the
    right error, both ways of uploading a patch agree, keys are unambiguous, clicks hit the pixel.
  \<^item> \<open>Terminal_Command\<close>, \<open>Terminal_Input\<close> (\<open>lib/terminalCommand.ts\<close>, \<open>lib/commandSuggestionSuppression.ts\<close>,
    \<open>lib/terminalInputTracker.ts\<close>, \<open>lib/sessionInput.ts\<close>): prompts and words of a command line, the
    tracker of the line being typed, the dispatch of input to a session and its peers. Shown: the
    tracker implements an abstract line editor, input is written once to everyone.
  \<^item> \<open>Input_Selection\<close> (\<open>components/terminal/terminalInputSelection.ts\<close>): where the tracked line stands
    on the screen, in one or several lines. Shown: the input is found exactly when it is there, and a
    selection or a click means exactly the characters whose cells it names.
  \<^item> \<open>File_Paths\<close>, \<open>File_Kinds\<close>, \<open>File_Tree\<close> (\<open>components/panel/file-explorer/model.ts\<close>,
    \<open>treeModel.ts\<close>): paths as lists of names, kinds of files, the tree of listings. Shown: the path
    operations agree with lists of names, flattening returns exactly the visible rows, revealing a
    directory shows it, listings of sessions are kept apart.
  \<^item> \<open>Forest\<close>: walks over parent pointers and child lists that may be cyclic, with the interfaces
    that \<open>Quick_Commands\<close> (\<open>lib/quickCommandCategories.ts\<close>), \<open>Asset_Groups\<close> (\<open>lib/assetGroups.ts\<close>,
    \<open>components/network/shared.tsx\<close>, \<open>components/panel/NetworkPanel.tsx\<close>) and \<open>Notes_Tree\<close> (\<open>components/panel/notes/noteTreeUtils.ts\<close>,
    \<open>hooks/useNotesTree.ts\<close>) interpret. Shown: trees hold every item once, removal of subtrees,
    listings against paths, moves that keep everything; and which loop does not return on a cycle.
  \<^item> \<open>Transfer_Retention\<close>, \<open>Transfer_Queue\<close>, \<open>Transfer_Pass\<close> (\<open>lib/transferRetention.ts\<close>,
    \<open>context/TransferContext.tsx\<close>): the list of file transfers, its events and the queue. Shown: the
    list stays consistent, a pass starts exactly what the free slots allow, no slot stays idle.
  \<^item> \<open>Duplicate_Prompt\<close> (\<open>lib/transferDuplicatePrompt.ts\<close>, \<open>lib/transferDuplicateResolution.ts\<close>,
    \<open>TransferDuplicateDialog.tsx\<close>): uploads onto existing files. Shown: every question is answered at
    most once and in order, a call to the back end is repeated only after it failed, which uploads
    are kept; and that a question can be hidden or replaced without an answer.
  \<^item> \<open>Fit_Scheduler\<close> (\<open>components/terminal/terminalFitScheduler.ts\<close>): when terminals are fitted to
    their container. Shown: every request is answered, resizes are sent without repetition.
  \<^item> \<open>Shortcuts\<close> (\<open>lib/shortcutRegistry.ts\<close>, conflicts in \<open>KeyboardShortcutsTab.tsx\<close>): recording and
    matching of key combinations. Shown: a recorded shortcut matches exactly its event, defaults do
    not clash.
  \<^item> \<open>Activity_Bar\<close> (\<open>lib/appWorkspace.ts\<close>, \<open>hooks/useActivityBarController.tsx\<close>, panel actions of
    \<open>App.tsx\<close>): the layout of the bar and the open panels. Shown: repaired settings stay well formed
    under all actions of the user, what opening a panel by its id and changes of the settings need of
    the repair, the repair settles and only closes panels, reordering keeps what it does not name in
    place; and that a panel whose item is not in the bar cannot be opened.
  \<^item> \<open>Child_Windows\<close> (\<open>lib/childWindowCommandQueue.ts\<close>, \<open>lib/childWindowProtocol.ts\<close>, the handshake of
    \<open>lib/windowManager.ts\<close>): commands for windows that are still loading. Shown: commands are
    delivered once and in order, every open is answered, generations of a window do not interfere.
  \<^item> \<open>Virtual_List\<close> (\<open>hooks/useVirtualList.ts\<close>): the rendered rows of a long list. Shown: every row in
    view is rendered at its place, and exactly those within the overscan besides.
  \<^item> \<open>Keyword_Scan\<close>, \<open>Keyword_Wrapped\<close>, \<open>Keyword_Refresh\<close> (\<open>lib/keywordHighlighter.ts\<close>): columns of
    characters, the scan of physical and of wrapped lines under a time budget, the cache, the
    decorations and the timers. Shown: which matches the scan chooses, as disjoint spans, work
    that is due is always scheduled, decorations and cache are bounded.
  \<^item> This theory: closing the sessions released by a change of the tabs
    (\<open>App.tsx\<close>, \<open>closePaneBackendSession\<close> and \<open>closeReleasedSessions\<close>), which spans tabs
    and synchronization groups.

  \<^bold>\<open>Conventions.\<close> Object fields are records, operations are functions that return the
  updated record, asynchronous code is a step relation whose pending callbacks are part of the
  state. Calls on injected callbacks are logged in the state (acknowledgements, forwarded
  chunks, written payloads). Values read from outside (clock, random identifiers, terminal
  emulator, options) are arguments; the theorems hold for all of them. Byte counts and times are
  natural numbers: the code works on integers far below the limit of exact doubles, and where the
  code tests that limit (\<open>Number.isSafeInteger\<close>) so does the model. Split ratios, pixel offsets and
  clock readings that are compared with deadlines are rationals. Regular expressions given by users
  are functions from a text and a start to a match; the fixed ones of the code are written out.

  \<^bold>\<open>Loops, bounds and fuel.\<close> A loop is a total function with a termination proof wherever the code's
  loop ends on every input. The walks of the file tree (\<open>appendLoop\<close>, \<open>searchLoop\<close>) and the path loop
  of the network panel (\<open>networkPathLoop\<close>) may not end; they are \<open>partial_function (option)\<close>, and the
  theorems state that they return, or exactly when. Trees built from parent pointers are read down
  to a depth of the number of items, which is enough because a chain of items without repetition is
  no longer. The loop over the matches of one highlighting rule has the length of the text plus two
  as fuel: each round moves the start of the search on by at least one and a round after the end
  of the text finds nothing; \<open>scan_line_exact\<close> and \<open>wrapped_lines_disjoint\<close> state that the scan
  returns.

  \<^bold>\<open>Not modelled.\<close> The Rust back end and the documentation site are not part of the front end.
  React components, hooks and contexts are modelled only where the list above names them: the rest
  is rendering, effects and calls of the desktop shell. Styling, translations, the terminal emulator
  and other packages are not in the repository's own code. Left out among the libraries: logging,
  statistics, themes, AI settings, updates, the hibernation of terminal renderers, which interleaves
  with effects of the terminal component, links to external programs and temporary links, which
  rest on the platform's URL parser, action links in terminals and the preset rules of the
  highlighter, which are regular expressions, and the focus, geometry and modal state of windows.
\<close>

section \<open>Closing released sessions\<close>

text \<open>
  Whether the back end closes a session without an error is the parameter \<open>closes\<close>. A pane
  that is connecting or failed to connect needs no back-end session closed (the cancellation
  of its creation is best effort); remote desktop sessions have no synchronization group.
  The updates of the groups are functional state updates, applied here in the order of the
  released sessions.
\<close>

definition closePaneBackendSession ::
    "(string \<Rightarrow> bool) \<Rightarrow> session_pane \<Rightarrow> sync_group list \<Rightarrow> bool \<times> sync_group list" where
  "closePaneBackendSession closes p groups =
     (if sp_connecting p = Some True then (True, groups)
      else if truthy_text (sp_connectError p) then (True, groups)
      else if \<not> closes (sp_sessionId p) then (False, groups)
      else if sp_type p = RDP \<or> sp_type p = VNC then (True, groups)
      else (True, purgeSessionFromGroups (sp_sessionId p) groups))"

definition releasedPane :: "tab list \<Rightarrow> string \<Rightarrow> session_pane option" where
  "releasedPane previousTabs sid =
     find (\<lambda>p. sp_sessionId p = sid) (concat (map (\<lambda>t. collectSessionPanes (tb_root t)) previousTabs))"

definition closeReleased ::
    "(string \<Rightarrow> bool) \<Rightarrow> tab list \<Rightarrow> bool \<times> sync_group list \<Rightarrow> string \<Rightarrow> bool \<times> sync_group list" where
  "closeReleased closes previousTabs acc sid =
     (case releasedPane previousTabs sid of
        Some p \<Rightarrow> (case closePaneBackendSession closes p (snd acc) of (ok, gs) \<Rightarrow> (fst acc \<and> ok, gs))
      | None \<Rightarrow> acc)"

definition closeReleasedSessions ::
    "(string \<Rightarrow> bool) \<Rightarrow> tab list \<Rightarrow> tab list \<Rightarrow> sync_group list \<Rightarrow> bool \<times> sync_group list" where
  "closeReleasedSessions closes previousTabs nextTabs groups =
     foldl (closeReleased closes previousTabs) (True, groups) (getReleasedSessionIds previousTabs nextTabs)"

text \<open>Whether a pane is live, and whether closing its session purges it from the groups.\<close>

definition live_pane :: "session_pane \<Rightarrow> bool" where
  "live_pane p \<longleftrightarrow> sp_connecting p \<noteq> Some True \<and> \<not> truthy_text (sp_connectError p)"

definition purges :: "(string \<Rightarrow> bool) \<Rightarrow> tab list \<Rightarrow> string \<Rightarrow> bool" where
  "purges closes tabs sid \<longleftrightarrow> (\<exists>p. releasedPane tabs sid = Some p \<and> live_pane p \<and> closes sid
     \<and> sp_type p \<noteq> RDP \<and> sp_type p \<noteq> VNC)"

lemma releasedPane_session: "releasedPane tabs sid = Some p \<Longrightarrow> sp_sessionId p = sid"
  by (auto simp: releasedPane_def find_Some_iff)

lemma closeReleased_groups:
  "snd (closeReleased closes tabs acc sid) =
     (if purges closes tabs sid then purgeSessionFromGroups sid (snd acc) else snd acc)"
  by (auto simp: closeReleased_def closePaneBackendSession_def purges_def live_pane_def
      dest: releasedPane_session split: option.split)

lemma getSyncPeers_purge:
  "a \<noteq> s \<Longrightarrow> getSyncPeers a (purgeSessionFromGroups s gs) = filter (\<lambda>i. i \<noteq> s) (getSyncPeers a gs)"
  using purge_peers [of a s gs "[]"] by (simp add: getSyncPeers_def)

lemma closeReleased_peers:
  assumes "a \<notin> set ss"
  shows "getSyncPeers a (snd (foldl (closeReleased closes tabs) acc ss))
         = filter (\<lambda>i. \<not> (i \<in> set ss \<and> purges closes tabs i)) (getSyncPeers a (snd acc))"
  using assms
proof (induction ss arbitrary: acc)
  case (Cons s ss)
  have "getSyncPeers a (snd (closeReleased closes tabs acc s))
      = filter (\<lambda>i. \<not> (i = s \<and> purges closes tabs i)) (getSyncPeers a (snd acc))"
    using Cons.prems by (auto simp: closeReleased_groups getSyncPeers_purge intro: filter_cong)
  with Cons show ?case by (auto intro: filter_cong)
qed simp

lemma purge_sessionIds: "map sg_sessionIds (purgeSessionFromGroups s gs) = map (\<lambda>g. filter (\<lambda>i. i \<noteq> s) (sg_sessionIds g)) gs"
  by (auto simp: purgeSessionFromGroups_def removeSessionFromGroup_def intro!: filter_True [symmetric])

lemma closeReleased_sessionIds:
  "map sg_sessionIds (snd (foldl (closeReleased closes tabs) acc ss))
     = map (\<lambda>g. filter (\<lambda>i. \<not> (i \<in> set ss \<and> purges closes tabs i)) (sg_sessionIds g)) (snd acc)"
proof (induction ss arbitrary: acc)
  case (Cons s ss)
  let ?keep = "\<lambda>i. \<not> (i \<in> set ss \<and> purges closes tabs i)"
  let ?acc = "closeReleased closes tabs acc s"
  have "map sg_sessionIds (snd (foldl (closeReleased closes tabs) acc (s # ss))) = map (filter ?keep) (map sg_sessionIds (snd ?acc))"
    using Cons.IH [of ?acc] by (simp add: o_def)
  also have "map sg_sessionIds (snd ?acc) = map (\<lambda>g. filter (\<lambda>i. \<not> (i = s \<and> purges closes tabs i)) (sg_sessionIds g)) (snd acc)"
    by (auto simp: closeReleased_groups purge_sessionIds filter_id_conv intro!: filter_cong)
  finally show ?case by (auto intro!: filter_cong)
qed simp

text \<open>C16: closing tabs removes from the synchronization groups exactly the released sessions whose close
  purges them: the live terminal sessions the back end closed. Every group keeps all its other
  members in order, a session that is still shown keeps its peers except for the purged ones, and a
  member that is shown by no tab afterwards, although all were shown before, is a released session
  that was still connecting, had failed to connect, is a remote desktop, or could not be closed.\<close>

theorem closing_tabs_keeps_sync_groups:
  assumes "after = snd (closeReleasedSessions closes prev next groups)"
    and "purged = {i. i \<in> set (getReleasedSessionIds prev next) \<and> purges closes prev i}"
  shows "map sg_sessionIds after = map (\<lambda>g. filter (\<lambda>i. i \<notin> purged) (sg_sessionIds g)) groups
    \<and> (\<forall>a \<in> set (tab_sessions next). getSyncPeers a after = filter (\<lambda>i. i \<notin> purged) (getSyncPeers a groups))
    \<and> ((\<forall>g \<in> set groups. set (sg_sessionIds g) \<subseteq> set (tab_sessions prev)) \<longrightarrow>
        (\<forall>g \<in> set after. \<forall>x \<in> set (sg_sessionIds g). x \<notin> set (tab_sessions next) \<longrightarrow>
           x \<in> set (getReleasedSessionIds prev next) \<and> \<not> purges closes prev x))"
proof (intro conjI ballI impI)
  show ids: "map sg_sessionIds after = map (\<lambda>g. filter (\<lambda>i. i \<notin> purged) (sg_sessionIds g)) groups"
    using closeReleased_sessionIds [of closes prev "(True, groups)" "getReleasedSessionIds prev next"]
    by (simp add: assms closeReleasedSessions_def)
  show "getSyncPeers a after = filter (\<lambda>i. i \<notin> purged) (getSyncPeers a groups)" if "a \<in> set (tab_sessions next)" for a
    using that closeReleased_peers [of a "getReleasedSessionIds prev next" closes prev "(True, groups)"]
    by (simp add: assms closeReleasedSessions_def released_set)
  fix g x
  assume members: "\<forall>g \<in> set groups. set (sg_sessionIds g) \<subseteq> set (tab_sessions prev)"
    and g: "g \<in> set after" and x: "x \<in> set (sg_sessionIds g)" "x \<notin> set (tab_sessions next)"
  have "sg_sessionIds g \<in> set (map sg_sessionIds after)" using g by simp
  then obtain h where "h \<in> set groups" "sg_sessionIds g = filter (\<lambda>i. i \<notin> purged) (sg_sessionIds h)" unfolding ids by auto
  with members x have "x \<in> set (tab_sessions prev)" "x \<notin> purged" by auto
  with x(2) show "x \<in> set (getReleasedSessionIds prev next)" "\<not> purges closes prev x" by (auto simp: assms(2) released_set)
qed

definition two_tabs :: "tab list" where
  "two_tabs = [host_tab ''1'' ''x'', host_tab ''2'' ''y'']"

definition two_members :: sync_group where
  "two_members = \<lparr>sg_id = ''g'', sg_name = ''g'', sg_color = ''#3b82f6'', sg_sessionIds = [''s1'', ''s2''],
     sg_pausedSessionIds = [], sg_enabled = True\<rparr>"

theorem closing_tabs_keeps_sync_groups_witness:
  "getSyncPeers ''s1'' (snd (closeReleasedSessions (\<lambda>_. True) two_tabs [host_tab ''1'' ''x''] [two_members])) = []"
proof -
  have ts: "tab_sessions two_tabs = [''s1'', ''s2'']" "tab_sessions [host_tab ''1'' ''x''] = [''s1'']"
    by (simp_all add: tab_sessions_def two_tabs_def host_tab_def demo_pane_def)
  have peers: "getSyncPeers ''s1'' [two_members] = [''s2'']"
    by (simp add: getSyncPeers_def groupPeers_def two_members_def add_peer_def)
  have "purges (\<lambda>_. True) two_tabs ''s2''"
    by (simp add: purges_def releasedPane_def two_tabs_def host_tab_def demo_pane_def live_pane_def truthy_text_def)
  moreover have "''s2'' \<in> set (getReleasedSessionIds two_tabs [host_tab ''1'' ''x''])" by (simp add: released_set ts)
  moreover note closing_tabs_keeps_sync_groups [of _ "\<lambda>_. True" two_tabs "[host_tab ''1'' ''x'']" "[two_members]", OF refl refl]
  ultimately show ?thesis by (simp add: ts peers)
qed

section \<open>Synchronized input\<close>

text \<open>C15: input typed in a synchronized session reaches every peer once. The input is written to the
  session and, when that succeeded, once to each session that the groups and the broadcast
  mode give as its peers; when the session's own write or the registration of the command is
  rejected, no peer is written to, and a rejected registration also keeps the session's own
  write back. No session is written to twice, and only the session itself is shown a preview
  of the input.\<close>

theorem synchronized_input_once:
  assumes "sendSessionInputWithSync works sid data (getSessionInputPeerIds sid groups tabs all) opts sd = (r, sd')"
  shows "\<exists>es. sd_log sd' = sd_log sd @ es \<and> distinct (map fst (writes es)) \<and> (\<forall>w \<in> set (writes es). snd w = data)
    \<and> set (map fst (writes es)) =
        (case r of Inl RegisterRejected \<Rightarrow> {} | Inl WriteRejected \<Rightarrow> {sid}
         | Inr _ \<Rightarrow> insert sid {b. linked groups sid b \<or>
             (all \<and> (\<exists>t \<in> set tabs. \<exists>p \<in> set (collectSessionPanes (tb_root t)). broadcastTarget sid p \<and> sp_sessionId p = b))})
    \<and> (\<forall>s p. PreviewEvent s p \<in> set es \<longrightarrow> s = sid)"
proof -
  have fst_peers: "map fst (map (\<lambda>p. (p, data)) ps) = ps" for ps :: "string list" by (induction ps) auto
  show ?thesis
  proof (rule sync_send_cases [OF assms])
    fix es
    assume log: "sd_log sd' = sd_log sd @ es" and pv: "\<forall>s p. PreviewEvent s p \<in> set es \<longrightarrow> s = sid"
      and w: "writes es = (case r of Inr _ \<Rightarrow> (sid, data) # map (\<lambda>p. (p, data)) (getSessionInputPeerIds sid groups tabs all)
        | Inl WriteRejected \<Rightarrow> [(sid, data)] | Inl RegisterRejected \<Rightarrow> [])"
    have "distinct (map fst (writes es)) \<and> (\<forall>w \<in> set (writes es). snd w = data)"
      unfolding w using inputPeers_exact(2,3) [of sid groups tabs all]
      by (cases r) (auto simp: fst_peers o_def split: send_error.split)
    moreover have "set (map fst (writes es)) =
        (case r of Inl RegisterRejected \<Rightarrow> {} | Inl WriteRejected \<Rightarrow> {sid}
         | Inr _ \<Rightarrow> insert sid (set (getSessionInputPeerIds sid groups tabs all)))"
      unfolding w by (cases r) (auto simp: fst_peers split: send_error.split)
    ultimately show ?thesis using log pv unfolding inputPeers_exact(1) by blast
  qed
qed

theorem synchronized_input_once_witness:
  "\<exists>es. sd_log (snd (sendSessionInputWithSync (\<lambda>_. True) ''a'' [120] (getSessionInputPeerIds ''a'' [demo_group] [] False)
         \<lparr>so_preview = None, so_registerSubmission = None, so_origin = None, so_sensitivity = None\<rparr> \<lparr>sd_history = [], sd_log = []\<rparr>)) = es
     \<and> set (map fst (writes es)) = {''a'', ''b''}"
proof -
  let ?o = "\<lparr>so_preview = None, so_registerSubmission = None, so_origin = None, so_sensitivity = None\<rparr>"
  let ?r = "sendSessionInputWithSync (\<lambda>_. True) ''a'' [120] (getSessionInputPeerIds ''a'' [demo_group] [] False) ?o \<lparr>sd_history = [], sd_log = []\<rparr>"
  have r: "?r = (Inr (), snd ?r)"
    by (simp add: sendSessionInputWithSync_def sendSessionInput_def Let_def emit_def)
  have l: "linked [demo_group] ''a'' b \<longleftrightarrow> b = ''b''" for b by (auto simp: linked_def demo_group_def)
  from synchronized_input_once [OF r] show ?thesis by (auto simp: l)
qed

end
